(* ===== verification/KPrelude.thy ===== *)
theory KPrelude
  imports Main "HOL-Library.Word"
begin

text \<open>
  Prelude of the development: the result type of the kernel operations (a value, a panic or a
  thread going to sleep), its sequencing and its total-correctness judgement, C memory as a
  function from addresses to bytes with the copies and the little-endian accesses the code
  performs on it, 32-bit wrap-around on naturals, and the lemmas on these that the components
  share.
\<close>

unbundle bit_operations_syntax

section \<open>Automation collections\<close>

named_theorems wp_rules
  \<comment> \<open>total-correctness rules of the operations, premises first\<close>
named_theorems layout_simps
  \<comment> \<open>constants of the C headers\<close>

section \<open>Results of kernel operations\<close>

text \<open>
  Sleep channels are addresses of kernel objects in the C code (\<open>void *chan\<close>). Two different
  objects have different addresses, so an address is a constructor with the index of the object.
  \<open>ChInt\<close> is an integer cast to a pointer; \<open>ChInt 0\<close> is the null pointer.
\<close>

datatype chan =
    ChInt int
  | ChProc nat
  | ChTicks
  | ChBuf nat
  | ChBufLock nat
  | ChInodeLock nat
  | ChLog
  | ChPipeRead nat
  | ChPipeWrite nat
  | ChInput

text \<open>
  \<open>Ok x\<close>: the operation returns. \<open>Panic m\<close>: it calls \<open>panic(m)\<close>, which freezes the machine.
  \<open>Block c\<close>: it calls \<open>sleep(c, ..)\<close>; control passes to other threads. \<open>Spin\<close>: it busy-waits
  for another CPU.
\<close>

datatype 'a res = Ok 'a | Panic string | Block chan | Spin

fun bindr :: "'a res \<Rightarrow> ('a \<Rightarrow> 'b res) \<Rightarrow> 'b res" where
  "bindr (Ok x) f = f x"
| "bindr (Panic m) f = Panic m"
| "bindr (Block c) f = Block c"
| "bindr Spin f = Spin"

lemma bindr_assoc: "bindr (bindr r f) g = bindr r (\<lambda>x. bindr (f x) g)"
  by (cases r) simp_all

lemma bindr_eq_Ok: "bindr r f = Ok y \<longleftrightarrow> (\<exists>x. r = Ok x \<and> f x = Ok y)"
  by (cases r) simp_all

lemma bindr_eq_Panic:
  "bindr r f = Panic m \<longleftrightarrow> r = Panic m \<or> (\<exists>x. r = Ok x \<and> f x = Panic m)"
  by (cases r) auto

lemma bindr_Ok_right [simp]: "bindr r Ok = r"
  by (cases r) simp_all

lemma bindr_cong [fundef_cong]:
  "r = r' \<Longrightarrow> (\<And>x. r' = Ok x \<Longrightarrow> f x = g x) \<Longrightarrow> bindr r f = bindr r' g"
  by (cases r') simp_all

text \<open>Total correctness: the operation returns, and its result satisfies the postcondition.\<close>

fun okP :: "'a res \<Rightarrow> ('a \<Rightarrow> bool) \<Rightarrow> bool" where
  "okP (Ok x) Q = Q x"
| "okP (Panic m) Q = False"
| "okP (Block c) Q = False"
| "okP Spin Q = False"

lemma okP_bindr [simp]: "okP (bindr r f) Q = okP r (\<lambda>x. okP (f x) Q)"
  by (cases r) simp_all

lemma okP_mono: "okP r P \<Longrightarrow> (\<And>x. P x \<Longrightarrow> Q x) \<Longrightarrow> okP r Q"
  by (cases r) simp_all

lemma okP_conj: "okP r (\<lambda>x. P x \<and> Q x) \<longleftrightarrow> okP r P \<and> okP r Q"
  by (cases r) simp_all

lemma okP_iff: "okP r Q \<longleftrightarrow> (\<exists>x. r = Ok x \<and> Q x)"
  by (cases r) simp_all

lemma okP_if: "okP (if b then r else r') Q = (if b then okP r Q else okP r' Q)"
  by simp

text \<open>Partial correctness: whatever the operation returns satisfies the postcondition.\<close>

fun retP :: "'a res \<Rightarrow> ('a \<Rightarrow> bool) \<Rightarrow> bool" where
  "retP (Ok x) Q = Q x"
| "retP (Panic m) Q = True"
| "retP (Block c) Q = True"
| "retP Spin Q = True"

lemma retP_bindr [simp]: "retP (bindr r f) Q = retP r (\<lambda>x. retP (f x) Q)"
  by (cases r) simp_all

lemma retP_mono: "retP r P \<Longrightarrow> (\<And>x. P x \<Longrightarrow> Q x) \<Longrightarrow> retP r Q"
  by (cases r) simp_all

lemma retP_iff: "retP r Q \<longleftrightarrow> (\<forall>x. r = Ok x \<longrightarrow> Q x)"
  by (cases r) simp_all

section \<open>Machine integers over naturals\<close>

abbreviation u32_mod :: nat where "u32_mod \<equiv> 4294967296"

definition wrap32 :: "nat \<Rightarrow> nat" where
  "wrap32 n = n mod u32_mod"

lemma wrap32_small [simp]: "n < u32_mod \<Longrightarrow> wrap32 n = n"
  by (simp add: wrap32_def)

lemma wrap32_less [simp]: "wrap32 n < u32_mod"
  by (simp add: wrap32_def)

text \<open>Unsigned subtraction.\<close>

definition sub32 :: "nat \<Rightarrow> nat \<Rightarrow> nat" where
  "sub32 a b = (a + u32_mod - b mod u32_mod) mod u32_mod"

lemma sub32_le: "b \<le> a \<Longrightarrow> a < u32_mod \<Longrightarrow> sub32 a b = a - b"
proof -
  assume b: "b \<le> a" and a: "a < u32_mod"
  then have "a + u32_mod - b mod u32_mod = (a - b) + u32_mod" by simp
  with a show ?thesis by (simp add: sub32_def)
qed

text \<open>The \<open>int\<close> that a 32-bit pattern denotes, and back.\<close>

definition s32 :: "nat \<Rightarrow> int" where
  "s32 n = (if n < 2147483648 then int n else int n - 4294967296)"

definition u32_of :: "int \<Rightarrow> nat" where
  "u32_of i = nat (i mod 4294967296)"

lemma u32_of_less [simp]: "u32_of i < u32_mod"
  by (simp add: u32_of_def nat_less_iff)

lemma s32_u32_of: "- 2147483648 \<le> i \<Longrightarrow> i < 2147483648 \<Longrightarrow> s32 (u32_of i) = i"
proof (cases "i < 0")
  case True
  assume "- 2147483648 \<le> i" "i < 2147483648"
  with True have "i mod 4294967296 = i + 4294967296"
    by (intro int_mod_pos_eq [where q = "-1"]) simp_all
  with True \<open>- 2147483648 \<le> i\<close> show ?thesis by (simp add: s32_def u32_of_def)
next
  case False
  assume "i < 2147483648"
  with False show ?thesis by (simp add: s32_def u32_of_def)
qed

lemma u32_of_s32: "n < u32_mod \<Longrightarrow> u32_of (s32 n) = n"
proof (cases "n < 2147483648")
  case True
  then show ?thesis by (simp add: s32_def u32_of_def)
next
  case False
  assume "n < u32_mod"
  then have "(int n - 4294967296) mod 4294967296 = int n"
    by (intro int_mod_pos_eq [where q = "-1"]) simp_all
  with False show ?thesis by (simp add: s32_def u32_of_def)
qed

lemma u32_of_nat [simp]: "n < u32_mod \<Longrightarrow> u32_of (int n) = n"
  by (simp add: u32_of_def)

section \<open>C memory\<close>

type_synonym byte = "8 word"
type_synonym mem = "nat \<Rightarrow> byte"

text \<open>
  \<open>blit src so dst d n\<close> is \<open>dst\<close> after copying \<open>n\<close> bytes from \<open>src + so\<close> to \<open>dst + d\<close>;
  \<open>fill b dst d n\<close> is \<open>dst\<close> after \<open>memset(dst + d, b, n)\<close>.
\<close>

definition blit :: "mem \<Rightarrow> nat \<Rightarrow> mem \<Rightarrow> nat \<Rightarrow> nat \<Rightarrow> mem" where
  "blit src so dst d n = (\<lambda>a. if d \<le> a \<and> a < d + n then src (so + (a - d)) else dst a)"

definition fill :: "byte \<Rightarrow> mem \<Rightarrow> nat \<Rightarrow> nat \<Rightarrow> mem" where
  "fill b dst d n = (\<lambda>a. if d \<le> a \<and> a < d + n then b else dst a)"

lemma blit_in [simp]: "d \<le> a \<Longrightarrow> a < d + n \<Longrightarrow> blit src so dst d n a = src (so + (a - d))"
  by (simp add: blit_def)

lemma blit_out [simp]: "a < d \<or> d + n \<le> a \<Longrightarrow> blit src so dst d n a = dst a"
  by (auto simp: blit_def)

lemma blit_0 [simp]: "blit src so dst d 0 = dst"
  by (rule ext) (auto simp: blit_def)

lemma fill_in [simp]: "d \<le> a \<Longrightarrow> a < d + n \<Longrightarrow> fill b dst d n a = b"
  by (simp add: fill_def)

lemma fill_out [simp]: "a < d \<or> d + n \<le> a \<Longrightarrow> fill b dst d n a = dst a"
  by (auto simp: fill_def)

lemma fill_0 [simp]: "fill b m a 0 = m"
  by (rule ext) (auto simp: fill_def)

lemma blit_Suc_upd:
  "d \<le> s \<or> s + n < d \<Longrightarrow>
     blit (m(d := m s)) (s + 1) (m(d := m s)) (d + 1) n = blit m s m d (Suc n)"
proof (rule ext)
  fix a
  assume ov: "d \<le> s \<or> s + n < d"
  consider "a < d" | "a = d" | k where "a = d + 1 + k"
    by (metis Suc_eq_plus1 less_iff_Suc_add linorder_less_linear add_Suc)
  then show "blit (m(d := m s)) (s + 1) (m(d := m s)) (d + 1) n a = blit m s m d (Suc n) a"
    using ov by cases (auto simp: blit_def)
qed

text \<open>The bytes \<open>[a, a + n)\<close> as a list, and storing a list of bytes.\<close>

definition bytes_at :: "mem \<Rightarrow> nat \<Rightarrow> nat \<Rightarrow> byte list" where
  "bytes_at m a n = map m [a..<a + n]"

definition put_bytes :: "byte list \<Rightarrow> mem \<Rightarrow> nat \<Rightarrow> mem" where
  "put_bytes bs m a = (\<lambda>i. if a \<le> i \<and> i < a + length bs then bs ! (i - a) else m i)"

lemma length_bytes_at [simp]: "length (bytes_at m a n) = n"
  by (simp add: bytes_at_def)

lemma nth_bytes_at [simp]: "i < n \<Longrightarrow> bytes_at m a n ! i = m (a + i)"
  by (simp add: bytes_at_def)

lemma bytes_at_put_bytes [simp]: "bytes_at (put_bytes bs m a) a (length bs) = bs"
  by (rule nth_equalityI) (simp_all add: put_bytes_def)

lemma bytes_at_cong:
  "(\<And>i. a \<le> i \<Longrightarrow> i < a + n \<Longrightarrow> m i = m' i) \<Longrightarrow> bytes_at m a n = bytes_at m' a n"
  by (simp add: bytes_at_def)

lemma bytes_at_append: "bytes_at m a (n + k) = bytes_at m a n @ bytes_at m (a + n) k"
proof -
  have "[a..<a + (n + k)] = [a..<a + n] @ [a + n..<a + n + k]"
    using upt_add_eq_append [of a "a + n" k] by (simp add: add.assoc)
  then show ?thesis by (simp add: bytes_at_def)
qed

lemma bytes_at_eqD: "bytes_at m a n = bytes_at m' a' n \<Longrightarrow> i < n \<Longrightarrow> m (a + i) = m' (a' + i)"
  by (metis nth_bytes_at)

section \<open>Little-endian accesses\<close>

definition rd16 :: "mem \<Rightarrow> nat \<Rightarrow> nat" where
  "rd16 m a = unat (m a) + 256 * unat (m (a + 1))"

definition rd32 :: "mem \<Rightarrow> nat \<Rightarrow> nat" where
  "rd32 m a = unat (m a) + 256 * unat (m (a + 1)) + 65536 * unat (m (a + 2))
     + 16777216 * unat (m (a + 3))"

definition wr16 :: "mem \<Rightarrow> nat \<Rightarrow> nat \<Rightarrow> mem" where
  "wr16 m a v = m(a := of_nat v, a + 1 := of_nat (v div 256))"

definition wr32 :: "mem \<Rightarrow> nat \<Rightarrow> nat \<Rightarrow> mem" where
  "wr32 m a v = m(a := of_nat v, a + 1 := of_nat (v div 256),
     a + 2 := of_nat (v div 65536), a + 3 := of_nat (v div 16777216))"

lemma byte_less: "unat (b :: byte) < 256"
proof -
  have "unat b < 2 ^ LENGTH(8)" by (rule unsigned_less)
  then show ?thesis by simp
qed

lemma byte_uint_eq [simp]: "uint (a :: byte) = uint b \<longleftrightarrow> a = b"
  by (simp add: word_uint_eq_iff)

lemma byte_uint_eq_0 [simp]: "uint (a :: byte) = 0 \<longleftrightarrow> a = 0" "0 = uint a \<longleftrightarrow> a = 0"
  by (auto simp: word_uint_eq_iff)

lemma unat_of_nat_byte [simp]: "unat (of_nat n :: byte) = n mod 256"
  by (simp add: unat_of_nat)

lemma of_nat_byte_cong: "a mod 256 = b mod 256 \<Longrightarrow> (of_nat a :: byte) = of_nat b"
  by (metis unat_of_nat_byte unsigned_word_eqI)

lemma rd16_less: "rd16 m a < 65536"
  using byte_less [of "m a"] byte_less [of "m (a + 1)"] by (simp add: rd16_def)

lemma rd32_less: "rd32 m a < u32_mod"
  using byte_less [of "m a"] byte_less [of "m (a + 1)"] byte_less [of "m (a + 2)"]
    byte_less [of "m (a + 3)"]
  by (simp add: rd32_def)

lemma mod_digits2: "v mod 256 + 256 * (v div 256 mod 256) = v mod (65536 :: nat)"
  using mod_mult2_eq [of v 256 256] by simp

lemma mod_digits4:
  "v mod 256 + 256 * (v div 256 mod 256) + 65536 * (v div 65536 mod 256)
     + 16777216 * (v div 16777216 mod 256) = v mod (u32_mod :: nat)"
proof -
  have "v mod u32_mod = v mod 65536 + 65536 * (v div 65536 mod 65536)"
    using mod_mult2_eq [of v 65536 65536] by simp
  moreover have "v div 65536 mod 65536 = v div 65536 mod 256 + 256 * (v div 16777216 mod 256)"
    using mod_digits2 [of "v div 65536"] by (simp add: div_mult2_eq [symmetric])
  ultimately show ?thesis using mod_digits2 [of v] by simp
qed

lemma rd16_wr16 [simp]: "rd16 (wr16 m a v) a = v mod 65536"
  by (simp add: rd16_def wr16_def mod_digits2)

lemma rd32_wr32 [simp]: "rd32 (wr32 m a v) a = v mod u32_mod"
  by (simp add: rd32_def wr32_def mod_digits4)

lemma rd16_cong: "m a = m' a \<Longrightarrow> m (a + 1) = m' (a + 1) \<Longrightarrow> rd16 m a = rd16 m' a"
  by (simp add: rd16_def)

lemma rd32_cong: "(\<And>i. a \<le> i \<Longrightarrow> i < a + 4 \<Longrightarrow> m i = m' i) \<Longrightarrow> rd32 m a = rd32 m' a"
  by (simp add: rd32_def)

lemma wr32_out: "i < a \<or> a + 4 \<le> i \<Longrightarrow> wr32 m a v i = m i"
  by (auto simp: wr32_def)

lemma wr16_out: "i < a \<or> a + 2 \<le> i \<Longrightarrow> wr16 m a v i = m i"
  by (auto simp: wr16_def)

lemma rd32_wr32_other [simp]: "b + 4 \<le> a \<or> a + 4 \<le> b \<Longrightarrow> rd32 (wr32 m a v) b = rd32 m b"
  by (rule rd32_cong) (auto simp: wr32_out)

lemma rd16_wr16_other [simp]: "b + 2 \<le> a \<or> a + 2 \<le> b \<Longrightarrow> rd16 (wr16 m a v) b = rd16 m b"
  by (rule rd16_cong) (auto simp: wr16_out)

lemma rd16_wr32_other [simp]: "b + 2 \<le> a \<or> a + 4 \<le> b \<Longrightarrow> rd16 (wr32 m a v) b = rd16 m b"
  by (rule rd16_cong) (auto simp: wr32_out)

lemma rd32_wr16_other [simp]: "b + 4 \<le> a \<or> a + 2 \<le> b \<Longrightarrow> rd32 (wr16 m a v) b = rd32 m b"
  by (rule rd32_cong) (auto simp: wr16_out)

lemma rd32_blit_in:
  "d \<le> a \<Longrightarrow> a + 4 \<le> d + n \<Longrightarrow> rd32 (blit src so dst d n) a = rd32 src (so + (a - d))"
proof -
  assume d: "d \<le> a" and n: "a + 4 \<le> d + n"
  from d obtain k where a: "a = d + k" by (auto simp: le_iff_add)
  from n show ?thesis unfolding a by (simp add: rd32_def add.assoc)
qed

lemma rd32_blit_out [simp]:
  "a + 4 \<le> d \<or> d + n \<le> a \<Longrightarrow> rd32 (blit src so dst d n) a = rd32 dst a"
  by (rule rd32_cong) auto

section \<open>Signed 16-bit fields\<close>

definition s16 :: "nat \<Rightarrow> int" where
  "s16 n = (if n < 32768 then int n else int n - 65536)"

definition u16_of :: "int \<Rightarrow> nat" where
  "u16_of i = nat (i mod 65536)"

lemma s16_u16_of: "- 32768 \<le> i \<Longrightarrow> i < 32768 \<Longrightarrow> s16 (u16_of i) = i"
proof (cases "i < 0")
  case True
  assume "- 32768 \<le> i"
  with True have "i mod 65536 = i + 65536"
    by (intro int_mod_pos_eq [where q = "-1"]) simp_all
  with True \<open>- 32768 \<le> i\<close> show ?thesis by (simp add: s16_def u16_of_def)
next
  case False
  assume "i < 32768"
  with False show ?thesis by (simp add: s16_def u16_of_def)
qed

lemma u16_of_less: "u16_of i < 65536"
  by (simp add: u16_of_def nat_less_iff)

section \<open>Searching arrays\<close>

text \<open>
  The scans \<open>for(i = 0; i < n; i++) if(P(i)) ...\<close> stop at the first index that satisfies the
  test. \<open>first_idx\<close> is that index.
\<close>

fun first_from :: "nat \<Rightarrow> nat \<Rightarrow> (nat \<Rightarrow> bool) \<Rightarrow> nat option" where
  "first_from i 0 P = None"
| "first_from i (Suc k) P = (if P i then Some i else first_from (Suc i) k P)"

definition first_idx :: "nat \<Rightarrow> (nat \<Rightarrow> bool) \<Rightarrow> nat option" where
  "first_idx n P = first_from 0 n P"

lemma first_from_Some:
  "first_from i k P = Some j \<longleftrightarrow> i \<le> j \<and> j < i + k \<and> P j \<and> (\<forall>l. i \<le> l \<and> l < j \<longrightarrow> \<not> P l)"
proof (induction k arbitrary: i)
  case 0
  then show ?case by auto
next
  case (Suc k)
  show ?case
  proof (cases "P i")
    case True
    then show ?thesis by (auto intro: le_neq_implies_less)
  next
    case False
    then have "first_from i (Suc k) P = Some j \<longleftrightarrow> Suc i \<le> j \<and> j < Suc i + k \<and> P j
        \<and> (\<forall>l. Suc i \<le> l \<and> l < j \<longrightarrow> \<not> P l)"
      using Suc.IH [of "Suc i"] by simp
    also have "\<dots> \<longleftrightarrow> i \<le> j \<and> j < i + Suc k \<and> P j \<and> (\<forall>l. i \<le> l \<and> l < j \<longrightarrow> \<not> P l)"
      using False by (auto simp: Suc_le_eq) (metis le_neq_implies_less)+
    finally show ?thesis .
  qed
qed

lemma first_from_None: "first_from i k P = None \<longleftrightarrow> (\<forall>l. i \<le> l \<and> l < i + k \<longrightarrow> \<not> P l)"
proof (induction k arbitrary: i)
  case 0
  then show ?case by auto
next
  case (Suc k)
  then show ?case
    by (auto simp: Suc_le_eq) (metis le_neq_implies_less)
qed

lemma first_idx_Some:
  "first_idx n P = Some j \<longleftrightarrow> j < n \<and> P j \<and> (\<forall>l < j. \<not> P l)"
  by (simp add: first_idx_def first_from_Some)

lemma first_idx_None: "first_idx n P = None \<longleftrightarrow> (\<forall>l < n. \<not> P l)"
  by (simp add: first_idx_def first_from_None)

lemma first_idx_cong: "(\<And>i. i < n \<Longrightarrow> P i = Q i) \<Longrightarrow> first_idx n P = first_idx n Q"
proof -
  assume eq: "\<And>i. i < n \<Longrightarrow> P i = Q i"
  have "first_from i k P = first_from i k Q" if "i + k \<le> n" for i k
    using that eq by (induction k arbitrary: i) auto
  then show ?thesis by (simp add: first_idx_def)
qed

text \<open>Searching a list from the front.\<close>

lemma find_SomeD: "find P xs = Some x \<Longrightarrow> x \<in> set xs \<and> P x"
  by (induction xs) (auto split: if_splits)

lemma find_NoneD: "find P xs = None \<Longrightarrow> x \<in> set xs \<Longrightarrow> \<not> P x"
  by (induction xs) (auto split: if_splits)

lemma find_unique:
  "x \<in> set xs \<Longrightarrow> P x \<Longrightarrow> (\<And>y. y \<in> set xs \<Longrightarrow> P y \<Longrightarrow> y = x) \<Longrightarrow> find P xs = Some x"
  by (metis find_NoneD find_SomeD not_None_eq)

end
