(* ===== verification/CString.thy ===== *)
theory CString
  imports KPrelude
begin

text \<open>
  The kernel's \<open>string.c\<close>: \<open>memset\<close>, \<open>memcmp\<close>, \<open>memmove\<close>, \<open>strncmp\<close>, \<open>strncpy\<close>,
  \<open>safestrcpy\<close> and \<open>strlen\<close>, byte by byte as the loops run, and what each computes.
  Objects do not wrap around the end of the address space. Where source and destination are
  different objects the definition takes two memories; \<open>memmove\<close> takes one, since overlap is
  its point.
\<close>

section \<open>Copying and filling\<close>

text \<open>\<open>stosb\<close> and \<open>stosl\<close> of \<open>x86.h\<close>: store a byte \<open>n\<close> times, a word \<open>n\<close> times.\<close>

fun stosb :: "nat \<Rightarrow> byte \<Rightarrow> nat \<Rightarrow> mem \<Rightarrow> mem" where
  "stosb a b 0 m = m"
| "stosb a b (Suc n) m = stosb (a + 1) b n (m(a := b))"

fun stosl :: "nat \<Rightarrow> nat \<Rightarrow> nat \<Rightarrow> mem \<Rightarrow> mem" where
  "stosl a w 0 m = m"
| "stosl a w (Suc n) m = stosl (a + 4) w n (wr32 m a w)"

definition memset :: "nat \<Rightarrow> int \<Rightarrow> nat \<Rightarrow> mem \<Rightarrow> mem" where
  "memset dst c n m =
     (if dst mod 4 = 0 \<and> n mod 4 = 0
      then let c = u32_of c mod 256
           in stosl dst (c * 16777216 + c * 65536 + c * 256 + c) (n div 4) m
      else stosb dst (of_nat (u32_of c mod 256)) n m)"

fun memcmp :: "mem \<Rightarrow> nat \<Rightarrow> mem \<Rightarrow> nat \<Rightarrow> nat \<Rightarrow> int" where
  "memcmp m1 s1 m2 s2 0 = 0"
| "memcmp m1 s1 m2 s2 (Suc n) =
     (if m1 s1 \<noteq> m2 s2 then int (unat (m1 s1)) - int (unat (m2 s2))
      else memcmp m1 (s1 + 1) m2 (s2 + 1) n)"

fun copy_up :: "nat \<Rightarrow> nat \<Rightarrow> nat \<Rightarrow> mem \<Rightarrow> mem" where
  "copy_up 0 d s m = m"
| "copy_up (Suc n) d s m = copy_up n (d + 1) (s + 1) (m(d := m s))"

fun copy_down :: "nat \<Rightarrow> nat \<Rightarrow> nat \<Rightarrow> mem \<Rightarrow> mem" where
  "copy_down 0 d s m = m"
| "copy_down (Suc n) d s m = copy_down n (d - 1) (s - 1) (m(d - 1 := m (s - 1)))"

definition memmove :: "nat \<Rightarrow> nat \<Rightarrow> nat \<Rightarrow> mem \<Rightarrow> mem" where
  "memmove dst src n m =
     (if src < dst \<and> dst < src + n then copy_down n (dst + n) (src + n) m
      else copy_up n dst src m)"

definition memcpy :: "nat \<Rightarrow> nat \<Rightarrow> nat \<Rightarrow> mem \<Rightarrow> mem" where
  "memcpy dst src n m = memmove dst src n m"

lemma stosb_fill: "stosb a b n m = fill b m a n"
  by (induction n arbitrary: a m) (auto simp: fill_def fun_eq_iff)

lemma wr32_rep: "c < 256 \<Longrightarrow> wr32 m a (16843009 * c) = fill (of_nat c) m a 4"
proof -
  assume c: "c < 256"
  have d: "16843009 * c div 256 = 65793 * c" "16843009 * c div 65536 = 257 * c"
    "16843009 * c div 16777216 = c"
    using c by simp_all
  have e: "16843009 * c = c + 65793 * c * 256" "65793 * c = c + 257 * c * 256"
    "257 * c = c + c * 256"
    by simp_all
  have "(of_nat (16843009 * c) :: byte) = of_nat c" "(of_nat (65793 * c) :: byte) = of_nat c"
    "(of_nat (257 * c) :: byte) = of_nat c"
    by (rule of_nat_byte_cong, subst e, rule mod_mult_self1)+
  with d show ?thesis
    by (auto simp: wr32_def fill_def fun_eq_iff simp del: of_nat_mult)
qed

lemma stosl_fill: "c < 256 \<Longrightarrow> stosl a (16843009 * c) n m = fill (of_nat c) m a (4 * n)"
proof (induction n arbitrary: a m)
  case 0
  then show ?case by simp
next
  case (Suc n)
  then have "stosl a (16843009 * c) (Suc n) m = fill (of_nat c) (fill (of_nat c) m a 4) (a + 4) (4 * n)"
    by (simp add: wr32_rep)
  then show ?case by (auto simp: fill_def fun_eq_iff)
qed

lemma memset_fill: "memset dst c n m = fill (of_nat (u32_of c mod 256)) m dst n"
proof (cases "dst mod 4 = 0 \<and> n mod 4 = 0")
  case True
  then have "4 * (n div 4) = n" by auto
  with True stosl_fill [of "u32_of c mod 256" dst "n div 4" m] show ?thesis
    by (simp add: memset_def Let_def)
next
  case False
  then show ?thesis by (auto simp: memset_def stosb_fill)
qed

lemma copy_up_blit: "d \<le> s \<or> s + n \<le> d \<Longrightarrow> copy_up n d s m = blit m s m d n"
proof (induction n arbitrary: d s m)
  case 0
  then show ?case by simp
next
  case (Suc n)
  then have "copy_up (Suc n) d s m = blit (m(d := m s)) (s + 1) (m(d := m s)) (d + 1) n"
    by (simp only: copy_up.simps) (rule Suc.IH, auto)
  also have "\<dots> = blit m s m d (Suc n)"
    using Suc.prems by (intro blit_Suc_upd) auto
  finally show ?case .
qed

lemma copy_down_blit: "s \<le> d \<Longrightarrow> copy_down n (d + n) (s + n) m = blit m s m d n"
proof (induction n arbitrary: m)
  case 0
  then show ?case by simp
next
  case (Suc n)
  then have "copy_down (Suc n) (d + Suc n) (s + Suc n) m
      = blit (m(d + n := m (s + n))) s (m(d + n := m (s + n))) d n"
    by simp
  also have "\<dots> = blit m s m d (Suc n)"
    using Suc.prems by (auto simp: blit_def fun_eq_iff Suc_le_eq less_Suc_eq)
  finally show ?case .
qed

theorem memmove_blit: "memmove dst src n m = blit m src m dst n"
  by (auto simp: memmove_def copy_up_blit copy_down_blit not_less)

lemma memcmp_0_iff: "memcmp m1 s1 m2 s2 n = 0 \<longleftrightarrow> bytes_at m1 s1 n = bytes_at m2 s2 n"
proof (induction n arbitrary: s1 s2)
  case 0
  then show ?case by (simp add: bytes_at_def)
next
  case (Suc n)
  have "bytes_at m s (Suc n) = m s # bytes_at m (s + 1) n" for m s
    by (simp add: bytes_at_def upt_conv_Cons del: upt_Suc)
  with Suc show ?case by auto
qed

section \<open>Strings\<close>

fun strncmp :: "mem \<Rightarrow> nat \<Rightarrow> mem \<Rightarrow> nat \<Rightarrow> nat \<Rightarrow> int" where
  "strncmp mp p mq q 0 = 0"
| "strncmp mp p mq q (Suc n) =
     (if mp p \<noteq> 0 \<and> mp p = mq q then strncmp mp (p + 1) mq (q + 1) n
      else int (unat (mp p)) - int (unat (mq q)))"

fun strncpy_loop :: "nat \<Rightarrow> mem \<Rightarrow> nat \<Rightarrow> mem \<Rightarrow> nat \<Rightarrow> mem" where
  "strncpy_loop 0 ms s mt t = ms"
| "strncpy_loop (Suc n) ms s mt t =
     (if mt t \<noteq> 0 then strncpy_loop n (ms(s := mt t)) (s + 1) mt (t + 1)
      else stosb (s + 1) 0 n (ms(s := mt t)))"

definition strncpy :: "mem \<Rightarrow> nat \<Rightarrow> mem \<Rightarrow> nat \<Rightarrow> int \<Rightarrow> mem" where
  "strncpy ms s mt t n = strncpy_loop (nat n) ms s mt t"

fun safestrcpy_loop :: "nat \<Rightarrow> mem \<Rightarrow> nat \<Rightarrow> mem \<Rightarrow> nat \<Rightarrow> mem" where
  "safestrcpy_loop 0 ms s mt t = ms(s := 0)"
| "safestrcpy_loop (Suc n) ms s mt t =
     (if mt t \<noteq> 0 then safestrcpy_loop n (ms(s := mt t)) (s + 1) mt (t + 1)
      else ms(s := mt t, s + 1 := 0))"

definition safestrcpy :: "mem \<Rightarrow> nat \<Rightarrow> mem \<Rightarrow> nat \<Rightarrow> int \<Rightarrow> mem" where
  "safestrcpy ms s mt t n = (if n \<le> 0 then ms else safestrcpy_loop (nat n - 1) ms s mt t)"

text \<open>\<open>strlen\<close> runs until it meets a zero byte, so it may not return.\<close>

partial_function (option) strlen_from :: "mem \<Rightarrow> nat \<Rightarrow> nat \<Rightarrow> nat option" where
  "strlen_from m s n = (if m (s + n) = 0 then Some n else strlen_from m s (n + 1))"

definition strlen :: "mem \<Rightarrow> nat \<Rightarrow> nat option" where
  "strlen m s = strlen_from m s 0"

text \<open>
  The string held by an array of \<open>n\<close> bytes that is NUL-terminated only when it is shorter than
  the array, as names in directory entries are.
\<close>

definition array_str :: "mem \<Rightarrow> nat \<Rightarrow> nat \<Rightarrow> byte list" where
  "array_str m a n = takeWhile (\<lambda>b. b \<noteq> 0) (bytes_at m a n)"

lemma bytes_at_Suc: "bytes_at m a (Suc n) = m a # bytes_at m (a + 1) n"
  by (simp add: bytes_at_def upt_conv_Cons del: upt_Suc)

lemma bytes_at_0 [simp]: "bytes_at m a 0 = []"
  by (simp add: bytes_at_def)

lemma array_str_0 [simp]: "array_str m a 0 = []"
  by (simp add: array_str_def)

lemma array_str_Suc:
  "array_str m a (Suc n) = (if m a = 0 then [] else m a # array_str m (a + 1) n)"
  by (simp add: array_str_def bytes_at_Suc)

lemma length_array_str: "length (array_str m a n) \<le> n"
  by (metis array_str_def length_bytes_at length_takeWhile_le)

lemma array_str_nonzero: "b \<in> set (array_str m a n) \<Longrightarrow> b \<noteq> 0"
  by (auto simp: array_str_def dest: set_takeWhileD)

theorem strncmp_eq_0_iff:
  "strncmp mp p mq q n = 0 \<longleftrightarrow> array_str mp p n = array_str mq q n"
  by (induction n arbitrary: p q) (auto simp: array_str_Suc)

lemma strncpy_loop_frame: "a < s \<or> s + n \<le> a \<Longrightarrow> strncpy_loop n ms s mt t a = ms a"
  by (induction n arbitrary: ms s t) (auto simp: stosb_fill)

lemma strncpy_frame: "a < s \<or> s + nat n \<le> a \<Longrightarrow> strncpy ms s mt t n a = ms a"
  by (simp add: strncpy_def strncpy_loop_frame)

lemma array_str_strncpy_loop: "array_str (strncpy_loop n ms s mt t) s n = array_str mt t n"
proof (induction n arbitrary: ms s t)
  case 0
  then show ?case by simp
next
  case (Suc n)
  then show ?case by (simp add: array_str_Suc strncpy_loop_frame stosb_fill)
qed

theorem array_str_strncpy: "array_str (strncpy ms s mt t (int n)) s n = array_str mt t n"
  by (simp add: strncpy_def array_str_strncpy_loop)

lemma safestrcpy_loop_frame: "a < s \<or> s + n < a \<Longrightarrow> safestrcpy_loop n ms s mt t a = ms a"
  by (induction n arbitrary: ms s t) auto

lemma safestrcpy_loop_str:
  "array_str (safestrcpy_loop n ms s mt t) s (Suc n) = array_str mt t n"
proof (induction n arbitrary: ms s t)
  case 0
  then show ?case by (simp add: array_str_Suc)
next
  case (Suc n)
  then show ?case
    by (cases "mt t = 0") (simp_all add: array_str_Suc [of _ s] array_str_Suc [of _ t] safestrcpy_loop_frame)
qed

text \<open>
  \<open>safestrcpy\<close> stores the source cut to \<open>n - 1\<close> bytes, terminates it, and writes nothing
  outside the \<open>n\<close> bytes of the destination.
\<close>

theorem safestrcpy_spec:
  assumes "0 < n"
  shows "array_str (safestrcpy ms s mt t n) s (nat n) = array_str mt t (nat n - 1)"
    and "a < s \<or> s + nat n \<le> a \<Longrightarrow> safestrcpy ms s mt t n a = ms a"
proof -
  from assms obtain k where k: "nat n = Suc k" by (cases "nat n") auto
  with assms show "array_str (safestrcpy ms s mt t n) s (nat n) = array_str mt t (nat n - 1)"
    by (simp add: safestrcpy_def safestrcpy_loop_str)
  from k assms show "a < s \<or> s + nat n \<le> a \<Longrightarrow> safestrcpy ms s mt t n a = ms a"
    by (auto simp: safestrcpy_def safestrcpy_loop_frame)
qed

lemma strlen_from_spec:
  "m (s + k) = 0 \<Longrightarrow> n \<le> k \<Longrightarrow> (\<forall>i. n \<le> i \<and> i < k \<longrightarrow> m (s + i) \<noteq> 0) \<Longrightarrow> strlen_from m s n = Some k"
proof (induction "k - n" arbitrary: n)
  case 0
  then show ?case by (simp add: strlen_from.simps)
next
  case (Suc d)
  then have "n < k" by simp
  with Suc show ?case by (subst strlen_from.simps) simp
qed

theorem strlen_spec: "m (s + k) = 0 \<Longrightarrow> \<forall>i < k. m (s + i) \<noteq> 0 \<Longrightarrow> strlen m s = Some k"
  by (simp add: strlen_def strlen_from_spec)

end
