(* ===== verification/Spinlock.thy ===== *)
theory Spinlock
  imports KPrelude
begin

text \<open>
  \<open>spinlock.c\<close> and \<open>mycpu\<close> of \<open>proc.c\<close> on a machine with several CPUs: interrupt flags, the
  \<open>pushcli\<close>/\<open>popcli\<close> nesting, acquiring and releasing a lock, and the interleaving of the
  individual steps of \<open>acquire\<close> and \<open>release\<close> on different CPUs. The stores are sequentially
  consistent (\<open>__sync_synchronize\<close> is the identity).
\<close>

section \<open>State\<close>

text \<open>\<open>struct cpu\<close>: the fields the lock code uses, and the CPU's interrupt flag.\<close>

record cpu =
  apicid :: nat
  ncli :: int
  intena :: bool
  ifl :: bool

text \<open>\<open>struct spinlock\<close>; \<open>lk_cpu\<close> is the index in \<open>cpus[]\<close>, \<open>None\<close> the null pointer.\<close>

record spinlock =
  locked :: nat
  lk_name :: string
  lk_cpu :: "nat option"
  lk_pcs :: "nat list"

record machine =
  ncpu :: nat
  cpus :: "nat \<Rightarrow> cpu"
  locks :: "nat \<Rightarrow> spinlock"

definition upd_cpu :: "nat \<Rightarrow> (cpu \<Rightarrow> cpu) \<Rightarrow> machine \<Rightarrow> machine" where
  "upd_cpu c f m = m\<lparr>cpus := (cpus m)(c := f (cpus m c))\<rparr>"

definition upd_lock :: "nat \<Rightarrow> (spinlock \<Rightarrow> spinlock) \<Rightarrow> machine \<Rightarrow> machine" where
  "upd_lock k f m = m\<lparr>locks := (locks m)(k := f (locks m k))\<rparr>"

lemma upd_cpu_sel [simp]:
  "cpus (upd_cpu c f m) = (cpus m)(c := f (cpus m c))" "locks (upd_cpu c f m) = locks m"
  "ncpu (upd_cpu c f m) = ncpu m"
  by (simp_all add: upd_cpu_def)

lemma upd_lock_sel [simp]:
  "locks (upd_lock k f m) = (locks m)(k := f (locks m k))" "cpus (upd_lock k f m) = cpus m"
  "ncpu (upd_lock k f m) = ncpu m"
  by (simp_all add: upd_lock_def)

lemma upd_cpu_fuse [simp]: "upd_cpu c f (upd_cpu c g m) = upd_cpu c (\<lambda>u. f (g u)) m"
  by (simp add: upd_cpu_def)

lemma upd_cpu_cong: "f (cpus m c) = g (cpus m c) \<Longrightarrow> upd_cpu c f m = upd_cpu c g m"
  by (simp add: upd_cpu_def)

lemma upd_cpu_id: "f (cpus m c) = cpus m c \<Longrightarrow> upd_cpu c f m = m"
  by (simp add: upd_cpu_def)

section \<open>The functions of spinlock.c\<close>

text \<open>
  \<open>mycpu()\<close> on CPU \<open>c\<close>: the entry of \<open>cpus[]\<close> with the APIC id the local APIC reports.
\<close>

definition mycpu :: "nat \<Rightarrow> machine \<Rightarrow> nat res" where
  "mycpu c m =
     (if ifl (cpus m c) then Panic ''mycpu called with interrupts enabled''
      else (case first_idx (ncpu m) (\<lambda>i. apicid (cpus m i) = apicid (cpus m c)) of
              Some i \<Rightarrow> Ok i
            | None \<Rightarrow> Panic ''unknown apicid''))"

definition initlock :: "nat \<Rightarrow> string \<Rightarrow> machine \<Rightarrow> machine" where
  "initlock k name m = upd_lock k (\<lambda>l. l\<lparr>lk_name := name, locked := 0, lk_cpu := None\<rparr>) m"

text \<open>The \<open>%ebp\<close> chain: ten saved program counters, zero-filled where the chain ends.\<close>

fun callerpcs :: "nat \<Rightarrow> mem \<Rightarrow> nat \<Rightarrow> nat list" where
  "callerpcs 0 m ebp = []"
| "callerpcs (Suc n) m ebp =
     (if ebp = 0 \<or> ebp < 2147483648 \<or> ebp = 4294967295 then replicate (Suc n) 0
      else rd32 m (ebp + 4) # callerpcs n m (rd32 m ebp))"

definition getcallerpcs :: "mem \<Rightarrow> nat \<Rightarrow> nat list" where
  "getcallerpcs m v = callerpcs 10 m (sub32 v 8)"

definition holding :: "nat \<Rightarrow> nat \<Rightarrow> machine \<Rightarrow> bool res" where
  "holding c k m =
     (if locked (locks m k) = 0 then Ok False
      else bindr (mycpu c m) (\<lambda>i. Ok (lk_cpu (locks m k) = Some i)))"

definition pushcli :: "nat \<Rightarrow> machine \<Rightarrow> machine res" where
  "pushcli c m =
     (let eflags = ifl (cpus m c);
          m = upd_cpu c (\<lambda>u. u\<lparr>ifl := False\<rparr>) m
      in bindr (mycpu c m) (\<lambda>i.
         let m = (if ncli (cpus m i) = 0 then upd_cpu i (\<lambda>u. u\<lparr>intena := eflags\<rparr>) m else m)
         in Ok (upd_cpu i (\<lambda>u. u\<lparr>ncli := ncli u + 1\<rparr>) m)))"

definition popcli :: "nat \<Rightarrow> machine \<Rightarrow> machine res" where
  "popcli c m =
     (if ifl (cpus m c) then Panic ''popcli - interruptible''
      else bindr (mycpu c m) (\<lambda>i.
         let m = upd_cpu i (\<lambda>u. u\<lparr>ncli := ncli u - 1\<rparr>) m
         in if ncli (cpus m i) < 0 then Panic ''popcli''
            else if ncli (cpus m i) = 0 \<and> intena (cpus m i)
                 then Ok (upd_cpu c (\<lambda>u. u\<lparr>ifl := True\<rparr>) m)
                 else Ok m))"

text \<open>
  \<open>acquire\<close> in three parts: what precedes the spin loop, one \<open>xchg\<close>, and the bookkeeping
  after it. \<open>pcs\<close> is the call stack \<open>getcallerpcs\<close> finds.
\<close>

definition acquire_enter :: "nat \<Rightarrow> nat \<Rightarrow> machine \<Rightarrow> machine res" where
  "acquire_enter c k m =
     bindr (pushcli c m) (\<lambda>m.
     bindr (holding c k m) (\<lambda>h. if h then Panic ''acquire'' else Ok m))"

definition xchg_locked :: "nat \<Rightarrow> nat \<Rightarrow> machine \<Rightarrow> nat \<times> machine" where
  "xchg_locked k v m = (locked (locks m k), upd_lock k (\<lambda>l. l\<lparr>locked := v\<rparr>) m)"

definition acquire_record :: "nat \<Rightarrow> nat \<Rightarrow> nat list \<Rightarrow> machine \<Rightarrow> machine res" where
  "acquire_record c k pcs m =
     bindr (mycpu c m) (\<lambda>i. Ok (upd_lock k (\<lambda>l. l\<lparr>lk_cpu := Some i, lk_pcs := pcs\<rparr>) m))"

text \<open>\<open>acquire\<close> run without interference: it spins forever on a lock that is taken.\<close>

definition acquire_spin :: "nat \<Rightarrow> nat \<Rightarrow> nat list \<Rightarrow> machine \<Rightarrow> machine res" where
  "acquire_spin c k pcs m =
     bindr (acquire_enter c k m) (\<lambda>m.
     let (old, m) = xchg_locked k 1 m
     in if old \<noteq> 0 then Spin else acquire_record c k pcs m)"

definition release_clear :: "nat \<Rightarrow> nat \<Rightarrow> machine \<Rightarrow> machine res" where
  "release_clear c k m =
     bindr (holding c k m) (\<lambda>h.
     if \<not> h then Panic ''release''
     else Ok (upd_lock k (\<lambda>l. l\<lparr>lk_pcs := (lk_pcs l)[0 := 0], lk_cpu := None\<rparr>) m))"

definition release_spin :: "nat \<Rightarrow> nat \<Rightarrow> machine \<Rightarrow> machine res" where
  "release_spin c k m =
     bindr (release_clear c k m) (\<lambda>m.
     popcli c (upd_lock k (\<lambda>l. l\<lparr>locked := 0\<rparr>) m))"

section \<open>Interrupt nesting\<close>

text \<open>The CPUs have distinct APIC ids and CPU \<open>c\<close> is one of them.\<close>

definition cpu_ok :: "nat \<Rightarrow> machine \<Rightarrow> bool" where
  "cpu_ok c m \<longleftrightarrow> c < ncpu m \<and> (\<forall>i < ncpu m. \<forall>j < ncpu m.
      apicid (cpus m i) = apicid (cpus m j) \<longrightarrow> i = j)"

lemma mycpu_ok: "cpu_ok c m \<Longrightarrow> \<not> ifl (cpus m c) \<Longrightarrow> mycpu c m = Ok c"
proof -
  assume ok: "cpu_ok c m" and "\<not> ifl (cpus m c)"
  have "first_idx (ncpu m) (\<lambda>i. apicid (cpus m i) = apicid (cpus m c)) = Some c"
    using ok by (auto simp: first_idx_Some cpu_ok_def dest: less_trans)
  with \<open>\<not> ifl (cpus m c)\<close> show ?thesis by (simp add: mycpu_def)
qed

lemma cpu_ok_upd_cpu [simp]:
  "(\<And>u. apicid (f u) = apicid u) \<Longrightarrow> cpu_ok c (upd_cpu d f m) = cpu_ok c m"
proof -
  assume "\<And>u. apicid (f u) = apicid u"
  then have "apicid (cpus (upd_cpu d f m) i) = apicid (cpus m i)" for i by simp
  then show ?thesis by (simp only: cpu_ok_def upd_cpu_sel)
qed

lemma cpu_ok_upd_lock [simp]: "cpu_ok c (upd_lock k f m) = cpu_ok c m"
  by (simp add: cpu_ok_def)

lemma pushcli_eq:
  "cpu_ok c m \<Longrightarrow> pushcli c m = Ok (upd_cpu c (\<lambda>u. u\<lparr>ifl := False, ncli := ncli u + 1,
      intena := (if ncli u = 0 then ifl u else intena u)\<rparr>) m)"
proof -
  assume ok: "cpu_ok c m"
  let ?m1 = "upd_cpu c (\<lambda>u. u\<lparr>ifl := False\<rparr>) m"
  have "mycpu c ?m1 = Ok c" using ok by (intro mycpu_ok) simp_all
  then show ?thesis by (simp add: pushcli_def Let_def) (auto intro: upd_cpu_cong)
qed

lemma popcli_eq:
  "cpu_ok c m \<Longrightarrow> \<not> ifl (cpus m c) \<Longrightarrow> 0 < ncli (cpus m c) \<Longrightarrow>
     popcli c m = Ok (upd_cpu c (\<lambda>u. u\<lparr>ncli := ncli u - 1,
       ifl := (ncli u = 1 \<and> intena u)\<rparr>) m)"
  by (simp add: popcli_def mycpu_ok Let_def) (auto intro!: upd_cpu_cong)

fun iterr :: "nat \<Rightarrow> ('a \<Rightarrow> 'a res) \<Rightarrow> 'a \<Rightarrow> 'a res" where
  "iterr 0 f x = Ok x"
| "iterr (Suc n) f x = bindr (f x) (iterr n f)"

lemma iterr_0: "iterr 0 f = Ok"
  by (rule ext) simp

lemma iterr_snoc: "iterr (Suc n) f x = bindr (iterr n f x) f"
proof (induction n arbitrary: x)
  case (Suc n)
  then show ?case by (cases "f x") simp_all
qed (simp add: iterr_0)

lemma iterr_pushcli:
  "cpu_ok c m \<Longrightarrow> \<not> ifl (cpus m c) \<Longrightarrow> 0 < ncli (cpus m c) \<Longrightarrow>
     iterr n (pushcli c) m = Ok (upd_cpu c (\<lambda>u. u\<lparr>ncli := ncli u + int n\<rparr>) m)"
proof (induction n arbitrary: m)
  case 0
  then show ?case by (simp add: upd_cpu_id)
next
  case (Suc n)
  then show ?case by (simp add: pushcli_eq Suc.IH) (auto intro!: upd_cpu_cong)
qed

lemma iterr_popcli:
  "cpu_ok c m \<Longrightarrow> \<not> ifl (cpus m c) \<Longrightarrow> int n < ncli (cpus m c) \<Longrightarrow>
     iterr n (popcli c) m = Ok (upd_cpu c (\<lambda>u. u\<lparr>ncli := ncli u - int n\<rparr>) m)"
proof (induction n arbitrary: m)
  case 0
  then show ?case by (simp add: upd_cpu_id)
next
  case (Suc n)
  then show ?case by (simp add: popcli_eq Suc.IH) (auto intro!: upd_cpu_cong)
qed

section \<open>The contract of a spin lock\<close>

text \<open>
  What the rest of the kernel relies on: acquiring a free lock one does not hold adds it to the
  locks held, acquiring a lock twice panics, releasing gives the lock up, and releasing a lock
  one does not hold panics.
\<close>

locale spin_lock =
  fixes acq :: "'l \<Rightarrow> 's \<Rightarrow> 's res"
    and rel :: "'l \<Rightarrow> 's \<Rightarrow> 's res"
    and held_by_me :: "'s \<Rightarrow> 'l set"
    and free :: "'l \<Rightarrow> 's \<Rightarrow> bool"
    and wf_state :: "'s \<Rightarrow> bool"
  assumes acq_ok: "wf_state s \<Longrightarrow> l \<notin> held_by_me s \<Longrightarrow> free l s \<Longrightarrow>
      okP (acq l s) (\<lambda>s'. wf_state s' \<and> held_by_me s' = insert l (held_by_me s))"
    and acq_twice: "wf_state s \<Longrightarrow> l \<in> held_by_me s \<Longrightarrow> acq l s = Panic ''acquire''"
    and rel_ok: "wf_state s \<Longrightarrow> l \<in> held_by_me s \<Longrightarrow>
      okP (rel l s) (\<lambda>s'. wf_state s' \<and> held_by_me s' = held_by_me s - {l} \<and> free l s')"
    and rel_not_held: "wf_state s \<Longrightarrow> l \<notin> held_by_me s \<Longrightarrow> (\<exists>msg. rel l s = Panic msg)"
begin

text \<open>
  A critical section that keeps the held locks: the bracket returns, and the held locks are as
  before.
\<close>

lemma bracket:
  assumes "wf_state s" and "l \<notin> held_by_me s" and "free l s"
    and body: "\<And>s1. wf_state s1 \<Longrightarrow> held_by_me s1 = insert l (held_by_me s) \<Longrightarrow>
        okP (f s1) (\<lambda>s2. wf_state s2 \<and> held_by_me s2 = held_by_me s1)"
  shows "okP (bindr (acq l s) (\<lambda>s. bindr (f s) (rel l)))
           (\<lambda>s'. wf_state s' \<and> held_by_me s' = held_by_me s \<and> free l s')"
proof -
  have "okP (bindr (f s1) (rel l)) (\<lambda>s'. wf_state s' \<and> held_by_me s' = held_by_me s \<and> free l s')"
    if "wf_state s1" and h: "held_by_me s1 = insert l (held_by_me s)" for s1
  proof -
    have "okP (rel l s2) (\<lambda>s'. wf_state s' \<and> held_by_me s' = held_by_me s \<and> free l s')"
      if "wf_state s2" and "held_by_me s2 = held_by_me s1" for s2
      using rel_ok [of s2 l] that h assms(2) by (auto elim: okP_mono)
    with body [OF that] show ?thesis by (auto elim: okP_mono)
  qed
  with acq_ok [OF assms(1-3)] show ?thesis by (auto elim: okP_mono)
qed

lemma acq_rel:
  "wf_state s \<Longrightarrow> l \<notin> held_by_me s \<Longrightarrow> free l s \<Longrightarrow>
     okP (bindr (acq l s) (rel l)) (\<lambda>s'. held_by_me s' = held_by_me s)"
  using bracket [of s l Ok] by (auto elim: okP_mono)

lemma self_deadlock_detected:
  "wf_state s \<Longrightarrow> l \<notin> held_by_me s \<Longrightarrow> free l s \<Longrightarrow> bindr (acq l s) (acq l) = Panic ''acquire''"
  using acq_ok [of s l] acq_twice [of _ l] by (auto simp: okP_iff)

end

text \<open>CPU \<open>c\<close> of the machine provides the contract.\<close>

definition locks_of :: "nat \<Rightarrow> machine \<Rightarrow> nat set" where
  "locks_of c m = {k. locked (locks m k) \<noteq> 0 \<and> lk_cpu (locks m k) = Some c}"

definition cpu_wf :: "nat \<Rightarrow> machine \<Rightarrow> bool" where
  "cpu_wf c m \<longleftrightarrow> cpu_ok c m \<and> 0 \<le> ncli (cpus m c) \<and> (0 < ncli (cpus m c) \<longrightarrow> \<not> ifl (cpus m c))
     \<and> finite (locks_of c m) \<and> int (card (locks_of c m)) \<le> ncli (cpus m c)"

lemma locks_of_upd_cpu [simp]: "locks_of c (upd_cpu d f m) = locks_of c m"
  by (simp add: locks_of_def)

lemma holding_eq:
  "cpu_ok c m \<Longrightarrow> \<not> ifl (cpus m c) \<Longrightarrow> holding c k m = Ok (k \<in> locks_of c m)"
  by (simp add: holding_def mycpu_ok locks_of_def)

lemma cpu_wf_holding: "cpu_wf c m \<Longrightarrow> k \<in> locks_of c m \<Longrightarrow> \<not> ifl (cpus m c) \<and> 0 < ncli (cpus m c)"
  by (auto simp: cpu_wf_def card_gt_0_iff) (metis card_gt_0_iff equals0D less_le_trans of_nat_0_less_iff)+

lemma acquire_enter_eq:
  "cpu_ok c m \<Longrightarrow> acquire_enter c k m =
     (if k \<in> locks_of c m then Panic ''acquire''
      else Ok (upd_cpu c (\<lambda>u. u\<lparr>ifl := False, ncli := ncli u + 1,
        intena := (if ncli u = 0 then ifl u else intena u)\<rparr>) m))"
  by (simp add: acquire_enter_def pushcli_eq holding_eq)

lemma locks_of_upd_lock:
  "locks_of c (upd_lock k f m) =
     (if locked (f (locks m k)) \<noteq> 0 \<and> lk_cpu (f (locks m k)) = Some c
      then insert k (locks_of c m) else locks_of c m - {k})"
  by (auto simp: locks_of_def)

lemma acquire_spin_eq:
  "cpu_ok c m \<Longrightarrow> k \<notin> locks_of c m \<Longrightarrow> locked (locks m k) = 0 \<Longrightarrow>
   acquire_spin c k pcs m = Ok (upd_lock k (\<lambda>l. l\<lparr>locked := 1, lk_cpu := Some c, lk_pcs := pcs\<rparr>)
     (upd_cpu c (\<lambda>u. u\<lparr>ifl := False, ncli := ncli u + 1,
        intena := (if ncli u = 0 then ifl u else intena u)\<rparr>) m))"
  by (simp add: acquire_spin_def acquire_enter_eq xchg_locked_def acquire_record_def mycpu_ok Let_def)

lemma release_spin_eq:
  assumes "cpu_wf c m" and "k \<in> locks_of c m"
  shows "release_spin c k m = Ok (upd_lock k (\<lambda>l. l\<lparr>lk_pcs := (lk_pcs l)[0 := 0], lk_cpu := None, locked := 0\<rparr>)
     (upd_cpu c (\<lambda>u. u\<lparr>ncli := ncli u - 1, ifl := (ncli u = 1 \<and> intena u)\<rparr>) m))"
proof -
  have c: "cpu_ok c m" "\<not> ifl (cpus m c)" "0 < ncli (cpus m c)"
    using assms cpu_wf_holding by (auto simp: cpu_wf_def)
  then show ?thesis
    using assms(2)
    by (simp add: release_spin_def release_clear_def holding_eq popcli_eq)
qed

interpretation cpu_spin: spin_lock
  "\<lambda>k. acquire_spin c k pcs" "release_spin c" "locks_of c" "\<lambda>k m. locked (locks m k) = 0" "cpu_wf c"
  for c pcs
proof (unfold_locales, goal_cases)
  case (1 s l)
  then have "cpu_ok c s" by (simp add: cpu_wf_def)
  with 1 show ?case
    by (auto simp: acquire_spin_eq cpu_wf_def locks_of_upd_lock card_insert_if)
next
  case (2 s l)
  then show ?case by (simp add: acquire_spin_def acquire_enter_eq cpu_wf_def)
next
  case (3 s l)
  then have "0 < card (locks_of c s)" by (auto simp: cpu_wf_def card_gt_0_iff)
  with 3 show ?case
    by (auto simp: release_spin_eq cpu_wf_def locks_of_upd_lock card_Diff_singleton)
next
  case (4 s l)
  then have "cpu_ok c s" by (simp add: cpu_wf_def)
  show ?case
  proof (cases "ifl (cpus s c)")
    case True
    then show ?thesis by (simp add: release_spin_def release_clear_def holding_def mycpu_def)
  next
    case False
    with 4 \<open>cpu_ok c s\<close> show ?thesis by (simp add: release_spin_def release_clear_def holding_eq)
  qed
qed

section \<open>Interleaved execution on several CPUs\<close>

text \<open>
  Where a CPU is in its use of lock \<open>k\<close>: outside, in the spin loop, past the successful
  \<open>xchg\<close>, in the critical section, or past the stores that clear \<open>pcs\<close> and \<open>cpu\<close> in
  \<open>release\<close>. Each rule is one atomic piece of \<open>acquire\<close> or \<open>release\<close> on one CPU.
\<close>

datatype phase = Outside | Spinning | Taken | Critical | Clearing

record lock_sys =
  mach :: machine
  phase_of :: "nat \<Rightarrow> phase"

inductive lock_step :: "nat \<Rightarrow> lock_sys \<Rightarrow> lock_sys \<Rightarrow> bool" for k where
  enter: "phase_of s c = Outside \<Longrightarrow> c < ncpu (mach s) \<Longrightarrow> acquire_enter c k (mach s) = Ok m \<Longrightarrow>
     lock_step k s (s\<lparr>mach := m, phase_of := (phase_of s)(c := Spinning)\<rparr>)"
| spin: "phase_of s c = Spinning \<Longrightarrow> xchg_locked k 1 (mach s) = (old, m) \<Longrightarrow> old \<noteq> 0 \<Longrightarrow>
     lock_step k s (s\<lparr>mach := m\<rparr>)"
| take: "phase_of s c = Spinning \<Longrightarrow> xchg_locked k 1 (mach s) = (0, m) \<Longrightarrow>
     lock_step k s (s\<lparr>mach := m, phase_of := (phase_of s)(c := Taken)\<rparr>)"
| record_owner: "phase_of s c = Taken \<Longrightarrow> acquire_record c k pcs (mach s) = Ok m \<Longrightarrow>
     lock_step k s (s\<lparr>mach := m, phase_of := (phase_of s)(c := Critical)\<rparr>)"
| clear: "phase_of s c = Critical \<Longrightarrow> release_clear c k (mach s) = Ok m \<Longrightarrow>
     lock_step k s (s\<lparr>mach := m, phase_of := (phase_of s)(c := Clearing)\<rparr>)"
| store: "phase_of s c = Clearing \<Longrightarrow>
     popcli c (upd_lock k (\<lambda>l. l\<lparr>locked := 0\<rparr>) (mach s)) = Ok m \<Longrightarrow>
     lock_step k s (s\<lparr>mach := m, phase_of := (phase_of s)(c := Outside)\<rparr>)"

inductive_cases lock_stepE: "lock_step k s t"

definition lock_init :: "nat \<Rightarrow> lock_sys \<Rightarrow> bool" where
  "lock_init k s \<longleftrightarrow> (\<forall>c. phase_of s c = Outside) \<and> locked (locks (mach s) k) = 0
     \<and> lk_cpu (locks (mach s) k) = None
     \<and> (\<forall>i < ncpu (mach s). \<forall>j < ncpu (mach s).
           apicid (cpus (mach s) i) = apicid (cpus (mach s) j) \<longrightarrow> i = j)
     \<and> (\<forall>c < ncpu (mach s). 0 \<le> ncli (cpus (mach s) c)
           \<and> (0 < ncli (cpus (mach s) c) \<longrightarrow> \<not> ifl (cpus (mach s) c)))"

inductive lock_reach :: "nat \<Rightarrow> lock_sys \<Rightarrow> bool" for k where
  start: "lock_init k s \<Longrightarrow> lock_reach k s"
| more: "lock_reach k s \<Longrightarrow> lock_step k s t \<Longrightarrow> lock_reach k t"

definition owns :: "lock_sys \<Rightarrow> nat \<Rightarrow> bool" where
  "owns s c \<longleftrightarrow> phase_of s c \<in> {Taken, Critical, Clearing}"

definition lock_inv :: "nat \<Rightarrow> lock_sys \<Rightarrow> bool" where
  "lock_inv k s \<longleftrightarrow>
     (\<forall>c d. owns s c \<and> owns s d \<longrightarrow> c = d)
   \<and> (locked (locks (mach s) k) \<noteq> 0 \<longleftrightarrow> (\<exists>c. owns s c))
   \<and> (\<forall>c. lk_cpu (locks (mach s) k) = Some c \<longleftrightarrow> phase_of s c = Critical)
   \<and> (\<forall>c. phase_of s c \<noteq> Outside \<longrightarrow> c < ncpu (mach s) \<and> \<not> ifl (cpus (mach s) c) \<and> 0 < ncli (cpus (mach s) c))
   \<and> (\<forall>c < ncpu (mach s). cpu_ok c (mach s) \<and> 0 \<le> ncli (cpus (mach s) c)
        \<and> (0 < ncli (cpus (mach s) c) \<longrightarrow> \<not> ifl (cpus (mach s) c)))"

lemma lock_inv_init: "lock_init k s \<Longrightarrow> lock_inv k s"
  by (simp add: lock_init_def lock_inv_def owns_def cpu_ok_def)

lemma lock_step_inv: "lock_step k s t \<Longrightarrow> lock_inv k s \<Longrightarrow> lock_inv k t"
proof (induction rule: lock_step.induct)
  case (enter s c m)
  let ?f = "\<lambda>u. u\<lparr>ifl := False, ncli := ncli u + 1, intena := (if ncli u = 0 then ifl u else intena u)\<rparr>"
  have ok: "cpu_ok c (mach s)" using enter by (simp add: lock_inv_def)
  with enter have m: "m = upd_cpu c ?f (mach s)"
    by (simp add: acquire_enter_eq split: if_splits)
  have o: "owns (s\<lparr>mach := m, phase_of := (phase_of s)(c := Spinning)\<rparr>) d = owns s d" for d
    using enter by (simp add: owns_def)
  show ?case
    using enter.prems enter.hyps(1,2) unfolding lock_inv_def o
    by (intro conjI) (force simp: m)+
next
  case (spin s c old m)
  then have "phase_of (s\<lparr>mach := m\<rparr>) = phase_of s" "cpus m = cpus (mach s)" "ncpu m = ncpu (mach s)"
    "(locked (locks m k) \<noteq> 0) = (locked (locks (mach s) k) \<noteq> 0)"
    "lk_cpu (locks m k) = lk_cpu (locks (mach s) k)" "\<And>c. cpu_ok c m = cpu_ok c (mach s)"
    by (auto simp: xchg_locked_def)
  with spin.prems show ?case by (simp add: lock_inv_def owns_def)
next
  case (take s c m)
  then show ?case
    by (auto simp: lock_inv_def owns_def xchg_locked_def)
next
  case (record_owner s c pcs m)
  then have "mycpu c (mach s) = Ok c"
    by (auto simp: lock_inv_def intro!: mycpu_ok)
  with record_owner show ?case
    by (auto simp: lock_inv_def owns_def acquire_record_def)
next
  case (clear s c m)
  then have "m = upd_lock k (\<lambda>l. l\<lparr>lk_pcs := (lk_pcs l)[0 := 0], lk_cpu := None\<rparr>) (mach s)"
    by (auto simp: release_clear_def bindr_eq_Ok split: if_splits)
  with clear show ?case
    by (auto simp: lock_inv_def owns_def)
next
  case (store s c m)
  then have "m = upd_cpu c (\<lambda>u. u\<lparr>ncli := ncli u - 1, ifl := (ncli u = 1 \<and> intena u)\<rparr>)
      (upd_lock k (\<lambda>l. l\<lparr>locked := 0\<rparr>) (mach s))"
    by (subst (asm) popcli_eq) (auto simp: lock_inv_def)
  with store show ?case
    by (auto simp: lock_inv_def owns_def)
qed

lemma lock_reach_inv: "lock_reach k s \<Longrightarrow> lock_inv k s"
  by (induction rule: lock_reach.induct) (auto intro: lock_inv_init lock_step_inv)

lemma lock_invD:
  "lock_inv k s \<Longrightarrow> phase_of s c \<noteq> Outside \<Longrightarrow>
     cpu_ok c (mach s) \<and> \<not> ifl (cpus (mach s) c) \<and> 0 < ncli (cpus (mach s) c)"
  by (simp add: lock_inv_def)

text \<open>
  C3: Mutual exclusion. In every interleaving of the atomic steps of \<open>acquire\<close> and \<open>release\<close> on
  any number of CPUs, two CPUs that are between their successful \<open>xchg\<close> and the store that
  frees the lock are the same CPU, and interrupts are off on it.
\<close>

theorem spin_mutual_exclusion:
  assumes "lock_reach k s" and "owns s c" and "owns s d"
  shows "c = d \<and> locked (locks (mach s) k) \<noteq> 0 \<and> \<not> ifl (cpus (mach s) c)"
proof -
  from assms(1) have inv: "lock_inv k s" by (rule lock_reach_inv)
  from assms(2) have "phase_of s c \<noteq> Outside" by (auto simp: owns_def)
  with lock_invD [OF inv] have "\<not> ifl (cpus (mach s) c)" by blast
  moreover from inv assms(2,3) have "c = d" "locked (locks (mach s) k) \<noteq> 0"
    unfolding lock_inv_def by blast+
  ultimately show ?thesis by blast
qed

definition two_cpus :: lock_sys where
  "two_cpus = \<lparr>mach = \<lparr>ncpu = 2, cpus = (\<lambda>i. \<lparr>apicid = i, ncli = 0, intena = False, ifl = True\<rparr>),
     locks = (\<lambda>_. \<lparr>locked = 0, lk_name = [], lk_cpu = None, lk_pcs = []\<rparr>)\<rparr>,
     phase_of = (\<lambda>_. Outside)\<rparr>"

lemma two_cpus_init: "lock_init k two_cpus"
  by (simp add: lock_init_def two_cpus_def)

lemma two_cpus_taken: "\<exists>s. lock_reach 0 s \<and> phase_of s 0 = Taken \<and> phase_of s 1 = Outside \<and> ncpu (mach s) = 2"
proof -
  have ok: "cpu_ok 0 (mach two_cpus)" by (simp add: cpu_ok_def two_cpus_def)
  obtain m where m: "acquire_enter 0 0 (mach two_cpus) = Ok m" and l: "locked (locks m 0) = 0"
    and n: "ncpu m = 2"
    using ok by (auto simp: acquire_enter_eq locks_of_def two_cpus_def)
  let ?s1 = "two_cpus\<lparr>mach := m, phase_of := (phase_of two_cpus)(0 := Spinning)\<rparr>"
  have "lock_step 0 two_cpus ?s1"
    using m by (intro lock_step.enter) (simp_all add: two_cpus_def)
  then have r1: "lock_reach 0 ?s1" by (rule lock_reach.more [OF lock_reach.start [OF two_cpus_init]])
  obtain m2 where m2: "xchg_locked 0 1 m = (0, m2)" and n2: "ncpu m2 = 2"
    using l n by (simp add: xchg_locked_def)
  let ?s2 = "?s1\<lparr>mach := m2, phase_of := (phase_of ?s1)(0 := Taken)\<rparr>"
  have "lock_step 0 ?s1 ?s2"
    using m2 by (intro lock_step.take) simp_all
  then have "lock_reach 0 ?s2" by (rule lock_reach.more [OF r1])
  with n2 show ?thesis by (intro exI [of _ ?s2]) (simp add: two_cpus_def)
qed

lemma spin_mutual_exclusion_witness:
  "\<exists>s. lock_reach 0 s \<and> owns s 0 \<and> locked (locks (mach s) 0) \<noteq> 0 \<and> \<not> ifl (cpus (mach s) 0)"
proof -
  obtain s where s: "lock_reach 0 s" "owns s 0"
    using two_cpus_taken by (auto simp: owns_def)
  from spin_mutual_exclusion [OF s s(2)] s show ?thesis by blast
qed

text \<open>
  No step of the locking protocol panics or is stuck. In every reachable state, \<open>acquire\<close> may
  begin on a CPU outside, a CPU that took the lock may record itself, one in the critical section
  passes the \<open>holding\<close> check of \<open>release\<close>, and \<open>popcli\<close> succeeds after the lock is freed.
\<close>

theorem spin_no_panic:
  assumes "lock_reach k s" and "c < ncpu (mach s)"
  shows "case phase_of s c of
           Outside \<Rightarrow> \<exists>m. acquire_enter c k (mach s) = Ok m
         | Spinning \<Rightarrow> locked (locks (mach s) k) \<noteq> 0 \<or> fst (xchg_locked k 1 (mach s)) = 0
         | Taken \<Rightarrow> \<exists>m. acquire_record c k pcs (mach s) = Ok m
         | Critical \<Rightarrow> \<exists>m. release_clear c k (mach s) = Ok m
         | Clearing \<Rightarrow> \<exists>m. popcli c (upd_lock k (\<lambda>l. l\<lparr>locked := 0\<rparr>) (mach s)) = Ok m"
proof -
  from assms(1) have inv: "lock_inv k s" by (rule lock_reach_inv)
  have ok: "cpu_ok c (mach s)" using inv assms(2) by (simp add: lock_inv_def)
  show ?thesis
  proof (cases "phase_of s c")
    case Outside
    then have "k \<notin> locks_of c (mach s)" using inv by (auto simp: lock_inv_def locks_of_def)
    with ok Outside show ?thesis by (simp add: acquire_enter_eq)
  next
    case Spinning
    then show ?thesis by (auto simp: xchg_locked_def)
  next
    case Taken
    then show ?thesis using lock_invD [OF inv, of c] by (simp add: acquire_record_def mycpu_ok)
  next
    case Critical
    then have "k \<in> locks_of c (mach s)"
      using inv by (auto simp: lock_inv_def locks_of_def owns_def)
    then show ?thesis using lock_invD [OF inv, of c] Critical by (simp add: release_clear_def holding_eq)
  next
    case Clearing
    then show ?thesis using lock_invD [OF inv, of c] by (simp add: popcli_eq)
  qed
qed

lemma spin_no_panic_witness:
  "\<exists>s m. lock_reach 0 s \<and> phase_of s 0 = Taken \<and> acquire_record 0 0 [7] (mach s) = Ok m"
proof -
  obtain s where s: "lock_reach 0 s" "phase_of s 0 = Taken" "0 < ncpu (mach s)"
    using two_cpus_taken by auto
  from spin_no_panic [OF s(1,3), of "[7]"] s show ?thesis by auto
qed

text \<open>
  \<open>popcli\<close> undoes \<open>pushcli\<close>: after \<open>n\<close> calls of the one and \<open>n\<close> of the other, the interrupt
  flag and the nesting depth of the CPU are those from before.
\<close>

theorem pushcli_popcli_balance:
  assumes "cpu_ok c m" and "0 \<le> ncli (cpus m c)" and "0 < ncli (cpus m c) \<Longrightarrow> \<not> ifl (cpus m c)"
  shows "okP (bindr (iterr n (pushcli c) m) (iterr n (popcli c))) (\<lambda>m'.
     ifl (cpus m' c) = ifl (cpus m c) \<and> ncli (cpus m' c) = ncli (cpus m c))"
proof (cases n)
  case 0
  then show ?thesis by simp
next
  case (Suc k)
  let ?m1 = "upd_cpu c (\<lambda>u. u\<lparr>ifl := False, ncli := ncli u + 1,
      intena := (if ncli u = 0 then ifl u else intena u)\<rparr>) m"
  let ?m2 = "upd_cpu c (\<lambda>u. u\<lparr>ncli := ncli u + int k\<rparr>) ?m1"
  have push: "iterr n (pushcli c) m = Ok ?m2"
    using assms Suc by (simp add: pushcli_eq iterr_pushcli)
  have "iterr n (popcli c) ?m2 = bindr (iterr k (popcli c) ?m2) (popcli c)"
    using Suc iterr_snoc by simp
  moreover have "iterr k (popcli c) ?m2 = Ok ?m1"
    using assms by (subst iterr_popcli) (auto intro!: upd_cpu_cong)
  ultimately have "iterr n (popcli c) ?m2 = popcli c ?m1" by simp
  also have "\<dots> = Ok (upd_cpu c (\<lambda>u. u\<lparr>ncli := ncli u - 1, ifl := (ncli u = 1 \<and> intena u)\<rparr>) ?m1)"
    using assms by (subst popcli_eq) auto
  finally show ?thesis using push assms by auto
qed

lemma pushcli_popcli_balance_witness:
  "okP (bindr (iterr 3 (pushcli 1) (mach two_cpus)) (iterr 3 (popcli 1))) (\<lambda>m'. ifl (cpus m' 1))"
  using pushcli_popcli_balance [of 1 "mach two_cpus" 3]
  by (simp add: cpu_ok_def two_cpus_def) (auto elim: okP_mono)

end
