(* ===== verification/Kstate.thy ===== *)
theory Kstate
  imports CString Spinlock
begin

text \<open>
  The kernel state every component builds on: the locks the executing CPU holds, physical memory
  and the page free list, the process table. Later components extend the record
  \<open>ksys\<close> with their own fields, so an operation of a lower layer runs unchanged on the state of
  a higher one. The model follows one thread of control through the kernel: another thread only
  runs where the code calls \<open>sleep\<close>, \<open>yield\<close> or returns, which is where an operation ends in
  \<open>Block\<close>.
\<close>

section \<open>Processes\<close>

datatype procstate = UNUSED | EMBRYO | SLEEPING | RUNNABLE | RUNNING | ZOMBIE

text \<open>The C enum numbers the states in this order.\<close>

fun procstate_num :: "procstate \<Rightarrow> nat" where
  "procstate_num UNUSED = 0"
| "procstate_num EMBRYO = 1"
| "procstate_num SLEEPING = 2"
| "procstate_num RUNNABLE = 3"
| "procstate_num RUNNING = 4"
| "procstate_num ZOMBIE = 5"

lemma procstate_num_inj: "procstate_num a = procstate_num b \<Longrightarrow> a = b"
  by (cases a; cases b) simp_all

instantiation procstate :: linorder
begin

definition less_eq_procstate :: "procstate \<Rightarrow> procstate \<Rightarrow> bool" where
  "less_eq_procstate a b \<longleftrightarrow> procstate_num a \<le> procstate_num b"

definition less_procstate :: "procstate \<Rightarrow> procstate \<Rightarrow> bool" where
  "less_procstate a b \<longleftrightarrow> procstate_num a < procstate_num b"

instance
  by standard
    (auto simp: less_eq_procstate_def less_procstate_def intro: procstate_num_inj)

end

text \<open>\<open>struct trapframe\<close> of \<open>x86.h\<close>; the padding is left out.\<close>

record trapframe =
  tf_edi :: nat
  tf_esi :: nat
  tf_ebp :: nat
  tf_oesp :: nat
  tf_ebx :: nat
  tf_edx :: nat
  tf_ecx :: nat
  tf_eax :: nat
  tf_gs :: nat
  tf_fs :: nat
  tf_es :: nat
  tf_ds :: nat
  tf_trapno :: nat
  tf_err :: nat
  tf_eip :: nat
  tf_cs :: nat
  tf_eflags :: nat
  tf_esp :: nat
  tf_ss :: nat

definition zero_tf :: trapframe where
  "zero_tf = \<lparr>tf_edi = 0, tf_esi = 0, tf_ebp = 0, tf_oesp = 0, tf_ebx = 0, tf_edx = 0, tf_ecx = 0,
     tf_eax = 0, tf_gs = 0, tf_fs = 0, tf_es = 0, tf_ds = 0, tf_trapno = 0, tf_err = 0, tf_eip = 0,
     tf_cs = 0, tf_eflags = 0, tf_esp = 0, tf_ss = 0\<rparr>"

text \<open>
  \<open>struct context\<close>: the registers \<open>swtch\<close> saves. The function addresses \<open>forkret\<close> and
  \<open>trapret\<close> are link-time values; the model names them.
\<close>

datatype kcode = Forkret | InKernel

record kcontext =
  ctx_edi :: nat
  ctx_esi :: nat
  ctx_ebx :: nat
  ctx_ebp :: nat
  ctx_eip :: kcode

text \<open>
  \<open>struct proc\<close>. Pointers into kernel tables are indexes: \<open>parent\<close> into \<open>ptable\<close>, \<open>ofile\<close> into
  \<open>ftable\<close>, \<open>cwd\<close> into \<open>icache\<close>; \<open>None\<close> is the null pointer. \<open>kstack\<close>, \<open>oldtf\<close> and \<open>pgdir\<close> are
  kernel virtual addresses of pages, 0 the null pointer. The trap frames themselves, which live
  in those pages and are only reached through \<open>p->tf\<close> and \<open>p->oldtf\<close>, are the fields \<open>p_tf\<close> and
  \<open>p_oldtf\<close>.
\<close>

record proc =
  p_sz :: nat
  p_pgdir :: nat
  p_kstack :: nat
  p_state :: procstate
  p_pid :: int
  p_parent :: "nat option"
  p_tf :: trapframe
  p_context :: kcontext
  p_chan :: chan
  p_killed :: bool
  p_ofile :: "nat option list"
  p_cwd :: "nat option"
  p_name :: "byte list"
  p_oldtf_page :: nat
  p_oldtf :: trapframe

section \<open>The kernel state\<close>

text \<open>\<open>param.h\<close> and \<open>memlayout.h\<close>.\<close>

definition NPROC :: nat where "NPROC = 64"
definition NOFILE :: nat where "NOFILE = 16"
definition KERNBASE :: nat where "KERNBASE = 2147483648"
definition PHYSTOP :: nat where "PHYSTOP = 234881024"
definition EXTMEM :: nat where "EXTMEM = 1048576"
definition DEVSPACE :: nat where "DEVSPACE = 4261412864"
definition PGSIZE :: nat where "PGSIZE = 4096"
definition KSTACKSIZE :: nat where "KSTACKSIZE = 4096"

lemmas [layout_simps] = NPROC_def NOFILE_def KERNBASE_def PHYSTOP_def EXTMEM_def DEVSPACE_def
  PGSIZE_def KSTACKSIZE_def

definition V2P :: "nat \<Rightarrow> nat" where "V2P a = sub32 a KERNBASE"
definition P2V :: "nat \<Rightarrow> nat" where "P2V a = wrap32 (a + KERNBASE)"

datatype klock =
    LPtable | LBcache | LIde | LLog | LIcache | LFtable | LKmem | LTicks | LCons
  | LPipe nat | LBufLock nat | LInodeLock nat | LTaskmaster

text \<open>
  \<open>held\<close>: the spin locks the executing CPU holds. \<open>ram\<close>: physical memory. \<open>freelist\<close>: head of the
  page free list, a kernel virtual address; the links are in the free pages. \<open>kend\<close>: the address
  \<open>end\<close> the linker script defines. \<open>cur\<close>: \<open>mycpu()->proc\<close>. \<open>ticks\<close> is the \<open>uint\<close> of \<open>trap.c\<close>.
\<close>

record ksys =
  held :: "klock set"
  ram :: mem
  freelist :: nat
  use_lock :: bool
  kend :: nat
  ptable :: "proc list"
  cur :: "nat option"
  nextpid :: int
  initproc :: "nat option"
  ticks :: nat

section \<open>Locks\<close>

text \<open>
  \<open>acquire\<close> and \<open>release\<close> as the rest of the kernel sees them on one CPU: the contract of
  \<open>Spinlock\<close>, on the set of held locks.
\<close>

definition acquire :: "klock \<Rightarrow> 'a ksys_scheme \<Rightarrow> 'a ksys_scheme res" where
  "acquire l s = (if l \<in> held s then Panic ''acquire'' else Ok (s\<lparr>held := insert l (held s)\<rparr>))"

definition release :: "klock \<Rightarrow> 'a ksys_scheme \<Rightarrow> 'a ksys_scheme res" where
  "release l s = (if l \<notin> held s then Panic ''release'' else Ok (s\<lparr>held := held s - {l}\<rparr>))"

interpretation klocks: spin_lock acquire release held "\<lambda>_ _. True" "\<lambda>_. True"
  by unfold_locales (auto simp: acquire_def release_def)

lemma acquire_free [simp]: "l \<notin> held s \<Longrightarrow> acquire l s = Ok (s\<lparr>held := insert l (held s)\<rparr>)"
  by (simp add: acquire_def)

lemma release_held [simp]: "l \<in> held s \<Longrightarrow> release l s = Ok (s\<lparr>held := held s - {l}\<rparr>)"
  by (simp add: release_def)

text \<open>
  The machine of \<open>Spinlock\<close> refines this: seen through the locks of one CPU, its \<open>acquire\<close> of a
  lock nobody holds and its \<open>release\<close> compute the same result.
\<close>

lemma acquire_spin_refines:
  assumes "cpu_wf c m" and "locked (locks m k) = 0" and "k \<notin> locks_of c m"
  shows "okP (acquire_spin c k pcs m) (\<lambda>m'. locks_of c m' = insert k (locks_of c m))"
  by (rule okP_mono [OF cpu_spin.acq_ok [OF assms(1) assms(3,2)]]) blast

section \<open>The current process and wakeups\<close>

definition myproc :: "'a ksys_scheme \<Rightarrow> proc" where
  "myproc s = ptable s ! the (cur s)"

definition upd_proc :: "nat \<Rightarrow> (proc \<Rightarrow> proc) \<Rightarrow> 'a ksys_scheme \<Rightarrow> 'a ksys_scheme" where
  "upd_proc i f s = s\<lparr>ptable := (ptable s)[i := f (ptable s ! i)]\<rparr>"

text \<open>\<open>wakeup1\<close>: every process sleeping on the channel becomes runnable.\<close>

definition wake_proc :: "chan \<Rightarrow> proc \<Rightarrow> proc" where
  "wake_proc ch p = (if p_state p = SLEEPING \<and> p_chan p = ch then p\<lparr>p_state := RUNNABLE\<rparr> else p)"

definition wakeup1 :: "chan \<Rightarrow> 'a ksys_scheme \<Rightarrow> 'a ksys_scheme" where
  "wakeup1 ch s = s\<lparr>ptable := map (wake_proc ch) (ptable s)\<rparr>"

definition wakeup :: "chan \<Rightarrow> 'a ksys_scheme \<Rightarrow> 'a ksys_scheme res" where
  "wakeup ch s =
     bindr (acquire LPtable s) (\<lambda>s.
     release LPtable (wakeup1 ch s))"

lemma wakeup_eq: "LPtable \<notin> held s \<Longrightarrow> wakeup ch s = Ok (wakeup1 ch s)"
  by (simp add: wakeup_def wakeup1_def)

lemma wakeup1_sel [simp]:
  "held (wakeup1 ch s) = held s" "ram (wakeup1 ch s) = ram s" "freelist (wakeup1 ch s) = freelist s"
  "use_lock (wakeup1 ch s) = use_lock s" "kend (wakeup1 ch s) = kend s" "cur (wakeup1 ch s) = cur s"
  "nextpid (wakeup1 ch s) = nextpid s" "initproc (wakeup1 ch s) = initproc s"
  "ticks (wakeup1 ch s) = ticks s" "ksys.more (wakeup1 ch s) = ksys.more s"
  "ptable (wakeup1 ch s) = map (wake_proc ch) (ptable s)"
  by (simp_all add: wakeup1_def)

section \<open>The state before main()\<close>

text \<open>
  Zero-initialised data, an empty free list, and the kernel image ending at \<open>e\<close>.
\<close>

definition zero_proc :: proc where
  "zero_proc = \<lparr>p_sz = 0, p_pgdir = 0, p_kstack = 0, p_state = UNUSED, p_pid = 0, p_parent = None,
     p_tf = zero_tf, p_context = \<lparr>ctx_edi = 0, ctx_esi = 0, ctx_ebx = 0, ctx_ebp = 0, ctx_eip = InKernel\<rparr>,
     p_chan = ChInt 0, p_killed = False, p_ofile = replicate NOFILE None, p_cwd = None,
     p_name = replicate 16 0, p_oldtf_page = 0, p_oldtf = zero_tf\<rparr>"

definition boot_state :: "nat \<Rightarrow> ksys" where
  "boot_state e = \<lparr>held = {}, ram = (\<lambda>_. 0), freelist = 0, use_lock = False, kend = e,
     ptable = replicate NPROC zero_proc, cur = None, nextpid = 1, initproc = None, ticks = 0\<rparr>"

end
