(* ===== verification/Sleeplock.thy ===== *)
theory Sleeplock
  imports Kstate
begin

text \<open>
  \<open>sleeplock.c\<close>. A sleep lock is a record; \<open>l\<close> is its inner spin lock \<open>lk->lk\<close> and \<open>ch\<close> its
  address, on which waiters sleep.
\<close>

record sleeplock =
  sl_locked :: bool
  sl_name :: string
  sl_pid :: int

definition initsleeplock :: "string \<Rightarrow> sleeplock" where
  "initsleeplock name = \<lparr>sl_locked = False, sl_name = name, sl_pid = 0\<rparr>"

definition acquiresleep ::
  "klock \<Rightarrow> chan \<Rightarrow> sleeplock \<Rightarrow> 'a ksys_scheme \<Rightarrow> (sleeplock \<times> 'a ksys_scheme) res" where
  "acquiresleep l ch lk s =
     bindr (acquire l s) (\<lambda>s.
     if sl_locked lk then Block ch
     else let lk = lk\<lparr>sl_locked := True, sl_pid := p_pid (myproc s)\<rparr>
          in bindr (release l s) (\<lambda>s. Ok (lk, s)))"

definition releasesleep ::
  "klock \<Rightarrow> chan \<Rightarrow> sleeplock \<Rightarrow> 'a ksys_scheme \<Rightarrow> (sleeplock \<times> 'a ksys_scheme) res" where
  "releasesleep l ch lk s =
     bindr (acquire l s) (\<lambda>s.
     let lk = lk\<lparr>sl_locked := False, sl_pid := 0\<rparr>
     in bindr (wakeup ch s) (\<lambda>s.
        bindr (release l s) (\<lambda>s. Ok (lk, s))))"

definition holdingsleep ::
  "klock \<Rightarrow> sleeplock \<Rightarrow> 'a ksys_scheme \<Rightarrow> (bool \<times> 'a ksys_scheme) res" where
  "holdingsleep l lk s =
     bindr (acquire l s) (\<lambda>s.
     let r = sl_locked lk
     in bindr (release l s) (\<lambda>s. Ok (r, s)))"

text \<open>With no spin lock held, these are what they look like.\<close>

lemma held_restore [simp]: "held s = {} \<Longrightarrow> s\<lparr>held := {}\<rparr> = s"
  by simp

lemma acquiresleep_eq:
  "held s = {} \<Longrightarrow> acquiresleep l ch lk s =
     (if sl_locked lk then Block ch
      else Ok (lk\<lparr>sl_locked := True, sl_pid := p_pid (myproc s)\<rparr>, s))"
  by (simp add: acquiresleep_def Let_def myproc_def)

lemma releasesleep_eq:
  "held s = {} \<Longrightarrow> l \<noteq> LPtable \<Longrightarrow> releasesleep l ch lk s =
     Ok (lk\<lparr>sl_locked := False, sl_pid := 0\<rparr>, wakeup1 ch s)"
  by (simp add: releasesleep_def Let_def wakeup_eq wakeup1_def)

lemma holdingsleep_eq:
  "l \<notin> held s \<Longrightarrow> holdingsleep l lk s = Ok (sl_locked lk, s)"
  by (simp add: holdingsleep_def Let_def)

text \<open>
  A thread that takes a free sleep lock and releases it leaves it free, whoever holds no spin
  lock; taking it twice without a release puts the thread to sleep on its own lock.
\<close>

lemma acquire_release_sleep:
  "held s = {} \<Longrightarrow> l \<noteq> LPtable \<Longrightarrow> \<not> sl_locked lk \<Longrightarrow>
     bindr (acquiresleep l ch lk s) (\<lambda>(lk, s). releasesleep l ch lk s)
       = Ok (lk\<lparr>sl_locked := False, sl_pid := 0\<rparr>, wakeup1 ch s)"
  by (simp add: acquiresleep_eq releasesleep_eq)

lemma acquiresleep_twice:
  "held s = {} \<Longrightarrow> \<not> sl_locked lk \<Longrightarrow>
     bindr (acquiresleep l ch lk s) (\<lambda>(lk, s). acquiresleep l ch lk s) = Block ch"
  by (simp add: acquiresleep_eq)

end
