(* ===== verification/Bio.thy ===== *)
theory Bio
  imports Sleeplock
begin

text \<open>
  The block layer: the IDE driver of \<open>ide.c\<close> and the buffer cache of \<open>bio.c\<close>. An array of
  \<open>BSIZE\<close> bytes is a function of which the indexes below \<open>BSIZE\<close> are the array, so copying a whole
  block is an assignment. The circular list of buffers through \<open>prev\<close>/\<open>next\<close> is the list
  \<open>lru\<close> of buffer indexes from \<open>head.next\<close> on; \<open>Buflist\<close> relates the two. Every sector
  the driver writes is also recorded in \<open>wtrace\<close>, the order of the writes that a crash can cut.
\<close>

section \<open>State\<close>

definition NBUF :: nat where "NBUF = 30"
definition BSIZE :: nat where "BSIZE = 512"
definition FSSIZE :: nat where "FSSIZE = 1000"

lemmas [layout_simps] = NBUF_def BSIZE_def FSSIZE_def

text \<open>\<open>struct buf\<close>; the two bits of \<open>flags\<close> are \<open>b_valid\<close> (\<open>B_VALID\<close>) and \<open>b_dirty\<close> (\<open>B_DIRTY\<close>).\<close>

record buf =
  b_valid :: bool
  b_dirty :: bool
  b_dev :: nat
  b_blockno :: nat
  b_lock :: sleeplock
  b_refcnt :: nat
  b_data :: mem

record bio = ksys +
  bufs :: "nat \<Rightarrow> buf"
  lru :: "nat list"
  idequeue :: "nat list"
  ide_status :: nat
  ide_cmd :: "nat \<times> nat"
  havedisk1 :: bool
  disk :: "nat \<Rightarrow> nat \<Rightarrow> mem"
  wtrace :: "(nat \<times> nat \<times> mem) list"

definition upd_buf :: "nat \<Rightarrow> (buf \<Rightarrow> buf) \<Rightarrow> 'a bio_scheme \<Rightarrow> 'a bio_scheme" where
  "upd_buf b f s = s\<lparr>bufs := (bufs s)(b := f (bufs s b))\<rparr>"

definition set_data :: "nat \<Rightarrow> mem \<Rightarrow> 'a bio_scheme \<Rightarrow> 'a bio_scheme" where
  "set_data b d s = upd_buf b (\<lambda>u. u\<lparr>b_data := d\<rparr>) s"

section \<open>ide.c\<close>

text \<open>
  \<open>ide_status\<close> is the status byte with which the polling loop of \<open>idewait\<close> ends
  (\<open>IDE_DF | IDE_ERR = 0x21\<close>).
\<close>

definition idewait :: "bool \<Rightarrow> 'a bio_scheme \<Rightarrow> int" where
  "idewait checkerr s = (if checkerr \<and> ide_status s AND 33 \<noteq> 0 then -1 else 0)"

text \<open>
  The registers \<open>0x1f3\<close> to \<open>0x1f6\<close> as \<open>idestart\<close> loads them, and the drive and sector a controller
  in LBA mode addresses with them.
\<close>

definition ide_regs :: "nat \<Rightarrow> nat \<Rightarrow> nat list" where
  "ide_regs dev sector =
     [sector AND 255, drop_bit 8 sector AND 255, drop_bit 16 sector AND 255,
      224 OR push_bit 4 (dev AND 1) OR (drop_bit 24 sector AND 15)]"

definition ide_target :: "nat list \<Rightarrow> nat \<times> nat" where
  "ide_target rs = (drop_bit 4 (rs ! 3) AND 1,
     rs ! 0 + 256 * (rs ! 1) + 65536 * (rs ! 2) + 16777216 * (rs ! 3 AND 15))"

text \<open>
  \<open>idestart\<close>: with a dirty buffer the data goes to the controller at once. \<open>BSIZE\<close> is the sector
  size, so a block is one sector.
\<close>

definition idestart :: "nat \<Rightarrow> 'a bio_scheme \<Rightarrow> 'a bio_scheme res" where
  "idestart b s =
     (if FSSIZE \<le> b_blockno (bufs s b) then Panic ''incorrect blockno''
      else
        let sector_per_block = BSIZE div 512;
            sector = b_blockno (bufs s b) * sector_per_block;
            (d, sec) = ide_target (ide_regs (b_dev (bufs s b)) sector);
            s = s\<lparr>ide_cmd := (d, sec)\<rparr>
        in if b_dirty (bufs s b)
           then Ok (s\<lparr>disk := (disk s)(d := (disk s d)(sec := b_data (bufs s b))),
                      wtrace := wtrace s @ [(d, sec, b_data (bufs s b))]\<rparr>)
           else Ok s)"

definition ideintr :: "'a bio_scheme \<Rightarrow> 'a bio_scheme res" where
  "ideintr s =
     bindr (acquire LIde s) (\<lambda>s.
     case idequeue s of
       [] \<Rightarrow> release LIde s
     | b # q \<Rightarrow>
         let s = s\<lparr>idequeue := q\<rparr>;
             s = (if \<not> b_dirty (bufs s b) \<and> 0 \<le> idewait True s
                  then set_data b (disk s (fst (ide_cmd s)) (snd (ide_cmd s))) s else s);
             s = upd_buf b (\<lambda>u. u\<lparr>b_valid := True, b_dirty := False\<rparr>) s
         in bindr (wakeup (ChBuf b) s) (\<lambda>s.
            bindr (if idequeue s \<noteq> [] then idestart (hd (idequeue s)) s else Ok s) (\<lambda>s.
            release LIde s)))"

text \<open>
  The loop of \<open>iderw\<close> that sleeps until the buffer is valid and clean. While the thread sleeps the
  disk finishes the request at the head of the queue and interrupts; \<open>n\<close> bounds the number of
  requests ahead.
\<close>

fun ide_wait :: "nat \<Rightarrow> nat \<Rightarrow> 'a bio_scheme \<Rightarrow> 'a bio_scheme res" where
  "ide_wait 0 b s = (if b_valid (bufs s b) \<and> \<not> b_dirty (bufs s b) then Ok s else Block (ChBuf b))"
| "ide_wait (Suc n) b s =
     (if b_valid (bufs s b) \<and> \<not> b_dirty (bufs s b) then Ok s
      else bindr (release LIde s) (\<lambda>s.
           bindr (ideintr s) (\<lambda>s.
           bindr (acquire LIde s) (ide_wait n b))))"

definition iderw :: "nat \<Rightarrow> 'a bio_scheme \<Rightarrow> 'a bio_scheme res" where
  "iderw b s =
     bindr (holdingsleep (LBufLock b) (b_lock (bufs s b)) s) (\<lambda>(h, s).
     if \<not> h then Panic ''iderw: buf not locked''
     else if b_valid (bufs s b) \<and> \<not> b_dirty (bufs s b) then Panic ''iderw: nothing to do''
     else if b_dev (bufs s b) \<noteq> 0 \<and> \<not> havedisk1 s then Panic ''iderw: ide disk 1 not present''
     else
       bindr (acquire LIde s) (\<lambda>s.
       let s = s\<lparr>idequeue := idequeue s @ [b]\<rparr>
       in bindr (if hd (idequeue s) = b then idestart b s else Ok s) (\<lambda>s.
          bindr (ide_wait (length (idequeue s)) b s) (\<lambda>s.
          release LIde s))))"

section \<open>bio.c\<close>

definition binit :: "'a bio_scheme \<Rightarrow> 'a bio_scheme" where
  "binit s = s\<lparr>bufs := (\<lambda>b. if b < NBUF then (bufs s b)\<lparr>b_lock := initsleeplock ''buffer''\<rparr> else bufs s b),
     lru := rev [0..<NBUF]\<rparr>"

definition lock_buf :: "nat \<Rightarrow> 'a bio_scheme \<Rightarrow> 'a bio_scheme res" where
  "lock_buf b s =
     bindr (acquiresleep (LBufLock b) (ChBufLock b) (b_lock (bufs s b)) s) (\<lambda>(lk, s).
     Ok (upd_buf b (\<lambda>u. u\<lparr>b_lock := lk\<rparr>) s))"

definition bget :: "nat \<Rightarrow> nat \<Rightarrow> 'a bio_scheme \<Rightarrow> (nat \<times> 'a bio_scheme) res" where
  "bget dev blockno s =
     bindr (acquire LBcache s) (\<lambda>s.
     case find (\<lambda>b. b_dev (bufs s b) = dev \<and> b_blockno (bufs s b) = blockno) (lru s) of
       Some b \<Rightarrow>
         let s = upd_buf b (\<lambda>u. u\<lparr>b_refcnt := wrap32 (b_refcnt u + 1)\<rparr>) s
         in bindr (release LBcache s) (\<lambda>s.
            bindr (lock_buf b s) (\<lambda>s. Ok (b, s)))
     | None \<Rightarrow>
         (case find (\<lambda>b. b_refcnt (bufs s b) = 0 \<and> \<not> b_dirty (bufs s b)) (rev (lru s)) of
            Some b \<Rightarrow>
              let s = upd_buf b (\<lambda>u. u\<lparr>b_dev := dev, b_blockno := blockno, b_valid := False,
                        b_dirty := False, b_refcnt := 1\<rparr>) s
              in bindr (release LBcache s) (\<lambda>s.
                 bindr (lock_buf b s) (\<lambda>s. Ok (b, s)))
          | None \<Rightarrow> Panic ''bget: no buffers''))"

definition bread :: "nat \<Rightarrow> nat \<Rightarrow> 'a bio_scheme \<Rightarrow> (nat \<times> 'a bio_scheme) res" where
  "bread dev blockno s =
     bindr (bget dev blockno s) (\<lambda>(b, s).
     if \<not> b_valid (bufs s b)
     then bindr (iderw b s) (\<lambda>s. Ok (b, s))
     else Ok (b, s))"

definition bwrite :: "nat \<Rightarrow> 'a bio_scheme \<Rightarrow> 'a bio_scheme res" where
  "bwrite b s =
     bindr (holdingsleep (LBufLock b) (b_lock (bufs s b)) s) (\<lambda>(h, s).
     if \<not> h then Panic ''bwrite''
     else iderw b (upd_buf b (\<lambda>u. u\<lparr>b_dirty := True\<rparr>) s))"

text \<open>\<open>refcnt\<close> is unsigned: decrementing 0 would wrap, which the pairing of calls excludes.\<close>

definition dec32 :: "nat \<Rightarrow> nat" where
  "dec32 n = sub32 n 1"

definition brelse :: "nat \<Rightarrow> 'a bio_scheme \<Rightarrow> 'a bio_scheme res" where
  "brelse b s =
     bindr (holdingsleep (LBufLock b) (b_lock (bufs s b)) s) (\<lambda>(h, s).
     if \<not> h then Panic ''brelse''
     else
       bindr (releasesleep (LBufLock b) (ChBufLock b) (b_lock (bufs s b)) s) (\<lambda>(lk, s).
       let s = upd_buf b (\<lambda>u. u\<lparr>b_lock := lk\<rparr>) s
       in bindr (acquire LBcache s) (\<lambda>s.
          let s = upd_buf b (\<lambda>u. u\<lparr>b_refcnt := dec32 (b_refcnt u)\<rparr>) s;
              s = (if b_refcnt (bufs s b) = 0 then s\<lparr>lru := b # remove1 b (lru s)\<rparr> else s)
          in release LBcache s)))"

end
