(* ===== verification/BioSpec.thy ===== *)
theory BioSpec
  imports Bio
begin

text \<open>
  What the block layer promises. \<open>blk s n\<close> is the content of block \<open>n\<close> of the root disk as the
  kernel sees it through the cache. The cache invariant says that a block is cached at most once
  and that a clean buffer agrees with the disk; \<open>bread\<close>, \<open>bwrite\<close> and \<open>brelse\<close> keep it.
\<close>

section \<open>Frames\<close>

definition woken :: "proc \<Rightarrow> proc \<Rightarrow> bool" where
  "woken p q \<longleftrightarrow> q = p \<or> p_state p = SLEEPING \<and> q = p\<lparr>p_state := RUNNABLE\<rparr>"

text \<open>Nothing below the block layer changes but that sleeping processes may be woken.\<close>

definition ksame :: "'a ksys_scheme \<Rightarrow> 'b ksys_scheme \<Rightarrow> bool" where
  "ksame s s' \<longleftrightarrow> held s' = held s \<and> ram s' = ram s \<and> freelist s' = freelist s
     \<and> use_lock s' = use_lock s \<and> kend s' = kend s \<and> cur s' = cur s \<and> nextpid s' = nextpid s
     \<and> initproc s' = initproc s \<and> ticks s' = ticks s \<and> list_all2 woken (ptable s) (ptable s')"

lemma woken_refl [simp]: "woken p p"
  by (simp add: woken_def)

lemma woken_trans: "woken p q \<Longrightarrow> woken q r \<Longrightarrow> woken p r"
  by (auto simp: woken_def)

lemma ksame_refl [simp]: "ksame s s"
  by (simp add: ksame_def list.rel_refl)

lemma ksame_trans: "ksame s t \<Longrightarrow> ksame t u \<Longrightarrow> ksame s u"
  unfolding ksame_def using list_all2_trans [of woken woken woken] woken_trans by metis

lemma ksame_wakeup1: "ksame s (wakeup1 ch s)"
  by (auto simp: ksame_def list_all2_conv_all_nth wake_proc_def woken_def)

lemma wakeup1_bio [simp]:
  "bufs (wakeup1 ch s) = bufs s" "lru (wakeup1 ch s) = lru s" "idequeue (wakeup1 ch s) = idequeue s"
  "ide_status (wakeup1 ch s) = ide_status s" "ide_cmd (wakeup1 ch s) = ide_cmd s"
  "havedisk1 (wakeup1 ch s) = havedisk1 s" "disk (wakeup1 ch s) = disk s"
  "wtrace (wakeup1 ch s) = wtrace s" "bio.more (wakeup1 ch s) = bio.more s"
  by (simp_all add: wakeup1_def)

lemma upd_buf_sel [simp]:
  "bufs (upd_buf b f s) = (bufs s)(b := f (bufs s b))" "lru (upd_buf b f s) = lru s"
  "idequeue (upd_buf b f s) = idequeue s" "ide_status (upd_buf b f s) = ide_status s"
  "ide_cmd (upd_buf b f s) = ide_cmd s" "havedisk1 (upd_buf b f s) = havedisk1 s"
  "disk (upd_buf b f s) = disk s" "wtrace (upd_buf b f s) = wtrace s"
  "bio.more (upd_buf b f s) = bio.more s" "held (upd_buf b f s) = held s"
  "ptable (upd_buf b f s) = ptable s" "cur (upd_buf b f s) = cur s" "ram (upd_buf b f s) = ram s"
  "ticks (upd_buf b f s) = ticks s" "freelist (upd_buf b f s) = freelist s"
  "use_lock (upd_buf b f s) = use_lock s" "kend (upd_buf b f s) = kend s"
  "nextpid (upd_buf b f s) = nextpid s" "initproc (upd_buf b f s) = initproc s"
  by (simp_all add: upd_buf_def)

lemma myproc_upd_buf [simp]: "myproc (upd_buf b f s) = myproc s"
  by (simp add: myproc_def)

lemma ksame_upd_buf [simp]: "ksame s (upd_buf b f s)"
  by (simp add: ksame_def list.rel_refl)

lemma upd_buf_fuse [simp]: "upd_buf b f (upd_buf b g s) = upd_buf b (\<lambda>u. f (g u)) s"
  by (simp add: upd_buf_def)

section \<open>The driver\<close>

lemma and_255: "x AND 255 = x mod (256 :: nat)"
  using take_bit_eq_mask [of 8 x] by (simp add: take_bit_eq_mod mask_eq_exp_minus_1)

lemma ide_target_regs:
  "dev < 2 \<Longrightarrow> sector < 16777216 \<Longrightarrow> ide_target (ide_regs dev sector) = (dev, sector)"
proof -
  assume dev: "dev < 2" and sec: "sector < 16777216"
  have "sector mod 256 + 256 * (sector div 256 mod 256) + 65536 * (sector div 65536) = sector"
    using sec mod_digits4 [of sector] by simp
  moreover have "drop_bit 24 sector = 0" using sec by (simp add: drop_bit_eq_div)
  moreover have "dev = 0 \<or> dev = 1" using dev by auto
  ultimately show ?thesis
    by (auto simp: ide_target_def ide_regs_def and_255 drop_bit_eq_div)
qed

text \<open>The disk is present and idle, and the thread holds no spin lock.\<close>

definition io_ready :: "'a bio_scheme \<Rightarrow> bool" where
  "io_ready s \<longleftrightarrow> held s = {} \<and> idequeue s = [] \<and> ide_status s AND 33 = 0 \<and> havedisk1 s"

lemma io_ready_upd_buf [simp]: "io_ready (upd_buf b f s) = io_ready s"
  by (simp add: io_ready_def)

lemma io_ready_wakeup1 [simp]: "io_ready (wakeup1 ch s) = io_ready s"
  by (simp add: io_ready_def)

text \<open>The effect of one synchronous disk request.\<close>

definition disk_write :: "nat \<Rightarrow> nat \<Rightarrow> mem \<Rightarrow> 'a bio_scheme \<Rightarrow> 'a bio_scheme" where
  "disk_write d n m s = s\<lparr>disk := (disk s)(d := (disk s d)(n := m)), wtrace := wtrace s @ [(d, n, m)]\<rparr>"

definition rw_done :: "nat \<Rightarrow> 'a bio_scheme \<Rightarrow> 'a bio_scheme" where
  "rw_done b s =
     (let d = b_dev (bufs s b); n = b_blockno (bufs s b);
          s = s\<lparr>ide_cmd := (d, n)\<rparr>;
          s = (if b_dirty (bufs s b) then disk_write d n (b_data (bufs s b)) s
               else set_data b (disk s d n) s)
      in wakeup1 (ChBuf b) (upd_buf b (\<lambda>u. u\<lparr>b_valid := True, b_dirty := False\<rparr>) s))"

lemma iderw_eq:
  assumes "io_ready s" and "sl_locked (b_lock (bufs s b))"
    and "b_dirty (bufs s b) \<or> \<not> b_valid (bufs s b)"
    and "b_dev (bufs s b) < 2" and "b_blockno (bufs s b) < FSSIZE"
  shows "iderw b s = Ok (rw_done b s)"
proof -
  have t: "ide_target (ide_regs (b_dev (bufs s b)) (b_blockno (bufs s b)))
      = (b_dev (bufs s b), b_blockno (bufs s b))"
    using assms(4,5) by (intro ide_target_regs) (simp_all add: FSSIZE_def)
  have r: "held s = {}" "idequeue s = []" "ide_status s AND 33 = 0" "havedisk1 s"
    using assms(1) by (auto simp: io_ready_def)
  show ?thesis
  proof (cases "b_dirty (bufs s b)")
    case True
    with assms t r show ?thesis
      by (simp add: iderw_def holdingsleep_eq idestart_def Let_def ideintr_def idewait_def wakeup_eq
          rw_done_def disk_write_def BSIZE_def wakeup1_def upd_buf_def not_le)
  next
    case False
    with assms t r show ?thesis
      by (simp add: iderw_def holdingsleep_eq idestart_def Let_def ideintr_def idewait_def wakeup_eq
          rw_done_def set_data_def BSIZE_def wakeup1_def upd_buf_def not_le)
  qed
qed

section \<open>The cache invariant\<close>

definition ROOTDEV :: nat where "ROOTDEV = 1"

definition blocked :: "'a bio_scheme \<Rightarrow> nat \<Rightarrow> bool" where
  "blocked s b \<longleftrightarrow> sl_locked (b_lock (bufs s b))"

definition caches :: "'a bio_scheme \<Rightarrow> nat \<Rightarrow> nat \<Rightarrow> bool" where
  "caches s n b \<longleftrightarrow> b_dev (bufs s b) = ROOTDEV \<and> b_blockno (bufs s b) = n"

text \<open>The content of block \<open>n\<close> of the root disk: the cached one, else the one on disk.\<close>

definition blk :: "'a bio_scheme \<Rightarrow> nat \<Rightarrow> mem" where
  "blk s n = (case find (\<lambda>b. caches s n b \<and> b_valid (bufs s b)) (lru s) of
     Some b \<Rightarrow> b_data (bufs s b) | None \<Rightarrow> disk s ROOTDEV n)"

text \<open>
  A block of the root disk is in one buffer at most; a clean unlocked valid buffer agrees with the
  disk; a buffer is referenced while its lock is held, and only the root disk is in use. This is the view of a thread that
  runs while no other thread sleeps in the middle of a file system call.
\<close>

definition buf_inv :: "'a bio_scheme \<Rightarrow> nat \<Rightarrow> bool" where
  "buf_inv s b \<longleftrightarrow> (b_dirty (bufs s b) \<longrightarrow> b_valid (bufs s b))
     \<and> b_refcnt (bufs s b) = (if blocked s b then 1 else 0)
     \<and> (blocked s b \<or> b_dirty (bufs s b) \<longrightarrow> b_dev (bufs s b) = ROOTDEV)
     \<and> (b_dev (bufs s b) = ROOTDEV \<and> b_valid (bufs s b) \<and> \<not> b_dirty (bufs s b) \<and> \<not> blocked s b
          \<longrightarrow> b_data (bufs s b) = disk s ROOTDEV (b_blockno (bufs s b)))"

definition cache_inv :: "'a bio_scheme \<Rightarrow> bool" where
  "cache_inv s \<longleftrightarrow> distinct (lru s) \<and> set (lru s) = {..<NBUF}
     \<and> (\<forall>n. \<forall>b < NBUF. \<forall>b' < NBUF. caches s n b \<and> caches s n b' \<longrightarrow> b = b')
     \<and> (\<forall>b < NBUF. buf_inv s b)"

text \<open>Buffers \<open>bget\<close> may not recycle: referenced, or dirty because the log holds their block.\<close>

definition pinned :: "'a bio_scheme \<Rightarrow> nat set" where
  "pinned s = {b. b < NBUF \<and> (b_refcnt (bufs s b) \<noteq> 0 \<or> b_dirty (bufs s b))}"

lemma pinned_le: "card (pinned s) \<le> NBUF"
proof -
  have "card (pinned s) \<le> card {..<NBUF}" by (rule card_mono) (auto simp: pinned_def)
  then show ?thesis by simp
qed

lemma finite_pinned [simp]: "finite (pinned s)"
  by (rule finite_subset [of _ "{..<NBUF}"]) (auto simp: pinned_def)

lemma cache_inv_unique:
  "cache_inv s \<Longrightarrow> b < NBUF \<Longrightarrow> b' < NBUF \<Longrightarrow> caches s n b \<Longrightarrow> caches s n b' \<Longrightarrow> b = b'"
  by (auto simp: cache_inv_def)

lemma cache_inv_lru [simp]: "cache_inv s \<Longrightarrow> set (lru s) = {..<NBUF}"
  by (simp add: cache_inv_def)

lemma cache_inv_buf: "cache_inv s \<Longrightarrow> b < NBUF \<Longrightarrow> buf_inv s b"
  by (simp add: cache_inv_def)

lemma find_caches:
  "cache_inv s \<Longrightarrow> b < NBUF \<Longrightarrow> caches s n b \<Longrightarrow> find (caches s n) (lru s) = Some b"
  by (rule find_unique) (auto dest: cache_inv_unique)

lemma blk_cached:
  "cache_inv s \<Longrightarrow> b < NBUF \<Longrightarrow> caches s n b \<Longrightarrow> b_valid (bufs s b) \<Longrightarrow> blk s n = b_data (bufs s b)"
proof -
  assume i: "cache_inv s" and b: "b < NBUF" "caches s n b" "b_valid (bufs s b)"
  have "find (\<lambda>b. caches s n b \<and> b_valid (bufs s b)) (lru s) = Some b"
    using i b by (intro find_unique) (auto dest: cache_inv_unique)
  then show ?thesis by (simp add: blk_def)
qed

lemma blk_uncached:
  "cache_inv s \<Longrightarrow> (\<And>b. b < NBUF \<Longrightarrow> caches s n b \<Longrightarrow> \<not> b_valid (bufs s b)) \<Longrightarrow> blk s n = disk s ROOTDEV n"
proof -
  assume i: "cache_inv s" and b: "\<And>b. b < NBUF \<Longrightarrow> caches s n b \<Longrightarrow> \<not> b_valid (bufs s b)"
  have "find (\<lambda>b. caches s n b \<and> b_valid (bufs s b)) (lru s) = None"
    using i b by (auto simp: find_None_iff)
  then show ?thesis by (simp add: blk_def)
qed

text \<open>A block whose buffer is clean and unlocked is the block on disk.\<close>

lemma blk_clean:
  assumes i: "cache_inv s"
    and b: "\<And>b. b < NBUF \<Longrightarrow> caches s n b \<Longrightarrow> \<not> b_dirty (bufs s b) \<and> \<not> blocked s b"
  shows "blk s n = disk s ROOTDEV n"
proof (cases "\<exists>b < NBUF. caches s n b \<and> b_valid (bufs s b)")
  case True
  then obtain c where c: "c < NBUF" "caches s n c" "b_valid (bufs s c)" by blast
  with b [OF c(1,2)] cache_inv_buf [OF i c(1)] have "b_data (bufs s c) = disk s ROOTDEV n"
    by (simp add: buf_inv_def caches_def)
  with blk_cached [OF i c] show ?thesis by simp
next
  case False
  with i show ?thesis by (intro blk_uncached) auto
qed

section \<open>Changing one buffer\<close>

lemma cache_inv_step:
  assumes i: "cache_inv s" and b: "b < NBUF"
    and same: "\<And>c. c \<noteq> b \<Longrightarrow> bufs s' c = bufs s c"
    and l: "distinct (lru s')" "set (lru s') = set (lru s)"
    and bi: "buf_inv s' b"
    and un: "\<And>n c. c < NBUF \<Longrightarrow> c \<noteq> b \<Longrightarrow> caches s n c \<Longrightarrow> \<not> caches s' n b"
    and d: "\<And>n. \<not> caches s' n b \<Longrightarrow> disk s' ROOTDEV n = disk s ROOTDEV n"
  shows "cache_inv s'"
proof -
  have cc: "caches s' n c = caches s n c" if "c \<noteq> b" for n c
    using same [OF that] by (simp add: caches_def)
  have "c = c'" if "c < NBUF" "c' < NBUF" "caches s' n c" "caches s' n c'" for n c c'
    using that un cc cache_inv_unique [OF i] by metis
  moreover have "buf_inv s' c" if c: "c < NBUF" for c
  proof (cases "c = b")
    case False
    have "disk s' ROOTDEV (b_blockno (bufs s c)) = disk s ROOTDEV (b_blockno (bufs s c))"
      if "b_dev (bufs s c) = ROOTDEV"
      using un [OF c False] d that by (simp add: caches_def)
    with cache_inv_buf [OF i c] same [OF False] show ?thesis
      by (simp add: buf_inv_def blocked_def)
  qed (simp add: bi)
  ultimately show ?thesis using i l by (simp add: cache_inv_def) blast
qed

lemma blk_other:
  assumes "cache_inv s" "cache_inv s'" and same: "\<And>c. c \<noteq> b \<Longrightarrow> bufs s' c = bufs s c"
    and n: "\<not> caches s n b" "\<not> caches s' n b" and d: "disk s' ROOTDEV n = disk s ROOTDEV n"
  shows "blk s' n = blk s n"
proof (cases "\<exists>c < NBUF. caches s n c \<and> b_valid (bufs s c)")
  case True
  then obtain c where c: "c < NBUF" "caches s n c" "b_valid (bufs s c)" by blast
  with n have "c \<noteq> b" by blast
  with c same have "bufs s' c = bufs s c" "caches s' n c" by (simp_all add: caches_def)
  with c blk_cached [OF assms(1) c] blk_cached [OF assms(2), of c n] show ?thesis by simp
next
  case False
  have "\<not> b_valid (bufs s' c)" if "c < NBUF" "caches s' n c" for c
  proof -
    from that n have "c \<noteq> b" by blast
    with same have "bufs s' c = bufs s c" by simp
    with that False show ?thesis by (auto simp: caches_def)
  qed
  with False d blk_uncached [OF assms(1), of n] blk_uncached [OF assms(2), of n] show ?thesis by auto
qed

lemma caches_cong: "bufs s' = bufs s \<Longrightarrow> caches s' = caches s"
  by (intro ext) (simp add: caches_def)

lemma blocked_cong: "bufs s' = bufs s \<Longrightarrow> blocked s' = blocked s"
  by (intro ext) (simp add: blocked_def)

lemma blk_same_bufs:
  "bufs s' = bufs s \<Longrightarrow> lru s' = lru s \<Longrightarrow> disk s' = disk s \<Longrightarrow> blk s' = blk s"
  using caches_cong [of s' s] by (intro ext) (simp only: blk_def)

lemma cache_inv_cong:
  "bufs s' = bufs s \<Longrightarrow> lru s' = lru s \<Longrightarrow> disk s' = disk s \<Longrightarrow> cache_inv s' = cache_inv s"
  using caches_cong [of s' s] blocked_cong [of s' s] by (simp only: cache_inv_def buf_inv_def)

section \<open>bget\<close>

definition lock_owned :: "'a bio_scheme \<Rightarrow> sleeplock \<Rightarrow> sleeplock" where
  "lock_owned s lk = lk\<lparr>sl_locked := True, sl_pid := p_pid (myproc s)\<rparr>"

lemma lock_owned_locked [simp]: "sl_locked (lock_owned s lk)"
  by (simp add: lock_owned_def)

definition got :: "nat \<Rightarrow> nat \<Rightarrow> 'a bio_scheme \<Rightarrow> 'a bio_scheme" where
  "got b n s = (if caches s n b
     then upd_buf b (\<lambda>u. u\<lparr>b_refcnt := 1, b_lock := lock_owned s (b_lock u)\<rparr>) s
     else upd_buf b (\<lambda>u. u\<lparr>b_dev := ROOTDEV, b_blockno := n, b_valid := False, b_dirty := False,
            b_refcnt := 1, b_lock := lock_owned s (b_lock u)\<rparr>) s)"

lemma lock_buf_eq:
  "held s = {} \<Longrightarrow> lock_buf b s = (if blocked s b then Block (ChBufLock b)
     else Ok (upd_buf b (\<lambda>u. u\<lparr>b_lock := lock_owned s (b_lock u)\<rparr>) s))"
  by (simp add: lock_buf_def acquiresleep_eq blocked_def lock_owned_def upd_buf_def)

lemma held_upd_buf: "upd_buf b f (s\<lparr>held := H\<rparr>) = (upd_buf b f s)\<lparr>held := H\<rparr>"
  by (simp add: upd_buf_def)

text \<open>The three outcomes of \<open>bget\<close> for a block of the root disk.\<close>

definition bget_target :: "nat \<Rightarrow> 'a bio_scheme \<Rightarrow> nat option" where
  "bget_target n s = (case find (caches s n) (lru s) of
     Some b \<Rightarrow> Some b
   | None \<Rightarrow> find (\<lambda>b. b_refcnt (bufs s b) = 0 \<and> \<not> b_dirty (bufs s b)) (rev (lru s)))"

lemma bget_eq:
  assumes i: "cache_inv s" and h: "held s = {}"
  shows "bget ROOTDEV n s = (case bget_target n s of
     None \<Rightarrow> Panic ''bget: no buffers''
   | Some b \<Rightarrow> if caches s n b \<and> blocked s b then Block (ChBufLock b) else Ok (b, got b n s))"
proof -
  let ?s = "s\<lparr>held := insert LBcache (held s)\<rparr>"
  let ?free = "\<lambda>b. b_refcnt (bufs s b) = 0 \<and> \<not> b_dirty (bufs s b)"
  have f: "find (\<lambda>b. b_dev (bufs ?s b) = ROOTDEV \<and> b_blockno (bufs ?s b) = n) (lru ?s)
      = find (caches s n) (lru s)"
    by (simp add: caches_def [abs_def])
  show ?thesis
  proof (cases "find (caches s n) (lru s)")
    case (Some b)
    then have b: "b < NBUF" "caches s n b" using i by (auto dest!: find_SomeD)
    have rf: "\<not> blocked s b \<Longrightarrow> b_refcnt (bufs s b) = 0"
      using cache_inv_buf [OF i b(1)] by (simp add: buf_inv_def)
    have g: "upd_buf b (\<lambda>u. u\<lparr>b_refcnt := wrap32 (b_refcnt u + 1), b_lock := lock_owned s (b_lock u)\<rparr>) s
        = got b n s" if "\<not> blocked s b"
      using rf [OF that] b(2) by (simp add: got_def upd_buf_def)
    from Some f h b g show ?thesis
      by (simp add: bget_def bget_target_def Let_def held_upd_buf lock_buf_eq blocked_def
          lock_owned_def myproc_def)
  next
    case None
    show ?thesis
    proof (cases "find ?free (rev (lru s))")
      case N2: None
      from None N2 f h show ?thesis by (simp add: bget_def bget_target_def)
    next
      case (Some b)
      then have b: "b < NBUF" "?free b" using i find_SomeD [OF Some] by auto
      have nb: "\<not> blocked s b" using b cache_inv_buf [OF i b(1)] by (auto simp: buf_inv_def)
      have nc: "\<not> caches s n b" using None b i by (auto dest: find_NoneD)
      from None Some f h b nb nc show ?thesis
        by (simp add: bget_def bget_target_def Let_def held_upd_buf lock_buf_eq blocked_def
            lock_owned_def myproc_def got_def)
    qed
  qed
qed

section \<open>The operations keep the invariant\<close>

text \<open>Everything outside the cache is unchanged and the driver is idle again.\<close>

definition bsame :: "'a bio_scheme \<Rightarrow> 'a bio_scheme \<Rightarrow> bool" where
  "bsame s s' \<longleftrightarrow> ksame s s' \<and> bio.more s' = bio.more s \<and> io_ready s' = io_ready s"

lemma bsame_refl [simp]: "bsame s s"
  by (simp add: bsame_def)

lemma bsame_trans: "bsame s t \<Longrightarrow> bsame t u \<Longrightarrow> bsame s u"
  unfolding bsame_def using ksame_trans by metis

lemma bsame_upd_buf [simp]: "bsame s (upd_buf b f s)"
  by (simp add: bsame_def)

lemma bsame_io: "bsame s s' \<Longrightarrow> io_ready s \<Longrightarrow> io_ready s'"
  by (simp add: bsame_def)

lemma bsame_more: "bsame s s' \<Longrightarrow> bio.more s' = bio.more s"
  by (simp add: bsame_def)

lemma io_ready_held: "io_ready s \<Longrightarrow> held s = {}"
  by (simp add: io_ready_def)

lemma bsame_got [simp]: "bsame s (got b n s)"
  by (simp add: got_def)

lemma got_sel [simp]:
  "lru (got b n s) = lru s" "disk (got b n s) = disk s" "wtrace (got b n s) = wtrace s"
  "c \<noteq> b \<Longrightarrow> bufs (got b n s) c = bufs s c" "caches (got b n s) n b" "blocked (got b n s) b"
  by (simp_all add: got_def caches_def blocked_def)

lemma bget_target_Some:
  assumes i: "cache_inv s" and t: "bget_target n s = Some b"
  shows "b < NBUF" and "\<And>c. c < NBUF \<Longrightarrow> caches s n c \<Longrightarrow> c = b"
    and "\<not> caches s n b \<Longrightarrow> b \<notin> pinned s" and "\<not> caches s n b \<Longrightarrow> \<not> blocked s b"
proof -
  have *: "b < NBUF \<and> (\<forall>c < NBUF. caches s n c \<longrightarrow> c = b) \<and> (\<not> caches s n b \<longrightarrow> b \<notin> pinned s \<and> \<not> blocked s b)"
  proof (cases "find (caches s n) (lru s)")
    case None
    then have "find (\<lambda>b. b_refcnt (bufs s b) = 0 \<and> \<not> b_dirty (bufs s b)) (rev (lru s)) = Some b"
      using t by (simp add: bget_target_def)
    then have b: "b < NBUF" "b_refcnt (bufs s b) = 0" "\<not> b_dirty (bufs s b)"
      using i find_SomeD by fastforce+
    have "\<not> caches s n c" if "c < NBUF" for c
      using that None i by (auto dest: find_NoneD)
    with b cache_inv_buf [OF i b(1)] show ?thesis
      by (auto simp: pinned_def buf_inv_def split: if_splits)
  next
    case (Some c)
    with t have "c = b" by (simp add: bget_target_def)
    with Some have "b < NBUF" "caches s n b" using i find_SomeD by fastforce+
    with i show ?thesis by (auto dest: cache_inv_unique)
  qed
  then show "b < NBUF" and "\<And>c. c < NBUF \<Longrightarrow> caches s n c \<Longrightarrow> c = b"
    and "\<not> caches s n b \<Longrightarrow> b \<notin> pinned s" and "\<not> caches s n b \<Longrightarrow> \<not> blocked s b" by blast+
qed

lemma bget_target_None:
  assumes i: "cache_inv s"
  shows "bget_target n s = None \<longleftrightarrow> card (pinned s) = NBUF \<and> (\<forall>b < NBUF. \<not> caches s n b)"
proof -
  have p: "card (pinned s) = NBUF \<longleftrightarrow> pinned s = {..<NBUF}"
  proof
    assume "card (pinned s) = NBUF"
    then show "pinned s = {..<NBUF}"
      by (intro card_subset_eq) (auto simp: pinned_def)
  qed simp
  have "find (caches s n) (lru s) = None \<longleftrightarrow> (\<forall>b < NBUF. \<not> caches s n b)"
    using i by (auto simp: find_None_iff)
  moreover have "find (\<lambda>b. b_refcnt (bufs s b) = 0 \<and> \<not> b_dirty (bufs s b)) (rev (lru s)) = None
      \<longleftrightarrow> pinned s = {..<NBUF}"
    using i by (auto simp: find_None_iff pinned_def)
  ultimately show ?thesis
    unfolding bget_target_def p by (auto split: option.splits)
qed

lemma got_inv:
  assumes i: "cache_inv s" and t: "bget_target n s = Some b" and nb: "\<not> blocked s b"
  shows "cache_inv (got b n s)" and "blk (got b n s) = blk s" and "pinned (got b n s) = insert b (pinned s)"
    and "b_dirty (bufs (got b n s) b) = b_dirty (bufs s b)"
    and "b_valid (bufs (got b n s) b) \<Longrightarrow> b_data (bufs (got b n s) b) = blk s n"
    and "b_valid (bufs (got b n s) b) \<longleftrightarrow> caches s n b \<and> b_valid (bufs s b)"
proof -
  note t = bget_target_Some [OF i t]
  have bi: "buf_inv (got b n s) b"
    using cache_inv_buf [OF i t(1)] nb by (auto simp: buf_inv_def got_def blocked_def caches_def)
  show ci: "cache_inv (got b n s)"
  proof (rule cache_inv_step [OF i t(1) _ _ _ bi])
    fix m c assume c: "c < NBUF" "c \<noteq> b" "caches s m c"
    with t(2) cache_inv_unique [OF i c(1) t(1) c(3)] show "\<not> caches (got b n s) m b"
      by (auto simp: got_def caches_def split: if_splits)
  qed (use i in \<open>auto simp: cache_inv_def\<close>)
  show v: "b_valid (bufs (got b n s) b) \<longleftrightarrow> caches s n b \<and> b_valid (bufs s b)"
    by (simp add: got_def)
  have d: "b_valid (bufs (got b n s) b) \<Longrightarrow> b_data (bufs (got b n s) b) = b_data (bufs s b)"
    by (auto simp: got_def)
  with v show "b_valid (bufs (got b n s) b) \<Longrightarrow> b_data (bufs (got b n s) b) = blk s n"
    using blk_cached [OF i t(1), of n] by simp
  show "b_dirty (bufs (got b n s) b) = b_dirty (bufs s b)"
    using t(1,3) by (auto simp: got_def pinned_def)
  show "pinned (got b n s) = insert b (pinned s)"
    using t(1,3) by (auto simp: got_def pinned_def)
  show "blk (got b n s) = blk s"
  proof
    fix m
    show "blk (got b n s) m = blk s m"
    proof (cases "m = n")
      case True
      show ?thesis
      proof (cases "b_valid (bufs (got b n s) b)")
        case v1: True
        with v d blk_cached [OF i t(1), of n] blk_cached [OF ci t(1), of n] True show ?thesis by simp
      next
        case False
        have "blk (got b n s) n = disk (got b n s) ROOTDEV n"
          using False cache_inv_unique [OF ci _ t(1) _ got_sel(5)]
          by (intro blk_uncached [OF ci]) blast
        moreover have "blk s n = disk s ROOTDEV n"
          using False v t(2) by (intro blk_uncached [OF i]) blast
        ultimately show ?thesis using True by simp
      qed
    next
      case False
      then have n': "\<not> caches (got b n s) m b" by (auto simp: got_def caches_def)
      show ?thesis
      proof (cases "caches s m b")
        case True
        with False have nc: "\<not> caches s n b" by (simp add: caches_def)
        have nd: "\<not> b_dirty (bufs s b)" using t(3) [OF nc] t(1) by (auto simp: pinned_def)
        have un: "c = b" if "c < NBUF" "caches s m c" for c
          using cache_inv_unique [OF i that(1) t(1) that(2) True] .
        have "blk s m = disk s ROOTDEV m"
          by (rule blk_clean [OF i]) (use un nd nb in blast)
        moreover have "blk (got b n s) m = disk (got b n s) ROOTDEV m"
        proof (rule blk_uncached [OF ci])
          fix c assume c: "c < NBUF" "caches (got b n s) m c"
          with n' have "c \<noteq> b" by blast
          with c un [of c] show "\<not> b_valid (bufs (got b n s) c)" by (simp add: caches_def)
        qed
        ultimately show ?thesis by simp
      next
        case nc: False
        show ?thesis by (rule blk_other [OF i ci _ nc n']) simp_all
      qed
    qed
  qed
qed

text \<open>\<open>buf_for s n b\<close>: the thread holds buffer \<open>b\<close>, which has block \<open>n\<close>.\<close>

definition buf_for :: "'a bio_scheme \<Rightarrow> nat \<Rightarrow> nat \<Rightarrow> bool" where
  "buf_for s n b \<longleftrightarrow> b < NBUF \<and> caches s n b \<and> b_valid (bufs s b) \<and> blocked s b"

lemma buf_forD:
  "buf_for s n b \<Longrightarrow> b < NBUF" "buf_for s n b \<Longrightarrow> caches s n b"
  "buf_for s n b \<Longrightarrow> b_valid (bufs s b)" "buf_for s n b \<Longrightarrow> blocked s b"
  by (simp_all add: buf_for_def)

lemma buf_for_data: "cache_inv s \<Longrightarrow> buf_for s n b \<Longrightarrow> b_data (bufs s b) = blk s n"
  by (simp add: buf_for_def blk_cached [symmetric])

lemma buf_for_other: "buf_for s n c \<Longrightarrow> bufs s' c = bufs s c \<Longrightarrow> buf_for s' n c"
  by (simp add: buf_for_def caches_def blocked_def)

text \<open>The state after \<open>bread\<close> of block \<open>n\<close> returned \<open>b\<close>.\<close>

definition read_post :: "nat \<Rightarrow> 'a bio_scheme \<Rightarrow> nat \<Rightarrow> 'a bio_scheme \<Rightarrow> bool" where
  "read_post n s b s' \<longleftrightarrow> buf_for s' n b \<and> \<not> blocked s b \<and> cache_inv s' \<and> blk s' = blk s
     \<and> (\<forall>c. c \<noteq> b \<longrightarrow> bufs s' c = bufs s c) \<and> pinned s' = insert b (pinned s)
     \<and> b_dirty (bufs s' b) = b_dirty (bufs s b) \<and> disk s' = disk s \<and> wtrace s' = wtrace s
     \<and> (caches s n b \<or> \<not> b_dirty (bufs s b)) \<and> (\<forall>c < NBUF. c \<noteq> b \<longrightarrow> \<not> caches s n c)
     \<and> bsame s s'"

lemma bread_ok [wp_rules]:
  assumes i: "cache_inv s" and io: "io_ready s" and n: "n < FSSIZE"
    and fr: "\<And>b. b < NBUF \<Longrightarrow> caches s n b \<Longrightarrow> \<not> blocked s b" and room: "card (pinned s) < NBUF"
  shows "okP (bread ROOTDEV n s) (\<lambda>(b, s'). read_post n s b s')"
proof -
  have "bget_target n s \<noteq> None" using room by (simp add: bget_target_None [OF i])
  then obtain b where t: "bget_target n s = Some b" by blast
  note tb = bget_target_Some [OF i t]
  have nb: "\<not> blocked s b" using tb(1,4) fr by blast
  have kp: "caches s n b \<or> \<not> b_dirty (bufs s b)" using tb(1,3) by (auto simp: pinned_def)
  have un: "\<forall>c < NBUF. c \<noteq> b \<longrightarrow> \<not> caches s n c" using tb(2) by blast
  let ?g = "got b n s"
  note g = got_inv [OF i t nb]
  have e: "bget ROOTDEV n s = Ok (b, ?g)"
    using t nb by (simp add: bget_eq [OF i io_ready_held [OF io]])
  show ?thesis
  proof (cases "b_valid (bufs ?g b)")
    case True
    then show ?thesis
      using e g tb(1) nb kp un by (simp add: bread_def read_post_def buf_for_def)
  next
    case False
    let ?r = "rw_done b ?g"
    have nd: "\<not> b_dirty (bufs ?g b)"
      using False cache_inv_buf [OF g(1) tb(1)] by (auto simp: buf_inv_def)
    have kd: "b_dev (bufs ?g b) = ROOTDEV" "b_blockno (bufs ?g b) = n"
      using got_sel(5) [of b n s] by (simp_all add: caches_def)
    have "iderw b ?g = Ok ?r"
      using False kd n io bsame_io [OF bsame_got io] got_sel(6) [of b n s]
      by (intro iderw_eq) (simp_all add: ROOTDEV_def blocked_def)
    then have e2: "bread ROOTDEV n s = Ok (b, ?r)" using e False by (simp add: bread_def)
    have r: "lru ?r = lru s" "disk ?r = disk s" "wtrace ?r = wtrace s"
      "bufs ?r = (bufs ?g)(b := (bufs ?g b)\<lparr>b_data := disk s ROOTDEV n, b_valid := True, b_dirty := False\<rparr>)"
      "bio.more ?r = bio.more s"
      using nd kd by (simp_all add: rw_done_def Let_def set_data_def got_def)
    have bs: "bsame s ?r"
    proof -
      have "ksame ?g ?r" and "io_ready ?r = io_ready ?g"
        using nd by (auto simp: rw_done_def Let_def set_data_def io_ready_def ksame_def
            list_all2_conv_all_nth wake_proc_def woken_def)
      with bsame_got [of s] r(5) show ?thesis
        using ksame_trans unfolding bsame_def by metis
    qed
    have cs: "caches ?r = caches ?g"
      by (intro ext) (simp add: caches_def r(4))
    have bl: "blocked ?r = blocked ?g"
      by (intro ext) (simp add: blocked_def r(4))
    have bi: "buf_inv ?r b"
      using cache_inv_buf [OF g(1) tb(1)] bl got_sel(6) [of b n s]
      by (simp add: buf_inv_def r(4))
    have ci: "cache_inv ?r"
    proof (rule cache_inv_step [OF g(1) tb(1) _ _ _ bi])
      fix m c assume "c < NBUF" "c \<noteq> b" "caches ?g m c"
      with cache_inv_unique [OF g(1) _ tb(1)] show "\<not> caches ?r m b" unfolding cs by blast
    qed (use i r in \<open>auto simp: cache_inv_def\<close>)
    have "blk ?r = blk ?g"
    proof
      fix m
      show "blk ?r m = blk ?g m"
      proof (cases "caches ?g m b")
        case True
        then have m: "m = n" using kd by (simp add: caches_def)
        have "blk ?g m = disk ?g ROOTDEV m"
          using False cache_inv_unique [OF g(1) _ tb(1) _ True] by (intro blk_uncached [OF g(1)]) blast
        moreover have "blk ?r m = disk s ROOTDEV n"
          using blk_cached [OF ci tb(1), of m] True by (simp add: cs r(4))
        ultimately show ?thesis using m by simp
      next
        case nc: False
        show ?thesis by (rule blk_other [OF g(1) ci _ nc]) (simp_all add: r nc cs)
      qed
    qed
    moreover have "pinned ?r = pinned ?g"
      unfolding pinned_def r(4) by (rule Collect_cong) (simp add: nd)
    ultimately show ?thesis
      using e2 g r ci bs tb(1) nb nd kp un got_sel(5,6) [of b n s]
      by (simp add: read_post_def buf_for_def cs bl)
  qed
qed

text \<open>Writing into a held buffer (its data or its dirty bit) is writing the block.\<close>

lemma hold_upd:
  assumes i: "cache_inv s" and b: "buf_for s n b"
    and f: "\<And>u. b_dev (f u) = b_dev u \<and> b_blockno (f u) = b_blockno u \<and> b_valid (f u) = b_valid u
          \<and> b_lock (f u) = b_lock u \<and> b_refcnt (f u) = b_refcnt u"
  shows "cache_inv (upd_buf b f s)" and "buf_for (upd_buf b f s) n b"
    and "blk (upd_buf b f s) = (blk s)(n := b_data (f (bufs s b)))"
proof -
  let ?s = "upd_buf b f s"
  have cs: "caches ?s = caches s" using f by (intro ext) (simp add: caches_def)
  have bl: "blocked ?s = blocked s" using f by (intro ext) (simp add: blocked_def)
  have lb: "b < NBUF" "caches s n b" "b_valid (bufs s b)" "blocked s b"
    using b by (simp_all add: buf_for_def)
  show ci: "cache_inv ?s"
  proof (rule cache_inv_step [OF i lb(1)])
    show "buf_inv ?s b" using cache_inv_buf [OF i lb(1)] lb f by (auto simp: buf_inv_def bl)
    fix m c assume "c < NBUF" "c \<noteq> b" "caches s m c"
    with cache_inv_unique [OF i _ lb(1)] show "\<not> caches ?s m b" unfolding cs by blast
  qed (use i in \<open>auto simp: cache_inv_def\<close>)
  show bf: "buf_for ?s n b" using b f by (simp add: buf_for_def cs bl)
  show "blk ?s = (blk s)(n := b_data (f (bufs s b)))"
  proof
    fix m
    show "blk ?s m = ((blk s)(n := b_data (f (bufs s b)))) m"
    proof (cases "m = n")
      case True
      then show ?thesis using buf_for_data [OF ci bf] by simp
    next
      case False
      with lb(2) have "\<not> caches s m b" by (auto simp: caches_def)
      then have "blk ?s m = blk s m" by (intro blk_other [OF i ci, of b]) (simp_all add: cs)
      with False show ?thesis by simp
    qed
  qed
qed

lemmas hold_set_data = hold_upd [where f = "\<lambda>u. u\<lparr>b_data := d\<rparr>" for d, folded set_data_def, simplified]

lemma set_data_sel [simp]:
  "bufs (set_data b d s) = (bufs s)(b := (bufs s b)\<lparr>b_data := d\<rparr>)" "lru (set_data b d s) = lru s"
  "disk (set_data b d s) = disk s" "wtrace (set_data b d s) = wtrace s"
  "bsame s (set_data b d s)" "pinned (set_data b d s) = pinned s"
  "bio.more (set_data b d s) = bio.more s" "io_ready (set_data b d s) = io_ready s"
  by (simp_all add: set_data_def) (auto simp: pinned_def)

lemma hold_dirty:
  assumes "cache_inv s" and "buf_for s n b"
  shows "cache_inv (upd_buf b (\<lambda>u. u\<lparr>b_dirty := x\<rparr>) s)"
    and "buf_for (upd_buf b (\<lambda>u. u\<lparr>b_dirty := x\<rparr>) s) n b"
    and "blk (upd_buf b (\<lambda>u. u\<lparr>b_dirty := x\<rparr>) s) = blk s"
  using hold_upd [OF assms, of "\<lambda>u. u\<lparr>b_dirty := x\<rparr>"] buf_for_data [OF assms] by auto

text \<open>\<open>bwrite\<close>: the block reaches the disk as it is in the buffer, and the buffer is clean.\<close>

definition write_post :: "nat \<Rightarrow> nat \<Rightarrow> 'a bio_scheme \<Rightarrow> 'a bio_scheme \<Rightarrow> bool" where
  "write_post n b s s' \<longleftrightarrow> buf_for s' n b \<and> cache_inv s' \<and> blk s' = blk s
     \<and> bufs s' = (bufs s)(b := (bufs s b)\<lparr>b_dirty := False\<rparr>)
     \<and> disk s' = (disk s)(ROOTDEV := (disk s ROOTDEV)(n := b_data (bufs s b)))
     \<and> wtrace s' = wtrace s @ [(ROOTDEV, n, b_data (bufs s b))] \<and> lru s' = lru s \<and> bsame s s'"

lemma bwrite_ok [wp_rules]:
  assumes i: "cache_inv s" and io: "io_ready s" and b: "buf_for s n b" and n: "n < FSSIZE"
  shows "okP (bwrite b s) (write_post n b s)"
proof -
  let ?d = "upd_buf b (\<lambda>u. u\<lparr>b_dirty := True\<rparr>) s"
  let ?r = "rw_done b ?d"
  note lb = buf_forD [OF b]
  have kd: "b_dev (bufs s b) = ROOTDEV" "b_blockno (bufs s b) = n" using lb(2) by (simp_all add: caches_def)
  have "iderw b ?d = Ok ?r"
    using lb kd n io by (intro iderw_eq) (simp_all add: ROOTDEV_def blocked_def)
  then have e: "bwrite b s = Ok ?r"
    using lb(4) io_ready_held [OF io] by (simp add: bwrite_def holdingsleep_eq blocked_def)
  have r: "lru ?r = lru s" "disk ?r = (disk s)(ROOTDEV := (disk s ROOTDEV)(n := b_data (bufs s b)))"
    "wtrace ?r = wtrace s @ [(ROOTDEV, n, b_data (bufs s b))]"
    "bufs ?r = (bufs s)(b := (bufs s b)\<lparr>b_dirty := False\<rparr>)" "bio.more ?r = bio.more s"
  proof -
    have v: "(bufs s b)\<lparr>b_valid := True\<rparr> = bufs s b" using lb(3) by (cases "bufs s b") simp
    have "(bufs s b)\<lparr>b_valid := True, b_dirty := False\<rparr> = (bufs s b)\<lparr>b_dirty := False\<rparr>"
      using v by (cases "bufs s b") simp
    then show "bufs ?r = (bufs s)(b := (bufs s b)\<lparr>b_dirty := False\<rparr>)"
      using kd by (simp add: rw_done_def Let_def disk_write_def upd_buf_def)
  qed (use kd in \<open>simp_all add: rw_done_def Let_def disk_write_def upd_buf_def\<close>)
  have bs: "bsame s ?r"
    using r(5) by (auto simp: bsame_def rw_done_def Let_def disk_write_def io_ready_def ksame_def
        list_all2_conv_all_nth wake_proc_def woken_def upd_buf_def)
  have cs: "caches ?r = caches s" by (intro ext) (simp add: caches_def r(4))
  have bl: "blocked ?r = blocked s" by (intro ext) (simp add: blocked_def r(4))
  have un: "c = b" if "c < NBUF" "caches s n c" for c
    using cache_inv_unique [OF i that(1) lb(1) that(2) lb(2)] .
  have bi: "buf_inv ?r b"
    using cache_inv_buf [OF i lb(1)] lb(3,4) kd by (simp add: buf_inv_def r(2,4) bl)
  have ci: "cache_inv ?r"
  proof (rule cache_inv_step [OF i lb(1) _ _ _ bi])
    fix m c assume "c < NBUF" "c \<noteq> b" "caches s m c"
    with cache_inv_unique [OF i _ lb(1)] show "\<not> caches ?r m b" unfolding cs by blast
  next
    fix m assume "\<not> caches ?r m b"
    with lb(2) have "m \<noteq> n" unfolding cs by blast
    then show "disk ?r ROOTDEV m = disk s ROOTDEV m" by (simp add: r(2))
  qed (use i r in \<open>auto simp: cache_inv_def\<close>)
  have bf: "buf_for ?r n b" using lb by (simp add: buf_for_def cs bl r(4))
  have "blk ?r = blk s"
  proof
    fix m
    show "blk ?r m = blk s m"
    proof (cases "m = n")
      case True
      then show ?thesis using buf_for_data [OF ci bf] buf_for_data [OF i b] by (simp add: r(4))
    next
      case False
      with lb(2) have "\<not> caches s m b" by (auto simp: caches_def)
      then show ?thesis using False by (intro blk_other [OF i ci]) (simp_all add: r cs)
    qed
  qed
  with e ci bf r bs show ?thesis by (simp add: write_post_def)
qed

text \<open>\<open>brelse\<close> of a buffer that is dirty or as on disk.\<close>

definition rel_post :: "nat \<Rightarrow> 'a bio_scheme \<Rightarrow> 'a bio_scheme \<Rightarrow> bool" where
  "rel_post b s s' \<longleftrightarrow> \<not> blocked s' b \<and> cache_inv s' \<and> blk s' = blk s
     \<and> (\<forall>c. c \<noteq> b \<longrightarrow> bufs s' c = bufs s c)
     \<and> pinned s' = (if b_dirty (bufs s b) then pinned s else pinned s - {b})
     \<and> b_dirty (bufs s' b) = b_dirty (bufs s b) \<and> b_dev (bufs s' b) = b_dev (bufs s b)
     \<and> b_blockno (bufs s' b) = b_blockno (bufs s b)
     \<and> disk s' = disk s \<and> wtrace s' = wtrace s \<and> bsame s s'"

lemma brelse_ok [wp_rules]:
  assumes i: "cache_inv s" and io: "io_ready s" and b: "buf_for s n b"
    and cl: "b_dirty (bufs s b) \<or> blk s n = disk s ROOTDEV n"
  shows "okP (brelse b s) (rel_post b s)"
proof -
  let ?f = "\<lambda>u. u\<lparr>b_lock := (b_lock u)\<lparr>sl_locked := False, sl_pid := 0\<rparr>, b_refcnt := 0\<rparr>"
  let ?r = "(upd_buf b ?f (wakeup1 (ChBufLock b) s))\<lparr>lru := b # remove1 b (lru s)\<rparr>"
  note lb = buf_forD [OF b]
  have kd: "b_dev (bufs s b) = ROOTDEV" "b_blockno (bufs s b) = n" using lb(2) by (simp_all add: caches_def)
  have h: "held s = {}" by (rule io_ready_held [OF io])
  have rc: "b_refcnt (bufs s b) = 1" using cache_inv_buf [OF i lb(1)] lb(4) by (simp add: buf_inv_def)
  have e: "brelse b s = Ok ?r"
    using h lb(4) rc
    by (simp add: brelse_def holdingsleep_eq releasesleep_eq blocked_def Let_def dec32_def sub32_le
        upd_buf_def wakeup1_def)
  have bs: "bsame s ?r"
    using ksame_wakeup1 [of s "ChBufLock b"]
    by (simp add: bsame_def io_ready_def ksame_def)
  have cs: "caches ?r = caches s" by (intro ext) (simp add: caches_def)
  have bl: "\<not> blocked ?r b" by (simp add: blocked_def)
  have bi: "buf_inv ?r b"
    using cache_inv_buf [OF i lb(1)] lb(3,4) kd cl buf_for_data [OF i b]
    by (auto simp: buf_inv_def blocked_def)
  have ci: "cache_inv ?r"
  proof (rule cache_inv_step [OF i lb(1) _ _ _ bi])
    fix m c assume "c < NBUF" "c \<noteq> b" "caches s m c"
    with cache_inv_unique [OF i _ lb(1)] show "\<not> caches ?r m b" unfolding cs by blast
  qed (use i lb(1) in \<open>auto simp: cache_inv_def\<close>)
  have "blk ?r = blk s"
  proof
    fix m
    show "blk ?r m = blk s m"
    proof (cases "m = n")
      case True
      then show ?thesis
        using blk_cached [OF ci lb(1), of n] buf_for_data [OF i b] lb(2,3) by (simp add: cs)
    next
      case False
      with lb(2) have "\<not> caches s m b" by (auto simp: caches_def)
      then show ?thesis by (intro blk_other [OF i ci]) (simp_all add: cs)
    qed
  qed
  moreover have "pinned ?r = (if b_dirty (bufs s b) then pinned s else pinned s - {b})"
    using lb(1) rc by (auto simp: pinned_def)
  ultimately show ?thesis using e ci bl bs by (simp add: rel_post_def)
qed

section \<open>The abstract block cache\<close>

text \<open>
  What the layers above need to know: the current content of every block, its content on disk,
  the blocks with a dirty buffer, the blocks whose buffer is locked, and the writes so far.
\<close>

record bcache =
  cv :: "nat \<Rightarrow> mem"
  cd :: "nat \<Rightarrow> mem"
  cdirty :: "nat set"
  clocked :: "nat set"
  ctrace :: "(nat \<times> nat \<times> mem) list"

definition bc :: "'a bio_scheme \<Rightarrow> bcache" where
  "bc s = \<lparr>cv = blk s, cd = disk s ROOTDEV,
     cdirty = {n. \<exists>b < NBUF. caches s n b \<and> b_dirty (bufs s b)},
     clocked = {n. \<exists>b < NBUF. caches s n b \<and> blocked s b}, ctrace = wtrace s\<rparr>"

definition has_room :: "nat \<Rightarrow> bcache \<Rightarrow> bool" where
  "has_room k v \<longleftrightarrow> finite (cdirty v \<union> clocked v) \<and> card (cdirty v \<union> clocked v) + k \<le> NBUF"

definition bio_ok :: "'a bio_scheme \<Rightarrow> bool" where
  "bio_ok s \<longleftrightarrow> cache_inv s \<and> io_ready s"

lemma bc_sel [simp]:
  "cv (bc s) = blk s" "cd (bc s) = disk s ROOTDEV" "ctrace (bc s) = wtrace s"
  by (simp_all add: bc_def)

lemma bcD:
  "bc s = v \<Longrightarrow> blk s = cv v" "bc s = v \<Longrightarrow> disk s ROOTDEV = cd v" "bc s = v \<Longrightarrow> wtrace s = ctrace v"
  "bc s = v \<Longrightarrow> cdirty (bc s) = cdirty v" "bc s = v \<Longrightarrow> clocked (bc s) = clocked v"
  by auto

lemma pinned_card:
  assumes i: "cache_inv s"
  shows "card (pinned s) = card (cdirty (bc s) \<union> clocked (bc s))" and "finite (cdirty (bc s) \<union> clocked (bc s))"
proof -
  let ?f = "\<lambda>b. b_blockno (bufs s b)"
  have k: "b < NBUF \<and> caches s (?f b) b" if "b \<in> pinned s" for b
    using that cache_inv_buf [OF i, of b] by (auto simp: pinned_def buf_inv_def caches_def split: if_splits)
  have "inj_on ?f (pinned s)"
    using k cache_inv_unique [OF i] by (intro inj_onI) metis
  moreover have "?f ` pinned s = cdirty (bc s) \<union> clocked (bc s)"
  proof
    show "?f ` pinned s \<subseteq> cdirty (bc s) \<union> clocked (bc s)"
    proof
      fix n assume "n \<in> ?f ` pinned s"
      then obtain b where b: "b \<in> pinned s" "n = ?f b" by blast
      with cache_inv_buf [OF i, of b] have "b_dirty (bufs s b) \<or> blocked s b"
        by (auto simp: pinned_def buf_inv_def split: if_splits)
      with b k show "n \<in> cdirty (bc s) \<union> clocked (bc s)" by (auto simp: bc_def)
    qed
    show "cdirty (bc s) \<union> clocked (bc s) \<subseteq> ?f ` pinned s"
    proof
      fix n assume "n \<in> cdirty (bc s) \<union> clocked (bc s)"
      then obtain b where b: "b < NBUF" "caches s n b" "b_dirty (bufs s b) \<or> blocked s b"
        by (auto simp: bc_def)
      with cache_inv_buf [OF i b(1)] have "b \<in> pinned s" by (auto simp: pinned_def buf_inv_def)
      with b show "n \<in> ?f ` pinned s" by (auto simp: caches_def)
    qed
  qed
  ultimately show "card (pinned s) = card (cdirty (bc s) \<union> clocked (bc s))"
    and "finite (cdirty (bc s) \<union> clocked (bc s))"
    using card_image [of ?f "pinned s"] finite_imageI [OF finite_pinned, of ?f s] by auto
qed

lemma bc_locked_iff:
  assumes "cache_inv s" "b < NBUF" "caches s n b"
  shows "n \<in> clocked (bc s) \<longleftrightarrow> blocked s b" and "n \<in> cdirty (bc s) \<longleftrightarrow> b_dirty (bufs s b)"
proof -
  have "c = b" if "c < NBUF" "caches s n c" for c
    by (rule cache_inv_unique [OF assms(1) that(1) assms(2) that(2) assms(3)])
  with assms(2,3) show "n \<in> clocked (bc s) \<longleftrightarrow> blocked s b" and "n \<in> cdirty (bc s) \<longleftrightarrow> b_dirty (bufs s b)"
    unfolding bc_def bcache.select_convs mem_Collect_eq by blast+
qed

text \<open>Changing the locked or the dirty state of one buffer changes the abstract sets at its block.\<close>

lemma bc_sets_step:
  assumes i: "cache_inv s" and i': "cache_inv s'" and b: "b < NBUF" and c: "caches s' n b"
    and same: "\<And>c. c \<noteq> b \<Longrightarrow> bufs s' c = bufs s c"
    and kept: "caches s n b \<or> \<not> blocked s b \<and> \<not> b_dirty (bufs s b)"
    and un: "\<And>c. c < NBUF \<Longrightarrow> caches s n c \<Longrightarrow> c = b"
  shows "clocked (bc s') = (if blocked s' b then insert n (clocked (bc s)) else clocked (bc s) - {n})"
    and "cdirty (bc s') = (if b_dirty (bufs s' b) then insert n (cdirty (bc s)) else cdirty (bc s) - {n})"
proof -
  have cs: "caches s' m c = caches s m c" "blocked s' c = blocked s c" if "c \<noteq> b" for m c
    using same [OF that] by (simp_all add: caches_def blocked_def)
  have nb: "\<not> caches s' m b" if "m \<noteq> n" for m using c that by (auto simp: caches_def)
  have A: "m \<in> clocked (bc s') \<longleftrightarrow> m \<in> clocked (bc s)" "m \<in> cdirty (bc s') \<longleftrightarrow> m \<in> cdirty (bc s)" if m: "m \<noteq> n" for m
  proof -
    have *: "(c < NBUF \<and> caches s' m c \<and> P' c) = (c < NBUF \<and> caches s m c \<and> P c)"
      if "\<And>c. c \<noteq> b \<Longrightarrow> P' c = P c" "caches s m b \<Longrightarrow> \<not> P b" for P P' c
      using that cs(1) [of c m] nb [OF m] by (cases "c = b") auto
    have "(\<exists>c < NBUF. caches s' m c \<and> P' c) \<longleftrightarrow> (\<exists>c < NBUF. caches s m c \<and> P c)"
      if "\<And>c. c \<noteq> b \<Longrightarrow> P' c = P c" "caches s m b \<Longrightarrow> \<not> P b" for P P'
      by (intro ex_cong1 *) (rule that, assumption)+
    moreover have "caches s m b \<Longrightarrow> \<not> blocked s b" "caches s m b \<Longrightarrow> \<not> b_dirty (bufs s b)"
      using kept m by (auto simp: caches_def)
    ultimately show "m \<in> clocked (bc s') \<longleftrightarrow> m \<in> clocked (bc s)" "m \<in> cdirty (bc s') \<longleftrightarrow> m \<in> cdirty (bc s)"
      using cs(2) same by (simp_all add: bc_def)
  qed
  have B: "n \<in> clocked (bc s') \<longleftrightarrow> blocked s' b" "n \<in> cdirty (bc s') \<longleftrightarrow> b_dirty (bufs s' b)"
    using bc_locked_iff [OF i' b c] by simp_all
  show "clocked (bc s') = (if blocked s' b then insert n (clocked (bc s)) else clocked (bc s) - {n})"
    using A(1) B(1) by (intro set_eqI) (metis Diff_iff insert_iff singletonD)
  show "cdirty (bc s') = (if b_dirty (bufs s' b) then insert n (cdirty (bc s)) else cdirty (bc s) - {n})"
    using A(2) B(2) by (intro set_eqI) (metis Diff_iff insert_iff singletonD)
qed

text \<open>The operations on the abstract cache.\<close>

lemma bread_abs:
  assumes ok: "bio_ok s" and n: "n < FSSIZE" and fr: "n \<notin> clocked (bc s)" and room: "has_room 1 (bc s)"
  shows "okP (bread ROOTDEV n s) (\<lambda>(b, s'). bio_ok s' \<and> buf_for s' n b
      \<and> bc s' = (bc s)\<lparr>clocked := insert n (clocked (bc s))\<rparr>
      \<and> (\<forall>m c. buf_for s m c \<longrightarrow> buf_for s' m c) \<and> bsame s s')"
proof -
  have i: "cache_inv s" and io: "io_ready s" using ok by (simp_all add: bio_ok_def)
  have un: "\<not> blocked s b" if "b < NBUF" "caches s n b" for b
    using bc_locked_iff(1) [OF i that] fr by simp
  have "card (pinned s) < NBUF" using room pinned_card [OF i] by (simp add: has_room_def)
  from bread_ok [OF i io n un this] show ?thesis
  proof (rule okP_mono, unfold split_paired_all case_prod_conv)
    fix b s' assume "read_post n s b s'"
    then have p: "buf_for s' n b" "\<not> blocked s b" "cache_inv s'" "blk s' = blk s"
      "\<And>c. c \<noteq> b \<Longrightarrow> bufs s' c = bufs s c" "b_dirty (bufs s' b) = b_dirty (bufs s b)"
      "disk s' = disk s" "wtrace s' = wtrace s" "bsame s s'" "pinned s' = insert b (pinned s)"
      "caches s n b \<or> \<not> b_dirty (bufs s b)" and un2: "\<And>c. c < NBUF \<Longrightarrow> caches s n c \<Longrightarrow> c = b"
      by (auto simp: read_post_def)
    note pb = buf_forD [OF p(1)]
    have kept: "caches s n b \<or> \<not> blocked s b \<and> \<not> b_dirty (bufs s b)" using p(2,11) by blast
    have "b_dirty (bufs s' b) \<Longrightarrow> n \<in> cdirty (bc s)"
      using p(6,11) bc_locked_iff(2) [OF i pb(1)] by auto
    moreover have "n \<in> cdirty (bc s) \<Longrightarrow> b_dirty (bufs s' b)"
      using p(6) un2 by (auto simp: bc_def)
    moreover note bc_sets_step [OF i p(3) pb(1,2) p(5) kept un2] pb(4)
    ultimately have "bc s' = (bc s)\<lparr>clocked := insert n (clocked (bc s))\<rparr>"
      using p(4,7,8) by (intro bcache.equality) (auto simp: insert_absorb)
    moreover have "buf_for s' m c" if "buf_for s m c" for m c
    proof -
      have "c \<noteq> b" using that p(2) by (auto simp: buf_for_def)
      from buf_for_other [OF that p(5) [OF this]] show ?thesis .
    qed
    ultimately show "bio_ok s' \<and> buf_for s' n b \<and> bc s' = (bc s)\<lparr>clocked := insert n (clocked (bc s))\<rparr>
      \<and> (\<forall>m c. buf_for s m c \<longrightarrow> buf_for s' m c) \<and> bsame s s'"
      using p(1,3,9) bsame_io [OF p(9) io] by (simp add: bio_ok_def)
  qed
qed

text \<open>Two held buffers for different blocks are different.\<close>

lemma buf_for_neq: "buf_for s m c \<Longrightarrow> buf_for s n b \<Longrightarrow> m \<noteq> n \<Longrightarrow> c \<noteq> b"
  by (auto simp: buf_for_def caches_def)

lemma held_step:
  assumes i: "cache_inv s" and i': "cache_inv s'" and b: "buf_for s n b" and c: "caches s' n b"
    and same: "\<And>c. c \<noteq> b \<Longrightarrow> bufs s' c = bufs s c"
  shows "clocked (bc s') = (if blocked s' b then insert n (clocked (bc s)) else clocked (bc s) - {n})"
    and "cdirty (bc s') = (if b_dirty (bufs s' b) then insert n (cdirty (bc s)) else cdirty (bc s) - {n})"
    and "\<And>m c. buf_for s m c \<Longrightarrow> m \<noteq> n \<Longrightarrow> buf_for s' m c"
proof -
  note pb = buf_forD [OF b]
  have un: "c = b" if "c < NBUF" "caches s n c" for c
    using cache_inv_unique [OF i that(1) pb(1) that(2) pb(2)] .
  show "clocked (bc s') = (if blocked s' b then insert n (clocked (bc s)) else clocked (bc s) - {n})"
    and "cdirty (bc s') = (if b_dirty (bufs s' b) then insert n (cdirty (bc s)) else cdirty (bc s) - {n})"
    using bc_sets_step [OF i i' pb(1) c same disjI1 [OF pb(2)] un] by simp_all
  show "buf_for s' m c" if "buf_for s m c" "m \<noteq> n" for m c
    using buf_for_other [OF that(1)] same buf_for_neq [OF that(1) b that(2)] by blast
qed

lemma held_in: "cache_inv s \<Longrightarrow> buf_for s n b \<Longrightarrow> n \<in> clocked (bc s)"
  by (auto simp: bc_def buf_for_def)

lemma dirty_in: "cache_inv s \<Longrightarrow> buf_for s n b \<Longrightarrow> b_dirty (bufs s b) \<longleftrightarrow> n \<in> cdirty (bc s)"
  using bc_locked_iff(2) [of s b n] by (auto simp: buf_for_def)

lemma set_data_abs:
  assumes ok: "bio_ok s" and b: "buf_for s n b"
  shows "bio_ok (set_data b d s)" and "buf_for (set_data b d s) n b"
    and "bc (set_data b d s) = (bc s)\<lparr>cv := (blk s)(n := d)\<rparr>"
    and "\<And>m c. buf_for s m c \<Longrightarrow> buf_for (set_data b d s) m c" and "bsame s (set_data b d s)"
proof -
  have i: "cache_inv s" and io: "io_ready s" using ok by (simp_all add: bio_ok_def)
  note h = hold_set_data [OF i b, of d]
  show "bio_ok (set_data b d s)" using h io by (simp add: bio_ok_def)
  show bf: "buf_for (set_data b d s) n b" by (rule h)
  note st = held_step [OF i h(1) b buf_forD(2) [OF bf]]
  have "clocked (bc (set_data b d s)) = clocked (bc s)" "cdirty (bc (set_data b d s)) = cdirty (bc s)"
    using st(1,2) held_in [OF i b] dirty_in [OF i b] buf_forD(4) [OF bf] by (auto simp: insert_absorb)
  then show "bc (set_data b d s) = (bc s)\<lparr>cv := (blk s)(n := d)\<rparr>"
    using h(3) by (intro bcache.equality) simp_all
  show "buf_for (set_data b d s) m c" if "buf_for s m c" for m c
    using st(3) that bf by (cases "m = n") (auto simp: buf_for_def caches_def blocked_def split: if_splits)
qed simp

lemma bwrite_abs:
  assumes ok: "bio_ok s" and b: "buf_for s n b" and n: "n < FSSIZE"
  shows "okP (bwrite b s) (\<lambda>s'. bio_ok s' \<and> buf_for s' n b
      \<and> bc s' = (bc s)\<lparr>cd := (disk s ROOTDEV)(n := blk s n), cdirty := cdirty (bc s) - {n},
                 ctrace := wtrace s @ [(ROOTDEV, n, blk s n)]\<rparr>
      \<and> (\<forall>m c. buf_for s m c \<longrightarrow> buf_for s' m c) \<and> bsame s s')"
proof -
  have i: "cache_inv s" and io: "io_ready s" using ok by (simp_all add: bio_ok_def)
  from bwrite_ok [OF i io b n] show ?thesis
  proof (rule okP_mono)
    fix s' assume "write_post n b s s'"
    then have p: "buf_for s' n b" "cache_inv s'" "blk s' = blk s"
      "bufs s' = (bufs s)(b := (bufs s b)\<lparr>b_dirty := False\<rparr>)"
      "disk s' = (disk s)(ROOTDEV := (disk s ROOTDEV)(n := b_data (bufs s b)))"
      "wtrace s' = wtrace s @ [(ROOTDEV, n, b_data (bufs s b))]" "bsame s s'"
      by (auto simp: write_post_def)
    have st: "clocked (bc s') = clocked (bc s)" "cdirty (bc s') = cdirty (bc s) - {n}"
      "\<And>m c. buf_for s m c \<Longrightarrow> m \<noteq> n \<Longrightarrow> buf_for s' m c"
      using held_step [OF i p(2) b buf_forD(2) [OF p(1)]] held_in [OF i b] buf_forD(4) [OF p(1)]
      by (auto simp: p(4) insert_absorb)
    have "bc s' = (bc s)\<lparr>cd := (disk s ROOTDEV)(n := blk s n), cdirty := cdirty (bc s) - {n},
                 ctrace := wtrace s @ [(ROOTDEV, n, blk s n)]\<rparr>"
      using st p buf_for_data [OF i b] by (intro bcache.equality) simp_all
    moreover have "buf_for s' m c" if "buf_for s m c" for m c
      using st(3) that buf_forD(2) [OF b]
      by (cases "m = n") (auto simp: buf_for_def caches_def blocked_def p(4) split: if_splits)
    ultimately show "bio_ok s' \<and> buf_for s' n b
      \<and> bc s' = (bc s)\<lparr>cd := (disk s ROOTDEV)(n := blk s n), cdirty := cdirty (bc s) - {n},
                 ctrace := wtrace s @ [(ROOTDEV, n, blk s n)]\<rparr>
      \<and> (\<forall>m c. buf_for s m c \<longrightarrow> buf_for s' m c) \<and> bsame s s'"
      using p(1,2,7) bsame_io [OF p(7) io] by (simp add: bio_ok_def)
  qed
qed

lemma mark_dirty_abs:
  assumes ok: "bio_ok s" and b: "buf_for s n b"
  defines "s' \<equiv> upd_buf b (\<lambda>u. u\<lparr>b_dirty := True\<rparr>) s"
  shows "bio_ok s'" and "bc s' = (bc s)\<lparr>cdirty := insert n (cdirty (bc s))\<rparr>"
    and "\<And>m c. buf_for s m c \<Longrightarrow> buf_for s' m c" and "bsame s s'"
proof -
  have i: "cache_inv s" and io: "io_ready s" using ok by (simp_all add: bio_ok_def)
  note h = hold_dirty [OF i b, of True, folded s'_def]
  show "bio_ok s'" using h io by (simp add: bio_ok_def s'_def)
  have cs: "caches s' = caches s" "blocked s' = blocked s"
    by (intro ext; simp add: caches_def blocked_def s'_def)+
  have "clocked (bc s') = clocked (bc s)" "cdirty (bc s') = insert n (cdirty (bc s))"
    using held_step(1,2) [OF i h(1) b buf_forD(2) [OF h(2)]] held_in [OF i b] buf_forD(4) [OF b]
    by (auto simp: insert_absorb cs) (auto simp: s'_def)
  then show "bc s' = (bc s)\<lparr>cdirty := insert n (cdirty (bc s))\<rparr>"
    using h(3) by (intro bcache.equality) (simp_all add: s'_def)
  show "buf_for s' m c" if "buf_for s m c" for m c
  proof -
    have "b_valid (bufs s' c) = b_valid (bufs s c)" by (simp add: s'_def)
    with that show ?thesis by (simp add: buf_for_def cs)
  qed
  show "bsame s s'" by (simp add: s'_def)
qed

lemma brelse_abs:
  assumes ok: "bio_ok s" and b: "buf_for s n b"
    and cl: "n \<in> cdirty (bc s) \<or> blk s n = disk s ROOTDEV n"
  shows "okP (brelse b s) (\<lambda>s'. bio_ok s' \<and> bc s' = (bc s)\<lparr>clocked := clocked (bc s) - {n}\<rparr>
      \<and> (\<forall>m c. buf_for s m c \<longrightarrow> m \<noteq> n \<longrightarrow> buf_for s' m c) \<and> bsame s s')"
proof -
  have i: "cache_inv s" and io: "io_ready s" using ok by (simp_all add: bio_ok_def)
  have "b_dirty (bufs s b) \<or> blk s n = disk s ROOTDEV n" using cl dirty_in [OF i b] by blast
  from brelse_ok [OF i io b this] show ?thesis
  proof (rule okP_mono)
    fix s' assume "rel_post b s s'"
    then have p: "\<not> blocked s' b" "cache_inv s'" "blk s' = blk s" "\<And>c. c \<noteq> b \<Longrightarrow> bufs s' c = bufs s c"
      "b_dirty (bufs s' b) = b_dirty (bufs s b)" "caches s' n b" "disk s' = disk s" "wtrace s' = wtrace s"
      "bsame s s'"
      using buf_forD(2) [OF b] by (auto simp: rel_post_def caches_def)
    note st = held_step [OF i p(2) b p(6) p(4)]
    have "clocked (bc s') = clocked (bc s) - {n}" "cdirty (bc s') = cdirty (bc s)"
      using st(1,2) p(1,5) dirty_in [OF i b] by (auto simp: insert_absorb)
    then have "bc s' = (bc s)\<lparr>clocked := clocked (bc s) - {n}\<rparr>"
      using p by (intro bcache.equality) simp_all
    then show "bio_ok s' \<and> bc s' = (bc s)\<lparr>clocked := clocked (bc s) - {n}\<rparr>
      \<and> (\<forall>m c. buf_for s m c \<longrightarrow> m \<noteq> n \<longrightarrow> buf_for s' m c) \<and> bsame s s'"
      using st(3) p(2,9) bsame_io [OF p(9) io] by (simp add: bio_ok_def)
  qed
qed

lemma clean_abs: "bio_ok s \<Longrightarrow> n \<notin> cdirty (bc s) \<Longrightarrow> n \<notin> clocked (bc s) \<Longrightarrow> blk s n = disk s ROOTDEV n"
  unfolding bio_ok_def by (rule blk_clean) (auto simp: bc_def)

section \<open>The interface of the block cache\<close>

text \<open>
  \<open>own s n b\<close>: the thread owns handle \<open>b\<close> on block \<open>n\<close>. The laws give the effect of reading a block,
  changing its content, writing it through, pinning it and letting it go on the abstract cache.
\<close>

text \<open>The effect of copying a block to another one through the cache and writing it.\<close>

definition copied :: "nat \<Rightarrow> nat \<Rightarrow> bcache \<Rightarrow> bcache" where
  "copied a b v = v\<lparr>cv := (cv v)(b := cv v a), cd := (cd v)(b := cv v a), cdirty := cdirty v - {b},
     ctrace := ctrace v @ [(ROOTDEV, b, cv v a)]\<rparr>"

locale block_cache =
  fixes ok :: "'s \<Rightarrow> bool" and own :: "'s \<Rightarrow> nat \<Rightarrow> nat \<Rightarrow> bool" and abs :: "'s \<Rightarrow> bcache"
    and fr :: "'s \<Rightarrow> 's \<Rightarrow> bool" and get :: "'s \<Rightarrow> nat \<Rightarrow> mem" and put :: "nat \<Rightarrow> mem \<Rightarrow> 's \<Rightarrow> 's"
    and rd :: "nat \<Rightarrow> 's \<Rightarrow> (nat \<times> 's) res" and wr :: "nat \<Rightarrow> 's \<Rightarrow> 's res" and rel :: "nat \<Rightarrow> 's \<Rightarrow> 's res"
  assumes rd_ok: "ok s \<Longrightarrow> n < FSSIZE \<Longrightarrow> n \<notin> clocked (abs s) \<Longrightarrow> has_room 1 (abs s) \<Longrightarrow>
      okP (rd n s) (\<lambda>(b, s'). ok s' \<and> own s' n b
        \<and> abs s' = (abs s)\<lparr>clocked := insert n (clocked (abs s))\<rparr>
        \<and> (\<forall>m c. own s m c \<longrightarrow> own s' m c) \<and> fr s s')"
    and get_ok: "ok s \<Longrightarrow> own s n b \<Longrightarrow> get s b = cv (abs s) n"
    and put_ok: "ok s \<Longrightarrow> own s n b \<Longrightarrow> ok (put b d s) \<and> abs (put b d s) = (abs s)\<lparr>cv := (cv (abs s))(n := d)\<rparr>
        \<and> (\<forall>m c. own s m c \<longrightarrow> own (put b d s) m c) \<and> fr s (put b d s)"
    and wr_ok: "ok s \<Longrightarrow> own s n b \<Longrightarrow> n < FSSIZE \<Longrightarrow>
      okP (wr b s) (\<lambda>s'. ok s' \<and> own s' n b
        \<and> abs s' = (abs s)\<lparr>cd := (cd (abs s))(n := cv (abs s) n), cdirty := cdirty (abs s) - {n},
              ctrace := ctrace (abs s) @ [(ROOTDEV, n, cv (abs s) n)]\<rparr>
        \<and> (\<forall>m c. own s m c \<longrightarrow> own s' m c) \<and> fr s s')"
    and rel_ok: "ok s \<Longrightarrow> own s n b \<Longrightarrow> n \<in> cdirty (abs s) \<or> cv (abs s) n = cd (abs s) n \<Longrightarrow>
      okP (rel b s) (\<lambda>s'. ok s' \<and> abs s' = (abs s)\<lparr>clocked := clocked (abs s) - {n}\<rparr>
        \<and> (\<forall>m c. own s m c \<longrightarrow> m \<noteq> n \<longrightarrow> own s' m c) \<and> fr s s')"
    and clean: "ok s \<Longrightarrow> n \<notin> cdirty (abs s) \<Longrightarrow> n \<notin> clocked (abs s) \<Longrightarrow> cv (abs s) n = cd (abs s) n"
    and fr_trans: "fr s t \<Longrightarrow> fr t u \<Longrightarrow> fr s u"
begin

lemma has_room_insert: "has_room (Suc k) v \<Longrightarrow> has_room k (v\<lparr>clocked := insert n (clocked v)\<rparr>)"
  by (auto simp: has_room_def card_insert_if)

lemma has_room_mono: "has_room k v \<Longrightarrow> j \<le> k \<Longrightarrow> has_room j v"
  by (simp add: has_room_def)

text \<open>Reading a block and letting it go changes nothing and sees the current content.\<close>

lemma peek_ok:
  assumes "ok s" "n < FSSIZE" "n \<notin> clocked (abs s)" "has_room 1 (abs s)"
  shows "okP (bindr (rd n s) (\<lambda>(b, s). bindr (rel b s) (\<lambda>s'. Ok (get s b, s'))))
     (\<lambda>(d, s'). d = cv (abs s) n \<and> ok s' \<and> abs s' = abs s \<and> fr s s'
        \<and> (\<forall>m c. own s m c \<longrightarrow> m \<noteq> n \<longrightarrow> own s' m c))"
  unfolding okP_bindr
proof (rule okP_mono [OF rd_ok [OF assms]], unfold split_paired_all case_prod_conv okP_bindr, elim conjE)
  fix b t assume t: "ok t" "own t n b" "abs t = (abs s)\<lparr>clocked := insert n (clocked (abs s))\<rparr>" "fr s t"
    and own: "\<forall>m c. own s m c \<longrightarrow> own t m c"
  have cl: "n \<in> cdirty (abs t) \<or> cv (abs t) n = cd (abs t) n" using clean [OF assms(1) _ assms(3)] t(3) by auto
  show "okP (rel b t) (\<lambda>x. okP (Ok (get t b, x)) (\<lambda>(d, s'). d = cv (abs s) n \<and> ok s' \<and> abs s' = abs s \<and> fr s s'
        \<and> (\<forall>m c. own s m c \<longrightarrow> m \<noteq> n \<longrightarrow> own s' m c)))"
    by (rule okP_mono [OF rel_ok [OF t(1,2) cl]])
      (use t get_ok [OF t(1,2)] own assms(3) fr_trans [OF t(4)] in \<open>auto intro!: bcache.equality\<close>)
qed

text \<open>Copying a block, with the two orders in which the log releases the buffers.\<close>

lemma copy_core:
  assumes ok: "ok t" and own: "own t a x" "own t b y" and ab: "a \<noteq> b" "b < FSSIZE"
    and abs: "abs t = v\<lparr>clocked := insert a (insert b (clocked v))\<rparr>"
    and un: "a \<notin> clocked v" "b \<notin> clocked v" and ca: "a \<in> cdirty v \<or> cv v a = cd v a"
  shows "okP (wr y (put y (get t x) t)) (\<lambda>s1. okP (bindr (rel x s1) (rel y))
      (\<lambda>s'. ok s' \<and> abs s' = copied a b v \<and> fr t s')
     \<and> okP (bindr (rel y s1) (rel x)) (\<lambda>s'. ok s' \<and> abs s' = copied a b v \<and> fr t s'))"
proof -
  let ?t = "put y (get t x) t"
  note g = get_ok [OF ok own(1)] note p = put_ok [OF ok own(2), of "get t x"]
  have t: "ok ?t" "abs ?t = (abs t)\<lparr>cv := (cv v)(b := cv v a)\<rparr>" "own ?t a x" "own ?t b y" "fr t ?t"
    using p own g abs by auto
  show ?thesis
  proof (rule okP_mono [OF wr_ok [OF t(1,4) ab(2)]], elim conjE)
    fix s1 assume s1: "ok s1" "own s1 b y" "\<forall>m c. own ?t m c \<longrightarrow> own s1 m c" "fr ?t s1"
      and e: "abs s1 = (abs ?t)\<lparr>cd := (cd (abs ?t))(b := cv (abs ?t) b), cdirty := cdirty (abs ?t) - {b},
              ctrace := ctrace (abs ?t) @ [(ROOTDEV, b, cv (abs ?t) b)]\<rparr>"
    have e': "abs s1 = (copied a b v)\<lparr>clocked := insert a (insert b (clocked v))\<rparr>"
      unfolding e t(2) abs using ab by (simp add: copied_def)
    have ox: "own s1 a x" using s1(3) t(3) by blast
    have ca': "a \<in> cdirty (abs s1) \<or> cv (abs s1) a = cd (abs s1) a" using ca ab by (auto simp: e' copied_def)
    have cb': "cv (abs s1) b = cd (abs s1) b" by (simp add: e' copied_def)
    have fin: "w = copied a b v" if "w = (copied a b v)\<lparr>clocked := insert a (insert b (clocked v)) - {c} - {d}\<rparr>"
      "{c, d} = {a, b}" for w c d
    proof -
      have "insert a (insert b (clocked v)) - {c} - {d} = clocked v" using un that(2) by auto
      with that(1) show ?thesis by (simp add: copied_def)
    qed
    note tr = fr_trans [OF t(5) s1(4)]
    have "okP (bindr (rel x s1) (rel y)) (\<lambda>s'. ok s' \<and> abs s' = copied a b v \<and> fr t s')"
      unfolding okP_bindr
    proof (rule okP_mono [OF rel_ok [OF s1(1) ox ca']], elim conjE)
      fix s2 assume s2: "ok s2" "abs s2 = (abs s1)\<lparr>clocked := clocked (abs s1) - {a}\<rparr>" "fr s1 s2"
        "\<forall>m c. own s1 m c \<longrightarrow> m \<noteq> a \<longrightarrow> own s2 m c"
      have y: "own s2 b y" "b \<in> cdirty (abs s2) \<or> cv (abs s2) b = cd (abs s2) b" using s2 s1(2) ab cb' by auto
      show "okP (rel y s2) (\<lambda>s'. ok s' \<and> abs s' = copied a b v \<and> fr t s')"
        by (rule okP_mono [OF rel_ok [OF s2(1) y]])
          (use s2 e' fin [of _ a b] fr_trans [OF fr_trans [OF tr s2(3)]] in auto)
    qed
    moreover have "okP (bindr (rel y s1) (rel x)) (\<lambda>s'. ok s' \<and> abs s' = copied a b v \<and> fr t s')"
      unfolding okP_bindr
    proof (rule okP_mono [OF rel_ok [OF s1(1,2) disjI2 [OF cb']]], elim conjE)
      fix s2 assume s2: "ok s2" "abs s2 = (abs s1)\<lparr>clocked := clocked (abs s1) - {b}\<rparr>" "fr s1 s2"
        "\<forall>m c. own s1 m c \<longrightarrow> m \<noteq> b \<longrightarrow> own s2 m c"
      have x: "own s2 a x" "a \<in> cdirty (abs s2) \<or> cv (abs s2) a = cd (abs s2) a" using s2 ox ab ca' by auto
      show "okP (rel x s2) (\<lambda>s'. ok s' \<and> abs s' = copied a b v \<and> fr t s')"
        by (rule okP_mono [OF rel_ok [OF s2(1) x]])
          (use s2 e' fin [of _ b a] fr_trans [OF fr_trans [OF tr s2(3)]] in auto)
    qed
    ultimately show "okP (bindr (rel x s1) (rel y)) (\<lambda>s'. ok s' \<and> abs s' = copied a b v \<and> fr t s')
     \<and> okP (bindr (rel y s1) (rel x)) (\<lambda>s'. ok s' \<and> abs s' = copied a b v \<and> fr t s')" by blast
  qed
qed

end

interpretation kcache: block_cache bio_ok buf_for bc bsame "\<lambda>s b. b_data (bufs s b)" set_data
  "bread ROOTDEV" bwrite brelse
proof (unfold_locales, goal_cases)
  case (1 s n) then show ?case by (rule bread_abs)
next
  case (2 s n b) then show ?case by (simp add: bio_ok_def buf_for_data)
next
  case (3 s n b m) then show ?case
    using set_data_abs(1,3,4) [OF 3, where d = m] by simp
next
  case (4 s n b) then show ?case using bwrite_abs [OF 4] by simp
next
  case (5 s n b) then show ?case using brelse_abs [OF 5(1,2)] by simp
next
  case (6 s n) then show ?case using clean_abs by simp
next
  case (7 s t u) then show ?case by (rule bsame_trans)
qed

section \<open>Properties\<close>

text \<open>The block layer's static data before \<open>main()\<close>, with both disks present and an idle controller.\<close>

definition zero_buf :: buf where
  "zero_buf = \<lparr>b_valid = False, b_dirty = False, b_dev = 0, b_blockno = 0, b_lock = initsleeplock [],
     b_refcnt = 0, b_data = (\<lambda>_. 0)\<rparr>"

definition bio_boot :: "nat \<Rightarrow> (nat \<Rightarrow> nat \<Rightarrow> mem) \<Rightarrow> bio" where
  "bio_boot e dsk = ksys.extend ((boot_state e)\<lparr>cur := Some 0\<rparr>)
     (bio.fields (\<lambda>_. zero_buf) [] [] 64 (0, 0) True dsk [])"

lemma bio_boot_sel [simp]:
  "held (bio_boot e d) = {}" "bufs (bio_boot e d) = (\<lambda>_. zero_buf)" "lru (bio_boot e d) = []"
  "idequeue (bio_boot e d) = []" "ide_status (bio_boot e d) = 64" "havedisk1 (bio_boot e d)"
  "disk (bio_boot e d) = d" "wtrace (bio_boot e d) = []"
  by (simp_all add: bio_boot_def ksys.extend_def bio.fields_def boot_state_def)

lemma binit_sel [simp]:
  "bufs (binit s) = (\<lambda>b. if b < NBUF then (bufs s b)\<lparr>b_lock := initsleeplock ''buffer''\<rparr> else bufs s b)"
  "lru (binit s) = rev [0..<NBUF]" "held (binit s) = held s" "idequeue (binit s) = idequeue s"
  "ide_status (binit s) = ide_status s" "havedisk1 (binit s) = havedisk1 s" "disk (binit s) = disk s"
  "wtrace (binit s) = wtrace s"
  by (simp_all add: binit_def)

lemma binit_ok:
  assumes "\<And>b. b < NBUF \<Longrightarrow> bufs s b = zero_buf" and "io_ready s"
  shows "bio_ok (binit s)" and "clocked (bc (binit s)) = {}" and "cdirty (bc (binit s)) = {}"
proof -
  have "buf_inv (binit s) b" "\<not> caches (binit s) n b" if "b < NBUF" for b n
    using assms(1) [OF that] that by (simp_all add: buf_inv_def blocked_def initsleeplock_def zero_buf_def
        caches_def ROOTDEV_def)
  moreover have "set (lru (binit s)) = {..<NBUF}" "distinct (lru (binit s))" by auto
  ultimately show "bio_ok (binit s)" "clocked (bc (binit s)) = {}" "cdirty (bc (binit s)) = {}"
    using assms(2) by (auto simp: bio_ok_def cache_inv_def io_ready_def bc_def)
qed

lemma boot_bio_ok: "bio_ok (binit (bio_boot e d))" "clocked (bc (binit (bio_boot e d))) = {}"
  "cdirty (bc (binit (bio_boot e d))) = {}"
  using binit_ok [of "bio_boot e d"] by (simp_all add: io_ready_def)

text \<open>The cache after block \<open>n\<close> was read and written with \<open>d\<close>, still held.\<close>

definition overwritten :: "nat \<Rightarrow> mem \<Rightarrow> 'a bio_scheme \<Rightarrow> bcache" where
  "overwritten n d s = (bc s)\<lparr>cv := (blk s)(n := d), cd := (disk s ROOTDEV)(n := d), cdirty := cdirty (bc s) - {n},
     clocked := insert n (clocked (bc s)), ctrace := wtrace s @ [(ROOTDEV, n, d)]\<rparr>"

lemma write_held:
  assumes "bio_ok t" "buf_for t n b" "bc t = (bc s)\<lparr>clocked := insert n (clocked (bc s))\<rparr>" "n < FSSIZE"
  shows "okP (bwrite b (set_data b d t)) (\<lambda>w. bio_ok w \<and> buf_for w n b \<and> bc w = overwritten n d s)"
proof -
  let ?t = "set_data b d t"
  note p = set_data_abs [OF assms(1,2), where d = d]
  have bt: "blk ?t = (blk s)(n := d)" "disk ?t = disk t" "wtrace ?t = wtrace t" "blk t = blk s"
    "disk t ROOTDEV = disk s ROOTDEV" "wtrace t = wtrace s"
    using arg_cong [OF p(3), of cv] arg_cong [OF assms(3), of cv] arg_cong [OF assms(3), of cd]
      arg_cong [OF assms(3), of ctrace] by simp_all
  show ?thesis
    by (rule okP_mono [OF bwrite_abs [OF p(1,2) assms(4)]])
      (simp add: overwritten_def p(3) assms(3) bt)
qed

lemma reread_written:
  assumes "bio_ok w" "buf_for w n b" "bc w = overwritten n d s" and s: "n < FSSIZE" "n \<notin> clocked (bc s)" "has_room 1 (bc s)"
  shows "okP (brelse b w) (\<lambda>r. okP (bread ROOTDEV n r) (\<lambda>(b, s'). b_data (bufs s' b) = d \<and> disk s' ROOTDEV = (disk s ROOTDEV)(n := d)
       \<and> wtrace s' = wtrace s @ [(ROOTDEV, n, d)] \<and> (\<forall>m. m \<noteq> n \<longrightarrow> blk s' m = blk s m)))"
proof -
  note e = assms(3) [unfolded overwritten_def]
  have cl: "n \<in> cdirty (bc w) \<or> blk w n = disk w ROOTDEV n"
    using arg_cong [OF e, of cv] arg_cong [OF e, of cd] by simp
  show ?thesis
  proof (rule okP_mono [OF brelse_abs [OF assms(1,2) cl]], elim conjE)
    fix r assume r: "bio_ok r" "bc r = (bc w)\<lparr>clocked := clocked (bc w) - {n}\<rparr>"
    have un: "n \<notin> clocked (bc r)" "has_room 1 (bc r)"
      using s(3) unfolding r(2) e has_room_def
      by (auto simp: s(2) insert_absorb elim!: le_trans [rotated] intro!: card_mono)
    show "okP (bread ROOTDEV n r) (\<lambda>(b, s'). b_data (bufs s' b) = d \<and> disk s' ROOTDEV = (disk s ROOTDEV)(n := d)
       \<and> wtrace s' = wtrace s @ [(ROOTDEV, n, d)] \<and> (\<forall>m. m \<noteq> n \<longrightarrow> blk s' m = blk s m))"
    proof (rule okP_mono [OF bread_abs [OF r(1) s(1) un]], unfold split_paired_all case_prod_conv, elim conjE)
      fix b' z assume z: "bio_ok z" "buf_for z n b'" "bc z = (bc r)\<lparr>clocked := insert n (clocked (bc r))\<rparr>"
      have "blk z = (blk s)(n := d)" "disk z ROOTDEV = (disk s ROOTDEV)(n := d)"
        "wtrace z = wtrace s @ [(ROOTDEV, n, d)]"
        using bcD [OF z(3)] by (simp_all add: r(2) e)
      with z buf_for_data [of z n b'] show "b_data (bufs z b') = d \<and> disk z ROOTDEV = (disk s ROOTDEV)(n := d)
        \<and> wtrace z = wtrace s @ [(ROOTDEV, n, d)] \<and> (\<forall>m. m \<noteq> n \<longrightarrow> blk z m = blk s m)"
        by (simp add: bio_ok_def)
    qed
  qed
qed

text \<open>
  C38: A block that is read, overwritten with \<open>bwrite\<close>, released and read again comes back with the
  data written; the disk has that data, exactly one sector was written, and every other block is
  what it was, on disk and through the cache.
\<close>

theorem block_write_read:
  assumes "bio_ok s" and "n < FSSIZE" and "n \<notin> clocked (bc s)" and "has_room 1 (bc s)"
  shows "okP (bindr (bread ROOTDEV n s) (\<lambda>(b, s). bindr (bwrite b (set_data b d s)) (\<lambda>s.
      bindr (brelse b s) (\<lambda>s. bread ROOTDEV n s))))
    (\<lambda>(b, s'). b_data (bufs s' b) = d \<and> disk s' ROOTDEV = (disk s ROOTDEV)(n := d)
       \<and> wtrace s' = wtrace s @ [(ROOTDEV, n, d)] \<and> (\<forall>m. m \<noteq> n \<longrightarrow> blk s' m = blk s m))"
  unfolding okP_bindr
proof (rule okP_mono [OF kcache.rd_ok [OF assms]], unfold split_paired_all case_prod_conv okP_bindr, elim conjE)
  fix b t assume t: "bio_ok t" "buf_for t n b" "bc t = (bc s)\<lparr>clocked := insert n (clocked (bc s))\<rparr>"
  show "okP (bwrite b (set_data b d t)) (\<lambda>w. okP (brelse b w) (\<lambda>r. okP (bread ROOTDEV n r) (\<lambda>(b, s'). b_data (bufs s' b) = d \<and> disk s' ROOTDEV = (disk s ROOTDEV)(n := d)
       \<and> wtrace s' = wtrace s @ [(ROOTDEV, n, d)] \<and> (\<forall>m. m \<noteq> n \<longrightarrow> blk s' m = blk s m))))"
    by (rule okP_mono [OF write_held [OF t assms(2)]], elim conjE, rule reread_written [OF _ _ _ assms(2-4)])
qed

theorem block_write_read_witness:
  "let s = binit (bio_boot 8388608 (\<lambda>_ _ _. 0)) in
   okP (bindr (bread ROOTDEV 2 s) (\<lambda>(b, s). bindr (bwrite b (set_data b (\<lambda>_. 7) s)) (\<lambda>s.
      bindr (brelse b s) (\<lambda>s. bread ROOTDEV 2 s))))
    (\<lambda>(b, s'). b_data (bufs s' b) = (\<lambda>_. 7) \<and> disk s' ROOTDEV = (disk s ROOTDEV)(2 := (\<lambda>_. 7))
       \<and> wtrace s' = wtrace s @ [(ROOTDEV, 2, \<lambda>_. 7)] \<and> (\<forall>m. m \<noteq> 2 \<longrightarrow> blk s' m = blk s m))"
  unfolding Let_def
  by (rule block_write_read [OF boot_bio_ok(1)])
    (simp_all add: boot_bio_ok FSSIZE_def has_room_def NBUF_def)

text \<open>
  \<open>bget\<close> panics with ``no buffers'' exactly when the block is not cached and every buffer is in
  use or dirty. Dirty buffers stay pinned until the log is committed, so with \<open>NBUF = LOGSIZE = 30\<close>
  a log that is full leaves no buffer for any other block.
\<close>

theorem bget_no_buffers:
  assumes "cache_inv s" and "held s = {}"
  shows "bget ROOTDEV n s = Panic ''bget: no buffers'' \<longleftrightarrow>
     card (pinned s) = NBUF \<and> (\<forall>b < NBUF. \<not> caches s n b)"
  using bget_target_None [OF assms(1), of n] by (auto simp: bget_eq [OF assms] split: option.splits)

definition full_log_state :: bio where
  "full_log_state = (binit (bio_boot 8388608 (\<lambda>_ _ _. 0)))\<lparr>bufs := (\<lambda>b.
     \<lparr>b_valid = True, b_dirty = True, b_dev = ROOTDEV, b_blockno = 100 + b, b_lock = initsleeplock ''buffer'',
      b_refcnt = 0, b_data = (\<lambda>_. 0)\<rparr>)\<rparr>"

theorem bget_no_buffers_witness:
  "cache_inv full_log_state \<and> bget ROOTDEV 32 full_log_state = Panic ''bget: no buffers''"
proof -
  have i: "cache_inv full_log_state"
    by (auto simp: cache_inv_def full_log_state_def caches_def buf_inv_def blocked_def initsleeplock_def)
  have h: "held full_log_state = {}" by (simp add: full_log_state_def)
  have "pinned full_log_state = {..<NBUF}" by (auto simp: pinned_def full_log_state_def)
  moreover have "\<not> caches full_log_state 32 b" for b by (simp add: caches_def full_log_state_def)
  ultimately show ?thesis using bget_no_buffers [OF i h, of 32] i by simp
qed

end
