(* ===== verification/Log.thy ===== *)
theory Log
  imports BioSpec
begin

text \<open>
  \<open>log.c\<close>: the redo log that makes the block writes of a file system call atomic, and \<open>readsb\<close> of
  \<open>fs.c\<close>, from which it takes its place on disk. \<open>LogSpec\<close> proves crash safety.
\<close>

section \<open>State\<close>

definition MAXOPBLOCKS :: nat where "MAXOPBLOCKS = 10"
definition LOGSIZE :: nat where "LOGSIZE = 30"

lemmas [layout_simps] = MAXOPBLOCKS_def LOGSIZE_def

record superblock =
  sb_size :: nat
  sb_nblocks :: nat
  sb_ninodes :: nat
  sb_nlog :: nat
  sb_logstart :: nat
  sb_inodestart :: nat
  sb_bmapstart :: nat

text \<open>
  \<open>struct log\<close>; \<open>lh_n\<close> and \<open>lh_block\<close> are the in-memory \<open>struct logheader\<close>. The array has \<open>LOGSIZE\<close>
  entries.
\<close>

record logst =
  l_start :: nat
  l_size :: nat
  l_outstanding :: int
  l_committing :: bool
  l_dev :: nat
  lh_n :: int
  lh_block :: "nat \<Rightarrow> nat"

record logk = bio +
  lg :: logst

definition upd_lg :: "(logst \<Rightarrow> logst) \<Rightarrow> 'a logk_scheme \<Rightarrow> 'a logk_scheme" where
  "upd_lg f s = s\<lparr>lg := f (lg s)\<rparr>"

section \<open>The superblock\<close>

definition sb_of :: "mem \<Rightarrow> superblock" where
  "sb_of m = \<lparr>sb_size = rd32 m 0, sb_nblocks = rd32 m 4, sb_ninodes = rd32 m 8, sb_nlog = rd32 m 12,
     sb_logstart = rd32 m 16, sb_inodestart = rd32 m 20, sb_bmapstart = rd32 m 24\<rparr>"

definition readsb :: "nat \<Rightarrow> 'a bio_scheme \<Rightarrow> (superblock \<times> 'a bio_scheme) res" where
  "readsb dev s =
     bindr (bread dev 1 s) (\<lambda>(b, s).
     let sb = sb_of (b_data (bufs s b))
     in bindr (brelse b s) (\<lambda>s. Ok (sb, s)))"

section \<open>Copying blocks to and from the log\<close>

fun install_from :: "nat \<Rightarrow> nat \<Rightarrow> 'a logk_scheme \<Rightarrow> 'a logk_scheme res" where
  "install_from 0 tail s = Ok s"
| "install_from (Suc k) tail s =
     bindr (bread (l_dev (lg s)) (l_start (lg s) + tail + 1) s) (\<lambda>(lbuf, s).
     bindr (bread (l_dev (lg s)) (lh_block (lg s) tail) s) (\<lambda>(dbuf, s).
     let s = set_data dbuf (b_data (bufs s lbuf)) s
     in bindr (bwrite dbuf s) (\<lambda>s.
        bindr (brelse lbuf s) (\<lambda>s.
        bindr (brelse dbuf s) (\<lambda>s.
        install_from k (tail + 1) s)))))"

definition install_trans :: "'a logk_scheme \<Rightarrow> 'a logk_scheme res" where
  "install_trans s = install_from (nat (lh_n (lg s))) 0 s"

fun write_log_from :: "nat \<Rightarrow> nat \<Rightarrow> 'a logk_scheme \<Rightarrow> 'a logk_scheme res" where
  "write_log_from 0 tail s = Ok s"
| "write_log_from (Suc k) tail s =
     bindr (bread (l_dev (lg s)) (l_start (lg s) + tail + 1) s) (\<lambda>(to, s).
     bindr (bread (l_dev (lg s)) (lh_block (lg s) tail) s) (\<lambda>(from, s).
     let s = set_data to (b_data (bufs s from)) s
     in bindr (bwrite to s) (\<lambda>s.
        bindr (brelse from s) (\<lambda>s.
        bindr (brelse to s) (\<lambda>s.
        write_log_from k (tail + 1) s)))))"

definition write_log :: "'a logk_scheme \<Rightarrow> 'a logk_scheme res" where
  "write_log s = write_log_from (nat (lh_n (lg s))) 0 s"

section \<open>The header\<close>

text \<open>\<open>struct logheader\<close> on disk: \<open>n\<close>, then the block numbers.\<close>

definition head_n :: "mem \<Rightarrow> int" where
  "head_n m = s32 (rd32 m 0)"

definition head_block :: "mem \<Rightarrow> nat \<Rightarrow> nat" where
  "head_block m i = rd32 m (4 + 4 * i)"

fun put_blocks :: "nat \<Rightarrow> nat \<Rightarrow> (nat \<Rightarrow> nat) \<Rightarrow> mem \<Rightarrow> mem" where
  "put_blocks 0 i bs m = m"
| "put_blocks (Suc k) i bs m = put_blocks k (i + 1) bs (wr32 m (4 + 4 * i) (bs i))"

definition head_put :: "int \<Rightarrow> (nat \<Rightarrow> nat) \<Rightarrow> mem \<Rightarrow> mem" where
  "head_put n bs m = put_blocks (nat n) 0 bs (wr32 m 0 (u32_of n))"

definition read_head :: "'a logk_scheme \<Rightarrow> 'a logk_scheme res" where
  "read_head s =
     bindr (bread (l_dev (lg s)) (l_start (lg s)) s) (\<lambda>(b, s).
     let lh = b_data (bufs s b);
         n = head_n lh;
         s = upd_lg (\<lambda>l. l\<lparr>lh_n := n,
               lh_block := (\<lambda>i. if i < nat n then head_block lh i else lh_block l i)\<rparr>) s
     in brelse b s)"

definition write_head :: "'a logk_scheme \<Rightarrow> 'a logk_scheme res" where
  "write_head s =
     bindr (bread (l_dev (lg s)) (l_start (lg s)) s) (\<lambda>(b, s).
     let s = set_data b (head_put (lh_n (lg s)) (lh_block (lg s)) (b_data (bufs s b))) s
     in bindr (bwrite b s) (\<lambda>s.
        brelse b s))"

section \<open>Recovery and commit\<close>

definition recover_from_log :: "'a logk_scheme \<Rightarrow> 'a logk_scheme res" where
  "recover_from_log s =
     bindr (read_head s) (\<lambda>s.
     bindr (install_trans s) (\<lambda>s.
     write_head (upd_lg (\<lambda>l. l\<lparr>lh_n := 0\<rparr>) s)))"

text \<open>The header of 31 words is smaller than a block, so the first panic is not reached.\<close>

definition initlog :: "nat \<Rightarrow> 'a logk_scheme \<Rightarrow> 'a logk_scheme res" where
  "initlog dev s =
     (if BSIZE \<le> 4 * (1 + LOGSIZE) then Panic ''initlog: too big logheader''
      else
        bindr (readsb dev s) (\<lambda>(sb, s).
        recover_from_log (upd_lg (\<lambda>l. l\<lparr>l_start := sb_logstart sb, l_size := sb_nlog sb, l_dev := dev\<rparr>) s)))"

definition commit :: "'a logk_scheme \<Rightarrow> 'a logk_scheme res" where
  "commit s =
     (if 0 < lh_n (lg s)
      then bindr (write_log s) (\<lambda>s.
           bindr (write_head s) (\<lambda>s.
           bindr (install_trans s) (\<lambda>s.
           write_head (upd_lg (\<lambda>l. l\<lparr>lh_n := 0\<rparr>) s))))
      else Ok s)"

section \<open>Transactions\<close>

definition begin_op :: "'a logk_scheme \<Rightarrow> 'a logk_scheme res" where
  "begin_op s =
     bindr (acquire LLog s) (\<lambda>s.
     if l_committing (lg s) then Block ChLog
     else if lh_n (lg s) + (l_outstanding (lg s) + 1) * int MAXOPBLOCKS > int LOGSIZE then Block ChLog
     else release LLog (upd_lg (\<lambda>l. l\<lparr>l_outstanding := l_outstanding l + 1\<rparr>) s))"

definition end_op :: "'a logk_scheme \<Rightarrow> 'a logk_scheme res" where
  "end_op s =
     bindr (acquire LLog s) (\<lambda>s.
     let s = upd_lg (\<lambda>l. l\<lparr>l_outstanding := l_outstanding l - 1\<rparr>) s
     in if l_committing (lg s) then Panic ''log.committing''
        else
          bindr (if l_outstanding (lg s) = 0
                 then Ok (True, upd_lg (\<lambda>l. l\<lparr>l_committing := True\<rparr>) s)
                 else bindr (wakeup ChLog s) (\<lambda>s. Ok (False, s))) (\<lambda>(do_commit, s).
          bindr (release LLog s) (\<lambda>s.
          if do_commit
          then bindr (commit s) (\<lambda>s.
               bindr (acquire LLog s) (\<lambda>s.
               bindr (wakeup ChLog (upd_lg (\<lambda>l. l\<lparr>l_committing := False\<rparr>) s)) (\<lambda>s.
               release LLog s)))
          else Ok s)))"

text \<open>
  \<open>log_write\<close>. The scan stops at the entry of the block when it is logged already and at \<open>lh_n\<close>
  otherwise.
\<close>

definition log_slot :: "logst \<Rightarrow> nat \<Rightarrow> nat" where
  "log_slot l blockno =
     (case first_idx (nat (lh_n l)) (\<lambda>i. lh_block l i = blockno) of Some i \<Rightarrow> i | None \<Rightarrow> nat (lh_n l))"

definition log_write :: "nat \<Rightarrow> 'a logk_scheme \<Rightarrow> 'a logk_scheme res" where
  "log_write b s =
     (if int LOGSIZE \<le> lh_n (lg s) \<or> int (l_size (lg s)) - 1 \<le> lh_n (lg s)
      then Panic ''too big a transaction''
      else if l_outstanding (lg s) < 1 then Panic ''log_write outside of trans''
      else
        bindr (acquire LLog s) (\<lambda>s.
        let blockno = b_blockno (bufs s b);
            i = log_slot (lg s) blockno;
            s = upd_lg (\<lambda>l. l\<lparr>lh_block := (lh_block l)(i := blockno)\<rparr>) s;
            s = (if int i = lh_n (lg s) then upd_lg (\<lambda>l. l\<lparr>lh_n := lh_n l + 1\<rparr>) s else s);
            s = upd_buf b (\<lambda>u. u\<lparr>b_dirty := True\<rparr>) s
        in release LLog s))"

end
