(* ===== verification/LogSpec.thy ===== *)
theory LogSpec
  imports Log
begin

text \<open>
  Crash safety of the log. The disk is a function from block numbers to blocks; a crash keeps a
  prefix of the sector writes. \<open>logical\<close> is the disk recovery produces. A commit moves the logical
  disk from the old to the new content in one step, the write of the header, and recovery installs
  the logical disk whatever prefix of its own writes an earlier crash has cut.
\<close>

section \<open>Frames\<close>

lemma lg_more: "bio.more s' = bio.more s \<Longrightarrow> lg s' = lg s \<and> logk.more s' = logk.more s"
  by (cases s; cases s') simp

lemma bsame_lg: "bsame s s' \<Longrightarrow> lg s' = lg s" "bsame s s' \<Longrightarrow> logk.more s' = logk.more s"
  using lg_more bsame_more by blast+

lemma upd_lg_sel [simp]:
  "lg (upd_lg f s) = f (lg s)" "bufs (upd_lg f s) = bufs s" "lru (upd_lg f s) = lru s"
  "disk (upd_lg f s) = disk s" "wtrace (upd_lg f s) = wtrace s" "held (upd_lg f s) = held s"
  "logk.more (upd_lg f s) = logk.more s" "idequeue (upd_lg f s) = idequeue s"
  "ide_status (upd_lg f s) = ide_status s" "havedisk1 (upd_lg f s) = havedisk1 s"
  by (simp_all add: upd_lg_def)

lemma upd_lg_bc [simp]: "blk (upd_lg f s) = blk s" "bc (upd_lg f s) = bc s"
  "bio_ok (upd_lg f s) = bio_ok s" "buf_for (upd_lg f s) = buf_for s"
proof -
  show b: "blk (upd_lg f s) = blk s" by (rule blk_same_bufs) simp_all
  have c: "caches (upd_lg f s) = caches s" "blocked (upd_lg f s) = blocked s"
    by (rule caches_cong blocked_cong; simp)+
  show "bc (upd_lg f s) = bc s" by (simp add: bc_def b c)
  have "cache_inv (upd_lg f s) = cache_inv s" by (rule cache_inv_cong) simp_all
  then show "bio_ok (upd_lg f s) = bio_ok s" by (simp add: bio_ok_def io_ready_def)
  show "buf_for (upd_lg f s) = buf_for s" by (intro ext) (simp add: buf_for_def c)
qed

text \<open>Below and above the log nothing changes but wakeups.\<close>

definition lsame :: "'a logk_scheme \<Rightarrow> 'a logk_scheme \<Rightarrow> bool" where
  "lsame s s' \<longleftrightarrow> ksame s s' \<and> logk.more s' = logk.more s"

lemma lsame_refl [simp]: "lsame s s"
  by (simp add: lsame_def)

lemma lsame_trans: "lsame s t \<Longrightarrow> lsame t u \<Longrightarrow> lsame s u"
  unfolding lsame_def using ksame_trans by metis

lemma lsame_bsame: "bsame s s' \<Longrightarrow> lsame s s'"
  using bsame_lg(2) by (simp add: lsame_def bsame_def)

lemma lsame_upd_lg [simp]: "lsame s (upd_lg f s)"
  by (simp add: lsame_def ksame_def upd_lg_def list.rel_refl)

section \<open>The header block\<close>

lemma put_blocks_out: "j + 4 \<le> 4 + 4 * i \<or> 4 + 4 * (i + k) \<le> j \<Longrightarrow> rd32 (put_blocks k i bs m) j = rd32 m j"
  by (induction k arbitrary: i m) auto

lemma put_blocks_in:
  "i \<le> j \<Longrightarrow> j < i + k \<Longrightarrow> rd32 (put_blocks k i bs m) (4 + 4 * j) = bs j mod u32_mod"
proof (induction k arbitrary: i m)
  case (Suc k)
  show ?case
  proof (cases "j = i")
    case True
    then show ?thesis by (simp add: put_blocks_out)
  next
    case False
    with Suc show ?thesis by simp
  qed
qed simp

lemma head_n_put: "0 \<le> n \<Longrightarrow> n < 2147483648 \<Longrightarrow> head_n (head_put n bs m) = n"
  by (simp add: head_n_def head_put_def put_blocks_out s32_u32_of)

lemma head_block_put: "i < nat n \<Longrightarrow> bs i < u32_mod \<Longrightarrow> head_block (head_put n bs m) i = bs i"
  by (simp add: head_block_def head_put_def put_blocks_in)

section \<open>The disk as recovery sees it\<close>

type_synonym dsk = "nat \<Rightarrow> mem"

definition logical :: "nat \<Rightarrow> dsk \<Rightarrow> nat \<Rightarrow> mem" where
  "logical st d b = (case first_idx (nat (head_n (d st))) (\<lambda>i. head_block (d st) i = b) of
     Some i \<Rightarrow> d (st + i + 1) | None \<Rightarrow> d b)"

fun replay :: "(nat \<times> nat \<times> mem) list \<Rightarrow> dsk \<Rightarrow> dsk" where
  "replay [] d = d"
| "replay ((dev, n, m) # t) d = replay t (if dev = ROOTDEV then d(n := m) else d)"

lemma replay_append: "replay (xs @ ys) d = replay ys (replay xs d)"
  by (induction xs d rule: replay.induct) simp_all

text \<open>The log area and the blocks outside it.\<close>

definition log_area :: "logst \<Rightarrow> nat set" where
  "log_area l = {l_start l ..< l_start l + l_size l}"

definition home :: "logst \<Rightarrow> nat set" where
  "home l = {b. b < FSSIZE} - log_area l"

text \<open>The in-memory header names distinct home blocks and fits the log.\<close>

definition lh_ok :: "logst \<Rightarrow> bool" where
  "lh_ok l \<longleftrightarrow> l_dev l = ROOTDEV \<and> 0 \<le> lh_n l \<and> lh_n l \<le> int LOGSIZE \<and> lh_n l < int (l_size l)
     \<and> l_start l + l_size l \<le> FSSIZE \<and> inj_on (lh_block l) {..<nat (lh_n l)}
     \<and> lh_block l ` {..<nat (lh_n l)} \<subseteq> home l"

section \<open>Sequences of copies\<close>

definition copies :: "(nat \<times> nat) list \<Rightarrow> bcache \<Rightarrow> bcache" where
  "copies ps v = fold (\<lambda>(a, b). copied a b) ps v"

lemma copies_simps [simp]: "copies [] v = v" "copies ((a, b) # ps) v = copies ps (copied a b v)"
  by (simp_all add: copies_def)

lemma copied_sel [simp]:
  "cv (copied a b v) = (cv v)(b := cv v a)" "cd (copied a b v) = (cd v)(b := cv v a)"
  "cdirty (copied a b v) = cdirty v - {b}" "clocked (copied a b v) = clocked v"
  "ctrace (copied a b v) = ctrace v @ [(ROOTDEV, b, cv v a)]"
  by (simp_all add: copied_def)

lemma has_room_subset:
  assumes "has_room k v" and "cdirty w \<union> clocked w \<subseteq> cdirty v \<union> clocked v"
  shows "has_room k w"
proof -
  have "card (cdirty w \<union> clocked w) \<le> card (cdirty v \<union> clocked v)"
    using assms by (intro card_mono) (simp_all add: has_room_def)
  moreover have "finite (cdirty w \<union> clocked w)"
    using assms finite_subset unfolding has_room_def by blast
  ultimately show ?thesis using assms(1) by (simp add: has_room_def)
qed

lemma has_room_copied: "has_room k v \<Longrightarrow> has_room k (copied a b v)"
  by (rule has_room_subset) auto

lemma copies_sel:
  assumes "distinct (map snd ps)" and "fst ` set ps \<inter> snd ` set ps = {}"
  shows "cv (copies ps v) = (\<lambda>x. case map_of (map (\<lambda>(a, b). (b, a)) ps) x of Some a \<Rightarrow> cv v a | None \<Rightarrow> cv v x)"
    and "cd (copies ps v) = (\<lambda>x. case map_of (map (\<lambda>(a, b). (b, a)) ps) x of Some a \<Rightarrow> cv v a | None \<Rightarrow> cd v x)"
    and "cdirty (copies ps v) = cdirty v - snd ` set ps"
    and "clocked (copies ps v) = clocked v"
    and "ctrace (copies ps v) = ctrace v @ map (\<lambda>(a, b). (ROOTDEV, b, cv v a)) ps"
proof -
  have "cv (copies ps v) = (\<lambda>x. case map_of (map (\<lambda>(a, b). (b, a)) ps) x of Some a \<Rightarrow> cv v a | None \<Rightarrow> cv v x)
    \<and> cd (copies ps v) = (\<lambda>x. case map_of (map (\<lambda>(a, b). (b, a)) ps) x of Some a \<Rightarrow> cv v a | None \<Rightarrow> cd v x)
    \<and> cdirty (copies ps v) = cdirty v - snd ` set ps \<and> clocked (copies ps v) = clocked v
    \<and> ctrace (copies ps v) = ctrace v @ map (\<lambda>(a, b). (ROOTDEV, b, cv v a)) ps"
    using assms
  proof (induction ps arbitrary: v)
    case (Cons p ps)
    obtain a b where p: "p = (a, b)" by (cases p)
    let ?m = "map_of (map (\<lambda>(a, b). (b, a)) ps)"
    have ran: "c \<noteq> b" if "?m x = Some c" for x c
      using map_of_SomeD [OF that] Cons.prems(2) by (force simp: p)
    have dom: "?m b = None"
      using Cons.prems(1) by (force simp: p map_of_eq_None_iff)
    have tr: "map (\<lambda>(a', b'). (ROOTDEV, b', cv (copied a b v) a')) ps = map (\<lambda>(a, b). (ROOTDEV, b, cv v a)) ps"
      using Cons.prems(2) by (force simp: p)
    have IH: "distinct (map snd ps)" "fst ` set ps \<inter> snd ` set ps = {}"
      using Cons.prems by (auto simp: p)
    from Cons.IH [OF IH, of "copied a b v"] tr dom ran show ?case
      by (auto simp: p fun_eq_iff split: option.splits)
  qed simp
  then show "cv (copies ps v) = (\<lambda>x. case map_of (map (\<lambda>(a, b). (b, a)) ps) x of Some a \<Rightarrow> cv v a | None \<Rightarrow> cv v x)"
    and "cd (copies ps v) = (\<lambda>x. case map_of (map (\<lambda>(a, b). (b, a)) ps) x of Some a \<Rightarrow> cv v a | None \<Rightarrow> cd v x)"
    and "cdirty (copies ps v) = cdirty v - snd ` set ps"
    and "clocked (copies ps v) = clocked v"
    and "ctrace (copies ps v) = ctrace v @ map (\<lambda>(a, b). (ROOTDEV, b, cv v a)) ps" by blast+
qed

section \<open>The copying loops\<close>

lemma okP_both2:
  "okP r (\<lambda>(x, y). P x y) \<Longrightarrow> okP r (\<lambda>(x, y). Q x y) \<Longrightarrow> okP r (\<lambda>(x, y). P x y \<and> Q x y)"
  by (cases r) auto

lemma two_reads:
  assumes ok: "bio_ok s" and n: "a < FSSIZE" "b < FSSIZE" "a \<noteq> b"
    and un: "a \<notin> clocked (bc s)" "b \<notin> clocked (bc s)" and room: "has_room 2 (bc s)"
  shows "okP (bread ROOTDEV a s) (\<lambda>(x, s1). okP (bread ROOTDEV b s1) (\<lambda>(y, t).
      bio_ok t \<and> buf_for t a x \<and> buf_for t b y \<and> bsame s s1 \<and> bsame s t
      \<and> bc t = (bc s)\<lparr>clocked := insert a (insert b (clocked (bc s)))\<rparr>))"
proof (rule okP_mono [OF bread_abs [OF ok n(1) un(1) kcache.has_room_mono [OF room]]],
    simp, unfold split_paired_all case_prod_conv, elim conjE)
  fix x s1 assume s1: "bio_ok s1" "buf_for s1 a x" "bc s1 = (bc s)\<lparr>clocked := insert a (clocked (bc s))\<rparr>"
    "bsame s s1"
  have "has_room 1 (bc s1)" unfolding s1(3) by (rule kcache.has_room_insert) (use room in \<open>simp add: numeral_2_eq_2\<close>)
  moreover have "b \<notin> clocked (bc s1)" using un n(3) by (simp add: s1(3))
  ultimately have r: "okP (bread ROOTDEV b s1) (\<lambda>(y, t). bio_ok t \<and> buf_for t b y
      \<and> bc t = (bc s1)\<lparr>clocked := insert b (clocked (bc s1))\<rparr>
      \<and> (\<forall>m c. buf_for s1 m c \<longrightarrow> buf_for t m c) \<and> bsame s1 t)"
    using bread_abs [OF s1(1) n(2)] by blast
  show "okP (bread ROOTDEV b s1) (\<lambda>(y, t). bio_ok t \<and> buf_for t a x \<and> buf_for t b y \<and> bsame s s1 \<and> bsame s t
      \<and> bc t = (bc s)\<lparr>clocked := insert a (insert b (clocked (bc s)))\<rparr>)"
    by (rule okP_mono [OF r])
      (use s1 bsame_trans [OF s1(4)] in \<open>auto simp: insert_commute\<close>)
qed

text \<open>One turn of either loop, in terms of the abstract cache.\<close>

lemma copy_turn:
  assumes ok: "bio_ok s" and n: "a < FSSIZE" "b < FSSIZE" "a \<noteq> b"
    and un: "a \<notin> clocked (bc s)" "b \<notin> clocked (bc s)" and room: "has_room 2 (bc s)"
    and K: "\<And>t. bio_ok t \<Longrightarrow> bc t = copied a b (bc s) \<Longrightarrow> bsame s t \<Longrightarrow> okP (K t) Q"
  shows "okP (bread ROOTDEV a s) (\<lambda>(x, s1). okP (bread ROOTDEV b s1) (\<lambda>(y, t).
           okP (bwrite y (set_data y (b_data (bufs t x)) t)) (\<lambda>t. okP (brelse x t) (\<lambda>t. okP (brelse y t) (\<lambda>t. okP (K t) Q)))))"
    and "okP (bread ROOTDEV b s) (\<lambda>(y, s1). okP (bread ROOTDEV a s1) (\<lambda>(x, t).
           okP (bwrite y (set_data y (b_data (bufs t x)) t)) (\<lambda>t. okP (brelse x t) (\<lambda>t. okP (brelse y t) (\<lambda>t. okP (K t) Q)))))"
proof -
  have ca: "a \<in> cdirty (bc s) \<or> cv (bc s) a = cd (bc s) a" using clean_abs [OF ok _ un(1)] by auto
  have core: "okP (bwrite y (set_data y (b_data (bufs t x)) t)) (\<lambda>t. okP (brelse x t) (\<lambda>t. okP (brelse y t) (\<lambda>t. okP (K t) Q)))"
    if "bio_ok t" "buf_for t a x" "buf_for t b y" "bsame s t"
      "bc t = (bc s)\<lparr>clocked := insert a (insert b (clocked (bc s)))\<rparr>" for t x y
    using kcache.copy_core [OF that(1,2,3) n(3,2) that(5) un ca]
    by (rule okP_mono) (auto elim!: okP_mono intro!: K bsame_trans [OF that(4)])
  show "okP (bread ROOTDEV a s) (\<lambda>(x, s1). okP (bread ROOTDEV b s1) (\<lambda>(y, t).
           okP (bwrite y (set_data y (b_data (bufs t x)) t)) (\<lambda>t. okP (brelse x t) (\<lambda>t. okP (brelse y t) (\<lambda>t. okP (K t) Q)))))"
    by (rule okP_mono [OF two_reads [OF ok n un room]]) (auto elim!: okP_mono intro!: core)
  show "okP (bread ROOTDEV b s) (\<lambda>(y, s1). okP (bread ROOTDEV a s1) (\<lambda>(x, t).
           okP (bwrite y (set_data y (b_data (bufs t x)) t)) (\<lambda>t. okP (brelse x t) (\<lambda>t. okP (brelse y t) (\<lambda>t. okP (K t) Q)))))"
    by (rule okP_mono [OF two_reads [OF ok n(2,1) n(3)[symmetric] un(2,1) room]])
      (auto elim!: okP_mono intro!: core simp: insert_commute)
qed

definition install_pairs :: "logst \<Rightarrow> nat \<Rightarrow> nat \<Rightarrow> (nat \<times> nat) list" where
  "install_pairs l tail k = map (\<lambda>i. (l_start l + i + 1, lh_block l i)) [tail..<tail + k]"

definition log_pairs :: "logst \<Rightarrow> nat \<Rightarrow> nat \<Rightarrow> (nat \<times> nat) list" where
  "log_pairs l tail k = map (\<lambda>i. (lh_block l i, l_start l + i + 1)) [tail..<tail + k]"

lemma pairs_Suc:
  "install_pairs l t (Suc k) = (l_start l + t + 1, lh_block l t) # install_pairs l (t + 1) k"
  "log_pairs l t (Suc k) = (lh_block l t, l_start l + t + 1) # log_pairs l (t + 1) k"
  by (simp_all add: install_pairs_def log_pairs_def upt_conv_Cons del: upt_Suc)

text \<open>The blocks a loop touches are on the disk, unlocked, and not both ends of a copy.\<close>

definition turn_ok :: "logst \<Rightarrow> bcache \<Rightarrow> nat \<Rightarrow> bool" where
  "turn_ok l v i \<longleftrightarrow> l_start l + i + 1 < FSSIZE \<and> lh_block l i < FSSIZE \<and> lh_block l i \<noteq> l_start l + i + 1
     \<and> l_start l + i + 1 \<notin> clocked v \<and> lh_block l i \<notin> clocked v"

lemma install_from_ok:
  assumes "bio_ok s" and "l_dev (lg s) = ROOTDEV" and "has_room 2 (bc s)"
    and "\<And>i. tail \<le> i \<Longrightarrow> i < tail + k \<Longrightarrow> turn_ok (lg s) (bc s) i"
  shows "okP (install_from k tail s) (\<lambda>s'. bio_ok s' \<and> bc s' = copies (install_pairs (lg s) tail k) (bc s) \<and> bsame s s')"
  using assms
proof (induction k arbitrary: tail s)
  case (Suc k)
  let ?a = "l_start (lg s) + tail + 1" and ?b = "lh_block (lg s) tail"
  let ?Q = "\<lambda>s'. bio_ok s' \<and> bc s' = copies (install_pairs (lg s) tail (Suc k)) (bc s) \<and> bsame s s'"
  have t: "?a < FSSIZE" "?b < FSSIZE" "?a \<noteq> ?b" "?a \<notin> clocked (bc s)" "?b \<notin> clocked (bc s)"
    using Suc.prems(4) [of tail] by (auto simp: turn_ok_def)
  have K: "okP (install_from k (tail + 1) t) ?Q"
    if "bio_ok t" "bc t = copied ?a ?b (bc s)" "bsame s t" for t
  proof -
    have l: "lg t = lg s" using that(3) by (rule bsame_lg)
    have "okP (install_from k (tail + 1) t) (\<lambda>s'. bio_ok s' \<and> bc s' = copies (install_pairs (lg t) (tail + 1) k) (bc t) \<and> bsame t s')"
    proof (rule Suc.IH [OF that(1)])
      show "has_room 2 (bc t)" unfolding that(2) by (rule has_room_copied) (rule Suc.prems)
      show "turn_ok (lg t) (bc t) i" if "tail + 1 \<le> i" "i < tail + 1 + k" for i
        using Suc.prems(4) [of i] that l by (simp add: turn_ok_def \<open>bc t = _\<close>)
    qed (simp add: l Suc.prems)
    then show ?thesis
      by (rule okP_mono) (use l that bsame_trans in \<open>auto simp: pairs_Suc\<close>)
  qed
  have lg1: "lg s1 = lg s" if "bsame s s1" for s1 using that by (rule bsame_lg)
  note T = copy_turn(1) [where K = "install_from k (tail + 1)" and Q = ?Q, OF Suc.prems(1) t Suc.prems(3) K]
  have "okP (bread ROOTDEV ?a s) (\<lambda>(x, s1). bsame s s1)"
    by (rule okP_mono [OF bread_abs [OF Suc.prems(1) t(1,4) kcache.has_room_mono [OF Suc.prems(3)]]]) auto
  note T = okP_both2 [OF this T]
  have "okP (bread ROOTDEV ?a s) (\<lambda>(x, s1). okP (bread (l_dev (lg s1)) (lh_block (lg s1) tail) s1) (\<lambda>(y, t).
           okP (bwrite y (set_data y (b_data (bufs t x)) t)) (\<lambda>t. okP (brelse x t) (\<lambda>t. okP (brelse y t) (\<lambda>t. okP (install_from k (tail + 1) t) ?Q)))))"
    by (rule okP_mono [OF T], assumption+, unfold split_paired_all case_prod_conv, elim conjE)
      (simp only: lg1 Suc.prems(2))
  then show ?case by (simp add: Suc.prems(2) case_prod_unfold Let_def)
qed (simp add: install_pairs_def)

lemma write_log_from_ok:
  assumes "bio_ok s" and "l_dev (lg s) = ROOTDEV" and "has_room 2 (bc s)"
    and "\<And>i. tail \<le> i \<Longrightarrow> i < tail + k \<Longrightarrow> turn_ok (lg s) (bc s) i"
  shows "okP (write_log_from k tail s) (\<lambda>s'. bio_ok s' \<and> bc s' = copies (log_pairs (lg s) tail k) (bc s) \<and> bsame s s')"
  using assms
proof (induction k arbitrary: tail s)
  case (Suc k)
  let ?b = "l_start (lg s) + tail + 1" and ?a = "lh_block (lg s) tail"
  let ?Q = "\<lambda>s'. bio_ok s' \<and> bc s' = copies (log_pairs (lg s) tail (Suc k)) (bc s) \<and> bsame s s'"
  have t: "?a < FSSIZE" "?b < FSSIZE" "?a \<noteq> ?b" "?a \<notin> clocked (bc s)" "?b \<notin> clocked (bc s)"
    using Suc.prems(4) [of tail] by (auto simp: turn_ok_def)
  have K: "okP (write_log_from k (tail + 1) t) ?Q"
    if "bio_ok t" "bc t = copied ?a ?b (bc s)" "bsame s t" for t
  proof -
    have l: "lg t = lg s" using that(3) by (rule bsame_lg)
    have "okP (write_log_from k (tail + 1) t) (\<lambda>s'. bio_ok s' \<and> bc s' = copies (log_pairs (lg t) (tail + 1) k) (bc t) \<and> bsame t s')"
    proof (rule Suc.IH [OF that(1)])
      show "has_room 2 (bc t)" unfolding that(2) by (rule has_room_copied) (rule Suc.prems)
      show "turn_ok (lg t) (bc t) i" if "tail + 1 \<le> i" "i < tail + 1 + k" for i
        using Suc.prems(4) [of i] that l by (simp add: turn_ok_def \<open>bc t = _\<close>)
    qed (simp add: l Suc.prems)
    then show ?thesis
      by (rule okP_mono) (use l that bsame_trans in \<open>auto simp: pairs_Suc\<close>)
  qed
  have lg1: "lg s1 = lg s" if "bsame s s1" for s1 using that by (rule bsame_lg)
  note T = copy_turn(2) [where K = "write_log_from k (tail + 1)" and Q = ?Q, OF Suc.prems(1) t Suc.prems(3) K]
  have "okP (bread ROOTDEV ?b s) (\<lambda>(x, s1). bsame s s1)"
    by (rule okP_mono [OF bread_abs [OF Suc.prems(1) t(2,5) kcache.has_room_mono [OF Suc.prems(3)]]]) auto
  note T = okP_both2 [OF this T]
  have "okP (bread ROOTDEV ?b s) (\<lambda>(y, s1). okP (bread (l_dev (lg s1)) (lh_block (lg s1) tail) s1) (\<lambda>(x, t).
           okP (bwrite y (set_data y (b_data (bufs t x)) t)) (\<lambda>t. okP (brelse x t) (\<lambda>t. okP (brelse y t) (\<lambda>t. okP (write_log_from k (tail + 1) t) ?Q)))))"
    by (rule okP_mono [OF T], assumption+, unfold split_paired_all case_prod_conv, elim conjE)
      (simp only: lg1 Suc.prems(2))
  then show ?case by (simp add: Suc.prems(2) case_prod_unfold Let_def)
qed (simp add: log_pairs_def)

section \<open>Reading and writing the header\<close>

definition headed :: "nat \<Rightarrow> int \<Rightarrow> (nat \<Rightarrow> nat) \<Rightarrow> bcache \<Rightarrow> bcache" where
  "headed st n bs v = (let h = head_put n bs (cv v st) in
     v\<lparr>cv := (cv v)(st := h), cd := (cd v)(st := h), cdirty := cdirty v - {st},
       ctrace := ctrace v @ [(ROOTDEV, st, h)]\<rparr>)"

lemma headed_sel [simp]:
  "cv (headed st n bs v) = (cv v)(st := head_put n bs (cv v st))"
  "cd (headed st n bs v) = (cd v)(st := head_put n bs (cv v st))"
  "cdirty (headed st n bs v) = cdirty v - {st}" "clocked (headed st n bs v) = clocked v"
  "ctrace (headed st n bs v) = ctrace v @ [(ROOTDEV, st, head_put n bs (cv v st))]"
  by (simp_all add: headed_def Let_def)

lemma has_room_headed: "has_room k v \<Longrightarrow> has_room k (headed st n bs v)"
  by (rule has_room_subset) auto

lemma write_head_ok:
  assumes ok: "bio_ok s" and l: "l_dev (lg s) = ROOTDEV" "l_start (lg s) < FSSIZE"
    and un: "l_start (lg s) \<notin> clocked (bc s)" and room: "has_room 1 (bc s)"
  shows "okP (write_head s) (\<lambda>s'. bio_ok s'
      \<and> bc s' = headed (l_start (lg s)) (lh_n (lg s)) (lh_block (lg s)) (bc s) \<and> bsame s s')"
  unfolding write_head_def okP_bindr l(1)
proof (rule okP_mono [OF bread_abs [OF ok l(2) un room]], unfold split_paired_all case_prod_conv Let_def okP_bindr, elim conjE)
  let ?st = "l_start (lg s)"
  let ?h = "head_put (lh_n (lg s)) (lh_block (lg s)) (blk s ?st)"
  fix b t assume t: "bio_ok t" "buf_for t ?st b" "bc t = (bc s)\<lparr>clocked := insert ?st (clocked (bc s))\<rparr>"
    "bsame s t"
  have lt: "lg t = lg s" using t(4) by (rule bsame_lg)
  have g: "b_data (bufs t b) = blk s ?st" using buf_for_data [of t ?st b] t(1,2) bcD(1) [OF t(3)] by (simp add: bio_ok_def)
  let ?t = "set_data b ?h t"
  note p = set_data_abs [OF t(1,2), where d = ?h]
  have bt: "bc ?t = (bc s)\<lparr>cv := (blk s)(?st := ?h), clocked := insert ?st (clocked (bc s))\<rparr>"
    unfolding p(3) using bcD(1) [OF t(3)] by (simp add: t(3))
  show "okP (bwrite b (set_data b (head_put (lh_n (lg t)) (lh_block (lg t)) (b_data (bufs t b))) t))
     (\<lambda>s'. okP (brelse b s') (\<lambda>s'. bio_ok s' \<and> bc s' = headed ?st (lh_n (lg s)) (lh_block (lg s)) (bc s) \<and> bsame s s'))"
    unfolding lt g
  proof (rule okP_mono [OF bwrite_abs [OF p(1,2) l(2)]], elim conjE)
    fix w assume w: "bio_ok w" "buf_for w ?st b" "bsame ?t w"
      and e: "bc w = (bc ?t)\<lparr>cd := (disk ?t ROOTDEV)(?st := blk ?t ?st), cdirty := cdirty (bc ?t) - {?st},
                 ctrace := wtrace ?t @ [(ROOTDEV, ?st, blk ?t ?st)]\<rparr>"
    have e': "bc w = (headed ?st (lh_n (lg s)) (lh_block (lg s)) (bc s))\<lparr>clocked := insert ?st (clocked (bc s))\<rparr>"
      unfolding e using bcD(1,2,3) [OF bt] by (simp add: bt headed_def Let_def)
    have cl: "?st \<in> cdirty (bc w) \<or> blk w ?st = disk w ROOTDEV ?st"
      using bcD(1,2) [OF e'] by simp
    show "okP (brelse b w) (\<lambda>s'. bio_ok s' \<and> bc s' = headed ?st (lh_n (lg s)) (lh_block (lg s)) (bc s) \<and> bsame s s')"
      by (rule okP_mono [OF brelse_abs [OF w(1,2) cl]])
        (use un bsame_trans [OF bsame_trans [OF bsame_trans [OF t(4) p(5)] w(3)]] in
          \<open>auto simp: e' headed_def Let_def intro!: bcache.equality\<close>)
  qed
qed

lemma read_head_ok:
  assumes ok: "bio_ok s" and l: "l_dev (lg s) = ROOTDEV" "l_start (lg s) < FSSIZE"
    and un: "l_start (lg s) \<notin> clocked (bc s)" and room: "has_room 1 (bc s)"
  defines "h \<equiv> blk s (l_start (lg s))"
  shows "okP (read_head s) (\<lambda>s'. bio_ok s' \<and> bc s' = bc s \<and> lsame s s'
      \<and> lg s' = (lg s)\<lparr>lh_n := head_n h,
             lh_block := (\<lambda>i. if i < nat (head_n h) then head_block h i else lh_block (lg s) i)\<rparr>)"
  unfolding read_head_def okP_bindr l(1)
proof (rule okP_mono [OF bread_abs [OF ok l(2) un room]], unfold split_paired_all case_prod_conv Let_def okP_bindr, elim conjE)
  let ?st = "l_start (lg s)"
  fix b t assume t: "bio_ok t" "buf_for t ?st b" "bc t = (bc s)\<lparr>clocked := insert ?st (clocked (bc s))\<rparr>"
    "bsame s t"
  have lt: "lg t = lg s" using t(4) by (rule bsame_lg)
  have g: "b_data (bufs t b) = h" using buf_for_data [of t ?st b] t(1,2) bcD(1) [OF t(3)] by (simp add: bio_ok_def h_def)
  let ?f = "\<lambda>l. l\<lparr>lh_n := head_n h, lh_block := (\<lambda>i. if i < nat (head_n h) then head_block h i else lh_block l i)\<rparr>"
  let ?t = "upd_lg ?f t"
  have p: "bio_ok ?t" "buf_for ?t ?st b" using t by simp_all
  have cl: "?st \<in> cdirty (bc ?t) \<or> blk ?t ?st = disk ?t ROOTDEV ?st"
    using clean_abs [OF ok _ un] bcD(1,2,4) [OF t(3)] by auto
  show "okP (brelse b (upd_lg (\<lambda>l. l\<lparr>lh_n := head_n (b_data (bufs t b)), lh_block := (\<lambda>i. if i < nat (head_n (b_data (bufs t b)))
      then head_block (b_data (bufs t b)) i else lh_block l i)\<rparr>) t)) (\<lambda>s'. bio_ok s' \<and> bc s' = bc s \<and> lsame s s'
      \<and> lg s' = (lg s)\<lparr>lh_n := head_n h,
             lh_block := (\<lambda>i. if i < nat (head_n h) then head_block h i else lh_block (lg s) i)\<rparr>)"
    unfolding g
  proof (rule okP_mono [OF brelse_abs [OF p cl]], elim conjE)
    fix r assume r: "bio_ok r" "bc r = (bc ?t)\<lparr>clocked := clocked (bc ?t) - {?st}\<rparr>" "bsame ?t r"
    have "lsame s r" using lsame_trans [OF lsame_trans [OF lsame_bsame [OF t(4)] lsame_upd_lg] lsame_bsame [OF r(3)]] .
    moreover have "bc r = bc s" using un unfolding r(2) by (simp add: t(3))
    ultimately show "bio_ok r \<and> bc r = bc s \<and> lsame s r \<and> lg r = (lg s)\<lparr>lh_n := head_n h,
             lh_block := (\<lambda>i. if i < nat (head_n h) then head_block h i else lh_block (lg s) i)\<rparr>"
      using r(1) bsame_lg(1) [OF r(3)] unfolding upd_lg_sel lt by simp
  qed
qed

section \<open>What commit and recovery do\<close>

abbreviation lh_count :: "logst \<Rightarrow> nat" where
  "lh_count l \<equiv> nat (lh_n l)"

lemma lh_turn:
  assumes "lh_ok l" and "clocked v = {}" and "i < lh_count l"
  shows "turn_ok l v i"
proof -
  have "lh_block l i \<in> home l" using assms by (auto simp: lh_ok_def)
  with assms show ?thesis by (auto simp: turn_ok_def lh_ok_def home_def log_area_def)
qed

definition emptied :: "logst \<Rightarrow> bcache \<Rightarrow> bcache" where
  "emptied l v = headed (l_start l) 0 (lh_block l) (copies (install_pairs l 0 (lh_count l)) v)"

definition committed :: "logst \<Rightarrow> bcache \<Rightarrow> bcache" where
  "committed l v = emptied l (headed (l_start l) (lh_n l) (lh_block l) (copies (log_pairs l 0 (lh_count l)) v))"

lemma clocked_copies [simp]: "clocked (copies ps v) = clocked v"
  by (induction ps arbitrary: v) auto

lemma has_room_copies: "has_room k v \<Longrightarrow> has_room k (copies ps v)"
  by (induction ps arbitrary: v) (simp_all add: has_room_copied split_paired_all)

lemma install_empty_ok:
  assumes ok: "bio_ok s" and lh: "lh_ok (lg s)" and un: "clocked (bc s) = {}" and room: "has_room 2 (bc s)"
  shows "okP (bindr (install_trans s) (\<lambda>s. write_head (upd_lg (\<lambda>l. l\<lparr>lh_n := 0\<rparr>) s)))
    (\<lambda>s'. bio_ok s' \<and> bc s' = emptied (lg s) (bc s) \<and> lg s' = (lg s)\<lparr>lh_n := 0\<rparr> \<and> lsame s s')"
proof -
  have I: "okP (install_trans s) (\<lambda>s'. bio_ok s' \<and> bc s' = copies (install_pairs (lg s) 0 (lh_count (lg s))) (bc s) \<and> bsame s s')"
    unfolding install_trans_def using lh_turn [OF lh un] lh room
    by (intro install_from_ok [OF ok]) (simp_all add: lh_ok_def)
  show ?thesis
    unfolding okP_bindr
  proof (rule okP_mono [OF I], elim conjE)
  fix t assume t: "bio_ok t" "bc t = copies (install_pairs (lg s) 0 (lh_count (lg s))) (bc s)" "bsame s t"
  let ?t = "upd_lg (\<lambda>l. l\<lparr>lh_n := 0\<rparr>) t"
  have lt: "lg t = lg s" using t(3) by (rule bsame_lg)
  have "okP (write_head ?t) (\<lambda>s'. bio_ok s'
      \<and> bc s' = headed (l_start (lg ?t)) (lh_n (lg ?t)) (lh_block (lg ?t)) (bc ?t) \<and> bsame ?t s')"
    by (rule write_head_ok)
      (use t lt un lh has_room_copies kcache.has_room_mono [OF room] in \<open>auto simp: lh_ok_def\<close>)
  then show "okP (write_head ?t) (\<lambda>s'. bio_ok s' \<and> bc s' = emptied (lg s) (bc s) \<and> lg s' = (lg s)\<lparr>lh_n := 0\<rparr> \<and> lsame s s')"
  proof (rule okP_mono, elim conjE, intro conjI)
    fix w assume w: "bio_ok w" "bc w = headed (l_start (lg ?t)) (lh_n (lg ?t)) (lh_block (lg ?t)) (bc ?t)" "bsame ?t w"
    show "bio_ok w" by (rule w)
    show "bc w = emptied (lg s) (bc s)" using w(2) lt t(2) by (simp add: emptied_def)
    show "lg w = (lg s)\<lparr>lh_n := 0\<rparr>" using bsame_lg(1) [OF w(3)] lt by simp
    show "lsame s w" using lsame_trans [OF lsame_trans [OF lsame_bsame [OF t(3)] lsame_upd_lg] lsame_bsame [OF w(3)]] .
  qed
  qed
qed

lemma commit_ok:
  assumes ok: "bio_ok s" and lh: "lh_ok (lg s)" and un: "clocked (bc s) = {}" and room: "has_room 2 (bc s)"
    and n: "0 < lh_n (lg s)"
  shows "okP (commit s) (\<lambda>s'. bio_ok s' \<and> bc s' = committed (lg s) (bc s) \<and> lg s' = (lg s)\<lparr>lh_n := 0\<rparr> \<and> lsame s s')"
proof -
  let ?Q = "\<lambda>s'. bio_ok s' \<and> bc s' = committed (lg s) (bc s) \<and> lg s' = (lg s)\<lparr>lh_n := 0\<rparr> \<and> lsame s s'"
  have W: "okP (write_log s) (\<lambda>s'. bio_ok s' \<and> bc s' = copies (log_pairs (lg s) 0 (lh_count (lg s))) (bc s) \<and> bsame s s')"
    unfolding write_log_def using lh_turn [OF lh un] lh room
    by (intro write_log_from_ok [OF ok]) (simp_all add: lh_ok_def)
  have "okP (write_log s) (\<lambda>t. okP (write_head t) (\<lambda>u.
      okP (bindr (install_trans u) (\<lambda>s. write_head (upd_lg (\<lambda>l. l\<lparr>lh_n := 0\<rparr>) s))) ?Q))"
  proof (rule okP_mono [OF W], elim conjE)
    fix t assume t: "bio_ok t" "bc t = copies (log_pairs (lg s) 0 (lh_count (lg s))) (bc s)" "bsame s t"
    have lt: "lg t = lg s" using t(3) by (rule bsame_lg)
    have "okP (write_head t) (\<lambda>s'. bio_ok s'
        \<and> bc s' = headed (l_start (lg t)) (lh_n (lg t)) (lh_block (lg t)) (bc t) \<and> bsame t s')"
      by (rule write_head_ok)
        (use t lt un lh has_room_copies kcache.has_room_mono [OF room] in \<open>auto simp: lh_ok_def\<close>)
    then show "okP (write_head t) (\<lambda>u. okP (bindr (install_trans u) (\<lambda>s. write_head (upd_lg (\<lambda>l. l\<lparr>lh_n := 0\<rparr>) s))) ?Q)"
    proof (rule okP_mono, elim conjE)
      fix u assume u: "bio_ok u" "bc u = headed (l_start (lg t)) (lh_n (lg t)) (lh_block (lg t)) (bc t)" "bsame t u"
      have lu: "lg u = lg s" using bsame_lg(1) [OF u(3)] lt by simp
      have "okP (bindr (install_trans u) (\<lambda>s. write_head (upd_lg (\<lambda>l. l\<lparr>lh_n := 0\<rparr>) s)))
        (\<lambda>s'. bio_ok s' \<and> bc s' = emptied (lg u) (bc u) \<and> lg s' = (lg u)\<lparr>lh_n := 0\<rparr> \<and> lsame u s')"
        by (rule install_empty_ok [OF u(1)])
          (use u(2) t(2) lu lh un has_room_headed has_room_copies [OF room] in auto)
      then show "okP (bindr (install_trans u) (\<lambda>s. write_head (upd_lg (\<lambda>l. l\<lparr>lh_n := 0\<rparr>) s))) ?Q"
        by (rule okP_mono)
          (use lsame_trans [OF lsame_trans [OF lsame_bsame [OF t(3)] lsame_bsame [OF u(3)]]] in
            \<open>auto simp: lu committed_def u(2) lt t(2)\<close>)
    qed
  qed
  then show ?thesis using n by (simp add: commit_def)
qed

section \<open>Crashes\<close>

lemma replay_out: "(\<And>w. w \<in> set t \<Longrightarrow> fst (snd w) \<noteq> b) \<Longrightarrow> replay t d b = d b"
proof (induction t arbitrary: d)
  case (Cons w t)
  obtain dev n m where w: "w = (dev, n, m)" by (cases w)
  have "n \<noteq> b" using Cons.prems [of w] by (simp add: w)
  moreover have "replay t d' b = d' b" for d' using Cons.IH Cons.prems by simp
  ultimately show ?case by (simp add: w)
qed simp

lemma replay_in:
  "distinct (map (fst \<circ> snd) t) \<Longrightarrow> (ROOTDEV, n, m) \<in> set t \<Longrightarrow> replay t d n = m"
proof (induction t d rule: replay.induct)
  case (2 dev k x t d)
  show ?case
  proof (cases "(ROOTDEV, n, m) \<in> set t")
    case True
    with 2 show ?thesis by simp
  next
    case False
    with 2(3) have e: "dev = ROOTDEV" "k = n" "x = m" by auto
    have "fst (snd w) \<noteq> n" if "w \<in> set t" for w using 2(2) that e by force
    then show ?thesis using replay_out [of t n] e by simp
  qed
qed simp

lemma first_idx_image_None: "first_idx n (\<lambda>i. f i = b) = None \<longleftrightarrow> b \<notin> f ` {..<n}"
  by (auto simp: first_idx_None)

lemma first_idx_inj: "inj_on f {..<n} \<Longrightarrow> i < n \<Longrightarrow> first_idx n (\<lambda>j. f j = f i) = Some i"
  by (auto simp: first_idx_Some inj_on_def)

text \<open>The on-disk header describes the same transaction as the in-memory one.\<close>

definition head_is :: "logst \<Rightarrow> dsk \<Rightarrow> bool" where
  "head_is l d \<longleftrightarrow> head_n (d (l_start l)) = lh_n l
     \<and> (\<forall>i < lh_count l. head_block (d (l_start l)) i = lh_block l i)"

lemma logical_in:
  assumes "lh_ok l" "head_is l d" "i < lh_count l"
  shows "logical (l_start l) d (lh_block l i) = d (l_start l + i + 1)"
proof -
  have "first_idx (lh_count l) (\<lambda>j. head_block (d (l_start l)) j = lh_block l i) = Some i"
    using assms by (auto simp: lh_ok_def head_is_def first_idx_Some inj_on_def)
  then show ?thesis using assms(2) by (simp add: logical_def head_is_def)
qed

lemma logical_out:
  assumes "head_is l d" "b \<notin> lh_block l ` {..<lh_count l}"
  shows "logical (l_start l) d b = d b"
proof -
  have "first_idx (lh_count l) (\<lambda>j. head_block (d (l_start l)) j = b) = None"
    using assms by (auto simp: head_is_def first_idx_None)
  then show ?thesis using assms(1) by (simp add: logical_def head_is_def)
qed

lemma logical_empty: "head_n (d st) = 0 \<Longrightarrow> logical st d = d"
  by (rule ext) (simp add: logical_def first_idx_def)

text \<open>The writes of the installation followed by the empty header, cut anywhere, leave the logical disk
  as it is.\<close>

definition install_trace :: "logst \<Rightarrow> dsk \<Rightarrow> (nat \<times> nat \<times> mem) list" where
  "install_trace l d = map (\<lambda>i. (ROOTDEV, lh_block l i, d (l_start l + i + 1))) [0..<lh_count l]"

lemma lh_home: "lh_ok l \<Longrightarrow> i < lh_count l \<Longrightarrow> lh_block l i \<in> home l"
  by (auto simp: lh_ok_def)

lemma log_not_home: "lh_ok l \<Longrightarrow> i \<le> lh_count l \<Longrightarrow> l_start l + i \<notin> home l"
  by (auto simp: lh_ok_def home_def log_area_def)

lemma install_partial:
  assumes lh: "lh_ok l" and hd: "head_is l d" and b: "b \<in> home l"
  shows "logical (l_start l) (replay (take j (install_trace l d)) d) b = logical (l_start l) d b"
proof -
  let ?t = "take j (install_trace l d)"
  let ?d = "replay ?t d"
  have out: "?d c = d c" if "c \<notin> lh_block l ` {..<lh_count l}" for c
    using that by (intro replay_out) (auto simp: install_trace_def dest!: in_set_takeD)
  have lo: "?d (l_start l + i) = d (l_start l + i)" if "i \<le> lh_count l" for i
    using log_not_home [OF lh that] lh_home [OF lh] by (intro out) (metis imageE lessThan_iff)
  have hd': "head_is l ?d" using hd lo [of 0] by (simp add: head_is_def)
  show ?thesis
  proof (cases "b \<in> lh_block l ` {..<lh_count l}")
    case True
    then obtain i where i: "i < lh_count l" "b = lh_block l i" by auto
    then show ?thesis
      using logical_in [OF lh hd i(1)] logical_in [OF lh hd' i(1)] lo [of "i + 1"] by simp
  next
    case False
    then show ?thesis using out [OF False] logical_out [OF hd False] logical_out [OF hd' False] by simp
  qed
qed

lemma install_full:
  assumes lh: "lh_ok l" and hd: "head_is l d" and b: "b \<in> home l"
  shows "replay (install_trace l d) d b = logical (l_start l) d b"
proof (cases "b \<in> lh_block l ` {..<lh_count l}")
  case True
  then obtain i where i: "i < lh_count l" "b = lh_block l i" by auto
  have "distinct (map (fst \<circ> snd) (install_trace l d))"
    using lh by (auto simp: install_trace_def distinct_map lh_ok_def inj_on_def lessThan_atLeast0)
  moreover have "(ROOTDEV, b, d (l_start l + i + 1)) \<in> set (install_trace l d)"
    using i by (auto simp: install_trace_def)
  ultimately show ?thesis
    using logical_in [OF lh hd i(1)] i(2) by (simp add: replay_in)
next
  case False
  then have "replay (install_trace l d) d b = d b"
    by (intro replay_out) (auto simp: install_trace_def)
  with logical_out [OF hd False] show ?thesis by simp
qed

lemma install_crash:
  assumes lh: "lh_ok l" and hd: "head_is l d" and h0: "head_n h0 = 0" and b: "b \<in> home l"
  shows "logical (l_start l) (replay (take j (install_trace l d @ [(ROOTDEV, l_start l, h0)])) d) b
     = logical (l_start l) d b"
proof (cases "j \<le> length (install_trace l d)")
  case True
  then show ?thesis using install_partial [OF lh hd b] by simp
next
  case False
  have "b \<noteq> l_start l" using log_not_home [OF lh, of 0] b by auto
  then show ?thesis
    using False h0 install_full [OF lh hd b] by (simp add: logical_empty replay_append)
qed

text \<open>A commit: the blocks go to the log, then the header, then the installation.\<close>

definition log_trace :: "logst \<Rightarrow> dsk \<Rightarrow> (nat \<times> nat \<times> mem) list" where
  "log_trace l v = map (\<lambda>i. (ROOTDEV, l_start l + i + 1, v (lh_block l i))) [0..<lh_count l]"

lemma commit_crash:
  assumes lh: "lh_ok l" and e: "head_n (d (l_start l)) = 0" and h0: "head_n h0 = 0"
    and h: "head_n h = lh_n l" "\<And>i. i < lh_count l \<Longrightarrow> head_block h i = lh_block l i"
    and same: "\<And>b. b \<in> home l \<Longrightarrow> b \<notin> lh_block l ` {..<lh_count l} \<Longrightarrow> v b = d b"
  defines "d1 \<equiv> replay (log_trace l v @ [(ROOTDEV, l_start l, h)]) d"
  defines "T \<equiv> log_trace l v @ [(ROOTDEV, l_start l, h)] @ install_trace l d1 @ [(ROOTDEV, l_start l, h0)]"
  shows "(\<forall>b \<in> home l. logical (l_start l) (replay (take k T) d) b = (if k \<le> lh_count l then d b else v b))"
    and "head_is l d1" and "\<And>i. i < lh_count l \<Longrightarrow> d1 (l_start l + i + 1) = v (lh_block l i)"
proof -
  have T1: "length (log_trace l v) = lh_count l" by (simp add: log_trace_def)
  have hd1: "d1 (l_start l) = h" by (simp add: d1_def replay_append)
  then show head: "head_is l d1" using h by (simp add: head_is_def)
  have dist: "distinct (map (fst \<circ> snd) (log_trace l v))"
    by (simp add: log_trace_def distinct_map inj_on_def)
  show logd: "d1 (l_start l + i + 1) = v (lh_block l i)" if "i < lh_count l" for i
    unfolding d1_def replay_append using that dist
    by (simp, intro replay_in) (auto simp: log_trace_def)
  have pre: "replay (take j (log_trace l v)) d b = d b" if "b \<in> home l \<or> b = l_start l" for b j
  proof (rule replay_out)
    fix w assume "w \<in> set (take j (log_trace l v))"
    then obtain i where "i < lh_count l" "fst (snd w) = l_start l + (i + 1)"
      by (auto simp: log_trace_def dest!: in_set_takeD)
    with log_not_home [OF lh, of "i + 1"] that show "fst (snd w) \<noteq> b" by auto
  qed
  have d1h: "d1 b = d b" if "b \<in> home l" for b
    using that pre [of b "length (log_trace l v)"] log_not_home [OF lh, of 0]
    by (auto simp: d1_def replay_append)
  have new: "logical (l_start l) d1 b = v b" if b: "b \<in> home l" for b
  proof (cases "b \<in> lh_block l ` {..<lh_count l}")
    case True
    then obtain i where i: "i < lh_count l" "b = lh_block l i" by auto
    with logical_in [OF lh head i(1)] logd show ?thesis by simp
  next
    case False
    with logical_out [OF head False] d1h [OF b] same [OF b False] show ?thesis by simp
  qed
  show "(\<forall>b \<in> home l. logical (l_start l) (replay (take k T) d) b = (if k \<le> lh_count l then d b else v b))"
  proof
    fix b assume b: "b \<in> home l"
    show "logical (l_start l) (replay (take k T) d) b = (if k \<le> lh_count l then d b else v b)"
    proof (cases "k \<le> lh_count l")
      case True
      then have "take k T = take k (log_trace l v)" by (simp add: T_def T1)
      with pre [of "l_start l" k] pre [of b k] b e True show ?thesis by (simp add: logical_empty)
    next
      case False
      let ?A = "log_trace l v @ [(ROOTDEV, l_start l, h)]" and ?B = "install_trace l d1 @ [(ROOTDEV, l_start l, h0)]"
      have T: "T = ?A @ ?B" by (simp add: T_def)
      have "take k T = ?A @ take (k - (lh_count l + 1)) ?B"
        unfolding T take_append using False T1 by simp
      then have "replay (take k T) d = replay (take (k - (lh_count l + 1)) ?B) d1"
        by (simp add: replay_append d1_def)
      then have "logical (l_start l) (replay (take k T) d) b = logical (l_start l) d1 b"
        by (simp only: install_crash [OF lh head h0 b])
      with new [OF b] False show ?thesis by simp
    qed
  qed
qed

text \<open>What the header block can be after a crash.\<close>

lemma replay_cases: "replay t d b = d b \<or> (\<exists>w \<in> set t. fst (snd w) = b \<and> replay t d b = snd (snd w))"
proof (induction t arbitrary: d)
  case (Cons w t)
  obtain dev n m where w: "w = (dev, n, m)" by (cases w)
  show ?case
    using Cons.IH [of "if dev = ROOTDEV then d(n := m) else d"] by (auto simp: w fun_upd_def)
qed simp

definition hdr_ok :: "logst \<Rightarrow> dsk \<Rightarrow> bool" where
  "hdr_ok l d \<longleftrightarrow> lh_ok (l\<lparr>lh_n := head_n (d (l_start l)), lh_block := head_block (d (l_start l))\<rparr>)"

lemma home_cong [simp]: "home (l\<lparr>lh_n := n\<rparr>) = home l" "home (l\<lparr>lh_block := f\<rparr>) = home l"
  "home (l\<lparr>l_outstanding := i\<rparr>) = home l" "home (l\<lparr>l_committing := c\<rparr>) = home l"
  by (simp_all add: home_def log_area_def)

lemma hdr_ok_0: "lh_ok l \<Longrightarrow> head_n (d (l_start l)) = 0 \<Longrightarrow> hdr_ok l d"
  by (auto simp: hdr_ok_def lh_ok_def)

lemma hdr_ok_cong:
  "l_start l = l_start l' \<Longrightarrow> l_size l = l_size l' \<Longrightarrow> l_dev l = l_dev l' \<Longrightarrow> hdr_ok l d = hdr_ok l' d"
  by (simp add: hdr_ok_def lh_ok_def home_def log_area_def)

lemma hdr_ok_head: "lh_ok l \<Longrightarrow> head_is l d \<Longrightarrow> hdr_ok l d"
  by (auto simp: hdr_ok_def lh_ok_def head_is_def inj_on_def)

section \<open>end_op and initlog\<close>

definition log_inv :: "'a logk_scheme \<Rightarrow> bool" where
  "log_inv s \<longleftrightarrow> lh_ok (lg s) \<and> \<not> l_committing (lg s)
     \<and> cdirty (bc s) = lh_block (lg s) ` {..<lh_count (lg s)}
     \<and> head_n (disk s ROOTDEV (l_start (lg s))) = 0 \<and> clocked (bc s) \<inter> log_area (lg s) = {}"

lemma log_inv_card: "log_inv s \<Longrightarrow> card (cdirty (bc s)) = lh_count (lg s)"
  by (auto simp: log_inv_def lh_ok_def card_image)

lemma log_inv_room:
  assumes "log_inv s" and "finite (clocked (bc s))" and "lh_n (lg s) + int (card (clocked (bc s)) + k) \<le> int NBUF"
  shows "has_room k (bc s)"
proof -
  have f: "finite (cdirty (bc s))" using assms(1) by (simp add: log_inv_def)
  have "card (cdirty (bc s) \<union> clocked (bc s)) \<le> lh_count (lg s) + card (clocked (bc s))"
    using card_Un_le [of "cdirty (bc s)"] log_inv_card [OF assms(1)] by simp
  moreover have "0 \<le> lh_n (lg s)" using assms(1) by (simp add: log_inv_def lh_ok_def)
  ultimately show ?thesis using assms(2,3) f by (simp add: has_room_def)
qed

lemma log_pairs_props:
  assumes "lh_ok l"
  shows "distinct (map snd (log_pairs l 0 (lh_count l)))"
    and "fst ` set (log_pairs l 0 (lh_count l)) \<inter> snd ` set (log_pairs l 0 (lh_count l)) = {}"
    and "distinct (map snd (install_pairs l 0 (lh_count l)))"
    and "fst ` set (install_pairs l 0 (lh_count l)) \<inter> snd ` set (install_pairs l 0 (lh_count l)) = {}"
proof -
  show "distinct (map snd (log_pairs l 0 (lh_count l)))"
    by (simp add: log_pairs_def distinct_map inj_on_def comp_def)
  show "distinct (map snd (install_pairs l 0 (lh_count l)))"
    using assms by (auto simp: install_pairs_def distinct_map lh_ok_def inj_on_def)
  have "lh_block l i \<noteq> l_start l + (j + 1)" if "i < lh_count l" "j < lh_count l" for i j
    using lh_home [OF assms that(1)] log_not_home [OF assms, of "j + 1"] that by auto
  then show "fst ` set (log_pairs l 0 (lh_count l)) \<inter> snd ` set (log_pairs l 0 (lh_count l)) = {}"
    and "fst ` set (install_pairs l 0 (lh_count l)) \<inter> snd ` set (install_pairs l 0 (lh_count l)) = {}"
    by (force simp: install_pairs_def log_pairs_def)+
qed

text \<open>The disk after a sequence of copies is the replay of its trace.\<close>

lemma copies_replay: "\<exists>t. ctrace (copies ps v) = ctrace v @ t \<and> cd (copies ps v) = replay t (cd v)"
proof (induction ps arbitrary: v)
  case (Cons p ps)
  obtain a b where p: "p = (a, b)" by (cases p)
  from Cons.IH [of "copied a b v"] obtain t where
    "ctrace (copies ps (copied a b v)) = ctrace v @ (ROOTDEV, b, cv v a) # t"
    "cd (copies ps (copied a b v)) = replay t ((cd v)(b := cv v a))" by (auto simp: fun_upd_def)
  then show ?case by (intro exI [of _ "(ROOTDEV, b, cv v a) # t"]) (simp add: p)
qed simp

lemma log_trace_copies:
  assumes lh: "lh_ok l"
  shows "ctrace (copies (log_pairs l 0 (lh_count l)) v) = ctrace v @ log_trace l (cv v)"
    and "cd (copies (log_pairs l 0 (lh_count l)) v) = replay (log_trace l (cv v)) (cd v)"
proof -
  show t: "ctrace (copies (log_pairs l 0 (lh_count l)) v) = ctrace v @ log_trace l (cv v)"
    using copies_sel(5) [OF log_pairs_props(1,2) [OF lh], of v]
    by (simp add: log_pairs_def log_trace_def comp_def)
  show "cd (copies (log_pairs l 0 (lh_count l)) v) = replay (log_trace l (cv v)) (cd v)"
    using copies_replay [of "log_pairs l 0 (lh_count l)" v] t by auto
qed

lemma install_trace_copies:
  assumes lh: "lh_ok l" and same: "\<And>i. i < lh_count l \<Longrightarrow> cv v (l_start l + i + 1) = cd v (l_start l + i + 1)"
  shows "ctrace (copies (install_pairs l 0 (lh_count l)) v) = ctrace v @ install_trace l (cd v)"
    and "cd (copies (install_pairs l 0 (lh_count l)) v) = replay (install_trace l (cd v)) (cd v)"
proof -
  show t: "ctrace (copies (install_pairs l 0 (lh_count l)) v) = ctrace v @ install_trace l (cd v)"
    using copies_sel(5) [OF log_pairs_props(3,4) [OF lh], of v] same
    by (simp add: install_pairs_def install_trace_def comp_def)
  show "cd (copies (install_pairs l 0 (lh_count l)) v) = replay (install_trace l (cd v)) (cd v)"
    using copies_replay [of "install_pairs l 0 (lh_count l)" v] t by auto
qed

text \<open>\<open>crash_ok l old new T\<close>: the trace \<open>T\<close> replayed up to any point leaves a well-formed header and the
  old or the new logical content, and it ends with the new content and an empty log.\<close>

definition crash_ok :: "logst \<Rightarrow> dsk \<Rightarrow> (nat \<Rightarrow> mem) \<Rightarrow> (nat \<times> nat \<times> mem) list \<Rightarrow> bool" where
  "crash_ok l d v T \<longleftrightarrow>
     (\<forall>k. hdr_ok l (replay (take k T) d)
        \<and> ((\<forall>b \<in> home l. logical (l_start l) (replay (take k T) d) b = d b)
           \<or> (\<forall>b \<in> home l. logical (l_start l) (replay (take k T) d) b = v b)))
     \<and> head_n (replay T d (l_start l)) = 0 \<and> (\<forall>b \<in> home l. replay T d b = v b)"

lemma committed_sets:
  assumes "lh_ok l"
  shows "clocked (committed l v) = clocked v"
    and "cdirty (committed l v) \<subseteq> cdirty v - lh_block l ` {..<lh_count l}"
proof -
  show "clocked (committed l v) = clocked v" by (simp add: committed_def emptied_def)
  show "cdirty (committed l v) \<subseteq> cdirty v - lh_block l ` {..<lh_count l}"
    using copies_sel(3) [OF log_pairs_props(1,2) [OF assms]] copies_sel(3) [OF log_pairs_props(3,4) [OF assms]]
    by (auto simp: committed_def emptied_def install_pairs_def image_image lessThan_atLeast0)
qed

lemma committed_trace:
  assumes lh: "lh_ok l" and e: "head_n (cd v (l_start l)) = 0"
    and same: "\<And>b. b \<in> home l \<Longrightarrow> b \<notin> lh_block l ` {..<lh_count l} \<Longrightarrow> cv v b = cd v b"
  shows "\<exists>T. ctrace (committed l v) = ctrace v @ T \<and> cd (committed l v) = replay T (cd v)
     \<and> crash_ok l (cd v) (cv v) T"
proof -
  let ?st = "l_start l" and ?n = "lh_count l"
  define v1 where "v1 = copies (log_pairs l 0 ?n) v"
  define h where "h = head_put (lh_n l) (lh_block l) (cv v1 ?st)"
  define v2 where "v2 = headed ?st (lh_n l) (lh_block l) v1"
  define v3 where "v3 = copies (install_pairs l 0 ?n) v2"
  define h0 where "h0 = head_put 0 (lh_block l) (cv v3 ?st)"
  have c: "committed l v = headed ?st 0 (lh_block l) v3"
    by (simp add: committed_def emptied_def v1_def v2_def v3_def)
  have t1: "ctrace v1 = ctrace v @ log_trace l (cv v)" "cd v1 = replay (log_trace l (cv v)) (cd v)"
    unfolding v1_def using log_trace_copies [OF lh] by simp_all
  define d1 where "d1 = replay (log_trace l (cv v) @ [(ROOTDEV, ?st, h)]) (cd v)"
  have d1: "cd v2 = d1" "ctrace v2 = ctrace v @ log_trace l (cv v) @ [(ROOTDEV, ?st, h)]"
    by (simp_all add: v2_def t1 h_def d1_def replay_append)
  have s2: "cv v2 (?st + i + 1) = cd v2 (?st + i + 1)" if "i < ?n" for i
  proof -
    have "map_of (map (\<lambda>(a, b). (b, a)) (log_pairs l 0 ?n)) (?st + i + 1) \<noteq> None"
      using that by (auto simp: map_of_eq_None_iff log_pairs_def image_image lessThan_atLeast0)
    then show ?thesis
      using copies_sel(1,2) [OF log_pairs_props(1,2) [OF lh], of v]
      by (auto simp: v2_def v1_def split: option.splits)
  qed
  have t3: "ctrace v3 = ctrace v2 @ install_trace l d1" "cd v3 = replay (install_trace l d1) d1"
    unfolding v3_def using install_trace_copies [OF lh s2] d1(1) by simp_all
  define T where "T = log_trace l (cv v) @ [(ROOTDEV, ?st, h)] @ install_trace l d1 @ [(ROOTDEV, ?st, h0)]"
  have n: "0 \<le> lh_n l" "lh_n l \<le> 30" using lh by (simp_all add: lh_ok_def LOGSIZE_def)
  have hn: "head_n h = lh_n l" unfolding h_def using n by (simp add: head_n_put)
  have hb: "head_block h i = lh_block l i" if "i < ?n" for i
    using lh_home [OF lh that] that by (auto simp: h_def home_def FSSIZE_def intro!: head_block_put)
  have h00: "head_n h0 = 0" by (simp add: h0_def head_n_put)
  note cc = commit_crash [where d = "cd v" and v = "cv v" and h = h and ?h0.0 = h0,
      OF lh e h00 hn hb same, folded d1_def, folded T_def]
  have R: "cd (committed l v) = replay T (cd v)"
    by (simp add: c T_def t3 h0_def replay_append d1_def)
  have tr: "ctrace (committed l v) = ctrace v @ T"
    by (simp add: c T_def t3 d1 h0_def)
  have hd: "replay (take k T) (cd v) ?st \<in> {cd v ?st, h, h0}" for k
  proof -
    have "lh_block l i \<noteq> ?st" if "i < ?n" for i
      using lh_home [OF lh that] log_not_home [OF lh, of 0] by auto
    then have "w \<in> set T \<Longrightarrow> fst (snd w) = ?st \<Longrightarrow> snd (snd w) \<in> {h, h0}" for w
      by (auto simp: T_def log_trace_def install_trace_def)
    with replay_cases [of "take k T" "cd v" ?st] show ?thesis by (auto dest: in_set_takeD)
  qed
  have hok: "hdr_ok l (replay (take k T) (cd v))" for k
    using hd [of k] hdr_ok_0 [OF lh, of "replay (take k T) (cd v)"]
      hdr_ok_head [OF lh, of "replay (take k T) (cd v)"] e h00 hn hb
    by (auto simp: head_is_def)
  have len: "?n < length T" by (simp add: T_def log_trace_def)
  have last0: "replay T (cd v) ?st = h0" by (simp add: T_def replay_append)
  have fin: "replay T (cd v) b = cv v b" if "b \<in> home l" for b
    using cc(1) [of "length T"] that len h00 last0 by (simp add: logical_empty)
  have "crash_ok l (cd v) (cv v) T"
    unfolding crash_ok_def using hok cc(1) fin last0 h00 by (metis (full_types))
  with R tr show ?thesis by blast
qed

section \<open>Properties\<close>

lemma wakeup1_bc [simp]: "bc (wakeup1 ch s) = bc s" "bio_ok (wakeup1 ch s) = bio_ok s" "lg (wakeup1 ch s) = lg s"
proof -
  have c: "caches (wakeup1 ch s) = caches s" "blocked (wakeup1 ch s) = blocked s"
    by (rule caches_cong blocked_cong; simp)+
  have b: "blk (wakeup1 ch s) = blk s" by (rule blk_same_bufs) simp_all
  show "bc (wakeup1 ch s) = bc s" by (simp add: bc_def b c)
  have "cache_inv (wakeup1 ch s) = cache_inv s" by (rule cache_inv_cong) simp_all
  then show "bio_ok (wakeup1 ch s) = bio_ok s" by (simp add: bio_ok_def)
  show "lg (wakeup1 ch s) = lg s" by (simp add: wakeup1_def)
qed

lemma lsame_wakeup1: "lsame s (wakeup1 ch s)"
  by (simp add: lsame_def ksame_wakeup1) (simp add: wakeup1_def)

lemma blk_clean_all: "bio_ok s \<Longrightarrow> cdirty (bc s) = {} \<Longrightarrow> clocked (bc s) = {} \<Longrightarrow> blk s = disk s ROOTDEV"
  using clean_abs by fastforce

lemma upd_lg_held: "upd_lg f (s\<lparr>held := H\<rparr>) = (upd_lg f s)\<lparr>held := H\<rparr>"
  by (simp add: upd_lg_def)

text \<open>\<open>end_op\<close> of the last operation is the commit, bracketed by the \<open>committing\<close> flag.\<close>

lemma end_op_last:
  assumes h: "held s = {}" and o1: "l_outstanding (lg s) = 1" and nc: "\<not> l_committing (lg s)"
  shows "end_op s = bindr (commit (upd_lg (\<lambda>l. l\<lparr>l_outstanding := 0, l_committing := True\<rparr>) s)) (\<lambda>s.
       bindr (acquire LLog s) (\<lambda>s.
       bindr (wakeup ChLog (upd_lg (\<lambda>l. l\<lparr>l_committing := False\<rparr>) s)) (\<lambda>s.
       release LLog s)))"
  using assms by (simp add: end_op_def Let_def upd_lg_def)

lemma end_op_commits:
  assumes ok: "bio_ok s" and inv: "log_inv s" and un: "clocked (bc s) = {}" and o1: "l_outstanding (lg s) = 1"
    and room: "lh_n (lg s) + 2 \<le> int NBUF"
  shows "okP (end_op s) (\<lambda>s'. bio_ok s' \<and> log_inv s' \<and> clocked (bc s') = {} \<and> cdirty (bc s') = {}
      \<and> lg s' = (lg s)\<lparr>lh_n := 0, l_outstanding := 0\<rparr> \<and> lsame s s'
      \<and> (\<forall>b \<in> home (lg s). blk s' b = blk s b \<and> disk s' ROOTDEV b = blk s b)
      \<and> (\<exists>T. wtrace s' = wtrace s @ T \<and> disk s' ROOTDEV = replay T (disk s ROOTDEV)
            \<and> crash_ok (lg s) (disk s ROOTDEV) (blk s) T))"
    (is "okP _ ?Q")
proof -
  have h: "held s = {}" using ok by (simp add: bio_ok_def io_ready_def)
  have lh: "lh_ok (lg s)" and nc: "\<not> l_committing (lg s)" and e0: "head_n (disk s ROOTDEV (l_start (lg s))) = 0"
    and dirty: "cdirty (bc s) = lh_block (lg s) ` {..<lh_count (lg s)}"
    using inv by (simp_all add: log_inv_def)
  let ?s = "upd_lg (\<lambda>l. l\<lparr>l_outstanding := 0, l_committing := True\<rparr>) s"
  have lh': "lh_ok (lg ?s)" using lh by (simp add: lh_ok_def)
  have room2: "has_room 2 (bc s)" using log_inv_room [OF inv] un room by simp
  have same: "cv (bc s) b = cd (bc s) b" if "b \<in> home (lg s)" "b \<notin> lh_block (lg s) ` {..<lh_count (lg s)}" for b
    using clean_abs [OF ok, of b] dirty un that by simp
  have C: "okP (commit ?s) (\<lambda>t. bio_ok t \<and> clocked (bc t) = {} \<and> cdirty (bc t) = {}
      \<and> lg t = (lg ?s)\<lparr>lh_n := 0\<rparr> \<and> lsame ?s t
      \<and> (\<exists>T. wtrace t = wtrace s @ T \<and> disk t ROOTDEV = replay T (disk s ROOTDEV)
            \<and> crash_ok (lg s) (disk s ROOTDEV) (blk s) T))"
  proof (cases "0 < lh_n (lg s)")
    case True
    have "committed (lg ?s) (bc s) = committed (lg s) (bc s)"
      by (simp add: committed_def emptied_def log_pairs_def install_pairs_def)
    with commit_ok [OF _ lh', of] ok un room2 True
    have "okP (commit ?s) (\<lambda>s'. bio_ok s' \<and> bc s' = committed (lg s) (bc s) \<and> lg s' = (lg ?s)\<lparr>lh_n := 0\<rparr> \<and> lsame ?s s')"
      by simp
    then show ?thesis
    proof (rule okP_mono, elim conjE, intro conjI)
      fix t assume t: "bio_ok t" "bc t = committed (lg s) (bc s)" "lg t = (lg ?s)\<lparr>lh_n := 0\<rparr>" "lsame ?s t"
      show "clocked (bc t) = {}" using committed_sets(1) [OF lh] un by (simp add: t(2))
      show "cdirty (bc t) = {}" using committed_sets(2) [OF lh, of "bc s"] dirty by (simp add: t(2))
      show "\<exists>T. wtrace t = wtrace s @ T \<and> disk t ROOTDEV = replay T (disk s ROOTDEV)
            \<and> crash_ok (lg s) (disk s ROOTDEV) (blk s) T"
        using committed_trace [OF lh, of "bc s"] e0 same bcD(2,3) [OF t(2)] by simp
    qed
  next
    case False
    then have n0: "lh_n (lg s) = 0" using lh by (simp add: lh_ok_def)
    have d0: "cdirty (bc s) = {}" using dirty n0 by simp
    have "crash_ok (lg s) (disk s ROOTDEV) (blk s) []"
      using blk_clean_all [OF ok d0 un] hdr_ok_0 [OF lh, of "disk s ROOTDEV"] e0
      by (simp add: crash_ok_def logical_empty)
    then show ?thesis using False n0 ok un d0 by (auto simp: commit_def)
  qed
  have "okP (bindr (commit ?s) (\<lambda>s.
       bindr (acquire LLog s) (\<lambda>s.
       bindr (wakeup ChLog (upd_lg (\<lambda>l. l\<lparr>l_committing := False\<rparr>) s)) (\<lambda>s.
       release LLog s)))) ?Q"
    unfolding okP_bindr [of "commit ?s"]
  proof (rule okP_mono [OF C], elim conjE)
    fix t assume t: "bio_ok t" "clocked (bc t) = {}" "cdirty (bc t) = {}" "lg t = (lg ?s)\<lparr>lh_n := 0\<rparr>" "lsame ?s t"
      and T: "\<exists>T. wtrace t = wtrace s @ T \<and> disk t ROOTDEV = replay T (disk s ROOTDEV)
            \<and> crash_ok (lg s) (disk s ROOTDEV) (blk s) T"
    have ht: "held t = {}" using t(1) by (simp add: bio_ok_def io_ready_def)
    let ?w = "wakeup1 ChLog (upd_lg (\<lambda>l. l\<lparr>l_committing := False\<rparr>) t)"
    have e: "bindr (acquire LLog t) (\<lambda>s. bindr (wakeup ChLog (upd_lg (\<lambda>l. l\<lparr>l_committing := False\<rparr>) s)) (\<lambda>s. release LLog s))
        = Ok ?w"
      using ht by (simp add: upd_lg_held wakeup_eq) (simp add: wakeup1_def upd_lg_def)
    have dsk: "blk t = disk t ROOTDEV" by (rule blk_clean_all [OF t(1,3,2)])
    have hm: "disk t ROOTDEV b = blk s b" if "b \<in> home (lg s)" for b
      using T that by (auto simp: crash_ok_def)
    have hn: "head_n (disk t ROOTDEV (l_start (lg s))) = 0" using T by (auto simp: crash_ok_def)
    have bw: "blk ?w = blk t" using blk_same_bufs [of ?w t] by simp
    have "log_inv ?w"
      using t(2,3,4) hn lh by (simp add: log_inv_def lh_ok_def home_def log_area_def)
    moreover have "lsame s ?w"
      using lsame_trans [OF lsame_trans [OF lsame_trans [OF lsame_upd_lg t(5)] lsame_upd_lg] lsame_wakeup1] .
    moreover have "lg ?w = (lg s)\<lparr>lh_n := 0, l_outstanding := 0\<rparr>"
      using t(4) nc by (cases "lg s") simp
    ultimately show "okP (bindr (acquire LLog t) (\<lambda>s. bindr (wakeup ChLog (upd_lg (\<lambda>l. l\<lparr>l_committing := False\<rparr>) s)) (\<lambda>s. release LLog s))) ?Q"
      unfolding e using t(1,2,3) T hm by (simp add: bw dsk)
  qed
  then show ?thesis unfolding end_op_last [OF h o1 nc] .
qed

lemma readsb_ok:
  assumes ok: "bio_ok s" and un: "clocked (bc s) = {}" and room: "has_room 1 (bc s)"
  shows "okP (readsb ROOTDEV s) (\<lambda>(sb, s'). sb = sb_of (blk s 1) \<and> bio_ok s' \<and> bc s' = bc s \<and> bsame s s')"
  unfolding readsb_def okP_bindr
proof (rule okP_mono [OF bread_abs [OF ok _ _ room]], simp add: FSSIZE_def, simp add: un,
    unfold split_paired_all case_prod_conv Let_def okP_bindr, elim conjE)
  fix b t assume t: "bio_ok t" "buf_for t 1 b" "bc t = (bc s)\<lparr>clocked := insert 1 (clocked (bc s))\<rparr>" "bsame s t"
  have g: "b_data (bufs t b) = blk s 1"
    using buf_for_data [of t 1 b] t(1,2) bcD(1) [OF t(3)] by (simp add: bio_ok_def)
  have "(1 :: nat) \<notin> clocked (bc s)" using un by simp
  then have cl: "1 \<in> cdirty (bc t) \<or> blk t 1 = disk t ROOTDEV 1"
    using clean_abs [OF ok, of 1] bcD(1,2,4) [OF t(3)] by auto
  show "okP (brelse b t) (\<lambda>x. okP (Ok (sb_of (b_data (bufs t b)), x))
     (\<lambda>(sb, s'). sb = sb_of (blk s 1) \<and> bio_ok s' \<and> bc s' = bc s \<and> bsame s s'))"
    by (rule okP_mono [OF brelse_abs [OF t(1,2) cl]])
      (use g un bsame_trans [OF t(4)] in \<open>auto simp: t(3) intro!: bcache.equality\<close>)
qed

lemma lh_ok_cong:
  assumes "\<And>i. i < nat n \<Longrightarrow> f i = g i"
  shows "lh_ok (l\<lparr>lh_n := n, lh_block := f\<rparr>) = lh_ok (l\<lparr>lh_n := n, lh_block := g\<rparr>)"
proof -
  have "f ` {..<nat n} = g ` {..<nat n}" using assms by force
  moreover have "inj_on f {..<nat n} = inj_on g {..<nat n}" using assms by (auto simp: inj_on_def)
  ultimately show ?thesis by (simp add: lh_ok_def)
qed

lemma emptied_trace:
  assumes lh: "lh_ok l" and hd: "head_is l (cd v)" and cl: "cv v = cd v"
  shows "\<exists>T. ctrace (emptied l v) = ctrace v @ T \<and> cd (emptied l v) = replay T (cd v)
     \<and> (\<forall>b \<in> home l. cd (emptied l v) b = logical (l_start l) (cd v) b
         \<and> (\<forall>k. logical (l_start l) (replay (take k T) (cd v)) b = logical (l_start l) (cd v) b))
     \<and> head_n (cd (emptied l v) (l_start l)) = 0"
proof -
  let ?v1 = "copies (install_pairs l 0 (lh_count l)) v"
  let ?h0 = "head_put 0 (lh_block l) (cv ?v1 (l_start l))"
  let ?T = "install_trace l (cd v) @ [(ROOTDEV, l_start l, ?h0)]"
  note t = install_trace_copies [OF lh fun_cong [OF cl]]
  have e: "ctrace (emptied l v) = ctrace v @ ?T" "cd (emptied l v) = replay ?T (cd v)"
    by (simp_all add: emptied_def t replay_append)
  have h0: "head_n ?h0 = 0" by (simp add: head_n_put)
  then have hn: "head_n (cd (emptied l v) (l_start l)) = 0" unfolding e(2) by (simp add: replay_append)
  have c: "logical (l_start l) (replay (take k ?T) (cd v)) b = logical (l_start l) (cd v) b" if "b \<in> home l" for b k
    by (rule install_crash [OF lh hd h0 that])
  have "cd (emptied l v) b = logical (l_start l) (cd v) b" if "b \<in> home l" for b
    using c [OF that, of "length ?T"] logical_empty [of "cd (emptied l v)" "l_start l"] hn e(2) by simp
  with e hn c show ?thesis by blast
qed

text \<open>The log the machine finds on its disk.\<close>

definition boot_log :: "dsk \<Rightarrow> logst \<Rightarrow> logst" where
  "boot_log d l = l\<lparr>l_start := sb_logstart (sb_of (d 1)), l_size := sb_nlog (sb_of (d 1)), l_dev := ROOTDEV\<rparr>"

lemma boot_log_sel [simp]: "l_start (boot_log d l) = sb_logstart (sb_of (d 1))"
  "l_size (boot_log d l) = sb_nlog (sb_of (d 1))" "l_dev (boot_log d l) = ROOTDEV"
  by (simp_all add: boot_log_def)

lemma recover_from_log_ok:
  assumes ok: "bio_ok t" and cl: "cdirty (bc t) = {}" and un: "clocked (bc t) = {}"
  defines "d \<equiv> disk t ROOTDEV"
  assumes hd: "hdr_ok (lg t) d" and dev: "l_dev (lg t) = ROOTDEV"
  shows "okP (recover_from_log t) (\<lambda>w. lh_n (lg w) = 0 \<and> head_n (disk w ROOTDEV (l_start (lg t))) = 0
     \<and> (\<forall>b \<in> home (lg t). disk w ROOTDEV b = logical (l_start (lg t)) d b \<and> blk w b = logical (l_start (lg t)) d b)
     \<and> (\<exists>T. wtrace w = wtrace t @ T \<and> disk w ROOTDEV = replay T d
          \<and> (\<forall>k. \<forall>b \<in> home (lg t). logical (l_start (lg t)) (replay (take k T) d) b = logical (l_start (lg t)) d b)))"
    (is "okP _ ?Q")
proof -
  have room: "has_room 1 (bc t)" "has_room 2 (bc t)" using cl un by (simp_all add: has_room_def NBUF_def)
  have bd: "blk t = d" unfolding d_def by (rule blk_clean_all [OF ok cl un])
  let ?h = "d (l_start (lg t))"
  let ?l = "(lg t)\<lparr>lh_n := head_n ?h, lh_block := (\<lambda>i. if i < nat (head_n ?h) then head_block ?h i else lh_block (lg t) i)\<rparr>"
  have lh: "lh_ok ?l"
    using hd lh_ok_cong [of "head_n ?h" "\<lambda>i. if i < nat (head_n ?h) then head_block ?h i else lh_block (lg t) i" "head_block ?h" "lg t"]
    by (simp add: hdr_ok_def)
  have st: "l_start (lg t) < FSSIZE" using lh by (simp add: lh_ok_def)
  have "okP (read_head t) (\<lambda>s'. bio_ok s' \<and> bc s' = bc t \<and> lsame t s' \<and> lg s' = ?l)"
    by (rule read_head_ok [OF ok dev st _ room(1), unfolded bd]) (simp add: un)
  then show ?thesis
    unfolding recover_from_log_def okP_bindr [of "read_head t"]
  proof (rule okP_mono, elim conjE)
    fix u assume u: "bio_ok u" "bc u = bc t" "lsame t u" "lg u = ?l"
    have hl: "home ?l = home (lg t)" by (simp add: home_def log_area_def)
    have bt: "cd (bc t) = d" "cv (bc t) = d" "ctrace (bc t) = wtrace t" using bd by (simp_all add: d_def)
    then have hdi: "head_is ?l (cd (bc t))" and cvd: "cv (bc t) = cd (bc t)" by (simp_all add: head_is_def)
    obtain T where T: "ctrace (emptied ?l (bc t)) = ctrace (bc t) @ T" "cd (emptied ?l (bc t)) = replay T d"
      "\<And>b. b \<in> home (lg t) \<Longrightarrow> cd (emptied ?l (bc t)) b = logical (l_start (lg t)) d b"
      "\<And>b k. b \<in> home (lg t) \<Longrightarrow> logical (l_start (lg t)) (replay (take k T) d) b = logical (l_start (lg t)) d b"
      "head_n (cd (emptied ?l (bc t)) (l_start (lg t))) = 0"
      using emptied_trace [OF lh hdi cvd] unfolding hl bt by auto
    have I: "okP (bindr (install_trans u) (\<lambda>s. write_head (upd_lg (\<lambda>l. l\<lparr>lh_n := 0\<rparr>) s)))
      (\<lambda>s'. bio_ok s' \<and> bc s' = emptied ?l (bc t) \<and> lg s' = ?l\<lparr>lh_n := 0\<rparr> \<and> lsame u s')"
      using install_empty_ok [OF u(1)] lh un room(2) unfolding u(4) u(2) by blast
    show "okP (bindr (install_trans u) (\<lambda>s. write_head (upd_lg (\<lambda>l. l\<lparr>lh_n := 0\<rparr>) s))) ?Q"
    proof (rule okP_mono [OF I], elim conjE, intro conjI)
      fix w assume w: "bio_ok w" "bc w = emptied ?l (bc t)" "lg w = ?l\<lparr>lh_n := 0\<rparr>"
      have "cdirty (bc w) = {}" "clocked (bc w) = {}"
        using cl un copies_sel(3) [OF log_pairs_props(3,4) [OF lh], of "bc t"]
        by (simp_all add: w(2) emptied_def)
      then have bw: "blk w = disk w ROOTDEV" by (rule blk_clean_all [OF w(1)])
      show "lh_n (lg w) = 0" by (simp add: w(3))
      show "head_n (disk w ROOTDEV (l_start (lg t))) = 0" using T(5) bcD(2) [OF w(2)] by simp
      show "\<forall>b \<in> home (lg t). disk w ROOTDEV b = logical (l_start (lg t)) d b \<and> blk w b = logical (l_start (lg t)) d b"
        using T(3) bcD(2) [OF w(2)] by (simp add: bw)
      show "\<exists>T. wtrace w = wtrace t @ T \<and> disk w ROOTDEV = replay T d
        \<and> (\<forall>k. \<forall>b \<in> home (lg t). logical (l_start (lg t)) (replay (take k T) d) b = logical (l_start (lg t)) d b)"
        using T(1,2,4) bcD(2,3) [OF w(2)] bt(3) by auto
    qed
  qed
qed

text \<open>
  C2: Recovery. On any disk with a well-formed log header, \<open>initlog\<close> returns, without a panic and
  without blocking, with the committed transaction installed in its home blocks and the log
  empty; and if the machine crashes again during recovery, at any sector write, the content the
  next recovery will produce is still the same.
\<close>

theorem initlog_recovers:
  assumes ok: "bio_ok s" and cl: "cdirty (bc s) = {}" and un: "clocked (bc s) = {}"
  defines "d \<equiv> disk s ROOTDEV"
  defines "l \<equiv> boot_log d (lg s)"
  assumes hd: "hdr_ok l d"
  shows "okP (initlog ROOTDEV s) (\<lambda>s'. lh_n (lg s') = 0 \<and> head_n (disk s' ROOTDEV (l_start l)) = 0
     \<and> (\<forall>b \<in> home l. disk s' ROOTDEV b = logical (l_start l) d b \<and> blk s' b = logical (l_start l) d b)
     \<and> (\<exists>T. wtrace s' = wtrace s @ T \<and> disk s' ROOTDEV = replay T d
          \<and> (\<forall>k. \<forall>b \<in> home l. logical (l_start l) (replay (take k T) d) b = logical (l_start l) d b)))"
    (is "okP _ ?Q")
proof -
  have room: "has_room 1 (bc s)" using cl un by (simp add: has_room_def NBUF_def)
  have bd: "blk s = d" unfolding d_def by (rule blk_clean_all [OF ok cl un])
  have "okP (readsb ROOTDEV s) (\<lambda>(sb, t). okP (recover_from_log
      (upd_lg (\<lambda>l. l\<lparr>l_start := sb_logstart sb, l_size := sb_nlog sb, l_dev := ROOTDEV\<rparr>) t)) ?Q)"
  proof (rule okP_mono [OF readsb_ok [OF ok un room]], unfold split_paired_all case_prod_conv, elim conjE)
    fix sb t assume t: "sb = sb_of (blk s 1)" "bio_ok t" "bc t = bc s" "bsame s t"
    let ?t = "upd_lg (\<lambda>l. l\<lparr>l_start := sb_logstart sb, l_size := sb_nlog sb, l_dev := ROOTDEV\<rparr>) t"
    have lt: "lg ?t = l" using bsame_lg(1) [OF t(4)] by (simp add: l_def boot_log_def t(1) bd)
    have bt: "bc ?t = bc s" "disk ?t ROOTDEV = d" "wtrace ?t = wtrace s"
      using t(3) bcD(2,3) [OF t(3)] by (simp_all add: d_def)
    show "okP (recover_from_log ?t) ?Q"
      using recover_from_log_ok [of ?t] t(2) cl un hd unfolding lt bt by (simp add: l_def boot_log_def)
  qed
  moreover have "\<not> BSIZE \<le> 4 * (1 + LOGSIZE)" by (simp add: BSIZE_def LOGSIZE_def)
  ultimately show ?thesis by (simp add: initlog_def case_prod_unfold)
qed

text \<open>A machine just booted from a disk: zeroed data, \<open>binit\<close> done.\<close>

definition log_boot :: "(nat \<Rightarrow> dsk) \<Rightarrow> logst \<Rightarrow> logk" where
  "log_boot d l = binit (bio.extend (bio_boot 8388608 d) (logk.fields l))"

lemma log_boot_ok: "bio_ok (log_boot d l)" "cdirty (bc (log_boot d l)) = {}" "clocked (bc (log_boot d l)) = {}"
  "disk (log_boot d l) = d" "wtrace (log_boot d l) = []" "lg (log_boot d l) = l"
proof -
  let ?s = "bio.extend (bio_boot 8388608 d) (logk.fields l)"
  have s: "bufs ?s = (\<lambda>_. zero_buf)" "held ?s = {}" "idequeue ?s = []" "ide_status ?s = 64" "havedisk1 ?s"
    "disk ?s = d" "wtrace ?s = []" "lg ?s = l"
    by (simp_all add: bio.extend_def logk.fields_def bio_boot_def ksys.extend_def bio.fields_def boot_state_def)
  show "bio_ok (log_boot d l)" "cdirty (bc (log_boot d l)) = {}" "clocked (bc (log_boot d l)) = {}"
    using binit_ok [of ?s] s by (simp_all add: log_boot_def io_ready_def)
  show "disk (log_boot d l) = d" "wtrace (log_boot d l) = []" using s by (simp_all add: log_boot_def)
  show "lg (log_boot d l) = l" using s(8) by (simp add: log_boot_def binit_def)
qed

definition demo_log :: logst where
  "demo_log = \<lparr>l_start = 2, l_size = 30, l_outstanding = 1, l_committing = False, l_dev = ROOTDEV, lh_n = 1,
     lh_block = (\<lambda>i. if i = 0 then 100 else 0)\<rparr>"

text \<open>A disk whose superblock puts a log of 30 blocks at block 2, with one transaction in it.\<close>

definition demo_disk :: "int \<Rightarrow> nat \<Rightarrow> dsk" where
  "demo_disk n dev = (\<lambda>b. if b = 1 then wr32 (wr32 (\<lambda>_. 0) 12 30) 16 2
     else if b = 2 then head_put n (\<lambda>_. 100) (\<lambda>_. 0) else if b = 3 then (\<lambda>_. 7) else (\<lambda>_. 0))"

lemma demo_disk_sel: "sb_logstart (sb_of (demo_disk n dev (Suc 0))) = 2" "sb_nlog (sb_of (demo_disk n dev (Suc 0))) = 30"
  "demo_disk n dev 2 = head_put n (\<lambda>_. 100) (\<lambda>_. 0)"
  by (simp_all add: demo_disk_def sb_of_def)

lemma demo_hdr: "hdr_ok (boot_log (demo_disk 1 dev) l) (demo_disk 1 dev)"
proof -
  have "head_n (demo_disk 1 dev 2) = 1" "head_block (demo_disk 1 dev 2) 0 = 100"
    unfolding demo_disk_sel(3) by (simp_all add: head_n_put head_block_put)
  then show ?thesis
    by (auto simp: hdr_ok_def lh_ok_def demo_disk_sel LOGSIZE_def FSSIZE_def home_def log_area_def lessThan_Suc)
qed

theorem initlog_recovers_witness:
  "okP (initlog ROOTDEV (log_boot (demo_disk 1) demo_log)) (\<lambda>s'. disk s' ROOTDEV 100 = (\<lambda>_. 7) \<and> lh_n (lg s') = 0)"
proof -
  let ?s = "log_boot (demo_disk 1) demo_log" let ?d = "demo_disk 1 ROOTDEV"
  let ?l = "boot_log ?d demo_log"
  have d: "disk ?s ROOTDEV = ?d" "lg ?s = demo_log" by (simp_all add: log_boot_ok)
  have h: "head_n (?d 2) = 1" "head_block (?d 2) 0 = 100"
    unfolding demo_disk_sel(3) by (simp_all add: head_n_put head_block_put)
  have i: "first_idx 1 (\<lambda>i. head_block (?d 2) i = 100) = Some 0" using h by (simp add: first_idx_Some)
  have "logical 2 ?d 100 = (\<lambda>_. 7)"
    using i by (simp add: logical_def h) (simp add: demo_disk_def)
  moreover have "100 \<in> home ?l" by (simp add: home_def log_area_def demo_disk_sel FSSIZE_def)
  ultimately show ?thesis
    using initlog_recovers [OF log_boot_ok(1-3), of "demo_disk 1" demo_log] demo_hdr
    unfolding d by (auto simp: demo_disk_sel elim!: okP_mono)
qed

text \<open>
  C1: A file system call is atomic with respect to crashes. Let the last operation of a
  transaction end with \<open>end_op\<close>, let the machine stop after any number \<open>k\<close> of the sector writes this
  causes, and let it boot from the disk as it then is. Recovery returns, and every block outside
  the log has either its content from before the transaction or the content the transaction gave
  it, the same choice for all blocks; after all writes it is the new content.
\<close>

theorem transaction_crash_atomic:
  assumes "bio_ok s" and "log_inv s" and "clocked (bc s) = {}" and "l_outstanding (lg s) = 1"
    and "lh_n (lg s) + 2 \<le> int NBUF"
    and ret: "end_op s = Ok s'" and T: "wtrace s' = wtrace s @ T"
    and boot: "bio_ok r" "cdirty (bc r) = {}" "clocked (bc r) = {}"
    and dsk: "disk r ROOTDEV = replay (take k T) (disk s ROOTDEV)"
    and sb: "sb_logstart (sb_of (disk r ROOTDEV 1)) = l_start (lg s)"
      "sb_nlog (sb_of (disk r ROOTDEV 1)) = l_size (lg s)"
  shows "okP (initlog ROOTDEV r) (\<lambda>r'.
      (k < length T \<and> (\<forall>b \<in> home (lg s). blk r' b = disk s ROOTDEV b))
      \<or> (\<forall>b \<in> home (lg s). blk r' b = blk s b))"
proof -
  let ?d = "disk r ROOTDEV" and ?l = "lg s"
  let ?b = "boot_log ?d (lg r)"
  obtain T' where "wtrace s' = wtrace s @ T'" "crash_ok ?l (disk s ROOTDEV) (blk s) T'"
    using end_op_commits [OF assms(1-5)] ret by auto
  then have c: "crash_ok ?l (disk s ROOTDEV) (blk s) T" using T by simp
  have dev: "l_dev ?l = ROOTDEV" using assms(2) by (simp add: log_inv_def lh_ok_def)
  have hm: "home ?b = home ?l" using sb by (simp add: home_def log_area_def)
  have "hdr_ok ?l ?d" using c by (simp add: crash_ok_def dsk)
  then have hd: "hdr_ok ?b ?d" using hdr_ok_cong [of ?l ?b] sb dev by simp
  have "(k < length T \<and> (\<forall>b \<in> home ?l. logical (l_start ?l) ?d b = disk s ROOTDEV b))
      \<or> (\<forall>b \<in> home ?l. logical (l_start ?l) ?d b = blk s b)"
  proof (cases "k < length T")
    case True
    with c show ?thesis by (auto simp: crash_ok_def dsk)
  next
    case False
    then have "?d = replay T (disk s ROOTDEV)" by (simp add: dsk)
    with c show ?thesis by (simp add: crash_ok_def logical_empty)
  qed
  note alt = this
  have st: "l_start ?b = l_start ?l" using sb by simp
  show ?thesis
  proof (rule okP_mono [OF initlog_recovers [OF boot hd]], unfold hm st, elim conjE)
    fix r' assume "\<forall>b \<in> home ?l. disk r' ROOTDEV b = logical (l_start ?l) ?d b \<and> blk r' b = logical (l_start ?l) ?d b"
    then have "\<forall>b \<in> home ?l. blk r' b = logical (l_start ?l) ?d b" by blast
    with alt show "(k < length T \<and> (\<forall>b \<in> home ?l. blk r' b = disk s ROOTDEV b)) \<or> (\<forall>b \<in> home ?l. blk r' b = blk s b)"
      by simp
  qed
qed

text \<open>A machine in the middle of an operation that has logged block 100 with new content.\<close>

definition demo_txn :: logk where
  "demo_txn = (log_boot (demo_disk 0) demo_log)\<lparr>bufs := (\<lambda>b. if b = 0 then
     \<lparr>b_valid = True, b_dirty = True, b_dev = ROOTDEV, b_blockno = 100, b_lock = initsleeplock ''buffer'',
      b_refcnt = 0, b_data = (\<lambda>_. 9)\<rparr> else zero_buf)\<rparr>"

lemma demo_txn_sel [simp]: "lg demo_txn = demo_log" "disk demo_txn = demo_disk 0" "wtrace demo_txn = []"
  "held demo_txn = {}" "lru demo_txn = rev [0..<NBUF]" "io_ready demo_txn"
  using log_boot_ok [of "demo_disk 0" demo_log]
  by (simp_all add: demo_txn_def log_boot_def bio_ok_def io_ready_def)

lemma demo_txn_ok: "bio_ok demo_txn" "clocked (bc demo_txn) = {}" "log_inv demo_txn" "blk demo_txn 100 = (\<lambda>_. 9)"
proof -
  have c: "caches demo_txn n b \<longleftrightarrow> b = 0 \<and> n = 100" for n b
    by (auto simp: caches_def demo_txn_def zero_buf_def ROOTDEV_def)
  have l: "\<not> blocked demo_txn b" for b
    by (simp add: blocked_def demo_txn_def zero_buf_def initsleeplock_def)
  have b: "buf_inv demo_txn b" for b
    using l [of b] by (simp add: buf_inv_def) (simp add: demo_txn_def zero_buf_def)
  have i: "cache_inv demo_txn"
    using c b by (auto simp: cache_inv_def)
  then show "bio_ok demo_txn" by (simp add: bio_ok_def)
  show k: "clocked (bc demo_txn) = {}" using l by (simp add: bc_def)
  have "b_dirty (bufs demo_txn 0)" by (simp add: demo_txn_def)
  then have "cdirty (bc demo_txn) = {100}" using c by (auto simp: bc_def NBUF_def)
  moreover have "head_n (demo_disk 0 ROOTDEV 2) = 0" unfolding demo_disk_sel(3) by (simp add: head_n_put)
  ultimately show "log_inv demo_txn"
    using k by (auto simp: log_inv_def demo_log_def lh_ok_def LOGSIZE_def FSSIZE_def home_def log_area_def lessThan_Suc)
  have "find (\<lambda>b. caches demo_txn 100 b \<and> b_valid (bufs demo_txn b)) (lru demo_txn) = Some 0"
  proof (rule find_unique)
    show "caches demo_txn 100 0 \<and> b_valid (bufs demo_txn 0)" using c by (simp add: demo_txn_def)
  qed (use c in \<open>auto simp: NBUF_def\<close>)
  then show "blk demo_txn 100 = (\<lambda>_. 9)" by (simp add: blk_def) (simp add: demo_txn_def)
qed

text \<open>Rebooting it after the last write of its \<open>end_op\<close> brings the new content back.\<close>

theorem transaction_crash_atomic_witness:
  "\<exists>s' T. end_op demo_txn = Ok s' \<and> wtrace s' = T
     \<and> okP (initlog ROOTDEV (log_boot (\<lambda>_. replay T (demo_disk 0 ROOTDEV)) demo_log))
         (\<lambda>r'. blk r' 100 = (\<lambda>_. 9))"
proof -
  have n: "lh_n (lg demo_txn) + 2 \<le> int NBUF" "l_outstanding (lg demo_txn) = 1"
    by (simp_all add: demo_log_def NBUF_def)
  note pre = demo_txn_ok(1,3,2) n(2,1)
  from end_op_commits [OF pre] obtain s' T where e: "end_op demo_txn = Ok s'" "wtrace s' = T"
    and c: "crash_ok demo_log (demo_disk 0 ROOTDEV) (blk demo_txn) T"
    by (auto simp: okP_iff)
  let ?d = "replay T (demo_disk 0 ROOTDEV)" let ?r = "log_boot (\<lambda>_. ?d) demo_log"
  have h: "1 \<in> home demo_log" "100 \<in> home demo_log"
    by (simp_all add: home_def log_area_def demo_log_def FSSIZE_def)
  have "blk demo_txn 1 = demo_disk 0 ROOTDEV 1"
    using clean_abs [OF demo_txn_ok(1), of 1] demo_txn_ok(2,3) by (auto simp: log_inv_def demo_log_def lessThan_Suc)
  then have d1: "?d (Suc 0) = demo_disk 0 ROOTDEV (Suc 0)" using c h(1) by (simp add: crash_ok_def)
  have "okP (initlog ROOTDEV ?r) (\<lambda>r'. (length T < length T \<and> (\<forall>b \<in> home demo_log. blk r' b = demo_disk 0 ROOTDEV b))
      \<or> (\<forall>b \<in> home demo_log. blk r' b = blk demo_txn b))"
    using transaction_crash_atomic [OF pre e(1), of T ?r "length T"] log_boot_ok [of "\<lambda>_. ?d" demo_log] e(2)
    by (simp add: d1 demo_disk_sel) (simp add: demo_log_def)
  then have "okP (initlog ROOTDEV ?r) (\<lambda>r'. blk r' 100 = (\<lambda>_. 9))"
    by (rule okP_mono) (use h(2) demo_txn_ok(4) in auto)
  with e show ?thesis by blast
qed

end
