(* ===== verification/Txn.thy ===== *)
theory Txn
  imports LogSpec
begin

text \<open>
  The interface between the log and the file system: inside a transaction a block is read, changed
  and handed to \<open>log_write\<close>, and the file system sees only the current content of blocks. \<open>txn k j s\<close>
  says that the thread may still log \<open>k\<close> blocks and hold \<open>j\<close> more buffers.
\<close>

section \<open>log_write and begin_op\<close>

lemma log_slot_props:
  assumes "0 \<le> lh_n l"
  shows "log_slot l n \<le> lh_count l"
    and "log_slot l n < lh_count l \<Longrightarrow> lh_block l (log_slot l n) = n"
    and "log_slot l n = lh_count l \<longleftrightarrow> n \<notin> lh_block l ` {..<lh_count l}"
  by (auto simp: log_slot_def first_idx_None first_idx_Some split: option.splits)

definition logged :: "nat \<Rightarrow> logst \<Rightarrow> logst" where
  "logged n l = (if n \<in> lh_block l ` {..<lh_count l} then l
     else l\<lparr>lh_n := lh_n l + 1, lh_block := (lh_block l)(lh_count l := n)\<rparr>)"

lemma logged_sel [simp]:
  "l_start (logged n l) = l_start l" "l_size (logged n l) = l_size l" "l_dev (logged n l) = l_dev l"
  "l_outstanding (logged n l) = l_outstanding l" "l_committing (logged n l) = l_committing l"
  "home (logged n l) = home l" "log_area (logged n l) = log_area l"
  by (simp_all add: logged_def log_area_def)

lemma logged_n: "lh_n l \<le> lh_n (logged n l) \<and> lh_n (logged n l) \<le> lh_n l + 1"
  by (simp add: logged_def)

lemma logged_blocks:
  assumes "0 \<le> lh_n l"
  shows "lh_block (logged n l) ` {..<lh_count (logged n l)} = insert n (lh_block l ` {..<lh_count l})"
proof (cases "n \<in> lh_block l ` {..<lh_count l}")
  case False
  have "nat (lh_n l + 1) = Suc (lh_count l)" using assms by simp
  with False show ?thesis by (auto simp: logged_def lessThan_Suc)
qed (auto simp: logged_def)

lemma logged_ok:
  assumes "lh_ok l" and "n \<in> home l" and "lh_n l < int LOGSIZE" and "lh_n l < int (l_size l) - 1"
  shows "lh_ok (logged n l)"
proof (cases "n \<in> lh_block l ` {..<lh_count l}")
  case True
  then show ?thesis using assms by (simp add: logged_def)
next
  case False
  have s: "nat (lh_n l + 1) = Suc (lh_count l)" using assms by (simp add: lh_ok_def Suc_nat_eq_nat_zadd1 add.commute)
  have "inj_on ((lh_block l)(lh_count l := n)) {..<Suc (lh_count l)}"
    using assms(1) False by (auto simp: lh_ok_def inj_on_def lessThan_Suc)
  moreover have "((lh_block l)(lh_count l := n)) ` {..<Suc (lh_count l)} \<subseteq> home l"
    using assms(1,2) by (auto simp: lh_ok_def lessThan_Suc)
  ultimately show ?thesis using assms False by (simp add: logged_def lh_ok_def s)
qed

lemma log_write_eq:
  assumes h: "held s = {}" and n0: "0 \<le> lh_n (lg s)"
    and r: "lh_n (lg s) < int LOGSIZE" "lh_n (lg s) < int (l_size (lg s)) - 1" and o1: "1 \<le> l_outstanding (lg s)"
  shows "log_write b s = Ok (upd_buf b (\<lambda>u. u\<lparr>b_dirty := True\<rparr>)
     (upd_lg (\<lambda>_. logged (b_blockno (bufs s b)) (lg s)) s))"
proof -
  let ?l = "lg s" let ?n = "b_blockno (bufs s b)" let ?i = "log_slot ?l ?n"
  note sl = log_slot_props [OF n0, of ?n]
  have l1: "(lh_block ?l)(?i := ?n) = lh_block ?l" if "?i < lh_count ?l"
    using sl(2) [OF that] by auto
  have e: "(if int ?i = lh_n ?l then ?l\<lparr>lh_block := (lh_block ?l)(?i := ?n), lh_n := lh_n ?l + 1\<rparr>
      else ?l\<lparr>lh_block := (lh_block ?l)(?i := ?n)\<rparr>) = logged ?n ?l"
  proof (cases "?i = lh_count ?l")
    case True
    then show ?thesis using sl(3) n0 by (simp add: logged_def)
  next
    case False
    with sl(1) have i: "?i < lh_count ?l" by simp
    with n0 have "int ?i \<noteq> lh_n ?l" by simp
    then show ?thesis using sl(3) False l1 [OF i] by (simp add: logged_def)
  qed
  have "log_write b s = Ok (upd_buf b (\<lambda>u. u\<lparr>b_dirty := True\<rparr>)
     (upd_lg (\<lambda>_. if int ?i = lh_n ?l then ?l\<lparr>lh_block := (lh_block ?l)(?i := ?n), lh_n := lh_n ?l + 1\<rparr>
      else ?l\<lparr>lh_block := (lh_block ?l)(?i := ?n)\<rparr>) s))"
    using h r o1 by (simp add: log_write_def Let_def upd_lg_def upd_buf_def)
  then show ?thesis unfolding e .
qed

section \<open>Being in a transaction\<close>

definition txn :: "nat \<Rightarrow> nat \<Rightarrow> 'a logk_scheme \<Rightarrow> bool" where
  "txn k j s \<longleftrightarrow> bio_ok s \<and> log_inv s \<and> 1 \<le> l_outstanding (lg s) \<and> finite (clocked (bc s))
     \<and> lh_n (lg s) + int (card (clocked (bc s)) + k + j) \<le> int NBUF
     \<and> lh_n (lg s) + int k < int (l_size (lg s))"

text \<open>A buffer that is held and whose block is logged or as on disk.\<close>

definition holds :: "'a logk_scheme \<Rightarrow> nat \<Rightarrow> nat \<Rightarrow> bool" where
  "holds s n b \<longleftrightarrow> buf_for s n b \<and> (n \<in> cdirty (bc s) \<or> blk s n = disk s ROOTDEV n)"

text \<open>What a step inside a transaction leaves alone.\<close>

definition tsame :: "'a logk_scheme \<Rightarrow> 'a logk_scheme \<Rightarrow> bool" where
  "tsame s s' \<longleftrightarrow> lsame s s' \<and> home (lg s') = home (lg s) \<and> l_outstanding (lg s') = l_outstanding (lg s)
     \<and> disk s' ROOTDEV = disk s ROOTDEV \<and> wtrace s' = wtrace s"

lemma tsame_refl [simp]: "tsame s s"
  by (simp add: tsame_def)

lemma tsame_trans: "tsame s t \<Longrightarrow> tsame t u \<Longrightarrow> tsame s u"
  unfolding tsame_def using lsame_trans by metis

lemma txn_less: "txn k j s \<Longrightarrow> k' \<le> k \<Longrightarrow> j' \<le> j \<Longrightarrow> txn k' j' s"
  by (simp add: txn_def)

lemma txn_held: "txn k j s \<Longrightarrow> held s = {}"
  by (simp add: txn_def bio_ok_def io_ready_def)

lemma tsame_bsame:
  assumes "bsame s s'" "disk s' ROOTDEV = disk s ROOTDEV" "wtrace s' = wtrace s"
  shows "tsame s s'"
  using assms bsame_lg(1) [OF assms(1)] lsame_bsame [OF assms(1)] by (simp add: tsame_def)

lemma log_inv_bc:
  "log_inv s \<Longrightarrow> lg s' = lg s \<Longrightarrow> cdirty (bc s') = cdirty (bc s) \<Longrightarrow> disk s' ROOTDEV = disk s ROOTDEV \<Longrightarrow>
     clocked (bc s') \<inter> log_area (lg s) = {} \<Longrightarrow> log_inv s'"
  by (simp add: log_inv_def)


lemma home_FSSIZE: "n \<in> home l \<Longrightarrow> n < FSSIZE" "n \<in> home l \<Longrightarrow> n \<notin> log_area l"
  by (simp_all add: home_def)

lemma txn_read:
  assumes t: "txn k (Suc j) s" and n: "n \<in> home (lg s)" and un: "n \<notin> clocked (bc s)"
  shows "okP (bread ROOTDEV n s) (\<lambda>(b, s'). txn k j s' \<and> holds s' n b
      \<and> clocked (bc s') = insert n (clocked (bc s)) \<and> blk s' = blk s
      \<and> (\<forall>m c. holds s m c \<longrightarrow> holds s' m c) \<and> tsame s s')"
proof -
  have t': "bio_ok s" "log_inv s" "finite (clocked (bc s))"
    "lh_n (lg s) + int (card (clocked (bc s)) + 1) \<le> int NBUF"
    using t by (simp_all add: txn_def)
  have room: "has_room 1 (bc s)" using log_inv_room [OF t'(2,3,4)] .
  show ?thesis
  proof (rule okP_mono [OF bread_abs [OF t'(1) home_FSSIZE(1) [OF n] un room]],
      unfold split_paired_all case_prod_conv, elim conjE, intro conjI)
    fix b s' assume s': "bio_ok s'" "buf_for s' n b" "bc s' = (bc s)\<lparr>clocked := insert n (clocked (bc s))\<rparr>"
      "bsame s s'" and pres: "\<forall>m c. buf_for s m c \<longrightarrow> buf_for s' m c"
    note l = bsame_lg(1) [OF s'(4)] and e = bcD [OF s'(3)]
    have li: "log_inv s'"
      by (rule log_inv_bc [OF t'(2) l])
        (use e t'(2) home_FSSIZE(2) [OF n] in \<open>auto simp: log_inv_def\<close>)
    show "txn k j s'" using t s'(1) li un by (simp add: txn_def l e(5))
    show "clocked (bc s') = insert n (clocked (bc s))" "blk s' = blk s" using e by simp_all
    have cl: "m \<in> cdirty (bc s) \<or> blk s m = disk s ROOTDEV m \<Longrightarrow> m \<in> cdirty (bc s') \<or> blk s' m = disk s' ROOTDEV m" for m
      using e by simp
    show "holds s' n b" using s'(2) cl [of n] clean_abs [OF t'(1) _ un] by (auto simp: holds_def)
    show "\<forall>m c. holds s m c \<longrightarrow> holds s' m c" using pres cl by (simp add: holds_def)
    show "tsame s s'" by (rule tsame_bsame [OF s'(4)]) (use e in simp_all)
  qed
qed

lemma txn_data: "txn k j s \<Longrightarrow> holds s n b \<Longrightarrow> b_data (bufs s b) = blk s n"
  by (simp add: txn_def holds_def bio_ok_def buf_for_data)

lemma txn_release:
  assumes t: "txn k j s" and h: "holds s n b"
  shows "okP (brelse b s) (\<lambda>s'. txn k (Suc j) s' \<and> clocked (bc s') = clocked (bc s) - {n} \<and> blk s' = blk s
      \<and> (\<forall>m c. holds s m c \<longrightarrow> m \<noteq> n \<longrightarrow> holds s' m c) \<and> tsame s s')"
proof -
  have t': "bio_ok s" "log_inv s" "buf_for s n b" "n \<in> cdirty (bc s) \<or> blk s n = disk s ROOTDEV n"
    using t h by (simp_all add: txn_def holds_def)
  show ?thesis
  proof (rule okP_mono [OF brelse_abs [OF t'(1,3,4)]], elim conjE, intro conjI)
    fix s' assume s': "bio_ok s'" "bc s' = (bc s)\<lparr>clocked := clocked (bc s) - {n}\<rparr>" "bsame s s'"
      and pres: "\<forall>m c. buf_for s m c \<longrightarrow> m \<noteq> n \<longrightarrow> buf_for s' m c"
    note l = bsame_lg(1) [OF s'(3)] and e = bcD [OF s'(2)]
    have li: "log_inv s'"
      by (rule log_inv_bc [OF t'(2) l]) (use e t'(2) in \<open>auto simp: log_inv_def\<close>)
    have nin: "n \<in> clocked (bc s)" using held_in [of s n b] t'(1,3) by (simp add: bio_ok_def)
    have "card (clocked (bc s)) = Suc (card (clocked (bc s) - {n}))"
      by (rule card.remove [OF _ nin]) (use t in \<open>simp add: txn_def\<close>)
    then show "txn k (Suc j) s'" using t s'(1) li by (simp add: txn_def l e(5))
    show "clocked (bc s') = clocked (bc s) - {n}" "blk s' = blk s" using e by simp_all
    show "\<forall>m c. holds s m c \<longrightarrow> m \<noteq> n \<longrightarrow> holds s' m c" using pres e by (simp add: holds_def)
    show "tsame s s'" by (rule tsame_bsame [OF s'(3)]) (use e in simp_all)
  qed
qed

text \<open>Changing a held block and logging it.\<close>

lemma txn_write:
  assumes t: "txn (Suc k) j s" and h: "holds s n b" and n: "n \<in> home (lg s)"
  shows "okP (log_write b (set_data b d s)) (\<lambda>s'. txn k j s' \<and> clocked (bc s') = clocked (bc s)
      \<and> blk s' = (blk s)(n := d) \<and> (\<forall>m c. holds s m c \<longrightarrow> holds s' m c) \<and> tsame s s')"
proof -
  have t': "bio_ok s" "log_inv s" "buf_for s n b" "1 \<le> l_outstanding (lg s)" "lh_ok (lg s)"
    using t h by (simp_all add: txn_def holds_def log_inv_def)
  have n0: "0 \<le> lh_n (lg s)" "lh_n (lg s) < int LOGSIZE" "lh_n (lg s) < int (l_size (lg s)) - 1"
    using t t'(5) by (simp_all add: txn_def lh_ok_def NBUF_def LOGSIZE_def)
  let ?p = "set_data b d s"
  note p = set_data_abs [OF t'(1,3), where d = d]
  have lp: "lg ?p = lg s" using bsame_lg(1) [OF p(5)] .
  have bn: "b_blockno (bufs ?p b) = n" using buf_forD(2) [OF p(2)] by (simp add: caches_def)
  let ?l = "logged n (lg s)"
  let ?q = "upd_lg (\<lambda>_. ?l) ?p"
  let ?r = "upd_buf b (\<lambda>u. u\<lparr>b_dirty := True\<rparr>) ?q"
  have "held ?p = {}" using p(1) by (simp add: bio_ok_def io_ready_def)
  then have e: "log_write b ?p = Ok ?r"
    using log_write_eq [of ?p b] n0 t'(4) by (simp only: lp bn)
  have q: "bio_ok ?q" "buf_for ?q n b" using p by simp_all
  note m = mark_dirty_abs [OF q]
  have br: "bc ?r = (bc s)\<lparr>cv := (blk s)(n := d), cdirty := insert n (cdirty (bc s))\<rparr>"
    unfolding m(2) by (simp add: p(3))
  note e2 = bcD [OF br]
  have lr: "lg ?r = ?l" using bsame_lg(1) [OF m(4)] by simp
  have ok: "lh_ok ?l" using logged_ok [OF t'(5) n n0(2,3)] .
  have li: "log_inv ?r"
    using t'(2) ok e2 logged_blocks [OF n0(1), of n] by (simp add: log_inv_def lr)
  have "txn k j ?r"
    using t m(1) li logged_n [of "lg s" n] by (simp add: txn_def lr e2(5))
  moreover have "holds ?r m' c" if "holds s m' c" for m' c
  proof -
    have "buf_for ?q m' c" using p(4) that by (simp add: holds_def)
    then show ?thesis using m(3) that e2 by (auto simp: holds_def)
  qed
  moreover have "tsame s ?r"
  proof -
    have "lsame s ?r" using lsame_trans [OF lsame_trans [OF lsame_bsame [OF p(5)] lsame_upd_lg] lsame_bsame [OF m(4)]] .
    then show ?thesis using e2(2,3) by (simp add: tsame_def lr)
  qed
  ultimately show ?thesis unfolding e using e2 by simp
qed

section \<open>The interface\<close>

text \<open>
  What file system code relies on. \<open>tx k j s\<close>: inside a transaction with \<open>k\<close> more writes and \<open>j\<close> more
  buffers allowed.
\<close>

locale block_txn =
  fixes tx :: "nat \<Rightarrow> nat \<Rightarrow> 's \<Rightarrow> bool" and own :: "'s \<Rightarrow> nat \<Rightarrow> nat \<Rightarrow> bool" and dom :: "'s \<Rightarrow> nat set"
    and lk :: "'s \<Rightarrow> nat set" and view :: "'s \<Rightarrow> nat \<Rightarrow> mem" and same :: "'s \<Rightarrow> 's \<Rightarrow> bool"
    and get :: "'s \<Rightarrow> nat \<Rightarrow> mem" and put :: "nat \<Rightarrow> mem \<Rightarrow> 's \<Rightarrow> 's"
    and rd :: "nat \<Rightarrow> 's \<Rightarrow> (nat \<times> 's) res" and lw :: "nat \<Rightarrow> 's \<Rightarrow> 's res" and rel :: "nat \<Rightarrow> 's \<Rightarrow> 's res"
  assumes reads: "tx k (Suc j) s \<Longrightarrow> n \<in> dom s \<Longrightarrow> n \<notin> lk s \<Longrightarrow>
      okP (rd n s) (\<lambda>(b, s'). tx k j s' \<and> own s' n b \<and> lk s' = insert n (lk s) \<and> view s' = view s
        \<and> (\<forall>m c. own s m c \<longrightarrow> own s' m c) \<and> same s s')"
    and data: "tx k j s \<Longrightarrow> own s n b \<Longrightarrow> get s b = view s n"
    and writes: "tx (Suc k) j s \<Longrightarrow> own s n b \<Longrightarrow> n \<in> dom s \<Longrightarrow>
      okP (lw b (put b d s)) (\<lambda>s'. tx k j s' \<and> lk s' = lk s \<and> view s' = (view s)(n := d)
        \<and> (\<forall>m c. own s m c \<longrightarrow> own s' m c) \<and> same s s')"
    and releases: "tx k j s \<Longrightarrow> own s n b \<Longrightarrow>
      okP (rel b s) (\<lambda>s'. tx k (Suc j) s' \<and> lk s' = lk s - {n} \<and> view s' = view s
        \<and> (\<forall>m c. own s m c \<longrightarrow> m \<noteq> n \<longrightarrow> own s' m c) \<and> same s s')"
    and same_refl: "same s s" and same_trans: "same s t \<Longrightarrow> same t u \<Longrightarrow> same s u"
    and same_dom: "same s t \<Longrightarrow> dom t = dom s"
begin

text \<open>Changing a block: read it, update it, log it, let it go.\<close>

lemma modify:
  assumes t: "tx (Suc k) (Suc j) s" and n: "n \<in> dom s" "n \<notin> lk s"
  shows "okP (rd n s) (\<lambda>(b, t). okP (lw b (put b (f (get t b)) t)) (\<lambda>t. okP (rel b t) (\<lambda>s'.
      tx k (Suc j) s' \<and> lk s' = lk s \<and> view s' = (view s)(n := f (view s n)) \<and> same s s'
      \<and> (\<forall>m c. own s m c \<longrightarrow> m \<noteq> n \<longrightarrow> own s' m c))))"
proof (rule okP_mono [OF reads [OF t n]], unfold split_paired_all case_prod_conv, elim conjE)
  fix b t1 assume t1: "tx (Suc k) j t1" "own t1 n b" "lk t1 = insert n (lk s)" "view t1 = view s" "same s t1"
    and o1: "\<forall>m c. own s m c \<longrightarrow> own t1 m c"
  have n1: "n \<in> dom t1" using same_dom [OF t1(5)] n by simp
  have g: "get t1 b = view s n" using data [OF t1(1,2)] t1(4) by simp
  show "okP (lw b (put b (f (get t1 b)) t1)) (\<lambda>t. okP (rel b t) (\<lambda>s'.
      tx k (Suc j) s' \<and> lk s' = lk s \<and> view s' = (view s)(n := f (view s n)) \<and> same s s'
      \<and> (\<forall>m c. own s m c \<longrightarrow> m \<noteq> n \<longrightarrow> own s' m c)))"
    unfolding g
  proof (rule okP_mono [OF writes [OF t1(1,2) n1]], elim conjE)
    fix t2 assume t2: "tx k j t2" "lk t2 = lk t1" "view t2 = (view t1)(n := f (view s n))" "same t1 t2"
      and o2: "\<forall>m c. own t1 m c \<longrightarrow> own t2 m c"
    show "okP (rel b t2) (\<lambda>s'. tx k (Suc j) s' \<and> lk s' = lk s \<and> view s' = (view s)(n := f (view s n)) \<and> same s s'
      \<and> (\<forall>m c. own s m c \<longrightarrow> m \<noteq> n \<longrightarrow> own s' m c))"
      by (rule okP_mono [OF releases [OF t2(1)]])
        (use o1 o2 t1 t2 n(2) same_trans [OF same_trans [OF t1(5) t2(4)]] in auto)
  qed
qed

text \<open>Looking at a block.\<close>

lemma look:
  assumes t: "tx k (Suc j) s" and n: "n \<in> dom s" "n \<notin> lk s"
  shows "okP (rd n s) (\<lambda>(b, t). get t b = view s n \<and> own t n b \<and> tx k j t \<and> lk t = insert n (lk s)
      \<and> view t = view s \<and> same s t \<and> (\<forall>m c. own s m c \<longrightarrow> own t m c)
      \<and> okP (rel b t) (\<lambda>s'. tx k (Suc j) s' \<and> lk s' = lk s \<and> view s' = view s \<and> same s s'
          \<and> (\<forall>m c. own s m c \<longrightarrow> m \<noteq> n \<longrightarrow> own s' m c)))"
proof (rule okP_mono [OF reads [OF t n]], unfold split_paired_all case_prod_conv, elim conjE)
  fix b t1 assume t1: "tx k j t1" "own t1 n b" "lk t1 = insert n (lk s)" "view t1 = view s" "same s t1"
    and o1: "\<forall>m c. own s m c \<longrightarrow> own t1 m c"
  have "okP (rel b t1) (\<lambda>s'. tx k (Suc j) s' \<and> lk s' = lk s \<and> view s' = view s \<and> same s s'
          \<and> (\<forall>m c. own s m c \<longrightarrow> m \<noteq> n \<longrightarrow> own s' m c))"
    by (rule okP_mono [OF releases [OF t1(1,2)]])
      (use o1 t1 n(2) same_trans [OF t1(5)] in auto)
  with t1 o1 data [OF t1(1,2)] show "get t1 b = view s n \<and> own t1 n b \<and> tx k j t1 \<and> lk t1 = insert n (lk s)
      \<and> view t1 = view s \<and> same s t1 \<and> (\<forall>m c. own s m c \<longrightarrow> own t1 m c)
      \<and> okP (rel b t1) (\<lambda>s'. tx k (Suc j) s' \<and> lk s' = lk s \<and> view s' = view s \<and> same s s'
          \<and> (\<forall>m c. own s m c \<longrightarrow> m \<noteq> n \<longrightarrow> own s' m c))" by simp
qed

text \<open>Deciding on the content of a block whether to change it.\<close>

lemma inspect:
  assumes t: "tx (Suc k) (Suc j) s" and n: "n \<in> dom s" "n \<notin> lk s"
  shows "okP (rd n s) (\<lambda>(b, t). get t b = view s n \<and> same s t \<and> view t = view s
      \<and> okP (rel b t) (\<lambda>s'. tx (Suc k) (Suc j) s' \<and> lk s' = lk s \<and> view s' = view s \<and> same s s'
          \<and> (\<forall>m c. own s m c \<longrightarrow> m \<noteq> n \<longrightarrow> own s' m c))
      \<and> (\<forall>d. okP (lw b (put b d t)) (\<lambda>u. okP (rel b u) (\<lambda>s'. tx k (Suc j) s' \<and> lk s' = lk s
          \<and> view s' = (view s)(n := d) \<and> same s s' \<and> (\<forall>m c. own s m c \<longrightarrow> m \<noteq> n \<longrightarrow> own s' m c)))))"
proof (rule okP_mono [OF look [OF t n]], unfold split_paired_all case_prod_conv, elim conjE, intro conjI allI)
  fix b t1 d
  assume t1: "get t1 b = view s n" "own t1 n b" "tx (Suc k) j t1" "lk t1 = insert n (lk s)" "view t1 = view s" "same s t1"
    and o1: "\<forall>m c. own s m c \<longrightarrow> own t1 m c"
  have n1: "n \<in> dom t1" using same_dom [OF t1(6)] n by simp
  show "okP (lw b (put b d t1)) (\<lambda>u. okP (rel b u) (\<lambda>s'. tx k (Suc j) s' \<and> lk s' = lk s
      \<and> view s' = (view s)(n := d) \<and> same s s' \<and> (\<forall>m c. own s m c \<longrightarrow> m \<noteq> n \<longrightarrow> own s' m c)))"
  proof (rule okP_mono [OF writes [OF t1(3,2) n1]], elim conjE)
    fix t2 assume t2: "tx k j t2" "lk t2 = lk t1" "view t2 = (view t1)(n := d)" "same t1 t2"
      and o2: "\<forall>m c. own t1 m c \<longrightarrow> own t2 m c"
    show "okP (rel b t2) (\<lambda>s'. tx k (Suc j) s' \<and> lk s' = lk s \<and> view s' = (view s)(n := d) \<and> same s s'
      \<and> (\<forall>m c. own s m c \<longrightarrow> m \<noteq> n \<longrightarrow> own s' m c))"
      by (rule okP_mono [OF releases [OF t2(1)]])
        (use o1 o2 t1 t2 n(2) same_trans [OF same_trans [OF t1(6) t2(4)]] in auto)
  qed
qed

end

interpretation ktxn: block_txn txn holds "\<lambda>s. home (lg s)" "\<lambda>s. clocked (bc s)" blk tsame
  "\<lambda>s b. b_data (bufs s b)" set_data "bread ROOTDEV" log_write brelse
proof (unfold_locales, goal_cases)
  case (1 k j s n) then show ?case by (rule txn_read)
next
  case (2 k j s n b) then show ?case by (rule txn_data)
next
  case (3 k j s n b d) then show ?case by (rule txn_write)
next
  case (4 k j s n b) then show ?case by (rule txn_release)
next
  case (5 s) show ?case by simp
next
  case (6 s t u) then show ?case by (rule tsame_trans)
next
  case (7 s t) then show ?case by (simp add: tsame_def)
qed

end
