(* ===== verification/Inode.thy ===== *)
theory Inode
  imports Txn
begin

text \<open>
  The block allocator and the inodes of \<open>fs.c\<close>: the free-block bitmap, the inode cache with its
  reference counts and locks, the block map and truncation. Reading and writing of content, which
  also serves devices, is in \<open>Fs\<close>.
\<close>

section \<open>State\<close>

definition NINODE :: nat where "NINODE = 50"
definition NDIRECT :: nat where "NDIRECT = 12"
definition NINDIRECT :: nat where "NINDIRECT = 128"
definition MAXFILE :: nat where "MAXFILE = NDIRECT + NINDIRECT"
definition IPB :: nat where "IPB = 8"
definition BPB :: nat where "BPB = 4096"
definition ROOTINO :: nat where "ROOTINO = 1"
definition T_DIR :: int where "T_DIR = 1"
definition T_FILE :: int where "T_FILE = 2"
definition T_DEV :: int where "T_DEV = 3"

lemmas [layout_simps] = NINODE_def NDIRECT_def NINDIRECT_def MAXFILE_def IPB_def BPB_def ROOTINO_def
  T_DIR_def T_FILE_def T_DEV_def

text \<open>\<open>struct inode\<close>; \<open>i_addrs\<close> is an array of \<open>NDIRECT + 1\<close> entries.\<close>

record inode =
  i_dev :: nat
  i_inum :: nat
  i_ref :: int
  i_lock :: sleeplock
  i_valid :: bool
  i_type :: int
  i_major :: int
  i_minor :: int
  i_nlink :: int
  i_size :: nat
  i_addrs :: "nat \<Rightarrow> nat"

record fsk = logk +
  sb :: superblock
  inodes :: "nat \<Rightarrow> inode"

definition upd_inode :: "nat \<Rightarrow> (inode \<Rightarrow> inode) \<Rightarrow> 'a fsk_scheme \<Rightarrow> 'a fsk_scheme" where
  "upd_inode i f s = s\<lparr>inodes := (inodes s)(i := f (inodes s i))\<rparr>"

definition IBLOCK :: "nat \<Rightarrow> superblock \<Rightarrow> nat" where
  "IBLOCK i q = i div IPB + sb_inodestart q"

definition BBLOCK :: "nat \<Rightarrow> superblock \<Rightarrow> nat" where
  "BBLOCK b q = b div BPB + sb_bmapstart q"

section \<open>Blocks\<close>

definition bzero :: "nat \<Rightarrow> nat \<Rightarrow> 'a logk_scheme \<Rightarrow> 'a logk_scheme res" where
  "bzero dev bno s =
     bindr (bread dev bno s) (\<lambda>(bp, s).
     bindr (log_write bp (set_data bp (fill 0 (b_data (bufs s bp)) 0 BSIZE) s)) (\<lambda>s.
     brelse bp s))"

text \<open>The bit of block \<open>bi\<close> in a bitmap block: \<open>data[bi/8] & (1 << (bi % 8))\<close>.\<close>

definition bit_used :: "mem \<Rightarrow> nat \<Rightarrow> bool" where
  "bit_used m bi \<longleftrightarrow> m (bi div 8) AND push_bit (bi mod 8) 1 \<noteq> 0"

definition set_used :: "nat \<Rightarrow> mem \<Rightarrow> mem" where
  "set_used bi m = m(bi div 8 := m (bi div 8) OR push_bit (bi mod 8) 1)"

definition clear_used :: "nat \<Rightarrow> mem \<Rightarrow> mem" where
  "clear_used bi m = m(bi div 8 := m (bi div 8) AND NOT (push_bit (bi mod 8) 1))"

text \<open>The outer loop of \<open>balloc\<close> from block \<open>b\<close>; \<open>k\<close> is the number of bitmap blocks left.\<close>

fun balloc_from :: "nat \<Rightarrow> nat \<Rightarrow> nat \<Rightarrow> 'a fsk_scheme \<Rightarrow> (nat \<times> 'a fsk_scheme) res" where
  "balloc_from 0 b dev s = Panic ''balloc: out of blocks''"
| "balloc_from (Suc k) b dev s =
     (if b < sb_size (sb s)
      then bindr (bread dev (BBLOCK b (sb s)) s) (\<lambda>(bp, s).
           case first_idx (min BPB (sb_size (sb s) - b)) (\<lambda>bi. \<not> bit_used (b_data (bufs s bp)) bi) of
             Some bi \<Rightarrow>
               bindr (log_write bp (set_data bp (set_used bi (b_data (bufs s bp))) s)) (\<lambda>s.
               bindr (brelse bp s) (\<lambda>s.
               bindr (bzero dev (b + bi) s) (\<lambda>s. Ok (b + bi, s))))
           | None \<Rightarrow> bindr (brelse bp s) (\<lambda>s. balloc_from k (b + BPB) dev s))
      else Panic ''balloc: out of blocks'')"

definition balloc :: "nat \<Rightarrow> 'a fsk_scheme \<Rightarrow> (nat \<times> 'a fsk_scheme) res" where
  "balloc dev s = balloc_from (sb_size (sb s) div BPB + 1) 0 dev s"

definition bfree :: "nat \<Rightarrow> nat \<Rightarrow> 'a fsk_scheme \<Rightarrow> 'a fsk_scheme res" where
  "bfree dev b s =
     bindr (readsb dev s) (\<lambda>(sbk, s).
     let s = s\<lparr>sb := sbk\<rparr>
     in bindr (bread dev (BBLOCK b (sb s)) s) (\<lambda>(bp, s).
        let bi = b mod BPB
        in if \<not> bit_used (b_data (bufs s bp)) bi then Panic ''freeing free block''
           else bindr (log_write bp (set_data bp (clear_used bi (b_data (bufs s bp))) s)) (\<lambda>s.
                brelse bp s)))"

section \<open>On-disk inodes\<close>

text \<open>\<open>struct dinode\<close> at byte \<open>64 * (inum % IPB)\<close> of its block.\<close>

definition dinode_off :: "nat \<Rightarrow> nat" where
  "dinode_off inum = 64 * (inum mod IPB)"

definition dinode_type :: "mem \<Rightarrow> nat \<Rightarrow> int" where
  "dinode_type m inum = s16 (rd16 m (dinode_off inum))"

definition load_dinode :: "mem \<Rightarrow> nat \<Rightarrow> inode \<Rightarrow> inode" where
  "load_dinode m inum ip = (let o1 = dinode_off inum in ip\<lparr>i_type := s16 (rd16 m o1),
     i_major := s16 (rd16 m (o1 + 2)), i_minor := s16 (rd16 m (o1 + 4)), i_nlink := s16 (rd16 m (o1 + 6)),
     i_size := rd32 m (o1 + 8),
     i_addrs := (\<lambda>k. if k \<le> NDIRECT then rd32 m (o1 + 12 + 4 * k) else i_addrs ip k)\<rparr>)"

definition put_addrs :: "nat \<Rightarrow> (nat \<Rightarrow> nat) \<Rightarrow> mem \<Rightarrow> mem" where
  "put_addrs a f m = fold (\<lambda>k m. wr32 m (a + 4 * k) (f k)) [0..<NDIRECT + 1] m"

definition store_dinode :: "inode \<Rightarrow> mem \<Rightarrow> mem" where
  "store_dinode ip m = (let o1 = dinode_off (i_inum ip);
     m = wr16 m o1 (u16_of (i_type ip));
     m = wr16 m (o1 + 2) (u16_of (i_major ip));
     m = wr16 m (o1 + 4) (u16_of (i_minor ip));
     m = wr16 m (o1 + 6) (u16_of (i_nlink ip));
     m = wr32 m (o1 + 8) (i_size ip)
     in put_addrs (o1 + 12) (i_addrs ip) m)"

section \<open>The inode cache\<close>

text \<open>\<open>iinit\<close>; its message on the console is left out.\<close>

definition iinit :: "nat \<Rightarrow> 'a fsk_scheme \<Rightarrow> 'a fsk_scheme res" where
  "iinit dev s =
     (let s = s\<lparr>inodes := (\<lambda>i. if i < NINODE then (inodes s i)\<lparr>i_lock := initsleeplock ''inode''\<rparr> else inodes s i)\<rparr>
      in bindr (readsb dev s) (\<lambda>(sbk, s). Ok (s\<lparr>sb := sbk\<rparr>)))"

definition iget :: "nat \<Rightarrow> nat \<Rightarrow> 'a fsk_scheme \<Rightarrow> (nat \<times> 'a fsk_scheme) res" where
  "iget dev inum s =
     bindr (acquire LIcache s) (\<lambda>s.
     case first_idx NINODE (\<lambda>i. 0 < i_ref (inodes s i) \<and> i_dev (inodes s i) = dev \<and> i_inum (inodes s i) = inum) of
       Some i \<Rightarrow>
         bindr (release LIcache (upd_inode i (\<lambda>ip. ip\<lparr>i_ref := i_ref ip + 1\<rparr>) s)) (\<lambda>s. Ok (i, s))
     | None \<Rightarrow>
         (case first_idx NINODE (\<lambda>i. i_ref (inodes s i) = 0) of
            None \<Rightarrow> Panic ''iget: no inodes''
          | Some i \<Rightarrow>
              bindr (release LIcache (upd_inode i (\<lambda>ip. ip\<lparr>i_dev := dev, i_inum := inum, i_ref := 1,
                 i_valid := False\<rparr>) s)) (\<lambda>s. Ok (i, s))))"

text \<open>The loop of \<open>ialloc\<close> from inode \<open>inum\<close>; \<open>k\<close> is the number of inodes left.\<close>

fun ialloc_from :: "nat \<Rightarrow> nat \<Rightarrow> nat \<Rightarrow> int \<Rightarrow> 'a fsk_scheme \<Rightarrow> (nat \<times> 'a fsk_scheme) res" where
  "ialloc_from 0 inum dev ty s = Panic ''ialloc: no inodes''"
| "ialloc_from (Suc k) inum dev ty s =
     bindr (bread dev (IBLOCK inum (sb s)) s) (\<lambda>(bp, s).
     let m = b_data (bufs s bp)
     in if dinode_type m inum = 0
        then bindr (log_write bp (set_data bp
               (wr16 (fill 0 m (dinode_off inum) 64) (dinode_off inum) (u16_of ty)) s)) (\<lambda>s.
             bindr (brelse bp s) (\<lambda>s.
             iget dev inum s))
        else bindr (brelse bp s) (\<lambda>s. ialloc_from k (inum + 1) dev ty s))"

definition ialloc :: "nat \<Rightarrow> int \<Rightarrow> 'a fsk_scheme \<Rightarrow> (nat \<times> 'a fsk_scheme) res" where
  "ialloc dev ty s = ialloc_from (sb_ninodes (sb s) - 1) 1 dev ty s"

definition iupdate :: "nat \<Rightarrow> 'a fsk_scheme \<Rightarrow> 'a fsk_scheme res" where
  "iupdate i s =
     bindr (bread (i_dev (inodes s i)) (IBLOCK (i_inum (inodes s i)) (sb s)) s) (\<lambda>(bp, s).
     bindr (log_write bp (set_data bp (store_dinode (inodes s i) (b_data (bufs s bp))) s)) (\<lambda>s.
     brelse bp s))"

definition idup :: "nat \<Rightarrow> 'a fsk_scheme \<Rightarrow> (nat \<times> 'a fsk_scheme) res" where
  "idup i s =
     bindr (acquire LIcache s) (\<lambda>s.
     bindr (release LIcache (upd_inode i (\<lambda>ip. ip\<lparr>i_ref := i_ref ip + 1\<rparr>) s)) (\<lambda>s.
     Ok (i, s)))"

text \<open>The pointer is not null in any call of the kernel, so the tests \<open>ip == 0\<close> have no counterpart.\<close>

definition ilock :: "nat \<Rightarrow> 'a fsk_scheme \<Rightarrow> 'a fsk_scheme res" where
  "ilock i s =
     (if i_ref (inodes s i) < 1 then Panic ''ilock''
      else
        bindr (acquiresleep (LInodeLock i) (ChInodeLock i) (i_lock (inodes s i)) s) (\<lambda>(lk, s).
        let s = upd_inode i (\<lambda>ip. ip\<lparr>i_lock := lk\<rparr>) s
        in if \<not> i_valid (inodes s i)
           then bindr (bread (i_dev (inodes s i)) (IBLOCK (i_inum (inodes s i)) (sb s)) s) (\<lambda>(bp, s).
                let m = b_data (bufs s bp);
                    s = upd_inode i (\<lambda>ip. load_dinode m (i_inum ip) ip) s
                in bindr (brelse bp s) (\<lambda>s.
                   let s = upd_inode i (\<lambda>ip. ip\<lparr>i_valid := True\<rparr>) s
                   in if i_type (inodes s i) = 0 then Panic ''ilock: no type'' else Ok s))
           else Ok s))"

definition iunlock :: "nat \<Rightarrow> 'a fsk_scheme \<Rightarrow> 'a fsk_scheme res" where
  "iunlock i s =
     bindr (holdingsleep (LInodeLock i) (i_lock (inodes s i)) s) (\<lambda>(h, s).
     if \<not> h \<or> i_ref (inodes s i) < 1 then Panic ''iunlock''
     else bindr (releasesleep (LInodeLock i) (ChInodeLock i) (i_lock (inodes s i)) s) (\<lambda>(lk, s).
          Ok (upd_inode i (\<lambda>ip. ip\<lparr>i_lock := lk\<rparr>) s)))"

section \<open>The block map\<close>

definition bmap :: "nat \<Rightarrow> nat \<Rightarrow> 'a fsk_scheme \<Rightarrow> (nat \<times> 'a fsk_scheme) res" where
  "bmap i bn s =
     (if bn < NDIRECT
      then if i_addrs (inodes s i) bn = 0
           then bindr (balloc (i_dev (inodes s i)) s) (\<lambda>(addr, s).
                Ok (addr, upd_inode i (\<lambda>ip. ip\<lparr>i_addrs := (i_addrs ip)(bn := addr)\<rparr>) s))
           else Ok (i_addrs (inodes s i) bn, s)
      else
        let bn = bn - NDIRECT
        in if bn < NINDIRECT
           then bindr (if i_addrs (inodes s i) NDIRECT = 0
                       then bindr (balloc (i_dev (inodes s i)) s) (\<lambda>(addr, s).
                            Ok (addr, upd_inode i (\<lambda>ip. ip\<lparr>i_addrs := (i_addrs ip)(NDIRECT := addr)\<rparr>) s))
                       else Ok (i_addrs (inodes s i) NDIRECT, s)) (\<lambda>(addr, s).
                bindr (bread (i_dev (inodes s i)) addr s) (\<lambda>(bp, s).
                bindr (if rd32 (b_data (bufs s bp)) (4 * bn) = 0
                       then bindr (balloc (i_dev (inodes s i)) s) (\<lambda>(addr, s).
                            bindr (log_write bp (set_data bp (wr32 (b_data (bufs s bp)) (4 * bn) addr) s)) (\<lambda>s.
                            Ok (addr, s)))
                       else Ok (rd32 (b_data (bufs s bp)) (4 * bn), s)) (\<lambda>(addr, s).
                bindr (brelse bp s) (\<lambda>s.
                Ok (addr, s)))))
           else Panic ''bmap: out of range'')"

text \<open>The two loops of \<open>itrunc\<close>.\<close>

fun itrunc_direct :: "nat \<Rightarrow> nat \<Rightarrow> nat \<Rightarrow> 'a fsk_scheme \<Rightarrow> 'a fsk_scheme res" where
  "itrunc_direct 0 k i s = Ok s"
| "itrunc_direct (Suc n) k i s =
     bindr (if i_addrs (inodes s i) k \<noteq> 0
            then bindr (bfree (i_dev (inodes s i)) (i_addrs (inodes s i) k) s) (\<lambda>s.
                 Ok (upd_inode i (\<lambda>ip. ip\<lparr>i_addrs := (i_addrs ip)(k := 0)\<rparr>) s))
            else Ok s) (\<lambda>s.
     itrunc_direct n (k + 1) i s)"

fun itrunc_indirect :: "nat \<Rightarrow> nat \<Rightarrow> nat \<Rightarrow> nat \<Rightarrow> 'a fsk_scheme \<Rightarrow> 'a fsk_scheme res" where
  "itrunc_indirect 0 j i bp s = Ok s"
| "itrunc_indirect (Suc n) j i bp s =
     bindr (if rd32 (b_data (bufs s bp)) (4 * j) \<noteq> 0
            then bfree (i_dev (inodes s i)) (rd32 (b_data (bufs s bp)) (4 * j)) s
            else Ok s) (\<lambda>s.
     itrunc_indirect n (j + 1) i bp s)"

definition itrunc :: "nat \<Rightarrow> 'a fsk_scheme \<Rightarrow> 'a fsk_scheme res" where
  "itrunc i s =
     bindr (itrunc_direct NDIRECT 0 i s) (\<lambda>s.
     bindr (if i_addrs (inodes s i) NDIRECT \<noteq> 0
            then bindr (bread (i_dev (inodes s i)) (i_addrs (inodes s i) NDIRECT) s) (\<lambda>(bp, s).
                 bindr (itrunc_indirect NINDIRECT 0 i bp s) (\<lambda>s.
                 bindr (brelse bp s) (\<lambda>s.
                 bindr (bfree (i_dev (inodes s i)) (i_addrs (inodes s i) NDIRECT) s) (\<lambda>s.
                 Ok (upd_inode i (\<lambda>ip. ip\<lparr>i_addrs := (i_addrs ip)(NDIRECT := 0)\<rparr>) s)))))
            else Ok s) (\<lambda>s.
     iupdate i (upd_inode i (\<lambda>ip. ip\<lparr>i_size := 0\<rparr>) s)))"

definition iput :: "nat \<Rightarrow> 'a fsk_scheme \<Rightarrow> 'a fsk_scheme res" where
  "iput i s =
     bindr (acquiresleep (LInodeLock i) (ChInodeLock i) (i_lock (inodes s i)) s) (\<lambda>(lk, s).
     let s = upd_inode i (\<lambda>ip. ip\<lparr>i_lock := lk\<rparr>) s
     in bindr (if i_valid (inodes s i) \<and> i_nlink (inodes s i) = 0
               then bindr (acquire LIcache s) (\<lambda>s.
                    let r = i_ref (inodes s i)
                    in bindr (release LIcache s) (\<lambda>s.
                       if r = 1
                       then bindr (itrunc i s) (\<lambda>s.
                            bindr (iupdate i (upd_inode i (\<lambda>ip. ip\<lparr>i_type := 0\<rparr>) s)) (\<lambda>s.
                            Ok (upd_inode i (\<lambda>ip. ip\<lparr>i_valid := False\<rparr>) s)))
                       else Ok s))
               else Ok s) (\<lambda>s.
        bindr (releasesleep (LInodeLock i) (ChInodeLock i) (i_lock (inodes s i)) s) (\<lambda>(lk, s).
        let s = upd_inode i (\<lambda>ip. ip\<lparr>i_lock := lk\<rparr>) s
        in bindr (acquire LIcache s) (\<lambda>s.
           release LIcache (upd_inode i (\<lambda>ip. ip\<lparr>i_ref := i_ref ip - 1\<rparr>) s)))))"

definition iunlockput :: "nat \<Rightarrow> 'a fsk_scheme \<Rightarrow> 'a fsk_scheme res" where
  "iunlockput i s = bindr (iunlock i s) (\<lambda>s. iput i s)"

text \<open>\<open>struct stat\<close>.\<close>

record stat =
  st_type :: int
  st_dev :: nat
  st_ino :: nat
  st_nlink :: int
  st_size :: nat

definition stati :: "nat \<Rightarrow> 'a fsk_scheme \<Rightarrow> stat" where
  "stati i s = (let ip = inodes s i in
     \<lparr>st_type = i_type ip, st_dev = i_dev ip, st_ino = i_inum ip, st_nlink = i_nlink ip, st_size = i_size ip\<rparr>)"

end
