(* ===== verification/Console.thy ===== *)
theory Console
  imports Inode
begin

text \<open>
  \<open>console.c\<close>, with \<open>uartputc\<close> of \<open>uart.c\<close> and \<open>procdump\<close> of \<open>proc.c\<close>: formatted output to the
  serial port and the CGA screen, and the line-editing input buffer. Characters are their codes.
\<close>

section \<open>State\<close>

definition INPUT_BUF :: nat where "INPUT_BUF = 128"
definition BACKSPACE :: nat where "BACKSPACE = 256"
definition NDEV :: nat where "NDEV = 10"
definition CONSOLE :: nat where "CONSOLE = 1"

lemmas [layout_simps] = INPUT_BUF_def BACKSPACE_def NDEV_def CONSOLE_def

text \<open>
  \<open>devsw m\<close>: the read and write functions of device \<open>m\<close> are set; only those of the console ever are.
  \<open>uart_out\<close>: the bytes sent to the serial port. \<open>crt\<close>: the cells of the screen; \<open>crtpos\<close>: the cursor
  position the controller holds.
\<close>

record consk = fsk +
  cons_locking :: bool
  panicked :: bool
  uart :: bool
  uart_out :: "nat list"
  crt :: "nat \<Rightarrow> nat"
  crtpos :: nat
  inp_buf :: "nat \<Rightarrow> byte"
  inp_r :: nat
  inp_w :: nat
  inp_e :: nat
  devsw :: "nat \<Rightarrow> bool"

definition chars :: "string \<Rightarrow> nat list" where
  "chars cs = map of_char cs"

section \<open>Output\<close>

definition uartputc :: "nat \<Rightarrow> 'a consk_scheme \<Rightarrow> 'a consk_scheme" where
  "uartputc c s = (if uart s then s\<lparr>uart_out := uart_out s @ [c mod 256]\<rparr> else s)"

definition cgaputc :: "nat \<Rightarrow> 'a consk_scheme \<Rightarrow> 'a consk_scheme res" where
  "cgaputc c s =
     (let pos = crtpos s;
          (pos, cells) = (if c = 10 then (pos + (80 - pos mod 80), crt s)
             else if c = BACKSPACE then (pos - 1, crt s)
             else (pos + 1, (crt s)(pos := c AND 255 OR 1792)))
      in if 25 * 80 < pos then Panic ''pos under/overflow''
         else
           let (pos, cells) = (if 24 \<le> pos div 80
                 then (pos - 80, \<lambda>i. if pos - 80 \<le> i \<and> i < 24 * 80 then 0
                         else if i < 23 * 80 then cells (i + 80) else cells i)
                 else (pos, cells))
           in Ok (s\<lparr>crt := cells(pos := 32 OR 1792), crtpos := pos\<rparr>))"

text \<open>After a panic every CPU that prints stops for ever.\<close>

definition consputc :: "nat \<Rightarrow> 'a consk_scheme \<Rightarrow> 'a consk_scheme res" where
  "consputc c s =
     (if panicked s then Spin
      else cgaputc c (if c = BACKSPACE then uartputc 8 (uartputc 32 (uartputc 8 s)) else uartputc c s))"

fun consputs :: "nat list \<Rightarrow> 'a consk_scheme \<Rightarrow> 'a consk_scheme res" where
  "consputs [] s = Ok s"
| "consputs (c # cs) s = bindr (consputc c s) (consputs cs)"

section \<open>Formatting\<close>

text \<open>
  \<open>printint\<close> as the list of characters it prints. The buffer is filled from the last digit, then
  printed backwards. \<open>int_digits\<close> is its \<open>do\<close> loop for a base of at least 2.
\<close>

definition digit_char :: "nat \<Rightarrow> nat" where
  "digit_char d = chars ''0123456789abcdef'' ! d"

function int_digits :: "nat \<Rightarrow> nat \<Rightarrow> nat list" where
  "int_digits b x = digit_char (x mod b) # (if x div b = 0 \<or> b < 2 then [] else int_digits b (x div b))"
  by auto
termination
  by (relation "measure snd") (auto intro!: div_less_dividend simp: div_greater_zero_iff)

definition printint :: "int \<Rightarrow> nat \<Rightarrow> bool \<Rightarrow> nat list" where
  "printint xx b sg =
     (let neg = sg \<and> xx < 0;
          x = (if neg then u32_of (- xx) else u32_of xx);
          buf = int_digits b x;
          buf = (if neg then buf @ [45] else buf)
      in rev buf)"

text \<open>The variable arguments: integers (of 32 bits), and strings, \<open>None\<close> being the null pointer.\<close>

datatype carg = CInt int | CStr "nat list option"

text \<open>
  What \<open>cprintf\<close> prints. An argument list that does not match the format is undefined in C and
  \<open>None\<close> here.
\<close>

fun cformat :: "nat list \<Rightarrow> carg list \<Rightarrow> nat list option" where
  "cformat [] as = Some []"
| "cformat (c # f) as =
     (if c \<noteq> 37 then map_option ((#) c) (cformat f as)
      else case f of
        [] \<Rightarrow> Some []
      | d # g \<Rightarrow>
          if d = 100 then (case as of CInt x # as \<Rightarrow> map_option ((@) (printint x 10 True)) (cformat g as) | _ \<Rightarrow> None)
          else if d = 120 \<or> d = 112
          then (case as of CInt x # as \<Rightarrow> map_option ((@) (printint x 16 False)) (cformat g as) | _ \<Rightarrow> None)
          else if d = 115
          then (case as of
                  CStr None # as \<Rightarrow> map_option ((@) (chars ''(null)'')) (cformat g as)
                | CStr (Some t) # as \<Rightarrow> map_option ((@) t) (cformat g as)
                | _ \<Rightarrow> None)
          else if d = 37 then map_option ((#) 37) (cformat g as)
          else map_option (\<lambda>r. 37 # d # r) (cformat g as))"

definition cprintf :: "nat list \<Rightarrow> carg list \<Rightarrow> 'a consk_scheme \<Rightarrow> 'a consk_scheme res" where
  "cprintf f as s =
     (let locking = cons_locking s
      in bindr (if locking then acquire LCons s else Ok s) (\<lambda>s.
         bindr (case cformat f as of Some out \<Rightarrow> consputs out s | None \<Rightarrow> Panic ''undefined'') (\<lambda>s.
         if locking then release LCons s else Ok s)))"

section \<open>procdump\<close>

fun state_name :: "procstate \<Rightarrow> string" where
  "state_name UNUSED = ''unused''"
| "state_name EMBRYO = ''embryo''"
| "state_name SLEEPING = ''sleep ''"
| "state_name RUNNABLE = ''runble''"
| "state_name RUNNING = ''run   ''"
| "state_name ZOMBIE = ''zombie''"

text \<open>The C string in a byte array.\<close>

definition c_chars :: "byte list \<Rightarrow> nat list" where
  "c_chars bs = map unat (takeWhile (\<lambda>b. b \<noteq> 0) bs)"

fun print_pcs :: "nat list \<Rightarrow> 'a consk_scheme \<Rightarrow> 'a consk_scheme res" where
  "print_pcs [] s = Ok s"
| "print_pcs (pc # pcs) s =
     (if pc = 0 then Ok s
      else bindr (cprintf (chars '' %p'') [CInt (s32 pc)] s) (print_pcs pcs))"

fun procdump_from :: "proc list \<Rightarrow> 'a consk_scheme \<Rightarrow> 'a consk_scheme res" where
  "procdump_from [] s = Ok s"
| "procdump_from (p # ps) s =
     (if p_state p = UNUSED then procdump_from ps s
      else
        bindr (cprintf (chars ''%d %s %s'')
           [CInt (p_pid p), CStr (Some (chars (state_name (p_state p)))), CStr (Some (c_chars (p_name p)))] s) (\<lambda>s.
        bindr (if p_state p = SLEEPING
               then print_pcs (getcallerpcs (\<lambda>a. ram s (V2P a)) (wrap32 (ctx_ebp (p_context p) + 8))) s
               else Ok s) (\<lambda>s.
        bindr (cprintf [10] [] s) (procdump_from ps))))"

definition procdump :: "'a consk_scheme \<Rightarrow> 'a consk_scheme res" where
  "procdump s = procdump_from (ptable s) s"

section \<open>Input\<close>

definition inp_at :: "nat \<Rightarrow> 'a consk_scheme \<Rightarrow> nat" where
  "inp_at i s = unat (inp_buf s (i mod INPUT_BUF))"

text \<open>Control-U: erase up to the start of the line; \<open>n\<close> bounds the characters between \<open>w\<close> and \<open>e\<close>.\<close>

fun kill_line :: "nat \<Rightarrow> 'a consk_scheme \<Rightarrow> 'a consk_scheme res" where
  "kill_line 0 s = Ok s"
| "kill_line (Suc n) s =
     (if inp_e s \<noteq> inp_w s \<and> inp_at (sub32 (inp_e s) 1) s \<noteq> 10
      then bindr (consputc BACKSPACE (s\<lparr>inp_e := sub32 (inp_e s) 1\<rparr>)) (kill_line n)
      else Ok s)"

text \<open>
  One character \<open>c\<close> of the loop of \<open>consoleintr\<close>; the flag says whether the process list is to be
  printed.
\<close>

definition console_char :: "nat \<Rightarrow> bool \<times> 'a consk_scheme \<Rightarrow> (bool \<times> 'a consk_scheme) res" where
  "console_char c = (\<lambda>(dump, s).
     if c = 16 then Ok (True, s)
     else if c = 21 then bindr (kill_line (sub32 (inp_e s) (inp_w s)) s) (\<lambda>s. Ok (dump, s))
     else if c = 8 \<or> c = 127
     then if inp_e s \<noteq> inp_w s
          then bindr (consputc BACKSPACE (s\<lparr>inp_e := sub32 (inp_e s) 1\<rparr>)) (\<lambda>s. Ok (dump, s))
          else Ok (dump, s)
     else if c \<noteq> 0 \<and> sub32 (inp_e s) (inp_r s) < INPUT_BUF
     then let c = (if c = 13 then 10 else c);
              s = s\<lparr>inp_buf := (inp_buf s)(inp_e s mod INPUT_BUF := of_nat c), inp_e := wrap32 (inp_e s + 1)\<rparr>
          in bindr (consputc c s) (\<lambda>s.
             if c = 10 \<or> c = 4 \<or> inp_e s = wrap32 (inp_r s + INPUT_BUF)
             then bindr (wakeup ChInput (s\<lparr>inp_w := inp_e s\<rparr>)) (\<lambda>s. Ok (dump, s))
             else Ok (dump, s))
     else Ok (dump, s))"

fun console_chars :: "nat list \<Rightarrow> bool \<times> 'a consk_scheme \<Rightarrow> (bool \<times> 'a consk_scheme) res" where
  "console_chars [] ds = Ok ds"
| "console_chars (c # cs) ds = bindr (console_char c ds) (console_chars cs)"

text \<open>\<open>cs\<close>: what \<open>getc\<close> returns until it returns a negative number.\<close>

definition consoleintr :: "nat list \<Rightarrow> 'a consk_scheme \<Rightarrow> 'a consk_scheme res" where
  "consoleintr cs s =
     bindr (acquire LCons s) (\<lambda>s.
     bindr (console_chars cs (False, s)) (\<lambda>(doprocdump, s).
     bindr (release LCons s) (\<lambda>s.
     if doprocdump then procdump s else Ok s)))"

section \<open>The console device\<close>

text \<open>
  The loop of \<open>consoleread\<close>: \<open>n\<close> characters are still wanted and \<open>acc\<close> have been read. The result is
  \<open>None\<close> when the process is killed while it waits.
\<close>

fun consread_loop :: "nat \<Rightarrow> byte list \<Rightarrow> 'a consk_scheme \<Rightarrow> (byte list option \<times> 'a consk_scheme) res" where
  "consread_loop 0 acc s = Ok (Some acc, s)"
| "consread_loop (Suc n) acc s =
     (if inp_r s = inp_w s
      then if p_killed (myproc s) then Ok (None, s) else Block ChInput
      else
        let c = inp_buf s (inp_r s mod INPUT_BUF);
            s = s\<lparr>inp_r := wrap32 (inp_r s + 1)\<rparr>
        in if unat c = 4
           then Ok (Some acc, if acc \<noteq> [] then s\<lparr>inp_r := sub32 (inp_r s) 1\<rparr> else s)
           else if unat c = 10 then Ok (Some (acc @ [c]), s)
           else consread_loop n (acc @ [c]) s)"

text \<open>\<open>readi\<close> passes its unsigned count on as an \<open>int\<close>.\<close>

definition consoleread :: "nat \<Rightarrow> nat \<Rightarrow> 'a consk_scheme \<Rightarrow> (int \<times> byte list \<times> 'a consk_scheme) res" where
  "consoleread i n s =
     bindr (iunlock i s) (\<lambda>s.
     bindr (acquire LCons s) (\<lambda>s.
     bindr (consread_loop (nat (s32 n)) [] s) (\<lambda>(r, s).
     bindr (release LCons s) (\<lambda>s.
     bindr (ilock i s) (\<lambda>s.
     case r of
       None \<Rightarrow> Ok (-1, [], s)
     | Some bs \<Rightarrow> Ok (int (length bs), bs, s))))))"

definition consolewrite :: "nat \<Rightarrow> byte list \<Rightarrow> 'a consk_scheme \<Rightarrow> (int \<times> 'a consk_scheme) res" where
  "consolewrite i bs s =
     bindr (iunlock i s) (\<lambda>s.
     bindr (acquire LCons s) (\<lambda>s.
     bindr (consputs (map unat bs) s) (\<lambda>s.
     bindr (release LCons s) (\<lambda>s.
     bindr (ilock i s) (\<lambda>s.
     Ok (int (length bs), s))))))"

text \<open>\<open>consoleinit\<close>; the interrupt routing of \<open>ioapicenable\<close> is left out.\<close>

definition consoleinit :: "'a consk_scheme \<Rightarrow> 'a consk_scheme" where
  "consoleinit s = s\<lparr>devsw := (devsw s)(CONSOLE := True), cons_locking := True\<rparr>"

end
