(* ===== verification/Fs.thy ===== *)
theory Fs
  imports Console
begin

text \<open>
  The upper half of \<open>fs.c\<close>: reading and writing the content of inodes, directories and path names.
  The bytes \<open>readi\<close> copies to its destination are part of its result, and the bytes \<open>writei\<close> reads
  from its source are an argument; the callers move them from and to memory.
\<close>

definition DIRSIZ :: nat where "DIRSIZ = 14"

lemmas [layout_simps] = DIRSIZ_def

text \<open>A local array that starts with the bytes \<open>bs\<close>.\<close>

definition arr :: "byte list \<Rightarrow> mem" where
  "arr bs = put_bytes bs (\<lambda>_. 0) 0"

section \<open>Content\<close>

text \<open>\<open>devsw[ip->major]\<close> has functions.\<close>

definition dev_ok :: "inode \<Rightarrow> 'a consk_scheme \<Rightarrow> bool" where
  "dev_ok ip s \<longleftrightarrow> 0 \<le> i_major ip \<and> i_major ip < int NDEV \<and> devsw s (nat (i_major ip))"

text \<open>
  The loops of \<open>readi\<close> and \<open>writei\<close> with \<open>r = n - tot\<close> bytes to go; the fuel \<open>k\<close> is at least \<open>r\<close>, since
  each turn moves at least one byte.
\<close>

fun readi_loop :: "nat \<Rightarrow> nat \<Rightarrow> nat \<Rightarrow> nat \<Rightarrow> 'a consk_scheme \<Rightarrow> (byte list \<times> 'a consk_scheme) res" where
  "readi_loop 0 i off r s = Ok ([], s)"
| "readi_loop (Suc k) i off r s =
     (if r = 0 then Ok ([], s)
      else
        bindr (bmap i (off div BSIZE) s) (\<lambda>(addr, s).
        bindr (bread (i_dev (inodes s i)) addr s) (\<lambda>(bp, s).
        let m = min r (BSIZE - off mod BSIZE);
            bs = bytes_at (b_data (bufs s bp)) (off mod BSIZE) m
        in bindr (brelse bp s) (\<lambda>s.
           bindr (readi_loop k i (off + m) (r - m) s) (\<lambda>(bs', s).
           Ok (bs @ bs', s))))))"

definition readi :: "nat \<Rightarrow> nat \<Rightarrow> nat \<Rightarrow> 'a consk_scheme \<Rightarrow> (int \<times> byte list \<times> 'a consk_scheme) res" where
  "readi i off n s =
     (let ip = inodes s i
      in if i_type ip = T_DEV
         then if \<not> dev_ok ip s then Ok (-1, [], s) else consoleread i n s
         else if i_size ip < off \<or> wrap32 (off + n) < off then Ok (-1, [], s)
         else
           let n = (if i_size ip < wrap32 (off + n) then i_size ip - off else n)
           in bindr (readi_loop n i off n s) (\<lambda>(bs, s). Ok (int n, bs, s)))"

fun writei_loop :: "nat \<Rightarrow> nat \<Rightarrow> nat \<Rightarrow> byte list \<Rightarrow> 'a consk_scheme \<Rightarrow> 'a consk_scheme res" where
  "writei_loop 0 i off src s = Ok s"
| "writei_loop (Suc k) i off src s =
     (if src = [] then Ok s
      else
        bindr (bmap i (off div BSIZE) s) (\<lambda>(addr, s).
        bindr (bread (i_dev (inodes s i)) addr s) (\<lambda>(bp, s).
        let m = min (length src) (BSIZE - off mod BSIZE)
        in bindr (log_write bp (set_data bp (put_bytes (take m src) (b_data (bufs s bp)) (off mod BSIZE)) s)) (\<lambda>s.
           bindr (brelse bp s) (\<lambda>s.
           writei_loop k i (off + m) (drop m src) s)))))"

definition writei :: "nat \<Rightarrow> byte list \<Rightarrow> nat \<Rightarrow> 'a consk_scheme \<Rightarrow> (int \<times> 'a consk_scheme) res" where
  "writei i src off s =
     (let ip = inodes s i; n = length src
      in if i_type ip = T_DEV
         then if \<not> dev_ok ip s then Ok (-1, s) else consolewrite i src s
         else if i_size ip < off \<or> wrap32 (off + n) < off then Ok (-1, s)
         else if MAXFILE * BSIZE < wrap32 (off + n) then Ok (-1, s)
         else
           bindr (writei_loop n i off src s) (\<lambda>s.
           let off = off + n
           in bindr (if 0 < n \<and> i_size (inodes s i) < off
                     then iupdate i (upd_inode i (\<lambda>ip. ip\<lparr>i_size := off\<rparr>) s)
                     else Ok s) (\<lambda>s.
              Ok (int n, s))))"

section \<open>Directories\<close>

definition namecmp :: "mem \<Rightarrow> nat \<Rightarrow> mem \<Rightarrow> nat \<Rightarrow> int" where
  "namecmp ms s mt t = strncmp ms s mt t DIRSIZ"

text \<open>
  \<open>struct dirent\<close>: \<open>inum\<close> at byte 0, \<open>name\<close> at byte 2; 16 bytes. \<open>k\<close> bounds the entries left in the
  scans of a directory.
\<close>

fun dirlookup_from :: "nat \<Rightarrow> nat \<Rightarrow> nat \<Rightarrow> mem \<Rightarrow> 'a consk_scheme \<Rightarrow>
    ((nat \<times> nat) option \<times> 'a consk_scheme) res" where
  "dirlookup_from 0 off i name s = Ok (None, s)"
| "dirlookup_from (Suc k) off i name s =
     (if off < i_size (inodes s i)
      then bindr (readi i off 16 s) (\<lambda>(r, bs, s).
           if r \<noteq> 16 then Panic ''dirlookup read''
           else
             let de = arr bs
             in if rd16 de 0 \<noteq> 0 \<and> namecmp name 0 de 2 = 0
                then bindr (iget (i_dev (inodes s i)) (rd16 de 0) s) (\<lambda>(ip, s). Ok (Some (ip, off), s))
                else dirlookup_from k (off + 16) i name s)
      else Ok (None, s))"

text \<open>The result is the inode and the offset of the entry (\<open>*poff\<close>).\<close>

definition dirlookup :: "nat \<Rightarrow> mem \<Rightarrow> 'a consk_scheme \<Rightarrow> ((nat \<times> nat) option \<times> 'a consk_scheme) res" where
  "dirlookup i name s =
     (if i_type (inodes s i) \<noteq> T_DIR then Panic ''dirlookup not DIR''
      else dirlookup_from (i_size (inodes s i) div 16 + 1) 0 i name s)"

text \<open>The scan for an empty entry: the offset it stops at and the entry read last.\<close>

fun dirlink_scan :: "nat \<Rightarrow> nat \<Rightarrow> nat \<Rightarrow> mem \<Rightarrow> 'a consk_scheme \<Rightarrow> (nat \<times> mem \<times> 'a consk_scheme) res" where
  "dirlink_scan 0 off i de s = Ok (off, de, s)"
| "dirlink_scan (Suc k) off i de s =
     (if off < i_size (inodes s i)
      then bindr (readi i off 16 s) (\<lambda>(r, bs, s).
           if r \<noteq> 16 then Panic ''dirlink read''
           else
             let de = arr bs
             in if rd16 de 0 = 0 then Ok (off, de, s) else dirlink_scan k (off + 16) i de s)
      else Ok (off, de, s))"

definition dirlink :: "nat \<Rightarrow> mem \<Rightarrow> nat \<Rightarrow> 'a consk_scheme \<Rightarrow> (int \<times> 'a consk_scheme) res" where
  "dirlink i name inum s =
     bindr (dirlookup i name s) (\<lambda>(r, s).
     case r of
       Some (ip, off) \<Rightarrow> bindr (iput ip s) (\<lambda>s. Ok (-1, s))
     | None \<Rightarrow>
         bindr (dirlink_scan (i_size (inodes s i) div 16 + 1) 0 i (\<lambda>_. 0) s) (\<lambda>(off, de, s).
         let de = strncpy de 2 name 0 (int DIRSIZ);
             de = wr16 de 0 inum
         in bindr (writei i (bytes_at de 0 16) off s) (\<lambda>(r, s).
            if r \<noteq> 16 then Panic ''dirlink'' else Ok (0, s))))"

section \<open>Paths\<close>

text \<open>
  A path is the list of its bytes up to the terminating zero; 47 is the slash. The result is the
  rest of the path and the array \<open>name\<close>.
\<close>

definition skipelem :: "byte list \<Rightarrow> mem \<Rightarrow> (byte list \<times> mem) option" where
  "skipelem path name =
     (let path = dropWhile (\<lambda>c. c = 47) path
      in if path = [] then None
         else
           let s = takeWhile (\<lambda>c. c \<noteq> 47) path;
               path = dropWhile (\<lambda>c. c \<noteq> 47) path;
               len = length s;
               name = (if DIRSIZ \<le> len then put_bytes (take DIRSIZ s) name 0
                       else (put_bytes s name 0)(len := 0))
           in Some (dropWhile (\<lambda>c. c = 47) path, name))"

text \<open>The loop of \<open>namex\<close>; every turn consumes a byte of the path, so its length bounds the turns.\<close>

fun namex_loop :: "nat \<Rightarrow> byte list \<Rightarrow> bool \<Rightarrow> mem \<Rightarrow> nat \<Rightarrow> 'a consk_scheme \<Rightarrow>
    (nat option \<times> mem \<times> 'a consk_scheme) res" where
  "namex_loop k path nameiparent name ip s =
     (case (skipelem path name, k) of
        (Some (path, name), Suc k) \<Rightarrow>
          bindr (ilock ip s) (\<lambda>s.
          if i_type (inodes s ip) \<noteq> T_DIR
          then bindr (iunlockput ip s) (\<lambda>s. Ok (None, name, s))
          else if nameiparent \<and> path = []
          then bindr (iunlock ip s) (\<lambda>s. Ok (Some ip, name, s))
          else
            bindr (dirlookup ip name s) (\<lambda>(r, s).
            case r of
              None \<Rightarrow> bindr (iunlockput ip s) (\<lambda>s. Ok (None, name, s))
            | Some (next_ip, off) \<Rightarrow>
                bindr (iunlockput ip s) (\<lambda>s. namex_loop k path nameiparent name next_ip s)))
      | _ \<Rightarrow>
          if nameiparent then bindr (iput ip s) (\<lambda>s. Ok (None, name, s)) else Ok (Some ip, name, s))"

definition namex :: "byte list \<Rightarrow> bool \<Rightarrow> mem \<Rightarrow> 'a consk_scheme \<Rightarrow> (nat option \<times> mem \<times> 'a consk_scheme) res" where
  "namex path nameiparent name s =
     bindr (if path \<noteq> [] \<and> hd path = 47 then iget ROOTDEV ROOTINO s else idup (the (p_cwd (myproc s))) s) (\<lambda>(ip, s).
     namex_loop (length path) path nameiparent name ip s)"

text \<open>The local array of \<open>namei\<close> is not initialised; \<open>skipelem\<close> writes it before it is read.\<close>

definition namei :: "byte list \<Rightarrow> 'a consk_scheme \<Rightarrow> (nat option \<times> 'a consk_scheme) res" where
  "namei path s = bindr (namex path False (\<lambda>_. 0) s) (\<lambda>(ip, name, s). Ok (ip, s))"

definition nameiparent :: "byte list \<Rightarrow> mem \<Rightarrow> 'a consk_scheme \<Rightarrow> (nat option \<times> mem \<times> 'a consk_scheme) res" where
  "nameiparent path name s = namex path True name s"

end
