(* ===== verification/Kalloc.thy ===== *)
theory Kalloc
  imports Kstate
begin

text \<open>
  \<open>kalloc.c\<close>: the physical page allocator. The free list is threaded through the free pages
  themselves; \<open>free_chain\<close> relates the head pointer and the memory to the list of free pages, and
  the operations are shown to be push and pop on that list. The interface the other components
  use is the locale \<open>page_pool\<close>.
\<close>

section \<open>Operations\<close>

definition PGROUNDUP :: "nat \<Rightarrow> nat" where
  "PGROUNDUP sz = wrap32 (sz + PGSIZE - 1) div PGSIZE * PGSIZE"

definition PGROUNDDOWN :: "nat \<Rightarrow> nat" where
  "PGROUNDDOWN a = a div PGSIZE * PGSIZE"

definition klock_if :: "bool \<Rightarrow> (klock \<Rightarrow> 'a ksys_scheme \<Rightarrow> 'a ksys_scheme res) \<Rightarrow>
    'a ksys_scheme \<Rightarrow> 'a ksys_scheme res" where
  "klock_if b f s = (if b then f LKmem s else Ok s)"

definition kfree :: "nat \<Rightarrow> 'a ksys_scheme \<Rightarrow> 'a ksys_scheme res" where
  "kfree v s =
     (if v mod PGSIZE \<noteq> 0 \<or> v < kend s \<or> PHYSTOP \<le> V2P v then Panic ''kfree''
      else
        bindr (klock_if (use_lock s) acquire (s\<lparr>ram := memset (V2P v) 1 PGSIZE (ram s)\<rparr>)) (\<lambda>s.
        let s = s\<lparr>ram := wr32 (ram s) (V2P v) (freelist s)\<rparr>;
            s = s\<lparr>freelist := v\<rparr>
        in klock_if (use_lock s) release s))"

definition kalloc :: "'a ksys_scheme \<Rightarrow> (nat \<times> 'a ksys_scheme) res" where
  "kalloc s =
     bindr (klock_if (use_lock s) acquire s) (\<lambda>s.
     let r = freelist s;
         s = (if r \<noteq> 0 then s\<lparr>freelist := rd32 (ram s) (V2P r)\<rparr> else s)
     in bindr (klock_if (use_lock s) release s) (\<lambda>s. Ok (r, s)))"

text \<open>The loop of \<open>freerange\<close> from the rounded start \<open>p\<close>.\<close>

function freerange_from :: "nat \<Rightarrow> nat \<Rightarrow> 'a ksys_scheme \<Rightarrow> 'a ksys_scheme res" where
  "freerange_from p vend s =
     (if p + PGSIZE \<le> vend
      then bindr (kfree p s) (\<lambda>s. freerange_from (p + PGSIZE) vend s)
      else Ok s)"
  by pat_completeness auto
termination
  by (relation "measure (\<lambda>(p, vend, s). Suc vend - p)") (auto simp: PGSIZE_def)

declare freerange_from.simps [simp del]

definition freerange :: "nat \<Rightarrow> nat \<Rightarrow> 'a ksys_scheme \<Rightarrow> 'a ksys_scheme res" where
  "freerange vstart vend s = freerange_from (PGROUNDUP vstart) vend s"

definition kinit1 :: "nat \<Rightarrow> nat \<Rightarrow> 'a ksys_scheme \<Rightarrow> 'a ksys_scheme res" where
  "kinit1 vstart vend s = freerange vstart vend (s\<lparr>use_lock := False\<rparr>)"

definition kinit2 :: "nat \<Rightarrow> nat \<Rightarrow> 'a ksys_scheme \<Rightarrow> 'a ksys_scheme res" where
  "kinit2 vstart vend s = bindr (freerange vstart vend s) (\<lambda>s. Ok (s\<lparr>use_lock := True\<rparr>))"

section \<open>The free list\<close>

definition page_ok :: "'a ksys_scheme \<Rightarrow> nat \<Rightarrow> bool" where
  "page_ok s v \<longleftrightarrow> v mod PGSIZE = 0 \<and> kend s \<le> v \<and> V2P v < PHYSTOP \<and> KERNBASE \<le> v \<and> v < u32_mod"

fun free_chain :: "mem \<Rightarrow> nat \<Rightarrow> nat list \<Rightarrow> bool" where
  "free_chain m r [] \<longleftrightarrow> r = 0"
| "free_chain m r (p # ps) \<longleftrightarrow> r = p \<and> free_chain m (rd32 m (V2P p)) ps"

definition free_pages :: "'a ksys_scheme \<Rightarrow> nat list \<Rightarrow> bool" where
  "free_pages s ps \<longleftrightarrow>
     free_chain (ram s) (freelist s) ps \<and> distinct ps \<and> (\<forall>p \<in> set ps. page_ok s p)"

lemma page_ok_upd [simp]:
  "page_ok (s\<lparr>ram := m\<rparr>) = page_ok s" "page_ok (s\<lparr>freelist := r\<rparr>) = page_ok s"
  "page_ok (s\<lparr>held := h\<rparr>) = page_ok s"
  by (simp_all add: page_ok_def fun_eq_iff)

lemma page_ok_cong: "kend s' = kend s \<Longrightarrow> page_ok s' = page_ok s"
  by (simp add: page_ok_def fun_eq_iff)

lemma page_ok_V2P: "page_ok s v \<Longrightarrow> V2P v = v - KERNBASE"
  by (simp add: page_ok_def V2P_def sub32_le layout_simps)

lemma page_ok_P2V: "page_ok s v \<Longrightarrow> P2V (V2P v) = v"
  by (simp add: page_ok_V2P P2V_def) (simp add: page_ok_def layout_simps)

lemma page_ok_pos: "page_ok s v \<Longrightarrow> 0 < v"
  by (simp add: page_ok_def layout_simps)

lemma pages_apart:
  assumes "v mod PGSIZE = 0" and "w mod PGSIZE = 0" and "(v :: nat) \<noteq> w"
  shows "v + PGSIZE \<le> w \<or> w + PGSIZE \<le> v"
proof -
  from assms obtain i j where ij: "v = PGSIZE * i" "w = PGSIZE * j" by (metis dvdE mod_eq_0_iff_dvd)
  with assms(3) have "i < j \<or> j < i" by (auto simp: nat_neq_iff)
  then have "PGSIZE * Suc i \<le> PGSIZE * j \<or> PGSIZE * Suc j \<le> PGSIZE * i"
    by (metis Suc_leI mult_le_mono2)
  with ij show ?thesis by auto
qed

lemma page_ok_aligned: "page_ok s v \<Longrightarrow> V2P v mod PGSIZE = 0"
proof -
  assume ok: "page_ok s v"
  then obtain i where "v = PGSIZE * i" by (auto simp: page_ok_def)
  then have "V2P v = PGSIZE * (i - 524288)"
    using page_ok_V2P [OF ok] by (simp add: layout_simps diff_mult_distrib2)
  then show ?thesis by simp
qed

lemma page_ok_apart:
  assumes "page_ok s v" and "page_ok s w" and "v \<noteq> w"
  shows "V2P v + PGSIZE \<le> V2P w \<or> V2P w + PGSIZE \<le> V2P v"
proof (rule pages_apart)
  show "V2P v mod PGSIZE = 0" "V2P w mod PGSIZE = 0" using assms page_ok_aligned by auto
  show "V2P v \<noteq> V2P w" using assms by (metis page_ok_P2V)
qed

lemma free_chain_cong:
  "(\<And>p. p \<in> set ps \<Longrightarrow> rd32 m' (V2P p) = rd32 m (V2P p)) \<Longrightarrow> free_chain m' r ps = free_chain m r ps"
  by (induction ps arbitrary: r) auto

text \<open>
  Memory outside the free pages may change freely: the free list is only sensitive to the first
  word of each free page.
\<close>

lemma free_pages_frame:
  assumes "free_pages s ps"
    and "\<And>p a. p \<in> set ps \<Longrightarrow> V2P p \<le> a \<Longrightarrow> a < V2P p + PGSIZE \<Longrightarrow> ram s' a = ram s a"
    and "freelist s' = freelist s" "kend s' = kend s"
  shows "free_pages s' ps"
proof -
  have "rd32 (ram s') (V2P p) = rd32 (ram s) (V2P p)" if "p \<in> set ps" for p
    using assms(2) [OF that] by (intro rd32_cong) (auto simp: PGSIZE_def)
  then have "free_chain (ram s') (freelist s') ps"
    using assms(1,3) free_chain_cong [of ps "ram s'" "ram s"] by (simp add: free_pages_def)
  then show ?thesis using assms by (simp add: free_pages_def page_ok_def)
qed

lemma kfree_eq:
  assumes "page_ok s v" and "use_lock s \<Longrightarrow> LKmem \<notin> held s"
  shows "kfree v s = Ok (s\<lparr>ram := wr32 (fill 1 (ram s) (V2P v) PGSIZE) (V2P v) (freelist s),
           freelist := v\<rparr>)"
  using assms
  by (auto simp: kfree_def page_ok_def klock_if_def memset_fill u32_of_def Let_def insert_absorb)

lemma kalloc_eq:
  "(use_lock s \<Longrightarrow> LKmem \<notin> held s) \<Longrightarrow> kalloc s =
     Ok (freelist s, if freelist s \<noteq> 0 then s\<lparr>freelist := rd32 (ram s) (V2P (freelist s))\<rparr> else s)"
  by (auto simp: kalloc_def klock_if_def Let_def insert_absorb)

text \<open>\<open>kfree\<close> pushes and \<open>kalloc\<close> pops.\<close>

lemma kfree_push:
  assumes fp: "free_pages s ps" and v: "page_ok s v" "v \<notin> set ps"
    and lk: "use_lock s \<Longrightarrow> LKmem \<notin> held s"
  shows "okP (kfree v s) (\<lambda>s'. free_pages s' (v # ps) \<and> held s' = held s \<and> use_lock s' = use_lock s
     \<and> kend s' = kend s \<and> (\<forall>a. a < V2P v \<or> V2P v + PGSIZE \<le> a \<longrightarrow> ram s' a = ram s a))"
proof -
  let ?m = "wr32 (fill 1 (ram s) (V2P v) PGSIZE) (V2P v) (freelist s)"
  have out: "?m a = ram s a" if "a < V2P v \<or> V2P v + PGSIZE \<le> a" for a
    using that by (auto simp: wr32_out PGSIZE_def)
  have "rd32 ?m (V2P p) = rd32 (ram s) (V2P p)" if "p \<in> set ps" for p
  proof (rule rd32_cong)
    fix i assume "V2P p \<le> i" "i < V2P p + 4"
    moreover have "V2P p + PGSIZE \<le> V2P v \<or> V2P v + PGSIZE \<le> V2P p"
      using that fp v by (intro page_ok_apart [of s]) (auto simp: free_pages_def)
    ultimately show "?m i = ram s i" by (intro out) (auto simp: PGSIZE_def)
  qed
  moreover have "freelist s < u32_mod"
    using fp by (cases ps) (auto simp: free_pages_def page_ok_def)
  ultimately have "free_chain ?m v (v # ps)"
    using fp free_chain_cong [of ps ?m "ram s"] by (simp add: free_pages_def)
  then show ?thesis
    using fp v out lk by (simp add: kfree_eq) (auto simp: free_pages_def page_ok_def)
qed

lemma kalloc_pop:
  assumes fp: "free_pages s ps" and lk: "use_lock s \<Longrightarrow> LKmem \<notin> held s"
  shows "kalloc s = (case ps of [] \<Rightarrow> Ok (0, s)
           | p # ps' \<Rightarrow> Ok (p, s\<lparr>freelist := rd32 (ram s) (V2P p)\<rparr>))"
    and "ps = p # ps' \<Longrightarrow> free_pages (s\<lparr>freelist := rd32 (ram s) (V2P p)\<rparr>) ps'"
proof -
  show "kalloc s = (case ps of [] \<Rightarrow> Ok (0, s)
           | p # ps' \<Rightarrow> Ok (p, s\<lparr>freelist := rd32 (ram s) (V2P p)\<rparr>))"
  proof (cases ps)
    case Nil
    with fp lk show ?thesis by (simp add: kalloc_eq free_pages_def)
  next
    case (Cons p ps')
    with fp have "freelist s = p" and "page_ok s p" by (auto simp: free_pages_def)
    with Cons lk page_ok_pos [of s p] show ?thesis by (simp add: kalloc_eq)
  qed
  show "ps = p # ps' \<Longrightarrow> free_pages (s\<lparr>freelist := rd32 (ram s) (V2P p)\<rparr>) ps'"
    using fp by (simp add: free_pages_def page_ok_def)
qed

section \<open>The interface of a page allocator\<close>

text \<open>
  \<open>pool s P\<close>: the allocator's state is well formed and \<open>P\<close> is the set of its free pages.
  Allocation fails, with the null pointer, exactly on the empty pool.
\<close>

locale page_pool =
  fixes alloc :: "'s \<Rightarrow> (nat \<times> 's) res"
    and free_page :: "nat \<Rightarrow> 's \<Rightarrow> 's res"
    and pool :: "'s \<Rightarrow> nat set \<Rightarrow> bool"
    and usable :: "'s \<Rightarrow> nat \<Rightarrow> bool"
  assumes pool_finite: "pool s P \<Longrightarrow> finite P"
    and pool_usable: "pool s P \<Longrightarrow> p \<in> P \<Longrightarrow> usable s p \<and> p \<noteq> 0"
    and alloc_empty: "pool s {} \<Longrightarrow> alloc s = Ok (0, s)"
    and alloc_some: "pool s P \<Longrightarrow> P \<noteq> {} \<Longrightarrow>
      okP (alloc s) (\<lambda>(r, s'). r \<in> P \<and> pool s' (P - {r}) \<and> usable s' = usable s)"
    and free_ok: "pool s P \<Longrightarrow> usable s p \<Longrightarrow> p \<notin> P \<Longrightarrow>
      okP (free_page p s) (\<lambda>s'. pool s' (insert p P) \<and> usable s' = usable s)"
begin

lemma alloc_null_iff: "pool s P \<Longrightarrow> okP (alloc s) (\<lambda>(r, s'). r = 0 \<longleftrightarrow> P = {})"
proof (cases "P = {}")
  case True
  then show "pool s P \<Longrightarrow> ?thesis" by (simp add: alloc_empty)
next
  case False
  assume pl: "pool s P"
  from alloc_some [OF pl False] show ?thesis
    using pool_usable [OF pl] False by (auto elim!: okP_mono)
qed

text \<open>Two allocations in a row never return the same page.\<close>

lemma alloc_twice_distinct:
  assumes "pool s P"
  shows "okP (bindr (alloc s) (\<lambda>(p, s). bindr (alloc s) (\<lambda>(q, s). Ok (p, q))))
     (\<lambda>(p, q). p = 0 \<and> q = 0 \<or> p \<noteq> q)"
proof (cases "P = {}")
  case True
  with assms show ?thesis by (simp add: alloc_empty)
next
  case False
  have "okP (bindr (alloc s1) (\<lambda>(q, s). Ok (p, q))) (\<lambda>(p, q). p = 0 \<and> q = 0 \<or> p \<noteq> q)"
    if p: "p \<in> P" and pl: "pool s1 (P - {p})" for p s1
  proof (cases "P - {p} = {}")
    case True
    with pl p pool_usable [OF assms] show ?thesis by (auto simp: alloc_empty)
  next
    case False
    with alloc_some [OF pl] show ?thesis by (auto elim!: okP_mono)
  qed
  with alloc_some [OF assms False] show ?thesis
    unfolding okP_bindr by (auto elim!: okP_mono)
qed

text \<open>Freeing the page just allocated restores the pool.\<close>

lemma alloc_free_restores:
  assumes "pool s P" and "P \<noteq> {}"
  shows "okP (bindr (alloc s) (\<lambda>(p, s). free_page p s)) (\<lambda>s'. pool s' P)"
proof -
  have "okP (free_page r s') (\<lambda>s'. pool s' P)"
    if "r \<in> P" "pool s' (P - {r})" "usable s' = usable s" for r s'
    using free_ok [OF that(2), of r] that pool_usable [OF assms(1)]
    by (auto simp: insert_absorb elim!: okP_mono)
  with alloc_some [OF assms] show ?thesis by (auto elim!: okP_mono)
qed

end

definition kmem_pool :: "'a ksys_scheme \<Rightarrow> nat set \<Rightarrow> bool" where
  "kmem_pool s P \<longleftrightarrow> LKmem \<notin> held s \<and> (\<exists>ps. free_pages s ps \<and> set ps = P)"

interpretation kmem: page_pool kalloc kfree kmem_pool page_ok
proof (unfold_locales, goal_cases)
  case (1 s P)
  then show ?case by (auto simp: kmem_pool_def)
next
  case (2 s P p)
  then show ?case by (auto simp: kmem_pool_def free_pages_def dest: page_ok_pos)
next
  case (3 s)
  then show ?case by (auto simp: kmem_pool_def kalloc_pop(1) [of s "[]"])
next
  case (4 s P)
  then obtain ps where fp: "free_pages s ps" and P: "set ps = P" and lk: "LKmem \<notin> held s"
    by (auto simp: kmem_pool_def)
  with 4 obtain p ps' where ps: "ps = p # ps'" by (cases ps) auto
  let ?s = "s\<lparr>freelist := rd32 (ram s) (V2P p)\<rparr>"
  have "free_pages ?s ps'" using kalloc_pop(2) [OF fp] ps lk by blast
  moreover have "set ps' = P - {p}" using P ps fp by (auto simp: free_pages_def)
  ultimately have "kmem_pool ?s (P - {p})" using lk by (auto simp: kmem_pool_def)
  then show ?case using kalloc_pop(1) [OF fp] ps P lk by auto
next
  case (5 s P p)
  then obtain ps where fp: "free_pages s ps" and P: "set ps = P" and lk: "LKmem \<notin> held s"
    by (auto simp: kmem_pool_def)
  from fp have "okP (kfree p s) (\<lambda>s'. free_pages s' (p # ps) \<and> held s' = held s \<and> use_lock s' = use_lock s
     \<and> kend s' = kend s \<and> (\<forall>a. a < V2P p \<or> V2P p + PGSIZE \<le> a \<longrightarrow> ram s' a = ram s a))"
    using 5 P lk by (intro kfree_push) auto
  then show ?case
  proof (rule okP_mono, goal_cases)
    case (1 s')
    then have "free_pages s' (p # ps)" "LKmem \<notin> held s'" "kend s' = kend s" using lk by simp_all
    moreover have "set (p # ps) = insert p P" using P by simp
    ultimately show ?case unfolding kmem_pool_def using page_ok_cong by blast
  qed
qed

section \<open>Building the free list\<close>

text \<open>
  The pages \<open>freerange\<close> frees, in the order of the loop.
\<close>

function pages_in :: "nat \<Rightarrow> nat \<Rightarrow> nat list" where
  "pages_in p vend = (if p + PGSIZE \<le> vend then p # pages_in (p + PGSIZE) vend else [])"
  by pat_completeness auto
termination
  by (relation "measure (\<lambda>(p, vend). Suc vend - p)") (auto simp: PGSIZE_def)

declare pages_in.simps [simp del]

lemma pages_in_ge: "q \<in> set (pages_in p vend) \<Longrightarrow> p \<le> q \<and> q + PGSIZE \<le> vend \<and> q mod PGSIZE = p mod PGSIZE"
proof (induction p vend rule: pages_in.induct)
  case (1 p vend)
  from "1.prems" have le: "p + PGSIZE \<le> vend"
    by (subst (asm) pages_in.simps) (simp split: if_splits)
  with "1.prems" have "q = p \<or> q \<in> set (pages_in (p + PGSIZE) vend)"
    by (subst (asm) pages_in.simps) simp
  with "1.IH" [OF le] le show ?case by auto
qed

lemma freerange_from_spec:
  assumes "free_pages s ps" and "use_lock s \<Longrightarrow> LKmem \<notin> held s"
    and "\<And>q. q \<in> set (pages_in p vend) \<Longrightarrow> page_ok s q \<and> q \<notin> set ps"
  shows "okP (freerange_from p vend s) (\<lambda>s'. free_pages s' (rev (pages_in p vend) @ ps))"
  using assms
proof (induction p vend s arbitrary: ps rule: freerange_from.induct)
  case (1 p vend s)
  show ?case
  proof (cases "p + PGSIZE \<le> vend")
    case False
    then show ?thesis using "1.prems"
      by (simp add: freerange_from.simps [of p] pages_in.simps [of p])
  next
    case True
    then have pin: "pages_in p vend = p # pages_in (p + PGSIZE) vend"
      by (simp add: pages_in.simps [of p])
    have p: "page_ok s p" "p \<notin> set ps" using "1.prems"(3) pin by auto
    obtain s' where kf: "kfree p s = Ok s'" and post: "free_pages s' (p # ps)" "held s' = held s"
      "use_lock s' = use_lock s" "kend s' = kend s"
      using kfree_push [OF "1.prems"(1) p "1.prems"(2)] by (auto simp: okP_iff)
    have new: "page_ok s' q \<and> q \<notin> set (p # ps)" if "q \<in> set (pages_in (p + PGSIZE) vend)" for q
      using "1.prems"(3) [of q] pin that pages_in_ge [OF that] page_ok_cong [OF post(4)]
      by (auto simp: PGSIZE_def)
    have "okP (freerange_from (p + PGSIZE) vend s')
        (\<lambda>t. free_pages t (rev (pages_in (p + PGSIZE) vend) @ p # ps))"
      using "1.IH" [OF True kf post(1)] new post(2,3) "1.prems"(2) by simp
    then have "okP (freerange_from p vend s) (\<lambda>t. free_pages t (rev (pages_in p vend) @ ps))"
      using True kf pin by (simp add: freerange_from.simps [of p])
    then show ?thesis .
  qed
qed

section \<open>Properties\<close>

text \<open>
  The page allocator is a stack. With the free list holding the pages \<open>ps\<close>, \<open>kalloc\<close> returns
  the null pointer and changes nothing when \<open>ps\<close> is empty, and otherwise pops the first page;
  \<open>kfree\<close> of an allocated page pushes it and writes no byte outside that page.
\<close>

theorem kmem_is_a_stack:
  assumes "free_pages s ps" and "use_lock s \<Longrightarrow> LKmem \<notin> held s"
  shows "okP (kalloc s) (\<lambda>(r, s'). case ps of [] \<Rightarrow> r = 0 \<and> s' = s
            | p # ps' \<Rightarrow> r = p \<and> free_pages s' ps' \<and> ram s' = ram s)
     \<and> (\<forall>v. page_ok s v \<and> v \<notin> set ps \<longrightarrow> okP (kfree v s) (\<lambda>s'. free_pages s' (v # ps)
            \<and> (\<forall>a. a < V2P v \<or> V2P v + PGSIZE \<le> a \<longrightarrow> ram s' a = ram s a)))"
proof -
  have "okP (kalloc s) (\<lambda>(r, s'). case ps of [] \<Rightarrow> r = 0 \<and> s' = s
            | p # ps' \<Rightarrow> r = p \<and> free_pages s' ps' \<and> ram s' = ram s)"
    using kalloc_pop [OF assms] by (auto split: list.splits)
  moreover have "okP (kfree v s) (\<lambda>s'. free_pages s' (v # ps)
            \<and> (\<forall>a. a < V2P v \<or> V2P v + PGSIZE \<le> a \<longrightarrow> ram s' a = ram s a))"
    if "page_ok s v" "v \<notin> set ps" for v
    by (rule okP_mono [OF kfree_push [OF assms(1) that assms(2)]]) blast+
  ultimately show ?thesis by blast
qed

lemma kmem_is_a_stack_witness:
  "okP (kfree 2149580800 (boot_state 2148532224)) (\<lambda>s'. free_pages s' [2149580800])"
proof -
  have fp: "free_pages (boot_state 2148532224) []"
    by (simp add: free_pages_def boot_state_def)
  have "page_ok (boot_state 2148532224) 2149580800"
    by (simp add: page_ok_def boot_state_def V2P_def sub32_def layout_simps)
  then show ?thesis
    using kmem_is_a_stack [OF fp] by (auto simp: boot_state_def elim!: okP_mono)
qed

text \<open>
  \<open>kinit1\<close> turns an empty free list into the list of all whole pages of the range, without a
  panic, when the pages lie between the end of the kernel and the top of memory.
\<close>

theorem kinit1_builds_free_list:
  assumes "freelist s = 0"
    and "\<And>q. q \<in> set (pages_in (PGROUNDUP vstart) vend) \<Longrightarrow> page_ok s q"
  shows "okP (kinit1 vstart vend s) (\<lambda>s'. free_pages s' (rev (pages_in (PGROUNDUP vstart) vend)))"
proof -
  have "free_pages (s\<lparr>use_lock := False\<rparr>) []" using assms(1) by (simp add: free_pages_def)
  moreover have "page_ok (s\<lparr>use_lock := False\<rparr>) = page_ok s" by (rule page_ok_cong) simp
  ultimately show ?thesis
    using freerange_from_spec [of "s\<lparr>use_lock := False\<rparr>" "[]" "PGROUNDUP vstart" vend] assms(2)
    by (simp add: kinit1_def freerange_def)
qed

lemma kinit1_builds_free_list_witness:
  "okP (kinit1 2148532225 2148544512 (boot_state 2148532224)) (\<lambda>s'. free_pages s' [2148540416, 2148536320])"
proof -
  have pin: "pages_in (PGROUNDUP 2148532225) 2148544512 = [2148536320, 2148540416]"
    by (simp add: PGROUNDUP_def wrap32_def pages_in.simps layout_simps)
  have "page_ok (boot_state 2148532224) q" if "q \<in> {2148536320, 2148540416}" for q
    using that by (auto simp: boot_state_def page_ok_def V2P_def sub32_def layout_simps)
  moreover have "freelist (boot_state 2148532224) = 0" by (simp add: boot_state_def)
  ultimately show ?thesis
    using kinit1_builds_free_list [of "boot_state 2148532224" 2148532225 2148544512]
    by (simp add: pin)
qed

text \<open>
  No double allocation: two calls of \<open>kalloc\<close> in a row never return the same page, and a page
  that is freed right after its allocation leaves the set of free pages as it was.
\<close>

theorem kalloc_no_double_allocation:
  assumes "kmem_pool s P"
  shows "okP (bindr (kalloc s) (\<lambda>(p, s). bindr (kalloc s) (\<lambda>(q, s). Ok (p, q))))
           (\<lambda>(p, q). p = 0 \<and> q = 0 \<or> p \<noteq> q)
       \<and> (P \<noteq> {} \<longrightarrow> okP (bindr (kalloc s) (\<lambda>(p, s). kfree p s)) (\<lambda>s'. kmem_pool s' P))"
  using kmem.alloc_twice_distinct [OF assms] kmem.alloc_free_restores [OF assms] by blast

lemma kalloc_no_double_allocation_witness:
  "okP (bindr (kalloc (boot_state 0)) (\<lambda>(p, s). bindr (kalloc s) (\<lambda>(q, s). Ok (p, q))))
           (\<lambda>(p, q). p = 0 \<and> q = 0 \<or> p \<noteq> q)"
proof -
  have "kmem_pool (boot_state 0) {}"
    by (auto simp: kmem_pool_def free_pages_def boot_state_def intro!: exI [of _ "[]"])
  from kalloc_no_double_allocation [OF this] show ?thesis by blast
qed

end
