(* ===== verification/Vm.thy ===== *)
theory Vm
  imports Fs Kalloc
begin

text \<open>
  \<open>vm.c\<close>: page tables in physical memory, and the access of the kernel to user memory through them.
  A page directory is the kernel virtual address of its page, as in the code. The segment
  descriptors are not modelled; of the task state \<open>switchuvm\<close> sets, \<open>esp0\<close> is.
\<close>

section \<open>State\<close>

definition NPDENTRIES :: nat where "NPDENTRIES = 1024"
definition KERNLINK :: nat where "KERNLINK = KERNBASE + EXTMEM"
definition PTE_P :: nat where "PTE_P = 1"
definition PTE_W :: nat where "PTE_W = 2"
definition PTE_U :: nat where "PTE_U = 4"

lemmas [layout_simps] = NPDENTRIES_def KERNLINK_def PTE_P_def PTE_W_def PTE_U_def

definition PDX :: "nat \<Rightarrow> nat" where "PDX va = drop_bit 22 va AND 1023"
definition PTX :: "nat \<Rightarrow> nat" where "PTX va = drop_bit 12 va AND 1023"
definition PGADDR :: "nat \<Rightarrow> nat \<Rightarrow> nat \<Rightarrow> nat" where
  "PGADDR d t b = wrap32 (push_bit 22 d OR push_bit 12 t OR b)"
definition PTE_ADDR :: "nat \<Rightarrow> nat" where "PTE_ADDR pte = pte div 4096 * 4096"
definition PTE_FLAGS :: "nat \<Rightarrow> nat" where "PTE_FLAGS pte = pte AND 4095"

definition present :: "nat \<Rightarrow> bool" where
  "present pte \<longleftrightarrow> pte AND PTE_P \<noteq> 0"

text \<open>\<open>kdata\<close>: the linker symbol \<open>data\<close>. \<open>cr3\<close>: the page table register.\<close>

record vmk = consk +
  kpgdir :: nat
  cr3 :: nat
  tss_esp0 :: nat
  kdata :: nat

definition kread32 :: "nat \<Rightarrow> 'a ksys_scheme \<Rightarrow> nat" where
  "kread32 a s = rd32 (ram s) (V2P a)"

definition kwrite32 :: "nat \<Rightarrow> nat \<Rightarrow> 'a ksys_scheme \<Rightarrow> 'a ksys_scheme" where
  "kwrite32 a v s = s\<lparr>ram := wr32 (ram s) (V2P a) v\<rparr>"

definition kmemset :: "nat \<Rightarrow> int \<Rightarrow> nat \<Rightarrow> 'a ksys_scheme \<Rightarrow> 'a ksys_scheme" where
  "kmemset a c n s = s\<lparr>ram := memset (V2P a) c n (ram s)\<rparr>"

definition kput :: "nat \<Rightarrow> byte list \<Rightarrow> 'a ksys_scheme \<Rightarrow> 'a ksys_scheme" where
  "kput a bs s = s\<lparr>ram := put_bytes bs (ram s) (V2P a)\<rparr>"

section \<open>Page tables\<close>

text \<open>The result is the address of the entry, 0 for none.\<close>

definition walkpgdir :: "nat \<Rightarrow> nat \<Rightarrow> bool \<Rightarrow> 'a ksys_scheme \<Rightarrow> (nat \<times> 'a ksys_scheme) res" where
  "walkpgdir pgdir va alloc s =
     (let pde = pgdir + 4 * PDX va
      in if present (kread32 pde s)
         then Ok (P2V (PTE_ADDR (kread32 pde s)) + 4 * PTX va, s)
         else if \<not> alloc then Ok (0, s)
         else
           bindr (kalloc s) (\<lambda>(pgtab, s).
           if pgtab = 0 then Ok (0, s)
           else
             let s = kmemset pgtab 0 PGSIZE s;
                 s = kwrite32 pde (V2P pgtab OR PTE_P OR PTE_W OR PTE_U) s
             in Ok (pgtab + 4 * PTX va, s)))"

text \<open>The loop of \<open>mappages\<close>; \<open>k\<close> pages follow the one at \<open>a\<close>.\<close>

fun mappages_from :: "nat \<Rightarrow> nat \<Rightarrow> nat \<Rightarrow> nat \<Rightarrow> nat \<Rightarrow> 'a ksys_scheme \<Rightarrow> (int \<times> 'a ksys_scheme) res" where
  "mappages_from k pgdir a pa perm s =
     bindr (walkpgdir pgdir a True s) (\<lambda>(pte, s).
     if pte = 0 then Ok (-1, s)
     else if present (kread32 pte s) then Panic ''remap''
     else
       let s = kwrite32 pte (pa OR perm OR PTE_P) s
       in case k of
            0 \<Rightarrow> Ok (0, s)
          | Suc k \<Rightarrow> mappages_from k pgdir (wrap32 (a + PGSIZE)) (wrap32 (pa + PGSIZE)) perm s)"

definition mappages :: "nat \<Rightarrow> nat \<Rightarrow> nat \<Rightarrow> nat \<Rightarrow> nat \<Rightarrow> 'a ksys_scheme \<Rightarrow> (int \<times> 'a ksys_scheme) res" where
  "mappages pgdir va sz pa perm s =
     (let a = PGROUNDDOWN va; last = PGROUNDDOWN (sub32 (wrap32 (va + sz)) 1)
      in mappages_from (sub32 last a div PGSIZE) pgdir a pa perm s)"

text \<open>
  The loop of \<open>deallocuvm\<close>. For \<open>oldsz\<close> up to \<open>KERNBASE\<close> every turn advances \<open>a\<close> by a page at least, so
  \<open>k\<close> turns are enough; beyond that the code can run around the address space for ever.
\<close>

fun deallocuvm_from :: "nat \<Rightarrow> nat \<Rightarrow> nat \<Rightarrow> nat \<Rightarrow> 'a ksys_scheme \<Rightarrow> 'a ksys_scheme res" where
  "deallocuvm_from 0 pgdir a oldsz s = (if a < oldsz then Spin else Ok s)"
| "deallocuvm_from (Suc k) pgdir a oldsz s =
     (if a < oldsz
      then bindr (walkpgdir pgdir a False s) (\<lambda>(pte, s).
           if pte = 0
           then deallocuvm_from k pgdir (wrap32 (sub32 (PGADDR (PDX a + 1) 0 0) PGSIZE + PGSIZE)) oldsz s
           else if present (kread32 pte s)
           then let pa = PTE_ADDR (kread32 pte s)
                in if pa = 0 then Panic ''kfree''
                   else bindr (kfree (P2V pa) s) (\<lambda>s.
                        deallocuvm_from k pgdir (wrap32 (a + PGSIZE)) oldsz (kwrite32 pte 0 s))
           else deallocuvm_from k pgdir (wrap32 (a + PGSIZE)) oldsz s)
      else Ok s)"

definition deallocuvm :: "nat \<Rightarrow> nat \<Rightarrow> nat \<Rightarrow> 'a ksys_scheme \<Rightarrow> (nat \<times> 'a ksys_scheme) res" where
  "deallocuvm pgdir oldsz newsz s =
     (if oldsz \<le> newsz then Ok (oldsz, s)
      else bindr (deallocuvm_from (oldsz div PGSIZE + 1) pgdir (PGROUNDUP newsz) oldsz s) (\<lambda>s.
           Ok (newsz, s)))"

fun freevm_tables :: "nat \<Rightarrow> nat \<Rightarrow> nat \<Rightarrow> 'a ksys_scheme \<Rightarrow> 'a ksys_scheme res" where
  "freevm_tables 0 pgdir i s = Ok s"
| "freevm_tables (Suc k) pgdir i s =
     bindr (if present (kread32 (pgdir + 4 * i) s)
            then kfree (P2V (PTE_ADDR (kread32 (pgdir + 4 * i) s))) s
            else Ok s) (\<lambda>s.
     freevm_tables k pgdir (i + 1) s)"

definition freevm :: "nat \<Rightarrow> 'a ksys_scheme \<Rightarrow> 'a ksys_scheme res" where
  "freevm pgdir s =
     (if pgdir = 0 then Panic ''freevm: no pgdir''
      else
        bindr (deallocuvm pgdir KERNBASE 0 s) (\<lambda>(r, s).
        bindr (freevm_tables NPDENTRIES pgdir 0 s) (\<lambda>s.
        kfree pgdir s)))"

section \<open>The kernel part\<close>

text \<open>The table \<open>kmap\<close>: start, physical start and end, permissions.\<close>

definition kmap :: "nat \<Rightarrow> (nat \<times> nat \<times> nat \<times> nat) list" where
  "kmap kd = [(KERNBASE, 0, EXTMEM, PTE_W), (KERNLINK, V2P KERNLINK, V2P kd, 0),
     (kd, V2P kd, PHYSTOP, PTE_W), (DEVSPACE, DEVSPACE, 0, PTE_W)]"

fun setupkvm_maps :: "(nat \<times> nat \<times> nat \<times> nat) list \<Rightarrow> nat \<Rightarrow> 'a ksys_scheme \<Rightarrow> (nat \<times> 'a ksys_scheme) res" where
  "setupkvm_maps [] pgdir s = Ok (pgdir, s)"
| "setupkvm_maps ((virt, ps, pe, perm) # ks) pgdir s =
     bindr (mappages pgdir virt (sub32 pe ps) ps perm s) (\<lambda>(r, s).
     if r < 0 then bindr (freevm pgdir s) (\<lambda>s. Ok (0, s))
     else setupkvm_maps ks pgdir s)"

definition setupkvm :: "'a vmk_scheme \<Rightarrow> (nat \<times> 'a vmk_scheme) res" where
  "setupkvm s =
     bindr (kalloc s) (\<lambda>(pgdir, s).
     if pgdir = 0 then Ok (0, s)
     else
       let s = kmemset pgdir 0 PGSIZE s
       in if DEVSPACE < P2V PHYSTOP then Panic ''PHYSTOP too high''
          else setupkvm_maps (kmap (kdata s)) pgdir s)"

definition switchkvm :: "'a vmk_scheme \<Rightarrow> 'a vmk_scheme" where
  "switchkvm s = s\<lparr>cr3 := V2P (kpgdir s)\<rparr>"

definition kvmalloc :: "'a vmk_scheme \<Rightarrow> 'a vmk_scheme res" where
  "kvmalloc s = bindr (setupkvm s) (\<lambda>(p, s). Ok (switchkvm (s\<lparr>kpgdir := p\<rparr>)))"

definition switchuvm :: "proc option \<Rightarrow> 'a vmk_scheme \<Rightarrow> 'a vmk_scheme res" where
  "switchuvm p s =
     (case p of
        None \<Rightarrow> Panic ''switchuvm: no process''
      | Some p \<Rightarrow>
          if p_kstack p = 0 then Panic ''switchuvm: no kstack''
          else if p_pgdir p = 0 then Panic ''switchuvm: no pgdir''
          else Ok (s\<lparr>tss_esp0 := wrap32 (p_kstack p + KSTACKSIZE), cr3 := V2P (p_pgdir p)\<rparr>))"

section \<open>User memory\<close>

text \<open>No test that there is memory: clearing the page at address 0, where nothing is mapped yet, is a page fault.\<close>

definition inituvm :: "nat \<Rightarrow> byte list \<Rightarrow> 'a ksys_scheme \<Rightarrow> 'a ksys_scheme res" where
  "inituvm pgdir init s =
     (if PGSIZE \<le> length init then Panic ''inituvm: more than a page''
      else
        bindr (kalloc s) (\<lambda>(mem, s).
        if mem = 0 then Panic ''trap''
        else
          bindr (mappages pgdir 0 PGSIZE (V2P mem) (PTE_W OR PTE_U) (kmemset mem 0 PGSIZE s)) (\<lambda>(r, s).
          Ok (kput mem init s))))"

text \<open>The loop of \<open>loaduvm\<close> from \<open>i\<close>; the number of pages left bounds the turns.\<close>

fun loaduvm_from :: "nat \<Rightarrow> nat \<Rightarrow> nat \<Rightarrow> nat \<Rightarrow> nat \<Rightarrow> nat \<Rightarrow> nat \<Rightarrow> 'a vmk_scheme \<Rightarrow> (int \<times> 'a vmk_scheme) res" where
  "loaduvm_from 0 pgdir addr ip off sz i s = Ok (0, s)"
| "loaduvm_from (Suc k) pgdir addr ip off sz i s =
     (if i < sz
      then bindr (walkpgdir pgdir (wrap32 (addr + i)) False s) (\<lambda>(pte, s).
           if pte = 0 then Panic ''loaduvm: address should exist''
           else
             let pa = PTE_ADDR (kread32 pte s); n = (if sz - i < PGSIZE then sz - i else PGSIZE)
             in bindr (readi ip (wrap32 (off + i)) n s) (\<lambda>(r, bs, s).
                let s = kput (P2V pa) bs s
                in if r \<noteq> int n then Ok (-1, s)
                   else loaduvm_from k pgdir addr ip off sz (i + PGSIZE) s))
      else Ok (0, s))"

definition loaduvm :: "nat \<Rightarrow> nat \<Rightarrow> nat \<Rightarrow> nat \<Rightarrow> nat \<Rightarrow> 'a vmk_scheme \<Rightarrow> (int \<times> 'a vmk_scheme) res" where
  "loaduvm pgdir addr ip off sz s =
     (if addr mod PGSIZE \<noteq> 0 then Panic ''loaduvm: addr must be page aligned''
      else loaduvm_from (sz div PGSIZE + 1) pgdir addr ip off sz 0 s)"

fun allocuvm_from :: "nat \<Rightarrow> nat \<Rightarrow> nat \<Rightarrow> nat \<Rightarrow> nat \<Rightarrow> 'a consk_scheme \<Rightarrow> (nat \<times> 'a consk_scheme) res" where
  "allocuvm_from 0 pgdir a oldsz newsz s = Ok (newsz, s)"
| "allocuvm_from (Suc k) pgdir a oldsz newsz s =
     (if a < newsz
      then bindr (kalloc s) (\<lambda>(mem, s).
           if mem = 0
           then bindr (cprintf (chars ''allocuvm out of memory'' @ [10]) [] s) (\<lambda>s.
                bindr (deallocuvm pgdir newsz oldsz s) (\<lambda>(r, s). Ok (0, s)))
           else
             bindr (mappages pgdir a PGSIZE (V2P mem) (PTE_W OR PTE_U) (kmemset mem 0 PGSIZE s)) (\<lambda>(r, s).
             if r < 0
             then bindr (cprintf (chars ''allocuvm out of memory (2)'' @ [10]) [] s) (\<lambda>s.
                  bindr (deallocuvm pgdir newsz oldsz s) (\<lambda>(r, s).
                  bindr (kfree mem s) (\<lambda>s. Ok (0, s))))
             else allocuvm_from k pgdir (a + PGSIZE) oldsz newsz s))
      else Ok (newsz, s))"

definition allocuvm :: "nat \<Rightarrow> nat \<Rightarrow> nat \<Rightarrow> 'a consk_scheme \<Rightarrow> (nat \<times> 'a consk_scheme) res" where
  "allocuvm pgdir oldsz newsz s =
     (if KERNBASE \<le> newsz then Ok (0, s)
      else if newsz < oldsz then Ok (oldsz, s)
      else allocuvm_from (newsz div PGSIZE + 1) pgdir (PGROUNDUP oldsz) oldsz newsz s)"

definition clearpteu :: "nat \<Rightarrow> nat \<Rightarrow> 'a ksys_scheme \<Rightarrow> 'a ksys_scheme res" where
  "clearpteu pgdir uva s =
     bindr (walkpgdir pgdir uva False s) (\<lambda>(pte, s).
     if pte = 0 then Panic ''clearpteu''
     else Ok (kwrite32 pte (kread32 pte s AND 4294967291) s))"

text \<open>The loop of \<open>copyuvm\<close>; the result is whether all pages were copied.\<close>

fun copyuvm_from :: "nat \<Rightarrow> nat \<Rightarrow> nat \<Rightarrow> nat \<Rightarrow> nat \<Rightarrow> 'a ksys_scheme \<Rightarrow> (bool \<times> 'a ksys_scheme) res" where
  "copyuvm_from 0 pgdir d i sz s = Ok (True, s)"
| "copyuvm_from (Suc k) pgdir d i sz s =
     (if i < sz
      then bindr (walkpgdir pgdir i False s) (\<lambda>(pte, s).
           if pte = 0 then Panic ''copyuvm: pte should exist''
           else if \<not> present (kread32 pte s) then Panic ''copyuvm: page not present''
           else
             let pa = PTE_ADDR (kread32 pte s); flags = PTE_FLAGS (kread32 pte s)
             in bindr (kalloc s) (\<lambda>(mem, s).
                if mem = 0 then Ok (False, s)
                else
                  let s = s\<lparr>ram := memmove (V2P mem) pa PGSIZE (ram s)\<rparr>
                  in bindr (mappages d i PGSIZE (V2P mem) flags s) (\<lambda>(r, s).
                     if r < 0 then Ok (False, s) else copyuvm_from k pgdir d (i + PGSIZE) sz s)))
      else Ok (True, s))"

definition copyuvm :: "nat \<Rightarrow> nat \<Rightarrow> 'a vmk_scheme \<Rightarrow> (nat \<times> 'a vmk_scheme) res" where
  "copyuvm pgdir sz s =
     bindr (setupkvm s) (\<lambda>(d, s).
     if d = 0 then Ok (0, s)
     else
       bindr (copyuvm_from (sz div PGSIZE + 1) pgdir d 0 sz s) (\<lambda>(ok, s).
       if ok then Ok (d, s)
       else bindr (freevm d s) (\<lambda>s. Ok (0, s))))"

section \<open>Access of the kernel to user addresses\<close>

text \<open>
  The physical address the processor translates a virtual address to, for a privileged access:
  below \<open>KERNBASE\<close> through the page table of the process, above it by the kernel's mapping.
\<close>

definition translate :: "mem \<Rightarrow> nat \<Rightarrow> nat \<Rightarrow> nat option" where
  "translate m pgdir va =
     (if KERNBASE \<le> va then Some (V2P va)
      else
        let pde = rd32 m (V2P pgdir + 4 * PDX va)
        in if \<not> present pde then None
           else
             let pte = rd32 m (PTE_ADDR pde + 4 * PTX va)
             in if \<not> present pte then None else Some (PTE_ADDR pte + va mod PGSIZE))"

fun uget_from :: "mem \<Rightarrow> nat \<Rightarrow> nat \<Rightarrow> nat \<Rightarrow> byte list option" where
  "uget_from m pgdir a 0 = Some []"
| "uget_from m pgdir a (Suc n) =
     (case translate m pgdir a of
        None \<Rightarrow> None
      | Some p \<Rightarrow> map_option ((#) (m p)) (uget_from m pgdir (a + 1) n))"

fun uput_from :: "mem \<Rightarrow> nat \<Rightarrow> nat \<Rightarrow> byte list \<Rightarrow> mem option" where
  "uput_from m pgdir a [] = Some m"
| "uput_from m pgdir a (b # bs) =
     (case translate m pgdir a of
        None \<Rightarrow> None
      | Some p \<Rightarrow> uput_from (m(p := b)) pgdir (a + 1) bs)"

text \<open>A page fault in the kernel ends in the panic of \<open>trap\<close>.\<close>

definition uget :: "nat \<Rightarrow> nat \<Rightarrow> 'a ksys_scheme \<Rightarrow> byte list res" where
  "uget a n s = (case uget_from (ram s) (p_pgdir (myproc s)) a n of Some bs \<Rightarrow> Ok bs | None \<Rightarrow> Panic ''trap'')"

definition uput :: "nat \<Rightarrow> byte list \<Rightarrow> 'a ksys_scheme \<Rightarrow> 'a ksys_scheme res" where
  "uput a bs s = (case uput_from (ram s) (p_pgdir (myproc s)) a bs of
     Some m \<Rightarrow> Ok (s\<lparr>ram := m\<rparr>) | None \<Rightarrow> Panic ''trap'')"

section \<open>Copying to another address space\<close>

text \<open>
  \<open>uva2ka\<close> reads through the entry \<open>walkpgdir\<close> returns without testing it. Where the page table is missing that is the
  word at address 0, which the processor looks up in the page table in use: in the memory of the running process, or
  a page fault in the kernel where its first page is not mapped.
\<close>

definition read_entry :: "nat \<Rightarrow> 'a ksys_scheme \<Rightarrow> nat res" where
  "read_entry pte s = (if pte = 0 then bindr (uget 0 4 s) (\<lambda>bs. Ok (rd32 (arr bs) 0)) else Ok (kread32 pte s))"

definition uva2ka :: "nat \<Rightarrow> nat \<Rightarrow> 'a ksys_scheme \<Rightarrow> (nat \<times> 'a ksys_scheme) res" where
  "uva2ka pgdir uva s =
     bindr (walkpgdir pgdir uva False s) (\<lambda>(pte, s).
     bindr (read_entry pte s) (\<lambda>x.
     if \<not> present x then Ok (0, s)
     else if x AND PTE_U = 0 then Ok (0, s)
     else Ok (P2V (PTE_ADDR x), s)))"

text \<open>Each turn of \<open>copyout\<close> copies at least one byte, so the length bounds the turns.\<close>

fun copyout_loop :: "nat \<Rightarrow> nat \<Rightarrow> nat \<Rightarrow> byte list \<Rightarrow> 'a ksys_scheme \<Rightarrow> (int \<times> 'a ksys_scheme) res" where
  "copyout_loop 0 pgdir va buf s = Ok (0, s)"
| "copyout_loop (Suc k) pgdir va buf s =
     (if buf = [] then Ok (0, s)
      else
        let va0 = PGROUNDDOWN va
        in bindr (uva2ka pgdir va0 s) (\<lambda>(pa0, s).
           if pa0 = 0 then Ok (-1, s)
           else
             let n = PGSIZE - (va - va0); n = (if length buf < n then length buf else n)
             in copyout_loop k pgdir (wrap32 (va0 + PGSIZE)) (drop n buf) (kput (pa0 + (va - va0)) (take n buf) s)))"

definition copyout :: "nat \<Rightarrow> nat \<Rightarrow> byte list \<Rightarrow> 'a ksys_scheme \<Rightarrow> (int \<times> 'a ksys_scheme) res" where
  "copyout pgdir va buf s = copyout_loop (length buf) pgdir va buf s"

end
