(* ===== verification/File.thy ===== *)
theory File
  imports Vm
begin

text \<open>
  \<open>file.c\<close> and \<open>pipe.c\<close>: open files and pipes. A pipe is the structure in the page \<open>kalloc\<close> returned
  for it; the model keeps these structures in a map from the address of the page.
\<close>

section \<open>State\<close>

definition NFILE :: nat where "NFILE = 100"
definition PIPESIZE :: nat where "PIPESIZE = 512"

lemmas [layout_simps] = NFILE_def PIPESIZE_def

datatype ftype = FD_NONE | FD_PIPE | FD_INODE

record kfile =
  f_type :: ftype
  f_ref :: int
  f_readable :: bool
  f_writable :: bool
  f_pipe :: nat
  f_ip :: nat
  f_off :: nat

record pipe =
  pp_data :: "nat \<Rightarrow> byte"
  pp_nread :: nat
  pp_nwrite :: nat
  pp_readopen :: bool
  pp_writeopen :: bool

record filek = vmk +
  ftable :: "nat \<Rightarrow> kfile"
  pipes :: "nat \<Rightarrow> pipe"

definition upd_file :: "nat \<Rightarrow> (kfile \<Rightarrow> kfile) \<Rightarrow> 'a filek_scheme \<Rightarrow> 'a filek_scheme" where
  "upd_file f g s = s\<lparr>ftable := (ftable s)(f := g (ftable s f))\<rparr>"

definition upd_pipe :: "nat \<Rightarrow> (pipe \<Rightarrow> pipe) \<Rightarrow> 'a filek_scheme \<Rightarrow> 'a filek_scheme" where
  "upd_pipe p g s = s\<lparr>pipes := (pipes s)(p := g (pipes s p))\<rparr>"

section \<open>The file table\<close>

definition filealloc :: "'a filek_scheme \<Rightarrow> (nat option \<times> 'a filek_scheme) res" where
  "filealloc s =
     bindr (acquire LFtable s) (\<lambda>s.
     case first_idx NFILE (\<lambda>f. f_ref (ftable s f) = 0) of
       Some f \<Rightarrow> bindr (release LFtable (upd_file f (\<lambda>x. x\<lparr>f_ref := 1\<rparr>) s)) (\<lambda>s. Ok (Some f, s))
     | None \<Rightarrow> bindr (release LFtable s) (\<lambda>s. Ok (None, s)))"

definition filedup :: "nat \<Rightarrow> 'a filek_scheme \<Rightarrow> 'a filek_scheme res" where
  "filedup f s =
     bindr (acquire LFtable s) (\<lambda>s.
     if f_ref (ftable s f) < 1 then Panic ''filedup''
     else release LFtable (upd_file f (\<lambda>x. x\<lparr>f_ref := f_ref x + 1\<rparr>) s))"

section \<open>pipe.c\<close>

definition pipeclose :: "nat \<Rightarrow> bool \<Rightarrow> 'a filek_scheme \<Rightarrow> 'a filek_scheme res" where
  "pipeclose p writable s =
     bindr (acquire (LPipe p) s) (\<lambda>s.
     bindr (if writable
            then wakeup (ChPipeRead p) (upd_pipe p (\<lambda>x. x\<lparr>pp_writeopen := False\<rparr>) s)
            else wakeup (ChPipeWrite p) (upd_pipe p (\<lambda>x. x\<lparr>pp_readopen := False\<rparr>) s)) (\<lambda>s.
     if \<not> pp_readopen (pipes s p) \<and> \<not> pp_writeopen (pipes s p)
     then bindr (release (LPipe p) s) (\<lambda>s. kfree p s)
     else release (LPipe p) s))"

text \<open>\<open>p->data[p->nwrite++ % PIPESIZE] = b\<close>, and the read of \<open>p->data[p->nread++ % PIPESIZE]\<close>.\<close>

definition pipe_full :: "pipe \<Rightarrow> bool" where
  "pipe_full p \<longleftrightarrow> pp_nwrite p = wrap32 (pp_nread p + PIPESIZE)"

definition pipe_push :: "byte \<Rightarrow> pipe \<Rightarrow> pipe" where
  "pipe_push b p = p\<lparr>pp_data := (pp_data p)(pp_nwrite p mod PIPESIZE := b), pp_nwrite := wrap32 (pp_nwrite p + 1)\<rparr>"

definition pipe_pop :: "pipe \<Rightarrow> byte \<times> pipe" where
  "pipe_pop p = (pp_data p (pp_nread p mod PIPESIZE), p\<lparr>pp_nread := wrap32 (pp_nread p + 1)\<rparr>)"

text \<open>The loops over the bytes; the writer result \<open>False\<close> is the early return.\<close>

fun pipewrite_loop :: "nat \<Rightarrow> nat \<Rightarrow> nat \<Rightarrow> 'a filek_scheme \<Rightarrow> (bool \<times> 'a filek_scheme) res" where
  "pipewrite_loop 0 p addr s = Ok (True, s)"
| "pipewrite_loop (Suc n) p addr s =
     (if pipe_full (pipes s p)
      then if \<not> pp_readopen (pipes s p) \<or> p_killed (myproc s) then Ok (False, s)
           else bindr (wakeup (ChPipeRead p) s) (\<lambda>s. Block (ChPipeWrite p))
      else bindr (uget addr 1 s) (\<lambda>bs.
           pipewrite_loop n p (addr + 1) (upd_pipe p (pipe_push (hd bs)) s)))"

definition pipewrite :: "nat \<Rightarrow> nat \<Rightarrow> int \<Rightarrow> 'a filek_scheme \<Rightarrow> (int \<times> 'a filek_scheme) res" where
  "pipewrite p addr n s =
     bindr (acquire (LPipe p) s) (\<lambda>s.
     bindr (pipewrite_loop (nat n) p addr s) (\<lambda>(ok, s).
     if \<not> ok then bindr (release (LPipe p) s) (\<lambda>s. Ok (-1, s))
     else
       bindr (wakeup (ChPipeRead p) s) (\<lambda>s.
       bindr (release (LPipe p) s) (\<lambda>s. Ok (n, s)))))"

fun piperead_loop :: "nat \<Rightarrow> nat \<Rightarrow> nat \<Rightarrow> nat \<Rightarrow> 'a filek_scheme \<Rightarrow> (nat \<times> 'a filek_scheme) res" where
  "piperead_loop 0 p addr i s = Ok (i, s)"
| "piperead_loop (Suc n) p addr i s =
     (if pp_nread (pipes s p) = pp_nwrite (pipes s p) then Ok (i, s)
      else
        let (b, q) = pipe_pop (pipes s p)
        in bindr (uput (addr + i) [b] (upd_pipe p (\<lambda>_. q) s)) (\<lambda>s. piperead_loop n p addr (i + 1) s))"

definition piperead :: "nat \<Rightarrow> nat \<Rightarrow> int \<Rightarrow> 'a filek_scheme \<Rightarrow> (int \<times> 'a filek_scheme) res" where
  "piperead p addr n s =
     bindr (acquire (LPipe p) s) (\<lambda>s.
     if pp_nread (pipes s p) = pp_nwrite (pipes s p) \<and> pp_writeopen (pipes s p)
     then if p_killed (myproc s) then bindr (release (LPipe p) s) (\<lambda>s. Ok (-1, s))
          else Block (ChPipeRead p)
     else
       bindr (piperead_loop (nat n) p addr 0 s) (\<lambda>(i, s).
       bindr (wakeup (ChPipeWrite p) s) (\<lambda>s.
       bindr (release (LPipe p) s) (\<lambda>s. Ok (int i, s)))))"

section \<open>Closing, reading and writing files\<close>

definition fileclose :: "nat \<Rightarrow> 'a filek_scheme \<Rightarrow> 'a filek_scheme res" where
  "fileclose f s =
     bindr (acquire LFtable s) (\<lambda>s.
     if f_ref (ftable s f) < 1 then Panic ''fileclose''
     else
       let s = upd_file f (\<lambda>x. x\<lparr>f_ref := f_ref x - 1\<rparr>) s
       in if 0 < f_ref (ftable s f) then release LFtable s
          else
            let ff = ftable s f; s = upd_file f (\<lambda>x. x\<lparr>f_ref := 0, f_type := FD_NONE\<rparr>) s
            in bindr (release LFtable s) (\<lambda>s.
               if f_type ff = FD_PIPE then pipeclose (f_pipe ff) (f_writable ff) s
               else if f_type ff = FD_INODE
               then bindr (begin_op s) (\<lambda>s. bindr (iput (f_ip ff) s) end_op)
               else Ok s))"

definition filestat :: "nat \<Rightarrow> 'a filek_scheme \<Rightarrow> (stat option \<times> 'a filek_scheme) res" where
  "filestat f s =
     (if f_type (ftable s f) = FD_INODE
      then bindr (ilock (f_ip (ftable s f)) s) (\<lambda>s.
           let st = stati (f_ip (ftable s f)) s
           in bindr (iunlock (f_ip (ftable s f)) s) (\<lambda>s. Ok (Some st, s)))
      else Ok (None, s))"

definition fileread :: "nat \<Rightarrow> nat \<Rightarrow> int \<Rightarrow> 'a filek_scheme \<Rightarrow> (int \<times> 'a filek_scheme) res" where
  "fileread f addr n s =
     (let x = ftable s f
      in if \<not> f_readable x then Ok (-1, s)
         else if f_type x = FD_PIPE then piperead (f_pipe x) addr n s
         else if f_type x = FD_INODE
         then bindr (ilock (f_ip x) s) (\<lambda>s.
              bindr (readi (f_ip x) (f_off (ftable s f)) (u32_of n) s) (\<lambda>(r, bs, s).
              bindr (uput addr bs s) (\<lambda>s.
              let s = (if 0 < r then upd_file f (\<lambda>y. y\<lparr>f_off := wrap32 (f_off y + nat r)\<rparr>) s else s)
              in bindr (iunlock (f_ip x) s) (\<lambda>s. Ok (r, s)))))
         else Panic ''fileread'')"

text \<open>\<open>max\<close>: the bytes one transaction may write.\<close>

definition filewrite_max :: int where
  "filewrite_max = int ((MAXOPBLOCKS - 1 - 1 - 2) div 2 * 512)"

text \<open>The loop of \<open>filewrite\<close> from \<open>i\<close>. Every turn writes at least one byte, so \<open>n\<close> bounds the turns.\<close>

fun filewrite_loop :: "nat \<Rightarrow> nat \<Rightarrow> nat \<Rightarrow> int \<Rightarrow> int \<Rightarrow> 'a filek_scheme \<Rightarrow> (int \<times> 'a filek_scheme) res" where
  "filewrite_loop 0 f addr i n s = Ok (i, s)"
| "filewrite_loop (Suc k) f addr i n s =
     (if i < n
      then
        let n1 = (if filewrite_max < n - i then filewrite_max else n - i); ip = f_ip (ftable s f)
        in bindr (begin_op s) (\<lambda>s.
           bindr (ilock ip s) (\<lambda>s.
           bindr (uget (addr + nat i) (nat n1) s) (\<lambda>bs.
           bindr (writei ip bs (f_off (ftable s f)) s) (\<lambda>(r, s).
           let s = (if 0 < r then upd_file f (\<lambda>y. y\<lparr>f_off := wrap32 (f_off y + nat r)\<rparr>) s else s)
           in bindr (iunlock ip s) (\<lambda>s.
              bindr (end_op s) (\<lambda>s.
              if r < 0 then Ok (i, s)
              else if r \<noteq> n1 then Panic ''short filewrite''
              else filewrite_loop k f addr (i + r) n s))))))
      else Ok (i, s))"

definition filewrite :: "nat \<Rightarrow> nat \<Rightarrow> int \<Rightarrow> 'a filek_scheme \<Rightarrow> (int \<times> 'a filek_scheme) res" where
  "filewrite f addr n s =
     (let x = ftable s f
      in if \<not> f_writable x then Ok (-1, s)
         else if f_type x = FD_PIPE then pipewrite (f_pipe x) addr n s
         else if f_type x = FD_INODE
         then bindr (filewrite_loop (nat n) f addr 0 n s) (\<lambda>(i, s). Ok (if i = n then n else -1, s))
         else Panic ''filewrite'')"

section \<open>Making a pipe\<close>

text \<open>The cleanup of \<open>pipealloc\<close> after a failure (label \<open>bad\<close>); no page has been allocated then.\<close>

definition pipe_bad :: "nat option \<Rightarrow> nat option \<Rightarrow> 'a filek_scheme \<Rightarrow> ((nat \<times> nat) option \<times> 'a filek_scheme) res" where
  "pipe_bad f0 f1 s =
     bindr (case f0 of Some f \<Rightarrow> fileclose f s | None \<Rightarrow> Ok s) (\<lambda>s.
     bindr (case f1 of Some f \<Rightarrow> fileclose f s | None \<Rightarrow> Ok s) (\<lambda>s.
     Ok (None, s)))"

definition pipealloc :: "'a filek_scheme \<Rightarrow> ((nat \<times> nat) option \<times> 'a filek_scheme) res" where
  "pipealloc s =
     bindr (filealloc s) (\<lambda>(f0, s).
     case f0 of
       None \<Rightarrow> pipe_bad None None s
     | Some a \<Rightarrow>
         bindr (filealloc s) (\<lambda>(f1, s).
         case f1 of
           None \<Rightarrow> pipe_bad (Some a) None s
         | Some b \<Rightarrow>
             bindr (kalloc s) (\<lambda>(p, s).
             if p = 0 then pipe_bad (Some a) (Some b) s
             else
               let s = upd_pipe p (\<lambda>x. x\<lparr>pp_readopen := True, pp_writeopen := True, pp_nwrite := 0, pp_nread := 0\<rparr>) s;
                   s = upd_file a (\<lambda>x. x\<lparr>f_type := FD_PIPE, f_readable := True, f_writable := False, f_pipe := p\<rparr>) s;
                   s = upd_file b (\<lambda>x. x\<lparr>f_type := FD_PIPE, f_readable := False, f_writable := True, f_pipe := p\<rparr>) s
               in Ok (Some (a, b), s))))"

end
