(* ===== verification/Proc.thy ===== *)
theory Proc
  imports File
begin

text \<open>
  \<open>proc.c\<close>: creation and end of processes, waiting, killing, sleeping and the scheduler. A switch
  between a process and the scheduler of the CPU (\<open>swtch\<close>) cuts a function in two: \<open>f_enter\<close> is the
  part up to the switch and \<open>f_exit\<close> the part after it. A process that enters the scheduler for
  good (\<open>exit\<close>) has no second part.
\<close>

section \<open>State\<close>

text \<open>\<open>forkret_first\<close>: the static variable \<open>first\<close> of \<open>forkret\<close>.\<close>

record prock = filek +
  forkret_first :: bool

definition copy_name :: "byte list \<Rightarrow> byte list \<Rightarrow> byte list" where
  "copy_name old src = bytes_at (safestrcpy (arr old) 0 (arr src) 0 16) 0 16"

section \<open>Creating processes\<close>

text \<open>
  \<open>allocproc\<close>. The trap frame and the context lie at the top of the new kernel stack: \<open>p_tf\<close> keeps
  whatever the page holds, the context is cleared.
\<close>

definition allocproc :: "'a ksys_scheme \<Rightarrow> (nat option \<times> 'a ksys_scheme) res" where
  "allocproc s =
     bindr (acquire LPtable s) (\<lambda>s.
     case first_idx NPROC (\<lambda>i. p_state (ptable s ! i) = UNUSED) of
       None \<Rightarrow> bindr (release LPtable s) (\<lambda>s. Ok (None, s))
     | Some p \<Rightarrow>
         let pid = nextpid s;
             s = upd_proc p (\<lambda>x. x\<lparr>p_state := EMBRYO, p_pid := pid\<rparr>) (s\<lparr>nextpid := pid + 1\<rparr>)
         in bindr (release LPtable s) (\<lambda>s.
            bindr (kalloc s) (\<lambda>(kstack, s).
            let s = upd_proc p (\<lambda>x. x\<lparr>p_kstack := kstack\<rparr>) s
            in if kstack = 0 then Ok (None, upd_proc p (\<lambda>x. x\<lparr>p_state := UNUSED\<rparr>) s)
               else
                 bindr (kalloc s) (\<lambda>(oldtf, s).
                 let s = upd_proc p (\<lambda>x. x\<lparr>p_oldtf_page := oldtf\<rparr>) s
                 in if oldtf = 0 then Ok (None, s)
                    else Ok (Some p, upd_proc p (\<lambda>x. x\<lparr>p_context :=
                      \<lparr>ctx_edi = 0, ctx_esi = 0, ctx_ebx = 0, ctx_ebp = 0, ctx_eip = Forkret\<rparr>\<rparr>) s)))))"

text \<open>\<open>SEG_UCODE << 3 | DPL_USER\<close>, \<open>SEG_UDATA << 3 | DPL_USER\<close> and \<open>FL_IF\<close>.\<close>

definition USER_CS :: nat where "USER_CS = 27"
definition USER_DS :: nat where "USER_DS = 35"
definition FL_IF :: nat where "FL_IF = 512"

text \<open>\<open>initcode\<close>: the bytes of the first user program, linked into the kernel.\<close>

definition userinit :: "byte list \<Rightarrow> 'a vmk_scheme \<Rightarrow> 'a vmk_scheme res" where
  "userinit initcode s =
     bindr (allocproc s) (\<lambda>(p, s).
     case p of
       None \<Rightarrow> Panic ''trap''
     | Some p \<Rightarrow>
         let s = s\<lparr>initproc := Some p\<rparr>
         in bindr (setupkvm s) (\<lambda>(pgdir, s).
            let s = upd_proc p (\<lambda>x. x\<lparr>p_pgdir := pgdir\<rparr>) s
            in if pgdir = 0 then Panic ''userinit: out of memory?''
               else
                 bindr (inituvm pgdir initcode s) (\<lambda>s.
                 let s = upd_proc p (\<lambda>x. x\<lparr>p_sz := PGSIZE, p_tf := zero_tf\<lparr>tf_cs := USER_CS, tf_ds := USER_DS,
                       tf_es := USER_DS, tf_ss := USER_DS, tf_eflags := FL_IF, tf_esp := PGSIZE, tf_eip := 0\<rparr>,
                       p_name := copy_name (p_name x) (map of_char ''initcode'' @ [0])\<rparr>) s
                 in bindr (namei [47] s) (\<lambda>(ip, s).
                    let s = upd_proc p (\<lambda>x. x\<lparr>p_cwd := ip\<rparr>) s
                    in bindr (acquire LPtable s) (\<lambda>s.
                       release LPtable (upd_proc p (\<lambda>x. x\<lparr>p_state := RUNNABLE\<rparr>) s))))))"

definition growproc :: "int \<Rightarrow> 'a vmk_scheme \<Rightarrow> (int \<times> 'a vmk_scheme) res" where
  "growproc n s =
     (let sz = p_sz (myproc s); pgdir = p_pgdir (myproc s); me = the (cur s);
          fin = (\<lambda>sz s. let s = upd_proc me (\<lambda>x. x\<lparr>p_sz := sz\<rparr>) s
                         in bindr (switchuvm (Some (myproc s)) s) (\<lambda>s. Ok (0, s)))
      in if 0 < n
         then bindr (allocuvm pgdir sz (u32_of (int sz + n)) s) (\<lambda>(sz, s).
              if sz = 0 then Ok (-1, s) else fin sz s)
         else if n < 0
         then bindr (deallocuvm pgdir sz (u32_of (int sz + n)) s) (\<lambda>(sz, s).
              if sz = 0 then Ok (-1, s) else fin sz s)
         else fin sz s)"

text \<open>The loop of \<open>fork\<close> over the open files.\<close>

fun dup_files :: "nat \<Rightarrow> nat \<Rightarrow> nat \<Rightarrow> 'a filek_scheme \<Rightarrow> 'a filek_scheme res" where
  "dup_files 0 i np s = Ok s"
| "dup_files (Suc k) i np s =
     (case p_ofile (myproc s) ! i of
        None \<Rightarrow> dup_files k (i + 1) np s
      | Some f \<Rightarrow>
          bindr (filedup f s) (\<lambda>s.
          dup_files k (i + 1) np (upd_proc np (\<lambda>x. x\<lparr>p_ofile := (p_ofile x)[i := Some f]\<rparr>) s)))"

definition fork :: "'a filek_scheme \<Rightarrow> (int \<times> 'a filek_scheme) res" where
  "fork s =
     bindr (allocproc s) (\<lambda>(np, s).
     case np of
       None \<Rightarrow> Ok (-1, s)
     | Some np \<Rightarrow>
         bindr (copyuvm (p_pgdir (myproc s)) (p_sz (myproc s)) s) (\<lambda>(pgdir, s).
         let s = upd_proc np (\<lambda>x. x\<lparr>p_pgdir := pgdir\<rparr>) s
         in if pgdir = 0
            then bindr (kfree (p_kstack (ptable s ! np)) s) (\<lambda>s.
                 Ok (-1, upd_proc np (\<lambda>x. x\<lparr>p_kstack := 0, p_state := UNUSED\<rparr>) s))
            else
              let s = upd_proc np (\<lambda>x. x\<lparr>p_sz := p_sz (myproc s), p_parent := cur s,
                        p_tf := (p_tf (myproc s))\<lparr>tf_eax := 0\<rparr>\<rparr>) s
              in bindr (dup_files NOFILE 0 np s) (\<lambda>s.
                 bindr (idup (the (p_cwd (myproc s))) s) (\<lambda>(cwd, s).
                 let s = upd_proc np (\<lambda>x. x\<lparr>p_cwd := Some cwd, p_name := copy_name (p_name x) (p_name (myproc s))\<rparr>) s;
                     pid = p_pid (ptable s ! np)
                 in bindr (acquire LPtable s) (\<lambda>s.
                    bindr (release LPtable (upd_proc np (\<lambda>x. x\<lparr>p_state := RUNNABLE\<rparr>) s)) (\<lambda>s.
                    Ok (pid, s)))))))"

section \<open>Switching to the scheduler\<close>

text \<open>
  \<open>sched\<close> up to \<open>swtch\<close>. The nesting depth \<open>ncli\<close> of the CPU is the number of spin locks it holds,
  and interrupts are off while it is positive.
\<close>

definition sched_enter :: "'a ksys_scheme \<Rightarrow> 'a ksys_scheme res" where
  "sched_enter s =
     (if LPtable \<notin> held s then Panic ''sched ptable.lock''
      else if card (held s) \<noteq> 1 then Panic ''sched locks''
      else if p_state (myproc s) = RUNNING then Panic ''sched running''
      else Ok s)"

definition yield_enter :: "'a ksys_scheme \<Rightarrow> 'a ksys_scheme res" where
  "yield_enter s =
     bindr (acquire LPtable s) (\<lambda>s.
     sched_enter (upd_proc (the (cur s)) (\<lambda>x. x\<lparr>p_state := RUNNABLE\<rparr>) s))"

definition yield_exit :: "'a ksys_scheme \<Rightarrow> 'a ksys_scheme res" where
  "yield_exit s = release LPtable s"

text \<open>\<open>lk\<close> is \<open>None\<close> for a null lock pointer.\<close>

definition sleep_enter :: "chan \<Rightarrow> klock option \<Rightarrow> 'a ksys_scheme \<Rightarrow> 'a ksys_scheme res" where
  "sleep_enter ch lk s =
     (if cur s = None then Panic ''sleep''
      else case lk of
        None \<Rightarrow> Panic ''sleep without lk''
      | Some lk \<Rightarrow>
          bindr (if lk \<noteq> LPtable then bindr (acquire LPtable s) (release lk) else Ok s) (\<lambda>s.
          sched_enter (upd_proc (the (cur s)) (\<lambda>x. x\<lparr>p_chan := ch, p_state := SLEEPING\<rparr>) s)))"

definition sleep_exit :: "klock \<Rightarrow> 'a ksys_scheme \<Rightarrow> 'a ksys_scheme res" where
  "sleep_exit lk s =
     (let s = upd_proc (the (cur s)) (\<lambda>x. x\<lparr>p_chan := ChInt 0\<rparr>) s
      in if lk \<noteq> LPtable then bindr (release LPtable s) (acquire lk) else Ok s)"

text \<open>
  The scheduler holds \<open>ptable.lock\<close> and looks at the table from index \<open>p\<close> on, with \<open>k\<close> entries left:
  it stops where it runs a process, or with \<open>None\<close> at the end of the table.
\<close>

fun scheduler_scan :: "nat \<Rightarrow> nat \<Rightarrow> 'a vmk_scheme \<Rightarrow> (nat option \<times> 'a vmk_scheme) res" where
  "scheduler_scan 0 p s = Ok (None, s)"
| "scheduler_scan (Suc k) p s =
     (if p_state (ptable s ! p) \<noteq> RUNNABLE then scheduler_scan k (p + 1) s
      else
        bindr (switchuvm (Some (ptable s ! p)) (s\<lparr>cur := Some p\<rparr>)) (\<lambda>s.
        Ok (Some p, upd_proc p (\<lambda>x. x\<lparr>p_state := RUNNING\<rparr>) s)))"

definition scheduler_resume :: "'a vmk_scheme \<Rightarrow> 'a vmk_scheme" where
  "scheduler_resume s = (switchkvm s)\<lparr>cur := None\<rparr>"

text \<open>
  The pass over the table from index \<open>p\<close>: \<open>run i\<close> stands for what process \<open>i\<close> does until it switches
  back. A round of the outer loop acquires the lock, makes a pass and releases the lock.
\<close>

fun scheduler_pass :: "nat \<Rightarrow> (nat \<Rightarrow> 'a vmk_scheme \<Rightarrow> 'a vmk_scheme res) \<Rightarrow> nat \<Rightarrow> 'a vmk_scheme \<Rightarrow>
    (nat list \<times> 'a vmk_scheme) res" where
  "scheduler_pass 0 run p s = Ok ([], s)"
| "scheduler_pass (Suc k) run p s =
     bindr (scheduler_scan (NPROC - p) p s) (\<lambda>(r, s).
     case r of
       None \<Rightarrow> Ok ([], s)
     | Some i \<Rightarrow>
         bindr (run i s) (\<lambda>s.
         bindr (scheduler_pass k run (i + 1) (scheduler_resume s)) (\<lambda>(is, s). Ok (i # is, s))))"

definition scheduler_round :: "(nat \<Rightarrow> 'a vmk_scheme \<Rightarrow> 'a vmk_scheme res) \<Rightarrow> 'a vmk_scheme \<Rightarrow>
    (nat list \<times> 'a vmk_scheme) res" where
  "scheduler_round run s =
     bindr (acquire LPtable s) (\<lambda>s.
     bindr (scheduler_pass (NPROC + 1) run 0 s) (\<lambda>(is, s).
     bindr (release LPtable s) (\<lambda>s. Ok (is, s))))"

definition forkret :: "'a prock_scheme \<Rightarrow> 'a prock_scheme res" where
  "forkret s =
     bindr (release LPtable s) (\<lambda>s.
     if forkret_first s
     then bindr (iinit ROOTDEV (s\<lparr>forkret_first := False\<rparr>)) (initlog ROOTDEV)
     else Ok s)"

section \<open>Exit, wait and kill\<close>

definition proc_chan :: "nat option \<Rightarrow> chan" where
  "proc_chan p = (case p of Some i \<Rightarrow> ChProc i | None \<Rightarrow> ChInt 0)"

fun close_files :: "nat \<Rightarrow> nat \<Rightarrow> 'a filek_scheme \<Rightarrow> 'a filek_scheme res" where
  "close_files 0 fd s = Ok s"
| "close_files (Suc k) fd s =
     (case p_ofile (myproc s) ! fd of
        None \<Rightarrow> close_files k (fd + 1) s
      | Some f \<Rightarrow>
          bindr (fileclose f s) (\<lambda>s.
          close_files k (fd + 1) (upd_proc (the (cur s)) (\<lambda>x. x\<lparr>p_ofile := (p_ofile x)[fd := None]\<rparr>) s)))"

text \<open>Pass the children of process \<open>me\<close> to \<open>initproc\<close>.\<close>

fun reparent :: "nat \<Rightarrow> nat \<Rightarrow> nat \<Rightarrow> 'a ksys_scheme \<Rightarrow> 'a ksys_scheme" where
  "reparent 0 p me s = s"
| "reparent (Suc k) p me s =
     (if p_parent (ptable s ! p) = Some me
      then
        let s = upd_proc p (\<lambda>x. x\<lparr>p_parent := initproc s\<rparr>) s;
            s = (if p_state (ptable s ! p) = ZOMBIE then wakeup1 (proc_chan (initproc s)) s else s)
        in reparent k (p + 1) me s
      else reparent k (p + 1) me s)"

text \<open>\<open>exit\<close> up to the switch that never comes back.\<close>

definition exit_enter :: "'a filek_scheme \<Rightarrow> 'a filek_scheme res" where
  "exit_enter s =
     (let me = the (cur s)
      in if cur s = initproc s then Panic ''init exiting''
         else
           bindr (close_files NOFILE 0 s) (\<lambda>s.
           bindr (begin_op s) (\<lambda>s.
           bindr (iput (the (p_cwd (myproc s))) s) (\<lambda>s.
           bindr (end_op s) (\<lambda>s.
           bindr (acquire LPtable (upd_proc me (\<lambda>x. x\<lparr>p_cwd := None\<rparr>) s)) (\<lambda>s.
           let s = wakeup1 (proc_chan (p_parent (myproc s))) s;
               s = reparent NPROC 0 me s
           in sched_enter (upd_proc me (\<lambda>x. x\<lparr>p_state := ZOMBIE\<rparr>) s)))))))"

text \<open>What \<open>wait\<close> does with the zombie child \<open>p\<close>.\<close>

definition reap :: "nat \<Rightarrow> 'a ksys_scheme \<Rightarrow> 'a ksys_scheme res" where
  "reap p s =
     bindr (kfree (p_kstack (ptable s ! p)) s) (\<lambda>s.
     let s = upd_proc p (\<lambda>x. x\<lparr>p_kstack := 0\<rparr>) s
     in bindr (freevm (p_pgdir (ptable s ! p)) s) (\<lambda>s.
        Ok (upd_proc p (\<lambda>x. x\<lparr>p_pid := 0, p_parent := None, p_name := (p_name x)[0 := 0], p_killed := False,
              p_state := UNUSED\<rparr>) s)))"

text \<open>The scan meets a zombie child first, or finds out whether there are children at all.\<close>

definition wait :: "'a ksys_scheme \<Rightarrow> (int \<times> 'a ksys_scheme) res" where
  "wait s =
     bindr (acquire LPtable s) (\<lambda>s.
     let child = (\<lambda>i. p_parent (ptable s ! i) = cur s)
     in case first_idx NPROC (\<lambda>i. child i \<and> p_state (ptable s ! i) = ZOMBIE) of
          Some p \<Rightarrow>
            let pid = p_pid (ptable s ! p)
            in bindr (reap p s) (\<lambda>s. bindr (release LPtable s) (\<lambda>s. Ok (pid, s)))
        | None \<Rightarrow>
            if first_idx NPROC child = None \<or> p_killed (myproc s)
            then bindr (release LPtable s) (\<lambda>s. Ok (-1, s))
            else Block (proc_chan (cur s)))"

definition kill :: "int \<Rightarrow> 'a ksys_scheme \<Rightarrow> (int \<times> 'a ksys_scheme) res" where
  "kill pid s =
     bindr (acquire LPtable s) (\<lambda>s.
     case first_idx NPROC (\<lambda>i. p_pid (ptable s ! i) = pid) of
       Some p \<Rightarrow>
         let s = upd_proc p (\<lambda>x. x\<lparr>p_killed := True\<rparr>) s;
             s = (if p_state (ptable s ! p) = SLEEPING then upd_proc p (\<lambda>x. x\<lparr>p_state := RUNNABLE\<rparr>) s else s)
         in bindr (release LPtable s) (\<lambda>s. Ok (0, s))
     | None \<Rightarrow> bindr (release LPtable s) (\<lambda>s. Ok (-1, s)))"

end
