(* ===== verification/Exec.thy ===== *)
theory Exec
  imports Proc
begin

text \<open>
  \<open>exec.c\<close>: loading an ELF program. The path and the arguments are the strings the user pointers
  point to.
\<close>

definition MAXARG :: nat where "MAXARG = 32"
definition ELF_MAGIC :: nat where "ELF_MAGIC = 1179403647"

lemmas [layout_simps] = MAXARG_def ELF_MAGIC_def

text \<open>\<open>struct elfhdr\<close> (52 bytes) and \<open>struct proghdr\<close> (32 bytes): the fields \<open>exec\<close> uses.\<close>

record elfhdr =
  e_magic :: nat
  e_entry :: nat
  e_phoff :: nat
  e_phnum :: nat

definition elf_of :: "byte list \<Rightarrow> elfhdr" where
  "elf_of bs = (let m = arr bs in
     \<lparr>e_magic = rd32 m 0, e_entry = rd32 m 24, e_phoff = rd32 m 28, e_phnum = rd16 m 44\<rparr>)"

record proghdr =
  ph_type :: nat
  ph_off :: nat
  ph_vaddr :: nat
  ph_filesz :: nat
  ph_memsz :: nat

definition ph_of :: "byte list \<Rightarrow> proghdr" where
  "ph_of bs = (let m = arr bs in
     \<lparr>ph_type = rd32 m 0, ph_off = rd32 m 4, ph_vaddr = rd32 m 8, ph_filesz = rd32 m 16, ph_memsz = rd32 m 20\<rparr>)"

text \<open>The code at the label \<open>bad\<close>: \<open>pgdir\<close> is 0 before it is set up, \<open>ip\<close> is \<open>None\<close> after it is released.\<close>

definition exec_bad :: "nat \<Rightarrow> nat option \<Rightarrow> 'a filek_scheme \<Rightarrow> (int \<times> 'a filek_scheme) res" where
  "exec_bad pgdir ip s =
     bindr (if pgdir \<noteq> 0 then freevm pgdir s else Ok s) (\<lambda>s.
     bindr (case ip of Some i \<Rightarrow> bindr (iunlockput i s) end_op | None \<Rightarrow> Ok s) (\<lambda>s.
     Ok (-1, s)))"

text \<open>The loop over the program headers, \<open>k\<close> left; \<open>None\<close> is a jump to \<open>bad\<close>.\<close>

fun exec_load :: "nat \<Rightarrow> nat \<Rightarrow> nat \<Rightarrow> nat \<Rightarrow> nat \<Rightarrow> 'a filek_scheme \<Rightarrow> (nat option \<times> 'a filek_scheme) res" where
  "exec_load 0 off sz ip pgdir s = Ok (Some sz, s)"
| "exec_load (Suc k) off sz ip pgdir s =
     bindr (readi ip off 32 s) (\<lambda>(r, bs, s).
     if r \<noteq> 32 then Ok (None, s)
     else
       let ph = ph_of bs; off' = wrap32 (off + 32)
       in if ph_type ph \<noteq> 1 then exec_load k off' sz ip pgdir s
          else if ph_memsz ph < ph_filesz ph then Ok (None, s)
          else if wrap32 (ph_vaddr ph + ph_memsz ph) < ph_vaddr ph then Ok (None, s)
          else
            bindr (allocuvm pgdir sz (wrap32 (ph_vaddr ph + ph_memsz ph)) s) (\<lambda>(sz, s).
            if sz = 0 then Ok (None, s)
            else if ph_vaddr ph mod PGSIZE \<noteq> 0 then Ok (None, s)
            else
              bindr (loaduvm pgdir (ph_vaddr ph) ip (ph_off ph) (ph_filesz ph) s) (\<lambda>(r, s).
              if r < 0 then Ok (None, s) else exec_load k off' sz ip pgdir s)))"

text \<open>Pushing the argument strings; the result is the stack pointer and \<open>ustack[3..]\<close>.\<close>

fun push_args :: "nat \<Rightarrow> byte list list \<Rightarrow> nat \<Rightarrow> nat \<Rightarrow> nat list \<Rightarrow> 'a ksys_scheme \<Rightarrow>
    ((nat \<times> nat list) option \<times> 'a ksys_scheme) res" where
  "push_args argc [] pgdir sp us s = Ok (Some (sp, us), s)"
| "push_args argc (a # as) pgdir sp us s =
     (if MAXARG \<le> argc then Ok (None, s)
      else
        let sp = sub32 sp (length a + 1) div 4 * 4
        in bindr (copyout pgdir sp (a @ [0]) s) (\<lambda>(r, s).
           if r < 0 then Ok (None, s) else push_args (argc + 1) as pgdir sp (us @ [sp]) s))"

definition word_bytes :: "nat \<Rightarrow> byte list" where
  "word_bytes w = bytes_at (wr32 (\<lambda>_. 0) 0 w) 0 4"

text \<open>The part of the path after its last slash.\<close>

fun last_elem :: "byte list \<Rightarrow> byte list \<Rightarrow> byte list" where
  "last_elem [] lst = lst"
| "last_elem (c # cs) lst = last_elem cs (if c = 47 then cs else lst)"

text \<open>From the stack on: \<open>entry\<close> is the start address of the program.\<close>

definition exec_stack :: "nat \<Rightarrow> nat \<Rightarrow> nat \<Rightarrow> byte list \<Rightarrow> byte list list \<Rightarrow> 'a filek_scheme \<Rightarrow>
    (int \<times> 'a filek_scheme) res" where
  "exec_stack entry pgdir sz path argv s =
     bindr (allocuvm pgdir (PGROUNDUP sz) (wrap32 (PGROUNDUP sz + 2 * PGSIZE)) s) (\<lambda>(sz, s).
     if sz = 0 then exec_bad pgdir None s
     else
       bindr (clearpteu pgdir (sub32 sz (2 * PGSIZE)) s) (\<lambda>s.
       bindr (push_args 0 argv pgdir sz [] s) (\<lambda>(r, s).
       case r of
         None \<Rightarrow> exec_bad pgdir None s
       | Some (sp, us) \<Rightarrow>
           let argc = length argv;
               ustack = [4294967295, argc, sub32 sp ((argc + 1) * 4)] @ us @ [0];
               sp = sub32 sp ((3 + argc + 1) * 4)
           in bindr (copyout pgdir sp (concat (map word_bytes ustack)) s) (\<lambda>(r, s).
              if r < 0 then exec_bad pgdir None s
              else
                let oldpgdir = p_pgdir (myproc s); me = the (cur s);
                    s = upd_proc me (\<lambda>x. x\<lparr>p_name := copy_name (p_name x) (last_elem path path @ [0]),
                          p_pgdir := pgdir, p_sz := sz, p_tf := (p_tf x)\<lparr>tf_eip := entry, tf_esp := sp\<rparr>\<rparr>) s
                in bindr (switchuvm (Some (myproc s)) s) (\<lambda>s.
                   bindr (freevm oldpgdir s) (\<lambda>s. Ok (0, s)))))))"

definition exec :: "byte list \<Rightarrow> byte list list \<Rightarrow> 'a filek_scheme \<Rightarrow> (int \<times> 'a filek_scheme) res" where
  "exec path argv s =
     bindr (begin_op s) (\<lambda>s.
     bindr (namei path s) (\<lambda>(ip, s).
     case ip of
       None \<Rightarrow> bindr (end_op s) (\<lambda>s. bindr (cprintf (chars ''exec: fail'' @ [10]) [] s) (\<lambda>s. Ok (-1, s)))
     | Some ip \<Rightarrow>
         bindr (ilock ip s) (\<lambda>s.
         bindr (readi ip 0 52 s) (\<lambda>(r, bs, s).
         let elf = elf_of bs
         in if r \<noteq> 52 then exec_bad 0 (Some ip) s
            else if e_magic elf \<noteq> ELF_MAGIC then exec_bad 0 (Some ip) s
            else
              bindr (setupkvm s) (\<lambda>(pgdir, s).
              if pgdir = 0 then exec_bad 0 (Some ip) s
              else
                bindr (exec_load (e_phnum elf) (e_phoff elf) 0 ip pgdir s) (\<lambda>(sz, s).
                case sz of
                  None \<Rightarrow> exec_bad pgdir (Some ip) s
                | Some sz \<Rightarrow>
                    bindr (iunlockput ip s) (\<lambda>s.
                    bindr (end_op s) (\<lambda>s.
                    exec_stack (e_entry elf) pgdir sz path argv s))))))))"

end
