(* ===== verification/Boot.thy ===== *)
theory Boot
  imports Exec BioSpec
begin

text \<open>
  The boot loader, \<open>bootmain.c\<close>: it reads the kernel, an ELF image, from the sectors behind the boot
  sector and enters it. Memory is the physical memory of the machine, \<open>dk d s\<close> the bytes of sector
  \<open>s\<close> of drive \<open>d\<close>. The loops run over pointers of 32 bits; \<open>None\<close> is a loop that does not end.
\<close>

section \<open>bootmain.c\<close>

definition SECTSIZE :: nat where "SECTSIZE = 512"
definition BOOT_ELF :: nat where "BOOT_ELF = 65536"

text \<open>
  The registers \<open>0x1F3\<close> to \<open>0x1F6\<close> as \<open>readsect\<close> loads them; the drive and the sector they
  address are those of \<open>ide_target\<close>. \<open>waitdisk\<close> polls until the drive is ready.
\<close>

definition boot_regs :: "nat \<Rightarrow> nat list" where
  "boot_regs offset =
     [offset AND 255, drop_bit 8 offset AND 255, drop_bit 16 offset AND 255, (drop_bit 24 offset OR 224) AND 255]"

definition readsect :: "(nat \<Rightarrow> nat \<Rightarrow> mem) \<Rightarrow> nat \<Rightarrow> nat \<Rightarrow> mem \<Rightarrow> mem" where
  "readsect dk dst offset m = (let (d, sec) = ide_target (boot_regs offset) in blit (dk d sec) 0 m dst (4 * (SECTSIZE div 4)))"

partial_function (option) readseg_loop :: "(nat \<Rightarrow> nat \<Rightarrow> mem) \<Rightarrow> nat \<Rightarrow> nat \<Rightarrow> nat \<Rightarrow> mem \<Rightarrow> mem option" where
  "readseg_loop dk pa epa offset m =
     (if pa < epa then readseg_loop dk (wrap32 (pa + SECTSIZE)) epa (wrap32 (offset + 1)) (readsect dk pa offset m)
      else Some m)"

definition readseg :: "(nat \<Rightarrow> nat \<Rightarrow> mem) \<Rightarrow> nat \<Rightarrow> nat \<Rightarrow> nat \<Rightarrow> mem \<Rightarrow> mem option" where
  "readseg dk pa count offset m =
     (let epa = wrap32 (pa + count);
          pa = sub32 pa (offset mod SECTSIZE);
          offset = wrap32 (offset div SECTSIZE + 1)
      in readseg_loop dk pa epa offset m)"

text \<open>The loop over the program headers, which are read where they lie in memory.\<close>

partial_function (option) bootmain_loop :: "(nat \<Rightarrow> nat \<Rightarrow> mem) \<Rightarrow> nat \<Rightarrow> nat \<Rightarrow> mem \<Rightarrow> mem option" where
  "bootmain_loop dk ph eph m =
     (if ph < eph
      then let pa = rd32 m (ph + 12)
           in Option.bind (readseg dk pa (rd32 m (ph + 16)) (rd32 m (ph + 4)) m) (\<lambda>m.
              bootmain_loop dk (wrap32 (ph + 32)) eph
                (if rd32 m (ph + 16) < rd32 m (ph + 20)
                 then stosb (wrap32 (pa + rd32 m (ph + 16))) 0 (rd32 m (ph + 20) - rd32 m (ph + 16)) m
                 else m))
      else Some m)"

text \<open>\<open>bootmain\<close>: the memory and the address that is called, none when the function returns.\<close>

definition bootmain :: "(nat \<Rightarrow> nat \<Rightarrow> mem) \<Rightarrow> mem \<Rightarrow> (nat option \<times> mem) option" where
  "bootmain dk m =
     Option.bind (readseg dk BOOT_ELF 4096 0 m) (\<lambda>m.
     if rd32 m BOOT_ELF \<noteq> ELF_MAGIC then Some (None, m)
     else
       let ph = wrap32 (BOOT_ELF + rd32 m (BOOT_ELF + 28));
           eph = wrap32 (ph + 32 * rd16 m (BOOT_ELF + 44))
       in Option.bind (bootmain_loop dk ph eph m) (\<lambda>m. Some (Some (rd32 m (BOOT_ELF + 24)), m)))"

section \<open>Reading\<close>

lemma ceil512: "(x + (512 - 1)) div 512 * 512 \<le> x + 511" "x + 511 < ((x + (512 - 1)) div 512 + 1) * (512 :: nat)"
proof -
  have e: "x + (512 - 1) = x + 511" by simp
  show "(x + (512 - 1)) div 512 * 512 \<le> x + 511" unfolding e by (rule div_times_less_eq_dividend)
  have "x + 511 < 512 + (x + 511) div 512 * 512" by (rule dividend_less_div_times) simp
  then show "x + 511 < ((x + (512 - 1)) div 512 + 1) * 512" unfolding e add_mult_distrib mult_1 by (simp only: add.commute)
qed

lemma in512: "y < 512 \<Longrightarrow> (512 * k + y) div 512 = (k :: nat)" "y < 512 \<Longrightarrow> (512 * k + y) mod 512 = (y :: nat)"
  by simp_all

text \<open>The kernel's file: it starts at sector 1.\<close>

definition kimage :: "(nat \<Rightarrow> nat \<Rightarrow> mem) \<Rightarrow> mem" where
  "kimage dk x = dk 0 (1 + x div SECTSIZE) (x mod SECTSIZE)"

lemma boot_target: "sector < 16777216 \<Longrightarrow> ide_target (boot_regs sector) = (0, sector)"
proof -
  assume sec: "sector < 16777216"
  have "sector mod 256 + 256 * (sector div 256 mod 256) + 65536 * (sector div 65536) = sector"
    using sec mod_digits4 [of sector] by simp
  moreover have "drop_bit 24 sector = 0" using sec by (simp add: drop_bit_eq_div)
  ultimately show ?thesis by (auto simp: ide_target_def boot_regs_def and_255 drop_bit_eq_div)
qed

lemma readseg_loop_ok:
  assumes "epa \<le> st + 512 * n" "n = 0 \<or> st + 512 * (n - 1) < epa" "st + 512 * n < u32_mod" "k + n < 16777216"
  shows "readseg_loop dk st epa (k + 1) m = Some (blit (kimage dk) (512 * k) m st (512 * n))"
  using assms
proof (induction n arbitrary: st k m)
  case 0
  then show ?case by (simp add: readseg_loop.simps [of dk st])
next
  case (Suc n)
  have lt: "st < epa" using Suc.prems(2) by auto
  have w: "wrap32 (st + SECTSIZE) = st + 512" "wrap32 (k + 1 + 1) = (k + 1) + 1"
    using Suc.prems(3,4) by (simp_all add: SECTSIZE_def)
  have "readseg_loop dk st epa (k + 1) m = readseg_loop dk (st + 512) epa ((k + 1) + 1) (readsect dk st (k + 1) m)"
    unfolding readseg_loop.simps [of dk st] if_P [OF lt] w ..
  also have "\<dots> = Some (blit (kimage dk) (512 * (k + 1)) (readsect dk st (k + 1) m) (st + 512) (512 * n))"
    by (rule Suc.IH) (use Suc.prems in auto)
  also have "blit (kimage dk) (512 * (k + 1)) (readsect dk st (k + 1) m) (st + 512) (512 * n)
      = blit (kimage dk) (512 * k) m st (512 * Suc n)"
  proof (rule ext)
    fix a
    have r: "readsect dk st (k + 1) m = blit (dk 0 (k + 1)) 0 m st 512"
      using boot_target [of "k + 1"] Suc.prems(4) by (simp add: readsect_def SECTSIZE_def)
    have "kimage dk (512 * k + (a - st)) = dk 0 (k + 1) (a - st)" if "st \<le> a" "a < st + 512"
    proof -
      have "(512 * k + (a - st)) div 512 = k" "(512 * k + (a - st)) mod 512 = a - st"
        by (rule in512, use that in simp)+
      then show ?thesis by (simp add: kimage_def SECTSIZE_def)
    qed
    moreover have "512 * (k + 1) + (a - (st + 512)) = 512 * k + (a - st)" if "st + 512 \<le> a" using that by simp
    ultimately show "blit (kimage dk) (512 * (k + 1)) (readsect dk st (k + 1) m) (st + 512) (512 * n) a
      = blit (kimage dk) (512 * k) m st (512 * Suc n) a"
      unfolding r by (auto simp: blit_def)
  qed
  finally show ?case .
qed

text \<open>
  \<open>readseg\<close> puts \<open>count\<close> bytes of the file at \<open>pa\<close>; around them it writes the rest of the first and of
  the last sector.
\<close>

definition seg_start :: "nat \<Rightarrow> nat \<Rightarrow> nat" where
  "seg_start pa off = pa - off mod SECTSIZE"

definition sectors_of :: "nat \<Rightarrow> nat \<Rightarrow> nat" where
  "sectors_of count off = (count + off mod SECTSIZE + (SECTSIZE - 1)) div SECTSIZE"

lemma readseg_ok:
  assumes "off mod SECTSIZE \<le> pa" "pa + count + SECTSIZE \<le> u32_mod" "off + count < u32_mod"
  shows "readseg dk pa count off m
    = Some (blit (kimage dk) (off - off mod SECTSIZE) m (seg_start pa off) (SECTSIZE * sectors_of count off))"
proof -
  define st n r where "st = seg_start pa off" and "n = sectors_of count off" and "r = off mod 512"
  let ?k = "off div 512"
  have st: "st = pa - off mod 512" "pa = st + r" using assms(1) by (simp_all add: st_def seg_start_def r_def SECTSIZE_def)
  have n: "n * 512 \<le> count + r + 511" "count + r + 511 < (n + 1) * 512"
    unfolding n_def r_def sectors_of_def SECTSIZE_def by (rule ceil512)+
  have off: "off = 512 * ?k + r" "r < 512" by (simp_all add: r_def)
  have "off div 512 \<le> off" by (rule div_le_dividend)
  then have k: "?k + 1 < u32_mod" using assms(3) off by linarith
  have sub: "sub32 pa (off mod 512) = pa - off mod 512"
    by (rule sub32_le) (use assms(1,2) in \<open>simp_all add: SECTSIZE_def\<close>)
  have w: "wrap32 (pa + count) = pa + count" "sub32 pa (off mod SECTSIZE) = st" "wrap32 (off div SECTSIZE + 1) = ?k + 1"
    using assms(2) wrap32_small [OF k] sub by (simp_all add: st(1) SECTSIZE_def)
  have "readseg_loop dk st (pa + count) (?k + 1) m = Some (blit (kimage dk) (512 * ?k) m st (512 * n))"
  proof (rule readseg_loop_ok)
    show "pa + count \<le> st + 512 * n" using n(2) st(2) by simp
    show "n = 0 \<or> st + 512 * (n - 1) < pa + count" using n(1) st(2) by (cases n) auto
    show "st + 512 * n < u32_mod" using n(1) st(2) assms(2) by (simp add: SECTSIZE_def)
    show "?k + n < 16777216" using n(1) off assms(2,3) by (simp add: SECTSIZE_def)
  qed
  moreover have "off - off mod SECTSIZE = 512 * ?k" by (simp add: SECTSIZE_def minus_mod_eq_mult_div)
  ultimately show ?thesis unfolding readseg_def Let_def w st_def [symmetric] n_def [symmetric] by (simp only: SECTSIZE_def)
qed

section \<open>Loading the kernel\<close>

text \<open>Program header \<open>k\<close> of the kernel's file.\<close>

definition phdr :: "(nat \<Rightarrow> nat \<Rightarrow> mem) \<Rightarrow> nat \<Rightarrow> nat" where
  "phdr dk k = rd32 (kimage dk) 28 + 32 * k"

definition bph_off :: "(nat \<Rightarrow> nat \<Rightarrow> mem) \<Rightarrow> nat \<Rightarrow> nat" where "bph_off dk k = rd32 (kimage dk) (phdr dk k + 4)"
definition bph_paddr :: "(nat \<Rightarrow> nat \<Rightarrow> mem) \<Rightarrow> nat \<Rightarrow> nat" where "bph_paddr dk k = rd32 (kimage dk) (phdr dk k + 12)"
definition bph_filesz :: "(nat \<Rightarrow> nat \<Rightarrow> mem) \<Rightarrow> nat \<Rightarrow> nat" where "bph_filesz dk k = rd32 (kimage dk) (phdr dk k + 16)"
definition bph_memsz :: "(nat \<Rightarrow> nat \<Rightarrow> mem) \<Rightarrow> nat \<Rightarrow> nat" where "bph_memsz dk k = rd32 (kimage dk) (phdr dk k + 20)"

definition bph_start :: "(nat \<Rightarrow> nat \<Rightarrow> mem) \<Rightarrow> nat \<Rightarrow> nat" where
  "bph_start dk k = seg_start (bph_paddr dk k) (bph_off dk k)"

text \<open>
  A kernel the loader can load: the program headers are in the first page of the file, the segments lie above
  the page it is read to, in increasing order, each ending where reading of the next one begins, which is up
  to a sector before its first byte.
\<close>

definition bootable :: "(nat \<Rightarrow> nat \<Rightarrow> mem) \<Rightarrow> bool" where
  "bootable dk \<longleftrightarrow> rd32 (kimage dk) 0 = ELF_MAGIC \<and> phdr dk (rd16 (kimage dk) 44) \<le> 4096
     \<and> (\<forall>k < rd16 (kimage dk) 44. BOOT_ELF + 4096 \<le> bph_start dk k
          \<and> bph_paddr dk k + bph_filesz dk k + SECTSIZE \<le> u32_mod \<and> bph_off dk k + bph_filesz dk k < u32_mod
          \<and> (\<forall>l < k. bph_paddr dk l + max (bph_filesz dk l) (bph_memsz dk l) \<le> bph_start dk k))"

definition segment_loaded :: "(nat \<Rightarrow> nat \<Rightarrow> mem) \<Rightarrow> nat \<Rightarrow> mem \<Rightarrow> bool" where
  "segment_loaded dk k m \<longleftrightarrow> (\<forall>x < max (bph_filesz dk k) (bph_memsz dk k). m (bph_paddr dk k + x) =
     (if x < bph_filesz dk k then kimage dk (bph_off dk k + x) else 0))"

definition header_in :: "(nat \<Rightarrow> nat \<Rightarrow> mem) \<Rightarrow> mem \<Rightarrow> bool" where
  "header_in dk m \<longleftrightarrow> (\<forall>x < 4096. m (BOOT_ELF + x) = kimage dk x)"

lemma header_in_at: "header_in dk m \<Longrightarrow> x + i < 4096 \<Longrightarrow> m (BOOT_ELF + x + i) = kimage dk (x + i)"
  by (simp add: header_in_def add.assoc)

lemma header_in_rd32: "header_in dk m \<Longrightarrow> x + 4 \<le> 4096 \<Longrightarrow> rd32 m (BOOT_ELF + x) = rd32 (kimage dk) x"
  using header_in_at [of dk m x 0] header_in_at [of dk m x 1] header_in_at [of dk m x 2] header_in_at [of dk m x 3]
  by (simp add: rd32_def del: One_nat_def add_Suc_right)

lemma header_in_rd16: "header_in dk m \<Longrightarrow> x + 2 \<le> 4096 \<Longrightarrow> rd16 m (BOOT_ELF + x) = rd16 (kimage dk) x"
  using header_in_at [of dk m x 0] header_in_at [of dk m x 1]
  by (simp add: rd16_def del: One_nat_def add_Suc_right)

lemma segment_read:
  assumes "BOOT_ELF + 4096 \<le> bph_start dk k" "bph_paddr dk k + bph_filesz dk k + SECTSIZE \<le> u32_mod"
    and "bph_off dk k + bph_filesz dk k < u32_mod" "header_in dk m"
  shows "\<exists>m1. readseg dk (bph_paddr dk k) (bph_filesz dk k) (bph_off dk k) m = Some m1 \<and> header_in dk m1
     \<and> (\<forall>a < bph_start dk k. m1 a = m a)
     \<and> (\<forall>x < bph_filesz dk k. m1 (bph_paddr dk k + x) = kimage dk (bph_off dk k + x))"
proof -
  let ?pa = "bph_paddr dk k" and ?fs = "bph_filesz dk k" and ?off = "bph_off dk k"
  define r n where "r = ?off mod 512" and "n = sectors_of ?fs ?off"
  have st: "?pa = bph_start dk k + r" "r < 512" and ro: "?off mod SECTSIZE = r" "?off = (?off - r) + r"
    using assms(1) by (simp_all add: bph_start_def seg_start_def r_def SECTSIZE_def BOOT_ELF_def)
  have n: "?fs + r + 511 < (n + 1) * 512" unfolding n_def r_def sectors_of_def SECTSIZE_def by (rule ceil512)
  let ?m1 = "blit (kimage dk) (?off - r) m (bph_start dk k) (512 * n)"
  have "readseg dk ?pa ?fs ?off m = Some ?m1"
    using readseg_ok [of ?off ?pa ?fs dk m, folded bph_start_def n_def, unfolded ro(1)] assms(2,3) st(1)
    by (simp only: SECTSIZE_def le_add2)
  moreover have "?m1 (?pa + x) = kimage dk (?off + x)" if "x < ?fs" for x
  proof -
    have "?pa + x < bph_start dk k + 512 * n" using that n st(1) by simp
    moreover have "?off - r + (?pa + x - bph_start dk k) = ?off + x" using st(1) ro(2) by simp
    ultimately show ?thesis using st(1) by simp
  qed
  moreover have "header_in dk ?m1" using assms(1,4) by (simp add: header_in_def)
  ultimately show ?thesis by auto
qed

text \<open>One turn of the loop, and the loop from header \<open>k\<close> on.\<close>

lemma segment_turn:
  assumes "bootable dk" "k < rd16 (kimage dk) 44" "header_in dk m"
  defines "ph \<equiv> BOOT_ELF + phdr dk k"
  shows "\<exists>m1. bootmain_loop dk ph (BOOT_ELF + phdr dk (rd16 (kimage dk) 44)) m
       = bootmain_loop dk (BOOT_ELF + phdr dk (Suc k)) (BOOT_ELF + phdr dk (rd16 (kimage dk) 44)) m1
     \<and> header_in dk m1 \<and> segment_loaded dk k m1 \<and> (\<forall>a < bph_start dk k. m1 a = m a)"
proof -
  let ?n = "rd16 (kimage dk) 44"
  have b: "phdr dk ?n \<le> 4096" "BOOT_ELF + 4096 \<le> bph_start dk k" "bph_paddr dk k + bph_filesz dk k + SECTSIZE \<le> u32_mod"
    "bph_off dk k + bph_filesz dk k < u32_mod"
    using assms(1,2) by (simp_all add: bootable_def)
  have p: "phdr dk k + 32 \<le> phdr dk ?n" "phdr dk (Suc k) = phdr dk k + 32" using assms(2) by (simp_all add: phdr_def)
  have lt: "ph < BOOT_ELF + phdr dk ?n" using p by (simp add: ph_def)
  have nx: "wrap32 (ph + 32) = BOOT_ELF + phdr dk (Suc k)" using p b(1) by (simp add: ph_def BOOT_ELF_def)
  have rd: "rd32 m (ph + 4) = bph_off dk k" "rd32 m (ph + 12) = bph_paddr dk k" "rd32 m (ph + 16) = bph_filesz dk k"
    "rd32 m (ph + 20) = bph_memsz dk k" if "header_in dk m" for m
    using header_in_rd32 [OF that, of "phdr dk k + 4"] header_in_rd32 [OF that, of "phdr dk k + 12"]
      header_in_rd32 [OF that, of "phdr dk k + 16"] header_in_rd32 [OF that, of "phdr dk k + 20"] p(1) b(1)
    by (simp_all add: ph_def bph_off_def bph_paddr_def bph_filesz_def bph_memsz_def add.assoc)
  obtain m1 where m1: "readseg dk (bph_paddr dk k) (bph_filesz dk k) (bph_off dk k) m = Some m1" "header_in dk m1"
      "\<forall>a < bph_start dk k. m1 a = m a" "\<forall>x < bph_filesz dk k. m1 (bph_paddr dk k + x) = kimage dk (bph_off dk k + x)"
    using segment_read [OF b(2,3,4) assms(3)] by blast
  let ?m2 = "if bph_filesz dk k < bph_memsz dk k
    then stosb (wrap32 (bph_paddr dk k + bph_filesz dk k)) 0 (bph_memsz dk k - bph_filesz dk k) m1 else m1"
  have w: "wrap32 (bph_paddr dk k + bph_filesz dk k) = bph_paddr dk k + bph_filesz dk k" using b(3) by (simp add: SECTSIZE_def)
  have st: "bph_start dk k \<le> bph_paddr dk k" by (simp add: bph_start_def seg_start_def)
  have "bootmain_loop dk ph (BOOT_ELF + phdr dk ?n) m = bootmain_loop dk (BOOT_ELF + phdr dk (Suc k)) (BOOT_ELF + phdr dk ?n) ?m2"
    by (subst bootmain_loop.simps) (simp only: lt if_True Let_def rd [OF assms(3)] m1(1) Option.bind.bind_lunit rd [OF m1(2)] nx)
  moreover have "header_in dk ?m2" using m1(2) b(2) st by (simp add: header_in_def stosb_fill w)
  moreover have "segment_loaded dk k ?m2" using m1(4) by (auto simp: segment_loaded_def stosb_fill w)
  moreover have "\<forall>a < bph_start dk k. ?m2 a = m a" using m1(3) st by (simp add: stosb_fill w)
  ultimately show ?thesis by blast
qed

lemma bootmain_loop_ok:
  assumes "bootable dk" "k + d = rd16 (kimage dk) 44" "header_in dk m"
  shows "\<exists>m'. bootmain_loop dk (BOOT_ELF + phdr dk k) (BOOT_ELF + phdr dk (k + d)) m = Some m' \<and> header_in dk m'
     \<and> (\<forall>l. k \<le> l \<and> l < k + d \<longrightarrow> segment_loaded dk l m')
     \<and> (\<forall>a. (\<forall>l. k \<le> l \<and> l < k + d \<longrightarrow> a < bph_start dk l) \<longrightarrow> m' a = m a)"
  using assms(2,3)
proof (induction d arbitrary: k m)
  case 0
  have "bootmain_loop dk p p m = Some m" for p by (subst bootmain_loop.simps) simp
  then show ?case using "0.prems" by (auto simp: not_less)
next
  case (Suc d)
  have k: "k < rd16 (kimage dk) 44" using Suc.prems(1) by simp
  obtain m1 where m1: "bootmain_loop dk (BOOT_ELF + phdr dk k) (BOOT_ELF + phdr dk (k + Suc d)) m
       = bootmain_loop dk (BOOT_ELF + phdr dk (Suc k)) (BOOT_ELF + phdr dk (Suc k + d)) m1"
      "header_in dk m1" "segment_loaded dk k m1" "\<forall>a < bph_start dk k. m1 a = m a"
    using segment_turn [OF assms(1) k Suc.prems(2)] Suc.prems(1) by auto
  have n: "Suc k + d = rd16 (kimage dk) 44" using Suc.prems(1) by simp
  obtain m' where m': "bootmain_loop dk (BOOT_ELF + phdr dk (Suc k)) (BOOT_ELF + phdr dk (Suc k + d)) m1 = Some m'"
      "header_in dk m'" "\<And>l. Suc k \<le> l \<Longrightarrow> l < Suc k + d \<Longrightarrow> segment_loaded dk l m'"
      "\<And>a. (\<And>l. Suc k \<le> l \<Longrightarrow> l < Suc k + d \<Longrightarrow> a < bph_start dk l) \<Longrightarrow> m' a = m1 a"
    using Suc.IH [OF n m1(2)] by auto
  have ends: "bph_paddr dk k + max (bph_filesz dk k) (bph_memsz dk k) \<le> bph_start dk l" if "Suc k \<le> l" "l < Suc k + d" for l
    using assms(1) that n by (simp add: bootable_def)
  have "m' (bph_paddr dk k + x) = m1 (bph_paddr dk k + x)" if "x < max (bph_filesz dk k) (bph_memsz dk k)" for x
    by (rule m'(4)) (use ends that in \<open>meson add_less_mono add_strict_left_mono less_le_trans\<close>)
  then have "segment_loaded dk k m'" using m1(3) by (simp add: segment_loaded_def)
  then have "segment_loaded dk l m'" if "k \<le> l" "l < k + Suc d" for l
    using m'(3) [of l] that by (cases "l = k") simp_all
  moreover have "m' a = m a" if "\<And>l. k \<le> l \<Longrightarrow> l < k + Suc d \<Longrightarrow> a < bph_start dk l" for a
    using m'(4) [of a] m1(4) that by simp
  ultimately show ?case using m1(1) m'(1,2) by auto
qed

lemma readseg_header: "readseg dk BOOT_ELF 4096 0 m = Some (blit (kimage dk) 0 m BOOT_ELF 4096)"
  using readseg_ok [of 0 BOOT_ELF 4096 dk m] by (simp add: BOOT_ELF_def SECTSIZE_def seg_start_def sectors_of_def)

text \<open>
  C11: The loader loads every kernel that is bootable in this sense and enters it: after \<open>bootmain\<close> each
  segment's memory holds its bytes of the file followed by zeros, and the address called is the entry point
  of the ELF header. Sectors read beyond a segment never damage another one.
\<close>

theorem bootmain_loads:
  assumes "bootable dk"
  shows "\<exists>m'. bootmain dk m = Some (Some (rd32 (kimage dk) 24), m')
     \<and> (\<forall>k < rd16 (kimage dk) 44. segment_loaded dk k m')"
proof -
  note readseg_header [of dk m]
  moreover let ?m1 = "blit (kimage dk) 0 m BOOT_ELF 4096"
  have h: "header_in dk ?m1" by (simp add: header_in_def)
  have b: "rd32 (kimage dk) 0 = ELF_MAGIC" "phdr dk (rd16 (kimage dk) 44) \<le> 4096" using assms by (simp_all add: bootable_def)
  have rd: "rd32 ?m1 BOOT_ELF = ELF_MAGIC" "rd32 ?m1 (BOOT_ELF + 28) = phdr dk 0" "rd16 ?m1 (BOOT_ELF + 44) = rd16 (kimage dk) 44"
    using header_in_rd32 [OF h, of 0] header_in_rd32 [OF h, of 28] header_in_rd16 [OF h, of 44] b(1) by (simp_all add: phdr_def)
  have w: "wrap32 (BOOT_ELF + phdr dk 0) = BOOT_ELF + phdr dk 0"
    "wrap32 (BOOT_ELF + phdr dk 0 + 32 * rd16 (kimage dk) 44) = BOOT_ELF + phdr dk (rd16 (kimage dk) 44)"
    using b(2) by (simp_all add: phdr_def BOOT_ELF_def)
  obtain m' where m': "bootmain_loop dk (BOOT_ELF + phdr dk 0) (BOOT_ELF + phdr dk (rd16 (kimage dk) 44)) ?m1 = Some m'"
      "header_in dk m'" "\<forall>k < rd16 (kimage dk) 44. segment_loaded dk k m'"
    using bootmain_loop_ok [OF assms add_0 h] by auto
  have "rd32 m' (BOOT_ELF + 24) = rd32 (kimage dk) 24" using header_in_rd32 [OF m'(2), of 24] by simp
  ultimately show ?thesis using m'(1,3) by (simp add: bootmain_def rd w Let_def)
qed

text \<open>A file that is no ELF file is not entered; only its first page is read.\<close>

lemma bootmain_not_elf:
  assumes "rd32 (kimage dk) 0 \<noteq> ELF_MAGIC"
  shows "bootmain dk m = Some (None, blit (kimage dk) 0 m BOOT_ELF 4096)"
proof -
  have "header_in dk (blit (kimage dk) 0 m BOOT_ELF 4096)" by (simp add: header_in_def)
  from header_in_rd32 [OF this, of 0] assms show ?thesis by (simp add: bootmain_def readseg_header)
qed

text \<open>A kernel of one segment: 3 bytes from offset 516 of the file on, 5 bytes of memory.\<close>

definition demo_kernel :: "nat \<Rightarrow> nat \<Rightarrow> mem" where
  "demo_kernel d s =
     (if s = 1 then wr32 (wr32 (wr32 (wr32 (wr16 (wr32 (wr32 (wr32 (\<lambda>_. 0) 0 ELF_MAGIC) 24 1048588) 28 52) 44 1)
        56 516) 64 1048580) 68 3) 72 5
      else (\<lambda>a. of_nat (a + 3)))"

lemma demo_kernel_rd:
  "rd32 (kimage demo_kernel) 0 = ELF_MAGIC" "rd32 (kimage demo_kernel) 24 = 1048588" "rd16 (kimage demo_kernel) 44 = 1"
  "phdr demo_kernel 0 = 52" "phdr demo_kernel 1 = 84"
  "bph_off demo_kernel 0 = 516" "bph_paddr demo_kernel 0 = 1048580" "bph_filesz demo_kernel 0 = 3" "bph_memsz demo_kernel 0 = 5"
proof -
  have r32: "rd32 (kimage demo_kernel) a = rd32 (demo_kernel 0 1) a" if "a < 500" for a
    using that by (intro rd32_cong) (simp add: kimage_def SECTSIZE_def)
  have r16: "rd16 (kimage demo_kernel) a = rd16 (demo_kernel 0 1) a" if "a < 500" for a
    using that by (intro rd16_cong) (simp_all add: kimage_def SECTSIZE_def)
  show "rd32 (kimage demo_kernel) 0 = ELF_MAGIC" "rd32 (kimage demo_kernel) 24 = 1048588" "rd16 (kimage demo_kernel) 44 = 1"
    "phdr demo_kernel 0 = 52" "phdr demo_kernel 1 = 84"
    by (simp_all add: r32 r16 phdr_def demo_kernel_def ELF_MAGIC_def)
  then show "bph_off demo_kernel 0 = 516" "bph_paddr demo_kernel 0 = 1048580" "bph_filesz demo_kernel 0 = 3" "bph_memsz demo_kernel 0 = 5"
    by (simp_all add: bph_off_def bph_paddr_def bph_filesz_def bph_memsz_def r32 demo_kernel_def)
qed

lemma bootmain_loads_witness:
  "\<exists>m. bootmain demo_kernel (\<lambda>_. 1) = Some (Some 1048588, m) \<and> bytes_at m 1048580 5 = [7, 8, 9, 0, 0]"
proof -
  have "bootable demo_kernel"
    using demo_kernel_rd by (simp add: bootable_def bph_start_def seg_start_def BOOT_ELF_def SECTSIZE_def)
  from bootmain_loads [OF this, of "\<lambda>_. 1"] obtain m where m: "bootmain demo_kernel (\<lambda>_. 1) = Some (Some 1048588, m)"
      "segment_loaded demo_kernel 0 m"
    by (auto simp: demo_kernel_rd)
  have "m (1048580 + x) = (if x < 3 then kimage demo_kernel (516 + x) else 0)" if "x < 5" for x
    using m(2) that by (simp add: segment_loaded_def demo_kernel_rd)
  from this [of 0] this [of 1] this [of 2] this [of 3] this [of 4]
  have "bytes_at m 1048580 5 = [7, 8, 9, 0, 0]"
    by (simp add: bytes_at_def upt_rec kimage_def SECTSIZE_def demo_kernel_def)
  with m(1) show ?thesis by blast
qed

end
