(* ===== verification/Mp.thy ===== *)
theory Mp
  imports Fs
begin

text \<open>
  \<open>mp.c\<close>: the tables in which the firmware describes the processors. Memory is the kernel's virtual memory
  while it boots. The loops run over pointers of 32 bits; \<open>None\<close> is a loop that does not end.
\<close>

definition NCPU :: nat where "NCPU = 8"

section \<open>Searching\<close>

text \<open>\<open>sum\<close> adds in an \<open>int\<close> and returns the low byte.\<close>

fun sum_from :: "mem \<Rightarrow> nat \<Rightarrow> nat \<Rightarrow> int \<Rightarrow> int" where
  "sum_from m a 0 acc = acc"
| "sum_from m a (Suc n) acc = sum_from m (a + 1) n (acc + uint (m a))"

definition mp_sum :: "mem \<Rightarrow> nat \<Rightarrow> nat \<Rightarrow> byte" where
  "mp_sum m a len = of_int (sum_from m a len 0)"

definition MP_SIG :: "byte list" where "MP_SIG = [95, 77, 80, 95]"
definition PCMP_SIG :: "byte list" where "PCMP_SIG = [80, 67, 77, 80]"

text \<open>\<open>struct mp\<close> has 16 bytes. The result is its address, 0 when there is none.\<close>

partial_function (option) mpsearch1_loop :: "mem \<Rightarrow> nat \<Rightarrow> nat \<Rightarrow> nat option" where
  "mpsearch1_loop m p e =
     (if p < e
      then if memcmp m p (arr MP_SIG) 0 4 = 0 \<and> mp_sum m p 16 = 0 then Some p
           else mpsearch1_loop m (wrap32 (p + 16)) e
      else Some 0)"

definition mpsearch1 :: "mem \<Rightarrow> nat \<Rightarrow> nat \<Rightarrow> nat option" where
  "mpsearch1 m a len = (let addr = P2V a in mpsearch1_loop m addr (wrap32 (addr + len)))"

definition mpsearch :: "mem \<Rightarrow> nat option" where
  "mpsearch m =
     (let bda = P2V 1024;
          p = push_bit 4 (push_bit 8 (unat (m (bda + 15))) OR unat (m (bda + 14)))
      in if p \<noteq> 0
         then Option.bind (mpsearch1 m p 1024) (\<lambda>mp. if mp \<noteq> 0 then Some mp else mpsearch1 m 983040 65536)
         else
           let p = (push_bit 8 (unat (m (bda + 20))) OR unat (m (bda + 19))) * 1024
           in Option.bind (mpsearch1 m (sub32 p 1024) 1024) (\<lambda>mp. if mp \<noteq> 0 then Some mp else mpsearch1 m 983040 65536))"

text \<open>\<open>mpconfig\<close>: the addresses of the configuration table, 0 when there is none, and of the \<open>struct mp\<close>.\<close>

definition mpconfig :: "mem \<Rightarrow> (nat \<times> nat) option" where
  "mpconfig m =
     Option.bind (mpsearch m) (\<lambda>mp.
     if mp = 0 \<or> rd32 m (mp + 4) = 0 then Some (0, mp)
     else
       let conf = P2V (rd32 m (mp + 4))
       in if memcmp m conf (arr PCMP_SIG) 0 4 \<noteq> 0 then Some (0, mp)
          else if m (conf + 6) \<noteq> 1 \<and> m (conf + 6) \<noteq> 4 then Some (0, mp)
          else if mp_sum m conf (rd16 m (conf + 4)) \<noteq> 0 then Some (0, mp)
          else Some (conf, mp))"

section \<open>Processors\<close>

text \<open>
  What \<open>mpinit\<close> finds: the \<open>apicid\<close> of \<open>cpus[0]\<close>, \<open>cpus[1]\<close>, and so on (\<open>ncpu\<close> is
  their number), \<open>ioapicid\<close>, \<open>lapic\<close>, and the bytes it sends to ports.
\<close>

record mpstate =
  mp_cpus :: "byte list"
  mp_ioapicid :: byte
  mp_lapic :: nat
  mp_out :: "(nat \<times> byte) list"

text \<open>
  The loop over the entries: 20 bytes for a processor, 8 for the others. The \<open>break\<close> of the default case
  leaves the switch only, so the loop goes on with the same entry.
\<close>

partial_function (option) mpinit_loop :: "mem \<Rightarrow> nat \<Rightarrow> nat \<Rightarrow> bool \<Rightarrow> mpstate \<Rightarrow> (bool \<times> mpstate) option" where
  "mpinit_loop m p e ismp s =
     (if p < e
      then if m p = 0
           then mpinit_loop m (wrap32 (p + 20)) e ismp
                  (if length (mp_cpus s) < NCPU then s\<lparr>mp_cpus := mp_cpus s @ [m (p + 1)]\<rparr> else s)
           else if m p = 2
           then mpinit_loop m (wrap32 (p + 8)) e ismp (s\<lparr>mp_ioapicid := m (p + 1)\<rparr>)
           else if m p = 1 \<or> m p = 3 \<or> m p = 4
           then mpinit_loop m (wrap32 (p + 8)) e ismp s
           else mpinit_loop m p e False s
      else Some (ismp, s))"

text \<open>\<open>inb23\<close> is what the port \<open>0x23\<close> reads.\<close>

definition mpinit :: "byte \<Rightarrow> mem \<Rightarrow> mpstate \<Rightarrow> mpstate res option" where
  "mpinit inb23 m s =
     Option.bind (mpconfig m) (\<lambda>(conf, mp).
     if conf = 0 then Some (Panic ''Expect to run on an SMP'')
     else
       Option.bind (mpinit_loop m (wrap32 (conf + 44)) (wrap32 (conf + rd16 m (conf + 4))) True
           (s\<lparr>mp_lapic := rd32 m (conf + 36)\<rparr>)) (\<lambda>(ismp, s).
       Some (if \<not> ismp then Panic (''Didn'' @ [CHR 0x27] @ ''t find a suitable machine'')
             else if m (mp + 12) \<noteq> 0 then Ok (s\<lparr>mp_out := mp_out s @ [(34, 112), (35, inb23 OR 1)]\<rparr>)
             else Ok s)))"

section \<open>The search\<close>

lemma sum_from_bytes: "sum_from m a n acc = acc + sum_list (map uint (bytes_at m a n))"
  by (induction n arbitrary: a acc) (simp_all add: bytes_at_Suc bytes_at_0)

lemma length_MP_SIG: "length MP_SIG = 4" and length_PCMP_SIG: "length PCMP_SIG = 4"
  by (simp_all add: MP_SIG_def PCMP_SIG_def)

definition is_mp :: "mem \<Rightarrow> nat \<Rightarrow> bool" where
  "is_mp m p \<longleftrightarrow> bytes_at m p 4 = MP_SIG \<and> sum_list (bytes_at m p 16) = 0"

lemma mp_sum_bytes: "mp_sum m a n = sum_list (bytes_at m a n)"
proof -
  have "of_int (sum_list (map uint bs)) = sum_list bs" for bs :: "byte list" by (induction bs) simp_all
  then show ?thesis by (simp add: mp_sum_def sum_from_bytes)
qed

lemma memcmp_arr: "memcmp m p (arr bs) 0 (length bs) = 0 \<longleftrightarrow> bytes_at m p (length bs) = bs"
  by (simp add: memcmp_0_iff arr_def)

text \<open>The search yields the first structure, one every 16 bytes, with the signature and a sum of 0.\<close>

lemma mpsearch1_loop_first:
  assumes "p + 16 * n < u32_mod"
  shows "mpsearch1_loop m p (p + 16 * n) = Some (case first_idx n (\<lambda>i. is_mp m (p + 16 * i)) of None \<Rightarrow> 0 | Some i \<Rightarrow> p + 16 * i)"
proof -
  have "mpsearch1_loop m (p + 16 * i) (p + 16 * n)
      = Some (case first_from i k (\<lambda>i. is_mp m (p + 16 * i)) of None \<Rightarrow> 0 | Some i \<Rightarrow> p + 16 * i)" if "i + k = n" for i k
    using that
  proof (induction k arbitrary: i)
    case 0
    then show ?case by (subst mpsearch1_loop.simps) simp
  next
    case (Suc k)
    have lt: "p + 16 * i < p + 16 * n" and w: "wrap32 (p + 16 * i + 16) = p + 16 * Suc i" using Suc.prems assms by simp_all
    have "memcmp m (p + 16 * i) (arr MP_SIG) 0 4 = 0 \<and> mp_sum m (p + 16 * i) 16 = 0 \<longleftrightarrow> is_mp m (p + 16 * i)"
      using memcmp_arr [of m "p + 16 * i" MP_SIG] by (simp only: is_mp_def mp_sum_bytes length_MP_SIG)
    then have "mpsearch1_loop m (p + 16 * i) (p + 16 * n) = (if is_mp m (p + 16 * i) then Some (p + 16 * i)
        else mpsearch1_loop m (p + 16 * Suc i) (p + 16 * n))"
      by (subst mpsearch1_loop.simps) (simp only: lt if_True w)
    then show ?case using Suc.IH [of "Suc i"] Suc.prems by simp
  qed
  from this [of 0 n] show ?thesis by (simp add: first_idx_def)
qed

section \<open>The table\<close>

datatype mp_entry = Processor byte "byte list" | IoApic byte "byte list" | OtherEntry byte "byte list"

fun entry_bytes :: "mp_entry \<Rightarrow> byte list" where
  "entry_bytes (Processor i r) = 0 # i # r"
| "entry_bytes (IoApic i r) = 2 # i # r"
| "entry_bytes (OtherEntry t r) = t # r"

fun entry_wf :: "mp_entry \<Rightarrow> bool" where
  "entry_wf (Processor i r) \<longleftrightarrow> length r = 18"
| "entry_wf (IoApic i r) \<longleftrightarrow> length r = 6"
| "entry_wf (OtherEntry t r) \<longleftrightarrow> t \<in> {1, 3, 4} \<and> length r = 7"

text \<open>The \<open>apicid\<close>s of the processors and of the I/O APICs of a table.\<close>

definition proc_ids :: "mp_entry list \<Rightarrow> byte list" where
  "proc_ids es = [i. Processor i r \<leftarrow> es]"

definition ioapic_ids :: "mp_entry list \<Rightarrow> byte list" where
  "ioapic_ids es = [i. IoApic i r \<leftarrow> es]"

definition found :: "mp_entry list \<Rightarrow> mpstate \<Rightarrow> mpstate" where
  "found es s = s\<lparr>mp_cpus := mp_cpus s @ take (NCPU - length (mp_cpus s)) (proc_ids es),
     mp_ioapicid := last (mp_ioapicid s # ioapic_ids es)\<rparr>"

lemma mpinit_loop_entries:
  assumes "\<forall>x \<in> set es. entry_wf x" "bytes_at m p (length (concat (map entry_bytes es))) = concat (map entry_bytes es)"
    and "p + length (concat (map entry_bytes es)) \<le> e" "e < u32_mod" "length (mp_cpus s) \<le> NCPU"
  shows "mpinit_loop m p e ismp s = mpinit_loop m (p + length (concat (map entry_bytes es))) e ismp (found es s)"
  using assms
proof (induction es arbitrary: p s)
  case Nil
  then show ?case by (simp add: found_def proc_ids_def ioapic_ids_def)
next
  case (Cons x es)
  let ?n = "length (entry_bytes x)" and ?t = "concat (map entry_bytes es)"
  have b: "bytes_at m p ?n = entry_bytes x" "bytes_at m (p + ?n) (length ?t) = ?t"
    using Cons.prems(2) by (simp_all add: bytes_at_append append_eq_append_conv)
  have pos: "2 \<le> ?n" and wf: "entry_wf x" using Cons.prems(1) by (cases x; simp)+
  have ne: "0 < ?n" "1 < ?n" using pos by linarith+
  have at: "m p = entry_bytes x ! 0" "m (p + 1) = entry_bytes x ! 1"
    using nth_bytes_at [OF ne(1), of m p] nth_bytes_at [OF ne(2), of m p] unfolding b(1) by simp_all
  have lt: "p < e" and w: "wrap32 (p + ?n) = p + ?n" using Cons.prems(3,4) pos by simp_all
  define s' where "s' = (case x of Processor i r \<Rightarrow> if length (mp_cpus s) < NCPU then s\<lparr>mp_cpus := mp_cpus s @ [i]\<rparr> else s
     | IoApic i r \<Rightarrow> s\<lparr>mp_ioapicid := i\<rparr> | OtherEntry t r \<Rightarrow> s)"
  have "mpinit_loop m p e ismp s = mpinit_loop m (p + ?n) e ismp s'"
    using wf w lt by (subst mpinit_loop.simps) (cases x; auto simp: at at(2) [unfolded Suc_eq_plus1 [symmetric]] s'_def)
  also have "\<dots> = mpinit_loop m (p + ?n + length ?t) e ismp (found es s')"
    by (rule Cons.IH) (use Cons.prems b in \<open>auto simp: s'_def split: mp_entry.splits\<close>)
  also have "found es s' = found (x # es) s"
    using Cons.prems(5) by (cases x) (auto simp: found_def s'_def proc_ids_def ioapic_ids_def take_Cons' Suc_diff_le)
  finally show ?case by (simp add: add.assoc)
qed

text \<open>An entry of an unknown type.\<close>

lemma mpinit_loop_stuck:
  assumes "p < e" "m p \<notin> {0, 1, 2, 3, 4}"
  shows "mpinit_loop m p e ismp s = None"
proof (rule ccontr)
  assume "mpinit_loop m p e ismp s \<noteq> None"
  then obtain r where ret: "mpinit_loop m p e ismp s = Some r" by blast
  have "\<not> (p < e \<and> m p \<notin> {0, 1, 2, 3, 4})"
  proof (rule mpinit_loop.raw_induct [where P = "\<lambda>m p e ismp s r. \<not> (p < e \<and> m p \<notin> {0, 1, 2, 3, 4})", OF _ ret])
    fix f m p e ismp s r
    assume IH: "\<And>m p e ismp s r. f m p e ismp s = Some r \<Longrightarrow> \<not> (p < e \<and> m p \<notin> {0, 1, 2, 3, 4})"
      and eq: "(if p < e
      then if m p = 0
           then f m (wrap32 (p + 20)) e ismp
                  (if length (mp_cpus s) < NCPU then s\<lparr>mp_cpus := mp_cpus s @ [m (p + 1)]\<rparr> else s)
           else if m p = 2
           then f m (wrap32 (p + 8)) e ismp (s\<lparr>mp_ioapicid := m (p + 1)\<rparr>)
           else if m p = 1 \<or> m p = 3 \<or> m p = 4
           then f m (wrap32 (p + 8)) e ismp s
           else f m p e False s
      else Some (ismp, s)) = Some (r :: bool \<times> mpstate)"
    show "\<not> (p < e \<and> m p \<notin> {0, 1, 2, 3, 4})"
    proof
      assume a: "p < e \<and> m p \<notin> {0, 1, 2, 3, 4}"
      then have "f m p e False s = Some r" using eq by simp
      from IH [OF this] a show False by blast
    qed
  qed
  with assms show False by blast
qed

text \<open>The table of the firmware: all of its bytes behind the header are entries of the known types.\<close>

definition mp_table :: "mem \<Rightarrow> nat \<Rightarrow> mp_entry list \<Rightarrow> bool" where
  "mp_table m conf es \<longleftrightarrow> (\<forall>x \<in> set es. entry_wf x) \<and> conf + rd16 m (conf + 4) < u32_mod
     \<and> rd16 m (conf + 4) = 44 + length (concat (map entry_bytes es))
     \<and> bytes_at m (conf + 44) (length (concat (map entry_bytes es))) = concat (map entry_bytes es)"

text \<open>
  When \<open>mpconfig\<close> accepts a table and the bytes behind its header are entries, \<open>mpinit\<close> ends with
  \<open>cpus\<close> holding the processors of the table in their order, at most \<open>NCPU\<close> of them, \<open>ioapicid\<close>
  the last I/O APIC, and \<open>lapic\<close> the address the header gives.
\<close>

theorem mpinit_reads_table:
  assumes "mpconfig m = Some (conf, mp)" "conf \<noteq> 0" "mp_table m conf es" "mp_cpus s = []"
  shows "\<exists>s'. mpinit v m s = Some (Ok s') \<and> mp_cpus s' = take NCPU (proc_ids es)
     \<and> mp_ioapicid s' = last (mp_ioapicid s # ioapic_ids es) \<and> mp_lapic s' = rd32 m (conf + 36)
     \<and> mp_out s' = mp_out s @ (if m (mp + 12) = 0 then [] else [(34, 112), (35, v OR 1)])"
proof -
  let ?n = "length (concat (map entry_bytes es))" and ?s = "s\<lparr>mp_lapic := rd32 m (conf + 36)\<rparr>"
  have t: "\<forall>x \<in> set es. entry_wf x" "conf + 44 + ?n < u32_mod" "rd16 m (conf + 4) = 44 + ?n"
    "bytes_at m (conf + 44) ?n = concat (map entry_bytes es)"
    using assms(3) by (auto simp: mp_table_def)
  have w: "wrap32 (conf + 44) = conf + 44" "wrap32 (conf + (44 + ?n)) = conf + 44 + ?n" using t(2) by simp_all
  have "mpinit_loop m (conf + 44) (conf + 44 + ?n) True ?s = mpinit_loop m (conf + 44 + ?n) (conf + 44 + ?n) True (found es ?s)"
    by (rule mpinit_loop_entries) (use t assms(4) in simp_all)
  also have "\<dots> = Some (True, found es ?s)" by (subst mpinit_loop.simps) simp
  finally have l: "mpinit_loop m (conf + 44) (conf + 44 + ?n) True ?s = Some (True, found es ?s)" .
  show ?thesis
    unfolding mpinit_def assms(1) Option.bind.bind_lunit prod.case if_not_P [OF assms(2)] t(3) w l
    using assms(4) by (simp add: found_def)
qed

text \<open>
  An entry of a type the code does not know makes \<open>mpinit\<close> run for ever: the \<open>break\<close> of the
  default case leaves the switch, the loop comes back to the same entry, and the panic behind the loop,
  ``Didn't find a suitable machine'', is never reached.
\<close>

theorem mpinit_unknown_entry_hangs:
  assumes "mpconfig m = Some (conf, mp)" "conf \<noteq> 0" "\<forall>x \<in> set es. entry_wf x" "conf + rd16 m (conf + 4) < u32_mod"
    and "length (concat (map entry_bytes es)) + 44 < rd16 m (conf + 4)"
    and "bytes_at m (conf + 44) (length (concat (map entry_bytes es))) = concat (map entry_bytes es)"
    and "m (conf + 44 + length (concat (map entry_bytes es))) \<notin> {0, 1, 2, 3, 4}" "mp_cpus s = []"
  shows "mpinit v m s = None"
proof -
  let ?n = "length (concat (map entry_bytes es))" and ?e = "conf + rd16 m (conf + 4)"
  let ?s = "s\<lparr>mp_lapic := rd32 m (conf + 36)\<rparr>"
  have w: "wrap32 (conf + 44) = conf + 44" "wrap32 ?e = ?e" using assms(4,5) by simp_all
  have "mpinit_loop m (conf + 44) ?e True ?s = mpinit_loop m (conf + 44 + ?n) ?e True (found es ?s)"
    by (rule mpinit_loop_entries) (use assms in simp_all)
  also have "\<dots> = None" by (rule mpinit_loop_stuck) (use assms(5,7) in simp_all)
  finally show ?thesis
    unfolding mpinit_def assms(1) Option.bind.bind_lunit prod.case if_not_P [OF assms(2)] w by simp
qed

section \<open>A machine\<close>

text \<open>
  A machine with the structure at \<open>0x9000\<close> in the extended BIOS data area and a table at \<open>0x9100\<close>: two
  processors and, of type \<open>t\<close>, the I/O APIC or an unknown entry. \<open>ck\<close> makes the sum of the table 0.
\<close>

definition demo_entries :: "byte \<Rightarrow> byte list" where
  "demo_entries t = 0 # 5 # replicate 18 0 @ 0 # 6 # replicate 18 0 @ t # 9 # replicate 6 0"

definition demo_table :: "byte \<Rightarrow> byte \<Rightarrow> byte list" where
  "demo_table ck t = PCMP_SIG @ [92, 0, 4, ck] @ replicate 28 0 @ [0, 0, 224, 254] @ replicate 4 0 @ demo_entries t"

definition demo_mp :: "byte list" where
  "demo_mp = MP_SIG @ [0, 145, 0, 0, 1, 4, 15, 0, 0, 0, 0, 0]"

definition demo_machine :: "byte \<Rightarrow> byte \<Rightarrow> mem" where
  "demo_machine ck t = put_bytes (demo_table ck t) (put_bytes demo_mp ((\<lambda>_. 0)(2147484687 := 9)) 2147520512) 2147520768"

lemma demo_machine_at:
  "i < 92 \<Longrightarrow> demo_machine ck t (2147520768 + i) = demo_table ck t ! i"
  "i < 16 \<Longrightarrow> demo_machine ck t (2147520512 + i) = demo_mp ! i"
  "demo_machine ck t 2147484687 = 9" "demo_machine ck t 2147484686 = 0"
  by (simp_all add: demo_machine_def put_bytes_def demo_table_def demo_entries_def demo_mp_def length_MP_SIG PCMP_SIG_def)

lemma bytes_at_eqI: "length bs = n \<Longrightarrow> (\<And>i. i < n \<Longrightarrow> m (a + i) = bs ! i) \<Longrightarrow> bytes_at m a n = bs"
  by (rule nth_equalityI) simp_all

lemma bytes_at_part: "i + k \<le> n \<Longrightarrow> bytes_at m (a + i) k = take k (drop i (bytes_at m a n))"
  by (rule nth_equalityI) (simp_all add: add.assoc)

lemma demo_machine_bytes:
  "bytes_at (demo_machine ck t) 2147520768 92 = demo_table ck t" "bytes_at (demo_machine ck t) 2147520512 16 = demo_mp"
  "bytes_at (demo_machine ck t) 2147520768 4 = PCMP_SIG" "bytes_at (demo_machine ck t) 2147520512 4 = MP_SIG"
  "bytes_at (demo_machine ck t) 2147520812 48 = demo_entries t" "bytes_at (demo_machine ck t) 2147520812 40 = take 40 (demo_entries t)"
proof -
  show "bytes_at (demo_machine ck t) 2147520768 92 = demo_table ck t" "bytes_at (demo_machine ck t) 2147520512 16 = demo_mp"
    by (rule bytes_at_eqI; simp add: demo_machine_at demo_table_def demo_entries_def demo_mp_def length_MP_SIG PCMP_SIG_def)+
  then show "bytes_at (demo_machine ck t) 2147520768 4 = PCMP_SIG" "bytes_at (demo_machine ck t) 2147520512 4 = MP_SIG"
    "bytes_at (demo_machine ck t) 2147520812 48 = demo_entries t" "bytes_at (demo_machine ck t) 2147520812 40 = take 40 (demo_entries t)"
    using bytes_at_part [of 0 4 92 "demo_machine ck t" 2147520768] bytes_at_part [of 0 4 16 "demo_machine ck t" 2147520512]
      bytes_at_part [of 44 48 92 "demo_machine ck t" 2147520768] bytes_at_part [of 44 40 92 "demo_machine ck t" 2147520768]
    by (simp_all add: demo_table_def demo_mp_def PCMP_SIG_def MP_SIG_def demo_entries_def)
qed

lemma demo_machine_rd:
  "rd32 (demo_machine ck t) 2147520516 = 37120" "rd16 (demo_machine ck t) 2147520772 = 92" "rd32 (demo_machine ck t) 2147520804 = 4276092928"
  "demo_machine ck t 2147520774 = 4" "demo_machine ck t 2147520524 = 0"
  using demo_machine_at(1) [of 4 ck t] demo_machine_at(1) [of 5 ck t] demo_machine_at(1) [of 6 ck t]
    demo_machine_at(1) [of 36 ck t] demo_machine_at(1) [of 37 ck t] demo_machine_at(1) [of 38 ck t] demo_machine_at(1) [of 39 ck t]
    demo_machine_at(2) [of 4 ck t] demo_machine_at(2) [of 5 ck t] demo_machine_at(2) [of 6 ck t] demo_machine_at(2) [of 7 ck t]
    demo_machine_at(2) [of 12 ck t]
  by (simp_all add: rd32_def rd16_def demo_table_def demo_mp_def MP_SIG_def PCMP_SIG_def nth_append)

lemma demo_mpconfig:
  assumes "sum_list (demo_table ck t) = 0"
  shows "mpconfig (demo_machine ck t) = Some (2147520768, 2147520512)"
proof -
  let ?m = "demo_machine ck t"
  have "is_mp ?m 2147520512" by (simp add: is_mp_def demo_machine_bytes demo_mp_def MP_SIG_def)
  then have "first_idx 64 (\<lambda>i. is_mp ?m (2147520512 + 16 * i)) = Some 0" by (simp add: first_idx_Some)
  then have "mpsearch1 ?m 36864 1024 = Some 2147520512"
    using mpsearch1_loop_first [of 2147520512 64 ?m] by (simp add: mpsearch1_def P2V_def KERNBASE_def)
  then have s: "mpsearch ?m = Some 2147520512"
    by (simp add: mpsearch_def P2V_def KERNBASE_def demo_machine_at push_bit_eq_mult)
  have "memcmp ?m 2147520768 (arr PCMP_SIG) 0 4 = 0"
    using memcmp_arr [of ?m 2147520768 PCMP_SIG] demo_machine_bytes(3) [of ck t] by (simp only: length_PCMP_SIG)
  then show ?thesis
    by (simp add: mpconfig_def s demo_machine_rd P2V_def KERNBASE_def mp_sum_bytes demo_machine_bytes assms)
qed

lemma mpinit_reads_table_witness:
  "\<exists>s'. mpinit 0 (demo_machine 124 2) \<lparr>mp_cpus = [], mp_ioapicid = 0, mp_lapic = 0, mp_out = []\<rparr> = Some (Ok s')
     \<and> mp_cpus s' = [5, 6] \<and> mp_ioapicid s' = 9 \<and> mp_lapic s' = 4276092928 \<and> mp_out s' = []"
proof -
  let ?es = "[Processor 5 (replicate 18 0), Processor 6 (replicate 18 0), IoApic 9 (replicate 6 0)]"
  have c: "mpconfig (demo_machine 124 2) = Some (2147520768, 2147520512)"
    by (rule demo_mpconfig) (simp add: demo_table_def demo_entries_def PCMP_SIG_def sum_list_replicate)
  have "concat (map entry_bytes ?es) = demo_entries 2" "length (demo_entries 2) = 48" by (simp_all add: demo_entries_def)
  then have t: "mp_table (demo_machine 124 2) 2147520768 ?es"
    unfolding mp_table_def by (simp add: demo_machine_rd demo_machine_bytes)
  show ?thesis
    using mpinit_reads_table [OF c _ t, of "\<lparr>mp_cpus = [], mp_ioapicid = 0, mp_lapic = 0, mp_out = []\<rparr>" 0]
    by (simp add: demo_machine_rd proc_ids_def ioapic_ids_def NCPU_def)
qed

lemma mpinit_unknown_entry_hangs_witness:
  "mpinit 0 (demo_machine 119 7) \<lparr>mp_cpus = [], mp_ioapicid = 0, mp_lapic = 0, mp_out = []\<rparr> = None"
proof -
  let ?es = "[Processor 5 (replicate 18 0), Processor 6 (replicate 18 0)]"
  have c: "mpconfig (demo_machine 119 7) = Some (2147520768, 2147520512)"
    by (rule demo_mpconfig) (simp add: demo_table_def demo_entries_def PCMP_SIG_def sum_list_replicate)
  have e: "concat (map entry_bytes ?es) = take 40 (demo_entries 7)" "length (take 40 (demo_entries 7)) = 40"
    by (simp_all add: demo_entries_def)
  have b: "demo_machine 119 7 2147520852 = 7"
    using demo_machine_at(1) [of 84 119 7] by (simp add: demo_table_def demo_entries_def PCMP_SIG_def nth_append)
  show ?thesis
    by (rule mpinit_unknown_entry_hangs [OF c, of ?es]) (simp_all only: e, simp_all add: demo_machine_rd demo_machine_bytes b)
qed

end
