(* ===== verification/Sysfile.thy ===== *)
theory Sysfile
  imports Exec
begin

text \<open>
  The argument fetching of \<open>syscall.c\<close> and the file system calls of \<open>sysfile.c\<close>. A system call
  returns its \<open>int\<close> result with the new state. A user string that has been checked is used as the
  list of its bytes.
\<close>

section \<open>Arguments\<close>

text \<open>An \<open>int\<close> result: \<open>None\<close> is the return value -1, else what is stored through the pointer.\<close>

definition fetchint :: "nat \<Rightarrow> 'a ksys_scheme \<Rightarrow> int option res" where
  "fetchint addr s =
     (let sz = p_sz (myproc s)
      in if sz \<le> addr \<or> sz < wrap32 (addr + 4) then Ok None
         else bindr (uget addr 4 s) (\<lambda>bs. Ok (Some (s32 (rd32 (arr bs) 0)))))"

text \<open>The scan of \<open>fetchstr\<close> for the terminating zero, \<open>k\<close> bytes before the end of the process.\<close>

fun fetchstr_loop :: "nat \<Rightarrow> nat \<Rightarrow> byte list \<Rightarrow> 'a ksys_scheme \<Rightarrow> byte list option res" where
  "fetchstr_loop 0 a acc s = Ok None"
| "fetchstr_loop (Suc k) a acc s =
     bindr (uget a 1 s) (\<lambda>bs.
     if hd bs = 0 then Ok (Some acc) else fetchstr_loop k (a + 1) (acc @ bs) s)"

definition fetchstr :: "nat \<Rightarrow> 'a ksys_scheme \<Rightarrow> byte list option res" where
  "fetchstr addr s =
     (let sz = p_sz (myproc s)
      in if sz \<le> addr then Ok None else fetchstr_loop (sz - addr) addr [] s)"

definition argint :: "nat \<Rightarrow> 'a ksys_scheme \<Rightarrow> int option res" where
  "argint n s = fetchint (wrap32 (tf_esp (p_tf (myproc s)) + 4 + 4 * n)) s"

definition argptr :: "nat \<Rightarrow> int \<Rightarrow> 'a ksys_scheme \<Rightarrow> nat option res" where
  "argptr n size_n s =
     bindr (argint n s) (\<lambda>r.
     case r of
       None \<Rightarrow> Ok None
     | Some i \<Rightarrow>
         let sz = p_sz (myproc s); a = u32_of i
         in if size_n < 0 \<or> sz \<le> a \<or> sz < wrap32 (a + nat size_n) then Ok None else Ok (Some a))"

definition argstr :: "nat \<Rightarrow> 'a ksys_scheme \<Rightarrow> byte list option res" where
  "argstr n s =
     bindr (argint n s) (\<lambda>r. case r of None \<Rightarrow> Ok None | Some addr \<Rightarrow> fetchstr (u32_of addr) s)"

text \<open>\<open>argfd\<close>: the descriptor and the file.\<close>

definition argfd :: "nat \<Rightarrow> 'a ksys_scheme \<Rightarrow> (nat \<times> nat) option res" where
  "argfd n s =
     bindr (argint n s) (\<lambda>r.
     case r of
       None \<Rightarrow> Ok None
     | Some fd \<Rightarrow>
         if fd < 0 \<or> int NOFILE \<le> fd then Ok None
         else case p_ofile (myproc s) ! nat fd of None \<Rightarrow> Ok None | Some f \<Rightarrow> Ok (Some (nat fd, f)))"

definition set_ofile :: "nat \<Rightarrow> nat option \<Rightarrow> 'a ksys_scheme \<Rightarrow> 'a ksys_scheme" where
  "set_ofile fd f s = upd_proc (the (cur s)) (\<lambda>x. x\<lparr>p_ofile := (p_ofile x)[fd := f]\<rparr>) s"

definition fdalloc :: "nat \<Rightarrow> 'a ksys_scheme \<Rightarrow> nat option \<times> 'a ksys_scheme" where
  "fdalloc f s =
     (case first_idx NOFILE (\<lambda>fd. p_ofile (myproc s) ! fd = None) of
        None \<Rightarrow> (None, s)
      | Some fd \<Rightarrow> (Some fd, set_ofile fd (Some f) s))"

text \<open>Sequencing of an argument that may be missing; missing ones make the call return -1.\<close>

definition with_arg :: "'b option res \<Rightarrow> ('b \<Rightarrow> (int \<times> 's) res) \<Rightarrow> 's \<Rightarrow> (int \<times> 's) res" where
  "with_arg a f s = bindr a (\<lambda>r. case r of None \<Rightarrow> Ok (-1, s) | Some x \<Rightarrow> f x)"

section \<open>Descriptors\<close>

definition sys_dup :: "'a filek_scheme \<Rightarrow> (int \<times> 'a filek_scheme) res" where
  "sys_dup s =
     with_arg (argfd 0 s) (\<lambda>(_, f).
       case fdalloc f s of
         (None, s) \<Rightarrow> Ok (-1, s)
       | (Some fd, s) \<Rightarrow> bindr (filedup f s) (\<lambda>s. Ok (int fd, s))) s"

definition sys_read :: "'a filek_scheme \<Rightarrow> (int \<times> 'a filek_scheme) res" where
  "sys_read s =
     with_arg (argfd 0 s) (\<lambda>(_, f).
     with_arg (argint 2 s) (\<lambda>n.
     with_arg (argptr 1 n s) (\<lambda>p. fileread f p n s) s) s) s"

definition sys_write :: "'a filek_scheme \<Rightarrow> (int \<times> 'a filek_scheme) res" where
  "sys_write s =
     with_arg (argfd 0 s) (\<lambda>(_, f).
     with_arg (argint 2 s) (\<lambda>n.
     with_arg (argptr 1 n s) (\<lambda>p. filewrite f p n s) s) s) s"

definition sys_close :: "'a filek_scheme \<Rightarrow> (int \<times> 'a filek_scheme) res" where
  "sys_close s =
     with_arg (argfd 0 s) (\<lambda>(fd, f).
       bindr (fileclose f (set_ofile fd None s)) (\<lambda>s. Ok (0, s))) s"

text \<open>\<open>struct stat\<close> as bytes: type at 0, dev at 4, ino at 8, nlink at 12, size at 16; 20 bytes.\<close>

definition stat_bytes :: "stat \<Rightarrow> (nat \<times> byte list) list" where
  "stat_bytes st =
     [(0, bytes_at (wr16 (\<lambda>_. 0) 0 (u16_of (st_type st))) 0 2), (4, word_bytes (st_dev st)),
      (8, word_bytes (st_ino st)), (12, bytes_at (wr16 (\<lambda>_. 0) 0 (u16_of (st_nlink st))) 0 2),
      (16, word_bytes (st_size st))]"

fun uput_fields :: "nat \<Rightarrow> (nat \<times> byte list) list \<Rightarrow> 'a ksys_scheme \<Rightarrow> 'a ksys_scheme res" where
  "uput_fields a [] s = Ok s"
| "uput_fields a ((k, bs) # fs) s = bindr (uput (a + k) bs s) (uput_fields a fs)"

definition sys_fstat :: "'a filek_scheme \<Rightarrow> (int \<times> 'a filek_scheme) res" where
  "sys_fstat s =
     with_arg (argfd 0 s) (\<lambda>(_, f).
     with_arg (argptr 1 20 s) (\<lambda>p.
       bindr (filestat f s) (\<lambda>(st, s).
       case st of
         None \<Rightarrow> Ok (-1, s)
       | Some st \<Rightarrow> bindr (uput_fields p (stat_bytes st) s) (\<lambda>s. Ok (0, s)))) s) s"

section \<open>Links\<close>

text \<open>\<open>nlink\<close> is a \<open>short\<close>.\<close>

definition add_nlink :: "nat \<Rightarrow> int \<Rightarrow> 'a fsk_scheme \<Rightarrow> 'a fsk_scheme" where
  "add_nlink i d s = upd_inode i (\<lambda>ip. ip\<lparr>i_nlink := s16 (u16_of (i_nlink ip + d))\<rparr>) s"

definition link_bad :: "nat \<Rightarrow> 'a filek_scheme \<Rightarrow> (int \<times> 'a filek_scheme) res" where
  "link_bad ip s =
     bindr (ilock ip s) (\<lambda>s.
     bindr (iupdate ip (add_nlink ip (-1) s)) (\<lambda>s.
     bindr (iunlockput ip s) (\<lambda>s.
     bindr (end_op s) (\<lambda>s. Ok (-1, s)))))"

definition link_paths :: "byte list \<Rightarrow> byte list \<Rightarrow> 'a filek_scheme \<Rightarrow> (int \<times> 'a filek_scheme) res" where
  "link_paths old new s =
     bindr (begin_op s) (\<lambda>s.
     bindr (namei old s) (\<lambda>(ip, s).
     case ip of
       None \<Rightarrow> bindr (end_op s) (\<lambda>s. Ok (-1, s))
     | Some ip \<Rightarrow>
         bindr (ilock ip s) (\<lambda>s.
         if i_type (inodes s ip) = T_DIR
         then bindr (iunlockput ip s) (\<lambda>s. bindr (end_op s) (\<lambda>s. Ok (-1, s)))
         else
           bindr (iupdate ip (add_nlink ip 1 s)) (\<lambda>s.
           bindr (iunlock ip s) (\<lambda>s.
           bindr (nameiparent new (\<lambda>_. 0) s) (\<lambda>(dp, name, s).
           case dp of
             None \<Rightarrow> link_bad ip s
           | Some dp \<Rightarrow>
               bindr (ilock dp s) (\<lambda>s.
               bindr (if i_dev (inodes s dp) \<noteq> i_dev (inodes s ip) then Ok (-1, s)
                      else dirlink dp name (i_inum (inodes s ip)) s) (\<lambda>(r, s).
               bindr (iunlockput dp s) (\<lambda>s.
               if r < 0 then link_bad ip s
               else bindr (iput ip s) (\<lambda>s. bindr (end_op s) (\<lambda>s. Ok (0, s))))))))))))"

definition sys_link :: "'a filek_scheme \<Rightarrow> (int \<times> 'a filek_scheme) res" where
  "sys_link s =
     with_arg (argstr 0 s) (\<lambda>old.
     with_arg (argstr 1 s) (\<lambda>new. link_paths old new s) s) s"

fun isdirempty_from :: "nat \<Rightarrow> nat \<Rightarrow> nat \<Rightarrow> 'a consk_scheme \<Rightarrow> (bool \<times> 'a consk_scheme) res" where
  "isdirempty_from 0 off i s = Ok (True, s)"
| "isdirempty_from (Suc k) off i s =
     (if off < i_size (inodes s i)
      then bindr (readi i off 16 s) (\<lambda>(r, bs, s).
           if r \<noteq> 16 then Panic ''isdirempty: readi''
           else if rd16 (arr bs) 0 \<noteq> 0 then Ok (False, s)
           else isdirempty_from k (off + 16) i s)
      else Ok (True, s))"

definition isdirempty :: "nat \<Rightarrow> 'a consk_scheme \<Rightarrow> (bool \<times> 'a consk_scheme) res" where
  "isdirempty i s = isdirempty_from (i_size (inodes s i) div 16 + 1) 32 i s"

definition unlink_bad :: "nat \<Rightarrow> 'a filek_scheme \<Rightarrow> (int \<times> 'a filek_scheme) res" where
  "unlink_bad dp s = bindr (iunlockput dp s) (\<lambda>s. bindr (end_op s) (\<lambda>s. Ok (-1, s)))"

definition unlink_path :: "byte list \<Rightarrow> 'a filek_scheme \<Rightarrow> (int \<times> 'a filek_scheme) res" where
  "unlink_path path s =
     bindr (begin_op s) (\<lambda>s.
     bindr (nameiparent path (\<lambda>_. 0) s) (\<lambda>(dp, name, s).
     case dp of
       None \<Rightarrow> bindr (end_op s) (\<lambda>s. Ok (-1, s))
     | Some dp \<Rightarrow>
         bindr (ilock dp s) (\<lambda>s.
         if namecmp name 0 (arr [46, 0]) 0 = 0 \<or> namecmp name 0 (arr [46, 46, 0]) 0 = 0 then unlink_bad dp s
         else
           bindr (dirlookup dp name s) (\<lambda>(r, s).
           case r of
             None \<Rightarrow> unlink_bad dp s
           | Some (ip, off) \<Rightarrow>
               bindr (ilock ip s) (\<lambda>s.
               if i_nlink (inodes s ip) < 1 then Panic ''unlink: nlink < 1''
               else
                 bindr (if i_type (inodes s ip) = T_DIR then isdirempty ip s else Ok (True, s)) (\<lambda>(empty, s).
                 if \<not> empty then bindr (iunlockput ip s) (unlink_bad dp)
                 else
                   bindr (writei dp (replicate 16 0) off s) (\<lambda>(r, s).
                   if r \<noteq> 16 then Panic ''unlink: writei''
                   else
                     bindr (if i_type (inodes s ip) = T_DIR then iupdate dp (add_nlink dp (-1) s) else Ok s) (\<lambda>s.
                     bindr (iunlockput dp s) (\<lambda>s.
                     bindr (iupdate ip (add_nlink ip (-1) s)) (\<lambda>s.
                     bindr (iunlockput ip s) (\<lambda>s.
                     bindr (end_op s) (\<lambda>s. Ok (0, s)))))))))))))"

definition sys_unlink :: "'a filek_scheme \<Rightarrow> (int \<times> 'a filek_scheme) res" where
  "sys_unlink s = with_arg (argstr 0 s) (\<lambda>path. unlink_path path s) s"

section \<open>Creating and opening\<close>

text \<open>On success the inode is returned locked.\<close>

definition create :: "byte list \<Rightarrow> int \<Rightarrow> int \<Rightarrow> int \<Rightarrow> 'a filek_scheme \<Rightarrow> (nat option \<times> 'a filek_scheme) res" where
  "create path ty mjr mnr s =
     bindr (nameiparent path (\<lambda>_. 0) s) (\<lambda>(dp, name, s).
     case dp of
       None \<Rightarrow> Ok (None, s)
     | Some dp \<Rightarrow>
         bindr (ilock dp s) (\<lambda>s.
         bindr (dirlookup dp name s) (\<lambda>(r, s).
         case r of
           Some (ip, off) \<Rightarrow>
             bindr (iunlockput dp s) (\<lambda>s.
             bindr (ilock ip s) (\<lambda>s.
             if ty = T_FILE \<and> i_type (inodes s ip) = T_FILE then Ok (Some ip, s)
             else bindr (iunlockput ip s) (\<lambda>s. Ok (None, s))))
         | None \<Rightarrow>
             bindr (ialloc (i_dev (inodes s dp)) ty s) (\<lambda>(ip, s).
             bindr (ilock ip s) (\<lambda>s.
             bindr (iupdate ip (upd_inode ip (\<lambda>x. x\<lparr>i_major := mjr, i_minor := mnr, i_nlink := 1\<rparr>) s)) (\<lambda>s.
             bindr (if ty = T_DIR
                    then bindr (iupdate dp (add_nlink dp 1 s)) (\<lambda>s.
                         bindr (dirlink ip (arr [46, 0]) (i_inum (inodes s ip)) s) (\<lambda>(r, s).
                         if r < 0 then Panic ''create dots''
                         else
                           bindr (dirlink ip (arr [46, 46, 0]) (i_inum (inodes s dp)) s) (\<lambda>(r, s).
                           if r < 0 then Panic ''create dots'' else Ok s)))
                    else Ok s) (\<lambda>s.
             bindr (dirlink dp name (i_inum (inodes s ip)) s) (\<lambda>(r, s).
             if r < 0 then Panic ''create: dirlink''
             else bindr (iunlockput dp s) (\<lambda>s. Ok (Some ip, s))))))))))"

text \<open>\<open>fcntl.h\<close>.\<close>

definition O_WRONLY :: nat where "O_WRONLY = 1"
definition O_RDWR :: nat where "O_RDWR = 2"
definition O_CREATE :: nat where "O_CREATE = 512"

text \<open>From \<open>filealloc\<close> on, with the locked inode \<open>ip\<close>.\<close>

definition open_inode :: "nat \<Rightarrow> nat \<Rightarrow> 'a filek_scheme \<Rightarrow> (int \<times> 'a filek_scheme) res" where
  "open_inode omode ip s =
     bindr (filealloc s) (\<lambda>(f, s).
     let (fd, s) = (case f of None \<Rightarrow> (None, s) | Some f \<Rightarrow> fdalloc f s)
     in case (f, fd) of
          (Some f, Some fd) \<Rightarrow>
            bindr (iunlock ip s) (\<lambda>s.
            bindr (end_op s) (\<lambda>s.
            Ok (int fd, upd_file f (\<lambda>x. x\<lparr>f_type := FD_INODE, f_ip := ip, f_off := 0,
                f_readable := (omode AND O_WRONLY = 0),
                f_writable := (omode AND O_WRONLY \<noteq> 0 \<or> omode AND O_RDWR \<noteq> 0)\<rparr>) s)))
        | _ \<Rightarrow>
            bindr (case f of Some f \<Rightarrow> fileclose f s | None \<Rightarrow> Ok s) (\<lambda>s.
            bindr (iunlockput ip s) (\<lambda>s.
            bindr (end_op s) (\<lambda>s. Ok (-1, s)))))"

definition open_path :: "byte list \<Rightarrow> nat \<Rightarrow> 'a filek_scheme \<Rightarrow> (int \<times> 'a filek_scheme) res" where
  "open_path path omode s =
     bindr (begin_op s) (\<lambda>s.
     if omode AND O_CREATE \<noteq> 0
     then bindr (create path T_FILE 0 0 s) (\<lambda>(ip, s).
          case ip of
            None \<Rightarrow> bindr (end_op s) (\<lambda>s. Ok (-1, s))
          | Some ip \<Rightarrow> open_inode omode ip s)
     else
       bindr (namei path s) (\<lambda>(ip, s).
       case ip of
         None \<Rightarrow> bindr (end_op s) (\<lambda>s. Ok (-1, s))
       | Some ip \<Rightarrow>
           bindr (ilock ip s) (\<lambda>s.
           if i_type (inodes s ip) = T_DIR \<and> omode \<noteq> 0
           then bindr (iunlockput ip s) (\<lambda>s. bindr (end_op s) (\<lambda>s. Ok (-1, s)))
           else open_inode omode ip s)))"

definition sys_open :: "'a filek_scheme \<Rightarrow> (int \<times> 'a filek_scheme) res" where
  "sys_open s =
     with_arg (argstr 0 s) (\<lambda>path.
     with_arg (argint 1 s) (\<lambda>omode. open_path path (u32_of omode) s) s) s"

text \<open>A system call inside \<open>begin_op\<close>: a missing argument still ends the operation.\<close>

definition arg_in_op :: "'b option res \<Rightarrow> ('b \<Rightarrow> (int \<times> 'a filek_scheme) res) \<Rightarrow> 'a filek_scheme \<Rightarrow>
    (int \<times> 'a filek_scheme) res" where
  "arg_in_op a f s = bindr a (\<lambda>r. case r of None \<Rightarrow> bindr (end_op s) (\<lambda>s. Ok (-1, s)) | Some x \<Rightarrow> f x)"

definition make_node :: "byte list \<Rightarrow> int \<Rightarrow> int \<Rightarrow> int \<Rightarrow> 'a filek_scheme \<Rightarrow> (int \<times> 'a filek_scheme) res" where
  "make_node path ty mjr mnr s =
     bindr (create path ty mjr mnr s) (\<lambda>(ip, s).
     case ip of
       None \<Rightarrow> bindr (end_op s) (\<lambda>s. Ok (-1, s))
     | Some ip \<Rightarrow> bindr (iunlockput ip s) (\<lambda>s. bindr (end_op s) (\<lambda>s. Ok (0, s))))"

definition sys_mkdir :: "'a filek_scheme \<Rightarrow> (int \<times> 'a filek_scheme) res" where
  "sys_mkdir s =
     bindr (begin_op s) (\<lambda>s.
     arg_in_op (argstr 0 s) (\<lambda>path. make_node path T_DIR 0 0 s) s)"

text \<open>\<open>major\<close> and \<open>minor\<close> are narrowed to \<open>short\<close> in the call of \<open>create\<close>.\<close>

definition sys_mknod :: "'a filek_scheme \<Rightarrow> (int \<times> 'a filek_scheme) res" where
  "sys_mknod s =
     bindr (begin_op s) (\<lambda>s.
     arg_in_op (argstr 0 s) (\<lambda>path.
     arg_in_op (argint 1 s) (\<lambda>mjr.
     arg_in_op (argint 2 s) (\<lambda>mnr.
       make_node path T_DEV (s16 (u16_of mjr)) (s16 (u16_of mnr)) s) s) s) s)"

definition chdir_path :: "byte list \<Rightarrow> 'a filek_scheme \<Rightarrow> (int \<times> 'a filek_scheme) res" where
  "chdir_path path s =
     bindr (namei path s) (\<lambda>(ip, s).
     case ip of
       None \<Rightarrow> bindr (end_op s) (\<lambda>s. Ok (-1, s))
     | Some ip \<Rightarrow>
         bindr (ilock ip s) (\<lambda>s.
         if i_type (inodes s ip) \<noteq> T_DIR
         then bindr (iunlockput ip s) (\<lambda>s. bindr (end_op s) (\<lambda>s. Ok (-1, s)))
         else
           bindr (iunlock ip s) (\<lambda>s.
           bindr (iput (the (p_cwd (myproc s))) s) (\<lambda>s.
           bindr (end_op s) (\<lambda>s.
           Ok (0, upd_proc (the (cur s)) (\<lambda>x. x\<lparr>p_cwd := Some ip\<rparr>) s))))))"

definition sys_chdir :: "'a filek_scheme \<Rightarrow> (int \<times> 'a filek_scheme) res" where
  "sys_chdir s = bindr (begin_op s) (\<lambda>s. arg_in_op (argstr 0 s) (\<lambda>path. chdir_path path s) s)"

section \<open>exec and pipe\<close>

text \<open>The loop of \<open>sys_exec\<close> over the user array of pointers; \<open>k\<close> entries of \<open>argv\<close> are left.\<close>

fun exec_args :: "nat \<Rightarrow> nat \<Rightarrow> 'a ksys_scheme \<Rightarrow> byte list list option res" where
  "exec_args 0 a s = Ok None"
| "exec_args (Suc k) a s =
     bindr (fetchint a s) (\<lambda>r.
     case r of
       None \<Rightarrow> Ok None
     | Some uarg \<Rightarrow>
         if uarg = 0 then Ok (Some [])
         else
           bindr (fetchstr (u32_of uarg) s) (\<lambda>r.
           case r of
             None \<Rightarrow> Ok None
           | Some str \<Rightarrow>
               bindr (exec_args k (wrap32 (a + 4)) s) (\<lambda>r. Ok (map_option ((#) str) r))))"

definition sys_exec :: "'a filek_scheme \<Rightarrow> (int \<times> 'a filek_scheme) res" where
  "sys_exec s =
     with_arg (argstr 0 s) (\<lambda>path.
     with_arg (argint 1 s) (\<lambda>uargv.
     with_arg (exec_args MAXARG (u32_of uargv) s) (\<lambda>argv. exec path argv s) s) s) s"

definition sys_pipe :: "'a filek_scheme \<Rightarrow> (int \<times> 'a filek_scheme) res" where
  "sys_pipe s =
     with_arg (argptr 0 8 s) (\<lambda>fd.
       bindr (pipealloc s) (\<lambda>(r, s).
       case r of
         None \<Rightarrow> Ok (-1, s)
       | Some (rfd, wfd) \<Rightarrow>
           let (fd0, s) = fdalloc rfd s;
               (fd1, s) = (case fd0 of None \<Rightarrow> (None, s) | Some _ \<Rightarrow> fdalloc wfd s)
           in case (fd0, fd1) of
                (Some a, Some b) \<Rightarrow> bindr (uput fd (word_bytes a @ word_bytes b) s) (\<lambda>s. Ok (0, s))
              | _ \<Rightarrow>
                  let s = (case fd0 of Some a \<Rightarrow> set_ofile a None s | None \<Rightarrow> s)
                  in bindr (fileclose rfd s) (\<lambda>s. bindr (fileclose wfd s) (\<lambda>s. Ok (-1, s))))) s"

end
