(* ===== verification/Taskmaster.thy ===== *)
theory Taskmaster
  imports Exec
begin

text \<open>
  The task master in \<open>proc.c\<close>: a master process issues tasks, worker processes wait for a task, run
  the function of the task in user space and report its result. A worker's registers are saved in
  \<open>p_oldtf\<close> while it runs the function.
\<close>

section \<open>State\<close>

definition MAX_TASKS :: nat where "MAX_TASKS = 100"

lemmas [layout_simps] = MAX_TASKS_def

datatype taskstatus = FREE | PENDING | ALLOCATED | COMPLETED

record task_t =
  t_status :: taskstatus
  t_id :: int
  t_arg1 :: int
  t_arg2 :: int
  t_result :: int
  t_fptr :: nat

text \<open>\<open>struct taskmaster_t\<close> with its array of \<open>MAX_TASKS\<close> tasks; its lock is \<open>LTaskmaster\<close>.\<close>

record taskk = prock +
  tm_cv1 :: int
  tm_cv2 :: int
  tasks :: "nat \<Rightarrow> task_t"

definition upd_task :: "nat \<Rightarrow> (task_t \<Rightarrow> task_t) \<Rightarrow> 'a taskk_scheme \<Rightarrow> 'a taskk_scheme" where
  "upd_task i f s = s\<lparr>tasks := (tasks s)(i := f (tasks s i))\<rparr>"

definition init_taskmaster :: "'a taskk_scheme \<Rightarrow> int \<times> 'a taskk_scheme" where
  "init_taskmaster s = (1, s\<lparr>tm_cv1 := 0, tm_cv2 := 0,
     tasks := (\<lambda>i. if i < MAX_TASKS then (tasks s i)\<lparr>t_status := FREE\<rparr> else tasks s i)\<rparr>)"

section \<open>The master\<close>

definition do_task :: "nat \<Rightarrow> int \<Rightarrow> int \<Rightarrow> int \<Rightarrow> 'a taskk_scheme \<Rightarrow> (int \<times> 'a taskk_scheme) res" where
  "do_task fptr task_id arg1 arg2 s =
     (let slot = first_idx MAX_TASKS (\<lambda>i. t_status (tasks s i) = FREE);
          found = (slot \<noteq> None);
          already_used = (first_idx MAX_TASKS (\<lambda>i. t_status (tasks s i) \<noteq> FREE \<and> t_id (tasks s i) = task_id) \<noteq> None)
      in if already_used \<and> \<not> found
         then bindr (cprintf (chars ''Error in do_task!!'' @ [10]) [] s) (\<lambda>s. Ok (-1, s))
         else
           let s = (case slot of
                 None \<Rightarrow> s
               | Some i \<Rightarrow> upd_task i (\<lambda>t. t\<lparr>t_status := PENDING, t_id := task_id, t_arg1 := arg1, t_arg2 := arg2,
                   t_fptr := fptr\<rparr>) s)
           in bindr (wakeup (ChInt (tm_cv1 s)) s) (\<lambda>s. Ok (1, s)))"

text \<open>
  The \<open>for\<close> loop of \<open>wait_for_task_to_complete\<close> from entry \<open>i\<close>, \<open>k\<close> entries left: \<open>Some\<close> the value
  returned, \<open>None\<close> at the end of the table. It sleeps at an entry that is not completed.
\<close>

fun complete_scan :: "nat \<Rightarrow> nat \<Rightarrow> int \<Rightarrow> nat \<Rightarrow> 'a taskk_scheme \<Rightarrow> (int option \<times> 'a taskk_scheme) res" where
  "complete_scan 0 i task_id rp s = Ok (None, s)"
| "complete_scan (Suc k) i task_id rp s =
     (if t_id (tasks s i) \<noteq> task_id then complete_scan k (i + 1) task_id rp s
      else if t_status (tasks s i) \<noteq> COMPLETED
      then bindr (acquire LTaskmaster s) (\<lambda>s. Block (ChInt (tm_cv2 s)))
      else bindr (uput rp (word_bytes (u32_of (t_result (tasks s i)))) s) (\<lambda>s. Ok (Some (t_result (tasks s i)), s)))"

text \<open>The \<open>while(1)\<close>: a scan that meets no entry with the identifier is repeated for ever.\<close>

definition wait_for_task_to_complete :: "int \<Rightarrow> nat \<Rightarrow> 'a taskk_scheme \<Rightarrow> (int \<times> 'a taskk_scheme) res" where
  "wait_for_task_to_complete task_id rp s =
     (if first_idx MAX_TASKS (\<lambda>i. t_id (tasks s i) = task_id) = None then Ok (-1, s)
      else
        bindr (complete_scan MAX_TASKS 0 task_id rp s) (\<lambda>(r, s).
        case r of Some v \<Rightarrow> Ok (v, s) | None \<Rightarrow> Spin))"

text \<open>After it has slept at entry \<open>i\<close> and been woken up it releases the lock and goes on with entry \<open>i + 1\<close>.\<close>

definition wait_complete_resume :: "nat \<Rightarrow> int \<Rightarrow> nat \<Rightarrow> 'a taskk_scheme \<Rightarrow> (int \<times> 'a taskk_scheme) res" where
  "wait_complete_resume i task_id rp s =
     bindr (release LTaskmaster s) (\<lambda>s.
     bindr (complete_scan (MAX_TASKS - (i + 1)) (i + 1) task_id rp s) (\<lambda>(r, s).
     case r of
       Some v \<Rightarrow> Ok (v, s)
     | None \<Rightarrow>
         bindr (complete_scan MAX_TASKS 0 task_id rp s) (\<lambda>(r, s).
         case r of Some v \<Rightarrow> Ok (v, s) | None \<Rightarrow> Spin)))"

section \<open>The workers\<close>

text \<open>\<open>p->tf->esp -= 4; *(int * ) p->tf->esp = v\<close>.\<close>

definition push_user :: "int \<Rightarrow> 'a ksys_scheme \<Rightarrow> 'a ksys_scheme res" where
  "push_user v s =
     (let sp = sub32 (tf_esp (p_tf (myproc s))) 4
      in uput sp (word_bytes (u32_of v)) (upd_proc (the (cur s)) (\<lambda>x. x\<lparr>p_tf := (p_tf x)\<lparr>tf_esp := sp\<rparr>\<rparr>) s))"

definition wait_for_task :: "'a taskk_scheme \<Rightarrow> (int \<times> 'a taskk_scheme) res" where
  "wait_for_task s =
     (case first_idx MAX_TASKS (\<lambda>i. t_status (tasks s i) = PENDING) of
        Some i \<Rightarrow>
          let s = upd_task i (\<lambda>t. t\<lparr>t_status := ALLOCATED\<rparr>) s;
              s = upd_proc (the (cur s)) (\<lambda>x. x\<lparr>p_oldtf := p_tf x\<rparr>) s
          in bindr (push_user (t_arg2 (tasks s i)) s) (\<lambda>s.
             bindr (push_user (t_arg1 (tasks s i)) s) (\<lambda>s.
             bindr (push_user (t_id (tasks s i)) s) (\<lambda>s.
             Ok (1, upd_proc (the (cur s)) (\<lambda>x. x\<lparr>p_tf := (p_tf x)\<lparr>tf_esp := sub32 (tf_esp (p_tf x)) 4,
               tf_eip := t_fptr (tasks s i)\<rparr>\<rparr>) s))))
      | None \<Rightarrow> bindr (acquire LTaskmaster s) (\<lambda>s. Block (ChInt (tm_cv1 s))))"

definition task_ret :: "int \<Rightarrow> int \<Rightarrow> 'a taskk_scheme \<Rightarrow> (int \<times> 'a taskk_scheme) res" where
  "task_ret task_id result s =
     (case first_idx MAX_TASKS (\<lambda>i. t_id (tasks s i) = task_id) of
        Some i \<Rightarrow>
          bindr (wakeup (ChInt (tm_cv2 s)) (upd_task i (\<lambda>t. t\<lparr>t_status := COMPLETED, t_result := result\<rparr>) s)) (\<lambda>s.
          Ok (task_id, upd_proc (the (cur s)) (\<lambda>x. x\<lparr>p_tf := p_oldtf x\<rparr>) s))
      | None \<Rightarrow>
          bindr (cprintf (chars ''Task with task_id = %d not found'' @ [10]) [CInt task_id] s) (\<lambda>s. Ok (-1, s)))"

end
