(* ===== verification/Syscall.thy ===== *)
theory Syscall
  imports Sysfile Taskmaster
begin

text \<open>
  \<open>sysproc.c\<close> and the dispatch of \<open>syscall.c\<close>. A system call that ends the process has the result
  \<open>None\<close>.
\<close>

section \<open>Process system calls\<close>

definition sys_fork :: "'a filek_scheme \<Rightarrow> (int \<times> 'a filek_scheme) res" where
  "sys_fork s = fork s"

definition sys_exit :: "'a filek_scheme \<Rightarrow> (int option \<times> 'a filek_scheme) res" where
  "sys_exit s = bindr (exit_enter s) (\<lambda>s. Ok (None, s))"

definition sys_wait :: "'a ksys_scheme \<Rightarrow> (int \<times> 'a ksys_scheme) res" where
  "sys_wait s = wait s"

definition sys_kill :: "'a ksys_scheme \<Rightarrow> (int \<times> 'a ksys_scheme) res" where
  "sys_kill s = with_arg (argint 0 s) (\<lambda>pid. kill pid s) s"

definition sys_getpid :: "'a ksys_scheme \<Rightarrow> (int \<times> 'a ksys_scheme) res" where
  "sys_getpid s = Ok (p_pid (myproc s), s)"

definition sys_sbrk :: "'a vmk_scheme \<Rightarrow> (int \<times> 'a vmk_scheme) res" where
  "sys_sbrk s =
     with_arg (argint 0 s) (\<lambda>n.
       let addr = s32 (p_sz (myproc s))
       in bindr (growproc n s) (\<lambda>(r, s). Ok (if r < 0 then -1 else addr, s))) s"

text \<open>The loop of \<open>sys_sleep\<close>, which holds \<open>tickslock\<close>; it is entered again after every wakeup.\<close>

definition sleep_ticks :: "nat \<Rightarrow> int \<Rightarrow> 'a ksys_scheme \<Rightarrow> (int \<times> 'a ksys_scheme) res" where
  "sleep_ticks ticks0 n s =
     (if sub32 (ticks s) ticks0 < u32_of n
      then if p_killed (myproc s) then bindr (release LTicks s) (\<lambda>s. Ok (-1, s)) else Block ChTicks
      else bindr (release LTicks s) (\<lambda>s. Ok (0, s)))"

definition sys_sleep :: "'a ksys_scheme \<Rightarrow> (int \<times> 'a ksys_scheme) res" where
  "sys_sleep s =
     with_arg (argint 0 s) (\<lambda>n.
       bindr (acquire LTicks s) (\<lambda>s. sleep_ticks (ticks s) n s)) s"

definition sys_uptime :: "'a ksys_scheme \<Rightarrow> (int \<times> 'a ksys_scheme) res" where
  "sys_uptime s =
     bindr (acquire LTicks s) (\<lambda>s.
     let xticks = ticks s
     in bindr (release LTicks s) (\<lambda>s. Ok (s32 xticks, s)))"

section \<open>Task system calls\<close>

definition sys_init_taskmaster :: "'a taskk_scheme \<Rightarrow> (int \<times> 'a taskk_scheme) res" where
  "sys_init_taskmaster s = Ok (init_taskmaster s)"

definition sys_do_task :: "'a taskk_scheme \<Rightarrow> (int \<times> 'a taskk_scheme) res" where
  "sys_do_task s =
     with_arg (argptr 0 4 s) (\<lambda>fptr.
     with_arg (argint 1 s) (\<lambda>task_id.
     with_arg (argint 2 s) (\<lambda>arg1.
     with_arg (argint 3 s) (\<lambda>arg2.
       do_task fptr task_id arg1 arg2 s) s) s) s) s"

definition sys_wait_for_task_to_complete :: "'a taskk_scheme \<Rightarrow> (int \<times> 'a taskk_scheme) res" where
  "sys_wait_for_task_to_complete s =
     with_arg (argint 0 s) (\<lambda>task_id.
     with_arg (argptr 1 4 s) (\<lambda>rp.
       wait_for_task_to_complete task_id rp s) s) s"

definition sys_wait_for_task :: "'a taskk_scheme \<Rightarrow> (int \<times> 'a taskk_scheme) res" where
  "sys_wait_for_task s = wait_for_task s"

definition sys_task_ret :: "'a taskk_scheme \<Rightarrow> (int \<times> 'a taskk_scheme) res" where
  "sys_task_ret s =
     with_arg (argint 0 s) (\<lambda>task_id.
     with_arg (argint 1 s) (\<lambda>result.
       task_ret task_id result s) s) s"

section \<open>Dispatch\<close>

definition returns :: "(int \<times> 's) res \<Rightarrow> (int option \<times> 's) res" where
  "returns r = bindr r (\<lambda>(v, s). Ok (Some v, s))"

text \<open>The table \<open>syscalls\<close>, in the order of the numbers of \<open>syscall.h\<close>; entry 0 is null.\<close>

definition syscalls :: "('a taskk_scheme \<Rightarrow> (int option \<times> 'a taskk_scheme) res) list" where
  "syscalls = [
     \<lambda>s. Panic ''null'',
     \<lambda>s. returns (sys_fork s), sys_exit, \<lambda>s. returns (sys_wait s), \<lambda>s. returns (sys_pipe s),
     \<lambda>s. returns (sys_read s), \<lambda>s. returns (sys_kill s), \<lambda>s. returns (sys_exec s), \<lambda>s. returns (sys_fstat s),
     \<lambda>s. returns (sys_chdir s), \<lambda>s. returns (sys_dup s), \<lambda>s. returns (sys_getpid s), \<lambda>s. returns (sys_sbrk s),
     \<lambda>s. returns (sys_sleep s), \<lambda>s. returns (sys_uptime s), \<lambda>s. returns (sys_open s), \<lambda>s. returns (sys_write s),
     \<lambda>s. returns (sys_mknod s), \<lambda>s. returns (sys_unlink s), \<lambda>s. returns (sys_link s), \<lambda>s. returns (sys_mkdir s),
     \<lambda>s. returns (sys_close s), \<lambda>s. returns (sys_init_taskmaster s), \<lambda>s. returns (sys_do_task s),
     \<lambda>s. returns (sys_wait_for_task_to_complete s), \<lambda>s. returns (sys_wait_for_task s),
     \<lambda>s. returns (sys_task_ret s)]"

definition set_eax :: "int \<Rightarrow> 'a ksys_scheme \<Rightarrow> 'a ksys_scheme" where
  "set_eax v s = upd_proc (the (cur s)) (\<lambda>x. x\<lparr>p_tf := (p_tf x)\<lparr>tf_eax := u32_of v\<rparr>\<rparr>) s"

text \<open>The result tells whether the process still runs.\<close>

definition syscall :: "'a taskk_scheme \<Rightarrow> (bool \<times> 'a taskk_scheme) res" where
  "syscall s =
     (let p = myproc s; num = s32 (tf_eax (p_tf p))
      in if 0 < num \<and> num < int (length (syscalls :: ('a taskk_scheme \<Rightarrow> _) list))
         then bindr ((syscalls ! nat num) s) (\<lambda>(r, s).
              case r of Some v \<Rightarrow> Ok (True, set_eax v s) | None \<Rightarrow> Ok (False, s))
         else bindr (cprintf (chars ''%d %s: unknown sys call %d'' @ [10])
                [CInt (p_pid p), CStr (Some (c_chars (p_name p))), CInt num] s) (\<lambda>s.
              Ok (True, set_eax (-1) s)))"

end
