(* ===== verification/Kbd.thy ===== *)
theory Kbd
  imports Console
begin

text \<open>
  The keyboard driver: the tables of \<open>kbd.h\<close> and the state machine of \<open>kbdgetc\<close> in \<open>kbd.c\<close>, which
  turns scan codes into characters.
\<close>

section \<open>Tables\<close>

text \<open>
  An array of 256 bytes given by its first elements and by elements with explicit indexes; the others
  are 0.
\<close>

definition tab :: "nat list \<Rightarrow> (nat \<times> nat) list \<Rightarrow> nat \<Rightarrow> nat" where
  "tab xs ps i = (if i < length xs then xs ! i else case map_of ps i of Some c \<Rightarrow> c | None \<Rightarrow> 0)"

definition SHIFT :: nat where "SHIFT = 1"
definition CTL :: nat where "CTL = 2"
definition ALT :: nat where "ALT = 4"
definition CAPSLOCK :: nat where "CAPSLOCK = 8"
definition NUMLOCK :: nat where "NUMLOCK = 16"
definition SCROLLLOCK :: nat where "SCROLLLOCK = 32"
definition E0ESC :: nat where "E0ESC = 64"

lemmas [layout_simps] = SHIFT_def CTL_def ALT_def CAPSLOCK_def NUMLOCK_def SCROLLLOCK_def E0ESC_def

definition shiftcode :: "nat \<Rightarrow> nat" where
  "shiftcode = tab [] [(29, CTL), (42, SHIFT), (54, SHIFT), (56, ALT), (157, CTL), (184, ALT)]"

definition togglecode :: "nat \<Rightarrow> nat" where
  "togglecode = tab [] [(58, CAPSLOCK), (69, NUMLOCK), (70, SCROLLLOCK)]"

definition normalmap :: "nat \<Rightarrow> nat" where
  "normalmap = tab
   [0, 27, 49, 50, 51, 52, 53, 54, 55, 56, 57, 48, 45, 61, 8, 9,
    113, 119, 101, 114, 116, 121, 117, 105, 111, 112, 91, 93, 10, 0, 97, 115,
    100, 102, 103, 104, 106, 107, 108, 59, 39, 96, 0, 92, 122, 120, 99, 118,
    98, 110, 109, 44, 46, 47, 0, 42, 0, 32, 0, 0, 0, 0, 0, 0,
    0, 0, 0, 0, 0, 0, 0, 55, 56, 57, 45, 52, 53, 54, 43, 49,
    50, 51, 48, 46, 0, 0, 0, 0]
   [(156, 10), (181, 47), (200, 226), (208, 227), (201, 230), (209, 231), (203, 228), (205, 229), (151, 224), (207, 225), (210, 232), (211, 233)]"

definition shiftmap :: "nat \<Rightarrow> nat" where
  "shiftmap = tab
   [0, 27, 33, 64, 35, 36, 37, 94, 38, 42, 40, 41, 95, 43, 8, 9,
    81, 87, 69, 82, 84, 89, 85, 73, 79, 80, 123, 125, 10, 0, 65, 83,
    68, 70, 71, 72, 74, 75, 76, 58, 34, 126, 0, 124, 90, 88, 67, 86,
    66, 78, 77, 60, 62, 63, 0, 42, 0, 32, 0, 0, 0, 0, 0, 0,
    0, 0, 0, 0, 0, 0, 0, 55, 56, 57, 45, 52, 53, 54, 43, 49,
    50, 51, 48, 46, 0, 0, 0, 0]
   [(156, 10), (181, 47), (200, 226), (208, 227), (201, 230), (209, 231), (203, 228), (205, 229), (151, 224), (207, 225), (210, 232), (211, 233)]"

definition ctlmap :: "nat \<Rightarrow> nat" where
  "ctlmap = tab
   [0, 0, 0, 0, 0, 0, 0, 0, 0, 0, 0, 0, 0, 0, 0, 0,
    17, 23, 5, 18, 20, 25, 21, 9, 15, 16, 0, 0, 13, 0, 1, 19,
    4, 6, 7, 8, 10, 11, 12, 0, 0, 0, 0, 28, 26, 24, 3, 22,
    2, 14, 13, 0, 0, 239, 0, 0]
   [(156, 13), (181, 239), (200, 226), (208, 227), (201, 230), (209, 231), (203, 228), (205, 229), (151, 224), (207, 225), (210, 232), (211, 233)]"

text \<open>\<open>charcode[k]\<close> for \<open>k\<close> the control and shift bits.\<close>

definition charcode :: "nat \<Rightarrow> nat \<Rightarrow> nat" where
  "charcode k = [normalmap, shiftmap, ctlmap, ctlmap] ! k"

section \<open>kbdgetc\<close>

text \<open>
  One scan code \<open>data\<close> from the port, with the static variable \<open>shift\<close>: the value returned and the
  new \<open>shift\<close>. With no data in the buffer the code returns -1 before this.
\<close>

definition kbdgetc :: "nat \<Rightarrow> nat \<Rightarrow> nat \<times> nat" where
  "kbdgetc data shift =
     (if data = 224 then (0, shift OR E0ESC)
      else if data AND 128 \<noteq> 0
      then let data = (if shift AND E0ESC \<noteq> 0 then data else data AND 127)
           in (0, shift - (shift AND (shiftcode data OR E0ESC)))
      else
        let (data, shift) = (if shift AND E0ESC \<noteq> 0 then (data OR 128, shift - E0ESC) else (data, shift));
            shift = shift OR shiftcode data;
            shift = shift XOR togglecode data;
            c = charcode (shift AND (CTL OR SHIFT)) data;
            c = (if shift AND CAPSLOCK \<noteq> 0
                 then if 97 \<le> c \<and> c \<le> 122 then c - 32 else if 65 \<le> c \<and> c \<le> 90 then c + 32 else c
                 else c)
        in (c, shift))"

text \<open>The characters \<open>consoleintr\<close> gets from \<open>kbdgetc\<close> while the port has data.\<close>

fun kbd_chars :: "nat list \<Rightarrow> nat \<Rightarrow> nat list \<times> nat" where
  "kbd_chars [] shift = ([], shift)"
| "kbd_chars (d # ds) shift =
     (let (c, shift) = kbdgetc d shift; (cs, shift) = kbd_chars ds shift in (c # cs, shift))"

end
