(* ===== verification/Trap.thy ===== *)
theory Trap
  imports Syscall Kbd
begin

text \<open>
  \<open>trap.c\<close> with the interrupt handlers of the keyboard and the serial port: the interrupt
  descriptor table and the dispatch of a trap. Acknowledging an interrupt at the local APIC
  (\<open>lapiceoi\<close>) has no effect in the model.
\<close>

section \<open>The descriptor table\<close>

record gatedesc =
  off_15_0 :: nat
  g_cs :: nat
  g_args :: nat
  g_type :: nat
  g_s :: nat
  g_dpl :: nat
  g_p :: nat
  off_31_16 :: nat

definition SETGATE :: "bool \<Rightarrow> nat \<Rightarrow> nat \<Rightarrow> nat \<Rightarrow> gatedesc" where
  "SETGATE istrap sel off d = \<lparr>off_15_0 = off AND 65535, g_cs = sel, g_args = 0,
     g_type = (if istrap then 15 else 14), g_s = 0, g_dpl = d, g_p = 1, off_31_16 = drop_bit 16 off\<rparr>"

definition T_SYSCALL :: nat where "T_SYSCALL = 64"
definition T_IRQ0 :: nat where "T_IRQ0 = 32"
definition IRQ_TIMER :: nat where "IRQ_TIMER = 0"
definition IRQ_KBD :: nat where "IRQ_KBD = 1"
definition IRQ_COM1 :: nat where "IRQ_COM1 = 4"
definition IRQ_IDE :: nat where "IRQ_IDE = 14"
definition IRQ_SPURIOUS :: nat where "IRQ_SPURIOUS = 31"
definition DPL_USER :: nat where "DPL_USER = 3"

lemmas [layout_simps] = T_SYSCALL_def T_IRQ0_def IRQ_TIMER_def IRQ_KBD_def IRQ_COM1_def IRQ_IDE_def
  IRQ_SPURIOUS_def DPL_USER_def

text \<open>
  \<open>vectors\<close>: the entry points the build generates. The selector is \<open>SEG_KCODE << 3\<close>.
\<close>

definition tvinit :: "(nat \<Rightarrow> nat) \<Rightarrow> nat \<Rightarrow> gatedesc" where
  "tvinit vectors = (\<lambda>i. SETGATE False 8 (vectors i) 0)(T_SYSCALL := SETGATE True 8 (vectors T_SYSCALL) DPL_USER)"

section \<open>Interrupt handlers\<close>

text \<open>\<open>kbd_shift\<close>: the static variable of \<open>kbdgetc\<close>.\<close>

record trapk = taskk +
  kbd_shift :: nat

definition kbdintr :: "nat list \<Rightarrow> 'a trapk_scheme \<Rightarrow> 'a trapk_scheme res" where
  "kbdintr scan s =
     (let (cs, shift) = kbd_chars scan (kbd_shift s)
      in consoleintr cs (s\<lparr>kbd_shift := shift\<rparr>))"

definition uartintr :: "nat list \<Rightarrow> 'a consk_scheme \<Rightarrow> 'a consk_scheme res" where
  "uartintr ins s = consoleintr (if uart s then ins else []) s"

text \<open>The timer part of \<open>trap\<close>, on the CPU \<open>c\<close>.\<close>

definition timer_tick :: "nat \<Rightarrow> 'a ksys_scheme \<Rightarrow> 'a ksys_scheme res" where
  "timer_tick c s =
     (if c = 0
      then bindr (acquire LTicks s) (\<lambda>s.
           bindr (wakeup ChTicks (s\<lparr>ticks := wrap32 (ticks s + 1)\<rparr>)) (release LTicks))
      else Ok s)"

section \<open>Traps\<close>

text \<open>
  What the devices and the processor supply to one trap: the number of the CPU, the scan codes and
  the serial input that are pending, and the faulting address.
\<close>

record trapenv =
  te_cpu :: nat
  te_scan :: "nat list"
  te_ser :: "nat list"
  te_cr2 :: nat

text \<open>
  \<open>Returns\<close>: back to the interrupted code. \<open>Exits\<close>: the process has entered the scheduler for good.
  \<open>Yields\<close>: it has entered the scheduler in \<open>yield\<close>, and \<open>trap_resume\<close> follows.
\<close>

datatype trapout = Returns | Exits | Yields

definition do_exit :: "'a filek_scheme \<Rightarrow> (trapout \<times> 'a filek_scheme) res" where
  "do_exit s = bindr (exit_enter s) (\<lambda>s. Ok (Exits, s))"

definition cur_killed :: "'a ksys_scheme \<Rightarrow> bool" where
  "cur_killed s \<longleftrightarrow> cur s \<noteq> None \<and> p_killed (myproc s)"

definition trap_syscall :: "trapframe \<Rightarrow> 'a taskk_scheme \<Rightarrow> (trapout \<times> 'a taskk_scheme) res" where
  "trap_syscall tf s =
     (if p_killed (myproc s) then do_exit s
      else
        bindr (syscall (upd_proc (the (cur s)) (\<lambda>x. x\<lparr>p_tf := tf\<rparr>) s)) (\<lambda>(alive, s).
        if \<not> alive then Ok (Exits, s)
        else if p_killed (myproc s) then do_exit s else Ok (Returns, s)))"

text \<open>The \<open>switch\<close> over the trap number.\<close>

definition trap_dispatch :: "trapenv \<Rightarrow> trapframe \<Rightarrow> 'a trapk_scheme \<Rightarrow> 'a trapk_scheme res" where
  "trap_dispatch env tf s =
     (if tf_trapno tf = T_IRQ0 + IRQ_TIMER then timer_tick (te_cpu env) s
      else if tf_trapno tf = T_IRQ0 + IRQ_IDE then ideintr s
      else if tf_trapno tf = T_IRQ0 + IRQ_IDE + 1 then Ok s
      else if tf_trapno tf = T_IRQ0 + IRQ_KBD then kbdintr (te_scan env) s
      else if tf_trapno tf = T_IRQ0 + IRQ_COM1 then uartintr (te_ser env) s
      else if tf_trapno tf = T_IRQ0 + 7 \<or> tf_trapno tf = T_IRQ0 + IRQ_SPURIOUS
      then cprintf (chars ''cpu%d: spurious interrupt at %x:%x'' @ [10])
             [CInt (int (te_cpu env)), CInt (int (tf_cs tf)), CInt (s32 (tf_eip tf))] s
      else if cur s = None \<or> tf_cs tf AND 3 = 0
      then bindr (cprintf (chars ''unexpected trap %d from cpu %d eip %x (cr2=0x%x)'' @ [10])
             [CInt (s32 (tf_trapno tf)), CInt (int (te_cpu env)), CInt (s32 (tf_eip tf)), CInt (s32 (te_cr2 env))] s)
             (\<lambda>s. Panic ''trap'')
      else
        bindr (cprintf (chars ''pid %d %s: trap %d err %d on cpu %d eip 0x%x addr 0x%x--kill proc'' @ [10])
          [CInt (p_pid (myproc s)), CStr (Some (c_chars (p_name (myproc s)))), CInt (s32 (tf_trapno tf)),
           CInt (s32 (tf_err tf)), CInt (int (te_cpu env)), CInt (s32 (tf_eip tf)), CInt (s32 (te_cr2 env))] s) (\<lambda>s.
        Ok (upd_proc (the (cur s)) (\<lambda>x. x\<lparr>p_killed := True\<rparr>) s)))"

definition trap :: "trapenv \<Rightarrow> trapframe \<Rightarrow> 'a trapk_scheme \<Rightarrow> (trapout \<times> 'a trapk_scheme) res" where
  "trap env tf s =
     (if tf_trapno tf = T_SYSCALL then trap_syscall tf s
      else
        bindr (trap_dispatch env tf s) (\<lambda>s.
        if cur_killed s \<and> tf_cs tf AND 3 = DPL_USER then do_exit s
        else if cur s \<noteq> None \<and> p_state (myproc s) = RUNNING \<and> tf_trapno tf = T_IRQ0 + IRQ_TIMER
        then bindr (yield_enter s) (\<lambda>s. Ok (Yields, s))
        else Ok (Returns, s)))"

text \<open>
  After \<open>yield\<close> the process may have been killed. (When \<open>trap\<close> does not yield, this test repeats the
  one before it.)
\<close>

definition trap_resume :: "trapframe \<Rightarrow> 'a filek_scheme \<Rightarrow> (trapout \<times> 'a filek_scheme) res" where
  "trap_resume tf s =
     bindr (yield_exit s) (\<lambda>s.
     if cur_killed s \<and> tf_cs tf AND 3 = DPL_USER then do_exit s else Ok (Returns, s))"

end
