(* ===== verification/Devices.thy ===== *)
theory Devices
  imports Trap BioSpec
begin

text \<open>
  Devices: the disk in memory of \<open>memide.c\<close>, which can take the place of \<open>ide.c\<close>, the probing of the
  devices (\<open>ideinit\<close>, \<open>uartinit\<close>), the interrupt controllers of \<open>ioapic.c\<close>, \<open>picirq.c\<close> and
  \<open>lapic.c\<close>, and the clock. What a device answers when it is read is a parameter.
\<close>

section \<open>A disk in memory\<close>

text \<open>
  \<open>iderw\<close> of \<open>memide.c\<close>. The image linked into the kernel, of \<open>disksize\<close> blocks, is the drive 1 of the
  state. A block is copied at once; nothing sleeps.
\<close>

definition memide_iderw :: "nat \<Rightarrow> nat \<Rightarrow> 'a bio_scheme \<Rightarrow> 'a bio_scheme res" where
  "memide_iderw disksize b s =
     bindr (holdingsleep (LBufLock b) (b_lock (bufs s b)) s) (\<lambda>(h, s).
     if \<not> h then Panic ''iderw: buf not locked''
     else if b_valid (bufs s b) \<and> \<not> b_dirty (bufs s b) then Panic ''iderw: nothing to do''
     else if b_dev (bufs s b) \<noteq> 1 then Panic ''iderw: request not for disk 1''
     else if disksize \<le> b_blockno (bufs s b) then Panic ''iderw: block out of range''
     else
       let n = b_blockno (bufs s b);
           s = (if b_dirty (bufs s b)
                then (upd_buf b (\<lambda>u. u\<lparr>b_dirty := False\<rparr>) s)\<lparr>disk := (disk s)(1 := (disk s 1)(n := b_data (bufs s b)))\<rparr>
                else set_data b (disk s 1 n) s)
       in Ok (upd_buf b (\<lambda>u. u\<lparr>b_valid := True\<rparr>) s))"

text \<open>Whenever the driver of the disk serves a request of drive 1, the disk in memory serves it alike.\<close>

theorem memide_serves_as_disk:
  assumes "io_ready s" "sl_locked (b_lock (bufs s b))" "b_dirty (bufs s b) \<or> \<not> b_valid (bufs s b)"
    and "b_dev (bufs s b) = 1" "b_blockno (bufs s b) < disksize" "disksize \<le> FSSIZE"
  shows "okP (memide_iderw disksize b s) (\<lambda>u. okP (iderw b s) (\<lambda>t. bufs u = bufs t \<and> disk u = disk t))"
proof -
  have "iderw b s = Ok (rw_done b s)" by (rule iderw_eq) (use assms in simp_all)
  moreover have "held s = {}" using assms(1) by (simp add: io_ready_def)
  ultimately show ?thesis
    using assms by (auto simp: memide_iderw_def holdingsleep_eq rw_done_def disk_write_def set_data_def upd_buf_def Let_def fun_upd_def)
qed

text \<open>A request for the missing disk and for a block behind the image are refused before anything changes.\<close>

lemma memide_refuses:
  assumes "LBufLock b \<notin> held s" "sl_locked (b_lock (bufs s b))" "b_dirty (bufs s b) \<or> \<not> b_valid (bufs s b)"
  shows "b_dev (bufs s b) \<noteq> 1 \<Longrightarrow> memide_iderw disksize b s = Panic ''iderw: request not for disk 1''"
    "b_dev (bufs s b) = 1 \<Longrightarrow> disksize \<le> b_blockno (bufs s b) \<Longrightarrow> memide_iderw disksize b s = Panic ''iderw: block out of range''"
  using assms by (auto simp: memide_iderw_def holdingsleep_eq)

lemma memide_serves_as_disk_witness:
  "let s = upd_buf 3 (\<lambda>u. u\<lparr>b_lock := (b_lock u)\<lparr>sl_locked := True\<rparr>, b_dev := 1, b_blockno := 8\<rparr>)
       (binit (bio_boot 8388608 (\<lambda>d n a. of_nat (d + n + a)))) in
   okP (memide_iderw 1000 3 s) (\<lambda>u. b_data (bufs u 3) 5 = 14 \<and> okP (iderw 3 s) (\<lambda>t. bufs u = bufs t \<and> disk u = disk t))"
proof -
  let ?s = "upd_buf 3 (\<lambda>u. u\<lparr>b_lock := (b_lock u)\<lparr>sl_locked := True\<rparr>, b_dev := 1, b_blockno := 8\<rparr>)
       (binit (bio_boot 8388608 (\<lambda>d n a. of_nat (d + n + a)))) :: bio"
  have h: "held ?s = {}" "\<not> b_dirty (bufs ?s 3)" "\<not> b_valid (bufs ?s 3)" "io_ready ?s" "disk ?s = (\<lambda>d n a. of_nat (d + n + a))"
    by (simp_all add: bio_boot_sel binit_sel io_ready_def zero_buf_def)
  have w: "okP (memide_iderw 1000 3 ?s) (\<lambda>u. okP (iderw 3 ?s) (\<lambda>t. bufs u = bufs t \<and> disk u = disk t))"
    by (rule memide_serves_as_disk) (use h in \<open>simp_all add: FSSIZE_def\<close>)
  have "okP (memide_iderw 1000 3 ?s) (\<lambda>u. b_data (bufs u 3) 5 = 14)"
    using h by (simp add: memide_iderw_def holdingsleep_eq set_data_def)
  with w show ?thesis by (simp add: Let_def okP_conj)
qed

section \<open>Probing\<close>

text \<open>\<open>ideinit\<close>: drive 1 is selected and its status read up to 1000 times; \<open>r\<close> gives what is read.\<close>

fun ide_probe :: "nat \<Rightarrow> nat \<Rightarrow> (nat \<Rightarrow> nat) \<Rightarrow> bool" where
  "ide_probe 0 i r = False"
| "ide_probe (Suc n) i r = (if r i \<noteq> 0 then True else ide_probe n (i + 1) r)"

definition ideinit :: "(nat \<Rightarrow> nat) \<Rightarrow> 'a bio_scheme \<Rightarrow> 'a bio_scheme" where
  "ideinit r s = (if ide_probe 1000 0 r then s\<lparr>havedisk1 := True\<rparr> else s)"

lemma ide_probe_iff: "ide_probe n i r \<longleftrightarrow> (\<exists>k < n. r (i + k) \<noteq> 0)"
proof (induction n arbitrary: i)
  case (Suc n)
  have "(\<exists>k < Suc n. r (i + k) \<noteq> 0) \<longleftrightarrow> r i \<noteq> 0 \<or> (\<exists>k < n. r (i + 1 + k) \<noteq> 0)" by (simp add: Ex_less_Suc2)
  then show ?case using Suc.IH [of "i + 1"] by simp
qed simp

lemma ideinit_finds_disk: "havedisk1 (ideinit r s) \<longleftrightarrow> havedisk1 s \<or> (\<exists>k < 1000. r k \<noteq> 0)"
  using ide_probe_iff [of 1000 0 r] by (auto simp: ideinit_def)

text \<open>
  \<open>uartinit\<close>: the bytes sent to the ports of the serial line, and the announcement. A status of 255 means
  that there is no port.
\<close>

definition uart_setup :: "(nat \<times> nat) list" where
  "uart_setup = [(1018, 0), (1019, 128), (1016, 115200 div 9600), (1017, 0), (1019, 3), (1020, 0), (1017, 1)]"

definition uartinit :: "nat \<Rightarrow> 'a consk_scheme \<Rightarrow> (nat \<times> nat) list \<times> 'a consk_scheme" where
  "uartinit status s =
     (uart_setup, if status = 255 then s else fold uartputc (chars (''xv6...'' @ [CHR 0x0A])) (s\<lparr>uart := True\<rparr>))"

lemma uartinit_announces:
  "snd (uartinit status s) = (if status = 255 then s
     else s\<lparr>uart := True, uart_out := uart_out s @ chars (''xv6...'' @ [CHR 0x0A])\<rparr>)"
  by (simp add: uartinit_def uartputc_def chars_def)

section \<open>Interrupt controllers\<close>

text \<open>\<open>picinit\<close>: what is sent to the ports of the two 8259A.\<close>

definition picinit :: "(nat \<times> nat) list" where
  "picinit = [(32 + 1, 255), (160 + 1, 255)]"

text \<open>\<open>ioapic.c\<close>: the registers behind the window of the I/O APIC, and the one the window shows.\<close>

record ioapic =
  io_reg :: nat
  io_data :: "nat \<Rightarrow> nat"

definition ioapicread :: "nat \<Rightarrow> ioapic \<Rightarrow> nat \<times> ioapic" where
  "ioapicread reg a = (let a = a\<lparr>io_reg := reg\<rparr> in (io_data a (io_reg a), a))"

definition ioapicwrite :: "nat \<Rightarrow> nat \<Rightarrow> ioapic \<Rightarrow> ioapic" where
  "ioapicwrite reg d a = (let a = a\<lparr>io_reg := reg\<rparr> in a\<lparr>io_data := (io_data a)(io_reg a := d)\<rparr>)"

fun ioapicinit_loop :: "nat \<Rightarrow> nat \<Rightarrow> ioapic \<Rightarrow> ioapic" where
  "ioapicinit_loop 0 i a = a"
| "ioapicinit_loop (Suc n) i a =
     ioapicinit_loop n (i + 1) (ioapicwrite (16 + 2 * i + 1) 0 (ioapicwrite (16 + 2 * i) (65536 OR (T_IRQ0 + i)) a))"

text \<open>The Boolean says whether the message about the number of the I/O APIC is printed.\<close>

definition ioapicinit :: "nat \<Rightarrow> ioapic \<Rightarrow> bool \<times> ioapic" where
  "ioapicinit ioapicid a =
     (let (v, a) = ioapicread 1 a;
          maxintr = drop_bit 16 v AND 255;
          (d, a) = ioapicread 0 a;
          n = drop_bit 24 d
      in (n \<noteq> ioapicid, ioapicinit_loop (maxintr + 1) 0 a))"

definition ioapicenable :: "nat \<Rightarrow> nat \<Rightarrow> ioapic \<Rightarrow> ioapic" where
  "ioapicenable irq cpunum a =
     ioapicwrite (16 + 2 * irq + 1) (wrap32 (push_bit 24 cpunum)) (ioapicwrite (16 + 2 * irq) (T_IRQ0 + irq) a)"

text \<open>A line that is enabled: the vector and the CPU of its entry in the redirection table.\<close>

definition routed :: "ioapic \<Rightarrow> nat \<Rightarrow> (nat \<times> nat) option" where
  "routed a i = (if io_data a (16 + 2 * i) AND 65536 = 0
     then Some (io_data a (16 + 2 * i) AND 255, drop_bit 24 (io_data a (16 + 2 * i + 1))) else None)"

lemma ioapicinit_loop_eq:
  "io_data (ioapicinit_loop n i a) r =
     (if 16 + 2 * i \<le> r \<and> r < 16 + 2 * (i + n)
      then if even r then 65536 OR (T_IRQ0 + (r - 16) div 2) else 0 else io_data a r)"
proof (induction n arbitrary: i a r)
  case (Suc n)
  have "r = 16 + 2 * i \<or> r = 16 + 2 * i + 1 \<or> r < 16 + 2 * i \<or> 16 + 2 * (i + 1) \<le> r" by arith
  then show ?case by (elim disjE) (auto simp: Suc.IH ioapicwrite_def Let_def)
qed simp

text \<open>After \<open>ioapicinit\<close> no line is routed; \<open>ioapicenable\<close> routes its line to its CPU and no other one.\<close>

lemma ioapicinit_disables:
  assumes "i \<le> (drop_bit 16 (io_data a 1) AND 255)"
  shows "routed (snd (ioapicinit n a)) i = None"
proof -
  have "drop_bit 16 (io_data a 1) AND 255 < 256" by (simp add: and_255)
  then have i: "i < 256" using assms by linarith
  have "(65536 OR (T_IRQ0 + i)) AND 65536 = 65536"
    by (rule bit_eqI) (auto simp: bit_simps)
  then show ?thesis
    using assms by (simp add: routed_def ioapicinit_def ioapicread_def ioapicinit_loop_eq Let_def del: ioapicinit_loop.simps One_nat_def)
qed

lemma ioapicenable_routes:
  assumes "irq < 224" "cpunum < 256"
  shows "routed (ioapicenable irq cpunum a) irq = Some (T_IRQ0 + irq, cpunum)"
    "i \<noteq> irq \<Longrightarrow> routed (ioapicenable irq cpunum a) i = routed a i"
proof -
  have v: "(T_IRQ0 + irq) AND 255 = T_IRQ0 + irq" using assms(1) by (simp add: and_255 T_IRQ0_def)
  have "\<not> bit (T_IRQ0 + irq) 16" using assms(1) by (simp add: bit_iff_odd T_IRQ0_def)
  then have "(T_IRQ0 + irq) AND 65536 = 0" using and_exp_eq_0_iff_not_bit [of "T_IRQ0 + irq" 16] by simp
  moreover have "drop_bit 24 (wrap32 (push_bit 24 cpunum)) = cpunum"
    using assms(2) by (simp add: push_bit_eq_mult drop_bit_eq_div)
  ultimately show "routed (ioapicenable irq cpunum a) irq = Some (T_IRQ0 + irq, cpunum)"
    by (simp add: routed_def ioapicenable_def ioapicwrite_def Let_def v)
  show "i \<noteq> irq \<Longrightarrow> routed (ioapicenable irq cpunum a) i = routed a i"
    by (auto simp: routed_def ioapicenable_def ioapicwrite_def Let_def)
qed

section \<open>The local APIC\<close>

text \<open>
  \<open>lapic.c\<close>: the values written to the registers, in their order; an index counts words. \<open>ver\<close> is what the
  version register reads, \<open>lapic\<close> the address of the registers, 0 before \<open>mpinit\<close>. The loop that waits
  for the delivery of the INIT message has no effect of its own.
\<close>

definition lapicinit :: "nat \<Rightarrow> nat \<Rightarrow> (nat \<times> nat) list" where
  "lapicinit lapic ver =
     (if lapic = 0 then []
      else [(60, 256 OR (T_IRQ0 + 31)), (248, 11), (200, 131072 OR (T_IRQ0 + 0)), (224, 10000000), (212, 65536), (216, 65536)]
        @ (if 4 \<le> (drop_bit 16 ver AND 255) then [(208, 65536)] else [])
        @ [(220, T_IRQ0 + 19), (160, 0), (160, 0), (44, 0), (196, 0), (192, 524288 OR 1280 OR 32768), (32, 0)])"

definition lapicid :: "nat \<Rightarrow> nat \<Rightarrow> nat" where
  "lapicid lapic idreg = (if lapic = 0 then 0 else drop_bit 24 idreg)"

definition lapiceoi :: "nat \<Rightarrow> (nat \<times> nat) list" where
  "lapiceoi lapic = (if lapic \<noteq> 0 then [(44, 0)] else [])"

text \<open>
  \<open>lapicstartap\<close>: what is sent to the ports of the CMOS, the two halfwords of the warm reset vector, and what
  is written to the local APIC.
\<close>

definition lapicstartap :: "nat \<Rightarrow> nat \<Rightarrow> (nat \<times> nat) list \<times> nat list \<times> (nat \<times> nat) list" where
  "lapicstartap aid addr =
     ([(112, 15), (112 + 1, 10)], [0, drop_bit 4 addr mod 65536],
      [(196, push_bit 24 aid), (192, 1280 OR 32768 OR 16384), (192, 1280 OR 32768)]
      @ concat (replicate 2 [(196, push_bit 24 aid), (192, 1536 OR drop_bit 12 addr)]))"

text \<open>
  A processor enters real mode at the page whose number is in the low byte of the STARTUP message, or at the
  warm reset vector. Both are the address given, if that is the start of a page below 1 MB.
\<close>

lemma lapicstartap_entry:
  assumes "addr mod 4096 = 0" "addr < 1048576"
  shows "case lapicstartap aid addr of (out, wrv, msgs) \<Rightarrow>
     wrv ! 1 * 16 + wrv ! 0 = addr \<and> (snd (last msgs) AND 255) * 4096 = addr \<and> fst (last msgs) = 192"
proof -
  have q: "addr div 4096 < 256" "addr div 4096 * 4096 = addr" "addr div 16 * 16 = addr" "addr div 16 < 65536" using assms by auto
  have "(1536 OR drop_bit 12 addr) AND 255 = take_bit 8 (1536 OR drop_bit 12 addr)" by (simp add: and_255 take_bit_eq_mod)
  also have "\<dots> = drop_bit 12 addr AND 255" unfolding take_bit_or by simp (simp add: and_255 take_bit_eq_mod)
  also have "\<dots> = addr div 4096" using q(1) by (simp add: and_255 drop_bit_eq_div)
  finally have v: "(1536 OR drop_bit 12 addr) AND 255 = addr div 4096" .
  have "replicate 2 x = [x, x]" for x :: "(nat \<times> nat) list" by (simp add: numeral_2_eq_2)
  then show ?thesis using q v by (simp add: lapicstartap_def drop_bit_eq_div [of 4])
qed

section \<open>The clock\<close>

text \<open>\<open>struct rtcdate\<close>: second, minute, hour, day, month and year.\<close>

type_synonym rtcdate = "nat list"

text \<open>
  \<open>cmos t r\<close> is what register \<open>r\<close> of the clock reads at time \<open>t\<close>; every reading takes one step of time.
\<close>

definition fill_rtcdate :: "(nat \<Rightarrow> nat \<Rightarrow> nat) \<Rightarrow> nat \<Rightarrow> rtcdate" where
  "fill_rtcdate cmos t = [cmos t 0, cmos (t + 1) 2, cmos (t + 2) 4, cmos (t + 3) 7, cmos (t + 4) 8, cmos (t + 5) 9]"

text \<open>The loop of \<open>cmostime\<close>; register 10 says whether an update is in progress.\<close>

partial_function (option) cmostime_loop :: "(nat \<Rightarrow> nat \<Rightarrow> nat) \<Rightarrow> nat \<Rightarrow> rtcdate option" where
  "cmostime_loop cmos t =
     (let t1 = fill_rtcdate cmos t
      in if cmos (t + 6) 10 AND 128 \<noteq> 0 then cmostime_loop cmos (t + 7)
         else if t1 = fill_rtcdate cmos (t + 7) then Some t1
         else cmostime_loop cmos (t + 13))"

definition CONV :: "nat \<Rightarrow> nat" where
  "CONV x = drop_bit 4 x * 10 + (x AND 15)"

definition cmostime :: "(nat \<Rightarrow> nat \<Rightarrow> nat) \<Rightarrow> nat \<Rightarrow> rtcdate option" where
  "cmostime cmos t =
     (let bcd = cmos t 11 AND 4 = 0
      in Option.bind (cmostime_loop cmos (t + 1)) (\<lambda>t1.
         let t1 = (if bcd then map CONV t1 else t1) in Some (t1[5 := t1 ! 5 + 2000])))"

text \<open>Binary coded decimals.\<close>

definition bcd :: "nat \<Rightarrow> nat" where
  "bcd n = 16 * (n div 10) + n mod 10"

lemma CONV_bcd: "CONV (bcd n) = n"
proof -
  have "n mod 10 < 16" by (rule less_trans [of _ 10]) simp_all
  then have "(16 * (n div 10) + n mod 10) div 16 = n div 10" "(16 * (n div 10) + n mod 10) mod 16 = n mod 10" by simp_all
  moreover have "bcd n AND 15 = bcd n mod 16" using take_bit_eq_mask [of 4 "bcd n"] by (simp add: take_bit_eq_mod mask_eq_exp_minus_1)
  ultimately show ?thesis by (simp add: CONV_def bcd_def drop_bit_eq_div)
qed

text \<open>
  What the loop returns was read twice, before and after the clock said that no update was in progress: the
  date is not torn.
\<close>

lemma cmostime_loop_reads_twice:
  assumes "cmostime_loop cmos t = Some d"
  shows "\<exists>u \<ge> t. d = fill_rtcdate cmos u \<and> d = fill_rtcdate cmos (u + 7) \<and> cmos (u + 6) 10 AND 128 = 0"
proof (rule cmostime_loop.raw_induct [where P = "\<lambda>cmos t d. \<exists>u \<ge> t. d = fill_rtcdate cmos u
    \<and> d = fill_rtcdate cmos (u + 7) \<and> cmos (u + 6) 10 AND 128 = 0", OF _ assms])
  fix f :: "(nat \<Rightarrow> nat \<Rightarrow> nat) \<Rightarrow> nat \<Rightarrow> rtcdate option" and cmos t d
  assume IH: "\<And>cmos t d. f cmos t = Some d \<Longrightarrow> \<exists>u \<ge> t. d = fill_rtcdate cmos u \<and> d = fill_rtcdate cmos (u + 7) \<and> cmos (u + 6) 10 AND 128 = 0"
    and eq: "(let t1 = fill_rtcdate cmos t
      in if cmos (t + 6) 10 AND 128 \<noteq> 0 then f cmos (t + 7)
         else if t1 = fill_rtcdate cmos (t + 7) then Some t1
         else f cmos (t + 13)) = Some d"
  consider "f cmos (t + 7) = Some d" | "f cmos (t + 13) = Some d"
    | "cmos (t + 6) 10 AND 128 = 0" "d = fill_rtcdate cmos t" "d = fill_rtcdate cmos (t + 7)"
    using eq by (auto simp: Let_def split: if_splits)
  then show "\<exists>u \<ge> t. d = fill_rtcdate cmos u \<and> d = fill_rtcdate cmos (u + 7) \<and> cmos (u + 6) 10 AND 128 = 0"
  proof cases
    case 1
    from IH [OF this] show ?thesis by (blast intro: le_trans [OF le_add1])
  next
    case 2
    from IH [OF this] show ?thesis by (blast intro: le_trans [OF le_add1])
  qed blast
qed

text \<open>A clock that stands still at a date of this century gives that date.\<close>

lemma cmostime_reads_clock:
  assumes "\<And>t. cmos t 11 = 2" "\<And>t. cmos t 10 AND 128 = 0"
    and "\<And>t. map (cmos t) [0, 2, 4, 7, 8, 9] = map bcd [s, mi, h, d, mo, y]"
  shows "cmostime cmos t = Some [s, mi, h, d, mo, 2000 + y]"
proof -
  have f: "fill_rtcdate cmos u = map bcd [s, mi, h, d, mo, y]" for u
    using assms(3) by (simp add: fill_rtcdate_def)
  have "cmostime_loop cmos (t + 1) = Some (map bcd [s, mi, h, d, mo, y])"
    by (subst cmostime_loop.simps) (simp only: Let_def f assms(2) not_True_eq_False if_False if_True simp_thms)
  then show ?thesis by (simp add: cmostime_def assms(1) CONV_bcd Let_def)
qed

section \<open>Segments\<close>

text \<open>\<open>seginit\<close> of \<open>vm.c\<close>: \<open>struct segdesc\<close> without its two unused bits, and the four segments of a processor.\<close>

record segdesc =
  lim_15_0 :: nat
  base_15_0 :: nat
  base_23_16 :: nat
  sd_type :: nat
  sd_s :: nat
  sd_dpl :: nat
  sd_p :: nat
  lim_19_16 :: nat
  sd_db :: nat
  sd_g :: nat
  base_31_24 :: nat

definition SEG :: "nat \<Rightarrow> nat \<Rightarrow> nat \<Rightarrow> nat \<Rightarrow> segdesc" where
  "SEG ty base lim dpl = \<lparr>lim_15_0 = drop_bit 12 lim AND 65535, base_15_0 = base AND 65535,
     base_23_16 = drop_bit 16 base AND 255, sd_type = ty, sd_s = 1, sd_dpl = dpl, sd_p = 1,
     lim_19_16 = drop_bit 28 lim, sd_db = 1, sd_g = 1, base_31_24 = drop_bit 24 base\<rparr>"

definition seginit :: "(nat \<Rightarrow> segdesc) \<Rightarrow> nat \<Rightarrow> segdesc" where
  "seginit gdt = gdt(1 := SEG (8 OR 2) 0 4294967295 0, 2 := SEG 2 0 4294967295 0,
     3 := SEG (8 OR 2) 0 4294967295 3, 4 := SEG 2 0 4294967295 3)"

text \<open>The addresses a descriptor describes: its first one, and the offset of its last one.\<close>

definition seg_base :: "segdesc \<Rightarrow> nat" where
  "seg_base d = base_15_0 d + 65536 * base_23_16 d + 16777216 * base_31_24 d"

definition seg_limit :: "segdesc \<Rightarrow> nat" where
  "seg_limit d = (let l = lim_15_0 d + 65536 * lim_19_16 d in if sd_g d = 1 then l * 4096 + 4095 else l)"

lemma SEG_range:
  assumes "base < u32_mod" "lim < u32_mod"
  shows "seg_base (SEG ty base lim dpl) = base" "seg_limit (SEG ty base lim dpl) = lim div 4096 * 4096 + 4095"
proof -
  have m16: "x AND 65535 = x mod 65536" for x :: nat
    using take_bit_eq_mask [of 16 x] by (simp add: take_bit_eq_mod mask_eq_exp_minus_1)
  show "seg_base (SEG ty base lim dpl) = base"
    using mod_digits4 [of base] mod_digits2 [of base] assms(1)
    by (simp add: seg_base_def SEG_def m16 and_255 drop_bit_eq_div)
  have "lim div 268435456 = lim div 4096 div 65536" by (simp add: div_mult2_eq [symmetric])
  then have "lim div 4096 mod 65536 + 65536 * (lim div 268435456) = lim div 4096" by simp
  then show "seg_limit (SEG ty base lim dpl) = lim div 4096 * 4096 + 4095"
    by (simp add: seg_limit_def SEG_def m16 drop_bit_eq_div)
qed

text \<open>All four segments are the whole address space; those of the user carry the privilege level 3.\<close>

lemma seginit_flat:
  assumes "i \<in> {1, 2, 3, 4}"
  shows "seg_base (seginit gdt i) = 0" "seg_limit (seginit gdt i) = u32_mod - 1" "sd_dpl (seginit gdt i) = (if i < 3 then 0 else 3)"
  using assms SEG_range [of 0 4294967295] by (auto simp: seginit_def) (auto simp: SEG_def)

end
