(* ===== verification/Sleepwake.thy ===== *)
theory Sleepwake
  imports Sleeplock
begin

text \<open>
  \<open>sleep\<close> and \<open>wakeup\<close> of \<open>proc.c\<close> as any number of processes see them: the interleaving of their atomic steps, with the spin
  locks they take, in their use by \<open>acquiresleep\<close> and \<open>releasesleep\<close> of \<open>sleeplock.c\<close> on any number of sleep locks. The
  other theories follow one process, up to the point where it sleeps; here is what happens between the processes.
\<close>

section \<open>State\<close>

text \<open>
  The points at which a process can be, with the address of the sleep lock, which is also the channel. \<open>A\<close>: in
  \<open>acquiresleep\<close>, from \<open>A_Pt\<close> to \<open>A_Pt2\<close> in the \<open>sleep\<close> it calls; \<open>A_Off\<close>: the scheduler runs others. \<open>R\<close>: in
  \<open>releasesleep\<close>, from \<open>R_Pt\<close> to \<open>R_PtRel\<close> in the \<open>wakeup\<close> it calls.
\<close>

datatype swpc = SW_Out
  | A_Acq chan | A_Test chan | A_Set chan | A_Rel chan
  | A_Pt chan | A_Drop chan | A_Chan chan | A_Mark chan | A_Sched chan | A_Off chan | A_Tidy chan | A_Pt2 chan
  | R_Acq chan | R_Clear chan | R_Pt chan | R_Wake chan | R_PtRel chan | R_Rel chan

text \<open>
  \<open>sw_lk\<close>: which process holds the spin lock \<open>lk->lk\<close> of a sleep lock; \<open>sw_pt\<close>: which one holds \<open>ptable.lock\<close>;
  \<open>sw_sl\<close>: the sleep locks; \<open>sw_proc\<close>: the entries of the process table. \<open>sw_has\<close>, which the code does not have, records the
  processes whose \<open>acquiresleep\<close> has taken a lock that they have not given back.
\<close>

record swk =
  sw_lk :: "chan \<Rightarrow> nat option"
  sw_pt :: "nat option"
  sw_sl :: "chan \<Rightarrow> sleeplock"
  sw_proc :: "nat \<Rightarrow> proc"
  sw_pc :: "nat \<Rightarrow> swpc"
  sw_has :: "chan \<Rightarrow> nat set"

definition sw_boot :: swk where
  "sw_boot = \<lparr>sw_lk = (\<lambda>_. None), sw_pt = None, sw_sl = (\<lambda>_. initsleeplock ''buffer''),
     sw_proc = (\<lambda>t. zero_proc\<lparr>p_state := RUNNING, p_pid := int t\<rparr>), sw_pc = (\<lambda>_. SW_Out), sw_has = (\<lambda>_. {})\<rparr>"

definition sw_go :: "nat \<Rightarrow> swpc \<Rightarrow> swk \<Rightarrow> swk" where
  "sw_go t p s = s\<lparr>sw_pc := (sw_pc s)(t := p)\<rparr>"

definition lk_set :: "chan \<Rightarrow> nat option \<Rightarrow> swk \<Rightarrow> swk" where
  "lk_set c x s = s\<lparr>sw_lk := (sw_lk s)(c := x)\<rparr>"

definition sl_set :: "chan \<Rightarrow> (sleeplock \<Rightarrow> sleeplock) \<Rightarrow> swk \<Rightarrow> swk" where
  "sl_set c f s = s\<lparr>sw_sl := (sw_sl s)(c := f (sw_sl s c))\<rparr>"

definition pr_set :: "nat \<Rightarrow> (proc \<Rightarrow> proc) \<Rightarrow> swk \<Rightarrow> swk" where
  "pr_set t f s = s\<lparr>sw_proc := (sw_proc s)(t := f (sw_proc s t))\<rparr>"

lemmas sw_upd_defs = sw_go_def lk_set_def sl_set_def pr_set_def

section \<open>The program\<close>

text \<open>
  The steps of \<open>sleep(c, &lk->lk)\<close> by process \<open>t\<close>. An \<open>acquire\<close> retries until its exchange finds the lock free: only the last
  attempt is a step. \<open>sched\<close> hands \<open>ptable.lock\<close> to the scheduler, which releases it; when it runs a process again, it has
  taken the lock, and the process goes on with it. The call ends at \<open>A_Acq\<close>, with \<open>acquire(lk)\<close>.
\<close>

inductive sw_sleep :: "nat \<Rightarrow> swk \<Rightarrow> swk \<Rightarrow> bool" for t s where
  sl_pt: "sw_pc s t = A_Pt c \<Longrightarrow> sw_pt s = None \<Longrightarrow> sw_sleep t s (sw_go t (A_Drop c) (s\<lparr>sw_pt := Some t\<rparr>))"
| sl_drop: "sw_pc s t = A_Drop c \<Longrightarrow> sw_sleep t s (sw_go t (A_Chan c) (lk_set c None s))"
| sl_chan: "sw_pc s t = A_Chan c \<Longrightarrow> sw_sleep t s (sw_go t (A_Mark c) (pr_set t (\<lambda>p. p\<lparr>p_chan := c\<rparr>) s))"
| sl_mark: "sw_pc s t = A_Mark c \<Longrightarrow> sw_sleep t s (sw_go t (A_Sched c) (pr_set t (\<lambda>p. p\<lparr>p_state := SLEEPING\<rparr>) s))"
| sl_sched: "sw_pc s t = A_Sched c \<Longrightarrow> sw_sleep t s (sw_go t (A_Off c) (s\<lparr>sw_pt := None\<rparr>))"
| sl_tidy: "sw_pc s t = A_Tidy c \<Longrightarrow> sw_sleep t s (sw_go t (A_Pt2 c) (pr_set t (\<lambda>p. p\<lparr>p_chan := ChInt 0\<rparr>) s))"
| sl_pt2: "sw_pc s t = A_Pt2 c \<Longrightarrow> sw_sleep t s (sw_go t (A_Acq c) (s\<lparr>sw_pt := None\<rparr>))"

text \<open>The scheduler, which has \<open>ptable.lock\<close>, runs a process that is runnable.\<close>

inductive sw_run :: "nat \<Rightarrow> swk \<Rightarrow> swk \<Rightarrow> bool" for t s where
  run: "sw_pc s t = A_Off c \<Longrightarrow> sw_pt s = None \<Longrightarrow> p_state (sw_proc s t) = RUNNABLE \<Longrightarrow>
     sw_run t s (sw_go t (A_Tidy c) (pr_set t (\<lambda>p. p\<lparr>p_state := RUNNING\<rparr>) (s\<lparr>sw_pt := Some t\<rparr>)))"

text \<open>The steps of \<open>wakeup(c)\<close>; the scan of the table by \<open>wakeup1\<close>, under \<open>ptable.lock\<close>, is one step.\<close>

inductive sw_wakeup :: "nat \<Rightarrow> swk \<Rightarrow> swk \<Rightarrow> bool" for t s where
  wk_pt: "sw_pc s t = R_Pt c \<Longrightarrow> sw_pt s = None \<Longrightarrow> sw_wakeup t s (sw_go t (R_Wake c) (s\<lparr>sw_pt := Some t\<rparr>))"
| wk_scan: "sw_pc s t = R_Wake c \<Longrightarrow> sw_wakeup t s (sw_go t (R_PtRel c) (s\<lparr>sw_proc := wake_proc c \<circ> sw_proc s\<rparr>))"
| wk_rel: "sw_pc s t = R_PtRel c \<Longrightarrow> sw_wakeup t s (sw_go t (R_Rel c) (s\<lparr>sw_pt := None\<rparr>))"

text \<open>The steps of \<open>acquiresleep\<close>.\<close>

inductive sw_acquiresleep :: "nat \<Rightarrow> swk \<Rightarrow> swk \<Rightarrow> bool" for t s where
  as_acq: "sw_pc s t = A_Acq c \<Longrightarrow> sw_lk s c = None \<Longrightarrow> sw_acquiresleep t s (sw_go t (A_Test c) (lk_set c (Some t) s))"
| as_wait: "sw_pc s t = A_Test c \<Longrightarrow> sl_locked (sw_sl s c) \<Longrightarrow> sw_acquiresleep t s (sw_go t (A_Pt c) s)"
| as_sleep: "sw_sleep t s s' \<Longrightarrow> sw_acquiresleep t s s'"
| as_go: "sw_pc s t = A_Test c \<Longrightarrow> \<not> sl_locked (sw_sl s c) \<Longrightarrow> sw_acquiresleep t s (sw_go t (A_Set c) s)"
| as_set: "sw_pc s t = A_Set c \<Longrightarrow>
     sw_acquiresleep t s (sw_go t (A_Rel c) (sl_set c (\<lambda>l. l\<lparr>sl_locked := True, sl_pid := p_pid (sw_proc s t)\<rparr>)
       (s\<lparr>sw_has := (sw_has s)(c := insert t (sw_has s c))\<rparr>)))"
| as_rel: "sw_pc s t = A_Rel c \<Longrightarrow> sw_acquiresleep t s (sw_go t SW_Out (lk_set c None s))"

text \<open>The steps of \<open>releasesleep\<close>.\<close>

inductive sw_releasesleep :: "nat \<Rightarrow> swk \<Rightarrow> swk \<Rightarrow> bool" for t s where
  rs_acq: "sw_pc s t = R_Acq c \<Longrightarrow> sw_lk s c = None \<Longrightarrow> sw_releasesleep t s (sw_go t (R_Clear c) (lk_set c (Some t) s))"
| rs_clear: "sw_pc s t = R_Clear c \<Longrightarrow>
     sw_releasesleep t s (sw_go t (R_Pt c) (sl_set c (\<lambda>l. l\<lparr>sl_locked := False, sl_pid := 0\<rparr>)
       (s\<lparr>sw_has := (sw_has s)(c := sw_has s c - {t})\<rparr>)))"
| rs_wakeup: "sw_wakeup t s s' \<Longrightarrow> sw_releasesleep t s s'"
| rs_rel: "sw_pc s t = R_Rel c \<Longrightarrow> sw_releasesleep t s (sw_go t SW_Out (lk_set c None s))"

text \<open>
  \<open>kill\<close> of a process, by another one: under \<open>ptable.lock\<close> it is marked, and runnable when it slept; \<open>sleep\<close> returns and
  the loop of \<open>acquiresleep\<close> goes on.
\<close>

definition sw_kill :: "nat \<Rightarrow> swk \<Rightarrow> swk \<Rightarrow> bool" where
  "sw_kill t s s' \<longleftrightarrow> sw_pt s = None \<and> s' = pr_set t (\<lambda>p. p\<lparr>p_killed := True,
     p_state := if p_state p = SLEEPING then RUNNABLE else p_state p\<rparr>) s"

text \<open>
  The states that \<open>n\<close> processes reach. Outside of the calls a process may take any lock, also a second one or one it
  has, and may give back one that it has.
\<close>

definition sw_call :: "nat \<Rightarrow> swk \<Rightarrow> swk \<Rightarrow> bool" where
  "sw_call t s s' \<longleftrightarrow> sw_acquiresleep t s s' \<or> sw_releasesleep t s s' \<or> sw_run t s s'"

inductive sw_reach :: "nat \<Rightarrow> swk \<Rightarrow> bool" for n where
  sw_start: "sw_reach n sw_boot"
| sw_next: "sw_reach n s \<Longrightarrow> t < n \<Longrightarrow> sw_call t s s' \<or> sw_kill t s s' \<Longrightarrow> sw_reach n s'"
| sw_acquires: "sw_reach n s \<Longrightarrow> t < n \<Longrightarrow> sw_pc s t = SW_Out \<Longrightarrow> sw_reach n (sw_go t (A_Acq c) s)"
| sw_releases: "sw_reach n s \<Longrightarrow> t < n \<Longrightarrow> sw_pc s t = SW_Out \<Longrightarrow> t \<in> sw_has s c \<Longrightarrow> sw_reach n (sw_go t (R_Acq c) s)"

inductive_simps sw_sleep_iff: "sw_sleep t s s'"
inductive_simps sw_run_iff: "sw_run t s s'"
inductive_simps sw_wakeup_iff: "sw_wakeup t s s'"
inductive_simps sw_acquiresleep_iff: "sw_acquiresleep t s s'"
inductive_simps sw_releasesleep_iff: "sw_releasesleep t s s'"

section \<open>The invariant\<close>

text \<open>The spin locks a process holds at a point, and what its entry in the process table says there.\<close>

fun holds_lk :: "swpc \<Rightarrow> chan option" where
  "holds_lk (A_Test c) = Some c"
| "holds_lk (A_Set c) = Some c"
| "holds_lk (A_Rel c) = Some c"
| "holds_lk (A_Pt c) = Some c"
| "holds_lk (A_Drop c) = Some c"
| "holds_lk (R_Clear c) = Some c"
| "holds_lk (R_Pt c) = Some c"
| "holds_lk (R_Wake c) = Some c"
| "holds_lk (R_PtRel c) = Some c"
| "holds_lk (R_Rel c) = Some c"
| "holds_lk _ = None"

fun has_pt :: "swpc \<Rightarrow> bool" where
  "has_pt (A_Drop c) = True"
| "has_pt (A_Chan c) = True"
| "has_pt (A_Mark c) = True"
| "has_pt (A_Sched c) = True"
| "has_pt (A_Tidy c) = True"
| "has_pt (A_Pt2 c) = True"
| "has_pt (R_Wake c) = True"
| "has_pt (R_PtRel c) = True"
| "has_pt _ = False"

fun entry_at :: "swpc \<Rightarrow> procstate \<Rightarrow> chan \<Rightarrow> bool" where
  "entry_at (A_Mark c) st ch \<longleftrightarrow> st = RUNNING \<and> ch = c"
| "entry_at (A_Sched c) st ch \<longleftrightarrow> st = SLEEPING \<and> ch = c"
| "entry_at (A_Off c) st ch \<longleftrightarrow> (st = SLEEPING \<or> st = RUNNABLE) \<and> ch = c"
| "entry_at _ st ch \<longleftrightarrow> st = RUNNING"

text \<open>What a process at a point has found the sleep lock \<open>c\<close> to be; \<open>h\<close>: it has taken it.\<close>

fun found_at :: "swpc \<Rightarrow> chan \<Rightarrow> bool \<Rightarrow> bool \<Rightarrow> bool" where
  "found_at (A_Set d) c l h \<longleftrightarrow> (d = c \<longrightarrow> \<not> l)"
| "found_at (A_Pt d) c l h \<longleftrightarrow> (d = c \<longrightarrow> l)"
| "found_at (A_Drop d) c l h \<longleftrightarrow> (d = c \<longrightarrow> l)"
| "found_at (R_Acq d) c l h \<longleftrightarrow> (d = c \<longrightarrow> h)"
| "found_at (R_Clear d) c l h \<longleftrightarrow> (d = c \<longrightarrow> h)"
| "found_at _ c l h \<longleftrightarrow> True"

text \<open>A process that has given up \<open>lk->lk\<close> and sleeps, or is about to, and one that is about to wake the sleepers.\<close>

definition going_off :: "swk \<Rightarrow> nat \<Rightarrow> chan \<Rightarrow> bool" where
  "going_off s t c \<longleftrightarrow> sw_pc s t \<in> {A_Chan c, A_Mark c, A_Sched c} \<or> sw_pc s t = A_Off c \<and> p_state (sw_proc s t) = SLEEPING"

definition about_to_wake :: "swk \<Rightarrow> nat \<Rightarrow> chan \<Rightarrow> bool" where
  "about_to_wake s t c \<longleftrightarrow> sw_pc s t \<in> {R_Pt c, R_Wake c}"

definition sw_spins :: "swk \<Rightarrow> bool" where
  "sw_spins s \<longleftrightarrow> (\<forall>t c. holds_lk (sw_pc s t) = Some c \<longleftrightarrow> sw_lk s c = Some t) \<and> (\<forall>t. has_pt (sw_pc s t) \<longleftrightarrow> sw_pt s = Some t)"

definition sw_entries :: "swk \<Rightarrow> bool" where
  "sw_entries s \<longleftrightarrow> (\<forall>t. entry_at (sw_pc s t) (p_state (sw_proc s t)) (p_chan (sw_proc s t)))"

definition sw_holders :: "swk \<Rightarrow> bool" where
  "sw_holders s \<longleftrightarrow> (\<forall>c. (\<forall>t u. t \<in> sw_has s c \<longrightarrow> u \<in> sw_has s c \<longrightarrow> t = u) \<and> (sl_locked (sw_sl s c) \<longleftrightarrow> sw_has s c \<noteq> {}))"

definition sw_found :: "swk \<Rightarrow> bool" where
  "sw_found s \<longleftrightarrow> (\<forall>t c. found_at (sw_pc s t) c (sl_locked (sw_sl s c)) (t \<in> sw_has s c))"

definition sw_woken :: "swk \<Rightarrow> bool" where
  "sw_woken s \<longleftrightarrow> (\<forall>t c. going_off s t c \<longrightarrow> \<not> sl_locked (sw_sl s c) \<longrightarrow> (\<exists>u. about_to_wake s u c))"


lemma wake_proc_sel [simp]:
  "p_chan (wake_proc c p) = p_chan p" "p_pid (wake_proc c p) = p_pid p"
  "p_state (wake_proc c p) = (if p_state p = SLEEPING \<and> p_chan p = c then RUNNABLE else p_state p)"
  by (simp_all add: wake_proc_def)

lemmas sw_call_iff = sw_call_def sw_sleep_iff sw_run_iff sw_wakeup_iff sw_acquiresleep_iff sw_releasesleep_iff

text \<open>Whoever is at a point that holds a lock is the one who holds it.\<close>

lemma spinD:
  assumes "sw_spins s"
  shows "holds_lk (sw_pc s t) = Some c \<longleftrightarrow> sw_lk s c = Some t" "has_pt (sw_pc s t) \<longleftrightarrow> sw_pt s = Some t"
  using assms by (simp_all add: sw_spins_def)

lemma spins_step:
  assumes "sw_spins s" "sw_call t s s'"
  shows "sw_spins s'"
proof -
  note I = spinD [OF assms(1)]
  have "holds_lk (sw_pc s t) = Some c \<Longrightarrow> sw_lk s c = Some u \<Longrightarrow> u = t" for c u by (simp add: I)
  then show ?thesis
    using assms(2) I(1) [of t, symmetric] I(2) [of t, symmetric] unfolding sw_call_iff
    by (elim disjE exE conjE) (auto simp: sw_spins_def sw_upd_defs I)
qed

lemma entries_step:
  assumes "sw_spins s" "sw_entries s" "sw_call t s s'"
  shows "sw_entries s'"
proof -
  have I: "entry_at (sw_pc s u) (p_state (sw_proc s u)) (p_chan (sw_proc s u))" for u using assms(2) by (simp add: sw_entries_def)
  have w: "entry_at (sw_pc s u) RUNNABLE (p_chan (sw_proc s u))" if "sw_pt s = Some t" "u \<noteq> t" "p_state (sw_proc s u) = SLEEPING" for u
  proof -
    have "\<not> has_pt (sw_pc s u)" using spinD(2) [OF assms(1), of u] that by simp
    then show ?thesis using I [of u] that(3) by (cases "sw_pc s u") auto
  qed
  show ?thesis
    using assms(3) I [of t] spinD(2) [OF assms(1), of t] w unfolding sw_call_iff
    by (elim disjE exE conjE) (auto simp: sw_entries_def sw_upd_defs I)
qed

lemma holders_step:
  assumes "sw_found s" "sw_holders s" "sw_call t s s'"
  shows "sw_holders s'"
proof -
  have F: "found_at (sw_pc s t) c (sl_locked (sw_sl s c)) (t \<in> sw_has s c)" for c using assms(1) by (simp add: sw_found_def)
  have H: "t \<in> sw_has s c \<Longrightarrow> u \<in> sw_has s c \<Longrightarrow> t = u" "sl_locked (sw_sl s c) \<longleftrightarrow> sw_has s c \<noteq> {}" for t u c
    using assms(2) by (auto simp: sw_holders_def)
  show ?thesis
    using assms(3) unfolding sw_call_iff
    by (elim disjE exE conjE) (use F in \<open>auto simp: sw_holders_def sw_upd_defs H dest: H(1)\<close>)
qed

text \<open>Who has found the lock to be something holds \<open>lk->lk\<close>, or has the lock, and nobody else changes it then.\<close>

lemma found_step:
  assumes "sw_spins s" "sw_holders s" "sw_found s" "sw_call t s s'"
  shows "sw_found s'"
proof -
  have F: "found_at (sw_pc s u) c (sl_locked (sw_sl s c)) (u \<in> sw_has s c)" for u c using assms(3) by (simp add: sw_found_def)
  have o: "found_at (sw_pc s u) c l (u \<in> sw_has s c)" if "sw_lk s c = Some t" "u \<noteq> t" for u c l
  proof -
    have "holds_lk (sw_pc s u) \<noteq> Some c" using that spinD(1) [OF assms(1), of u c] by simp
    then show ?thesis using F [of u c] by (cases "sw_pc s u") auto
  qed
  have lk: "holds_lk (sw_pc s t) = Some c \<Longrightarrow> sw_lk s c = Some t" for c by (simp add: spinD(1) [OF assms(1)])
  show ?thesis
    using assms(4) F [of t] lk o unfolding sw_call_iff
    by (elim disjE exE conjE) (auto simp: sw_found_def sw_upd_defs F)
qed

text \<open>A process about to wake the sleepers stays so until it scans the table, and then nobody sleeps on the lock.\<close>

lemma about_to_wake_step:
  assumes "sw_call t s s'" "about_to_wake s u c"
  shows "about_to_wake s' u c
     \<or> u = t \<and> sw_pc s t = R_Wake c \<and> s' = sw_go t (R_PtRel c) (s\<lparr>sw_proc := wake_proc c \<circ> sw_proc s\<rparr>)"
  using assms unfolding sw_call_iff
  by (elim disjE exE conjE) (auto simp: about_to_wake_def sw_upd_defs)

lemma scan_wakes_all:
  assumes "sw_spins s" "sw_entries s" "sw_pc s t = R_Wake c" "s' = sw_go t (R_PtRel c) (s\<lparr>sw_proc := wake_proc c \<circ> sw_proc s\<rparr>)"
  shows "\<not> going_off s' u c"
proof
  assume g: "going_off s' u c"
  then have u: "u \<noteq> t" by (auto simp: going_off_def assms(4) sw_upd_defs)
  have "sw_pt s = Some t" using spinD(2) [OF assms(1), of t] assms(3) by simp
  then have "\<not> has_pt (sw_pc s u)" using spinD(2) [OF assms(1), of u] u by simp
  then have "sw_pc s u = A_Off c" "p_state (wake_proc c (sw_proc s u)) = SLEEPING"
    using g u by (auto simp: going_off_def assms(4) sw_upd_defs)
  moreover have "entry_at (sw_pc s u) (p_state (sw_proc s u)) (p_chan (sw_proc s u))" using assms(2) by (simp add: sw_entries_def)
  ultimately show False by (auto split: if_splits)
qed

text \<open>A process goes off only when the lock is taken, and whoever frees the lock is about to wake it.\<close>

lemma going_off_step:
  assumes "sw_found s" "sw_call t s s'" "going_off s' u c" "\<not> sl_locked (sw_sl s' c)"
  shows "going_off s u c \<and> \<not> sl_locked (sw_sl s c) \<or> about_to_wake s' t c"
proof -
  have F: "found_at (sw_pc s t) c (sl_locked (sw_sl s c)) (t \<in> sw_has s c)" for c using assms(1) by (simp add: sw_found_def)
  show ?thesis
    using assms(2-4) F unfolding sw_call_iff
    by (elim disjE exE conjE) (auto simp: going_off_def about_to_wake_def sw_upd_defs split: if_splits)
qed

lemma woken_step:
  assumes "sw_spins s" "sw_entries s" "sw_found s" "sw_woken s" "sw_call t s s'"
  shows "sw_woken s'"
  unfolding sw_woken_def
proof (intro allI impI)
  fix v c assume g: "going_off s' v c" "\<not> sl_locked (sw_sl s' c)"
  from going_off_step [OF assms(3,5) g] show "\<exists>u. about_to_wake s' u c"
  proof (elim disjE conjE)
    assume "going_off s v c" "\<not> sl_locked (sw_sl s c)"
    then obtain u where "about_to_wake s u c" using assms(4) by (auto simp: sw_woken_def)
    from about_to_wake_step [OF assms(5) this] show ?thesis
      using scan_wakes_all [OF assms(1,2)] g(1) by blast
  qed blast
qed

lemma woken_mono:
  assumes "sw_woken s" "\<And>u c. going_off s' u c \<Longrightarrow> going_off s u c" "\<And>u c. about_to_wake s u c \<Longrightarrow> about_to_wake s' u c"
    and "sw_sl s' = sw_sl s"
  shows "sw_woken s'"
  unfolding sw_woken_def
proof (intro allI impI)
  fix u c assume "going_off s' u c" "\<not> sl_locked (sw_sl s' c)"
  then obtain v where "about_to_wake s v c" using assms(1,2,4) unfolding sw_woken_def by fastforce
  then show "\<exists>v. about_to_wake s' v c" using assms(3) by blast
qed

definition sw_ok :: "nat \<Rightarrow> swk \<Rightarrow> bool" where
  "sw_ok n s \<longleftrightarrow> sw_spins s \<and> sw_entries s \<and> sw_holders s \<and> sw_found s \<and> sw_woken s \<and> (\<forall>t. sw_pc s t \<noteq> SW_Out \<longrightarrow> t < n)"

lemma call_pcs: "sw_call t s s' \<Longrightarrow> u \<noteq> t \<Longrightarrow> sw_pc s' u = sw_pc s u"
  unfolding sw_call_iff by (auto simp: sw_upd_defs)

text \<open>Killing wakes a sleeper, and changes nothing else that matters here.\<close>

lemma kill_ok:
  assumes "sw_ok n s" "sw_kill t s s'"
  shows "sw_ok n s'"
proof -
  have pt: "sw_pt s = None" and s': "s' = pr_set t (\<lambda>p. p\<lparr>p_killed := True, p_state := if p_state p = SLEEPING then RUNNABLE else p_state p\<rparr>) s"
    using assms(2) by (auto simp: sw_kill_def)
  have ok: "sw_spins s" "sw_entries s" "sw_holders s" "sw_found s" "sw_woken s" "\<forall>t. sw_pc s t \<noteq> SW_Out \<longrightarrow> t < n"
    using assms(1) by (simp_all add: sw_ok_def)
  have "\<not> has_pt (sw_pc s t)" using spinD(2) [OF ok(1), of t] pt by simp
  moreover have I: "entry_at (sw_pc s u) (p_state (sw_proc s u)) (p_chan (sw_proc s u))" for u using ok(2) by (simp add: sw_entries_def)
  ultimately have "entry_at (sw_pc s t) (if p_state (sw_proc s t) = SLEEPING then RUNNABLE else p_state (sw_proc s t)) (p_chan (sw_proc s t))"
    using I [of t] by (cases "sw_pc s t") auto
  then have "sw_entries s'" using I by (auto simp: sw_entries_def s' pr_set_def)
  moreover have "going_off s u c" if "going_off s' u c" for u c
    using that by (auto simp: going_off_def s' pr_set_def split: if_splits)
  then have "sw_woken s'" by (rule woken_mono [OF ok(5)]) (simp_all add: about_to_wake_def s' pr_set_def)
  moreover have "sw_spins s'" "sw_holders s'" "sw_found s'" "\<forall>t. sw_pc s' t \<noteq> SW_Out \<longrightarrow> t < n"
    using ok by (simp_all add: sw_spins_def sw_holders_def sw_found_def s' pr_set_def)
  ultimately show ?thesis by (simp add: sw_ok_def)
qed

text \<open>A process enters a call.\<close>

lemma enter_ok:
  assumes "sw_ok n s" "t < n" "sw_pc s t = SW_Out" "p = A_Acq c \<or> p = R_Acq c \<and> t \<in> sw_has s c"
  shows "sw_ok n (sw_go t p s)"
proof -
  have ok: "sw_spins s" "sw_entries s" "sw_holders s" "sw_found s" "sw_woken s" "\<forall>t. sw_pc s t \<noteq> SW_Out \<longrightarrow> t < n"
    using assms(1) by (simp_all add: sw_ok_def)
  have "sw_spins (sw_go t p s)"
    using ok(1) assms(3,4) spinD [OF ok(1), of t] by (auto simp: sw_spins_def sw_go_def)
  moreover have "sw_entries (sw_go t p s)" using ok(2) assms(3,4) by (auto simp: sw_entries_def sw_go_def dest: spec [of _ t])
  moreover have "sw_holders (sw_go t p s)" using ok(3) by (simp add: sw_holders_def sw_go_def)
  moreover have "sw_found (sw_go t p s)" using ok(4) assms(4) by (auto simp: sw_found_def sw_go_def)
  moreover have "sw_woken (sw_go t p s)"
  proof -
    have "going_off (sw_go t p s) u c \<Longrightarrow> going_off s u c" "about_to_wake s u c \<Longrightarrow> about_to_wake (sw_go t p s) u c" for u c
      using assms(3,4) by (auto simp: going_off_def about_to_wake_def sw_go_def split: if_splits)
    then show ?thesis by (rule woken_mono [OF ok(5)]) (simp_all add: sw_go_def)
  qed
  moreover have "\<forall>u. sw_pc (sw_go t p s) u \<noteq> SW_Out \<longrightarrow> u < n" using ok(6) assms(2) by (simp add: sw_go_def)
  ultimately show ?thesis by (simp add: sw_ok_def)
qed

lemma sw_reach_ok: "sw_reach n s \<Longrightarrow> sw_ok n s"
proof (induction rule: sw_reach.induct)
  case sw_start
  show ?case
    by (auto simp: sw_ok_def sw_boot_def sw_spins_def sw_entries_def sw_holders_def sw_found_def sw_woken_def going_off_def initsleeplock_def)
next
  case (sw_next s t s')
  show ?case
  proof (cases "sw_call t s s'")
    case True
    have ok: "sw_spins s" "sw_entries s" "sw_holders s" "sw_found s" "sw_woken s" "\<forall>t. sw_pc s t \<noteq> SW_Out \<longrightarrow> t < n"
      using sw_next.IH by (simp_all add: sw_ok_def)
    have "\<forall>u. sw_pc s' u \<noteq> SW_Out \<longrightarrow> u < n" using call_pcs [OF True] ok(6) sw_next(2) by metis
    then show ?thesis
      using spins_step [OF ok(1) True] entries_step [OF ok(1,2) True] holders_step [OF ok(4,3) True]
        found_step [OF ok(1,3,4) True] woken_step [OF ok(1,2,4,5) True] by (simp add: sw_ok_def)
  next
    case False
    then show ?thesis using kill_ok [OF sw_next.IH] sw_next(3) by blast
  qed
qed (auto intro: enter_ok)


section \<open>No wakeup is lost\<close>

text \<open>A process that holds a spin lock takes its next step, unless it waits for \<open>ptable.lock\<close>.\<close>

lemma pt_holder_steps: "has_pt (sw_pc s u) \<Longrightarrow> \<exists>s'. sw_call u s s'"
  unfolding sw_call_iff by (cases "sw_pc s u") auto

lemma lk_holder_steps: "holds_lk (sw_pc s u) = Some c \<Longrightarrow> sw_pt s = None \<Longrightarrow> \<exists>s'. sw_call u s s'"
  unfolding sw_call_iff by (cases "sw_pc s u") auto

text \<open>A process in a call that need not wait for the holder of a sleep lock.\<close>

definition sw_waiting :: "swk \<Rightarrow> nat \<Rightarrow> bool" where
  "sw_waiting s t \<longleftrightarrow> (\<exists>c. sw_pc s t = A_Off c \<and> p_state (sw_proc s t) = SLEEPING \<and> sl_locked (sw_sl s c))"

lemma sw_progress:
  assumes ok: "sw_ok n s" and t: "sw_pc s t \<noteq> SW_Out" "\<not> sw_waiting s t"
  shows "\<exists>u < n. sw_pc s u \<noteq> SW_Out \<and> (\<exists>s'. sw_call u s s')"
proof -
  have I: "sw_spins s" "sw_entries s" "sw_woken s" and out: "\<And>u. sw_pc s u \<noteq> SW_Out \<Longrightarrow> u < n" using ok by (simp_all add: sw_ok_def)
  have go: ?thesis if "sw_pc s u \<noteq> SW_Out" "\<exists>s'. sw_call u s s'" for u using that out by blast
  show ?thesis
  proof (cases "sw_pt s")
    case (Some u)
    then have u: "has_pt (sw_pc s u)" using spinD(2) [OF I(1)] by simp
    moreover have "sw_pc s u \<noteq> SW_Out" using u by auto
    ultimately show ?thesis by (intro go [OF _ pt_holder_steps])
  next
    case None
    have lk: ?thesis if "sw_lk s c = Some u" for c u
    proof -
      have u: "holds_lk (sw_pc s u) = Some c" using spinD(1) [OF I(1)] that by simp
      moreover have "sw_pc s u \<noteq> SW_Out" using u by auto
      ultimately show ?thesis using go [OF _ lk_holder_steps [OF _ None]] by blast
    qed
    have acq: ?thesis if "sw_pc s t = A_Acq c \<or> sw_pc s t = R_Acq c" for c
    proof (cases "sw_lk s c")
      case None
      then show ?thesis using that by (intro go [of t]) (auto simp: sw_call_iff)
    qed (rule lk)
    have off: ?thesis if p: "sw_pc s t = A_Off c" for c
    proof (cases "p_state (sw_proc s t) = SLEEPING")
      case True
      then have "\<not> sl_locked (sw_sl s c)" using t(2) p by (simp add: sw_waiting_def)
      then obtain u where "about_to_wake s u c" using I(3) p True by (auto simp: sw_woken_def going_off_def)
      then have "sw_pc s u = R_Pt c \<or> sw_pc s u = R_Wake c" by (simp add: about_to_wake_def)
      then show ?thesis using None pt_holder_steps [of s u] by (intro go [of u]) (auto simp: sw_call_iff)
    next
      case False
      then have "p_state (sw_proc s t) = RUNNABLE" using I(2) p by (auto simp: sw_entries_def dest: spec [of _ t])
      then show ?thesis using p None by (intro go [of t]) (auto simp: sw_call_iff)
    qed
    show ?thesis
      using acq off t(1) go [OF t(1) pt_holder_steps] go [OF t(1) lk_holder_steps [OF _ None]]
      by (cases "sw_pc s t") simp_all
  qed
qed

text \<open>
  C7: No wakeup is lost between \<open>sleep\<close> and \<open>wakeup\<close>, in any interleaving of any number of processes that take and give back
  sleep locks and are killed at any time. A process that has given up the lock of its condition to go to sleep holds
  \<open>ptable.lock\<close> until it is marked asleep; when a process is on its way to sleep, or asleep, on a lock that is free, another has
  freed the lock and is about to scan the table; no two processes have the same lock; and as long as some process in a
  call is not asleep on a lock that is taken, some process in a call can take its next step.
\<close>

theorem sleep_misses_no_wakeup:
  assumes "sw_reach n s"
  shows "(\<forall>t c. sw_pc s t \<in> {A_Chan c, A_Mark c, A_Sched c} \<longrightarrow> sw_lk s c \<noteq> Some t \<and> sw_pt s = Some t)
     \<and> (\<forall>t c. sw_pc s t \<in> {A_Chan c, A_Mark c, A_Sched c} \<or> p_state (sw_proc s t) = SLEEPING \<and> p_chan (sw_proc s t) = c \<longrightarrow>
          \<not> sl_locked (sw_sl s c) \<longrightarrow> (\<exists>u < n. sw_pc s u \<in> {R_Pt c, R_Wake c}))
     \<and> (\<forall>t u c. t \<in> sw_has s c \<longrightarrow> u \<in> sw_has s c \<longrightarrow> t = u)
     \<and> (\<forall>t. sw_pc s t \<noteq> SW_Out \<longrightarrow> \<not> (p_state (sw_proc s t) = SLEEPING \<and> sl_locked (sw_sl s (p_chan (sw_proc s t)))) \<longrightarrow>
          (\<exists>u < n. sw_pc s u \<noteq> SW_Out \<and> (\<exists>s'. sw_call u s s')))"
proof -
  have ok: "sw_ok n s" by (rule sw_reach_ok [OF assms])
  then have I: "sw_spins s" "sw_entries s" "sw_holders s" "sw_woken s" and out: "\<And>u. sw_pc s u \<noteq> SW_Out \<Longrightarrow> u < n"
    by (simp_all add: sw_ok_def)
  have e: "entry_at (sw_pc s t) (p_state (sw_proc s t)) (p_chan (sw_proc s t))" for t using I(2) by (simp add: sw_entries_def)
  have asleep: "going_off s t c"
    if "sw_pc s t \<in> {A_Chan c, A_Mark c, A_Sched c} \<or> p_state (sw_proc s t) = SLEEPING \<and> p_chan (sw_proc s t) = c" for t c
    using e [of t] that by (cases "sw_pc s t") (auto simp: going_off_def)
  have "sw_lk s c \<noteq> Some t \<and> sw_pt s = Some t" if "sw_pc s t \<in> {A_Chan c, A_Mark c, A_Sched c}" for t c
    using spinD [OF I(1), of t] that by auto
  moreover have "\<exists>u < n. sw_pc s u \<in> {R_Pt c, R_Wake c}" if g: "going_off s t c" "\<not> sl_locked (sw_sl s c)" for t c
  proof -
    obtain u where u: "sw_pc s u \<in> {R_Pt c, R_Wake c}" using I(4) g unfolding sw_woken_def about_to_wake_def by blast
    then have "sw_pc s u \<noteq> SW_Out" by auto
    then show ?thesis using u out by blast
  qed
  moreover have "\<exists>u < n. sw_pc s u \<noteq> SW_Out \<and> (\<exists>s'. sw_call u s s')"
    if "sw_pc s t \<noteq> SW_Out" "\<not> (p_state (sw_proc s t) = SLEEPING \<and> sl_locked (sw_sl s (p_chan (sw_proc s t))))" for t
  proof (rule sw_progress [OF ok that(1)])
    show "\<not> sw_waiting s t" using that(2) e [of t] by (auto simp: sw_waiting_def)
  qed
  moreover have "t = u" if "t \<in> sw_has s c" "u \<in> sw_has s c" for t u c using I(3) that by (simp add: sw_holders_def)
  ultimately show ?thesis using asleep by blast
qed


text \<open>
  Two processes and one sleep lock: process 1 takes it, process 0 goes to sleep on it, and process 1 has freed it and
  is about to wake the sleepers.
\<close>

definition sw_pair :: swk where
  "sw_pair = sw_boot\<lparr>sw_lk := (\<lambda>_. None)(ChBufLock 0 := Some 1),
     sw_sl := (sw_sl sw_boot)(ChBufLock 0 := \<lparr>sl_locked = False, sl_name = ''buffer'', sl_pid = 0\<rparr>),
     sw_proc := (sw_proc sw_boot)(0 := (sw_proc sw_boot 0)\<lparr>p_chan := ChBufLock 0, p_state := SLEEPING\<rparr>),
     sw_pc := (\<lambda>_. SW_Out)(0 := A_Off (ChBufLock 0), 1 := R_Pt (ChBufLock 0))\<rparr>"

lemma sw_calls: "sw_reach n s \<Longrightarrow> t < n \<Longrightarrow> sw_call t s s' \<Longrightarrow> sw_reach n s'"
  by (rule sw_next) auto

lemma sw_acq_call: "sw_acquiresleep t s s' \<Longrightarrow> sw_call t s s'" and sw_rel_call: "sw_releasesleep t s s' \<Longrightarrow> sw_call t s s'"
  by (simp_all add: sw_call_def)

lemma sw_pair_reached: "sw_reach 2 sw_pair"
proof -
  let ?c = "ChBufLock 0"
  define s1 where "s1 = sw_go 1 (A_Acq ?c) sw_boot"
  define s2 where "s2 = sw_go 1 (A_Test ?c) (lk_set ?c (Some 1) s1)"
  define s3 where "s3 = sw_go 1 (A_Set ?c) s2"
  define s4 where "s4 = sw_go 1 (A_Rel ?c) (sl_set ?c (\<lambda>l. l\<lparr>sl_locked := True, sl_pid := p_pid (sw_proc s3 1)\<rparr>)
       (s3\<lparr>sw_has := (sw_has s3)(?c := insert 1 (sw_has s3 ?c))\<rparr>))"
  define s5 where "s5 = sw_go 1 SW_Out (lk_set ?c None s4)"
  note d1 = s1_def s2_def s3_def s4_def s5_def sw_upd_defs sw_boot_def initsleeplock_def
  have "sw_reach 2 s1" unfolding s1_def by (rule sw_acquires [OF sw_start]) (simp_all add: sw_boot_def)
  then have "sw_reach 2 s2" unfolding s2_def by (rule sw_calls [where t = 1, OF _ _ sw_acq_call]) (simp, intro as_acq, simp_all add: d1)
  then have "sw_reach 2 s3" unfolding s3_def by (rule sw_calls [where t = 1, OF _ _ sw_acq_call]) (simp, intro as_go, simp_all add: d1)
  then have "sw_reach 2 s4" unfolding s4_def by (rule sw_calls [where t = 1, OF _ _ sw_acq_call]) (simp, intro as_set, simp_all add: d1)
  then have r5: "sw_reach 2 s5" unfolding s5_def by (rule sw_calls [where t = 1, OF _ _ sw_acq_call]) (simp, intro as_rel, simp_all add: d1)
  let ?l = "\<lparr>sl_locked = True, sl_name = ''buffer'', sl_pid = 1\<rparr>"
  have s5: "s5 = sw_boot\<lparr>sw_sl := (sw_sl sw_boot)(?c := ?l), sw_has := (\<lambda>_. {})(?c := {1})\<rparr>"
    by (simp add: d1 fun_eq_iff)
  define s6 where "s6 = sw_go 0 (A_Acq ?c) s5"
  define s7 where "s7 = sw_go 0 (A_Test ?c) (lk_set ?c (Some 0) s6)"
  define s8 where "s8 = sw_go 0 (A_Pt ?c) s7"
  define s9 where "s9 = sw_go 0 (A_Drop ?c) (s8\<lparr>sw_pt := Some 0\<rparr>)"
  define sa where "sa = sw_go 0 (A_Chan ?c) (lk_set ?c None s9)"
  define sb where "sb = sw_go 0 (A_Mark ?c) (pr_set 0 (\<lambda>p. p\<lparr>p_chan := ?c\<rparr>) sa)"
  define sc where "sc = sw_go 0 (A_Sched ?c) (pr_set 0 (\<lambda>p. p\<lparr>p_state := SLEEPING\<rparr>) sb)"
  define sd where "sd = sw_go 0 (A_Off ?c) (sc\<lparr>sw_pt := None\<rparr>)"
  note d2 = s6_def s7_def s8_def s9_def sa_def sb_def sc_def sd_def s5 sw_upd_defs sw_boot_def initsleeplock_def
  have "sw_reach 2 s6" unfolding s6_def by (rule sw_acquires [OF r5]) (simp_all add: d1)
  then have "sw_reach 2 s7" unfolding s7_def by (rule sw_calls [where t = 0, OF _ _ sw_acq_call]) (simp, intro as_acq, simp_all add: d2)
  then have "sw_reach 2 s8" unfolding s8_def by (rule sw_calls [where t = 0, OF _ _ sw_acq_call]) (simp, intro as_wait, simp_all add: d2)
  then have "sw_reach 2 s9" unfolding s9_def by (rule sw_calls [where t = 0, OF _ _ sw_acq_call]) (simp, intro as_sleep sl_pt, simp_all add: d2)
  then have "sw_reach 2 sa" unfolding sa_def by (rule sw_calls [where t = 0, OF _ _ sw_acq_call]) (simp, intro as_sleep sl_drop, simp_all add: d2)
  then have "sw_reach 2 sb" unfolding sb_def by (rule sw_calls [where t = 0, OF _ _ sw_acq_call]) (simp, intro as_sleep sl_chan, simp_all add: d2)
  then have "sw_reach 2 sc" unfolding sc_def by (rule sw_calls [where t = 0, OF _ _ sw_acq_call]) (simp, intro as_sleep sl_mark, simp_all add: d2)
  then have rd: "sw_reach 2 sd" unfolding sd_def by (rule sw_calls [where t = 0, OF _ _ sw_acq_call]) (simp, intro as_sleep sl_sched, simp_all add: d2)
  have sd: "sd = sw_boot\<lparr>sw_sl := (sw_sl sw_boot)(?c := ?l), sw_has := (\<lambda>_. {})(?c := {1}),
     sw_proc := (sw_proc sw_boot)(0 := (sw_proc sw_boot 0)\<lparr>p_chan := ?c, p_state := SLEEPING\<rparr>), sw_pc := (\<lambda>_. SW_Out)(0 := A_Off ?c)\<rparr>"
    by (simp add: d2 fun_eq_iff)
  define se where "se = sw_go 1 (R_Acq ?c) sd"
  define sf where "sf = sw_go 1 (R_Clear ?c) (lk_set ?c (Some 1) se)"
  note d3 = se_def sf_def sd sw_upd_defs sw_boot_def initsleeplock_def
  have "sw_reach 2 se" unfolding se_def by (rule sw_releases [OF rd]) (simp_all add: sd sw_boot_def)
  then have "sw_reach 2 sf" unfolding sf_def by (rule sw_calls [where t = 1, OF _ _ sw_rel_call]) (simp, intro rs_acq, simp_all add: d3)
  moreover have "sw_releasesleep 1 sf (sw_go 1 (R_Pt ?c) (sl_set ?c (\<lambda>l. l\<lparr>sl_locked := False, sl_pid := 0\<rparr>)
       (sf\<lparr>sw_has := (sw_has sf)(?c := sw_has sf ?c - {1})\<rparr>)))" by (rule rs_clear) (simp add: d3)
  moreover have "sw_go 1 (R_Pt ?c) (sl_set ?c (\<lambda>l. l\<lparr>sl_locked := False, sl_pid := 0\<rparr>)
       (sf\<lparr>sw_has := (sw_has sf)(?c := sw_has sf ?c - {1})\<rparr>)) = sw_pair"
    by (simp add: d3 sw_pair_def fun_eq_iff)
  ultimately show ?thesis using sw_calls [OF _ _ sw_rel_call, of 2 sf 1 sw_pair] by simp
qed

lemma sleep_misses_no_wakeup_witness:
  "\<exists>u < 2. sw_pc sw_pair u \<in> {R_Pt (ChBufLock 0), R_Wake (ChBufLock 0)}"
proof -
  have "p_state (sw_proc sw_pair 0) = SLEEPING \<and> p_chan (sw_proc sw_pair 0) = ChBufLock 0" "\<not> sl_locked (sw_sl sw_pair (ChBufLock 0))"
    by (simp_all add: sw_pair_def)
  then show ?thesis using sleep_misses_no_wakeup [OF sw_pair_reached] by blast
qed

end
