(* ===== verification/Demo.thy ===== *)
theory Demo
  imports Trap
begin

text \<open>
  A small concrete machine on which the witnesses evaluate: one running process with two pages of
  user memory, an empty process table otherwise, an idle block layer over a given disk, an open
  transaction.
\<close>

definition demo_ram :: mem where
  "demo_ram = wr32 (wr32 (wr32 (\<lambda>a. if a = 12298 then 104 else if a = 12299 then 105 else 0) 4096 8199) 8192 12295) 8196 16391"

definition demo_proc :: proc where
  "demo_proc = zero_proc\<lparr>p_sz := 8192, p_pgdir := KERNBASE + 4096, p_kstack := KERNBASE + 20480, p_state := RUNNING,
     p_pid := 1, p_cwd := Some 0, p_oldtf_page := KERNBASE + 24576\<rparr>"

definition demo_ino :: inode where
  "demo_ino = \<lparr>i_dev = 0, i_inum = 0, i_ref = 0, i_lock = initsleeplock ''inode'', i_valid = False, i_type = 0,
     i_major = 0, i_minor = 0, i_nlink = 0, i_size = 0, i_addrs = (\<lambda>_. 0)\<rparr>"

definition demo_logst :: logst where
  "demo_logst = \<lparr>l_start = 2, l_size = 30, l_outstanding = 1, l_committing = False, l_dev = ROOTDEV, lh_n = 0,
     lh_block = (\<lambda>_. 0)\<rparr>"

definition demo_sb :: superblock where
  "demo_sb = \<lparr>sb_size = 1000, sb_nblocks = 941, sb_ninodes = 200, sb_nlog = 30, sb_logstart = 2, sb_inodestart = 32,
     sb_bmapstart = 58\<rparr>"

definition demo0 :: "(nat \<Rightarrow> dsk) \<Rightarrow> trapk" where
  "demo0 d = \<lparr>held = {}, ram = demo_ram, freelist = 0, use_lock = True, kend = KERNBASE + 8388608,
     ptable = (replicate NPROC zero_proc)[0 := demo_proc], cur = Some 0, nextpid = 2, initproc = Some 0, ticks = 0,
     bufs = (\<lambda>_. zero_buf), lru = [], idequeue = [], ide_status = 64, ide_cmd = (0, 0), havedisk1 = True,
     disk = d, wtrace = [], lg = demo_logst, sb = demo_sb, inodes = (\<lambda>_. demo_ino),
     cons_locking = True, panicked = False, uart = True, uart_out = [], crt = (\<lambda>_. 0), crtpos = 0,
     inp_buf = (\<lambda>_. 0), inp_r = 0, inp_w = 0, inp_e = 0, devsw = (\<lambda>_. False),
     kpgdir = KERNBASE + 28672, cr3 = 0, tss_esp0 = 0, kdata = KERNBASE + 4194304,
     ftable = (\<lambda>_. \<lparr>f_type = FD_NONE, f_ref = 0, f_readable = False, f_writable = False, f_pipe = 0, f_ip = 0, f_off = 0\<rparr>),
     pipes = (\<lambda>_. \<lparr>pp_data = (\<lambda>_. 0), pp_nread = 0, pp_nwrite = 0, pp_readopen = True, pp_writeopen = True\<rparr>),
     forkret_first = False, tm_cv1 = 0, tm_cv2 = 0,
     tasks = (\<lambda>_. \<lparr>t_status = FREE, t_id = 0, t_arg1 = 0, t_arg2 = 0, t_result = 0, t_fptr = 0\<rparr>), kbd_shift = 0\<rparr>"

definition demo :: "(nat \<Rightarrow> dsk) \<Rightarrow> trapk" where
  "demo d = binit (demo0 d)"

abbreviation blank :: "nat \<Rightarrow> dsk" where "blank \<equiv> \<lambda>_ _ _. 0"

lemma demo_sel [simp]:
  "held (demo d) = {}" "ram (demo d) = demo_ram" "freelist (demo d) = 0" "cur (demo d) = Some 0"
  "ptable (demo d) = (replicate NPROC zero_proc)[0 := demo_proc]" "nextpid (demo d) = 2" "initproc (demo d) = Some 0"
  "ticks (demo d) = 0" "lg (demo d) = demo_logst" "sb (demo d) = demo_sb" "inodes (demo d) = (\<lambda>_. demo_ino)"
  "use_lock (demo d)" "kend (demo d) = KERNBASE + 8388608"
  by (simp_all add: demo_def demo0_def binit_def)

lemma demo_sel_cons [simp]:
  "cons_locking (demo d)" "\<not> panicked (demo d)" "uart (demo d)" "uart_out (demo d) = []" "crt (demo d) = (\<lambda>_. 0)"
  "crtpos (demo d) = 0" "inp_buf (demo d) = (\<lambda>_. 0)" "inp_r (demo d) = 0" "inp_w (demo d) = 0" "inp_e (demo d) = 0"
  by (simp_all add: demo_def demo0_def binit_def)

lemma demo_sel_file [simp]:
  "ftable (demo d) = (\<lambda>_. \<lparr>f_type = FD_NONE, f_ref = 0, f_readable = False, f_writable = False, f_pipe = 0, f_ip = 0, f_off = 0\<rparr>)"
  "pipes (demo d) = (\<lambda>_. \<lparr>pp_data = (\<lambda>_. 0), pp_nread = 0, pp_nwrite = 0, pp_readopen = True, pp_writeopen = True\<rparr>)"
  "tasks (demo d) = (\<lambda>_. \<lparr>t_status = FREE, t_id = 0, t_arg1 = 0, t_arg2 = 0, t_result = 0, t_fptr = 0\<rparr>)"
  "tm_cv1 (demo d) = 0" "tm_cv2 (demo d) = 0" "kbd_shift (demo d) = 0"
  by (simp_all add: demo_def demo0_def binit_def)

lemma demo_myproc [simp]: "myproc (demo d) = demo_proc"
  by (simp add: myproc_def NPROC_def)

lemma demo_bio: "bio_ok (demo d)" "clocked (bc (demo d)) = {}" "cdirty (bc (demo d)) = {}" "disk (demo d) = d"
  "blk (demo d) = d ROOTDEV" "wtrace (demo d) = []"
proof -
  have s: "bufs (demo0 d) = (\<lambda>_. zero_buf)" "held (demo0 d) = {}" "idequeue (demo0 d) = []" "ide_status (demo0 d) = 64"
    "havedisk1 (demo0 d)" "disk (demo0 d) = d" "wtrace (demo0 d) = []"
    by (simp_all add: demo0_def)
  show "bio_ok (demo d)" "clocked (bc (demo d)) = {}" "cdirty (bc (demo d)) = {}"
    using binit_ok [of "demo0 d"] s by (simp_all add: demo_def io_ready_def)
  show e: "disk (demo d) = d" "wtrace (demo d) = []" using s by (simp_all add: demo_def)
  show "blk (demo d) = d ROOTDEV"
    using clean_abs [OF \<open>bio_ok (demo d)\<close>] \<open>clocked (bc (demo d)) = {}\<close> \<open>cdirty (bc (demo d)) = {}\<close> e
    by (auto intro!: ext)
qed

lemma demo_log_inv: "head_n (d ROOTDEV 2) = 0 \<Longrightarrow> log_inv (demo d)"
  using demo_bio [of d]
  by (simp add: log_inv_def lh_ok_def demo_logst_def LOGSIZE_def FSSIZE_def log_area_def)

lemma demo_txn:
  assumes "head_n (d ROOTDEV 2) = 0" "k < 30" "k + j \<le> 30"
  shows "txn k j (demo d)"
  using demo_bio [of d] demo_log_inv [of d, OF assms(1)] assms(2,3) by (simp add: txn_def demo_logst_def NBUF_def)

lemma demo_home: "n \<in> home demo_logst \<longleftrightarrow> n < 1000 \<and> (n < 2 \<or> 32 \<le> n)"
  by (auto simp: home_def log_area_def demo_logst_def FSSIZE_def)

lemma demo_present: "present 8199" "present 12295" "present 16391"
  by (simp_all add: present_def PTE_P_def)

lemma translate_demo: "a < 4096 \<Longrightarrow> translate demo_ram (KERNBASE + 4096) a = Some (12288 + a)"
proof -
  assume a: "a < 4096"
  have "drop_bit 22 a = 0" "drop_bit 12 a = 0" using a by (simp_all add: drop_bit_eq_div)
  then have i: "PDX a = 0" "PTX a = 0" by (simp_all add: PDX_def PTX_def)
  have v: "V2P 2147487744 = 4096" by (simp add: V2P_def KERNBASE_def sub32_def)
  show ?thesis using a
    by (simp add: translate_def i v demo_ram_def Let_def PTE_ADDR_def demo_present layout_simps)
qed

end
