(* ===== verification/UserMem.thy ===== *)
theory UserMem
  imports Demo
begin

text \<open>
  User memory as the kernel reads and writes it: byte-wise laws of \<open>uget\<close> and \<open>uput\<close>, ranges that a
  page table maps to contiguous physical memory, and changes of one entry of the process table.
\<close>

section \<open>User memory byte by byte\<close>

lemma uget_Suc:
  "uget a (Suc n) s = bindr (uget a 1 s) (\<lambda>b. bindr (uget (a + 1) n s) (\<lambda>bs. Ok (hd b # bs)))"
  by (simp add: uget_def split: option.splits)

lemma uput_Cons: "uput a (b # bs) s = bindr (uput a [b] s) (uput (a + 1) bs)"
  by (auto simp: uput_def myproc_def split: option.splits)

lemma uput_Nil [simp]: "uput a [] s = Ok s"
  by (simp add: uput_def)

lemma uget_held [simp]: "uget a n (s\<lparr>held := h\<rparr>) = uget a n s"
  by (simp add: uget_def myproc_def)

lemma uput_sel:
  "uput a bs s = Ok t \<Longrightarrow> pipes t = pipes s"
  "uput a bs s = Ok t \<Longrightarrow> ptable t = ptable s"
  "uput a bs s = Ok t \<Longrightarrow> held t = held s"
  by (auto simp: uput_def split: option.splits)

lemma uput_held: "uput a bs (s\<lparr>held := h\<rparr>) = bindr (uput a bs s) (\<lambda>t. Ok (t\<lparr>held := h\<rparr>))"
  by (simp add: uput_def myproc_def split: option.splits)

lemma length_uget_from: "uget_from m g a n = Some bs \<Longrightarrow> length bs = n"
  by (induction n arbitrary: a bs) (auto split: option.splits)

lemma length_uget: "uget a n s = Ok bs \<Longrightarrow> length bs = n"
  by (auto simp: uget_def dest: length_uget_from split: option.splits)

section \<open>Mapped ranges\<close>

text \<open>
  The \<open>n\<close> bytes at the user address \<open>va\<close> are the physical bytes at \<open>pa\<close>, whatever these bytes are: no
  page table in use lies among them.
\<close>

definition maps_to :: "mem \<Rightarrow> nat \<Rightarrow> nat \<Rightarrow> nat \<Rightarrow> nat \<Rightarrow> bool" where
  "maps_to m pgdir va n pa \<longleftrightarrow>
     (\<forall>m'. (\<forall>a. a < pa \<or> pa + n \<le> a \<longrightarrow> m' a = m a) \<longrightarrow> (\<forall>i < n. translate m' pgdir (va + i) = Some (pa + i)))"

lemma maps_toD: "maps_to m pgdir va n pa \<Longrightarrow> i < n \<Longrightarrow> translate m pgdir (va + i) = Some (pa + i)"
  by (simp add: maps_to_def)

lemma maps_to_cong:
  "maps_to m pgdir va n pa \<Longrightarrow> (\<And>a. a < pa \<or> pa + n \<le> a \<Longrightarrow> m' a = m a) \<Longrightarrow> maps_to m' pgdir va n pa"
  by (simp add: maps_to_def)

lemma maps_to_put:
  assumes "maps_to m pgdir va n pa" "d + length bs \<le> n"
  shows "maps_to (put_bytes bs m (pa + d)) pgdir va n pa"
  by (rule maps_to_cong [OF assms(1)]) (use assms(2) in \<open>auto simp: put_bytes_def\<close>)

lemma put_bytes_Cons: "put_bytes (b # bs) m a = put_bytes bs (m(a := b)) (a + 1)"
  by (auto simp: put_bytes_def fun_eq_iff nth_Cons' intro!: arg_cong [where f = "(!) bs"])

lemma uget_maps:
  assumes "maps_to m pgdir va n pa" "d + k \<le> n"
  shows "uget_from m pgdir (va + d) k = Some (bytes_at m (pa + d) k)"
  using assms(2)
proof (induction k arbitrary: d)
  case (Suc k)
  then show ?case using maps_toD [OF assms(1), of d] Suc.IH [of "Suc d"] by (simp add: bytes_at_Suc)
qed simp

lemma uput_maps:
  assumes "maps_to m pgdir va n pa" "d + length bs \<le> n"
  shows "uput_from m pgdir (va + d) bs = Some (put_bytes bs m (pa + d))"
  using assms
proof (induction bs arbitrary: d m)
  case (Cons b bs)
  have "put_bytes [b] m (pa + d) = m(pa + d := b)" by (auto simp: put_bytes_def)
  moreover have "maps_to (put_bytes [b] m (pa + d)) pgdir va n pa" by (rule maps_to_put) (use Cons.prems in simp_all)
  ultimately have "maps_to (m(pa + d := b)) pgdir va n pa" by (simp only:)
  then have "uput_from (m(pa + d := b)) pgdir (va + Suc d) bs = Some (put_bytes bs (m(pa + d := b)) (pa + Suc d))"
    by (rule Cons.IH) (use Cons.prems in simp)
  then show ?case using maps_toD [OF Cons.prems(1), of d] Cons.prems(2) by (simp add: put_bytes_Cons)
qed (auto simp: put_bytes_def fun_eq_iff)

text \<open>The first page of the demo process, in any memory with its two page table entries.\<close>

lemma first_page_maps:
  assumes "rd32 m 4096 = 8199" "rd32 m 8192 = 12295" "va + n \<le> 4096"
  shows "maps_to m (KERNBASE + 4096) va n (12288 + va)"
  unfolding maps_to_def
proof (intro allI impI)
  fix m' i assume m: "\<forall>a. a < 12288 + va \<or> 12288 + va + n \<le> a \<longrightarrow> m' a = m a" and i: "i < n"
  have "rd32 m' 4096 = rd32 m 4096" "rd32 m' 8192 = rd32 m 8192" using m by (auto intro!: rd32_cong)
  then have r: "rd32 m' 4096 = 8199" "rd32 m' 8192 = 12295" using assms by simp_all
  have "drop_bit 22 (va + i) = 0" "drop_bit 12 (va + i) = 0" using i assms by (simp_all add: drop_bit_eq_div)
  then have x: "PDX (va + i) = 0" "PTX (va + i) = 0" by (simp_all add: PDX_def PTX_def)
  have v: "V2P 2147487744 = 4096" by (simp add: V2P_def KERNBASE_def sub32_def)
  show "translate m' (KERNBASE + 4096) (va + i) = Some (12288 + va + i)"
    using i assms by (simp add: translate_def x v r Let_def PTE_ADDR_def demo_present layout_simps)
qed

lemma demo_maps:
  assumes "va + n \<le> 4096"
  shows "maps_to demo_ram (KERNBASE + 4096) va n (12288 + va)"
  by (rule first_page_maps [OF _ _ assms]) (simp_all add: demo_ram_def)

lemma bytes_at_put_out:
  "b + k \<le> a \<or> a + length bs \<le> b \<Longrightarrow> bytes_at (put_bytes bs m a) b k = bytes_at m b k"
  by (rule bytes_at_cong) (auto simp: put_bytes_def)

lemma length_word_bytes [simp]: "length (word_bytes w) = 4"
  by (simp add: word_bytes_def)

lemma rd32_word_bytes: "rd32 (arr (word_bytes w)) 0 = w mod u32_mod"
proof -
  have "rd32 (arr (word_bytes w)) 0 = rd32 (wr32 (\<lambda>_. 0) 0 w) 0"
    by (rule rd32_cong) (simp add: arr_def put_bytes_def word_bytes_def)
  then show ?thesis by simp
qed

section \<open>One entry of the process table\<close>

lemma upd_proc_sel [simp]:
  "held (upd_proc i f s) = held s" "ram (upd_proc i f s) = ram s" "cur (upd_proc i f s) = cur s"
  "freelist (upd_proc i f s) = freelist s" "kend (upd_proc i f s) = kend s" "use_lock (upd_proc i f s) = use_lock s"
  "nextpid (upd_proc i f s) = nextpid s" "initproc (upd_proc i f s) = initproc s" "ticks (upd_proc i f s) = ticks s"
  "ksys.more (upd_proc i f s) = ksys.more s" "ptable (upd_proc i f s) = (ptable s)[i := f (ptable s ! i)]"
  by (simp_all add: upd_proc_def)

lemma more_tasks: "ksys.more (s :: 'a taskk_scheme) = ksys.more t \<Longrightarrow> tasks s = tasks t \<and> tm_cv1 s = tm_cv1 t \<and> tm_cv2 s = tm_cv2 t"
  by (cases s; cases t) simp

end
