(* ===== verification/Ring.thy ===== *)
theory Ring
  imports KPrelude
begin

text \<open>
  Ring buffers as the kernel writes them: an array of \<open>N\<close> bytes and two free-running 32-bit indexes,
  reduced modulo \<open>N\<close> at each access. \<open>N\<close> divides \<open>2 ^ 32\<close>, so the wrap-around of the indexes is not
  visible. The content is the list of the bytes between the indexes. The interface of a bounded
  queue of bytes, which pipes and the console input implement, is the locale \<open>byte_queue\<close>.
\<close>

section \<open>Indexes\<close>

lemma sub32_wrap: "r < u32_mod \<Longrightarrow> d < u32_mod \<Longrightarrow> sub32 (wrap32 (r + d)) r = d"
  by (cases "r + d < u32_mod") (simp_all add: sub32_def wrap32_def mod_if)

lemma wrap32_sub: "r < u32_mod \<Longrightarrow> w < u32_mod \<Longrightarrow> wrap32 (r + sub32 w r) = w"
  by (simp add: sub32_def wrap32_def mod_simps)

lemma sub32_less [simp]: "sub32 a b < u32_mod"
  by (simp add: sub32_def)

lemma sub32_self [simp]: "a < u32_mod \<Longrightarrow> sub32 a a = 0"
  by (simp add: sub32_def)

lemma sub32_0_iff: "r < u32_mod \<Longrightarrow> w < u32_mod \<Longrightarrow> sub32 w r = 0 \<longleftrightarrow> w = r"
  using wrap32_sub [of r w] by auto

lemma sub32_Suc:
  assumes "r < u32_mod" "w < u32_mod" "sub32 w r < n" "n < u32_mod"
  shows "sub32 (wrap32 (w + 1)) r = sub32 w r + 1"
proof -
  have "wrap32 (w + 1) = wrap32 (r + (sub32 w r + 1))"
    using wrap32_sub [OF assms(1,2)] by (metis add.assoc wrap32_def mod_add_left_eq)
  then show ?thesis using assms sub32_wrap [of r "sub32 w r + 1"] by simp
qed

lemma sub32_pred:
  assumes "r < u32_mod" "w < u32_mod" "w \<noteq> r"
  shows "sub32 w (wrap32 (r + 1)) = sub32 w r - 1" "sub32 (sub32 w 1) r = sub32 w r - 1"
proof -
  let ?d = "sub32 w r"
  have d: "0 < ?d" using sub32_0_iff [OF assms(1,2)] assms(3) by simp
  have dl: "?d - 1 < u32_mod" using sub32_less [of w r] by linarith
  have w: "w = (r + ?d) mod u32_mod" using wrap32_sub [OF assms(1,2)] by (simp add: wrap32_def)
  have "wrap32 (wrap32 (r + 1) + (?d - 1)) = (r + 1 + (?d - 1)) mod u32_mod"
    unfolding wrap32_def by (rule mod_add_left_eq)
  also have "r + 1 + (?d - 1) = r + ?d" using d by simp
  also have "(r + ?d) mod u32_mod = w" using w ..
  finally have "wrap32 (wrap32 (r + 1) + (?d - 1)) = w" .
  then show "sub32 w (wrap32 (r + 1)) = ?d - 1"
    using sub32_wrap [of "wrap32 (r + 1)" "?d - 1"] dl by simp
  have "sub32 w 1 = (w + (u32_mod - 1)) mod u32_mod" by (simp add: sub32_def add.commute)
  also have "\<dots> = (r + ?d + (u32_mod - 1)) mod u32_mod" by (subst w) (simp add: mod_simps)
  also have "r + ?d + (u32_mod - 1) = r + (?d - 1) + u32_mod" using d by simp
  also have "(r + (?d - 1) + u32_mod) mod u32_mod = wrap32 (r + (?d - 1))" by (simp add: wrap32_def)
  finally show "sub32 (sub32 w 1) r = ?d - 1"
    using sub32_wrap [OF assms(1), of "?d - 1"] dl by simp
qed

lemma wrap32_mod: "N dvd u32_mod \<Longrightarrow> wrap32 a mod N = a mod N"
  by (simp add: wrap32_def mod_mod_cancel)

section \<open>Content\<close>

definition ring_list :: "nat \<Rightarrow> (nat \<Rightarrow> byte) \<Rightarrow> nat \<Rightarrow> nat \<Rightarrow> byte list" where
  "ring_list N buf r w = map (\<lambda>i. buf ((r + i) mod N)) [0..<sub32 w r]"

lemma length_ring_list [simp]: "length (ring_list N buf r w) = sub32 w r"
  by (simp add: ring_list_def)

lemma ring_empty [simp]: "r < u32_mod \<Longrightarrow> ring_list N buf r r = []"
  by (simp add: ring_list_def)

lemma ring_push:
  assumes N: "N dvd u32_mod" "N < u32_mod" and rw: "r < u32_mod" "w < u32_mod" and room: "sub32 w r < N"
  shows "ring_list N (buf(w mod N := b)) r (wrap32 (w + 1)) = ring_list N buf r w @ [b]"
proof -
  let ?n = "sub32 w r"
  have w: "w mod N = (r + ?n) mod N"
    using wrap32_mod [OF N(1), of "r + ?n"] wrap32_sub [OF rw] by simp
  have "(r + i) mod N \<noteq> (r + ?n) mod N" if "i < ?n" for i
  proof
    assume "(r + i) mod N = (r + ?n) mod N"
    then have "N dvd (r + ?n) - (r + i)" by (metis mod_eq_dvd_iff_nat that add_le_cancel_left less_imp_le)
    then have "N dvd ?n - i" by simp
    with that room show False by (auto dest: dvd_imp_le)
  qed
  then have "map (\<lambda>i. (buf(w mod N := b)) ((r + i) mod N)) [0..<?n] = map (\<lambda>i. buf ((r + i) mod N)) [0..<?n]"
    by (simp add: w)
  then show ?thesis
    unfolding ring_list_def sub32_Suc [OF rw room N(2)] by (simp add: w)
qed

lemma ring_pop:
  assumes "N dvd u32_mod" and rw: "r < u32_mod" "w < u32_mod" and ne: "w \<noteq> r"
  shows "ring_list N buf r w = buf (r mod N) # ring_list N buf (wrap32 (r + 1)) w"
proof -
  have "0 < sub32 w r" using sub32_0_iff [OF rw] ne by simp
  then have u: "[0..<sub32 w r] = 0 # map Suc [0..<sub32 w r - 1]"
    by (simp add: upt_conv_Cons map_Suc_upt)
  have "(wrap32 (r + 1) + i) mod N = (r + Suc i) mod N" for i
    using wrap32_mod [OF assms(1), of "r + 1"] by (metis add_Suc_right add_Suc_shift mod_add_left_eq Suc_eq_plus1)
  then show ?thesis
    unfolding ring_list_def sub32_pred(1) [OF rw ne] u by simp
qed

lemma ring_unpush:
  assumes rw: "r < u32_mod" "w < u32_mod" and ne: "w \<noteq> r"
  shows "ring_list N buf r (sub32 w 1) = butlast (ring_list N buf r w)"
proof -
  have "0 < sub32 w r" using sub32_0_iff [OF rw] ne by simp
  then have "[0..<sub32 w r] = [0..<sub32 w r - 1] @ [sub32 w r - 1]"
    by (metis Suc_diff_1 upt_Suc_append le0)
  then show ?thesis
    unfolding ring_list_def sub32_pred(2) [OF rw ne] by simp
qed

lemma ring_full_iff:
  assumes "N < u32_mod" "r < u32_mod" "w < u32_mod"
  shows "w = wrap32 (r + N) \<longleftrightarrow> sub32 w r = N"
  using sub32_wrap [OF assms(2,1)] wrap32_sub [OF assms(2,3)] by auto

lemma ring_split:
  assumes "N dvd u32_mod" and r: "r < u32_mod" "w < u32_mod" "e < u32_mod" and le: "sub32 w r \<le> sub32 e r"
  shows "sub32 e w = sub32 e r - sub32 w r" and "ring_list N buf r e = ring_list N buf r w @ ring_list N buf w e"
proof -
  let ?d = "sub32 w r" let ?n = "sub32 e r - ?d"
  have n: "?d + ?n = sub32 e r" "?n < u32_mod" using le sub32_less [of e r] by linarith+
  have "wrap32 (w + ?n) = wrap32 (wrap32 (r + ?d) + ?n)" using wrap32_sub [OF r(1,2)] by simp
  also have "\<dots> = wrap32 (r + (?d + ?n))" unfolding wrap32_def by (simp only: mod_add_left_eq add.assoc)
  also have "\<dots> = e" unfolding n(1) using wrap32_sub [OF r(1,3)] .
  finally show ew: "sub32 e w = ?n" using sub32_wrap [OF r(2) n(2)] by simp
  have m: "(w + i) mod N = (r + (?d + i)) mod N" for i
  proof -
    have "w mod N = (r + ?d) mod N" using wrap32_mod [OF assms(1), of "r + ?d"] wrap32_sub [OF r(1,2)] by simp
    then have "(w mod N + i) mod N = ((r + ?d) mod N + i) mod N" by simp
    then show ?thesis by (simp only: mod_add_left_eq add.assoc)
  qed
  have "[0..<sub32 e r] = [0..<?d] @ map (\<lambda>i. ?d + i) [0..<?n]"
    using upt_add_eq_append [of 0 ?d ?n] map_add_upt [of ?d ?n]
    by (simp add: n(1) [unfolded add.commute [of ?d]] add.commute [of ?d])
  then show "ring_list N buf r e = ring_list N buf r w @ ring_list N buf w e"
    unfolding ring_list_def ew by (simp add: m)
qed

lemma ring_last:
  assumes "N dvd u32_mod" and rw: "r < u32_mod" "w < u32_mod" and ne: "w \<noteq> r"
  shows "last (ring_list N buf r w) = buf (sub32 w 1 mod N)"
proof -
  have "0 < sub32 w r" using sub32_0_iff [OF rw] ne by simp
  then have u: "[0..<sub32 w r] = [0..<sub32 w r - 1] @ [sub32 w r - 1]"
    by (metis Suc_diff_1 upt_Suc_append le0)
  have "wrap32 (r + (sub32 w r - 1)) = sub32 w 1"
    using wrap32_sub [of r "sub32 w 1"] rw sub32_pred(2) [OF rw ne] by simp
  then have "(r + (sub32 w r - 1)) mod N = sub32 w 1 mod N"
    using wrap32_mod [OF assms(1), of "r + (sub32 w r - 1)"] by simp
  then show ?thesis unfolding ring_list_def u by simp
qed

section \<open>The interface of a bounded queue\<close>

locale byte_queue =
  fixes inv :: "'q \<Rightarrow> bool" and items :: "'q \<Rightarrow> byte list" and cap :: nat
    and full :: "'q \<Rightarrow> bool" and put :: "byte \<Rightarrow> 'q \<Rightarrow> 'q" and get :: "'q \<Rightarrow> byte \<times> 'q"
  assumes full_iff: "inv q \<Longrightarrow> full q \<longleftrightarrow> length (items q) = cap"
    and cap_le: "inv q \<Longrightarrow> length (items q) \<le> cap"
    and put_inv: "inv q \<Longrightarrow> \<not> full q \<Longrightarrow> inv (put b q)"
    and put_items: "inv q \<Longrightarrow> \<not> full q \<Longrightarrow> items (put b q) = items q @ [b]"
    and get_inv: "inv q \<Longrightarrow> items q \<noteq> [] \<Longrightarrow> inv (snd (get q))"
    and get_items: "inv q \<Longrightarrow> items q \<noteq> [] \<Longrightarrow> items q = fst (get q) # items (snd (get q))"
begin

fun gets :: "nat \<Rightarrow> 'q \<Rightarrow> byte list \<times> 'q" where
  "gets 0 q = ([], q)"
| "gets (Suc n) q = (let (b, q) = get q; (bs, q) = gets n q in (b # bs, q))"

lemma puts:
  assumes "inv q" and "length (items q) + length bs \<le> cap"
  shows "inv (fold put bs q) \<and> items (fold put bs q) = items q @ bs"
  using assms
proof (induction bs arbitrary: q)
  case (Cons b bs)
  then have "\<not> full q" using full_iff by simp
  with Cons have "inv (put b q)" "items (put b q) = items q @ [b]" by (simp_all add: put_inv put_items)
  with Cons.IH [of "put b q"] Cons.prems show ?case by simp
qed simp

lemma gets:
  assumes "inv q" and "n \<le> length (items q)"
  shows "inv (snd (gets n q)) \<and> fst (gets n q) = take n (items q) \<and> items (snd (gets n q)) = drop n (items q)"
  using assms
proof (induction n arbitrary: q)
  case (Suc n)
  then have ne: "items q \<noteq> []" by auto
  note g = get_inv [OF Suc.prems(1) ne] get_items [OF Suc.prems(1) ne]
  have "n \<le> length (items (snd (get q)))" using Suc.prems(2) arg_cong [OF g(2), of length] by simp
  with Suc.IH [OF g(1)] have ih: "inv (snd (gets n (snd (get q))))"
    "fst (gets n (snd (get q))) = take n (items (snd (get q)))"
    "items (snd (gets n (snd (get q)))) = drop n (items (snd (get q)))" by simp_all
  obtain b q' where "get q = (b, q')" by fastforce
  with ih g(2) show ?case by (simp add: split_beta Let_def)
qed simp

text \<open>First in, first out.\<close>

lemma fifo:
  assumes "inv q" and "items q = []" and "length bs \<le> cap"
  shows "fst (gets (length bs) (fold put bs q)) = bs"
  using puts [of q bs] gets [of "fold put bs q" "length bs"] assms by simp

end

end
