(* ===== verification/PipeSpec.thy ===== *)
theory PipeSpec
  imports UserMem Ring
begin

text \<open>
  What pipes do: a pipe is a bounded queue of bytes. \<open>pipewrite\<close> and \<open>piperead\<close> on a pipe refine
  appending to and taking from the list of its bytes.
\<close>

section \<open>The ring buffer\<close>

definition pipe_ok :: "pipe \<Rightarrow> bool" where
  "pipe_ok p \<longleftrightarrow> pp_nread p < u32_mod \<and> pp_nwrite p < u32_mod \<and> sub32 (pp_nwrite p) (pp_nread p) \<le> PIPESIZE"

definition pipe_items :: "pipe \<Rightarrow> byte list" where
  "pipe_items p = ring_list PIPESIZE (pp_data p) (pp_nread p) (pp_nwrite p)"

lemma PIPESIZE_props: "PIPESIZE dvd u32_mod" "PIPESIZE < u32_mod"
  by (simp_all add: PIPESIZE_def)

lemma pipe_full_iff: "pipe_ok p \<Longrightarrow> pipe_full p \<longleftrightarrow> sub32 (pp_nwrite p) (pp_nread p) = PIPESIZE"
  unfolding pipe_ok_def pipe_full_def using ring_full_iff PIPESIZE_props(2) by simp

lemma pipe_empty_iff: "pipe_ok p \<Longrightarrow> pp_nread p = pp_nwrite p \<longleftrightarrow> pipe_items p = []"
  unfolding pipe_ok_def pipe_items_def
  by (metis length_0_conv length_ring_list ring_empty sub32_0_iff)

lemma pipe_push_ok:
  assumes "pipe_ok p" and "\<not> pipe_full p"
  shows "pipe_ok (pipe_push b p)" and "pipe_items (pipe_push b p) = pipe_items p @ [b]"
proof -
  have w: "pp_nread p < u32_mod" "pp_nwrite p < u32_mod" "sub32 (pp_nwrite p) (pp_nread p) < PIPESIZE"
    using assms pipe_full_iff [OF assms(1)] by (simp_all add: pipe_ok_def)
  show "pipe_items (pipe_push b p) = pipe_items p @ [b]"
    using ring_push [OF PIPESIZE_props w] by (simp add: pipe_items_def pipe_push_def)
  show "pipe_ok (pipe_push b p)"
    using w sub32_Suc [OF w PIPESIZE_props(2)] by (simp add: pipe_ok_def pipe_push_def)
qed

lemma pipe_pop_ok:
  assumes "pipe_ok p" and "pipe_items p \<noteq> []"
  shows "pipe_ok (snd (pipe_pop p))" and "pipe_items p = fst (pipe_pop p) # pipe_items (snd (pipe_pop p))"
proof -
  have w: "pp_nread p < u32_mod" "pp_nwrite p < u32_mod" "pp_nwrite p \<noteq> pp_nread p"
    using assms pipe_empty_iff [OF assms(1)] by (auto simp: pipe_ok_def)
  show "pipe_items p = fst (pipe_pop p) # pipe_items (snd (pipe_pop p))"
    using ring_pop [OF PIPESIZE_props(1) w] by (simp add: pipe_items_def pipe_pop_def)
  show "pipe_ok (snd (pipe_pop p))"
    using assms(1) w sub32_pred(1) [OF w] by (simp add: pipe_ok_def pipe_pop_def)
qed

interpretation kpipe: byte_queue pipe_ok pipe_items PIPESIZE pipe_full pipe_push pipe_pop
proof (unfold_locales, goal_cases)
  case (1 q) then show ?case by (simp add: pipe_full_iff pipe_items_def)
next
  case (2 q) then show ?case by (simp add: pipe_ok_def pipe_items_def)
next
  case (3 q b) then show ?case by (rule pipe_push_ok)
next
  case (4 q b) then show ?case by (rule pipe_push_ok)
next
  case (5 q) then show ?case by (rule pipe_pop_ok)
next
  case (6 q) then show ?case by (rule pipe_pop_ok)
qed

section \<open>Pipes and user memory\<close>

lemma uget_upd_pipe [simp]: "uget a n (upd_pipe p f s) = uget a n s"
  by (simp add: uget_def upd_pipe_def myproc_def)

lemma upd_pipe_sel [simp]:
  "pipes (upd_pipe p f s) p = f (pipes s p)" "held (upd_pipe p f s) = held s" "ram (upd_pipe p f s) = ram s"
  "ptable (upd_pipe p f s) = ptable s" "cur (upd_pipe p f s) = cur s" "p' \<noteq> p \<Longrightarrow> pipes (upd_pipe p f s) p' = pipes s p'"
  "myproc (upd_pipe p f s) = myproc s"
  by (simp_all add: upd_pipe_def myproc_def)

lemma upd_pipe_twice [simp]: "upd_pipe p f (upd_pipe p g s) = upd_pipe p (\<lambda>x. f (g x)) s"
  by (simp add: upd_pipe_def)

lemma upd_pipe_id [simp]: "upd_pipe p (\<lambda>x. x) s = s"
  by (simp add: upd_pipe_def)

lemma uput_upd_pipe: "uput a bs (upd_pipe p f s) = bindr (uput a bs s) (\<lambda>t. Ok (upd_pipe p f t))"
  by (simp add: uput_def upd_pipe_def myproc_def split: option.splits)

section \<open>The loops\<close>

lemma pipewrite_loop_room:
  assumes "pipe_ok (pipes s p)" and "length (pipe_items (pipes s p)) + n \<le> PIPESIZE" and "uget a n s = Ok bs"
  shows "pipewrite_loop n p a s = Ok (True, upd_pipe p (fold pipe_push bs) s)"
  using assms
proof (induction n arbitrary: a bs s)
  case 0
  then have "bs = []" by (simp add: uget_def)
  then show ?case by (simp add: id_def)
next
  case (Suc n)
  obtain b cs where b: "uget a 1 s = Ok b" "uget (a + 1) n s = Ok cs" "bs = hd b # cs"
    using Suc.prems(3) by (auto simp: uget_Suc [of a n] bindr_eq_Ok simp del: One_nat_def)
  have nf: "\<not> pipe_full (pipes s p)" using Suc.prems kpipe.full_iff by simp
  let ?t = "upd_pipe p (pipe_push (hd b)) s"
  have "pipewrite_loop (Suc n) p a s = pipewrite_loop n p (a + 1) ?t"
    using nf b(1) by simp
  also have "\<dots> = Ok (True, upd_pipe p (fold pipe_push cs) ?t)"
    by (rule Suc.IH) (use Suc.prems nf b in \<open>simp_all add: kpipe.put_inv kpipe.put_items\<close>)
  finally show ?case using b(3) by (simp add: comp_def)
qed

lemma piperead_loop_takes:
  assumes "pipe_ok (pipes s p)" and "uput (a + i) (take n (pipe_items (pipes s p))) s = Ok t"
  shows "piperead_loop n p a i s = Ok (i + min n (length (pipe_items (pipes s p))),
     upd_pipe p (snd \<circ> kpipe.gets (min n (length (pipe_items (pipes s p))))) t)"
  using assms
proof (induction n arbitrary: i s t)
  case 0
  then show ?case by (simp add: comp_def)
next
  case (Suc n)
  let ?q = "pipes s p"
  show ?case
  proof (cases "pipe_items ?q = []")
    case True
    then show ?thesis using Suc.prems pipe_empty_iff [of ?q] by (simp add: comp_def)
  next
    case False
    obtain b q where bq: "pipe_pop ?q = (b, q)" by fastforce
    have q: "pipe_ok q" "pipe_items ?q = b # pipe_items q"
      using kpipe.get_inv [OF Suc.prems(1) False] kpipe.get_items [OF Suc.prems(1) False] bq by simp_all
    have ne: "pp_nread ?q \<noteq> pp_nwrite ?q" using pipe_empty_iff [OF Suc.prems(1)] False by simp
    obtain u where u: "uput (a + i) [b] s = Ok u" "uput (a + (i + 1)) (take n (pipe_items q)) u = Ok t"
      using Suc.prems(2) unfolding q(2) take_Suc_Cons uput_Cons [of "a + i" b "take n (pipe_items q)"] bindr_eq_Ok
      by auto
    let ?u = "upd_pipe p (\<lambda>_. q) u"
    have "piperead_loop (Suc n) p a i s = piperead_loop n p a (i + 1) ?u"
      using ne bq u(1) by (simp add: uput_upd_pipe)
    also have "\<dots> = Ok (i + 1 + min n (length (pipe_items q)),
        upd_pipe p (snd \<circ> kpipe.gets (min n (length (pipe_items q)))) (upd_pipe p (\<lambda>_. q) t))"
      using Suc.IH [of ?u "i + 1" "upd_pipe p (\<lambda>_. q) t"] q(1) u(2) by (simp add: uput_upd_pipe)
    also have "upd_pipe p (snd \<circ> kpipe.gets (min n (length (pipe_items q)))) (upd_pipe p (\<lambda>_. q) t)
        = upd_pipe p (snd \<circ> kpipe.gets (Suc (min n (length (pipe_items q))))) t"
    proof -
      have "pipes t p = ?q" using uput_sel(1) [OF Suc.prems(2)] by simp
      then show ?thesis using bq by (simp add: upd_pipe_def split_beta)
    qed
    moreover have "min (Suc n) (length (b # pipe_items q)) = Suc (min n (length (pipe_items q)))" by simp
    ultimately show ?thesis
      unfolding q(2) by (simp only: add.assoc plus_1_eq_Suc add_Suc_right add_Suc)
  qed
qed

section \<open>Reading and writing\<close>

definition no_sleeper :: "chan \<Rightarrow> 'a ksys_scheme \<Rightarrow> bool" where
  "no_sleeper ch s \<longleftrightarrow> (\<forall>q \<in> set (ptable s). \<not> (p_state q = SLEEPING \<and> p_chan q = ch))"

lemma wake_proc_awake: "\<not> (p_state (wake_proc ch q) = SLEEPING \<and> p_chan (wake_proc ch q) = ch)"
  by (simp add: wake_proc_def)

lemma no_sleeper_wakeup1 [simp]: "no_sleeper ch (wakeup1 ch s)"
  using wake_proc_awake by (simp add: no_sleeper_def)

lemma no_sleeper_held [simp]: "no_sleeper ch (s\<lparr>held := h\<rparr>) = no_sleeper ch s"
  by (simp add: no_sleeper_def)

lemma pipes_wakeup1 [simp]: "pipes (wakeup1 ch s) = pipes s"
  by (simp add: wakeup1_def)

text \<open>
  C14: Writing \<open>n\<close> bytes to a pipe with room for them appends exactly these bytes to its content, returns
  \<open>n\<close> and wakes up every process sleeping to read from the pipe; memory and locks are left alone.
\<close>

theorem pipewrite_appends:
  assumes "LPipe p \<notin> held s" "LPtable \<notin> held s" and "pipe_ok (pipes s p)"
    and "length (pipe_items (pipes s p)) + nat n \<le> PIPESIZE" and "uget addr (nat n) s = Ok bs"
  shows "okP (pipewrite p addr n s) (\<lambda>(r, t). r = n \<and> pipe_ok (pipes t p)
     \<and> pipe_items (pipes t p) = pipe_items (pipes s p) @ bs \<and> no_sleeper (ChPipeRead p) t
     \<and> held t = held s \<and> ram t = ram s)"
proof -
  let ?s = "s\<lparr>held := insert (LPipe p) (held s)\<rparr>"
  have "pipewrite_loop (nat n) p addr ?s = Ok (True, upd_pipe p (fold pipe_push bs) ?s)"
    by (rule pipewrite_loop_room) (use assms in simp_all)
  moreover have "length bs = nat n" using assms(5) by (rule length_uget)
  ultimately show ?thesis
    using kpipe.puts [OF assms(3), of bs] assms by (simp add: pipewrite_def wakeup_eq)
qed

definition hi_pipe :: pipe where
  "hi_pipe = \<lparr>pp_data = (\<lambda>i. if i = 511 then 7 else 0), pp_nread = 4294967295, pp_nwrite = 0, pp_readopen = True,
     pp_writeopen = True\<rparr>"

text \<open>The write of two bytes to a pipe whose write index has just wrapped around.\<close>

lemma hi_pipe_ok: "pipe_ok hi_pipe" "pipe_items hi_pipe = [7]"
  by (simp_all add: hi_pipe_def pipe_ok_def pipe_items_def ring_list_def sub32_def PIPESIZE_def)

lemma demo_uget: "uget 10 2 (upd_pipe 5 f (demo d)) = Ok [104, 105]"
  by (simp add: uget_def translate_demo demo_proc_def numeral_2_eq_2)
    (simp add: demo_ram_def wr32_def)

lemma pipewrite_appends_witness:
  "okP (pipewrite 5 10 2 (upd_pipe 5 (\<lambda>_. hi_pipe) (demo blank))) (\<lambda>(r, t). r = 2 \<and> pipe_items (pipes t 5) = [7, 104, 105])"
proof -
  let ?s = "upd_pipe 5 (\<lambda>_. hi_pipe) (demo blank)"
  have "okP (pipewrite 5 10 2 ?s) (\<lambda>(r, t). r = 2 \<and> pipe_ok (pipes t 5)
     \<and> pipe_items (pipes t 5) = pipe_items (pipes ?s 5) @ [104, 105] \<and> no_sleeper (ChPipeRead 5) t
     \<and> held t = held ?s \<and> ram t = ram ?s)"
    by (rule pipewrite_appends) (use demo_uget hi_pipe_ok in \<open>simp_all add: PIPESIZE_def\<close>)
  then show ?thesis by (rule okP_mono) (auto simp: hi_pipe_ok)
qed

text \<open>
  C15: Reading from a pipe that has data (or whose write end is closed) takes the oldest bytes in order, at
  most \<open>n\<close>, stores them at \<open>addr\<close> in user memory, returns their number and wakes up every process
  sleeping to write.
\<close>

theorem piperead_takes:
  assumes "LPipe p \<notin> held s" "LPtable \<notin> held s" and "pipe_ok (pipes s p)"
    and "pipe_items (pipes s p) \<noteq> [] \<or> \<not> pp_writeopen (pipes s p)"
    and "uput addr (take (nat n) (pipe_items (pipes s p))) s = Ok u"
  shows "okP (piperead p addr n s) (\<lambda>(r, t). r = int (min (nat n) (length (pipe_items (pipes s p))))
     \<and> pipe_ok (pipes t p) \<and> pipe_items (pipes t p) = drop (nat n) (pipe_items (pipes s p))
     \<and> ram t = ram u \<and> no_sleeper (ChPipeWrite p) t \<and> held t = held s)"
proof -
  let ?q = "pipes s p" let ?s = "s\<lparr>held := insert (LPipe p) (held s)\<rparr>"
    and ?u = "u\<lparr>held := insert (LPipe p) (held s)\<rparr>"
  let ?m = "min (nat n) (length (pipe_items ?q))"
  have "uput (addr + 0) (take (nat n) (pipe_items (pipes ?s p))) ?s = Ok ?u"
    using assms(5) by (simp add: uput_held)
  then have e: "piperead_loop (nat n) p addr 0 ?s = Ok (?m, upd_pipe p (snd \<circ> kpipe.gets ?m) ?u)"
    using piperead_loop_takes [of ?s p addr 0 "nat n" ?u] assms(3) by simp
  have "pipes u = pipes s" using uput_sel(1) [OF assms(5)] .
  moreover have "drop ?m (pipe_items ?q) = drop (nat n) (pipe_items ?q)" by (simp add: min_def)
  ultimately show ?thesis
    using e assms(1,2,4) kpipe.gets [OF assms(3), of ?m] pipe_empty_iff [OF assms(3)]
    by (simp add: piperead_def wakeup_eq comp_def)
qed

lemma piperead_takes_witness:
  "okP (piperead 5 20 3 (upd_pipe 5 (\<lambda>_. hi_pipe) (demo blank))) (\<lambda>(r, t). r = 1 \<and> ram t 12308 = 7
     \<and> pipe_items (pipes t 5) = [])"
proof -
  let ?s = "upd_pipe 5 (\<lambda>_. hi_pipe) (demo blank)"
  obtain u where u: "uput 20 [7] ?s = Ok u" "ram u 12308 = 7"
    by (simp add: uput_def upd_pipe_def myproc_def NPROC_def translate_demo demo_proc_def)
  have "okP (piperead 5 20 3 ?s) (\<lambda>(r, t). r = int (min (nat 3) (length (pipe_items (pipes ?s 5))))
     \<and> pipe_ok (pipes t 5) \<and> pipe_items (pipes t 5) = drop (nat 3) (pipe_items (pipes ?s 5))
     \<and> ram t = ram u \<and> no_sleeper (ChPipeWrite 5) t \<and> held t = held ?s)"
    by (rule piperead_takes) (use u hi_pipe_ok in simp_all)
  then show ?thesis by (rule okP_mono) (auto simp: hi_pipe_ok u)
qed

end
