(* ===== verification/ConsoleSpec.thy ===== *)
theory ConsoleSpec
  imports Demo Ring
begin

text \<open>
  What the console does: numbers are printed as numerals, the cursor never leaves the screen, output
  reaches the serial port, and the interrupt handler and the reader implement a line editor over two
  lists of bytes, the finished input and the line being edited.
\<close>

section \<open>Numerals\<close>

text \<open>The value of a list of digit characters, most significant first.\<close>

definition digit_val :: "nat \<Rightarrow> nat" where
  "digit_val c = (if c < 58 then c - 48 else c - 87)"

definition num_val :: "nat \<Rightarrow> nat list \<Rightarrow> nat" where
  "num_val b cs = foldl (\<lambda>n c. b * n + digit_val c) 0 cs"

definition digit_in :: "nat \<Rightarrow> nat \<Rightarrow> bool" where
  "digit_in b c \<longleftrightarrow> (48 \<le> c \<and> c < 58 \<or> 97 \<le> c \<and> c < 103) \<and> digit_val c < b"

lemma digit_char_eq: "d < 16 \<Longrightarrow> digit_char d = (if d < 10 then 48 + d else 87 + d)"
proof -
  have "\<forall>d \<in> {..<16}. digit_char d = (if d < 10 then 48 + d else 87 + d)"
    by (simp add: digit_char_def chars_def lessThan_nat_numeral lessThan_Suc nth_Cons' of_char_def)
  then show "d < 16 \<Longrightarrow> digit_char d = (if d < 10 then 48 + d else 87 + d)" by simp
qed

lemma digit_char_val: "d < b \<Longrightarrow> b \<le> 16 \<Longrightarrow> digit_val (digit_char d) = d \<and> digit_in b (digit_char d)"
  by (simp add: digit_char_eq digit_val_def digit_in_def)

lemma num_val_snoc: "num_val b (cs @ [c]) = b * num_val b cs + digit_val c"
  by (simp add: num_val_def)

declare int_digits.simps [simp del]

lemma int_digits_props:
  assumes "2 \<le> b" "b \<le> 16"
  shows "num_val b (rev (int_digits b x)) = x \<and> list_all (digit_in b) (int_digits b x)
     \<and> int_digits b x \<noteq> [] \<and> (x \<noteq> 0 \<longrightarrow> last (int_digits b x) \<noteq> 48)"
proof (induction x rule: less_induct)
  case (less x)
  have d: "digit_val (digit_char (x mod b)) = x mod b" "digit_in b (digit_char (x mod b))"
    using digit_char_val [of "x mod b" b] assms by simp_all
  show ?case
  proof (cases "x div b = 0")
    case True
    then have "x < b" using assms by (auto simp: div_eq_0_iff)
    with True d assms show ?thesis
      by (simp add: int_digits.simps [of b x] num_val_def digit_char_eq)
  next
    case False
    then have "x div b < x" using assms by (intro div_less_dividend) (auto intro: gr0I)
    from less [OF this] False have ih: "num_val b (rev (int_digits b (x div b))) = x div b"
      "list_all (digit_in b) (int_digits b (x div b))" "int_digits b (x div b) \<noteq> []"
      "last (int_digits b (x div b)) \<noteq> 48" by simp_all
    with d False assms show ?thesis
      by (simp add: int_digits.simps [of b x] num_val_snoc)
  qed
qed

lemma int_digits_length: "2 \<le> b \<Longrightarrow> x < b ^ k \<Longrightarrow> 0 < k \<Longrightarrow> length (int_digits b x) \<le> k"
proof (induction k arbitrary: x)
  case (Suc k)
  have m: "x div b < b ^ k" using Suc.prems by (simp add: less_mult_imp_div_less mult.commute)
  show ?case
  proof (cases "k = 0")
    case True
    then show ?thesis using m by (simp add: int_digits.simps [of b x])
  next
    case False
    then show ?thesis using Suc.IH [OF Suc.prems(1) m] by (simp add: int_digits.simps [of b x])
  qed
qed simp

text \<open>
  For every 32-bit integer, the smallest included, \<open>printint\<close> in base 10 prints the decimal
  numeral of the number: a minus sign exactly when it is negative, then digits whose value is its
  absolute value, without a leading zero.
\<close>

theorem printint_decimal:
  assumes "- 2147483648 \<le> x" and "x < 2147483648"
  shows "\<exists>ds. printint x 10 True = (if x < 0 then 45 # ds else ds) \<and> list_all (digit_in 10) ds
     \<and> int (num_val 10 ds) = \<bar>x\<bar> \<and> ds \<noteq> [] \<and> (x \<noteq> 0 \<longrightarrow> hd ds \<noteq> 48)"
proof -
  let ?n = "if x < 0 then u32_of (- x) else u32_of x"
  have n: "int ?n = \<bar>x\<bar>" using assms by (auto simp: u32_of_def)
  note p = int_digits_props [of 10 ?n]
  let ?ds = "rev (int_digits 10 ?n)"
  have "printint x 10 True = (if x < 0 then 45 # ?ds else ?ds)"
    by (simp add: printint_def Let_def)
  moreover have "x \<noteq> 0 \<Longrightarrow> hd ?ds \<noteq> 48" using p n by (auto simp: hd_rev split: if_splits)
  ultimately show ?thesis
    using p n by (intro exI [of _ ?ds]) (auto simp: list_all_rev)
qed

lemma printint_decimal_witness:
  "\<exists>ds. printint (- 2147483648) 10 True = 45 # ds \<and> int (num_val 10 ds) = 2147483648"
  using printint_decimal [of "- 2147483648"] by auto

text \<open>
  The characters of a number always fit the 16 bytes of the local buffer of \<open>printint\<close>, for both
  bases \<open>cprintf\<close> uses.
\<close>

theorem printint_fits:
  assumes "b = 10 \<or> b = 16"
  shows "length (printint x b sg) \<le> 16"
proof -
  have "length (int_digits b (u32_of i)) \<le> 10" for i
  proof -
    have "u32_of i < b ^ 10" by (rule less_le_trans [OF u32_of_less]) (use assms in auto)
    then show ?thesis using assms by (intro int_digits_length) auto
  qed
  then have "length (int_digits b (u32_of i)) + 1 \<le> 16" for i
    by (rule le_trans [OF add_right_mono]) simp
  moreover have "length (int_digits b (u32_of i)) \<le> 16" for i
    using calculation [of i] by simp
  ultimately show ?thesis by (simp add: printint_def Let_def)
qed

lemma printint_fits_witness: "length (printint (- 5) 16 True) \<le> 16"
  by (rule printint_fits) simp

section \<open>Output\<close>

text \<open>Only the screen, the cursor and the serial output change.\<close>

definition no_out :: "'a consk_scheme \<Rightarrow> 'a consk_scheme" where
  "no_out s = s\<lparr>uart_out := [], crt := (\<lambda>_. 0), crtpos := 0\<rparr>"

definition csame :: "'a consk_scheme \<Rightarrow> 'a consk_scheme \<Rightarrow> bool" where
  "csame s t \<longleftrightarrow> no_out t = no_out s"

lemma csame_refl [simp]: "csame s s"
  by (simp add: csame_def)

lemma csame_trans: "csame s t \<Longrightarrow> csame t u \<Longrightarrow> csame s u"
  by (simp add: csame_def)

lemma no_out_sel [simp]:
  "panicked (no_out s) = panicked s" "uart (no_out s) = uart s" "held (no_out s) = held s"
  "cons_locking (no_out s) = cons_locking s" "inp_r (no_out s) = inp_r s" "inp_w (no_out s) = inp_w s"
  "inp_e (no_out s) = inp_e s" "inp_buf (no_out s) = inp_buf s" "ptable (no_out s) = ptable s"
  "cur (no_out s) = cur s" "ram (no_out s) = ram s"
  by (simp_all add: no_out_def)

lemma csame_sel:
  assumes "csame s t"
  shows "panicked t = panicked s" "uart t = uart s" "held t = held s" "cons_locking t = cons_locking s"
    "inp_r t = inp_r s" "inp_w t = inp_w s" "inp_e t = inp_e s" "inp_buf t = inp_buf s" "ptable t = ptable s"
    "cur t = cur s" "ram t = ram s"
  using assms [unfolded csame_def] no_out_sel by metis+

definition on_screen :: "'a consk_scheme \<Rightarrow> bool" where
  "on_screen s \<longleftrightarrow> \<not> panicked s \<and> crtpos s < 2000"

lemma row24: "24 \<le> p div 80 \<longleftrightarrow> 1920 \<le> (p :: nat)"
  by (simp add: less_eq_div_iff_mult_less_eq)

lemma newline_eq: "p + (80 - p mod 80) = 80 * (p div 80) + (80 :: nat)"
proof -
  have "80 * (p div 80) + p mod 80 = p" "p mod 80 < 80" by simp_all
  then show ?thesis by linarith
qed

lemma newline_pos: "p < 2000 \<Longrightarrow> p + (80 - p mod 80) \<le> (2000 :: nat)"
proof -
  assume "p < 2000"
  then have "p div 80 < 25" by (simp add: div_less_iff_less_mult)
  then show ?thesis unfolding newline_eq by linarith
qed

lemma no_out_upd [simp]:
  "no_out (s\<lparr>crt := x, crtpos := y\<rparr>) = no_out s" "no_out (s\<lparr>uart_out := z\<rparr>) = no_out s"
  by (simp_all add: no_out_def)

lemma cgaputc_cases:
  assumes "crtpos s < 2000"
  shows "okP (cgaputc c s) (\<lambda>t. crtpos t \<le> 1920 \<and> (\<forall>i \<ge> 2000. crt t i = crt s i) \<and> uart_out t = uart_out s \<and> csame s t)"
proof -
  let ?pc = "if c = 10 then (crtpos s + (80 - crtpos s mod 80), crt s)
     else if c = BACKSPACE then (crtpos s - 1, crt s) else (crtpos s + 1, (crt s)(crtpos s := c AND 255 OR 1792))"
  obtain p cs where pc: "?pc = (p, cs)" by fastforce
  then have p: "p \<le> 2000" "\<forall>i \<ge> 2000. cs i = crt s i"
    using newline_pos [OF assms] assms by (auto split: if_splits)
  have q: "1920 \<le> p \<Longrightarrow> p - 80 \<le> 1920 \<and> \<not> 2000 \<le> p - 80" using p(1) by linarith
  show ?thesis using p q
    by (auto simp: cgaputc_def pc row24 csame_def)
qed

text \<open>
  Printing a character on the screen never panics, keeps the cursor on the screen and writes
  nothing outside the 25 rows of 80 cells; a newline in row 23 scrolls all rows up by one.
\<close>

theorem cgaputc_screen:
  assumes "crtpos s < 2000"
  shows "okP (cgaputc c s) (\<lambda>t. crtpos t \<le> 1920 \<and> (\<forall>i \<ge> 2000. crt t i = crt s i)
     \<and> (c = 10 \<and> crtpos s div 80 = 23 \<longrightarrow> crtpos t = 1840 \<and> (\<forall>i < 1840. crt t i = crt s (i + 80))
          \<and> (\<forall>i. 1840 < i \<and> i < 1920 \<longrightarrow> crt t i = 0)))"
proof (cases "c = 10 \<and> crtpos s div 80 = 23")
  case True
  then have "crtpos s + (80 - crtpos s mod 80) = 1920" unfolding newline_eq by simp
  with True show ?thesis by (simp add: cgaputc_def row24)
next
  case False
  then show ?thesis using okP_mono [OF cgaputc_cases [OF assms, of c]] by auto
qed

lemma cgaputc_screen_witness:
  "okP (cgaputc 10 ((demo blank)\<lparr>crtpos := 1850, crt := (\<lambda>i. i)\<rparr>)) (\<lambda>t. crtpos t = 1840 \<and> crt t 100 = 180)"
  by (rule okP_mono [OF cgaputc_screen]) simp_all

lemma consputc_ok:
  assumes "on_screen s"
  shows "okP (consputc c s) (\<lambda>t. on_screen t \<and> csame s t \<and> (uart s \<and> c \<noteq> BACKSPACE \<longrightarrow> uart_out t = uart_out s @ [c mod 256]))"
proof -
  let ?u = "if c = BACKSPACE then uartputc 8 (uartputc 32 (uartputc 8 s)) else uartputc c s"
  have u: "csame s ?u" "crtpos ?u < 2000" "\<not> panicked s" "\<not> panicked ?u"
    using assms by (auto simp: csame_def uartputc_def on_screen_def)
  show ?thesis
  proof -
    have "okP (cgaputc c ?u) (\<lambda>t. on_screen t \<and> csame s t
       \<and> (uart s \<and> c \<noteq> BACKSPACE \<longrightarrow> uart_out t = uart_out s @ [c mod 256]))"
    proof (rule okP_mono [OF cgaputc_cases [OF u(2)]], elim conjE)
      fix t assume t: "crtpos t \<le> 1920" "uart_out t = uart_out ?u" "csame ?u t"
      show "on_screen t \<and> csame s t \<and> (uart s \<and> c \<noteq> BACKSPACE \<longrightarrow> uart_out t = uart_out s @ [c mod 256])"
        using t(1,2) csame_sel(1) [OF t(3)] csame_trans [OF u(1) t(3)] u(4)
        by (simp add: on_screen_def uartputc_def)
    qed
    then show ?thesis using u(3) by (simp add: consputc_def)
  qed
qed

lemma consputs_ok:
  assumes "on_screen s"
  shows "okP (consputs cs s) (\<lambda>t. on_screen t \<and> csame s t
     \<and> (uart s \<and> (\<forall>c \<in> set cs. c < 256) \<longrightarrow> uart_out t = uart_out s @ cs))"
  using assms
proof (induction cs arbitrary: s)
  case (Cons c cs)
  show ?case
  proof (simp, rule okP_mono [OF consputc_ok [OF Cons.prems, of c]], elim conjE)
    fix t assume t: "on_screen t" "csame s t" "uart s \<and> c \<noteq> BACKSPACE \<longrightarrow> uart_out t = uart_out s @ [c mod 256]"
    show "okP (consputs cs t) (\<lambda>t. on_screen t \<and> csame s t
       \<and> (uart s \<and> c < 256 \<and> (\<forall>c \<in> set cs. c < 256) \<longrightarrow> uart_out t = uart_out s @ c # cs))"
      by (rule okP_mono [OF Cons.IH [OF t(1)]])
        (use t csame_trans [OF t(2)] csame_sel [OF t(2)] in \<open>auto simp: BACKSPACE_def\<close>)
  qed
qed simp

lemma no_out_held: "no_out (t\<lparr>held := h\<rparr>) = (no_out t)\<lparr>held := h\<rparr>"
  by (cases t) (simp add: no_out_def)

lemma csame_held: "csame (s\<lparr>held := h\<rparr>) t \<Longrightarrow> csame s (t\<lparr>held := held s\<rparr>)"
proof -
  assume "csame (s\<lparr>held := h\<rparr>) t"
  then have "(no_out t)\<lparr>held := held s\<rparr> = (no_out (s\<lparr>held := h\<rparr>))\<lparr>held := held s\<rparr>" by (simp add: csame_def)
  then show ?thesis by (simp add: csame_def no_out_held)
qed

lemma cprintf_ok:
  assumes "on_screen s" "LCons \<notin> held s" "cformat f as = Some out"
  shows "okP (cprintf f as s) (\<lambda>t. on_screen t \<and> csame s t \<and> (uart s \<and> (\<forall>c \<in> set out. c < 256) \<longrightarrow> uart_out t = uart_out s @ out))"
proof (cases "cons_locking s")
  case True
  let ?s = "s\<lparr>held := insert LCons (held s)\<rparr>"
  have "okP (consputs out ?s) (\<lambda>t. on_screen t \<and> csame ?s t
     \<and> (uart ?s \<and> (\<forall>c \<in> set out. c < 256) \<longrightarrow> uart_out t = uart_out ?s @ out))"
    by (rule consputs_ok) (use assms(1) in \<open>simp add: on_screen_def\<close>)
  then have "okP (consputs out ?s) (\<lambda>t. okP (release LCons t) (\<lambda>t. on_screen t \<and> csame s t
     \<and> (uart s \<and> (\<forall>c \<in> set out. c < 256) \<longrightarrow> uart_out t = uart_out s @ out)))"
  proof (rule okP_mono, elim conjE)
    fix t assume t: "on_screen t" "csame ?s t"
      and u: "uart ?s \<and> (\<forall>c \<in> set out. c < 256) \<longrightarrow> uart_out t = uart_out ?s @ out"
    have h: "held t = insert LCons (held s)" using csame_sel(3) [OF t(2)] by simp
    moreover have "insert LCons (held s) - {LCons} = held s" using assms(2) by auto
    ultimately show "okP (release LCons t) (\<lambda>t. on_screen t \<and> csame s t
       \<and> (uart s \<and> (\<forall>c \<in> set out. c < 256) \<longrightarrow> uart_out t = uart_out s @ out))"
      using t(1) u csame_held [OF t(2)] by (simp add: on_screen_def)
  qed
  with True assms show ?thesis by (simp add: cprintf_def)
next
  case False
  show ?thesis using False assms consputs_ok [OF assms(1), of out] by (simp add: cprintf_def)
qed

text \<open>
  \<open>cprintf\<close> with arguments that match its format returns, sends exactly the formatted text to the
  serial port, keeps the cursor on the screen and leaves the locks as they were.
\<close>

theorem cprintf_prints:
  assumes "on_screen s" "uart s" "LCons \<notin> held s" and "cformat f as = Some out" "\<forall>c \<in> set out. c < 256"
  shows "okP (cprintf f as s) (\<lambda>t. uart_out t = uart_out s @ out \<and> on_screen t \<and> held t = held s \<and> ptable t = ptable s)"
  by (rule okP_mono [OF cprintf_ok [OF assms(1,3,4)]]) (use assms(2,5) in \<open>auto dest: csame_sel\<close>)

lemma cprintf_prints_witness:
  "okP (cprintf (chars ''pid %d %s'') [CInt (- 7), CStr (Some [104, 105])] (demo blank))
     (\<lambda>t. uart_out t = chars ''pid -7 hi'')"
proof -
  have f: "cformat (chars ''pid %d %s'') [CInt (- 7), CStr (Some [104, 105])] = Some (chars ''pid -7 hi'')"
    by (simp add: chars_def of_char_def printint_def int_digits.simps u32_of_def digit_char_eq)
  show ?thesis
    by (rule okP_mono [OF cprintf_prints [OF _ _ _ f]]) (simp_all add: on_screen_def chars_def of_char_def)
qed

section \<open>The line editor\<close>

text \<open>
  The abstract state: the bytes of finished lines that nobody has read, and the line being edited.
  \<open>edit c\<close> is one key.
\<close>

definition edit :: "nat \<Rightarrow> byte list \<times> byte list \<Rightarrow> byte list \<times> byte list" where
  "edit c = (\<lambda>(d, l).
     if c = 21 then (d, [])
     else if c = 8 \<or> c = 127 then (d, butlast l)
     else if c = 0 \<or> length d + length l = INPUT_BUF then (d, l)
     else
       let c = (if c = 13 then 10 else c); l = l @ [of_nat c]
       in if c = 10 \<or> c = 4 \<or> length d + length l = INPUT_BUF then (d @ l, []) else (d, l))"

definition done_input :: "'a consk_scheme \<Rightarrow> byte list" where
  "done_input s = ring_list INPUT_BUF (inp_buf s) (inp_r s) (inp_w s)"

definition edit_line :: "'a consk_scheme \<Rightarrow> byte list" where
  "edit_line s = ring_list INPUT_BUF (inp_buf s) (inp_w s) (inp_e s)"

definition input :: "'a consk_scheme \<Rightarrow> byte list \<times> byte list" where
  "input s = (done_input s, edit_line s)"

definition inp_idx :: "'a consk_scheme \<Rightarrow> bool" where
  "inp_idx s \<longleftrightarrow> inp_r s < u32_mod \<and> inp_w s < u32_mod \<and> inp_e s < u32_mod
     \<and> sub32 (inp_w s) (inp_r s) \<le> sub32 (inp_e s) (inp_r s) \<and> sub32 (inp_e s) (inp_r s) \<le> INPUT_BUF"

definition inp_ok :: "'a consk_scheme \<Rightarrow> bool" where
  "inp_ok s \<longleftrightarrow> inp_idx s \<and> 10 \<notin> set (edit_line s)"

lemma INPUT_BUF_props: "INPUT_BUF dvd u32_mod" "INPUT_BUF < u32_mod"
  by (simp_all add: INPUT_BUF_def)

lemma inp_okD:
  assumes "inp_idx s"
  shows "inp_r s < u32_mod" "inp_w s < u32_mod" "inp_e s < u32_mod"
    and "length (done_input s) = sub32 (inp_w s) (inp_r s)"
    and "length (edit_line s) = sub32 (inp_e s) (inp_w s)"
    and "length (done_input s) + length (edit_line s) = sub32 (inp_e s) (inp_r s)"
    and "length (done_input s) + length (edit_line s) \<le> INPUT_BUF"
    and "edit_line s = [] \<longleftrightarrow> inp_e s = inp_w s"
    and "ring_list INPUT_BUF (inp_buf s) (inp_r s) (inp_e s) = done_input s @ edit_line s"
proof -
  note a = assms [unfolded inp_idx_def]
  show i: "inp_r s < u32_mod" "inp_w s < u32_mod" "inp_e s < u32_mod" using a by simp_all
  show l: "length (done_input s) = sub32 (inp_w s) (inp_r s)"
    "length (edit_line s) = sub32 (inp_e s) (inp_w s)" by (simp_all add: done_input_def edit_line_def)
  note sp = ring_split(1) [OF INPUT_BUF_props(1) i] ring_split(2) [OF INPUT_BUF_props(1) i, where buf = "inp_buf s"]
  show c: "length (done_input s) + length (edit_line s) = sub32 (inp_e s) (inp_r s)"
    using sp a l by simp
  then show "length (done_input s) + length (edit_line s) \<le> INPUT_BUF" using a by simp
  show "edit_line s = [] \<longleftrightarrow> inp_e s = inp_w s" using l(2) sub32_0_iff [OF i(2,3)] by (metis length_0_conv)
  show "ring_list INPUT_BUF (inp_buf s) (inp_r s) (inp_e s) = done_input s @ edit_line s"
    using sp a by (simp add: done_input_def edit_line_def)
qed

lemma unat_byte_10: "unat (b :: byte) = 10 \<longleftrightarrow> b = 10" "unat (b :: byte) = 4 \<longleftrightarrow> b = 4"
  by (simp_all add: word_unat_eq_iff)

text \<open>The input part of the state decides; output does not touch it.\<close>

lemma input_csame:
  assumes "csame s t"
  shows "done_input t = done_input s" "edit_line t = edit_line s" "inp_idx t = inp_idx s" "inp_ok t = inp_ok s"
proof -
  note c = csame_sel [OF assms]
  show e: "done_input t = done_input s" "edit_line t = edit_line s"
    by (simp_all add: done_input_def edit_line_def c)
  show "inp_idx t = inp_idx s" "inp_ok t = inp_ok s" by (simp_all add: inp_ok_def inp_idx_def c e)
qed

lemma erase_char:
  assumes ok: "inp_ok s" and ne: "inp_e s \<noteq> inp_w s"
  defines "t \<equiv> s\<lparr>inp_e := sub32 (inp_e s) 1\<rparr>"
  shows "inp_ok t" "done_input t = done_input s" "edit_line t = butlast (edit_line s)"
proof -
  have idx: "inp_idx s" using ok by (simp add: inp_ok_def)
  note i = inp_okD(1-3) [OF idx]
  show d: "done_input t = done_input s" by (simp add: done_input_def t_def)
  show l: "edit_line t = butlast (edit_line s)"
    using ring_unpush [OF i(2,3) ne] by (simp add: edit_line_def t_def)
  have n0: "0 < length (edit_line s)" using inp_okD(8) [OF idx] ne by simp
  then have ner: "inp_e s \<noteq> inp_r s" using inp_okD(6) [OF idx] i by auto
  have "10 \<notin> set (edit_line t)" unfolding l using ok by (auto simp: inp_ok_def dest: in_set_butlastD)
  moreover have "sub32 (inp_w s) (inp_r s) \<le> sub32 (inp_e s) (inp_r s) - 1" "sub32 (inp_e s) (inp_r s) - 1 \<le> INPUT_BUF"
    using inp_okD(4,6,7) [OF idx] n0 by linarith+
  ultimately show "inp_ok t"
    using i sub32_pred(2) [OF i(1,3) ner] by (simp add: inp_ok_def inp_idx_def t_def)
qed

definition keeps :: "'a consk_scheme \<Rightarrow> 'a consk_scheme \<Rightarrow> bool" where
  "keeps s t \<longleftrightarrow> inp_ok t \<and> on_screen t \<and> held t = held s"

lemma echo_ok:
  assumes "inp_ok s" "on_screen s"
  shows "okP (consputc c s) (\<lambda>t. keeps s t \<and> input t = input s \<and> inp_e t = inp_e s \<and> inp_w t = inp_w s \<and> inp_r t = inp_r s)"
  by (rule okP_mono [OF consputc_ok [OF assms(2)]])
    (use assms(1) in \<open>auto simp: keeps_def input_def input_csame csame_sel\<close>)

lemma erase_ok:
  assumes "inp_ok s" "on_screen s" "inp_e s \<noteq> inp_w s"
  shows "okP (consputc BACKSPACE (s\<lparr>inp_e := sub32 (inp_e s) 1\<rparr>)) (\<lambda>t. keeps s t
     \<and> input t = (done_input s, butlast (edit_line s)))"
proof -
  note e = erase_char [OF assms(1,3)]
  show ?thesis
    by (rule okP_mono [OF echo_ok [OF e(1)]]) (use assms(2) e in \<open>auto simp: keeps_def input_def on_screen_def\<close>)
qed

lemma kill_line_ok:
  assumes "inp_ok s" "on_screen s" "length (edit_line s) \<le> n"
  shows "okP (kill_line n s) (\<lambda>t. keeps s t \<and> input t = (done_input s, []))"
  using assms
proof (induction n arbitrary: s)
  case 0
  then show ?case by (simp add: keeps_def input_def)
next
  case (Suc n)
  have idx: "inp_idx s" using Suc.prems(1) by (simp add: inp_ok_def)
  show ?case
  proof (cases "inp_e s = inp_w s")
    case True
    then show ?thesis using Suc.prems inp_okD(8) [OF idx] by (simp add: keeps_def input_def)
  next
    case False
    have ne: "edit_line s \<noteq> []" using False inp_okD(8) [OF idx] by simp
    have "last (edit_line s) \<noteq> 10" using last_in_set [OF ne] Suc.prems(1) by (auto simp: inp_ok_def)
    then have "inp_at (sub32 (inp_e s) 1) s \<noteq> 10"
      using ring_last [OF INPUT_BUF_props(1) inp_okD(2,3) [OF idx] False]
      by (simp add: inp_at_def edit_line_def unat_byte_10)
    then have "kill_line (Suc n) s = bindr (consputc BACKSPACE (s\<lparr>inp_e := sub32 (inp_e s) 1\<rparr>)) (kill_line n)"
      using False by simp
    moreover have "okP (consputc BACKSPACE (s\<lparr>inp_e := sub32 (inp_e s) 1\<rparr>)) (\<lambda>t. okP (kill_line n t)
        (\<lambda>t. keeps s t \<and> input t = (done_input s, [])))"
    proof (rule okP_mono [OF erase_ok [OF Suc.prems(1,2) False]], elim conjE)
      fix t assume t: "keeps s t" "input t = (done_input s, butlast (edit_line s))"
      have "okP (kill_line n t) (\<lambda>u. keeps t u \<and> input u = (done_input t, []))"
        by (rule Suc.IH) (use t Suc.prems(3) ne in \<open>auto simp: keeps_def input_def\<close>)
      then show "okP (kill_line n t) (\<lambda>u. keeps s u \<and> input u = (done_input s, []))"
        by (rule okP_mono) (use t in \<open>simp add: keeps_def input_def\<close>)
    qed
    ultimately show ?thesis by simp
  qed
qed

definition put_char :: "byte \<Rightarrow> 'a consk_scheme \<Rightarrow> 'a consk_scheme" where
  "put_char b s = s\<lparr>inp_buf := (inp_buf s)(inp_e s mod INPUT_BUF := b), inp_e := wrap32 (inp_e s + 1)\<rparr>"

lemma put_char_sel [simp]:
  "inp_r (put_char b s) = inp_r s" "inp_w (put_char b s) = inp_w s" "inp_e (put_char b s) = wrap32 (inp_e s + 1)"
  "inp_buf (put_char b s) = (inp_buf s)(inp_e s mod INPUT_BUF := b)" "on_screen (put_char b s) = on_screen s"
  "held (put_char b s) = held s"
  by (simp_all add: put_char_def on_screen_def)

lemma insert_char:
  fixes b :: byte and s :: "'a consk_scheme"
  assumes idx: "inp_idx s" and room: "length (done_input s) + length (edit_line s) < INPUT_BUF"
  shows "inp_idx (put_char b s)" "done_input (put_char b s) = done_input s"
    "edit_line (put_char b s) = edit_line s @ [b]"
proof -
  let ?t = "put_char b s"
  note i = inp_okD(1-3) [OF idx] and l = inp_okD(4-7) [OF idx]
  have lt: "sub32 (inp_e s) (inp_r s) < INPUT_BUF" using room l(3) by simp
  have e: "sub32 (inp_e ?t) (inp_r ?t) = sub32 (inp_e s) (inp_r s) + 1"
    using sub32_Suc [OF i(1,3) lt INPUT_BUF_props(2)] by simp
  have "sub32 (inp_w s) (inp_r s) \<le> sub32 (inp_e s) (inp_r s) + 1" "sub32 (inp_e s) (inp_r s) + 1 \<le> INPUT_BUF"
    using l(1,3) lt by linarith+
  then show idt: "inp_idx ?t" using i e by (simp add: inp_idx_def)
  have "done_input ?t @ edit_line ?t = ring_list INPUT_BUF (inp_buf ?t) (inp_r ?t) (inp_e ?t)"
    using inp_okD(9) [OF idt] by simp
  also have "\<dots> = ring_list INPUT_BUF (inp_buf s) (inp_r s) (inp_e s) @ [b]"
    using ring_push [OF INPUT_BUF_props i(1,3) lt, of "inp_buf s" b] by simp
  also have "\<dots> = done_input s @ (edit_line s @ [b])" using inp_okD(9) [OF idx] by simp
  finally have "done_input ?t = done_input s \<and> edit_line ?t = edit_line s @ [b]"
    by (rule append_eq_append_conv [THEN iffD1, rotated]) (simp add: done_input_def)
  then show "done_input ?t = done_input s" "edit_line ?t = edit_line s @ [b]" by simp_all
qed

lemma commit_line:
  assumes idx: "inp_idx s"
  defines "t \<equiv> s\<lparr>inp_w := inp_e s\<rparr>"
  shows "inp_ok t" "done_input t = done_input s @ edit_line s" "edit_line t = []"
proof -
  show l: "edit_line t = []" using inp_okD(3) [OF idx] by (simp add: edit_line_def t_def)
  show "done_input t = done_input s @ edit_line s"
    using inp_okD(9) [OF idx] by (simp add: done_input_def t_def)
  show "inp_ok t" using idx l by (simp add: inp_ok_def inp_idx_def t_def)
qed

lemma input_wakeup1 [simp]:
  "inp_ok (wakeup1 ch s) = inp_ok s" "done_input (wakeup1 ch s) = done_input s" "edit_line (wakeup1 ch s) = edit_line s"
  "on_screen (wakeup1 ch s) = on_screen s"
  by (simp_all add: inp_ok_def inp_idx_def done_input_def edit_line_def on_screen_def wakeup1_def)

lemma of_nat_byte_10: "c < 256 \<Longrightarrow> (of_nat c :: byte) = 10 \<longleftrightarrow> c = 10"
  by (simp add: word_unat_eq_iff)

lemma console_char_ok:
  assumes ok: "inp_ok s" "on_screen s" and pt: "LPtable \<notin> held s" and c: "c < 256" "c \<noteq> 16"
  shows "okP (console_char c (dump, s)) (\<lambda>(dump', t). dump' = dump \<and> keeps s t \<and> input t = edit c (input s))"
proof -
  have idx: "inp_idx s" and nl: "10 \<notin> set (edit_line s)" using ok(1) by (simp_all add: inp_ok_def)
  note l = inp_okD [OF idx]
  have room: "sub32 (inp_e s) (inp_r s) < INPUT_BUF \<longleftrightarrow> length (done_input s) + length (edit_line s) \<noteq> INPUT_BUF"
    using l(6,7) by auto
  consider (kill) "c = 21" | (bs) "c = 8 \<or> c = 127" | (full) "c \<noteq> 21" "c \<noteq> 8" "c \<noteq> 127"
      "c = 0 \<or> length (done_input s) + length (edit_line s) = INPUT_BUF"
    | (ins) "c \<noteq> 21" "c \<noteq> 8" "c \<noteq> 127" "c \<noteq> 0" "length (done_input s) + length (edit_line s) \<noteq> INPUT_BUF"
    by blast
  then show ?thesis
  proof cases
    case kill
    have "okP (kill_line (sub32 (inp_e s) (inp_w s)) s) (\<lambda>t. keeps s t \<and> input t = (done_input s, []))"
      by (rule kill_line_ok [OF ok]) (simp add: l(5))
    then show ?thesis using kill by (simp add: console_char_def edit_def input_def)
  next
    case bs
    show ?thesis
    proof (cases "inp_e s = inp_w s")
      case True
      then show ?thesis using bs ok l(8) by (auto simp: console_char_def edit_def input_def keeps_def)
    next
      case False
      then show ?thesis using bs erase_ok [OF ok False] by (auto simp: console_char_def edit_def input_def)
    qed
  next
    case full
    then show ?thesis using c ok room by (auto simp: console_char_def edit_def input_def keeps_def)
  next
    case ins
    let ?c = "if c = 13 then 10 else c"
    let ?s = "put_char (of_nat ?c) s"
    let ?commit = "?c = 10 \<or> ?c = 4 \<or> length (done_input s) + length (edit_line s) + 1 = INPUT_BUF"
    have "length (done_input s) + length (edit_line s) < INPUT_BUF" using ins(5) l(7) by simp
    note i = insert_char [OF idx this, where b = "of_nat ?c"]
    have full_iff: "wrap32 (inp_e s + 1) = wrap32 (inp_r s + INPUT_BUF)
        \<longleftrightarrow> length (done_input s) + length (edit_line s) + 1 = INPUT_BUF"
      using ring_full_iff [OF INPUT_BUF_props(2), of "inp_r s" "wrap32 (inp_e s + 1)"] l(1) inp_okD(6) [OF i(1)] i(2,3)
      by simp
    have "okP (consputc ?c ?s) (\<lambda>t. okP (if ?c = 10 \<or> ?c = 4 \<or> inp_e t = wrap32 (inp_r t + INPUT_BUF)
         then bindr (wakeup ChInput (t\<lparr>inp_w := inp_e t\<rparr>)) (\<lambda>t. Ok (dump, t)) else Ok (dump, t))
       (\<lambda>(dump', t). dump' = dump \<and> keeps s t \<and> input t = edit c (input s)))"
    proof (rule okP_mono [OF consputc_ok], goal_cases)
      case 1
      show ?case using ok(2) by simp
    next
      case (2 t)
      then have t: "on_screen t" "csame ?s t" by simp_all
      note it = input_csame [OF t(2)] and ct = csame_sel [OF t(2)]
      have sw: "(?c = 10 \<or> ?c = 4 \<or> inp_e t = wrap32 (inp_r t + INPUT_BUF)) \<longleftrightarrow> ?commit"
        using full_iff by (simp add: ct)
      have d: "done_input t = done_input s" "edit_line t = edit_line s @ [of_nat ?c]" "inp_idx t"
        using it i by simp_all
      show ?case
      proof (cases ?commit)
        case True
        note cm = commit_line [OF d(3)]
        have "edit c (input s) = (done_input s @ edit_line s @ [of_nat ?c], [])"
          using ins True by (auto simp: edit_def input_def Let_def)
        moreover have "on_screen (t\<lparr>inp_w := inp_e t\<rparr>)" using t(1) by (simp add: on_screen_def)
        ultimately show ?thesis
          unfolding sw using True pt cm d
          by (simp add: wakeup_eq ct keeps_def input_def)
      next
        case False
        have "edit c (input s) = (done_input s, edit_line s @ [of_nat ?c])"
          using ins False by (auto simp: edit_def input_def Let_def)
        moreover have "(of_nat ?c :: byte) \<noteq> 10" using False of_nat_byte_10 [of ?c] c by (auto split: if_splits)
        ultimately show ?thesis
          unfolding sw using False d nl t(1) by (simp add: keeps_def input_def inp_ok_def ct)
      qed
    qed
    then show ?thesis using ins c room by (simp add: console_char_def Let_def put_char_def)
  qed
qed

lemma console_chars_ok:
  assumes "inp_ok s" "on_screen s" "LPtable \<notin> held s" "\<forall>c \<in> set cs. c < 256 \<and> c \<noteq> 16"
  shows "okP (console_chars cs (dump, s)) (\<lambda>(dump', t). dump' = dump \<and> keeps s t \<and> input t = fold edit cs (input s))"
  using assms
proof (induction cs arbitrary: s)
  case (Cons c cs)
  have c: "c < 256" "c \<noteq> 16" using Cons.prems(4) by simp_all
  have "okP (console_char c (dump, s)) (\<lambda>ds. okP (console_chars cs ds)
      (\<lambda>(dump', t). dump' = dump \<and> keeps s t \<and> input t = fold edit cs (edit c (input s))))"
  proof (rule okP_mono [OF console_char_ok [OF Cons.prems(1,2,3) c, of dump]], unfold split_paired_all case_prod_conv, elim conjE)
    fix d t assume t: "d = dump" "keeps s t" "input t = edit c (input s)"
    show "okP (console_chars cs (d, t)) (\<lambda>(dump', u). dump' = dump \<and> keeps s u \<and> input u = fold edit cs (edit c (input s)))"
      unfolding t(1)
      by (rule okP_mono [OF Cons.IH]) (use t Cons.prems in \<open>auto simp: keeps_def\<close>)
  qed
  then show ?case by simp
qed (simp add: keeps_def)

lemma consoleintr_ok:
  assumes "inp_ok s" "on_screen s" "held s = {}" "\<forall>c \<in> set cs. c < 256 \<and> c \<noteq> 16"
  shows "okP (consoleintr cs s) (\<lambda>t. inp_ok t \<and> on_screen t \<and> held t = {} \<and> input t = fold edit cs (input s))"
proof -
  let ?s = "s\<lparr>held := {LCons}\<rparr>"
  have h: "inp_ok (s\<lparr>held := h\<rparr>) = inp_ok s" "input (s\<lparr>held := h\<rparr>) = input s" "on_screen (s\<lparr>held := h\<rparr>) = on_screen s"
    for h and s :: "'a consk_scheme"
    by (simp_all add: inp_ok_def inp_idx_def input_def done_input_def edit_line_def on_screen_def)
  have "okP (console_chars cs (False, ?s)) (\<lambda>(d, t). okP (bindr (release LCons t) (\<lambda>s. if d then procdump s else Ok s))
      (\<lambda>t. inp_ok t \<and> on_screen t \<and> held t = {} \<and> input t = fold edit cs (input s)))"
    by (rule okP_mono [OF console_chars_ok]) (use assms h in \<open>auto simp: keeps_def\<close>)
  moreover have "consoleintr cs s = bindr (console_chars cs (False, ?s)) (\<lambda>(d, t).
      bindr (release LCons t) (\<lambda>s. if d then procdump s else Ok s))"
    using assms(3) by (simp add: consoleintr_def)
  ultimately show ?thesis by (simp only: okP_bindr split_def)
qed

text \<open>
  C16: \<open>consoleintr\<close> implements the line editor: the bytes waiting to be read and the line being edited
  change by \<open>edit\<close> for each key, on an input ring that may wrap around; the invariant of the ring is
  kept. (The key for the process listing is left out: it changes no input.)
\<close>

theorem consoleintr_edits:
  assumes "inp_ok s" "on_screen s" "held s = {}" "\<forall>c \<in> set cs. c < 256 \<and> c \<noteq> 16"
  shows "okP (consoleintr cs s) (\<lambda>t. inp_ok t \<and> on_screen t \<and> held t = {} \<and> input t = fold edit cs (input s))"
  by (rule consoleintr_ok [OF assms])

lemma demo_input: "inp_ok (demo d)" "on_screen (demo d)" "input (demo d) = ([], [])"
  by (simp_all add: inp_ok_def inp_idx_def input_def done_input_def edit_line_def on_screen_def)

lemma consoleintr_edits_witness:
  "okP (consoleintr [97, 98, 8, 99, 13, 100] (demo blank)) (\<lambda>t. input t = ([97, 99, 10], [100]))"
  by (rule okP_mono [OF consoleintr_edits])
    (simp_all add: demo_input, simp add: edit_def INPUT_BUF_def)

section \<open>Reading a line\<close>

lemma consread_loop_line:
  assumes "inp_idx s" and "done_input s = l @ 10 # rest" "10 \<notin> set l" "4 \<notin> set l" "length l < n"
  shows "okP (consread_loop n acc s) (\<lambda>(r, t). r = Some (acc @ l @ [10]) \<and> done_input t = rest \<and> inp_idx t
     \<and> edit_line t = edit_line s \<and> held t = held s)"
  using assms
proof (induction n arbitrary: l acc s)
  case (Suc n)
  note i = inp_okD(1-3) [OF Suc.prems(1)]
  have ne: "inp_w s \<noteq> inp_r s" using Suc.prems(2) i by (auto simp: done_input_def)
  let ?t = "s\<lparr>inp_r := wrap32 (inp_r s + 1)\<rparr>"
  have pop: "done_input s = inp_buf s (inp_r s mod INPUT_BUF) # done_input ?t"
    using ring_pop [OF INPUT_BUF_props(1) i(1,2) ne] by (simp add: done_input_def)
  have e: "edit_line ?t = edit_line s" by (simp add: edit_line_def)
  have ner: "inp_e s \<noteq> inp_r s"
    using inp_okD(4,6) [OF Suc.prems(1)] pop i(1) by auto
  have "sub32 (inp_w s) (inp_r s) - 1 \<le> sub32 (inp_e s) (inp_r s) - 1" "sub32 (inp_e s) (inp_r s) - 1 \<le> INPUT_BUF"
    using Suc.prems(1) unfolding inp_idx_def by linarith+
  then have idx: "inp_idx ?t"
    using i sub32_pred(1) [OF i(1,2) ne] sub32_pred(1) [OF i(1,3) ner] by (simp add: inp_idx_def)
  show ?case
  proof (cases l)
    case Nil
    then show ?thesis using Suc.prems(2) pop ne e idx by (simp add: unat_byte_10)
  next
    case (Cons b bs)
    have b: "inp_buf s (inp_r s mod INPUT_BUF) = b" "done_input ?t = bs @ 10 # rest"
      using Suc.prems(2) pop Cons by simp_all
    have "okP (consread_loop n (acc @ [b]) ?t) (\<lambda>(r, u). r = Some ((acc @ [b]) @ bs @ [10]) \<and> done_input u = rest \<and> inp_idx u
       \<and> edit_line u = edit_line ?t \<and> held u = held ?t)"
      by (rule Suc.IH [OF idx b(2)]) (use Suc.prems(3-5) Cons in simp_all)
    then show ?thesis using Suc.prems(3,4) Cons b(1) ne e by (simp add: unat_byte_10 eq_commute [of "inp_r s"])
  qed
qed simp

lemma fold_edit_plain:
  assumes "\<forall>c \<in> set cs. 32 \<le> c \<and> c < 127" "length l + length cs < INPUT_BUF"
  shows "fold edit cs ([], l) = ([], l @ map of_nat cs)"
  using assms
proof (induction cs arbitrary: l)
  case (Cons c cs)
  then show ?case by (auto simp: edit_def Let_def)
qed simp

text \<open>
  A line that has been typed is read as it was typed: after the keys of a line without editing keys,
  ending in Enter, the read loop of \<open>consoleread\<close> with room for it returns exactly these bytes and a
  newline, and no input is left.
\<close>

theorem typed_line_is_read:
  assumes "inp_ok s" "on_screen s" "held s = {}" "input s = ([], [])"
    and "\<forall>c \<in> set cs. 32 \<le> c \<and> c < 127" "length cs + 1 < INPUT_BUF" "length cs < n"
  shows "okP (consoleintr (cs @ [13]) s) (\<lambda>t. okP (consread_loop n [] t) (\<lambda>(r, u).
     r = Some (map of_nat cs @ [10]) \<and> input u = ([], [])))"
proof (rule okP_mono [OF consoleintr_ok [OF assms(1-3)]])
  show "\<forall>c \<in> set (cs @ [13]). c < 256 \<and> c \<noteq> 16" using assms(5) by fastforce
next
  fix t assume t: "inp_ok t \<and> on_screen t \<and> held t = {} \<and> input t = fold edit (cs @ [13]) (input s)"
  have "fold edit (cs @ [13]) (input s) = (map of_nat cs @ [10], [])"
    using fold_edit_plain [OF assms(5), of "[]"] assms(4,6) by (simp add: edit_def)
  with t have d: "done_input t = map of_nat cs @ 10 # []" "edit_line t = []" by (simp_all add: input_def)
  have nin: "b \<notin> set (map of_nat cs)" if "b = 10 \<or> b = 4" for b :: byte
    using assms(5) that by (auto simp: word_unat_eq_iff)
  show "okP (consread_loop n [] t) (\<lambda>(r, u). r = Some (map of_nat cs @ [10]) \<and> input u = ([], []))"
    by (rule okP_mono [OF consread_loop_line [OF _ d(1)]])
      (use t nin assms(7) d(2) in \<open>auto simp: inp_ok_def input_def\<close>)
qed

lemma typed_line_is_read_witness:
  "okP (consoleintr ([104, 105] @ [13]) (demo blank)) (\<lambda>t. okP (consread_loop 100 [] t) (\<lambda>(r, u).
     r = Some [104, 105, 10]))"
  by (rule okP_mono [OF typed_line_is_read [where n = 100]])
    (auto simp: demo_input INPUT_BUF_def elim!: okP_mono)

end
