(* ===== verification/InodeSpec.thy ===== *)
theory InodeSpec
  imports Demo
begin

text \<open>
  What the block allocator and the inode layer do inside a transaction, on the view of the block
  contents that the log offers (\<open>blk\<close>): allocation takes the first free block of the bitmap and zeroes
  it, freeing clears its bit, an inode written back reads back, a block map lookup and the reads and
  writes of file content refine an array of bytes.
\<close>

section \<open>Frames\<close>

lemma fs_more: "logk.more s' = logk.more s \<Longrightarrow> sb s' = sb s \<and> inodes s' = inodes s \<and> fsk.more s' = fsk.more s"
  by (cases s; cases s') simp

lemma tsame_fs:
  assumes "tsame s s'"
  shows "sb s' = sb s" "inodes s' = inodes s" "fsk.more s' = fsk.more s" "home (lg s') = home (lg s)"
  using assms fs_more [of s' s] by (simp_all add: tsame_def lsame_def)

text \<open>Changes above the log do not matter below.\<close>

lemma txn_cong:
  assumes e: "bufs s' = bufs s" "lru s' = lru s" "disk s' = disk s" "wtrace s' = wtrace s" "held s' = held s"
    "idequeue s' = idequeue s" "ide_status s' = ide_status s" "havedisk1 s' = havedisk1 s" "lg s' = lg s"
  shows "txn k j s' = txn k j s" "holds s' = holds s" "bc s' = bc s" "blk s' = blk s"
proof -
  show b: "blk s' = blk s" by (rule blk_same_bufs) (simp_all add: e)
  have c: "caches s' = caches s" "blocked s' = blocked s"
    by (rule caches_cong blocked_cong; simp add: e)+
  show bc: "bc s' = bc s" by (simp add: bc_def b c e)
  have "cache_inv s' = cache_inv s" by (rule cache_inv_cong) (simp_all add: e)
  then have o: "bio_ok s' = bio_ok s" by (simp add: bio_ok_def io_ready_def e)
  show "txn k j s' = txn k j s" by (simp add: txn_def o log_inv_def bc e)
  have "buf_for s' = buf_for s" by (intro ext) (simp add: buf_for_def c e)
  then show "holds s' = holds s" by (intro ext) (simp add: holds_def b bc e)
qed

lemma txn_sb [simp]: "txn k j (s\<lparr>sb := q\<rparr>) = txn k j s" "holds (s\<lparr>sb := q\<rparr>) = holds s"
  "bc (s\<lparr>sb := q\<rparr>) = bc s" "blk (s\<lparr>sb := q\<rparr>) = blk s"
  by (rule txn_cong; simp)+

lemma upd_inode_sel [simp]:
  "bufs (upd_inode i f s) = bufs s" "lru (upd_inode i f s) = lru s" "disk (upd_inode i f s) = disk s"
  "wtrace (upd_inode i f s) = wtrace s" "held (upd_inode i f s) = held s" "idequeue (upd_inode i f s) = idequeue s"
  "ide_status (upd_inode i f s) = ide_status s" "havedisk1 (upd_inode i f s) = havedisk1 s"
  "lg (upd_inode i f s) = lg s" "sb (upd_inode i f s) = sb s" "fsk.more (upd_inode i f s) = fsk.more s"
  "inodes (upd_inode i f s) = (inodes s)(i := f (inodes s i))" "ptable (upd_inode i f s) = ptable s"
  "cur (upd_inode i f s) = cur s"
  by (simp_all add: upd_inode_def)

lemma txn_upd_inode [simp]: "txn k j (upd_inode i f s) = txn k j s" "holds (upd_inode i f s) = holds s"
  "bc (upd_inode i f s) = bc s" "blk (upd_inode i f s) = blk s"
  by (rule txn_cong; simp)+

section \<open>The bitmap\<close>

lemma bit_used_iff: "bit_used m i \<longleftrightarrow> bit (m (i div 8)) (i mod 8)"
  by (simp add: bit_used_def bit_iff_and_push_bit_not_eq_0)

lemma div_mod_8_eq: "(i :: nat) div 8 = j div 8 \<Longrightarrow> i mod 8 = j mod 8 \<Longrightarrow> i = j"
  by (metis div_mult_mod_eq)

lemma bit_set_used: "bit_used (set_used i m) j \<longleftrightarrow> j = i \<or> bit_used m j"
proof -
  have "i mod 8 < 8" by simp
  then show ?thesis
    by (auto simp: bit_used_iff set_used_def bit_simps dest: div_mod_8_eq)
qed

lemma bit_clear_used: "bit_used (clear_used i m) j \<longleftrightarrow> j \<noteq> i \<and> bit_used m j"
  by (auto simp: bit_used_iff clear_used_def bit_simps dest: div_mod_8_eq)

text \<open>Block \<open>b\<close> is marked in use.\<close>

definition used :: "'a fsk_scheme \<Rightarrow> nat \<Rightarrow> bool" where
  "used s b \<longleftrightarrow> bit_used (blk s (BBLOCK b (sb s))) (b mod BPB)"

text \<open>
  The bitmap blocks can be read, and a free block is a data block: neither part of the bitmap nor of
  the log, and nobody holds it.
\<close>

definition bitmap_ok :: "'a fsk_scheme \<Rightarrow> bool" where
  "bitmap_ok s \<longleftrightarrow> (\<forall>b < sb_size (sb s).
     BBLOCK b (sb s) \<in> home (lg s) \<and> BBLOCK b (sb s) \<notin> clocked (bc s)
     \<and> (\<not> used s b \<longrightarrow> b \<in> home (lg s) \<and> b \<notin> clocked (bc s) \<and> (\<forall>c < sb_size (sb s). b \<noteq> BBLOCK c (sb s))))"

lemma bzero_ok:
  assumes "txn (Suc k) (Suc j) s" "n \<in> home (lg s)" "n \<notin> clocked (bc s)"
  shows "okP (bzero ROOTDEV n s) (\<lambda>s'. txn k (Suc j) s' \<and> clocked (bc s') = clocked (bc s)
     \<and> blk s' = (blk s)(n := fill 0 (blk s n) 0 BSIZE) \<and> tsame s s'
     \<and> (\<forall>m c. holds s m c \<longrightarrow> m \<noteq> n \<longrightarrow> holds s' m c))"
  using ktxn.modify [OF assms, where f = "\<lambda>m. fill 0 m 0 BSIZE"]
  by (simp add: bzero_def split_def conj_ac)

section \<open>Allocation\<close>

lemma used_tsame:
  assumes "tsame s t" "blk t = blk s"
  shows "used t = used s"
  using tsame_fs [OF assms(1)] assms(2) by (intro ext) (simp add: used_def)

lemma bitmap_tsame:
  assumes "tsame s t" "blk t = blk s" "clocked (bc t) = clocked (bc s)" "bitmap_ok s"
  shows "bitmap_ok t"
  using assms tsame_fs [OF assms(1)] used_tsame [OF assms(1,2)] by (simp add: bitmap_ok_def)

lemma bmap_block: "b mod BPB = 0 \<Longrightarrow> i < BPB \<Longrightarrow> BBLOCK (b + i) q = BBLOCK b q \<and> (b + i) mod BPB = i"
  by (auto simp: BBLOCK_def BPB_def)

text \<open>The state after taking block \<open>n\<close>.\<close>

definition taken :: "nat \<Rightarrow> superblock \<Rightarrow> (nat \<Rightarrow> mem) \<Rightarrow> nat \<Rightarrow> mem" where
  "taken n q v = v(BBLOCK n q := set_used (n mod BPB) (v (BBLOCK n q)), n := fill 0 (v n) 0 BSIZE)"

definition alloc_post :: "nat \<Rightarrow> nat \<Rightarrow> nat \<Rightarrow> 'a fsk_scheme \<Rightarrow> nat \<times> 'a fsk_scheme \<Rightarrow> bool" where
  "alloc_post n k j s = (\<lambda>(r, t). r = n \<and> txn k (Suc j) t \<and> clocked (bc t) = clocked (bc s)
     \<and> blk t = taken n (sb s) (blk s) \<and> tsame s t
     \<and> (\<forall>m c. holds s m c \<longrightarrow> m \<noteq> n \<longrightarrow> m \<noteq> BBLOCK n (sb s) \<longrightarrow> holds t m c))"

lemma alloc_post_tsame:
  assumes "alloc_post n k j s p" and s: "tsame s0 s" "blk s = blk s0" "clocked (bc s) = clocked (bc s0)"
    and f: "\<forall>m c. holds s0 m c \<longrightarrow> m \<noteq> b \<longrightarrow> holds s m c" and b: "b \<noteq> n \<longrightarrow> b \<noteq> BBLOCK n (sb s0) \<longrightarrow> (\<forall>c. \<not> holds s0 b c)"
  shows "alloc_post n k j s0 p"
  using assms tsame_fs [OF s(1)] tsame_trans [OF s(1)] by (auto simp: alloc_post_def) metis

lemma holds_locked: "txn k j s \<Longrightarrow> holds s n b \<Longrightarrow> n \<in> clocked (bc s)"
  using held_in [of s n b] by (auto simp: txn_def bio_ok_def holds_def)

lemma balloc_from_ok:
  assumes "txn (Suc (Suc k)) (Suc j) s" "bitmap_ok s" "b mod BPB = 0" "b \<le> n" "n < sb_size (sb s)"
    and "\<not> used s n" "\<forall>m < n. used s m" "sb_size (sb s) \<le> b + fuel * BPB"
  shows "okP (balloc_from fuel b ROOTDEV s) (alloc_post n k j s)"
  using assms
proof (induction fuel arbitrary: b s)
  case 0
  then show ?case by simp
next
  case (Suc fuel)
  let ?B = "BBLOCK b (sb s)"
  have bs: "b < sb_size (sb s)" using Suc.prems(4,5) by simp
  then have B: "?B \<in> home (lg s)" "?B \<notin> clocked (bc s)" using Suc.prems(2) by (simp_all add: bitmap_ok_def)
  have n: "n \<in> home (lg s)" "n \<notin> clocked (bc s)" "n \<noteq> ?B"
    using Suc.prems(2,5,6) bs by (simp_all add: bitmap_ok_def)
  let ?test = "\<lambda>i. \<not> bit_used (blk s ?B) i"
  have us: "used s (b + i) \<longleftrightarrow> \<not> ?test i" if "i < BPB" for i
    using bmap_block [OF Suc.prems(3) that] by (simp add: used_def)
  have nh: "\<not> holds s ?B c" for c using holds_locked [OF Suc.prems(1)] B(2) by blast
  let ?i = "n - b"
  have F: "first_idx (min BPB (sb_size (sb s) - b)) ?test = (if ?i < BPB then Some ?i else None)"
  proof (cases "?i < BPB")
    case True
    have "\<not> ?test l" if "l < ?i" for l using us [of l] Suc.prems(7) that True by simp
    then show ?thesis using True us [of ?i] Suc.prems(4-6) by (simp add: first_idx_Some)
  next
    case False
    have "\<not> ?test l" if "l < BPB" for l using us [OF that] Suc.prems(7) that False by simp
    then show ?thesis using False by (simp add: first_idx_None)
  qed
  note ins = ktxn.inspect [OF Suc.prems(1) B]
  have "okP (bread ROOTDEV ?B s) (\<lambda>(bp, s).
           okP (case first_idx (min BPB (sb_size (sb s) - b)) (\<lambda>bi. \<not> bit_used (b_data (bufs s bp)) bi) of
             Some bi \<Rightarrow>
               bindr (log_write bp (set_data bp (set_used bi (b_data (bufs s bp))) s)) (\<lambda>s.
               bindr (brelse bp s) (\<lambda>s.
               bindr (bzero ROOTDEV (b + bi) s) (\<lambda>s. Ok (b + bi, s))))
           | None \<Rightarrow> bindr (brelse bp s) (\<lambda>s. balloc_from fuel (b + BPB) ROOTDEV s)) (alloc_post n k j s'))"
    if s': "s' = s" for s'
    unfolding s'
  proof (rule okP_mono [OF ins], unfold split_paired_all case_prod_conv, elim conjE)
    fix bp t
    assume g: "b_data (bufs t bp) = blk s ?B" "tsame s t"
      and rel: "okP (brelse bp t) (\<lambda>s'. txn (Suc (Suc k)) (Suc j) s' \<and> clocked (bc s') = clocked (bc s) \<and> blk s' = blk s
          \<and> tsame s s' \<and> (\<forall>m c. holds s m c \<longrightarrow> m \<noteq> ?B \<longrightarrow> holds s' m c))"
      and wr: "\<forall>d. okP (log_write bp (set_data bp d t)) (\<lambda>u. okP (brelse bp u) (\<lambda>s'. txn (Suc k) (Suc j) s'
          \<and> clocked (bc s') = clocked (bc s) \<and> blk s' = (blk s)(?B := d) \<and> tsame s s'
          \<and> (\<forall>m c. holds s m c \<longrightarrow> m \<noteq> ?B \<longrightarrow> holds s' m c)))"
    have q: "sb t = sb s" using tsame_fs [OF g(2)] by simp
    show "okP (case first_idx (min BPB (sb_size (sb t) - b)) (\<lambda>bi. \<not> bit_used (b_data (bufs t bp)) bi) of
             Some bi \<Rightarrow>
               bindr (log_write bp (set_data bp (set_used bi (b_data (bufs t bp))) t)) (\<lambda>s.
               bindr (brelse bp s) (\<lambda>s.
               bindr (bzero ROOTDEV (b + bi) s) (\<lambda>s. Ok (b + bi, s))))
           | None \<Rightarrow> bindr (brelse bp t) (\<lambda>s. balloc_from fuel (b + BPB) ROOTDEV s)) (alloc_post n k j s)"
    proof (cases "?i < BPB")
      case True
      have bn: "b + ?i = n" using Suc.prems(4) by simp
      have Bn: "BBLOCK n (sb s) = ?B" "n mod BPB = ?i" using bmap_block [OF Suc.prems(3) True] bn by simp_all
      have "okP (log_write bp (set_data bp (set_used ?i (blk s ?B)) t)) (\<lambda>u. okP (brelse bp u)
          (\<lambda>u. okP (bzero ROOTDEV n u) (\<lambda>u. alloc_post n k j s (n, u))))"
      proof (rule okP_mono [OF wr [rule_format]], rule okP_mono, assumption, elim conjE)
        fix u assume u: "txn (Suc k) (Suc j) u" "clocked (bc u) = clocked (bc s)"
            "blk u = (blk s)(?B := set_used ?i (blk s ?B))" "tsame s u"
          and ho: "\<forall>m c. holds s m c \<longrightarrow> m \<noteq> ?B \<longrightarrow> holds u m c"
        show "okP (bzero ROOTDEV n u) (\<lambda>u. alloc_post n k j s (n, u))"
          by (rule okP_mono [OF bzero_ok [OF u(1)]])
            (use n u ho Bn tsame_fs [OF u(4)] tsame_trans [OF u(4)] in \<open>auto simp: alloc_post_def taken_def fun_upd_twist\<close>)
      qed
      then show ?thesis using True bn by (simp add: g q F)
    next
      case False
      have "okP (brelse bp t) (\<lambda>u. okP (balloc_from fuel (b + BPB) ROOTDEV u) (alloc_post n k j s))"
      proof (rule okP_mono [OF rel], elim conjE)
        fix u assume u: "txn (Suc (Suc k)) (Suc j) u" "clocked (bc u) = clocked (bc s)" "blk u = blk s" "tsame s u"
          and ho: "\<forall>m c. holds s m c \<longrightarrow> m \<noteq> ?B \<longrightarrow> holds u m c"
        have "okP (balloc_from fuel (b + BPB) ROOTDEV u) (alloc_post n k j u)"
          by (rule Suc.IH)
            (use u Suc.prems False bitmap_tsame [OF u(4,3,2)] used_tsame [OF u(4,3)] tsame_fs [OF u(4)]
              in \<open>auto simp: algebra_simps\<close>)
        then show "okP (balloc_from fuel (b + BPB) ROOTDEV u) (alloc_post n k j s)"
          by (rule okP_mono) (use alloc_post_tsame [OF _ u(4,3,2) ho] nh in blast)
      qed
      then show ?thesis using False by (simp add: g q F)
    qed
  qed
  then show ?case using bs by (simp add: split_def)
qed

lemma bitmap_slot: "BBLOCK m q = BBLOCK n q \<Longrightarrow> m mod BPB = n mod BPB \<Longrightarrow> m = n"
  unfolding BBLOCK_def by (metis add_right_cancel div_mult_mod_eq)

lemma used_taken:
  assumes b: "bitmap_ok s" "n < sb_size (sb s)" "\<not> used s n" and m: "m < sb_size (sb s)"
    and t: "blk t = taken n (sb s) (blk s)" "sb t = sb s"
  shows "used t m \<longleftrightarrow> m = n \<or> used s m"
proof -
  have "BBLOCK m (sb s) \<noteq> n" using b m by (auto simp: bitmap_ok_def)
  then show ?thesis
    using bitmap_slot [of m "sb s" n] by (auto simp: used_def t taken_def bit_set_used)
qed

lemma balloc_ok:
  assumes "txn (Suc (Suc k)) (Suc j) s" "bitmap_ok s" "n < sb_size (sb s)" "\<not> used s n" "\<forall>m < n. used s m"
  shows "okP (balloc ROOTDEV s) (alloc_post n k j s)"
proof -
  have "sb_size (sb s) < (sb_size (sb s) div BPB + 1) * BPB"
    using dividend_less_div_times [of BPB "sb_size (sb s)"] by (simp add: BPB_def algebra_simps)
  then show ?thesis
    unfolding balloc_def using assms by (intro balloc_from_ok) simp_all
qed

text \<open>
  Inside a transaction \<open>balloc\<close> returns the first block the bitmap does not mark in use, marks this
  block and no other, fills it with zeroes and changes nothing else but the bitmap block.
\<close>

theorem balloc_first_free:
  assumes "txn (Suc (Suc k)) (Suc j) s" "bitmap_ok s" "n < sb_size (sb s)" "\<not> used s n" "\<forall>m < n. used s m"
  shows "okP (balloc ROOTDEV s) (\<lambda>(r, t). r = n \<and> txn k (Suc j) t \<and> bitmap_ok t
     \<and> (\<forall>m < sb_size (sb s). used t m \<longleftrightarrow> m = n \<or> used s m) \<and> (\<forall>i < BSIZE. blk t n i = 0)
     \<and> (\<forall>m. m \<noteq> n \<longrightarrow> m \<noteq> BBLOCK n (sb s) \<longrightarrow> blk t m = blk s m))"
proof (rule okP_mono [OF balloc_ok [OF assms]], unfold alloc_post_def split_paired_all case_prod_conv, elim conjE)
  fix r t assume t: "r = n" "txn k (Suc j) t" "clocked (bc t) = clocked (bc s)"
    "blk t = taken n (sb s) (blk s)" "tsame s t"
  note q = tsame_fs [OF t(5)]
  have u: "\<forall>m < sb_size (sb s). used t m \<longleftrightarrow> m = n \<or> used s m"
    using used_taken [OF assms(2-4) _ t(4) q(1)] by simp
  moreover have "bitmap_ok t" using assms(2) u by (simp add: bitmap_ok_def q t(3))
  ultimately show "r = n \<and> txn k (Suc j) t \<and> bitmap_ok t
     \<and> (\<forall>m < sb_size (sb s). used t m \<longleftrightarrow> m = n \<or> used s m) \<and> (\<forall>i < BSIZE. blk t n i = 0)
     \<and> (\<forall>m. m \<noteq> n \<longrightarrow> m \<noteq> BBLOCK n (sb s) \<longrightarrow> blk t m = blk s m)"
    using t by (simp add: taken_def)
qed

text \<open>A disk on which the blocks up to the bitmap, block 58, are in use.\<close>

definition fs_disk :: "nat \<Rightarrow> dsk" where
  "fs_disk = (\<lambda>dev n. if n = 58 then (\<lambda>i. if i < 7 then - 1 else if i = 7 then 7 else 0)
     else if n = 1 then wr32 (wr32 (wr32 (wr32 (wr32 (wr32 (wr32 (\<lambda>_. 0) 0 1000) 4 941) 8 200) 12 30) 16 2) 20 32) 24 58
     else (\<lambda>_. 0))"

lemma fs_disk_head: "head_n (fs_disk ROOTDEV 2) = 0"
  by (simp add: fs_disk_def head_n_def s32_def rd32_def)

lemma fs_disk_sb: "sb_of (fs_disk ROOTDEV 1) = demo_sb"
  by (simp add: fs_disk_def sb_of_def demo_sb_def)

lemma fs_disk_used: "m < 1000 \<Longrightarrow> used (demo fs_disk) m \<longleftrightarrow> m < 59"
proof -
  assume m: "m < 1000"
  have "bit (7 :: byte) (m mod 8) \<longleftrightarrow> m mod 8 < 3"
    using bit_mask_iff [of 3 "m mod 8", where ?'a = "8 word"] by (simp add: mask_eq_decr_exp)
  moreover have "m div 8 < 7 \<longleftrightarrow> m < 56" "m div 8 = 7 \<longleftrightarrow> 56 \<le> m \<and> m < 64" "m mod 8 < 8" by auto
  moreover have "m div 8 = 7 \<Longrightarrow> m mod 8 = m - 56" using div_mult_mod_eq [of m 8] by simp
  ultimately show ?thesis
    using m by (auto simp: used_def demo_bio fs_disk_def demo_sb_def BBLOCK_def BPB_def bit_used_iff)
qed

lemma fs_disk_bitmap: "bitmap_ok (demo fs_disk)"
  using fs_disk_used by (auto simp: bitmap_ok_def demo_bio demo_home demo_sb_def BBLOCK_def BPB_def)

lemma balloc_first_free_witness:
  "okP (balloc ROOTDEV (demo fs_disk)) (\<lambda>(r, t). r = 59 \<and> used t 59 \<and> \<not> used t 60)"
proof -
  have "txn (Suc (Suc 5)) (Suc 5) (demo fs_disk)" by (rule demo_txn [where d = fs_disk, OF fs_disk_head]) simp_all
  note w = balloc_first_free [OF this fs_disk_bitmap, of 59]
  show ?thesis
    by (rule okP_mono [OF w]) (auto simp: fs_disk_used demo_sb_def)
qed

text \<open>The superblock on the disk is the one in memory, and block 1 is not handed out.\<close>

definition super_ok :: "'a fsk_scheme \<Rightarrow> bool" where
  "super_ok s \<longleftrightarrow> sb_of (blk s 1) = sb s \<and> 1 \<in> home (lg s) \<and> 1 \<notin> clocked (bc s) \<and> 1 < sb_size (sb s) \<and> used s 1
     \<and> (\<forall>b < sb_size (sb s). BBLOCK b (sb s) \<noteq> 1)"

text \<open>The state after freeing block \<open>n\<close>.\<close>

definition freed :: "nat \<Rightarrow> superblock \<Rightarrow> (nat \<Rightarrow> mem) \<Rightarrow> nat \<Rightarrow> mem" where
  "freed n q v = v(BBLOCK n q := clear_used (n mod BPB) (v (BBLOCK n q)))"

lemma bfree_cases:
  assumes "txn (Suc k) (Suc j) s" "bitmap_ok s" "super_ok s" "n < sb_size (sb s)"
  shows "used s n \<Longrightarrow> okP (bfree ROOTDEV n s) (\<lambda>t. txn k (Suc j) t \<and> clocked (bc t) = clocked (bc s)
     \<and> blk t = freed n (sb s) (blk s) \<and> tsame s t
     \<and> (\<forall>m c. holds s m c \<longrightarrow> m \<noteq> 1 \<longrightarrow> m \<noteq> BBLOCK n (sb s) \<longrightarrow> holds t m c))"
    and "\<not> used s n \<Longrightarrow> bfree ROOTDEV n s = Panic ''freeing free block''"
proof -
  let ?B = "BBLOCK n (sb s)"
  have one: "1 \<in> home (lg s)" "1 \<notin> clocked (bc s)" "sb_of (blk s 1) = sb s" using assms(3) by (simp_all add: super_ok_def)
  have B: "?B \<in> home (lg s)" "?B \<notin> clocked (bc s)" using assms(2,4) by (simp_all add: bitmap_ok_def)
  let ?good = "\<lambda>t. okP (bread ROOTDEV ?B t) (\<lambda>(bp, u). b_data (bufs u bp) = blk s ?B \<and> tsame s u
      \<and> (\<forall>d. okP (log_write bp (set_data bp d u)) (\<lambda>u. okP (brelse bp u) (\<lambda>t. txn k (Suc j) t
          \<and> clocked (bc t) = clocked (bc s) \<and> blk t = (blk s)(?B := d) \<and> tsame s t
          \<and> (\<forall>m c. holds s m c \<longrightarrow> m \<noteq> 1 \<longrightarrow> m \<noteq> ?B \<longrightarrow> holds t m c)))))"
  have "okP (readsb ROOTDEV s) (\<lambda>(q, t). q = sb s \<and> t\<lparr>sb := q\<rparr> = t \<and> ?good t)"
    unfolding readsb_def okP_bindr split_def
  proof (rule okP_mono [OF ktxn.look [OF assms(1) one(1,2)]], goal_cases)
    case (1 x)
    then have g: "b_data (bufs (snd x) (fst x)) = blk s 1"
      and rel: "okP (brelse (fst x) (snd x)) (\<lambda>s'. txn (Suc k) (Suc j) s' \<and> clocked (bc s') = clocked (bc s) \<and> blk s' = blk s
          \<and> tsame s s' \<and> (\<forall>m c. holds s m c \<longrightarrow> m \<noteq> 1 \<longrightarrow> holds s' m c))"
      by (simp_all add: split_def)
    have "okP (brelse (fst x) (snd x)) (\<lambda>t. t\<lparr>sb := sb s\<rparr> = t \<and> ?good t)"
    proof (rule okP_mono [OF rel], elim conjE)
      fix t assume t: "txn (Suc k) (Suc j) t" "clocked (bc t) = clocked (bc s)" "blk t = blk s" "tsame s t"
        and ho: "\<forall>m c. holds s m c \<longrightarrow> m \<noteq> 1 \<longrightarrow> holds t m c"
      note q = tsame_fs [OF t(4)]
      have "?good t"
      proof (rule okP_mono [OF ktxn.inspect [OF t(1)]], goal_cases)
        case (3 y)
        then have y: "b_data (bufs (snd y) (fst y)) = blk s ?B" "tsame t (snd y)"
          and wr: "\<And>d. okP (log_write (fst y) (set_data (fst y) d (snd y))) (\<lambda>u. okP (brelse (fst y) u)
            (\<lambda>s'. txn k (Suc j) s' \<and> clocked (bc s') = clocked (bc t) \<and> blk s' = (blk t)(?B := d) \<and> tsame t s'
               \<and> (\<forall>m c. holds t m c \<longrightarrow> m \<noteq> ?B \<longrightarrow> holds s' m c)))"
          using t(3) by (simp_all add: split_def)
        show ?case unfolding split_def
          by (intro conjI allI y(1) tsame_trans [OF t(4) y(2)], rule okP_mono [OF wr], rule okP_mono, assumption)
            (use t ho tsame_trans [OF t(4)] in auto)
      qed (use B q t in simp_all)
      moreover have "t\<lparr>sb := sb s\<rparr> = t" using q by (metis fsk.surjective fsk.update_convs(1))
      ultimately show "t\<lparr>sb := sb s\<rparr> = t \<and> ?good t" by simp
    qed
    then show ?case using g one(3) by (simp add: split_def)
  qed
  then obtain t where t: "readsb ROOTDEV s = Ok (sb s, t)" "t\<lparr>sb := sb s\<rparr> = t" "?good t"
    by (auto simp: okP_iff)
  then obtain bp u where u: "bread ROOTDEV ?B t = Ok (bp, u)" "b_data (bufs u bp) = blk s ?B"
    and w: "\<And>d. okP (log_write bp (set_data bp d u)) (\<lambda>u. okP (brelse bp u) (\<lambda>t. txn k (Suc j) t
          \<and> clocked (bc t) = clocked (bc s) \<and> blk t = (blk s)(?B := d) \<and> tsame s t
          \<and> (\<forall>m c. holds s m c \<longrightarrow> m \<noteq> 1 \<longrightarrow> m \<noteq> ?B \<longrightarrow> holds t m c)))"
    by (auto simp: okP_iff)
  have sbt: "sb t = sb s" using t(2) by (metis fsk.select_convs(1) fsk.surjective fsk.update_convs(1))
  then have e: "bfree ROOTDEV n s = (if \<not> used s n then Panic ''freeing free block''
     else bindr (log_write bp (set_data bp (clear_used (n mod BPB) (blk s ?B)) u)) (brelse bp))"
    by (simp only: bfree_def t(1,2) u bindr.simps prod.case Let_def sbt used_def)
  then show "\<not> used s n \<Longrightarrow> bfree ROOTDEV n s = Panic ''freeing free block''" by simp
  show "used s n \<Longrightarrow> okP (bfree ROOTDEV n s) (\<lambda>t. txn k (Suc j) t \<and> clocked (bc t) = clocked (bc s)
     \<and> blk t = freed n (sb s) (blk s) \<and> tsame s t
     \<and> (\<forall>m c. holds s m c \<longrightarrow> m \<noteq> 1 \<longrightarrow> m \<noteq> ?B \<longrightarrow> holds t m c))"
    using e w by (simp add: freed_def)
qed

lemma used_freed:
  assumes "bitmap_ok s" "n < sb_size (sb s)" "m < sb_size (sb s)" "blk t = freed n (sb s) (blk s)" "sb t = sb s"
  shows "used t m \<longleftrightarrow> m \<noteq> n \<and> used s m"
  using bitmap_slot [of m "sb s" n] by (auto simp: used_def assms(4,5) freed_def bit_clear_used)

text \<open>
  Freeing the block that \<open>balloc\<close> has just returned restores the bitmap: exactly the blocks that
  were in use before are in use. Freeing it once more panics.
\<close>

theorem balloc_bfree:
  assumes "txn (Suc (Suc (Suc (Suc k)))) (Suc j) s" "bitmap_ok s" "super_ok s"
    and "n < sb_size (sb s)" "\<not> used s n" "\<forall>m < n. used s m"
  shows "okP (balloc ROOTDEV s) (\<lambda>(r, t). okP (bfree ROOTDEV r t) (\<lambda>u.
     (\<forall>m < sb_size (sb s). used u m \<longleftrightarrow> used s m) \<and> bfree ROOTDEV r u = Panic ''freeing free block''))"
proof (rule okP_mono [OF balloc_ok [OF assms(1,2,4-6)]], unfold alloc_post_def split_paired_all case_prod_conv, elim conjE)
  fix r t assume t: "r = n" "txn (Suc (Suc k)) (Suc j) t" "clocked (bc t) = clocked (bc s)"
    "blk t = taken n (sb s) (blk s)" "tsame s t"
  note q = tsame_fs [OF t(5)]
  have ut: "used t m \<longleftrightarrow> m = n \<or> used s m" if "m < sb_size (sb s)" for m
    using used_taken [OF assms(2,4,5) that t(4) q(1)] .
  have bt: "bitmap_ok t" using assms(2) ut by (simp add: bitmap_ok_def q t(3))
  have n1: "n \<noteq> 1" "BBLOCK n (sb s) \<noteq> 1" using assms(3-5) by (auto simp: super_ok_def)
  then have st: "super_ok t" using assms(3) ut by (simp add: super_ok_def q t(3,4) taken_def)
  show "okP (bfree ROOTDEV r t) (\<lambda>u.
     (\<forall>m < sb_size (sb s). used u m \<longleftrightarrow> used s m) \<and> bfree ROOTDEV r u = Panic ''freeing free block'')"
    unfolding t(1)
  proof (rule okP_mono [OF bfree_cases(1) [OF t(2) bt st]], goal_cases)
    case (3 u)
    then have u: "txn (Suc k) (Suc j) u" "clocked (bc u) = clocked (bc s)" "blk u = freed n (sb s) (blk t)" "tsame t u"
      by (simp_all add: q t(3))
    note qu = tsame_fs [OF u(4)]
    have uu: "used u m \<longleftrightarrow> used s m" if "m < sb_size (sb s)" for m
      using used_freed [OF bt, of n m u] ut [OF that] that assms(4,5) u(3) qu q by auto
    have "bitmap_ok u" using assms(2) uu by (simp add: bitmap_ok_def qu q u(2))
    moreover have "super_ok u" using st assms(3) uu n1 by (simp add: super_ok_def qu q u(2,3) t(3) freed_def)
    ultimately have "bfree ROOTDEV n u = Panic ''freeing free block''"
      using bfree_cases(2) [OF u(1), of n] uu [OF assms(4)] assms(4,5) by (simp add: qu q)
    then show ?case using uu by simp
  qed (use assms(4) ut q in simp_all)
qed

lemma fs_disk_super: "super_ok (demo fs_disk)"
  using fs_disk_used fs_disk_sb by (simp add: super_ok_def demo_bio demo_home) (simp add: demo_sb_def BBLOCK_def)

lemma balloc_bfree_witness:
  "okP (balloc ROOTDEV (demo fs_disk)) (\<lambda>(r, t). okP (bfree ROOTDEV r t) (\<lambda>u.
     \<not> used u 59 \<and> used u 58 \<and> bfree ROOTDEV r u = Panic ''freeing free block''))"
proof -
  have "txn (Suc (Suc (Suc (Suc 3)))) (Suc 5) (demo fs_disk)"
    by (rule demo_txn [where d = fs_disk, OF fs_disk_head]) simp_all
  note w = balloc_bfree [OF this fs_disk_bitmap fs_disk_super, of 59]
  show ?thesis
    by (rule okP_mono [OF w]) (auto simp: fs_disk_used demo_sb_def elim!: okP_mono)
qed

section \<open>Inodes on the disk\<close>

text \<open>The fields fit their C types, and the fields of an inode that live on the disk.\<close>

definition inode_range :: "inode \<Rightarrow> bool" where
  "inode_range ip \<longleftrightarrow> (\<forall>x \<in> {i_type ip, i_major ip, i_minor ip, i_nlink ip}. - 32768 \<le> x \<and> x < 32768)
     \<and> i_size ip < u32_mod \<and> (\<forall>k \<le> NDIRECT. i_addrs ip k < u32_mod)"

definition same_dinode :: "inode \<Rightarrow> inode \<Rightarrow> bool" where
  "same_dinode p q \<longleftrightarrow> i_type p = i_type q \<and> i_major p = i_major q \<and> i_minor p = i_minor q \<and> i_nlink p = i_nlink q
     \<and> i_size p = i_size q \<and> (\<forall>k \<le> NDIRECT. i_addrs p k = i_addrs q k)"

lemma fold_wr32_out:
  "j + 4 \<le> a \<or> a + 4 * n \<le> j \<Longrightarrow> rd32 (fold (\<lambda>k m. wr32 m (a + 4 * k) (f k)) [0..<n] m) j = rd32 m j"
  "j + 2 \<le> a \<or> a + 4 * n \<le> j \<Longrightarrow> rd16 (fold (\<lambda>k m. wr32 m (a + 4 * k) (f k)) [0..<n] m) j = rd16 m j"
  by (induction n) auto

lemma fold_wr32_in:
  "k < n \<Longrightarrow> rd32 (fold (\<lambda>k m. wr32 m (a + 4 * k) (f k)) [0..<n] m) (a + 4 * k) = f k mod u32_mod"
  by (induction n) (auto simp: less_Suc_eq)

lemma load_store_same:
  assumes "inode_range ip"
  shows "same_dinode (load_dinode (store_dinode ip m) (i_inum ip) q) ip"
  using assms
  by (simp add: same_dinode_def load_dinode_def store_dinode_def put_addrs_def Let_def fold_wr32_out fold_wr32_in
      inode_range_def s16_u16_of u16_of_less NDIRECT_def del: upt_Suc)

lemma dinode_disjoint:
  assumes "n mod IPB \<noteq> m mod IPB"
  shows "dinode_off n + 64 \<le> dinode_off m \<or> dinode_off m + 64 \<le> dinode_off n"
  using assms by (simp add: dinode_off_def) linarith

lemma load_store_other:
  assumes "n mod IPB \<noteq> i_inum ip mod IPB"
  shows "load_dinode (store_dinode ip m) n q = load_dinode m n q"
proof -
  have rd: "rd32 (store_dinode ip m) j = rd32 m j" "rd16 (store_dinode ip m) j = rd16 m j"
    if "j + 4 \<le> dinode_off (i_inum ip) \<or> dinode_off (i_inum ip) + 64 \<le> j" for j
    using that by (auto simp: store_dinode_def Let_def put_addrs_def fold_wr32_out NDIRECT_def simp del: upt_Suc)
  have far: "dinode_off n + d + 4 \<le> dinode_off (i_inum ip) \<or> dinode_off (i_inum ip) + 64 \<le> dinode_off n + d"
    if "d \<le> 60" for d
    using dinode_disjoint [OF assms] that by linarith
  note r16 = rd(2) [OF far] and r32 = rd(1) [OF far]
  have "(\<lambda>k. if k \<le> NDIRECT then rd32 (store_dinode ip m) (dinode_off n + 12 + 4 * k) else i_addrs q k)
      = (\<lambda>k. if k \<le> NDIRECT then rd32 m (dinode_off n + 12 + 4 * k) else i_addrs q k)"
    using r32 [of "12 + 4 * k" for k] by (auto simp: NDIRECT_def add.assoc)
  then show ?thesis
    using r16 [of 0] r16 [of 2] r16 [of 4] r16 [of 6] r32 [of 8] by (simp add: load_dinode_def Let_def)
qed

lemma iupdate_ok:
  assumes t: "txn (Suc k) (Suc j) s" and d: "i_dev (inodes s i) = ROOTDEV" and B: "IBLOCK (i_inum (inodes s i)) (sb s) \<in> home (lg s)"
    "IBLOCK (i_inum (inodes s i)) (sb s) \<notin> clocked (bc s)"
  shows "okP (iupdate i s) (\<lambda>t. txn k (Suc j) t \<and> tsame s t \<and> clocked (bc t) = clocked (bc s) \<and> blk t = (blk s)(IBLOCK (i_inum (inodes s i)) (sb s)
      := store_dinode (inodes s i) (blk s (IBLOCK (i_inum (inodes s i)) (sb s)))))"
proof -
  let ?B = "IBLOCK (i_inum (inodes s i)) (sb s)"
  have "okP (bread ROOTDEV ?B s) (\<lambda>(b, t). inodes t = inodes s
     \<and> okP (log_write b (set_data b (store_dinode (inodes s i) (b_data (bufs t b))) t)) (\<lambda>t. okP (brelse b t) (\<lambda>t.
         txn k (Suc j) t \<and> tsame s t \<and> clocked (bc t) = clocked (bc s) \<and> blk t = (blk s)(?B := store_dinode (inodes s i) (blk s ?B)))))"
  proof (rule okP_mono [OF ktxn.inspect [OF t B]], goal_cases)
    case (1 x)
    then have x: "b_data (bufs (snd x) (fst x)) = blk s ?B" "tsame s (snd x)"
      and w: "\<And>d. okP (log_write (fst x) (set_data (fst x) d (snd x))) (\<lambda>u. okP (brelse (fst x) u) (\<lambda>s'. txn k (Suc j) s'
          \<and> clocked (bc s') = clocked (bc s) \<and> blk s' = (blk s)(?B := d) \<and> tsame s s'
          \<and> (\<forall>m c. holds s m c \<longrightarrow> m \<noteq> ?B \<longrightarrow> holds s' m c)))"
      by (simp_all add: split_def)
    show ?case unfolding split_def x(1)
      by (intro conjI tsame_fs(2) [OF x(2)], rule okP_mono [OF w], rule okP_mono, assumption) simp
  qed
  then show ?thesis
    by (auto simp: iupdate_def d okP_iff split_def)
qed

text \<open>
  \<open>iupdate\<close> writes the inode to its slot of its inode block: reading that slot back gives the same
  type, device numbers, link count, size and block addresses; the other inodes of the block and all
  other blocks are unchanged.
\<close>

theorem iupdate_stores:
  assumes "txn (Suc k) (Suc j) s" "i_dev (inodes s i) = ROOTDEV" "inode_range (inodes s i)"
    and "IBLOCK (i_inum (inodes s i)) (sb s) \<in> home (lg s)" "IBLOCK (i_inum (inodes s i)) (sb s) \<notin> clocked (bc s)"
  shows "okP (iupdate i s) (\<lambda>t. txn k (Suc j) t \<and> inodes t = inodes s
     \<and> same_dinode (load_dinode (blk t (IBLOCK (i_inum (inodes s i)) (sb s))) (i_inum (inodes s i)) q) (inodes s i)
     \<and> (\<forall>n. n mod IPB \<noteq> i_inum (inodes s i) mod IPB \<longrightarrow>
          load_dinode (blk t (IBLOCK (i_inum (inodes s i)) (sb s))) n q = load_dinode (blk s (IBLOCK (i_inum (inodes s i)) (sb s))) n q)
     \<and> (\<forall>b. b \<noteq> IBLOCK (i_inum (inodes s i)) (sb s) \<longrightarrow> blk t b = blk s b))"
proof -
  show ?thesis
    by (rule okP_mono [OF iupdate_ok [OF assms(1,2,4,5)]]) (auto simp: tsame_fs load_store_same [OF assms(3)] load_store_other)
qed

definition demo_file :: inode where
  "demo_file = demo_ino\<lparr>i_dev := ROOTDEV, i_inum := 17, i_ref := 1, i_valid := True, i_type := T_FILE, i_nlink := - 3,
     i_size := 700, i_addrs := (\<lambda>k. if k < 2 then 70 + k else 0)\<rparr>"

lemma iupdate_stores_witness:
  "okP (iupdate 0 (upd_inode 0 (\<lambda>_. demo_file) (demo fs_disk))) (\<lambda>t.
     i_size (load_dinode (blk t 34) 17 demo_ino) = 700 \<and> i_nlink (load_dinode (blk t 34) 17 demo_ino) = - 3)"
proof -
  have t: "txn (Suc 3) (Suc 5) (upd_inode 0 (\<lambda>_. demo_file) (demo fs_disk))"
    by (simp, rule demo_txn [where d = fs_disk, OF fs_disk_head]) simp_all
  show ?thesis
    by (rule okP_mono [OF iupdate_stores [OF t, where q = demo_ino]])
      (auto simp: demo_file_def demo_ino_def demo_home demo_bio demo_sb_def IBLOCK_def inode_range_def same_dinode_def layout_simps)
qed

section \<open>The inode cache\<close>

text \<open>
  No inode is cached twice: two entries in use hold different inodes. Reference counts are not
  negative.
\<close>

definition icache_inv :: "'a fsk_scheme \<Rightarrow> bool" where
  "icache_inv s \<longleftrightarrow> (\<forall>i < NINODE. 0 \<le> i_ref (inodes s i)) \<and>
     (\<forall>i < NINODE. \<forall>j < NINODE. 0 < i_ref (inodes s i) \<and> 0 < i_ref (inodes s j)
        \<and> i_dev (inodes s i) = i_dev (inodes s j) \<and> i_inum (inodes s i) = i_inum (inodes s j) \<longrightarrow> i = j)"

definition icached :: "nat \<Rightarrow> nat \<Rightarrow> 'a fsk_scheme \<Rightarrow> nat option" where
  "icached dev inum s = first_idx NINODE (\<lambda>i. 0 < i_ref (inodes s i) \<and> i_dev (inodes s i) = dev \<and> i_inum (inodes s i) = inum)"

lemma upd_inode_held [simp]: "(upd_inode i f (s\<lparr>held := h\<rparr>))\<lparr>held := h'\<rparr> = upd_inode i f (s\<lparr>held := h'\<rparr>)"
  by (simp add: upd_inode_def)

lemma iget_eq:
  assumes "LIcache \<notin> held s"
  shows "iget dev inum s = (case icached dev inum s of
      Some i \<Rightarrow> Ok (i, upd_inode i (\<lambda>ip. ip\<lparr>i_ref := i_ref ip + 1\<rparr>) s)
    | None \<Rightarrow> (case first_idx NINODE (\<lambda>i. i_ref (inodes s i) = 0) of
         None \<Rightarrow> Panic ''iget: no inodes''
       | Some i \<Rightarrow> Ok (i, upd_inode i (\<lambda>ip. ip\<lparr>i_dev := dev, i_inum := inum, i_ref := 1, i_valid := False\<rparr>) s)))"
proof -
  have h: "s\<lparr>held := held s\<rparr> = s" by simp
  show ?thesis
    using assms by (simp add: iget_def icached_def Let_def insert_Diff_if h split: option.split)
qed

text \<open>
  \<open>iget\<close> keeps the inode cache free of duplicates: it returns the entry that already holds the inode
  when there is one and otherwise recycles an entry nobody refers to, counts one more reference on it
  and leaves all other entries alone. It panics only when the inode is not cached and every entry is
  in use.
\<close>

theorem iget_unique:
  assumes "LIcache \<notin> held s" "icache_inv s"
    and "icached dev inum s \<noteq> None \<or> (\<exists>i < NINODE. i_ref (inodes s i) = 0)"
  shows "okP (iget dev inum s) (\<lambda>(i, t). icache_inv t \<and> icached dev inum t = Some i
     \<and> i_ref (inodes t i) = (if icached dev inum s = Some i then i_ref (inodes s i) else 0) + 1
     \<and> (\<forall>j. j \<noteq> i \<longrightarrow> inodes t j = inodes s j) \<and> held t = held s)"
proof (cases "icached dev inum s")
  case (Some i)
  then have i: "i < NINODE" "0 < i_ref (inodes s i)" "i_dev (inodes s i) = dev" "i_inum (inodes s i) = inum"
    "\<forall>l < i. \<not> (0 < i_ref (inodes s l) \<and> i_dev (inodes s l) = dev \<and> i_inum (inodes s l) = inum)"
    by (simp_all add: icached_def first_idx_Some)
  let ?t = "upd_inode i (\<lambda>ip. ip\<lparr>i_ref := i_ref ip + 1\<rparr>) s"
  have "icached dev inum ?t = Some i"
    unfolding icached_def first_idx_Some using i by simp
  moreover have "icache_inv ?t"
  proof -
    have r: "i_dev (inodes ?t j) = i_dev (inodes s j)" "i_inum (inodes ?t j) = i_inum (inodes s j)"
      "0 < i_ref (inodes ?t j) \<longleftrightarrow> 0 < i_ref (inodes s j)" for j
      using i(2) by simp_all
    have "\<forall>j < NINODE. 0 \<le> i_ref (inodes ?t j)" using assms(2) i(2) by (simp add: icache_inv_def)
    then show ?thesis using assms(2) unfolding icache_inv_def r by simp
  qed
  ultimately show ?thesis
    using Some by (simp add: iget_eq [OF assms(1)])
next
  case None
  then have no: "\<forall>l < NINODE. \<not> (0 < i_ref (inodes s l) \<and> i_dev (inodes s l) = dev \<and> i_inum (inodes s l) = inum)"
    by (simp add: icached_def first_idx_None)
  obtain i where e: "first_idx NINODE (\<lambda>i. i_ref (inodes s i) = 0) = Some i"
    using None assms(3) by (metis (mono_tags, lifting) first_idx_None option.exhaust)
  then have i: "i < NINODE" "i_ref (inodes s i) = 0" by (simp_all add: first_idx_Some)
  let ?t = "upd_inode i (\<lambda>ip. ip\<lparr>i_dev := dev, i_inum := inum, i_ref := 1, i_valid := False\<rparr>) s"
  have "icached dev inum ?t = Some i"
    unfolding icached_def first_idx_Some using i no by simp
  moreover have "icache_inv ?t"
    using assms(2) i no unfolding icache_inv_def by auto
  ultimately show ?thesis
    using None e by (simp add: iget_eq [OF assms(1)])
qed

lemma iget_unique_witness:
  "okP (iget 1 5 (demo blank)) (\<lambda>(i, t). icache_inv t \<and> icached 1 5 t = Some i \<and> i_ref (inodes t i) = 1)"
proof -
  have n: "icached 1 5 (demo blank) = None" by (simp add: icached_def first_idx_None demo_ino_def)
  show ?thesis
    by (rule okP_mono [OF iget_unique]) (auto simp: icache_inv_def n demo_ino_def NINODE_def intro!: exI [of _ 0])
qed

end
