(* ===== verification/ContentSpec.thy ===== *)
theory ContentSpec
  imports InodeSpec
begin

text \<open>
  File content as an array of bytes: on a file whose blocks are allocated \<open>bmap\<close> and \<open>readi\<close> refine
  lookup and slices of that array, and a turn of the loop of \<open>writei\<close> refines an update of it.
\<close>

section \<open>The block map\<close>

text \<open>The block that holds block \<open>bn\<close> of the file.\<close>

definition addr_of :: "'a fsk_scheme \<Rightarrow> nat \<Rightarrow> nat \<Rightarrow> nat" where
  "addr_of s i bn = (if bn < NDIRECT then i_addrs (inodes s i) bn
     else rd32 (blk s (i_addrs (inodes s i) NDIRECT)) (4 * (bn - NDIRECT)))"

text \<open>
  The first \<open>N\<close> blocks of the file are allocated to distinct readable blocks, which are not the indirect
  block.
\<close>

definition file_map :: "'a fsk_scheme \<Rightarrow> nat \<Rightarrow> nat \<Rightarrow> bool" where
  "file_map s i N \<longleftrightarrow> i_dev (inodes s i) = ROOTDEV \<and> N \<le> MAXFILE
     \<and> (\<forall>bn < N. addr_of s i bn \<noteq> 0 \<and> addr_of s i bn \<in> home (lg s) \<and> addr_of s i bn \<notin> clocked (bc s))
     \<and> inj_on (addr_of s i) {..<N}
     \<and> (NDIRECT < N \<longrightarrow> i_addrs (inodes s i) NDIRECT \<noteq> 0 \<and> i_addrs (inodes s i) NDIRECT \<in> home (lg s)
         \<and> i_addrs (inodes s i) NDIRECT \<notin> clocked (bc s)
         \<and> (\<forall>bn < N. addr_of s i bn \<noteq> i_addrs (inodes s i) NDIRECT))"

lemma file_mapD:
  assumes "file_map s i N" "bn < N"
  shows "i_dev (inodes s i) = ROOTDEV" "bn < MAXFILE" "addr_of s i bn \<noteq> 0" "addr_of s i bn \<in> home (lg s)"
    "addr_of s i bn \<notin> clocked (bc s)"
    "NDIRECT \<le> bn \<Longrightarrow> i_addrs (inodes s i) NDIRECT \<noteq> 0 \<and> i_addrs (inodes s i) NDIRECT \<in> home (lg s)
         \<and> i_addrs (inodes s i) NDIRECT \<notin> clocked (bc s)"
  using assms by (auto simp: file_map_def)

text \<open>What reading leaves alone.\<close>

definition rsame :: "'a fsk_scheme \<Rightarrow> 'a fsk_scheme \<Rightarrow> bool" where
  "rsame s t \<longleftrightarrow> tsame s t \<and> blk t = blk s \<and> clocked (bc t) = clocked (bc s)"

lemma rsame_refl [simp]: "rsame s s"
  by (simp add: rsame_def)

lemma rsame_trans: "rsame s t \<Longrightarrow> rsame t u \<Longrightarrow> rsame s u"
  unfolding rsame_def using tsame_trans by metis

lemma rsame_addr: "rsame s t \<Longrightarrow> addr_of t = addr_of s"
  using tsame_fs [of s t] by (intro ext) (simp add: rsame_def addr_of_def)

lemma rsame_sel:
  assumes "rsame s t"
  shows "inodes t = inodes s" "sb t = sb s" "home (lg t) = home (lg s)" "blk t = blk s" "clocked (bc t) = clocked (bc s)"
    "file_map t i N = file_map s i N"
  using assms rsame_addr [OF assms] tsame_fs [of s t] by (simp_all add: rsame_def file_map_def)

lemma bmap_mapped:
  assumes "txn k (Suc j) s" "file_map s i N" "bn < N"
  shows "okP (bmap i bn s) (\<lambda>(a, t). a = addr_of s i bn \<and> txn k (Suc j) t \<and> rsame s t)"
proof (cases "bn < NDIRECT")
  case True
  then show ?thesis using assms file_mapD(3) [OF assms(2,3)] by (simp add: bmap_def addr_of_def)
next
  case False
  note f = file_mapD [OF assms(2,3)]
  let ?I = "i_addrs (inodes s i) NDIRECT"
  have I: "?I \<noteq> 0" "?I \<in> home (lg s)" "?I \<notin> clocked (bc s)" and lt: "bn - NDIRECT < NINDIRECT"
    using f False by (auto simp: MAXFILE_def)
  have a: "addr_of s i bn = rd32 (blk s ?I) (4 * (bn - NDIRECT))" using False by (simp add: addr_of_def)
  have "okP (bread ROOTDEV ?I s) (\<lambda>(bp, t). okP (bindr (if rd32 (b_data (bufs t bp)) (4 * (bn - NDIRECT)) = 0
                       then bindr (balloc (i_dev (inodes t i)) t) (\<lambda>(addr, s).
                            bindr (log_write bp (set_data bp (wr32 (b_data (bufs s bp)) (4 * (bn - NDIRECT)) addr) s)) (\<lambda>s.
                            Ok (addr, s)))
                       else Ok (rd32 (b_data (bufs t bp)) (4 * (bn - NDIRECT)), t)) (\<lambda>(addr, s).
                bindr (brelse bp s) (\<lambda>s. Ok (addr, s)))) (\<lambda>(a, t). a = addr_of s i bn \<and> txn k (Suc j) t \<and> rsame s t))"
  proof (rule okP_mono [OF ktxn.look [OF assms(1) I(2,3)]], goal_cases)
    case (1 x)
    then have x: "b_data (bufs (snd x) (fst x)) = blk s ?I"
      and r: "okP (brelse (fst x) (snd x)) (\<lambda>s'. txn k (Suc j) s' \<and> clocked (bc s') = clocked (bc s) \<and> blk s' = blk s \<and> tsame s s')"
      by (auto simp: split_def elim!: okP_mono)
    show ?case using f(3) r unfolding a by (simp add: split_def x rsame_def conj_ac)
  qed
  then show ?thesis using False lt I f(1) by (simp add: bmap_def Let_def split_def)
qed

section \<open>Reading\<close>

definition file_byte :: "'a fsk_scheme \<Rightarrow> nat \<Rightarrow> nat \<Rightarrow> byte" where
  "file_byte s i k = blk s (addr_of s i (k div BSIZE)) (k mod BSIZE)"

definition content :: "'a fsk_scheme \<Rightarrow> nat \<Rightarrow> byte list" where
  "content s i = map (file_byte s i) [0..<i_size (inodes s i)]"

lemma rsame_byte: "rsame s t \<Longrightarrow> file_byte t = file_byte s"
  using rsame_addr [of s t] rsame_sel(4) [of s t] by (intro ext) (simp add: file_byte_def)

lemma in_block:
  assumes "off mod BSIZE + l < BSIZE"
  shows "(off + l) div BSIZE = off div BSIZE \<and> (off + l) mod BSIZE = off mod BSIZE + l"
proof -
  have "(off + l) mod BSIZE = (off mod BSIZE + l) mod BSIZE" by (simp only: mod_add_left_eq)
  moreover have "l div BSIZE = 0" "l mod BSIZE = l" using assms by simp_all
  then have "(off + l) div BSIZE = off div BSIZE + (off mod BSIZE + l) div BSIZE"
    unfolding div_add1_eq [of off l] by simp
  ultimately show ?thesis using assms by simp
qed

lemma chunk_bytes:
  assumes "off mod BSIZE + m \<le> BSIZE"
  shows "bytes_at (blk s (addr_of s i (off div BSIZE))) (off mod BSIZE) m = map (file_byte s i) [off..<off + m]"
proof (rule nth_equalityI; simp)
  fix l assume l: "l < m"
  then have "off mod BSIZE + l < BSIZE" using assms by simp
  then have "(off + l) div BSIZE = off div BSIZE" "(off + l) mod BSIZE = off mod BSIZE + l"
    using in_block by simp_all
  then show "blk s (addr_of s i (off div BSIZE)) (off mod BSIZE + l) = file_byte s i (off + l)"
    by (simp add: file_byte_def)
qed

lemma chunk_pos: "0 < BSIZE - off mod BSIZE"
  by (simp add: BSIZE_def)

lemma chunk_end: "min r (BSIZE - off mod BSIZE) + off mod BSIZE \<le> BSIZE"
proof -
  have "off mod BSIZE < BSIZE" by (simp add: BSIZE_def)
  then show ?thesis by linarith
qed

text \<open>The blocks that the bytes from \<open>off\<close> on, \<open>r\<close> of them, lie in are below \<open>N\<close>.\<close>

lemma readi_loop_ok:
  assumes "txn k (Suc j) s" "file_map s i N" "off + r \<le> N * BSIZE" "r \<le> fuel"
  shows "okP (readi_loop fuel i off r s) (\<lambda>(bs, t). bs = map (file_byte s i) [off..<off + r] \<and> txn k (Suc j) t \<and> rsame s t)"
  using assms
proof (induction fuel arbitrary: off r s)
  case 0
  then show ?case by simp
next
  case (Suc fuel)
  show ?case
  proof (cases "r = 0")
    case True
    then show ?thesis using Suc.prems by simp
  next
    case False
    let ?bn = "off div BSIZE" let ?m = "min r (BSIZE - off mod BSIZE)"
    let ?tail = "\<lambda>addr t. bindr (bread (i_dev (inodes t i)) addr t) (\<lambda>(bp, s).
        let m = ?m; bs = bytes_at (b_data (bufs s bp)) (off mod BSIZE) m
        in bindr (brelse bp s) (\<lambda>s.
           bindr (readi_loop fuel i (off + m) (r - m) s) (\<lambda>(bs', s). Ok (bs @ bs', s))))"
    let ?Q = "\<lambda>(bs, t). bs = map (file_byte s i) [off..<off + r] \<and> txn k (Suc j) t \<and> rsame s t"
    have bn: "?bn < N" using Suc.prems(3) False by (simp add: div_less_iff_less_mult BSIZE_def)
    have m: "1 \<le> ?m" "?m \<le> r" using False chunk_pos [of off] by simp_all
    have rm: "r - ?m \<le> fuel" using m Suc.prems(4) by linarith
    have "okP (?tail (addr_of s i ?bn) t) ?Q" if t: "txn k (Suc j) t" "rsame s t" for t
    proof -
      note f = file_mapD [OF Suc.prems(2) bn] and e = rsame_sel [OF t(2)]
      have h: "addr_of s i ?bn \<in> home (lg t)" "addr_of s i ?bn \<notin> clocked (bc t)" using f e by simp_all
      have "okP (bread ROOTDEV (addr_of s i ?bn) t) (\<lambda>(bp, u). b_data (bufs u bp) = blk s (addr_of s i ?bn)
          \<and> okP (brelse bp u) (\<lambda>u. okP (readi_loop fuel i (off + ?m) (r - ?m) u)
              (\<lambda>(bs', v). ?Q (map (file_byte s i) [off..<off + ?m] @ bs', v))))"
      proof (rule okP_mono [OF ktxn.look [OF t(1) h]], goal_cases)
        case (1 x)
        then have x: "b_data (bufs (snd x) (fst x)) = blk s (addr_of s i ?bn)"
          and rel: "okP (brelse (fst x) (snd x)) (\<lambda>u. txn k (Suc j) u \<and> rsame t u)"
          using e by (auto simp: split_def rsame_def elim!: okP_mono)
        have "okP (brelse (fst x) (snd x)) (\<lambda>u. okP (readi_loop fuel i (off + ?m) (r - ?m) u)
              (\<lambda>(bs', v). ?Q (map (file_byte s i) [off..<off + ?m] @ bs', v)))"
        proof (rule okP_mono [OF rel], elim conjE)
          fix u assume u: "txn k (Suc j) u" "rsame t u"
          have su: "rsame s u" using rsame_trans [OF t(2) u(2)] .
          have "okP (readi_loop fuel i (off + ?m) (r - ?m) u) (\<lambda>(bs, v). bs = map (file_byte u i) [off + ?m..<off + ?m + (r - ?m)]
              \<and> txn k (Suc j) v \<and> rsame u v)"
            by (rule Suc.IH [OF u(1)]) (use Suc.prems(2,3) rsame_sel(6) [OF su] m rm in simp_all)
          moreover have "[off..<off + r] = [off..<off + ?m] @ [off + ?m..<off + ?m + (r - ?m)]"
            using m upt_add_eq_append [of off "off + ?m" "r - ?m"] by simp
          ultimately show "okP (readi_loop fuel i (off + ?m) (r - ?m) u)
              (\<lambda>(bs', v). ?Q (map (file_byte s i) [off..<off + ?m] @ bs', v))"
            by (auto simp: rsame_byte [OF su] split_def intro: rsame_trans [OF su] elim!: okP_mono)
        qed
        with x show ?case by (simp add: split_def)
      qed
      then show ?thesis
        using f(1) e(1) chunk_bytes [of off ?m s i] chunk_end [of r off]
        by (simp add: Let_def split_def add.commute) (auto elim!: okP_mono)
    qed
    then have "okP (bmap i ?bn s) (\<lambda>(a, t). okP (?tail a t) ?Q)"
      by (intro okP_mono [OF bmap_mapped [OF Suc.prems(1,2) bn]]) auto
    then show ?thesis using False by (simp add: split_def)
  qed
qed

lemma rsame_content: "rsame s t \<Longrightarrow> content t = content s"
  by (intro ext) (simp add: content_def rsame_byte rsame_sel(1))

lemma readi_ok:
  assumes "txn k (Suc j) s" "i_type (inodes s i) \<noteq> T_DEV" "file_map s i N" "i_size (inodes s i) \<le> N * BSIZE"
    and "off \<le> i_size (inodes s i)" "off + n < u32_mod"
  shows "okP (readi i off n s) (\<lambda>(r, bs, t). bs = take n (drop off (content s i)) \<and> r = int (length bs)
     \<and> txn k (Suc j) t \<and> rsame s t)"
proof -
  let ?size = "i_size (inodes s i)"
  let ?n = "min n (?size - off)"
  have sl: "map (file_byte s i) [off..<off + ?n] = take n (drop off (content s i))"
    by (rule nth_equalityI) (auto simp: content_def)
  have len: "length (take n (drop off (content s i))) = ?n" by (simp add: content_def)
  have "okP (readi_loop ?n i off ?n s) (\<lambda>(bs, t). bs = map (file_byte s i) [off..<off + ?n] \<and> txn k (Suc j) t \<and> rsame s t)"
    by (rule readi_loop_ok [OF assms(1,3)]) (use assms(4,5) in auto)
  then have "okP (readi_loop ?n i off ?n s) (\<lambda>(bs, t). bs = take n (drop off (content s i)) \<and> int ?n = int (length bs)
     \<and> txn k (Suc j) t \<and> rsame s t)"
    by (rule okP_mono) (use sl len in auto)
  moreover have "(if ?size < off + n then ?size - off else n) = ?n" using assms(5) by simp
  ultimately show ?thesis
    using assms(2,5,6) by (simp add: readi_def Let_def split_def not_less)
qed

text \<open>
  C9: Reading a file whose blocks are allocated returns exactly the slice of its content: the bytes from
  \<open>off\<close> on, at most \<open>n\<close> and never beyond the end of the file, and their number; nothing changes.
\<close>

theorem readi_content:
  assumes "txn k (Suc j) s" "i_type (inodes s i) \<noteq> T_DEV" "file_map s i N" "i_size (inodes s i) \<le> N * BSIZE"
    and "off \<le> i_size (inodes s i)" "off + n < u32_mod"
  shows "okP (readi i off n s) (\<lambda>(r, bs, t). bs = take n (drop off (content s i)) \<and> r = int (length bs)
     \<and> txn k (Suc j) t \<and> content t i = content s i \<and> inodes t = inodes s)"
  by (rule okP_mono [OF readi_ok [OF assms]]) (auto simp: rsame_content rsame_sel(1))

section \<open>A concrete file\<close>

text \<open>Inode 17 with 700 bytes in the blocks 70 and 71.\<close>

definition data_disk :: "nat \<Rightarrow> dsk" where
  "data_disk = (\<lambda>dev n. if n = 71 then (\<lambda>k. if k = 1 then 5 else 0) else fs_disk dev n)"

definition demo_open :: trapk where
  "demo_open = upd_inode 0 (\<lambda>_. demo_file) (demo data_disk)"

lemma demo_open_ok:
  assumes "k < 30" "k + j \<le> 30"
  shows "txn k j demo_open"
proof -
  have h: "head_n (data_disk ROOTDEV 2) = 0" using fs_disk_head by (simp add: data_disk_def)
  show ?thesis unfolding demo_open_def txn_upd_inode by (rule demo_txn [where d = data_disk, OF h assms])
qed

lemma demo_open_sel:
  "inodes demo_open 0 = demo_file" "sb demo_open = demo_sb" "lg demo_open = demo_logst" "clocked (bc demo_open) = {}"
  "blk demo_open = data_disk ROOTDEV"
  by (simp_all add: demo_open_def demo_bio)

lemma demo_open_addr: "k < 12 \<Longrightarrow> addr_of demo_open 0 k = (if k < 2 then 70 + k else 0)"
  by (simp add: addr_of_def demo_open_sel demo_file_def demo_ino_def NDIRECT_def)

lemma demo_open_map: "file_map demo_open 0 2"
proof -
  have "addr_of demo_open 0 bn = 70 + bn" if "bn < 2" for bn using that demo_open_addr [of bn] by simp
  then show ?thesis
    by (simp add: file_map_def demo_open_sel demo_home layout_simps inj_on_def) (simp add: demo_file_def)
qed

lemma readi_content_witness:
  "okP (readi 0 510 4 demo_open) (\<lambda>(r, bs, t). bs = [0, 0, 0, 5] \<and> r = 4)"
proof -
  have t: "txn (Suc 0) (Suc 0) demo_open" by (rule demo_open_ok) simp_all
  have "take 4 (drop 510 (content demo_open 0)) = [0, 0, 0, 5]"
    by (simp add: content_def demo_open_sel demo_file_def demo_ino_def take_map drop_map drop_upt take_upt del: upt_conv_Cons_Cons upt_rec_numeral)
      (simp add: upt_rec file_byte_def demo_open_addr demo_open_sel data_disk_def fs_disk_def BSIZE_def)
  then show ?thesis
    by (intro okP_mono [OF readi_content [OF t _ demo_open_map, of 510 4]])
      (auto simp: demo_open_sel demo_file_def demo_ino_def layout_simps)
qed

section \<open>Writing\<close>

text \<open>The number of blocks the bytes \<open>[off, off + n)\<close> lie in.\<close>

definition nblks :: "nat \<Rightarrow> nat \<Rightarrow> nat" where
  "nblks off n = (if n = 0 then 0 else (off + n - 1) div BSIZE - off div BSIZE + 1)"

lemma nblks_step:
  assumes "0 < r" "m = min r (BSIZE - off mod BSIZE)"
  shows "nblks off r = Suc (nblks (off + m) (r - m))"
proof (cases "r \<le> BSIZE - off mod BSIZE")
  case True
  then have "off mod BSIZE + (r - 1) < BSIZE" using assms(1) chunk_pos [of off] by linarith
  then have "(off + (r - 1)) div BSIZE = off div BSIZE" using in_block by simp
  moreover have "off + r - 1 = off + (r - 1)" using assms(1) by simp
  ultimately show ?thesis using True assms by (simp add: nblks_def)
next
  case False
  let ?q = "off div BSIZE"
  have m: "m = BSIZE - off mod BSIZE" "m < r" using False assms by simp_all
  have "off mod BSIZE < BSIZE" by (simp add: BSIZE_def)
  then have om: "off + m = BSIZE * (?q + 1)" using mult_div_mod_eq [of BSIZE off] m(1) unfolding distrib_left by linarith
  then have d: "(off + m) div BSIZE = ?q + 1" by (simp add: BSIZE_def)
  have "(off + m) div BSIZE \<le> (off + r - 1) div BSIZE" by (rule div_le_mono) (use m in simp)
  moreover have "off + m + (r - m) - 1 = off + r - 1" using m by simp
  ultimately show ?thesis using m assms(1) d by (simp add: nblks_def)
qed

text \<open>What writing to the first \<open>N\<close> blocks of a file leaves alone.\<close>

definition wsame :: "nat \<Rightarrow> nat \<Rightarrow> 'a fsk_scheme \<Rightarrow> 'a fsk_scheme \<Rightarrow> bool" where
  "wsame i N s t \<longleftrightarrow> tsame s t \<and> clocked (bc t) = clocked (bc s) \<and> (\<forall>b. b \<notin> addr_of s i ` {..<N} \<longrightarrow> blk t b = blk s b)"

lemma wsame_map:
  assumes w: "wsame i N s t" and f: "file_map s i N"
  shows "\<And>bn. bn < N \<Longrightarrow> addr_of t i bn = addr_of s i bn" "file_map t i N" "inodes t = inodes s" "sb t = sb s"
    "home (lg t) = home (lg s)" "clocked (bc t) = clocked (bc s)"
proof -
  have ts: "tsame s t" and cl: "clocked (bc t) = clocked (bc s)"
    and out: "\<And>b. b \<notin> addr_of s i ` {..<N} \<Longrightarrow> blk t b = blk s b"
    using w by (simp_all add: wsame_def)
  note e = tsame_fs [OF ts]
  show a: "addr_of t i bn = addr_of s i bn" if "bn < N" for bn
  proof (cases "bn < NDIRECT")
    case False
    then have "NDIRECT < N" using that f by (auto simp: file_map_def)
    then have "i_addrs (inodes s i) NDIRECT \<notin> addr_of s i ` {..<N}" using f by (auto simp: file_map_def)
    then show ?thesis using out False by (simp add: addr_of_def e)
  qed (simp add: addr_of_def e)
  then have "inj_on (addr_of t i) {..<N} = inj_on (addr_of s i) {..<N}" by (intro inj_on_cong) simp
  then show "file_map t i N" using f a by (simp add: file_map_def e cl)
qed (use w tsame_fs [of s t] in \<open>simp_all add: wsame_def\<close>)

lemma chunk_written:
  assumes f: "file_map s i N" and bn: "off div BSIZE < N" and m: "length bs + off mod BSIZE \<le> BSIZE"
    and t: "blk t = (blk s)(addr_of s i (off div BSIZE) := put_bytes bs (blk s (addr_of s i (off div BSIZE))) (off mod BSIZE))"
    and a: "\<And>bn. bn < N \<Longrightarrow> addr_of t i bn = addr_of s i bn" and x: "x < N * BSIZE"
  shows "file_byte t i x = (if off \<le> x \<and> x < off + length bs then bs ! (x - off) else file_byte s i x)"
proof -
  have xb: "x div BSIZE < N" using x by (simp add: div_less_iff_less_mult BSIZE_def)
  have dm: "off = off div BSIZE * BSIZE + off mod BSIZE" "x = x div BSIZE * BSIZE + x mod BSIZE" by simp_all
  show ?thesis
  proof (cases "x div BSIZE = off div BSIZE")
    case True
    obtain q where q: "off = q + off mod BSIZE" "x = q + x mod BSIZE" using dm True by metis
    have "off \<le> x \<longleftrightarrow> off mod BSIZE \<le> x mod BSIZE" "x < off + length bs \<longleftrightarrow> x mod BSIZE < off mod BSIZE + length bs"
      "x - off = x mod BSIZE - off mod BSIZE"
      using q by linarith+
    then show ?thesis using True a [OF bn] by (simp add: file_byte_def t put_bytes_def)
  next
    case False
    have "\<not> (off \<le> x \<and> x < off + length bs)"
    proof
      assume in_chunk: "off \<le> x \<and> x < off + length bs"
      then have "off mod BSIZE + (x - off) < BSIZE" using m by linarith
      from in_block [OF this] in_chunk False show False by simp
    qed
    moreover have "addr_of s i (x div BSIZE) \<noteq> addr_of s i (off div BSIZE)"
      using f False xb bn by (auto simp: file_map_def dest: inj_onD)
    ultimately show ?thesis using a [OF xb] by (simp only: file_byte_def t fun_upd_apply if_False simp_thms)
  qed
qed

lemma rsame_wsame: "rsame s t \<Longrightarrow> wsame i N s t"
  by (simp add: rsame_def wsame_def)

text \<open>The bytes of the file after \<open>src\<close> has been written at \<open>off\<close>.\<close>

definition spliced :: "nat \<Rightarrow> byte list \<Rightarrow> (nat \<Rightarrow> byte) \<Rightarrow> nat \<Rightarrow> byte" where
  "spliced off src f x = (if off \<le> x \<and> x < off + length src then src ! (x - off) else f x)"

lemma spliced_split:
  "m \<le> length src \<Longrightarrow> spliced (off + m) (drop m src) (spliced off (take m src) f) = spliced off src f"
  by (auto simp: spliced_def fun_eq_iff)

lemma spliced_nil [simp]: "spliced off [] f = f"
  by (auto simp: spliced_def fun_eq_iff)

definition wpost :: "nat \<Rightarrow> nat \<Rightarrow> nat \<Rightarrow> nat \<Rightarrow> nat \<Rightarrow> byte list \<Rightarrow> 'a fsk_scheme \<Rightarrow> 'a fsk_scheme \<Rightarrow> bool" where
  "wpost k j i N off src s t \<longleftrightarrow> txn k (Suc j) t \<and> wsame i N s t
     \<and> (\<forall>x < N * BSIZE. file_byte t i x = spliced off src (file_byte s i) x)"

text \<open>One turn of the loop.\<close>

lemma chunk_ok:
  assumes t: "txn (Suc k) (Suc j) t" and f: "file_map t i N" and bn: "off div BSIZE < N"
    and m: "length bs + off mod BSIZE \<le> BSIZE"
  shows "okP (bread ROOTDEV (addr_of t i (off div BSIZE)) t) (\<lambda>(bp, s).
     okP (log_write bp (set_data bp (put_bytes bs (b_data (bufs s bp)) (off mod BSIZE)) s)) (\<lambda>s.
     okP (brelse bp s) (wpost k j i N off bs t)))"
proof -
  let ?a = "addr_of t i (off div BSIZE)"
  note d = file_mapD [OF f bn]
  have w: "wpost k j i N off bs t u" if u: "txn k (Suc j) u" "clocked (bc u) = clocked (bc t)" "tsame t u"
    "blk u = (blk t)(?a := put_bytes bs (blk t ?a) (off mod BSIZE))" for u
  proof -
    have ws: "wsame i N t u" using u bn by (auto simp: wsame_def)
    have "file_byte u i x = spliced off bs (file_byte t i) x" if "x < N * BSIZE" for x
      using chunk_written [OF f bn m u(4) wsame_map(1) [OF ws f] that] by (simp add: spliced_def)
    then show ?thesis using u(1) ws by (simp add: wpost_def)
  qed
  show ?thesis
    by (rule okP_mono [OF ktxn.modify [OF t d(4,5), where f = "\<lambda>v. put_bytes bs v (off mod BSIZE)"]])
      (auto simp: split_def intro: w elim!: okP_mono)
qed

lemma file_byte_frame:
  assumes "x < N * BSIZE" "\<And>bn. bn < N \<Longrightarrow> addr_of t i bn = addr_of s i bn"
    and "\<And>bn. bn < N \<Longrightarrow> blk t (addr_of s i bn) = blk s (addr_of s i bn)"
  shows "file_byte t i x = file_byte s i x"
proof -
  have "x div BSIZE < N" using assms(1) by (simp add: div_less_iff_less_mult BSIZE_def)
  then show ?thesis using assms(2,3) by (simp add: file_byte_def)
qed

lemma content_spliced:
  assumes "\<forall>x < max (i_size (inodes s i)) (off + length src). file_byte t i x = spliced off src (file_byte s i) x"
    and "i_size (inodes t i) = max (i_size (inodes s i)) (off + length src)" "off \<le> i_size (inodes s i)"
  shows "content t i = take off (content s i) @ src @ drop (off + length src) (content s i)"
proof (rule nth_equalityI)
  show "length (content t i) = length (take off (content s i) @ src @ drop (off + length src) (content s i))"
    using assms(3) by (simp add: content_def assms(2))
  fix x assume "x < length (content t i)"
  then have x: "x < max (i_size (inodes s i)) (off + length src)" by (simp add: content_def assms(2))
  then have "content t i ! x = spliced off src (file_byte s i) x" using assms(1) x by (simp add: content_def assms(2))
  then show "content t i ! x = (take off (content s i) @ src @ drop (off + length src) (content s i)) ! x"
    using x assms(3) by (auto simp: spliced_def content_def nth_append)
qed

end
