(* ===== verification/GrowSpec.thy ===== *)
theory GrowSpec
  imports ContentSpec
begin

text \<open>
  Writing that grows a file: \<open>bmap\<close> takes blocks from the bitmap for the direct addresses, the indirect
  block and its entries, \<open>writei\<close> fills them and writes the inode back.
\<close>

section \<open>Well-formed files\<close>

text \<open>A block in use that nobody holds and that is no bitmap block.\<close>

definition owned :: "'a fsk_scheme \<Rightarrow> nat \<Rightarrow> bool" where
  "owned s b \<longleftrightarrow> b < sb_size (sb s) \<and> used s b \<and> b \<in> home (lg s) \<and> b \<notin> clocked (bc s)
     \<and> (\<forall>c < sb_size (sb s). b \<noteq> BBLOCK c (sb s))"

abbreviation ind :: "'a fsk_scheme \<Rightarrow> nat \<Rightarrow> nat" where
  "ind s i \<equiv> i_addrs (inodes s i) NDIRECT"

abbreviation iblock :: "'a fsk_scheme \<Rightarrow> nat \<Rightarrow> nat" where
  "iblock s i \<equiv> IBLOCK (i_inum (inodes s i)) (sb s)"

definition file_blocks :: "'a fsk_scheme \<Rightarrow> nat \<Rightarrow> nat \<Rightarrow> nat set" where
  "file_blocks s i N = addr_of s i ` {..<N} \<union> (if ind s i = 0 then {} else {ind s i})"

text \<open>
  The file of inode \<open>i\<close> has exactly its first \<open>N\<close> blocks: they, the indirect block and the block of the
  inode are distinct blocks in use, and all other addresses are zero.
\<close>

definition file_ok :: "'a fsk_scheme \<Rightarrow> nat \<Rightarrow> nat \<Rightarrow> bool" where
  "file_ok s i N \<longleftrightarrow> file_map s i N \<and> bitmap_ok s \<and> inode_range (inodes s i) \<and> used s 0
     \<and> (\<forall>b \<in> file_blocks s i N. owned s b) \<and> owned s (iblock s i) \<and> iblock s i \<notin> file_blocks s i N
     \<and> (\<forall>bn < NDIRECT. N \<le> bn \<longrightarrow> i_addrs (inodes s i) bn = 0)
     \<and> (ind s i \<noteq> 0 \<longrightarrow> (\<forall>bn < N. addr_of s i bn \<noteq> ind s i)
          \<and> (\<forall>bn < MAXFILE. NDIRECT \<le> bn \<longrightarrow> N \<le> bn \<longrightarrow> addr_of s i bn = 0))"

lemma file_blocks_iff: "b \<in> file_blocks s i N \<longleftrightarrow> (\<exists>bn < N. b = addr_of s i bn) \<or> ind s i \<noteq> 0 \<and> b = ind s i"
  by (auto simp: file_blocks_def)

definition free_left :: "'a fsk_scheme \<Rightarrow> nat" where
  "free_left s = card {b. b < sb_size (sb s) \<and> \<not> used s b}"

section \<open>Taking a block\<close>

text \<open>Block \<open>n\<close> was free and is now in use and zero; only the bitmap has changed besides.\<close>

definition took :: "nat \<Rightarrow> 'a fsk_scheme \<Rightarrow> 'a fsk_scheme \<Rightarrow> bool" where
  "took n s t \<longleftrightarrow> n < sb_size (sb s) \<and> \<not> used s n \<and> (\<forall>m < sb_size (sb s). used t m \<longleftrightarrow> m = n \<or> used s m)
     \<and> (\<forall>b. b \<noteq> n \<longrightarrow> (\<forall>c < sb_size (sb s). b \<noteq> BBLOCK c (sb s)) \<longrightarrow> blk t b = blk s b)
     \<and> (\<forall>x < BSIZE. blk t n x = 0) \<and> tsame s t \<and> clocked (bc t) = clocked (bc s)
     \<and> bitmap_ok s \<and> bitmap_ok t \<and> Suc (free_left t) = free_left s"

lemma balloc_took:
  assumes t: "txn (Suc (Suc k)) (Suc j) s" and b: "bitmap_ok s" and f: "0 < free_left s"
  shows "okP (balloc ROOTDEV s) (\<lambda>(n, t). txn k (Suc j) t \<and> took n s t
     \<and> (\<forall>m c. holds s m c \<longrightarrow> m \<noteq> n \<longrightarrow> (\<forall>c < sb_size (sb s). m \<noteq> BBLOCK c (sb s)) \<longrightarrow> holds t m c))"
proof -
  let ?F = "\<lambda>s. {b. b < sb_size (sb s) \<and> \<not> used s b}"
  have fin: "finite (?F s)" by simp
  let ?n = "Min (?F s)"
  have "?F s \<noteq> {}" using f unfolding free_left_def by (metis card.empty less_irrefl)
  then have n: "?n \<in> ?F s" "\<forall>m \<in> ?F s. ?n \<le> m" using Min_in [OF fin] Min_le [OF fin] by blast+
  then obtain n where n: "n \<in> ?F s" "\<forall>m \<in> ?F s. n \<le> m" by blast
  have lt: "used s m" if "m < n" for m
  proof (rule ccontr)
    assume "\<not> used s m"
    with that n(1) have "m \<in> ?F s" by simp
    with n(2) that show False by (meson not_less)
  qed
  then have lt: "\<forall>m < n. used s m" by blast
  have ns: "n < sb_size (sb s)" "\<not> used s n" using n by simp_all
  show ?thesis
  proof (rule okP_mono [OF balloc_ok [OF t b ns lt]], unfold alloc_post_def split_paired_all case_prod_conv, elim conjE)
    fix r t assume t: "r = n" "txn k (Suc j) t" "clocked (bc t) = clocked (bc s)" "blk t = taken n (sb s) (blk s)" "tsame s t"
      and h: "\<forall>m c. holds s m c \<longrightarrow> m \<noteq> n \<longrightarrow> m \<noteq> BBLOCK n (sb s) \<longrightarrow> holds t m c"
    note q = tsame_fs [OF t(5)]
    have u: "\<forall>m < sb_size (sb s). used t m \<longleftrightarrow> m = n \<or> used s m" using used_taken [OF b ns _ t(4) q(1)] by simp
    have "?F s = insert n (?F t)" using u ns by (auto simp: q)
    then have "Suc (free_left t) = free_left s" using u ns by (simp add: free_left_def q)
    moreover have "bitmap_ok t" using b u by (simp add: bitmap_ok_def q t(3))
    ultimately have "took n s t" using t ns u b by (auto simp: took_def taken_def)
    then show "txn k (Suc j) t \<and> took r s t
     \<and> (\<forall>m c. holds s m c \<longrightarrow> m \<noteq> r \<longrightarrow> (\<forall>c < sb_size (sb s). m \<noteq> BBLOCK c (sb s)) \<longrightarrow> holds t m c)"
      using t h ns by simp
  qed
qed

lemma tookD:
  assumes "took n s t"
  shows "sb t = sb s" "inodes t = inodes s" "home (lg t) = home (lg s)" "clocked (bc t) = clocked (bc s)"
    "owned t n" "\<not> used s n" "n < u32_mod" "used s 0 \<Longrightarrow> n \<noteq> 0" "bitmap_ok t"
    "\<And>b. owned s b \<Longrightarrow> b \<noteq> n \<and> owned t b \<and> blk t b = blk s b" "\<And>x. x < BSIZE \<Longrightarrow> blk t n x = 0"
    "Suc (free_left t) = free_left s"
proof -
  note q = tsame_fs [of s t] and d = assms [unfolded took_def]
  show e: "sb t = sb s" "inodes t = inodes s" "home (lg t) = home (lg s)" "clocked (bc t) = clocked (bc s)" using d q by simp_all
  have n: "n < sb_size (sb s)" "\<not> used s n" "used t n" "bitmap_ok s" using d by simp_all
  then have h: "n \<in> home (lg s)" "n \<notin> clocked (bc s)" "\<forall>c < sb_size (sb s). n \<noteq> BBLOCK c (sb s)"
    unfolding bitmap_ok_def by blast+
  show "owned t n" using n h by (simp add: owned_def e)
  show "\<not> used s n" "bitmap_ok t" "Suc (free_left t) = free_left s" using d by simp_all
  show "n < u32_mod" using home_FSSIZE(1) [OF h(1)] by (simp add: FSSIZE_def)
  show "n \<noteq> 0" if "used s 0" using that n(2) by metis
  show "b \<noteq> n \<and> owned t b \<and> blk t b = blk s b" if b: "owned s b" for b
  proof -
    have b': "b < sb_size (sb s)" "used s b" "\<forall>c < sb_size (sb s). b \<noteq> BBLOCK c (sb s)" using b by (simp_all add: owned_def)
    have "b \<noteq> n" using b' n(2) by metis
    moreover have "used t b" using d b' by simp
    moreover have "blk t b = blk s b" using d b' \<open>b \<noteq> n\<close> by blast
    ultimately show ?thesis using b by (simp add: owned_def e)
  qed
  show "blk t n x = 0" if "x < BSIZE" for x using d that by simp
qed

lemma bits_cong:
  assumes e: "sb u = sb t" "home (lg u) = home (lg t)" "clocked (bc u) = clocked (bc t)"
    and b: "\<And>c. c < sb_size (sb t) \<Longrightarrow> blk u (BBLOCK c (sb t)) = blk t (BBLOCK c (sb t))"
  shows "\<And>m. m < sb_size (sb t) \<Longrightarrow> used u m = used t m" "owned u = owned t" "bitmap_ok u = bitmap_ok t"
    "free_left u = free_left t"
proof -
  show us: "used u m = used t m" if "m < sb_size (sb t)" for m using that by (simp add: used_def e b)
  show "owned u = owned t" by (intro ext) (auto simp: owned_def e us)
  show "bitmap_ok u = bitmap_ok t" by (simp add: bitmap_ok_def e us cong: conj_cong)
  have "{b. b < sb_size (sb t) \<and> \<not> used u b} = {b. b < sb_size (sb t) \<and> \<not> used t b}" using us by blast
  then show "free_left u = free_left t" by (simp add: free_left_def e)
qed

lemma file_okD:
  assumes "file_ok s i N"
  shows "file_map s i N" "bitmap_ok s" "inode_range (inodes s i)" "used s 0"
    "\<And>bn. bn < N \<Longrightarrow> owned s (addr_of s i bn)" "ind s i \<noteq> 0 \<Longrightarrow> owned s (ind s i)" "owned s (iblock s i)"
    "\<And>bn. bn < N \<Longrightarrow> addr_of s i bn \<noteq> iblock s i" "ind s i \<noteq> 0 \<Longrightarrow> ind s i \<noteq> iblock s i"
    "\<And>bn. bn < NDIRECT \<Longrightarrow> N \<le> bn \<Longrightarrow> i_addrs (inodes s i) bn = 0"
    "\<And>bn. ind s i \<noteq> 0 \<Longrightarrow> bn < N \<Longrightarrow> addr_of s i bn \<noteq> ind s i"
    "\<And>bn. ind s i \<noteq> 0 \<Longrightarrow> NDIRECT \<le> bn \<Longrightarrow> N \<le> bn \<Longrightarrow> bn < MAXFILE \<Longrightarrow> addr_of s i bn = 0"
proof -
  note m = assms [unfolded file_ok_def]
  have b: "\<And>b. b \<in> file_blocks s i N \<Longrightarrow> owned s b \<and> b \<noteq> iblock s i" using m by blast
  have fb: "bn < N \<Longrightarrow> addr_of s i bn \<in> file_blocks s i N" "ind s i \<noteq> 0 \<Longrightarrow> ind s i \<in> file_blocks s i N" for bn
    unfolding file_blocks_iff by blast+
  show "file_map s i N" "bitmap_ok s" "inode_range (inodes s i)" "used s 0" "owned s (iblock s i)" using m by blast+
  show "owned s (addr_of s i bn)" "addr_of s i bn \<noteq> iblock s i" if "bn < N" for bn using b [OF fb(1) [OF that]] by blast+
  show "owned s (ind s i)" "ind s i \<noteq> iblock s i" if "ind s i \<noteq> 0" using b [OF fb(2) [OF that]] by blast+
  show "i_addrs (inodes s i) bn = 0" if "bn < NDIRECT" "N \<le> bn" for bn using m that by blast
  show "addr_of s i bn \<noteq> ind s i" if "ind s i \<noteq> 0" "bn < N" for bn using m that by blast
  show "addr_of s i bn = 0" if "ind s i \<noteq> 0" "NDIRECT \<le> bn" "N \<le> bn" "bn < MAXFILE" for bn using m that by blast
qed

lemma file_okI:
  assumes "i_dev (inodes s i) = ROOTDEV" "N \<le> MAXFILE" "bitmap_ok s" "inode_range (inodes s i)" "used s 0"
    and "\<And>bn. bn < N \<Longrightarrow> addr_of s i bn \<noteq> 0 \<and> owned s (addr_of s i bn) \<and> addr_of s i bn \<noteq> iblock s i"
    and "inj_on (addr_of s i) {..<N}" "owned s (iblock s i)" "NDIRECT < N \<Longrightarrow> ind s i \<noteq> 0"
    and "\<And>bn. bn < NDIRECT \<Longrightarrow> N \<le> bn \<Longrightarrow> i_addrs (inodes s i) bn = 0"
    and "ind s i \<noteq> 0 \<Longrightarrow> owned s (ind s i) \<and> ind s i \<noteq> iblock s i"
    and "\<And>bn. ind s i \<noteq> 0 \<Longrightarrow> bn < N \<Longrightarrow> addr_of s i bn \<noteq> ind s i"
    and "\<And>bn. ind s i \<noteq> 0 \<Longrightarrow> NDIRECT \<le> bn \<Longrightarrow> N \<le> bn \<Longrightarrow> bn < MAXFILE \<Longrightarrow> addr_of s i bn = 0"
  shows "file_ok s i N"
proof -
  have o: "b \<in> home (lg s)" "b \<notin> clocked (bc s)" if "owned s b" for b using that by (simp_all add: owned_def)
  have a: "ind s i \<noteq> 0" "owned s (ind s i)" "\<forall>bn < N. addr_of s i bn \<noteq> ind s i" if "NDIRECT < N"
    using assms(9,11,12) that by blast+
  have "file_map s i N" unfolding file_map_def using assms(1,2,6,7) o a by blast
  moreover have "\<forall>b \<in> file_blocks s i N. owned s b" "iblock s i \<notin> file_blocks s i N"
    using assms(6,11) by (metis file_blocks_iff)+
  ultimately show ?thesis unfolding file_ok_def using assms(3,4,5,8,10,12,13) by blast
qed

text \<open>What adding blocks to the file leaves alone: all blocks in use that are not its own.\<close>

definition gstep :: "nat \<Rightarrow> nat \<Rightarrow> nat \<Rightarrow> 'a fsk_scheme \<Rightarrow> 'a fsk_scheme \<Rightarrow> bool" where
  "gstep i N N' s t \<longleftrightarrow> sb t = sb s \<and> home (lg t) = home (lg s) \<and> clocked (bc t) = clocked (bc s)
     \<and> inodes t = (inodes s)(i := (inodes s i)\<lparr>i_addrs := i_addrs (inodes t i)\<rparr>)
     \<and> (\<forall>b \<in> file_blocks t i N'. b \<in> file_blocks s i N \<or> b < sb_size (sb s) \<and> \<not> used s b)
     \<and> (\<forall>b < sb_size (sb s). used s b \<longrightarrow> used t b)
     \<and> (\<forall>b. owned s b \<longrightarrow> b \<notin> file_blocks s i N \<longrightarrow> owned t b \<and> blk t b = blk s b)"

definition gsame :: "nat \<Rightarrow> nat \<Rightarrow> 'a fsk_scheme \<Rightarrow> 'a fsk_scheme \<Rightarrow> bool" where
  "gsame i N s t \<longleftrightarrow> (\<forall>x < N * BSIZE. file_byte t i x = file_byte s i x)"

lemma addr_of_set: "k \<le> NDIRECT \<Longrightarrow> addr_of (upd_inode i (\<lambda>ip. ip\<lparr>i_addrs := (i_addrs ip)(k := n)\<rparr>) t) i bn =
    (if bn < NDIRECT then if bn = k then n else i_addrs (inodes t i) bn
     else rd32 (blk t (if k = NDIRECT then n else ind t i)) (4 * (bn - NDIRECT)))"
  by (auto simp: addr_of_def)

lemma upd_inode_owned [simp]: "owned (upd_inode i f s) = owned s" "used (upd_inode i f s) = used s"
  "bitmap_ok (upd_inode i f s) = bitmap_ok s" "free_left (upd_inode i f s) = free_left s"
  by (auto simp: owned_def used_def bitmap_ok_def free_left_def fun_eq_iff)

lemma grow_direct:
  assumes f: "file_ok s i N" and N: "N < NDIRECT" and t: "took n s t"
    and u: "u = upd_inode i (\<lambda>ip. ip\<lparr>i_addrs := (i_addrs ip)(N := n)\<rparr>) t"
  shows "file_ok u i (Suc N)" "gstep i N (Suc N) s u" "gsame i N s u" "addr_of u i N = n" "ind u i = ind s i"
proof -
  note d = file_okD [OF f] and k = tookD [OF t]
  have a: "addr_of u i bn = (if bn = N then n else addr_of s i bn)" if "bn < NDIRECT" for bn
    using that N by (simp add: u addr_of_set k(2)) (simp add: addr_of_def)
  have a': "addr_of u i bn = addr_of s i bn" if "NDIRECT \<le> bn" "ind s i \<noteq> 0" for bn
    using that N d(6) k(10) by (simp add: u addr_of_set k(2)) (simp add: addr_of_def)
  have e: "inodes u i = (inodes s i)\<lparr>i_addrs := (i_addrs (inodes s i))(N := n)\<rparr>" "sb u = sb s" by (simp_all add: u k)
  have n0: "n \<noteq> 0" "owned u n" using k(5,8) d(4) by (simp_all add: u)
  have own: "owned u b \<and> b \<noteq> n" if "owned s b" for b using k(10) [OF that] by (simp add: u)
  have old: "addr_of s i bn \<noteq> n" "owned u (addr_of s i bn)" "addr_of s i bn \<noteq> 0" if "bn < N" for bn
    using own [OF d(5) [OF that]] file_mapD(3) [OF d(1) that] by simp_all
  have iN: "ind u i = ind s i" "iblock u i = iblock s i" using N by (simp_all add: e)
  have nb: "n \<noteq> iblock s i" "ind s i \<noteq> 0 \<Longrightarrow> n \<noteq> ind s i" using own d(6,7) by blast+
  have inj: "inj_on (addr_of s i) {..<N}" using d(1) by (simp add: file_map_def)
  show "file_ok u i (Suc N)"
  proof (rule file_okI, goal_cases)
    case 1 then show ?case using d(1) by (simp add: e file_map_def)
  next
    case 2 then show ?case using N by (simp add: MAXFILE_def)
  next
    case 3 then show ?case using k(9) by (simp add: u)
  next
    case 4 then show ?case using d(3) k(7) by (simp add: inode_range_def e)
  next
    case 5 then show ?case using own d(4,7) t by (auto simp: u took_def)
  next
    case (6 bn) then show ?case using N a [of bn] old [of bn] d(8) [of bn] n0 nb by (auto simp: iN less_Suc_eq)
  next
    case 7
    have "addr_of u i bn = addr_of s i bn" if "bn < N" for bn using a [of bn] that N by simp
    then have "inj_on (addr_of u i) {..<N} \<and> n \<notin> addr_of u i ` {..<N}" using inj old by (auto simp: inj_on_def)
    then show ?case using a [of N] N by (auto simp: lessThan_Suc inj_on_insert)
  next
    case 8 then show ?case using own d(7) by (simp add: iN)
  next
    case 9 then show ?case using N by simp
  next
    case (10 bn) then show ?case using d(10) by (simp add: e)
  next
    case 11 then show ?case using own d(6,9) by (simp add: iN)
  next
    case (12 bn) then show ?case using a [of bn] N d(11) nb(2) unfolding iN less_Suc_eq by (metis less_trans)
  next
    case (13 bn) then show ?case using a' d(12) by (simp add: iN)
  qed
  have im: "addr_of u i ` {..<Suc N} = insert n (addr_of s i ` {..<N})"
  proof -
    have "addr_of u i ` {..<N} = addr_of s i ` {..<N}" using a N by (intro image_cong) auto
    then show ?thesis using a [of N] N by (simp add: lessThan_Suc)
  qed
  show "addr_of u i N = n" "ind u i = ind s i" using a [of N] N by (simp_all add: iN)
  have "file_byte u i x = file_byte s i x" if "x < N * BSIZE" for x
  proof (rule file_byte_frame [OF that])
    fix bn assume bn: "bn < N"
    show "addr_of u i bn = addr_of s i bn" using a [of bn] bn N by simp
    show "blk u (addr_of s i bn) = blk s (addr_of s i bn)" using k(10) [OF d(5) [OF bn]] by (simp add: u)
  qed
  then show "gsame i N s u" by (simp add: gsame_def)
  show "gstep i N (Suc N) s u"
    using k t im by (auto simp: gstep_def u file_blocks_def took_def)
qed

lemma grow_indirect:
  assumes f: "file_ok s i N" and I: "ind s i = 0" and t: "took n s t"
    and u: "u = upd_inode i (\<lambda>ip. ip\<lparr>i_addrs := (i_addrs ip)(NDIRECT := n)\<rparr>) t"
  shows "file_ok u i N" "gstep i N N s u" "gsame i N s u" "ind u i = n" "n \<noteq> 0"
proof -
  note d = file_okD [OF f] and k = tookD [OF t]
  have N: "N \<le> NDIRECT" using d(1) I by (auto simp: file_map_def not_less)
  have a: "addr_of u i bn = addr_of s i bn" if "bn < N" for bn
    using that N by (simp add: u addr_of_set k(2)) (simp add: addr_of_def)
  have e: "inodes u i = (inodes s i)\<lparr>i_addrs := (i_addrs (inodes s i))(NDIRECT := n)\<rparr>" "sb u = sb s" by (simp_all add: u k)
  show n0: "n \<noteq> 0" using k(8) d(4) by simp
  show iN: "ind u i = n" by (simp add: e)
  have nu: "owned u n" using k(5) by (simp add: u)
  have own: "owned u b \<and> b \<noteq> n" if "owned s b" for b using k(10) [OF that] by (simp add: u)
  have old: "addr_of s i bn \<noteq> n" "owned u (addr_of s i bn)" "addr_of s i bn \<noteq> 0" if "bn < N" for bn
    using own [OF d(5) [OF that]] file_mapD(3) [OF d(1) that] by simp_all
  have ib: "iblock u i = iblock s i" "owned u (iblock s i)" "iblock s i \<noteq> n" using own [OF d(7)] by (simp_all add: e)
  show "file_ok u i N"
  proof (rule file_okI, goal_cases)
    case 1 then show ?case using d(1) by (simp add: e file_map_def)
  next
    case 2 then show ?case using d(1) by (simp add: file_map_def)
  next
    case 3 then show ?case using k(9) by (simp add: u)
  next
    case 4 then show ?case using d(3) k(7) by (simp add: inode_range_def e)
  next
    case 5 then show ?case using own d(4,7) t by (auto simp: u took_def)
  next
    case (6 bn) then show ?case using a [of bn] old [of bn] d(8) [of bn] ib by simp
  next
    case 7
    have "inj_on (addr_of u i) {..<N} = inj_on (addr_of s i) {..<N}" using a by (intro inj_on_cong) simp
    then show ?case using d(1) by (simp add: file_map_def)
  next
    case 8 then show ?case using ib by simp
  next
    case 9 then show ?case using N by simp
  next
    case (10 bn) then show ?case using d(10) by (simp add: e)
  next
    case 11 then show ?case using nu ib by (simp add: iN)
  next
    case (12 bn) then show ?case using a [of bn] old [of bn] by (simp add: iN)
  next
    case (13 bn)
    then have "4 * (bn - NDIRECT) + 4 \<le> BSIZE" by (simp add: layout_simps)
    then have z: "\<And>x. x < 4 \<Longrightarrow> blk t n (4 * (bn - NDIRECT) + x) = 0" by (intro k(11)) simp
    show ?case using 13 z [of 0] z [of 1] z [of 2] z [of 3] by (simp add: u addr_of_set rd32_def)
  qed
  have "file_byte u i x = file_byte s i x" if "x < N * BSIZE" for x
  proof (rule file_byte_frame [OF that])
    fix bn assume bn: "bn < N"
    show "addr_of u i bn = addr_of s i bn" using a [OF bn] .
    show "blk u (addr_of s i bn) = blk s (addr_of s i bn)" using k(10) [OF d(5) [OF bn]] by (simp add: u)
  qed
  then show "gsame i N s u" by (simp add: gsame_def)
  have "b \<in> file_blocks s i N \<or> b = n" if "b \<in> file_blocks u i N" for b
    using that a unfolding file_blocks_iff iN by metis
  then show "gstep i N N s u"
    using k t by (auto simp: gstep_def u took_def)
qed

text \<open>Taking a block while the indirect block \<open>I\<close> is held, and recording it there.\<close>

lemma took_held:
  assumes b: "bitmap_ok s" "owned s I" "used s 0" and h: "tsame s t" "blk t = blk s" "clocked (bc t) = insert I (clocked (bc s))"
  shows "bitmap_ok t" "free_left t = free_left s"
proof -
  note q = tsame_fs [OF h(1)]
  have us: "used t = used s" by (rule used_tsame [OF h(1,2)])
  show "bitmap_ok t" using b(1,2) by (auto simp: bitmap_ok_def owned_def us q h(3))
  show "free_left t = free_left s" by (simp add: free_left_def us q)
qed

lemma placed:
  assumes b: "bitmap_ok s" "owned s I" "used s 0" and h: "tsame s t" "blk t = blk s" "clocked (bc t) = insert I (clocked (bc s))"
    and t: "took n t t'" and u: "tsame t' u" "blk u = (blk t')(I := v)" "clocked (bc u) = clocked (bc s)"
  shows "inodes u = inodes s" "sb u = sb s" "home (lg u) = home (lg s)" "clocked (bc u) = clocked (bc s)"
    "owned u n" "\<not> used s n" "n < u32_mod" "n \<noteq> 0" "bitmap_ok u"
    "\<And>b. owned s b \<Longrightarrow> b \<noteq> n \<and> owned u b \<and> (b \<noteq> I \<longrightarrow> blk u b = blk s b)"
    "blk t' I = blk s I" "Suc (free_left u) = free_left s" "\<And>m. m < sb_size (sb s) \<Longrightarrow> used u m \<longleftrightarrow> m = n \<or> used s m"
proof -
  note q = tsame_fs [OF h(1)] and r = tsame_fs [OF u(1)] and k = tookD [OF t] and d = t [unfolded took_def]
  have us: "used t = used s" by (rule used_tsame [OF h(1,2)])
  show e: "inodes u = inodes s" "sb u = sb s" "home (lg u) = home (lg s)" "clocked (bc u) = clocked (bc s)"
    using q r k u(3) by simp_all
  have I: "I < sb_size (sb s)" "used s I" "\<forall>c < sb_size (sb s). I \<noteq> BBLOCK c (sb s)" using b(2) by (simp_all add: owned_def)
  have n: "n < sb_size (sb s)" "\<not> used s n" using d by (simp_all add: us q)
  then show "\<not> used s n" by simp
  have uu: "used u m = used t' m" if "m < sb_size (sb s)" for m
    using I that k(1) q(1) by (auto simp: used_def e u(2))
  then show um: "used u m \<longleftrightarrow> m = n \<or> used s m" if "m < sb_size (sb s)" for m using d that by (simp add: us q)
  show bu: "bitmap_ok u" using b(1) um by (simp add: bitmap_ok_def e)
  have nh: "n \<in> home (lg s)" "n \<notin> clocked (bc s)" "\<forall>c < sb_size (sb s). n \<noteq> BBLOCK c (sb s)"
    using b(1) n unfolding bitmap_ok_def by blast+
  show "owned u n" using n nh um by (simp add: owned_def e)
  show "n < u32_mod" using k(7) .
  show "n \<noteq> 0" using b(3) n(2) by metis
  have keep: "blk t' b = blk s b" if "b \<noteq> n" "\<forall>c < sb_size (sb s). b \<noteq> BBLOCK c (sb s)" for b
    using d that by (simp add: q h(2))
  show "b \<noteq> n \<and> owned u b \<and> (b \<noteq> I \<longrightarrow> blk u b = blk s b)" if b': "owned s b" for b
  proof -
    have m: "b < sb_size (sb s)" "used s b" "\<forall>c < sb_size (sb s). b \<noteq> BBLOCK c (sb s)" using b' by (simp_all add: owned_def)
    then have "b \<noteq> n" using n(2) by metis
    moreover have "owned u b" using b' m um by (simp add: owned_def e)
    ultimately show ?thesis using keep [OF _ m(3)] by (simp add: u(2))
  qed
  have "I \<noteq> n" using I(2) n(2) by metis
  then show "blk t' I = blk s I" using keep I(3) by simp
  have "{b. b < sb_size (sb s) \<and> \<not> used s b} = insert n {b. b < sb_size (sb s) \<and> \<not> used u b}" using um n by auto
  then show "Suc (free_left u) = free_left s" using um n by (simp add: free_left_def e)
qed

lemma grow_entry:
  assumes f: "file_ok s i N" and N: "NDIRECT \<le> N" "N < MAXFILE" and I: "ind s i \<noteq> 0"
    and h: "tsame s t" "blk t = blk s" "clocked (bc t) = insert (ind s i) (clocked (bc s))" and t: "took n t t'"
    and u: "tsame t' u" "blk u = (blk t')(ind s i := wr32 (blk t' (ind s i)) (4 * (N - NDIRECT)) n)" "clocked (bc u) = clocked (bc s)"
  shows "file_ok u i (Suc N)" "gstep i N (Suc N) s u" "gsame i N s u" "addr_of u i N = n" "ind u i = ind s i" "Suc (free_left u) = free_left s"
proof -
  note d = file_okD [OF f]
  let ?I = "ind s i"
  note k = placed [OF d(2) d(6) [OF I] d(4) h t u]
  show "Suc (free_left u) = free_left s" by (rule k)
  note e = k(1-4)
  have a: "addr_of u i bn = (if bn = N then n else addr_of s i bn)" for bn
  proof (cases "bn < NDIRECT")
    case True
    then show ?thesis using N by (simp add: addr_of_def e)
  next
    case False
    then have o: "4 * (bn - NDIRECT) + 4 \<le> 4 * (N - NDIRECT) \<or> 4 * (N - NDIRECT) + 4 \<le> 4 * (bn - NDIRECT)" if "bn \<noteq> N"
      using that N by arith
    show ?thesis
    proof (cases "bn = N")
      case True
      then show ?thesis using False k(7) by (simp add: addr_of_def e u(2))
    next
      case False
      then show ?thesis using \<open>\<not> bn < NDIRECT\<close> o by (simp add: addr_of_def e u(2) k(11))
    qed
  qed
  have n0: "n \<noteq> 0" "owned u n" by (rule k)+
  have own: "owned u b \<and> b \<noteq> n" if "owned s b" for b using k(10) [OF that] by simp
  have old: "addr_of s i bn \<noteq> n" "owned u (addr_of s i bn)" "addr_of s i bn \<noteq> 0" if "bn < N" for bn
    using own [OF d(5) [OF that]] file_mapD(3) [OF d(1) that] by simp_all
  show "addr_of u i N = n" "ind u i = ind s i" using a [of N] by (simp_all add: e)
  have nb: "n \<noteq> iblock s i" "n \<noteq> ?I" using own d(6,7) I by blast+
  have inj: "inj_on (addr_of s i) {..<N}" using d(1) by (simp add: file_map_def)
  show "file_ok u i (Suc N)"
  proof (rule file_okI, goal_cases)
    case 1 then show ?case using d(1) by (simp add: e file_map_def)
  next
    case 2 then show ?case using N by simp
  next
    case 3 then show ?case by (rule k)
  next
    case 4 then show ?case using d(3) by (simp add: e)
  next
    case 5
    have "0 < sb_size (sb s)" using d(7) by (auto simp: owned_def)
    then show ?case using k(13) d(4) by simp
  next
    case (6 bn) then show ?case using a [of bn] old [of bn] d(8) [of bn] n0 nb by (auto simp: e less_Suc_eq)
  next
    case 7
    have "addr_of u i bn = addr_of s i bn" if "bn < N" for bn using a [of bn] that by simp
    then have "inj_on (addr_of u i) {..<N} \<and> n \<notin> addr_of u i ` {..<N}" using inj old by (auto simp: inj_on_def)
    then show ?case using a [of N] by (auto simp: lessThan_Suc inj_on_insert)
  next
    case 8 then show ?case using own d(7) by (simp add: e)
  next
    case 9 then show ?case using I by (simp add: e)
  next
    case (10 bn) then show ?case using d(10) by (simp add: e)
  next
    case 11 then show ?case using own d(6,9) by (simp add: e)
  next
    case (12 bn) then show ?case using a [of bn] d(11) nb(2) unfolding e less_Suc_eq by metis
  next
    case (13 bn) then show ?case using a [of bn] d(12) I by (simp add: e)
  qed
  have "file_byte u i x = file_byte s i x" if "x < N * BSIZE" for x
  proof (rule file_byte_frame [OF that])
    fix bn assume bn: "bn < N"
    show "addr_of u i bn = addr_of s i bn" using a [of bn] bn by simp
    show "blk u (addr_of s i bn) = blk s (addr_of s i bn)" using k(10) [OF d(5) [OF bn]] d(11) [OF I bn] by simp
  qed
  then show "gsame i N s u" by (simp add: gsame_def)
  have "b \<in> file_blocks s i N \<or> b = n" if "b \<in> file_blocks u i (Suc N)" for b
    using that a unfolding file_blocks_iff e less_Suc_eq by metis
  moreover have "owned u b \<and> blk u b = blk s b" if "owned s b" "b \<notin> file_blocks s i N" for b
  proof -
    have "b \<noteq> ?I" using that(2) I unfolding file_blocks_iff by blast
    then show ?thesis using k(10) [OF that(1)] by simp
  qed
  ultimately show "gstep i N (Suc N) s u"
    using e k(5,6,13) by (auto simp: gstep_def owned_def)
qed

lemma gstep_refl [simp]: "gstep i N N s s"
  by (simp add: gstep_def)

lemma gstep_trans:
  assumes st: "gstep i N N' s t" and tu: "gstep i N' N'' t u"
  shows "gstep i N N'' s u"
proof -
  note a = st [unfolded gstep_def] and b = tu [unfolded gstep_def]
  have e: "sb t = sb s" "inodes t = (inodes s)(i := (inodes s i)\<lparr>i_addrs := i_addrs (inodes t i)\<rparr>)"
    "inodes u = (inodes t)(i := (inodes t i)\<lparr>i_addrs := i_addrs (inodes u i)\<rparr>)" using a b by blast+
  have ti: "inodes t i = (inodes s i)\<lparr>i_addrs := i_addrs (inodes t i)\<rparr>" using fun_cong [OF e(2), of i] by simp
  have "inodes u = (inodes s)(i := (inodes s i)\<lparr>i_addrs := i_addrs (inodes u i)\<rparr>)"
    by (subst e(3), subst ti, subst e(2)) simp
  moreover have "c \<in> file_blocks s i N \<or> c < sb_size (sb s) \<and> \<not> used s c" if "c \<in> file_blocks u i N''" for c
    using a b that by metis
  moreover have "owned u c \<and> blk u c = blk s c" if "owned s c" "c \<notin> file_blocks s i N" for c
  proof -
    have "used s c" using that(1) by (simp add: owned_def)
    then have "c \<notin> file_blocks t i N'" using a that(2) by blast
    then show ?thesis using a b that by metis
  qed
  ultimately show ?thesis using a b unfolding gstep_def by (metis (no_types, lifting))
qed

section \<open>The block map\<close>

text \<open>The free blocks a file of \<open>N\<close> blocks takes to have \<open>M\<close> blocks.\<close>

definition missing :: "'a fsk_scheme \<Rightarrow> nat \<Rightarrow> nat \<Rightarrow> nat \<Rightarrow> nat" where
  "missing s i N M = (M - N) + (if NDIRECT < M \<and> ind s i = 0 then 1 else 0)"

definition mapped :: "nat \<Rightarrow> nat \<Rightarrow> nat \<Rightarrow> nat \<Rightarrow> 'a fsk_scheme \<Rightarrow> 'a fsk_scheme \<Rightarrow> bool" where
  "mapped k j i N s t \<longleftrightarrow> txn k (Suc (Suc j)) t \<and> file_ok t i (Suc N) \<and> gstep i N (Suc N) s t \<and> gsame i N s t
     \<and> free_left s = free_left t + missing s i N (Suc N)
     \<and> (ind t i = 0 \<longleftrightarrow> ind s i = 0 \<and> N < NDIRECT)"

lemma bmap_direct:
  assumes t: "txn (Suc (Suc k)) (Suc (Suc j)) s" and f: "file_ok s i N" and N: "N < NDIRECT" and e: "0 < free_left s"
  shows "okP (bmap i N s) (\<lambda>(a, t). a = addr_of t i N \<and> mapped k j i N s t)"
proof -
  note d = file_okD [OF f]
  have dev: "i_dev (inodes s i) = ROOTDEV" and z: "i_addrs (inodes s i) N = 0" using d(1,10) N by (simp_all add: file_map_def)
  have "okP (balloc ROOTDEV s) (\<lambda>(a, t). let u = upd_inode i (\<lambda>ip. ip\<lparr>i_addrs := (i_addrs ip)(N := a)\<rparr>) t
      in a = addr_of u i N \<and> mapped k j i N s u)"
  proof (rule okP_mono [OF balloc_took [OF t d(2) e]], unfold split_paired_all case_prod_conv Let_def, elim conjE)
    fix a t assume a: "txn k (Suc (Suc j)) t" "took a s t"
    let ?u = "upd_inode i (\<lambda>ip. ip\<lparr>i_addrs := (i_addrs ip)(N := a)\<rparr>) t"
    note g = grow_direct [OF f N a(2) refl]
    have "free_left s = free_left ?u + missing s i N (Suc N)"
      using tookD(12) [OF a(2)] N by (simp add: missing_def)
    then show "a = addr_of ?u i N \<and> mapped k j i N s ?u" using g a(1) N unfolding mapped_def by simp
  qed
  then show ?thesis using N by (simp add: bmap_def dev z split_def Let_def)
qed

lemma bmap_entry:
  assumes t: "txn (Suc (Suc (Suc k))) (Suc (Suc j)) s" and f: "file_ok s i N" and N: "NDIRECT \<le> N" "N < MAXFILE"
    and I: "ind s i \<noteq> 0" and e: "0 < free_left s"
  shows "okP (bread ROOTDEV (ind s i) s) (\<lambda>(bp, t).
     okP (if rd32 (b_data (bufs t bp)) (4 * (N - NDIRECT)) = 0
          then bindr (balloc (i_dev (inodes t i)) t) (\<lambda>(addr, s).
               bindr (log_write bp (set_data bp (wr32 (b_data (bufs s bp)) (4 * (N - NDIRECT)) addr) s)) (\<lambda>s.
               Ok (addr, s)))
          else Ok (rd32 (b_data (bufs t bp)) (4 * (N - NDIRECT)), t)) (\<lambda>(addr, s').
     okP (brelse bp s') (\<lambda>t. addr = addr_of t i N \<and> mapped k j i N s t)))"
proof -
  note d = file_okD [OF f]
  let ?I = "ind s i"
  have dev: "i_dev (inodes s i) = ROOTDEV" using d(1) by (simp add: file_map_def)
  have hI: "?I \<in> home (lg s)" "?I \<notin> clocked (bc s)" "\<forall>c < sb_size (sb s). ?I \<noteq> BBLOCK c (sb s)" "used s ?I"
    using d(6) [OF I] by (simp_all add: owned_def)
  have z: "rd32 (blk s ?I) (4 * (N - NDIRECT)) = 0" using d(12) [OF I N(1) order_refl N(2)] N by (simp add: addr_of_def)
  show ?thesis
  proof (rule okP_mono [OF ktxn.look [OF t hI(1,2)]], unfold split_paired_all case_prod_conv, elim conjE)
    fix bp t
    assume x: "b_data (bufs t bp) = blk s ?I" "holds t ?I bp" "txn (Suc (Suc (Suc k))) (Suc j) t"
      "clocked (bc t) = insert ?I (clocked (bc s))" "blk t = blk s" "tsame s t"
    note q = tsame_fs [OF x(6)] and h = took_held [OF d(2) d(6) [OF I] d(4) x(6,5,4)]
    have dt: "i_dev (inodes t i) = ROOTDEV" by (simp add: q dev)
    have "okP (balloc ROOTDEV t) (\<lambda>(a, u). okP (log_write bp (set_data bp (wr32 (b_data (bufs u bp)) (4 * (N - NDIRECT)) a) u)) (\<lambda>u.
        okP (brelse bp u) (\<lambda>u. a = addr_of u i N \<and> mapped k j i N s u)))"
    proof (rule okP_mono [OF balloc_took [OF x(3) h(1)]])
      show "0 < free_left t" using e h(2) by simp
    next
      fix p assume p: "case p of (n, u) \<Rightarrow> txn (Suc k) (Suc j) u \<and> took n t u
        \<and> (\<forall>m c. holds t m c \<longrightarrow> m \<noteq> n \<longrightarrow> (\<forall>c < sb_size (sb t). m \<noteq> BBLOCK c (sb t)) \<longrightarrow> holds u m c)"
      obtain a u where pu: "p = (a, u)" by force
      have u: "txn (Suc k) (Suc j) u" "took a t u" using p pu by simp_all
      have "?I \<noteq> a" using tookD(6) [OF u(2)] hI(4) used_tsame [OF x(6,5)] by metis
      then have hu: "holds u ?I bp" using p pu x(2) hI(3) by (simp add: q)
      note k = tookD [OF u(2)]
      have home: "?I \<in> home (lg u)" using hI(1) k(3) q(4) by simp
      have du: "b_data (bufs u bp) = blk u ?I" using txn_data [OF u(1) hu] .
      have "okP (log_write bp (set_data bp (wr32 (blk u ?I) (4 * (N - NDIRECT)) a) u)) (\<lambda>v.
        okP (brelse bp v) (\<lambda>w. a = addr_of w i N \<and> mapped k j i N s w))"
      proof (rule okP_mono [OF txn_write [OF u(1) hu home]], elim conjE)
        fix v assume v: "txn k (Suc j) v" "clocked (bc v) = clocked (bc u)"
          "blk v = (blk u)(?I := wr32 (blk u ?I) (4 * (N - NDIRECT)) a)" "\<forall>m c. holds u m c \<longrightarrow> holds v m c" "tsame u v"
        have hv: "holds v ?I bp" using v(4) hu by blast
        show "okP (brelse bp v) (\<lambda>w. a = addr_of w i N \<and> mapped k j i N s w)"
        proof (rule okP_mono [OF txn_release [OF v(1) hv]], elim conjE)
          fix w assume w: "txn k (Suc (Suc j)) w" "clocked (bc w) = clocked (bc v) - {?I}" "blk w = blk v" "tsame v w"
          have cl: "clocked (bc w) = clocked (bc s)" using w(2) v(2) k(4) x(4) hI(2) by simp
          note g = grow_entry [OF f N I x(6,5,4) u(2) tsame_trans [OF v(5) w(4)] _ cl, unfolded w(3), OF v(3)]
          have "free_left s = free_left w + missing s i N (Suc N)" using g(6) I by (simp add: missing_def)
          then show "a = addr_of w i N \<and> mapped k j i N s w" using g w(1) N I unfolding mapped_def by simp
        qed
      qed
      then show "case p of (a, u) \<Rightarrow> okP (log_write bp (set_data bp (wr32 (b_data (bufs u bp)) (4 * (N - NDIRECT)) a) u)) (\<lambda>u.
        okP (brelse bp u) (\<lambda>u. a = addr_of u i N \<and> mapped k j i N s u))"
        by (simp add: pu du)
    qed
    then show "okP (if rd32 (b_data (bufs t bp)) (4 * (N - NDIRECT)) = 0
          then bindr (balloc (i_dev (inodes t i)) t) (\<lambda>(addr, s).
               bindr (log_write bp (set_data bp (wr32 (b_data (bufs s bp)) (4 * (N - NDIRECT)) addr) s)) (\<lambda>s.
               Ok (addr, s)))
          else Ok (rd32 (b_data (bufs t bp)) (4 * (N - NDIRECT)), t)) (\<lambda>(addr, s').
     okP (brelse bp s') (\<lambda>t. addr = addr_of t i N \<and> mapped k j i N s t))"
      by (simp add: x(1) z dt split_def)
  qed
qed

lemma gsame_trans: "gsame i N s t \<Longrightarrow> gsame i N t u \<Longrightarrow> gsame i N s u"
  by (simp add: gsame_def)

lemma mapped_less: "mapped k j i N s t \<Longrightarrow> k' \<le> k \<Longrightarrow> mapped k' j i N s t"
  unfolding mapped_def using txn_less by blast

lemma ind_mapped: "file_ok s i N \<Longrightarrow> NDIRECT < N \<Longrightarrow> ind s i \<noteq> 0"
  by (simp add: file_ok_def file_map_def)

text \<open>\<open>bmap\<close> of the first block that the file does not have.\<close>

lemma bmap_grow:
  assumes t: "txn (3 * missing s i N (Suc N) + k) (Suc (Suc j)) s" and f: "file_ok s i N" and N: "N < MAXFILE"
    and e: "missing s i N (Suc N) \<le> free_left s"
  shows "okP (bmap i N s) (\<lambda>(a, t). a = addr_of t i N \<and> mapped k j i N s t)"
proof -
  note d = file_okD [OF f]
  have dev: "i_dev (inodes s i) = ROOTDEV" using d(1) by (simp add: file_map_def)
  consider (dir) "N < NDIRECT" | (ent) "NDIRECT \<le> N" "ind s i \<noteq> 0" | (ind) "NDIRECT \<le> N" "ind s i = 0" by linarith
  then show ?thesis
  proof cases
    case dir
    have "txn (Suc (Suc k)) (Suc (Suc j)) s" by (rule txn_less [OF t]) (simp_all add: missing_def)
    then show ?thesis using bmap_direct [OF _ f dir] e by (simp add: missing_def)
  next
    case ent
    have t': "txn (Suc (Suc (Suc k))) (Suc (Suc j)) s" by (rule txn_less [OF t]) (simp_all add: missing_def)
    have "0 < free_left s" using e by (simp add: missing_def)
    from bmap_entry [OF t' f ent(1) N ent(2) this] show ?thesis
      using ent N by (simp add: bmap_def Let_def dev split_def MAXFILE_def less_diff_conv2)
  next
    case ind
    have m: "missing s i N (Suc N) = 2" using ind by (simp add: missing_def)
    have t': "txn (Suc (Suc (4 + k))) (Suc (Suc j)) s" by (rule txn_less [OF t]) (simp_all add: m)
    let ?set = "\<lambda>a. upd_inode i (\<lambda>ip. ip\<lparr>i_addrs := (i_addrs ip)(NDIRECT := a)\<rparr>)"
    let ?read = "\<lambda>u. okP (bread ROOTDEV (ind u i) u) (\<lambda>(bp, t).
     okP (if rd32 (b_data (bufs t bp)) (4 * (N - NDIRECT)) = 0
          then bindr (balloc (i_dev (inodes t i)) t) (\<lambda>(addr, s).
               bindr (log_write bp (set_data bp (wr32 (b_data (bufs s bp)) (4 * (N - NDIRECT)) addr) s)) (\<lambda>s.
               Ok (addr, s)))
          else Ok (rd32 (b_data (bufs t bp)) (4 * (N - NDIRECT)), t)) (\<lambda>(addr, s').
     okP (brelse bp s') (\<lambda>t. addr = addr_of t i N \<and> mapped k j i N s t)))"
    have "okP (balloc ROOTDEV s) (\<lambda>(a, t). a = ind (?set a t) i \<and> i_dev (inodes (?set a t) i) = ROOTDEV \<and> ?read (?set a t))"
    proof (rule okP_mono [OF balloc_took [OF t' d(2)]], unfold split_paired_all case_prod_conv)
      show "0 < free_left s" using e m by simp
    next
      fix a t
      assume "txn (4 + k) (Suc (Suc j)) t \<and> took a s t
        \<and> (\<forall>m c. holds s m c \<longrightarrow> m \<noteq> a \<longrightarrow> (\<forall>c < sb_size (sb s). m \<noteq> BBLOCK c (sb s)) \<longrightarrow> holds t m c)"
      then have a: "txn (4 + k) (Suc (Suc j)) t" "took a s t" by simp_all
      let ?u = "?set a t"
      note g = grow_indirect [OF f ind(2) a(2) refl]
      have fr: "free_left s = Suc (free_left ?u)" using tookD(12) [OF a(2)] by simp
      have u: "txn (Suc (Suc (Suc (Suc k)))) (Suc (Suc j)) ?u" "ind ?u i \<noteq> 0" "0 < free_left ?u"
        using a(1) g(4,5) fr e m by (simp_all add: numeral_eq_Suc)
      have fin: "mapped k j i N s v" if v: "mapped (Suc k) j i N ?u v" for v
      proof -
        have "gstep i N (Suc N) s v" "gsame i N s v"
          using v g(2,3) gstep_trans gsame_trans unfolding mapped_def by blast+
        moreover have "missing ?u i N (Suc N) = 1" using u(2) by (simp add: missing_def)
        then have "free_left s = free_left v + missing s i N (Suc N)" using v fr m unfolding mapped_def by simp
        ultimately show ?thesis using v u(2) ind(1) txn_less [of "Suc k" "Suc (Suc j)" v k "Suc (Suc j)"]
          unfolding mapped_def by auto
      qed
      have "?read ?u"
        by (rule okP_mono [OF bmap_entry [OF u(1) g(1) ind(1) N u(2,3)]])
          (auto simp: split_def elim!: okP_mono intro: fin)
      moreover have "i_dev (inodes ?u i) = ROOTDEV" by (simp add: tookD(2) [OF a(2)] dev)
      ultimately show "a = ind ?u i \<and> i_dev (inodes ?u i) = ROOTDEV \<and> ?read ?u" using g(4) by simp
    qed
    then show ?thesis
      using ind N by (auto simp: bmap_def Let_def dev split_def MAXFILE_def less_diff_conv2 elim!: okP_mono)
  qed
qed

section \<open>Writing\<close>

text \<open>Changing bytes of the file's own blocks.\<close>

lemma wsame_file:
  assumes w: "wsame i N s t" and f: "file_ok s i N"
  shows "file_ok t i N" "gstep i N N s t" "free_left t = free_left s" "ind t i = ind s i"
proof -
  note d = file_okD [OF f]
  note m = wsame_map [OF w d(1)]
  have out: "blk t b = blk s b" if "\<And>bn. bn < N \<Longrightarrow> addr_of s i bn \<noteq> b" for b
  proof -
    have "b \<notin> addr_of s i ` {..<N}" using that by blast
    then show ?thesis using w by (simp add: wsame_def)
  qed
  have "blk t (BBLOCK c (sb s)) = blk s (BBLOCK c (sb s))" if "c < sb_size (sb s)" for c
    using d(5) that by (intro out) (simp add: owned_def)
  note b = bits_cong [OF m(4,5,6) this]
  show iN: "ind t i = ind s i" by (simp add: m)
  have a: "addr_of t i bn = addr_of s i bn" if "bn < NDIRECT \<or> ind s i \<noteq> 0" for bn
  proof (cases "bn < NDIRECT")
    case False
    then have "blk t (ind s i) = blk s (ind s i)" using that d(11) by (intro out) simp
    then show ?thesis using False by (simp add: addr_of_def m)
  qed (simp add: addr_of_def m)
  have "file_blocks t i N = file_blocks s i N" using m(1) by (auto simp: file_blocks_def iN)
  moreover have "used t 0" using b(1) [of 0] d(4,7) by (auto simp: owned_def)
  ultimately show "file_ok t i N"
    using f m(1,2) a d(12) unfolding file_ok_def by (simp add: m(3,4) b)
  have "blk t c = blk s c" if "c \<notin> file_blocks s i N" for c using that unfolding file_blocks_iff by (intro out) blast
  then show "gstep i N N s t"
    using \<open>file_blocks t i N = file_blocks s i N\<close> m b by (auto simp: gstep_def)
  show "free_left t = free_left s" by (rule b)
qed

lemma bmap_any:
  assumes t: "txn (3 * missing s i N M + k) (Suc (Suc j)) s" and f: "file_ok s i N" and bn: "bn \<le> N" "bn < M"
    and M: "N \<le> M" "M \<le> MAXFILE" and e: "missing s i N M \<le> free_left s"
  shows "okP (bmap i bn s) (\<lambda>(a, t). let N' = max N (Suc bn) in a = addr_of t i bn
     \<and> txn (3 * missing t i N' M + k) (Suc (Suc j)) t \<and> file_ok t i N' \<and> gstep i N N' s t \<and> gsame i N s t
     \<and> free_left s + missing t i N' M = free_left t + missing s i N M \<and> (N = M \<longrightarrow> inodes t = inodes s))"
proof (cases "bn < N")
  case True
  then have N': "max N (Suc bn) = N" by simp
  note d = file_okD [OF f]
  show ?thesis unfolding N' Let_def
  proof (rule okP_mono [OF bmap_mapped [OF t d(1) True]], unfold split_paired_all case_prod_conv, elim conjE)
    fix a t assume a: "a = addr_of s i bn" "txn (3 * missing s i N M + k) (Suc (Suc j)) t" "rsame s t"
    note w = wsame_file [OF rsame_wsame [OF a(3)] f]
    have "missing t i N M = missing s i N M" by (simp add: missing_def w(4))
    then show "a = addr_of t i bn \<and> txn (3 * missing t i N M + k) (Suc (Suc j)) t \<and> file_ok t i N \<and> gstep i N N s t
      \<and> gsame i N s t \<and> free_left s + missing t i N M = free_left t + missing s i N M \<and> (N = M \<longrightarrow> inodes t = inodes s)"
      using a w rsame_addr [OF a(3)] rsame_byte [OF a(3)] rsame_sel(1) [OF a(3)] by (simp add: gsame_def)
  qed
next
  case False
  then have N': "bn = N" "max N (Suc bn) = Suc N" using bn by simp_all
  define m where "m = (if NDIRECT < M \<and> ind s i = 0 \<and> N < NDIRECT then M - N else M - Suc N)"
  have m: "missing s i N M = missing s i N (Suc N) + m"
    using bn N'(1) M by (auto simp: missing_def m_def)
  have t': "txn (3 * missing s i N (Suc N) + (3 * m + k)) (Suc (Suc j)) s" using t by (simp add: m algebra_simps)
  have N: "N < MAXFILE" and e': "missing s i N (Suc N) \<le> free_left s" using bn N' M e m by simp_all
  have fin: "missing t i (Suc N) M = m" if "ind t i = 0 \<longleftrightarrow> ind s i = 0 \<and> N < NDIRECT" for t
    using that bn N'(1) by (auto simp: missing_def m_def)
  show ?thesis unfolding N' Let_def
    by (rule okP_mono [OF bmap_grow [OF t' f N e']]) (use bn N'(1) in \<open>auto simp: mapped_def fin m\<close>)
qed

text \<open>The blocks of \<open>n\<close> bytes.\<close>

definition blocks_for :: "nat \<Rightarrow> nat" where
  "blocks_for n = (n + BSIZE - 1) div BSIZE"

lemma blocks_for_le: "blocks_for n \<le> M \<longleftrightarrow> n \<le> M * BSIZE"
proof -
  have "blocks_for n \<le> M \<longleftrightarrow> blocks_for n < Suc M" by linarith
  also have "\<dots> \<longleftrightarrow> n + BSIZE - 1 < Suc M * BSIZE" unfolding blocks_for_def by (simp add: div_less_iff_less_mult BSIZE_def)
  also have "\<dots> \<longleftrightarrow> n \<le> M * BSIZE" by (simp add: BSIZE_def) linarith
  finally show ?thesis .
qed

definition gpost :: "nat \<Rightarrow> nat \<Rightarrow> nat \<Rightarrow> nat \<Rightarrow> nat \<Rightarrow> nat \<Rightarrow> byte list \<Rightarrow> 'a fsk_scheme \<Rightarrow> 'a fsk_scheme \<Rightarrow> bool" where
  "gpost k j i N M off src s t \<longleftrightarrow> txn k (Suc (Suc j)) t \<and> file_ok t i M \<and> gstep i N M s t
     \<and> free_left s = free_left t + missing s i N M \<and> (N = M \<longrightarrow> inodes t = inodes s)
     \<and> (\<forall>x < max (N * BSIZE) (off + length src). file_byte t i x = spliced off src (file_byte s i) x)"

lemma gpost_nil:
  assumes "txn k (Suc (Suc j)) s" "file_ok s i N" "off \<le> N * BSIZE" "M = max N (blocks_for off)"
  shows "gpost k j i N M off [] s s"
proof -
  have "M = N" using assms(3,4) blocks_for_le [of off N] by simp
  moreover have "missing s i N N = 0" using ind_mapped [OF assms(2)] by (auto simp: missing_def)
  ultimately show ?thesis using assms by (auto simp: gpost_def)
qed

text \<open>The bytes after one turn and the rest of the loop.\<close>

lemma spliced_turn:
  assumes x: "x < max (N * BSIZE) (off + length src)" and m: "m \<le> length src" "off \<le> N * BSIZE" "off + m \<le> N' * BSIZE" "N \<le> N'"
    and t: "gsame i N s t" and u: "\<forall>x < N' * BSIZE. file_byte u i x = spliced off (take m src) (file_byte t i) x"
    and v: "\<forall>x < max (N' * BSIZE) (off + m + length (drop m src)). file_byte v i x = spliced (off + m) (drop m src) (file_byte u i) x"
  shows "file_byte v i x = spliced off src (file_byte s i) x"
proof -
  have NN: "N * BSIZE \<le> N' * BSIZE" using mult_le_mono1 [OF m(4)] .
  have "x < max (N' * BSIZE) (off + m + length (drop m src))" using x m(1) NN unfolding length_drop less_max_iff_disj by linarith
  then have vx: "file_byte v i x = spliced (off + m) (drop m src) (file_byte u i) x" using v by blast
  show ?thesis
  proof (cases "x < N * BSIZE")
    case True
    then have "x < N' * BSIZE" using NN by linarith
    then have "file_byte u i x = spliced off (take m src) (file_byte t i) x" "file_byte t i x = file_byte s i x"
      using u t True unfolding gsame_def by blast+
    then have "file_byte v i x = spliced (off + m) (drop m src) (spliced off (take m src) (file_byte s i)) x"
      unfolding vx by (simp add: spliced_def)
    then show ?thesis by (simp only: spliced_split [OF m(1)])
  next
    case False
    then have o: "off \<le> x" "x < off + length src" using x m(2) by auto
    show ?thesis
    proof (cases "x < off + m")
      case True
      then have "file_byte u i x = take m src ! (x - off)" using u m(1,3) o by (simp add: spliced_def del: mult_le_mono1)
      then show ?thesis using vx True o by (simp add: spliced_def)
    next
      case False
      then show ?thesis using vx o m(1) by (simp add: spliced_def)
    qed
  qed
qed

lemma writei_loop_grow:
  assumes "txn (nblks off (length src) + (3 * missing s i N M + k)) (Suc (Suc j)) s" "file_ok s i N" "off \<le> N * BSIZE"
    and "M = max N (blocks_for (off + length src))" "M \<le> MAXFILE" "missing s i N M \<le> free_left s" "length src \<le> fuel"
  shows "okP (writei_loop fuel i off src s) (gpost k j i N M off src s)"
  using assms
proof (induction fuel arbitrary: off src s N)
  case (0 off src s N)
  have "txn k (Suc (Suc j)) s" by (rule txn_less [OF 0(1)]) simp_all
  then show ?case using 0 gpost_nil [OF _ 0(2,3)] by simp
next
  case (Suc fuel)
  show ?case
  proof (cases "src = []")
    case True
    have "txn k (Suc (Suc j)) s" by (rule txn_less [OF Suc.prems(1)]) simp_all
    then show ?thesis using True Suc.prems gpost_nil [OF _ Suc.prems(2,3)] by simp
  next
    case False
    let ?bn = "off div BSIZE" let ?m = "min (length src) (BSIZE - off mod BSIZE)"
    let ?N = "max N (Suc ?bn)" let ?k = "nblks (off + ?m) (length src - ?m) + k"
    let ?tail = "\<lambda>addr t. bindr (bread (i_dev (inodes t i)) addr t) (\<lambda>(bp, s).
        bindr (log_write bp (set_data bp (put_bytes (take ?m src) (b_data (bufs s bp)) (off mod BSIZE)) s)) (\<lambda>s.
        bindr (brelse bp s) (\<lambda>s. writei_loop fuel i (off + ?m) (drop ?m src) s)))"
    have m: "1 \<le> ?m" "?m \<le> length src" using False chunk_pos [of off] by (simp_all add: Suc_le_eq)
    have "blocks_for (off + length src) \<le> M" using Suc.prems(4) by simp
    then have oM: "off + length src \<le> M * BSIZE" unfolding blocks_for_le .
    have "0 < length src" using False by simp
    then have bM: "?bn < M" using oM unfolding div_less_iff_less_mult [OF chunk_pos [of 0, simplified]] by linarith
    have bN: "?bn \<le> N" using div_le_mono [OF Suc.prems(3), of BSIZE] by (simp add: BSIZE_def)
    have nk: "nblks off (length src) = Suc (nblks (off + ?m) (length src - ?m))" using nblks_step [of "length src" ?m off] False by simp
    have t0: "txn (3 * missing s i N M + Suc ?k) (Suc (Suc j)) s" using Suc.prems(1) by (simp add: nk algebra_simps)
    have NM: "N \<le> M" using Suc.prems(4) by simp
    have "off < Suc ?bn * BSIZE" unfolding div_less_iff_less_mult [OF chunk_pos [of 0, simplified], symmetric] by simp
    have chunk: "length (take ?m src) + off mod BSIZE \<le> BSIZE" using chunk_end [of "length src" off] by simp
    have "off + ?m \<le> Suc ?bn * BSIZE"
      using chunk_end [of "length src" off] div_mult_mod_eq [of off BSIZE] unfolding mult_Suc by linarith
    then have eN: "off + ?m \<le> ?N * BSIZE" using mult_le_mono1 [OF max.cobounded2 [of "Suc ?bn" N], of BSIZE] by linarith
    have "okP (?tail (addr_of t i ?bn) t) (gpost k j i N M off src s)"
      if t: "txn (3 * missing t i ?N M + Suc ?k) (Suc (Suc j)) t" "file_ok t i ?N" "gstep i N ?N s t" "gsame i N s t"
        "free_left s + missing t i ?N M = free_left t + missing s i N M" "N = M \<Longrightarrow> inodes t = inodes s" for t
    proof -
      have bn: "?bn < ?N" by simp
      note f = file_okD(1) [OF t(2)]
      note dev = file_mapD(1) [OF f bn]
      have step: "okP (writei_loop fuel i (off + ?m) (drop ?m src) u) (gpost k j i N M off src s)"
        if u: "wpost (3 * missing t i ?N M + ?k) (Suc j) i ?N off (take ?m src) t u" for u
      proof -
        have u': "txn (3 * missing t i ?N M + ?k) (Suc (Suc j)) u" "wsame i ?N t u"
          "\<forall>x < ?N * BSIZE. file_byte u i x = spliced off (take ?m src) (file_byte t i) x"
          using u by (simp_all add: wpost_def)
        note w = wsame_file [OF u'(2) t(2)]
        have mu: "missing u i ?N M = missing t i ?N M" by (simp add: missing_def w(4))
        have "okP (writei_loop fuel i (off + ?m) (drop ?m src) u) (gpost k j i ?N M (off + ?m) (drop ?m src) u)"
        proof (rule Suc.IH [OF _ w(1)])
          show "txn (nblks (off + ?m) (length (drop ?m src)) + (3 * missing u i ?N M + k)) (Suc (Suc j)) u"
            using u'(1) by (simp add: mu algebra_simps)
          show "off + ?m \<le> ?N * BSIZE" by (rule eN)
          show "M = max ?N (blocks_for (off + ?m + length (drop ?m src)))" using Suc.prems(4) bM m(2) by simp
          show "M \<le> MAXFILE" by (rule Suc.prems(5))
          show "missing u i ?N M \<le> free_left u" using t(5) Suc.prems(6) by (simp add: mu w(3))
          have "length (drop ?m src) = length src - ?m" by simp
          then show "length (drop ?m src) \<le> fuel" using Suc.prems(7) m(1) by linarith
        qed
        then show ?thesis
        proof (rule okP_mono)
          fix v assume v: "gpost k j i ?N M (off + ?m) (drop ?m src) u v"
          have "\<forall>x < max (N * BSIZE) (off + length src). file_byte v i x = spliced off src (file_byte s i) x"
            using spliced_turn [OF _ m(2) Suc.prems(3) eN max.cobounded1 t(4) u'(3), of _ v] v unfolding gpost_def by blast
          moreover have "gstep i N M s v"
            using gstep_trans [OF gstep_trans [OF t(3) w(2)], of M v] v unfolding gpost_def by blast
          moreover have "inodes v = inodes s" if "N = M"
          proof -
            have "?N = M" using that bM by simp
            then show ?thesis using v t(6) [OF that] wsame_map(3) [OF u'(2) f] unfolding gpost_def by simp
          qed
          ultimately show "gpost k j i N M off src s v" using v t(5) w(3) mu unfolding gpost_def by simp
        qed
      qed
      have t1: "txn (Suc (3 * missing t i ?N M + ?k)) (Suc (Suc j)) t" using t(1) by simp
      from chunk_ok [OF t1 f bn chunk] show ?thesis
        unfolding dev by (auto simp: split_def elim!: okP_mono intro: step)
    qed
    then have "okP (bmap i ?bn s) (\<lambda>(a, t). okP (?tail a t) (gpost k j i N M off src s))"
      by (intro okP_mono [OF bmap_any [OF t0 Suc.prems(2) bN bM NM Suc.prems(5,6)]]) (auto simp: Let_def)
    then show ?thesis using False by (simp add: split_def Let_def)
  qed
qed

text \<open>The slot of the inode on the disk holds the inode.\<close>

definition stored :: "'a fsk_scheme \<Rightarrow> nat \<Rightarrow> bool" where
  "stored s i \<longleftrightarrow> same_dinode (load_dinode (blk s (iblock s i)) (i_inum (inodes s i)) (inodes s i)) (inodes s i)"

lemma inode_written:
  assumes t: "txn (Suc k) (Suc j) t" and f: "file_ok t i N" and z: "z < u32_mod"
  shows "okP (iupdate i (upd_inode i (\<lambda>ip. ip\<lparr>i_size := z\<rparr>) t)) (\<lambda>u. txn k (Suc j) u \<and> file_ok u i N \<and> stored u i
     \<and> inodes u = (inodes t)(i := (inodes t i)\<lparr>i_size := z\<rparr>) \<and> free_left u = free_left t
     \<and> owned u = owned t \<and> file_blocks u i N = file_blocks t i N \<and> gsame i N t u
     \<and> blk u = (blk t)(iblock t i := store_dinode (inodes u i) (blk t (iblock t i))))"
proof -
  let ?t = "upd_inode i (\<lambda>ip. ip\<lparr>i_size := z\<rparr>) t"
  note d = file_okD [OF f]
  have dev: "i_dev (inodes ?t i) = ROOTDEV" using d(1) by (simp add: file_map_def)
  have ib: "iblock ?t i = iblock t i" by simp
  have h: "iblock ?t i \<in> home (lg ?t)" "iblock ?t i \<notin> clocked (bc ?t)" using d(7) by (simp_all add: owned_def)
  have t': "txn (Suc k) (Suc j) ?t" using t by simp
  show ?thesis
  proof (rule okP_mono [OF iupdate_ok [OF t' dev h]], unfold ib, elim conjE)
    fix u assume u: "txn k (Suc j) u" "tsame ?t u" "clocked (bc u) = clocked (bc ?t)"
      "blk u = (blk ?t)(iblock t i := store_dinode (inodes ?t i) (blk ?t (iblock t i)))"
    note q = tsame_fs [OF u(2)]
    have e: "inodes u = (inodes t)(i := (inodes t i)\<lparr>i_size := z\<rparr>)" "sb u = sb t" "home (lg u) = home (lg t)"
      "clocked (bc u) = clocked (bc t)" using q u(3) by simp_all
    have b: "blk u = (blk t)(iblock t i := store_dinode (inodes u i) (blk t (iblock t i)))" using u(4) e by simp
    have "blk u (BBLOCK c (sb t)) = blk t (BBLOCK c (sb t))" if "c < sb_size (sb t)" for c
      using d(7) that by (auto simp: b owned_def)
    note bits = bits_cong [OF e(2,3,4) this]
    have iu: "ind u i = ind t i" "iblock u i = iblock t i" by (simp_all add: e)
    have a: "addr_of u i bn = addr_of t i bn" if "bn < NDIRECT \<or> ind t i \<noteq> 0" for bn
      using that d(9) by (auto simp: addr_of_def e b)
    have aN: "addr_of u i bn = addr_of t i bn" if "bn < N" for bn
      using a that ind_mapped [OF f] by (meson le_less_trans not_less)
    then have fb: "file_blocks u i N = file_blocks t i N" by (auto simp: file_blocks_def iu)
    have "inj_on (addr_of u i) {..<N} = inj_on (addr_of t i) {..<N}" using aN by (intro inj_on_cong) simp
    then have "file_map u i N" using d(1) aN by (simp add: file_map_def e)
    moreover have "inode_range (inodes u i)" using d(3) z by (simp add: inode_range_def e)
    moreover have "used u 0" using bits(1) [of 0] d(4,7) by (auto simp: owned_def)
    ultimately have ok: "file_ok u i N"
      using f a aN fb bits(2,3) iu d(10,11,12) unfolding file_ok_def by (simp add: e)
    have "stored u i" using load_store_same [OF file_okD(3) [OF ok]] by (simp add: stored_def iu b)
    moreover have "gsame i N t u"
      unfolding gsame_def
    proof (intro allI impI)
      fix x assume x: "x < N * BSIZE"
      show "file_byte u i x = file_byte t i x"
        by (rule file_byte_frame [OF x aN]) (use d(8) b in simp_all)
    qed
    ultimately show "txn k (Suc j) u \<and> file_ok u i N \<and> stored u i
     \<and> inodes u = (inodes t)(i := (inodes t i)\<lparr>i_size := z\<rparr>) \<and> free_left u = free_left t
     \<and> owned u = owned t \<and> file_blocks u i N = file_blocks t i N \<and> gsame i N t u
     \<and> blk u = (blk t)(iblock t i := store_dinode (inodes u i) (blk t (iblock t i)))"
      using u(1) ok e(1) bits(2,4) fb b by blast
  qed
qed

text \<open>
  What a write to the file of inode \<open>i\<close> leaves alone: the other inodes, in memory and in the slots of
  the same block of the disk, and all blocks in use that neither belong to the file nor hold its inode.
\<close>

definition others_kept :: "nat \<Rightarrow> nat \<Rightarrow> 'a fsk_scheme \<Rightarrow> 'a fsk_scheme \<Rightarrow> bool" where
  "others_kept i N s t \<longleftrightarrow> (\<forall>l. l \<noteq> i \<longrightarrow> inodes t l = inodes s l)
     \<and> (\<forall>n q. n mod IPB \<noteq> i_inum (inodes s i) mod IPB \<longrightarrow>
          load_dinode (blk t (iblock s i)) n q = load_dinode (blk s (iblock s i)) n q)
     \<and> (\<forall>b. owned s b \<longrightarrow> b \<notin> file_blocks s i N \<longrightarrow> b \<noteq> iblock s i \<longrightarrow> owned t b \<and> blk t b = blk s b)"

lemma gstep_others:
  assumes g: "gstep i N M s t" and f: "file_ok s i N"
  shows "others_kept i N s t" "iblock t i = iblock s i" "blk t (iblock s i) = blk s (iblock s i)"
    "inodes t i = (inodes s i)\<lparr>i_addrs := i_addrs (inodes t i)\<rparr>"
proof -
  note d = g [unfolded gstep_def]
  have e: "inodes t = (inodes s)(i := (inodes s i)\<lparr>i_addrs := i_addrs (inodes t i)\<rparr>)" using d by blast
  show i: "inodes t i = (inodes s i)\<lparr>i_addrs := i_addrs (inodes t i)\<rparr>" using fun_cong [OF e, of i] by simp
  then show "iblock t i = iblock s i" using d by (metis inode.select_convs(2) inode.surjective inode.update_convs(11))
  have "iblock s i \<notin> file_blocks s i N" "owned s (iblock s i)" using f by (simp_all add: file_ok_def)
  then show b: "blk t (iblock s i) = blk s (iblock s i)" using d by blast
  have "inodes t l = inodes s l" if "l \<noteq> i" for l using fun_cong [OF e, of l] that by simp
  then show "others_kept i N s t" using d b by (simp add: others_kept_def)
qed

lemma others_written:
  assumes k: "others_kept i N s t" and u: "owned u = owned t" "inodes u = (inodes t)(i := p)"
    and b: "blk u = (blk t)(iblock s i := store_dinode p (blk t (iblock s i)))" and n: "i_inum p = i_inum (inodes s i)"
  shows "others_kept i N s u"
  using k u n load_store_other [of _ p] by (auto simp: others_kept_def b)

text \<open>
  C8: Writing \<open>src\<close> at \<open>off\<close> to a file of \<open>N\<close> blocks, up to and beyond its end, replaces exactly those
  bytes of its content and makes it as long as needed. The blocks it needs beyond its own, the
  indirect block included, come from the free blocks of the bitmap and are recorded in the inode or
  the indirect block; the inode on the disk is brought up to date; no other inode and no block in use
  by anything else changes. The log has room for a block written for each block of the file touched,
  three for each block allocated and one for the inode, though the log absorbs repeated writes.
\<close>

theorem writei_content:
  assumes "txn (nblks off (length src) + (3 * missing s i N M + Suc k)) (Suc (Suc j)) s" "i_type (inodes s i) \<noteq> T_DEV"
    and "file_ok s i N" "stored s i" "i_size (inodes s i) \<le> N * BSIZE" "off \<le> i_size (inodes s i)"
    and "off + length src \<le> MAXFILE * BSIZE" "M = max N (blocks_for (off + length src))" "missing s i N M \<le> free_left s"
  shows "okP (writei i src off s) (\<lambda>(r, t). r = int (length src) \<and> txn k (Suc (Suc j)) t
     \<and> content t i = take off (content s i) @ src @ drop (off + length src) (content s i)
     \<and> inodes t i = (inodes s i)\<lparr>i_size := max (i_size (inodes s i)) (off + length src), i_addrs := i_addrs (inodes t i)\<rparr>
     \<and> file_ok t i M \<and> stored t i \<and> free_left s = free_left t + missing s i N M \<and> others_kept i N s t)"
proof -
  let ?size = "i_size (inodes s i)" and ?n = "length src"
  let ?Q = "\<lambda>t. txn k (Suc (Suc j)) t
     \<and> content t i = take off (content s i) @ src @ drop (off + ?n) (content s i)
     \<and> inodes t i = (inodes s i)\<lparr>i_size := max ?size (off + ?n), i_addrs := i_addrs (inodes t i)\<rparr>
     \<and> file_ok t i M \<and> stored t i \<and> free_left s = free_left t + missing s i N M \<and> others_kept i N s t"
  have guards: "wrap32 (off + ?n) = off + ?n" "\<not> MAXFILE * BSIZE < off + ?n" using assms(7) by (simp_all add: layout_simps)
  have oN: "off \<le> N * BSIZE" using assms(5,6) by linarith
  have MM: "M \<le> MAXFILE" using assms(3,7,8) by (simp add: blocks_for_le) (simp add: file_ok_def file_map_def)
  have "okP (writei_loop ?n i off src s) (\<lambda>t. okP (if 0 < ?n \<and> i_size (inodes t i) < off + ?n
      then iupdate i (upd_inode i (\<lambda>ip. ip\<lparr>i_size := off + ?n\<rparr>) t) else Ok t) ?Q)"
  proof (rule okP_mono [OF writei_loop_grow [OF assms(1,3) oN assms(8) MM assms(9) order_refl]])
    fix t assume g: "gpost (Suc k) j i N M off src s t"
    then have t: "txn (Suc k) (Suc (Suc j)) t" "file_ok t i M" "gstep i N M s t"
      "free_left s = free_left t + missing s i N M" "N = M \<longrightarrow> inodes t = inodes s"
      and byt: "\<And>x. x < max (N * BSIZE) (off + ?n) \<Longrightarrow> file_byte t i x = spliced off src (file_byte s i) x"
      unfolding gpost_def by blast+
    note o = gstep_others [OF t(3) assms(3)]
    have sz: "i_size (inodes t i) = ?size" by (subst o(4)) simp
    have len: "off + ?n \<le> M * BSIZE" using assms(8) blocks_for_le [of "off + ?n" M] by simp
    show "okP (if 0 < ?n \<and> i_size (inodes t i) < off + ?n
      then iupdate i (upd_inode i (\<lambda>ip. ip\<lparr>i_size := off + ?n\<rparr>) t) else Ok t) ?Q"
    proof (cases "0 < ?n \<and> ?size < off + ?n")
      case True
      have z: "off + ?n < u32_mod" using assms(7) by (simp add: layout_simps)
      have "okP (iupdate i (upd_inode i (\<lambda>ip. ip\<lparr>i_size := off + ?n\<rparr>) t)) ?Q"
      proof (rule okP_mono [OF inode_written [OF t(1,2) z]], elim conjE)
        fix u assume u: "txn k (Suc (Suc j)) u" "file_ok u i M" "stored u i" "inodes u = (inodes t)(i := (inodes t i)\<lparr>i_size := off + ?n\<rparr>)"
          "free_left u = free_left t" "owned u = owned t" "gsame i M t u"
          "blk u = (blk t)(iblock t i := store_dinode (inodes u i) (blk t (iblock t i)))"
        have ui: "inodes u i = (inodes s i)\<lparr>i_size := max ?size (off + ?n), i_addrs := i_addrs (inodes u i)\<rparr>"
          using True by (simp add: u(4)) (subst o(4), simp)
        have "content u i = take off (content s i) @ src @ drop (off + ?n) (content s i)"
        proof (rule content_spliced [OF _ _ assms(6)])
          show "i_size (inodes u i) = max ?size (off + ?n)" by (subst ui) simp
          show "\<forall>x < max ?size (off + ?n). file_byte u i x = spliced off src (file_byte s i) x"
          proof (intro allI impI)
            fix x assume "x < max ?size (off + ?n)"
            then have "x < M * BSIZE" "x < max (N * BSIZE) (off + ?n)" using True len by simp_all
            then show "file_byte u i x = spliced off src (file_byte s i) x" using u(7) byt by (simp add: gsame_def)
          qed
        qed
        moreover have "others_kept i N s u"
        proof (rule others_written [OF o(1) u(6,4)])
          show "blk u = (blk t)(iblock s i := store_dinode ((inodes t i)\<lparr>i_size := off + ?n\<rparr>) (blk t (iblock s i)))"
            using u(8) by (simp add: o(2) u(4))
          show "i_inum ((inodes t i)\<lparr>i_size := off + ?n\<rparr>) = i_inum (inodes s i)" by (simp, subst o(4), simp)
        qed
        ultimately show "?Q u" using u(1,2,3,5) ui t(4) by simp
      qed
      then show ?thesis using True by (simp add: sz)
    next
      case False
      then have le: "off + ?n \<le> ?size" using assms(6) by (cases "?n = 0") simp_all
      then have "M = N" using assms(5,8) blocks_for_le [of "off + ?n" N] by simp
      then have i: "inodes t = inodes s" using t(5) by simp
      have "content t i = take off (content s i) @ src @ drop (off + ?n) (content s i)"
      proof (rule content_spliced [OF _ _ assms(6)])
        show "\<forall>x < max ?size (off + ?n). file_byte t i x = spliced off src (file_byte s i) x" using byt le assms(5) by simp
        show "i_size (inodes t i) = max ?size (off + ?n)" using le by (simp add: i)
      qed
      moreover have "stored t i" using assms(4) o(2,3) by (simp add: stored_def i)
      moreover have "inodes t i = (inodes s i)\<lparr>i_size := max ?size (off + ?n), i_addrs := i_addrs (inodes t i)\<rparr>"
        using le by (simp add: i max_def)
      ultimately have "okP (Ok t) ?Q" using t o(1) txn_less [OF t(1), of k "Suc (Suc j)"] by simp
      then show ?thesis unfolding sz if_not_P [OF False] .
    qed
  qed
  then show ?thesis
    using assms(2,6) guards by (simp add: writei_def Let_def split_def not_less)
qed

section \<open>A file that grows\<close>

text \<open>
  Inode 17 with 1000 bytes in the blocks 70 and 71 on a disk on which the blocks below 72 are in use.
\<close>

definition grow_file :: inode where
  "grow_file = demo_file\<lparr>i_size := 1000\<rparr>"

definition grow_disk :: "nat \<Rightarrow> dsk" where
  "grow_disk = (\<lambda>dev n. if n = 58 then (\<lambda>x. if x < 9 then - 1 else 0)
     else if n = 34 then store_dinode grow_file (\<lambda>_. 0) else (\<lambda>_. 0))"

definition grow_open :: trapk where
  "grow_open = upd_inode 0 (\<lambda>_. grow_file) (demo grow_disk)"

lemma grow_open_ok:
  assumes "k < 30" "k + j \<le> 30"
  shows "txn k j grow_open"
proof -
  have h: "head_n (grow_disk ROOTDEV 2) = 0" by (simp add: grow_disk_def head_n_def s32_def rd32_def)
  show ?thesis unfolding grow_open_def txn_upd_inode by (rule demo_txn [where d = grow_disk, OF h assms])
qed

lemma grow_open_sel:
  "inodes grow_open 0 = grow_file" "sb grow_open = demo_sb" "lg grow_open = demo_logst" "clocked (bc grow_open) = {}"
  "blk grow_open = grow_disk ROOTDEV"
  by (simp_all add: grow_open_def demo_bio)

lemma grow_file_sel: "i_dev grow_file = ROOTDEV" "i_inum grow_file = 17" "i_size grow_file = 1000" "i_type grow_file = T_FILE"
  "i_addrs grow_file k = (if k < 2 then 70 + k else 0)"
  by (simp_all add: grow_file_def demo_file_def demo_ino_def)

lemma grow_open_used: "m < 1000 \<Longrightarrow> used grow_open m \<longleftrightarrow> m < 72"
proof -
  assume m: "m < 1000"
  have "m div 8 < 9 \<longleftrightarrow> m < 72" "m mod 8 < 8" by auto
  then show ?thesis
    using m by (auto simp: used_def grow_open_sel grow_disk_def demo_sb_def BBLOCK_def BPB_def bit_used_iff)
qed

lemma grow_open_addr: "k < 12 \<Longrightarrow> addr_of grow_open 0 k = (if k < 2 then 70 + k else 0)"
  by (simp add: addr_of_def grow_open_sel grow_file_sel NDIRECT_def)

lemma grow_open_block: "c < 1000 \<Longrightarrow> BBLOCK c demo_sb = 58"
  by (simp add: BBLOCK_def BPB_def demo_sb_def)

lemma grow_open_owned: "owned grow_open b \<longleftrightarrow> b < 72 \<and> b \<noteq> 58 \<and> (b < 2 \<or> 32 \<le> b)"
proof -
  have s: "sb_size demo_sb = 1000" by (simp add: demo_sb_def)
  have B: "(\<forall>c < 1000. b \<noteq> BBLOCK c demo_sb) \<longleftrightarrow> b \<noteq> 58" using grow_open_block by (metis zero_less_numeral)
  have "owned grow_open b \<longleftrightarrow> b < 1000 \<and> used grow_open b \<and> (b < 2 \<or> 32 \<le> b) \<and> b \<noteq> 58"
    unfolding owned_def grow_open_sel s B demo_home by auto
  then show ?thesis using grow_open_used [of b] by auto
qed

lemma grow_open_file: "file_ok grow_open 0 2"
proof (rule file_okI, goal_cases)
  case 3
  have s: "sb_size demo_sb = 1000" by (simp add: demo_sb_def)
  have B: "BBLOCK b demo_sb = 58" "used grow_open b = (b < 72)" if "b < 1000" for b
    using that grow_open_block grow_open_used [of b] by auto
  show ?case unfolding bitmap_ok_def grow_open_sel s demo_home
    by (intro allI impI conjI) (simp_all add: B)
next
  case 4 show ?case by (simp add: inode_range_def grow_open_sel grow_file_sel) (simp add: grow_file_def demo_file_def demo_ino_def layout_simps)
qed (simp_all add: grow_open_sel grow_file_sel layout_simps grow_open_used grow_open_owned grow_open_addr IBLOCK_def demo_sb_def inj_on_def)

lemma grow_open_stored: "stored grow_open 0"
proof -
  have "inode_range grow_file" using file_okD(3) [OF grow_open_file] by (simp add: grow_open_sel)
  from load_store_same [OF this] show ?thesis
    by (simp add: stored_def grow_open_sel grow_file_sel grow_disk_def IBLOCK_def IPB_def demo_sb_def)
qed

lemma grow_open_free: "free_left grow_open = 928"
proof -
  have "{b. b < sb_size (sb grow_open) \<and> \<not> used grow_open b} = {72..<1000}"
    using grow_open_used by (auto simp: grow_open_sel demo_sb_def not_less)
  then show ?thesis by (simp add: free_left_def)
qed

text \<open>100 bytes after the 1000 of the file: block 72 is taken and recorded in the inode on the disk.\<close>

lemma writei_content_witness:
  "okP (writei 0 (replicate 100 7) 1000 grow_open) (\<lambda>(r, t). r = 100 \<and> length (content t 0) = 1100
     \<and> content t 0 ! 1099 = 7 \<and> file_ok t 0 3 \<and> stored t 0 \<and> free_left t = 927)"
proof -
  have m: "missing grow_open 0 2 3 = 1" "blocks_for 1100 = 3" "nblks 1000 100 = 2"
    by (simp_all add: missing_def blocks_for_def nblks_def BSIZE_def NDIRECT_def)
  have t: "txn (nblks 1000 (length (replicate 100 (7 :: byte))) + (3 * missing grow_open 0 2 3 + Suc 0)) (Suc (Suc 0)) grow_open"
    by (rule grow_open_ok) (simp_all add: m)
  have len: "length (content grow_open 0) = 1000" by (simp add: content_def grow_open_sel grow_file_sel)
  show ?thesis
    by (rule okP_mono [OF writei_content [OF t _ grow_open_file grow_open_stored]])
      (use len in \<open>auto simp: grow_open_sel grow_file_sel layout_simps nth_append m grow_open_free\<close>)
qed

end
