(* ===== verification/DirSpec.thy ===== *)
theory DirSpec
  imports ContentSpec
begin

text \<open>
  Directories and paths: \<open>dirlookup\<close> searches the list of entries that the content of the directory
  encodes, and \<open>skipelem\<close> splits a path at its slashes.
\<close>

section \<open>Directories\<close>

text \<open>Entry \<open>n\<close> of a directory, and the entries that carry a name.\<close>

definition dirent :: "'a fsk_scheme \<Rightarrow> nat \<Rightarrow> nat \<Rightarrow> mem" where
  "dirent s i n = arr (take 16 (drop (16 * n) (content s i)))"

definition entry_is :: "mem \<Rightarrow> mem \<Rightarrow> bool" where
  "entry_is name de \<longleftrightarrow> rd16 de 0 \<noteq> 0 \<and> array_str de 2 DIRSIZ = array_str name 0 DIRSIZ"

lemma entry_is_namecmp: "rd16 de 0 \<noteq> 0 \<and> namecmp name 0 de 2 = 0 \<longleftrightarrow> entry_is name de"
  by (auto simp: entry_is_def namecmp_def strncmp_eq_0_iff)

text \<open>The search that \<open>dirlookup\<close> is meant to be.\<close>

definition dir_search :: "nat \<Rightarrow> mem \<Rightarrow> 'a fsk_scheme \<Rightarrow> nat option" where
  "dir_search i name s = first_idx (i_size (inodes s i) div 16) (\<lambda>n. entry_is name (dirent s i n))"

text \<open>Reading a part of a file whose blocks are allocated, whatever its size.\<close>

lemma readi_part:
  assumes "txn k (Suc j) s" "i_type (inodes s i) \<noteq> T_DEV" "file_map s i N" "off + n \<le> N * BSIZE"
    and "off + n \<le> i_size (inodes s i)" "off + n < u32_mod"
  shows "okP (readi i off n s) (\<lambda>(r, bs, t). bs = take n (drop off (content s i)) \<and> r = int n \<and> txn k (Suc j) t \<and> rsame s t)"
proof -
  have sl: "map (file_byte s i) [off..<off + n] = take n (drop off (content s i))"
    by (rule nth_equalityI) (use assms(5) in \<open>auto simp: content_def\<close>)
  have "okP (readi_loop n i off n s) (\<lambda>(bs, t). bs = map (file_byte s i) [off..<off + n] \<and> txn k (Suc j) t \<and> rsame s t)"
    by (rule readi_loop_ok [OF assms(1,3,4)]) simp
  then show ?thesis
    using assms(2,5,6) by (simp add: readi_def Let_def split_def not_less sl)
qed

text \<open>One turn of the loop.\<close>

lemma dirlookup_turn:
  assumes "txn k (Suc j) s" "i_type (inodes s i) \<noteq> T_DEV" "file_map s i N" "16 * n + 16 \<le> N * BSIZE"
    and sz: "16 * n + 16 \<le> i_size (inodes s i)"
  shows "\<exists>t. txn k (Suc j) t \<and> rsame s t \<and> dirlookup_from (Suc f) (16 * n) i name s =
     (if entry_is name (dirent s i n) then bindr (iget (i_dev (inodes s i)) (rd16 (dirent s i n) 0) t) (\<lambda>(ip, u). Ok (Some (ip, 16 * n), u))
      else dirlookup_from f (16 * Suc n) i name t)"
proof -
  have "N * BSIZE \<le> MAXFILE * BSIZE" using assms(3) by (auto simp: file_map_def layout_simps)
  then have "16 * n + 16 < u32_mod" using assms(4) by (simp add: layout_simps)
  from readi_part [OF assms(1-5) this]
  obtain t where t: "readi i (16 * n) 16 s = Ok (16, take 16 (drop (16 * n) (content s i)), t)" "txn k (Suc j) t" "rsame s t"
    by (auto simp: okP_iff)
  have "16 * n < i_size (inodes s i)" using sz by simp
  then have "dirlookup_from (Suc f) (16 * n) i name s =
      (if entry_is name (dirent s i n) then bindr (iget (i_dev (inodes s i)) (rd16 (dirent s i n) 0) t) (\<lambda>(ip, u). Ok (Some (ip, 16 * n), u))
       else dirlookup_from f (16 * Suc n) i name t)"
    by (simp add: t(1) Let_def entry_is_namecmp [symmetric] dirent_def rsame_sel [OF t(3)] add.commute)
  then show ?thesis using t(2,3) by blast
qed

text \<open>What the turns have left alone.\<close>

lemma rsame_dirent: "rsame s t \<Longrightarrow> dirent t i = dirent s i"
  by (intro ext) (simp add: dirent_def rsame_content)

lemma dirlookup_from_ok:
  assumes "txn k (Suc j) s" "i_type (inodes s i) \<noteq> T_DEV" "file_map s i N" "16 * M = i_size (inodes s i)"
    and "i_size (inodes s i) \<le> N * BSIZE" "n + m = M"
  shows "\<exists>t. txn k (Suc j) t \<and> rsame s t \<and> dirlookup_from (Suc m) (16 * n) i name s =
     (case first_from n m (\<lambda>n. entry_is name (dirent s i n)) of None \<Rightarrow> Ok (None, t)
      | Some e \<Rightarrow> bindr (iget (i_dev (inodes s i)) (rd16 (dirent s i e) 0) t) (\<lambda>(ip, u). Ok (Some (ip, 16 * e), u)))"
  using assms
proof (induction m arbitrary: n s)
  case 0
  then show ?case by (intro exI [of _ s]) simp
next
  case (Suc m)
  have "16 * n + 16 \<le> i_size (inodes s i)" "16 * n + 16 \<le> N * BSIZE" using Suc.prems(4-6) by simp_all
  from dirlookup_turn [OF Suc.prems(1-3) this(2,1), of "Suc m" name] obtain t where t: "txn k (Suc j) t" "rsame s t"
    "dirlookup_from (Suc (Suc m)) (16 * n) i name s =
       (if entry_is name (dirent s i n) then bindr (iget (i_dev (inodes s i)) (rd16 (dirent s i n) 0) t) (\<lambda>(ip, u). Ok (Some (ip, 16 * n), u))
        else dirlookup_from (Suc m) (16 * Suc n) i name t)" by blast
  note e = rsame_sel [OF t(2)]
  show ?case
  proof (cases "entry_is name (dirent s i n)")
    case True
    then show ?thesis using t(1,2) unfolding t(3) by (intro exI [of _ t]) simp
  next
    case False
    obtain u where u: "txn k (Suc j) u" "rsame t u" "dirlookup_from (Suc m) (16 * Suc n) i name t =
        (case first_from (Suc n) m (\<lambda>n. entry_is name (dirent s i n)) of None \<Rightarrow> Ok (None, u)
        | Some e \<Rightarrow> bindr (iget (i_dev (inodes s i)) (rd16 (dirent s i e) 0) u) (\<lambda>(ip, u). Ok (Some (ip, 16 * e), u)))"
      using Suc.IH [OF t(1), of "Suc n"] Suc.prems unfolding rsame_dirent [OF t(2)] e by auto
    have "rsame s u" by (rule rsame_trans [OF t(2) u(2)])
    then show ?thesis using False u(1,3) unfolding t(3) by (intro exI [of _ u]) simp
  qed
qed

text \<open>An entry in the blocks that are allocated is found even when the size of the directory reaches beyond them.\<close>

lemma dirlookup_from_found:
  assumes "txn k (Suc j) s" "i_type (inodes s i) \<noteq> T_DEV" "file_map s i N" "16 * M \<le> i_size (inodes s i)"
    and "16 * M \<le> N * BSIZE" "n + m = M" "first_from n m (\<lambda>n. entry_is name (dirent s i n)) = Some e" "m \<le> f"
  shows "\<exists>t. txn k (Suc j) t \<and> rsame s t \<and> dirlookup_from f (16 * n) i name s =
     bindr (iget (i_dev (inodes s i)) (rd16 (dirent s i e) 0) t) (\<lambda>(ip, u). Ok (Some (ip, 16 * e), u))"
  using assms
proof (induction m arbitrary: n s f)
  case 0
  then show ?case by simp
next
  case (Suc m)
  obtain g where f: "f = Suc g" "m \<le> g" using Suc.prems(8) by (cases f) simp_all
  have "16 * n + 16 \<le> i_size (inodes s i)" "16 * n + 16 \<le> N * BSIZE" using Suc.prems(4-6) by simp_all
  from dirlookup_turn [OF Suc.prems(1-3) this(2,1), of g name] obtain t where t: "txn k (Suc j) t" "rsame s t"
    "dirlookup_from f (16 * n) i name s =
       (if entry_is name (dirent s i n) then bindr (iget (i_dev (inodes s i)) (rd16 (dirent s i n) 0) t) (\<lambda>(ip, u). Ok (Some (ip, 16 * n), u))
        else dirlookup_from g (16 * Suc n) i name t)" unfolding f(1) by blast
  show ?case
  proof (cases "entry_is name (dirent s i n)")
    case True
    then show ?thesis using t(1,2) Suc.prems(7) unfolding t(3) by (intro exI [of _ t]) simp
  next
    case False
    have "\<exists>u. txn k (Suc j) u \<and> rsame t u \<and> dirlookup_from g (16 * Suc n) i name t =
        bindr (iget (i_dev (inodes t i)) (rd16 (dirent t i e) 0) u) (\<lambda>(ip, u). Ok (Some (ip, 16 * e), u))"
      by (rule Suc.IH [OF t(1)]) (use Suc.prems False f(2) in \<open>simp_all add: rsame_sel [OF t(2)] rsame_dirent [OF t(2)]\<close>)
    then obtain u where u: "txn k (Suc j) u" "rsame t u" "dirlookup_from g (16 * Suc n) i name t =
        bindr (iget (i_dev (inodes t i)) (rd16 (dirent t i e) 0) u) (\<lambda>(ip, u). Ok (Some (ip, 16 * e), u))" by blast
    have "rsame s u" by (rule rsame_trans [OF t(2) u(2)])
    then show ?thesis using False u(1,3) unfolding t(3) by (intro exI [of _ u]) (simp add: rsame_sel [OF t(2)] rsame_dirent [OF t(2)])
  qed
qed

lemma dirlookup_found:
  assumes "txn k (Suc j) s" "i_type (inodes s i) = T_DIR" "file_map s i N" "16 * M \<le> i_size (inodes s i)" "16 * M \<le> N * BSIZE"
    and "first_idx M (\<lambda>n. entry_is name (dirent s i n)) = Some e"
  shows "\<exists>t. txn k (Suc j) t \<and> dirlookup i name s =
     bindr (iget (i_dev (inodes s i)) (rd16 (dirent s i e) 0) t) (\<lambda>(ip, u). Ok (Some (ip, 16 * e), u))"
proof -
  have "i_type (inodes s i) \<noteq> T_DEV" "M \<le> i_size (inodes s i) div 16 + 1" using assms(2,4) by (simp_all add: layout_simps)
  from dirlookup_from_found [OF assms(1) this(1) assms(3-5), of 0 M name e, OF _ _ this(2)] assms(6)
  show ?thesis using assms(2) by (auto simp: dirlookup_def first_idx_def simp del: dirlookup_from.simps)
qed

lemma dirlookup_ok:
  assumes "txn k (Suc j) s" "i_type (inodes s i) = T_DIR" "file_map s i N" "16 dvd i_size (inodes s i)"
    and "i_size (inodes s i) \<le> N * BSIZE"
  shows "\<exists>t. txn k (Suc j) t \<and> content t i = content s i \<and> inodes t = inodes s \<and> blk t = blk s \<and> dirlookup i name s =
     (case dir_search i name s of None \<Rightarrow> Ok (None, t)
      | Some e \<Rightarrow> bindr (iget (i_dev (inodes s i)) (rd16 (dirent s i e) 0) t) (\<lambda>(ip, u). Ok (Some (ip, 16 * e), u)))"
proof -
  have M: "16 * (i_size (inodes s i) div 16) = i_size (inodes s i)" using assms(4) by simp
  have ty: "i_type (inodes s i) \<noteq> T_DEV" using assms(2) by (simp add: layout_simps)
  from dirlookup_from_ok [OF assms(1) ty assms(3) M assms(5), of 0 "i_size (inodes s i) div 16" name] obtain t where
    t: "txn k (Suc j) t" "rsame s t" "dirlookup_from (Suc (i_size (inodes s i) div 16)) 0 i name s =
       (case first_from 0 (i_size (inodes s i) div 16) (\<lambda>n. entry_is name (dirent s i n)) of None \<Rightarrow> Ok (None, t)
      | Some e \<Rightarrow> bindr (iget (i_dev (inodes s i)) (rd16 (dirent s i e) 0) t) (\<lambda>(ip, u). Ok (Some (ip, 16 * e), u)))"
    by auto
  then show ?thesis
    using assms(2) rsame_sel [OF t(2)] rsame_content [OF t(2)]
    by (intro exI [of _ t]) (simp add: dirlookup_def dir_search_def first_idx_def del: dirlookup_from.simps)
qed

text \<open>
  C17: \<open>dirlookup\<close> is the search of the list of entries that the content of the directory encodes: it
  takes the first entry that is in use and carries the name, caches its inode and reports its offset;
  without such an entry it finds nothing. The directory is only read.
\<close>

theorem dirlookup_searches:
  assumes "txn k (Suc j) s" "i_type (inodes s i) = T_DIR" "file_map s i N" "16 dvd i_size (inodes s i)"
    and "i_size (inodes s i) \<le> N * BSIZE"
  shows "\<exists>t. txn k (Suc j) t \<and> content t i = content s i \<and> inodes t = inodes s \<and> blk t = blk s \<and> dirlookup i name s =
     (case dir_search i name s of None \<Rightarrow> Ok (None, t)
      | Some e \<Rightarrow> bindr (iget (i_dev (inodes s i)) (rd16 (dirent s i e) 0) t) (\<lambda>(ip, u). Ok (Some (ip, 16 * e), u)))"
  by (rule dirlookup_ok [OF assms])

text \<open>A directory with the entries (1, \<open>.\<close>) and (5, \<open>hi\<close>) in block 70.\<close>

definition dir_block :: mem where
  "dir_block k = (if k = 0 then 1 else if k = 2 then 46 else if k = 16 then 5 else if k = 18 then 104 else if k = 19 then 105 else 0)"

definition dir_disk :: "nat \<Rightarrow> dsk" where
  "dir_disk = (\<lambda>dev n. if n = 70 then dir_block else fs_disk dev n)"

definition demo_dir :: trapk where
  "demo_dir = upd_inode 0 (\<lambda>_. demo_file\<lparr>i_type := T_DIR, i_size := 32\<rparr>) (demo dir_disk)"

lemma demo_dir_sel:
  "inodes demo_dir 0 = demo_file\<lparr>i_type := T_DIR, i_size := 32\<rparr>" "lg demo_dir = demo_logst" "clocked (bc demo_dir) = {}"
  "blk demo_dir = dir_disk ROOTDEV"
  by (simp_all add: demo_dir_def demo_bio)

lemma dirlookup_searches_witness:
  "\<exists>t. dirlookup 0 (arr [104, 105, 0]) demo_dir = bindr (iget ROOTDEV 5 t) (\<lambda>(ip, u). Ok (Some (ip, 16), u))"
proof -
  have h: "head_n (dir_disk ROOTDEV 2) = 0" using fs_disk_head by (simp add: dir_disk_def)
  have t: "txn (Suc 0) (Suc 0) demo_dir"
    unfolding demo_dir_def txn_upd_inode by (rule demo_txn [where d = dir_disk, OF h]) simp_all
  have m: "file_map demo_dir 0 1"
    by (simp add: file_map_def addr_of_def demo_dir_sel demo_home demo_file_def demo_ino_def layout_simps inj_on_def)
  have c: "content demo_dir 0 = map dir_block [0..<32]"
    by (simp add: content_def demo_dir_sel demo_file_def demo_ino_def)
      (simp add: file_byte_def addr_of_def demo_dir_sel demo_file_def dir_disk_def layout_simps)
  have s0: "dir_search 0 (arr [104, 105, 0]) demo_dir = Some 1"
    unfolding dir_search_def dirent_def c by (simp add: demo_dir_sel demo_file_def) code_simp
  have e: "rd16 (dirent demo_dir 0 1) 0 = 5"
    unfolding dirent_def c by code_simp
  show ?thesis
    using dirlookup_searches [OF t _ m, of "arr [104, 105, 0]"] s0 e
    by (auto simp: demo_dir_sel demo_file_def demo_ino_def layout_simps)
qed

section \<open>Paths\<close>

text \<open>The parts of a path between its slashes, and the name that an array holds.\<close>

fun split_slash :: "byte list \<Rightarrow> byte list list" where
  "split_slash [] = [[]]"
| "split_slash (c # cs) = (if c = 47 then [] # split_slash cs
     else case split_slash cs of [] \<Rightarrow> [[c]] | p # ps \<Rightarrow> (c # p) # ps)"

definition path_names :: "byte list \<Rightarrow> byte list list" where
  "path_names path = map (take DIRSIZ) (filter (\<lambda>p. p \<noteq> []) (split_slash path))"

text \<open>The names that the loop of \<open>namex\<close> sees, with the array that every turn leaves to the next.\<close>

fun walk_names :: "nat \<Rightarrow> byte list \<Rightarrow> mem \<Rightarrow> byte list list" where
  "walk_names 0 path name = []"
| "walk_names (Suc k) path name =
     (case skipelem path name of None \<Rightarrow> [] | Some (path, name) \<Rightarrow> array_str name 0 DIRSIZ # walk_names k path name)"

lemma split_slash_elem:
  "split_slash q = takeWhile (\<lambda>c. c \<noteq> 47) q # (case dropWhile (\<lambda>c. c \<noteq> 47) q of [] \<Rightarrow> [] | c # r \<Rightarrow> split_slash r)"
  by (induction q) auto

lemma path_names_nil [simp]: "path_names [] = []"
  by (simp add: path_names_def)

lemma path_names_slashes: "path_names (dropWhile (\<lambda>c. c = 47) path) = path_names path"
  by (induction path) (auto simp: path_names_def)

lemma path_names_elem:
  assumes "q \<noteq> []" "hd q \<noteq> 47"
  shows "path_names q = take DIRSIZ (takeWhile (\<lambda>c. c \<noteq> 47) q) # path_names (dropWhile (\<lambda>c. c \<noteq> 47) q)"
proof -
  have ne: "takeWhile (\<lambda>c. c \<noteq> 47) q \<noteq> []" using assms by (cases q) simp_all
  show ?thesis
  proof (cases "dropWhile (\<lambda>c. c \<noteq> 47) q")
    case Nil
    then have "split_slash q = [takeWhile (\<lambda>c. c \<noteq> 47) q]" using split_slash_elem [of q] by (simp only: list.case)
    then have "path_names q = [take DIRSIZ (takeWhile (\<lambda>c. c \<noteq> 47) q)]" using ne by (simp add: path_names_def)
    then show ?thesis unfolding Nil path_names_nil .
  next
    case (Cons c r)
    then have "c = 47" using hd_dropWhile [of "\<lambda>c. c \<noteq> 47" q] by simp
    moreover have "split_slash q = takeWhile (\<lambda>c. c \<noteq> 47) q # split_slash r"
      using split_slash_elem [of q] by (simp only: Cons list.case)
    ultimately show ?thesis using ne Cons by (simp add: path_names_def)
  qed
qed

lemma array_str_full: "0 \<notin> set bs \<Longrightarrow> array_str (put_bytes bs m a) a (length bs) = bs"
  unfolding array_str_def bytes_at_put_bytes by (auto simp: takeWhile_eq_all_conv)

lemma array_str_short:
  assumes "0 \<notin> set bs" "length bs < n"
  shows "array_str ((put_bytes bs m 0)(length bs := 0)) 0 n = bs"
proof -
  have e: "bytes_at ((put_bytes bs m 0)(length bs := 0)) 0 n = bs @ 0 # map m [Suc (length bs)..<n]"
    by (rule nth_equalityI) (use assms(2) in \<open>auto simp: nth_append put_bytes_def nth_Cons Suc_diff_Suc intro!: arg_cong [where f = m] split: nat.splits\<close>)
  show ?thesis unfolding array_str_def e using assms(1) by (subst takeWhile_append2) auto
qed

lemma skipelem_names:
  assumes "0 \<notin> set path"
  shows "case skipelem path name of None \<Rightarrow> path_names path = []
     | Some (rest, name) \<Rightarrow> path_names path = array_str name 0 DIRSIZ # path_names rest \<and> length rest < length path \<and> 0 \<notin> set rest"
proof -
  let ?q = "dropWhile (\<lambda>c. c = 47) path"
  show ?thesis
  proof (cases "?q = []")
    case True
    then have "path_names path = []" using path_names_slashes [of path] by (simp only: path_names_nil)
    then show ?thesis using True by (simp add: skipelem_def)
  next
    case False
    let ?e = "takeWhile (\<lambda>c. c \<noteq> 47) ?q" and ?r = "dropWhile (\<lambda>c. c \<noteq> 47) ?q"
    let ?n = "if DIRSIZ \<le> length ?e then put_bytes (take DIRSIZ ?e) name 0 else (put_bytes ?e name 0)(length ?e := 0)"
    have hd: "hd ?q \<noteq> 47" using hd_dropWhile [OF False] by simp
    have z: "0 \<notin> set ?e" using assms by (auto dest!: set_takeWhileD set_dropWhileD)
    have "array_str ?n 0 DIRSIZ = take DIRSIZ ?e"
    proof (cases "DIRSIZ \<le> length ?e")
      case True
      then show ?thesis using array_str_full [of "take DIRSIZ ?e" name 0] z by (auto dest: in_set_takeD)
    next
      case False
      then show ?thesis using array_str_short [OF z, of DIRSIZ name] by simp
    qed
    moreover have "path_names path = take DIRSIZ ?e # path_names (dropWhile (\<lambda>c. c = 47) ?r)"
      using path_names_elem [OF False hd] by (simp add: path_names_slashes)
    moreover have "length (dropWhile (\<lambda>c. c = 47) ?r) < length path"
    proof -
      have "length ?r < length ?q" using False hd by (cases ?q) (simp_all add: le_imp_less_Suc length_dropWhile_le)
      then show ?thesis using length_dropWhile_le [of "\<lambda>c. c = 47" ?r] length_dropWhile_le [of "\<lambda>c. c = 47" path] by linarith
    qed
    moreover have "0 \<notin> set (dropWhile (\<lambda>c. c = 47) ?r)" using assms by (auto dest!: set_dropWhileD)
    ultimately show ?thesis using False by (simp add: skipelem_def Let_def)
  qed
qed

text \<open>
  C21: The loop of \<open>namex\<close> walks over exactly the non-empty parts of the path between its slashes, in order
  and cut to \<open>DIRSIZ\<close> bytes: repeated, leading and trailing slashes do not matter, and the name
  array that one turn leaves behind never leaks into the next name.
\<close>

theorem skipelem_splits_path:
  assumes "0 \<notin> set path" "length path \<le> k"
  shows "walk_names k path name = path_names path"
  using assms
proof (induction k arbitrary: path name)
  case 0
  then show ?case by (simp add: path_names_def)
next
  case (Suc k)
  then show ?case using skipelem_names [OF Suc.prems(1), of name]
    by (auto split: option.splits)
qed

lemma skipelem_splits_path_witness:
  "walk_names 9 [47, 47, 97, 47, 98, 99, 47, 47] (\<lambda>_. 255) = [[97], [98, 99]]"
  using skipelem_splits_path [of "[47, 47, 97, 47, 98, 99, 47, 47]" 9 "\<lambda>_. 255"]
  by (simp add: path_names_def DIRSIZ_def)

end
