(* ===== verification/Mkfs.thy ===== *)
theory Mkfs
  imports Fs
begin

text \<open>
  The program that builds the disk image (\<open>mkfs.c\<close>), which runs on the host. The image file is a function
  from sectors to their bytes, with the number of sectors written so far. \<open>Panic\<close> stands for a failed
  assertion and for \<open>exit(1)\<close>; seeking and writing in the image file are taken to succeed. The on-disk
  inode is the record \<open>inode\<close> of the kernel, of which only the fields of \<open>struct dinode\<close> are used.
\<close>

section \<open>Constants and state\<close>

definition NINODES :: nat where "NINODES = 200"
definition nbitmap :: nat where "nbitmap = FSSIZE div (BSIZE * 8) + 1"
definition ninodeblocks :: nat where "ninodeblocks = NINODES div IPB + 1"
definition nlog :: nat where "nlog = LOGSIZE"
definition nmeta :: nat where "nmeta = 2 + nlog + ninodeblocks + nbitmap"
definition nblocks :: nat where "nblocks = FSSIZE - nmeta"

record mkst =
  mk_img :: "nat \<Rightarrow> mem"
  mk_len :: nat
  mk_sb :: superblock
  freeinode :: nat
  freeblock :: nat

section \<open>Byte order\<close>

text \<open>The bytes are stored lowest first and read back by a little-endian host.\<close>

definition xshort :: "nat \<Rightarrow> nat" where
  "xshort x = rd16 ((\<lambda>_. 0)(0 := of_nat x, 1 := of_nat (x div 256))) 0"

definition xint :: "nat \<Rightarrow> nat" where
  "xint x = rd32 ((\<lambda>_. 0)(0 := of_nat x, 1 := of_nat (x div 256), 2 := of_nat (x div 65536),
     3 := of_nat (x div 16777216))) 0"

lemma xshort_eq [simp]: "xshort x = x mod 65536"
  using rd16_wr16 [of "\<lambda>_. 0" 0 x] by (simp add: xshort_def wr16_def)

lemma xint_eq [simp]: "xint x = x mod u32_mod"
  using rd32_wr32 [of "\<lambda>_. 0" 0 x] by (simp add: xint_def wr32_def numeral_2_eq_2)

section \<open>Sectors\<close>

definition wsect :: "nat \<Rightarrow> mem \<Rightarrow> mkst \<Rightarrow> mkst" where
  "wsect sec buf m = m\<lparr>mk_img := (mk_img m)(sec := buf), mk_len := max (mk_len m) (sec + 1)\<rparr>"

text \<open>Reading behind the end of the file returns less than \<open>BSIZE\<close> bytes.\<close>

definition rsect :: "nat \<Rightarrow> mkst \<Rightarrow> mem res" where
  "rsect sec m = (if mk_len m \<le> sec then Panic ''read'' else Ok (mk_img m sec))"

section \<open>Inodes\<close>

definition zero_din :: inode where
  "zero_din = \<lparr>i_dev = 0, i_inum = 0, i_ref = 0, i_lock = initsleeplock ''inode'', i_valid = False, i_type = 0,
     i_major = 0, i_minor = 0, i_nlink = 0, i_size = 0, i_addrs = (\<lambda>_. 0)\<rparr>"

definition winode :: "nat \<Rightarrow> inode \<Rightarrow> mkst \<Rightarrow> mkst res" where
  "winode inum ip m =
     (let bn = IBLOCK inum (mk_sb m)
      in bindr (rsect bn m) (\<lambda>buf. Ok (wsect bn (store_dinode (ip\<lparr>i_inum := inum\<rparr>) buf) m)))"

definition rinode :: "nat \<Rightarrow> mkst \<Rightarrow> inode res" where
  "rinode inum m =
     (let bn = IBLOCK inum (mk_sb m)
      in bindr (rsect bn m) (\<lambda>buf. Ok (load_dinode buf inum zero_din)))"

definition mk_ialloc :: "int \<Rightarrow> mkst \<Rightarrow> (nat \<times> mkst) res" where
  "mk_ialloc ty m =
     (let inum = freeinode m; m = m\<lparr>freeinode := freeinode m + 1\<rparr>;
          din = zero_din\<lparr>i_type := s16 (xshort (u16_of ty)), i_nlink := s16 (xshort 1), i_size := xint 0\<rparr>
      in bindr (winode inum din m) (\<lambda>m. Ok (inum, m)))"

definition mk_balloc :: "nat \<Rightarrow> mkst \<Rightarrow> mkst res" where
  "mk_balloc bs_used m =
     (if \<not> bs_used < BSIZE * 8 then Panic ''assert used < BSIZE*8''
      else Ok (wsect (sb_bmapstart (mk_sb m)) (fold set_used [0..<bs_used] (\<lambda>_. 0)) m))"

section \<open>Appending to a file\<close>

text \<open>The sector of block \<open>fbn\<close> of the file, allocated from \<open>freeblock\<close> if there is none yet.\<close>

definition append_block :: "nat \<Rightarrow> inode \<Rightarrow> mkst \<Rightarrow> (nat \<times> inode \<times> mkst) res" where
  "append_block fbn din m =
     (if fbn < NDIRECT
      then let (din, m) = (if xint (i_addrs din fbn) = 0
             then (din\<lparr>i_addrs := (i_addrs din)(fbn := xint (freeblock m))\<rparr>, m\<lparr>freeblock := freeblock m + 1\<rparr>)
             else (din, m))
           in Ok (xint (i_addrs din fbn), din, m)
      else
        let (din, m) = (if xint (i_addrs din NDIRECT) = 0
              then (din\<lparr>i_addrs := (i_addrs din)(NDIRECT := xint (freeblock m))\<rparr>, m\<lparr>freeblock := freeblock m + 1\<rparr>)
              else (din, m))
        in bindr (rsect (xint (i_addrs din NDIRECT)) m) (\<lambda>indirect.
           let a = 4 * (fbn - NDIRECT);
               (indirect, m) = (if rd32 indirect a = 0
                 then let indirect = wr32 indirect a (xint (freeblock m));
                          m = m\<lparr>freeblock := freeblock m + 1\<rparr>
                      in (indirect, wsect (xint (i_addrs din NDIRECT)) indirect m)
                 else (indirect, m))
           in Ok (xint (rd32 indirect a), din, m)))"

text \<open>The loop of \<open>iappend\<close>: \<open>p\<close> are the bytes left, \<open>off\<close> is where they go.\<close>

function iappend_loop :: "byte list \<Rightarrow> nat \<Rightarrow> inode \<Rightarrow> mkst \<Rightarrow> (nat \<times> inode \<times> mkst) res" where
  "iappend_loop p off din m =
     (if p = [] then Ok (off, din, m)
      else
        let fbn = off div BSIZE
        in if \<not> fbn < MAXFILE then Panic ''assert fbn < MAXFILE''
           else
             bindr (append_block fbn din m) (\<lambda>(x, din, m).
             let n1 = min (length p) ((fbn + 1) * BSIZE - off)
             in bindr (rsect x m) (\<lambda>buf.
                iappend_loop (drop n1 p) (off + n1) din
                  (wsect x (put_bytes (take n1 p) buf (off - fbn * BSIZE)) m))))"
  by pat_completeness auto

lemma append_room: "0 < (off div BSIZE + 1) * BSIZE - off"
proof -
  have "off = off div BSIZE * BSIZE + off mod BSIZE" "off mod BSIZE < BSIZE" by (simp_all add: BSIZE_def)
  then show ?thesis unfolding add_mult_distrib by linarith
qed

termination iappend_loop
  by (relation "measure (\<lambda>(p, off, din, m). length p)") (use append_room in auto)

declare iappend_loop.simps [simp del]

definition iappend :: "nat \<Rightarrow> byte list \<Rightarrow> mkst \<Rightarrow> mkst res" where
  "iappend inum p m =
     bindr (rinode inum m) (\<lambda>din.
     let off = xint (i_size din)
     in bindr (iappend_loop p off din m) (\<lambda>(off, din, m).
        winode inum (din\<lparr>i_size := xint off\<rparr>) m))"

section \<open>The program\<close>

text \<open>
  A directory entry: \<open>strncpy(de.name, .., DIRSIZ)\<close> after \<open>bzero(&de, ..)\<close>. \<open>strcpy\<close> of the one- and
  two-byte names gives the same.
\<close>

definition mk_dirent :: "nat \<Rightarrow> byte list \<Rightarrow> byte list" where
  "mk_dirent inum name = bytes_at (put_bytes (take DIRSIZ name) (wr16 (\<lambda>_. 0) 0 (xshort inum)) 2) 0 16"

text \<open>The loop that copies a file; the list holds what each \<open>read\<close> of the host returns.\<close>

primrec copy_in :: "nat \<Rightarrow> byte list list \<Rightarrow> mkst \<Rightarrow> mkst res" where
  "copy_in inum [] m = Ok m"
| "copy_in inum (buf # bs) m = (if buf = [] then Ok m else bindr (iappend inum buf m) (copy_in inum bs))"

text \<open>\<open>host\<close> opens a file of the host: the reads it allows, or \<open>None\<close>. 47 is the slash, 95 the underscore.\<close>

definition add_file :: "(byte list \<Rightarrow> byte list list option) \<Rightarrow> nat \<Rightarrow> byte list \<Rightarrow> mkst \<Rightarrow> mkst res" where
  "add_file host rootino arg m =
     (if 47 \<in> set arg then Panic ''assert index''
      else
        case host arg of
          None \<Rightarrow> Panic ''open''
        | Some reads \<Rightarrow>
            let arg = (if arg \<noteq> [] \<and> hd arg = 95 then tl arg else arg)
            in bindr (mk_ialloc T_FILE m) (\<lambda>(inum, m).
               bindr (iappend rootino (mk_dirent inum arg) m) (copy_in inum reads)))"

primrec add_files :: "(byte list \<Rightarrow> byte list list option) \<Rightarrow> nat \<Rightarrow> byte list list \<Rightarrow> mkst \<Rightarrow> mkst res" where
  "add_files host rootino [] m = Ok m"
| "add_files host rootino (arg # args) m = bindr (add_file host rootino arg m) (add_files host rootino args)"

definition super :: superblock where
  "super = \<lparr>sb_size = xint FSSIZE, sb_nblocks = xint nblocks, sb_ninodes = xint NINODES, sb_nlog = xint nlog,
     sb_logstart = xint 2, sb_inodestart = xint (2 + nlog), sb_bmapstart = xint (2 + nlog + ninodeblocks)\<rparr>"

definition put_super :: "superblock \<Rightarrow> mem \<Rightarrow> mem" where
  "put_super q m = wr32 (wr32 (wr32 (wr32 (wr32 (wr32 (wr32 m 0 (sb_size q)) 4 (sb_nblocks q)) 8 (sb_ninodes q))
     12 (sb_nlog q)) 16 (sb_logstart q)) 20 (sb_inodestart q)) 24 (sb_bmapstart q)"

text \<open>The empty image: all sectors zero, the superblock in sector 1.\<close>

definition blank_image :: mkst where
  "blank_image =
     (let m = \<lparr>mk_img = (\<lambda>_ _. 0), mk_len = 0, mk_sb = super, freeinode = 1, freeblock = nmeta\<rparr>;
          m = fold (\<lambda>i. wsect i (\<lambda>_. 0)) [0..<FSSIZE] m
      in wsect 1 (put_super (mk_sb m) (\<lambda>_. 0)) m)"

text \<open>
  \<open>argv\<close> are the arguments after the program's name, the first of which is the image; \<open>created\<close> tells
  whether opening it succeeds.
\<close>

definition mkfs :: "byte list list \<Rightarrow> bool \<Rightarrow> (byte list \<Rightarrow> byte list list option) \<Rightarrow> mkst res" where
  "mkfs argv created host =
     (if argv = [] then Panic ''usage''
      else if \<not> created then Panic ''open''
      else
        bindr (mk_ialloc T_DIR blank_image) (\<lambda>(rootino, m).
        if rootino \<noteq> ROOTINO then Panic ''assert rootino''
        else
          bindr (iappend rootino (mk_dirent rootino [46]) m) (\<lambda>m.
          bindr (iappend rootino (mk_dirent rootino [46, 46]) m) (\<lambda>m.
          bindr (add_files host rootino (tl argv) m) (\<lambda>m.
          bindr (rinode rootino m) (\<lambda>din.
          let off = xint (i_size din);
              off = (off div BSIZE + 1) * BSIZE
          in bindr (winode rootino (din\<lparr>i_size := xint off\<rparr>) m) (\<lambda>m.
             mk_balloc (freeblock m) m)))))))"

end
