(* ===== verification/MkfsBlocks.thy ===== *)
theory MkfsBlocks
  imports ContentSpec Mkfs
begin

text \<open>
  How \<open>mkfs\<close> hands out the sectors of the image: every allocated sector belongs to one slot of one inode, and
  appending keeps that and adds the bytes to the file.
\<close>

section \<open>The blocks of the files\<close>

text \<open>
  The sector that an inode refers to by slot \<open>bn\<close>: a block of the file, or for \<open>MAXFILE\<close> the indirect
  block.
\<close>

definition dref :: "(nat \<Rightarrow> mem) \<Rightarrow> inode \<Rightarrow> nat \<Rightarrow> nat" where
  "dref img d bn = (if bn < NDIRECT then i_addrs d bn else if bn = MAXFILE then i_addrs d NDIRECT
     else rd32 (img (i_addrs d NDIRECT)) (4 * (bn - NDIRECT)))"

text \<open>
  \<open>S i\<close> are the slots of inode \<open>i\<close> that are in use, \<open>f i\<close> are its bytes. The slots in use refer to the
  sectors from \<open>nmeta\<close> to \<open>fb\<close>, each to one of its own; the other slots are zero, and so are the sectors
  from \<open>fb\<close> on.
\<close>

definition rep :: "(nat \<Rightarrow> mem) \<Rightarrow> nat \<Rightarrow> (nat \<Rightarrow> inode) \<Rightarrow> nat set \<Rightarrow> (nat \<Rightarrow> nat set) \<Rightarrow> (nat \<Rightarrow> nat \<Rightarrow> byte) \<Rightarrow> bool" where
  "rep img fb D L S f \<longleftrightarrow> fb \<le> FSSIZE
     \<and> bij_betw (\<lambda>(i, bn). dref img (D i) bn) (Sigma L S) {59..<fb}
     \<and> (\<forall>i \<in> L. \<forall>bn \<in> S i. bn \<le> MAXFILE \<and> (NDIRECT \<le> bn \<longrightarrow> MAXFILE \<in> S i))
     \<and> (\<forall>i \<in> L. \<forall>bn \<le> MAXFILE. bn \<notin> S i \<longrightarrow> bn < NDIRECT \<or> bn = MAXFILE \<or> MAXFILE \<in> S i \<longrightarrow> dref img (D i) bn = 0)
     \<and> (\<forall>i \<in> L. \<forall>bn \<in> S i. bn < MAXFILE \<longrightarrow> (\<forall>j < BSIZE. img (dref img (D i) bn) j = f i (bn * BSIZE + j)))
     \<and> (\<forall>b j. fb \<le> b \<longrightarrow> b < FSSIZE \<longrightarrow> j < BSIZE \<longrightarrow> img b j = 0)"

lemma repD:
  assumes "rep img fb D L S f"
  shows "fb \<le> FSSIZE" "bij_betw (\<lambda>(i, bn). dref img (D i) bn) (Sigma L S) {59..<fb}"
    "i \<in> L \<Longrightarrow> bn \<in> S i \<Longrightarrow> bn \<le> MAXFILE" "i \<in> L \<Longrightarrow> bn \<in> S i \<Longrightarrow> NDIRECT \<le> bn \<Longrightarrow> MAXFILE \<in> S i"
    "i \<in> L \<Longrightarrow> bn \<in> S i \<Longrightarrow> bn < MAXFILE \<Longrightarrow> j < BSIZE \<Longrightarrow> img (dref img (D i) bn) j = f i (bn * BSIZE + j)"
    "fb \<le> b \<Longrightarrow> b < FSSIZE \<Longrightarrow> j < BSIZE \<Longrightarrow> img b j = 0"
  using assms by (simp_all add: rep_def)

lemma rep_zero:
  assumes "rep img fb D L S f" "i \<in> L" "bn \<le> MAXFILE" "bn \<notin> S i" "bn < NDIRECT \<or> bn = MAXFILE \<or> MAXFILE \<in> S i"
  shows "dref img (D i) bn = 0"
proof -
  have "\<forall>i \<in> L. \<forall>bn \<le> MAXFILE. bn \<notin> S i \<longrightarrow> bn < NDIRECT \<or> bn = MAXFILE \<or> MAXFILE \<in> S i \<longrightarrow> dref img (D i) bn = 0"
    using assms(1) unfolding rep_def by (elim conjE)
  from this [rule_format, OF assms(2-5)] show ?thesis .
qed

lemma rep_ref:
  assumes "rep img fb D L S f" "i \<in> L" "bn \<in> S i"
  shows "59 \<le> dref img (D i) bn" "dref img (D i) bn < fb"
  using bij_betwE [OF repD(2) [OF assms(1)]] assms(2,3) by force+

lemma rep_inj:
  assumes "rep img fb D L S f" "i \<in> L" "bn \<in> S i" "i' \<in> L" "bn' \<in> S i'" "dref img (D i) bn = dref img (D i') bn'"
  shows "i = i' \<and> bn = bn'"
  using inj_onD [OF bij_betw_imp_inj_on [OF repD(2) [OF assms(1)]], of "(i, bn)" "(i', bn')"] assms(2-) by auto

lemma slots_insert: "i \<in> L \<Longrightarrow> Sigma L (S(i := insert bn (S i))) = insert (i, bn) (Sigma L S)"
  by (auto split: if_splits)

lemma bij_new:
  assumes "bij_betw r A {a..<b}" "x \<notin> A" "r' x = b" "a \<le> b" "\<And>y. y \<in> A \<Longrightarrow> r' y = r y"
  shows "bij_betw r' (insert x A) {a..<Suc b}"
proof -
  have "bij_betw r' A {a..<b}" using assms(1) bij_betw_cong [of A r' r] assms(5) by simp
  then have "bij_betw r' (A \<union> {x}) ({a..<b} \<union> {r' x})" by (rule notIn_Un_bij_betw [rotated 2]) (use assms(2,3) in auto)
  moreover have "{a..<b} \<union> {b} = {a..<Suc b}" using assms(4) by auto
  ultimately show ?thesis using assms(3) by simp
qed

lemma rd32_zero: "(\<And>j. a \<le> j \<Longrightarrow> j < a + 4 \<Longrightarrow> m j = 0) \<Longrightarrow> rd32 m a = 0"
  by (simp add: rd32_def)

text \<open>A fresh sector becomes a direct block or the indirect block.\<close>

definition refer :: "inode \<Rightarrow> nat \<Rightarrow> nat \<Rightarrow> inode" where
  "refer d bn b = d\<lparr>i_addrs := (i_addrs d)(min bn NDIRECT := b)\<rparr>"

lemma dref_refer:
  "bn < NDIRECT \<or> bn = MAXFILE \<Longrightarrow> dref img (refer d bn b) bn = b"
  "bn < NDIRECT \<Longrightarrow> bn' \<noteq> bn \<Longrightarrow> dref img (refer d bn b) bn' = dref img d bn'"
  "bn' < NDIRECT \<Longrightarrow> dref img (refer d MAXFILE b) bn' = dref img d bn'"
  "NDIRECT \<le> bn' \<Longrightarrow> bn' < MAXFILE \<Longrightarrow> dref img (refer d MAXFILE b) bn' = rd32 (img b) (4 * (bn' - NDIRECT))"
  by (auto simp: dref_def refer_def MAXFILE_def NDIRECT_def NINDIRECT_def)

lemma rep_refer:
  assumes r: "rep img fb D L S f" and i: "i \<in> L" and bn: "bn \<notin> S i" "bn < NDIRECT \<or> bn = MAXFILE"
    and fb: "59 \<le> fb" "fb < FSSIZE" and z: "bn < NDIRECT \<Longrightarrow> \<forall>j < BSIZE. f i (bn * BSIZE + j) = 0"
  shows "rep img (Suc fb) (D(i := refer (D i) bn fb)) L (S(i := insert bn (S i))) f"
proof -
  note R = repD [OF r]
  let ?D = "D(i := refer (D i) bn fb)" and ?S = "S(i := insert bn (S i))"
  have old: "dref img (?D i') bn' = dref img (D i') bn'" if "i' \<in> L" "bn' \<in> S i'" for i' bn'
  proof (cases "i' = i")
    case True
    then have ne: "bn' \<noteq> bn" using that bn by auto
    show ?thesis
    proof (cases "bn = MAXFILE")
      case m: True
      then have "bn' < NDIRECT" using R(4) [of i bn'] True that bn by force
      then show ?thesis using True m by (simp add: dref_refer)
    next
      case False
      then show ?thesis using True ne bn by (simp add: dref_refer)
    qed
  qed simp
  have new: "dref img (?D i) bn = fb" using bn by (simp add: dref_refer)
  have bij: "bij_betw (\<lambda>(i, bn). dref img (?D i) bn) (Sigma L ?S) {59..<Suc fb}"
    unfolding slots_insert [OF i] using R(2)
    by (rule bij_new) (use bn old new fb in auto)
  have zero: "dref img (?D i') bn' = 0"
    if "i' \<in> L" "bn' \<le> MAXFILE" "bn' \<notin> ?S i'" "bn' < NDIRECT \<or> bn' = MAXFILE \<or> MAXFILE \<in> ?S i'" for i' bn'
  proof (cases "i' = i \<and> bn = MAXFILE \<and> NDIRECT \<le> bn'")
    case True
    then have b': "NDIRECT \<le> bn'" "bn' < MAXFILE" using that by auto
    have "rd32 (img fb) (4 * (bn' - NDIRECT)) = 0"
      by (rule rd32_zero, rule R(6)) (use fb b' in \<open>auto simp: BSIZE_def MAXFILE_def NDIRECT_def NINDIRECT_def\<close>)
    then show ?thesis using True b' by (simp add: dref_refer)
  next
    case False
    have "dref img (?D i') bn' = dref img (D i') bn'"
      using False that bn by (cases "i' = i"; cases "bn = MAXFILE") (auto simp: dref_refer)
    moreover have "bn' < NDIRECT \<or> bn' = MAXFILE \<or> MAXFILE \<in> S i'" using that False bn by (auto split: if_splits)
    ultimately show ?thesis using rep_zero [OF r, of i' bn'] that by (auto split: if_splits)
  qed
  have data: "img (dref img (?D i') bn') j = f i' (bn' * BSIZE + j)"
    if "i' \<in> L" "bn' \<in> ?S i'" "bn' < MAXFILE" "j < BSIZE" for i' bn' j
  proof (cases "i' = i \<and> bn' = bn")
    case True
    then show ?thesis using new R(6) [of fb j] fb z that bn by auto
  next
    case False
    then have "bn' \<in> S i'" using that by (auto split: if_splits)
    then show ?thesis using old that R(5) by simp
  qed
  show ?thesis
    unfolding rep_def using bij zero data fb R(3,4,6) bn by (auto simp: MAXFILE_def split: if_splits)
qed

text \<open>A fresh sector is entered into the indirect block.\<close>

lemma dref_direct: "bn < NDIRECT \<Longrightarrow> dref img d bn = dref img' d bn" "dref img d MAXFILE = dref img' d MAXFILE"
  by (simp_all add: dref_def MAXFILE_def)

lemma dref_indirect:
  "NDIRECT \<le> bn \<Longrightarrow> bn < MAXFILE \<Longrightarrow> dref img d bn = rd32 (img (dref img d MAXFILE)) (4 * (bn - NDIRECT))"
  by (simp add: dref_def MAXFILE_def)

lemma dref_entry:
  assumes "NDIRECT \<le> bn" "bn < MAXFILE" "b < u32_mod"
  shows "dref (img(dref img d MAXFILE := wr32 (img (dref img d MAXFILE)) (4 * (bn - NDIRECT)) b)) d bn' =
    (if bn' = bn then b else dref img d bn')"
proof -
  have ne: "bn \<noteq> MAXFILE" "\<not> bn < NDIRECT" using assms by simp_all
  consider "bn' = bn" | "bn' < NDIRECT \<or> bn' = MAXFILE" | "NDIRECT \<le> bn'" "bn' \<noteq> bn" "bn' \<noteq> MAXFILE" by fastforce
  then show ?thesis
  proof cases
    case 3
    then have "4 * (bn' - NDIRECT) + 4 \<le> 4 * (bn - NDIRECT) \<or> 4 * (bn - NDIRECT) + 4 \<le> 4 * (bn' - NDIRECT)"
      using assms(1) by linarith
    then show ?thesis using 3 ne by (simp add: dref_def MAXFILE_def)
  qed (use ne assms in \<open>auto simp: dref_def MAXFILE_def\<close>)
qed

lemma dref_elsewhere: "x \<noteq> dref img d MAXFILE \<Longrightarrow> dref (img(x := buf)) d bn = dref img d bn"
  by (auto simp: dref_def MAXFILE_def)

lemma rep_entry:
  assumes r: "rep img fb D L S f" and i: "i \<in> L" and bn: "bn \<notin> S i" "NDIRECT \<le> bn" "bn < MAXFILE" and m: "MAXFILE \<in> S i"
    and fb: "59 \<le> fb" "fb < FSSIZE" and z: "\<forall>j < BSIZE. f i (bn * BSIZE + j) = 0"
  shows "rep (img(dref img (D i) MAXFILE := wr32 (img (dref img (D i) MAXFILE)) (4 * (bn - NDIRECT)) fb))
    (Suc fb) D L (S(i := insert bn (S i))) f"
proof -
  note R = repD [OF r]
  let ?I = "dref img (D i) MAXFILE" and ?S = "S(i := insert bn (S i))"
  let ?img = "img(?I := wr32 (img ?I) (4 * (bn - NDIRECT)) fb)"
  have fb32: "fb < u32_mod" using fb by (simp add: FSSIZE_def)
  have mine: "dref ?img (D i) bn' = (if bn' = bn then fb else dref img (D i) bn')" for bn'
    by (rule dref_entry [OF bn(2,3) fb32])
  have other: "dref ?img (D i') bn' = dref img (D i') bn'"
    if "i' \<in> L" "i' \<noteq> i" "bn' < NDIRECT \<or> bn' = MAXFILE \<or> MAXFILE \<in> S i'" for i' bn'
  proof (cases "bn' < NDIRECT \<or> bn' = MAXFILE")
    case True
    then show ?thesis using dref_direct by blast
  next
    case False
    then have "MAXFILE \<in> S i'" using that by simp
    then have "?I \<noteq> dref img (D i') MAXFILE" using rep_inj [OF r i m that(1)] that(2) by blast
    then show ?thesis by (rule dref_elsewhere)
  qed
  have old: "dref ?img (D i') bn' = dref img (D i') bn'" if "i' \<in> L" "bn' \<in> S i'" for i' bn'
  proof (cases "i' = i")
    case True
    then show ?thesis using mine that bn by auto
  next
    case False
    have "bn' < NDIRECT \<or> bn' = MAXFILE \<or> MAXFILE \<in> S i'" using R(4) [OF that] by (meson not_less)
    then show ?thesis by (rule other [OF that(1) False])
  qed
  have bij: "bij_betw (\<lambda>(i, bn). dref ?img (D i) bn) (Sigma L ?S) {59..<Suc fb}"
    unfolding slots_insert [OF i] using R(2)
    by (rule bij_new) (use bn mine old fb in auto)
  have zero: "dref ?img (D i') bn' = 0"
    if "i' \<in> L" "bn' \<le> MAXFILE" "bn' \<notin> ?S i'" "bn' < NDIRECT \<or> bn' = MAXFILE \<or> MAXFILE \<in> ?S i'" for i' bn'
    using that mine other rep_zero [OF r, of i' bn'] m by (cases "i' = i") auto
  have data: "?img (dref ?img (D i') bn') j = f i' (bn' * BSIZE + j)"
    if a: "i' \<in> L" "bn' \<in> ?S i'" "bn' < MAXFILE" "j < BSIZE" for i' bn' j
  proof (cases "i' = i \<and> bn' = bn")
    case True
    have "?I \<noteq> fb" using rep_ref [OF r i m] by simp
    then show ?thesis using True mine R(6) [of fb j] fb z that by auto
  next
    case False
    then have s: "bn' \<in> S i'" using that by (auto split: if_splits)
    have "dref img (D i') bn' \<noteq> ?I" using rep_inj [OF r a(1) s i m] a(3) by blast
    then show ?thesis using old [OF a(1) s] R(5) [OF a(1) s a(3,4)] by simp
  qed
  have free: "?img b j = 0" if "Suc fb \<le> b" "b < FSSIZE" "j < BSIZE" for b j
    using R(6) [of b j] that rep_ref [OF r i m] by simp
  show ?thesis
    unfolding rep_def using bij zero data free R(3,4) bn fb m by (auto split: if_splits)
qed

lemma rep_write:
  assumes r: "rep img fb D L S f" and i: "i \<in> L" and bn: "bn \<in> S i" "bn < MAXFILE"
    and g: "\<And>j. j < BSIZE \<Longrightarrow> buf j = g (bn * BSIZE + j)" "\<And>k. k div BSIZE \<noteq> bn \<Longrightarrow> g k = f i k"
  shows "rep (img(dref img (D i) bn := buf)) fb D L S (f(i := g))"
proof -
  note R = repD [OF r]
  let ?x = "dref img (D i) bn"
  let ?img = "img(?x := buf)"
  have same: "dref ?img (D i') bn' = dref img (D i') bn'"
    if "i' \<in> L" "bn' < NDIRECT \<or> bn' = MAXFILE \<or> MAXFILE \<in> S i'" for i' bn'
  proof (cases "bn' < NDIRECT \<or> bn' = MAXFILE")
    case True
    then show ?thesis using dref_direct by blast
  next
    case False
    then have "MAXFILE \<in> S i'" using that by simp
    then have "?x \<noteq> dref img (D i') MAXFILE" using rep_inj [OF r i bn(1) that(1)] bn(2) by blast
    then show ?thesis by (rule dref_elsewhere)
  qed
  have old: "dref ?img (D i') bn' = dref img (D i') bn'" if "i' \<in> L" "bn' \<in> S i'" for i' bn'
  proof (rule same [OF that(1)])
    show "bn' < NDIRECT \<or> bn' = MAXFILE \<or> MAXFILE \<in> S i'" using R(4) [OF that] by (meson not_less)
  qed
  have bij: "bij_betw (\<lambda>(i, bn). dref ?img (D i) bn) (Sigma L S) {59..<fb}"
    using R(2) by (rule bij_betw_cong [THEN iffD1, rotated]) (auto simp: old)
  have data: "?img (dref ?img (D i') bn') j = (f(i := g)) i' (bn' * BSIZE + j)"
    if a: "i' \<in> L" "bn' \<in> S i'" "bn' < MAXFILE" "j < BSIZE" for i' bn' j
  proof (cases "i' = i \<and> bn' = bn")
    case False
    then have "dref img (D i') bn' \<noteq> ?x" using rep_inj [OF r a(1,2) i bn(1)] by blast
    moreover have "(f(i := g)) i' (bn' * BSIZE + j) = f i' (bn' * BSIZE + j)"
      using False g(2) [of "bn' * BSIZE + j"] a(4) by (simp add: BSIZE_def)
    ultimately show ?thesis using old [OF a(1,2)] R(5) [OF a] by simp
  qed (use old [OF i bn(1)] g(1) a(4) in simp)
  have free: "?img b j = 0" if "fb \<le> b" "b < FSSIZE" "j < BSIZE" for b j
    using R(6) [of b j] that rep_ref [OF r i bn(1)] by simp
  show ?thesis
    unfolding rep_def using bij data free R(1,3,4) same rep_zero [OF r] by auto
qed

section \<open>Allocating a block\<close>

text \<open>The parts of the state that appending leaves alone: the sectors before the data blocks included.\<close>

definition msame :: "mkst \<Rightarrow> mkst \<Rightarrow> bool" where
  "msame m m' \<longleftrightarrow> mk_len m' = mk_len m \<and> mk_sb m' = mk_sb m \<and> freeinode m' = freeinode m
     \<and> (\<forall>b < 59. mk_img m' b = mk_img m b)"

lemma msame_refl [simp]: "msame m m" "msame m (m\<lparr>freeblock := b\<rparr>)"
  by (simp_all add: msame_def)

lemma msame_trans: "msame m m' \<Longrightarrow> msame m' m'' \<Longrightarrow> msame m m''"
  by (simp add: msame_def)

lemma msame_wsect: "59 \<le> x \<Longrightarrow> x < mk_len m \<Longrightarrow> msame m (wsect x buf m)"
  by (auto simp: msame_def wsect_def)

text \<open>What an allocation did to the inode under construction.\<close>

definition same_size :: "inode \<Rightarrow> inode \<Rightarrow> bool" where
  "same_size d d' \<longleftrightarrow> d' = d\<lparr>i_addrs := i_addrs d'\<rparr>"

lemma same_size_refl [simp]: "same_size d d" "same_size d (d\<lparr>i_addrs := g\<rparr>)"
  by (simp_all add: same_size_def)

lemma same_size_trans: "same_size d d' \<Longrightarrow> same_size d' d'' \<Longrightarrow> same_size d d''"
  unfolding same_size_def by (metis inode.surjective inode.update_convs(11))

lemma pointer_ok:
  assumes r: "rep (mk_img m) (freeblock m) D L S f" and i: "i \<in> L" "D i = din" and bn: "bn < NDIRECT \<or> bn = MAXFILE"
    and fb: "59 \<le> freeblock m" "bn \<notin> S i \<Longrightarrow> freeblock m < FSSIZE"
    and z: "bn < NDIRECT \<Longrightarrow> bn \<notin> S i \<Longrightarrow> \<forall>j < BSIZE. f i (bn * BSIZE + j) = 0"
  shows "\<exists>din' m'. (if xint (i_addrs din (min bn NDIRECT)) = 0
      then (din\<lparr>i_addrs := (i_addrs din)(min bn NDIRECT := xint (freeblock m))\<rparr>, m\<lparr>freeblock := freeblock m + 1\<rparr>)
      else (din, m)) = (din', m')
    \<and> rep (mk_img m') (freeblock m') (D(i := din')) L (S(i := insert bn (S i))) f \<and> mk_img m' = mk_img m
    \<and> msame m m' \<and> freeblock m' = freeblock m + of_bool (bn \<notin> S i) \<and> same_size din din'
    \<and> xint (i_addrs din' (min bn NDIRECT)) = dref (mk_img m') din' bn"
proof -
  have a: "i_addrs din (min bn NDIRECT) = dref (mk_img m) din bn" using bn by (auto simp: dref_def MAXFILE_def)
  show ?thesis
  proof (cases "bn \<in> S i")
    case True
    have "dref (mk_img m) din bn \<noteq> 0" "dref (mk_img m) din bn < u32_mod"
      using rep_ref [OF r i(1) True] repD(1) [OF r] i(2) by (simp_all add: FSSIZE_def)
    moreover have "S(i := insert bn (S i)) = S" "D(i := din) = D" using True i(2) by (simp_all add: insert_absorb fun_upd_idem)
    ultimately show ?thesis using r True by (simp add: a)
  next
    case False
    have z0: "dref (mk_img m) din bn = 0" using rep_zero [OF r i(1) _ False] bn i(2) by (auto simp: MAXFILE_def)
    have fb32: "freeblock m < u32_mod" using fb(2) [OF False] by (simp add: FSSIZE_def)
    have "rep (mk_img m) (Suc (freeblock m)) (D(i := refer (D i) bn (freeblock m))) L (S(i := insert bn (S i))) f"
      by (rule rep_refer [OF r i(1) False bn fb(1) fb(2) [OF False]]) (use z False in blast)
    then show ?thesis
      using a z0 False fb32 bn i(2) dref_refer(1) [of bn "mk_img m" din "freeblock m"] by (auto simp: refer_def)
  qed
qed

definition touch :: "nat \<Rightarrow> nat set \<Rightarrow> nat set" where
  "touch bn A = insert bn (if NDIRECT \<le> bn then insert MAXFILE A else A)"

definition fresh :: "nat \<Rightarrow> nat set \<Rightarrow> nat" where
  "fresh bn A = of_bool (bn \<notin> A) + of_bool (NDIRECT \<le> bn \<and> MAXFILE \<notin> A)"

lemma append_block_ok:
  assumes r: "rep (mk_img m) (freeblock m) D L S f" and i: "i \<in> L" "D i = din" and bn: "bn < MAXFILE"
    and fb: "59 \<le> freeblock m" "freeblock m + fresh bn (S i) \<le> FSSIZE" and len: "mk_len m = FSSIZE"
    and z: "bn \<notin> S i \<Longrightarrow> \<forall>j < BSIZE. f i (bn * BSIZE + j) = 0"
  shows "okP (append_block bn din m) (\<lambda>(x, din', m').
    rep (mk_img m') (freeblock m') (D(i := din')) L (S(i := touch bn (S i))) f \<and> x = dref (mk_img m') din' bn
    \<and> msame m m' \<and> freeblock m' = freeblock m + fresh bn (S i) \<and> same_size din din')"
proof (cases "bn < NDIRECT")
  case True
  then have m: "min bn NDIRECT = bn" by simp
  have room: "bn \<notin> S i \<Longrightarrow> freeblock m < FSSIZE" using fb(2) by (simp add: fresh_def)
  have d: "bn < NDIRECT \<or> bn = MAXFILE" using True by simp
  from pointer_ok [where bn = bn, OF r i d fb(1) room z, unfolded m]
  obtain d1 m1 where e1: "(if xint (i_addrs din bn) = 0
      then (din\<lparr>i_addrs := (i_addrs din)(bn := xint (freeblock m))\<rparr>, m\<lparr>freeblock := freeblock m + 1\<rparr>)
      else (din, m)) = (d1, m1)"
    and r1: "rep (mk_img m1) (freeblock m1) (D(i := d1)) L (S(i := insert bn (S i))) f"
    and s1: "msame m m1" "freeblock m1 = freeblock m + of_bool (bn \<notin> S i)" "same_size din d1"
    and p1: "xint (i_addrs d1 bn) = dref (mk_img m1) d1 bn" by blast
  have "append_block bn din m = Ok (dref (mk_img m1) d1 bn, d1, m1)"
    using True e1 p1 by (simp add: append_block_def del: xint_eq)
  then show ?thesis using r1 s1 True by (simp add: touch_def fresh_def)
next
  case False
  then have ge: "NDIRECT \<le> bn" and ne: "bn \<noteq> MAXFILE" using bn by simp_all
  have m: "min MAXFILE NDIRECT = NDIRECT" by (simp add: MAXFILE_def)
  have sub: "bn \<in> S i \<Longrightarrow> MAXFILE \<in> S i" using repD(4) [OF r i(1)] ge by blast
  have room: "MAXFILE \<notin> S i \<Longrightarrow> freeblock m < FSSIZE" using fb(2) ge by (simp add: fresh_def)
  have d: "MAXFILE < NDIRECT \<or> MAXFILE = MAXFILE" by simp
  have zm: "MAXFILE < NDIRECT \<Longrightarrow> MAXFILE \<notin> S i \<Longrightarrow> \<forall>j < BSIZE. f i (MAXFILE * BSIZE + j) = 0" by (simp add: MAXFILE_def)
  from pointer_ok [where bn = MAXFILE, OF r i d fb(1) room zm, unfolded m]
  obtain d1 m1 where e1: "(if xint (i_addrs din NDIRECT) = 0
      then (din\<lparr>i_addrs := (i_addrs din)(NDIRECT := xint (freeblock m))\<rparr>, m\<lparr>freeblock := freeblock m + 1\<rparr>)
      else (din, m)) = (d1, m1)"
    and r1: "rep (mk_img m1) (freeblock m1) (D(i := d1)) L (S(i := insert MAXFILE (S i))) f"
    and s1: "msame m m1" "freeblock m1 = freeblock m + of_bool (MAXFILE \<notin> S i)" "same_size din d1"
    and p1: "xint (i_addrs d1 NDIRECT) = dref (mk_img m1) d1 MAXFILE" by blast
  let ?I = "dref (mk_img m1) d1 MAXFILE" and ?S = "S(i := insert MAXFILE (S i))"
  let ?a = "4 * (bn - NDIRECT)"
  have I: "59 \<le> ?I" "?I < freeblock m1" using rep_ref [OF r1 i(1), of MAXFILE] by simp_all
  have len1: "mk_len m1 = FSSIZE" using s1(1) len by (simp add: msame_def)
  have I1: "?I < FSSIZE" using I(2) repD(1) [OF r1] by simp
  have v: "rd32 (mk_img m1 ?I) ?a = dref (mk_img m1) d1 bn" using dref_indirect [OF ge bn] by simp
  have T: "touch bn (S i) = insert bn (?S i)" using ge by (simp add: touch_def)
  have rs: "rsect ?I m1 = Ok (mk_img m1 ?I)" using I1 len1 by (simp add: rsect_def)
  show ?thesis
  proof (cases "bn \<in> S i")
    case True
    have "59 \<le> dref (mk_img m1) d1 bn" using rep_ref(1) [OF r1 i(1), of bn] True by simp
    then have nz: "dref (mk_img m1) d1 bn \<noteq> 0" by simp
    have "insert bn (insert MAXFILE (S i)) = insert MAXFILE (S i)" using True by blast
    then show ?thesis
      using False True e1 p1 rs r1 s1 nz sub rd32_less [of "mk_img m1 ?I" ?a] v
      by (simp add: append_block_def T fresh_def Let_def del: xint_eq) simp
  next
    case False
    have z0: "dref (mk_img m1) d1 bn = 0" using rep_zero [OF r1 i(1), of bn] bn False ne by simp
    have fb1: "59 \<le> freeblock m1" "freeblock m1 < FSSIZE" using fb s1(2) False ge by (auto simp: fresh_def)
    let ?buf = "wr32 (mk_img m1 ?I) ?a (xint (freeblock m1))"
    let ?m = "wsect ?I ?buf (m1\<lparr>freeblock := freeblock m1 + 1\<rparr>)"
    have x: "xint (freeblock m1) = freeblock m1" using fb1 by (simp add: FSSIZE_def)
    have r2: "rep (mk_img ?m) (Suc (freeblock m1)) (D(i := d1)) L (?S(i := insert bn (?S i))) f"
      using rep_entry [OF r1 i(1), of bn] False ne ge bn fb1 z x by (simp add: wsect_def)
    have s2: "msame m ?m"
      by (rule msame_trans [OF s1(1)], rule msame_trans [OF msame_refl(2)], rule msame_wsect) (use I I1 len1 in auto)
    have d: "dref (mk_img ?m) d1 bn = freeblock m1"
      using dref_entry [OF ge bn, of "freeblock m1" "mk_img m1" d1 bn] x fb1 by (simp add: wsect_def FSSIZE_def)
    have f: "freeblock m1 + 1 = freeblock m + fresh bn (S i)" using s1(2) False ge by (simp add: fresh_def)
    have u: "?S(i := insert bn (?S i)) = S(i := touch bn (S i))" unfolding T by simp
    have e: "append_block bn din m = Ok (freeblock m1, d1, ?m)"
      using \<open>\<not> bn < NDIRECT\<close> e1 p1 rs z0 v x fb1 by (simp add: append_block_def Let_def FSSIZE_def del: xint_eq)
    show ?thesis unfolding e using r2 s2 d f s1(3) unfolding u by (simp add: wsect_def)
  qed
qed

section \<open>Appending\<close>

text \<open>The slots that a file of \<open>n\<close> bytes uses, and their number.\<close>

definition fslots :: "nat \<Rightarrow> nat set" where
  "fslots n = {bn. bn < MAXFILE \<and> bn * BSIZE < n} \<union> {bn. bn = MAXFILE \<and> NDIRECT * BSIZE < n}"

definition nslots :: "nat \<Rightarrow> nat" where
  "nslots n = (n + (BSIZE - 1)) div BSIZE + of_bool (NDIRECT * BSIZE < n)"

text \<open>A file's bytes, with zeros behind its end.\<close>

definition pad :: "byte list \<Rightarrow> nat \<Rightarrow> byte" where
  "pad c k = (if k < length c then c ! k else 0)"

lemma chunk_room:
  assumes "n \<le> (off div BSIZE + 1) * BSIZE - off"
  shows "off + n \<le> off div 512 * 512 + 512" "off = off div 512 * 512 + off mod 512" "off mod 512 < 512"
proof -
  show e: "off = off div 512 * 512 + off mod 512" and "off mod 512 < 512" by simp_all
  then show "off + n \<le> off div 512 * 512 + 512" using assms unfolding BSIZE_def add_mult_distrib by linarith
qed

lemma fslots_touch:
  assumes "off div BSIZE < MAXFILE" "0 < n" "n \<le> (off div BSIZE + 1) * BSIZE - off"
  shows "touch (off div BSIZE) (fslots off) = fslots (off + n)"
proof -
  note c = chunk_room [OF assms(3)]
  have lt: "bn * 512 < off + n \<longleftrightarrow> bn = off div 512 \<or> bn * 512 < off" for bn
    using assms(2) c by (cases bn "off div 512" rule: linorder_cases) linarith+
  have ind: "12 * 512 < off + n \<longleftrightarrow> 12 \<le> off div 512" using assms(2) c by linarith
  have mono: "12 * 512 < off \<Longrightarrow> 12 \<le> off div 512" by linarith
  show ?thesis
    unfolding touch_def fslots_def NDIRECT_def BSIZE_def lt ind using assms(1) mono
    by (auto simp: BSIZE_def)
qed

lemma fresh_slots:
  assumes "off div BSIZE < MAXFILE" "0 < n" "n \<le> (off div BSIZE + 1) * BSIZE - off"
  shows "nslots off + fresh (off div BSIZE) (fslots off) = nslots (off + n)"
proof -
  note c = chunk_room [OF assms(3)]
  have e: "(off + n + 511) div 512 = off div 512 + 1"
  proof (rule div_nat_eqI)
    show "512 * (off div 512 + 1) \<le> off + n + 511" using assms(2) by simp
    show "off + n + 511 < 512 * Suc (off div 512 + 1)" using c(1) by simp
  qed
  have o: "(off + 511) div 512 = off div 512 + of_bool (off mod 512 \<noteq> 0)"
  proof -
    have "(off mod 512 + 511) div 512 = of_bool (off mod 512 \<noteq> 0)"
    proof (cases "off mod 512 = 0")
      case False
      have "(off mod 512 + 511) div 512 = 1" by (rule div_nat_eqI) (use False c(3) in simp_all)
      then show ?thesis using False by simp
    qed simp
    moreover have "off + 511 = (off mod 512 + 511) + off div 512 * 512" by simp
    ultimately show ?thesis by (metis add.commute div_mult_self1 zero_neq_numeral)
  qed
  have z: "off div 512 * 512 < off \<longleftrightarrow> off mod 512 \<noteq> 0" using c(2) by linarith
  have ind: "12 * 512 < off + n \<longleftrightarrow> 12 \<le> off div 512" using assms(2) c by linarith
  have mono: "12 * 512 < off \<Longrightarrow> 12 \<le> off div 512" by linarith
  have t: "\<not> 140 < off div 512" "off div 512 < 140" using assms(1) by (simp_all add: layout_simps)
  show ?thesis
    using mono e o z t unfolding nslots_def fresh_def fslots_def NDIRECT_def BSIZE_def ind MAXFILE_def NINDIRECT_def
    by (auto simp del: add_mult_distrib)
qed

lemma pad_fresh: "off = length c \<Longrightarrow> off div BSIZE \<notin> fslots off \<Longrightarrow> off div BSIZE < MAXFILE \<Longrightarrow> pad c (off div BSIZE * BSIZE + j) = 0"
  by (simp add: pad_def fslots_def)

lemma pad_append:
  assumes "off = length c" "length q \<le> (off div BSIZE + 1) * BSIZE - off"
  shows "j < BSIZE \<Longrightarrow> (\<And>j. j < BSIZE \<Longrightarrow> buf j = pad c (off div BSIZE * BSIZE + j)) \<Longrightarrow>
      put_bytes q buf (off - off div BSIZE * BSIZE) j = pad (c @ q) (off div BSIZE * BSIZE + j)"
    and "k div BSIZE \<noteq> off div BSIZE \<Longrightarrow> pad (c @ q) k = pad c k"
proof -
  have eq: "off = off div BSIZE * BSIZE + off mod BSIZE" by simp
  then have le: "off div BSIZE * BSIZE \<le> off" by linarith
  show "put_bytes q buf (off - off div BSIZE * BSIZE) j = pad (c @ q) (off div BSIZE * BSIZE + j)"
    if "j < BSIZE" "\<And>j. j < BSIZE \<Longrightarrow> buf j = pad c (off div BSIZE * BSIZE + j)"
    using that(1) that(2) [OF that(1)] le assms(1) by (auto simp: put_bytes_def pad_def nth_append add.commute)
  show "pad (c @ q) k = pad c k" if k: "k div BSIZE \<noteq> off div BSIZE"
  proof (rule ccontr)
    assume "pad (c @ q) k \<noteq> pad c k"
    then have "off \<le> k" "k < off + length q" using assms(1) by (auto simp: pad_def nth_append split: if_splits)
    then have "off div BSIZE \<le> k div BSIZE" "k < (off div BSIZE + 1) * BSIZE"
      using assms(2) by (simp_all add: div_le_mono)
    then show False using k by (simp add: less_mult_imp_div_less BSIZE_def)
  qed
qed

lemma iappend_loop_ok:
  assumes "rep (mk_img m) (freeblock m) D L S f" "i \<in> L" "D i = din" "S i = fslots off" "f i = pad c" "off = length c"
    and "off + length p \<le> MAXFILE * BSIZE" "59 \<le> freeblock m" "freeblock m + nslots (off + length p) \<le> FSSIZE + nslots off"
    and "mk_len m = FSSIZE"
  shows "okP (iappend_loop p off din m) (\<lambda>(off', din', m'). off' = off + length p
    \<and> rep (mk_img m') (freeblock m') (D(i := din')) L (S(i := fslots (off + length p))) (f(i := pad (c @ p)))
    \<and> msame m m' \<and> freeblock m' + nslots off = freeblock m + nslots (off + length p) \<and> same_size din din')"
  using assms
proof (induction p arbitrary: off din m D S f c rule: measure_induct_rule [where f = length])
  case (less p)
  note IH = less(1) and r = less(2) and i = less(3,4) and Si = less(5) and fi = less(6) and off = less(7) and max = less(8)
    and fb = less(9,10) and len = less(11)
  show ?case
  proof (cases "p = []")
    case True
    have "S(i := fslots off) = S" "f(i := pad c) = f" "D(i := din) = D" using Si fi i(2) by (simp_all add: fun_upd_idem)
    then show ?thesis using True r by (simp add: iappend_loop.simps del: fun_upd_apply)
  next
    case False
    let ?bn = "off div BSIZE"
    let ?n = "min (length p) ((?bn + 1) * BSIZE - off)"
    have "0 < length p" using False by simp
    then have "off < MAXFILE * BSIZE" using max by linarith
    then have bn: "?bn < MAXFILE" by (rule less_mult_imp_div_less)
    have n: "0 < ?n" "?n \<le> (?bn + 1) * BSIZE - off" using False append_room by simp_all
    have mono: "nslots (off + ?n) \<le> nslots (off + length p)"
      unfolding nslots_def by (intro add_mono div_le_mono) (auto simp: of_bool_def)
    have room: "freeblock m + fresh ?bn (S i) \<le> FSSIZE" using fresh_slots [OF bn n] mono fb(2) unfolding Si by linarith
    have S': "S(i := touch ?bn (S i)) = S(i := fslots (off + ?n))" using fslots_touch [OF bn n] Si by simp
    have z: "?bn \<notin> S i \<Longrightarrow> \<forall>j < BSIZE. f i (?bn * BSIZE + j) = 0" using pad_fresh [OF off _ bn] Si fi by simp
    have step: "okP (bindr (rsect x m1) (\<lambda>buf. iappend_loop (drop ?n p) (off + ?n) d1
        (wsect x (put_bytes (take ?n p) buf (off - ?bn * BSIZE)) m1))) (\<lambda>(off', din', m'). off' = off + length p
      \<and> rep (mk_img m') (freeblock m') (D(i := din')) L (S(i := fslots (off + length p))) (f(i := pad (c @ p)))
      \<and> msame m m' \<and> freeblock m' + nslots off = freeblock m + nslots (off + length p) \<and> same_size din din')"
      if a: "rep (mk_img m1) (freeblock m1) (D(i := d1)) L (S(i := fslots (off + ?n))) f" "x = dref (mk_img m1) d1 ?bn"
        "msame m m1" "freeblock m1 = freeblock m + fresh ?bn (S i)" "same_size din d1" for x d1 m1
    proof -
      let ?q = "take ?n p" and ?S = "S(i := fslots (off + ?n))"
      let ?buf = "put_bytes ?q (mk_img m1 x) (off - ?bn * BSIZE)"
      let ?m = "wsect x ?buf m1"
      have "?bn * BSIZE \<le> off" by simp
      then have "?bn * BSIZE < off + ?n" using n(1) by linarith
      then have bs: "?bn \<in> ?S i" using bn by (simp add: fslots_def)
      have x: "59 \<le> x" "x < freeblock m1" using rep_ref [OF a(1) i(1) bs] a(2) by simp_all
      have len1: "mk_len m1 = FSSIZE" using a(3) len by (simp add: msame_def)
      have lx: "x < mk_len m1" using x repD(1) [OF a(1)] len1 by simp
      have q: "length ?q = ?n" "length ?q \<le> (?bn + 1) * BSIZE - off" by simp_all
      have old: "mk_img m1 x j = pad c (?bn * BSIZE + j)" if "j < BSIZE" for j
        using repD(5) [OF a(1) i(1) bs bn that] a(2) fi by simp
      note w = pad_append [OF off q(2)]
      have r1: "rep (mk_img ?m) (freeblock ?m) (D(i := d1)) L ?S (f(i := pad (c @ ?q)))"
        using rep_write [OF a(1) i(1) bs bn, of ?buf "pad (c @ ?q)"] w old fi a(2)
        by (simp add: wsect_def del: fun_upd_apply) (simp add: fun_upd_same)
      have lp: "off + ?n + length (drop ?n p) = off + length p" by simp
      have f1: "freeblock ?m + nslots off = freeblock m + nslots (off + ?n)"
        using a(4) fresh_slots [OF bn n] Si by (simp add: wsect_def)
      have "length (drop ?n p) < length p" using n(1) False by simp
      then have R: "okP (iappend_loop (drop ?n p) (off + ?n) d1 ?m) (\<lambda>(off', din', m'). off' = (off + ?n) + length (drop ?n p)
        \<and> rep (mk_img m') (freeblock m') ((D(i := d1))(i := din')) L (?S(i := fslots ((off + ?n) + length (drop ?n p))))
            ((f(i := pad (c @ ?q)))(i := pad ((c @ ?q) @ drop ?n p)))
        \<and> msame ?m m' \<and> freeblock m' + nslots (off + ?n) = freeblock ?m + nslots ((off + ?n) + length (drop ?n p))
        \<and> same_size d1 din')"
      proof (rule IH [OF _ r1 i(1)])
        show "freeblock ?m + nslots (off + ?n + length (drop ?n p)) \<le> FSSIZE + nslots (off + ?n)"
          unfolding lp using f1 fb(2) by linarith
        show "59 \<le> freeblock ?m" using a(4) fb(1) by (simp add: wsect_def)
      qed (use off max len1 lx in \<open>simp_all add: wsect_def\<close>)
      have s1: "msame m ?m" by (rule msame_trans [OF a(3) msame_wsect [OF x(1) lx]])
      have e: "rsect x m1 = Ok (mk_img m1 x)" using lx by (simp add: rsect_def)
      show ?thesis unfolding e bindr.simps
      proof (rule okP_mono [OF R], goal_cases)
        case (1 y)
        obtain off' din' m' where y: "y = (off', din', m')" by (rule prod_cases3)
        note z = 1 [unfolded y prod.case lp fun_upd_upd append_assoc append_take_drop_id]
        have "freeblock m' + nslots off = freeblock m + nslots (off + length p)" using z f1 by linarith
        then show ?case unfolding y prod.case using z msame_trans [OF s1] same_size_trans [OF a(5)] by blast
      qed
    qed
    have e: "iappend_loop p off din m = bindr (append_block ?bn din m) (\<lambda>(x, d1, m1).
        bindr (rsect x m1) (\<lambda>buf. iappend_loop (drop ?n p) (off + ?n) d1
          (wsect x (put_bytes (take ?n p) buf (off - ?bn * BSIZE)) m1)))"
      using False bn by (subst iappend_loop.simps) (simp only: Let_def if_False not_True_eq_False if_True simp_thms)
    show ?thesis
      unfolding e okP_bindr [of "append_block ?bn din m"]
    proof (rule okP_mono [OF append_block_ok [OF r i bn fb(1) room len, unfolded S', OF z]], goal_cases)
      case (2 y)
      obtain x d1 m1 where y: "y = (x, d1, m1)" by (rule prod_cases3)
      show ?case unfolding y prod.case by (rule step) (use 2 [unfolded y prod.case] in blast)+
    qed
  qed
qed

end
