(* ===== verification/MkfsSpec.thy ===== *)
theory MkfsSpec
  imports MkfsBlocks
begin

text \<open>
  The image that \<open>mkfs\<close> builds: its superblock, empty log, inodes, bitmap and files, and what the kernel
  finds in it.
\<close>

section \<open>The inodes of the image\<close>

definition mdin :: "(nat \<Rightarrow> mem) \<Rightarrow> nat \<Rightarrow> inode" where
  "mdin img i = load_dinode (img (IBLOCK i super)) i zero_din"

lemma super_eq: "super = demo_sb"
  by (simp add: super_def demo_sb_def nlog_def ninodeblocks_def NINODES_def nblocks_def nmeta_def nbitmap_def LOGSIZE_def layout_simps)

lemma iblock: "i < 200 \<Longrightarrow> 32 \<le> IBLOCK i super \<and> IBLOCK i super < 57"
  by (simp add: IBLOCK_def super_eq demo_sb_def IPB_def less_mult_imp_div_less)

lemma iblock_eq: "IBLOCK i super = IBLOCK j super \<Longrightarrow> i mod IPB = j mod IPB \<Longrightarrow> i = j"
  by (metis IBLOCK_def add_right_cancel div_mult_mod_eq)

lemma mdin_range: "inode_range (mdin img i)"
proof -
  have s: "- 32768 \<le> s16 (rd16 m a) \<and> s16 (rd16 m a) < 32768" for m a
    using rd16_less [of m a] by (auto simp: s16_def)
  show ?thesis unfolding inode_range_def by (auto simp: mdin_def load_dinode_def Let_def s rd32_less)
qed

text \<open>Writing an inode replaces it and no other.\<close>

definition put_inode :: "nat \<Rightarrow> inode \<Rightarrow> mkst \<Rightarrow> mkst" where
  "put_inode i d m = m\<lparr>mk_img := (mk_img m)(IBLOCK i super := store_dinode (d\<lparr>i_inum := i\<rparr>) (mk_img m (IBLOCK i super)))\<rparr>"

lemma winode_ok: "i < 200 \<Longrightarrow> mk_len m = FSSIZE \<Longrightarrow> mk_sb m = super \<Longrightarrow> winode i d m = Ok (put_inode i d m)"
  using iblock [of i] by (cases m) (simp add: winode_def rsect_def wsect_def put_inode_def FSSIZE_def Let_def)

lemma rinode_ok: "i < 200 \<Longrightarrow> mk_len m = FSSIZE \<Longrightarrow> mk_sb m = super \<Longrightarrow> rinode i m = Ok (mdin (mk_img m) i)"
  using iblock [of i] by (auto simp: rinode_def rsect_def mdin_def FSSIZE_def)

lemma put_inode_same:
  assumes "inode_range d"
  shows "same_dinode (mdin (mk_img (put_inode i d m)) i) d"
  using load_store_same [of "d\<lparr>i_inum := i\<rparr>" "mk_img m (IBLOCK i super)" zero_din] assms
  by (simp add: mdin_def put_inode_def inode_range_def same_dinode_def)

lemma put_inode_other: "j \<noteq> i \<Longrightarrow> mdin (mk_img (put_inode i d m)) j = mdin (mk_img m) j"
  using load_store_other [of j "d\<lparr>i_inum := i\<rparr>" "mk_img m (IBLOCK i super)" zero_din] iblock_eq [of j i]
  by (auto simp: mdin_def put_inode_def)

lemma put_inode_sel [simp]:
  "mk_len (put_inode i d m) = mk_len m" "mk_sb (put_inode i d m) = mk_sb m" "freeinode (put_inode i d m) = freeinode m"
  "freeblock (put_inode i d m) = freeblock m" "b \<noteq> IBLOCK i super \<Longrightarrow> mk_img (put_inode i d m) b = mk_img m b"
  by (simp_all add: put_inode_def)

definition same_addrs :: "inode \<Rightarrow> inode \<Rightarrow> bool" where
  "same_addrs d d' \<longleftrightarrow> (\<forall>k \<le> NDIRECT. i_addrs d k = i_addrs d' k)"

lemma dref_same: "same_addrs d d' \<Longrightarrow> dref img d bn = dref img d' bn"
  by (auto simp: dref_def same_addrs_def)

lemma rep_meta:
  assumes r: "rep img fb D L S f" and i: "\<And>b. 59 \<le> b \<Longrightarrow> img' b = img b" and d: "\<And>i. i \<in> L \<Longrightarrow> same_addrs (D i) (D' i)"
    and fb: "59 \<le> fb"
  shows "rep img' fb D' L S f"
proof -
  note R = repD [OF r]
  have e: "dref img' (D' i) bn = dref img (D i) bn"
    if "i \<in> L" "bn < NDIRECT \<or> bn = MAXFILE \<or> MAXFILE \<in> S i" for i bn
  proof (cases "bn < NDIRECT \<or> bn = MAXFILE")
    case True
    then show ?thesis using dref_direct dref_same [OF d [OF that(1)]] by metis
  next
    case False
    then have "59 \<le> dref img (D i) MAXFILE" using rep_ref [OF r that(1)] that(2) by blast
    then have "img' (i_addrs (D i) NDIRECT) = img (i_addrs (D i) NDIRECT)" using i by (simp add: dref_def MAXFILE_def)
    then have "dref img' (D i) bn = dref img (D i) bn" by (simp add: dref_def)
    then show ?thesis using dref_same [OF d [OF that(1)]] by metis
  qed
  have u: "bn < NDIRECT \<or> bn = MAXFILE \<or> MAXFILE \<in> S i" if "i \<in> L" "bn \<in> S i" for i bn
    using R(4) [OF that] by (meson not_less)
  have bij: "bij_betw (\<lambda>(i, bn). dref img' (D' i) bn) (Sigma L S) {59..<fb}"
    using R(2) by (rule bij_betw_cong [THEN iffD1, rotated]) (use e u in auto)
  have data: "img' (dref img' (D' i) bn) j = f i (bn * BSIZE + j)"
    if "i \<in> L" "bn \<in> S i" "bn < MAXFILE" "j < BSIZE" for i bn j
    using R(5) [OF that] e [OF that(1) u [OF that(1,2)]] i rep_ref(1) [OF r that(1,2)] by simp
  have free: "img' b j = 0" if "fb \<le> b" "b < FSSIZE" "j < BSIZE" for b j
    using R(6) [OF that] i fb that(1) by simp
  show ?thesis
    unfolding rep_def using bij data free R(1,3,4) e rep_zero [OF r] by auto
qed

lemma rep_cong:
  assumes r: "rep img fb D L S f" and d: "\<And>i. i \<in> L \<Longrightarrow> D i = D' i" and fb: "59 \<le> fb"
  shows "rep img fb D' L S f"
  by (rule rep_meta [OF r _ _ fb]) (simp_all add: d same_addrs_def)

lemma rep_addr_range:
  assumes r: "rep img fb D L S f" and i: "i \<in> L" and k: "k \<le> NDIRECT"
  shows "i_addrs (D i) k < u32_mod"
proof -
  let ?bn = "if k < NDIRECT then k else MAXFILE"
  have a: "i_addrs (D i) k = dref img (D i) ?bn" using k by (auto simp: dref_def MAXFILE_def)
  show ?thesis
  proof (cases "?bn \<in> S i")
    case True
    then show ?thesis using rep_ref(2) [OF r i True] repD(1) [OF r] unfolding a FSSIZE_def by linarith
  next
    case False
    then have "dref img (D i) ?bn = 0" by (intro rep_zero [OF r i]) (auto simp: MAXFILE_def)
    then show ?thesis unfolding a by simp
  qed
qed

lemma put_inode_rep:
  assumes r: "rep (mk_img m) fb ((mdin (mk_img m))(i := d)) L S f" and i: "i < 200" and fb: "59 \<le> fb"
    and d: "inode_range d'" "same_addrs d d'"
  shows "rep (mk_img (put_inode i d' m)) fb (mdin (mk_img (put_inode i d' m))) L S f"
proof (rule rep_meta [OF r])
  show "mk_img (put_inode i d' m) b = mk_img m b" if "59 \<le> b" for b
    using that iblock [OF i] by simp
  show "same_addrs (((mdin (mk_img m))(i := d)) j) (mdin (mk_img (put_inode i d' m)) j)" for j
    using put_inode_other [of j i d' m] put_inode_same [OF d(1), of i m] d(2)
    by (cases "j = i") (simp_all add: same_addrs_def same_dinode_def)
qed (rule fb)

lemma put_inode_low: "i < 200 \<Longrightarrow> b < 32 \<Longrightarrow> mk_img (put_inode i d m) b = mk_img m b"
  using iblock [of i] by simp

lemma mdin_msame: "msame m m' \<Longrightarrow> j < 200 \<Longrightarrow> mdin (mk_img m') j = mdin (mk_img m) j"
  using iblock [of j] by (simp add: mdin_def msame_def)

section \<open>The invariant\<close>

text \<open>\<open>c i\<close> are the bytes of file \<open>i\<close>.\<close>

definition live :: "mkst \<Rightarrow> nat set" where
  "live m = {1..<freeinode m}"

definition dinode_ok :: "inode \<Rightarrow> nat \<Rightarrow> nat \<Rightarrow> bool" where
  "dinode_ok d i n \<longleftrightarrow> i_type d = (if i = ROOTINO then T_DIR else T_FILE) \<and> i_nlink d = 1 \<and> i_size d = n"

definition mkinv :: "mkst \<Rightarrow> (nat \<Rightarrow> byte list) \<Rightarrow> bool" where
  "mkinv m c \<longleftrightarrow> mk_len m = FSSIZE \<and> mk_sb m = super \<and> 1 \<le> freeinode m \<and> freeinode m \<le> NINODES
     \<and> rep (mk_img m) (freeblock m) (mdin (mk_img m)) (live m) (\<lambda>i. fslots (length (c i))) (\<lambda>i. pad (c i))
     \<and> freeblock m = 59 + (\<Sum>i \<in> live m. nslots (length (c i)))
     \<and> (\<forall>i \<in> live m. dinode_ok (mdin (mk_img m) i) i (length (c i)) \<and> length (c i) \<le> MAXFILE * BSIZE)
     \<and> (\<forall>b < 32. mk_img m b = mk_img blank_image b)"

lemma mkinvD:
  assumes "mkinv m c"
  shows "mk_len m = FSSIZE" "mk_sb m = super" "1 \<le> freeinode m" "freeinode m \<le> NINODES"
    "rep (mk_img m) (freeblock m) (mdin (mk_img m)) (live m) (\<lambda>i. fslots (length (c i))) (\<lambda>i. pad (c i))"
    "freeblock m = 59 + (\<Sum>i \<in> live m. nslots (length (c i)))"
    "\<forall>i \<in> live m. dinode_ok (mdin (mk_img m) i) i (length (c i)) \<and> length (c i) \<le> MAXFILE * BSIZE"
    "\<forall>b < 32. mk_img m b = mk_img blank_image b"
  using assms unfolding mkinv_def by blast+

lemma iappend_ok:
  assumes v: "mkinv m c" and i: "i \<in> live m" and max: "length (c i) + length p \<le> MAXFILE * BSIZE"
    and room: "59 + (\<Sum>j \<in> live m. nslots (length ((c(i := c i @ p)) j))) \<le> FSSIZE"
  shows "okP (iappend i p m) (\<lambda>m'. mkinv m' (c(i := c i @ p)) \<and> freeinode m' = freeinode m)"
proof -
  let ?d = "mdin (mk_img m) i" and ?n = "length (c i)"
  let ?rest = "\<Sum>j \<in> live m - {i}. nslots (length (c j))"
  note st = mkinvD(1,2,4,3) [OF v] and r = mkinvD(5) [OF v] and fb = mkinvD(6) [OF v] and ok = mkinvD(7) [OF v, rule_format]
    and low = mkinvD(8) [OF v]
  have i200: "i < 200" using i st(3) by (simp add: live_def NINODES_def)
  have fin: "finite (live m)" by (simp add: live_def)
  have sums: "(\<Sum>j \<in> live m. nslots (length (c j))) = nslots ?n + ?rest"
    "(\<Sum>j \<in> live m. nslots (length ((c(i := c i @ p)) j))) = nslots (?n + length p) + ?rest"
    using sum.remove [OF fin i, of "\<lambda>j. nslots (length (c j))"]
      sum.remove [OF fin i, of "\<lambda>j. nslots (length ((c(i := c i @ p)) j))"] by (simp_all cong: sum.cong_simp)
  have sz: "xint (i_size ?d) = ?n" using ok [OF i] by (simp add: dinode_ok_def layout_simps BSIZE_def)
  have R: "okP (iappend_loop p ?n ?d m) (\<lambda>(off', din', m'). off' = ?n + length p
    \<and> rep (mk_img m') (freeblock m') ((mdin (mk_img m))(i := din')) (live m)
        ((\<lambda>i. fslots (length (c i)))(i := fslots (?n + length p))) ((\<lambda>i. pad (c i))(i := pad (c i @ p)))
    \<and> msame m m' \<and> freeblock m' + nslots ?n = freeblock m + nslots (?n + length p) \<and> same_size ?d din')"
    by (rule iappend_loop_ok [OF r i refl refl refl refl max _ _ st(1)]) (use room fb sums in auto)
  show ?thesis
    unfolding iappend_def rinode_ok [OF i200 st(1,2)] bindr.simps Let_def sz okP_bindr
  proof (rule okP_mono [OF R], goal_cases)
    case (1 y)
    obtain off' d1 m1 where y: "y = (off', d1, m1)" by (rule prod_cases3)
    note z = 1 [unfolded y prod.case]
    let ?d1 = "d1\<lparr>i_size := xint off'\<rparr>" and ?D = "(mdin (mk_img m))(i := d1)"
    have r1: "rep (mk_img m1) (freeblock m1) ?D (live m) ((\<lambda>i. fslots (length (c i)))(i := fslots (?n + length p)))
        ((\<lambda>i. pad (c i))(i := pad (c i @ p)))" using z by blast
    have s1: "mk_len m1 = FSSIZE" "mk_sb m1 = super" "freeinode m1 = freeinode m" "\<And>b. b < 59 \<Longrightarrow> mk_img m1 b = mk_img m b"
      using z st by (auto simp: msame_def)
    have ss: "d1 = ?d\<lparr>i_addrs := i_addrs d1\<rparr>" using z by (simp add: same_size_def)
    have sz1: "xint off' = ?n + length p" using z max by (simp add: layout_simps BSIZE_def)
    have "i_addrs d1 k < u32_mod" if "k \<le> NDIRECT" for k using rep_addr_range [OF r1 i that] by simp
    then have rg: "inode_range ?d1"
      using mdin_range [of "mk_img m" i] sz1 max unfolding inode_range_def
      by (subst ss, subst ss, subst ss, subst ss) (simp add: layout_simps BSIZE_def)
    note same = put_inode_same [OF rg, of i m1]
    have l200: "j < 200" if "j \<in> live m" for j using that st(3) by (simp add: live_def NINODES_def)
    have D: "mdin (mk_img (put_inode i ?d1 m1)) j = mdin (mk_img m) j" if "j \<in> live m" "j \<noteq> i" for j
      using put_inode_other [OF that(2)] mdin_msame [of m m1 j] l200 [OF that(1)] z by simp
    have "rep (mk_img m1) (freeblock m1) ((mdin (mk_img m1))(i := d1)) (live m) ((\<lambda>i. fslots (length (c i)))(i := fslots (?n + length p)))
        ((\<lambda>i. pad (c i))(i := pad (c i @ p)))"
      using mdin_msame [of m m1] l200 z s1 fb sums by (intro rep_cong [OF r1]) auto
    then have "rep (mk_img (put_inode i ?d1 m1)) (freeblock m1) (mdin (mk_img (put_inode i ?d1 m1))) (live m)
        ((\<lambda>i. fslots (length (c i)))(i := fslots (?n + length p))) ((\<lambda>i. pad (c i))(i := pad (c i @ p)))"
      by (rule put_inode_rep [OF _ i200 _ rg]) (use z fb sums in \<open>simp_all add: same_addrs_def\<close>)
    moreover have "(\<lambda>j. fslots (length ((c(i := c i @ p)) j))) = (\<lambda>i. fslots (length (c i)))(i := fslots (?n + length p))"
      "(\<lambda>j. pad ((c(i := c i @ p)) j)) = (\<lambda>i. pad (c i))(i := pad (c i @ p))" by (rule ext, simp)+
    ultimately have r2: "rep (mk_img (put_inode i ?d1 m1)) (freeblock m1) (mdin (mk_img (put_inode i ?d1 m1))) (live m)
        (\<lambda>j. fslots (length ((c(i := c i @ p)) j))) (\<lambda>j. pad ((c(i := c i @ p)) j))" by simp
    have ok1: "dinode_ok (mdin (mk_img (put_inode i ?d1 m1)) j) j (length ((c(i := c i @ p)) j))
        \<and> length ((c(i := c i @ p)) j) \<le> MAXFILE * BSIZE" if "j \<in> live m" for j
    proof (cases "j = i")
      case True
      then show ?thesis using same sz1 max ok [OF i] by (auto simp: dinode_ok_def same_dinode_def ss [THEN arg_cong, of i_type] ss [THEN arg_cong, of i_nlink])
    qed (use D ok that in simp)
    have low1: "\<forall>b < 32. mk_img (put_inode i ?d1 m1) b = mk_img blank_image b"
      using low s1(4) put_inode_low [OF i200] by simp
    have lv: "live (put_inode i ?d1 m1) = live m" using s1(3) by (simp add: live_def)
    have "freeblock m1 = 59 + (\<Sum>j \<in> live m. nslots (length ((c(i := c i @ p)) j)))" using z fb unfolding sums by simp
    then have "mkinv (put_inode i ?d1 m1) (c(i := c i @ p))"
      unfolding mkinv_def lv put_inode_sel using s1(1-3) st(3,4) r2 ok1 low1 by (intro conjI ballI) simp_all
    then show ?case using winode_ok [OF i200 s1(1,2), of ?d1] s1(3) by (simp add: y)
  qed
qed

text \<open>A new inode has no blocks.\<close>

lemma rep_new:
  assumes r: "rep img fb D L S f" and i: "i \<notin> L" and old: "\<And>j. j \<in> L \<Longrightarrow> D' j = D j \<and> S' j = S j \<and> f' j = f j"
    and new: "\<forall>k \<le> NDIRECT. i_addrs (D' i) k = 0" "S' i = {}"
  shows "rep img fb D' (insert i L) S' f'"
proof -
  note R = repD [OF r]
  have S: "Sigma (insert i L) S' = Sigma L S" using old new(2) by auto
  have "bij_betw (\<lambda>(i, bn). dref img (D' i) bn) (Sigma L S) {59..<fb}"
    using R(2) by (rule bij_betw_cong [THEN iffD1, rotated]) (use old in auto)
  moreover have "dref img (D' i) bn = 0" if "bn < NDIRECT \<or> bn = MAXFILE" for bn
    using that new(1) by (auto simp: dref_def MAXFILE_def)
  ultimately show ?thesis
    unfolding rep_def S using R(1,3,4,5,6) rep_zero [OF r] old new(2) by auto
qed

lemma mk_ialloc_ok:
  assumes v: "mkinv m c" and f: "freeinode m < NINODES" and ty: "ty = (if freeinode m = ROOTINO then T_DIR else T_FILE)"
  shows "okP (mk_ialloc ty m) (\<lambda>(inum, m'). inum = freeinode m \<and> mkinv m' (c(inum := [])) \<and> freeinode m' = Suc (freeinode m))"
proof -
  let ?i = "freeinode m" and ?c = "c(freeinode m := [])"
  let ?d = "zero_din\<lparr>i_type := s16 (xshort (u16_of ty)), i_nlink := s16 (xshort 1), i_size := xint 0\<rparr>"
  let ?m = "put_inode ?i ?d (m\<lparr>freeinode := Suc ?i\<rparr>)"
  note st = mkinvD(1,2,4,3) [OF v] and r = mkinvD(5) [OF v] and fb = mkinvD(6) [OF v] and ok = mkinvD(7) [OF v, rule_format]
    and low = mkinvD(8) [OF v]
  have i200: "?i < 200" using f by (simp add: NINODES_def)
  have ty': "s16 (xshort (u16_of ty)) = ty" "s16 (xshort 1) = 1" by (simp_all add: ty s16_def u16_of_def layout_simps)
  have rg: "inode_range ?d" unfolding ty' by (simp add: inode_range_def zero_din_def ty layout_simps)
  have lv: "live ?m = insert ?i (live m)" using st(4) by (auto simp: live_def)
  have ni: "?i \<notin> live m" by (simp add: live_def)
  have other: "mdin (mk_img ?m) j = mdin (mk_img m) j" if "j \<in> live m" for j
    using put_inode_other [of j ?i ?d "m\<lparr>freeinode := Suc ?i\<rparr>"] that ni by auto
  have same: "same_dinode (mdin (mk_img ?m) ?i) ?d" by (rule put_inode_same [OF rg])
  have "rep (mk_img m) (freeblock m) ((mdin (mk_img m))(?i := ?d)) (insert ?i (live m)) (\<lambda>j. fslots (length (?c j))) (\<lambda>j. pad (?c j))"
    by (rule rep_new [OF r ni]) (use ni in \<open>auto simp: zero_din_def fslots_def\<close>)
  then have r': "rep (mk_img ?m) (freeblock m) (mdin (mk_img ?m)) (live ?m) (\<lambda>j. fslots (length (?c j))) (\<lambda>j. pad (?c j))"
    unfolding lv using put_inode_rep [of "m\<lparr>freeinode := Suc ?i\<rparr>" "freeblock m" ?i ?d _ _ _ ?d] i200 rg fb by (simp add: same_addrs_def)
  have sum: "(\<Sum>j \<in> live ?m. nslots (length (?c j))) = (\<Sum>j \<in> live m. nslots (length (c j)))"
    unfolding lv using ni by (subst sum.insert) (auto simp: live_def nslots_def BSIZE_def intro!: sum.cong)
  have ok': "dinode_ok (mdin (mk_img ?m) j) j (length (?c j)) \<and> length (?c j) \<le> MAXFILE * BSIZE" if "j \<in> live ?m" for j
  proof (cases "j = ?i")
    case True
    then show ?thesis using same ty ty' by (simp add: dinode_ok_def same_dinode_def)
  next
    case False
    then have "j \<in> live m" using that lv by simp
    then show ?thesis using ok other False by simp
  qed
  have "mkinv ?m ?c"
    unfolding mkinv_def sum using st f r' fb ok' low put_inode_low [OF i200] by simp
  then show ?thesis
    using winode_ok [OF i200, of "m\<lparr>freeinode := Suc ?i\<rparr>" ?d] st by (simp add: mk_ialloc_def Let_def)
qed

section \<open>The empty image\<close>

lemma blank_image_eq:
  "blank_image = \<lparr>mk_img = (\<lambda>_ _. 0)(1 := put_super super (\<lambda>_. 0)), mk_len = FSSIZE, mk_sb = super, freeinode = 1, freeblock = 59\<rparr>"
proof -
  have "fold (\<lambda>i. wsect i (\<lambda>_. 0)) [0..<n] \<lparr>mk_img = (\<lambda>_ _. 0), mk_len = 0, mk_sb = super, freeinode = 1, freeblock = nmeta\<rparr>
      = \<lparr>mk_img = (\<lambda>_ _. 0), mk_len = n, mk_sb = super, freeinode = 1, freeblock = nmeta\<rparr>" for n
    by (induction n) (simp_all add: wsect_def fun_upd_idem)
  moreover have "nmeta = 59" by (simp add: nmeta_def nlog_def ninodeblocks_def NINODES_def nbitmap_def LOGSIZE_def layout_simps)
  ultimately show ?thesis by (simp add: blank_image_def wsect_def FSSIZE_def)
qed

lemma sb_of_put_super: "sb_of (put_super super m) = super"
  by (simp add: super_eq sb_of_def put_super_def demo_sb_def)

lemma mkinv_blank: "mkinv blank_image (\<lambda>_. [])"
  by (simp add: mkinv_def blank_image_eq live_def rep_def bij_betw_def NINODES_def FSSIZE_def)

section \<open>Copying the files\<close>

definition total_slots :: "nat set \<Rightarrow> (nat \<Rightarrow> byte list) \<Rightarrow> nat" where
  "total_slots L c = (\<Sum>j \<in> L. nslots (length (c j)))"

lemma nslots_mono: "a \<le> b \<Longrightarrow> nslots a \<le> nslots b"
  unfolding nslots_def by (intro add_mono div_le_mono) auto

lemma total_slots_mono: "L \<subseteq> L' \<Longrightarrow> finite L' \<Longrightarrow> (\<And>j. j \<in> L \<Longrightarrow> length (c j) \<le> length (c' j)) \<Longrightarrow> total_slots L c \<le> total_slots L' c'"
  unfolding total_slots_def by (rule order_trans [OF sum_mono sum_mono2]) (auto intro: nslots_mono)

lemma live_cong: "freeinode m' = freeinode m \<Longrightarrow> live m' = live m"
  by (simp add: live_def)

lemma copy_in_ok:
  assumes "mkinv m c" "i \<in> live m" "d = concat (takeWhile (\<lambda>b. b \<noteq> []) reads)" "length (c i) + length d \<le> MAXFILE * BSIZE"
    and "59 + total_slots (live m) (c(i := c i @ d)) \<le> FSSIZE"
  shows "okP (copy_in i reads m) (\<lambda>m'. mkinv m' (c(i := c i @ d)) \<and> freeinode m' = freeinode m)"
  using assms
proof (induction reads arbitrary: m c d)
  case Nil
  then show ?case by simp
next
  case (Cons buf reads)
  show ?case
  proof (cases "buf = []")
    case True
    then show ?thesis using Cons.prems by simp
  next
    case False
    let ?e = "concat (takeWhile (\<lambda>b. b \<noteq> []) reads)" and ?c = "c(i := c i @ buf)"
    have d: "d = buf @ ?e" using Cons.prems(3) False by simp
    have c: "c(i := c i @ d) = ?c(i := ?c i @ ?e)" by (simp add: d)
    have "total_slots (live m) ?c \<le> total_slots (live m) (c(i := c i @ d))"
      by (rule total_slots_mono) (auto simp: live_def d)
    then have room: "59 + (\<Sum>j \<in> live m. nslots (length (?c j))) \<le> FSSIZE" using Cons.prems(5) by (simp add: total_slots_def)
    have max: "length (c i) + length buf \<le> MAXFILE * BSIZE" using Cons.prems(4) by (simp add: d)
    have "okP (copy_in i reads m1) (\<lambda>m'. mkinv m' (c(i := c i @ d)) \<and> freeinode m' = freeinode m)"
      if "mkinv m1 ?c" "freeinode m1 = freeinode m" for m1
      unfolding c that(2) [symmetric]
    proof (rule Cons.IH [OF that(1) _ refl])
      show "i \<in> live m1" using Cons.prems(2) live_cong [OF that(2)] by simp
      show "length (?c i) + length ?e \<le> MAXFILE * BSIZE" using Cons.prems(4) unfolding d by simp
      show "59 + total_slots (live m1) (?c(i := ?c i @ ?e)) \<le> FSSIZE"
        using Cons.prems(5) unfolding c live_cong [OF that(2)] .
    qed
    then have "okP (bindr (iappend i buf m) (copy_in i reads)) (\<lambda>m'. mkinv m' (c(i := c i @ d)) \<and> freeinode m' = freeinode m)"
      unfolding okP_bindr by (intro okP_mono [OF iappend_ok [OF Cons.prems(1,2) max room]]) blast
    then show ?thesis using False by (simp del: fun_upd_apply)
  qed
qed

text \<open>The name of a file in the image, its bytes, and the bytes of all files after adding \<open>args\<close> from inode \<open>n\<close> on.\<close>

definition strip :: "byte list \<Rightarrow> byte list" where
  "strip arg = (if arg \<noteq> [] \<and> hd arg = 95 then tl arg else arg)"

definition file_bytes :: "(byte list \<Rightarrow> byte list list option) \<Rightarrow> byte list \<Rightarrow> byte list" where
  "file_bytes host arg = concat (takeWhile (\<lambda>b. b \<noteq> []) (the (host arg)))"

primrec image_of :: "(byte list \<Rightarrow> byte list list option) \<Rightarrow> byte list list \<Rightarrow> nat \<Rightarrow> (nat \<Rightarrow> byte list) \<Rightarrow> nat \<Rightarrow> byte list" where
  "image_of host [] n c = c"
| "image_of host (arg # args) n c = image_of host args (Suc n)
     (c(ROOTINO := c ROOTINO @ mk_dirent n (strip arg), n := file_bytes host arg))"

lemma image_of_mono: "j < n \<Longrightarrow> 1 < n \<Longrightarrow> length (c j) \<le> length (image_of host args n c j)"
proof (induction args arbitrary: n c)
  case (Cons arg args)
  let ?c = "c(ROOTINO := c ROOTINO @ mk_dirent n (strip arg), n := file_bytes host arg)"
  have "length (c j) \<le> length (?c j)" using Cons.prems by (auto simp: ROOTINO_def)
  also have "\<dots> \<le> length (image_of host args (Suc n) ?c j)" by (rule Cons.IH) (use Cons.prems in auto)
  finally show ?case by simp
qed simp

text \<open>The arguments are names without slashes of files that can be opened.\<close>

definition arg_ok :: "(byte list \<Rightarrow> byte list list option) \<Rightarrow> byte list \<Rightarrow> bool" where
  "arg_ok host arg \<longleftrightarrow> 47 \<notin> set arg \<and> host arg \<noteq> None"

lemma add_file_ok:
  assumes v: "mkinv m c" and n: "freeinode m = n" "1 < n" "n < NINODES" and a: "arg_ok host arg"
    and c': "c' = c(ROOTINO := c ROOTINO @ mk_dirent n (strip arg), n := file_bytes host arg)"
    and max: "\<And>j. j \<le> n \<Longrightarrow> length (c' j) \<le> MAXFILE * BSIZE" and room: "59 + total_slots {1..<Suc n} c' \<le> FSSIZE"
  shows "okP (add_file host ROOTINO arg m) (\<lambda>m'. mkinv m' c' \<and> freeinode m' = Suc n)"
proof -
  let ?c1 = "c(n := [])"
  let ?c2 = "?c1(ROOTINO := ?c1 ROOTINO @ mk_dirent n (strip arg))"
  obtain reads where h: "host arg = Some reads" using a by (auto simp: arg_ok_def)
  have r: "ROOTINO \<noteq> n" "ROOTINO < Suc n" "1 \<le> ROOTINO" using n by (simp_all add: ROOTINO_def)
  have e: "c' = ?c2(n := ?c2 n @ concat (takeWhile (\<lambda>b. b \<noteq> []) reads))"
    using r by (auto simp: c' file_bytes_def h)
  have "okP (bindr (mk_ialloc T_FILE m) (\<lambda>(inum, m). bindr (iappend ROOTINO (mk_dirent inum (strip arg)) m) (copy_in inum reads)))
      (\<lambda>m'. mkinv m' c' \<and> freeinode m' = Suc n)"
    unfolding okP_bindr [of "mk_ialloc T_FILE m"]
  proof (rule okP_mono [OF mk_ialloc_ok [OF v]], goal_cases)
    case (3 y)
    then obtain m1 where y: "y = (n, m1)" and v1: "mkinv m1 ?c1" and f1: "freeinode m1 = Suc n" using n by (cases y) auto
    have lv: "live m1 = {1..<Suc n}" using f1 by (simp add: live_def)
    have root: "ROOTINO \<in> live m1" and me: "n \<in> live m1" using lv r n by simp_all
    have "total_slots (live m1) ?c2 \<le> total_slots (live m1) c'" by (rule total_slots_mono) (use r in \<open>auto simp: live_def c'\<close>)
    then have room1: "59 + (\<Sum>j \<in> live m1. nslots (length (?c2 j))) \<le> FSSIZE" using room lv by (simp add: total_slots_def)
    have max1: "length (?c1 ROOTINO) + length (mk_dirent n (strip arg)) \<le> MAXFILE * BSIZE"
      using max [of ROOTINO] r by (simp add: c')
    have step: "okP (copy_in n reads m2) (\<lambda>m'. mkinv m' c' \<and> freeinode m' = Suc n)"
      if "mkinv m2 ?c2" "freeinode m2 = freeinode m1" for m2
      unfolding e f1 [symmetric] that(2) [symmetric]
      by (rule copy_in_ok [OF that(1) _ refl])
        (use me max [of n] room live_cong [OF that(2)] lv r in \<open>simp_all add: c' h file_bytes_def fun_upd_twist\<close>)
    show ?case unfolding y prod.case okP_bindr
      by (rule okP_mono [OF iappend_ok [OF v1 root max1 room1]]) (use step in blast)
  qed (use n in \<open>simp_all add: ROOTINO_def\<close>)
  then show ?thesis using a h by (simp add: add_file_def arg_ok_def strip_def Let_def)
qed

lemma add_files_ok:
  assumes "mkinv m c" "freeinode m = n" "1 < n" "n + length args \<le> NINODES" "\<forall>arg \<in> set args. arg_ok host arg"
    and "\<And>j. j < n + length args \<Longrightarrow> length (image_of host args n c j) \<le> MAXFILE * BSIZE"
    and "59 + total_slots {1..<n + length args} (image_of host args n c) \<le> FSSIZE"
  shows "okP (add_files host ROOTINO args m) (\<lambda>m'. mkinv m' (image_of host args n c) \<and> freeinode m' = n + length args)"
  using assms
proof (induction args arbitrary: m n c)
  case Nil
  then show ?case by simp
next
  case (Cons arg args)
  let ?c = "c(ROOTINO := c ROOTINO @ mk_dirent n (strip arg), n := file_bytes host arg)"
  have mono: "j < Suc n \<Longrightarrow> length (?c j) \<le> length (image_of host args (Suc n) ?c j)" for j
    by (rule image_of_mono) (use Cons.prems(3) in simp_all)
  have max: "length (?c j) \<le> MAXFILE * BSIZE" if "j \<le> n" for j
    using mono [of j] Cons.prems(6) [of j] that by (simp del: fun_upd_apply)
  have "total_slots {1..<Suc n} ?c \<le> total_slots {1..<n + length (arg # args)} (image_of host args (Suc n) ?c)"
    by (rule total_slots_mono) (use mono in auto)
  then have room: "59 + total_slots {1..<Suc n} ?c \<le> FSSIZE" using Cons.prems(7) by (simp del: fun_upd_apply)
  have n: "n < NINODES" and a: "arg_ok host arg" using Cons.prems(4,5) by simp_all
  have step: "okP (add_files host ROOTINO args m1) (\<lambda>m'. mkinv m' (image_of host (arg # args) n c) \<and> freeinode m' = n + length (arg # args))"
    if "mkinv m1 ?c" "freeinode m1 = Suc n" for m1
    using Cons.IH [OF that] Cons.prems(3-7) by (simp del: fun_upd_apply)
  have "okP (bindr (add_file host ROOTINO arg m) (add_files host ROOTINO args))
      (\<lambda>m'. mkinv m' (image_of host (arg # args) n c) \<and> freeinode m' = n + length (arg # args))"
    unfolding okP_bindr
    by (rule okP_mono [OF add_file_ok [OF Cons.prems(1-3) n a refl max room]]) (use step in blast)+
  then show ?case by simp
qed

section \<open>The whole program\<close>

definition disk_image :: "(byte list \<Rightarrow> byte list list option) \<Rightarrow> byte list list \<Rightarrow> nat \<Rightarrow> byte list" where
  "disk_image host args = image_of host args 2 ((\<lambda>_. [])(ROOTINO := mk_dirent ROOTINO [46] @ mk_dirent ROOTINO [46, 46]))"

text \<open>The files fit: there are inodes for them, none is too long, and all their blocks fit on the disk.\<close>

definition fits :: "(byte list \<Rightarrow> byte list list option) \<Rightarrow> byte list list \<Rightarrow> bool" where
  "fits host args \<longleftrightarrow> 2 + length args \<le> NINODES \<and> (\<forall>arg \<in> set args. arg_ok host arg)
     \<and> (\<forall>j < 2 + length args. length (disk_image host args j) \<le> MAXFILE * BSIZE)
     \<and> 59 + total_slots {1..<2 + length args} (disk_image host args) \<le> FSSIZE"

text \<open>The finished image: the bitmap covers the sectors in use, and the size of the root is a number of blocks.\<close>

definition built :: "(nat \<Rightarrow> mem) \<Rightarrow> nat \<Rightarrow> nat \<Rightarrow> (nat \<Rightarrow> byte list) \<Rightarrow> bool" where
  "built img fb n c \<longleftrightarrow> 59 \<le> fb \<and> rep img fb (mdin img) {1..<n} (\<lambda>i. fslots (length (c i))) (\<lambda>i. pad (c i))
     \<and> (\<forall>i \<in> {1..<n}. dinode_ok (mdin img i) i
           (if i = ROOTINO then (length (c i) div BSIZE + 1) * BSIZE else length (c i)) \<and> length (c i) \<le> MAXFILE * BSIZE)
     \<and> img 58 = fold set_used [0..<fb] (\<lambda>_. 0) \<and> (\<forall>b < 32. img b = mk_img blank_image b)"

lemma length_mk_dirent [simp]: "length (mk_dirent n name) = 16"
  by (simp add: mk_dirent_def)

lemma root_fixed:
  assumes v: "mkinv m c" and r: "ROOTINO \<in> live m" and z: "z = (length (c ROOTINO) div BSIZE + 1) * BSIZE"
  shows "okP (bindr (winode ROOTINO ((mdin (mk_img m) ROOTINO)\<lparr>i_size := xint z\<rparr>) m) (\<lambda>m. mk_balloc (freeblock m) m))
    (\<lambda>m'. built (mk_img m') (freeblock m') (freeinode m) c)"
proof -
  let ?d = "mdin (mk_img m) ROOTINO" and ?L = "{1..<freeinode m}"
  let ?m = "put_inode ROOTINO (?d\<lparr>i_size := xint z\<rparr>) m"
  note st = mkinvD(1,2,4,3) [OF v] and rp = mkinvD(5) [OF v, unfolded live_def] and fb = mkinvD(6) [OF v]
    and ok = mkinvD(7) [OF v, rule_format, unfolded live_def] and low = mkinvD(8) [OF v]
  have r': "ROOTINO \<in> ?L" using r by (simp add: live_def)
  have sz: "length (c ROOTINO) \<le> MAXFILE * BSIZE" using ok [OF r'] by simp
  have z32: "z < u32_mod"
  proof -
    have "length (c ROOTINO) div BSIZE \<le> MAXFILE" using sz by (simp add: BSIZE_def)
    then show ?thesis unfolding z by (simp add: layout_simps BSIZE_def)
  qed
  have rg: "inode_range (?d\<lparr>i_size := xint z\<rparr>)" using mdin_range [of "mk_img m" ROOTINO] z32 by (simp add: inode_range_def)
  have i200: "ROOTINO < 200" by (simp add: ROOTINO_def)
  have r1: "rep (mk_img ?m) (freeblock m) (mdin (mk_img ?m)) ?L (\<lambda>i. fslots (length (c i))) (\<lambda>i. pad (c i))"
    by (rule put_inode_rep [where d = ?d, OF _ i200 _ rg]) (use rp fb in \<open>simp_all add: same_addrs_def fun_upd_idem\<close>)
  have same: "same_dinode (mdin (mk_img ?m) ROOTINO) (?d\<lparr>i_size := xint z\<rparr>)" by (rule put_inode_same [OF rg])
  have zz: "(if i = ROOTINO then (length (c i) div BSIZE + 1) * BSIZE else length (c i)) = (if i = ROOTINO then z else length (c i))" for i
    by (simp add: z)
  have ok1: "dinode_ok (mdin (mk_img ?m) i) i (if i = ROOTINO then z else length (c i)) \<and> length (c i) \<le> MAXFILE * BSIZE"
    if "i \<in> ?L" for i
    using ok [OF that] same z32 put_inode_other [of i ROOTINO "?d\<lparr>i_size := xint z\<rparr>" m]
    by (cases "i = ROOTINO") (simp_all add: dinode_ok_def same_dinode_def)
  have f: "freeblock m < BSIZE * 8" using repD(1) [OF rp] by (simp add: FSSIZE_def BSIZE_def)
  have bm: "sb_bmapstart super = 58" by (simp add: super_eq demo_sb_def)
  let ?m' = "wsect 58 (fold set_used [0..<freeblock m] (\<lambda>_. 0)) ?m"
  have e: "bindr (winode ROOTINO (?d\<lparr>i_size := xint z\<rparr>) m) (\<lambda>m. mk_balloc (freeblock m) m) = Ok ?m'"
    using f by (simp add: winode_ok [OF i200 st(1,2)] mk_balloc_def st(2) bm del: xint_eq)
  have md: "mdin (mk_img ?m') i = mdin (mk_img ?m) i" if "i \<in> ?L" for i
    using iblock [of i] that st(3) by (auto simp: mdin_def wsect_def NINODES_def)
  have f59: "59 \<le> freeblock m" using fb by simp
  have fb': "freeblock ?m' = freeblock m" by (simp add: wsect_def)
  have r2: "rep (mk_img ?m') (freeblock m) (mdin (mk_img ?m')) ?L (\<lambda>i. fslots (length (c i))) (\<lambda>i. pad (c i))"
    by (rule rep_meta [OF r1 _ _ f59]) (use md in \<open>simp_all add: wsect_def same_addrs_def\<close>)
  have ok2: "dinode_ok (mdin (mk_img ?m') i) i (if i = ROOTINO then z else length (c i)) \<and> length (c i) \<le> MAXFILE * BSIZE"
    if "i \<in> ?L" for i unfolding md [OF that] by (rule ok1 [OF that])
  have low2: "\<forall>b < 32. mk_img ?m' b = mk_img blank_image b" using low put_inode_low [OF i200] by (simp add: wsect_def)
  show ?thesis
    unfolding e okP.simps built_def zz fb' using f59 r2 ok2 low2 by (intro conjI ballI) (simp_all add: wsect_def)
qed

lemma dots_ok:
  assumes "fits host args" and m: "mkinv m ((\<lambda>_. [])(ROOTINO := []))" "freeinode m = 2"
  shows "okP (bindr (iappend ROOTINO (mk_dirent ROOTINO [46]) m) (iappend ROOTINO (mk_dirent ROOTINO [46, 46])))
      (\<lambda>m'. mkinv m' ((\<lambda>_. [])(ROOTINO := mk_dirent ROOTINO [46] @ mk_dirent ROOTINO [46, 46])) \<and> freeinode m' = 2)"
proof -
  let ?d = "mk_dirent ROOTINO [46]" and ?e = "mk_dirent ROOTINO [46, 46]"
  let ?none = "(\<lambda>_. [])(ROOTINO := [])" and ?c = "(\<lambda>_ :: nat. [] :: byte list)(ROOTINO := ?d @ ?e)"
  let ?one = "?none(ROOTINO := ?none ROOTINO @ ?d)"
  have c: "?one(ROOTINO := ?one ROOTINO @ ?e) = ?c" by (rule ext) simp
  have lv: "live m' = {1..<2}" if "freeinode m' = 2" for m' using that by (simp add: live_def)
  have r: "ROOTINO \<in> {1..<2 :: nat}" by (simp add: ROOTINO_def)
  have mono: "length (?c j) \<le> length (disk_image host args j)" if "j \<in> {1..<2}" for j
    unfolding disk_image_def by (rule image_of_mono) (use that in simp_all)
  have "total_slots {1..<2} ?c \<le> total_slots {1..<2 + length args} (disk_image host args)"
    by (rule total_slots_mono) (use mono in auto)
  then have room: "59 + total_slots {1..<2} ?c \<le> FSSIZE" using assms(1) by (simp add: fits_def del: fun_upd_apply)
  have "total_slots {1..<2} ?one \<le> total_slots {1..<2} ?c" by (rule total_slots_mono) auto
  then have room1: "59 + (\<Sum>j \<in> live m. nslots (length (?one j))) \<le> FSSIZE"
    using room unfolding lv [OF m(2)] total_slots_def by linarith
  have step: "okP (iappend ROOTINO ?e m1) (\<lambda>m'. mkinv m' ?c \<and> freeinode m' = 2)"
    if "mkinv m1 ?one" "freeinode m1 = 2" for m1
    using iappend_ok [OF that(1), of ROOTINO ?e] r room lv [OF that(2)] that(2) unfolding c
    by (simp add: total_slots_def MAXFILE_def BSIZE_def del: fun_upd_apply) (simp add: NDIRECT_def)
  show ?thesis unfolding okP_bindr
    by (rule okP_mono [OF iappend_ok [OF m(1) _ _ room1]]) (use r lv [OF m(2)] step m(2) in \<open>auto simp: MAXFILE_def BSIZE_def NDIRECT_def\<close>)
qed

lemma mkfs_ok:
  assumes "fits host args"
  shows "okP (mkfs (img # args) True host) (\<lambda>m. built (mk_img m) (freeblock m) (2 + length args) (disk_image host args))"
proof -
  let ?Q = "\<lambda>m. built (mk_img m) (freeblock m) (2 + length args) (disk_image host args)"
  let ?dots = "(\<lambda>_ :: nat. [] :: byte list)(ROOTINO := mk_dirent ROOTINO [46] @ mk_dirent ROOTINO [46, 46])"
  let ?len = "length (disk_image host args ROOTINO)"
  let ?last = "\<lambda>r m. bindr (rinode r m) (\<lambda>din. bindr (winode r (din\<lparr>i_size := xint ((xint (i_size din) div BSIZE + 1) * BSIZE)\<rparr>) m)
      (\<lambda>m. mk_balloc (freeblock m) m))"
  have last: "okP (?last ROOTINO m) ?Q" if v: "mkinv m (disk_image host args)" and f: "freeinode m = 2 + length args" for m
  proof -
    have r: "ROOTINO \<in> live m" using f by (simp add: live_def ROOTINO_def)
    have d: "i_size (mdin (mk_img m) ROOTINO) = ?len" "?len \<le> MAXFILE * BSIZE"
      using mkinvD(7) [OF v, rule_format, OF r] by (simp_all add: dinode_ok_def)
    then have x: "xint (i_size (mdin (mk_img m) ROOTINO)) = ?len" by (simp add: layout_simps BSIZE_def)
    have ri: "rinode ROOTINO m = Ok (mdin (mk_img m) ROOTINO)"
      by (rule rinode_ok [OF _ mkinvD(1,2) [OF v]]) (simp add: ROOTINO_def)
    show ?thesis unfolding ri bindr.simps x using root_fixed [OF v r refl] f by simp
  qed
  have files: "okP (bindr (add_files host ROOTINO args m) (?last ROOTINO)) ?Q" if "mkinv m ?dots" "freeinode m = 2" for m
    unfolding okP_bindr [of "add_files host ROOTINO args m"]
    by (rule okP_mono [OF add_files_ok [OF that]])
      (use assms last in \<open>simp_all add: fits_def disk_image_def [symmetric] del: fun_upd_apply okP_bindr\<close>)
  have dots: "okP (bindr (bindr (iappend ROOTINO (mk_dirent ROOTINO [46]) m) (iappend ROOTINO (mk_dirent ROOTINO [46, 46])))
      (\<lambda>m. bindr (add_files host ROOTINO args m) (?last ROOTINO))) ?Q" if "mkinv m ((\<lambda>_. [])(ROOTINO := []))" "freeinode m = 2" for m
    unfolding okP_bindr [of "bindr (iappend ROOTINO (mk_dirent ROOTINO [46]) m) _"]
    by (rule okP_mono [OF dots_ok [OF assms that]]) (use files in blast)
  have f1: "freeinode blank_image = 1" by (simp add: blank_image_eq)
  have "okP (bindr (mk_ialloc T_DIR blank_image) (\<lambda>(rootino, m). if rootino \<noteq> ROOTINO then Panic ''assert rootino''
      else bindr (bindr (iappend rootino (mk_dirent rootino [46]) m) (iappend rootino (mk_dirent rootino [46, 46])))
        (\<lambda>m. bindr (add_files host rootino args m) (?last rootino)))) ?Q"
    unfolding okP_bindr [of "mk_ialloc T_DIR blank_image"]
    by (rule okP_mono [OF mk_ialloc_ok [OF mkinv_blank]])
      (use dots f1 in \<open>auto simp: ROOTINO_def NINODES_def simp del: okP_bindr fun_upd_apply\<close>)
  then show ?thesis
    by (simp add: mkfs_def bindr_assoc Let_def del: okP_bindr xint_eq cong: if_cong)
qed

end
