(* ===== verification/MkfsRead.thy ===== *)
theory MkfsRead
  imports DirSpec MkfsSpec
begin

text \<open>
  The kernel on a disk that \<open>mkfs\<close> built: it reads back the files, finds them in the root directory, and
  its bitmap marks the blocks in use.
\<close>

section \<open>The bitmap\<close>

lemma bitmap_fold: "bit_used (fold set_used [0..<n] (\<lambda>_. 0)) b \<longleftrightarrow> b < n"
proof (induction n)
  case 0
  show ?case by (simp add: bit_used_def)
next
  case (Suc n)
  then show ?case by (auto simp: bit_set_used less_Suc_eq)
qed

text \<open>
  C20: In the image that \<open>mkfs\<close> builds the bitmap is exact: the data blocks marked as used are in one-to-one
  correspondence with the block slots of the files (the indirect block of a large file among them), so no
  block is shared and none is lost.
\<close>

theorem mkfs_bitmap:
  assumes "fits host args"
  shows "okP (mkfs (img # args) True host) (\<lambda>m. bij_betw (\<lambda>(i, bn). dref (mk_img m) (mdin (mk_img m) i) bn)
    (SIGMA i:{1..<2 + length args}. fslots (length (disk_image host args i)))
    {b. 59 \<le> b \<and> b < FSSIZE \<and> bit_used (mk_img m 58) b})"
proof (rule okP_mono [OF mkfs_ok [OF assms]])
  fix m
  assume b: "built (mk_img m) (freeblock m) (2 + length args) (disk_image host args)"
  then have r: "rep (mk_img m) (freeblock m) (mdin (mk_img m)) {1..<2 + length args} (\<lambda>i. fslots (length (disk_image host args i)))
      (\<lambda>i. pad (disk_image host args i))" and bm: "mk_img m 58 = fold set_used [0..<freeblock m] (\<lambda>_. 0)"
    by (simp_all add: built_def)
  have "{b. 59 \<le> b \<and> b < FSSIZE \<and> bit_used (mk_img m 58) b} = {59..<freeblock m}"
    using repD(1) [OF r] by (auto simp: bm bitmap_fold)
  then show "bij_betw (\<lambda>(i, bn). dref (mk_img m) (mdin (mk_img m) i) bn)
    (SIGMA i:{1..<2 + length args}. fslots (length (disk_image host args i)))
    {b. 59 \<le> b \<and> b < FSSIZE \<and> bit_used (mk_img m 58) b}"
    using repD(2) [OF r] by simp
qed

text \<open>A host with a file of five bytes, which it delivers in two reads.\<close>

definition demo_host :: "byte list \<Rightarrow> byte list list option" where
  "demo_host name = (if name = [95, 97] then Some [[104, 101, 108], [108, 111], []] else None)"

lemma demo_fits: "fits demo_host [[95, 97]]"
proof -
  have i: "disk_image demo_host [[95, 97]] j = (if j = 1 then mk_dirent 1 [46] @ mk_dirent 1 [46, 46] @ mk_dirent 2 [97]
      else if j = 2 then [104, 101, 108, 108, 111] else [])" for j
    by (simp add: disk_image_def file_bytes_def demo_host_def strip_def ROOTINO_def)
  have "{1..<2 + length [[95 :: byte, 97]]} = {1, 2}" by auto
  then have "total_slots {1..<2 + length [[95 :: byte, 97]]} (disk_image demo_host [[95, 97]]) = nslots 48 + nslots (length [104 :: byte, 101, 108, 108, 111])"
    by (simp add: total_slots_def i)
  moreover have "nslots 48 = 1" "nslots (length [104 :: byte, 101, 108, 108, 111]) = 1" by (simp_all add: nslots_def layout_simps BSIZE_def)
  moreover have "length (disk_image demo_host [[95, 97]] j) \<le> MAXFILE * BSIZE" for j
    by (simp add: i layout_simps BSIZE_def)
  ultimately show ?thesis
    by (simp add: fits_def arg_ok_def demo_host_def NINODES_def FSSIZE_def)
qed

section \<open>Files\<close>

text \<open>An inode slot of a kernel in a transaction, with no buffer in use, on a given disk.\<close>

definition opened :: "'a fsk_scheme \<Rightarrow> nat \<Rightarrow> (nat \<Rightarrow> mem) \<Rightarrow> nat \<Rightarrow> bool" where
  "opened s i img inum \<longleftrightarrow> txn 0 1 s \<and> blk s = img \<and> clocked (bc s) = {} \<and> {59..<FSSIZE} \<subseteq> home (lg s)
     \<and> i_dev (inodes s i) = ROOTDEV \<and> same_dinode (inodes s i) (mdin img inum)"

lemma opened_dref:
  assumes "opened s i img inum" "bn < MAXFILE"
  shows "addr_of s i bn = dref img (mdin img inum) bn" "i_addrs (inodes s i) NDIRECT = dref img (mdin img inum) MAXFILE"
  using assms by (auto simp: opened_def same_dinode_def addr_of_def dref_def MAXFILE_def)

lemma opened_map:
  assumes o: "opened s i img inum" and r: "rep img fb (mdin img) L S f" and i: "inum \<in> L"
    and N: "N \<le> MAXFILE" "{..<N} \<subseteq> S inum"
  shows "file_map s i N"
proof -
  have h: "{59..<FSSIZE} \<subseteq> home (lg s)" "clocked (bc s) = {}" "i_dev (inodes s i) = ROOTDEV" using o by (simp_all add: opened_def)
  have ref: "dref img (mdin img inum) bn \<noteq> 0 \<and> dref img (mdin img inum) bn \<in> home (lg s)" if "bn \<in> S inum" for bn
    using rep_ref [OF r i that] h(1) repD(1) [OF r] by fastforce
  have a: "addr_of s i bn = dref img (mdin img inum) bn" "bn \<in> S inum" if "bn < N" for bn
    using that N opened_dref(1) [OF o] by auto
  have inj: "inj_on (addr_of s i) {..<N}"
    using rep_inj [OF r i _ i] a by (intro inj_onI) auto
  have ind: "NDIRECT < N \<Longrightarrow> MAXFILE \<in> S inum" using repD(4) [OF r i, of NDIRECT] a(2) by auto
  have ne: "dref img (mdin img inum) bn \<noteq> dref img (mdin img inum) MAXFILE" if "NDIRECT < N" "bn < N" for bn
    using rep_inj [OF r i a(2) [OF that(2)] i ind [OF that(1)]] that(2) N(1) by auto
  show ?thesis
    unfolding file_map_def using h ref a inj ind ne N(1) opened_dref(2) [OF o, of 0] by (auto simp: MAXFILE_def)
qed

lemma opened_byte:
  assumes o: "opened s i img inum" and r: "rep img fb (mdin img) L S (\<lambda>i. pad (c i))" and i: "inum \<in> L"
    and N: "N \<le> MAXFILE" "{..<N} \<subseteq> S inum" and k: "k < N * BSIZE"
  shows "file_byte s i k = pad (c inum) k"
proof -
  have "k div BSIZE < N" using k by (simp add: BSIZE_def less_mult_imp_div_less)
  then have S: "k div BSIZE \<in> S inum" "k div BSIZE < MAXFILE" using N by auto
  have "k mod BSIZE < BSIZE" by (simp add: BSIZE_def)
  from repD(5) [OF r i S this] show ?thesis
    using o opened_dref(1) [OF o S(2)] by (simp add: file_byte_def opened_def)
qed

lemma opened_content:
  assumes o: "opened s i img inum" and r: "rep img fb (mdin img) L S (\<lambda>i. pad (c i))" and i: "inum \<in> L"
    and N: "N \<le> MAXFILE" "{..<N} \<subseteq> S inum" and sz: "i_size (mdin img inum) \<le> N * BSIZE"
  shows "content s i = map (pad (c inum)) [0..<i_size (mdin img inum)]"
proof -
  have "file_byte s i k = pad (c inum) k" if "k < i_size (mdin img inum)" for k
    by (rule opened_byte [OF o r i N]) (use that sz in simp)
  moreover have "i_size (inodes s i) = i_size (mdin img inum)" using o by (simp add: opened_def same_dinode_def)
  ultimately show ?thesis by (simp add: content_def)
qed

lemma fslots_prefix: "n \<le> MAXFILE * BSIZE \<Longrightarrow> N = (n + (BSIZE - 1)) div BSIZE \<Longrightarrow> {..<N} \<subseteq> fslots n \<and> N \<le> MAXFILE \<and> n \<le> N * BSIZE"
proof -
  assume n: "n \<le> MAXFILE * BSIZE" and N: "N = (n + (BSIZE - 1)) div BSIZE"
  have "n + 511 < 512 * N + 512" "512 * N \<le> n + 511" unfolding N BSIZE_def by simp_all
  moreover have "n \<le> 140 * 512" using n by (simp add: layout_simps BSIZE_def)
  ultimately have "N \<le> MAXFILE" "n \<le> N * BSIZE" "\<And>bn. bn < N \<Longrightarrow> bn * BSIZE < n"
    by (simp_all add: layout_simps BSIZE_def)
  then show ?thesis by (auto simp: fslots_def)
qed

lemma builtD:
  assumes "built img fb n c"
  shows "rep img fb (mdin img) {1..<n} (\<lambda>i. fslots (length (c i))) (\<lambda>i. pad (c i))"
    and "i \<in> {1..<n} \<Longrightarrow> dinode_ok (mdin img i) i (if i = ROOTINO then (length (c i) div BSIZE + 1) * BSIZE else length (c i))"
    and "i \<in> {1..<n} \<Longrightarrow> length (c i) \<le> MAXFILE * BSIZE"
  using assms unfolding built_def by blast+

lemma map_pad: "map (pad c) [0..<length c] = c"
  by (rule nth_equalityI) (simp_all add: pad_def)

lemma built_file:
  assumes b: "built img fb n c" and o: "opened s i img inum" and i: "inum \<in> {1..<n}" "inum \<noteq> ROOTINO"
  shows "content s i = c inum" "file_map s i ((length (c inum) + (BSIZE - 1)) div BSIZE)"
    "i_size (inodes s i) \<le> (length (c inum) + (BSIZE - 1)) div BSIZE * BSIZE" "i_size (inodes s i) = length (c inum)"
    "i_type (inodes s i) = T_FILE"
proof -
  note r = builtD(1) [OF b] and d = builtD(2) [OF b i(1)] and p = fslots_prefix [OF builtD(3) [OF b i(1)] refl]
  have sz: "i_size (mdin img inum) = length (c inum)" and ty: "i_type (mdin img inum) = T_FILE"
    using d i(2) by (simp_all add: dinode_ok_def)
  show "content s i = c inum"
    using opened_content [OF o r i(1), of "(length (c inum) + (BSIZE - 1)) div BSIZE"] p by (simp add: sz map_pad)
  show "file_map s i ((length (c inum) + (BSIZE - 1)) div BSIZE)"
    by (rule opened_map [OF o r i(1)]) (use p in simp_all)
  show s: "i_size (inodes s i) = length (c inum)" "i_type (inodes s i) = T_FILE"
    using o sz ty by (simp_all add: opened_def same_dinode_def)
  show "i_size (inodes s i) \<le> (length (c inum) + (BSIZE - 1)) div BSIZE * BSIZE" using p s by simp
qed

text \<open>The files of the image.\<close>

lemma image_of_old: "j < n \<Longrightarrow> j \<noteq> ROOTINO \<Longrightarrow> image_of host args n c j = c j"
  by (induction args arbitrary: n c) simp_all

lemma image_of_file: "1 < n \<Longrightarrow> x < length args \<Longrightarrow> image_of host args n c (n + x) = file_bytes host (args ! x)"
proof (induction args arbitrary: n c x)
  case (Cons arg args)
  show ?case
  proof (cases x)
    case 0
    then show ?thesis using Cons.prems by (simp add: image_of_old ROOTINO_def)
  next
    case (Suc y)
    then show ?thesis using Cons.IH [of "Suc n" y] Cons.prems by simp
  qed
qed simp

lemma disk_image_file: "x < length args \<Longrightarrow> disk_image host args (2 + x) = file_bytes host (args ! x)"
  unfolding disk_image_def by (rule image_of_file) simp_all

text \<open>
  C18: What \<open>mkfs\<close> puts into the image the kernel reads back: for files that fit on the disk \<open>mkfs\<close> succeeds, and
  on the disk it leaves, \<open>readi\<close> on the inode of the \<open>x\<close>-th file returns exactly the slices of the bytes that
  the host delivered for it, in whatever pieces.
\<close>

theorem mkfs_reads_back:
  assumes "fits host args" "x < length args" "off \<le> length (file_bytes host (args ! x))" "off + n < u32_mod"
  shows "okP (mkfs (img # args) True host) (\<lambda>m. \<forall>s i. opened s i (mk_img m) (2 + x) \<longrightarrow>
    okP (readi i off n s) (\<lambda>(r, bs, t). bs = take n (drop off (file_bytes host (args ! x))) \<and> r = int (length bs)))"
proof (rule okP_mono [OF mkfs_ok [OF assms(1)]], intro allI impI)
  fix m i and s :: "'a consk_scheme"
  assume b: "built (mk_img m) (freeblock m) (2 + length args) (disk_image host args)" and o: "opened s i (mk_img m) (2 + x)"
  have x: "2 + x \<in> {1..<2 + length args}" "2 + x \<noteq> ROOTINO" using assms(2) by (simp_all add: ROOTINO_def)
  note f = built_file [OF b o x, unfolded disk_image_file [OF assms(2)]]
  have t: "txn 0 (Suc 0) s" using o by (simp add: opened_def)
  have "okP (readi i off n s) (\<lambda>(r, bs, t). bs = take n (drop off (content s i)) \<and> r = int (length bs) \<and> txn 0 (Suc 0) t \<and> rsame s t)"
    by (rule readi_ok [OF t _ f(2,3)]) (use f assms in \<open>simp_all add: layout_simps\<close>)
  then show "okP (readi i off n s) (\<lambda>(r, bs, t). bs = take n (drop off (file_bytes host (args ! x))) \<and> r = int (length bs))"
    by (rule okP_mono) (auto simp: f(1))
qed

text \<open>The boot machine in a transaction on that disk, with an inode of it in slot 0.\<close>

definition mounted :: "(nat \<Rightarrow> mem) \<Rightarrow> nat \<Rightarrow> trapk" where
  "mounted img inum = upd_inode 0 (\<lambda>_. (mdin img inum)\<lparr>i_dev := ROOTDEV, i_inum := inum, i_ref := 1, i_valid := True\<rparr>)
     (demo (\<lambda>_. img))"

lemma mounted_opened:
  assumes "built img fb n c"
  shows "opened (mounted img inum) 0 img inum"
proof -
  have "img 2 = (\<lambda>_. 0)" using assms by (simp add: built_def blank_image_eq)
  then have h: "head_n (img 2) = 0" by (simp add: head_n_def s32_def rd32_def)
  have "txn 0 1 (demo (\<lambda>_. img))" by (rule demo_txn) (simp_all add: h)
  moreover have "{59..<FSSIZE} \<subseteq> home demo_logst" by (auto simp: demo_home FSSIZE_def)
  ultimately show ?thesis by (simp add: opened_def mounted_def demo_bio same_dinode_def)
qed

lemma mkfs_reads_back_witness:
  "\<exists>m t. mkfs [[105], [95, 97]] True demo_host = Ok m \<and> readi 0 1 20 (mounted (mk_img m) 2) = Ok (4, [101, 108, 108, 111], t)"
proof -
  have f: "file_bytes demo_host ([[95, 97]] ! 0) = [104, 101, 108, 108, 111]" by (simp add: file_bytes_def demo_host_def)
  have w: "okP (mkfs ([105] # [[95, 97]]) True demo_host) (\<lambda>m. \<forall>(s :: trapk) i. opened s i (mk_img m) (2 + 0) \<longrightarrow>
      okP (readi i 1 20 s) (\<lambda>(r, bs, t). bs = take 20 (drop 1 (file_bytes demo_host ([[95, 97]] ! 0))) \<and> r = int (length bs)))"
    by (rule mkfs_reads_back [OF demo_fits]) (simp_all add: f [simplified])
  have reads: "okP (readi i 1 20 s) (\<lambda>(r, bs, t). bs = [101, 108, 108, 111] \<and> r = int (length bs))"
    if "mkfs [[105], [95, 97]] True demo_host = Ok m" "opened s i (mk_img m) 2" for m i and s :: trapk
    using w [unfolded f] that by simp
  obtain m where m: "mkfs [[105], [95, 97]] True demo_host = Ok m"
      "built (mk_img m) (freeblock m) (2 + length [[95 :: byte, 97]]) (disk_image demo_host [[95, 97]])"
    using mkfs_ok [OF demo_fits, of "[105]"] by (auto simp: okP_iff)
  have "okP (readi 0 1 20 (mounted (mk_img m) 2)) (\<lambda>(r, bs, t). bs = [101, 108, 108, 111] \<and> r = int (length bs))"
    by (rule reads [OF m(1) mounted_opened [OF m(2)]])
  then show ?thesis using m(1) by (auto simp: okP_iff)
qed

lemma mkfs_bitmap_witness:
  "\<exists>m. mkfs [[105], [95, 97]] True demo_host = Ok m \<and> card {b. 59 \<le> b \<and> b < FSSIZE \<and> bit_used (mk_img m 58) b} = 2"
proof -
  have l: "length (disk_image demo_host [[95, 97]] 1) = 48" "length (disk_image demo_host [[95, 97]] 2) = 5"
    by (simp_all add: disk_image_def file_bytes_def demo_host_def strip_def ROOTINO_def)
  have s: "fslots 48 = {0}" "fslots 5 = {0}" by (auto simp: fslots_def layout_simps BSIZE_def)
  have "{1..<2 + length [[95 :: byte, 97]]} = {1, 2}" by auto
  then have "(SIGMA i:{1..<2 + length [[95 :: byte, 97]]}. fslots (length (disk_image demo_host [[95, 97]] i))) = {(1, 0), (2, 0)}"
    by (auto simp: l [simplified] s split: if_splits)
  with mkfs_bitmap [OF demo_fits, of "[105]"] show ?thesis
    by (auto simp: okP_iff dest!: bij_betw_same_card)
qed

section \<open>The root directory\<close>

definition entry_name :: "byte list list \<Rightarrow> nat \<Rightarrow> byte list" where
  "entry_name args e = (if e = 0 then [46] else if e = 1 then [46, 46] else take DIRSIZ (strip (args ! (e - 2))))"

definition entry_inum :: "nat \<Rightarrow> nat" where
  "entry_inum e = (if e < 2 then ROOTINO else e)"

lemma image_of_root:
  assumes "1 < n" "length (c ROOTINO) = 16 * n"
  shows "length (image_of host args n c ROOTINO) = 16 * (n + length args)
    \<and> (\<forall>e < n + length args. take 16 (drop (16 * e) (image_of host args n c ROOTINO)) =
        (if e < n then take 16 (drop (16 * e) (c ROOTINO)) else mk_dirent e (strip (args ! (e - n)))))"
  using assms
proof (induction args arbitrary: n c)
  case Nil
  then show ?case by simp
next
  case (Cons arg args)
  let ?c = "c(ROOTINO := c ROOTINO @ mk_dirent n (strip arg), n := file_bytes host arg)"
  have ne: "ROOTINO \<noteq> n" using Cons.prems(1) by (simp add: ROOTINO_def)
  have IH: "length (image_of host args (Suc n) ?c ROOTINO) = 16 * (Suc n + length args)
    \<and> (\<forall>e < Suc n + length args. take 16 (drop (16 * e) (image_of host args (Suc n) ?c ROOTINO)) =
        (if e < Suc n then take 16 (drop (16 * e) (?c ROOTINO)) else mk_dirent e (strip (args ! (e - Suc n)))))"
    by (rule Cons.IH) (use Cons.prems ne in simp_all)
  have e: "take 16 (drop (16 * e) (?c ROOTINO)) = (if e < n then take 16 (drop (16 * e) (c ROOTINO)) else mk_dirent e (strip arg))"
    if "e < Suc n" for e using that Cons.prems(2) ne by (auto simp: less_Suc_eq)
  show ?case
  proof (intro conjI allI impI)
    show "length (image_of host (arg # args) n c ROOTINO) = 16 * (n + length (arg # args))" using IH by simp
    fix e assume lt: "e < n + length (arg # args)"
    show "take 16 (drop (16 * e) (image_of host (arg # args) n c ROOTINO)) =
        (if e < n then take 16 (drop (16 * e) (c ROOTINO)) else mk_dirent e (strip ((arg # args) ! (e - n))))"
      using IH [THEN conjunct2, rule_format, of e] lt e [of e]
      by (auto simp del: fun_upd_apply simp: nth_Cons' less_Suc_eq split: if_splits)
  qed
qed

lemma root_entries:
  "length (disk_image host args ROOTINO) = 16 * (2 + length args)"
  "e < 2 + length args \<Longrightarrow> take 16 (drop (16 * e) (disk_image host args ROOTINO)) = mk_dirent (entry_inum e) (entry_name args e)"
proof -
  let ?dots = "(\<lambda>_ :: nat. [] :: byte list)(ROOTINO := mk_dirent ROOTINO [46] @ mk_dirent ROOTINO [46, 46])"
  note r = image_of_root [of 2 ?dots host args]
  show "length (disk_image host args ROOTINO) = 16 * (2 + length args)" using r by (simp add: disk_image_def)
  have t: "mk_dirent n (take DIRSIZ w) = mk_dirent n w" for n w by (simp add: mk_dirent_def)
  show "take 16 (drop (16 * e) (disk_image host args ROOTINO)) = mk_dirent (entry_inum e) (entry_name args e)" if "e < 2 + length args"
    using r [THEN conjunct2, rule_format, of e] that t
    by (auto simp: disk_image_def entry_inum_def entry_name_def less_2_cases_iff)
qed

lemma dirent_decoded:
  assumes "n < 65536" "0 \<notin> set w"
  shows "rd16 (arr (mk_dirent n w)) 0 = n" "array_str (arr (mk_dirent n w)) 2 DIRSIZ = take DIRSIZ w"
proof -
  let ?m = "put_bytes (take DIRSIZ w) (wr16 (\<lambda>_. 0) 0 n) 2"
  have a: "arr (mk_dirent n w) k = (if k < 16 then ?m k else 0)" for k
    using assms(1) by (simp add: arr_def mk_dirent_def put_bytes_def [of _ _ 0])
  have "rd16 (arr (mk_dirent n w)) 0 = rd16 (wr16 (\<lambda>_. 0) 0 n) 0"
    by (rule rd16_cong) (simp_all add: a, simp_all add: put_bytes_def)
  then show "rd16 (arr (mk_dirent n w)) 0 = n" using assms(1) by simp
  have b: "bytes_at (arr (mk_dirent n w)) 2 DIRSIZ = take DIRSIZ w @ replicate (DIRSIZ - length w) 0"
    by (rule nth_equalityI) (auto simp: a, auto simp: put_bytes_def wr16_def nth_append DIRSIZ_def)
  have "0 \<notin> set (take DIRSIZ w)" using assms(2) by (auto dest: in_set_takeD)
  then show "array_str (arr (mk_dirent n w)) 2 DIRSIZ = take DIRSIZ w"
    unfolding array_str_def b by (subst takeWhile_append2) (auto simp: takeWhile_replicate)
qed

lemma first_idx_extend:
  assumes "n \<le> m" "\<And>i. n \<le> i \<Longrightarrow> i < m \<Longrightarrow> \<not> P i"
  shows "first_idx m P = first_idx n P"
proof (cases "first_idx n P")
  case None
  then have "first_idx m P = None" unfolding first_idx_None using assms(2) by (meson not_less)
  with None show ?thesis by simp
next
  case (Some e)
  then have "first_idx m P = Some e" unfolding first_idx_Some using assms(1) by auto
  with Some show ?thesis by simp
qed

text \<open>The entries of the root lie in its blocks, the size of which \<open>mkfs\<close> rounds up.\<close>

lemma built_root:
  assumes b: "built img fb (2 + length args) (disk_image host args)" and o: "opened s i img ROOTINO"
  shows "take (16 * (2 + length args)) (content s i) = disk_image host args ROOTINO"
    "\<exists>N. file_map s i N \<and> 16 * (2 + length args) \<le> N * BSIZE" "i_type (inodes s i) = T_DIR"
    "i_size (inodes s i) = ((2 + length args) div 32 + 1) * BSIZE" "16 * (2 + length args) \<le> i_size (inodes s i)"
proof -
  let ?c = "disk_image host args" and ?n = "16 * (2 + length args)"
  let ?N = "(?n + (BSIZE - 1)) div BSIZE"
  have i: "ROOTINO \<in> {1..<2 + length args}" by (simp add: ROOTINO_def)
  note r = builtD(1) [OF b] and d = builtD(2) [OF b i] and len = root_entries(1) [of host args]
  have "?n \<le> MAXFILE * BSIZE" using builtD(3) [OF b i] len by simp
  from fslots_prefix [OF this refl] have N: "{..<?N} \<subseteq> fslots (length (?c ROOTINO))" "?N \<le> MAXFILE" "?n \<le> ?N * BSIZE"
    unfolding len by simp_all
  have "?n div 512 = (2 + length args) div 32" by (simp add: div_mult2_eq [symmetric] del: div_mult2_eq)
  then have sz: "i_size (mdin img ROOTINO) = ((2 + length args) div 32 + 1) * BSIZE" and ty: "i_type (mdin img ROOTINO) = T_DIR"
    using d unfolding len by (simp_all add: dinode_ok_def BSIZE_def)
  show szs: "i_size (inodes s i) = ((2 + length args) div 32 + 1) * BSIZE" and "i_type (inodes s i) = T_DIR"
    using o sz ty by (simp_all add: opened_def same_dinode_def)
  show le: "?n \<le> i_size (inodes s i)" unfolding szs BSIZE_def by simp
  show "\<exists>N. file_map s i N \<and> ?n \<le> N * BSIZE" using opened_map [OF o r i N(2,1)] N(3) by blast
  show "take ?n (content s i) = ?c ROOTINO"
  proof (rule nth_equalityI)
    show l: "length (take ?n (content s i)) = length (?c ROOTINO)" using le len by (simp add: content_def)
    fix k assume "k < length (take ?n (content s i))"
    then have k: "k < ?n" "k < length (?c ROOTINO)" using l len by simp_all
    then show "take ?n (content s i) ! k = ?c ROOTINO ! k"
      using opened_byte [OF o r i N(2,1), of k] N(3) le by (simp add: content_def pad_def)
  qed
qed

text \<open>Where the entries do not end with a block the size is that of the blocks, with zeros behind the entries.\<close>

lemma below_entries: "n mod 32 \<noteq> 0 \<Longrightarrow> n div 32 * 512 < 16 * n" for n :: nat
proof -
  assume "n mod 32 \<noteq> 0"
  then have "0 < n mod 32" by simp
  moreover have "n = 32 * (n div 32) + n mod 32" by simp
  ultimately have "32 * (n div 32) < n" by linarith
  then show ?thesis by simp
qed

lemma built_root_whole:
  assumes b: "built img fb (2 + length args) (disk_image host args)" and o: "opened s i img ROOTINO"
    and fit: "(2 + length args) mod 32 \<noteq> 0"
  shows "content s i = disk_image host args ROOTINO @ replicate (i_size (inodes s i) - 16 * (2 + length args)) 0"
    "\<exists>N. file_map s i N \<and> i_size (inodes s i) \<le> N * BSIZE" "16 dvd i_size (inodes s i)"
proof -
  let ?c = "disk_image host args" and ?n = "16 * (2 + length args)" and ?q = "(2 + length args) div 32"
  have i: "ROOTINO \<in> {1..<2 + length args}" by (simp add: ROOTINO_def)
  note r = builtD(1) [OF b] and len = root_entries(1) [of host args] and R = built_root [OF b o]
  have lt: "?q * 512 < ?n" by (rule below_entries [OF fit])
  have max: "?n \<le> MAXFILE * BSIZE" using builtD(3) [OF b i] len by simp
  have N: "?q + 1 \<le> MAXFILE" using max lt by (simp add: layout_simps BSIZE_def)
  have sub: "{..<?q + 1} \<subseteq> fslots (length (?c ROOTINO))" unfolding len fslots_def using N lt by (auto simp: BSIZE_def)
  have szm: "i_size (mdin img ROOTINO) = i_size (inodes s i)" using o by (simp add: opened_def same_dinode_def)
  show "16 dvd i_size (inodes s i)" unfolding R(4) BSIZE_def by (rule dvd_mult) simp
  show "\<exists>N. file_map s i N \<and> i_size (inodes s i) \<le> N * BSIZE"
    using opened_map [OF o r i N sub] R(4) by (intro exI [of _ "?q + 1"]) simp
  have "content s i = map (pad (?c ROOTINO)) [0..<i_size (inodes s i)]"
    using opened_content [OF o r i N sub] R(4) szm by simp
  also have "\<dots> = ?c ROOTINO @ replicate (i_size (inodes s i) - ?n) 0"
    by (rule nth_equalityI) (use R(5) len in \<open>auto simp: pad_def nth_append\<close>)
  finally show "content s i = ?c ROOTINO @ replicate (i_size (inodes s i) - ?n) 0" .
qed

lemma root_dirents:
  fixes s :: "'a consk_scheme"
  assumes b: "built img fb (2 + length args) (disk_image host args)" and o: "opened s i img ROOTINO"
    and fit: "fits host args" "\<forall>arg \<in> set args. 0 \<notin> set arg" and e: "e < 2 + length args"
  shows "entry_is name (dirent s i e) \<longleftrightarrow> entry_name args e = array_str name 0 DIRSIZ" "rd16 (dirent s i e) 0 = entry_inum e"
proof -
  have small: "entry_inum e < 65536" using e fit(1) by (simp add: entry_inum_def fits_def NINODES_def ROOTINO_def)
  have nz: "0 \<notin> set (entry_name args e)"
  proof -
    have "0 \<notin> set (strip (args ! (e - 2)))" if "2 \<le> e"
      using fit(2) that e nth_mem [of "e - 2" args] by (auto simp: strip_def dest: list.set_sel(2))
    then show ?thesis by (auto simp: entry_name_def dest: in_set_takeD)
  qed
  have "take 16 (drop (16 * e) (content s i)) = take 16 (drop (16 * e) (take (16 * (2 + length args)) (content s i)))"
    using e by (simp add: drop_take min_def)
  then have de: "dirent s i e = arr (mk_dirent (entry_inum e) (entry_name args e))"
    unfolding dirent_def built_root(1) [OF b o] root_entries(2) [OF e] by simp
  have cut: "take DIRSIZ (entry_name args e) = entry_name args e" by (auto simp: entry_name_def DIRSIZ_def)
  show "entry_is name (dirent s i e) \<longleftrightarrow> entry_name args e = array_str name 0 DIRSIZ" "rd16 (dirent s i e) 0 = entry_inum e"
    using dirent_decoded [OF small nz] by (auto simp: entry_is_def de cut entry_inum_def ROOTINO_def)
qed

text \<open>No entry is behind those of the files.\<close>

lemma first_idx_names:
  fixes s :: "'a consk_scheme"
  assumes b: "built img fb (2 + length args) (disk_image host args)" and o: "opened s i img ROOTINO"
    and fit: "fits host args" "\<forall>arg \<in> set args. 0 \<notin> set arg" "(2 + length args) mod 32 \<noteq> 0"
  shows "dir_search i name s = first_idx (2 + length args) (\<lambda>e. entry_name args e = array_str name 0 DIRSIZ)"
proof -
  let ?n = "2 + length args" and ?size = "i_size (inodes s i)"
  note r = built_root_whole [OF b o fit(3)]
  have behind: "\<not> entry_is name (dirent s i e)" if "?n \<le> e" "e < ?size div 16" for e
  proof -
    have "dirent s i e = (\<lambda>_. 0)" unfolding dirent_def r(1) using that root_entries(1) [of host args]
      by (intro ext) (simp add: arr_def put_bytes_def)
    then show ?thesis by (simp add: entry_is_def rd16_def)
  qed
  have "dir_search i name s = first_idx ?n (\<lambda>e. entry_is name (dirent s i e))"
    unfolding dir_search_def by (rule first_idx_extend) (use r(3) built_root(5) [OF b o] behind in auto)
  also have "\<dots> = first_idx ?n (\<lambda>e. entry_name args e = array_str name 0 DIRSIZ)"
    by (rule first_idx_cong) (rule root_dirents(1) [OF b o fit(1,2)])
  finally show ?thesis .
qed

text \<open>
  C19: The kernel finds the files of the image by name: \<open>dirlookup\<close> in the root directory that \<open>mkfs\<close> built takes
  the first entry among \<open>.\<close>, \<open>..\<close> and the names of the files, without a leading underscore and cut to \<open>DIRSIZ\<close> bytes,
  that is the name sought, and gives the inode of that file. Any other name is not found, unless the entries, \<open>.\<close> and
  \<open>..\<close> included, end with a block, which is when their number is a multiple of 32: then \<open>mkfs\<close> has rounded the size
  of the root up by a block that it has not allocated, and nothing is claimed of a name that is not there.
\<close>

theorem mkfs_lookup:
  assumes "fits host args" "\<forall>arg \<in> set args. 0 \<notin> set arg"
  shows "okP (mkfs (img # args) True host) (\<lambda>m. \<forall>s i. opened s i (mk_img m) ROOTINO \<longrightarrow>
    (case first_idx (2 + length args) (\<lambda>e. entry_name args e = array_str name 0 DIRSIZ) of
       Some e \<Rightarrow> \<exists>t. txn 0 1 t \<and> dirlookup i name s = bindr (iget ROOTDEV (entry_inum e) t) (\<lambda>(ip, u). Ok (Some (ip, 16 * e), u))
     | None \<Rightarrow> (2 + length args) mod 32 \<noteq> 0 \<longrightarrow> (\<exists>t. txn 0 1 t \<and> dirlookup i name s = Ok (None, t))))"
proof (rule okP_mono [OF mkfs_ok [OF assms(1)]], intro allI impI)
  fix m i and s :: "'a consk_scheme"
  let ?w = "array_str name 0 DIRSIZ" and ?n = "2 + length args"
  assume b: "built (mk_img m) (freeblock m) ?n (disk_image host args)" and o: "opened s i (mk_img m) ROOTINO"
  have t: "txn 0 (Suc 0) s" and dev: "i_dev (inodes s i) = ROOTDEV" using o by (simp_all add: opened_def)
  note R = built_root [OF b o] and D = root_dirents [OF b o assms]
  have c: "first_idx ?n (\<lambda>e. entry_is name (dirent s i e)) = first_idx ?n (\<lambda>e. entry_name args e = ?w)"
    by (rule first_idx_cong) (rule D(1))
  show "case first_idx ?n (\<lambda>e. entry_name args e = ?w) of
       Some e \<Rightarrow> \<exists>t. txn 0 1 t \<and> dirlookup i name s = bindr (iget ROOTDEV (entry_inum e) t) (\<lambda>(ip, u). Ok (Some (ip, 16 * e), u))
     | None \<Rightarrow> ?n mod 32 \<noteq> 0 \<longrightarrow> (\<exists>t. txn 0 1 t \<and> dirlookup i name s = Ok (None, t))"
  proof (cases "first_idx ?n (\<lambda>e. entry_name args e = ?w)")
    case (Some e)
    then have e: "e < ?n" by (simp add: first_idx_Some)
    obtain N where N: "file_map s i N" "16 * ?n \<le> N * BSIZE" using R(2) by blast
    have "\<exists>t. txn 0 (Suc 0) t \<and> dirlookup i name s =
        bindr (iget (i_dev (inodes s i)) (rd16 (dirent s i e) 0) t) (\<lambda>(ip, u). Ok (Some (ip, 16 * e), u))"
      by (rule dirlookup_found [OF t R(3) N(1) R(5) N(2)]) (use Some c in simp)
    then show ?thesis using Some by (simp add: D(2) [OF e] dev)
  next
    case None
    have "\<exists>t. txn 0 1 t \<and> dirlookup i name s = Ok (None, t)" if fit: "?n mod 32 \<noteq> 0"
    proof -
      note W = built_root_whole [OF b o fit]
      obtain N where N: "file_map s i N" "i_size (inodes s i) \<le> N * BSIZE" using W(2) by blast
      from dirlookup_ok [OF t R(3) N(1) W(3) N(2), of name] None show ?thesis
        unfolding first_idx_names [OF b o assms fit] by auto
    qed
    then show ?thesis using None by simp
  qed
qed

lemma mkfs_lookup_witness:
  "\<exists>m t. mkfs [[105], [95, 97]] True demo_host = Ok m
     \<and> dirlookup 0 (arr [97, 0]) (mounted (mk_img m) 1) = bindr (iget ROOTDEV 2 t) (\<lambda>(ip, u). Ok (Some (ip, 32), u))"
proof -
  have w: "okP (mkfs ([105] # [[95, 97]]) True demo_host) (\<lambda>m. \<forall>(s :: trapk) i. opened s i (mk_img m) ROOTINO \<longrightarrow>
      (case first_idx (2 + length [[95 :: byte, 97]]) (\<lambda>e. entry_name [[95, 97]] e = array_str (arr [97, 0]) 0 DIRSIZ) of
         Some e \<Rightarrow> \<exists>t. txn 0 1 t \<and> dirlookup i (arr [97, 0]) s = bindr (iget ROOTDEV (entry_inum e) t) (\<lambda>(ip, u). Ok (Some (ip, 16 * e), u))
       | None \<Rightarrow> (2 + length [[95 :: byte, 97]]) mod 32 \<noteq> 0 \<longrightarrow> (\<exists>t. txn 0 1 t \<and> dirlookup i (arr [97, 0]) s = Ok (None, t))))"
    by (rule mkfs_lookup [OF demo_fits]) simp
  obtain m where m: "mkfs [[105], [95, 97]] True demo_host = Ok m"
      "built (mk_img m) (freeblock m) (2 + length [[95 :: byte, 97]]) (disk_image demo_host [[95, 97]])"
    using mkfs_ok [OF demo_fits, of "[105]"] by (auto simp: okP_iff)
  have a: "array_str (arr [97, 0]) 0 DIRSIZ = [97]"
    by (simp add: array_str_def bytes_at_def DIRSIZ_def arr_def put_bytes_def upt_rec)
  have "entry_name [[95, 97]] 0 \<noteq> [97]" "entry_name [[95, 97]] 1 \<noteq> [97]" "entry_name [[95, 97]] 2 = [97]"
    by (simp_all add: entry_name_def strip_def DIRSIZ_def)
  then have "first_idx (2 + length [[95 :: byte, 97]]) (\<lambda>e. entry_name [[95, 97]] e = [97]) = Some 2"
    unfolding first_idx_Some by (auto simp: less_2_cases_iff)
  then show ?thesis
    using w [unfolded a] mounted_opened [OF m(2), of ROOTINO] m(1) by (auto simp: entry_inum_def ROOTINO_def)
qed

end
