(* ===== verification/TaskSpec.thy ===== *)
theory TaskSpec
  imports UserMem
begin

text \<open>
  The task master: the life of a task from the master's \<open>do_task\<close> over the worker's \<open>wait_for_task\<close> and
  \<open>task_ret\<close> to the master's \<open>wait_for_task_to_complete\<close>, and what happens when the table is full.
\<close>

section \<open>Selectors\<close>

lemma upd_task_sel [simp]:
  "tasks (upd_task i f s) = (tasks s)(i := f (tasks s i))" "held (upd_task i f s) = held s" "ram (upd_task i f s) = ram s"
  "cur (upd_task i f s) = cur s" "ptable (upd_task i f s) = ptable s" "tm_cv1 (upd_task i f s) = tm_cv1 s"
  "tm_cv2 (upd_task i f s) = tm_cv2 s"
  by (simp_all add: upd_task_def)

lemma upd_proc_tasks [simp]: "tasks (upd_proc i f s) = tasks s" "tm_cv1 (upd_proc i f s) = tm_cv1 s" "tm_cv2 (upd_proc i f s) = tm_cv2 s"
  using more_tasks [of "upd_proc i f s" s] by simp_all

lemma wakeup1_tasks [simp]: "tasks (wakeup1 ch s) = tasks s"
  using more_tasks [of "wakeup1 ch s" s] by simp

section \<open>The operations\<close>

text \<open>
  Entry \<open>i\<close> is the first free one, no entry is pending and no other entry carries the identifier.
\<close>

definition task_room :: "nat \<Rightarrow> int \<Rightarrow> 'a taskk_scheme \<Rightarrow> bool" where
  "task_room i task_id s \<longleftrightarrow> i < MAX_TASKS \<and> t_status (tasks s i) = FREE \<and> (\<forall>k < i. t_status (tasks s k) \<noteq> FREE)
     \<and> (\<forall>k < MAX_TASKS. t_status (tasks s k) \<noteq> PENDING) \<and> (\<forall>k < MAX_TASKS. k \<noteq> i \<longrightarrow> t_id (tasks s k) \<noteq> task_id)"

lemma do_task_ok:
  assumes "task_room i task_id s" "LPtable \<notin> held s"
  shows "do_task fptr task_id arg1 arg2 s = Ok (1, wakeup1 (ChInt (tm_cv1 s))
     (upd_task i (\<lambda>t. t\<lparr>t_status := PENDING, t_id := task_id, t_arg1 := arg1, t_arg2 := arg2, t_fptr := fptr\<rparr>) s))"
proof -
  have "first_idx MAX_TASKS (\<lambda>i. t_status (tasks s i) = FREE) = Some i"
    using assms(1) by (simp add: task_room_def first_idx_Some)
  then show ?thesis using assms(2) by (simp add: do_task_def wakeup_eq)
qed

text \<open>The worker: its user stack ends at \<open>sp\<close>, and the 16 bytes below are the physical bytes at \<open>pa\<close>.\<close>

definition worker_stack :: "nat \<Rightarrow> nat \<Rightarrow> 'a ksys_scheme \<Rightarrow> bool" where
  "worker_stack sp pa s \<longleftrightarrow> (\<exists>w. cur s = Some w \<and> w < length (ptable s)) \<and> tf_esp (p_tf (myproc s)) = sp \<and> 16 \<le> sp \<and> sp < u32_mod
     \<and> maps_to (ram s) (p_pgdir (myproc s)) (sp - 16) 16 pa"

lemma myproc_upd: "cur s = Some w \<Longrightarrow> w < length (ptable s) \<Longrightarrow> myproc (upd_proc w f s) = f (myproc s)"
  by (simp add: myproc_def)

lemma myproc_ram: "myproc (s\<lparr>ram := m\<rparr>) = myproc s"
  by (simp add: myproc_def)

lemma push_user_ok:
  assumes c: "cur s = Some w" "w < length (ptable s)" and e: "tf_esp (p_tf (myproc s)) = a + d + 4" "a + d + 4 < u32_mod"
    and m: "maps_to (ram s) (p_pgdir (myproc s)) a n pa" "d + 4 \<le> n"
  shows "push_user v s = Ok ((upd_proc w (\<lambda>x. x\<lparr>p_tf := (p_tf x)\<lparr>tf_esp := a + d\<rparr>\<rparr>) s)
     \<lparr>ram := put_bytes (word_bytes (u32_of v)) (ram s) (pa + d)\<rparr>)"
proof -
  have "sub32 (a + d + 4) 4 = a + d" using e(2) by (simp add: sub32_le)
  then show ?thesis
    using c e uput_maps [OF m(1), of d "word_bytes (u32_of v)"] m(2) by (simp add: push_user_def uput_def myproc_upd)
qed

lemma wait_for_task_ok:
  assumes i: "i < MAX_TASKS" "t_status (tasks s i) = PENDING" "\<forall>k < i. t_status (tasks s k) \<noteq> PENDING"
    and w: "worker_stack sp pa s"
  shows "okP (wait_for_task s) (\<lambda>(r, t). r = 1 \<and> tasks t = (tasks s)(i := (tasks s i)\<lparr>t_status := ALLOCATED\<rparr>)
     \<and> p_oldtf (myproc t) = p_tf (myproc s) \<and> tf_eip (p_tf (myproc t)) = t_fptr (tasks s i) \<and> tf_esp (p_tf (myproc t)) = sp - 16
     \<and> uget (sp - 12) 12 t = Ok (word_bytes (u32_of (t_id (tasks s i))) @ word_bytes (u32_of (t_arg1 (tasks s i)))
          @ word_bytes (u32_of (t_arg2 (tasks s i)))) \<and> cur t = cur s \<and> held t = held s)"
proof -
  obtain wk where c: "cur s = Some wk" "wk < length (ptable s)" using w by (auto simp: worker_stack_def)
  have e: "tf_esp (p_tf (myproc s)) = sp" "16 \<le> sp" "sp < u32_mod" "maps_to (ram s) (p_pgdir (myproc s)) (sp - 16) 16 pa"
    using w by (simp_all add: worker_stack_def)
  let ?b = "\<lambda>v. word_bytes (u32_of v)"
  let ?s = "upd_proc wk (\<lambda>x. x\<lparr>p_oldtf := p_tf x\<rparr>) (upd_task i (\<lambda>t. t\<lparr>t_status := ALLOCATED\<rparr>) s)"
  let ?m1 = "put_bytes (?b (t_arg2 (tasks s i))) (ram s) (pa + 12)"
  let ?m2 = "put_bytes (?b (t_arg1 (tasks s i))) ?m1 (pa + 8)"
  let ?m3 = "put_bytes (?b (t_id (tasks s i))) ?m2 (pa + 4)"
  have m: "maps_to ?m1 (p_pgdir (myproc s)) (sp - 16) 16 pa" by (rule maps_to_put [OF e(4)]) simp
  then have m2: "maps_to ?m2 (p_pgdir (myproc s)) (sp - 16) 16 pa" by (rule maps_to_put) simp
  then have m3: "maps_to ?m3 (p_pgdir (myproc s)) (sp - 16) 16 pa" by (rule maps_to_put) simp
  let ?st = "\<lambda>x m t. cur t = Some wk \<and> wk < length (ptable t) \<and> held t = held s \<and> p_oldtf (myproc t) = p_tf (myproc s)
     \<and> p_pgdir (myproc t) = p_pgdir (myproc s) \<and> tasks t = (tasks s)(i := (tasks s i)\<lparr>t_status := ALLOCATED\<rparr>)
     \<and> tf_esp (p_tf (myproc t)) = x \<and> ram t = m"
  have push: "okP (push_user v t) (?st (sp - 16 + d) (put_bytes (?b v) m' (pa + d)))"
    if "?st (sp - 16 + d + 4) m' t" "maps_to m' (p_pgdir (myproc s)) (sp - 16) 16 pa" "d + 4 \<le> 16" for v d t m'
  proof -
    have "sp - 16 + d + 4 < u32_mod" using e(2,3) that(3) by linarith
    then have p: "push_user v t = Ok ((upd_proc wk (\<lambda>x. x\<lparr>p_tf := (p_tf x)\<lparr>tf_esp := sp - 16 + d\<rparr>\<rparr>) t)
     \<lparr>ram := put_bytes (?b v) (ram t) (pa + d)\<rparr>)"
      using that by (intro push_user_ok [where n = 16]) simp_all
    show ?thesis unfolding p using that by (simp add: myproc_ram myproc_upd)
  qed
  have s0: "?st (sp - 16 + 12 + 4) (ram s) ?s" using c e by (simp add: myproc_def)
  have s12: "sp - 16 + 12 = sp - 16 + 8 + 4" "sp - 16 + 8 = sp - 16 + 4 + 4" by simp_all
  let ?fin = "\<lambda>t. (1, upd_proc (the (cur t)) (\<lambda>x. x\<lparr>p_tf := (p_tf x)\<lparr>tf_esp := sub32 (tf_esp (p_tf x)) 4,
               tf_eip := t_fptr (tasks t i)\<rparr>\<rparr>) t)"
  let ?Q = "\<lambda>(r, t). r = 1 \<and> tasks t = (tasks s)(i := (tasks s i)\<lparr>t_status := ALLOCATED\<rparr>)
     \<and> p_oldtf (myproc t) = p_tf (myproc s) \<and> tf_eip (p_tf (myproc t)) = t_fptr (tasks s i) \<and> tf_esp (p_tf (myproc t)) = sp - 16
     \<and> uget (sp - 12) 12 t = Ok (?b (t_id (tasks s i)) @ ?b (t_arg1 (tasks s i)) @ ?b (t_arg2 (tasks s i)))
     \<and> cur t = cur s \<and> held t = held s"
  have frame: "uget_from ?m3 (p_pgdir (myproc s)) (sp - 12) 12 = Some (?b (t_id (tasks s i)) @ ?b (t_arg1 (tasks s i)) @ ?b (t_arg2 (tasks s i)))"
  proof -
    have "sp - 16 + 4 = sp - 12" using e(2) by simp
    then have "uget_from ?m3 (p_pgdir (myproc s)) (sp - 12) 12 = Some (bytes_at ?m3 (pa + 4) 12)"
      using uget_maps [OF m3, of 4 12] by simp
    moreover have "bytes_at ?m3 (pa + 4) 12 = bytes_at ?m3 (pa + 4) 4 @ bytes_at ?m3 (pa + 8) 4 @ bytes_at ?m3 (pa + 12) 4"
      using bytes_at_append [of ?m3 "pa + 4" 4 8] bytes_at_append [of ?m3 "pa + 8" 4 4] by (simp add: add.assoc)
    moreover have "bytes_at (put_bytes (?b v) m' a) a 4 = ?b v" for v m' a
      using bytes_at_put_bytes [of "?b v" m' a] by simp
    ultimately show ?thesis by (simp add: bytes_at_put_out)
  qed
  have "sub32 (sp - 16 + 4) 4 = sp - 16" using e(2,3) by (simp add: sub32_le)
  then have fin: "?Q (?fin t)" if "?st (sp - 16 + 4) ?m3 t" for t
    using that frame c by (simp add: myproc_upd uget_def)
  have "okP (push_user (t_arg2 (tasks ?s i)) ?s) (\<lambda>t. okP (push_user (t_arg1 (tasks t i)) t) (\<lambda>t.
     okP (push_user (t_id (tasks t i)) t) (\<lambda>t. ?Q (?fin t))))"
  proof (rule okP_mono)
    show "okP (push_user (t_arg2 (tasks ?s i)) ?s) (?st (sp - 16 + 12) ?m1)"
      using push [OF s0 e(4), of "t_arg2 (tasks ?s i)"] by simp
  next
    fix t1 assume t1: "?st (sp - 16 + 12) ?m1 t1"
    have "okP (push_user (t_arg1 (tasks t1 i)) t1) (?st (sp - 16 + 8) ?m2)"
      using push [OF t1 [unfolded s12(1)] m, of "t_arg1 (tasks t1 i)"] t1 by simp
    then show "okP (push_user (t_arg1 (tasks t1 i)) t1) (\<lambda>t. okP (push_user (t_id (tasks t i)) t) (\<lambda>t. ?Q (?fin t)))"
    proof (rule okP_mono)
      fix t2 assume t2: "?st (sp - 16 + 8) ?m2 t2"
      have "okP (push_user (t_id (tasks t2 i)) t2) (?st (sp - 16 + 4) ?m3)"
        using push [OF t2 [unfolded s12(2)] m2, of "t_id (tasks t2 i)"] t2 by simp
      then show "okP (push_user (t_id (tasks t2 i)) t2) (\<lambda>t. ?Q (?fin t))" by (rule okP_mono) (rule fin)
    qed
  qed
  moreover have "first_idx MAX_TASKS (\<lambda>i. t_status (tasks s i) = PENDING) = Some i"
    using i by (simp add: first_idx_Some)
  ultimately show ?thesis using c(1) by (simp add: wait_for_task_def Let_def)
qed

lemma task_ret_ok:
  assumes "i < MAX_TASKS" "t_id (tasks s i) = task_id" "\<forall>k < i. t_id (tasks s k) \<noteq> task_id" "LPtable \<notin> held s"
    and "cur s = Some w" "w < length (ptable s)"
  shows "okP (task_ret task_id result s) (\<lambda>(r, t). r = task_id \<and> p_tf (myproc t) = p_oldtf (myproc s)
     \<and> tasks t = (tasks s)(i := (tasks s i)\<lparr>t_status := COMPLETED, t_result := result\<rparr>))"
proof -
  have "first_idx MAX_TASKS (\<lambda>i. t_id (tasks s i) = task_id) = Some i" using assms(1-3) by (simp add: first_idx_Some)
  then show ?thesis using assms(4-6) by (simp add: task_ret_def wakeup_eq myproc_def wake_proc_def)
qed

lemma complete_scan_finds:
  assumes "i < n + k" "n \<le> i" "t_id (tasks s i) = task_id" "t_status (tasks s i) = COMPLETED"
    and "\<forall>j. n \<le> j \<and> j < i \<longrightarrow> t_id (tasks s j) \<noteq> task_id"
  shows "complete_scan k n task_id rp s = bindr (uput rp (word_bytes (u32_of (t_result (tasks s i)))) s) (\<lambda>s. Ok (Some (t_result (tasks s i)), s))"
  using assms
proof (induction k arbitrary: n)
  case (Suc k)
  show ?case
  proof (cases "n = i")
    case False
    then show ?thesis using Suc.prems Suc.IH [of "Suc n"] by simp
  qed (use Suc.prems in simp)
qed simp

lemma complete_ok:
  assumes i: "i < MAX_TASKS" "t_id (tasks s i) = task_id" "\<forall>k < i. t_id (tasks s k) \<noteq> task_id" "t_status (tasks s i) = COMPLETED"
    and m: "maps_to (ram s) (p_pgdir (myproc s)) rp 4 q"
  shows "okP (wait_for_task_to_complete task_id rp s) (\<lambda>(r, t). r = t_result (tasks s i)
     \<and> uget rp 4 t = Ok (word_bytes (u32_of r)) \<and> tasks t = tasks s)"
proof -
  let ?b = "word_bytes (u32_of (t_result (tasks s i)))"
  have f: "first_idx MAX_TASKS (\<lambda>i. t_id (tasks s i) = task_id) = Some i" using i by (simp add: first_idx_Some)
  have c: "complete_scan MAX_TASKS 0 task_id rp s = bindr (uput rp ?b s) (\<lambda>s. Ok (Some (t_result (tasks s i)), s))"
    by (rule complete_scan_finds) (use i in simp_all)
  have u: "uput rp ?b s = Ok (s\<lparr>ram := put_bytes ?b (ram s) q\<rparr>)" using uput_maps [OF m, of 0 ?b] by (simp add: uput_def)
  have "maps_to (put_bytes ?b (ram s) q) (p_pgdir (myproc s)) rp 4 q" using maps_to_put [OF m, of 0 ?b] by simp
  from uget_maps [OF this, of 0 4] have "uget_from (put_bytes ?b (ram s) q) (p_pgdir (myproc s)) rp 4 = Some ?b"
    using bytes_at_put_bytes [of ?b "ram s" q] by simp
  then show ?thesis by (simp add: wait_for_task_to_complete_def f c u uget_def myproc_ram)
qed

section \<open>The life of a task\<close>

text \<open>
  What the later calls give, in every state with the same table of tasks: the master gets the result; a
  worker that reports it with its saved registers unchanged gets back the registers \<open>tf\<close>; a worker that
  waits resumes in the function of the task, with the identifier and the arguments on its stack.
\<close>

definition master_gets :: "int \<Rightarrow> int \<Rightarrow> 'a taskk_scheme \<Rightarrow> bool" where
  "master_gets task_id result s \<longleftrightarrow>
     (\<forall>(t :: 'a taskk_scheme) rp q. tasks t = tasks s \<longrightarrow> maps_to (ram t) (p_pgdir (myproc t)) rp 4 q
       \<longrightarrow> okP (wait_for_task_to_complete task_id rp t) (\<lambda>(r, u). r = result \<and> uget rp 4 u = Ok (word_bytes (u32_of result))))"

definition worker_reports :: "int \<Rightarrow> int \<Rightarrow> trapframe \<Rightarrow> 'a taskk_scheme \<Rightarrow> bool" where
  "worker_reports task_id result tf s \<longleftrightarrow>
     (\<forall>(t :: 'a taskk_scheme) w. tasks t = tasks s \<longrightarrow> LPtable \<notin> held t \<longrightarrow> cur t = Some w \<longrightarrow> w < length (ptable t)
       \<longrightarrow> p_oldtf (myproc t) = p_oldtf (myproc s)
       \<longrightarrow> okP (task_ret task_id result t) (\<lambda>(r, u). r = task_id \<and> p_tf (myproc u) = tf \<and> master_gets task_id result u))"

definition worker_runs :: "nat \<Rightarrow> int \<Rightarrow> int \<Rightarrow> int \<Rightarrow> int \<Rightarrow> 'a taskk_scheme \<Rightarrow> bool" where
  "worker_runs fptr task_id arg1 arg2 result s \<longleftrightarrow>
     (\<forall>(t :: 'a taskk_scheme) sp pa. tasks t = tasks s \<longrightarrow> worker_stack sp pa t
       \<longrightarrow> okP (wait_for_task t) (\<lambda>(r, u). r = 1 \<and> tf_eip (p_tf (myproc u)) = fptr \<and> tf_esp (p_tf (myproc u)) = sp - 16
          \<and> uget (sp - 12) 12 u = Ok (word_bytes (u32_of task_id) @ word_bytes (u32_of arg1) @ word_bytes (u32_of arg2))
          \<and> worker_reports task_id result (p_tf (myproc t)) u))"

lemma master_getsD:
  fixes s t :: "'a taskk_scheme"
  shows "master_gets task_id result s \<Longrightarrow> tasks t = tasks s \<Longrightarrow> maps_to (ram t) (p_pgdir (myproc t)) rp 4 q \<Longrightarrow>
     okP (wait_for_task_to_complete task_id rp t) (\<lambda>(r, u). r = result \<and> uget rp 4 u = Ok (word_bytes (u32_of result)))"
  unfolding master_gets_def by blast

lemma worker_reportsD:
  fixes s t :: "'a taskk_scheme"
  shows "worker_reports task_id result tf s \<Longrightarrow> tasks t = tasks s \<Longrightarrow> LPtable \<notin> held t \<Longrightarrow> cur t = Some w \<Longrightarrow> w < length (ptable t) \<Longrightarrow>
     p_oldtf (myproc t) = p_oldtf (myproc s) \<Longrightarrow>
     okP (task_ret task_id result t) (\<lambda>(r, u). r = task_id \<and> p_tf (myproc u) = tf \<and> master_gets task_id result u)"
  unfolding worker_reports_def by blast

lemma worker_runsD:
  fixes s t :: "'a taskk_scheme"
  shows "worker_runs fptr task_id arg1 arg2 result s \<Longrightarrow> tasks t = tasks s \<Longrightarrow> worker_stack sp pa t \<Longrightarrow>
     okP (wait_for_task t) (\<lambda>(r, u). r = 1 \<and> tf_eip (p_tf (myproc u)) = fptr \<and> tf_esp (p_tf (myproc u)) = sp - 16
          \<and> uget (sp - 12) 12 u = Ok (word_bytes (u32_of task_id) @ word_bytes (u32_of arg1) @ word_bytes (u32_of arg2))
          \<and> worker_reports task_id result (p_tf (myproc t)) u)"
  unfolding worker_runs_def by blast

text \<open>The entry of a task in its last two states.\<close>

lemma master_gets_done:
  assumes "i < MAX_TASKS" "\<forall>k < i. t_id (tasks s k) \<noteq> task_id" "t_id (tasks s i) = task_id" "t_status (tasks s i) = COMPLETED"
    "t_result (tasks s i) = result"
  shows "master_gets task_id result s"
  unfolding master_gets_def
proof (intro allI impI)
  fix t :: "'a taskk_scheme" and rp q assume t: "tasks t = tasks s" "maps_to (ram t) (p_pgdir (myproc t)) rp 4 q"
  show "okP (wait_for_task_to_complete task_id rp t) (\<lambda>(r, u). r = result \<and> uget rp 4 u = Ok (word_bytes (u32_of result)))"
    by (rule okP_mono [OF complete_ok [OF assms(1) _ _ _ t(2)]]) (use assms t(1) in auto)
qed

lemma worker_reports_allocated:
  assumes "i < MAX_TASKS" "\<forall>k < i. t_id (tasks s k) \<noteq> task_id" "t_id (tasks s i) = task_id" "p_oldtf (myproc s) = tf"
  shows "worker_reports task_id result tf s"
  unfolding worker_reports_def
proof (intro allI impI)
  fix t :: "'a taskk_scheme" and w
  assume t: "tasks t = tasks s" "LPtable \<notin> held t" "cur t = Some w" "w < length (ptable t)" "p_oldtf (myproc t) = p_oldtf (myproc s)"
  show "okP (task_ret task_id result t) (\<lambda>(r, u). r = task_id \<and> p_tf (myproc u) = tf \<and> master_gets task_id result u)"
    by (rule okP_mono [OF task_ret_ok [OF assms(1) _ _ t(2-4)]]) (use assms t(1,5) in \<open>auto intro!: master_gets_done [of i]\<close>)
qed

text \<open>
  C4: A task issued with \<open>do_task\<close> while the table has room is handed to the first worker that waits: the
  worker resumes in the function of the task with the identifier and the two arguments on its stack.
  When it reports the result with \<open>task_ret\<close> its registers are what they were before, and the
  master's \<open>wait_for_task_to_complete\<close> then returns and stores the result. Between these calls other
  processes may run, as long as they leave the table of tasks and the saved registers alone.
\<close>

theorem task_life_cycle:
  assumes "task_room i task_id s" "LPtable \<notin> held s"
  shows "okP (do_task fptr task_id arg1 arg2 s) (\<lambda>(r, t). r = 1 \<and> worker_runs fptr task_id arg1 arg2 result t)"
proof -
  have i: "i < MAX_TASKS" "\<forall>k < i. t_status (tasks s k) \<noteq> PENDING" "\<forall>k < i. t_id (tasks s k) \<noteq> task_id"
    using assms(1) by (auto simp: task_room_def)
  let ?x = "(tasks s i)\<lparr>t_status := PENDING, t_id := task_id, t_arg1 := arg1, t_arg2 := arg2, t_fptr := fptr\<rparr>"
  have "worker_runs fptr task_id arg1 arg2 result u" if u: "tasks u = (tasks s)(i := ?x)" for u :: "'a taskk_scheme"
    unfolding worker_runs_def
  proof (intro allI impI)
    fix t :: "'a taskk_scheme" and sp pa assume t: "tasks t = tasks u" "worker_stack sp pa t"
    have p: "t_status (tasks t i) = PENDING" "\<forall>k < i. t_status (tasks t k) \<noteq> PENDING" using t(1) u i by simp_all
    show "okP (wait_for_task t) (\<lambda>(r, u). r = 1 \<and> tf_eip (p_tf (myproc u)) = fptr \<and> tf_esp (p_tf (myproc u)) = sp - 16
          \<and> uget (sp - 12) 12 u = Ok (word_bytes (u32_of task_id) @ word_bytes (u32_of arg1) @ word_bytes (u32_of arg2))
          \<and> worker_reports task_id result (p_tf (myproc t)) u)"
    proof (rule okP_mono [OF wait_for_task_ok [OF i(1) p t(2)]], goal_cases)
      case (1 x)
      then have x: "tasks (snd x) = (tasks s)(i := ?x\<lparr>t_status := ALLOCATED\<rparr>)" "p_oldtf (myproc (snd x)) = p_tf (myproc t)"
        using u t(1) by (simp_all add: split_def)
      have "worker_reports task_id result (p_tf (myproc t)) (snd x)"
        by (rule worker_reports_allocated [OF i(1) _ _ x(2)]) (use i(3) in \<open>simp_all add: x(1)\<close>)
      then show ?case using 1 u t(1) by (simp add: split_def)
    qed
  qed
  then show ?thesis unfolding do_task_ok [OF assms] by simp
qed

text \<open>The states of the demo machine whose table of tasks is that of \<open>s\<close>.\<close>

definition with_tasks :: "'a taskk_scheme \<Rightarrow> trapk" where
  "with_tasks s = (demo blank)\<lparr>tasks := tasks s\<rparr>"

lemma with_tasks_sel [simp]:
  "tasks (with_tasks s) = tasks s" "cur (with_tasks s) = Some 0" "held (with_tasks s) = {}" "ram (with_tasks s) = demo_ram"
  "ptable (with_tasks s) = (replicate NPROC zero_proc)[0 := demo_proc]" "myproc (with_tasks s) = demo_proc"
  by (simp_all add: with_tasks_def myproc_def NPROC_def)

lemma with_tasks_upd: "myproc (upd_proc 0 f (with_tasks s)) = f demo_proc"
  by (subst myproc_upd) (simp_all add: NPROC_def)

lemma task_life_cycle_witness:
  "okP (do_task 100 7 3 4 (demo blank)) (\<lambda>(r1, s1).
     okP (wait_for_task (upd_proc 0 (\<lambda>x. x\<lparr>p_tf := zero_tf\<lparr>tf_esp := 3016\<rparr>\<rparr>) (with_tasks s1))) (\<lambda>(r2, s2).
       tf_eip (p_tf (myproc s2)) = 100 \<and> uget 3004 12 s2 = Ok (word_bytes 7 @ word_bytes 3 @ word_bytes 4) \<and>
     okP (task_ret 7 12 (upd_proc 0 (\<lambda>x. x\<lparr>p_oldtf := p_oldtf (myproc s2)\<rparr>) (with_tasks s2))) (\<lambda>(r3, s3).
       p_tf (myproc s3) = zero_tf\<lparr>tf_esp := 3016\<rparr> \<and>
     okP (wait_for_task_to_complete 7 2000 (with_tasks s3)) (\<lambda>(r4, s4). r4 = 12 \<and> uget 2000 4 s4 = Ok (word_bytes 12)))))"
proof -
  have room: "task_room 0 7 (demo blank)" by (simp add: task_room_def MAX_TASKS_def)
  have pg: "p_pgdir demo_proc = KERNBASE + 4096" by (simp add: demo_proc_def)
  let ?t = "\<lambda>s1 :: trapk. upd_proc 0 (\<lambda>x. x\<lparr>p_tf := zero_tf\<lparr>tf_esp := 3016\<rparr>\<rparr>) (with_tasks s1)"
  let ?u = "\<lambda>s2 :: trapk. upd_proc 0 (\<lambda>x. x\<lparr>p_oldtf := p_oldtf (myproc s2)\<rparr>) (with_tasks s2)"
  have st: "worker_stack 3016 (12288 + 3000) (?t s)" for s
    using demo_maps [of 3000 16] pg by (simp add: worker_stack_def with_tasks_upd NPROC_def)
  have u32: "u32_of 7 = 7" "u32_of 3 = 3" "u32_of 4 = 4" "u32_of 12 = 12" by (simp_all add: u32_of_def)
  have compl: "okP (wait_for_task_to_complete 7 2000 (with_tasks s3)) (\<lambda>(r4, s4). r4 = 12 \<and> uget 2000 4 s4 = Ok (word_bytes 12))"
    if "master_gets 7 12 s3" for s3 :: trapk
    by (rule okP_mono [OF master_getsD [OF that, of "with_tasks s3" 2000 "12288 + 2000"]])
      (use demo_maps [of 2000 4] pg u32 in auto)
  have rep: "okP (task_ret 7 12 (?u s2)) (\<lambda>(r3, s3). p_tf (myproc s3) = tf \<and> master_gets 7 12 s3)"
    if "worker_reports 7 12 tf s2" for s2 :: trapk and tf
    by (rule okP_mono [OF worker_reportsD [OF that, of "?u s2" 0]]) (auto simp: with_tasks_upd NPROC_def)
  have run: "okP (wait_for_task (?t s1)) (\<lambda>(r2, s2). tf_eip (p_tf (myproc s2)) = 100
       \<and> uget 3004 12 s2 = Ok (word_bytes 7 @ word_bytes 3 @ word_bytes 4) \<and> worker_reports 7 12 (zero_tf\<lparr>tf_esp := 3016\<rparr>) s2)"
    if "worker_runs 100 7 3 4 12 s1" for s1 :: trapk
    by (rule okP_mono [OF worker_runsD [OF that _ st [of s1]]]) (use u32 in \<open>auto simp: with_tasks_upd\<close>)
  have all: "okP (task_ret 7 12 (?u s2)) (\<lambda>(r3, s3). p_tf (myproc s3) = tf \<and>
     okP (wait_for_task_to_complete 7 2000 (with_tasks s3)) (\<lambda>(r4, s4). r4 = 12 \<and> uget 2000 4 s4 = Ok (word_bytes 12)))"
    if "worker_reports 7 12 tf s2" for s2 :: trapk and tf
    by (rule okP_mono [OF rep [OF that]]) (auto dest!: compl)
  have "okP (do_task 100 7 3 4 (demo blank)) (\<lambda>(r1, s1). worker_runs 100 7 3 4 12 s1)"
    by (rule okP_mono [OF task_life_cycle [OF room, where result = 12]]) auto
  then show ?thesis
  proof (rule okP_mono, goal_cases)
    case (1 x)
    then have "worker_runs 100 7 3 4 12 (snd x)" by (simp add: split_def)
    from run [OF this] show ?case unfolding split_def by (rule okP_mono) (use all in \<open>auto simp: split_def\<close>)
  qed
qed

section \<open>A full table\<close>

text \<open>
  C40: When no entry of the table is free, a task with a new identifier is lost: \<open>do_task\<close> reports success but
  changes no entry, and the master that waits for the task is told that it does not exist.
\<close>

theorem full_table_loses_task:
  assumes "\<forall>k < MAX_TASKS. t_status (tasks s k) \<noteq> FREE" "\<forall>k < MAX_TASKS. t_id (tasks s k) \<noteq> task_id" "LPtable \<notin> held s"
  shows "okP (do_task fptr task_id arg1 arg2 s) (\<lambda>(r, t). r = 1 \<and> tasks t = tasks s
     \<and> wait_for_task_to_complete task_id rp t = Ok (-1, t))"
proof -
  have "first_idx MAX_TASKS (\<lambda>i. t_status (tasks s i) = FREE) = None"
    "first_idx MAX_TASKS (\<lambda>i. t_status (tasks s i) \<noteq> FREE \<and> t_id (tasks s i) = task_id) = None"
    "first_idx MAX_TASKS (\<lambda>i. t_id (tasks s i) = task_id) = None"
    using assms(1,2) by (simp_all add: first_idx_None)
  then show ?thesis using assms(3) by (simp add: do_task_def wakeup_eq wait_for_task_to_complete_def)
qed

lemma full_table_loses_task_witness:
  "okP (do_task 100 7 3 4 ((demo blank)\<lparr>tasks := (\<lambda>k. \<lparr>t_status = PENDING, t_id = 1000 + int k, t_arg1 = 0, t_arg2 = 0,
     t_result = 0, t_fptr = 0\<rparr>)\<rparr>)) (\<lambda>(r, t). r = 1 \<and> wait_for_task_to_complete 7 2000 t = Ok (-1, t))"
  by (rule okP_mono [OF full_table_loses_task [where rp = 2000]]) auto

end
