(* ===== verification/RoundRobin.thy ===== *)
theory RoundRobin
  imports KPrelude
begin

text \<open>
  A pass over a table that runs the entries it finds eligible, as a scheduler makes it: \<open>scan k p\<close> looks at the \<open>k\<close>
  entries from \<open>p\<close> on and starts the first eligible one, \<open>run i\<close> is what entry \<open>i\<close> does until it comes back, \<open>resume\<close>
  what the scheduler does then. The contract of the parts is the locale \<open>round_robin\<close>, which the scheduler of the kernel
  and that of lab 5 implement.
\<close>

fun rr_pass :: "(nat \<Rightarrow> nat \<Rightarrow> 's \<Rightarrow> (nat option \<times> 's) res) \<Rightarrow> ('s \<Rightarrow> 's) \<Rightarrow> nat \<Rightarrow> nat \<Rightarrow> (nat \<Rightarrow> 's \<Rightarrow> 's res) \<Rightarrow> nat \<Rightarrow> 's \<Rightarrow>
    (nat list \<times> 's) res" where
  "rr_pass scan resume n 0 run p s = Ok ([], s)"
| "rr_pass scan resume n (Suc k) run p s =
     bindr (scan (n - p) p s) (\<lambda>(r, s).
     case r of
       None \<Rightarrow> Ok ([], s)
     | Some i \<Rightarrow>
         bindr (run i s) (\<lambda>s.
         bindr (rr_pass scan resume n k run (i + 1) (resume s)) (\<lambda>(is, s). Ok (i # is, s))))"

text \<open>
  What a pass relies on: an entry that runs comes back with the table in order, and leaves the others eligible.
\<close>

definition comes_back :: "nat \<Rightarrow> ('s \<Rightarrow> bool) \<Rightarrow> ('s \<Rightarrow> nat \<Rightarrow> bool) \<Rightarrow> ('s \<Rightarrow> nat \<Rightarrow> bool) \<Rightarrow> (nat \<Rightarrow> 's \<Rightarrow> 's res) \<Rightarrow> bool" where
  "comes_back n ok running eligible run \<longleftrightarrow> (\<forall>i s. i < n \<longrightarrow> ok s \<longrightarrow> running s i \<longrightarrow>
     okP (run i s) (\<lambda>t. ok t \<and> (\<forall>j < n. j \<noteq> i \<longrightarrow> eligible s j \<longrightarrow> eligible t j)))"

text \<open>The entries a pass from \<open>p\<close> runs: each once, in order, and all that were eligible.\<close>

definition rr_fair :: "nat \<Rightarrow> ('s \<Rightarrow> nat \<Rightarrow> bool) \<Rightarrow> nat \<Rightarrow> 's \<Rightarrow> nat list \<Rightarrow> bool" where
  "rr_fair n eligible p s is \<longleftrightarrow> sorted_wrt (<) is \<and> (\<forall>i \<in> set is. p \<le> i \<and> i < n)
     \<and> (\<forall>j. p \<le> j \<and> j < n \<and> eligible s j \<longrightarrow> j \<in> set is)"

lemma rr_fair_None: "\<forall>j. p \<le> j \<and> j < n \<longrightarrow> \<not> eligible s j \<Longrightarrow> rr_fair n eligible p s []"
  by (auto simp: rr_fair_def)

lemma rr_fair_Some:
  assumes "p \<le> i" "i < n" "\<forall>j. p \<le> j \<and> j < i \<longrightarrow> \<not> eligible s j" "\<forall>j < n. j \<noteq> i \<longrightarrow> eligible s j \<longrightarrow> eligible u j"
    and "rr_fair n eligible (i + 1) u is"
  shows "rr_fair n eligible p s (i # is)"
proof -
  have r: "sorted_wrt (<) is" "\<forall>x \<in> set is. i < x \<and> x < n" "\<forall>j. i < j \<and> j < n \<and> eligible u j \<longrightarrow> j \<in> set is"
    using assms(5) unfolding rr_fair_def Suc_eq_plus1 [symmetric] Suc_le_eq by blast+
  have "j \<in> set (i # is)" if j: "p \<le> j" "j < n" "eligible s j" for j
  proof (cases "j = i")
    case False
    then have "i < j" using assms(3) j by (meson linorder_neqE_nat)
    then show ?thesis using r(3) assms(4) j False by simp
  qed simp
  moreover have "\<forall>x \<in> set (i # is). p \<le> x \<and> x < n" using r(2) assms(1,2) by auto
  moreover have "sorted_wrt (<) (i # is)" using r(1,2) by simp
  ultimately show ?thesis unfolding rr_fair_def by blast
qed

locale round_robin =
  fixes scan :: "nat \<Rightarrow> nat \<Rightarrow> 's \<Rightarrow> (nat option \<times> 's) res" and resume :: "'s \<Rightarrow> 's" and n :: nat
    and ok :: "'s \<Rightarrow> bool" and running :: "'s \<Rightarrow> nat \<Rightarrow> bool" and eligible :: "'s \<Rightarrow> nat \<Rightarrow> bool"
  assumes scan_first: "ok s \<Longrightarrow> p + k = n \<Longrightarrow>
      (\<forall>j. p \<le> j \<and> j < n \<longrightarrow> \<not> eligible s j) \<and> scan k p s = Ok (None, s)
      \<or> (\<exists>i t. p \<le> i \<and> i < n \<and> eligible s i \<and> (\<forall>j. p \<le> j \<and> j < i \<longrightarrow> \<not> eligible s j)
          \<and> scan k p s = Ok (Some i, t) \<and> ok t \<and> running t i \<and> (\<forall>j < n. j \<noteq> i \<longrightarrow> eligible s j \<longrightarrow> eligible t j))"
    and resume_ok: "ok s \<Longrightarrow> ok (resume s)"
    and resume_eligible: "eligible (resume s) j = eligible s j"
begin

lemma pass_fair:
  assumes "comes_back n ok running eligible run"
  shows "ok s \<Longrightarrow> p \<le> n \<Longrightarrow> n - p < k \<Longrightarrow>
    okP (rr_pass scan resume n k run p s) (\<lambda>(is, t). rr_fair n eligible p s is \<and> ok t)"
proof (induction k arbitrary: p s)
  case (Suc k)
  have pk: "p + (n - p) = n" using Suc.prems(2) by simp
  from scan_first [OF Suc.prems(1) pk] show ?case
  proof (elim disjE conjE exE)
    assume "\<forall>j. p \<le> j \<and> j < n \<longrightarrow> \<not> eligible s j" "scan (n - p) p s = Ok (None, s)"
    then show ?thesis using Suc.prems(1) by (auto intro!: rr_fair_None)
  next
    fix i t
    assume i: "p \<le> i" "i < n" "\<forall>j. p \<le> j \<and> j < i \<longrightarrow> \<not> eligible s j"
      and t: "scan (n - p) p s = Ok (Some i, t)" "ok t" "running t i" "\<forall>j < n. j \<noteq> i \<longrightarrow> eligible s j \<longrightarrow> eligible t j"
    have "okP (run i t) (\<lambda>u. ok u \<and> (\<forall>j < n. j \<noteq> i \<longrightarrow> eligible t j \<longrightarrow> eligible u j))"
      using assms i(2) t(2,3) by (simp add: comes_back_def)
    then have "okP (run i t) (\<lambda>u. okP (rr_pass scan resume n k run (i + 1) (resume u))
        (\<lambda>(is, v). rr_fair n eligible p s (i # is) \<and> ok v))"
    proof (rule okP_mono, elim conjE)
      fix u assume u: "ok u" "\<forall>j < n. j \<noteq> i \<longrightarrow> eligible t j \<longrightarrow> eligible u j"
      have "okP (rr_pass scan resume n k run (i + 1) (resume u)) (\<lambda>(is, v). rr_fair n eligible (i + 1) (resume u) is \<and> ok v)"
        by (rule Suc.IH) (use u i Suc.prems(3) resume_ok in simp_all)
      moreover have e: "\<forall>j < n. j \<noteq> i \<longrightarrow> eligible s j \<longrightarrow> eligible (resume u) j"
        using t(4) u(2) by (simp add: resume_eligible)
      ultimately show "okP (rr_pass scan resume n k run (i + 1) (resume u)) (\<lambda>(is, v). rr_fair n eligible p s (i # is) \<and> ok v)"
        by (elim okP_mono) (auto intro: rr_fair_Some [of p i n eligible s, OF i e])
    qed
    then show ?thesis by (simp add: t(1) split_def)
  qed
qed simp

end

end
