(* ===== verification/ProcSpec.thy ===== *)
theory ProcSpec
  imports UserMem Ring RoundRobin
begin

text \<open>
  Processes: identifiers stay unique, the scheduler runs every runnable process once in a round, a
  wakeup reaches a sleeping process, and \<open>sleep\<close> counts ticks across the overflow of the counter.
\<close>

section \<open>The scheduler\<close>

abbreviation pstate :: "'a ksys_scheme \<Rightarrow> nat \<Rightarrow> procstate" where
  "pstate s i \<equiv> p_state (ptable s ! i)"

text \<open>Every runnable process has a kernel stack and a page table.\<close>

definition table_ok :: "'a ksys_scheme \<Rightarrow> bool" where
  "table_ok s \<longleftrightarrow> length (ptable s) = NPROC
     \<and> (\<forall>i < NPROC. pstate s i = RUNNABLE \<longrightarrow> p_kstack (ptable s ! i) \<noteq> 0 \<and> p_pgdir (ptable s ! i) \<noteq> 0)"

text \<open>
  What the scheduler relies on: a process that runs comes back to the scheduler holding \<open>ptable.lock\<close>, and
  only the process itself stops being runnable.
\<close>

definition behaves :: "(nat \<Rightarrow> 'a vmk_scheme \<Rightarrow> 'a vmk_scheme res) \<Rightarrow> bool" where
  "behaves run \<longleftrightarrow> comes_back NPROC (\<lambda>s. table_ok s \<and> LPtable \<in> held s) (\<lambda>s i. cur s = Some i) (\<lambda>s j. pstate s j = RUNNABLE) run"

lemma scheduler_scan_ok:
  assumes "table_ok s" "p + k = NPROC"
  shows "(\<forall>j. p \<le> j \<and> j < NPROC \<longrightarrow> pstate s j \<noteq> RUNNABLE) \<and> scheduler_scan k p s = Ok (None, s)
     \<or> (\<exists>i t. p \<le> i \<and> i < NPROC \<and> pstate s i = RUNNABLE \<and> (\<forall>j. p \<le> j \<and> j < i \<longrightarrow> pstate s j \<noteq> RUNNABLE)
         \<and> scheduler_scan k p s = Ok (Some i, t) \<and> cur t = Some i \<and> held t = held s
         \<and> ptable t = (ptable s)[i := (ptable s ! i)\<lparr>p_state := RUNNING\<rparr>])"
  using assms(2)
proof (induction k arbitrary: p)
  case 0
  then show ?case by auto
next
  case (Suc k)
  show ?case
  proof (cases "pstate s p = RUNNABLE")
    case True
    moreover have "p_kstack (ptable s ! p) \<noteq> 0" "p_pgdir (ptable s ! p) \<noteq> 0"
      using assms(1) True Suc.prems by (simp_all add: table_ok_def)
    ultimately show ?thesis using Suc.prems by (intro disjI2 exI [of _ p]) (auto simp: switchuvm_def)
  next
    case False
    then have e: "scheduler_scan (Suc k) p s = scheduler_scan k (Suc p) s"
      and r: "\<And>P. (\<forall>j. p \<le> j \<and> P j \<longrightarrow> pstate s j \<noteq> RUNNABLE) = (\<forall>j. Suc p \<le> j \<and> P j \<longrightarrow> pstate s j \<noteq> RUNNABLE)"
      by (auto simp: Suc_le_eq nat_less_le)
    have "Suc p + k = NPROC" using Suc.prems by simp
    from Suc.IH [OF this] show ?thesis unfolding e r by (meson Suc_leD)
  qed
qed

interpretation kern: round_robin scheduler_scan scheduler_resume NPROC "\<lambda>s. table_ok s \<and> LPtable \<in> held s"
  "\<lambda>s i. cur s = Some i" "\<lambda>s j. pstate s j = RUNNABLE"
proof (unfold_locales, goal_cases)
  case (1 s p k)
  then have ok: "table_ok s" "LPtable \<in> held s" by simp_all
  have started: "(table_ok t \<and> LPtable \<in> held t) \<and> cur t = Some i \<and> (\<forall>j < NPROC. j \<noteq> i \<longrightarrow> pstate s j = RUNNABLE \<longrightarrow> pstate t j = RUNNABLE)"
    if "i < NPROC" "held t = held s" "cur t = Some i" "ptable t = (ptable s)[i := (ptable s ! i)\<lparr>p_state := RUNNING\<rparr>]" for i t
    using ok that by (auto simp: table_ok_def nth_list_update split: if_splits)
  from scheduler_scan_ok [OF ok(1) 1(2)] show ?case
    by (elim disjE conjE exE) (blast, rule disjI2, blast dest: started)
qed (simp_all add: scheduler_resume_def switchkvm_def table_ok_def)

lemma scheduler_pass_rr: "scheduler_pass k run p s = rr_pass scheduler_scan scheduler_resume NPROC k run p s"
  by (induction k arbitrary: p s) (simp_all cong: option.case_cong)

text \<open>
  C5: A round of the scheduler over well-behaved processes ends, runs processes in the order of the table
  and none twice, and runs every process that was runnable when the round began: no process starves.
\<close>

theorem scheduler_round_fair:
  assumes "behaves run" "table_ok s" "LPtable \<notin> held s"
  shows "okP (scheduler_round run s) (\<lambda>(is, t). sorted_wrt (<) is \<and> set is \<subseteq> {..<NPROC}
     \<and> {j. j < NPROC \<and> pstate s j = RUNNABLE} \<subseteq> set is \<and> LPtable \<notin> held t)"
proof -
  let ?s = "s\<lparr>held := insert LPtable (held s)\<rparr>"
  have "okP (scheduler_pass (NPROC + 1) run 0 ?s)
     (\<lambda>(is, t). rr_fair NPROC (\<lambda>s j. pstate s j = RUNNABLE) 0 ?s is \<and> table_ok t \<and> LPtable \<in> held t)"
    unfolding scheduler_pass_rr
    by (rule kern.pass_fair [OF assms(1) [unfolded behaves_def]]) (use assms(2) in \<open>simp_all add: table_ok_def\<close>)
  then have "okP (scheduler_pass (NPROC + 1) run 0 ?s) (\<lambda>(is, t). okP (release LPtable t) (\<lambda>t. sorted_wrt (<) is \<and> set is \<subseteq> {..<NPROC}
     \<and> {j. j < NPROC \<and> pstate s j = RUNNABLE} \<subseteq> set is \<and> LPtable \<notin> held t))"
    by (rule okP_mono) (auto simp: rr_fair_def)
  then show ?thesis using assms(3) by (simp add: scheduler_round_def split_def)
qed

text \<open>Two runnable processes that go to sleep when they run.\<close>

definition demo_runnable :: trapk where
  "demo_runnable = (demo blank)\<lparr>ptable := (replicate NPROC zero_proc)[3 := demo_proc\<lparr>p_state := RUNNABLE\<rparr>, 5 := demo_proc\<lparr>p_state := RUNNABLE\<rparr>]\<rparr>"

definition run_to_sleep :: "nat \<Rightarrow> trapk \<Rightarrow> trapk res" where
  "run_to_sleep i s = Ok (upd_proc i (\<lambda>p. p\<lparr>p_state := SLEEPING\<rparr>) s)"

lemma scheduler_round_fair_witness:
  "okP (scheduler_round run_to_sleep demo_runnable) (\<lambda>(is, t). 3 \<in> set is \<and> 5 \<in> set is)"
proof -
  have n: "3 < NPROC" "5 < NPROC" by (simp_all add: NPROC_def)
  have b: "behaves run_to_sleep"
    by (auto simp: behaves_def comes_back_def run_to_sleep_def table_ok_def nth_list_update split: if_splits)
  have t: "table_ok demo_runnable"
  proof -
    have "p_state zero_proc = UNUSED" "p_kstack demo_proc \<noteq> 0" "p_pgdir demo_proc \<noteq> 0"
      by (simp_all add: zero_proc_def demo_proc_def KERNBASE_def)
    then show ?thesis using n by (auto simp: table_ok_def demo_runnable_def nth_list_update split: if_splits)
  qed
  have h: "LPtable \<notin> held demo_runnable" by (simp add: demo_runnable_def)
  have "pstate demo_runnable 3 = RUNNABLE" "pstate demo_runnable 5 = RUNNABLE" using n by (simp_all add: demo_runnable_def)
  then show ?thesis
    using n by (intro okP_mono [OF scheduler_round_fair [OF b t h]]) auto
qed

section \<open>Sleeping\<close>

text \<open>
  A process that goes to sleep holding only the lock of its condition ends up asleep with only \<open>ptable.lock\<close> held, and a
  \<open>wakeup\<close> on its channel makes it runnable from whatever state of the rest of the table. (The interleaving of the two is
  the subject of \<open>Sleepwake\<close>.)
\<close>

theorem sleep_then_wakeup:
  fixes s :: "'a ksys_scheme"
  assumes "cur s = Some me" "me < length (ptable s)" "held s = {lk}" "lk \<noteq> LPtable"
  shows "okP (sleep_enter ch (Some lk) s) (\<lambda>t. held t = {LPtable} \<and> pstate t me = SLEEPING
     \<and> (\<forall>j. j \<noteq> me \<longrightarrow> ptable t ! j = ptable s ! j)
     \<and> (\<forall>u :: 'a ksys_scheme. LPtable \<notin> held u \<longrightarrow> me < length (ptable u) \<longrightarrow> ptable u ! me = ptable t ! me
          \<longrightarrow> okP (wakeup ch u) (\<lambda>v. pstate v me = RUNNABLE \<and> (\<forall>j < length (ptable u). pstate u j = RUNNABLE \<longrightarrow> pstate v j = RUNNABLE))))"
proof -
  let ?t = "upd_proc me (\<lambda>x. x\<lparr>p_chan := ch, p_state := SLEEPING\<rparr>) (s\<lparr>held := {LPtable}\<rparr>)"
  have h: "insert LPtable {lk} - {lk} = {LPtable}" using assms(4) by auto
  have "sleep_enter ch (Some lk) s = Ok ?t"
    using assms by (simp add: sleep_enter_def sched_enter_def myproc_def h)
  then show ?thesis using assms(1,2) by (simp add: wakeup_eq wake_proc_def)
qed

lemma sleep_then_wakeup_witness:
  "okP (sleep_enter ChTicks (Some LTicks) ((demo blank)\<lparr>held := {LTicks}\<rparr>)) (\<lambda>t.
     okP (wakeup ChTicks (t\<lparr>held := {}\<rparr>)) (\<lambda>v. pstate v 0 = RUNNABLE))"
proof -
  have n: "0 < NPROC" by (simp add: NPROC_def)
  have "okP (sleep_enter ChTicks (Some LTicks) ((demo blank)\<lparr>held := {LTicks}\<rparr>)) (\<lambda>t. ptable t \<noteq> [])"
    using n by (simp add: sleep_enter_def sched_enter_def myproc_def insert_Diff_if)
  moreover have "okP (sleep_enter ChTicks (Some LTicks) ((demo blank)\<lparr>held := {LTicks}\<rparr>)) (\<lambda>t. ptable t \<noteq> []
     \<longrightarrow> okP (wakeup ChTicks (t\<lparr>held := {}\<rparr>)) (\<lambda>v. pstate v 0 = RUNNABLE))"
  proof (rule okP_mono [OF sleep_then_wakeup [where me = 0 and lk = LTicks]], goal_cases)
    case (5 t)
    then have all: "\<forall>u :: trapk. LPtable \<notin> held u \<longrightarrow> 0 < length (ptable u) \<longrightarrow> ptable u ! 0 = ptable t ! 0 \<longrightarrow>
        okP (wakeup ChTicks u) (\<lambda>v. pstate v 0 = RUNNABLE \<and> (\<forall>j < length (ptable u). pstate u j = RUNNABLE \<longrightarrow> pstate v j = RUNNABLE))"
      by (elim conjE)
    show ?case
    proof
      assume "ptable t \<noteq> []"
      then have "okP (wakeup ChTicks (t\<lparr>held := {}\<rparr>)) (\<lambda>v. pstate v 0 = RUNNABLE
         \<and> (\<forall>j < length (ptable (t\<lparr>held := {}\<rparr>)). pstate (t\<lparr>held := {}\<rparr>) j = RUNNABLE \<longrightarrow> pstate v j = RUNNABLE))"
        by (intro all [rule_format]) simp_all
      then show "okP (wakeup ChTicks (t\<lparr>held := {}\<rparr>)) (\<lambda>v. pstate v 0 = RUNNABLE)" by (rule okP_mono) (elim conjE)
    qed
  qed (use n in simp_all)
  ultimately show ?thesis by (auto simp: okP_iff)
qed

section \<open>Ticks\<close>

text \<open>\<open>k\<close> timer interrupts on CPU 0.\<close>

fun ticked :: "nat \<Rightarrow> 'a ksys_scheme \<Rightarrow> 'a ksys_scheme res" where
  "ticked 0 s = Ok s"
| "ticked (Suc k) s = bindr (timer_tick 0 s) (ticked k)"

lemma timer_tick_ok:
  assumes "LTicks \<notin> held s" "LPtable \<notin> held s"
  shows "okP (timer_tick 0 s) (\<lambda>t. held t = held s \<and> ticks t = wrap32 (ticks s + 1) \<and> length (ptable t) = length (ptable s) \<and> cur t = cur s
     \<and> (\<forall>i < length (ptable s). p_killed (ptable t ! i) = p_killed (ptable s ! i) \<and> \<not> (pstate t i = SLEEPING \<and> p_chan (ptable t ! i) = ChTicks)))"
  using assms by (simp add: timer_tick_def wakeup_eq wake_proc_def)

lemma ticked_ok:
  fixes s :: "'a ksys_scheme"
  assumes "LTicks \<notin> held s" "LPtable \<notin> held s" "ticks s = wrap32 (c + d)"
  shows "okP (ticked k s) (\<lambda>t. held t = held s \<and> ticks t = wrap32 (c + d + k) \<and> length (ptable t) = length (ptable s) \<and> cur t = cur s
     \<and> (\<forall>i < length (ptable s). p_killed (ptable t ! i) = p_killed (ptable s ! i)))"
  using assms
proof (induction k arbitrary: s d)
  case (Suc k)
  have "okP (timer_tick 0 s) (\<lambda>t. okP (ticked k t) (\<lambda>u. held u = held s \<and> ticks u = wrap32 (c + d + Suc k)
     \<and> length (ptable u) = length (ptable s) \<and> cur u = cur s \<and> (\<forall>i < length (ptable s). p_killed (ptable u ! i) = p_killed (ptable s ! i))))"
  proof (rule okP_mono [OF timer_tick_ok [OF Suc.prems(1,2)]], elim conjE)
    fix t :: "'a ksys_scheme" assume t: "held t = held s" "ticks t = wrap32 (ticks s + 1)" "length (ptable t) = length (ptable s)" "cur t = cur s"
      and k: "\<forall>i < length (ptable s). p_killed (ptable t ! i) = p_killed (ptable s ! i) \<and> \<not> (pstate t i = SLEEPING \<and> p_chan (ptable t ! i) = ChTicks)"
    have "ticks t = wrap32 (c + Suc d)" using t(2) Suc.prems(3) by (simp add: wrap32_def mod_Suc_eq)
    then show "okP (ticked k t) (\<lambda>u. held u = held s \<and> ticks u = wrap32 (c + d + Suc k)
     \<and> length (ptable u) = length (ptable s) \<and> cur u = cur s \<and> (\<forall>i < length (ptable s). p_killed (ptable u ! i) = p_killed (ptable s ! i)))"
      using Suc.prems(1,2) t k by (intro okP_mono [OF Suc.IH [of t "Suc d"]]) auto
  qed
  then show ?case by simp
qed simp

text \<open>
  A process that sleeps for \<open>n\<close> ticks from any value of the tick counter on sleeps as long as fewer than
  \<open>n\<close> timer interrupts have come and returns 0 when the \<open>n\<close>-th has, even when the 32-bit counter overflows
  in between.
\<close>

theorem sleep_lasts_n_ticks:
  assumes "LTicks \<notin> held s" "LPtable \<notin> held s" "ticks s < u32_mod" "cur s = Some me" "me < length (ptable s)" "\<not> p_killed (myproc s)"
    and "n < 2147483648" "k < u32_mod"
  shows "okP (ticked k s) (\<lambda>t. sleep_ticks (ticks s) (int n) (t\<lparr>held := insert LTicks (held t)\<rparr>) =
     (if k < n then Block ChTicks else Ok (0, t)))"
proof -
  have "okP (ticked k s) (\<lambda>t. held t = held s \<and> ticks t = wrap32 (ticks s + 0 + k) \<and> length (ptable t) = length (ptable s) \<and> cur t = cur s
     \<and> (\<forall>i < length (ptable s). p_killed (ptable t ! i) = p_killed (ptable s ! i)))"
    by (rule ticked_ok) (use assms in simp_all)
  then show ?thesis
  proof (rule okP_mono, elim conjE)
    fix t assume t: "held t = held s" "ticks t = wrap32 (ticks s + 0 + k)" "cur t = cur s"
      "\<forall>i < length (ptable s). p_killed (ptable t ! i) = p_killed (ptable s ! i)"
    have "sub32 (wrap32 (ticks s + k)) (ticks s) = k" using assms(3,8) sub32_wrap by simp
    moreover have "u32_of (int n) = n" using assms(7) by simp
    moreover have "\<not> p_killed (myproc t)" using assms(4-6) t(3,4) by (simp add: myproc_def)
    moreover have "t\<lparr>held := insert LTicks (held t) - {LTicks}\<rparr> = t" using assms(1) t(1) by simp
    ultimately show "sleep_ticks (ticks s) (int n) (t\<lparr>held := insert LTicks (held t)\<rparr>) = (if k < n then Block ChTicks else Ok (0, t))"
      using t(2) by (simp add: sleep_ticks_def myproc_def)
  qed
qed

lemma sleep_lasts_n_ticks_witness:
  "okP (ticked 3 ((demo blank)\<lparr>ticks := 4294967294\<rparr>)) (\<lambda>t. ticks t = 1
     \<and> sleep_ticks 4294967294 5 (t\<lparr>held := insert LTicks (held t)\<rparr>) = Block ChTicks
     \<and> sleep_ticks 4294967294 3 (t\<lparr>held := insert LTicks (held t)\<rparr>) = Ok (0, t))"
proof -
  let ?s = "(demo blank)\<lparr>ticks := 4294967294\<rparr>"
  have n: "0 < NPROC" by (simp add: NPROC_def)
  have s: "LTicks \<notin> held ?s" "LPtable \<notin> held ?s" "ticks ?s < u32_mod" "cur ?s = Some 0" "0 < length (ptable ?s)" "\<not> p_killed (myproc ?s)"
    using n by (simp_all add: myproc_def demo_proc_def zero_proc_def)
  have "okP (ticked 3 ?s) (\<lambda>t. ticks t = 1)"
    using ticked_ok [of ?s 4294967294 0 3] s by (auto elim!: okP_mono simp: wrap32_def)
  then show ?thesis
    using sleep_lasts_n_ticks [OF s, of 5 3] sleep_lasts_n_ticks [OF s, of 3 3] by (auto simp: okP_iff)
qed

section \<open>Process identifiers\<close>

text \<open>Processes in the table have different identifiers, all handed out before.\<close>

definition pids_ok :: "'a ksys_scheme \<Rightarrow> bool" where
  "pids_ok s \<longleftrightarrow> length (ptable s) = NPROC
     \<and> (\<forall>i < NPROC. pstate s i \<noteq> UNUSED \<longrightarrow> p_pid (ptable s ! i) < nextpid s)
     \<and> (\<forall>i < NPROC. \<forall>j < NPROC. i \<noteq> j \<longrightarrow> pstate s i \<noteq> UNUSED \<longrightarrow> pstate s j \<noteq> UNUSED \<longrightarrow> p_pid (ptable s ! i) \<noteq> p_pid (ptable s ! j))"

lemma kalloc_total: "LKmem \<notin> held s \<Longrightarrow> \<exists>v r. kalloc s = Ok (v, s\<lparr>freelist := r\<rparr>)"
  by (intro exI [of _ "freelist s"] exI [of _ "if freelist s \<noteq> 0 then rd32 (ram s) (V2P (freelist s)) else freelist s"])
    (simp add: kalloc_eq)

text \<open>What allocating entry \<open>p\<close> keeps, whether it succeeds or not.\<close>

definition alloc_ok :: "'a ksys_scheme \<Rightarrow> nat \<Rightarrow> 'a ksys_scheme \<Rightarrow> bool" where
  "alloc_ok s p t \<longleftrightarrow> pids_ok t \<and> (\<forall>i < NPROC. pstate s i \<noteq> UNUSED \<longrightarrow> ptable t ! i = ptable s ! i)
      \<and> (\<forall>i < NPROC. i \<noteq> p \<longrightarrow> pstate t i \<noteq> UNUSED \<longrightarrow> p_pid (ptable t ! i) \<noteq> nextpid s)"

text \<open>A free entry becomes one in use, with the next identifier.\<close>

lemma pids_ok_new:
  assumes "pids_ok s" "p < NPROC" "ptable t = (ptable s)[p := x]" "nextpid t = nextpid s + 1"
    and "p_state x = UNUSED \<or> p_pid x = nextpid s"
  shows "pids_ok t"
proof -
  have l: "length (ptable s) = NPROC" using assms(1) by (simp add: pids_ok_def)
  have e: "ptable t ! i = (if i = p then x else ptable s ! i)" if "i < NPROC" for i
    using l assms(2,3) that by (simp add: nth_list_update)
  have "p_pid (ptable t ! i) < nextpid t" if "i < NPROC" "pstate t i \<noteq> UNUSED" for i
    using assms that e [of i] by (cases "i = p") (auto simp: pids_ok_def)
  moreover have "p_pid (ptable t ! i) \<noteq> p_pid (ptable t ! j)"
    if "i < NPROC" "j < NPROC" "i \<noteq> j" "pstate t i \<noteq> UNUSED" "pstate t j \<noteq> UNUSED" for i j
    using assms that e [of i] e [of j] by (cases "i = p"; cases "j = p") (fastforce simp: pids_ok_def)+
  ultimately show ?thesis using l assms(3) by (simp add: pids_ok_def)
qed

text \<open>
  \<open>allocproc\<close> keeps the identifiers of processes unique. It always returns; a new process sits in an entry
  that was unused, has the next identifier, which no other process has, and starts in \<open>forkret\<close>. No
  entry in use changes, even when memory runs out half way.
\<close>

theorem allocproc_fresh_pid:
  assumes "pids_ok s" "LPtable \<notin> held s" "LKmem \<notin> held s"
  shows "okP (allocproc s) (\<lambda>(r, t). pids_ok t \<and> held t = held s \<and> (\<forall>i < NPROC. pstate s i \<noteq> UNUSED \<longrightarrow> ptable t ! i = ptable s ! i)
     \<and> (\<forall>p. r = Some p \<longrightarrow> p < NPROC \<and> pstate s p = UNUSED \<and> pstate t p = EMBRYO \<and> p_pid (ptable t ! p) = nextpid s
          \<and> ctx_eip (p_context (ptable t ! p)) = Forkret
          \<and> (\<forall>i < NPROC. i \<noteq> p \<longrightarrow> pstate t i \<noteq> UNUSED \<longrightarrow> p_pid (ptable t ! i) \<noteq> nextpid s)))"
proof (cases "first_idx NPROC (\<lambda>i. pstate s i = UNUSED)")
  case None
  then have "\<forall>i < NPROC. pstate s i \<noteq> UNUSED" by (simp add: first_idx_None)
  moreover have "allocproc s = Ok (None, s)" using None assms(2) by (simp add: allocproc_def)
  ultimately show ?thesis using assms(1) by simp
next
  case (Some p)
  then have p: "p < NPROC" "pstate s p = UNUSED" by (simp_all add: first_idx_Some)
  have l: "length (ptable s) = NPROC" using assms(1) by (simp add: pids_ok_def)
  have h: "insert LPtable (held s) - {LPtable} = held s" using assms(2) by auto
  let ?s = "upd_proc p (\<lambda>x. x\<lparr>p_state := EMBRYO, p_pid := nextpid s\<rparr>) (s\<lparr>nextpid := nextpid s + 1\<rparr>)"
  have fin: "pids_ok t \<and> (\<forall>i < NPROC. pstate s i \<noteq> UNUSED \<longrightarrow> ptable t ! i = ptable s ! i)
      \<and> (\<forall>i < NPROC. i \<noteq> p \<longrightarrow> pstate t i \<noteq> UNUSED \<longrightarrow> p_pid (ptable t ! i) \<noteq> nextpid s)"
    if t: "ptable t = (ptable s)[p := x]" "nextpid t = nextpid s + 1" "p_state x = UNUSED \<or> p_pid x = nextpid s" for t :: "'a ksys_scheme" and x
  proof -
    have "p_pid (ptable s ! i) \<noteq> nextpid s" if "i < NPROC" "pstate s i \<noteq> UNUSED" for i
      using assms(1) that by (auto simp: pids_ok_def)
    then show ?thesis using pids_ok_new [OF assms(1) p(1) t] t(1) l p by (auto simp: nth_list_update)
  qed
  obtain v r where k1: "kalloc ?s = Ok (v, ?s\<lparr>freelist := r\<rparr>)" using kalloc_total [of ?s] assms(3) by auto
  let ?s1 = "upd_proc p (\<lambda>x. x\<lparr>p_kstack := v\<rparr>) (?s\<lparr>freelist := r\<rparr>)"
  obtain w q where k2: "kalloc ?s1 = Ok (w, ?s1\<lparr>freelist := q\<rparr>)" using kalloc_total [of ?s1] assms(3) by auto
  have a: "allocproc s = (if v = 0 then Ok (None, upd_proc p (\<lambda>x. x\<lparr>p_state := UNUSED\<rparr>) ?s1)
     else
       let s2 = upd_proc p (\<lambda>x. x\<lparr>p_oldtf_page := w\<rparr>) (?s1\<lparr>freelist := q\<rparr>)
       in if w = 0 then Ok (None, s2)
          else Ok (Some p, upd_proc p (\<lambda>x. x\<lparr>p_context := \<lparr>ctx_edi = 0, ctx_esi = 0, ctx_ebx = 0, ctx_ebp = 0, ctx_eip = Forkret\<rparr>\<rparr>) s2))"
    using Some assms(2) k1 k2 by (simp add: allocproc_def upd_proc_def Let_def)
  let ?t0 = "upd_proc p (\<lambda>x. x\<lparr>p_state := UNUSED\<rparr>) ?s1"
  let ?t1 = "upd_proc p (\<lambda>x. x\<lparr>p_oldtf_page := w\<rparr>) (?s1\<lparr>freelist := q\<rparr>)"
  let ?t2 = "upd_proc p (\<lambda>x. x\<lparr>p_context := \<lparr>ctx_edi = 0, ctx_esi = 0, ctx_ebx = 0, ctx_ebp = 0, ctx_eip = Forkret\<rparr>\<rparr>) ?t1"
  have pt: "ptable ?t0 = (ptable s)[p := ptable ?t0 ! p]" "ptable ?t1 = (ptable s)[p := ptable ?t1 ! p]"
    "ptable ?t2 = (ptable s)[p := ptable ?t2 ! p]" using p l by simp_all
  have st: "pstate ?t0 p = UNUSED" "p_pid (ptable ?t1 ! p) = nextpid s" "p_pid (ptable ?t2 ! p) = nextpid s"
    "pstate ?t2 p = EMBRYO" "ctx_eip (p_context (ptable ?t2 ! p)) = Forkret" using p l by simp_all
  have f: "alloc_ok s p ?t0" "alloc_ok s p ?t1" "alloc_ok s p ?t2"
    unfolding alloc_ok_def
    by (rule fin [OF pt(1)], simp, simp only: st simp_thms)
      (rule fin [OF pt(2)], simp, simp only: st simp_thms, rule fin [OF pt(3)], simp, simp only: st simp_thms)
  have hd: "held ?t0 = held s" "held ?t1 = held s" "held ?t2 = held s" by simp_all
  obtain r t where t: "allocproc s = Ok (r, t)" "alloc_ok s p t" "held t = held s" "r = None \<or> r = Some p \<and> pstate t p = EMBRYO
      \<and> p_pid (ptable t ! p) = nextpid s \<and> ctx_eip (p_context (ptable t ! p)) = Forkret"
  proof (cases "v = 0")
    case True
    have e: "allocproc s = Ok (None, ?t0)" unfolding a by (rule if_P [OF True])
    show thesis by (rule that [OF e f(1) hd(1)]) (rule disjI1, rule refl)
  next
    case v: False
    show thesis
    proof (cases "w = 0")
      case True
      have e: "allocproc s = Ok (None, ?t1)" unfolding a Let_def if_not_P [OF v] by (rule if_P [OF True])
      show thesis by (rule that [OF e f(2) hd(2)]) (rule disjI1, rule refl)
    next
      case False
      have e: "allocproc s = Ok (Some p, ?t2)" unfolding a Let_def if_not_P [OF v] by (rule if_not_P [OF False])
      show thesis by (rule that [OF e f(3) hd(3)]) (simp only: st simp_thms)
    qed
  qed
  then show ?thesis using p by (auto simp: alloc_ok_def)
qed

lemma allocproc_fresh_pid_witness:
  "okP (allocproc (demo blank)) (\<lambda>(r, t). pids_ok t \<and> ptable t ! 0 = demo_proc)"
proof -
  have "p_state zero_proc = UNUSED" "p_pid demo_proc = 1" "p_state demo_proc = RUNNING" "0 < NPROC"
    by (simp_all add: zero_proc_def demo_proc_def NPROC_def)
  then have "pids_ok (demo blank)" "pstate (demo blank) 0 \<noteq> UNUSED" "0 < NPROC" "ptable (demo blank) ! 0 = demo_proc"
    by (auto simp: pids_ok_def nth_list_update)
  then show ?thesis
    by (intro okP_mono [OF allocproc_fresh_pid]) auto
qed

section \<open>Killing process 0\<close>

lemma retP_locks:
  "retP (acquire l s) Q \<longleftrightarrow> (l \<notin> held s \<longrightarrow> Q (s\<lparr>held := insert l (held s)\<rparr>))"
  "retP (release l s) Q \<longleftrightarrow> (l \<in> held s \<longrightarrow> Q (s\<lparr>held := held s - {l}\<rparr>))"
  by (simp_all add: acquire_def release_def)

lemma retP_kalloc: "retP (kalloc s) (\<lambda>(v, t). ptable t = ptable s)"
  by (cases "use_lock s") (simp_all add: kalloc_def klock_if_def retP_locks Let_def)

lemma allocproc_keeps_killed:
  assumes "length (ptable s) = NPROC"
  shows "retP (allocproc s) (\<lambda>(r, t). \<forall>q. r = Some q \<longrightarrow>
     first_idx NPROC (\<lambda>i. pstate s i = UNUSED) = Some q \<and> p_killed (ptable t ! q) = p_killed (ptable s ! q))"
proof (cases "first_idx NPROC (\<lambda>i. pstate s i = UNUSED)")
  case None
  then show ?thesis by (simp add: allocproc_def retP_locks)
next
  case (Some p)
  then have p: "p < length (ptable s)" using assms by (simp add: first_idx_Some)
  let ?e = "\<lambda>t :: 'a ksys_scheme. p < length (ptable t) \<and> p_killed (ptable t ! p) = p_killed (ptable s ! p)"
  have k: "retP (kalloc t) (\<lambda>(v, u). ?e u)" if "?e t" for t
    by (rule retP_mono [OF retP_kalloc]) (use that in auto)
  show ?thesis
    using Some p
    by (simp add: allocproc_def retP_locks Let_def split_def)
      (intro impI retP_mono [OF k]; (simp add: split_def)?; intro conjI impI retP_mono [OF k]; simp add: split_def)
qed

text \<open>
  Unused entries of the table carry the identifier 0 after \<open>wait\<close> has cleared them, and \<open>kill\<close> does not look at the
  state of the entry. So \<open>kill 0\<close> succeeds and marks an unused entry killed, and \<open>allocproc\<close> does not
  clear the mark: the next process created in the entry is killed from the start.
\<close>

lemma kill_zero_poisons:
  assumes "LPtable \<notin> held s" "length (ptable s) = NPROC"
    and "first_idx NPROC (\<lambda>i. pstate s i = UNUSED) = Some p" "first_idx NPROC (\<lambda>i. p_pid (ptable s ! i) = 0) = Some p"
  shows "okP (kill 0 s) (\<lambda>(r, t). r = 0 \<and> (\<forall>q u. allocproc t = Ok (Some q, u) \<longrightarrow> p_killed (ptable u ! q)))"
proof -
  let ?t = "upd_proc p (\<lambda>x. x\<lparr>p_killed := True\<rparr>) s"
  have p: "p < NPROC" "pstate s p = UNUSED" using assms(3) by (simp_all add: first_idx_Some)
  have e: "kill 0 s = Ok (0, ?t)" using assms p by (simp add: kill_def upd_proc_def Let_def)
  have "first_idx NPROC (\<lambda>i. pstate ?t i = UNUSED) = Some p"
    using assms(2,3) p by (auto simp: first_idx_Some nth_list_update)
  then have "p_killed (ptable u ! q)" if "allocproc ?t = Ok (Some q, u)" for q u
    using allocproc_keeps_killed [of ?t] that assms(2) p by (auto simp: retP_iff)
  then show ?thesis unfolding e by simp
qed

end
