(* ===== verification/SysSpec.thy ===== *)
theory SysSpec
  imports ConsoleSpec UserMem
begin

text \<open>
  The boundary between user programs and the kernel: arguments of system calls stay inside the memory
  of the process, unknown system calls fail, and a process that has been killed does not get back to
  user mode.
\<close>

section \<open>Arguments\<close>

lemma fetchstr_loop_ok:
  "fetchstr_loop k a acc s = Ok (Some bs) \<Longrightarrow>
     \<exists>cs. bs = acc @ cs \<and> length cs < k \<and> uget a (length cs + 1) s = Ok (cs @ [0]) \<and> 0 \<notin> set cs"
proof (induction k arbitrary: a acc)
  case (Suc k)
  from Suc.prems obtain b where b: "uget a 1 s = Ok b"
    "(if hd b = 0 then Ok (Some acc) else fetchstr_loop k (a + 1) (acc @ b) s) = Ok (Some bs)"
    by (auto simp: bindr_eq_Ok)
  have "length b = 1" using length_uget [OF b(1)] by simp
  then obtain c where c: "b = [c]" by (cases b) auto
  show ?case
  proof (cases "c = 0")
    case True
    then show ?thesis using b c by (intro exI [of _ "[]"]) simp
  next
    case False
    then obtain cs where cs: "bs = (acc @ [c]) @ cs" "length cs < k" "uget (a + 1) (length cs + 1) s = Ok (cs @ [0])" "0 \<notin> set cs"
      using Suc.IH [of "a + 1" "acc @ [c]"] b(2) c by auto
    have "uget a (length (c # cs) + 1) s = Ok ((c # cs) @ [0])"
      using uget_Suc [of a "length cs + 1" s] b(1) c cs(3) by simp
    then show ?thesis using cs False by (intro exI [of _ "c # cs"]) simp
  qed
qed simp

text \<open>
  C37: A block that \<open>argptr\<close> accepts and a string that \<open>argstr\<close> returns lie inside the memory of the process,
  terminating zero included; neither the size nor an address near the end of the address space makes the
  test overflow.
\<close>

theorem syscall_args_confined:
  assumes "p_sz (myproc s) \<le> KERNBASE"
  shows "(argptr n sz s = Ok (Some a) \<and> sz < 2147483648 \<longrightarrow> 0 \<le> sz \<and> a + nat sz \<le> p_sz (myproc s))
    \<and> (argstr n s = Ok (Some bs) \<longrightarrow> (\<exists>a. a + length bs < p_sz (myproc s) \<and> uget a (length bs + 1) s = Ok (bs @ [0]) \<and> 0 \<notin> set bs))"
proof (rule conjI; rule impI)
  assume 1: "argptr n sz s = Ok (Some a) \<and> sz < 2147483648"
  then obtain r where r: "argint n s = Ok r" by (auto simp: argptr_def bindr_eq_Ok)
  with 1 obtain i where ri: "r = Some i" by (cases r) (auto simp: argptr_def)
  have i: "0 \<le> sz" "u32_of i < p_sz (myproc s)" "wrap32 (u32_of i + nat sz) \<le> p_sz (myproc s)" "a = u32_of i"
    using 1 by (simp_all add: argptr_def r ri Let_def split: if_splits)
  have "nat sz < 2147483648" using 1 i(1) by (simp add: nat_less_iff)
  then have "u32_of i + nat sz < u32_mod" using i(2) assms unfolding KERNBASE_def by linarith
  then show "0 \<le> sz \<and> a + nat sz \<le> p_sz (myproc s)" using i by simp
next
  assume 2: "argstr n s = Ok (Some bs)"
  then obtain r where r: "argint n s = Ok r" by (auto simp: argstr_def bindr_eq_Ok)
  with 2 obtain i where ri: "r = Some i" by (cases r) (auto simp: argstr_def)
  have i: "u32_of i < p_sz (myproc s)" "fetchstr_loop (p_sz (myproc s) - u32_of i) (u32_of i) [] s = Ok (Some bs)"
    using 2 by (simp_all add: argstr_def r ri fetchstr_def Let_def split: if_splits)
  then show "\<exists>a. a + length bs < p_sz (myproc s) \<and> uget a (length bs + 1) s = Ok (bs @ [0]) \<and> 0 \<notin> set bs"
    using fetchstr_loop_ok [OF i(2)] by (intro exI [of _ "u32_of i"]) auto
qed

text \<open>The demo process makes a system call with two pointers on its stack: 100 and 3.\<close>

definition demo_call :: trapk where
  "demo_call = upd_proc 0 (\<lambda>x. x\<lparr>p_tf := zero_tf\<lparr>tf_esp := 200\<rparr>\<rparr>)
     ((demo blank)\<lparr>ram := put_bytes (word_bytes 10 @ word_bytes 3) demo_ram (12288 + 204)\<rparr>)"

lemma demo_call_sel [simp]:
  "myproc demo_call = demo_proc\<lparr>p_tf := zero_tf\<lparr>tf_esp := 200\<rparr>\<rparr>"
  "ram demo_call = put_bytes (word_bytes 10 @ word_bytes 3) demo_ram (12288 + 204)"
  by (simp_all add: demo_call_def myproc_def NPROC_def)

lemma demo_call_maps: "maps_to (ram demo_call) (KERNBASE + 4096) 0 4096 12288"
  using maps_to_put [OF demo_maps [of 0 4096], of 204 "word_bytes 10 @ word_bytes 3"] by simp

lemma demo_call_uget: "a + k \<le> 4096 \<Longrightarrow> uget a k demo_call = Ok (bytes_at (ram demo_call) (12288 + a) k)"
  using uget_maps [OF demo_call_maps, of a k] by (simp add: uget_def demo_proc_def)

lemma demo_call_argint: "argint 0 demo_call = Ok (Some 10)"
proof -
  have "bytes_at (ram demo_call) (12288 + 204) 4 = word_bytes 10"
    by (rule nth_equalityI) (auto simp: put_bytes_def nth_append)
  moreover have "s32 (rd32 (arr (word_bytes 10)) 0) = 10" by (simp add: rd32_word_bytes s32_def)
  ultimately show ?thesis
    using demo_call_uget [of 204 4] by (simp add: argint_def fetchint_def demo_proc_def)
qed

lemma syscall_args_confined_witness:
  "argptr 0 100 demo_call = Ok (Some 10) \<and> argstr 0 demo_call = Ok (Some [104, 105]) \<and> 10 + 100 \<le> p_sz (myproc demo_call)"
proof -
  have p: "argptr 0 100 demo_call = Ok (Some 10)"
    by (simp add: argptr_def demo_call_argint demo_proc_def u32_of_def)
  have g: "uget 10 1 demo_call = Ok [104]" "uget 11 1 demo_call = Ok [105]" "uget 12 1 demo_call = Ok [0]"
    using demo_call_uget [of 10 1] demo_call_uget [of 11 1] demo_call_uget [of 12 1]
    by (simp_all add: bytes_at_def put_bytes_def demo_ram_def wr32_out)
  have "fetchstr_loop (Suc (Suc (Suc k))) 10 [] demo_call = Ok (Some [104, 105])" for k
    using g by (simp del: One_nat_def)
  from this [of 8179] have "argstr 0 demo_call = Ok (Some [104, 105])"
    by (simp add: argstr_def demo_call_argint fetchstr_def demo_proc_def u32_of_def)
  then show ?thesis
    using p syscall_args_confined [of demo_call 0 100 10 "[104, 105]"] by (simp add: demo_proc_def KERNBASE_def)
qed

section \<open>Unknown system calls\<close>

lemma cprintf_total:
  assumes "on_screen s" "LCons \<notin> held s" "\<exists>out. cformat f as = Some out"
  shows "\<exists>t. cprintf f as s = Ok t \<and> csame s t \<and> on_screen t"
proof -
  from assms(3) obtain out where "cformat f as = Some out" ..
  from cprintf_ok [OF assms(1,2) this] show ?thesis by (auto simp: okP_iff)
qed

lemma cformat_unknown:
  "\<exists>out. cformat (chars ''%d %s: unknown sys call %d'' @ [10]) [CInt a, CStr (Some t), CInt b] = Some out"
  by (simp add: chars_def of_char_def)

text \<open>
  A system call whose number is not in the table fails with -1 in the register of the result; apart
  from the message on the console nothing changes, and the process goes on.
\<close>

theorem unknown_syscall_fails:
  fixes s :: "'a taskk_scheme"
  assumes "on_screen s" "LCons \<notin> held s" "cur s = Some me" "me < length (ptable s)"
    and "s32 (tf_eax (p_tf (myproc s))) \<le> 0 \<or> 27 \<le> s32 (tf_eax (p_tf (myproc s)))"
  shows "okP (syscall s) (\<lambda>(alive, t). alive \<and> s32 (tf_eax (p_tf (myproc t))) = -1
     \<and> ptable t = (ptable s)[me := (myproc s)\<lparr>p_tf := (p_tf (myproc s))\<lparr>tf_eax := u32_of (-1)\<rparr>\<rparr>]
     \<and> held t = held s \<and> cur t = cur s \<and> ram t = ram s \<and> on_screen t)"
proof -
  let ?p = "myproc s"
  have n: "\<not> (0 < s32 (tf_eax (p_tf ?p)) \<and> s32 (tf_eax (p_tf ?p)) < int (length (syscalls :: ('a taskk_scheme \<Rightarrow> _) list)))"
    using assms(5) by (auto simp: syscalls_def)
  obtain t where t: "cprintf (chars ''%d %s: unknown sys call %d'' @ [10])
      [CInt (p_pid ?p), CStr (Some (c_chars (p_name ?p))), CInt (s32 (tf_eax (p_tf ?p)))] s = Ok t" "csame s t" "on_screen t"
    using cprintf_total [OF assms(1,2) cformat_unknown] by blast
  show ?thesis
    unfolding syscall_def Let_def if_not_P [OF n] t(1)
    using assms(3,4) csame_sel [OF t(2)] t(3) by (simp add: set_eax_def myproc_def s32_u32_of on_screen_def upd_proc_def)
qed

lemma unknown_syscall_fails_witness:
  "okP (syscall (upd_proc 0 (\<lambda>x. x\<lparr>p_tf := zero_tf\<lparr>tf_eax := 99\<rparr>\<rparr>) (demo blank))) (\<lambda>(alive, t). alive \<and> s32 (tf_eax (p_tf (myproc t))) = -1)"
proof -
  have n: "0 < NPROC" by (simp add: NPROC_def)
  show ?thesis
    by (rule okP_mono [OF unknown_syscall_fails [where me = 0]])
      (use n in \<open>auto simp: on_screen_def upd_proc_def myproc_def s32_def\<close>)
qed

section \<open>Traps\<close>

text \<open>
  No way out of a trap leads back to user mode for a process that has been killed: when \<open>trap\<close> returns to
  interrupted user code, at once or after it has yielded the processor, the current process is not
  marked killed, whatever the interrupt, the system call or other processes did.
\<close>

theorem killed_never_returns:
  assumes "tf_cs tf AND 3 = DPL_USER"
  shows "retP (trap env tf s) (\<lambda>(out, t). out = Returns \<longrightarrow> \<not> cur_killed t)
     \<and> retP (trap_resume tf s) (\<lambda>(out, t). out = Returns \<longrightarrow> \<not> cur_killed t)"
proof
  have ex: "retP (do_exit t) (\<lambda>(out, t). out = Returns \<longrightarrow> P t)" for t :: "'a trapk_scheme" and P
    by (auto simp: retP_iff do_exit_def bindr_eq_Ok)
  show "retP (trap_resume tf s) (\<lambda>(out, t). out = Returns \<longrightarrow> \<not> cur_killed t)"
    using assms ex by (auto simp: retP_iff trap_resume_def bindr_eq_Ok split: if_splits)
  show "retP (trap env tf s) (\<lambda>(out, t). out = Returns \<longrightarrow> \<not> cur_killed t)"
  proof (cases "tf_trapno tf = T_SYSCALL")
    case True
    then show ?thesis using ex
      by (auto simp: retP_iff trap_def trap_syscall_def cur_killed_def bindr_eq_Ok split: if_splits)
  next
    case False
    then show ?thesis using assms ex
      by (auto simp: retP_iff trap_def bindr_eq_Ok split: if_splits)
  qed
qed

lemma killed_never_returns_witness:
  "\<not> (\<exists>t. trap \<lparr>te_cpu = 0, te_scan = [], te_ser = [], te_cr2 = 0\<rparr> (zero_tf\<lparr>tf_trapno := 32, tf_cs := 27\<rparr>) (demo blank) = Ok (Returns, t)
     \<and> cur_killed t)"
proof -
  have "27 AND 3 = (3 :: nat)" by code_simp
  then show ?thesis
    using killed_never_returns [of "zero_tf\<lparr>tf_trapno := 32, tf_cs := 27\<rparr>" "\<lparr>te_cpu = 0, te_scan = [], te_ser = [], te_cr2 = 0\<rparr>" "demo blank"]
    by (auto simp: retP_iff DPL_USER_def)
qed

text \<open>The trap numbers that \<open>trap\<close> handles: system calls and interrupts.\<close>

definition handled :: "nat set" where
  "handled = {T_SYSCALL, T_IRQ0 + IRQ_TIMER, T_IRQ0 + IRQ_IDE, T_IRQ0 + IRQ_IDE + 1, T_IRQ0 + IRQ_KBD, T_IRQ0 + IRQ_COM1,
     T_IRQ0 + 7, T_IRQ0 + IRQ_SPURIOUS}"

lemma cformat_fault:
  "\<exists>out. cformat (chars ''pid %d %s: trap %d err %d on cpu %d eip 0x%x addr 0x%x--kill proc'' @ [10])
     [CInt a, CStr (Some t), CInt b, CInt c, CInt d, CInt e, CInt f] = Some out"
  by (simp add: chars_def of_char_def)

lemma cformat_unexpected:
  "\<exists>out. cformat (chars ''unexpected trap %d from cpu %d eip %x (cr2=0x%x)'' @ [10]) [CInt a, CInt b, CInt c, CInt d] = Some out"
  by (simp add: chars_def of_char_def)

text \<open>
  An exception in user mode ends the process and nothing else: the process is marked killed and exits,
  with all other processes, memory and locks untouched up to there. An exception in the kernel panics.
\<close>

theorem fault_kills_process:
  fixes s :: "'a trapk_scheme"
  assumes "on_screen s" "LCons \<notin> held s" "tf_trapno tf \<notin> handled" "cur s = Some me" "me < length (ptable s)"
  shows "if tf_cs tf AND 3 = DPL_USER
     then (\<exists>t. trap env tf s = do_exit t \<and> ptable t = (ptable s)[me := (myproc s)\<lparr>p_killed := True\<rparr>]
         \<and> cur t = cur s \<and> held t = held s \<and> ram t = ram s)
     else tf_cs tf AND 3 = 0 \<longrightarrow> trap env tf s = Panic ''trap''"
proof -
  have no: "tf_trapno tf \<noteq> T_SYSCALL" "tf_trapno tf \<noteq> T_IRQ0 + IRQ_TIMER" "tf_trapno tf \<noteq> T_IRQ0 + IRQ_IDE"
    "tf_trapno tf \<noteq> T_IRQ0 + IRQ_IDE + 1" "tf_trapno tf \<noteq> T_IRQ0 + IRQ_KBD" "tf_trapno tf \<noteq> T_IRQ0 + IRQ_COM1"
    "\<not> (tf_trapno tf = T_IRQ0 + 7 \<or> tf_trapno tf = T_IRQ0 + IRQ_SPURIOUS)"
    using assms(3) by (simp_all add: handled_def)
  let ?m1 = "cprintf (chars ''pid %d %s: trap %d err %d on cpu %d eip 0x%x addr 0x%x--kill proc'' @ [10])
          [CInt (p_pid (myproc s)), CStr (Some (c_chars (p_name (myproc s)))), CInt (s32 (tf_trapno tf)),
           CInt (s32 (tf_err tf)), CInt (int (te_cpu env)), CInt (s32 (tf_eip tf)), CInt (s32 (te_cr2 env))] s"
  let ?m2 = "cprintf (chars ''unexpected trap %d from cpu %d eip %x (cr2=0x%x)'' @ [10])
             [CInt (s32 (tf_trapno tf)), CInt (int (te_cpu env)), CInt (s32 (tf_eip tf)), CInt (s32 (te_cr2 env))] s"
  obtain t where t: "?m1 = Ok t" "csame s t" using cprintf_total [OF assms(1,2) cformat_fault] by blast
  obtain u where u: "?m2 = Ok u" using cprintf_total [OF assms(1,2) cformat_unexpected] by blast
  note c = csame_sel [OF t(2)]
  show ?thesis
  proof (cases "tf_cs tf AND 3 = DPL_USER")
    case True
    let ?t = "upd_proc me (\<lambda>x. x\<lparr>p_killed := True\<rparr>) t"
    have "trap_dispatch env tf s = Ok ?t"
      unfolding trap_dispatch_def if_not_P [OF no(2)] if_not_P [OF no(3)] if_not_P [OF no(4)] if_not_P [OF no(5)] if_not_P [OF no(6)]
        if_not_P [OF no(7)] using True assms(4) t(1) c by (simp add: DPL_USER_def)
    moreover have "cur_killed ?t" using assms(4,5) c by (simp add: cur_killed_def myproc_def)
    ultimately have "trap env tf s = do_exit ?t" using no(1) True by (simp add: trap_def)
    then show ?thesis using True assms(4) c by (intro if_P [THEN iffD2]) (auto simp: myproc_def)
  next
    case False
    have "trap_dispatch env tf s = Panic ''trap''" if "tf_cs tf AND 3 = 0"
      unfolding trap_dispatch_def if_not_P [OF no(2)] if_not_P [OF no(3)] if_not_P [OF no(4)] if_not_P [OF no(5)] if_not_P [OF no(6)]
        if_not_P [OF no(7)] using that u by simp
    then show ?thesis using False no(1) by (simp add: trap_def)
  qed
qed

lemma fault_kills_process_witness:
  "\<exists>t. trap \<lparr>te_cpu = 0, te_scan = [], te_ser = [], te_cr2 = 0\<rparr> (zero_tf\<lparr>tf_trapno := 13, tf_cs := 27\<rparr>) (demo blank) = do_exit t
     \<and> p_killed (ptable t ! 0) \<and> ram t = demo_ram"
proof -
  have n: "0 < NPROC" by (simp add: NPROC_def)
  have "27 AND 3 = (3 :: nat)" by code_simp
  then show ?thesis
    using n fault_kills_process [of "demo blank" "zero_tf\<lparr>tf_trapno := 13, tf_cs := 27\<rparr>" 0 "\<lparr>te_cpu = 0, te_scan = [], te_ser = [], te_cr2 = 0\<rparr>"]
    by (auto simp: DPL_USER_def handled_def on_screen_def layout_simps)
qed

end
