(* ===== verification/VmSpec.thy ===== *)
theory VmSpec
  imports UserMem Ring
begin

text \<open>
  Page tables: a mapping adds exactly one translation, and shrinking a process ends.
\<close>

section \<open>Addresses\<close>

lemma and_1023: "(x :: nat) AND 1023 = x mod 1024"
  using take_bit_eq_mask [of 10 x] by (simp add: take_bit_eq_mod mask_eq_exp_minus_1)

lemma PDX_div: "PDX a = a div 4194304 mod 1024"
  by (simp add: PDX_def and_1023 drop_bit_eq_div)

lemma PTX_div: "PTX a = a div 4096 mod 1024"
  by (simp add: PTX_def and_1023 drop_bit_eq_div)

lemma PDX_less [simp]: "PDX a < 1024" and PTX_less [simp]: "PTX a < 1024"
  by (simp_all add: PDX_div PTX_div)

lemma page_index:
  assumes "a < KERNBASE"
  shows "a div PGSIZE = 1024 * PDX a + PTX a"
proof -
  have "a div 4194304 = a div 4096 div 1024" by (simp add: div_mult2_eq [symmetric])
  moreover have "a div 4194304 < 1024" using assms by (simp add: KERNBASE_def less_mult_imp_div_less)
  ultimately show ?thesis by (simp add: PDX_div PTX_div PGSIZE_def)
qed

lemma page_index_eq:
  assumes "a < KERNBASE" "b < KERNBASE"
  shows "a div PGSIZE = b div PGSIZE \<longleftrightarrow> PDX a = PDX b \<and> PTX a = PTX b"
proof -
  have "(1024 * x + y) div 1024 = x" "(1024 * x + y) mod 1024 = y" if "y < 1024" for x y :: nat
    using that by simp_all
  then show ?thesis using page_index [OF assms(1)] page_index [OF assms(2)] PTX_less [of a] PTX_less [of b] by metis
qed

lemma same_page: "a mod PGSIZE = 0 \<Longrightarrow> d < PGSIZE \<Longrightarrow> (a + d) div PGSIZE = a div PGSIZE \<and> (a + d) mod PGSIZE = d"
  by (auto simp: PGSIZE_def)

section \<open>Shrinking ends\<close>

lemma bindr_no_spin: "r \<noteq> Spin \<Longrightarrow> (\<And>x. f x \<noteq> Spin) \<Longrightarrow> bindr r f \<noteq> Spin"
  by (cases r) auto

lemma no_spin:
  "kalloc s \<noteq> Spin" "kfree v s \<noteq> Spin" "walkpgdir pgdir va b s \<noteq> Spin"
  by (auto simp: kalloc_def kfree_def walkpgdir_def klock_if_def acquire_def release_def Let_def intro!: bindr_no_spin split: if_splits)

lemma next_table:
  assumes "a < KERNBASE" "a mod PGSIZE = 0"
  shows "wrap32 (sub32 (PGADDR (PDX a + 1) 0 0) PGSIZE + PGSIZE) mod PGSIZE = 0
    \<and> a + PGSIZE \<le> wrap32 (sub32 (PGADDR (PDX a + 1) 0 0) PGSIZE + PGSIZE)"
proof -
  let ?d = "a div 4194304"
  have d: "?d < 512" using assms(1) by (simp add: KERNBASE_def less_mult_imp_div_less)
  then have "PGADDR (PDX a + 1) 0 0 = (?d + 1) * 4194304"
    by (simp add: PGADDR_def PDX_div push_bit_eq_mult wrap32_def)
  then have e: "wrap32 (sub32 (PGADDR (PDX a + 1) 0 0) PGSIZE + PGSIZE) = (?d + 1) * 4194304"
    using d by (simp add: sub32_le PGSIZE_def)
  have "a < (?d + 1) * 4194304" using dividend_less_div_times [of 4194304 a] by (simp add: algebra_simps)
  moreover obtain q where "a = q * 4096" using assms(2) by (auto simp: PGSIZE_def)
  ultimately have "q < (?d + 1) * 1024" by simp
  then have "a + PGSIZE \<le> (?d + 1) * 4194304" using \<open>a = q * 4096\<close> by (simp add: PGSIZE_def)
  then show ?thesis unfolding e by (simp add: PGSIZE_def mod_mult_right_eq)
qed

lemma deallocuvm_from_ends:
  fixes s :: "'a ksys_scheme"
  shows "oldsz \<le> KERNBASE \<Longrightarrow> a mod PGSIZE = 0 \<Longrightarrow> oldsz \<le> a + k * PGSIZE \<Longrightarrow> deallocuvm_from k pgdir a oldsz s \<noteq> Spin"
proof (induction k arbitrary: a s)
  case (Suc k)
  show ?case
  proof (cases "a < oldsz")
    case True
    let ?b = "wrap32 (sub32 (PGADDR (PDX a + 1) 0 0) PGSIZE + PGSIZE)"
    have a: "a < KERNBASE" using True Suc.prems(1) by simp
    have w: "wrap32 (a + PGSIZE) = a + PGSIZE" using a by (simp add: KERNBASE_def PGSIZE_def)
    have r1: "deallocuvm_from k pgdir (a + PGSIZE) oldsz t \<noteq> Spin" for t :: "'a ksys_scheme"
      by (rule Suc.IH) (use Suc.prems in simp_all)
    have r2: "deallocuvm_from k pgdir ?b oldsz t \<noteq> Spin" for t :: "'a ksys_scheme"
      by (rule Suc.IH) (use Suc.prems next_table [OF a Suc.prems(2)] in simp_all)
    have r3: "bindr (kfree v t) (\<lambda>t. deallocuvm_from k pgdir (a + PGSIZE) oldsz (kwrite32 pte 0 t)) \<noteq> Spin" for v pte and t :: "'a ksys_scheme"
      by (rule bindr_no_spin [OF no_spin(2) r1])
    show ?thesis
      unfolding deallocuvm_from.simps(2) if_P [OF True] w
    proof (rule bindr_no_spin [OF no_spin(3)], clarify)
      fix pte and t :: "'a ksys_scheme"
      assume "(if pte = 0 then deallocuvm_from k pgdir ?b oldsz t
           else if present (kread32 pte t)
           then let pa = PTE_ADDR (kread32 pte t)
                in if pa = 0 then Panic ''kfree''
                   else bindr (kfree (P2V pa) t) (\<lambda>s. deallocuvm_from k pgdir (a + PGSIZE) oldsz (kwrite32 pte 0 s))
           else deallocuvm_from k pgdir (a + PGSIZE) oldsz t) = Spin"
      then show False using r1 r2 r3 by (simp add: Let_def split: if_splits)
    qed
  qed simp
qed simp

text \<open>
  C39: Shrinking a process from a size up to \<open>KERNBASE\<close> always ends: the loop of \<open>deallocuvm\<close>, which skips whole
  page tables that do not exist, advances by a page at least in every turn and never wraps around.
\<close>

theorem deallocuvm_ends:
  assumes "oldsz \<le> KERNBASE"
  shows "deallocuvm pgdir oldsz newsz s \<noteq> Spin"
proof (cases "oldsz \<le> newsz")
  case False
  have "oldsz \<le> (oldsz div PGSIZE + 1) * PGSIZE"
    using dividend_less_div_times [of PGSIZE oldsz] by (simp add: PGSIZE_def)
  then have "deallocuvm_from (oldsz div PGSIZE + 1) pgdir (PGROUNDUP newsz) oldsz s \<noteq> Spin"
    by (intro deallocuvm_from_ends [OF assms]) (simp_all add: PGROUNDUP_def)
  then show ?thesis using False unfolding deallocuvm_def by (simp del: deallocuvm_from.simps) (rule bindr_no_spin; simp)
qed (simp add: deallocuvm_def)

lemma deallocuvm_ends_witness: "deallocuvm (KERNBASE + 4096) 8192 0 (demo blank) \<noteq> Spin"
  by (rule deallocuvm_ends) (simp add: KERNBASE_def)

section \<open>Entries\<close>

lemma V2P_P2V: "x < u32_mod \<Longrightarrow> V2P (P2V x) = x"
  using sub32_wrap [of KERNBASE x] by (simp add: V2P_def P2V_def KERNBASE_def add.commute)

lemma PTE_ADDR_less: "pte < u32_mod \<Longrightarrow> PTE_ADDR pte < u32_mod"
  by (rule le_less_trans [of _ pte]) (simp_all add: PTE_ADDR_def)

lemma pte_make:
  assumes "pa mod PGSIZE = 0" "e < 4096"
  shows "pa OR e = pa + e" "PTE_ADDR (pa OR e) = pa"
proof -
  obtain q where q: "pa = push_bit 12 q" using assms(1) by (auto simp: PGSIZE_def push_bit_eq_mult mult.commute)
  have "\<not> bit pa n \<or> \<not> bit e n" for n
  proof (cases "n < 12")
    case True then show ?thesis by (simp add: q bit_push_bit_iff)
  next
    case False
    have "take_bit 12 e = e" using assms(2) by (simp add: take_bit_nat_eq_self_iff)
    then show ?thesis using False by (metis bit_take_bit_iff)
  qed
  then show "pa OR e = pa + e" by (simp add: disjunctive_add)
  then show "PTE_ADDR (pa OR e) = pa" using assms by (auto simp: PTE_ADDR_def PGSIZE_def)
qed

lemma present_or: "present (x OR PTE_P)"
proof -
  have "odd (x OR PTE_P)" by (simp add: PTE_P_def even_or_iff)
  then have "(x OR PTE_P) mod 2 = 1" by (simp only: odd_iff_mod_2_eq_one)
  then have "(x OR PTE_P) AND 1 = 1" by (simp only: and_one_eq)
  then show ?thesis unfolding present_def PTE_P_def by (simp only: one_neq_zero not_False_eq_True)
qed

lemma or_less_4096: "x < 4096 \<Longrightarrow> y < 4096 \<Longrightarrow> (x OR y :: nat) < 4096"
proof -
  assume "x < 4096" "y < 4096"
  then have "take_bit 12 x = x" "take_bit 12 y = y" by (simp_all add: take_bit_nat_eq_self_iff)
  then have "take_bit 12 (x OR y) = x OR y" by simp
  then have "x OR y < 2 ^ 12" unfolding take_bit_nat_eq_self_iff .
  then show ?thesis by simp
qed

lemma page_ok_off: "page_ok s v \<Longrightarrow> k < PGSIZE \<Longrightarrow> V2P (v + k) = V2P v + k"
proof -
  assume v: "page_ok s v" and k: "k < PGSIZE"
  have "V2P v = v - KERNBASE" "KERNBASE \<le> v" "v - KERNBASE < PHYSTOP" using v page_ok_V2P [OF v] by (auto simp: page_ok_def)
  then show ?thesis using k by (simp add: V2P_def sub32_le layout_simps)
qed

section \<open>Page tables\<close>

text \<open>Entry \<open>d\<close> of the directory, and the kernel address of the page table it points to.\<close>

definition pde :: "'a ksys_scheme \<Rightarrow> nat \<Rightarrow> nat \<Rightarrow> nat" where
  "pde s pgdir d = rd32 (ram s) (V2P pgdir + 4 * d)"

definition tab :: "'a ksys_scheme \<Rightarrow> nat \<Rightarrow> nat \<Rightarrow> nat" where
  "tab s pgdir d = P2V (PTE_ADDR (pde s pgdir d))"

text \<open>
  The directory and the page tables are different pages, and none of them is on the free list \<open>ps\<close>.
\<close>

definition pt_ok :: "'a ksys_scheme \<Rightarrow> nat \<Rightarrow> nat list \<Rightarrow> bool" where
  "pt_ok s pgdir ps \<longleftrightarrow> free_pages s ps \<and> page_ok s pgdir \<and> pgdir \<notin> set ps
     \<and> (\<forall>d < 1024. present (pde s pgdir d) \<longrightarrow> page_ok s (tab s pgdir d) \<and> tab s pgdir d \<noteq> pgdir \<and> tab s pgdir d \<notin> set ps)
     \<and> (\<forall>d < 1024. \<forall>e < 1024. d \<noteq> e \<longrightarrow> present (pde s pgdir d) \<longrightarrow> present (pde s pgdir e) \<longrightarrow> tab s pgdir d \<noteq> tab s pgdir e)"

lemma tab_V2P: "V2P (tab s pgdir d) = PTE_ADDR (pde s pgdir d)"
  by (simp add: tab_def V2P_P2V PTE_ADDR_less pde_def rd32_less)

text \<open>The translation in terms of the tables.\<close>

definition pte :: "'a ksys_scheme \<Rightarrow> nat \<Rightarrow> nat \<Rightarrow> nat \<Rightarrow> nat" where
  "pte s pgdir d e = (if present (pde s pgdir d) then rd32 (ram s) (V2P (tab s pgdir d) + 4 * e) else 0)"

lemma not_present_0 [simp]: "\<not> present 0"
  by (simp add: present_def)

lemma translate_pte:
  "va < KERNBASE \<Longrightarrow> translate (ram s) pgdir va =
     (if present (pte s pgdir (PDX va) (PTX va)) then Some (PTE_ADDR (pte s pgdir (PDX va) (PTX va)) + va mod PGSIZE) else None)"
  by (simp add: translate_def pte_def pde_def [symmetric] tab_V2P Let_def)

lemma pt_okD:
  assumes "pt_ok s pgdir ps" "d < 1024" "present (pde s pgdir d)"
  shows "page_ok s (tab s pgdir d)" "tab s pgdir d \<noteq> pgdir" "tab s pgdir d \<notin> set ps"
    "e < 1024 \<Longrightarrow> present (pde s pgdir e) \<Longrightarrow> d \<noteq> e \<Longrightarrow> tab s pgdir d \<noteq> tab s pgdir e"
  using assms unfolding pt_ok_def by blast+

lemma word_in_page: "page_ok s v \<Longrightarrow> page_ok s w \<Longrightarrow> v \<noteq> w \<Longrightarrow> d < 1024 \<Longrightarrow> e < 1024 \<Longrightarrow>
    V2P v + 4 * d + 4 \<le> V2P w + 4 * e \<or> V2P w + 4 * e + 4 \<le> V2P v + 4 * d"
  using page_ok_apart [of s v w] by (auto simp: PGSIZE_def)

lemma kread_dir:
  assumes "page_ok s v" "e < 1024"
  shows "kread32 (v + 4 * e) s = rd32 (ram s) (V2P v + 4 * e)" "kwrite32 (v + 4 * e) x s = s\<lparr>ram := wr32 (ram s) (V2P v + 4 * e) x\<rparr>"
  using page_ok_off [OF assms(1), of "4 * e"] assms(2) by (simp_all add: kread32_def kwrite32_def PGSIZE_def)

text \<open>Writing one entry of a page table.\<close>

lemma pte_write:
  assumes ok: "pt_ok s pgdir ps" and D: "D < 1024" "present (pde s pgdir D)" and E: "E < 1024" and v: "v < u32_mod"
    and t: "ram t = wr32 (ram s) (V2P (tab s pgdir D) + 4 * E) v" "freelist t = freelist s" "kend t = kend s"
  shows "pt_ok t pgdir ps" "d < 1024 \<Longrightarrow> pde t pgdir d = pde s pgdir d"
    "d < 1024 \<Longrightarrow> e < 1024 \<Longrightarrow> pte t pgdir d e = (if d = D \<and> e = E then v else pte s pgdir d e)"
proof -
  note T = pt_okD [OF ok D]
  have pg: "page_ok s pgdir" "free_pages s ps" using ok by (simp_all add: pt_ok_def)
  have pok: "page_ok t = page_ok s" by (rule page_ok_cong) (rule t(3))
  show p: "pde t pgdir d = pde s pgdir d" if "d < 1024" for d
    using word_in_page [OF pg(1) T(1) _ that E] T(2) by (auto simp: pde_def t(1))
  have tb: "tab t pgdir d = tab s pgdir d" if "d < 1024" for d using p [OF that] by (simp add: tab_def)
  have "free_pages t ps"
  proof (rule free_pages_frame [OF pg(2) _ t(2,3)])
    fix q a assume q: "q \<in> set ps" "V2P q \<le> a" "a < V2P q + PGSIZE"
    have "V2P q + PGSIZE \<le> V2P (tab s pgdir D) \<or> V2P (tab s pgdir D) + PGSIZE \<le> V2P q"
      using q(1) T(1,3) pg(2) by (intro page_ok_apart [of s]) (auto simp: free_pages_def)
    then show "ram t a = ram s a" using q E unfolding t(1) by (intro wr32_out) (auto simp: PGSIZE_def)
  qed
  then show "pt_ok t pgdir ps" using ok p tb by (simp add: pt_ok_def pok)
  show "pte t pgdir d e = (if d = D \<and> e = E then v else pte s pgdir d e)" if de: "d < 1024" "e < 1024"
  proof (cases "present (pde s pgdir d)")
    case True
    have "rd32 (ram t) (V2P (tab s pgdir d) + 4 * e) = (if d = D \<and> e = E then v else rd32 (ram s) (V2P (tab s pgdir d) + 4 * e))"
    proof (cases "d = D")
      case False
      then have "V2P (tab s pgdir d) + 4 * e + 4 \<le> V2P (tab s pgdir D) + 4 * E \<or> V2P (tab s pgdir D) + 4 * E + 4 \<le> V2P (tab s pgdir d) + 4 * e"
        using word_in_page [OF pt_okD(1) [OF ok de(1) True] T(1) _ de(2) E] T(4) [OF de(1) True] by metis
      then show ?thesis using False by (auto simp: t(1))
    next
      case True
      then show ?thesis using v by (cases "e = E"; cases "e < E") (auto simp: t(1))
    qed
    then show ?thesis using True p tb de by (simp add: pte_def)
  next
    case False
    then show ?thesis using D(2) p de by (auto simp: pte_def)
  qed
qed

lemma walk_present:
  assumes "page_ok s pgdir" "present (pde s pgdir (PDX va))"
  shows "walkpgdir pgdir va alloc s = Ok (tab s pgdir (PDX va) + 4 * PTX va, s)"
  using assms(2) kread_dir(1) [OF assms(1), of "PDX va" ] by (simp add: walkpgdir_def pde_def [symmetric] tab_def)

lemma rd32_fill_0: "a \<le> b \<Longrightarrow> b + 4 \<le> a + n \<Longrightarrow> rd32 (fill 0 m a n) b = 0"
  by (simp add: rd32_def)

lemma rd32_fill_out: "b + 4 \<le> a \<or> a + n \<le> b \<Longrightarrow> rd32 (fill c m a n) b = rd32 m b"
  by (rule rd32_cong) auto

text \<open>A page from the free list, cleared, becomes the page table of entry \<open>D\<close>.\<close>

lemma table_added:
  assumes ok: "pt_ok s pgdir (p # ps)" and D: "D < 1024" "\<not> present (pde s pgdir D)" and f: "f < 4096"
    and t: "ram t = wr32 (fill 0 (ram s) (V2P p) PGSIZE) (V2P pgdir + 4 * D) (V2P p OR (f OR PTE_P))"
      "freelist t = rd32 (ram s) (V2P p)" "kend t = kend s"
  shows "pt_ok t pgdir ps" "present (pde t pgdir D)" "tab t pgdir D = p" "d < 1024 \<Longrightarrow> e < 1024 \<Longrightarrow> pte t pgdir d e = pte s pgdir d e"
    "d < 1024 \<Longrightarrow> d \<noteq> D \<Longrightarrow> pde t pgdir d = pde s pgdir d" "pde t pgdir D = V2P p OR (f OR PTE_P)"
proof -
  let ?v = "V2P p OR (f OR PTE_P)"
  have pg: "page_ok s pgdir" "page_ok s p" "pgdir \<noteq> p" "p \<notin> set ps" "pgdir \<notin> set ps" and fp: "free_pages s (p # ps)"
    using ok by (auto simp: pt_ok_def free_pages_def)
  have pok: "page_ok t = page_ok s" by (rule page_ok_cong) (rule t(3))
  have "f OR PTE_P < 4096" by (rule or_less_4096 [OF f]) (simp add: PTE_P_def)
  note v = pte_make [OF page_ok_aligned [OF pg(2)] this]
  have "V2P p + PGSIZE < u32_mod" using pg(2) unfolding page_ok_def PHYSTOP_def PGSIZE_def by linarith
  then have vl: "?v < u32_mod" using v(1) \<open>f OR PTE_P < 4096\<close> unfolding PGSIZE_def by linarith
  note apart = page_ok_apart [OF pg(1,2,3)]
  have rd: "rd32 (ram t) a = rd32 (ram s) a" if "a + 4 \<le> V2P p \<or> V2P p + PGSIZE \<le> a" "a + 4 \<le> V2P pgdir + 4 * D \<or> V2P pgdir + 4 * D + 4 \<le> a" for a
    using that by (simp add: t(1) rd32_fill_out)
  have p: "pde t pgdir d = (if d = D then ?v else pde s pgdir d)" if d: "d < 1024" for d
  proof (cases "d = D")
    case True
    then show ?thesis using vl by (simp add: pde_def t(1))
  next
    case False
    have "rd32 (ram t) (V2P pgdir + 4 * d) = rd32 (ram s) (V2P pgdir + 4 * d)"
      using apart d False by (intro rd) (auto simp: PGSIZE_def)
    then show ?thesis using False by (simp add: pde_def)
  qed
  show "pde t pgdir d = pde s pgdir d" if "d < 1024" "d \<noteq> D" using p that by simp
  show "pde t pgdir D = ?v" using p [OF D(1)] by simp
  show pr: "present (pde t pgdir D)" using p [OF D(1)] present_or [of "V2P p OR f"] by (simp add: or.assoc)
  show tD: "tab t pgdir D = p" using p [OF D(1)] v(2) page_ok_P2V [OF pg(2)] by (simp add: tab_def)
  have tb: "tab t pgdir d = tab s pgdir d" if "d < 1024" "d \<noteq> D" for d using p that by (simp add: tab_def)
  have "free_pages t ps"
  proof (rule free_pages_frame)
    show "free_pages (s\<lparr>freelist := rd32 (ram s) (V2P p)\<rparr>) ps" using fp by (simp add: free_pages_def)
    fix q a assume q: "q \<in> set ps" "V2P q \<le> a" "a < V2P q + PGSIZE"
    have "V2P q + PGSIZE \<le> V2P p \<or> V2P p + PGSIZE \<le> V2P q" "V2P q + PGSIZE \<le> V2P pgdir \<or> V2P pgdir + PGSIZE \<le> V2P q"
    proof -
      have "page_ok s q" "q \<noteq> p" "q \<noteq> pgdir" using q(1) pg fp by (auto simp: free_pages_def)
      then show "V2P q + PGSIZE \<le> V2P p \<or> V2P p + PGSIZE \<le> V2P q" "V2P q + PGSIZE \<le> V2P pgdir \<or> V2P pgdir + PGSIZE \<le> V2P q"
        using page_ok_apart [of s q] pg(1,2) by blast+
    qed
    then have "ram t a = fill 0 (ram s) (V2P p) PGSIZE a" "fill 0 (ram s) (V2P p) PGSIZE a = ram s a"
      using q D(1) unfolding t(1) by (auto intro!: wr32_out simp: PGSIZE_def)
    then show "ram t a = ram (s\<lparr>freelist := rd32 (ram s) (V2P p)\<rparr>) a" by simp
  qed (use t in simp_all)
  moreover have "page_ok t (tab t pgdir d) \<and> tab t pgdir d \<noteq> pgdir \<and> tab t pgdir d \<notin> set ps" if "d < 1024" "present (pde t pgdir d)" for d
    using that pg tD tb [of d] p [of d] pt_okD [OF ok, of d] by (cases "d = D") (auto simp: pok)
  moreover have "tab t pgdir d \<noteq> tab t pgdir e" if "d < 1024" "e < 1024" "d \<noteq> e" "present (pde t pgdir d)" "present (pde t pgdir e)" for d e
  proof -
    have old: "tab s pgdir x \<noteq> p" if "x < 1024" "x \<noteq> D" "present (pde t pgdir x)" for x
      using pt_okD(3) [OF ok, of x] that p [of x] by auto
    show ?thesis
      using that tD tb [of d] tb [of e] p [of d] p [of e] old [of d] old [of e] pt_okD(4) [OF ok that(1) _ that(2)]
      by (cases "d = D"; cases "e = D") auto
  qed
  ultimately show "pt_ok t pgdir ps" using pg by (simp add: pt_ok_def pok)
  show "pte t pgdir d e = pte s pgdir d e" if de: "d < 1024" "e < 1024"
  proof (cases "d = D")
    case True
    have "rd32 (ram t) (V2P p + 4 * e) = rd32 (fill 0 (ram s) (V2P p) PGSIZE) (V2P p + 4 * e)"
      using apart de D(1) by (auto simp: t(1) PGSIZE_def)
    also have "\<dots> = 0" using de by (intro rd32_fill_0) (simp_all add: PGSIZE_def)
    finally show ?thesis using True D pr tD by (simp add: pte_def)
  next
    case False
    show ?thesis
    proof (cases "present (pde s pgdir d)")
      case True
      note T = pt_okD [OF ok de(1) True]
      have "V2P (tab s pgdir d) + PGSIZE \<le> V2P p \<or> V2P p + PGSIZE \<le> V2P (tab s pgdir d)"
        "V2P (tab s pgdir d) + PGSIZE \<le> V2P pgdir \<or> V2P pgdir + PGSIZE \<le> V2P (tab s pgdir d)"
      proof -
        have "tab s pgdir d \<noteq> p" using T(3) by simp
        then show "V2P (tab s pgdir d) + PGSIZE \<le> V2P p \<or> V2P p + PGSIZE \<le> V2P (tab s pgdir d)"
          "V2P (tab s pgdir d) + PGSIZE \<le> V2P pgdir \<or> V2P pgdir + PGSIZE \<le> V2P (tab s pgdir d)"
          using page_ok_apart [OF T(1)] T(2) pg(1,2) by blast+
      qed
      then have "rd32 (ram t) (V2P (tab s pgdir d) + 4 * e) = rd32 (ram s) (V2P (tab s pgdir d) + 4 * e)"
        using de D(1) by (intro rd) (auto simp: PGSIZE_def)
      then show ?thesis using True False p [OF de(1)] tb de by (simp add: pte_def)
    qed (use False p [OF de(1)] in \<open>simp add: pte_def\<close>)
  qed
qed

text \<open>The pages that hold the tables of a directory, and that a change leaves the bytes of a page alone.\<close>

definition own_pages :: "'a ksys_scheme \<Rightarrow> nat \<Rightarrow> nat set" where
  "own_pages s pgdir = insert pgdir (tab s pgdir ` {d. d < 1024 \<and> present (pde s pgdir d)})"

definition page_same :: "'a ksys_scheme \<Rightarrow> 'a ksys_scheme \<Rightarrow> nat \<Rightarrow> bool" where
  "page_same s t q \<longleftrightarrow> (\<forall>a. V2P q \<le> a \<and> a < V2P q + PGSIZE \<longrightarrow> ram t a = ram s a)"

lemma page_same_trans: "page_same s t q \<Longrightarrow> page_same t u q \<Longrightarrow> page_same s u q"
  by (simp add: page_same_def)

lemma page_same_wr32:
  assumes "page_ok s q" "page_ok s r" "q \<noteq> r" "d < 1024"
  shows "page_same s (s\<lparr>ram := wr32 (ram s) (V2P r + 4 * d) x\<rparr>) q"
  using page_ok_apart [OF assms(1-3)] assms(4) by (auto simp: page_same_def PGSIZE_def intro!: wr32_out)

lemma page_same_fill:
  assumes "page_ok s q" "page_ok s r" "q \<noteq> r"
  shows "page_same s (s\<lparr>ram := fill b (ram s) (V2P r) PGSIZE\<rparr>) q"
  using page_ok_apart [OF assms] by (auto simp: page_same_def)

text \<open>
  The rights of a process that runs in user mode: the processor demands \<open>PTE_P\<close> and \<open>PTE_U\<close>, and \<open>PTE_W\<close> for a write, of the
  entry in the directory and of the entry in the page table.
\<close>

definition opens :: "bool \<Rightarrow> nat \<Rightarrow> bool" where
  "opens w e \<longleftrightarrow> present e \<and> e AND PTE_U \<noteq> 0 \<and> (w \<longrightarrow> e AND PTE_W \<noteq> 0)"

definition user_access :: "bool \<Rightarrow> mem \<Rightarrow> nat \<Rightarrow> nat \<Rightarrow> nat option" where
  "user_access w m pgdir va =
     (let pde = rd32 m (V2P pgdir + 4 * PDX va)
      in if \<not> opens w pde then None
         else
           let pte = rd32 m (PTE_ADDR pde + 4 * PTX va)
           in if \<not> opens w pte then None else Some (PTE_ADDR pte + va mod PGSIZE))"

lemma not_opens_0 [simp]: "\<not> opens w 0"
  by (simp add: opens_def)

lemma opens_present: "opens w e \<Longrightarrow> present e"
  by (simp add: opens_def)

lemma opens_or: "opens w (x OR (PTE_W OR PTE_U OR PTE_P))"
proof -
  have "present (x OR (PTE_W OR PTE_U OR PTE_P))" using present_or [of "x OR (PTE_W OR PTE_U)"] by (simp only: or.assoc)
  moreover have "(x OR (PTE_W OR PTE_U OR PTE_P)) AND y = (x AND y) OR ((PTE_W OR PTE_U OR PTE_P) AND y)" for y
    by (rule bit_eqI) (auto simp: bit_and_iff bit_or_iff)
  then have "(x OR (PTE_W OR PTE_U OR PTE_P)) AND PTE_U \<noteq> 0" "(x OR (PTE_W OR PTE_U OR PTE_P)) AND PTE_W \<noteq> 0"
    by (simp_all add: PTE_W_def PTE_U_def PTE_P_def or_eq_0_iff)
  ultimately show ?thesis by (simp add: opens_def)
qed

lemma user_access_pte:
  "user_access w (ram s) pgdir va =
     (if opens w (pde s pgdir (PDX va)) \<and> opens w (pte s pgdir (PDX va) (PTX va))
      then Some (PTE_ADDR (pte s pgdir (PDX va) (PTX va)) + va mod PGSIZE) else None)"
  by (auto simp: user_access_def pte_def pde_def [symmetric] tab_V2P Let_def dest: opens_present)

text \<open>What a process may touch is translated as for the kernel.\<close>

lemma user_access_translate:
  "va < KERNBASE \<Longrightarrow> user_access w (ram s) pgdir va = Some a \<Longrightarrow> translate (ram s) pgdir va = Some a"
  by (auto simp: user_access_pte translate_pte dest: opens_present split: if_splits)

text \<open>
  A walk that may allocate: the entry exists afterwards, only the memory of the tables and of a page from the
  free list has changed, and a new entry of the directory lets the process in.
\<close>

definition tables_grow :: "'a ksys_scheme \<Rightarrow> 'a ksys_scheme \<Rightarrow> nat \<Rightarrow> nat list \<Rightarrow> bool" where
  "tables_grow s t pgdir ps \<longleftrightarrow> (\<exists>m f. t = s\<lparr>ram := m, freelist := f\<rparr>)
     \<and> (\<exists>qs. pt_ok t pgdir qs \<and> set qs \<subseteq> set ps) \<and> own_pages t pgdir \<subseteq> own_pages s pgdir \<union> set ps
     \<and> (\<forall>q. page_ok s q \<longrightarrow> q \<notin> own_pages s pgdir \<longrightarrow> q \<notin> set ps \<longrightarrow> page_same s t q)
     \<and> (\<forall>d < 1024. pde t pgdir d = pde s pgdir d \<or> \<not> present (pde s pgdir d) \<and> (\<forall>w. opens w (pde t pgdir d)))"

lemma walk_ok:
  assumes ok: "pt_ok s pgdir (p # ps)" and lk: "use_lock s \<Longrightarrow> LKmem \<notin> held s"
  shows "\<exists>t. walkpgdir pgdir va True s = Ok (tab t pgdir (PDX va) + 4 * PTX va, t) \<and> tables_grow s t pgdir (p # ps)
     \<and> present (pde t pgdir (PDX va)) \<and> (\<forall>d < 1024. \<forall>e < 1024. pte t pgdir d e = pte s pgdir d e)"
proof (cases "present (pde s pgdir (PDX va))")
  case True
  have "page_ok s pgdir" using ok by (simp add: pt_ok_def)
  from walk_present [OF this True] show ?thesis using ok True
    by (intro exI [of _ s]) (auto simp: tables_grow_def page_same_def intro!: exI [of _ "ram s"] exI [of _ "freelist s"] exI [of _ "p # ps"])
next
  case False
  let ?D = "PDX va"
  let ?s1 = "s\<lparr>freelist := rd32 (ram s) (V2P p), ram := fill 0 (ram s) (V2P p) PGSIZE\<rparr>"
  let ?f = "PTE_W OR PTE_U"
  let ?t = "?s1\<lparr>ram := wr32 (fill 0 (ram s) (V2P p) PGSIZE) (V2P pgdir + 4 * ?D) (V2P p OR (?f OR PTE_P))\<rparr>"
  have pg: "page_ok s pgdir" "free_pages s (p # ps)" "page_ok s p" using ok by (simp_all add: pt_ok_def free_pages_def)
  have p0: "p \<noteq> 0" using pg(2) page_ok_pos [of s p] by (simp add: free_pages_def)
  have k: "kalloc s = Ok (p, s\<lparr>freelist := rd32 (ram s) (V2P p)\<rparr>)" using kalloc_pop(1) [OF pg(2) lk] by simp
  have z: "kmemset p 0 PGSIZE (s\<lparr>freelist := rd32 (ram s) (V2P p)\<rparr>) = ?s1"
    by (simp add: kmemset_def memset_fill u32_of_def)
  have "page_ok ?s1 pgdir" using pg(1) by (simp add: page_ok_def)
  note w = kread_dir(2) [OF this PDX_less]
  have or3: "V2P p OR PTE_P OR PTE_W OR PTE_U = V2P p OR (?f OR PTE_P)" by (simp only: or.assoc or.commute or.left_commute)
  have pd: "kread32 (pgdir + 4 * ?D) s = pde s pgdir ?D" using kread_dir(1) [OF pg(1) PDX_less] by (simp add: pde_def)
  have e: "walkpgdir pgdir va True s = Ok (p + 4 * PTX va, ?t)"
    using False p0 by (simp add: walkpgdir_def pd k z w or3)
  have "?f < 4096" by (rule or_less_4096) (simp_all add: PTE_W_def PTE_U_def)
  note T = table_added [OF ok PDX_less False this, of ?t, simplified]
  have "page_same s ?t q" if "page_ok s q" "q \<notin> own_pages s pgdir" "q \<notin> set (p # ps)" for q
  proof -
    have "page_same s (s\<lparr>ram := fill 0 (ram s) (V2P p) PGSIZE\<rparr>) q" using that pg(3) by (intro page_same_fill) auto
    moreover have "page_same ?s1 ?t q"
      using page_same_wr32 [of ?s1 q pgdir ?D "V2P p OR (?f OR PTE_P)"] that pg(1) by (simp add: own_pages_def page_ok_def)
    ultimately show ?thesis by (simp add: page_same_def)
  qed
  moreover have "own_pages ?t pgdir \<subseteq> own_pages s pgdir \<union> set (p # ps)"
  proof -
    have "tab ?t pgdir d = p \<or> tab ?t pgdir d \<in> own_pages s pgdir" if "d < 1024" "present (pde ?t pgdir d)" for d
      using T(3,5) that by (cases "d = ?D") (auto simp: own_pages_def tab_def)
    then show ?thesis by (auto simp: own_pages_def)
  qed
  moreover have "pde ?t pgdir d = pde s pgdir d \<or> \<not> present (pde s pgdir d) \<and> (\<forall>w. opens w (pde ?t pgdir d))" if "d < 1024" for d
    using T(5) [OF that] T(6) False opens_or [of _ "V2P p"] by (cases "d = ?D") (simp_all add: or.assoc)
  ultimately have "tables_grow s ?t pgdir (p # ps)"
    unfolding tables_grow_def using T(1) by (intro conjI exI [of _ ps]) (auto intro!: exI [of _ "ram ?t"] exI [of _ "freelist ?t"])
  then show ?thesis
    using T e by (intro exI [of _ ?t]) simp
qed

lemma tables_grow_write:
  assumes g: "tables_grow s t pgdir ps" and ok: "pt_ok t pgdir qs" and D: "present (pde t pgdir (PDX va))" and v: "v < u32_mod"
  shows "tables_grow s (t\<lparr>ram := wr32 (ram t) (V2P (tab t pgdir (PDX va)) + 4 * PTX va) v\<rparr>) pgdir ps"
proof -
  let ?u = "t\<lparr>ram := wr32 (ram t) (V2P (tab t pgdir (PDX va)) + 4 * PTX va) v\<rparr>"
  obtain m f rs where g': "t = s\<lparr>ram := m, freelist := f\<rparr>" "pt_ok t pgdir rs" "set rs \<subseteq> set ps" "own_pages t pgdir \<subseteq> own_pages s pgdir \<union> set ps"
    using g by (auto simp: tables_grow_def)
  note W = pte_write [OF g'(2) PDX_less D PTX_less [of va] v, of ?u, simplified]
  have "own_pages ?u pgdir = own_pages t pgdir" using W(2) by (auto simp: own_pages_def tab_def)
  moreover have "page_same s ?u q" if q: "page_ok s q" "q \<notin> own_pages s pgdir" "q \<notin> set ps" for q
  proof -
    have "page_ok t q" using q(1) g'(1) by (simp add: page_ok_def)
    moreover have "tab t pgdir (PDX va) \<in> own_pages t pgdir" using D by (simp add: own_pages_def)
    then have "q \<noteq> tab t pgdir (PDX va)" using q g'(4) by auto
    ultimately have "page_same t ?u q" using pt_okD(1) [OF ok PDX_less D] by (intro page_same_wr32) simp_all
    moreover have "page_same s t q" using g q by (simp add: tables_grow_def)
    ultimately show ?thesis by (rule page_same_trans [rotated])
  qed
  moreover have "?u = s\<lparr>ram := ram ?u, freelist := f\<rparr>" using g'(1) by simp
  moreover have "\<forall>d < 1024. pde ?u pgdir d = pde s pgdir d \<or> \<not> present (pde s pgdir d) \<and> (\<forall>w. opens w (pde ?u pgdir d))"
    using g W(2) by (simp add: tables_grow_def)
  ultimately show ?thesis using W(1) g'(3,4) unfolding tables_grow_def by blast
qed

text \<open>The loop of \<open>mappages\<close> has one turn for one page.\<close>

lemma one_page:
  assumes "va < KERNBASE" "va mod PGSIZE = 0"
  shows "PGROUNDDOWN va = va" "PGROUNDDOWN (sub32 (wrap32 (va + PGSIZE)) 1) = va" "sub32 va va = 0"
proof -
  show "PGROUNDDOWN va = va" using assms(2) by (auto simp: PGROUNDDOWN_def PGSIZE_def)
  have "sub32 (wrap32 (va + PGSIZE)) 1 = va + 4095" using assms(1) by (simp add: KERNBASE_def PGSIZE_def sub32_le)
  then show "PGROUNDDOWN (sub32 (wrap32 (va + PGSIZE)) 1) = va"
    using same_page [OF assms(2), of 4095] assms(2) by (auto simp: PGROUNDDOWN_def PGSIZE_def)
  show "sub32 va va = 0" using assms(1) by (simp add: KERNBASE_def)
qed

text \<open>Translation by the new entry, and by the others.\<close>

lemma mappages_ok:
  assumes "pt_ok s pgdir (p # ps)" "use_lock s \<longrightarrow> LKmem \<notin> held s"
    and "va < KERNBASE" "va mod PGSIZE = 0" "pa < u32_mod" "pa mod PGSIZE = 0" "perm < 4096" "translate (ram s) pgdir va = None"
  shows "\<exists>t. mappages pgdir va PGSIZE pa perm s = Ok (0, t) \<and> tables_grow s t pgdir (p # ps)
     \<and> (\<forall>d < 1024. \<forall>e < 1024. pte t pgdir d e = (if d = PDX va \<and> e = PTX va then pa OR (perm OR PTE_P) else pte s pgdir d e))"
proof -
  let ?D = "PDX va" and ?E = "PTX va" and ?v = "pa OR (perm OR PTE_P)"
  obtain t where w: "walkpgdir pgdir va True s = Ok (tab t pgdir ?D + 4 * ?E, t)" and g: "tables_grow s t pgdir (p # ps)"
    and t: "present (pde t pgdir ?D)" "\<forall>d < 1024. \<forall>e < 1024. pte t pgdir d e = pte s pgdir d e"
    using walk_ok [OF assms(1), of va] assms(2) by blast
  obtain qs where qs: "pt_ok t pgdir qs" using g by (auto simp: tables_grow_def)
  note T = pt_okD [OF qs PDX_less t(1)]
  note rw = kread_dir [OF T(1) PTX_less]
  have fl: "perm OR PTE_P < 4096" by (rule or_less_4096 [OF assms(7)]) (simp add: PTE_P_def)
  obtain q where "pa = 4096 * q" using assms(6) by (auto simp: PGSIZE_def)
  then have "pa + 4096 \<le> u32_mod" using assms(5) by simp
  then have vl: "?v < u32_mod" using pte_make(1) [OF assms(6) fl] fl by simp
  let ?u = "t\<lparr>ram := wr32 (ram t) (V2P (tab t pgdir ?D) + 4 * ?E) ?v\<rparr>"
  have "\<not> present (pte t pgdir ?D ?E)"
    using assms(8) t(2) translate_pte [OF assms(3), of s pgdir] by (auto split: if_splits)
  moreover have "rd32 (ram t) (V2P (tab t pgdir ?D) + 4 * ?E) = pte t pgdir ?D ?E" using t(1) by (simp add: pte_def)
  moreover have "tab t pgdir ?D + 4 * ?E \<noteq> 0" using page_ok_pos [OF T(1)] by simp
  moreover have "pa OR perm OR PTE_P = ?v" by (simp only: or.assoc)
  ultimately have "mappages pgdir va PGSIZE pa perm s = Ok (0, ?u)"
    using one_page [OF assms(3,4)] by (simp add: mappages_def Let_def mappages_from.simps [of 0] w rw)
  moreover have "\<forall>d < 1024. \<forall>e < 1024. pte ?u pgdir d e = (if d = ?D \<and> e = ?E then ?v else pte s pgdir d e)"
    using pte_write(3) [OF qs PDX_less t(1) PTX_less vl, of ?u] t(2) by simp
  ultimately show ?thesis using tables_grow_write [OF g qs t(1) vl] by blast
qed

lemma translate_hit:
  assumes va: "va < KERNBASE" "va mod PGSIZE = 0" and pa: "pa mod PGSIZE = 0" and perm: "perm < 4096" and d: "d < PGSIZE"
    and e: "pte t pgdir (PDX va) (PTX va) = pa OR (perm OR PTE_P)"
  shows "va + d < KERNBASE" "translate (ram t) pgdir (va + d) = Some (pa + d)"
proof -
  have fl: "perm OR PTE_P < 4096" by (rule or_less_4096 [OF perm]) (simp add: PTE_P_def)
  obtain q where q: "va = 4096 * q" using va(2) by (auto simp: PGSIZE_def)
  have "q < 524288" using va(1) unfolding q KERNBASE_def by simp
  then show lt: "va + d < KERNBASE" using d unfolding q KERNBASE_def PGSIZE_def by linarith
  have ix: "PDX (va + d) = PDX va" "PTX (va + d) = PTX va"
    using page_index_eq [OF lt va(1)] same_page [OF va(2) d] by simp_all
  have "present (pa OR (perm OR PTE_P))" using present_or [of "pa OR perm"] by (simp only: or.assoc)
  then show "translate (ram t) pgdir (va + d) = Some (pa + d)"
    using translate_pte [OF lt, of t pgdir] pte_make(2) [OF pa fl] same_page [OF va(2) d] by (simp add: ix e)
qed

lemma translate_miss:
  assumes "v < KERNBASE" "va < KERNBASE" "v div PGSIZE \<noteq> va div PGSIZE"
    and "\<forall>d < 1024. \<forall>e < 1024. pte t pgdir d e = (if d = PDX va \<and> e = PTX va then x else pte s pgdir d e)"
  shows "translate (ram t) pgdir v = translate (ram s) pgdir v"
proof -
  have "\<not> (PDX v = PDX va \<and> PTX v = PTX va)" using page_index_eq [OF assms(1,2)] assms(3) by simp
  then have "pte t pgdir (PDX v) (PTX v) = pte s pgdir (PDX v) (PTX v)"
    using assms(4) [rule_format, OF PDX_less PTX_less, of v v] by (simp only: if_False)
  then show ?thesis using translate_pte [OF assms(1), of t pgdir] translate_pte [OF assms(1), of s pgdir] by simp
qed

text \<open>
  C10: Mapping a page adds exactly one translation. If the address was not mapped and a page is free for the
  page table that may be missing, \<open>mappages\<close> succeeds; afterwards every address of the page translates to
  the address with the same offset in the frame, every other user address translates as before, and the
  directory is well formed again.
\<close>

theorem mappages_adds_translation:
  assumes "pt_ok s pgdir (p # ps)" "use_lock s \<longrightarrow> LKmem \<notin> held s"
    and "va < KERNBASE" "va mod PGSIZE = 0" "pa < u32_mod" "pa mod PGSIZE = 0" "perm < 4096" "translate (ram s) pgdir va = None"
  shows "okP (mappages pgdir va PGSIZE pa perm s) (\<lambda>(r, t). r = 0 \<and> (\<exists>qs. pt_ok t pgdir qs)
     \<and> (\<forall>d < PGSIZE. translate (ram t) pgdir (va + d) = Some (pa + d))
     \<and> (\<forall>v < KERNBASE. v div PGSIZE \<noteq> va div PGSIZE \<longrightarrow> translate (ram t) pgdir v = translate (ram s) pgdir v))"
proof -
  obtain t where t: "mappages pgdir va PGSIZE pa perm s = Ok (0, t)" "tables_grow s t pgdir (p # ps)"
    "\<forall>d < 1024. \<forall>e < 1024. pte t pgdir d e = (if d = PDX va \<and> e = PTX va then pa OR (perm OR PTE_P) else pte s pgdir d e)"
    using mappages_ok [OF assms] by blast
  have e: "pte t pgdir (PDX va) (PTX va) = pa OR (perm OR PTE_P)" using t(3) by simp
  have "\<exists>qs. pt_ok t pgdir qs" using t(2) by (auto simp: tables_grow_def)
  moreover have "translate (ram t) pgdir (va + d) = Some (pa + d)" if "d < PGSIZE" for d
    by (rule translate_hit(2) [OF assms(3,4,6,7) that e])
  moreover have "translate (ram t) pgdir v = translate (ram s) pgdir v" if "v < KERNBASE" "v div PGSIZE \<noteq> va div PGSIZE" for v
    by (rule translate_miss [OF that(1) assms(3) that(2) t(3)])
  ultimately show ?thesis unfolding t(1) okP.simps case_prod_conv by blast
qed

text \<open>The demo machine with a free page; the page table for the address 4194304 is missing.\<close>

definition demo_vm :: trapk where
  "demo_vm = (demo blank)\<lparr>kend := KERNBASE + 4096, freelist := KERNBASE + 65536\<rparr>"

lemma demo_pde: "d < 1024 \<Longrightarrow> pde demo_vm (KERNBASE + 4096) d = (if d = 0 then 8199 else 0)"
proof -
  assume d: "d < 1024"
  have v: "V2P (KERNBASE + 4096) = 4096" by (simp add: V2P_def KERNBASE_def sub32_def)
  show ?thesis
  proof (cases "d = 0")
    case True
    then show ?thesis by (simp add: pde_def demo_vm_def v demo_ram_def)
  next
    case False
    then have "rd32 demo_ram (4096 + 4 * d) = 0" using d by (simp add: demo_ram_def rd32_def wr32_out)
    then show ?thesis using False by (simp add: pde_def demo_vm_def v)
  qed
qed

lemma demo_pt_ok: "pt_ok demo_vm (KERNBASE + 4096) [KERNBASE + 65536]"
proof -
  have p: "page_ok demo_vm (KERNBASE + 4096)" "page_ok demo_vm (KERNBASE + 65536)" "page_ok demo_vm (KERNBASE + 8192)"
    by (simp_all add: page_ok_def demo_vm_def V2P_def sub32_def layout_simps)
  have "V2P (KERNBASE + 65536) = 65536" by (simp add: V2P_def KERNBASE_def sub32_def)
  then have f: "free_pages demo_vm [KERNBASE + 65536]" using p(2)
    by (simp add: free_pages_def) (simp add: demo_vm_def demo_ram_def rd32_def wr32_out)
  have t: "tab demo_vm (KERNBASE + 4096) 0 = KERNBASE + 8192"
    using demo_pde [of 0] by (simp add: tab_def PTE_ADDR_def P2V_def) (simp add: KERNBASE_def)
  have z: "d = 0" if "d < 1024" "present (pde demo_vm (KERNBASE + 4096) d)" for d
    using that demo_pde [of d] by (cases "d = 0") auto
  have "page_ok demo_vm (tab demo_vm (KERNBASE + 4096) d) \<and> tab demo_vm (KERNBASE + 4096) d \<noteq> KERNBASE + 4096 \<and>
      tab demo_vm (KERNBASE + 4096) d \<notin> set [KERNBASE + 65536]" if "d < 1024" "present (pde demo_vm (KERNBASE + 4096) d)" for d
    using p(3) t z [OF that] by simp
  moreover have "d = e" if "d < 1024" "e < 1024" "present (pde demo_vm (KERNBASE + 4096) d)" "present (pde demo_vm (KERNBASE + 4096) e)" for d e
    using z [OF that(1,3)] z [OF that(2,4)] by simp
  ultimately show ?thesis using p(1) f unfolding pt_ok_def by (auto simp: KERNBASE_def)
qed

lemma mappages_adds_translation_witness:
  "okP (mappages (KERNBASE + 4096) 4194304 PGSIZE 20480 6 demo_vm) (\<lambda>(r, t). r = 0
     \<and> translate (ram t) (KERNBASE + 4096) 4194309 = Some 20485 \<and> translate (ram t) (KERNBASE + 4096) 5 = Some 12293)"
proof -
  have h: "held demo_vm = {}" and r: "ram demo_vm = demo_ram" by (simp_all add: demo_vm_def)
  have none: "translate (ram demo_vm) (KERNBASE + 4096) 4194304 = None"
    using translate_pte [of 4194304 demo_vm "KERNBASE + 4096"] demo_pde [of 1] by (simp add: pte_def PDX_div KERNBASE_def)
  note w = mappages_adds_translation [OF demo_pt_ok _ _ _ _ _ _ none, of 20480 6]
  have "translate (ram demo_vm) (KERNBASE + 4096) 5 = Some 12293" using translate_demo [of 5] r by simp
  then show ?thesis
    by (intro okP_mono [OF w])
      (auto simp: h KERNBASE_def PGSIZE_def dest!: spec [of _ 5])
qed

end
