(* ===== verification/Lazy.thy ===== *)
theory Lazy
  imports VmSpec
begin

text \<open>
  Lab 6: user memory that \<open>sbrk\<close> promises and the page fault handler supplies (\<open>160050097_lab6/q2\<close>: \<open>trap.c\<close>,
  \<open>sysproc.c\<close>), and the system calls that look addresses up (\<open>160050097_lab6/q1\<close>: \<open>proc.c\<close>, \<open>sysproc.c\<close>). The rest of
  these kernels agrees with the one modelled in the other theories.
\<close>

section \<open>The program\<close>

definition T_PGFLT :: nat where "T_PGFLT = 14"

text \<open>
  The case \<open>T_PGFLT\<close> of \<open>trap\<close> for an address below the size of the process. Without memory it goes on with the
  null pointer: \<open>memset\<close> clears the first page of user memory (\<open>uput\<close> ends in a panic where that is not mapped; the
  code faults again until its stack overflows).
\<close>

definition page_fault :: "nat \<Rightarrow> 'a vmk_scheme \<Rightarrow> 'a vmk_scheme res" where
  "page_fault cr2 s =
     (let temp = PGROUNDDOWN cr2
      in bindr (kalloc s) (\<lambda>(mem, s).
         bindr (if mem = 0 then cprintf (chars ''allocuvm out of memory'' @ [10]) [] s else Ok s) (\<lambda>s.
         bindr (if mem = 0 then uput 0 (replicate PGSIZE 0) s else Ok (kmemset mem 0 PGSIZE s)) (\<lambda>s.
         bindr (mappages (p_pgdir (myproc s)) temp PGSIZE (V2P mem) (PTE_W OR PTE_U) s) (\<lambda>(r, s).
         if r < 0
         then bindr (cprintf (chars ''allocuvm out of memory (2)'' @ [10]) [] s) (kfree mem)
         else Ok s)))))"

text \<open>The \<open>switch\<close> of \<open>trap\<close> with this case: other traps and other page faults go the way they went before.\<close>

definition lazy_dispatch :: "trapenv \<Rightarrow> trapframe \<Rightarrow> 'a trapk_scheme \<Rightarrow> 'a trapk_scheme res" where
  "lazy_dispatch env tf s =
     (if tf_trapno tf = T_PGFLT \<and> te_cr2 env < p_sz (myproc s) then page_fault (te_cr2 env) s else trap_dispatch env tf s)"

text \<open>\<open>trap\<close> after the case of a system call.\<close>

definition lazy_trap :: "trapenv \<Rightarrow> trapframe \<Rightarrow> 'a trapk_scheme \<Rightarrow> (trapout \<times> 'a trapk_scheme) res" where
  "lazy_trap env tf s =
     bindr (lazy_dispatch env tf s) (\<lambda>s.
     if cur_killed s \<and> tf_cs tf AND 3 = DPL_USER then do_exit s
     else if cur s \<noteq> None \<and> p_state (myproc s) = RUNNING \<and> tf_trapno tf = T_IRQ0 + IRQ_TIMER
     then bindr (yield_enter s) (\<lambda>s. Ok (Yields, s))
     else Ok (Returns, s))"

text \<open>\<open>sys_sbrk\<close>: only the size changes.\<close>

definition lazy_sbrk :: "'a vmk_scheme \<Rightarrow> (int \<times> 'a vmk_scheme) res" where
  "lazy_sbrk s =
     with_arg (argint 0 s) (\<lambda>n.
       let s = upd_proc (the (cur s)) (\<lambda>x. x\<lparr>p_sz := u32_of (int (p_sz x) + n)\<rparr>) s;
           addr = s32 (p_sz (myproc s))
       in Ok (s32 (u32_of (addr - n)), s)) s"

text \<open>\<open>get_va_to_pa\<close> stores through pointers of the user without checking them.\<close>

definition get_va_to_pa :: "nat \<Rightarrow> nat \<Rightarrow> nat \<Rightarrow> 'a ksys_scheme \<Rightarrow> (int \<times> 'a ksys_scheme) res" where
  "get_va_to_pa va pa flag s =
     bindr (walkpgdir (p_pgdir (myproc s)) va False s) (\<lambda>(wpg, s).
     if wpg = 0 \<or> \<not> present (kread32 wpg s) then Ok (0, s)
     else
       bindr (uput pa (word_bytes (PTE_ADDR (kread32 wpg s) OR (va AND 4095))) s) (\<lambda>s.
       bindr (uput flag (word_bytes (PTE_FLAGS (kread32 wpg s))) s) (\<lambda>s.
       Ok (1, s))))"

definition sys_get_va_to_pa :: "'a ksys_scheme \<Rightarrow> (int \<times> 'a ksys_scheme) res" where
  "sys_get_va_to_pa s =
     with_arg (argint 0 s) (\<lambda>va. with_arg (argint 1 s) (\<lambda>pa. with_arg (argint 2 s) (\<lambda>flag.
       get_va_to_pa (u32_of va) (u32_of pa) (u32_of flag) s) s) s) s"

definition sys_getpsz :: "'a ksys_scheme \<Rightarrow> (int \<times> 'a ksys_scheme) res" where
  "sys_getpsz s = Ok (s32 (p_sz (myproc s)), s)"

end
