(* ===== verification/LazySpec.thy ===== *)
theory LazySpec
  imports Lazy
begin

text \<open>
  Lazy allocation is invisible to the process: a page fault changes neither the memory it sees nor its size, and
  afterwards the access succeeds. And the lookup of an address agrees with the translation by the processor.
\<close>

section \<open>The memory of a process\<close>

text \<open>
  A directory in order whose user pages are frames of their own, apart from its tables and the free list. The page tables
  are open to the process, as \<open>walkpgdir\<close> makes them; it is the entries in them that may keep it out.
\<close>

definition frame_of :: "'a ksys_scheme \<Rightarrow> nat \<Rightarrow> nat \<Rightarrow> nat \<Rightarrow> nat" where
  "frame_of s pgdir d e = P2V (PTE_ADDR (pte s pgdir d e))"

definition space_ok :: "'a ksys_scheme \<Rightarrow> nat \<Rightarrow> nat list \<Rightarrow> bool" where
  "space_ok s pgdir ps \<longleftrightarrow> pt_ok s pgdir ps \<and> (\<forall>d < 512. \<forall>e < 1024. present (pte s pgdir d e) \<longrightarrow>
     page_ok s (frame_of s pgdir d e) \<and> frame_of s pgdir d e \<notin> own_pages s pgdir \<and> frame_of s pgdir d e \<notin> set ps)
     \<and> (\<forall>d < 512. present (pde s pgdir d) \<longrightarrow> (\<forall>w. opens w (pde s pgdir d)))"

text \<open>
  The byte at a user address, and what the process has been promised for a read (\<open>w\<close> is \<open>False\<close>) or a write: zero where
  nothing is mapped yet, the byte of a page that it may touch, and no byte where a mapped page keeps it out or
  beyond its size.
\<close>

definition ubyte :: "'a ksys_scheme \<Rightarrow> nat \<Rightarrow> nat \<Rightarrow> byte option" where
  "ubyte s pgdir v = map_option (ram s) (translate (ram s) pgdir v)"

definition lazy_view :: "bool \<Rightarrow> 'a ksys_scheme \<Rightarrow> nat \<Rightarrow> nat \<Rightarrow> nat \<Rightarrow> byte option" where
  "lazy_view w s pgdir sz v =
     (if sz \<le> v then None
      else if translate (ram s) pgdir v = None then Some 0
      else map_option (ram s) (user_access w (ram s) pgdir v))"

lemma user_PDX: "v < KERNBASE \<Longrightarrow> PDX v < 512"
proof -
  assume "v < KERNBASE"
  then have "v div 4194304 < 512" by (simp add: KERNBASE_def less_mult_imp_div_less)
  then show ?thesis by (simp add: PDX_div)
qed

lemma translate_frame:
  assumes "space_ok s pgdir ps" "v < KERNBASE" "translate (ram s) pgdir v = Some a"
  shows "\<exists>q. page_ok s q \<and> q \<notin> own_pages s pgdir \<and> q \<notin> set ps \<and> a = V2P q + v mod PGSIZE"
proof -
  let ?x = "pte s pgdir (PDX v) (PTX v)"
  have x: "present ?x" "a = PTE_ADDR ?x + v mod PGSIZE" using assms(2,3) by (auto simp: translate_pte split: if_splits)
  have "?x < u32_mod" by (simp add: pte_def rd32_less)
  then have "V2P (frame_of s pgdir (PDX v) (PTX v)) = PTE_ADDR ?x" by (simp add: frame_of_def V2P_P2V PTE_ADDR_less)
  then show ?thesis using assms(1) x user_PDX [OF assms(2)] PTX_less [of v] unfolding space_ok_def by metis
qed

text \<open>Taking a page from the free list and clearing it.\<close>

lemma page_taken:
  assumes ok: "pt_ok s pgdir (m # ps)"
    and t: "ram t = fill 0 (ram s) (V2P m) PGSIZE" "freelist t = rd32 (ram s) (V2P m)" "kend t = kend s"
  shows "pt_ok t pgdir ps" "d < 1024 \<Longrightarrow> e < 1024 \<Longrightarrow> pte t pgdir d e = pte s pgdir d e" "own_pages t pgdir = own_pages s pgdir"
    "d < 1024 \<Longrightarrow> pde t pgdir d = pde s pgdir d"
proof -
  have pg: "page_ok s pgdir" "page_ok s m" "pgdir \<noteq> m" and fp: "free_pages s (m # ps)"
    using ok by (auto simp: pt_ok_def free_pages_def)
  have pok: "page_ok t = page_ok s" by (rule page_ok_cong) (rule t(3))
  have rd: "rd32 (ram t) (V2P q + 4 * e) = rd32 (ram s) (V2P q + 4 * e)" if "page_ok s q" "q \<noteq> m" "e < 1024" for q e
    using page_ok_apart [OF that(1) pg(2) that(2)] that(3) unfolding t(1) by (intro rd32_fill_out) (auto simp: PGSIZE_def)
  show p: "pde t pgdir d = pde s pgdir d" if "d < 1024" for d using rd [OF pg(1,3) that] by (simp add: pde_def)
  have tb: "tab t pgdir d = tab s pgdir d" if "d < 1024" for d using p [OF that] by (simp add: tab_def)
  show "own_pages t pgdir = own_pages s pgdir" using p tb by (auto simp: own_pages_def)
  show "pte t pgdir d e = pte s pgdir d e" if de: "d < 1024" "e < 1024"
  proof (cases "present (pde s pgdir d)")
    case True
    note T = pt_okD [OF ok de(1) True]
    show ?thesis using rd [OF T(1) _ de(2)] T(3) p [OF de(1)] tb [OF de(1)] by (simp add: pte_def)
  qed (simp add: pte_def p [OF de(1)])
  have "free_pages t ps"
  proof (rule free_pages_frame)
    show "free_pages (s\<lparr>freelist := rd32 (ram s) (V2P m)\<rparr>) ps" using fp by (simp add: free_pages_def)
    fix q a assume q: "q \<in> set ps" "V2P q \<le> a" "a < V2P q + PGSIZE"
    have "V2P q + PGSIZE \<le> V2P m \<or> V2P m + PGSIZE \<le> V2P q"
      using q(1) fp by (intro page_ok_apart [of s]) (auto simp: free_pages_def)
    then show "ram t a = ram (s\<lparr>freelist := rd32 (ram s) (V2P m)\<rparr>) a" using q unfolding t(1) by auto
  qed (use t in simp_all)
  then show "pt_ok t pgdir ps" using ok p tb unfolding pt_ok_def pok by auto
qed

text \<open>The state after a page fault at an address of the page \<open>va\<close>, for which the frame \<open>m\<close> was taken.\<close>

lemma same_page_none:
  assumes "v < KERNBASE" "w < KERNBASE" "v div PGSIZE = w div PGSIZE"
  shows "translate (ram s) pgdir v = None \<longleftrightarrow> translate (ram s) pgdir w = None"
  using assms page_index_eq [OF assms(1,2)] by (simp add: translate_pte)

lemma round_down:
  assumes "v < KERNBASE"
  shows "PGROUNDDOWN v < KERNBASE" "PGROUNDDOWN v mod PGSIZE = 0" "PGROUNDDOWN v div PGSIZE = v div PGSIZE"
    "v = PGROUNDDOWN v + v mod PGSIZE"
proof -
  have e: "PGROUNDDOWN v = v div PGSIZE * PGSIZE" by (simp add: PGROUNDDOWN_def)
  show "v = PGROUNDDOWN v + v mod PGSIZE" unfolding e by simp
  then show "PGROUNDDOWN v < KERNBASE" using assms by linarith
  show "PGROUNDDOWN v mod PGSIZE = 0" "PGROUNDDOWN v div PGSIZE = v div PGSIZE" unfolding e by (simp_all add: PGSIZE_def)
qed

text \<open>What a page fault at the unmapped address \<open>cr2\<close> does to the memory.\<close>

lemma page_fault_ok:
  assumes ok: "space_ok s (p_pgdir (myproc s)) (m # p # ps)" and lk: "use_lock s \<longrightarrow> LKmem \<notin> held s"
    and v: "cr2 < KERNBASE" "translate (ram s) (p_pgdir (myproc s)) cr2 = None"
  shows "\<exists>u t. page_fault cr2 s = Ok t \<and> u = s\<lparr>ram := fill 0 (ram s) (V2P m) PGSIZE, freelist := rd32 (ram s) (V2P m)\<rparr>
     \<and> tables_grow u t (p_pgdir (myproc s)) (p # ps)
     \<and> (\<forall>d < 1024. \<forall>e < 1024. pte t (p_pgdir (myproc s)) d e =
          (if d = PDX (PGROUNDDOWN cr2) \<and> e = PTX (PGROUNDDOWN cr2) then V2P m OR (6 OR PTE_P) else pte u (p_pgdir (myproc s)) d e))"
proof -
  let ?pd = "p_pgdir (myproc s)" and ?va = "PGROUNDDOWN cr2"
  let ?u = "s\<lparr>ram := fill 0 (ram s) (V2P m) PGSIZE, freelist := rd32 (ram s) (V2P m)\<rparr>"
  have pt: "pt_ok s ?pd (m # p # ps)" using ok by (simp add: space_ok_def)
  then have fp: "free_pages s (m # p # ps)" and pm: "page_ok s m" by (simp_all add: pt_ok_def free_pages_def)
  have m0: "m \<noteq> 0" using page_ok_pos [OF pm] by simp
  have k: "kalloc s = Ok (m, s\<lparr>freelist := rd32 (ram s) (V2P m)\<rparr>)" using kalloc_pop(1) [OF fp] lk by simp
  have z: "kmemset m 0 PGSIZE (s\<lparr>freelist := rd32 (ram s) (V2P m)\<rparr>) = ?u"
    by (simp add: kmemset_def memset_fill u32_of_def)
  note U = page_taken [OF pt, of ?u, simplified]
  have "translate (ram s) ?pd ?va = None"
    using same_page_none [OF v(1) round_down(1) [OF v(1)], of s ?pd] round_down(3) [OF v(1)] v(2) by simp
  then have none: "translate (ram ?u) ?pd ?va = None"
    using U(2) [OF PDX_less PTX_less] translate_pte [OF round_down(1) [OF v(1)], of ?u ?pd] translate_pte [OF round_down(1) [OF v(1)], of s ?pd]
    by (simp split: if_splits)
  have pa: "V2P m < u32_mod" "V2P m mod PGSIZE = 0" "PTE_W OR PTE_U = 6"
    using page_ok_aligned [OF pm] by (simp_all add: PTE_W_def PTE_U_def V2P_def sub32_def)
  obtain t where t: "mappages ?pd ?va PGSIZE (V2P m) 6 ?u = Ok (0, t)" "tables_grow ?u t ?pd (p # ps)"
    "\<forall>d < 1024. \<forall>e < 1024. pte t ?pd d e = (if d = PDX ?va \<and> e = PTX ?va then V2P m OR (6 OR PTE_P) else pte ?u ?pd d e)"
    using mappages_ok [OF U(1) _ round_down(1,2) [OF v(1)] pa(1,2) _ none, of 6] lk by auto
  have mp: "p_pgdir (myproc ?u) = ?pd" by (simp add: myproc_def)
  have "page_fault cr2 s = Ok t"
    unfolding page_fault_def Let_def k bindr.simps case_prod_conv if_not_P [OF m0] z mp pa(3) t(1) by simp
  then show ?thesis using t(2,3) by blast
qed

text \<open>The address space after the fault is in order, and its bytes are those promised before.\<close>

lemma page_fault_space:
  assumes ok: "space_ok s pd (m # p # ps)" and v: "cr2 < KERNBASE" "translate (ram s) pd cr2 = None"
    and u: "u = s\<lparr>ram := fill 0 (ram s) (V2P m) PGSIZE, freelist := rd32 (ram s) (V2P m)\<rparr>"
    and g: "tables_grow u t pd (p # ps)"
    and e: "\<forall>d < 1024. \<forall>e < 1024. pte t pd d e =
          (if d = PDX (PGROUNDDOWN cr2) \<and> e = PTX (PGROUNDDOWN cr2) then V2P m OR (6 OR PTE_P) else pte u pd d e)"
  shows "\<exists>qs. space_ok t pd qs" "w < KERNBASE \<Longrightarrow> ubyte t pd w = (if w div PGSIZE = cr2 div PGSIZE then Some 0 else ubyte s pd w)"
    "w < KERNBASE \<Longrightarrow> w div PGSIZE = cr2 div PGSIZE \<Longrightarrow> user_access b (ram t) pd w = translate (ram t) pd w"
    "w < KERNBASE \<Longrightarrow> w div PGSIZE \<noteq> cr2 div PGSIZE \<Longrightarrow> user_access b (ram t) pd w = user_access b (ram s) pd w"
proof -
  let ?va = "PGROUNDDOWN cr2"
  have pt: "pt_ok s pd (m # p # ps)" using ok by (simp add: space_ok_def)
  then have pm: "page_ok s m" "m \<notin> set (p # ps)" "m \<notin> own_pages s pd"
    by (auto simp: pt_ok_def free_pages_def own_pages_def)
  note U = page_taken [OF pt, of u, unfolded u, simplified, folded u]
  have pok: "page_ok u = page_ok s" by (rule page_ok_cong) (simp add: u)
  obtain qs where t: "pt_ok t pd qs" "set qs \<subseteq> set (p # ps)" "own_pages t pd \<subseteq> own_pages s pd \<union> set (p # ps)"
    and tk: "kend t = kend s" and same: "\<And>q. page_ok s q \<Longrightarrow> q \<notin> own_pages s pd \<Longrightarrow> q \<notin> set (p # ps) \<Longrightarrow> page_same u t q"
    using g U(3) pok unfolding tables_grow_def u by auto
  have pokt: "page_ok t = page_ok s" by (rule page_ok_cong) (rule tk)
  have fl: "6 OR PTE_P < 4096" by (rule or_less_4096) (simp_all add: PTE_P_def)
  have fm: "PTE_ADDR (V2P m OR (6 OR PTE_P)) = V2P m" by (rule pte_make(2) [OF page_ok_aligned [OF pm(1)] fl])
  have "page_ok t (frame_of t pd d x) \<and> frame_of t pd d x \<notin> own_pages t pd \<and> frame_of t pd d x \<notin> set qs"
    if dx: "d < 512" "x < 1024" "present (pte t pd d x)" for d x
  proof (cases "d = PDX ?va \<and> x = PTX ?va")
    case True
    then have "frame_of t pd d x = m" using e dx fm page_ok_P2V [OF pm(1)] by (simp add: frame_of_def)
    then show ?thesis using pm t pokt by auto
  next
    case False
    have "pte t pd d x = pte s pd d x" using e dx U(2) [of d x] False by auto
    then have "frame_of t pd d x = frame_of s pd d x" "present (pte s pd d x)" using dx(3) by (simp_all add: frame_of_def)
    then have "page_ok s (frame_of t pd d x)" "frame_of t pd d x \<notin> own_pages s pd" "frame_of t pd d x \<notin> set (m # p # ps)"
      using ok dx(1,2) unfolding space_ok_def by (metis)+
    then show ?thesis using t pokt by auto
  qed
  moreover have gd: "\<forall>d < 1024. pde t pd d = pde u pd d \<or> \<not> present (pde u pd d) \<and> (\<forall>b. opens b (pde t pd d))"
    using g unfolding tables_grow_def by (elim conjE)
  then have dir: "pde t pd d = pde s pd d \<or> \<not> present (pde s pd d) \<and> (\<forall>b. opens b (pde t pd d))" if "d < 1024" for d
    using that U(4) [OF that] by auto
  have "opens b (pde t pd d)" if "d < 512" "present (pde t pd d)" for d b
  proof -
    have d: "d < 1024" using that(1) by simp
    have "present (pde s pd d) \<Longrightarrow> opens b (pde s pd d)" using ok that(1) unfolding space_ok_def by blast
    then show ?thesis using dir [OF d] that(2) by metis
  qed
  ultimately show "\<exists>qs. space_ok t pd qs" using t(1) unfolding space_ok_def by blast
  have none: "opens b (pde t pd (PDX w)) \<and> opens b (pte s pd (PDX w) (PTX w)) \<longleftrightarrow> opens b (pde s pd (PDX w)) \<and> opens b (pte s pd (PDX w) (PTX w))"
    for b w using dir [OF PDX_less [of w]] by (auto simp: pte_def)
  assume w: "w < KERNBASE"
  show "user_access b (ram t) pd w = translate (ram t) pd w" if "w div PGSIZE = cr2 div PGSIZE"
  proof -
    have "w div PGSIZE = ?va div PGSIZE" using that round_down(3) [OF v(1)] by simp
    then have ix: "PDX w = PDX ?va" "PTX w = PTX ?va" using page_index_eq [OF w round_down(1) [OF v(1)]] by simp_all
    have "pte t pd (PDX w) (PTX w) = V2P m OR (6 OR PTE_P)" using e by (simp add: ix)
    moreover have "opens b (V2P m OR (6 OR PTE_P))" using opens_or [of b "V2P m"] by (simp add: PTE_W_def PTE_U_def PTE_P_def)
    ultimately have o: "opens b (pte t pd (PDX w) (PTX w))" by simp
    then have "present (pde t pd (PDX w))" by (auto simp: pte_def split: if_splits)
    then have "opens b (pde t pd (PDX w))"
      using \<open>\<And>d b. d < 512 \<Longrightarrow> present (pde t pd d) \<Longrightarrow> opens b (pde t pd d)\<close> [OF user_PDX [OF w]] by simp
    then show ?thesis using o by (simp add: user_access_pte translate_pte w opens_present)
  qed
  show "user_access b (ram t) pd w = user_access b (ram s) pd w" if "w div PGSIZE \<noteq> cr2 div PGSIZE"
  proof -
    have "w div PGSIZE \<noteq> ?va div PGSIZE" using that round_down(3) [OF v(1)] by simp
    then have "\<not> (PDX w = PDX ?va \<and> PTX w = PTX ?va)" using page_index_eq [OF w round_down(1) [OF v(1)]] by simp
    then have "pte t pd (PDX w) (PTX w) = pte s pd (PDX w) (PTX w)"
      using e [rule_format, OF PDX_less PTX_less, of w w] U(2) [OF PDX_less PTX_less] by (simp only: if_False)
    then show ?thesis using none [of b w] by (simp add: user_access_pte)
  qed
  show "ubyte t pd w = (if w div PGSIZE = cr2 div PGSIZE then Some 0 else ubyte s pd w)"
  proof (cases "w div PGSIZE = cr2 div PGSIZE")
    case True
    then have "PGROUNDDOWN w = ?va" by (simp add: PGROUNDDOWN_def)
    then have we: "w = ?va + w mod PGSIZE" using round_down(4) [OF w] by simp
    have "pte t pd (PDX ?va) (PTX ?va) = V2P m OR (6 OR PTE_P)" using e by simp
    from translate_hit(2) [OF round_down(1,2) [OF v(1)] page_ok_aligned [OF pm(1)] _ _ this, of "w mod PGSIZE"]
    have "translate (ram t) pd w = Some (V2P m + w mod PGSIZE)" using we by (simp add: PGSIZE_def)
    moreover have "ram t (V2P m + w mod PGSIZE) = 0"
      using same [OF pm(1,3,2)] unfolding page_same_def u by (simp add: PGSIZE_def)
    ultimately show ?thesis using True by (simp add: ubyte_def)
  next
    case False
    then have "w div PGSIZE \<noteq> ?va div PGSIZE" using round_down(3) [OF v(1)] by simp
    from translate_miss [OF w round_down(1) [OF v(1)] this e]
    have tr: "translate (ram t) pd w = translate (ram s) pd w"
      using U(2) [OF PDX_less PTX_less] by (simp add: translate_pte w)
    show ?thesis
    proof (cases "translate (ram s) pd w")
      case (Some a)
      obtain q where q: "page_ok s q" "q \<notin> own_pages s pd" "q \<notin> set (m # p # ps)" "a = V2P q + w mod PGSIZE"
        using translate_frame [OF ok w Some] by blast
      have "page_same s u q" using page_same_fill [OF q(1) pm(1), of 0] q(3) by (simp add: page_same_def u)
      moreover have "page_same u t q" using same [OF q(1,2)] q(3) by simp
      ultimately have "page_same s t q" by (rule page_same_trans)
      then have "ram t a = ram s a" unfolding page_same_def q(4) by (simp add: PGSIZE_def)
      then show ?thesis using False tr Some by (simp add: ubyte_def)
    qed (use False tr in \<open>simp add: ubyte_def\<close>)
  qed
qed

section \<open>A machine with a promised page\<close>

text \<open>The demo machine with two free pages and a process of four pages, of which the first two are mapped.\<close>

definition demo_lazy :: trapk where
  "demo_lazy = (demo blank)\<lparr>kend := KERNBASE + 4096, freelist := KERNBASE + 65536,
     ram := wr32 demo_ram 65536 (KERNBASE + 69632), ptable := [demo_proc\<lparr>p_sz := 16384, p_tf := zero_tf\<lparr>tf_esp := 6\<rparr>\<rparr>]\<rparr>"

lemma demo_lazy_sel [simp]:
  "myproc demo_lazy = demo_proc\<lparr>p_sz := 16384, p_tf := zero_tf\<lparr>tf_esp := 6\<rparr>\<rparr>" "cur demo_lazy = Some 0" "held demo_lazy = {}" "kend demo_lazy = KERNBASE + 4096"
  "freelist demo_lazy = KERNBASE + 65536"
  by (simp_all add: demo_lazy_def myproc_def)

lemma demo_lazy_rd:
  "rd32 (ram demo_lazy) (4096 + 4 * d) = (if d = 0 then 8199 else if d = 1024 then 12295 else if d = 1025 then 16391 else 0)"
  if "d < 2048"
proof -
  have "rd32 (ram demo_lazy) (4096 + 4 * d) = rd32 demo_ram (4096 + 4 * d)" using that by (simp add: demo_lazy_def)
  also have "\<dots> = (if d = 0 then 8199 else if d = 1024 then 12295 else if d = 1025 then 16391 else 0)"
  proof -
    consider "d = 0" | "0 < d" "d < 1024" | "d = 1024" | "d = 1025" | "1025 < d" using that by linarith
    then show ?thesis using that by cases (simp_all add: demo_ram_def, simp_all add: rd32_def)
  qed
  finally show ?thesis .
qed

lemma demo_lazy_V2P: "V2P (KERNBASE + a) = a" if "a < 8388608"
  using that by (simp add: V2P_def KERNBASE_def sub32_def)

lemma demo_lazy_page: "page_ok demo_lazy (KERNBASE + 4096 * k)" if "0 < k" "k < 100"
proof -
  have "V2P (KERNBASE + 4096 * k) = 4096 * k" using that by (intro demo_lazy_V2P) simp
  moreover have "(KERNBASE + 4096 * k) mod PGSIZE = 0" by (simp add: KERNBASE_def PGSIZE_def mod_add_left_eq)
  ultimately show ?thesis using that by (simp add: page_ok_def) (simp add: layout_simps)
qed

lemma demo_lazy_pde: "d < 1024 \<Longrightarrow> pde demo_lazy (KERNBASE + 4096) d = (if d = 0 then 8199 else 0)"
  using demo_lazy_rd [of d] demo_lazy_V2P [of 4096] by (simp add: pde_def)

lemma demo_lazy_tab: "tab demo_lazy (KERNBASE + 4096) 0 = KERNBASE + 8192"
  using demo_lazy_pde [of 0] by (simp add: tab_def PTE_ADDR_def P2V_def) (simp add: KERNBASE_def)

lemma demo_lazy_pte:
  assumes "d < 1024" "e < 1024"
  shows "pte demo_lazy (KERNBASE + 4096) d e = (if d = 0 \<and> e = 0 then 12295 else if d = 0 \<and> e = 1 then 16391 else 0)"
proof (cases "d = 0")
  case True
  have "rd32 (ram demo_lazy) (8192 + 4 * e) = (if e = 0 then 12295 else if e = 1 then 16391 else 0)"
    using demo_lazy_rd [of "1024 + e"] assms(2) by (simp add: algebra_simps)
  moreover have "present 8199" by (rule demo_present)
  ultimately show ?thesis using True demo_lazy_pde [of 0] demo_lazy_tab demo_lazy_V2P [of 8192] by (simp add: pte_def)
next
  case False
  then show ?thesis using demo_lazy_pde [OF assms(1)] by (simp add: pte_def)
qed

lemma demo_lazy_space: "space_ok demo_lazy (KERNBASE + 4096) [KERNBASE + 65536, KERNBASE + 69632]"
proof -
  have pg: "page_ok demo_lazy (KERNBASE + 4096)" "page_ok demo_lazy (KERNBASE + 8192)" "page_ok demo_lazy (KERNBASE + 12288)"
    "page_ok demo_lazy (KERNBASE + 16384)" "page_ok demo_lazy (KERNBASE + 65536)" "page_ok demo_lazy (KERNBASE + 69632)"
    using demo_lazy_page [of 1] demo_lazy_page [of 2] demo_lazy_page [of 3] demo_lazy_page [of 4] demo_lazy_page [of 16] demo_lazy_page [of 17]
    by simp_all
  have "rd32 (ram demo_lazy) 65536 = KERNBASE + 69632" "rd32 (ram demo_lazy) 69632 = 0"
    by (simp_all add: demo_lazy_def KERNBASE_def) (simp add: rd32_def wr32_out demo_ram_def)
  then have f: "free_pages demo_lazy [KERNBASE + 65536, KERNBASE + 69632]"
    using pg demo_lazy_V2P [of 65536] demo_lazy_V2P [of 69632] by (simp add: free_pages_def)
  have z: "d = 0" if "d < 1024" "present (pde demo_lazy (KERNBASE + 4096) d)" for d
    using that demo_lazy_pde [of d] by (cases "d = 0") auto
  have "pt_ok demo_lazy (KERNBASE + 4096) [KERNBASE + 65536, KERNBASE + 69632]"
  proof -
    have "tab demo_lazy (KERNBASE + 4096) d = KERNBASE + 8192" if "d < 1024" "present (pde demo_lazy (KERNBASE + 4096) d)" for d
      using z [OF that] demo_lazy_tab by simp
    moreover have "d = e" if "d < 1024" "e < 1024" "present (pde demo_lazy (KERNBASE + 4096) d)" "present (pde demo_lazy (KERNBASE + 4096) e)" for d e
      using z [OF that(1,3)] z [OF that(2,4)] by simp
    ultimately show ?thesis using pg f unfolding pt_ok_def by (auto simp: KERNBASE_def)
  qed
  moreover have "own_pages demo_lazy (KERNBASE + 4096) \<subseteq> {KERNBASE + 4096, KERNBASE + 8192}"
    using z demo_lazy_tab by (auto simp: own_pages_def)
  moreover have "frame_of demo_lazy (KERNBASE + 4096) d e \<in> {KERNBASE + 12288, KERNBASE + 16384}"
    if "d < 512" "e < 1024" "present (pte demo_lazy (KERNBASE + 4096) d e)" for d e
  proof -
    have "pte demo_lazy (KERNBASE + 4096) d e = 12295 \<or> pte demo_lazy (KERNBASE + 4096) d e = 16391"
      using that demo_lazy_pte [of d e] by (auto split: if_splits)
    then show ?thesis by (auto simp: frame_of_def PTE_ADDR_def P2V_def) (simp_all add: KERNBASE_def)
  qed
  moreover have "opens w (pde demo_lazy (KERNBASE + 4096) d)" if "d < 512" "present (pde demo_lazy (KERNBASE + 4096) d)" for d w
  proof -
    have d: "d < 1024" using that(1) by simp
    have "opens w 8199" using opens_or [of w 8192] by (simp add: PTE_W_def PTE_U_def PTE_P_def)
    then show ?thesis using demo_lazy_pde [OF d] z [OF d that(2)] by simp
  qed
  moreover have "\<forall>q \<in> {KERNBASE + 12288, KERNBASE + 16384}. page_ok demo_lazy q \<and> q \<notin> {KERNBASE + 4096, KERNBASE + 8192}
     \<and> q \<notin> set [KERNBASE + 65536, KERNBASE + 69632]" using pg by (simp add: KERNBASE_def)
  ultimately show ?thesis unfolding space_ok_def by (meson subsetD)
qed

lemma demo_lazy_none: "translate (ram demo_lazy) (KERNBASE + 4096) v = None" if "8192 \<le> v" "v < KERNBASE"
proof -
  have "v div 4096 \<noteq> 0" "v div 4096 \<noteq> 1" using that by simp_all
  then have "\<not> (PDX v = 0 \<and> (PTX v = 0 \<or> PTX v = 1))"
    using page_index [OF that(2)] by (auto simp: PGSIZE_def)
  then show ?thesis using demo_lazy_pte [OF PDX_less PTX_less, of v v] by (auto simp: translate_pte [OF that(2)])
qed

section \<open>Properties\<close>

lemma pgflt_not_timer: "T_PGFLT \<noteq> T_IRQ0 + IRQ_TIMER"
  by (simp add: T_PGFLT_def T_IRQ0_def IRQ_TIMER_def)

text \<open>
  C12: A page fault is invisible to the process. When it touches an address below its size that is not mapped, and two
  pages are free, the trap returns to it with the process table as it was, and the process may then read and write
  the address in user mode. For reads and for writes, the memory it may touch, where a page that has never been touched
  counts as zeros, is the same as before at every address, and the address space is in order again.
\<close>

theorem lazy_fault_transparent:
  assumes "space_ok s (p_pgdir (myproc s)) (m # p # ps)" and "use_lock s \<longrightarrow> LKmem \<notin> held s"
    and "tf_trapno tf = T_PGFLT" "te_cr2 env < p_sz (myproc s)" "p_sz (myproc s) \<le> KERNBASE"
    and "translate (ram s) (p_pgdir (myproc s)) (te_cr2 env) = None" and "\<not> cur_killed s"
  shows "okP (lazy_trap env tf s) (\<lambda>(out, t). out = Returns \<and> ptable t = ptable s \<and> cur t = cur s
     \<and> (\<forall>w. user_access w (ram t) (p_pgdir (myproc s)) (te_cr2 env) \<noteq> None)
     \<and> (\<forall>w. lazy_view w t (p_pgdir (myproc s)) (p_sz (myproc s)) = lazy_view w s (p_pgdir (myproc s)) (p_sz (myproc s)))
     \<and> (\<exists>qs. space_ok t (p_pgdir (myproc s)) qs))"
proof -
  let ?pd = "p_pgdir (myproc s)" and ?v = "te_cr2 env"
  have v: "?v < KERNBASE" using assms(4,5) by simp
  obtain u t where t: "page_fault ?v s = Ok t"
    and u: "u = s\<lparr>ram := fill 0 (ram s) (V2P m) PGSIZE, freelist := rd32 (ram s) (V2P m)\<rparr>"
    and g: "tables_grow u t ?pd (p # ps)"
    and e: "\<forall>d < 1024. \<forall>e < 1024. pte t ?pd d e =
          (if d = PDX (PGROUNDDOWN ?v) \<and> e = PTX (PGROUNDDOWN ?v) then V2P m OR (6 OR PTE_P) else pte u ?pd d e)"
    using page_fault_ok [OF assms(1,2) v assms(6)] by blast
  note S = page_fault_space [OF assms(1) v assms(6) u g e]
  obtain mm f where "t = u\<lparr>ram := mm, freelist := f\<rparr>" using g by (auto simp: tables_grow_def)
  then have ts: "ptable t = ptable s" "cur t = cur s" by (simp_all add: u)
  have b: "translate (ram t) ?pd ?v \<noteq> None" using S(2) [OF v] by (auto simp: ubyte_def)
  have "lazy_view w t ?pd (p_sz (myproc s)) x = lazy_view w s ?pd (p_sz (myproc s)) x" for w x
  proof (cases "x < p_sz (myproc s)")
    case True
    then have x: "x < KERNBASE" using assms(5) by simp
    show ?thesis
    proof (cases "x div PGSIZE = ?v div PGSIZE")
      case same: True
      have "translate (ram s) ?pd x = None" using same_page_none [OF x v same, of s ?pd] assms(6) by simp
      moreover have "map_option (ram t) (translate (ram t) ?pd x) = Some 0" using S(2) [OF x] same by (simp add: ubyte_def)
      ultimately show ?thesis using S(3) [OF x same] True by (auto simp: lazy_view_def)
    next
      case False
      then have u: "ubyte t ?pd x = ubyte s ?pd x" "user_access w (ram t) ?pd x = user_access w (ram s) ?pd x"
        using S(2,4) [OF x] by simp_all
      have "ram t a = ram s a" if "user_access w (ram s) ?pd x = Some a" for a
        using u user_access_translate [OF x that] user_access_translate [OF x, of w t ?pd a] that by (auto simp: ubyte_def)
      moreover have "translate (ram t) ?pd x = None \<longleftrightarrow> translate (ram s) ?pd x = None"
        using u(1) unfolding ubyte_def by (metis option.map_disc_iff)
      ultimately show ?thesis using u(2) True by (cases "user_access w (ram s) ?pd x") (simp_all add: lazy_view_def)
    qed
  qed (simp add: lazy_view_def)
  then have "lazy_view w t ?pd (p_sz (myproc s)) = lazy_view w s ?pd (p_sz (myproc s))" for w by (rule ext)
  moreover have "lazy_trap env tf s = Ok (Returns, t)"
    using t ts assms(3,4,7) pgflt_not_timer by (auto simp: lazy_trap_def lazy_dispatch_def cur_killed_def myproc_def)
  ultimately show ?thesis using ts b S(1) S(3) [OF v refl] by simp
qed

lemma lazy_fault_transparent_witness:
  "okP (lazy_trap \<lparr>te_cpu = 0, te_scan = [], te_ser = [], te_cr2 = 8200\<rparr> (zero_tf\<lparr>tf_trapno := 14\<rparr>) demo_lazy) (\<lambda>(out, t). out = Returns
     \<and> user_access True (ram t) (KERNBASE + 4096) 8200 \<noteq> None
     \<and> lazy_view True t (KERNBASE + 4096) 16384 = lazy_view True demo_lazy (KERNBASE + 4096) 16384)"
proof -
  have d: "p_pgdir demo_proc = KERNBASE + 4096" "\<not> p_killed demo_proc" by (simp_all add: demo_proc_def zero_proc_def)
  show ?thesis
    by (rule okP_mono [OF lazy_fault_transparent [where m = "KERNBASE + 65536" and p = "KERNBASE + 69632"]])
      (use demo_lazy_space demo_lazy_none [of 8200] d in \<open>auto simp: T_PGFLT_def cur_killed_def KERNBASE_def\<close>)
qed

text \<open>
  Growing is a promise of zeros: when the argument \<open>n\<close> of \<open>sbrk\<close> is not negative and nothing is mapped above the size,
  the call returns the old size, and the process sees its old memory followed by \<open>n\<close> zero bytes.
\<close>

theorem lazy_sbrk_grows:
  assumes "argint 0 s = Ok (Some n)" "0 \<le> n" "cur s = Some i" "i < length (ptable s)"
    and "int (p_sz (myproc s)) + n < 2147483648"
    and "\<And>v. p_sz (myproc s) \<le> v \<Longrightarrow> v < KERNBASE \<Longrightarrow> translate (ram s) (p_pgdir (myproc s)) v = None"
  shows "okP (lazy_sbrk s) (\<lambda>(r, t). r = int (p_sz (myproc s)) \<and> int (p_sz (myproc t)) = int (p_sz (myproc s)) + n
     \<and> lazy_view w t (p_pgdir (myproc t)) (p_sz (myproc t)) = (\<lambda>v.
          if v < p_sz (myproc s) then lazy_view w s (p_pgdir (myproc s)) (p_sz (myproc s)) v
          else if v < p_sz (myproc s) + nat n then Some 0 else None))"
proof -
  let ?x = "myproc s"
  let ?t = "upd_proc i (\<lambda>x. x\<lparr>p_sz := u32_of (int (p_sz x) + n)\<rparr>) s"
  have sz: "u32_of (int (p_sz ?x) + n) = p_sz ?x + nat n"
    using assms(2,5) by (simp add: u32_of_def nat_add_distrib)
  have t: "myproc ?t = ?x\<lparr>p_sz := p_sz ?x + nat n\<rparr>" "ram ?t = ram s"
    using assms(3,4) sz by (simp_all add: myproc_def)
  have a: "s32 (p_sz ?x + nat n) = int (p_sz ?x) + n" "s32 (p_sz ?x) = int (p_sz ?x)" using assms(2,5) by (simp_all add: s32_def)
  have "lazy_sbrk s = Ok (int (p_sz ?x), ?t)"
    using assms(1-3,5) t a by (simp add: lazy_sbrk_def with_arg_def s32_u32_of)
  moreover have "lazy_view w ?t (p_pgdir ?x) (p_sz ?x + nat n) v = (if v < p_sz ?x then lazy_view w s (p_pgdir ?x) (p_sz ?x) v
          else if v < p_sz ?x + nat n then Some 0 else None)" for v
  proof -
    have "p_sz ?x + nat n < KERNBASE" using assms(2,5) by (simp add: KERNBASE_def)
    then show ?thesis using assms(6) [of v] t(2) by (auto simp: lazy_view_def ubyte_def)
  qed
  ultimately show ?thesis using t(1) assms(2) by (simp add: fun_eq_iff)
qed

lemma lazy_sbrk_grows_witness:
  "okP (lazy_sbrk demo_lazy) (\<lambda>(r, t). r = 16384 \<and> int (p_sz (myproc t)) = 43368
     \<and> lazy_view True t (p_pgdir (myproc t)) (p_sz (myproc t)) 20000 = Some 0)"
proof -
  have d: "p_pgdir demo_proc = KERNBASE + 4096" by (simp add: demo_proc_def)
  have n: "ptable demo_lazy = [demo_proc\<lparr>p_sz := 16384, p_tf := zero_tf\<lparr>tf_esp := 6\<rparr>\<rparr>]" by (simp add: demo_lazy_def)
  have "rd32 (ram demo_lazy) 4096 = 8199" "rd32 (ram demo_lazy) 8192 = 12295"
    using demo_lazy_rd [of 0] demo_lazy_rd [of 1024] by simp_all
  then have "uget_from (ram demo_lazy) (KERNBASE + 4096) 10 4 = Some (bytes_at (ram demo_lazy) 12298 4)"
    using uget_maps [OF first_page_maps [of _ 10 4], of "ram demo_lazy" 0 4] by simp
  moreover have "bytes_at (ram demo_lazy) 12298 4 = [104, 105, 0, 0]"
    by (simp add: demo_lazy_def demo_ram_def bytes_at_def upt_rec wr32_out)
  ultimately have a: "argint 0 demo_lazy = Ok (Some 26984)"
    by (simp add: argint_def fetchint_def uget_def d rd32_def arr_def put_bytes_def s32_def)
  note w = lazy_sbrk_grows [OF a, where i = 0 and w = True]
  show ?thesis
    by (rule okP_mono [OF w]) (use demo_lazy_none n d in \<open>auto simp: KERNBASE_def\<close>)
qed

lemma rd32_put_apart: "x + 4 \<le> y \<or> y + length bs \<le> x \<Longrightarrow> rd32 (put_bytes bs m y) x = rd32 m x"
  by (rule rd32_cong) (auto simp: put_bytes_def)

lemma rd32_put_word: "w < u32_mod \<Longrightarrow> rd32 (put_bytes (word_bytes w) m x) x = w"
proof -
  have "rd32 (put_bytes (word_bytes w) m x) x = rd32 (arr (word_bytes w)) 0"
    using length_word_bytes [of w] by (simp add: rd32_def put_bytes_def arr_def numeral_2_eq_2)
  then show "w < u32_mod \<Longrightarrow> ?thesis" by (simp add: rd32_word_bytes)
qed

text \<open>
  The translation of a user address depends on the pages of the tables only, and no user page is among them: writing
  to user memory changes no translation.
\<close>

definition tables_same :: "'a ksys_scheme \<Rightarrow> nat \<Rightarrow> mem \<Rightarrow> bool" where
  "tables_same s pgdir m \<longleftrightarrow> (\<forall>q \<in> own_pages s pgdir. \<forall>a. V2P q \<le> a \<and> a < V2P q + PGSIZE \<longrightarrow> m a = ram s a)"

lemma tables_same_rd32:
  "tables_same s pgdir m \<Longrightarrow> q \<in> own_pages s pgdir \<Longrightarrow> e < 1024 \<Longrightarrow> rd32 m (V2P q + 4 * e) = rd32 (ram s) (V2P q + 4 * e)"
  unfolding tables_same_def by (intro rd32_cong) (simp add: PGSIZE_def)

lemma translate_stable:
  assumes "pt_ok s pgdir ps" "v < KERNBASE" "tables_same s pgdir m"
  shows "translate m pgdir v = translate (ram s) pgdir v"
proof -
  let ?t = "s\<lparr>ram := m\<rparr>"
  note rd = tables_same_rd32 [OF assms(3)]
  have p: "pde ?t pgdir d = pde s pgdir d" if "d < 1024" for d using rd [OF _ that, of pgdir] by (simp add: pde_def own_pages_def)
  have "pte ?t pgdir (PDX v) (PTX v) = pte s pgdir (PDX v) (PTX v)"
    using p [OF PDX_less, of v] rd [OF _ PTX_less, of "tab s pgdir (PDX v)" v] by (auto simp: pte_def tab_def own_pages_def)
  then show ?thesis using translate_pte [OF assms(2), of ?t pgdir] translate_pte [OF assms(2), of s pgdir] by simp
qed

lemma user_byte_apart:
  assumes "space_ok s pgdir ps" "v < KERNBASE" "translate (ram s) pgdir v = Some a" "q \<in> own_pages s pgdir"
  shows "a < V2P q \<or> V2P q + PGSIZE \<le> a"
proof -
  obtain r where r: "page_ok s r" "r \<notin> own_pages s pgdir" "a = V2P r + v mod PGSIZE" using translate_frame [OF assms(1-3)] by blast
  have "page_ok s q" using assms(1,4) unfolding space_ok_def pt_ok_def own_pages_def by auto
  moreover have "v mod PGSIZE < PGSIZE" by (simp add: PGSIZE_def)
  ultimately show ?thesis using page_ok_apart [of s r q] r assms(4) by fastforce
qed

text \<open>\<open>n\<close> bytes of user memory, one after the other in physical memory.\<close>

definition user_range :: "'a ksys_scheme \<Rightarrow> nat \<Rightarrow> nat \<Rightarrow> nat \<Rightarrow> nat \<Rightarrow> bool" where
  "user_range s pgdir va n x \<longleftrightarrow> va + n \<le> KERNBASE \<and> (\<forall>i < n. translate (ram s) pgdir (va + i) = Some (x + i))"

lemma user_range_same:
  assumes "space_ok s pgdir ps" "user_range s pgdir va n x" "user_range s pgdir wa k y"
    and "\<And>a. (a < x \<or> x + n \<le> a) \<Longrightarrow> (a < y \<or> y + k \<le> a) \<Longrightarrow> m a = ram s a"
  shows "tables_same s pgdir m"
  unfolding tables_same_def
proof (intro ballI allI impI)
  fix q a assume q: "q \<in> own_pages s pgdir" "V2P q \<le> a \<and> a < V2P q + PGSIZE"
  have out: "a < z \<or> z + l \<le> a" if r: "user_range s pgdir u l z" for u l z
  proof (rule ccontr)
    assume "\<not> ?thesis"
    then have i: "a - z < l" "z + (a - z) = a" by linarith+
    then have "translate (ram s) pgdir (u + (a - z)) = Some a" "u + (a - z) < KERNBASE" using r by (auto simp: user_range_def)
    then show False using user_byte_apart [OF assms(1) _ _ q(1)] q(2) by fastforce
  qed
  show "m a = ram s a" using assms(4) [OF out [OF assms(2)] out [OF assms(3)]] .
qed

lemma user_range_maps:
  assumes "space_ok s pgdir ps" "user_range s pgdir va n x" "user_range s pgdir wa k y"
    and "\<And>a. (a < x \<or> x + n \<le> a) \<Longrightarrow> m a = ram s a"
  shows "maps_to m pgdir wa k y"
  unfolding maps_to_def
proof (intro allI impI)
  fix m' i assume m: "\<forall>a. a < y \<or> y + k \<le> a \<longrightarrow> m' a = m a" and i: "i < k"
  have "tables_same s pgdir m'" by (rule user_range_same [OF assms(1-3)]) (metis m assms(4))
  moreover have "pt_ok s pgdir ps" "wa + i < KERNBASE" using assms(1,3) i by (auto simp: space_ok_def user_range_def)
  ultimately show "translate m' pgdir (wa + i) = Some (y + i)"
    using translate_stable assms(3) i unfolding user_range_def by (metis)
qed

lemma PTE_FLAGS_less: "PTE_FLAGS e < u32_mod"
proof -
  have "PTE_FLAGS e = e mod 4096" using take_bit_eq_mask [of 12 e] by (simp add: PTE_FLAGS_def take_bit_eq_mod mask_eq_exp_minus_1)
  moreover have "e mod 4096 < 4096" by simp
  ultimately show ?thesis by (simp del: pos_mod_bound)
qed

text \<open>
  C13: The lookup agrees with the processor. For a user address that is mapped \<open>get_va_to_pa\<close> returns 1 and stores the physical
  address the processor translates it to, and the flags of its entry, through the two pointers; for one that is not it
  returns 0 and changes nothing. The pointers are to two mapped words of the memory of the process that do not overlap,
  each on consecutive physical bytes, in an address space whose user pages are none of its page tables.
\<close>

theorem va_to_pa_translates:
  assumes sp: "space_ok s (p_pgdir (myproc s)) ps" and "va < KERNBASE"
    and pa: "user_range s (p_pgdir (myproc s)) pa 4 x" and flag: "user_range s (p_pgdir (myproc s)) flag 4 y"
    and "y + 4 \<le> x \<or> x + 4 \<le> y"
  shows "okP (get_va_to_pa va pa flag s) (\<lambda>(r, t). case translate (ram s) (p_pgdir (myproc s)) va of
       None \<Rightarrow> r = 0 \<and> t = s
     | Some a \<Rightarrow> r = 1 \<and> rd32 (ram t) x = a
         \<and> rd32 (ram t) y = PTE_FLAGS (rd32 (ram s) (PTE_ADDR (rd32 (ram s) (V2P (p_pgdir (myproc s)) + 4 * PDX va)) + 4 * PTX va)))"
proof -
  let ?pd = "p_pgdir (myproc s)" and ?x = "pte s (p_pgdir (myproc s)) (PDX va) (PTX va)"
  have pt: "pt_ok s ?pd ps" using sp by (simp add: space_ok_def)
  have pg: "page_ok s ?pd" using pt by (simp add: pt_ok_def)
  have pd: "kread32 (?pd + 4 * PDX va) s = pde s ?pd (PDX va)" using kread_dir(1) [OF pg PDX_less] by (simp add: pde_def)
  show ?thesis
  proof (cases "present (pde s ?pd (PDX va))")
    case False
    then have "walkpgdir ?pd va False s = Ok (0, s)" by (simp add: walkpgdir_def pd)
    then show ?thesis using False assms(2) by (simp add: get_va_to_pa_def translate_pte pte_def)
  next
    case True
    note T = pt_okD(1) [OF pt PDX_less True]
    have w: "walkpgdir ?pd va False s = Ok (tab s ?pd (PDX va) + 4 * PTX va, s)" by (rule walk_present [OF pg True])
    have k: "kread32 (tab s ?pd (PDX va) + 4 * PTX va) s = ?x" using kread_dir(1) [OF T PTX_less] True by (simp add: pte_def)
    have nz: "tab s ?pd (PDX va) + 4 * PTX va \<noteq> 0" using page_ok_pos [OF T] by simp
    show ?thesis
    proof (cases "present ?x")
      case False
      then show ?thesis using assms(2) by (simp add: get_va_to_pa_def w k translate_pte)
    next
      case pr: True
      let ?a = "PTE_ADDR ?x OR (va AND 4095)"
      have xl: "?x < u32_mod" by (simp add: pte_def rd32_less)
      have va: "va AND 4095 = va mod PGSIZE" "va mod PGSIZE < 4096"
        using take_bit_eq_mask [of 12 va] by (simp_all add: take_bit_eq_mod mask_eq_exp_minus_1 PGSIZE_def)
      have "PTE_ADDR ?x mod PGSIZE = 0" by (simp add: PTE_ADDR_def PGSIZE_def)
      from pte_make(1) [OF this va(2)] have a: "?a = PTE_ADDR ?x + va mod PGSIZE" by (simp only: va(1))
      obtain q where "PTE_ADDR ?x = 4096 * q" by (auto simp: PTE_ADDR_def)
      then have al: "?a < u32_mod" using PTE_ADDR_less [OF xl] va(2) unfolding a by simp
      have u1: "uput pa (word_bytes ?a) s = Ok (s\<lparr>ram := put_bytes (word_bytes ?a) (ram s) x\<rparr>)"
        using uput_maps [OF user_range_maps [OF sp flag pa], of "ram s" 0 "word_bytes ?a"] by (simp add: uput_def)
      have u2: "uput flag bs (s\<lparr>ram := put_bytes (word_bytes ?a) (ram s) x\<rparr>) = Ok (s\<lparr>ram := put_bytes bs (put_bytes (word_bytes ?a) (ram s) x) y\<rparr>)"
        if "length bs = 4" for bs
      proof -
        have "maps_to (put_bytes (word_bytes ?a) (ram s) x) ?pd flag 4 y"
          by (rule user_range_maps [OF sp pa flag]) (auto simp: put_bytes_def)
        from uput_maps [OF this, of 0 bs] show ?thesis using that by (simp add: uput_def myproc_def)
      qed
      have "rd32 (put_bytes bs (put_bytes (word_bytes ?a) (ram s) x) y) x = ?a" if "length bs = 4" for bs
        using rd32_put_apart [of x y bs "put_bytes (word_bytes ?a) (ram s) x"] rd32_put_word [OF al, of "ram s" x] assms(5) that by auto
      moreover have "rd32 (put_bytes (word_bytes (PTE_FLAGS ?x)) mm y) y = PTE_FLAGS ?x" for mm
        by (rule rd32_put_word [OF PTE_FLAGS_less])
      moreover have e: "rd32 (ram s) (PTE_ADDR (rd32 (ram s) (V2P ?pd + 4 * PDX va)) + 4 * PTX va) = ?x"
        using True by (simp add: pte_def tab_V2P) (simp add: pde_def)
      moreover have "kread32 (tab s ?pd (PDX va) + 4 * PTX va) (s\<lparr>ram := put_bytes (word_bytes ?a) (ram s) x\<rparr>) = ?x"
      proof -
        let ?m = "put_bytes (word_bytes ?a) (ram s) x" and ?q = "tab s ?pd (PDX va)"
        have "tables_same s ?pd ?m" by (rule user_range_same [OF sp pa flag]) (auto simp: put_bytes_def)
        moreover have "?q \<in> own_pages s ?pd" using True by (simp add: own_pages_def)
        ultimately have "rd32 ?m (V2P ?q + 4 * PTX va) = rd32 (ram s) (V2P ?q + 4 * PTX va)"
          using tables_same_rd32 PTX_less by blast
        moreover have "page_ok (s\<lparr>ram := ?m\<rparr>) ?q" using T by (simp add: page_ok_def)
        ultimately show ?thesis using kread_dir(1) [OF _ PTX_less, of "s\<lparr>ram := ?m\<rparr>" ?q va] True by (simp add: pte_def)
      qed
      ultimately show ?thesis using pr assms(2) page_ok_pos [OF T] unfolding a
        by (simp add: get_va_to_pa_def w k a u1 [unfolded a] u2 [unfolded a] translate_pte e)
    qed
  qed
qed

lemma va_to_pa_translates_witness:
  "okP (get_va_to_pa 5 100 200 demo_lazy) (\<lambda>(r, t). r = 1 \<and> rd32 (ram t) 12388 = 12293)"
proof -
  have d: "p_pgdir demo_proc = KERNBASE + 4096" by (simp add: demo_proc_def)
  have r: "rd32 (ram demo_lazy) 4096 = 8199" "rd32 (ram demo_lazy) 8192 = 12295"
    using demo_lazy_rd [of 0] demo_lazy_rd [of 1024] by simp_all
  have "user_range demo_lazy (KERNBASE + 4096) v 4 (12288 + v)" if "v < 4092" for v
    using maps_toD [OF first_page_maps [OF r, of v 4]] that by (simp add: user_range_def KERNBASE_def)
  from this [of 100] this [of 200]
  have pa: "user_range demo_lazy (KERNBASE + 4096) 100 4 12388" and flag: "user_range demo_lazy (KERNBASE + 4096) 200 4 12488" by simp_all
  have t: "translate (ram demo_lazy) (KERNBASE + 4096) 5 = Some 12293"
    using maps_toD [OF first_page_maps [OF r, of 5 1], of 0] by simp
  show ?thesis
    by (intro okP_mono [OF va_to_pa_translates [where x = 12388 and y = 12488]]) (use d pa flag t demo_lazy_space in \<open>auto simp: KERNBASE_def\<close>)
qed

text \<open>
  A fault on a page that is mapped, such as the guard page below the stack, which user code may not touch, stops
  the whole kernel instead of the process.
\<close>

lemma mapped_fault_panics:
  assumes "space_ok s (p_pgdir (myproc s)) (m # ps)" and "use_lock s \<longrightarrow> LKmem \<notin> held s"
    and "tf_trapno tf = T_PGFLT" "te_cr2 env < p_sz (myproc s)" "p_sz (myproc s) \<le> KERNBASE"
    and "translate (ram s) (p_pgdir (myproc s)) (te_cr2 env) \<noteq> None"
  shows "lazy_trap env tf s = Panic ''remap''"
proof -
  let ?pd = "p_pgdir (myproc s)" and ?va = "PGROUNDDOWN (te_cr2 env)"
  let ?u = "s\<lparr>freelist := rd32 (ram s) (V2P m), ram := fill 0 (ram s) (V2P m) PGSIZE\<rparr>"
  have v: "te_cr2 env < KERNBASE" using assms(4,5) by simp
  have pt: "pt_ok s ?pd (m # ps)" using assms(1) by (simp add: space_ok_def)
  then have fp: "free_pages s (m # ps)" and pm: "page_ok s m" by (simp_all add: pt_ok_def free_pages_def)
  have m0: "m \<noteq> 0" using page_ok_pos [OF pm] by simp
  have k: "kalloc s = Ok (m, s\<lparr>freelist := rd32 (ram s) (V2P m)\<rparr>)" using kalloc_pop(1) [OF fp] assms(2) by simp
  have z: "kmemset m 0 PGSIZE (s\<lparr>freelist := rd32 (ram s) (V2P m)\<rparr>) = ?u"
    by (simp add: kmemset_def memset_fill u32_of_def)
  note U = page_taken [OF pt, of ?u, simplified]
  have "translate (ram s) ?pd ?va \<noteq> None"
    using same_page_none [OF v round_down(1) [OF v], of s ?pd] round_down(3) [OF v] assms(6) by simp
  then have pr: "present (pte ?u ?pd (PDX ?va) (PTX ?va))"
    using U(2) [OF PDX_less PTX_less, of ?va ?va] translate_pte [OF round_down(1) [OF v], of s ?pd] by (auto split: if_splits)
  then have pd: "present (pde ?u ?pd (PDX ?va))" by (auto simp: pte_def split: if_splits)
  note T = pt_okD(1) [OF U(1) PDX_less pd]
  have pg: "page_ok ?u ?pd" using U(1) by (simp add: pt_ok_def)
  have w: "walkpgdir ?pd ?va True ?u = Ok (tab ?u ?pd (PDX ?va) + 4 * PTX ?va, ?u)" by (rule walk_present [OF pg pd])
  have kr: "kread32 (tab ?u ?pd (PDX ?va) + 4 * PTX ?va) ?u = pte ?u ?pd (PDX ?va) (PTX ?va)"
    using kread_dir(1) [OF T PTX_less] pd by (simp add: pte_def)
  have nz: "tab ?u ?pd (PDX ?va) + 4 * PTX ?va \<noteq> 0" using page_ok_pos [OF T] by simp
  have mp: "p_pgdir (myproc ?u) = ?pd" by (simp add: myproc_def)
  have "mappages_from j ?pd ?va (V2P m) x ?u = Panic ''remap''" for j x
    unfolding mappages_from.simps [of j] w bindr.simps case_prod_conv if_not_P [OF nz] kr if_P [OF pr] ..
  then have "mappages ?pd ?va PGSIZE (V2P m) x ?u = Panic ''remap''" for x
    by (simp only: mappages_def Let_def one_page [OF round_down(1,2) [OF v]])
  then have "page_fault (te_cr2 env) s = Panic ''remap''"
    unfolding page_fault_def Let_def k bindr.simps case_prod_conv if_not_P [OF m0] z mp by simp
  then show ?thesis using assms(3,4) by (simp add: lazy_trap_def lazy_dispatch_def)
qed

end
