(* ===== verification/Signals.thy ===== *)
theory Signals
  imports Syscall
begin

text \<open>
  Lab 5 (\<open>160050097_lab5\<close>: \<open>proc.c\<close>, \<open>sysproc.c\<close>): signals and timed pauses that the scheduler obeys, and orphans that go
  to their grandparent. The rest of this kernel agrees with the one modelled in the other theories.
\<close>

section \<open>State\<close>

definition SIGNAL_PAUSE :: int where "SIGNAL_PAUSE = 1"
definition SIGNAL_KILL :: int where "SIGNAL_KILL = 2"

text \<open>The fields \<open>sig\<close> and \<open>ft\<close> that \<open>struct proc\<close> has in addition, by the index of the process.\<close>

record sigk = prock +
  psig :: "nat \<Rightarrow> int"
  pft :: "nat \<Rightarrow> int"

text \<open>What \<open>fork\<close> and \<open>userinit\<close> set in a new process.\<close>

definition fresh_signals :: "nat \<Rightarrow> 'a sigk_scheme \<Rightarrow> 'a sigk_scheme" where
  "fresh_signals np s = s\<lparr>psig := (psig s)(np := 0), pft := (pft s)(np := -1)\<rparr>"

section \<open>The scheduler\<close>

text \<open>A process waits for its time: \<open>ticks\<close> is unsigned, and so is the comparison.\<close>

definition held_back :: "'a sigk_scheme \<Rightarrow> nat \<Rightarrow> bool" where
  "held_back s p \<longleftrightarrow> 0 < pft s p \<and> ticks s \<le> u32_of (pft s p)"

fun sig_scan :: "nat \<Rightarrow> nat \<Rightarrow> 'a sigk_scheme \<Rightarrow> (nat option \<times> 'a sigk_scheme) res" where
  "sig_scan 0 p s = Ok (None, s)"
| "sig_scan (Suc k) p s =
     (if held_back s p then sig_scan k (p + 1) s
      else if p_state (ptable s ! p) \<noteq> RUNNABLE \<or> psig s p = SIGNAL_PAUSE then sig_scan k (p + 1) s
      else
        let s = (if psig s p = SIGNAL_KILL then upd_proc p (\<lambda>x. x\<lparr>p_killed := True\<rparr>) s else s)
        in bindr (switchuvm (Some (ptable s ! p)) (s\<lparr>cur := Some p\<rparr>)) (\<lambda>s.
           Ok (Some p, upd_proc p (\<lambda>x. x\<lparr>p_state := RUNNING\<rparr>) s)))"

text \<open>The pass over the table and the round around it, as in the other kernel.\<close>

fun sig_pass :: "nat \<Rightarrow> (nat \<Rightarrow> 'a sigk_scheme \<Rightarrow> 'a sigk_scheme res) \<Rightarrow> nat \<Rightarrow> 'a sigk_scheme \<Rightarrow>
    (nat list \<times> 'a sigk_scheme) res" where
  "sig_pass 0 run p s = Ok ([], s)"
| "sig_pass (Suc k) run p s =
     bindr (sig_scan (NPROC - p) p s) (\<lambda>(r, s).
     case r of
       None \<Rightarrow> Ok ([], s)
     | Some i \<Rightarrow>
         bindr (run i s) (\<lambda>s.
         bindr (sig_pass k run (i + 1) (scheduler_resume s)) (\<lambda>(is, s). Ok (i # is, s))))"

definition sig_round :: "(nat \<Rightarrow> 'a sigk_scheme \<Rightarrow> 'a sigk_scheme res) \<Rightarrow> 'a sigk_scheme \<Rightarrow>
    (nat list \<times> 'a sigk_scheme) res" where
  "sig_round run s =
     bindr (acquire LPtable s) (\<lambda>s.
     bindr (sig_pass (NPROC + 1) run 0 s) (\<lambda>(is, s).
     bindr (release LPtable s) (\<lambda>s. Ok (is, s))))"

section \<open>The system calls\<close>

definition signal_process :: "int \<Rightarrow> int \<Rightarrow> 'a sigk_scheme \<Rightarrow> (int \<times> 'a sigk_scheme) res" where
  "signal_process pid signal s =
     bindr (acquire LPtable s) (\<lambda>s.
     let (a, s) = (case first_idx NPROC (\<lambda>i. p_pid (ptable s ! i) = pid) of
                     Some p \<Rightarrow> (signal, s\<lparr>psig := (psig s)(p := signal)\<rparr>)
                   | None \<Rightarrow> (-1, s))
     in bindr (release LPtable s) (\<lambda>s. Ok (a, s)))"

definition pause :: "int \<Rightarrow> int \<Rightarrow> 'a sigk_scheme \<Rightarrow> (int \<times> 'a sigk_scheme) res" where
  "pause pid duration s =
     bindr (acquire LPtable s) (\<lambda>s.
     let s = (case first_idx NPROC (\<lambda>i. p_pid (ptable s ! i) = pid) of
                Some p \<Rightarrow>
                  s\<lparr>pft := (pft s)(p :=
                     if pft s p = -1 then s32 (wrap32 (ticks s + u32_of duration))
                     else if u32_of (pft s p) > ticks s then s32 (u32_of (pft s p + duration))
                     else s32 (wrap32 (ticks s + u32_of duration)))\<rparr>
              | None \<Rightarrow> s)
     in bindr (release LPtable s) (\<lambda>s. Ok (0, s)))"

definition sys_signal_process :: "'a sigk_scheme \<Rightarrow> (int \<times> 'a sigk_scheme) res" where
  "sys_signal_process s =
     with_arg (argint 0 s) (\<lambda>pid. with_arg (argint 1 s) (\<lambda>signal. signal_process pid signal s) s) s"

definition sys_pause :: "'a sigk_scheme \<Rightarrow> (int \<times> 'a sigk_scheme) res" where
  "sys_pause s =
     with_arg (argint 0 s) (\<lambda>pid. with_arg (argint 1 s) (\<lambda>duration. pause pid duration s) s) s"

text \<open>The first process has no parent: the code follows a null pointer.\<close>

definition sys_getppid :: "'a ksys_scheme \<Rightarrow> (int \<times> 'a ksys_scheme) res" where
  "sys_getppid s =
     (case p_parent (myproc s) of Some p \<Rightarrow> Ok (p_pid (ptable s ! p), s) | None \<Rightarrow> Panic ''null'')"

section \<open>Orphans\<close>

text \<open>
  The entry with the identifier of the parent; the search of the code ends behind the table, at index \<open>NPROC\<close>, when it finds
  none.
\<close>

definition grandparent :: "nat \<Rightarrow> 'a ksys_scheme \<Rightarrow> nat" where
  "grandparent me s =
     (let grand_p = p_pid (ptable s ! the (p_parent (ptable s ! me)))
      in case first_idx NPROC (\<lambda>i. p_pid (ptable s ! i) = grand_p) of Some i \<Rightarrow> i | None \<Rightarrow> NPROC)"

fun adopt :: "nat \<Rightarrow> nat \<Rightarrow> nat \<Rightarrow> nat \<Rightarrow> 'a ksys_scheme \<Rightarrow> 'a ksys_scheme" where
  "adopt 0 p me temp s = s"
| "adopt (Suc k) p me temp s =
     (if p_parent (ptable s ! p) = Some me
      then
        let s = upd_proc p (\<lambda>x. x\<lparr>p_parent := Some temp\<rparr>) s;
            s = (if p_state (ptable s ! p) = ZOMBIE then wakeup1 (proc_chan (initproc s)) s else s)
        in adopt k (p + 1) me temp s
      else adopt k (p + 1) me temp s)"

text \<open>\<open>exit\<close> up to the switch that never comes back.\<close>

definition sig_exit_enter :: "'a sigk_scheme \<Rightarrow> 'a sigk_scheme res" where
  "sig_exit_enter s =
     (let me = the (cur s)
      in if cur s = initproc s then Panic ''init exiting''
         else
           bindr (close_files NOFILE 0 s) (\<lambda>s.
           bindr (begin_op s) (\<lambda>s.
           bindr (iput (the (p_cwd (myproc s))) s) (\<lambda>s.
           bindr (end_op s) (\<lambda>s.
           bindr (acquire LPtable (upd_proc me (\<lambda>x. x\<lparr>p_cwd := None\<rparr>) s)) (\<lambda>s.
           let s = wakeup1 (proc_chan (p_parent (myproc s))) s;
               s = adopt NPROC 0 me (grandparent me s) s
           in sched_enter (upd_proc me (\<lambda>x. x\<lparr>p_state := ZOMBIE\<rparr>) s)))))))"

end
