(* ===== verification/SignalSpec.thy ===== *)
theory SignalSpec
  imports Signals ProcSpec
begin

text \<open>
  The scheduler of lab 5 obeys signals and pauses and is still fair; a pause lasts as long as it was asked to; orphans go to
  their grandparent.
\<close>

section \<open>The scheduler\<close>

text \<open>A process that may run now.\<close>

definition may_run :: "'a sigk_scheme \<Rightarrow> nat \<Rightarrow> bool" where
  "may_run s p \<longleftrightarrow> pstate s p = RUNNABLE \<and> psig s p \<noteq> SIGNAL_PAUSE \<and> \<not> held_back s p"

text \<open>
  What a process that is started has to satisfy, stated without the test in the code: it runs, it is not stopped, the time
  until which it pauses (the field as an unsigned number) is before now, and it is marked when its signal is to kill it.
\<close>

definition runs_lawfully :: "'a sigk_scheme \<Rightarrow> nat \<Rightarrow> bool" where
  "runs_lawfully s p \<longleftrightarrow> pstate s p = RUNNING \<and> psig s p \<noteq> SIGNAL_PAUSE
     \<and> (0 < pft s p \<longrightarrow> pft s p mod 4294967296 < int (ticks s))
     \<and> (psig s p = SIGNAL_KILL \<longrightarrow> p_killed (ptable s ! p))"

lemma upd_proc_signals [simp]: "psig (upd_proc i f s) = psig s" "pft (upd_proc i f s) = pft s"
  by (simp_all add: upd_proc_def)

lemma held_back_cong: "pft t = pft s \<Longrightarrow> ticks t = ticks s \<Longrightarrow> held_back t p = held_back s p"
  by (simp add: held_back_def)

text \<open>The state in which the scan leaves a process it starts.\<close>

definition started :: "'a sigk_scheme \<Rightarrow> nat \<Rightarrow> 'a sigk_scheme \<Rightarrow> bool" where
  "started s i t \<longleftrightarrow> cur t = Some i \<and> held t = held s \<and> ticks t = ticks s \<and> psig t = psig s \<and> pft t = pft s
     \<and> ptable t = (ptable s)[i := (ptable s ! i)\<lparr>p_killed := p_killed (ptable s ! i) \<or> psig s i = SIGNAL_KILL, p_state := RUNNING\<rparr>]"

lemma switchuvm_Ok:
  assumes "switchuvm p s = Ok t"
  shows "cur t = cur s \<and> held t = held s \<and> ticks t = ticks s \<and> ptable t = ptable s \<and> (\<exists>a b. t = s\<lparr>tss_esp0 := a, cr3 := b\<rparr>)"
  using assms by (auto simp: switchuvm_def split: option.splits if_splits)

lemma sig_scan_found:
  "sig_scan k p s = Ok (r, t) \<Longrightarrow> length (ptable s) = NPROC \<Longrightarrow> p + k \<le> NPROC \<Longrightarrow>
   (r = None \<longrightarrow> t = s) \<and> (\<forall>i. r = Some i \<longrightarrow> p \<le> i \<and> i < NPROC \<and> may_run s i \<and> started s i t)"
proof (induction k arbitrary: p)
  case (Suc k)
  show ?case
  proof (cases "may_run s p")
    case True
    have p: "p < length (ptable s)" using Suc.prems by simp
    let ?s = "if psig s p = SIGNAL_KILL then upd_proc p (\<lambda>x. x\<lparr>p_killed := True\<rparr>) s else s"
    obtain u where u: "switchuvm (Some (ptable ?s ! p)) (?s\<lparr>cur := Some p\<rparr>) = Ok u" and r: "r = Some p"
      and t: "t = upd_proc p (\<lambda>x. x\<lparr>p_state := RUNNING\<rparr>) u"
      using Suc.prems(1) True by (auto simp: may_run_def bindr_eq_Ok Let_def)
    from switchuvm_Ok [OF u] obtain a b where "u = (?s\<lparr>cur := Some p\<rparr>)\<lparr>tss_esp0 := a, cr3 := b\<rparr>" by blast
    then have "started s p t"
      using p by (auto simp: started_def t upd_proc_def)
    then show ?thesis using r True Suc.prems(3) by auto
  next
    case False
    then have "sig_scan k (p + 1) s = Ok (r, t)" using Suc.prems(1) by (auto simp: may_run_def split: if_splits)
    from Suc.IH [OF this Suc.prems(2)] show ?thesis using Suc.prems(3) by auto
  qed
qed simp

lemma started_lawful: "may_run s i \<Longrightarrow> started s i t \<Longrightarrow> i < length (ptable s) \<Longrightarrow> runs_lawfully t i"
  by (auto simp: may_run_def started_def runs_lawfully_def held_back_def u32_of_def)

text \<open>Every process that may run has a kernel stack and a page table.\<close>

lemma sig_scan_first:
  assumes "table_ok s" "p + k = NPROC"
  shows "(\<forall>j. p \<le> j \<and> j < NPROC \<longrightarrow> \<not> may_run s j) \<and> sig_scan k p s = Ok (None, s)
     \<or> (\<exists>i t. p \<le> i \<and> i < NPROC \<and> may_run s i \<and> (\<forall>j. p \<le> j \<and> j < i \<longrightarrow> \<not> may_run s j)
         \<and> sig_scan k p s = Ok (Some i, t) \<and> started s i t)"
  using assms(2)
proof (induction k arbitrary: p)
  case 0
  then show ?case by auto
next
  case (Suc k)
  show ?case
  proof (cases "may_run s p")
    case True
    let ?s = "if psig s p = SIGNAL_KILL then upd_proc p (\<lambda>x. x\<lparr>p_killed := True\<rparr>) s else s"
    have p: "p < length (ptable s)" using Suc.prems assms(1) by (simp add: table_ok_def)
    have "p_kstack (ptable s ! p) \<noteq> 0" "p_pgdir (ptable s ! p) \<noteq> 0"
      using assms(1) True Suc.prems by (simp_all add: table_ok_def may_run_def)
    then have "p_kstack (ptable ?s ! p) \<noteq> 0" "p_pgdir (ptable ?s ! p) \<noteq> 0" using p by simp_all
    then obtain u where "switchuvm (Some (ptable ?s ! p)) (?s\<lparr>cur := Some p\<rparr>) = Ok u" by (simp add: switchuvm_def)
    then have e: "sig_scan (Suc k) p s = Ok (Some p, upd_proc p (\<lambda>x. x\<lparr>p_state := RUNNING\<rparr>) u)"
      using True by (auto simp: may_run_def Let_def)
    have "started s p (upd_proc p (\<lambda>x. x\<lparr>p_state := RUNNING\<rparr>) u)"
      using sig_scan_found [OF e] assms(1) Suc.prems by (simp add: table_ok_def)
    then show ?thesis using e True Suc.prems by (intro disjI2 exI [of _ p]) auto
  next
    case False
    then have e: "sig_scan (Suc k) p s = sig_scan k (Suc p) s" by (auto simp: may_run_def)
    have r: "(\<forall>j. p \<le> j \<and> P j \<longrightarrow> \<not> may_run s j) = (\<forall>j. Suc p \<le> j \<and> P j \<longrightarrow> \<not> may_run s j)" for P
      using False by (metis Suc_leD Suc_leI order_le_less)
    have "Suc p + k = NPROC" using Suc.prems by simp
    from Suc.IH [OF this] show ?thesis unfolding e r by (meson Suc_leD)
  qed
qed

interpretation sig: round_robin sig_scan scheduler_resume NPROC "\<lambda>s. table_ok s \<and> LPtable \<in> held s"
  "\<lambda>s i. cur s = Some i" may_run
proof (unfold_locales, goal_cases)
  case (1 s p k)
  then have ok: "table_ok s" "LPtable \<in> held s" by simp_all
  have st: "(table_ok t \<and> LPtable \<in> held t) \<and> cur t = Some i \<and> (\<forall>j < NPROC. j \<noteq> i \<longrightarrow> may_run s j \<longrightarrow> may_run t j)"
    if "i < NPROC" "started s i t" for i t
    using ok that by (auto simp: started_def table_ok_def may_run_def held_back_def nth_list_update split: if_splits)
  from sig_scan_first [OF ok(1) 1(2)] show ?case
    by (elim disjE conjE exE) (blast, rule disjI2, blast dest: st)
qed (simp_all add: scheduler_resume_def switchkvm_def table_ok_def may_run_def held_back_def)

lemma sig_pass_rr: "sig_pass k run p s = rr_pass sig_scan scheduler_resume NPROC k run p s"
  by (induction k arbitrary: p s) (simp_all cong: option.case_cong)

text \<open>
  Signals do not make the scheduler unfair: a round over processes that come back, and do not pause each other, ends, runs none
  twice and runs every process that was runnable, not stopped by a signal and not waiting for its time when it began.
\<close>

theorem sig_round_fair:
  assumes "comes_back NPROC (\<lambda>s. table_ok s \<and> LPtable \<in> held s) (\<lambda>s i. cur s = Some i) may_run run"
    and "table_ok s" "LPtable \<notin> held s"
  shows "okP (sig_round run s) (\<lambda>(is, t). sorted_wrt (<) is \<and> set is \<subseteq> {..<NPROC}
     \<and> {j. j < NPROC \<and> may_run s j} \<subseteq> set is \<and> LPtable \<notin> held t)"
proof -
  let ?s = "s\<lparr>held := insert LPtable (held s)\<rparr>"
  have m: "may_run ?s = may_run s" by (simp add: fun_eq_iff may_run_def held_back_def)
  have "okP (sig_pass (NPROC + 1) run 0 ?s) (\<lambda>(is, t). rr_fair NPROC may_run 0 ?s is \<and> table_ok t \<and> LPtable \<in> held t)"
    unfolding sig_pass_rr by (rule sig.pass_fair [OF assms(1)]) (use assms(2) in \<open>simp_all add: table_ok_def\<close>)
  then have "okP (sig_pass (NPROC + 1) run 0 ?s) (\<lambda>(is, t). okP (release LPtable t) (\<lambda>t. sorted_wrt (<) is \<and> set is \<subseteq> {..<NPROC}
     \<and> {j. j < NPROC \<and> may_run s j} \<subseteq> set is \<and> LPtable \<notin> held t))"
    by (rule okP_mono) (auto simp: rr_fair_def m)
  then show ?thesis using assms(3) by (simp add: sig_round_def split_def)
qed

text \<open>
  C6: The scheduler obeys signals and pauses. In a round it lets a process run only when it is not stopped by a signal and its
  time has come, and, when its signal is to kill it, only with the mark that ends it at its next trap: a round in
  which every other start of a process is a panic has the same result.
\<close>

theorem sig_round_obeys:
  fixes s :: "'a sigk_scheme"
  assumes "length (ptable s) = NPROC" and "\<And>i t u. run i t = Ok u \<Longrightarrow> length (ptable u) = length (ptable t)"
  shows "sig_round run s = sig_round (\<lambda>i t. if runs_lawfully t i then run i t else Panic ''unlawful'') s"
proof -
  let ?run = "\<lambda>i t. if runs_lawfully t i then run i t else Panic ''unlawful''"
  have "sig_pass k run p t = sig_pass k ?run p t" if "length (ptable t) = NPROC" "p \<le> NPROC" for k p and t :: "'a sigk_scheme"
    using that
  proof (induction k arbitrary: p t)
    case (Suc k)
    show ?case
    proof (cases "sig_scan (NPROC - p) p t")
      case (Ok x)
      obtain r u where x: "x = (r, u)" by (cases x)
      show ?thesis
      proof (cases r)
        case (Some i)
        have i: "i < NPROC" "may_run t i" "started t i u" using sig_scan_found [of "NPROC - p" p t r u] Ok Suc.prems x Some by auto
        have law: "runs_lawfully u i" using started_lawful [OF i(2,3)] i(1) Suc.prems(1) by simp
        have lu: "length (ptable u) = NPROC" using i(3) Suc.prems(1) by (simp add: started_def)
        have "sig_pass k run (i + 1) (scheduler_resume v) = sig_pass k ?run (i + 1) (scheduler_resume v)" if "run i u = Ok v" for v
          using assms(2) [OF that] lu i(1) by (intro Suc.IH) (simp_all add: scheduler_resume_def switchkvm_def)
        then show ?thesis using law by (cases "run i u") (simp_all add: Ok x Some)
      qed (simp add: Ok x)
    qed simp_all
  qed simp
  from this [of "s\<lparr>held := insert LPtable (held s)\<rparr>" 0] show ?thesis using assms(1) 
    by (simp add: sig_round_def acquire_def del: sig_pass.simps)
qed

text \<open>Two runnable processes, of which the first has been stopped by a signal.\<close>

definition demo_signals :: sigk where
  "demo_signals = \<lparr>held = {}, ram = demo_ram, freelist = 0, use_lock = True, kend = KERNBASE + 8388608,
     ptable = (replicate NPROC zero_proc)[3 := demo_proc\<lparr>p_state := RUNNABLE\<rparr>, 5 := demo_proc\<lparr>p_state := RUNNABLE, p_pid := 7, p_parent := Some 3\<rparr>],
     cur = Some 3, nextpid = 8, initproc = Some 0, ticks = 40,
     bufs = (\<lambda>_. zero_buf), lru = [], idequeue = [], ide_status = 64, ide_cmd = (0, 0), havedisk1 = True,
     disk = blank, wtrace = [], lg = demo_logst, sb = demo_sb, inodes = (\<lambda>_. demo_ino),
     cons_locking = True, panicked = False, uart = True, uart_out = [], crt = (\<lambda>_. 0), crtpos = 0,
     inp_buf = (\<lambda>_. 0), inp_r = 0, inp_w = 0, inp_e = 0, devsw = (\<lambda>_. False),
     kpgdir = KERNBASE + 28672, cr3 = 0, tss_esp0 = 0, kdata = KERNBASE + 4194304,
     ftable = (\<lambda>_. \<lparr>f_type = FD_NONE, f_ref = 0, f_readable = False, f_writable = False, f_pipe = 0, f_ip = 0, f_off = 0\<rparr>),
     pipes = (\<lambda>_. \<lparr>pp_data = (\<lambda>_. 0), pp_nread = 0, pp_nwrite = 0, pp_readopen = True, pp_writeopen = True\<rparr>),
     forkret_first = False, psig = (\<lambda>_. 0)(3 := SIGNAL_PAUSE), pft = (\<lambda>_. -1)\<rparr>"

lemma demo_signals_table:
  "length (ptable demo_signals) = NPROC" "table_ok demo_signals" "pstate demo_signals 3 = RUNNABLE" "pstate demo_signals 5 = RUNNABLE"
proof -
  have n: "3 < NPROC" "5 < NPROC" by (simp_all add: NPROC_def)
  have "p_state zero_proc = UNUSED" "p_kstack demo_proc \<noteq> 0" "p_pgdir demo_proc \<noteq> 0"
    by (simp_all add: zero_proc_def demo_proc_def KERNBASE_def)
  then show "table_ok demo_signals" using n by (auto simp: table_ok_def demo_signals_def nth_list_update split: if_splits)
  show "length (ptable demo_signals) = NPROC" "pstate demo_signals 3 = RUNNABLE" "pstate demo_signals 5 = RUNNABLE"
    using n by (simp_all add: demo_signals_def)
qed

definition sig_sleep :: "nat \<Rightarrow> sigk \<Rightarrow> sigk res" where
  "sig_sleep i s = Ok (upd_proc i (\<lambda>p. p\<lparr>p_state := SLEEPING\<rparr>) s)"

lemma sig_round_fair_witness:
  "okP (sig_round sig_sleep demo_signals) (\<lambda>(is, t). 5 \<in> set is)"
proof -
  have b: "comes_back NPROC (\<lambda>s. table_ok s \<and> LPtable \<in> held s) (\<lambda>s i. cur s = Some i) may_run sig_sleep"
    by (auto simp: comes_back_def sig_sleep_def table_ok_def may_run_def held_back_def nth_list_update split: if_splits)
  have "may_run demo_signals 5" "5 < NPROC" "LPtable \<notin> held demo_signals"
    using demo_signals_table(4) by (simp_all add: may_run_def held_back_def NPROC_def) (simp_all add: demo_signals_def SIGNAL_PAUSE_def)
  then show ?thesis using demo_signals_table(2) by (intro okP_mono [OF sig_round_fair [OF b]]) auto
qed

lemma sig_round_obeys_witness:
  "sig_round sig_sleep demo_signals = sig_round (\<lambda>i t. if runs_lawfully t i then sig_sleep i t else Panic ''unlawful'') demo_signals"
  by (rule sig_round_obeys [OF demo_signals_table(1)]) (auto simp: sig_sleep_def)

section \<open>Pauses\<close>

text \<open>
  A pause lasts as long as it was asked to: from a process that does not wait yet, \<open>pause\<close> with a positive duration holds it
  back until that many ticks have passed, and one that waits already waits that much longer.
\<close>

theorem pause_lasts:
  fixes s :: "'a sigk_scheme"
  assumes "LPtable \<notin> held s" and "first_idx NPROC (\<lambda>i. p_pid (ptable s ! i) = pid) = Some p" and "0 < duration"
    and "0 < pft s p \<or> pft s p = -1" and "int (ticks s) + duration < 2147483648" and "pft s p + duration < 2147483648"
  shows "okP (pause pid duration s) (\<lambda>(r, t). r = 0 \<and> (\<forall>u :: 'a sigk_scheme. pft u p = pft t p \<longrightarrow>
     (held_back u p \<longleftrightarrow> int (ticks u) \<le> (if int (ticks s) < pft s p then pft s p else int (ticks s)) + duration))
     \<and> (\<forall>i. i \<noteq> p \<longrightarrow> pft t i = pft s i) \<and> ptable t = ptable s)"
proof -
  have l: "LPtable \<notin> insert LPtable (held s) - {LPtable}" by simp
  let ?f = "if int (ticks s) < pft s p then pft s p + duration else int (ticks s) + duration"
  have w: "s32 (wrap32 (ticks s + u32_of duration)) = int (ticks s) + duration"
    using assms(3,5) by (simp add: u32_of_def wrap32_def s32_def)
  have w2: "s32 (u32_of (pft s p + duration)) = pft s p + duration" if "0 < pft s p"
    using that assms(3,6) by (intro s32_u32_of) simp_all
  have u: "u32_of (pft s p) = nat (pft s p)" if "0 < pft s p" using that assms(3,6) by (simp add: u32_of_def)
  let ?t = "s\<lparr>pft := (pft s)(p := ?f)\<rparr>"
  have "pause pid duration s = Ok (0, ?t)"
  proof (cases "pft s p = -1")
    case True
    then show ?thesis using assms(1,2) w by (simp add: pause_def Let_def)
  next
    case False
    then have "0 < pft s p" using assms(4) by simp
    then show ?thesis using assms(1,2) w w2 u by (simp add: pause_def Let_def zless_nat_eq_int_zless)
  qed
  moreover have "held_back u p \<longleftrightarrow> int (ticks u) \<le> ?f" if "pft u p = ?f" for u :: "'a sigk_scheme"
  proof -
    have "0 < ?f" "?f < 2147483648" using assms(3,5,6) by auto
    then show ?thesis unfolding held_back_def that by (simp add: u32_of_def le_nat_iff split del: if_split)
  qed
  ultimately show ?thesis by auto
qed

lemma pause_lasts_witness:
  "okP (pause 7 5 demo_signals) (\<lambda>(r, t). held_back (t\<lparr>ticks := 45\<rparr>) 5 \<and> \<not> held_back (t\<lparr>ticks := 46\<rparr>) 5)"
proof -
  have n: "3 < NPROC" "5 < NPROC" by (simp_all add: NPROC_def)
  have "p_pid demo_proc \<noteq> 7" "p_pid zero_proc \<noteq> 7" by (simp_all add: demo_proc_def zero_proc_def)
  then have "first_idx NPROC (\<lambda>i. p_pid (ptable demo_signals ! i) = 7) = Some 5"
    using n by (auto simp: first_idx_Some demo_signals_def nth_list_update)
  note w = pause_lasts [OF _ this, of 5]
  show ?thesis
    by (rule okP_mono [OF w]) (auto simp: demo_signals_def)
qed

section \<open>Orphans\<close>

text \<open>No other process has the identifier of the parent of \<open>me\<close>, which is in the table.\<close>

definition has_parent :: "nat \<Rightarrow> nat \<Rightarrow> 'a ksys_scheme \<Rightarrow> bool" where
  "has_parent me q s \<longleftrightarrow> p_parent (ptable s ! me) = Some q \<and> q < NPROC \<and> q \<noteq> me
     \<and> (\<forall>i < NPROC. p_pid (ptable s ! i) = p_pid (ptable s ! q) \<longrightarrow> i = q)"

lemma grandparent_eq: "has_parent me q s \<Longrightarrow> grandparent me s = q"
proof -
  assume h: "has_parent me q s"
  then have q: "q < NPROC" "\<And>i. i < NPROC \<Longrightarrow> p_pid (ptable s ! i) = p_pid (ptable s ! q) \<Longrightarrow> i = q"
    by (auto simp: has_parent_def)
  have "p_pid (ptable s ! l) \<noteq> p_pid (ptable s ! q)" if "l < q" for l using q(2) [of l] q(1) that by auto
  then have "first_idx NPROC (\<lambda>i. p_pid (ptable s ! i) = p_pid (ptable s ! q)) = Some q"
    using q(1) by (simp add: first_idx_Some)
  then show ?thesis using h by (simp add: grandparent_def has_parent_def)
qed

lemma adopt_parents:
  assumes "length (ptable s) = NPROC" "p + k \<le> NPROC" "temp \<noteq> me" "i < NPROC"
  shows "p_parent (ptable (adopt k p me temp s) ! i) =
      (if p \<le> i \<and> i < p + k \<and> p_parent (ptable s ! i) = Some me then Some temp else p_parent (ptable s ! i))"
  using assms
proof (induction k arbitrary: p s)
  case (Suc k)
  show ?case
  proof (cases "p_parent (ptable s ! p) = Some me")
    case True
    let ?u = "upd_proc p (\<lambda>x. x\<lparr>p_parent := Some temp\<rparr>) s"
    let ?v = "if p_state (ptable ?u ! p) = ZOMBIE then wakeup1 (proc_chan (initproc ?u)) ?u else ?u"
    have v: "length (ptable ?v) = NPROC" "\<And>j. j < NPROC \<Longrightarrow> p_parent (ptable ?v ! j) = (if j = p then Some temp else p_parent (ptable s ! j))"
      using Suc.prems by (auto simp: wake_proc_def nth_list_update)
    have e: "adopt (Suc k) p me temp s = adopt k (p + 1) me temp ?v" using True by (simp add: Let_def)
    show ?thesis unfolding e using Suc.IH [OF v(1), of "p + 1"] Suc.prems v(2) True by auto
  next
    case False
    then show ?thesis using Suc by (auto simp: not_less_eq_eq le_Suc_eq)
  qed
qed simp

text \<open>
  Orphans go to their grandparent: when process \<open>me\<close> gives its children away in \<open>exit\<close>, every child of it becomes a child of
  the parent of \<open>me\<close>, no process is left with \<open>me\<close> as its parent, and no other process changes its parent.
\<close>

theorem orphans_to_grandparent:
  assumes "length (ptable s) = NPROC" and "has_parent me q s" and "i < NPROC"
  shows "p_parent (ptable (adopt NPROC 0 me (grandparent me s) s) ! i) =
    (if p_parent (ptable s ! i) = Some me then Some q else p_parent (ptable s ! i))"
  using adopt_parents [OF assms(1), of 0 NPROC q me i] assms(2,3) grandparent_eq [OF assms(2)]
  by (simp add: has_parent_def)

text \<open>Process 6 is the child of process 5, and this of process 3.\<close>

lemma orphans_to_grandparent_witness:
  "p_parent (ptable (adopt NPROC 0 5 (grandparent 5 (demo_signals\<lparr>ptable := (replicate NPROC zero_proc)[3 := demo_proc,
     5 := demo_proc\<lparr>p_pid := 7, p_parent := Some 3\<rparr>, 6 := demo_proc\<lparr>p_pid := 8, p_parent := Some 5\<rparr>]\<rparr>))
     (demo_signals\<lparr>ptable := (replicate NPROC zero_proc)[3 := demo_proc,
     5 := demo_proc\<lparr>p_pid := 7, p_parent := Some 3\<rparr>, 6 := demo_proc\<lparr>p_pid := 8, p_parent := Some 5\<rparr>]\<rparr>)) ! 6) = Some 3"
  (is "p_parent (ptable (adopt NPROC 0 5 (grandparent 5 ?s) ?s) ! 6) = _")
proof -
  have n: "3 < NPROC" "5 < NPROC" "6 < NPROC" by (simp_all add: NPROC_def)
  have "p_pid zero_proc = 0" "p_pid demo_proc = 1" by (simp_all add: zero_proc_def demo_proc_def)
  then have "has_parent 5 3 ?s" using n by (auto simp: has_parent_def nth_list_update split: if_splits)
  then show ?thesis using orphans_to_grandparent [of ?s 5 3 6] n by simp
qed

end
