(* ===== verification/Siblings.thy ===== *)
theory Siblings
  imports Syscall ConsoleSpec
begin

text \<open>
  Lab 4 (\<open>160050097_lab4\<close>: \<open>proc.c\<close>, \<open>sysproc.c\<close>): the system call that prints the siblings of a process. The rest of this
  kernel agrees with the one modelled in the other theories.
\<close>

text \<open>The \<open>switch\<close> of \<open>get_sibling_info\<close>.\<close>

definition sibling_state :: "procstate \<Rightarrow> string" where
  "sibling_state st = (case st of UNUSED \<Rightarrow> ''UNUSED'' | EMBRYO \<Rightarrow> ''EMBRYO'' | SLEEPING \<Rightarrow> ''SLEEPING''
     | RUNNABLE \<Rightarrow> ''UNUSED'' | RUNNING \<Rightarrow> ''RUNNING'' | ZOMBIE \<Rightarrow> ''ZOMBIE'')"

text \<open>Its loop over the \<open>k\<close> entries from \<open>p\<close> on.\<close>

fun siblings_from :: "nat \<Rightarrow> nat \<Rightarrow> nat option \<Rightarrow> int \<Rightarrow> 'a consk_scheme \<Rightarrow> 'a consk_scheme res" where
  "siblings_from 0 p par my_pid s = Ok s"
| "siblings_from (Suc k) p par my_pid s =
     (if p_parent (ptable s ! p) = par \<and> p_pid (ptable s ! p) \<noteq> my_pid
      then
        bindr (cprintf (chars ''%d '') [CInt (p_pid (ptable s ! p))] s) (\<lambda>s.
        bindr (cprintf (chars (sibling_state (p_state (ptable s ! p))) @ [10]) [] s) (siblings_from k (p + 1) par my_pid))
      else siblings_from k (p + 1) par my_pid s)"

definition get_sibling_info :: "'a consk_scheme \<Rightarrow> (int \<times> 'a consk_scheme) res" where
  "get_sibling_info s =
     (let par = p_parent (myproc s)
      in bindr (acquire LPtable s) (\<lambda>s.
         let my_pid = p_pid (myproc s)
         in bindr (siblings_from NPROC 0 par my_pid s) (\<lambda>s.
            bindr (release LPtable s) (\<lambda>s. Ok (0, s)))))"

definition sys_hello :: "'a consk_scheme \<Rightarrow> (int \<times> 'a consk_scheme) res" where
  "sys_hello s = bindr (cprintf (chars ''Hi! Welcome to the world of xv6!'' @ [10]) [] s) (\<lambda>s. Ok (0, s))"

section \<open>What is printed\<close>

text \<open>The line of one sibling, and the text for the entries from \<open>p\<close> on.\<close>

definition sibling_line :: "proc \<Rightarrow> nat list" where
  "sibling_line x = printint (p_pid x) 10 True @ [32] @ chars (sibling_state (p_state x)) @ [10]"

definition sibling_text :: "proc \<Rightarrow> proc list \<Rightarrow> nat list" where
  "sibling_text me ps = concat (map sibling_line (filter (\<lambda>x. p_parent x = p_parent me \<and> p_pid x \<noteq> p_pid me) ps))"

lemma printint_bytes: "2 \<le> b \<Longrightarrow> b \<le> 16 \<Longrightarrow> \<forall>c \<in> set (printint x b sg). c < 256"
proof -
  assume "2 \<le> b" "b \<le> 16"
  then have "\<forall>c \<in> set (int_digits b n). c < 256" for n
    using int_digits_props [of b n] by (auto simp: list_all_iff digit_in_def)
  then show ?thesis by (simp add: printint_def Let_def)
qed

lemma chars_bytes: "c \<in> set (chars cs) \<Longrightarrow> c < 256"
  by (auto simp: chars_def)

lemma sibling_formats:
  "cformat (chars ''%d '') [CInt x] = Some (printint x 10 True @ [32])"
  "cformat (chars (sibling_state st) @ [10]) [] = Some (chars (sibling_state st) @ [10])"
  by (simp add: chars_def of_char_def) (simp add: sibling_state_def chars_def of_char_def split: procstate.splits)

text \<open>The output of a \<open>cprintf\<close>, with what it leaves alone.\<close>

definition printed :: "'a consk_scheme \<Rightarrow> nat list \<Rightarrow> 'a consk_scheme \<Rightarrow> bool" where
  "printed s out t \<longleftrightarrow> on_screen t \<and> csame s t \<and> uart_out t = uart_out s @ out"

lemma printed_trans: "printed s a t \<Longrightarrow> printed t b u \<Longrightarrow> printed s (a @ b) u"
  by (auto simp: printed_def intro: csame_trans)

lemma cprintf_printed:
  assumes "on_screen s" "uart s" "LCons \<notin> held s" "cformat f as = Some out" "\<forall>c \<in> set out. c < 256"
  shows "okP (cprintf f as s) (printed s out)"
  by (rule okP_mono [OF cprintf_ok [OF assms(1,3,4)]]) (use assms(2,5) in \<open>simp add: printed_def\<close>)

lemma siblings_from_printed:
  assumes "on_screen s" "uart s" "LCons \<notin> held s" "p + k = length (ptable s)" "par = p_parent me" "my_pid = p_pid me"
  shows "okP (siblings_from k p par my_pid s) (printed s (sibling_text me (drop p (ptable s))))"
  using assms
proof (induction k arbitrary: p s)
  case 0
  then show ?case by (simp add: printed_def sibling_text_def)
next
  case (Suc k)
  have d: "drop p (ptable s) = ptable s ! p # drop (p + 1) (ptable s)" using Suc.prems(4) by (simp add: Cons_nth_drop_Suc)
  have pt: "printed s a t \<Longrightarrow> on_screen t \<and> uart t \<and> LCons \<notin> held t \<and> ptable t = ptable s" for a and t :: "'a consk_scheme"
    using Suc.prems(2,3) csame_sel [of s t] by (auto simp: printed_def)
  show ?case
  proof (cases "p_parent (ptable s ! p) = par \<and> p_pid (ptable s ! p) \<noteq> my_pid")
    case True
    let ?x = "ptable s ! p"
    have one: "okP (cprintf (chars ''%d '') [CInt (p_pid ?x)] s) (printed s (printint (p_pid ?x) 10 True @ [32]))"
      by (rule cprintf_printed [OF Suc.prems(1-3) sibling_formats(1)]) (use printint_bytes [of 10 "p_pid ?x" True] in auto)
    have two: "okP (cprintf (chars (sibling_state (p_state (ptable t ! p))) @ [10]) [] t) (printed s (sibling_line ?x))"
      if t: "printed s (printint (p_pid ?x) 10 True @ [32]) t" for t
    proof -
      have k: "okP (cprintf (chars (sibling_state (p_state ?x)) @ [10]) [] t) (printed t (chars (sibling_state (p_state ?x)) @ [10]))"
        using pt [OF t] chars_bytes by (intro cprintf_printed [OF _ _ _ sibling_formats(2)]) auto
      have "ptable t = ptable s" using pt [OF t] by simp
      then show ?thesis using okP_mono [OF k printed_trans [OF t]] by (simp add: sibling_line_def)
    qed
    have three: "okP (siblings_from k (p + 1) par my_pid u) (printed s (sibling_line ?x @ sibling_text me (drop (p + 1) (ptable s))))"
      if u: "printed s (sibling_line ?x) u" for u
    proof -
      have k: "okP (siblings_from k (p + 1) par my_pid u) (printed u (sibling_text me (drop (p + 1) (ptable u))))"
        using pt [OF u] Suc.prems(4-6) by (intro Suc.IH) simp_all
      have "ptable u = ptable s" using pt [OF u] by simp
      then show ?thesis using okP_mono [OF k printed_trans [OF u]] by simp
    qed
    have e: "sibling_line ?x @ sibling_text me (drop (p + 1) (ptable s)) = sibling_text me (drop p (ptable s))"
      using True Suc.prems(5,6) by (simp add: d sibling_text_def)
    show ?thesis unfolding siblings_from.simps if_P [OF True] okP_bindr
      by (intro okP_mono [OF one] okP_mono [OF two] three [unfolded e])
  next
    case False
    have "okP (siblings_from k (p + 1) par my_pid s) (printed s (sibling_text me (drop (p + 1) (ptable s))))"
      using Suc.prems by (intro Suc.IH) simp_all
    moreover have "sibling_text me (drop (p + 1) (ptable s)) = sibling_text me (drop p (ptable s))"
      using False Suc.prems(5,6) by (auto simp: d sibling_text_def)
    ultimately show ?thesis using False by auto
  qed
qed

text \<open>
  The call prints one line for every other child of the parent, in the order of the table, and changes nothing else; a process
  that is runnable is printed as unused.
\<close>

theorem sibling_info_prints:
  assumes "on_screen s" "uart s" "LCons \<notin> held s" "LPtable \<notin> held s" "length (ptable s) = NPROC"
  shows "okP (get_sibling_info s) (\<lambda>(r, t). r = 0 \<and> printed s (sibling_text (myproc s) (ptable s)) t)"
proof -
  let ?s = "s\<lparr>held := insert LPtable (held s)\<rparr>"
  have "okP (siblings_from NPROC 0 (p_parent (myproc s)) (p_pid (myproc s)) ?s)
     (printed ?s (sibling_text (myproc s) (drop 0 (ptable ?s))))"
    by (rule siblings_from_printed) (use assms in \<open>simp_all add: on_screen_def\<close>)
  then have "okP (siblings_from NPROC 0 (p_parent (myproc s)) (p_pid (myproc s)) ?s) (\<lambda>t. okP (release LPtable t)
     (\<lambda>t. printed s (sibling_text (myproc s) (ptable s)) t))"
  proof (rule okP_mono)
    fix t assume t: "printed ?s (sibling_text (myproc s) (drop 0 (ptable ?s))) t"
    then have h: "held t = insert LPtable (held s)" and c: "csame ?s t" using csame_sel(3) [of ?s t] by (simp_all add: printed_def)
    have "insert LPtable (held s) - {LPtable} = held s" using assms(4) by auto
    then show "okP (release LPtable t) (\<lambda>t. printed s (sibling_text (myproc s) (ptable s)) t)"
      using t h csame_held [OF c] by (simp add: printed_def on_screen_def)
  qed
  then show ?thesis using assms(4) by (simp add: get_sibling_info_def myproc_def split_def)
qed

lemma sibling_info_prints_witness:
  "okP (get_sibling_info ((demo blank)\<lparr>ptable := demo_proc # demo_proc\<lparr>p_pid := 5, p_state := RUNNABLE\<rparr> # replicate (NPROC - 2) (zero_proc\<lparr>p_parent := Some 9\<rparr>)\<rparr>))
     (\<lambda>(r, t). uart_out t = chars ''5 UNUSED'' @ [10])"
proof -
  let ?s = "(demo blank)\<lparr>ptable := demo_proc # demo_proc\<lparr>p_pid := 5, p_state := RUNNABLE\<rparr> # replicate (NPROC - 2) (zero_proc\<lparr>p_parent := Some 9\<rparr>)\<rparr>"
  have "p_parent demo_proc \<noteq> Some 9" "p_pid demo_proc = 1" by (simp_all add: demo_proc_def zero_proc_def)
  then have "sibling_text (myproc ?s) (ptable ?s) = sibling_line (demo_proc\<lparr>p_pid := 5, p_state := RUNNABLE\<rparr>)"
    by (simp add: sibling_text_def myproc_def)
  also have "\<dots> = chars ''5 UNUSED'' @ [10]"
    by (simp add: sibling_line_def sibling_state_def chars_def of_char_def printint_def int_digits.simps u32_of_def digit_char_eq)
  finally have t: "sibling_text (myproc ?s) (ptable ?s) = chars ''5 UNUSED'' @ [10]" .
  show ?thesis
    by (rule okP_mono [OF sibling_info_prints [of ?s]]) (use t in \<open>auto simp: on_screen_def NPROC_def printed_def\<close>)
qed

end
