(* ===== verification/Ulib.thy ===== *)
theory Ulib
  imports CString
begin

text \<open>
  The C library of user programs, \<open>ulib.c\<close>, and what its programs see of the kernel's \<open>read\<close> and
  \<open>write\<close>. Strings that a program only scans are lists of bytes.
\<close>

section \<open>Strings in memory\<close>

text \<open>The loops run until they meet a zero byte, so they may not return.\<close>

partial_function (option) strcpy_from :: "mem \<Rightarrow> nat \<Rightarrow> nat \<Rightarrow> mem option" where
  "strcpy_from m s t = (let m = m(s := m t) in if m s = 0 then Some m else strcpy_from m (s + 1) (t + 1))"

definition strcpy :: "nat \<Rightarrow> nat \<Rightarrow> mem \<Rightarrow> mem option" where
  "strcpy s t m = strcpy_from m s t"

partial_function (option) strcmp :: "mem \<Rightarrow> nat \<Rightarrow> nat \<Rightarrow> int option" where
  "strcmp m p q =
     (if m p \<noteq> 0 \<and> m p = m q then strcmp m (p + 1) (q + 1) else Some (uint (m p) - uint (m q)))"

partial_function (option) u_strlen_from :: "mem \<Rightarrow> nat \<Rightarrow> nat \<Rightarrow> nat option" where
  "u_strlen_from m s n = (if m (s + n) = 0 then Some n else u_strlen_from m s (n + 1))"

definition u_strlen :: "mem \<Rightarrow> nat \<Rightarrow> nat option" where
  "u_strlen m s = u_strlen_from m s 0"

definition u_memset :: "nat \<Rightarrow> nat \<Rightarrow> nat \<Rightarrow> mem \<Rightarrow> mem" where
  "u_memset dst c n m = stosb dst (of_nat c) n m"

text \<open>The result of \<open>strchr\<close>: the address of the character or 0.\<close>

partial_function (option) strchr :: "mem \<Rightarrow> nat \<Rightarrow> byte \<Rightarrow> nat option" where
  "strchr m s c = (if m s = 0 then Some 0 else if m s = c then Some s else strchr m (s + 1) c)"

text \<open>The upward copy of \<open>memmove\<close>, for a negative count nothing.\<close>

definition u_memmove :: "nat \<Rightarrow> nat \<Rightarrow> int \<Rightarrow> mem \<Rightarrow> mem" where
  "u_memmove dst src n m = copy_up (nat n) dst src m"

text \<open>\<open>atoi\<close> of the rest of a string, with the value \<open>n\<close> of the digits so far.\<close>

fun atoi_from :: "byte list \<Rightarrow> int \<Rightarrow> int" where
  "atoi_from [] n = n"
| "atoi_from (c # s) n =
     (if 48 \<le> unat c \<and> unat c \<le> 57 then atoi_from s (s32 (u32_of (n * 10 + int (unat c) - 48))) else n)"

definition atoi :: "byte list \<Rightarrow> int" where
  "atoi s = atoi_from s 0"

section \<open>Input and output\<close>

text \<open>
  The input left to read, the sizes of the pieces in which a device or a pipe delivers it (a file, and any
  input once the list is empty, fills the buffer of the reader), and the output with the descriptors written to.
\<close>

record uio =
  u_in :: "byte list"
  u_sizes :: "nat list"
  u_out :: "(nat \<times> byte) list"

text \<open>
  A read of \<open>n\<close> bytes delivers at least one and at most \<open>n\<close> bytes as long as there is input, and
  nothing at its end.
\<close>

definition uread :: "nat \<Rightarrow> 'a uio_scheme \<Rightarrow> byte list \<times> 'a uio_scheme" where
  "uread n s =
     (let k = (case u_sizes s of [] \<Rightarrow> n | c # _ \<Rightarrow> min n (max 1 c))
      in (take k (u_in s), s\<lparr>u_in := drop k (u_in s), u_sizes := tl (u_sizes s)\<rparr>))"

definition uwrite :: "nat \<Rightarrow> byte list \<Rightarrow> 'a uio_scheme \<Rightarrow> 'a uio_scheme" where
  "uwrite fd bs s = s\<lparr>u_out := u_out s @ map (Pair fd) bs\<rparr>"

lemma uio_sel [simp]:
  "u_in (uwrite fd bs s) = u_in s" "u_sizes (uwrite fd bs s) = u_sizes s"
  "u_out (uwrite fd bs s) = u_out s @ map (Pair fd) bs"
  "u_out (snd (uread n s)) = u_out s"
  by (simp_all add: uwrite_def uread_def Let_def)

lemma uwrite_Nil [simp]: "uwrite fd [] s = s"
  by (simp add: uwrite_def)

lemma uwrite_append: "uwrite fd (as @ bs) s = uwrite fd bs (uwrite fd as s)"
  by (simp add: uwrite_def)

text \<open>A reader of whole buffers gets the input in pieces of that size.\<close>

lemma uread_full: "u_sizes s = [] \<Longrightarrow> uread n s = (take n (u_in s), s\<lparr>u_in := drop n (u_in s)\<rparr>)"
  by (simp add: uread_def)

lemma uread_1:
  "u_in s = b # r \<Longrightarrow> uread (Suc 0) s = ([b], s\<lparr>u_in := r, u_sizes := tl (u_sizes s)\<rparr>)"
  by (simp add: uread_def Let_def split: list.split)

text \<open>\<open>gets\<close>: \<open>k\<close> characters fit, \<open>acc\<close> have been read. The result is what is stored in \<open>buf\<close>.\<close>

fun gets_loop :: "nat \<Rightarrow> byte list \<Rightarrow> 'a uio_scheme \<Rightarrow> byte list \<times> 'a uio_scheme" where
  "gets_loop 0 acc s = (acc, s)"
| "gets_loop (Suc k) acc s =
     (case uread 1 s of
        ([], s) \<Rightarrow> (acc, s)
      | (c # _, s) \<Rightarrow> if c = 10 \<or> c = 13 then (acc @ [c], s) else gets_loop k (acc @ [c]) s)"

definition u_gets :: "nat \<Rightarrow> int \<Rightarrow> mem \<Rightarrow> 'a uio_scheme \<Rightarrow> mem \<times> 'a uio_scheme" where
  "u_gets buf mx m s = (let (bs, s) = gets_loop (nat (mx - 1)) [] s in (put_bytes (bs @ [0]) m buf, s))"

section \<open>What the functions compute\<close>

text \<open>The string at an address is \<open>bs\<close>.\<close>

definition cstr :: "mem \<Rightarrow> nat \<Rightarrow> byte list \<Rightarrow> bool" where
  "cstr m a bs \<longleftrightarrow> bytes_at m a (length bs) = bs \<and> m (a + length bs) = 0 \<and> 0 \<notin> set bs"

lemma cstr_Nil [simp]: "cstr m a [] \<longleftrightarrow> m a = 0"
  by (simp add: cstr_def)

lemma cstr_Cons [simp]: "cstr m a (b # bs) \<longleftrightarrow> m a = b \<and> b \<noteq> 0 \<and> cstr m (a + 1) bs"
  by (auto simp: cstr_def bytes_at_Suc)

lemma cstr_unique: "cstr m a bs \<Longrightarrow> cstr m a cs \<Longrightarrow> bs = cs"
proof (induction bs arbitrary: a cs)
  case Nil then show ?case by (cases cs) auto
next
  case (Cons b bs) then show ?case by (cases cs) auto
qed

theorem u_strlen_length: "cstr m s bs \<Longrightarrow> u_strlen m s = Some (length bs)"
proof -
  have "u_strlen_from m s n = Some (n + length bs)" if "cstr m (s + n) bs" for n
    using that
  proof (induction bs arbitrary: n)
    case Nil then show ?case by (simp add: u_strlen_from.simps)
  next
    case (Cons b bs)
    then show ?case using Cons.IH [of "n + 1"] by (subst u_strlen_from.simps) simp
  qed
  from this [of 0] show "cstr m s bs \<Longrightarrow> u_strlen m s = Some (length bs)" by (simp add: u_strlen_def)
qed

theorem strcmp_0_iff: "cstr m p as \<Longrightarrow> cstr m q bs \<Longrightarrow> \<exists>i. strcmp m p q = Some i \<and> (i = 0 \<longleftrightarrow> as = bs)"
proof (induction as arbitrary: p q bs)
  case Nil
  then show ?case by (cases bs) (auto simp: strcmp.simps)
next
  case (Cons a as)
  then show ?case by (cases bs) (auto simp: strcmp.simps [of m p])
qed

theorem strchr_finds:
  "cstr m s bs \<Longrightarrow> c \<noteq> 0 \<Longrightarrow>
     strchr m s c = Some (if c \<in> set bs then s + length (takeWhile (\<lambda>b. b \<noteq> c) bs) else 0)"
  by (induction bs arbitrary: s) (auto simp: strchr.simps)

lemma gets_loop_line:
  "u_in s = l @ c # r \<Longrightarrow> c = 10 \<or> c = 13 \<Longrightarrow> 10 \<notin> set l \<Longrightarrow> 13 \<notin> set l \<Longrightarrow> length l < k \<Longrightarrow>
   \<exists>t. gets_loop k acc s = (acc @ l @ [c], t) \<and> u_in t = r"
proof (induction k arbitrary: l acc s)
  case 0 then show ?case by simp
next
  case (Suc k)
  show ?case
  proof (cases l)
    case Nil
    then show ?thesis using Suc.prems uread_1 [of s c r] by auto
  next
    case (Cons b m)
    then have "uread (Suc 0) s = ([b], s\<lparr>u_in := m @ c # r, u_sizes := tl (u_sizes s)\<rparr>)" using Suc.prems by (simp add: uread_1)
    then show ?thesis using Suc.IH [of "s\<lparr>u_in := m @ c # r, u_sizes := tl (u_sizes s)\<rparr>" m "acc @ [b]"] Suc.prems Cons by auto
  qed
qed

end
