(* ===== verification/Grep.thy ===== *)
theory Grep
  imports Ulib
begin

text \<open>
  The program \<open>grep.c\<close>: the matcher for patterns with \<open>^ . * $\<close> and the loop that reads through a buffer of
  1024 bytes and prints the lines that match. A pattern and a text are the bytes of the string, without
  the final zero.
\<close>

section \<open>The matcher\<close>

function matchhere :: "byte list \<Rightarrow> byte list \<Rightarrow> bool" and matchstar :: "byte \<Rightarrow> byte list \<Rightarrow> byte list \<Rightarrow> bool" where
  "matchhere re text =
     (case re of
        [] \<Rightarrow> True
      | c # r \<Rightarrow>
          (case r of
             d # r' \<Rightarrow>
               if d = 42 then matchstar c r' text
               else (case text of [] \<Rightarrow> False | t # ts \<Rightarrow> (c = 46 \<or> c = t) \<and> matchhere r ts)
           | [] \<Rightarrow>
               if c = 36 then text = []
               else (case text of [] \<Rightarrow> False | t # ts \<Rightarrow> (c = 46 \<or> c = t) \<and> matchhere r ts)))"
| "matchstar c re text =
     (if matchhere re text then True
      else case text of [] \<Rightarrow> False | t # ts \<Rightarrow> (t = c \<or> c = 46) \<and> matchstar c re ts)"
  by pat_completeness auto
termination
  by (relation "inv_image (less_than <*lex*> less_than <*lex*> less_than)
       (\<lambda>x. case x of Inl (re, text) \<Rightarrow> (length re, length text, 0) | Inr (c, re, text) \<Rightarrow> (length re, length text, 1))")
    auto

declare matchhere.simps [simp del] matchstar.simps [simp del]

text \<open>The \<open>do\<close> loop of \<open>match\<close>.\<close>

fun match_from :: "byte list \<Rightarrow> byte list \<Rightarrow> bool" where
  "match_from re text =
     (if matchhere re text then True else case text of [] \<Rightarrow> False | t # ts \<Rightarrow> match_from re ts)"

declare match_from.simps [simp del]

definition match :: "byte list \<Rightarrow> byte list \<Rightarrow> bool" where
  "match re text =
     (case re of
        c # r \<Rightarrow> if c = 94 then matchhere r text else match_from re text
      | [] \<Rightarrow> match_from re text)"

section \<open>The program\<close>

text \<open>
  The inner loop: \<open>p\<close> is the rest of the buffer up to \<open>buf[m]\<close>. \<open>strchr\<close> stops at a zero byte. The
  result is what is written and the rest of the buffer when no newline is found.
\<close>

function grep_lines :: "byte list \<Rightarrow> byte list \<Rightarrow> byte list \<times> byte list" where
  "grep_lines pattern p =
     (let l = takeWhile (\<lambda>b. b \<noteq> 10 \<and> b \<noteq> 0) p
      in case drop (length l) p of
           [] \<Rightarrow> ([], p)
         | q # r \<Rightarrow>
             if q = 0 then ([], p)
             else
               let (out, rest) = grep_lines pattern r
               in (if match pattern l then l @ [10] @ out else out, rest))"
  by pat_completeness auto
termination
proof (relation "measure (length \<circ> snd)")
  fix pattern p l q r
  assume "l = takeWhile (\<lambda>b. b \<noteq> 10 \<and> b \<noteq> 0) p" "drop (length l) p = q # r"
  then have "length (q # r) \<le> length p" by (metis length_drop diff_le_self)
  then show "((pattern, r), (pattern, p)) \<in> measure (length \<circ> snd)" by simp
qed simp

declare grep_lines.simps [simp del]

definition GREP_BUF :: nat where "GREP_BUF = 1024"

text \<open>
  The outer loop with \<open>m\<close> bytes left over in the buffer. Every turn but the last takes a byte of the input at least, so
  the fuel \<open>k\<close> is not used up when it exceeds its length.
\<close>

fun grep_loop :: "nat \<Rightarrow> byte list \<Rightarrow> byte list \<Rightarrow> 'a uio_scheme \<Rightarrow> 'a uio_scheme option" where
  "grep_loop 0 pattern m s = None"
| "grep_loop (Suc k) pattern m s =
     (case uread (GREP_BUF - length m - 1) s of
        ([], s) \<Rightarrow> Some s
      | (bs, s) \<Rightarrow>
          let buf = m @ bs;
              (out, p) = grep_lines pattern buf;
              m = (if length p = length buf then [] else p)
          in grep_loop k pattern m (uwrite 1 out s))"

definition grep :: "byte list \<Rightarrow> 'a uio_scheme \<Rightarrow> 'a uio_scheme option" where
  "grep pattern s = grep_loop (length (u_in s) + 1) pattern [] s"

end
