(* ===== verification/GrepSpec.thy ===== *)
theory GrepSpec
  imports Grep
begin

text \<open>
  What \<open>grep\<close> does: a pattern denotes a regular language, the matcher searches for one of its words, and the
  program prints the lines that match, however the file falls into buffers.
\<close>

section \<open>The language of a pattern\<close>

datatype ritem = One byte | Many byte

definition rclass :: "byte \<Rightarrow> byte set" where
  "rclass c = (if c = 46 then UNIV else {c})"

fun item_lang :: "ritem \<Rightarrow> byte list set" where
  "item_lang (One c) = {[x] | x. x \<in> rclass c}"
| "item_lang (Many c) = {v. set v \<subseteq> rclass c}"

fun rlang :: "ritem list \<Rightarrow> byte list set" where
  "rlang [] = {[]}"
| "rlang (i # is) = {v @ w | v w. v \<in> item_lang i \<and> w \<in> rlang is}"

text \<open>The items of a pattern, and whether it ends in \<open>$\<close>.\<close>

fun rparse :: "byte list \<Rightarrow> ritem list \<times> bool" where
  "rparse [] = ([], False)"
| "rparse [c] = (if c = 36 then ([], True) else ([One c], False))"
| "rparse (c # d # r) =
     (if d = 42 then (let (is, e) = rparse r in (Many c # is, e))
      else (let (is, e) = rparse (d # r) in (One c # is, e)))"

definition re_hat :: "byte list \<Rightarrow> bool" where
  "re_hat re \<longleftrightarrow> (\<exists>r. re = 94 # r)"

definition re_items :: "byte list \<Rightarrow> ritem list" where
  "re_items re = fst (rparse (if re_hat re then tl re else re))"

definition re_dollar :: "byte list \<Rightarrow> bool" where
  "re_dollar re \<longleftrightarrow> snd (rparse (if re_hat re then tl re else re))"

text \<open>The pattern matches at the beginning of the text.\<close>

definition here :: "byte list \<Rightarrow> byte list \<Rightarrow> bool" where
  "here re xs \<longleftrightarrow> (\<exists>v w. xs = v @ w \<and> v \<in> rlang (fst (rparse re)) \<and> (snd (rparse re) \<longrightarrow> w = []))"

lemma here_Nil [simp]: "here [] xs"
  by (simp add: here_def)

lemma here_dollar [simp]: "here [36] xs \<longleftrightarrow> xs = []"
  by (auto simp: here_def)

lemma rlang_One: "v \<in> rlang (One c # is) \<longleftrightarrow> (\<exists>x w. v = x # w \<and> (c = 46 \<or> c = x) \<and> w \<in> rlang is)"
  by (auto simp: rclass_def) (metis append_Cons append_Nil)+

lemma rlang_Many: "v \<in> rlang (Many c # is) \<longleftrightarrow> (\<exists>u w. v = u @ w \<and> set u \<subseteq> rclass c \<and> w \<in> rlang is)"
  by auto

declare rlang.simps(2) [simp del]

lemma here_One:
  assumes "r = [] \<longrightarrow> c \<noteq> 36" "\<forall>d r'. r = d # r' \<longrightarrow> d \<noteq> 42"
  shows "here (c # r) xs \<longleftrightarrow> (case xs of [] \<Rightarrow> False | t # ts \<Rightarrow> (c = 46 \<or> c = t) \<and> here r ts)"
proof -
  have p: "rparse (c # r) = (One c # fst (rparse r), snd (rparse r))"
    using assms by (cases r) (auto split: prod.split)
  show ?thesis
  proof (cases xs)
    case Nil then show ?thesis by (auto simp: here_def p rlang_One)
  next
    case (Cons t ts)
    have "here (c # r) (t # ts) \<longleftrightarrow> (\<exists>x v w. t # ts = (x # v) @ w \<and> (c = 46 \<or> c = x) \<and>
        v \<in> rlang (fst (rparse r)) \<and> (snd (rparse r) \<longrightarrow> w = []))"
      unfolding here_def p fst_conv snd_conv rlang_One by blast
    then show ?thesis using Cons by (auto simp: here_def)
  qed
qed

lemma here_Many:
  "here (c # 42 # r) xs \<longleftrightarrow> (\<exists>u v. xs = u @ v \<and> set u \<subseteq> rclass c \<and> here r v)"
proof -
  have p: "rparse (c # 42 # r) = (Many c # fst (rparse r), snd (rparse r))" by (simp split: prod.split)
  show ?thesis
    unfolding here_def p fst_conv snd_conv rlang_Many by (metis append.assoc)
qed

lemma star_step:
  "(\<exists>u v. xs = u @ v \<and> set u \<subseteq> rclass c \<and> P v) \<longleftrightarrow>
     P xs \<or> (case xs of [] \<Rightarrow> False | t # ts \<Rightarrow> (t = c \<or> c = 46) \<and> (\<exists>u v. ts = u @ v \<and> set u \<subseteq> rclass c \<and> P v))"
  (is "?l \<longleftrightarrow> ?r")
proof
  assume ?l
  then obtain u v where uv: "xs = u @ v" "set u \<subseteq> rclass c" "P v" by blast
  then show ?r
  proof (cases u)
    case Nil then show ?thesis using uv by (intro disjI1) simp
  next
    case (Cons t u')
    then show ?thesis using uv by (intro disjI2) (auto simp: rclass_def split: if_splits)
  qed
next
  assume ?r
  then show ?l
  proof (cases "P xs")
    case True then show ?thesis by (intro exI [of _ "[]"] exI [of _ xs]) simp
  next
    case False
    with \<open>?r\<close> obtain t u v where "xs = t # u @ v" "t \<in> rclass c" "set u \<subseteq> rclass c" "P v"
      by (auto simp: rclass_def split: list.splits)
    then show ?thesis by (intro exI [of _ "t # u"] exI [of _ v]) auto
  qed
qed

lemma matchhere_here:
  "matchhere re xs \<longleftrightarrow> here re xs"
  "matchstar c r ts \<longleftrightarrow> (\<exists>u v. ts = u @ v \<and> set u \<subseteq> rclass c \<and> here r v)"
proof (induction re xs and c r ts rule: matchhere_matchstar.induct)
  case (1 re xs)
  show ?case
  proof (cases re)
    case Nil then show ?thesis by (simp add: matchhere.simps)
  next
    case (Cons c r)
    show ?thesis
    proof (cases r)
      case Nil
      with Cons 1 show ?thesis
        by (subst matchhere.simps, cases "c = 36") (auto simp: here_One split: list.split)
    next
      case (Cons d r')
      with \<open>re = c # r\<close> 1 show ?thesis
        by (subst matchhere.simps, cases "d = 42") (auto simp: here_One here_Many split: list.split)
    qed
  qed
next
  case (2 c re xs)
  then show ?case
    by (subst star_step, subst matchstar.simps) (auto split: list.splits)
qed

lemma match_from_suffix: "match_from re xs \<longleftrightarrow> (\<exists>u t. xs = u @ t \<and> matchhere re t)"
proof (induction xs)
  case Nil then show ?case by (simp add: match_from.simps)
next
  case (Cons a xs)
  show ?case
    by (subst match_from.simps) (auto simp: Cons.IH Cons_eq_append_conv)
qed

text \<open>
  C27: \<open>match\<close> finds a pattern in a text exactly when some part of the text is a word of the language the pattern denotes,
  the part being at the beginning if the pattern starts with \<open>^\<close> and at the end if it ends in \<open>$\<close>. In
  particular the greedy-looking loops of the matcher backtrack as needed, and they always end.
\<close>

theorem match_iff_language:
  "match re xs \<longleftrightarrow>
     (\<exists>u v w. xs = u @ v @ w \<and> v \<in> rlang (re_items re) \<and> (re_hat re \<longrightarrow> u = []) \<and> (re_dollar re \<longrightarrow> w = []))"
proof (cases "re_hat re")
  case True
  then obtain r where re: "re = 94 # r" by (auto simp: re_hat_def)
  then show ?thesis using True
    by (auto simp: match_def matchhere_here here_def re_items_def re_dollar_def)
next
  case False
  then have "match re xs = match_from re xs" by (auto simp: match_def re_hat_def split: list.split)
  then show ?thesis using False
    by (auto simp: match_from_suffix matchhere_here here_def re_items_def re_dollar_def)
qed

lemma match_iff_language_witness:
  "\<exists>u v w. [98, 97, 97] = u @ v @ w \<and> v \<in> rlang (re_items [97, 42, 36]) \<and> (re_hat [97, 42, 36] \<longrightarrow> u = []) \<and> (re_dollar [97, 42, 36] \<longrightarrow> w = [])"
proof -
  have "match [97, 42, 36] [98, 97, 97]" by (simp add: match_def match_from.simps matchhere.simps matchstar.simps)
  then show ?thesis using match_iff_language [of "[97, 42, 36]" "[98, 97, 97]"] by blast
qed

section \<open>Lines and buffers\<close>

abbreviation terminated :: "byte list list \<Rightarrow> byte list" where
  "terminated ls \<equiv> concat (map (\<lambda>l. l @ [10]) ls)"

definition plain :: "byte list \<Rightarrow> bool" where
  "plain l \<longleftrightarrow> 10 \<notin> set l \<and> 0 \<notin> set l"

lemma plain_Nil [simp]: "plain []"
  by (simp add: plain_def)

lemma takeWhile_plain: "plain l \<Longrightarrow> takeWhile (\<lambda>b. b \<noteq> 10 \<and> b \<noteq> 0) (l @ 10 # r) = l"
  "plain l \<Longrightarrow> takeWhile (\<lambda>b. b \<noteq> 10 \<and> b \<noteq> 0) l = l"
  by (induction l) (auto simp: plain_def)

lemma grep_lines_terminated:
  "\<forall>l \<in> set ls. plain l \<Longrightarrow> plain p \<Longrightarrow> grep_lines pat (terminated ls @ p) = (terminated (filter (match pat) ls), p)"
proof (induction ls)
  case Nil
  then show ?case by (subst grep_lines.simps) (simp add: takeWhile_plain)
next
  case (Cons l ls)
  then show ?case by (subst grep_lines.simps) (simp add: takeWhile_plain)
qed

text \<open>How the first bytes of a text fall into complete lines and a beginning of a line.\<close>

lemma terminated_prefix:
  "buf @ rest = terminated ls @ e \<Longrightarrow> \<forall>l \<in> set ls. plain l \<Longrightarrow> plain e \<Longrightarrow>
   \<exists>ls1 ls2 p. ls = ls1 @ ls2 \<and> buf = terminated ls1 @ p \<and> plain p \<and> p @ rest = terminated ls2 @ e
     \<and> (ls1 = [] \<and> ls \<noteq> [] \<longrightarrow> length buf \<le> length (hd ls))"
proof (induction ls arbitrary: buf)
  case Nil
  then have "plain buf" by (auto simp: plain_def)
  with Nil show ?case by (intro exI [of _ "[]"] exI [of _ buf]) simp
next
  case (Cons l ls)
  show ?case
  proof (cases "length buf \<le> length l")
    case True
    then have "buf = take (length buf) l" using Cons.prems(1) by (auto simp: append_eq_append_conv_if)
    then have "plain buf" using Cons.prems(2) by (metis in_set_takeD list.set_intros(1) plain_def)
    then show ?thesis using Cons.prems True by (intro exI [of _ "[]"] exI [of _ "l # ls"] exI [of _ buf]) simp
  next
    case False
    then have t: "take (length l) buf = l" "drop (length l) buf @ rest = 10 # terminated ls @ e"
      using Cons.prems(1) by (auto simp: append_eq_append_conv_if)
    moreover have "drop (length l) buf \<noteq> []" using False by simp
    ultimately obtain b where d: "drop (length l) buf = 10 # b" "b @ rest = terminated ls @ e"
      by (cases "drop (length l) buf") auto
    have b: "buf = l @ 10 # b" using t(1) d(1) append_take_drop_id [of "length l" buf] by simp
    obtain ls1 ls2 p where w: "ls = ls1 @ ls2" "b = terminated ls1 @ p" "plain p" "p @ rest = terminated ls2 @ e"
      using Cons.IH [OF d(2)] Cons.prems(2,3) by auto
    then show ?thesis using b by (intro exI [of _ "l # ls1"] exI [of _ ls2] exI [of _ p]) simp
  qed
qed

lemma grep_loop_prints:
  "u_sizes s = [] \<Longrightarrow> m @ u_in s = terminated ls @ e \<Longrightarrow> plain m \<Longrightarrow> length m + 1 < GREP_BUF \<Longrightarrow>
   \<forall>l \<in> set ls. plain l \<and> length l + 1 < GREP_BUF \<Longrightarrow> plain e \<Longrightarrow> length (u_in s) < k \<Longrightarrow>
   \<exists>t. grep_loop k pat m s = Some t \<and> u_in t = [] \<and>
      u_out t = u_out s @ map (Pair 1) (terminated (filter (match pat) ls))"
proof (induction k arbitrary: m ls s e)
  case 0 then show ?case by simp
next
  case (Suc k)
  define n where "n = GREP_BUF - Suc (length m)"
  have n: "0 < n" "n + length m + 1 = GREP_BUF" using Suc.prems(4) by (simp_all add: n_def)
  define t where "t = s\<lparr>u_in := drop n (u_in s)\<rparr>"
  have rd: "uread n s = (take n (u_in s), t)" using uread_full [OF Suc.prems(1)] by (simp add: t_def)
  show ?case
  proof (cases "u_in s")
    case Nil
    then have "ls = []" using Suc.prems(2,3) by (cases ls) (auto simp: plain_def)
    then show ?thesis using Nil rd by (simp add: n_def [symmetric] t_def)
  next
    case (Cons a r)
    define buf where "buf = m @ take n (u_in s)"
    have ut: "u_in t = drop n (u_in s)" by (simp add: t_def)
    have spl: "buf @ u_in t = terminated ls @ e" using Suc.prems(2) by (simp add: buf_def ut)
    have pl: "\<forall>l \<in> set ls. plain l" using Suc.prems(5) by blast
    from terminated_prefix [OF spl pl Suc.prems(6)]
    obtain ls1 ls2 p where w: "ls = ls1 @ ls2" "buf = terminated ls1 @ p" "plain p" "p @ u_in t = terminated ls2 @ e"
        "ls1 = [] \<and> ls \<noteq> [] \<longrightarrow> length buf \<le> length (hd ls)"
      by (elim exE conjE) (rule that)
    define out where "out = terminated (filter (match pat) ls1)"
    define m' where "m' = (if length p = length buf then [] else p)"
    obtain x y where xy: "take n (u_in s) = x # y" using Cons n(1) by (cases n) auto
    have gl: "grep_lines pat buf = (out, p)" using grep_lines_terminated [of ls1 p pat] w(1-3) pl by (simp add: out_def)
    have step: "grep_loop (Suc k) pat m s = grep_loop k pat m' (uwrite 1 out t)"
      using gl unfolding buf_def m'_def by (simp add: n_def [symmetric] rd xy)
    have l: "length (u_in t) < k" "u_sizes t = []" using Suc.prems(1,7) Cons n(1) by (simp_all add: t_def)
    have lb: "length buf + 1 \<le> GREP_BUF" using n(2) by (simp add: buf_def)
    show ?thesis
    proof (cases "ls1 = []")
      case True
      then have p: "p = buf" "m' = []" using w(2) by (simp_all add: m'_def)
      have "ls = []"
      proof (rule ccontr)
        assume ne: "ls \<noteq> []"
        then have "length buf + 1 < GREP_BUF" using w(5) True Suc.prems(5) by (cases ls) auto
        then have "u_in t = []" using n(2) by (simp add: buf_def t_def)
        then show False using w(1,3,4) ne True by (cases ls) (auto simp: plain_def)
      qed
      then have "plain (u_in t)" using w(1,4) Suc.prems(6) by (auto simp: plain_def dest: arg_cong [where f = set])
      then show ?thesis unfolding step using Suc.IH [of "uwrite 1 out t" "[]" "[]" "u_in t"] l p \<open>ls = []\<close> True
        by (simp add: out_def t_def GREP_BUF_def)
    next
      case False
      then have p: "m' = p" "length p + 1 < GREP_BUF" using w(2) lb by (cases ls1; simp add: m'_def)+
      have "u_out t = u_out s" by (simp add: t_def)
      then show ?thesis unfolding step
        using Suc.IH [of "uwrite 1 out t" p ls2 e] l p w Suc.prems(5,6) by (auto simp: out_def)
    qed
  qed
qed

text \<open>
  C28: \<open>grep\<close> on a file prints exactly the terminated lines that match, in order, and reads the file to its end, for
  every length of the file: lines that fall across the end of the buffer are put together again. The lines must fit the
  buffer; what follows the last newline is not printed even if it matches.
\<close>

theorem grep_prints_matches:
  fixes s :: "'a uio_scheme"
  assumes "u_sizes s = []" and "u_in s = concat (map (\<lambda>l. l @ [10]) ls) @ e"
    and "\<forall>l \<in> set ls. 10 \<notin> set l \<and> 0 \<notin> set l \<and> length l < 1023" and "10 \<notin> set e \<and> 0 \<notin> set e"
  shows "\<exists>t. grep pat s = Some t \<and> u_in t = []
     \<and> u_out t = u_out s @ map (Pair 1) (concat (map (\<lambda>l. l @ [10]) (filter (match pat) ls)))"
  unfolding grep_def using assms
  by (intro grep_loop_prints [where e = e]) (auto simp: plain_def GREP_BUF_def)

lemma grep_prints_matches_witness:
  "\<exists>t. grep [97, 46, 99] \<lparr>u_in = [97, 98, 99, 10, 98, 10, 120], u_sizes = [], u_out = []\<rparr> = Some t \<and> u_in t = []
     \<and> u_out t = [(1, 97), (1, 98), (1, 99), (1, 10)]"
proof -
  have m: "match [97, 46, 99] [97, 98, 99]" "\<not> match [97, 46, 99] [98]"
    by (simp_all add: match_def match_from.simps matchhere.simps)
  show ?thesis
    using grep_prints_matches [of "\<lparr>u_in = [97, 98, 99, 10, 98, 10, 120], u_sizes = [], u_out = []\<rparr>"
        "[[97, 98, 99], [98]]" "[120]" "[97, 46, 99]"] m by simp
qed

text \<open>
  When the input comes in pieces a beginning of a line without a newline is thrown away: the line \<open>ab\<close> that arrives in two
  pieces is seen as \<open>b\<close>.
\<close>

lemma grep_drops_piece:
  "map_option u_out (grep [94, 98] \<lparr>u_in = [97, 98, 10], u_sizes = [1], u_out = []\<rparr>) = Some [(1, 98), (1, 10)]"
  by (simp add: grep_def GREP_BUF_def uread_def uwrite_def grep_lines.simps match_def match_from.simps matchhere.simps)

end
