(* ===== verification/Uprintf.thy ===== *)
theory Uprintf
  imports Console Ulib
begin

text \<open>
  \<open>printf.c\<close>, the formatted output of user programs: a state machine over the format that writes one
  character at a time. The variable arguments are those of the kernel's \<open>cprintf\<close>.
\<close>

definition putc :: "nat \<Rightarrow> nat \<Rightarrow> 'a uio_scheme \<Rightarrow> 'a uio_scheme" where
  "putc fd c s = uwrite fd [of_nat c] s"

fun puts :: "nat \<Rightarrow> nat list \<Rightarrow> 'a uio_scheme \<Rightarrow> 'a uio_scheme" where
  "puts fd [] s = s"
| "puts fd (c # cs) s = puts fd cs (putc fd c s)"

definition u_digit :: "nat \<Rightarrow> nat" where
  "u_digit d = chars ''0123456789ABCDEF'' ! d"

text \<open>The \<open>do\<close> loop that fills the buffer, for a base of at least 2, and the loop that prints it backwards.\<close>

function u_digits :: "nat \<Rightarrow> nat \<Rightarrow> nat list" where
  "u_digits b x = u_digit (x mod b) # (if x div b = 0 \<or> b < 2 then [] else u_digits b (x div b))"
  by auto
termination
  by (relation "measure snd") (auto intro!: div_less_dividend simp: div_greater_zero_iff)

declare u_digits.simps [simp del]

definition u_printint :: "nat \<Rightarrow> int \<Rightarrow> nat \<Rightarrow> bool \<Rightarrow> 'a uio_scheme \<Rightarrow> 'a uio_scheme" where
  "u_printint fd xx b sg s =
     (let neg = sg \<and> xx < 0;
          x = (if neg then u32_of (- xx) else u32_of xx);
          buf = u_digits b x;
          buf = (if neg then buf @ [45] else buf)
      in puts fd (rev buf) s)"

text \<open>
  The loop over the format; \<open>pct\<close>: the state is \<open>'%'\<close>. \<open>None\<close>: the arguments do not match the format.
\<close>

fun printf_from :: "nat \<Rightarrow> nat list \<Rightarrow> bool \<Rightarrow> carg list \<Rightarrow> 'a uio_scheme \<Rightarrow> 'a uio_scheme option" where
  "printf_from fd [] pct ap s = Some s"
| "printf_from fd (c # f) pct ap s =
     (if \<not> pct
      then if c = 37 then printf_from fd f True ap s else printf_from fd f False ap (putc fd c s)
      else if c = 100
      then (case ap of CInt x # ap \<Rightarrow> printf_from fd f False ap (u_printint fd x 10 True s) | _ \<Rightarrow> None)
      else if c = 120 \<or> c = 112
      then (case ap of CInt x # ap \<Rightarrow> printf_from fd f False ap (u_printint fd x 16 False s) | _ \<Rightarrow> None)
      else if c = 115
      then (case ap of
              CStr None # ap \<Rightarrow> printf_from fd f False ap (puts fd (chars ''(null)'') s)
            | CStr (Some t) # ap \<Rightarrow> printf_from fd f False ap (puts fd t s)
            | _ \<Rightarrow> None)
      else if c = 99
      then (case ap of CInt x # ap \<Rightarrow> printf_from fd f False ap (putc fd (u32_of x) s) | _ \<Rightarrow> None)
      else if c = 37 then printf_from fd f False ap (putc fd c s)
      else printf_from fd f False ap (putc fd c (putc fd 37 s)))"

definition printf :: "nat \<Rightarrow> nat list \<Rightarrow> carg list \<Rightarrow> 'a uio_scheme \<Rightarrow> 'a uio_scheme option" where
  "printf fd f ap s = printf_from fd f False ap s"

section \<open>Agreement with the kernel\<close>

lemma puts_uwrite: "puts fd cs s = uwrite fd (map of_nat cs) s"
  by (induction cs arbitrary: s) (simp_all add: putc_def uwrite_append [symmetric])

lemma u_digit_dec: "d < 10 \<Longrightarrow> u_digit d = digit_char d"
  by (simp add: u_digit_def digit_char_def chars_def numeral_eq_Suc less_Suc_eq) auto

lemma u_digits_dec: "u_digits 10 x = int_digits 10 x"
proof (induction x rule: less_induct)
  case (less x)
  have "u_digit (x mod 10) = digit_char (x mod 10)" by (rule u_digit_dec) simp
  then show ?case using less.IH [of "x div 10"] by (subst u_digits.simps, subst int_digits.simps) auto
qed

lemma u_printint_dec: "u_printint fd x 10 True s = uwrite fd (map of_nat (printint x 10 True)) s"
  unfolding u_printint_def printint_def Let_def puts_uwrite u_digits_dec ..

text \<open>Formats whose conversions are among \<open>%d\<close>, \<open>%s\<close>, \<open>%%\<close> and unknown ones.\<close>

fun common_format :: "nat list \<Rightarrow> bool" where
  "common_format [] = True"
| "common_format (c # f) =
     (if c \<noteq> 37 then common_format f
      else case f of [] \<Rightarrow> True | d # g \<Rightarrow> d \<noteq> 120 \<and> d \<noteq> 112 \<and> d \<noteq> 99 \<and> common_format g)"

lemma printf_from_cformat:
  "common_format f \<Longrightarrow> printf_from fd f False ap s = map_option (\<lambda>out. uwrite fd (map of_nat out) s) (cformat f ap)"
proof (induction f ap arbitrary: s rule: cformat.induct)
  case (1 ap)
  then show ?case by simp
next
  case (2 c f ap)
  show ?case
  proof (cases "c = 37")
    case False
    then show ?thesis using 2 by (simp add: putc_def option.map_comp comp_def uwrite_append [symmetric])
  next
    case True
    show ?thesis
    proof (cases f)
      case Nil then show ?thesis using True by simp
    next
      case (Cons d g)
      note F = 2 [unfolded True Cons]
      show ?thesis unfolding True Cons using F
        by (auto simp: puts_uwrite u_printint_dec putc_def option.map_comp comp_def uwrite_append [symmetric]
            split: list.splits carg.splits option.splits)
    qed
  qed
qed

text \<open>
  The \<open>printf\<close> of user programs and the kernel's \<open>cprintf\<close>, two different loops, print the same characters for
  every format without \<open>%x\<close>, \<open>%p\<close> and \<open>%c\<close> and all arguments.
\<close>

theorem printf_agrees:
  assumes "common_format f"
  shows "printf fd f ap s = map_option (\<lambda>out. uwrite fd (map of_nat out) s) (cformat f ap)"
  unfolding printf_def by (rule printf_from_cformat [OF assms])

lemma printf_agrees_witness:
  "map_option u_out (printf 1 (chars ''%d%%'') [CInt (- 7)] \<lparr>u_in = [], u_sizes = [], u_out = []\<rparr>)
     = Some [(1, 45), (1, 55), (1, 37)]"
proof -
  have c: "common_format (chars ''%d%%'')" by (simp add: chars_def)
  have "cformat (chars ''%d%%'') [CInt (- 7)] = Some [45, 55, 37]"
    by (simp add: chars_def printint_def int_digits.simps digit_char_def u32_of_def)
  then show ?thesis using printf_agrees [OF c, of 1 "[CInt (- 7)]" "\<lparr>u_in = [], u_sizes = [], u_out = []\<rparr>"]
    by (simp add: uwrite_def)
qed

end
