(* ===== verification/Textfields.thy ===== *)
theory Textfields
  imports KPrelude
begin

text \<open>
  The words of a text: its maximal parts without separators. Programs that take a text apart, one character
  at a time and each with a state of its own, are compared with this definition.
\<close>

lemma length_dropWhile_Cons: "dropWhile P l = c # q \<Longrightarrow> length q < length l"
  by (metis Suc_le_eq length_Cons length_dropWhile_le)

function fields :: "('a \<Rightarrow> bool) \<Rightarrow> 'a list \<Rightarrow> 'a list list" where
  "fields sep l =
     (case dropWhile sep l of
        [] \<Rightarrow> []
      | c # q \<Rightarrow> (c # takeWhile (\<lambda>x. \<not> sep x) q) # fields sep (dropWhile (\<lambda>x. \<not> sep x) q))"
  by pat_completeness auto

termination fields
  by (relation "measure (length \<circ> snd)") (auto dest!: length_dropWhile_Cons intro: le_less_trans [OF length_dropWhile_le])

declare fields.simps [simp del]

lemma fields_Nil [simp]: "fields sep [] = []"
  by (simp add: fields.simps)

lemma fields_sep [simp]: "sep c \<Longrightarrow> fields sep (c # l) = fields sep l"
  by (subst (1 2) fields.simps) simp

lemma fields_word: "\<not> sep c \<Longrightarrow> fields sep (c # l) = (c # takeWhile (\<lambda>x. \<not> sep x) l) # fields sep (dropWhile (\<lambda>x. \<not> sep x) l)"
  by (subst fields.simps) simp

lemma fields_count: "length (fields sep l) \<le> length l"
proof (induction sep l rule: fields.induct)
  case (1 sep l)
  show ?case
  proof (cases "dropWhile sep l")
    case Nil
    then have "fields sep l = []" by (subst fields.simps) (simp only: Nil list.case)
    then show ?thesis by simp
  next
    case (Cons c q)
    have "length (fields sep (dropWhile (\<lambda>x. \<not> sep x) q)) \<le> length q"
      using 1 [OF Cons] length_dropWhile_le [of "\<lambda>x. \<not> sep x" q] by (rule order_trans)
    then show ?thesis unfolding fields.simps [of sep l] using length_dropWhile_Cons [OF Cons] by (simp add: Cons)
  qed
qed

text \<open>The state of a scanner: \<open>w\<close> is the beginning of the word it is in, empty between words.\<close>

definition fields_from :: "('a \<Rightarrow> bool) \<Rightarrow> 'a list \<Rightarrow> 'a list \<Rightarrow> 'a list list" where
  "fields_from sep w l = (if w = [] then fields sep l
     else (w @ takeWhile (\<lambda>x. \<not> sep x) l) # fields sep (dropWhile (\<lambda>x. \<not> sep x) l))"

lemma fields_from_simps [simp]:
  "fields_from sep [] l = fields sep l"
  "w \<noteq> [] \<Longrightarrow> fields_from sep w [] = [w]"
  "sep c \<Longrightarrow> fields_from sep w (c # l) = (if w = [] then fields sep l else w # fields sep l)"
  "\<not> sep c \<Longrightarrow> fields_from sep w (c # l) = fields_from sep (w @ [c]) l"
  by (simp_all add: fields_from_def fields_word)

lemma fields_nonempty: "w \<in> set (fields sep l) \<Longrightarrow> w \<noteq> [] \<and> (\<forall>c \<in> set w. \<not> sep c)"
proof (induction sep l rule: fields.induct)
  case (1 sep l)
  show ?case
  proof (cases "dropWhile sep l")
    case Nil
    then have "fields sep l = []" by (subst fields.simps) (simp only: Nil list.case)
    then show ?thesis using 1(2) by simp
  next
    case (Cons c q)
    then have c: "\<not> sep c" by (simp add: dropWhile_eq_Cons_conv)
    have e: "fields sep l = (c # takeWhile (\<lambda>x. \<not> sep x) q) # fields sep (dropWhile (\<lambda>x. \<not> sep x) q)"
      by (subst fields.simps) (simp add: Cons)
    have "w = c # takeWhile (\<lambda>x. \<not> sep x) q \<or> w \<in> set (fields sep (dropWhile (\<lambda>x. \<not> sep x) q))"
      using 1(2) unfolding e by simp
    then show ?thesis
    proof
      assume "w = c # takeWhile (\<lambda>x. \<not> sep x) q"
      then show ?thesis using c by (auto dest: set_takeWhileD)
    next
      assume "w \<in> set (fields sep (dropWhile (\<lambda>x. \<not> sep x) q))"
      then show ?thesis by (rule 1(1) [OF Cons])
    qed
  qed
qed

end
