(* ===== verification/Userprogs.thy ===== *)
theory Userprogs
  imports Uprintf Textfields
begin

text \<open>
  User programs: \<open>cat.c\<close>, \<open>wc.c\<close> and \<open>echo.c\<close>. \<open>read\<close> and \<open>write\<close> are those of \<open>Ulib\<close>: they do not fail, but a read may
  deliver less than it is asked for. \<open>files\<close> opens a file and gives its bytes.
\<close>

section \<open>cat\<close>

lemma uread_splits: "fst (uread n s) @ u_in (snd (uread n s)) = u_in s"
  by (simp add: uread_def Let_def)

lemma uread_shrinks: "uread n s = (b # bs, t) \<Longrightarrow> length (u_in t) < length (u_in s)"
  using arg_cong [OF uread_splits [of n s], of length] by simp

function cat_fd :: "uio \<Rightarrow> uio" where
  "cat_fd s = (let (bs, s) = uread 512 s in case bs of [] \<Rightarrow> s | b # r \<Rightarrow> cat_fd (uwrite 1 bs s))"
  by pat_completeness auto
termination
  by (relation "measure (length \<circ> u_in)") (auto dest: uread_shrinks [OF sym])

declare cat_fd.simps [simp del]

text \<open>An open file: it fills every buffer.\<close>

definition opened_file :: "byte list \<Rightarrow> uio \<Rightarrow> uio" where
  "opened_file bs s = s\<lparr>u_in := bs, u_sizes := []\<rparr>"

fun cat_files :: "(byte list \<Rightarrow> byte list option) \<Rightarrow> byte list list \<Rightarrow> uio \<Rightarrow> uio option" where
  "cat_files files [] s = Some s"
| "cat_files files (arg # args) s =
     (case files arg of
        None \<Rightarrow> printf 1 (chars ''cat: cannot open %s'' @ [10]) [CStr (Some (map unat arg))] s
      | Some bs \<Rightarrow> cat_files files args (cat_fd (opened_file bs s)))"

text \<open>\<open>args\<close> are the arguments after the name of the program.\<close>

definition cat_main :: "(byte list \<Rightarrow> byte list option) \<Rightarrow> byte list list \<Rightarrow> uio \<Rightarrow> uio option" where
  "cat_main files args s = (if args = [] then Some (cat_fd s) else cat_files files args s)"

section \<open>wc\<close>

text \<open>The blanks of \<open>wc\<close>; \<open>strchr\<close> of \<open>ulib.c\<close> does not find the zero byte.\<close>

definition wc_blank :: "byte \<Rightarrow> bool" where
  "wc_blank b \<longleftrightarrow> b \<in> {32, 13, 9, 10, 11}"

definition incr :: "int \<Rightarrow> int" where
  "incr n = s32 (u32_of (n + 1))"

fun wc_chars :: "byte list \<Rightarrow> int \<times> int \<times> int \<times> bool \<Rightarrow> int \<times> int \<times> int \<times> bool" where
  "wc_chars [] k = k"
| "wc_chars (b # bs) (l, w, c, inword) =
     (let c = incr c;
          l = (if b = 10 then incr l else l);
          (w, inword) = (if wc_blank b then (w, False) else if \<not> inword then (incr w, True) else (w, inword))
      in wc_chars bs (l, w, c, inword))"

function wc_loop :: "int \<times> int \<times> int \<times> bool \<Rightarrow> uio \<Rightarrow> (int \<times> int \<times> int) \<times> uio" where
  "wc_loop k s =
     (let (bs, s) = uread 512 s
      in case bs of [] \<Rightarrow> (let (l, w, c, inword) = k in ((l, w, c), s)) | b # r \<Rightarrow> wc_loop (wc_chars bs k) s)"
  by pat_completeness auto
termination
  by (relation "measure (length \<circ> u_in \<circ> snd)") (auto dest: uread_shrinks [OF sym])

declare wc_loop.simps [simp del]

definition wc_fd :: "byte list \<Rightarrow> uio \<Rightarrow> uio option" where
  "wc_fd name s =
     (let ((l, w, c), s) = wc_loop (0, 0, 0, False) s
      in printf 1 (chars ''%d %d %d %s'' @ [10]) [CInt l, CInt w, CInt c, CStr (Some (map unat name))] s)"

fun wc_files :: "(byte list \<Rightarrow> byte list option) \<Rightarrow> byte list list \<Rightarrow> uio \<Rightarrow> uio option" where
  "wc_files files [] s = Some s"
| "wc_files files (arg # args) s =
     (case files arg of
        None \<Rightarrow> printf 1 (chars ''wc: cannot open %s'' @ [10]) [CStr (Some (map unat arg))] s
      | Some bs \<Rightarrow> (case wc_fd arg (opened_file bs s) of None \<Rightarrow> None | Some s \<Rightarrow> wc_files files args s))"

definition wc_main :: "(byte list \<Rightarrow> byte list option) \<Rightarrow> byte list list \<Rightarrow> uio \<Rightarrow> uio option" where
  "wc_main files args s = (if args = [] then wc_fd [] s else wc_files files args s)"

section \<open>echo\<close>

fun echo_main :: "byte list list \<Rightarrow> uio \<Rightarrow> uio option" where
  "echo_main [] s = Some s"
| "echo_main (arg # args) s =
     (case printf 1 (chars ''%s%s'') [CStr (Some (map unat arg)), CStr (Some (if args \<noteq> [] then [32] else [10]))] s of
        None \<Rightarrow> None
      | Some s \<Rightarrow> echo_main args s)"

section \<open>What they write\<close>

lemma uread_nil: "fst (uread 512 s) = [] \<longleftrightarrow> u_in s = []"
  by (auto simp: uread_def Let_def split: list.splits)

text \<open>\<open>cat\<close> copies its input, in whatever pieces it arrives.\<close>

lemma cat_fd_copies: "u_in (cat_fd s) = [] \<and> u_out (cat_fd s) = u_out s @ map (Pair 1) (u_in s)"
proof (induction s rule: cat_fd.induct)
  case (1 s)
  obtain bs t where u: "uread 512 s = (bs, t)" by (cases "uread 512 s")
  have s: "bs @ u_in t = u_in s" "u_out t = u_out s" "bs = [] \<longleftrightarrow> u_in s = []"
    using uread_splits [of 512 s] uread_nil [of s] uio_sel(4) [of 512 s] u by auto
  show ?case
  proof (cases bs)
    case Nil
    then show ?thesis using s u by (simp add: cat_fd.simps [of s])
  next
    case (Cons b r)
    then show ?thesis using 1 [OF u [symmetric] refl Cons] s(2) u s(1) [symmetric]
      by (simp add: cat_fd.simps [of s] uwrite_def)
  qed
qed

theorem cat_copies_files:
  assumes "\<forall>arg \<in> set args. files arg \<noteq> None" "args \<noteq> []"
  shows "map_option u_out (cat_main files args s) = Some (u_out s @ map (Pair 1) (concat (map (\<lambda>arg. the (files arg)) args)))"
proof -
  have "map_option u_out (cat_files files args s) = Some (u_out s @ map (Pair 1) (concat (map (\<lambda>arg. the (files arg)) args)))"
    using assms(1)
  proof (induction args arbitrary: s)
    case (Cons arg args)
    then obtain bs where b: "files arg = Some bs" by auto
    have "u_out (cat_fd (opened_file bs s)) = u_out s @ map (Pair 1) bs"
      using cat_fd_copies [of "opened_file bs s"] by (simp add: opened_file_def)
    then show ?case using Cons.IH [of "cat_fd (opened_file bs s)"] Cons.prems b by auto
  qed simp
  then show ?thesis using assms(2) by (simp add: cat_main_def)
qed

lemma wc_chars_append: "wc_chars (as @ bs) k = wc_chars bs (wc_chars as k)"
  by (induction as k rule: wc_chars.induct) (simp_all add: Let_def split_def)

text \<open>The pieces do not matter.\<close>

lemma wc_loop_all:
  "fst (wc_loop k s) = (case wc_chars (u_in s) k of (l, w, c, inword) \<Rightarrow> (l, w, c)) \<and> u_out (snd (wc_loop k s)) = u_out s"
proof (induction k s rule: wc_loop.induct)
  case (1 k s)
  obtain bs t where u: "uread 512 s = (bs, t)" by (cases "uread 512 s")
  have s: "u_in s = bs @ u_in t" "u_out t = u_out s" "bs = [] \<longleftrightarrow> u_in s = []"
    using uread_splits [of 512 s] uread_nil [of s] uio_sel(4) [of 512 s] u by auto
  show ?case
  proof (cases bs)
    case Nil
    then have "wc_loop k s = ((case k of (l, w, c, inword) \<Rightarrow> (l, w, c)), t)"
      using u by (subst wc_loop.simps) (simp add: split_def)
    moreover have "u_in s = []" using Nil s(3) by simp
    ultimately show ?thesis using s(2) by simp
  next
    case (Cons b r)
    then have "wc_loop k s = wc_loop (wc_chars bs k) t" using u by (subst wc_loop.simps) simp
    then show ?thesis using 1 [OF u [symmetric] refl Cons] s by (simp add: wc_chars_append)
  qed
qed

lemma incr_small: "0 \<le> n \<Longrightarrow> n < 2147483647 \<Longrightarrow> incr n = n + 1"
  by (simp add: incr_def s32_u32_of)

text \<open>The words that begin in \<open>bs\<close>.\<close>

definition new_words :: "bool \<Rightarrow> byte list \<Rightarrow> byte list list" where
  "new_words inword bs = fields wc_blank (if inword then dropWhile (\<lambda>x. \<not> wc_blank x) bs else bs)"

lemma wc_chars_counts:
  "0 \<le> l \<Longrightarrow> 0 \<le> w \<Longrightarrow> 0 \<le> c \<Longrightarrow> l + int (length bs) < 2147483648 \<Longrightarrow> w + int (length bs) < 2147483648 \<Longrightarrow> c + int (length bs) < 2147483648 \<Longrightarrow>
   \<exists>b. wc_chars bs (l, w, c, inword)
     = (l + int (count_list bs 10), w + int (length (new_words inword bs)), c + int (length bs), b)"
proof (induction bs arbitrary: l w c inword)
  case Nil
  then show ?case by (simp add: new_words_def)
next
  case (Cons b bs)
  let ?l = "if b = 10 then l + 1 else l" and ?w = "if wc_blank b \<or> inword then w else w + 1" and ?in = "\<not> wc_blank b"
  have "wc_chars (b # bs) (l, w, c, inword) = wc_chars bs (?l, ?w, c + 1, ?in)"
    using Cons.prems by (simp add: incr_small Let_def)
  moreover have p: "0 \<le> ?l" "0 \<le> ?w" "0 \<le> c + 1" "?l + int (length bs) < 2147483648" "?w + int (length bs) < 2147483648"
      "c + 1 + int (length bs) < 2147483648" using Cons.prems by auto
  moreover obtain d where "wc_chars bs (?l, ?w, c + 1, ?in)
      = (?l + int (count_list bs 10), ?w + int (length (new_words ?in bs)), c + 1 + int (length bs), d)"
    using Cons.IH [OF p, of ?in] by blast
  moreover have "?w + int (length (new_words ?in bs)) = w + int (length (new_words inword (b # bs)))"
    by (simp add: new_words_def fields_word)
  ultimately show ?case by auto
qed

text \<open>
  \<open>wc\<close> prints the numbers of lines, words and bytes of its input, a word being a maximal part without blanks,
  in whatever pieces the input arrives and wherever they cut a word.
\<close>

theorem wc_counts:
  assumes "length (u_in s) < 2147483648"
  shows "map_option u_out (wc_fd name s) = map_option (\<lambda>out. u_out s @ map (Pair 1 \<circ> of_nat) out)
    (cformat (chars ''%d %d %d %s'' @ [10]) [CInt (int (count_list (u_in s) 10)), CInt (int (length (fields wc_blank (u_in s)))),
       CInt (int (length (u_in s))), CStr (Some (map unat name))])"
proof -
  obtain b where "wc_chars (u_in s) (0, 0, 0, False)
      = (int (count_list (u_in s) 10), int (length (fields wc_blank (u_in s))), int (length (u_in s)), b)"
    using wc_chars_counts [of 0 0 0 "u_in s" False] assms by (auto simp: new_words_def)
  then obtain t where t: "wc_loop (0, 0, 0, False) s
      = ((int (count_list (u_in s) 10), int (length (fields wc_blank (u_in s))), int (length (u_in s))), t)" "u_out t = u_out s"
    using wc_loop_all [of "(0, 0, 0, False)" s] by (cases "wc_loop (0, 0, 0, False) s") auto
  have f: "common_format (chars ''%d %d %d %s'' @ [10])" by (simp add: chars_def)
  show ?thesis
    unfolding wc_fd_def t(1) Let_def prod.case printf_def printf_from_cformat [OF f]
    by (simp add: option.map_comp comp_def uwrite_def t(2))
qed

text \<open>Two lines in pieces of three bytes, which cut the word in the middle.\<close>

lemma wc_counts_witness:
  "map_option u_out (wc_fd [102] \<lparr>u_in = [97, 98, 32, 99, 100, 10, 101, 10], u_sizes = [3, 2], u_out = []\<rparr>)
     = Some (map (Pair 1) [50, 32, 51, 32, 56, 32, 102, 10])"
proof -
  let ?s = "\<lparr>u_in = [97, 98, 32, 99, 100, 10, 101, 10], u_sizes = [3, 2], u_out = []\<rparr> :: uio"
  have f: "length (fields wc_blank (u_in ?s)) = 3" by (simp add: fields_word wc_blank_def)
  have "cformat (chars ''%d %d %d %s'' @ [10]) [CInt 2, CInt 3, CInt 8, CStr (Some (map unat [102 :: byte]))] = Some [50, 32, 51, 32, 56, 32, 102, 10]"
    by (simp add: chars_def printint_def int_digits.simps digit_char_def u32_of_def)
  then show ?thesis using wc_counts [of ?s "[102]"] f by simp
qed

lemma echo_format:
  "printf 1 (chars ''%s%s'') [CStr (Some a), CStr (Some b)] s = Some (uwrite 1 (map of_nat (a @ b)) s)"
proof -
  have c: "common_format (chars ''%s%s'')" by (simp add: chars_def)
  have "cformat (chars ''%s%s'') [CStr (Some a), CStr (Some b)] = Some (a @ b)" by (simp add: chars_def)
  then show ?thesis unfolding printf_def printf_from_cformat [OF c] by simp
qed

text \<open>\<open>echo\<close> writes its arguments, with a blank between two of them and a newline at the end.\<close>

theorem echo_joins:
  assumes "args \<noteq> []"
  shows "map_option u_out (echo_main args s)
    = Some (u_out s @ map (Pair 1) (concat (map (\<lambda>arg. arg @ [32]) (butlast args)) @ last args @ [10]))"
  using assms
proof (induction args arbitrary: s)
  case (Cons arg args)
  show ?case
  proof (cases args)
    case Nil
    then show ?thesis by (simp add: echo_format uwrite_def comp_def del: One_nat_def)
  next
    case (Cons a as)
    then show ?thesis using Cons.IH [of "uwrite 1 (map of_nat (map unat arg @ [32])) s"]
      by (simp add: echo_format uwrite_def comp_def del: One_nat_def)
  qed
qed simp

lemma cat_copies_files_witness:
  "map_option u_out (cat_main (\<lambda>f. if f = [102] then Some [104, 105] else None) [[102], [102]] \<lparr>u_in = [], u_sizes = [], u_out = []\<rparr>)
     = Some [(1, 104), (1, 105), (1, 104), (1, 105)]"
  using cat_copies_files [of "[[102], [102]]" "\<lambda>f. if f = [102] then Some [104, 105] else None" "\<lparr>u_in = [], u_sizes = [], u_out = []\<rparr>"]
  by simp

lemma echo_joins_witness:
  "map_option u_out (echo_main [[104], [105]] \<lparr>u_in = [], u_sizes = [], u_out = []\<rparr>) = Some (map (Pair 1) [104, 32, 105, 10])"
  using echo_joins [of "[[104], [105]]" "\<lparr>u_in = [], u_sizes = [], u_out = []\<rparr>"] by simp

end
