(* ===== verification/Userfiles.thy ===== *)
theory Userfiles
  imports GrepSpec Userprogs
begin

text \<open>
  The user programs that open files: \<open>main\<close> of \<open>grep.c\<close>, \<open>stat\<close> of \<open>ulib.c\<close>, and the names \<open>ls.c\<close> prints.
  The files that can be opened are a parameter, as in \<open>Userprogs\<close>.
\<close>

section \<open>grep\<close>

fun grep_files :: "byte list \<Rightarrow> (byte list \<Rightarrow> byte list option) \<Rightarrow> byte list list \<Rightarrow> uio \<Rightarrow> uio option" where
  "grep_files pattern files [] s = Some s"
| "grep_files pattern files (arg # args) s =
     (case files arg of
        None \<Rightarrow> printf 1 (chars ''grep: cannot open %s'' @ [10]) [CStr (Some (map unat arg))] s
      | Some bs \<Rightarrow> Option.bind (grep pattern (opened_file bs s)) (grep_files pattern files args))"

text \<open>\<open>args\<close> are the arguments after the name of the program.\<close>

definition grep_main :: "(byte list \<Rightarrow> byte list option) \<Rightarrow> byte list list \<Rightarrow> uio \<Rightarrow> uio option" where
  "grep_main files args s =
     (case args of
        [] \<Rightarrow> printf 2 (chars ''usage: grep pattern [file ...]'' @ [10]) [] s
      | [pattern] \<Rightarrow> grep pattern s
      | pattern # args \<Rightarrow> grep_files pattern files args s)"

text \<open>Lines that fit the buffer of \<open>grep\<close>.\<close>

definition plain_lines :: "byte list list \<Rightarrow> bool" where
  "plain_lines ls \<longleftrightarrow> (\<forall>l \<in> set ls. plain l \<and> length l < 1023)"

text \<open>\<open>grep\<close> with files prints the matching lines of each, file after file.\<close>

theorem grep_main_prints:
  assumes "\<forall>arg \<in> set args. files arg = Some (terminated (lines arg)) \<and> plain_lines (lines arg)" "args \<noteq> []"
  shows "map_option u_out (grep_main files (pat # args) s)
     = Some (u_out s @ map (Pair 1) (concat (map (\<lambda>arg. terminated (filter (match pat) (lines arg))) args)))"
proof -
  have "map_option u_out (grep_files pat files args s)
      = Some (u_out s @ map (Pair 1) (concat (map (\<lambda>arg. terminated (filter (match pat) (lines arg))) args)))"
    using assms(1)
  proof (induction args arbitrary: s)
    case (Cons arg args)
    let ?t = "opened_file (terminated (lines arg)) s"
    obtain u where u: "grep pat ?t = Some u" "u_out u = u_out s @ map (Pair 1) (terminated (filter (match pat) (lines arg)))"
      using grep_loop_prints [where s = ?t and ls = "lines arg" and e = "[]" and m = "[]" and k = "length (u_in ?t) + 1" and pat = pat] Cons.prems
      by (auto simp: grep_def opened_file_def plain_lines_def plain_Nil GREP_BUF_def)
    then show ?case using Cons.IH [of u] Cons.prems by simp
  qed simp
  then show ?thesis using assms(2) by (cases args) (simp_all add: grep_main_def)
qed

lemma grep_main_prints_witness:
  "map_option u_out (grep_main (\<lambda>f. if f = [102] then Some [97, 10, 98, 10] else None) [[98], [102], [102]]
     \<lparr>u_in = [], u_sizes = [], u_out = []\<rparr>) = Some (map (Pair 1) [98, 10, 98, 10])"
proof -
  have m: "match [98] [98]" "\<not> match [98] [97]" by (simp_all add: match_def match_from.simps matchhere.simps)
  show ?thesis
    using grep_main_prints [of "[[102], [102]]" "\<lambda>f. if f = [102] then Some [97, 10, 98, 10] else None" "\<lambda>_. [[97], [98]]" "[98]"
        "\<lparr>u_in = [], u_sizes = [], u_out = []\<rparr>"] m
    by (simp add: plain_lines_def plain_def)
qed

section \<open>stat and ls\<close>

text \<open>\<open>stat\<close> of \<open>ulib.c\<close> over the system calls: \<open>opn\<close> opens the file, \<open>fst_at\<close> and \<open>cls\<close> get its descriptor.\<close>

definition u_stat :: "('s \<Rightarrow> int \<times> 's) \<Rightarrow> (int \<Rightarrow> 's \<Rightarrow> int \<times> 's) \<Rightarrow> (int \<Rightarrow> 's \<Rightarrow> 's) \<Rightarrow> 's \<Rightarrow> int \<times> 's" where
  "u_stat opn fst_at cls s =
     (let (fd, s) = opn s
      in if fd < 0 then (-1, s)
         else let (r, s) = fst_at fd s; s = cls fd s in (r, s))"

text \<open>
  \<open>fmtname\<close> of \<open>ls.c\<close>: \<open>name_start path i\<close> is where the search for a slash from index \<open>i\<close> down ends; the
  byte behind the path is 0.
\<close>

fun name_start :: "byte list \<Rightarrow> nat \<Rightarrow> nat" where
  "name_start path 0 = (if (path @ [0]) ! 0 \<noteq> 47 then 0 else 0 + 1)"
| "name_start path (Suc i) = (if (path @ [0]) ! Suc i \<noteq> 47 then name_start path i else Suc i + 1)"

definition fmtname :: "byte list \<Rightarrow> byte list" where
  "fmtname path =
     (let p = drop (name_start path (length path)) path
      in if 14 \<le> length p then p else p @ replicate (14 - length p) 32)"

lemma no_slash_at: "47 \<notin> set path \<Longrightarrow> i \<le> length path \<Longrightarrow> (path @ [0]) ! i \<noteq> (47 :: byte)"
  by (cases "i < length path") (auto simp: nth_append in_set_conv_nth)

lemma name_start_none: "i \<le> length path \<Longrightarrow> 47 \<notin> set path \<Longrightarrow> name_start path i = 0"
  by (induction i) (simp_all add: no_slash_at del: append.simps)

lemma name_start_slash:
  "47 \<notin> set nm \<Longrightarrow> i \<le> length nm + 1 \<Longrightarrow> name_start (d @ 47 # nm) (length d + i) = length d + 1"
proof (induction i)
  case 0
  then show ?case by (cases "length d") (simp_all add: nth_append)
next
  case (Suc i)
  then have "((d @ 47 # nm) @ [0]) ! Suc (length d + i) \<noteq> 47" by (auto simp: nth_append nth_Cons' dest: nth_mem)
  then show ?case using Suc by simp
qed

text \<open>The last element of the path, padded with blanks to the width of a directory entry.\<close>

lemma fmtname_last:
  assumes "47 \<notin> set nm"
  shows "fmtname (d @ 47 # nm) = nm @ replicate (14 - length nm) 32" "fmtname nm = nm @ replicate (14 - length nm) 32"
  using name_start_slash [OF assms, of "length nm + 1" d] name_start_none [of "length nm" nm] assms
  by (simp_all add: fmtname_def Let_def)

end
