(* ===== verification/Umalloc.thy ===== *)
theory Umalloc
  imports KPrelude
begin

text \<open>
  \<open>umalloc.c\<close>, the memory allocator of user programs: a circular list of free blocks in the order of their
  addresses, searched from where the last search ended. A pointer to a \<open>Header\<close> is its address, so adding to it
  counts in units of 8 bytes.
\<close>

section \<open>State\<close>

text \<open>
  The two fields of the headers by address, \<open>freep\<close>, and of the process the end of its memory and how far the
  kernel lets it grow. \<open>h_base\<close> is the address of the static variable \<open>base\<close>.
\<close>

record uheap =
  h_ptr :: "nat \<Rightarrow> nat"
  h_size :: "nat \<Rightarrow> nat"
  freep :: nat
  h_base :: nat
  h_brk :: nat
  h_lim :: nat

definition set_ptr :: "nat \<Rightarrow> nat \<Rightarrow> uheap \<Rightarrow> uheap" where
  "set_ptr a v s = s\<lparr>h_ptr := (h_ptr s)(a := v)\<rparr>"

definition set_size :: "nat \<Rightarrow> nat \<Rightarrow> uheap \<Rightarrow> uheap" where
  "set_size a v s = s\<lparr>h_size := (h_size s)(a := v)\<rparr>"

definition hadd :: "nat \<Rightarrow> nat \<Rightarrow> nat" where
  "hadd p n = wrap32 (p + 8 * n)"

section \<open>Operations\<close>

partial_function (option) free_find :: "nat \<Rightarrow> nat \<Rightarrow> uheap \<Rightarrow> nat option" where
  "free_find bp p s =
     (if p < bp \<and> bp < h_ptr s p then Some p
      else if h_ptr s p \<le> p \<and> (p < bp \<or> bp < h_ptr s p) then Some p
      else free_find bp (h_ptr s p) s)"

definition free :: "nat \<Rightarrow> uheap \<Rightarrow> uheap option" where
  "free ap s =
     (let bp = ap - 8
      in Option.bind (free_find bp (freep s) s) (\<lambda>p.
         let s = (if hadd bp (h_size s bp) = h_ptr s p
                  then let s = set_size bp (h_size s bp + h_size s (h_ptr s p)) s
                       in set_ptr bp (h_ptr s (h_ptr s p)) s
                  else set_ptr bp (h_ptr s p) s);
             s = (if hadd p (h_size s p) = bp
                  then let s = set_size p (h_size s p + h_size s bp) s
                       in set_ptr p (h_ptr s bp) s
                  else set_ptr p bp s)
         in Some (s\<lparr>freep := p\<rparr>)))"

text \<open>
  The system call \<open>sbrk\<close> as \<open>growproc\<close> behaves: growing fails at the limit; shrinking below address 0 is ignored.
\<close>

definition sbrk :: "int \<Rightarrow> uheap \<Rightarrow> (nat \<times> uheap) option" where
  "sbrk n s =
     (let e = int (h_brk s) + n
      in if 0 < n \<and> int (h_lim s) < e then None
         else Some (h_brk s, if e < 0 then s else s\<lparr>h_brk := nat e\<rparr>))"

text \<open>\<open>morecore\<close> returns 0 when there is no memory.\<close>

definition morecore :: "nat \<Rightarrow> uheap \<Rightarrow> (nat \<times> uheap) option" where
  "morecore nu s =
     (let nu = (if nu < 4096 then 4096 else nu)
      in case sbrk (s32 (wrap32 (nu * 8))) s of
           None \<Rightarrow> Some (0, s)
         | Some (p, s) \<Rightarrow> Option.bind (free (p + 8) (set_size p nu s)) (\<lambda>s. Some (freep s, s)))"

partial_function (option) malloc_loop :: "nat \<Rightarrow> nat \<Rightarrow> nat \<Rightarrow> uheap \<Rightarrow> (nat \<times> uheap) option" where
  "malloc_loop nunits prevp p s =
     (if nunits \<le> h_size s p
      then if h_size s p = nunits
           then Some (p + 8, (set_ptr prevp (h_ptr s p) s)\<lparr>freep := prevp\<rparr>)
           else let s = set_size p (h_size s p - nunits) s;
                    p = hadd p (h_size s p);
                    s = set_size p nunits s
                in Some (p + 8, s\<lparr>freep := prevp\<rparr>)
      else if p = freep s
      then Option.bind (morecore nunits s) (\<lambda>(p, s).
           if p = 0 then Some (0, s) else malloc_loop nunits p (h_ptr s p) s)
      else malloc_loop nunits p (h_ptr s p) s)"

definition malloc :: "nat \<Rightarrow> uheap \<Rightarrow> (nat \<times> uheap) option" where
  "malloc nbytes s =
     (let nunits = wrap32 (nbytes + 8 - 1) div 8 + 1;
          s = (if freep s = 0 then set_size (h_base s) 0 ((set_ptr (h_base s) (h_base s) s)\<lparr>freep := h_base s\<rparr>) else s);
          prevp = freep s
      in malloc_loop nunits prevp (h_ptr s prevp) s)"

section \<open>The ring of free blocks\<close>

lemma heap_sel [simp]:
  "h_ptr (set_ptr a v s) = (h_ptr s)(a := v)" "h_size (set_ptr a v s) = h_size s" "freep (set_ptr a v s) = freep s"
  "h_base (set_ptr a v s) = h_base s" "h_brk (set_ptr a v s) = h_brk s" "h_lim (set_ptr a v s) = h_lim s"
  "h_ptr (set_size a v s) = h_ptr s" "h_size (set_size a v s) = (h_size s)(a := v)" "freep (set_size a v s) = freep s"
  "h_base (set_size a v s) = h_base s" "h_brk (set_size a v s) = h_brk s" "h_lim (set_size a v s) = h_lim s"
  by (simp_all add: set_ptr_def set_size_def)

text \<open>From \<open>a\<close> the pointers lead through \<open>bs\<close>.\<close>

fun follows :: "(nat \<Rightarrow> nat) \<Rightarrow> nat \<Rightarrow> nat list \<Rightarrow> bool" where
  "follows h a [] = True"
| "follows h a (b # bs) \<longleftrightarrow> h a = b \<and> follows h b bs"

lemma follows_append: "follows h a (xs @ ys) \<longleftrightarrow> follows h a xs \<and> follows h (last (a # xs)) ys"
  by (induction xs arbitrary: a) auto

lemma follows_upd: "u \<notin> set (butlast (a # bs)) \<Longrightarrow> follows (h(u := v)) a bs = follows h a bs"
  by (induction bs arbitrary: a) (auto split: if_splits)

text \<open>
  \<open>xs\<close>: the free blocks by address. Between two of them there is a gap, for neighbours are joined.
  \<open>base\<close> is in the ring with size 0.
\<close>

definition gap :: "uheap \<Rightarrow> nat \<Rightarrow> nat \<Rightarrow> bool" where
  "gap s a b \<longleftrightarrow> a + 8 * h_size s a < b"

definition ring :: "uheap \<Rightarrow> nat list \<Rightarrow> bool" where
  "ring s xs \<longleftrightarrow> follows (h_ptr s) (h_base s) (xs @ [h_base s]) \<and> sorted_wrt (gap s) xs
     \<and> (\<forall>x \<in> set xs. 0 < h_size s x \<and> h_base s + 8 \<le> x \<and> x + 8 * h_size s x \<le> h_brk s)
     \<and> h_size s (h_base s) = 0 \<and> freep s \<in> set (h_base s # xs)"

definition heap_ok :: "uheap \<Rightarrow> bool" where
  "heap_ok s \<longleftrightarrow> 0 < h_base s \<and> h_base s + 8 \<le> h_brk s \<and> h_brk s \<le> h_lim s \<and> h_lim s < 2147483648"

definition block :: "uheap \<Rightarrow> nat \<Rightarrow> nat set" where
  "block s b = {b ..< b + 8 * h_size s b}"

definition area :: "uheap \<Rightarrow> nat list \<Rightarrow> nat set" where
  "area s xs = (\<Union>x \<in> set xs. block s x)"

lemma hadd_small: "p + 8 * n < u32_mod \<Longrightarrow> hadd p n = p + 8 * n"
  by (simp add: hadd_def)

lemma ring_distinct:
  assumes "ring s xs" shows "distinct (h_base s # xs)"
proof -
  have "sorted_wrt (<) xs" using assms unfolding ring_def gap_def by (auto elim: sorted_wrt_mono_rel [rotated])
  then show ?thesis using assms by (fastforce simp: ring_def strict_sorted_iff)
qed

lemma ring_sorted: "ring s xs \<Longrightarrow> sorted_wrt (<) (h_base s # xs)"
  unfolding ring_def gap_def by (fastforce elim: sorted_wrt_mono_rel [rotated])

text \<open>The search of \<open>free\<close> from a block below \<open>bp\<close> and from a block above it.\<close>

lemma free_find_low:
  "follows (h_ptr s) p (zs @ [w]) \<Longrightarrow> sorted_wrt (<) (p # zs) \<Longrightarrow> \<forall>z \<in> set (p # zs). z < bp \<Longrightarrow>
   bp < w \<or> w \<le> last (p # zs) \<Longrightarrow> free_find bp p s = Some (last (p # zs))"
proof (induction zs arbitrary: p)
  case Nil
  then show ?case by (subst free_find.simps) auto
next
  case (Cons z zs)
  then have "free_find bp p s = free_find bp z s" by (subst free_find.simps) auto
  also have "\<dots> = Some (last (z # zs))" using Cons by (intro Cons.IH) auto
  finally show ?case by simp
qed

lemma free_find_high:
  "follows (h_ptr s) p (zs @ [w]) \<Longrightarrow> sorted_wrt (<) (p # zs) \<Longrightarrow> \<forall>z \<in> set (p # zs). bp < z \<Longrightarrow> w < bp \<Longrightarrow>
   free_find bp p s = free_find bp w s"
proof (induction zs arbitrary: p)
  case Nil
  then show ?case by (subst free_find.simps) auto
next
  case (Cons z zs)
  then have "free_find bp p s = free_find bp z s" by (subst free_find.simps) auto
  also have "\<dots> = free_find bp w s" using Cons by (intro Cons.IH) auto
  finally show ?case .
qed

lemma free_find_ok:
  assumes r: "ring s (us @ vs)" and u: "\<forall>u \<in> set us. u < bp" and v: "\<forall>v \<in> set vs. bp < v" and b: "h_base s < bp"
  shows "free_find bp (freep s) s = Some (last (h_base s # us))"
proof -
  have f: "follows (h_ptr s) (h_base s) (us @ [hd (vs @ [h_base s])])"
    using r by (cases vs) (simp_all add: ring_def follows_append)
  have so: "sorted_wrt (<) (h_base s # us @ vs)" using ring_sorted [OF r] .
  have w: "bp < hd (vs @ [h_base s]) \<or> hd (vs @ [h_base s]) \<le> last (h_base s # us)"
    using v so by (cases vs; cases us rule: rev_cases) (auto simp: sorted_wrt_append)
  have base: "free_find bp (h_base s) s = Some (last (h_base s # us))"
    using f so u b w by (intro free_find_low) (auto simp: sorted_wrt_append)
  consider "freep s = h_base s" | "freep s \<in> set us" | "freep s \<in> set vs" using r by (auto simp: ring_def)
  then show ?thesis
  proof cases
    case 1 then show ?thesis using base by simp
  next
    case 2
    then obtain u1 u2 where us: "us = u1 @ freep s # u2" by (auto simp: in_set_conv_decomp)
    have "free_find bp (freep s) s = Some (last (freep s # u2))"
      using f so u w by (intro free_find_low [where w = "hd (vs @ [h_base s])"]) (auto simp: us follows_append sorted_wrt_append split: if_splits)
    then show ?thesis by (simp add: us)
  next
    case 3
    then obtain v1 v2 where vs: "vs = v1 @ freep s # v2" by (auto simp: in_set_conv_decomp)
    have "follows (h_ptr s) (h_base s) ((us @ v1 @ [freep s]) @ v2 @ [h_base s])" using r by (simp add: ring_def vs)
    then have "follows (h_ptr s) (freep s) (v2 @ [h_base s])" by (subst (asm) follows_append) simp
    then have "free_find bp (freep s) s = free_find bp (h_base s) s"
      using so v b by (intro free_find_high) (auto simp: vs sorted_wrt_append)
    then show ?thesis using base by simp
  qed
qed

lemma follows_cong: "\<forall>x \<in> set (butlast (a # bs)). h' x = h x \<Longrightarrow> follows h' a bs = follows h a bs"
  by (induction bs arbitrary: a) (auto split: if_splits)

lemma follows_hd: "bs \<noteq> [] \<Longrightarrow> follows h a bs \<longleftrightarrow> h a = hd bs \<and> follows h (hd bs) (tl bs)"
  by (cases bs) simp_all

lemma last_notin_butlast: "distinct xs \<Longrightarrow> xs \<noteq> [] \<Longrightarrow> last xs \<notin> set (butlast xs)"
  by (cases xs rule: rev_cases) auto

text \<open>The blocks \<open>ds\<close> in the middle of the ring are replaced by at most one other block.\<close>

lemma ring_replace:
  assumes r: "ring s (us @ ds @ ws)" and ms: "ms = [] \<or> ms = [m]"
    and same: "h_base t = h_base s" "h_brk t = h_brk s" "\<forall>x \<in> set (butlast (h_base s # us)) \<union> set ws. h_ptr t x = h_ptr s x"
      "\<forall>x \<in> set (h_base s # us) \<union> set ws. h_size t x = h_size s x"
    and lnk: "h_ptr t (last (h_base s # us)) = hd (ms @ ws @ [h_base s])"
    and m: "ms = [m] \<Longrightarrow> h_ptr t m = hd (ws @ [h_base s]) \<and> 0 < h_size t m \<and> h_base s + 8 \<le> m
        \<and> m + 8 * h_size t m \<le> h_brk s \<and> (\<forall>u \<in> set us. gap s u m) \<and> (\<forall>w \<in> set ws. gap t m w)"
    and f: "freep t \<in> set (h_base s # us @ ms @ ws)"
  shows "ring t (us @ ms @ ws)"
proof -
  let ?b = "h_base s"
  have fo: "follows (h_ptr s) ?b (us @ ds @ ws @ [?b])" using r by (simp add: ring_def)
  have us: "follows (h_ptr t) ?b us" using fo same(3) by (subst follows_cong [of _ _ _ "h_ptr s"]) (auto simp: follows_append)
  have "follows (h_ptr s) (last (last (?b # us) # ds)) (ws @ [?b])" using fo by (simp add: follows_append)
  then have "follows (h_ptr s) (hd (ws @ [?b])) (tl (ws @ [?b]))" by (subst (asm) follows_hd) simp_all
  then have ws: "follows (h_ptr t) (hd (ws @ [?b])) (tl (ws @ [?b]))"
    using same(3) by (subst follows_cong [of _ _ _ "h_ptr s"]) (cases ws; simp)+
  have "follows (h_ptr t) (last (?b # us)) (ms @ ws @ [?b])"
    using ms lnk m ws by (auto simp: follows_hd [of "ws @ [?b]"])
  then have "follows (h_ptr t) ?b ((us @ ms @ ws) @ [?b])" using us by (simp add: follows_append)
  moreover have "sorted_wrt (gap t) (us @ ms @ ws)"
  proof -
    have g: "sorted_wrt (gap s) us" "sorted_wrt (gap s) ws" "\<forall>u \<in> set us. \<forall>w \<in> set ws. gap s u w"
      using r by (auto simp: ring_def sorted_wrt_append)
    have e: "gap t x y = gap s x y" if "x \<in> set us \<union> set ws" for x y using same(4) that by (auto simp: gap_def)
    have "sorted_wrt (gap t) us" "sorted_wrt (gap t) ws"
      using g e by (auto elim!: sorted_wrt_mono_rel [rotated])
    then show ?thesis using g e ms m by (auto simp: sorted_wrt_append)
  qed
  ultimately show ?thesis using r ms m f same unfolding ring_def by auto
qed

lemma area_simps [simp]: "area s [] = {}" "area s (x # xs) = block s x \<union> area s xs" "area s (xs @ ys) = area s xs \<union> area s ys"
  by (simp_all add: area_def)

lemma area_cong: "\<forall>x \<in> set xs. h_size t x = h_size s x \<Longrightarrow> area t xs = area s xs"
  by (simp add: area_def block_def)

lemma dropWhile_sorted: "sorted_wrt (<) xs \<Longrightarrow> x \<in> set (dropWhile (\<lambda>x. x < b) xs) \<Longrightarrow> b \<le> (x :: nat)"
  by (induction xs) (auto split: if_splits)

lemma free_ring_split:
  assumes r: "ring s xs" and d: "block s bp \<inter> area s xs = {}" and p: "0 < h_size s bp"
  obtains us vs where "xs = us @ vs" "\<forall>u \<in> set us. u + 8 * h_size s u \<le> bp \<and> u < bp"
    "\<forall>v \<in> set vs. bp + 8 * h_size s bp \<le> v \<and> bp < v"
proof (rule that [of "takeWhile (\<lambda>x. x < bp) xs" "dropWhile (\<lambda>x. x < bp) xs"])
  have e: "block s bp \<inter> block s x = {}" "0 < h_size s x" if "x \<in> set xs" for x
    using d r that by (auto simp: area_def ring_def)
  show "\<forall>u \<in> set (takeWhile (\<lambda>x. x < bp) xs). u + 8 * h_size s u \<le> bp \<and> u < bp"
  proof
    fix u assume "u \<in> set (takeWhile (\<lambda>x. x < bp) xs)"
    then have u: "u \<in> set xs" "u < bp" by (auto dest: set_takeWhileD)
    have "bp \<notin> block s u" using e(1) [OF u(1)] p by (auto simp: block_def)
    then show "u + 8 * h_size s u \<le> bp \<and> u < bp" using u by (auto simp: block_def)
  qed
  show "\<forall>v \<in> set (dropWhile (\<lambda>x. x < bp) xs). bp + 8 * h_size s bp \<le> v \<and> bp < v"
  proof
    fix v assume v: "v \<in> set (dropWhile (\<lambda>x. x < bp) xs)"
    then have "v \<in> set xs" "bp \<le> v" using dropWhile_sorted [of xs v bp] ring_sorted [OF r] by (auto dest: set_dropWhileD)
    moreover from this have "v \<notin> block s bp" using e [of v] by (auto simp: block_def)
    ultimately show "bp + 8 * h_size s bp \<le> v \<and> bp < v" using p by (auto simp: block_def)
  qed
qed simp

lemma block_join: "a + 8 * m = (b :: nat) \<Longrightarrow> {a ..< a + 8 * (m + n)} = {a ..< a + 8 * m} \<union> {b ..< b + 8 * n}"
  by auto

text \<open>What \<open>free\<close> does to the ring, with the block that was free before \<open>bp\<close> and the one after it joined if they are adjacent.\<close>

lemma free_ok:
  assumes ok: "heap_ok s" and r: "ring s xs" and d: "block s bp \<inter> area s xs = {}" and p: "0 < h_size s bp"
    and lo: "h_base s + 8 \<le> bp" and hi: "bp + 8 * h_size s bp \<le> h_brk s"
  shows "\<exists>t ys. free (bp + 8) s = Some t \<and> ring t ys \<and> area t ys = area s xs \<union> block s bp
     \<and> h_base t = h_base s \<and> h_brk t = h_brk s \<and> h_lim t = h_lim s
     \<and> (\<forall>a. a \<notin> area s xs \<union> block s bp \<longrightarrow> h_size t a = h_size s a) \<and> (\<exists>y \<in> set ys. h_size s bp \<le> h_size t y)"
proof -
  let ?b = "h_base s"
  from free_ring_split [OF r d p] obtain us vs where xs: "xs = us @ vs"
    and u: "\<forall>u \<in> set us. u + 8 * h_size s u \<le> bp \<and> u < bp"
    and v: "\<forall>v \<in> set vs. bp + 8 * h_size s bp \<le> v \<and> bp < v" by blast
  define q where "q = last (?b # us)"
  have fq: "free_find bp (freep s) s = Some q"
    unfolding q_def using r u v lo xs by (intro free_find_ok [of s us vs bp]) auto
  have nxt: "h_ptr s q = hd (vs @ [?b])"
    using r unfolding ring_def xs q_def by (cases vs) (simp_all add: follows_append)
  have qb: "q + 8 * h_size s q \<le> h_brk s" "q \<in> set (?b # us)" "q < bp"
    using ok r u lo xs unfolding q_def by (cases us rule: rev_cases; auto simp: heap_ok_def ring_def)+
  have w: "hadd bp (h_size s bp) = bp + 8 * h_size s bp" "hadd q (h_size s q) = q + 8 * h_size s q"
    using ok hi qb(1) by (auto simp: heap_ok_def intro!: hadd_small)
  define R where "R \<longleftrightarrow> hd (vs @ [?b]) = bp + 8 * h_size s bp"
  define ds where "ds = (if R then [hd vs] else [])"
  define ws where "ws = (if R then tl vs else vs)"
  define n where "n = h_size s bp + (if R then h_size s (hd vs) else 0)"
  have vs: "vs = ds @ ws" using lo p by (cases vs) (auto simp: R_def ds_def ws_def)
  define s1 where "s1 = set_ptr bp (hd (ws @ [?b])) (set_size bp n s)"
  have nd: "distinct (?b # us @ ds @ ws)" "bp \<notin> set (?b # us @ ds @ ws)"
    using ring_distinct [OF r] u v lo by (auto simp: xs vs)
  have R: "h_ptr s (hd vs) = hd (ws @ [?b])" "vs = hd vs # ws" "hd vs = bp + 8 * h_size s bp" if R
  proof -
    show e: "vs = hd vs # ws" using that vs by (cases vs) (auto simp: ds_def)
    then show "hd vs = bp + 8 * h_size s bp" using that by (cases vs) (auto simp: R_def)
    have "follows (h_ptr s) ?b ((us @ [hd vs]) @ ws @ [?b])" using r e by (simp add: ring_def xs) (metis append_Cons)
    then have "follows (h_ptr s) (hd vs) (ws @ [?b])" by (subst (asm) follows_append) simp
    then show "h_ptr s (hd vs) = hd (ws @ [?b])" by (cases ws) simp_all
  qed
  have right: "(if hadd bp (h_size s bp) = h_ptr s q
                  then let s = set_size bp (h_size s bp + h_size s (h_ptr s q)) s
                       in set_ptr bp (h_ptr s (h_ptr s q)) s
                  else set_ptr bp (h_ptr s q) s) = s1"
  proof (cases R)
    case True
    then have "h_ptr s q = hd vs" using nxt R(2) by (metis hd_append2 list.distinct(1))
    then show ?thesis using True R by (simp add: s1_def n_def w)
  next
    case False
    then have "ws = vs" "n = h_size s bp" by (simp_all add: ws_def n_def)
    then show ?thesis using False nxt by (simp add: s1_def R_def w set_size_def)
  qed
  have s1: "h_size s1 q = h_size s q" "h_ptr s1 bp = hd (ws @ [?b])" "h_size s1 bp = n" "h_base s1 = ?b" "h_brk s1 = h_brk s"
    "h_lim s1 = h_lim s"
    using qb(3) by (simp_all add: s1_def)
  define L where "L \<longleftrightarrow> q + 8 * h_size s q = bp"
  define t where "t = (if L then set_ptr q (hd (ws @ [?b])) (set_size q (h_size s q + n) s1) else set_ptr q bp s1)\<lparr>freep := q\<rparr>"
  have run: "free (bp + 8) s = Some t"
    unfolding free_def add_diff_cancel_right' Let_def [of bp] fq bind.bind_lunit right
    using s1 w by (simp add: Let_def L_def t_def)
  have ring: "ring s (us @ ds @ ws)" using r by (simp add: xs vs)
  have qn1: "q \<notin> set (butlast (?b # us))" using nd(1) unfolding q_def by (intro last_notin_butlast) auto
  have qn2: "q \<notin> set ws" using nd(1) qb(2) by auto
  note qn = qn1 qn2
  have pt: "h_ptr t x = h_ptr s x" if "x \<in> set (butlast (?b # us)) \<union> set ws" for x
    using that qn nd(2) in_set_butlastD [of x "?b # us"] unfolding t_def s1_def by auto
  have st: "h_size t x = (if x = bp then n else if x = q \<and> L then h_size s q + n else h_size s x)" for x
    using qb(3) by (simp add: t_def s1_def)
  have ts: "h_base t = ?b" "h_brk t = h_brk s" "h_lim t = h_lim s" "freep t = q" by (simp_all add: t_def s1_def)
  have pbp: "h_ptr t bp = hd (ws @ [?b])" "h_ptr t q = (if L then hd (ws @ [?b]) else bp)"
    using qb(3) by (simp_all add: t_def s1_def)
  have szv: "bp + 8 * n \<le> h_brk s" "\<forall>v \<in> set ws. bp + 8 * n < v" "0 < n" "h_size s bp \<le> n"
    "{bp ..< bp + 8 * n} = block s bp \<union> area s ds"
  proof -
    have g: "\<forall>x \<in> set ds. \<forall>y \<in> set ws. gap s x y" "sorted_wrt (gap s) vs" using r by (auto simp: ring_def xs vs sorted_wrt_append)
    have no: "\<forall>v \<in> set vs. bp + 8 * h_size s bp < v" if "\<not> R"
      using that v g(2) by (cases vs) (fastforce simp: R_def gap_def)+
    show "bp + 8 * n \<le> h_brk s" using r R hi by (cases R) (auto simp: n_def ring_def xs)
    show "\<forall>v \<in> set ws. bp + 8 * n < v" using no g(1) R by (cases R) (auto simp: n_def ds_def ws_def gap_def)
    show "0 < n" "h_size s bp \<le> n" using p by (simp_all add: n_def)
    show "{bp ..< bp + 8 * n} = block s bp \<union> area s ds"
      using block_join [of bp "h_size s bp" "hd vs" "h_size s (hd vs)"] R(3) by (cases R) (simp_all add: n_def ds_def block_def)
  qed
  show ?thesis
  proof (cases L)
    case False
    let ?ys = "us @ [bp] @ ws"
    have sz: "\<forall>x \<in> set (?b # us) \<union> set ws. h_size t x = h_size s x" using nd(2) False by (auto simp: st)
    have gu: "\<forall>u \<in> set us. gap s u bp"
    proof
      fix x assume x: "x \<in> set us"
      show "gap s x bp"
      proof (cases "x = q")
        case True then show ?thesis using False u x by (auto simp: gap_def L_def)
      next
        case ne: False
        then have "x \<in> set (butlast us)" "us \<noteq> []" "q = last us" using x unfolding q_def by (cases us rule: rev_cases; auto)+
        then have "gap s x q" using r by (cases us rule: rev_cases) (auto simp: ring_def xs sorted_wrt_append)
        then show ?thesis using qb(3) by (auto simp: gap_def)
      qed
    qed
    have "ring t ?ys"
    proof (rule ring_replace [OF ring])
      show "h_ptr t (last (?b # us)) = hd ([bp] @ ws @ [?b])" using pbp(2) False unfolding q_def by simp
      show "h_ptr t bp = hd (ws @ [?b]) \<and> 0 < h_size t bp \<and> ?b + 8 \<le> bp \<and> bp + 8 * h_size t bp \<le> h_brk s
          \<and> (\<forall>u \<in> set us. gap s u bp) \<and> (\<forall>w \<in> set ws. gap t bp w)"
        using pbp(1) szv(1-3) lo gu by (simp add: st gap_def)
      show "freep t \<in> set (?b # us @ [bp] @ ws)" using qb(2) ts(4) by auto
    qed (use pt sz ts in auto)
    moreover have "area t ?ys = area s xs \<union> block s bp"
    proof -
      have "area t us = area s us" "area t ws = area s ws" using sz by (auto intro!: area_cong)
      moreover have "block t bp = block s bp \<union> area s ds" using szv(5) by (simp add: block_def [of t] st)
      ultimately show ?thesis by (auto simp: xs vs)
    qed
    moreover have "\<forall>a. a \<notin> area s xs \<union> block s bp \<longrightarrow> h_size t a = h_size s a"
      using False p by (auto simp: st block_def)
    moreover have "h_size s bp \<le> h_size t bp" using szv(4) by (simp add: st)
    ultimately show ?thesis using run ts by (intro exI [of _ t] exI [of _ ?ys]) simp
  next
    case True
    then have "q \<noteq> ?b" using lo r by (auto simp: L_def ring_def)
    then obtain us' where us: "us = us' @ [q]" unfolding q_def by (cases us rule: rev_cases) auto
    let ?ys = "us' @ [q] @ ws"
    have ring': "ring s (us' @ (q # ds) @ ws)" using ring us by simp
    have sz: "\<forall>x \<in> set (?b # us') \<union> set ws. h_size t x = h_size s x" using nd qn by (auto simp: st us)
    have tq: "h_size t q = h_size s q + n" using True qb(3) by (simp add: st)
    have "ring t ?ys"
    proof (rule ring_replace [OF ring'])
      have "h_ptr s (last (?b # us')) = q" using ring' by (simp add: ring_def follows_append)
      moreover have "last (?b # us') \<in> set (butlast (?b # us))" by (simp add: us)
      ultimately show "h_ptr t (last (?b # us')) = hd ([q] @ ws @ [?b])" using pt by simp
      show "h_ptr t q = hd (ws @ [?b]) \<and> 0 < h_size t q \<and> ?b + 8 \<le> q \<and> q + 8 * h_size t q \<le> h_brk s
          \<and> (\<forall>u \<in> set us'. gap s u q) \<and> (\<forall>w \<in> set ws. gap t q w)"
        using pbp(2) True szv(1-3) r by (auto simp: tq gap_def L_def ring_def xs us sorted_wrt_append)
      show "freep t \<in> set (?b # us' @ [q] @ ws)" using ts(4) by simp
      show "\<forall>x \<in> set (butlast (?b # us')) \<union> set ws. h_ptr t x = h_ptr s x"
        using pt in_set_butlastD [of _ us'] by (auto simp: us)
    qed (use sz ts in auto)
    moreover have "area t ?ys = area s xs \<union> block s bp"
    proof -
      have "area t us' = area s us'" "area t ws = area s ws" using sz by (auto intro!: area_cong)
      moreover have "block t q = block s q \<union> (block s bp \<union> area s ds)"
        using block_join [of q "h_size s q" bp n] True szv(5) by (simp add: block_def [of t] tq L_def) (simp add: block_def)
      ultimately show ?thesis by (auto simp: xs vs us)
    qed
    moreover have "\<forall>a. a \<notin> area s xs \<union> block s bp \<longrightarrow> h_size t a = h_size s a"
      using r p by (auto simp: st block_def ring_def xs us)
    moreover have "h_size s bp \<le> h_size t q" using szv(4) by (simp add: tq)
    ultimately show ?thesis using run ts by (intro exI [of _ t] exI [of _ ?ys]) simp
  qed
qed

section \<open>Searching\<close>

text \<open>What \<open>malloc\<close> does with the block \<open>b\<close> that fits, \<open>prevp\<close> being the one before.\<close>

definition carve :: "nat \<Rightarrow> nat \<Rightarrow> nat \<Rightarrow> uheap \<Rightarrow> nat \<times> uheap" where
  "carve n prevp b s =
     (if h_size s b = n then (b + 8, (set_ptr prevp (h_ptr s b) s)\<lparr>freep := prevp\<rparr>)
      else let c = hadd b (h_size s b - n)
           in (c + 8, (set_size c n (set_size b (h_size s b - n) s))\<lparr>freep := prevp\<rparr>))"

lemma malloc_loop_finds:
  "follows (h_ptr s) prevp (us @ b # ws) \<Longrightarrow> \<forall>u \<in> set us. h_size s u < n \<and> u \<noteq> freep s \<Longrightarrow> n \<le> h_size s b \<Longrightarrow>
   malloc_loop n prevp (h_ptr s prevp) s = Some (carve n (last (prevp # us)) b s)"
proof (induction us arbitrary: prevp)
  case Nil
  then show ?case by (subst malloc_loop.simps) (simp add: carve_def Let_def)
next
  case (Cons u us)
  then have "malloc_loop n prevp (h_ptr s prevp) s = malloc_loop n u (h_ptr s u) s"
    by (subst malloc_loop.simps) simp
  then show ?case using Cons by simp
qed

lemma malloc_loop_fails:
  "follows (h_ptr s) prevp (us @ [freep s]) \<Longrightarrow> \<forall>u \<in> set us. h_size s u < n \<and> u \<noteq> freep s \<Longrightarrow> h_size s (freep s) < n \<Longrightarrow>
   malloc_loop n prevp (h_ptr s prevp) s = Option.bind (morecore n s) (\<lambda>(p, s).
     if p = 0 then Some (0, s) else malloc_loop n p (h_ptr s p) s)"
proof (induction us arbitrary: prevp)
  case Nil
  then show ?case by (subst malloc_loop.simps) simp
next
  case (Cons u us)
  then have "malloc_loop n prevp (h_ptr s prevp) s = malloc_loop n u (h_ptr s u) s"
    by (subst malloc_loop.simps) simp
  then show ?case using Cons by simp
qed

text \<open>The ring as seen from \<open>freep\<close>.\<close>

lemma ring_rotate:
  assumes r: "ring s xs"
  obtains os where "follows (h_ptr s) (freep s) (os @ [freep s])" "set (os @ [freep s]) = set (h_base s # xs)" "freep s \<notin> set os"
proof (cases "freep s = h_base s")
  case True
  then show ?thesis using that [of xs] r ring_distinct [OF r] by (auto simp: ring_def)
next
  case False
  then obtain us vs where xs: "xs = us @ freep s # vs" using r by (auto simp: ring_def in_set_conv_decomp)
  have f: "follows (h_ptr s) (h_base s) (us @ [freep s] @ vs @ [h_base s])" using r by (simp add: ring_def xs)
  show ?thesis
  proof (rule that [of "vs @ h_base s # us"])
    show "follows (h_ptr s) (freep s) ((vs @ h_base s # us) @ [freep s])" using f by (simp add: follows_append)
    show "set ((vs @ h_base s # us) @ [freep s]) = set (h_base s # xs)" by (auto simp: xs)
    show "freep s \<notin> set (vs @ h_base s # us)" using ring_distinct [OF r] by (auto simp: xs)
  qed
qed

lemma ring_pred:
  assumes r: "ring s (us @ b # vs)" and p: "p \<in> set (h_base s # us @ b # vs)" and b: "h_ptr s p = b"
  shows "p = last (h_base s # us)"
proof -
  have nd: "distinct (h_base s # us @ b # vs)" using ring_distinct [OF r] by simp
  obtain as cs where e: "h_base s # us @ b # vs = as @ p # cs" using split_list [OF p] by blast
  have "h_ptr s p = hd (cs @ [h_base s])"
  proof (cases as)
    case Nil
    then have "us @ b # vs = cs" "p = h_base s" using e by auto
    moreover have "follows (h_ptr s) (h_base s) ((us @ b # vs) @ [h_base s])" using r unfolding ring_def by blast
    ultimately show ?thesis by (cases cs) auto
  next
    case (Cons a as')
    then have "us @ b # vs = as' @ p # cs" "a = h_base s" using e by auto
    then have "follows (h_ptr s) (h_base s) ((as' @ [p]) @ cs @ [h_base s])" using r by (simp add: ring_def)
    then have "follows (h_ptr s) p (cs @ [h_base s])" by (subst (asm) follows_append) simp
    then show ?thesis by (cases cs) simp_all
  qed
  then obtain cs' where cs: "cs = b # cs'" using b nd by (cases cs) auto
  have "(h_base s # us) @ b # vs = (as @ [p]) @ b # cs'" using e cs by simp
  moreover have "b \<notin> set (h_base s # us)" "b \<notin> set vs" using nd by auto
  ultimately have "h_base s # us = as @ [p]" using append_Cons_eq_iff [of b "h_base s # us" vs "as @ [p]" cs'] by blast
  then show ?thesis by (metis last_snoc)
qed

lemma malloc_loop_fit:
  assumes r: "ring s xs" and n: "0 < n" and fit: "\<exists>x \<in> set xs. n \<le> h_size s x"
  obtains us b vs where "xs = us @ b # vs" "n \<le> h_size s b"
    "malloc_loop n (freep s) (h_ptr s (freep s)) s = Some (carve n (last (h_base s # us)) b s)"
proof -
  obtain os where os: "follows (h_ptr s) (freep s) (os @ [freep s])" "set (os @ [freep s]) = set (h_base s # xs)" "freep s \<notin> set os"
    using ring_rotate [OF r] by blast
  have "\<exists>x \<in> set (os @ [freep s]). n \<le> h_size s x" using fit os(2) by auto
  then obtain u1 b w1 where sp: "os @ [freep s] = u1 @ b # w1" "n \<le> h_size s b" "\<forall>u \<in> set u1. \<not> n \<le> h_size s u"
    using split_list_first_prop [of "os @ [freep s]" "\<lambda>x. n \<le> h_size s x"] by blast
  have nf: "\<forall>u \<in> set u1. h_size s u < n \<and> u \<noteq> freep s"
  proof
    fix u assume u: "u \<in> set u1"
    then have "u \<in> set os" using sp(1) by (cases w1 rule: rev_cases) auto
    then show "h_size s u < n \<and> u \<noteq> freep s" using u sp(3) os(3) by auto
  qed
  have run: "malloc_loop n (freep s) (h_ptr s (freep s)) s = Some (carve n (last (freep s # u1)) b s)"
    using os(1) sp nf by (intro malloc_loop_finds) auto
  have "b \<in> set (os @ [freep s])" using sp(1) by simp
  moreover have "b \<noteq> h_base s" using r n sp(2) by (auto simp: ring_def)
  ultimately have "b \<in> set xs" unfolding os(2) by simp
  then obtain us vs where xs: "xs = us @ b # vs" by (auto simp: in_set_conv_decomp)
  have "last (freep s # u1) \<in> set (h_base s # xs)" using r os(2) sp(1) by (cases u1 rule: rev_cases) (auto simp: ring_def)
  moreover have "h_ptr s (last (freep s # u1)) = b" using os(1) sp(1) by (simp add: follows_append)
  ultimately have "last (freep s # u1) = last (h_base s # us)" using ring_pred [of s us b vs] r by (simp add: xs)
  then show ?thesis using that [OF xs sp(2)] run by simp
qed

lemma malloc_loop_nofit:
  assumes r: "ring s xs" and n: "0 < n" and no: "\<forall>x \<in> set xs. h_size s x < n"
  shows "malloc_loop n (freep s) (h_ptr s (freep s)) s = Option.bind (morecore n s) (\<lambda>(p, s).
     if p = 0 then Some (0, s) else malloc_loop n p (h_ptr s p) s)"
proof -
  obtain os where os: "follows (h_ptr s) (freep s) (os @ [freep s])" "set (os @ [freep s]) = set (h_base s # xs)" "freep s \<notin> set os"
    using ring_rotate [OF r] by blast
  have "h_size s x < n" if "x \<in> set (os @ [freep s])" for x
    using that r n no unfolding os(2) by (auto simp: ring_def)
  then show ?thesis using os by (intro malloc_loop_fails [OF os(1)]) auto
qed

lemma carve_ok:
  assumes ok: "heap_ok s" and r: "ring s (us @ b # vs)" and n: "0 < n" "n \<le> h_size s b"
  shows "\<exists>c t ys. carve n (last (h_base s # us)) b s = (c + 8, t) \<and> ring t ys \<and> {c ..< c + 8 * n} \<subseteq> block s b
     \<and> area t ys = area s (us @ b # vs) - {c ..< c + 8 * n} \<and> h_size t c = n \<and> 0 < freep t
     \<and> h_base t = h_base s \<and> h_brk t = h_brk s \<and> h_lim t = h_lim s
     \<and> (\<forall>a. a \<notin> block s b \<longrightarrow> h_size t a = h_size s a)"
proof -
  let ?b = "h_base s" and ?q = "last (h_base s # us)"
  have nd: "distinct (?b # us @ b # vs)" using ring_distinct [OF r] .
  have q: "?q \<in> set (?b # us)" by (rule last_in_set) simp
  have "\<forall>x \<in> set us. ?b + 8 \<le> x" "0 < ?b" using r ok by (simp_all add: ring_def heap_ok_def)
  then have "\<forall>x \<in> set (?b # us). 0 < x" by fastforce
  then have q0: "0 < ?q" using q by blast
  have dis: "block s b \<inter> area s us = {}" "block s b \<inter> area s vs = {}"
    using r by (fastforce simp: area_def block_def ring_def gap_def sorted_wrt_append)+
  have nxt: "h_ptr s b = hd (vs @ [?b])"
    using r by (cases vs) (simp_all add: ring_def follows_append)
  have ring: "ring s (us @ [b] @ vs)" using r by simp
  show ?thesis
  proof (cases "h_size s b = n")
    case True
    define t where "t = (set_ptr ?q (h_ptr s b) s)\<lparr>freep := ?q\<rparr>"
    have "?q \<notin> set (butlast (?b # us))" using nd by (intro last_notin_butlast) auto
    moreover have "?q \<notin> set vs" using q nd by auto
    ultimately have "ring t (us @ [] @ vs)"
      using nxt q by (intro ring_replace [OF ring]) (auto simp: t_def)
    moreover have "area t (us @ [] @ vs) = area s (us @ b # vs) - {b ..< b + 8 * n}"
    proof -
      have "area t us = area s us" "area t vs = area s vs" by (rule area_cong; simp add: t_def)+
      then show ?thesis using dis True by (auto simp: block_def)
    qed
    ultimately show ?thesis using True q0
      by (intro exI [of _ b] exI [of _ t] exI [of _ "us @ [] @ vs"]) (auto simp: carve_def t_def block_def)
  next
    case False
    define c where "c = b + 8 * (h_size s b - n)"
    have bb: "0 < h_size s b" "?b + 8 \<le> b" "b + 8 * h_size s b \<le> h_brk s" using r by (auto simp: ring_def)
    have c: "hadd b (h_size s b - n) = c" "b < c" "c + 8 * n = b + 8 * h_size s b"
      using False n bb ok by (auto simp: c_def heap_ok_def intro!: hadd_small)
    have "c \<in> block s b" using c n by (simp add: block_def)
    moreover have "x \<in> block s x" if "x \<in> set us \<union> set vs" for x using that r by (auto simp: block_def ring_def)
    ultimately have cn: "c \<notin> set (?b # us @ b # vs)" using dis c(2) bb(2) by (fastforce simp: area_def)
    define t where "t = (set_size c n (set_size b (h_size s b - n) s))\<lparr>freep := ?q\<rparr>"
    have sz: "\<forall>x \<in> set (?b # us) \<union> set vs. h_size t x = h_size s x" using cn nd by (auto simp: t_def)
    have tb: "h_size t b = h_size s b - n" using c(2) by (simp add: t_def)
    have "ring t (us @ [b] @ vs)"
    proof (rule ring_replace [OF ring])
      show "h_ptr t ?q = hd ([b] @ vs @ [?b])" using r by (simp add: t_def ring_def follows_append)
      show "h_ptr t b = hd (vs @ [?b]) \<and> 0 < h_size t b \<and> ?b + 8 \<le> b \<and> b + 8 * h_size t b \<le> h_brk s
          \<and> (\<forall>u \<in> set us. gap s u b) \<and> (\<forall>w \<in> set vs. gap t b w)"
        using r nxt bb c n False unfolding tb gap_def by (auto simp: t_def ring_def sorted_wrt_append gap_def)
      show "freep t \<in> set (?b # us @ [b] @ vs)" using q by (auto simp: t_def)
    qed (use sz in \<open>auto simp: t_def\<close>)
    moreover have "area t (us @ [b] @ vs) = area s (us @ b # vs) - {c ..< c + 8 * n}"
    proof -
      have "area t us = area s us" "area t vs = area s vs" by (rule area_cong; use sz in auto)+
      moreover have "block t b = block s b - {c ..< c + 8 * n}" using c n by (auto simp: block_def tb)
      moreover have "{c ..< c + 8 * n} \<subseteq> block s b" using c by (auto simp: block_def)
      ultimately show ?thesis using dis by auto
    qed
    ultimately show ?thesis using False q0 c n
      by (intro exI [of _ c] exI [of _ t] exI [of _ "us @ [b] @ vs"]) (auto simp: carve_def t_def block_def Let_def)
  qed
qed


lemma area_below: "ring s xs \<Longrightarrow> area s xs \<subseteq> {h_base s + 8 ..< h_brk s}"
  by (fastforce simp: area_def block_def ring_def)

text \<open>\<open>morecore\<close> takes at least 4096 units from the kernel and frees them.\<close>

lemma morecore_fails:
  assumes ok: "heap_ok s" and n: "8 * max 4096 n < 2147483648" and lim: "h_lim s < h_brk s + 8 * max 4096 n"
  shows "morecore n s = Some (0, s)"
proof -
  have "s32 (wrap32 (max 4096 n * 8)) = int (8 * max 4096 n)" using n by (simp add: s32_def mult.commute)
  moreover have "sbrk (int (8 * max 4096 n)) s = None" using lim by (simp add: sbrk_def Let_def)
  moreover have "(if n < 4096 then 4096 else n) = max 4096 n" by simp
  ultimately show ?thesis unfolding morecore_def Let_def by simp
qed

lemma morecore_ok:
  assumes ok: "heap_ok s" and r: "ring s xs" and n: "8 * max 4096 n < 2147483648" and lim: "h_brk s + 8 * max 4096 n \<le> h_lim s"
  shows "\<exists>t ys. morecore n s = Some (freep t, t) \<and> ring t ys \<and> area t ys = area s xs \<union> {h_brk s ..< h_brk t} \<and> heap_ok t
     \<and> h_brk t = h_brk s + 8 * max 4096 n \<and> h_base t = h_base s \<and> h_lim t = h_lim s
     \<and> (\<forall>a. a \<notin> area s xs \<union> {h_brk s ..< h_brk t} \<longrightarrow> h_size t a = h_size s a) \<and> (\<exists>y \<in> set ys. n \<le> h_size t y)"
proof -
  let ?nu = "max 4096 n"
  define s1 where "s1 = set_size (h_brk s) ?nu (s\<lparr>h_brk := h_brk s + 8 * ?nu\<rparr>)"
  have s1: "h_size s1 = (h_size s)(h_brk s := ?nu)" "h_ptr s1 = h_ptr s" "h_brk s1 = h_brk s + 8 * ?nu" "h_base s1 = h_base s"
    "h_lim s1 = h_lim s" "freep s1 = freep s" by (simp_all add: s1_def)
  have lt: "x < h_brk s" if "x \<in> set (h_base s # xs)" for x using that ok r by (fastforce simp: heap_ok_def ring_def)
  then have sz: "h_size s1 x = h_size s x" if "x \<in> set (h_base s # xs)" for x using that by (fastforce simp: s1(1))
  have ar: "area s1 xs = area s xs" using sz by (auto intro!: area_cong)
  have "sorted_wrt (gap s1) xs"
  proof (rule sorted_wrt_mono_rel)
    show "sorted_wrt (gap s) xs" using r by (simp add: ring_def)
  qed (use sz in \<open>auto simp: gap_def\<close>)
  then have r1: "ring s1 xs" using r sz unfolding ring_def s1(2-6) by fastforce
  have ok1: "heap_ok s1" using ok lim by (simp add: heap_ok_def s1)
  have b1: "block s1 (h_brk s) = {h_brk s ..< h_brk s1}" by (simp add: block_def s1)
  have "block s1 (h_brk s) \<inter> area s1 xs = {}" using area_below [OF r] by (auto simp: ar b1)
  moreover have p1: "0 < h_size s1 (h_brk s)" by (simp add: s1(1) max_def)
  moreover have p2: "h_base s1 + 8 \<le> h_brk s" using ok by (simp add: heap_ok_def s1(4))
  moreover have p3: "h_brk s + 8 * h_size s1 (h_brk s) \<le> h_brk s1" by (simp add: s1(1,3))
  ultimately obtain t ys where t: "free (h_brk s + 8) s1 = Some t" "ring t ys" "area t ys = area s1 xs \<union> block s1 (h_brk s)"
      "h_base t = h_base s1" "h_brk t = h_brk s1" "h_lim t = h_lim s1"
      "\<forall>a. a \<notin> area s1 xs \<union> block s1 (h_brk s) \<longrightarrow> h_size t a = h_size s1 a" "\<exists>y \<in> set ys. h_size s1 (h_brk s) \<le> h_size t y"
    using free_ok [OF ok1 r1, of "h_brk s", OF _ p1 p2 p3] by blast
  have "s32 (wrap32 (?nu * 8)) = int (8 * ?nu)" using n by (simp add: s32_def mult.commute)
  moreover have "sbrk (int (8 * ?nu)) s = Some (h_brk s, s\<lparr>h_brk := h_brk s + 8 * ?nu\<rparr>)"
    using lim by (simp add: sbrk_def Let_def nat_add_distrib)
  moreover have "(if n < 4096 then 4096 else n) = ?nu" by simp
  ultimately have "morecore n s = Some (freep t, t)" using t(1) unfolding morecore_def Let_def by (simp add: s1_def)
  moreover have "\<forall>a. a \<notin> area s xs \<union> {h_brk s ..< h_brk t} \<longrightarrow> h_size t a = h_size s a"
    using t(5,7) by (auto simp: ar b1 s1)
  moreover have "heap_ok t" using ok1 t(4-6) by (simp add: heap_ok_def)
  moreover have "area t ys = area s xs \<union> {h_brk s ..< h_brk t}" using t(3,5) by (simp add: ar b1)
  moreover have "\<exists>y \<in> set ys. n \<le> h_size t y" using t(8) by (auto simp: s1)
  ultimately show ?thesis using t(2,4-6) by (intro exI [of _ t] exI [of _ ys]) (simp add: s1)
qed

section \<open>What a program may rely on\<close>

text \<open>\<open>F\<close>: the bytes that are free. Before the first call of \<open>malloc\<close> there are none.\<close>

definition heap_free :: "uheap \<Rightarrow> nat set \<Rightarrow> bool" where
  "heap_free s F \<longleftrightarrow> heap_ok s \<and> (if freep s = 0 then F = {} else \<exists>xs. ring s xs \<and> area s xs = F)"

text \<open>The outcome of \<open>malloc\<close> when the free bytes were \<open>F\<close>: no memory left, or a block of \<open>n\<close> units.\<close>

definition malloc_post :: "uheap \<Rightarrow> nat set \<Rightarrow> nat \<Rightarrow> nat \<Rightarrow> uheap \<Rightarrow> bool" where
  "malloc_post s F n r t \<longleftrightarrow> h_base t = h_base s \<and> h_lim t = h_lim s \<and> freep t \<noteq> 0 \<and> h_brk t \<le> h_brk s + 8 * max 4096 n
     \<and> (\<forall>a. a \<noteq> h_base s \<and> a \<notin> F \<union> {h_brk s ..< h_brk t} \<longrightarrow> h_size t a = h_size s a)
     \<and> (if r = 0 then h_lim s < h_brk s + 8 * max 4096 n \<and> h_brk t = h_brk s \<and> heap_free t F
        else \<exists>b. r = b + 8 \<and> block t b \<subseteq> F \<union> {h_brk s ..< h_brk t} \<and> h_brk s \<le> h_brk t
          \<and> heap_free t (F \<union> {h_brk s ..< h_brk t} - block t b) \<and> h_size t b = n)"

lemma malloc_loop_carves:
  assumes ok: "heap_ok s" and r: "ring s xs" and n: "0 < n" and fit: "\<exists>x \<in> set xs. n \<le> h_size s x"
  shows "\<exists>c t. malloc_loop n (freep s) (h_ptr s (freep s)) s = Some (c + 8, t) \<and> {c ..< c + 8 * n} \<subseteq> area s xs
     \<and> heap_free t (area s xs - {c ..< c + 8 * n}) \<and> h_size t c = n \<and> h_brk t = h_brk s
     \<and> (\<forall>a. a \<notin> area s xs \<longrightarrow> h_size t a = h_size s a) \<and> h_base t = h_base s \<and> h_lim t = h_lim s \<and> freep t \<noteq> 0"
proof -
  obtain us b vs where b: "xs = us @ b # vs" "n \<le> h_size s b"
    "malloc_loop n (freep s) (h_ptr s (freep s)) s = Some (carve n (last (h_base s # us)) b s)"
    using malloc_loop_fit [OF r n fit] by blast
  obtain c t ys where t: "carve n (last (h_base s # us)) b s = (c + 8, t)" "ring t ys" "{c ..< c + 8 * n} \<subseteq> block s b"
     "area t ys = area s xs - {c ..< c + 8 * n}" "h_size t c = n" "0 < freep t"
     "h_base t = h_base s" "h_brk t = h_brk s" "h_lim t = h_lim s" "\<forall>a. a \<notin> block s b \<longrightarrow> h_size t a = h_size s a"
    using carve_ok [OF ok r [unfolded b(1)] n b(2)] by (auto simp: b(1))
  have "heap_free t (area s xs - {c ..< c + 8 * n})"
    using t ok by (auto simp: heap_free_def heap_ok_def)
  then show ?thesis using t b by (intro exI [of _ c] exI [of _ t]) (auto simp: area_def)
qed

lemma ring_freep: "heap_ok s \<Longrightarrow> ring s xs \<Longrightarrow> freep s \<noteq> 0"
  by (fastforce simp: ring_def heap_ok_def)

lemma heap_freeI: "heap_ok s \<Longrightarrow> ring s xs \<Longrightarrow> heap_free s (area s xs)"
  using ring_freep [of s xs] by (auto simp: heap_free_def)

lemma malloc_loop_post:
  assumes ok: "heap_ok s" and r: "ring s xs" and n: "0 < n" "8 * max 4096 n < 2147483648"
  shows "\<exists>p t. malloc_loop n (freep s) (h_ptr s (freep s)) s = Some (p, t) \<and> malloc_post s (area s xs) n p t"
proof (cases "\<exists>x \<in> set xs. n \<le> h_size s x")
  case True
  from malloc_loop_carves [OF ok r n(1) True] obtain c t where
     "malloc_loop n (freep s) (h_ptr s (freep s)) s = Some (c + 8, t)" "{c ..< c + 8 * n} \<subseteq> area s xs"
     "heap_free t (area s xs - {c ..< c + 8 * n})" "h_size t c = n" "h_brk t = h_brk s"
     "\<forall>a. a \<notin> area s xs \<longrightarrow> h_size t a = h_size s a" "h_base t = h_base s" "h_lim t = h_lim s" "freep t \<noteq> 0" by blast
  then show ?thesis by (intro exI [of _ "c + 8"] exI [of _ t]) (simp add: malloc_post_def block_def)
next
  case False
  then have run: "malloc_loop n (freep s) (h_ptr s (freep s)) s = Option.bind (morecore n s) (\<lambda>(p, s).
     if p = 0 then Some (0, s) else malloc_loop n p (h_ptr s p) s)"
    by (intro malloc_loop_nofit [OF r n(1)]) auto
  show ?thesis
  proof (cases "h_lim s < h_brk s + 8 * max 4096 n")
    case True
    then show ?thesis using heap_freeI [OF ok r] ring_freep [OF ok r]
      by (simp add: run morecore_fails [OF ok n(2) True] malloc_post_def)
  next
    case lim: False
    obtain t ys where t: "morecore n s = Some (freep t, t)" "ring t ys" "area t ys = area s xs \<union> {h_brk s ..< h_brk t}" "heap_ok t"
       "h_brk t = h_brk s + 8 * max 4096 n" "h_base t = h_base s" "h_lim t = h_lim s"
       "\<forall>a. a \<notin> area s xs \<union> {h_brk s ..< h_brk t} \<longrightarrow> h_size t a = h_size s a" "\<exists>y \<in> set ys. n \<le> h_size t y"
      using morecore_ok [OF ok r n(2)] lim unfolding not_less by blast
    obtain c u where u: "malloc_loop n (freep t) (h_ptr t (freep t)) t = Some (c + 8, u)" "{c ..< c + 8 * n} \<subseteq> area t ys"
       "heap_free u (area t ys - {c ..< c + 8 * n})" "h_size u c = n" "h_brk u = h_brk t"
       "\<forall>a. a \<notin> area t ys \<longrightarrow> h_size u a = h_size t a" "h_base u = h_base t" "h_lim u = h_lim t" "freep u \<noteq> 0"
      using malloc_loop_carves [OF t(4) t(2) n(1) t(9)] by blast
    have "malloc_post s (area s xs) n (c + 8) u" using t(3,5-8) u(2-9) by (simp add: malloc_post_def block_def)
    then show ?thesis using u(1) t(1) ring_freep [OF t(4,2)] by (simp add: run)
  qed
qed

text \<open>The number of units for \<open>n\<close> bytes and a header.\<close>

definition units :: "nat \<Rightarrow> nat" where
  "units n = (n + 7) div 8 + 1"

lemma units_fit: "n + 8 \<le> 8 * units n" "0 < units n"
  by (simp_all add: units_def)

lemma malloc_ok:
  assumes f: "heap_free s F" and n: "n < 2147483633"
  shows "\<exists>r t. malloc n s = Some (r, t) \<and> malloc_post s F (units n) r t"
proof -
  have u: "wrap32 (n + 8 - 1) div 8 + 1 = units n" "8 * max 4096 (units n) < 2147483648" using n by (auto simp: units_def)
  show ?thesis
  proof (cases "freep s = 0")
    case True
    define s1 where "s1 = set_size (h_base s) 0 ((set_ptr (h_base s) (h_base s) s)\<lparr>freep := h_base s\<rparr>)"
    have "heap_ok s1" "ring s1 []" "F = {}" using f True by (simp_all add: s1_def heap_free_def heap_ok_def ring_def)
    then obtain r t where t: "malloc_loop (units n) (freep s1) (h_ptr s1 (freep s1)) s1 = Some (r, t)" "malloc_post s1 {} (units n) r t"
      using malloc_loop_post [of s1 "[]" "units n"] u(2) units_fit(2) by auto
    moreover have "h_brk s1 = h_brk s" "h_lim s1 = h_lim s" "h_base s1 = h_base s" "h_size s1 = (h_size s)(h_base s := 0)"
      by (simp_all add: s1_def)
    then have "malloc_post s F (units n) r t" using t(2) \<open>F = {}\<close> unfolding malloc_post_def by auto
    ultimately show ?thesis unfolding malloc_def u(1) Let_def using True by (simp add: s1_def)
  next
    case False
    then obtain xs where xs: "ring s xs" "area s xs = F" "heap_ok s" using f by (auto simp: heap_free_def)
    then show ?thesis using malloc_loop_post [OF xs(3,1) units_fit(2) u(2)] False unfolding malloc_def u(1) Let_def by simp
  qed
qed

lemma heap_free_below: "heap_free s F \<Longrightarrow> F \<subseteq> {h_base s + 8 ..< h_brk s}"
  using area_below by (auto simp: heap_free_def split: if_splits)

lemma free_returns:
  assumes f: "heap_free s F" and i: "freep s \<noteq> 0" and d: "block s b \<inter> F = {}" and p: "0 < h_size s b"
    and lo: "h_base s + 8 \<le> b" and hi: "b + 8 * h_size s b \<le> h_brk s"
  shows "\<exists>t. free (b + 8) s = Some t \<and> heap_free t (F \<union> block s b) \<and> freep t \<noteq> 0
     \<and> h_base t = h_base s \<and> h_brk t = h_brk s \<and> h_lim t = h_lim s \<and> (\<forall>a. a \<notin> F \<union> block s b \<longrightarrow> h_size t a = h_size s a)"
proof -
  obtain xs where xs: "ring s xs" "area s xs = F" "heap_ok s" using f i by (auto simp: heap_free_def)
  obtain t ys where t: "free (b + 8) s = Some t" "ring t ys" "area t ys = F \<union> block s b"
     "h_base t = h_base s" "h_brk t = h_brk s" "h_lim t = h_lim s" "\<forall>a. a \<notin> F \<union> block s b \<longrightarrow> h_size t a = h_size s a"
    using free_ok [OF xs(3,1) _ p lo hi] d unfolding xs(2) by blast
  have "heap_ok t" using xs(3) t(4-6) by (simp add: heap_ok_def)
  then show ?thesis using t heap_freeI [of t ys] ring_freep [of t ys] by auto
qed

end
