(* ===== verification/UmallocSpec.thy ===== *)
theory UmallocSpec
  imports Umalloc
begin

text \<open>
  What a program that uses \<open>umalloc.c\<close> may rely on: an interface of allocators, what follows for a program with
  several blocks at a time, and the properties of \<open>malloc\<close> and \<open>free\<close>.
\<close>

section \<open>Interface\<close>

text \<open>
  \<open>spare s U\<close>: the allocator may use the addresses \<open>U\<close>. \<open>blk s r\<close> are the addresses a block takes, the header
  included, \<open>own s r\<close> says that its header is in order, and \<open>touch W s t\<close> that from \<open>s\<close> to \<open>t\<close> the program writes to \<open>W\<close>.
\<close>

locale allocator =
  fixes spare :: "'s \<Rightarrow> nat set \<Rightarrow> bool" and own :: "'s \<Rightarrow> nat \<Rightarrow> bool" and blk :: "'s \<Rightarrow> nat \<Rightarrow> nat set"
    and touch :: "nat set \<Rightarrow> 's \<Rightarrow> 's \<Rightarrow> bool"
    and alloc :: "nat \<Rightarrow> 's \<Rightarrow> (nat \<times> 's) option" and release :: "nat \<Rightarrow> 's \<Rightarrow> 's option" and most :: nat
  assumes alloc_ok: "spare s U \<Longrightarrow> n < most \<Longrightarrow> \<exists>r t. alloc n s = Some (r, t)
      \<and> (if r = 0 then spare t U else own t r \<and> {r ..< r + n} \<subseteq> blk t r - {r - 8 ..< r} \<and> blk t r \<subseteq> U \<and> spare t (U - blk t r))
      \<and> (\<forall>q. own s q \<and> blk s q \<inter> U = {} \<longrightarrow> own t q \<and> blk t q = blk s q)"
    and release_ok: "spare s U \<Longrightarrow> own s r \<Longrightarrow> blk s r \<inter> U = {} \<Longrightarrow> \<exists>t. release r s = Some t \<and> spare t (U \<union> blk s r)
      \<and> (\<forall>q. own s q \<and> blk s q \<inter> (U \<union> blk s r) = {} \<longrightarrow> own t q \<and> blk t q = blk s q)"
    and touch_ok: "spare s U \<Longrightarrow> own s r \<Longrightarrow> blk s r \<inter> U = {} \<Longrightarrow> W \<subseteq> blk s r - {r - 8 ..< r} \<Longrightarrow> touch W s t \<Longrightarrow>
      spare t U \<and> (\<forall>q. own s q \<and> (q = r \<or> blk s q \<inter> blk s r = {}) \<longrightarrow> own t q \<and> blk t q = blk s q)"
    and own_pos: "own s r \<Longrightarrow> r \<noteq> 0 \<and> blk s r \<noteq> {}"

text \<open>The blocks a program has, with the sizes it asked for: each is in order, and no two of them share an address.\<close>

definition apart :: "('s \<Rightarrow> nat set \<Rightarrow> bool) \<Rightarrow> ('s \<Rightarrow> nat \<Rightarrow> bool) \<Rightarrow> ('s \<Rightarrow> nat \<Rightarrow> nat set) \<Rightarrow> 's \<Rightarrow> (nat \<rightharpoonup> nat) \<Rightarrow> bool" where
  "apart spare own blk s L \<longleftrightarrow> (\<exists>U. spare s U \<and> (\<forall>r \<in> dom L. own s r \<and> blk s r \<inter> U = {}))
     \<and> (\<forall>r n. L r = Some n \<longrightarrow> {r ..< r + n} \<subseteq> blk s r - {r - 8 ..< r})
     \<and> (\<forall>r \<in> dom L. \<forall>q \<in> dom L. r \<noteq> q \<longrightarrow> blk s r \<inter> blk s q = {})"

lemma apartI:
  assumes s: "spare s U" and o: "\<And>r n. L r = Some n \<Longrightarrow> own s r \<and> blk s r \<inter> U = {} \<and> {r ..< r + n} \<subseteq> blk s r - {r - 8 ..< r}"
    and d: "\<And>r q. r \<in> dom L \<Longrightarrow> q \<in> dom L \<Longrightarrow> r \<noteq> q \<Longrightarrow> blk s r \<inter> blk s q = {}"
  shows "apart spare own blk s L"
  unfolding apart_def
proof (intro conjI exI [of _ U] ballI allI impI s)
  fix r assume "r \<in> dom L"
  then obtain n where "L r = Some n" by auto
  then show "own s r" "blk s r \<inter> U = {}" using o by auto
qed (use o d in auto)

lemma apartE:
  assumes "apart spare own blk s L"
  obtains U where "spare s U" "\<forall>r \<in> dom L. own s r \<and> blk s r \<inter> U = {}"
  using assms unfolding apart_def by blast

lemma apart_bytesD: "apart spare own blk s L \<Longrightarrow> L r = Some n \<Longrightarrow> {r ..< r + n} \<subseteq> blk s r - {r - 8 ..< r}"
  unfolding apart_def by blast

lemma apart_disjD: "apart spare own blk s L \<Longrightarrow> r \<in> dom L \<Longrightarrow> q \<in> dom L \<Longrightarrow> r \<noteq> q \<Longrightarrow> blk s r \<inter> blk s q = {}"
  unfolding apart_def by (elim conjE) simp

context allocator
begin

lemma alloc_apart:
  assumes a: "apart spare own blk s L" and n: "n < most"
  shows "\<exists>r t. alloc n s = Some (r, t) \<and> apart spare own blk t (if r = 0 then L else L(r \<mapsto> n)) \<and> (r \<noteq> 0 \<longrightarrow> L r = None)"
proof -
  from a obtain U where U1: "spare s U" and U23: "\<forall>r \<in> dom L. own s r \<and> blk s r \<inter> U = {}" by (rule apartE)
  have U2: "own s r" and U3: "blk s r \<inter> U = {}" if "r \<in> dom L" for r using U23 that by auto
  note U4 = apart_bytesD [OF a] and U5 = apart_disjD [OF a]
  obtain r t where t: "alloc n s = Some (r, t)"
      "if r = 0 then spare t U else own t r \<and> {r ..< r + n} \<subseteq> blk t r - {r - 8 ..< r} \<and> blk t r \<subseteq> U \<and> spare t (U - blk t r)"
      "\<forall>q. own s q \<and> blk s q \<inter> U = {} \<longrightarrow> own t q \<and> blk t q = blk s q" using alloc_ok [OF U1 n] by blast
  have same: "own t q" "blk t q = blk s q" if "q \<in> dom L" for q using t(3) U2 U3 that by blast+
  show ?thesis
  proof (cases "r = 0")
    case True
    have "apart spare own blk t L"
      by (rule apartI [of _ _ U]) (use True t(2) U1 U3 U4 U5 same in \<open>auto simp: domIff\<close>)
    then show ?thesis using True t(1) by auto
  next
    case False
    then have r: "own t r" "{r ..< r + n} \<subseteq> blk t r - {r - 8 ..< r}" "blk t r \<subseteq> U" "spare t (U - blk t r)" using t(2) by auto
    have new: "blk t r \<inter> blk s q = {}" if "q \<in> dom L" for q using r(3) U3 [OF that] by blast
    have nr: "r \<notin> dom L" using new [of r] same [of r] own_pos [OF r(1)] by auto
    have "apart spare own blk t (L(r \<mapsto> n))"
    proof (rule apartI [where spare = spare, OF r(4)])
      fix q m assume q: "(L(r \<mapsto> n)) q = Some m"
      show "own t q \<and> blk t q \<inter> (U - blk t r) = {} \<and> {q ..< q + m} \<subseteq> blk t q - {q - 8 ..< q}"
      proof (cases "q = r")
        case True then show ?thesis using r q by auto
      next
        case ne: False
        then have "L q = Some m" using q by simp
        then show ?thesis using same [of q] U3 [of q] U4 [of q m] by auto
      qed
    next
      fix p q assume "p \<in> dom (L(r \<mapsto> n))" "q \<in> dom (L(r \<mapsto> n))" "p \<noteq> q"
      then show "blk t p \<inter> blk t q = {}"
        using new [of p] new [of q] same(2) [of p] same(2) [of q] U5 [of p q] by (cases "p = r"; cases "q = r"; auto)
    qed
    then show ?thesis using t(1) nr False by auto
  qed
qed

lemma release_apart:
  assumes a: "apart spare own blk s L" and r: "r \<in> dom L"
  shows "\<exists>t. release r s = Some t \<and> apart spare own blk t (L(r := None))"
proof -
  from a obtain U where U1: "spare s U" and U23: "\<forall>r \<in> dom L. own s r \<and> blk s r \<inter> U = {}" by (rule apartE)
  have U2: "own s r" and U3: "blk s r \<inter> U = {}" if "r \<in> dom L" for r using U23 that by auto
  note U4 = apart_bytesD [OF a] and U5 = apart_disjD [OF a]
  obtain t where t: "release r s = Some t" "spare t (U \<union> blk s r)"
      "\<forall>q. own s q \<and> blk s q \<inter> (U \<union> blk s r) = {} \<longrightarrow> own t q \<and> blk t q = blk s q"
    using release_ok [OF U1 U2 [OF r] U3 [OF r]] by blast
  have dis: "blk s q \<inter> (U \<union> blk s r) = {}" if "q \<in> dom L" "q \<noteq> r" for q
    using U3 [OF that(1)] U5 [OF that(1) r that(2)] by blast
  have same: "own t q" "blk t q = blk s q" if "q \<in> dom L" "q \<noteq> r" for q
    using t(3) U2 [OF that(1)] dis [OF that] by blast+
  have "apart spare own blk t (L(r := None))"
  proof (rule apartI [where spare = spare, OF t(2)])
    fix q m assume q: "(L(r := None)) q = Some m"
    then have "q \<in> dom L" "q \<noteq> r" "L q = Some m" by (auto split: if_splits)
    then show "own t q \<and> blk t q \<inter> (U \<union> blk s r) = {} \<and> {q ..< q + m} \<subseteq> blk t q - {q - 8 ..< q}"
      using same [of q] dis [of q] U4 [of q m] by auto
  next
    fix p q assume "p \<in> dom (L(r := None))" "q \<in> dom (L(r := None))" "p \<noteq> q"
    then show "blk t p \<inter> blk t q = {}" using same(2) [of p] same(2) [of q] U5 [of p q] by simp
  qed
  then show ?thesis using t(1) by blast
qed

lemma touch_apart:
  assumes a: "apart spare own blk s L" and r: "L r = Some n" and t: "touch W s t" "W \<subseteq> {r ..< r + n}"
  shows "apart spare own blk t L"
proof -
  from a obtain U where U1: "spare s U" and U23: "\<forall>r \<in> dom L. own s r \<and> blk s r \<inter> U = {}" by (rule apartE)
  have U2: "own s r" and U3: "blk s r \<inter> U = {}" if "r \<in> dom L" for r using U23 that by auto
  note U4 = apart_bytesD [OF a] and U5 = apart_disjD [OF a]
  have rd: "r \<in> dom L" using r by blast
  have "W \<subseteq> blk s r - {r - 8 ..< r}" using t(2) U4 [OF r] by blast
  then have k: "spare t U" "\<forall>q. own s q \<and> (q = r \<or> blk s q \<inter> blk s r = {}) \<longrightarrow> own t q \<and> blk t q = blk s q"
    using touch_ok [OF U1 U2 [OF rd] U3 [OF rd] _ t(1)] by blast+
  have same: "own t q" "blk t q = blk s q" if "q \<in> dom L" for q
    using k(2) U2 [OF that] U5 [OF that rd] by blast+
  show ?thesis
  proof (rule apartI [where spare = spare, OF k(1)])
    fix q m assume "L q = Some m"
    then show "own t q \<and> blk t q \<inter> U = {} \<and> {q ..< q + m} \<subseteq> blk t q - {q - 8 ..< q}"
      using same [of q] U3 [of q] U4 [of q m] by auto
  qed (use same(2) U5 in auto)
qed

lemma apart_bytes:
  assumes a: "apart spare own blk s L" and q: "L r = Some m" "L q = Some n" "r \<noteq> q"
  shows "{r ..< r + m} \<inter> {q ..< q + n} = {}"
  using a q unfolding apart_def by blast

end

section \<open>The allocator of \<open>umalloc.c\<close>\<close>

definition heap_spare :: "uheap \<Rightarrow> nat set \<Rightarrow> bool" where
  "heap_spare s U \<longleftrightarrow> (\<exists>F. heap_free s F \<and> U = F \<union> {h_brk s ..})"

definition heap_own :: "uheap \<Rightarrow> nat \<Rightarrow> bool" where
  "heap_own s r \<longleftrightarrow> freep s \<noteq> 0 \<and> h_base s + 16 \<le> r \<and> 0 < h_size s (r - 8)"

text \<open>The program may write to \<open>W\<close>: any header that shares a byte with \<open>W\<close> may read differently afterwards.\<close>

definition heap_touch :: "nat set \<Rightarrow> uheap \<Rightarrow> uheap \<Rightarrow> bool" where
  "heap_touch W s t \<longleftrightarrow> (\<exists>p z. t = s\<lparr>h_ptr := p, h_size := z\<rparr>
     \<and> (\<forall>a. {a ..< a + 8} \<inter> W = {} \<longrightarrow> p a = h_ptr s a \<and> z a = h_size s a))"

lemma ring_cong:
  assumes r: "ring s xs" and p: "\<forall>x \<in> set (h_base s # xs). h_ptr t x = h_ptr s x \<and> h_size t x = h_size s x"
    and same: "h_base t = h_base s" "h_brk t = h_brk s" "freep t = freep s"
  shows "ring t xs \<and> area t xs = area s xs"
proof
  have "follows (h_ptr t) (h_base s) (xs @ [h_base s])"
    using r p in_set_butlastD [of _ "h_base s # xs"] by (subst follows_cong [of _ _ _ "h_ptr s"]) (auto simp: ring_def)
  moreover have "sorted_wrt (gap t) xs"
    by (rule sorted_wrt_mono_rel [of _ "gap s"]) (use r p in \<open>auto simp: ring_def gap_def\<close>)
  ultimately show "ring t xs" using r p same unfolding ring_def by auto
  show "area t xs = area s xs" using p by (auto intro!: area_cong)
qed

lemma touch_heap_ok:
  assumes u: "heap_spare s U" and r: "heap_own s r" "block s (r - 8) \<inter> U = {}"
    and w: "W \<subseteq> block s (r - 8) - {r - 8 ..< r}" "heap_touch W s t"
  shows "heap_spare t U \<and> (\<forall>q. heap_own s q \<and> (q = r \<or> block s (q - 8) \<inter> block s (r - 8) = {}) \<longrightarrow>
    heap_own t q \<and> block t (q - 8) = block s (q - 8))"
proof -
  obtain F where F: "heap_free s F" "U = F \<union> {h_brk s ..}" using u by (auto simp: heap_spare_def)
  obtain xs where xs: "ring s xs" "area s xs = F" "heap_ok s" using F r(1) by (auto simp: heap_free_def heap_own_def)
  have t: "h_base t = h_base s" "h_brk t = h_brk s" "freep t = freep s" "h_lim t = h_lim s"
    "h_ptr t a = h_ptr s a" "h_size t a = h_size s a" if "{a ..< a + 8} \<inter> W = {}" for a
    using w(2) that by (auto simp: heap_touch_def)
  have "{x ..< x + 8} \<subseteq> block s x" "block s x \<subseteq> F" if "x \<in> set xs" for x
    using xs(1,2) that by (auto simp: ring_def block_def area_def)
  then have hx: "{x ..< x + 8} \<inter> W = {}" if "x \<in> set xs" for x using that w(1) r(2) F(2) by blast
  have hb: "{h_base s ..< h_base s + 8} \<inter> W = {}" using r(1) w(1) by (fastforce simp: heap_own_def block_def)
  note sel = t(1-4) [OF hb]
  have "ring t xs \<and> area t xs = F" using ring_cong [OF xs(1), of t] hx hb t(5,6) sel(1-3) xs(2) by auto
  moreover have "heap_ok t" using xs(3) sel by (simp add: heap_ok_def)
  ultimately have "heap_spare t U" using F(2) sel(2) heap_freeI [of t xs] by (auto simp: heap_spare_def)
  moreover have "heap_own t q \<and> block t (q - 8) = block s (q - 8)"
    if "heap_own s q" "q = r \<or> block s (q - 8) \<inter> block s (r - 8) = {}" for q
  proof -
    have "{q - 8 ..< q - 8 + 8} \<subseteq> block s (q - 8)" "q - 8 + 8 = q" using that(1) by (auto simp: block_def heap_own_def)
    then have "{q - 8 ..< q - 8 + 8} \<inter> W = {}" using w(1) that(2) by auto
    then show ?thesis using t(6) [of "q - 8"] that(1) sel by (simp add: heap_own_def block_def)
  qed
  ultimately show ?thesis by blast
qed

lemma own_head: "heap_own s q \<Longrightarrow> q - 8 \<in> block s (q - 8)"
  by (simp add: block_def heap_own_def) linarith

lemma alloc_heap_ok:
  assumes u: "heap_spare s U" and n: "n < 2147483633"
  shows "\<exists>r t. malloc n s = Some (r, t)
    \<and> (if r = 0 then heap_spare t U
       else heap_own t r \<and> {r ..< r + n} \<subseteq> block t (r - 8) - {r - 8 ..< r} \<and> block t (r - 8) \<subseteq> U \<and> heap_spare t (U - block t (r - 8)))
    \<and> (\<forall>q. heap_own s q \<and> block s (q - 8) \<inter> U = {} \<longrightarrow> heap_own t q \<and> block t (q - 8) = block s (q - 8))"
proof -
  obtain F where F: "heap_free s F" "U = F \<union> {h_brk s ..}" using u by (auto simp: heap_spare_def)
  obtain r t where t: "malloc n s = Some (r, t)" and post: "malloc_post s F (units n) r t" using malloc_ok [OF F(1) n] by blast
  have base: "h_base t = h_base s" "freep t \<noteq> 0" using post by (auto simp: malloc_post_def)
  have old: "heap_own t q \<and> block t (q - 8) = block s (q - 8)" if q: "heap_own s q" "block s (q - 8) \<inter> U = {}" for q
  proof -
    have "q - 8 \<in> block s (q - 8)" using own_head [OF q(1)] .
    then have "q - 8 \<noteq> h_base s" "q - 8 \<notin> F \<union> {h_brk s ..< h_brk t}" using q F(2) by (auto simp: heap_own_def)
    then have "h_size t (q - 8) = h_size s (q - 8)" using post unfolding malloc_post_def by blast
    then show ?thesis using q(1) base by (simp add: heap_own_def block_def)
  qed
  show ?thesis
  proof (cases "r = 0")
    case True
    then have "heap_spare t U" using post F(2) by (auto simp: malloc_post_def heap_spare_def)
    then show ?thesis using t True old by (intro exI [of _ r] exI [of _ t]) simp
  next
    case False
    then obtain b where b: "r = b + 8" "block t b \<subseteq> F \<union> {h_brk s ..< h_brk t}" "h_brk s \<le> h_brk t"
      "heap_free t (F \<union> {h_brk s ..< h_brk t} - block t b)" "h_size t b = units n" using post by (auto simp: malloc_post_def)
    have below: "F \<union> {h_brk s ..< h_brk t} \<subseteq> {h_base s + 8 ..< h_brk t}"
      using heap_free_below [OF F(1)] F(1) b(3) by (auto simp: heap_free_def heap_ok_def)
    have "U - block t b = (F \<union> {h_brk s ..< h_brk t} - block t b) \<union> {h_brk t ..}"
      using b(2,3) subset_trans [OF b(2) below] F(2) by fastforce
    then have "heap_spare t (U - block t b)" using b(4) by (auto simp: heap_spare_def)
    moreover have "b \<in> block t b" using b(5) units_fit(2) by (simp add: block_def)
    from subsetD [OF subset_trans [OF b(2) below] this] have "heap_own t r"
      using b(1,5) base units_fit(2) [of n] by (simp add: heap_own_def)
    moreover have "{r ..< r + n} \<subseteq> block t b - {b ..< r}" using b(1,5) units_fit(1) [of n] by (auto simp: block_def)
    moreover have "block t b \<subseteq> U" using b(2) F(2) by auto
    ultimately show ?thesis using t b(1) old by auto
  qed
qed

lemma release_heap_ok:
  assumes u: "heap_spare s U" and r: "heap_own s r" "block s (r - 8) \<inter> U = {}"
  shows "\<exists>t. free r s = Some t \<and> heap_spare t (U \<union> block s (r - 8))
    \<and> (\<forall>q. heap_own s q \<and> block s (q - 8) \<inter> (U \<union> block s (r - 8)) = {} \<longrightarrow> heap_own t q \<and> block t (q - 8) = block s (q - 8))"
proof -
  obtain F where F: "heap_free s F" "U = F \<union> {h_brk s ..}" using u by (auto simp: heap_spare_def)
  obtain b where b: "r = b + 8" using r(1) by (metis heap_own_def add_leD2 le_add_diff_inverse2 numeral_Bit0)
  have o: "0 < h_size s b" "h_base s + 8 \<le> b" "freep s \<noteq> 0" using r(1) by (auto simp: heap_own_def b)
  have "b + 8 * h_size s b - 1 \<in> block s b" using o(1) by (simp add: block_def)
  then have "b + 8 * h_size s b - 1 < h_brk s" using r(2) F(2) by (auto simp: b)
  then have hi: "b + 8 * h_size s b \<le> h_brk s" by linarith
  obtain t where t: "free r s = Some t" "heap_free t (F \<union> block s b)" "freep t \<noteq> 0" "h_base t = h_base s" "h_brk t = h_brk s"
     "\<forall>a. a \<notin> F \<union> block s b \<longrightarrow> h_size t a = h_size s a"
    using free_returns [OF F(1) o(3) _ o(1,2) hi] r(2) F(2) unfolding b by auto
  have "heap_own t q \<and> block t (q - 8) = block s (q - 8)"
    if q: "heap_own s q" "block s (q - 8) \<inter> (U \<union> block s (r - 8)) = {}" for q
  proof -
    have "q - 8 \<in> block s (q - 8)" using own_head [OF q(1)] .
    then have "q - 8 \<notin> F \<union> block s b" using q(2) F(2) b by auto
    then show ?thesis using t(3,4,6) q(1) by (simp add: heap_own_def block_def)
  qed
  then show ?thesis using t(1,2,5) F(2) b by (auto simp: heap_spare_def intro!: exI [of _ "F \<union> block s b"])
qed

interpretation uma: allocator heap_spare heap_own "\<lambda>s r. block s (r - 8)" heap_touch malloc free 2147483633
proof unfold_locales
  fix s r show "heap_own s r \<Longrightarrow> r \<noteq> 0 \<and> block s (r - 8) \<noteq> {}" by (auto simp: heap_own_def block_def)
qed (fact alloc_heap_ok release_heap_ok touch_heap_ok)+

lemma heap_spare_free:
  assumes "heap_spare s (F \<union> {h_brk s ..})" "F \<subseteq> {..< h_brk s}" shows "heap_free s F"
proof -
  obtain G where G: "heap_free s G" "F \<union> {h_brk s ..} = G \<union> {h_brk s ..}" using assms(1) by (auto simp: heap_spare_def)
  then have "F = G" using heap_free_below [OF G(1)] assms(2) by fastforce
  then show ?thesis using G(1) by simp
qed

section \<open>A program\<close>

text \<open>
  The program asks for blocks, writes to the ones it has and frees them, in any order. \<open>L\<close> maps the pointers it has to
  the sizes it asked for.
\<close>

inductive uses :: "uheap \<Rightarrow> (nat \<rightharpoonup> nat) \<Rightarrow> uheap \<Rightarrow> (nat \<rightharpoonup> nat) \<Rightarrow> bool" for s0 L0 where
  start: "uses s0 L0 s0 L0"
| malloc: "uses s0 L0 s L \<Longrightarrow> n < 2147483633 \<Longrightarrow> malloc n s = Some (r, t) \<Longrightarrow> uses s0 L0 t (if r = 0 then L else L(r \<mapsto> n))"
| free: "uses s0 L0 s L \<Longrightarrow> r \<in> dom L \<Longrightarrow> free r s = Some t \<Longrightarrow> uses s0 L0 t (L(r := None))"
| touch: "uses s0 L0 s L \<Longrightarrow> L r = Some n \<Longrightarrow> heap_touch {r ..< r + n} s t \<Longrightarrow> uses s0 L0 t L"

abbreviation heap_apart :: "uheap \<Rightarrow> (nat \<rightharpoonup> nat) \<Rightarrow> bool" where
  "heap_apart \<equiv> apart heap_spare heap_own (\<lambda>s r. block s (r - 8))"

lemma uses_apart: "uses s0 L0 t L \<Longrightarrow> heap_apart s0 L0 \<Longrightarrow> heap_apart t L"
proof (induction rule: uses.induct)
  case (malloc s L n r t)
  then show ?case using uma.alloc_apart [of s L n] by auto
next
  case (free s L r t)
  then show ?case using uma.release_apart [of s L r] by (auto simp del: fun_upd_apply)
next
  case (touch s L r n t)
  then show ?case using uma.touch_apart [of s L r n "{r ..< r + n}" t] by auto
qed simp

lemma heap_apart_fresh: "heap_ok s \<Longrightarrow> freep s = 0 \<Longrightarrow> heap_apart s Map.empty"
  by (auto simp: apart_def heap_spare_def heap_free_def)

text \<open>
  \<open>malloc\<close>, when the free bytes of the heap are \<open>F\<close>. It always returns. It returns 0 only when the
  kernel cannot give it the memory it asks for, which is at least 4096 units, and then nothing is lost. Otherwise the
  block, of \<open>units n\<close> units with the header before the pointer, lies in the free memory or the memory just got from the
  kernel, has room for the \<open>n\<close> bytes, and is what the free memory shrinks by; no header elsewhere changes.
\<close>

theorem malloc_gets_block:
  assumes "heap_free s F" "n < 2147483633"
  shows "\<exists>r t. malloc n s = Some (r, t)
    \<and> (if r = 0 then h_lim s < h_brk s + 8 * max 4096 (units n) \<and> h_brk t = h_brk s \<and> heap_free t F
       else \<exists>B. B = {r - 8 ..< r - 8 + 8 * units n} \<and> {r ..< r + n} \<subseteq> B \<and> B \<subseteq> F \<union> {h_brk s ..< h_brk t}
         \<and> heap_free t (F \<union> {h_brk s ..< h_brk t} - B) \<and> h_size t (r - 8) = units n)
    \<and> (\<forall>a. a = h_base s \<or> a \<in> F \<union> {h_brk s ..< h_brk t} \<or> h_size t a = h_size s a)"
proof -
  obtain r t where t: "malloc n s = Some (r, t)" and post: "malloc_post s F (units n) r t" using malloc_ok [OF assms] by blast
  have "\<forall>a. a = h_base s \<or> a \<in> F \<union> {h_brk s ..< h_brk t} \<or> h_size t a = h_size s a"
    using post unfolding malloc_post_def by blast
  moreover have "\<exists>B. B = {r - 8 ..< r - 8 + 8 * units n} \<and> {r ..< r + n} \<subseteq> B \<and> B \<subseteq> F \<union> {h_brk s ..< h_brk t}
         \<and> heap_free t (F \<union> {h_brk s ..< h_brk t} - B) \<and> h_size t (r - 8) = units n" if "r \<noteq> 0"
  proof -
    obtain b where b: "r = b + 8" "block t b \<subseteq> F \<union> {h_brk s ..< h_brk t}"
      "heap_free t (F \<union> {h_brk s ..< h_brk t} - block t b)" "h_size t b = units n" using post \<open>r \<noteq> 0\<close> by (auto simp: malloc_post_def)
    moreover have "block t b = {r - 8 ..< r - 8 + 8 * units n}" by (simp add: block_def b(1,4))
    moreover have "{r ..< r + n} \<subseteq> {r - 8 ..< r - 8 + 8 * units n}" using units_fit(1) [of n] by (auto simp: b(1))
    ultimately show ?thesis by auto
  qed
  moreover have "h_lim s < h_brk s + 8 * max 4096 (units n) \<and> h_brk t = h_brk s \<and> heap_free t F" if "r = 0"
    using post that by (simp add: malloc_post_def)
  ultimately show ?thesis using t by (intro exI [of _ r] exI [of _ t]) simp
qed

text \<open>A heap to try it on.\<close>

definition heap0 :: uheap where
  "heap0 = \<lparr>h_ptr = \<lambda>_. 0, h_size = \<lambda>_. 0, freep = 0, h_base = 4096, h_brk = 8192, h_lim = 131072\<rparr>"

lemma heap0_ok: "heap_ok heap0" "heap_free heap0 {}" "freep heap0 = 0" "h_brk heap0 = 8192" "h_lim heap0 = 131072"
  by (simp_all add: heap0_def heap_free_def heap_ok_def)

lemma heap0_malloc:
  obtains r t where "malloc 100 heap0 = Some (r, t)" "r \<noteq> 0" "h_brk t \<le> 40960" "h_lim t = 131072"
  using malloc_ok [OF heap0_ok(2), of 100] heap0_ok(4,5) by (auto simp: malloc_post_def units_def split: if_splits)

theorem malloc_gets_block_witness:
  "\<exists>r t. malloc 100 heap0 = Some (r, t) \<and> r \<noteq> 0 \<and> {r ..< r + 100} \<subseteq> {8192 ..< h_brk t}"
proof -
  obtain r t where "malloc 100 heap0 = Some (r, t)" "r \<noteq> 0" by (rule heap0_malloc)
  then show ?thesis using malloc_gets_block [OF heap0_ok(2), of 100] heap0_ok(4) by (auto split: if_splits)
qed

text \<open>
  C30: What \<open>malloc\<close> gave out, \<open>free\<close> takes back: both return, and afterwards all the memory that was
  free before, and what came from the kernel meanwhile, is free again, whatever the program wrote to the block.
\<close>

theorem malloc_free_roundtrip:
  assumes "heap_free s F" "n < 2147483633" "malloc n s = Some (r, t)" "r \<noteq> 0" "heap_touch {r ..< r + n} t u"
  shows "\<exists>v. free r u = Some v \<and> heap_free v (F \<union> {h_brk s ..< h_brk v}) \<and> h_brk v = h_brk t"
proof -
  have post: "malloc_post s F (units n) r t" using malloc_ok [OF assms(1,2)] assms(3) by auto
  then obtain b where b: "r = b + 8" "block t b \<subseteq> F \<union> {h_brk s ..< h_brk t}" "h_brk s \<le> h_brk t"
      "heap_free t (F \<union> {h_brk s ..< h_brk t} - block t b)" (is "heap_free t ?G") "h_size t b = units n"
    using assms(4) by (auto simp: malloc_post_def)
  have below: "F \<union> {h_brk s ..< h_brk t} \<subseteq> {h_base s + 8 ..< h_brk t}"
    using heap_free_below [OF assms(1)] assms(1) b(3) by (auto simp: heap_free_def heap_ok_def)
  have base: "freep t \<noteq> 0" "h_base t = h_base s" using post by (simp_all add: malloc_post_def)
  have bl: "block t b = {b ..< b + 8 * units n}" by (simp add: block_def b(5))
  then have "b \<in> F \<union> {h_brk s ..< h_brk t}" "b + 8 * units n - 1 \<in> F \<union> {h_brk s ..< h_brk t}"
    using b(2) units_fit(2) [of n] by (auto simp: subset_eq)
  from this [THEN subsetD [OF below]] have pos: "h_base s + 8 \<le> b" "b + 8 * units n \<le> h_brk t" by auto
  have own: "heap_own t r" using pos base b(1,5) units_fit(2) [of n] by (simp add: heap_own_def)
  have sp: "heap_spare t (?G \<union> {h_brk t ..})" using b(4) by (auto simp: heap_spare_def)
  have dis: "block t (r - 8) \<inter> (?G \<union> {h_brk t ..}) = {}" using pos(2) by (auto simp: b(1) bl)
  have "{r ..< r + n} \<subseteq> block t (r - 8) - {r - 8 ..< r}" using units_fit(1) [of n] by (auto simp: b(1) bl)
  from touch_heap_ok [OF sp own dis this assms(5)] own
  have u: "heap_spare u (?G \<union> {h_brk t ..})" "heap_own u r" "block u b = block t b" by (auto simp: b(1))
  have bu: "h_brk u = h_brk t" using assms(5) by (auto simp: heap_touch_def)
  have "?G \<subseteq> {..< h_brk u}" using below unfolding bu by fastforce
  then have fu: "heap_free u ?G" using heap_spare_free [of u ?G] u(1) unfolding bu by blast
  have "card (block u b) = card (block t b)" using u(3) by simp
  then have "h_size u b = units n" by (simp add: block_def b(5))
  then obtain v where "free (b + 8) u = Some v" "heap_free v (?G \<union> block u b)" "h_brk v = h_brk u"
    using free_returns [OF fu, of b] u(2,3) pos units_fit(2) [of n] by (auto simp: heap_own_def b(1) bu)
  moreover have "?G \<union> block u b = F \<union> {h_brk s ..< h_brk t}" using b(2) u(3) by auto
  ultimately show ?thesis by (auto simp: b(1) bu)
qed

lemma heap_touch_refl: "heap_touch W s s"
  unfolding heap_touch_def by (intro exI [of _ "h_ptr s"] exI [of _ "h_size s"]) simp

theorem malloc_free_roundtrip_witness:
  "\<exists>r t v. malloc 100 heap0 = Some (r, t) \<and> free r t = Some v \<and> heap_free v {8192 ..< h_brk v}"
proof -
  obtain r t where t: "malloc 100 heap0 = Some (r, t)" "r \<noteq> 0" by (rule heap0_malloc)
  from malloc_free_roundtrip [OF heap0_ok(2) _ t heap_touch_refl]
  show ?thesis using t(1) by (auto simp: heap0_ok(4))
qed

text \<open>
  C29: A program that starts with an empty heap and then calls \<open>malloc\<close>, writes to its blocks and frees
  them in any order: two blocks it has at a time share no byte, and neither \<open>malloc\<close> nor \<open>free\<close> of one of them ever
  loops.
\<close>

theorem malloc_blocks_disjoint:
  assumes "heap_ok s" "freep s = 0" "uses s Map.empty t L" "L r = Some m" "L q = Some n" "r \<noteq> q" "k < 2147483633"
  shows "{r ..< r + m} \<inter> {q ..< q + n} = {} \<and> malloc k t \<noteq> None \<and> free r t \<noteq> None"
proof -
  have a: "heap_apart t L" using uses_apart [OF assms(3)] heap_apart_fresh [OF assms(1,2)] .
  then have "free r t \<noteq> None" "malloc k t \<noteq> None"
    using uma.release_apart [of t L r] uma.alloc_apart [of t L k] assms(4,7) by auto
  then show ?thesis using uma.apart_bytes [OF a assms(4-6)] by simp
qed

theorem malloc_blocks_disjoint_witness:
  "\<exists>t L r q. uses heap0 Map.empty t L \<and> L r = Some 100 \<and> L q = Some 200
    \<and> {r ..< r + 100} \<inter> {q ..< q + 200} = {} \<and> malloc 50 t \<noteq> None \<and> free r t \<noteq> None"
proof -
  have f: "heap_apart heap0 Map.empty" using heap_apart_fresh heap0_ok by simp
  obtain r s where s: "malloc 100 heap0 = Some (r, s)" "r \<noteq> 0" "h_brk s \<le> 40960" "h_lim s = 131072" by (rule heap0_malloc)
  from uses.malloc [OF uses.start _ s(1), of "Map.empty"]
  have u1: "uses heap0 Map.empty s [r \<mapsto> 100]" using s(2) by simp
  then have a: "heap_apart s [r \<mapsto> 100]" using uses_apart f by blast
  then obtain U where "heap_spare s U" by (rule apartE)
  then obtain F where "heap_free s F" by (auto simp: heap_spare_def)
  from malloc_ok [OF this, of 200] obtain q t where t: "malloc 200 s = Some (q, t)" "q \<noteq> 0"
    using s(3,4) by (auto simp: malloc_post_def units_def split: if_splits)
  have rq: "r \<noteq> q" using uma.alloc_apart [OF a, of 200] t by (auto split: if_splits)
  from uses.malloc [OF u1 _ t(1)] have u2: "uses heap0 Map.empty t [r \<mapsto> 100, q \<mapsto> 200]" using t(2) by simp
  moreover have "[r \<mapsto> 100 :: nat, q \<mapsto> 200] r = Some 100" "[r \<mapsto> 100, q \<mapsto> 200] q = Some (200 :: nat)" using rq by simp_all
  ultimately show ?thesis using malloc_blocks_disjoint [OF heap0_ok(1,3) u2 _ _ rq, of 100 200 50]
    by (intro exI [of _ t] exI [of _ "[r \<mapsto> 100 :: nat, q \<mapsto> 200]"] exI [of _ r] exI [of _ q]) simp
qed

end
