(* ===== verification/Threads.thy ===== *)
theory Threads
  imports Main
begin

text \<open>
  Programs of several threads: every thread is at a point of its program, and a step moves one thread. The
  invariants count the threads at a set of points.
\<close>

definition at_count :: "nat \<Rightarrow> (nat \<Rightarrow> 'p) \<Rightarrow> 'p set \<Rightarrow> int" where
  "at_count n pc X = int (card {t. t < n \<and> pc t \<in> X})"

lemma at_count_upd:
  assumes "t < n"
  shows "at_count n (pc(t := p)) X = at_count n pc X - of_bool (pc t \<in> X) + of_bool (p \<in> X)"
proof -
  let ?O = "{u. u < n \<and> u \<noteq> t \<and> pc u \<in> X}"
  have e: "{u. u < n \<and> (pc(t := p)) u \<in> X} = (if p \<in> X then insert t ?O else ?O)"
      "{u. u < n \<and> pc u \<in> X} = (if pc t \<in> X then insert t ?O else ?O)"
    using assms by (auto split: if_splits)
  show ?thesis unfolding at_count_def e by (simp add: card_insert_if)
qed

text \<open>A broadcast moves all threads at one point to another.\<close>

definition wake_all :: "'p \<Rightarrow> 'p \<Rightarrow> (nat \<Rightarrow> 'p) \<Rightarrow> nat \<Rightarrow> 'p" where
  "wake_all a b pc = (\<lambda>u. if pc u = a then b else pc u)"

lemma wake_all_eq: "wake_all a b pc u = (if pc u = a then b else pc u)"
  by (simp add: wake_all_def)

lemma at_count_wake_all: "a \<in> X \<longleftrightarrow> b \<in> X \<Longrightarrow> at_count n (wake_all a b pc) X = at_count n pc X"
proof -
  assume "a \<in> X \<longleftrightarrow> b \<in> X"
  then have "wake_all a b pc t \<in> X \<longleftrightarrow> pc t \<in> X" for t by (simp add: wake_all_eq)
  then show ?thesis by (simp add: at_count_def)
qed

lemma at_count_woken: "a \<noteq> b \<Longrightarrow> at_count n (wake_all a b pc) {a} = 0"
  by (simp add: at_count_def wake_all_eq)

lemma at_count_ge_0 [simp]: "0 \<le> at_count n pc X"
  by (simp add: at_count_def)

lemma at_count_le_0 [simp]: "at_count n pc X \<le> 0 \<longleftrightarrow> at_count n pc X = 0"
  by (simp add: at_count_def)

lemma at_count_pos: "0 < at_count n pc X \<longleftrightarrow> (\<exists>t < n. pc t \<in> X)"
  by (auto simp: at_count_def card_gt_0_iff)

lemma at_count_here: "t < n \<Longrightarrow> pc t \<in> X \<longrightarrow> 0 < at_count n pc X"
  by (auto simp: at_count_pos)

lemma at_count_0: "at_count n pc X = 0 \<longleftrightarrow> (\<forall>t < n. pc t \<notin> X)"
  by (auto simp: at_count_def)

lemma at_count_mono: "X \<subseteq> Y \<Longrightarrow> at_count n pc X \<le> at_count n pc Y"
  unfolding at_count_def by (intro of_nat_mono card_mono) auto

lemma at_count_le: "at_count n pc X \<le> int n"
proof -
  have "card {t. t < n \<and> pc t \<in> X} \<le> card {..<n}" by (intro card_mono) auto
  then show ?thesis by (simp add: at_count_def)
qed

lemma at_count_all: "at_count n pc X = int n \<longleftrightarrow> (\<forall>t < n. pc t \<in> X)"
proof
  assume "at_count n pc X = int n"
  then have "{t. t < n \<and> pc t \<in> X} = {..<n}"
    by (intro card_subset_eq) (auto simp: at_count_def)
  then show "\<forall>t < n. pc t \<in> X" by auto
next
  assume "\<forall>t < n. pc t \<in> X"
  then have "{t. t < n \<and> pc t \<in> X} = {..<n}" by auto
  then show "at_count n pc X = int n" by (simp add: at_count_def)
qed

lemma at_count_le_1:
  assumes "at_count n pc X \<le> 1" "t < n" "u < n" "pc t \<in> X" "pc u \<in> X"
  shows "t = u"
proof (rule ccontr)
  assume "t \<noteq> u"
  then have "card {t, u} \<le> card {t. t < n \<and> pc t \<in> X}" using assms by (intro card_mono) auto
  then show False using \<open>t \<noteq> u\<close> assms(1) by (simp add: at_count_def)
qed

end
