(* ===== verification/Rwlock.thy ===== *)
theory Rwlock
  imports Threads
begin

text \<open>
  The reader-writer lock of \<open>160050097_lab9/reader-writer.c\<close> on POSIX threads. Each thread runs the calls of
  \<open>ReaderFunction\<close> or \<open>WriterFunction\<close> any number of times. A mutex is free or owned by a thread; a thread in
  \<open>pthread_cond_wait\<close> has given the mutex up, leaves the wait when the condition variable is broadcast or
  spuriously, and takes the mutex again before it goes on. The statements between two calls of the
  library are single steps.
\<close>

section \<open>State\<close>

text \<open>
  The points of the program at which a thread can be: outside, inside as a reader or a writer, and
  in the functions \<open>ReaderLock\<close> (\<open>RL\<close>), \<open>ReaderUnlock\<close> (\<open>RU\<close>), \<open>WriterLock\<close> (\<open>WL\<close>) and \<open>WriterUnlock\<close> (\<open>WU\<close>).
\<close>

datatype rwpc =
    Outer | RL_Test | RL_Wait | RL_Woken | RL_Unlock | Reads | RU_Dec | RU_Cast | RU_Unlock
  | WL_Inc | WL_Test | WL_Wait | WL_Woken | WL_Unlock | Writes | WU_Dec | WU_CastW | WU_CastR | WU_Unlock

text \<open>\<open>struct read_write_lock\<close>; \<open>rw_mut\<close> is the owner of the mutex. \<open>rw_pc\<close>: where the threads are.\<close>

record rwlock =
  rw_mut :: "nat option"
  rw_r :: int
  rw_w :: int
  rw_inw :: int
  rw_pc :: "nat \<Rightarrow> rwpc"

definition InitalizeReadWriteLock :: "rwlock" where
  "InitalizeReadWriteLock = \<lparr>rw_mut = None, rw_r = 0, rw_w = 0, rw_inw = 0, rw_pc = (\<lambda>_. Outer)\<rparr>"

definition go :: "nat \<Rightarrow> rwpc \<Rightarrow> rwlock \<Rightarrow> rwlock" where
  "go t p s = s\<lparr>rw_pc := (rw_pc s)(t := p)\<rparr>"

section \<open>The four functions\<close>

inductive ReaderLock :: "nat \<Rightarrow> rwlock \<Rightarrow> rwlock \<Rightarrow> bool" for t s where
  rl_lock: "rw_pc s t = Outer \<Longrightarrow> rw_mut s = None \<Longrightarrow> ReaderLock t s (go t RL_Test (s\<lparr>rw_mut := Some t\<rparr>))"
| rl_wait: "rw_pc s t = RL_Test \<Longrightarrow> rw_w s > 0 \<Longrightarrow> ReaderLock t s (go t RL_Wait (s\<lparr>rw_mut := None\<rparr>))"
| rl_again: "rw_pc s t = RL_Woken \<Longrightarrow> rw_mut s = None \<Longrightarrow> ReaderLock t s (go t RL_Test (s\<lparr>rw_mut := Some t\<rparr>))"
| rl_enter: "rw_pc s t = RL_Test \<Longrightarrow> \<not> rw_w s > 0 \<Longrightarrow> ReaderLock t s (go t RL_Unlock (s\<lparr>rw_r := rw_r s + 1\<rparr>))"
| rl_unlock: "rw_pc s t = RL_Unlock \<Longrightarrow> ReaderLock t s (go t Reads (s\<lparr>rw_mut := None\<rparr>))"

inductive ReaderUnlock :: "nat \<Rightarrow> rwlock \<Rightarrow> rwlock \<Rightarrow> bool" for t s where
  ru_lock: "rw_pc s t = Reads \<Longrightarrow> rw_mut s = None \<Longrightarrow> ReaderUnlock t s (go t RU_Dec (s\<lparr>rw_mut := Some t\<rparr>))"
| ru_dec: "rw_pc s t = RU_Dec \<Longrightarrow>
     ReaderUnlock t s (go t (if rw_r s - 1 = 0 then RU_Cast else RU_Unlock) (s\<lparr>rw_r := rw_r s - 1\<rparr>))"
| ru_cast: "rw_pc s t = RU_Cast \<Longrightarrow>
     ReaderUnlock t s (go t RU_Unlock (s\<lparr>rw_pc := wake_all WL_Wait WL_Woken (rw_pc s)\<rparr>))"
| ru_unlock: "rw_pc s t = RU_Unlock \<Longrightarrow> ReaderUnlock t s (go t Outer (s\<lparr>rw_mut := None\<rparr>))"

inductive WriterLock :: "nat \<Rightarrow> rwlock \<Rightarrow> rwlock \<Rightarrow> bool" for t s where
  wl_lock: "rw_pc s t = Outer \<Longrightarrow> rw_mut s = None \<Longrightarrow> WriterLock t s (go t WL_Inc (s\<lparr>rw_mut := Some t\<rparr>))"
| wl_inc: "rw_pc s t = WL_Inc \<Longrightarrow> WriterLock t s (go t WL_Test (s\<lparr>rw_w := rw_w s + 1\<rparr>))"
| wl_wait: "rw_pc s t = WL_Test \<Longrightarrow> rw_r s > 0 \<or> rw_inw s > 0 \<Longrightarrow>
     WriterLock t s (go t WL_Wait (s\<lparr>rw_mut := None\<rparr>))"
| wl_again: "rw_pc s t = WL_Woken \<Longrightarrow> rw_mut s = None \<Longrightarrow> WriterLock t s (go t WL_Test (s\<lparr>rw_mut := Some t\<rparr>))"
| wl_enter: "rw_pc s t = WL_Test \<Longrightarrow> \<not> (rw_r s > 0 \<or> rw_inw s > 0) \<Longrightarrow>
     WriterLock t s (go t WL_Unlock (s\<lparr>rw_inw := rw_inw s + 1\<rparr>))"
| wl_unlock: "rw_pc s t = WL_Unlock \<Longrightarrow> WriterLock t s (go t Writes (s\<lparr>rw_mut := None\<rparr>))"

inductive WriterUnlock :: "nat \<Rightarrow> rwlock \<Rightarrow> rwlock \<Rightarrow> bool" for t s where
  wu_lock: "rw_pc s t = Writes \<Longrightarrow> rw_mut s = None \<Longrightarrow> WriterUnlock t s (go t WU_Dec (s\<lparr>rw_mut := Some t\<rparr>))"
| wu_dec: "rw_pc s t = WU_Dec \<Longrightarrow>
     WriterUnlock t s (go t WU_CastW (s\<lparr>rw_w := rw_w s - 1, rw_inw := rw_inw s - 1\<rparr>))"
| wu_castw: "rw_pc s t = WU_CastW \<Longrightarrow>
     WriterUnlock t s (go t WU_CastR (s\<lparr>rw_pc := wake_all WL_Wait WL_Woken (rw_pc s)\<rparr>))"
| wu_castr: "rw_pc s t = WU_CastR \<Longrightarrow>
     WriterUnlock t s (go t WU_Unlock (s\<lparr>rw_pc := wake_all RL_Wait RL_Woken (rw_pc s)\<rparr>))"
| wu_unlock: "rw_pc s t = WU_Unlock \<Longrightarrow> WriterUnlock t s (go t Outer (s\<lparr>rw_mut := None\<rparr>))"

text \<open>A spurious wakeup, which POSIX allows.\<close>

inductive rw_spurious :: "nat \<Rightarrow> rwlock \<Rightarrow> rwlock \<Rightarrow> bool" for t s where
  "rw_pc s t = RL_Wait \<Longrightarrow> rw_spurious t s (go t RL_Woken s)"
| "rw_pc s t = WL_Wait \<Longrightarrow> rw_spurious t s (go t WL_Woken s)"

definition rw_call :: "nat \<Rightarrow> rwlock \<Rightarrow> rwlock \<Rightarrow> bool" where
  "rw_call t s s' \<longleftrightarrow> ReaderLock t s s' \<or> ReaderUnlock t s s' \<or> WriterLock t s s' \<or> WriterUnlock t s s'"

text \<open>The states \<open>n\<close> threads reach.\<close>

inductive rw_reach :: "nat \<Rightarrow> rwlock \<Rightarrow> bool" for n where
  rw_start: "rw_reach n InitalizeReadWriteLock"
| rw_next: "rw_reach n s \<Longrightarrow> t < n \<Longrightarrow> rw_call t s s' \<or> rw_spurious t s s' \<Longrightarrow> rw_reach n s'"

inductive_simps ReaderLock_iff: "ReaderLock t s s'"
inductive_simps ReaderUnlock_iff: "ReaderUnlock t s s'"
inductive_simps WriterLock_iff: "WriterLock t s s'"
inductive_simps WriterUnlock_iff: "WriterUnlock t s s'"
inductive_simps rw_spurious_iff: "rw_spurious t s s'"

lemma go_sel [simp]:
  "rw_pc (go t p s) = (rw_pc s)(t := p)" "rw_mut (go t p s) = rw_mut s" "rw_r (go t p s) = rw_r s"
  "rw_w (go t p s) = rw_w s" "rw_inw (go t p s) = rw_inw s"
  by (simp_all add: go_def)

section \<open>The invariant\<close>

text \<open>The points at which a thread owns the mutex, is counted in \<open>r\<close>, in \<open>inw\<close> and in \<open>w\<close>.\<close>

definition rw_owns :: "rwpc set" where
  "rw_owns = {RL_Test, RL_Unlock, RU_Dec, RU_Cast, RU_Unlock, WL_Inc, WL_Test, WL_Unlock, WU_Dec, WU_CastW, WU_CastR, WU_Unlock}"

definition in_r :: "rwpc set" where "in_r = {RL_Unlock, Reads, RU_Dec}"
definition in_inw :: "rwpc set" where "in_inw = {WL_Unlock, Writes, WU_Dec}"
definition in_w :: "rwpc set" where "in_w = {WL_Test, WL_Wait, WL_Woken, WL_Unlock, Writes, WU_Dec}"

lemmas rw_points = rw_owns_def in_r_def in_inw_def in_w_def

definition rw_owner :: "rwlock \<Rightarrow> bool" where
  "rw_owner s \<longleftrightarrow> (\<forall>t. rw_pc s t \<in> rw_owns \<longleftrightarrow> rw_mut s = Some t)"

text \<open>
  The counters are right; a writer excludes all others; a writer waits only while somebody is inside or about to
  broadcast, a reader only while there is a writer or one about to broadcast.
\<close>

definition rw_counts :: "nat \<Rightarrow> rwlock \<Rightarrow> bool" where
  "rw_counts n s \<longleftrightarrow>
     rw_r s = at_count n (rw_pc s) in_r \<and> rw_inw s = at_count n (rw_pc s) in_inw \<and> rw_w s = at_count n (rw_pc s) in_w
     \<and> rw_inw s \<le> 1 \<and> (0 < rw_inw s \<longrightarrow> rw_r s = 0)
     \<and> (0 < at_count n (rw_pc s) {WL_Wait} \<longrightarrow>
          0 < rw_r s \<or> 0 < rw_inw s \<or> 0 < at_count n (rw_pc s) {RU_Cast, WU_CastW})
     \<and> (0 < at_count n (rw_pc s) {RL_Wait} \<longrightarrow> 0 < rw_w s \<or> 0 < at_count n (rw_pc s) {WU_CastW, WU_CastR})"

lemma rw_owns_points [simp]:
  "RL_Test \<in> rw_owns" "RL_Unlock \<in> rw_owns" "RU_Dec \<in> rw_owns" "RU_Cast \<in> rw_owns" "RU_Unlock \<in> rw_owns" "WL_Inc \<in> rw_owns"
  "WL_Test \<in> rw_owns" "WL_Unlock \<in> rw_owns" "WU_Dec \<in> rw_owns" "WU_CastW \<in> rw_owns" "WU_CastR \<in> rw_owns" "WU_Unlock \<in> rw_owns"
  "Outer \<notin> rw_owns" "RL_Wait \<notin> rw_owns" "RL_Woken \<notin> rw_owns" "Reads \<notin> rw_owns" "WL_Wait \<notin> rw_owns" "WL_Woken \<notin> rw_owns"
  "Writes \<notin> rw_owns"
  by (simp_all add: rw_owns_def)

text \<open>Steps that take the mutex, keep it, give it up and that do without it.\<close>

lemma rw_owner_take: "rw_owner s \<Longrightarrow> rw_mut s = None \<Longrightarrow> p \<in> rw_owns \<Longrightarrow> rw_owner (go t p (s\<lparr>rw_mut := Some t\<rparr>))"
  by (auto simp: rw_owner_def)

lemma rw_owner_keep:
  "rw_owner s \<Longrightarrow> rw_pc s t \<in> rw_owns \<Longrightarrow> p \<in> rw_owns \<Longrightarrow> rw_mut s' = rw_mut s \<Longrightarrow>
   (\<And>u. rw_pc s' u \<in> rw_owns \<longleftrightarrow> rw_pc s u \<in> rw_owns) \<Longrightarrow> rw_owner (go t p s')"
  by (auto simp: rw_owner_def)

lemma rw_owner_drop: "rw_owner s \<Longrightarrow> rw_pc s t \<in> rw_owns \<Longrightarrow> p \<notin> rw_owns \<Longrightarrow> rw_owner (go t p (s\<lparr>rw_mut := None\<rparr>))"
  by (auto simp: rw_owner_def)

lemma rw_owner_stay: "rw_owner s \<Longrightarrow> rw_pc s t \<notin> rw_owns \<Longrightarrow> p \<notin> rw_owns \<Longrightarrow> rw_owner (go t p s)"
  by (auto simp: rw_owner_def)

lemma ReaderLock_owner: "ReaderLock t s s' \<Longrightarrow> rw_owner s \<Longrightarrow> rw_owner s'"
  by (induction rule: ReaderLock.induct) (simp_all add: rw_owner_take rw_owner_drop rw_owner_keep [of s])

lemma ReaderUnlock_owner: "ReaderUnlock t s s' \<Longrightarrow> rw_owner s \<Longrightarrow> rw_owner s'"
  by (induction rule: ReaderUnlock.induct) (simp_all add: rw_owner_take rw_owner_drop rw_owner_keep [of s] wake_all_eq)

lemma WriterLock_owner: "WriterLock t s s' \<Longrightarrow> rw_owner s \<Longrightarrow> rw_owner s'"
  by (induction rule: WriterLock.induct) (simp_all add: rw_owner_take rw_owner_drop rw_owner_keep [of s])

lemma WriterUnlock_owner: "WriterUnlock t s s' \<Longrightarrow> rw_owner s \<Longrightarrow> rw_owner s'"
  by (induction rule: WriterUnlock.induct) (simp_all add: rw_owner_take rw_owner_drop rw_owner_keep [of s] wake_all_eq)

lemma rw_spurious_owner: "rw_spurious t s s' \<Longrightarrow> rw_owner s \<Longrightarrow> rw_owner s'"
  by (induction rule: rw_spurious.induct) (simp_all add: rw_owner_stay)

lemmas rw_count_simps = rw_counts_def at_count_upd rw_points at_count_wake_all at_count_woken wake_all_eq not_less

lemma in_inw_in_w: "at_count n pc in_inw \<le> at_count n pc in_w"
  by (rule at_count_mono) (auto simp: in_inw_def in_w_def)

lemma rw_here:
  assumes "t < n"
  shows "(pc t \<in> in_r \<longrightarrow> 0 < at_count n pc in_r) \<and> (pc t \<in> in_inw \<longrightarrow> 0 < at_count n pc in_inw)
    \<and> (pc t \<in> in_w \<longrightarrow> 0 < at_count n pc in_w)"
  using at_count_here [OF assms] by blast

lemma ReaderLock_counts:
  assumes "ReaderLock t s s'" "t < n" "rw_counts n s"
  shows "rw_counts n s'"
  using assms in_inw_in_w [of n "rw_pc s"] rw_here [OF assms(2), of "rw_pc s"] by (cases rule: ReaderLock.cases) (auto simp: rw_count_simps)

lemma ReaderUnlock_counts:
  assumes "ReaderUnlock t s s'" "t < n" "rw_counts n s"
  shows "rw_counts n s'"
  using assms in_inw_in_w [of n "rw_pc s"] rw_here [OF assms(2), of "rw_pc s"] by (cases rule: ReaderUnlock.cases) (auto simp: rw_count_simps)

lemma WriterLock_counts:
  assumes "WriterLock t s s'" "t < n" "rw_counts n s"
  shows "rw_counts n s'"
  using assms in_inw_in_w [of n "rw_pc s"] rw_here [OF assms(2), of "rw_pc s"] by (cases rule: WriterLock.cases) (auto simp: rw_count_simps)

lemma WriterUnlock_counts:
  assumes "WriterUnlock t s s'" "t < n" "rw_counts n s"
  shows "rw_counts n s'"
  using assms in_inw_in_w [of n "rw_pc s"] rw_here [OF assms(2), of "rw_pc s"] by (cases rule: WriterUnlock.cases) (auto simp: rw_count_simps)

lemma rw_spurious_counts:
  assumes "rw_spurious t s s'" "t < n" "rw_counts n s"
  shows "rw_counts n s'"
  using assms in_inw_in_w [of n "rw_pc s"] rw_here [OF assms(2), of "rw_pc s"] by (cases rule: rw_spurious.cases) (auto simp: rw_count_simps)

lemma rw_step_inv:
  "rw_call t s s' \<or> rw_spurious t s s' \<Longrightarrow> t < n \<Longrightarrow> rw_owner s \<Longrightarrow> rw_counts n s \<Longrightarrow> rw_owner s' \<and> rw_counts n s'"
  unfolding rw_call_def
  by (elim disjE) (simp_all add: ReaderLock_owner ReaderUnlock_owner WriterLock_owner WriterUnlock_owner rw_spurious_owner
      ReaderLock_counts ReaderUnlock_counts WriterLock_counts WriterUnlock_counts rw_spurious_counts)

lemma rw_reach_inv: "rw_reach n s \<Longrightarrow> rw_owner s \<and> rw_counts n s \<and> (\<forall>t \<ge> n. rw_pc s t = Outer)"
proof (induction rule: rw_reach.induct)
  case rw_start
  have "at_count n (rw_pc InitalizeReadWriteLock) X = 0" if "Outer \<notin> X" for X
    using that by (simp add: at_count_def InitalizeReadWriteLock_def)
  moreover have "Outer \<notin> in_r" "Outer \<notin> in_inw" "Outer \<notin> in_w" by (simp_all add: rw_points)
  ultimately show ?case by (simp add: rw_owner_def rw_counts_def) (simp add: InitalizeReadWriteLock_def)
next
  case (rw_next s t s')
  have "\<forall>u \<ge> n. rw_pc s' u = Outer"
    using rw_next by (auto simp: rw_call_def ReaderLock_iff ReaderUnlock_iff WriterLock_iff WriterUnlock_iff rw_spurious_iff wake_all_eq)
  then show ?case
    using rw_next rw_step_inv by blast
qed

section \<open>Exclusion and progress\<close>

text \<open>
  C22: While a thread is inside as a writer no other thread is inside, neither as a writer nor as a reader, in any
  interleaving of any number of threads and with spurious wakeups at any time.
\<close>

theorem rw_writer_excludes:
  assumes "rw_reach n s" and "t < n" "u < n" "t \<noteq> u" and "rw_pc s t = Writes"
  shows "rw_pc s u \<noteq> Writes \<and> rw_pc s u \<noteq> Reads"
proof -
  have c: "rw_counts n s" using rw_reach_inv [OF assms(1)] by blast
  have "at_count n (rw_pc s) in_inw \<le> 1" "0 < at_count n (rw_pc s) in_inw"
    using c assms(2,5) by (auto simp: rw_counts_def at_count_pos in_inw_def)
  moreover from this have "at_count n (rw_pc s) in_r = 0" using c by (auto simp: rw_counts_def)
  ultimately show ?thesis
    using at_count_le_1 [of n "rw_pc s" in_inw t u] assms by (auto simp: at_count_0 in_inw_def in_r_def)
qed

text \<open>Two threads: the first writes, the second wants to read and waits.\<close>

definition rw_busy :: rwlock where
  "rw_busy = \<lparr>rw_mut = None, rw_r = 0, rw_w = 1, rw_inw = 1, rw_pc = (\<lambda>_. Outer)(0 := Writes, 1 := RL_Wait)\<rparr>"

lemma rw_call_step: "rw_reach n s \<Longrightarrow> rw_call t s s' \<Longrightarrow> t < n \<Longrightarrow> rw_reach n s'"
  by (rule rw_next) auto

lemma rw_busy_reached: "rw_reach 2 rw_busy"
proof -
  note step = rw_call_step [where n = 2]
  define s0 where "s0 = InitalizeReadWriteLock"
  define s1 where "s1 = go 0 WL_Inc (s0\<lparr>rw_mut := Some 0\<rparr>)"
  define s2 where "s2 = go 0 WL_Test (s1\<lparr>rw_w := rw_w s1 + 1\<rparr>)"
  define s3 where "s3 = go 0 WL_Unlock (s2\<lparr>rw_inw := rw_inw s2 + 1\<rparr>)"
  define s4 where "s4 = go 0 Writes (s3\<lparr>rw_mut := None\<rparr>)"
  define s5 where "s5 = go 1 RL_Test (s4\<lparr>rw_mut := Some 1\<rparr>)"
  note d = s1_def s2_def s3_def s4_def s5_def s0_def InitalizeReadWriteLock_def
  have "rw_reach 2 s0" unfolding s0_def by (rule rw_start)
  then have "rw_reach 2 s1" by (rule step [where t = 0]) (auto simp: rw_call_def WriterLock_iff d)
  then have "rw_reach 2 s2" by (rule step [where t = 0]) (auto simp: rw_call_def WriterLock_iff d)
  then have "rw_reach 2 s3" by (rule step [where t = 0]) (auto simp: rw_call_def WriterLock_iff d)
  then have "rw_reach 2 s4" by (rule step [where t = 0]) (auto simp: rw_call_def WriterLock_iff d)
  then have "rw_reach 2 s5" by (rule step [where t = 1]) (auto simp: rw_call_def ReaderLock_iff d)
  moreover have "rw_call 1 s5 rw_busy"
    unfolding rw_call_def ReaderLock_iff by (auto simp: d rw_busy_def go_def fun_eq_iff)
  ultimately show ?thesis by (rule step) simp
qed

lemma rw_writer_excludes_witness:
  "rw_reach 2 rw_busy \<and> rw_pc rw_busy 0 = Writes \<and> rw_pc rw_busy 1 \<noteq> Writes \<and> rw_pc rw_busy 1 \<noteq> Reads"
proof -
  have w: "rw_pc rw_busy 0 = Writes" by (simp add: rw_busy_def)
  show ?thesis using rw_writer_excludes [OF rw_busy_reached _ _ _ w, of 1] rw_busy_reached w by simp
qed

lemma rw_test_moves:
  "rw_pc s t = RL_Test \<Longrightarrow> \<exists>s'. ReaderLock t s s'" "rw_pc s t = WL_Test \<Longrightarrow> \<exists>s'. WriterLock t s s'"
  by (cases "rw_w s > 0"; blast intro: rl_wait rl_enter) (cases "rw_r s > 0 \<or> rw_inw s > 0"; blast intro: wl_wait wl_enter)

lemma rw_owner_moves: "rw_pc s t \<in> rw_owns \<Longrightarrow> \<exists>s'. rw_call t s s'"
  unfolding rw_call_def rw_owns_def insert_iff
  by (elim disjE) (blast intro: rw_test_moves rl_unlock ru_dec ru_cast ru_unlock wl_inc wl_unlock wu_dec wu_castw wu_castr wu_unlock
      dest: rw_test_moves)+

lemma rw_free_moves: "rw_mut s = None \<Longrightarrow> rw_pc s t \<in> {RL_Woken, Reads, WL_Woken, Writes} \<Longrightarrow> \<exists>s'. rw_call t s s'"
  unfolding rw_call_def insert_iff by (elim disjE) (blast intro: rl_again ru_lock wl_again wu_lock)+

text \<open>
  C23: The lock does not deadlock and no broadcast is missed: as long as a thread is in a call or inside, some such
  thread can take a step without any spurious wakeup and without a new call.
\<close>

theorem rw_no_deadlock:
  assumes "rw_reach n s" and "t < n" and "rw_pc s t \<noteq> Outer"
  shows "\<exists>u < n. rw_pc s u \<noteq> Outer \<and> (\<exists>s'. rw_call u s s')"
proof -
  have inv: "rw_owner s" "rw_counts n s" "\<forall>u \<ge> n. rw_pc s u = Outer" using rw_reach_inv [OF assms(1)] by blast+
  show ?thesis
  proof (cases "rw_mut s")
    case (Some u)
    then have u: "rw_pc s u \<in> rw_owns" using inv(1) by (simp add: rw_owner_def)
    then have "rw_pc s u \<noteq> Outer" by auto
    then show ?thesis using rw_owner_moves [OF u] inv(3) not_le by blast
  next
    case None
    then have no: "rw_pc s u \<notin> rw_owns" for u using inv(1) by (simp add: rw_owner_def)
    have cast: "at_count n (rw_pc s) {RU_Cast, WU_CastW} = 0" "at_count n (rw_pc s) {WU_CastW, WU_CastR} = 0"
      using no by (auto simp: at_count_0 rw_owns_def)
    have "\<exists>u < n. rw_pc s u \<in> {RL_Woken, Reads, WL_Woken, Writes}"
    proof (rule ccontr)
      assume "\<not> ?thesis"
      then have quiet: "rw_pc s u \<in> {Outer, RL_Wait, WL_Wait}" if "u < n" for u
        using no [of u] that by (cases "rw_pc s u") auto
      have "at_count n (rw_pc s) in_r = 0" "at_count n (rw_pc s) in_inw = 0"
        using quiet by (fastforce simp: at_count_0 in_r_def in_inw_def)+
      then have w: "at_count n (rw_pc s) {WL_Wait} = 0" using inv(2) cast by (auto simp: rw_counts_def not_less)
      then have "at_count n (rw_pc s) in_w = 0" using quiet by (fastforce simp: at_count_0 in_w_def)
      then have "at_count n (rw_pc s) {RL_Wait} = 0" using inv(2) cast by (auto simp: rw_counts_def not_less)
      then show False using w quiet [OF assms(2)] assms(2,3) by (auto simp: at_count_0)
    qed
    then show ?thesis using rw_free_moves [OF None] by fastforce
  qed
qed

lemma rw_no_deadlock_witness:
  "\<exists>u < 2. rw_pc rw_busy u \<noteq> Outer \<and> (\<exists>s'. rw_call u rw_busy s')"
  by (rule rw_no_deadlock [OF rw_busy_reached, of 1]) (simp_all add: rw_busy_def)

end
