(* ===== verification/Barrier.thy ===== *)
theory Barrier
  imports Threads
begin

text \<open>
  The barrier of \<open>160050097-labquiz3/part2/barrier.c\<close> on POSIX threads, used by its \<open>nt\<close> threads any number of
  times. The library is modelled as for the reader-writer lock. \<open>arrived\<close> and \<open>passed\<close> record for each thread how
  often it has been counted at the barrier and how often it has left; the code does not have them.
\<close>

section \<open>The program\<close>

datatype barpc = B_Out | B_Inc | B_Test | B_Wait | B_Woken | B_Cast | B_Unlock

record barrier =
  currt :: int
  nt :: int
  b_mut :: "nat option"
  b_pc :: "nat \<Rightarrow> barpc"
  arrived :: "nat \<Rightarrow> nat"
  passed :: "nat \<Rightarrow> nat"

definition barrier_init :: "int \<Rightarrow> barrier" where
  "barrier_init nthreads = \<lparr>currt = 0, nt = nthreads, b_mut = None, b_pc = (\<lambda>_. B_Out), arrived = (\<lambda>_. 0), passed = (\<lambda>_. 0)\<rparr>"

definition bgo :: "nat \<Rightarrow> barpc \<Rightarrow> barrier \<Rightarrow> barrier" where
  "bgo t p s = s\<lparr>b_pc := (b_pc s)(t := p)\<rparr>"

text \<open>
  The steps of \<open>barrier_wait\<close>. After \<open>pthread_cond_wait\<close> has returned, with the mutex, the code does not test again.
\<close>

inductive barrier_wait :: "nat \<Rightarrow> barrier \<Rightarrow> barrier \<Rightarrow> bool" for t s where
  bw_lock: "b_pc s t = B_Out \<Longrightarrow> b_mut s = None \<Longrightarrow> barrier_wait t s (bgo t B_Inc (s\<lparr>b_mut := Some t\<rparr>))"
| bw_inc: "b_pc s t = B_Inc \<Longrightarrow>
     barrier_wait t s (bgo t B_Test (s\<lparr>currt := currt s + 1, arrived := (arrived s)(t := arrived s t + 1)\<rparr>))"
| bw_wait: "b_pc s t = B_Test \<Longrightarrow> currt s \<noteq> nt s \<Longrightarrow> barrier_wait t s (bgo t B_Wait (s\<lparr>b_mut := None\<rparr>))"
| bw_return: "b_pc s t = B_Woken \<Longrightarrow> b_mut s = None \<Longrightarrow> barrier_wait t s (bgo t B_Unlock (s\<lparr>b_mut := Some t\<rparr>))"
| bw_reset: "b_pc s t = B_Test \<Longrightarrow> \<not> currt s \<noteq> nt s \<Longrightarrow> barrier_wait t s (bgo t B_Cast (s\<lparr>currt := 0\<rparr>))"
| bw_cast: "b_pc s t = B_Cast \<Longrightarrow>
     barrier_wait t s (bgo t B_Unlock (s\<lparr>b_pc := wake_all B_Wait B_Woken (b_pc s)\<rparr>))"
| bw_unlock: "b_pc s t = B_Unlock \<Longrightarrow>
     barrier_wait t s (bgo t B_Out (s\<lparr>b_mut := None, passed := (passed s)(t := passed s t + 1)\<rparr>))"

definition b_spurious :: "nat \<Rightarrow> barrier \<Rightarrow> barrier \<Rightarrow> bool" where
  "b_spurious t s s' \<longleftrightarrow> b_pc s t = B_Wait \<and> s' = bgo t B_Woken s"

text \<open>The states that \<open>n\<close> threads reach; \<open>sp\<close>: condition variables may wake up spuriously.\<close>

inductive b_reach :: "bool \<Rightarrow> nat \<Rightarrow> barrier \<Rightarrow> bool" for sp n where
  b_start: "b_reach sp n (barrier_init (int n))"
| b_next: "b_reach sp n s \<Longrightarrow> t < n \<Longrightarrow> barrier_wait t s s' \<or> sp \<and> b_spurious t s s' \<Longrightarrow> b_reach sp n s'"

inductive_simps barrier_wait_iff: "barrier_wait t s s'"

lemma bgo_sel [simp]:
  "b_pc (bgo t p s) = (b_pc s)(t := p)" "b_mut (bgo t p s) = b_mut s" "currt (bgo t p s) = currt s"
  "nt (bgo t p s) = nt s" "arrived (bgo t p s) = arrived s" "passed (bgo t p s) = passed s"
  by (simp_all add: bgo_def)

section \<open>Rounds\<close>

definition b_owns :: "barpc set" where "b_owns = {B_Inc, B_Test, B_Cast, B_Unlock}"
definition b_counted :: "barpc set" where "b_counted = {B_Test, B_Wait}"

lemma b_points [simp]:
  "B_Inc \<in> b_owns" "B_Test \<in> b_owns" "B_Cast \<in> b_owns" "B_Unlock \<in> b_owns" "B_Out \<notin> b_owns" "B_Wait \<notin> b_owns" "B_Woken \<notin> b_owns"
  "B_Test \<in> b_counted" "B_Wait \<in> b_counted" "B_Inc \<notin> b_counted" "B_Cast \<notin> b_counted" "B_Unlock \<notin> b_counted" "B_Out \<notin> b_counted"
  "B_Woken \<notin> b_counted"
  by (simp_all add: b_owns_def b_counted_def)

text \<open>
  The invariant: \<open>R\<close> rounds are complete. Thread \<open>t\<close> at point \<open>p\<close> has been counted \<open>fst\<close> and has left \<open>snd\<close> times; \<open>c\<close>: a
  thread is about to broadcast, and the waiting ones belong to the round just completed.
\<close>

fun b_rounds :: "bool \<Rightarrow> nat \<Rightarrow> barpc \<Rightarrow> nat \<times> nat \<Rightarrow> bool" where
  "b_rounds c R B_Out ap \<longleftrightarrow> ap = (R, R)"
| "b_rounds c R B_Inc ap \<longleftrightarrow> ap = (R, R)"
| "b_rounds c R B_Test ap \<longleftrightarrow> ap = (R + 1, R)"
| "b_rounds c R B_Wait ap \<longleftrightarrow> (if c then ap = (R, R - 1) \<and> 0 < R else ap = (R + 1, R))"
| "b_rounds c R B_Woken ap \<longleftrightarrow> ap = (R, R - 1) \<and> 0 < R"
| "b_rounds c R B_Cast ap \<longleftrightarrow> ap = (R, R - 1) \<and> 0 < R"
| "b_rounds c R B_Unlock ap \<longleftrightarrow> ap = (R, R - 1) \<and> 0 < R"

definition b_casting :: "nat \<Rightarrow> barrier \<Rightarrow> bool" where
  "b_casting n s \<longleftrightarrow> (\<exists>t < n. b_pc s t = B_Cast)"

definition b_inv :: "nat \<Rightarrow> nat \<Rightarrow> barrier \<Rightarrow> bool" where
  "b_inv n R s \<longleftrightarrow> nt s = int n \<and> (\<forall>t. b_pc s t \<in> b_owns \<longleftrightarrow> b_mut s = Some t) \<and> (\<forall>t \<ge> n. b_pc s t = B_Out)
     \<and> (\<forall>t < n. b_rounds (b_casting n s) R (b_pc s t) (arrived s t, passed s t))
     \<and> (if b_casting n s then currt s = 0 \<and> (\<forall>t < n. b_pc s t \<in> {B_Cast, B_Wait})
        else currt s = at_count n (b_pc s) b_counted \<and> ((\<forall>t < n. b_pc s t \<noteq> B_Test) \<longrightarrow> currt s < int n))"

lemma b_ownerD: "b_inv n R s \<Longrightarrow> b_pc s t \<in> b_owns \<longleftrightarrow> b_mut s = Some t"
  by (simp add: b_inv_def)

text \<open>All steps but the broadcast start when no thread is about to broadcast.\<close>

lemma not_casting:
  assumes "b_inv n R s" and "b_mut s = None \<or> b_pc s t \<in> b_owns \<and> b_pc s t \<noteq> B_Cast"
  shows "\<not> b_casting n s"
proof
  assume "b_casting n s"
  then obtain u where u: "b_pc s u = B_Cast" by (auto simp: b_casting_def)
  then have "b_mut s = Some u" using b_ownerD [OF assms(1), of u] by simp
  then have "u = t" using assms(2) b_ownerD [OF assms(1), of t] by auto
  then show False using u assms(2) \<open>b_mut s = Some u\<close> by auto
qed

lemma b_inv_quiet:
  assumes "\<not> b_casting n s"
  shows "b_inv n R s \<longleftrightarrow> nt s = int n \<and> (\<forall>t. b_pc s t \<in> b_owns \<longleftrightarrow> b_mut s = Some t) \<and> (\<forall>t \<ge> n. b_pc s t = B_Out)
     \<and> (\<forall>t < n. b_rounds False R (b_pc s t) (arrived s t, passed s t))
     \<and> currt s = at_count n (b_pc s) b_counted \<and> ((\<forall>t < n. b_pc s t \<noteq> B_Test) \<longrightarrow> currt s < int n)"
  using assms unfolding b_inv_def by simp

text \<open>A step of thread \<open>t\<close> that neither starts nor ends next to a broadcast.\<close>

lemma b_inv_step:
  assumes inv: "b_inv n R s" and c: "b_mut s = None \<or> b_pc s t \<in> b_owns \<and> b_pc s t \<noteq> B_Cast"
    and t: "t < n" and pc: "b_pc s' = (b_pc s)(t := p)" and p: "p \<noteq> B_Cast"
    and nt: "nt s' = nt s" and mut: "b_mut s' = (if p \<in> b_owns then Some t else None)"
    and ap: "\<forall>u. u \<noteq> t \<longrightarrow> arrived s' u = arrived s u \<and> passed s' u = passed s u"
      "b_rounds False R p (arrived s' t, passed s' t)"
    and cur: "currt s' = currt s - of_bool (b_pc s t \<in> b_counted) + of_bool (p \<in> b_counted)"
      "p = B_Test \<or> currt s' < int n"
  shows "b_inv n R s'"
proof -
  have q: "\<not> b_casting n s" using not_casting [OF inv c] .
  then have q': "\<not> b_casting n s'" using p by (auto simp: b_casting_def pc)
  have o: "b_pc s u \<in> b_owns \<longleftrightarrow> b_mut s = Some u" for u by (rule b_ownerD [OF inv])
  have "b_pc s' u \<in> b_owns \<longleftrightarrow> b_mut s' = Some u" for u using o [of u] o [of t] c unfolding pc mut by auto
  then show ?thesis
    using inv t ap cur unfolding b_inv_quiet [OF q] b_inv_quiet [OF q'] pc nt by (auto simp: at_count_upd)
qed

lemma b_round_of:
  assumes "b_inv n R s" and "b_mut s = None \<or> b_pc s t \<in> b_owns \<and> b_pc s t \<noteq> B_Cast" and "t < n"
  shows "b_rounds False R (b_pc s t) (arrived s t, passed s t)"
  using assms b_inv_quiet [OF not_casting [OF assms(1,2)]] by blast

text \<open>Unless a thread is about to test, not all have been counted.\<close>

lemma b_below:
  assumes inv: "b_inv n R s" and c: "b_mut s = None \<or> b_pc s t \<in> b_owns \<and> b_pc s t \<notin> {B_Cast, B_Test}"
  shows "currt s < int n"
proof -
  have q: "\<not> b_casting n s" using not_casting [OF inv, of t] c by blast
  have "b_pc s u \<noteq> B_Test" for u using c b_ownerD [OF inv, of u] b_ownerD [OF inv, of t] by auto
  then show ?thesis using inv unfolding b_inv_quiet [OF q] by blast
qed

lemma b_reset_inv:
  assumes inv: "b_inv n R s" and t: "t < n" and pc: "b_pc s t = B_Test" and full: "currt s = nt s"
  shows "b_inv n (R + 1) (bgo t B_Cast (s\<lparr>currt := 0\<rparr>))"
proof -
  let ?s = "bgo t B_Cast (s\<lparr>currt := 0\<rparr>)"
  have q: "\<not> b_casting n s" using not_casting [OF inv, of t] pc by simp
  note I = inv [unfolded b_inv_quiet [OF q]]
  have c: "b_casting n ?s" using t by (auto simp: b_casting_def)
  have o: "b_pc s u \<in> b_owns \<longleftrightarrow> u = t" for u using b_ownerD [OF inv, of u] b_ownerD [OF inv, of t] pc by auto
  have "at_count n (b_pc s) b_counted = int n" using I full by simp
  then have w: "b_pc s u = B_Wait" if "u < n" "u \<noteq> t" for u
    using that o [of u] by (auto simp: at_count_all b_counted_def)
  have "b_rounds True (R + 1) (b_pc ?s u) (arrived ?s u, passed ?s u)" if "u < n" for u
    using I that w [OF that] pc by (cases "u = t") fastforce+
  then show ?thesis using I w o pc t unfolding b_inv_def by (auto simp: c)
qed

lemma b_cast_inv:
  assumes inv: "b_inv n R s" and t: "t < n" and pc: "b_pc s t = B_Cast"
  shows "b_inv n R (bgo t B_Unlock (s\<lparr>b_pc := wake_all B_Wait B_Woken (b_pc s)\<rparr>))"
proof -
  let ?s = "bgo t B_Unlock (s\<lparr>b_pc := wake_all B_Wait B_Woken (b_pc s)\<rparr>)"
  have c: "b_casting n s" using t pc by (auto simp: b_casting_def)
  note I = inv [unfolded b_inv_def if_P [OF c]]
  have o: "b_pc s u \<in> b_owns \<longleftrightarrow> u = t" for u using b_ownerD [OF inv, of u] b_ownerD [OF inv, of t] pc by auto
  have w: "b_pc s u = B_Wait" if "u < n" "u \<noteq> t" for u using I that o [of u] by fastforce
  have pcs: "b_pc ?s u = (if u = t then B_Unlock else if u < n then B_Woken else B_Out)" for u
    using I w [of u] by (auto simp: wake_all_eq)
  have q: "\<not> b_casting n ?s" unfolding b_casting_def pcs by auto
  have "at_count n (b_pc ?s) b_counted = 0" unfolding at_count_0 pcs by simp
  moreover have "b_rounds False R (b_pc ?s u) (arrived ?s u, passed ?s u)" if "u < n" for u
    unfolding pcs using I that w [OF that] pc c by (cases "u = t") fastforce+
  moreover have "b_pc ?s u \<in> b_owns \<longleftrightarrow> b_mut ?s = Some u" for u
    unfolding pcs using I pc b_ownerD [OF inv, of t] by auto
  ultimately show ?thesis using I t unfolding b_inv_quiet [OF q] by (auto simp: pcs simp del: bgo_sel(1))
qed

lemma barrier_wait_inv:
  assumes st: "barrier_wait t s s'" and inv: "b_inv n R s" and t: "t < n"
  shows "\<exists>R. b_inv n R s'"
  using st
proof cases
  case bw_lock
  then have c: "b_mut s = None \<or> b_pc s t \<in> b_owns \<and> b_pc s t \<notin> {B_Cast, B_Test}" by simp
  have "b_inv n R s'"
    by (rule b_inv_step [OF inv _ t, where p = B_Inc]) (use bw_lock b_round_of [OF inv _ t] b_below [OF inv c] in auto)
  then show ?thesis ..
next
  case bw_inc
  have "b_inv n R s'"
    by (rule b_inv_step [OF inv _ t, where p = B_Test])
      (use bw_inc b_round_of [OF inv _ t] b_ownerD [OF inv, of t] in auto)
  then show ?thesis ..
next
  case bw_wait
  have q: "\<not> b_casting n s" using not_casting [OF inv, of t] bw_wait by simp
  have "currt s < int n" using bw_wait inv at_count_le [of n "b_pc s" b_counted] unfolding b_inv_quiet [OF q] by simp
  then have "b_inv n R s'"
    by (intro b_inv_step [OF inv _ t, where p = B_Wait])
      (use bw_wait b_round_of [OF inv _ t] in auto)
  then show ?thesis ..
next
  case bw_return
  then have c: "b_mut s = None \<or> b_pc s t \<in> b_owns \<and> b_pc s t \<notin> {B_Cast, B_Test}" by simp
  have "b_inv n R s'"
    by (rule b_inv_step [OF inv _ t, where p = B_Unlock]) (use bw_return b_round_of [OF inv _ t] b_below [OF inv c] in auto)
  then show ?thesis ..
next
  case bw_reset
  then show ?thesis using b_reset_inv [OF inv t] by auto
next
  case bw_cast
  then show ?thesis using b_cast_inv [OF inv t] by auto
next
  case bw_unlock
  then have c: "b_mut s = None \<or> b_pc s t \<in> b_owns \<and> b_pc s t \<notin> {B_Cast, B_Test}" by simp
  have "b_inv n R s'"
    by (rule b_inv_step [OF inv _ t, where p = B_Out]) (use bw_unlock b_round_of [OF inv _ t] b_below [OF inv c] in auto)
  then show ?thesis ..
qed

lemma b_reach_inv: "b_reach False n s \<Longrightarrow> 0 < n \<Longrightarrow> \<exists>R. b_inv n R s"
proof (induction rule: b_reach.induct)
  case b_start
  have "at_count n (\<lambda>_. B_Out) b_counted = 0" by (simp add: at_count_0)
  then have "b_inv n 0 (barrier_init (int n))" using b_start
    by (simp add: b_inv_def b_casting_def barrier_init_def)
  then show ?case ..
next
  case (b_next s t s')
  then show ?case using barrier_wait_inv by blast
qed

section \<open>What the barrier promises\<close>

lemma b_rounds_bounds: "b_rounds c R p (a, l) \<Longrightarrow> l \<le> R \<and> R \<le> a \<and> a \<le> l + 1 \<and> a \<le> R + 1"
  by (cases p) (auto split: if_splits)

lemma b_stuck:
  assumes "b_pc s t \<in> b_owns" shows "\<exists>s'. barrier_wait t s s'"
  using assms unfolding b_owns_def insert_iff
  by (elim disjE; cases "currt s \<noteq> nt s") (blast intro: barrier_wait.intros)+

text \<open>
  Without spurious wakeups the threads stay in step, and in every state some thread that is not in the wait can take a step.
\<close>

lemma barrier_in_step:
  assumes "b_reach False n s" and "0 < n"
  shows "(\<forall>t < n. \<forall>u < n. passed s t \<le> arrived s u)
     \<and> (\<exists>t < n. b_pc s t \<noteq> B_Wait \<and> (\<exists>s'. barrier_wait t s s'))"
proof -
  obtain R where inv: "b_inv n R s" using b_reach_inv [OF assms] by blast
  have rd: "passed s t \<le> R \<and> R \<le> arrived s t" if "t < n" for t
    using inv that b_rounds_bounds unfolding b_inv_def by blast
  have "\<exists>t < n. b_pc s t \<noteq> B_Wait \<and> (\<exists>s'. barrier_wait t s s')"
  proof (cases "b_mut s")
    case (Some u)
    then have u: "b_pc s u \<in> b_owns" using b_ownerD [OF inv] by simp
    have "u < n" using inv u unfolding b_inv_def by (metis b_points(5) not_le)
    moreover have "b_pc s u \<noteq> B_Wait" using u by (cases "b_pc s u") simp_all
    ultimately show ?thesis using b_stuck [OF u] by blast
  next
    case None
    have q: "\<not> b_casting n s" using not_casting [OF inv] None by simp
    have "at_count n (b_pc s) b_counted < int n" using b_below [OF inv] None inv unfolding b_inv_quiet [OF q] by auto
    then obtain t where t: "t < n" "b_pc s t \<notin> b_counted" using at_count_all [of n "b_pc s" b_counted] by auto
    moreover have "b_pc s t \<notin> b_owns" using None b_ownerD [OF inv] by simp
    ultimately have "b_pc s t \<in> {B_Out, B_Woken}" by (cases "b_pc s t") simp_all
    then have "\<exists>s'. barrier_wait t s s'" using None unfolding insert_iff by (elim disjE) (blast intro: bw_lock bw_return)+
    moreover have "b_pc s t \<noteq> B_Wait" using t(2) by auto
    ultimately show ?thesis using t(1) by blast
  qed
  then show ?thesis using rd by (meson le_trans)
qed

text \<open>A thread that is alone never waits.\<close>

lemma b_alone: "b_reach True 1 s \<Longrightarrow> b_reach False 1 s"
proof (induction rule: b_reach.induct)
  case b_start
  then show ?case by (rule b_reach.b_start)
next
  case (b_next s t s')
  obtain R where inv: "b_inv 1 R s" using b_reach_inv [OF b_next.IH] by auto
  have "b_pc s t \<noteq> B_Wait"
  proof
    assume w: "b_pc s t = B_Wait"
    then have z: "b_pc s 0 = B_Wait" using b_next(2) by simp
    then have q: "\<not> b_casting 1 s" by (simp add: b_casting_def)
    have "at_count 1 (b_pc s) b_counted < 1" using inv z unfolding b_inv_quiet [OF q] by simp
    then show False using at_count_all [of 1 "b_pc s" b_counted] z by auto
  qed
  then have "barrier_wait t s s'" using b_next(3) by (auto simp: b_spurious_def)
  then show ?case using b_next.IH b_next(2) by (auto intro: b_reach.b_next)
qed

text \<open>The first of \<open>n\<close> threads waits.\<close>

definition bar_one :: "nat \<Rightarrow> barrier" where
  "bar_one n = \<lparr>currt = 1, nt = int n, b_mut = None, b_pc = (\<lambda>_. B_Out)(0 := B_Wait), arrived = (\<lambda>_. 0)(0 := 1), passed = (\<lambda>_. 0)\<rparr>"

lemma b_call: "b_reach sp n s \<Longrightarrow> barrier_wait t s s' \<Longrightarrow> t < n \<Longrightarrow> b_reach sp n s'"
  by (rule b_next) auto

lemma bar_one_reached: "2 \<le> n \<Longrightarrow> b_reach sp n (bar_one n)"
proof -
  assume n: "2 \<le> n"
  define s0 where "s0 = barrier_init (int n)"
  define s1 where "s1 = bgo 0 B_Inc (s0\<lparr>b_mut := Some 0\<rparr>)"
  define s2 where "s2 = bgo 0 B_Test (s1\<lparr>currt := currt s1 + 1, arrived := (arrived s1)(0 := arrived s1 0 + 1)\<rparr>)"
  note d = s1_def s2_def s0_def barrier_init_def
  have z: "0 < n" using n by simp
  have "b_reach sp n s0" unfolding s0_def by (rule b_start)
  then have "b_reach sp n s1" by (rule b_call [where t = 0]) (use z in \<open>auto simp: barrier_wait_iff d\<close>)
  then have "b_reach sp n s2" by (rule b_call [where t = 0]) (use z in \<open>auto simp: barrier_wait_iff d\<close>)
  moreover have "barrier_wait 0 s2 (bar_one n)"
    unfolding barrier_wait_iff using n by (auto simp: d bar_one_def bgo_def fun_eq_iff)
  ultimately show ?thesis using z by (rule b_call)
qed

text \<open>
  With spurious wakeups, which POSIX allows, the barrier does not hold: there is a run in which the first thread
  leaves the barrier and the second has never arrived, because \<open>barrier_wait\<close> does not test again after its wait.
\<close>

lemma barrier_spurious_escape:
  assumes n: "2 \<le> n"
  shows "\<exists>s. b_reach True n s \<and> passed s 0 = 1 \<and> arrived s 1 = 0"
proof -
  define s1 where "s1 = bgo 0 B_Woken (bar_one n)"
  define s2 where "s2 = bgo 0 B_Unlock (s1\<lparr>b_mut := Some 0\<rparr>)"
  define s3 where "s3 = bgo 0 B_Out (s2\<lparr>b_mut := None, passed := (passed s2)(0 := passed s2 0 + 1)\<rparr>)"
  note d = s1_def s2_def s3_def bar_one_def
  have z: "0 < n" using n by simp
  have "b_reach True n s1"
    by (rule b_next [where t = 0, OF bar_one_reached [OF n] z]) (auto simp: b_spurious_def s1_def bar_one_def)
  then have "b_reach True n s2" by (rule b_call [where t = 0]) (use z in \<open>auto simp: barrier_wait_iff d\<close>)
  then have "b_reach True n s3" by (rule b_call [where t = 0]) (use z in \<open>auto simp: barrier_wait_iff d\<close>)
  then show ?thesis by (intro exI [of _ s3]) (simp add: d)
qed

text \<open>
  C24: The barrier keeps its threads in step exactly when condition variables do not wake up spuriously, which POSIX allows them
  to do. \<open>n\<close> threads never leave it for the \<open>k\<close>-th time before all of them have arrived \<open>k\<close> times, however often
  it is used again, if and only if there are no spurious wakeups or \<open>n = 1\<close>: with them some run lets a thread of two or more
  through too early, because the code does not test again after its wait. And without them it lets the threads go on: in every
  state some thread that is not in the wait can take a step.
\<close>

theorem barrier_synchronises:
  assumes "0 < n"
  shows "((\<forall>s. b_reach sp n s \<longrightarrow> (\<forall>t < n. \<forall>u < n. passed s t \<le> arrived s u)) \<longleftrightarrow> \<not> sp \<or> n = 1)
     \<and> (\<forall>s. b_reach False n s \<longrightarrow> (\<exists>t < n. b_pc s t \<noteq> B_Wait \<and> (\<exists>s'. barrier_wait t s s')))"
proof -
  have "\<not> sp \<or> n = 1" if step: "\<forall>s. b_reach sp n s \<longrightarrow> (\<forall>t < n. \<forall>u < n. passed s t \<le> arrived s u)"
  proof (rule ccontr)
    assume "\<not> ?thesis"
    then have sp: "sp" and n: "2 \<le> n" using assms by auto
    obtain s where s: "b_reach True n s" "passed s 0 = 1" "arrived s 1 = 0" using barrier_spurious_escape [OF n] by blast
    have "passed s 0 \<le> arrived s 1" using step sp s(1) n by simp
    then show False using s by simp
  qed
  moreover have "b_reach False n s" if "\<not> sp \<or> n = 1" "b_reach sp n s" for s
    using that b_alone by (cases sp) auto
  ultimately show ?thesis using barrier_in_step [OF _ assms] by blast
qed

text \<open>Two threads: the first is waiting, the second has just been counted.\<close>

definition bar_two :: barrier where
  "bar_two = \<lparr>currt = 2, nt = 2, b_mut = Some 1, b_pc = (\<lambda>_. B_Out)(0 := B_Wait, 1 := B_Test),
     arrived = (\<lambda>_. 0)(0 := 1, 1 := 1), passed = (\<lambda>_. 0)\<rparr>"

lemma bar_two_reached: "b_reach False 2 bar_two"
proof -
  define s1 where "s1 = bgo 1 B_Inc ((bar_one 2)\<lparr>b_mut := Some 1\<rparr>)"
  have "b_reach False 2 s1"
    by (rule b_call [where t = 1, OF bar_one_reached]) (auto simp: barrier_wait_iff s1_def bar_one_def)
  moreover have "barrier_wait 1 s1 bar_two"
    unfolding barrier_wait_iff by (auto simp: s1_def bar_one_def bar_two_def bgo_def fun_eq_iff)
  ultimately show ?thesis by (rule b_call) simp
qed

lemma barrier_synchronises_witness:
  "passed bar_two 0 \<le> arrived bar_two 1 \<and> passed bar_two 1 \<le> arrived bar_two 0 \<and> (\<exists>t < 2. b_pc bar_two t \<noteq> B_Wait \<and> (\<exists>s'. barrier_wait t bar_two s'))
   \<and> (\<exists>s. b_reach True 2 s \<and> (\<exists>t < 2. \<exists>u < 2. arrived s u < passed s t))"
proof -
  have "(0::nat) < 2" "(1::nat) < 2" by simp_all
  then show ?thesis
    using barrier_synchronises [of 2 False] barrier_synchronises [of 2 True] bar_two_reached by (auto simp: not_le)
qed

end
