(* ===== verification/Semaphore.thy ===== *)
theory Semaphore
  imports KPrelude Threads
begin

text \<open>
  The counting semaphores of lab quiz 3 (\<open>160050097-labquiz3/part1/xv6\<close>: \<open>sysproc.c\<close>, \<open>cv_sleep\<close> and \<open>wakeup\<close> of
  \<open>proc.c\<close>, \<open>spinlock_acquire\<close> of \<open>spinlock.c\<close>): any number of processes in the three system calls, as the interleaving of
  their atomic steps. A semaphore has a spin lock of its own that leaves interrupts on; sleeping and waking up are
  protected by the lock of the process table.
\<close>

section \<open>State\<close>

definition NLOCKS :: int where "NLOCKS = 20"

text \<open>
  The points at which a process can be: in user mode, in \<open>sys_sem_down\<close> (\<open>D\<close>) and in \<open>sys_sem_up\<close> (\<open>U\<close>) of the semaphore
  with the given index. \<open>D_Pt\<close> to \<open>D_Resume\<close> are the points of \<open>cv_sleep\<close>; \<open>D_Asleep\<close> and \<open>D_Awake\<close> are the states
  SLEEPING, on the channel that is the index, and RUNNABLE. \<open>U_Pt\<close> to \<open>U_PtRel\<close> are the points of \<open>wakeup\<close>.
\<close>

datatype sempc = S_User
  | D_Acq nat | D_Test nat | D_Pt nat | D_Drop nat | D_Sleep nat | D_Asleep nat | D_Awake nat | D_Resume nat
  | D_Dec nat | D_Print nat | D_Rel nat
  | U_Acq nat | U_Inc nat | U_Pt nat | U_Wake nat | U_PtRel nat | U_Print nat | U_Rel nat

text \<open>
  \<open>struct semaphore_t\<close>: \<open>sem_value\<close> and the field \<open>locked\<close> of its lock; \<open>pt_locked\<close>: the lock of the process table;
  \<open>sem_ret\<close>: what the last call of a process has returned; \<open>sem_out\<close>: the messages, latest first. \<open>sem_init0\<close>, \<open>sem_ups\<close> and
  \<open>sem_downs\<close>, which the code does not have, record the value a semaphore was given and the operations since then.
\<close>

record semk =
  sem_value :: "nat \<Rightarrow> int"
  sem_locked :: "nat \<Rightarrow> bool"
  pt_locked :: bool
  sem_pc :: "nat \<Rightarrow> sempc"
  sem_ret :: "nat \<Rightarrow> int"
  sem_out :: "(nat \<times> nat \<times> int) list"
  sem_init0 :: "nat \<Rightarrow> int"
  sem_ups :: "nat \<Rightarrow> nat"
  sem_downs :: "nat \<Rightarrow> nat"

definition sem_boot :: semk where
  "sem_boot = \<lparr>sem_value = (\<lambda>_. 0), sem_locked = (\<lambda>_. False), pt_locked = False, sem_pc = (\<lambda>_. S_User), sem_ret = (\<lambda>_. 0),
     sem_out = [], sem_init0 = (\<lambda>_. 0), sem_ups = (\<lambda>_. 0), sem_downs = (\<lambda>_. 0)\<rparr>"

definition at_pc :: "nat \<Rightarrow> sempc \<Rightarrow> semk \<Rightarrow> semk" where
  "at_pc t p s = s\<lparr>sem_pc := (sem_pc s)(t := p)\<rparr>"

lemma at_pc_sel [simp]:
  "sem_pc (at_pc t p s) = (sem_pc s)(t := p)" "sem_value (at_pc t p s) = sem_value s" "sem_locked (at_pc t p s) = sem_locked s"
  "pt_locked (at_pc t p s) = pt_locked s" "sem_init0 (at_pc t p s) = sem_init0 s" "sem_ups (at_pc t p s) = sem_ups s"
  "sem_downs (at_pc t p s) = sem_downs s"
  by (simp_all add: at_pc_def)

text \<open>The result of arithmetic on the C type \<open>int\<close>.\<close>

definition int32 :: "int \<Rightarrow> int" where
  "int32 i = s32 (u32_of i)"

lemma int32_same: "- 2147483648 \<le> i \<Longrightarrow> i < 2147483648 \<Longrightarrow> int32 i = i"
  by (simp add: int32_def s32_u32_of)

lemma u32_of_int32: "u32_of (int32 i) = u32_of i"
  by (simp add: int32_def u32_of_s32)

lemma int32_add: "int32 (int32 i + j) = int32 (i + j)"
proof -
  have "u32_of (s32 (u32_of i) + j) = u32_of (i + j)"
  proof -
    have "int (u32_of i) mod 4294967296 = i mod 4294967296" by (simp add: u32_of_def)
    then have "s32 (u32_of i) mod 4294967296 = i mod 4294967296" by (simp add: s32_def)
    then have "(s32 (u32_of i) + j) mod 4294967296 = (i + j) mod 4294967296" by (rule mod_add_cong) simp
    then show ?thesis by (simp add: u32_of_def)
  qed
  then show ?thesis by (simp add: int32_def)
qed

section \<open>The system calls\<close>

text \<open>The index a process has passed, when it is one.\<close>

definition sem_index :: "int \<Rightarrow> nat option" where
  "sem_index i = (if i < 0 \<or> i \<ge> NLOCKS then None else Some (nat i))"

text \<open>\<open>sys_sem_init\<close> of semaphore \<open>i\<close>.\<close>

definition sem_init :: "int \<Rightarrow> int \<Rightarrow> nat \<Rightarrow> semk \<Rightarrow> semk" where
  "sem_init index value t s = (case sem_index index of
     None \<Rightarrow> s\<lparr>sem_ret := (sem_ret s)(t := - 1)\<rparr>
   | Some i \<Rightarrow> s\<lparr>sem_value := (sem_value s)(i := value), sem_locked := (sem_locked s)(i := False),
       sem_ret := (sem_ret s)(t := 1), sem_init0 := (sem_init0 s)(i := value), sem_ups := (sem_ups s)(i := 0),
       sem_downs := (sem_downs s)(i := 0)\<rparr>)"

text \<open>
  The steps of \<open>cv_sleep\<close>. \<open>spinlock_acquire\<close> and \<open>acquire\<close> retry until their exchange finds the lock free: only
  the last attempt is a step. \<open>sched\<close> hands the lock of the process table to the scheduler, which releases it,
  and takes it for the process again when it lets it go on. The call ends at \<open>D_Acq\<close>, with \<open>spinlock_acquire\<close>.
\<close>

inductive cv_sleep :: "nat \<Rightarrow> semk \<Rightarrow> semk \<Rightarrow> bool" for t s where
  d_pt: "sem_pc s t = D_Pt i \<Longrightarrow> \<not> pt_locked s \<Longrightarrow> cv_sleep t s (at_pc t (D_Drop i) (s\<lparr>pt_locked := True\<rparr>))"
| d_drop: "sem_pc s t = D_Drop i \<Longrightarrow>
     cv_sleep t s (at_pc t (D_Sleep i) (s\<lparr>sem_locked := (sem_locked s)(i := False)\<rparr>))"
| d_sleep: "sem_pc s t = D_Sleep i \<Longrightarrow> cv_sleep t s (at_pc t (D_Asleep i) (s\<lparr>pt_locked := False\<rparr>))"
| d_run: "sem_pc s t = D_Awake i \<Longrightarrow> \<not> pt_locked s \<Longrightarrow> cv_sleep t s (at_pc t (D_Resume i) (s\<lparr>pt_locked := True\<rparr>))"
| d_resume: "sem_pc s t = D_Resume i \<Longrightarrow> cv_sleep t s (at_pc t (D_Acq i) (s\<lparr>pt_locked := False\<rparr>))"

text \<open>The steps of \<open>sys_sem_down\<close>.\<close>

inductive sem_down :: "nat \<Rightarrow> semk \<Rightarrow> semk \<Rightarrow> bool" for t s where
  d_acq: "sem_pc s t = D_Acq i \<Longrightarrow> \<not> sem_locked s i \<Longrightarrow>
     sem_down t s (at_pc t (D_Test i) (s\<lparr>sem_locked := (sem_locked s)(i := True)\<rparr>))"
| d_wait: "sem_pc s t = D_Test i \<Longrightarrow> sem_value s i = 0 \<Longrightarrow> sem_down t s (at_pc t (D_Pt i) s)"
| d_cv_sleep: "cv_sleep t s s' \<Longrightarrow> sem_down t s s'"
| d_go: "sem_pc s t = D_Test i \<Longrightarrow> sem_value s i \<noteq> 0 \<Longrightarrow> sem_down t s (at_pc t (D_Dec i) s)"
| d_dec: "sem_pc s t = D_Dec i \<Longrightarrow>
     sem_down t s (at_pc t (D_Print i) (s\<lparr>sem_value := (sem_value s)(i := int32 (sem_value s i - 1)),
       sem_downs := (sem_downs s)(i := sem_downs s i + 1)\<rparr>))"
| d_print: "sem_pc s t = D_Print i \<Longrightarrow> sem_down t s (at_pc t (D_Rel i) (s\<lparr>sem_out := (t, i, sem_value s i) # sem_out s\<rparr>))"
| d_rel: "sem_pc s t = D_Rel i \<Longrightarrow>
     sem_down t s (at_pc t S_User (s\<lparr>sem_locked := (sem_locked s)(i := False), sem_ret := (sem_ret s)(t := 1)\<rparr>))"

text \<open>The steps of \<open>sys_sem_up\<close>.\<close>

inductive sem_up :: "nat \<Rightarrow> semk \<Rightarrow> semk \<Rightarrow> bool" for t s where
  u_acq: "sem_pc s t = U_Acq i \<Longrightarrow> \<not> sem_locked s i \<Longrightarrow>
     sem_up t s (at_pc t (U_Inc i) (s\<lparr>sem_locked := (sem_locked s)(i := True)\<rparr>))"
| u_inc: "sem_pc s t = U_Inc i \<Longrightarrow>
     sem_up t s (at_pc t (U_Pt i) (s\<lparr>sem_value := (sem_value s)(i := int32 (sem_value s i + 1)),
       sem_ups := (sem_ups s)(i := sem_ups s i + 1)\<rparr>))"
| u_pt: "sem_pc s t = U_Pt i \<Longrightarrow> \<not> pt_locked s \<Longrightarrow> sem_up t s (at_pc t (U_Wake i) (s\<lparr>pt_locked := True\<rparr>))"
| u_wake: "sem_pc s t = U_Wake i \<Longrightarrow>
     sem_up t s (at_pc t (U_PtRel i) (s\<lparr>sem_pc := wake_all (D_Asleep i) (D_Awake i) (sem_pc s)\<rparr>))"
| u_ptrel: "sem_pc s t = U_PtRel i \<Longrightarrow> sem_up t s (at_pc t (U_Print i) (s\<lparr>pt_locked := False\<rparr>))"
| u_print: "sem_pc s t = U_Print i \<Longrightarrow> sem_up t s (at_pc t (U_Rel i) (s\<lparr>sem_out := (t, i, sem_value s i) # sem_out s\<rparr>))"
| u_rel: "sem_pc s t = U_Rel i \<Longrightarrow>
     sem_up t s (at_pc t S_User (s\<lparr>sem_locked := (sem_locked s)(i := False), sem_ret := (sem_ret s)(t := 1)\<rparr>))"

text \<open>A process in user mode calls \<open>sys_sem_down\<close> or \<open>sys_sem_up\<close>, the index being the argument fetched by \<open>argint\<close>.\<close>

definition sem_enter :: "int \<Rightarrow> (nat \<Rightarrow> sempc) \<Rightarrow> nat \<Rightarrow> semk \<Rightarrow> semk" where
  "sem_enter index first t s = (case sem_index index of
     None \<Rightarrow> s\<lparr>sem_ret := (sem_ret s)(t := - 1)\<rparr> | Some i \<Rightarrow> at_pc t (first i) s)"

text \<open>\<open>kill\<close> makes a sleeping process runnable; \<open>cv_sleep\<close> returns and the loop of \<open>sys_sem_down\<close> goes on.\<close>

definition sem_killed :: "nat \<Rightarrow> semk \<Rightarrow> semk \<Rightarrow> bool" where
  "sem_killed t s s' \<longleftrightarrow> (\<exists>i. sem_pc s t = D_Asleep i \<and> \<not> pt_locked s \<and> s' = at_pc t (D_Awake i) s)"

text \<open>The points that belong to a use of semaphore \<open>i\<close>.\<close>

definition sem_of :: "sempc \<Rightarrow> nat option" where
  "sem_of p = (case p of S_User \<Rightarrow> None
     | D_Acq i \<Rightarrow> Some i | D_Test i \<Rightarrow> Some i | D_Pt i \<Rightarrow> Some i | D_Drop i \<Rightarrow> Some i | D_Sleep i \<Rightarrow> Some i
     | D_Asleep i \<Rightarrow> Some i | D_Awake i \<Rightarrow> Some i | D_Resume i \<Rightarrow> Some i | D_Dec i \<Rightarrow> Some i | D_Print i \<Rightarrow> Some i
     | D_Rel i \<Rightarrow> Some i | U_Acq i \<Rightarrow> Some i | U_Inc i \<Rightarrow> Some i | U_Pt i \<Rightarrow> Some i | U_Wake i \<Rightarrow> Some i
     | U_PtRel i \<Rightarrow> Some i | U_Print i \<Rightarrow> Some i | U_Rel i \<Rightarrow> Some i)"

text \<open>
  The states that \<open>n\<close> processes reach. \<open>q\<close>: processes initialise a semaphore only while nobody uses it.
\<close>

inductive sem_step :: "bool \<Rightarrow> nat \<Rightarrow> nat \<Rightarrow> semk \<Rightarrow> semk \<Rightarrow> bool" for q n t s where
  st_down: "sem_down t s s' \<Longrightarrow> sem_step q n t s s'"
| st_up: "sem_up t s s' \<Longrightarrow> sem_step q n t s s'"
| st_kill: "sem_killed t s s' \<Longrightarrow> sem_step q n t s s'"
| st_call_down: "sem_pc s t = S_User \<Longrightarrow> sem_step q n t s (sem_enter index D_Acq t s)"
| st_call_up: "sem_pc s t = S_User \<Longrightarrow> sem_step q n t s (sem_enter index U_Acq t s)"
| st_init: "sem_pc s t = S_User \<Longrightarrow> - 2147483648 \<le> value \<Longrightarrow> value < 2147483648 \<Longrightarrow>
     q \<longrightarrow> (\<forall>u < n. sem_of (sem_pc s u) = None \<or> sem_of (sem_pc s u) \<noteq> sem_index index) \<Longrightarrow>
     sem_step q n t s (sem_init index value t s)"

inductive sem_reach :: "bool \<Rightarrow> nat \<Rightarrow> semk \<Rightarrow> bool" for q n where
  sem_start: "sem_reach q n sem_boot"
| sem_next: "sem_reach q n s \<Longrightarrow> t < n \<Longrightarrow> sem_step q n t s s' \<Longrightarrow> sem_reach q n s'"

inductive_simps cv_sleep_iff: "cv_sleep t s s'"
inductive_simps sem_down_iff: "sem_down t s s'"
inductive_simps sem_up_iff: "sem_up t s s'"
inductive_simps sem_step_iff: "sem_step q n t s s'"

section \<open>The invariant\<close>

text \<open>The semaphore whose lock a process holds at a point, and whether it holds the lock of the process table.\<close>

fun holds_sem :: "sempc \<Rightarrow> nat option" where
  "holds_sem (D_Test i) = Some i"
| "holds_sem (D_Pt i) = Some i"
| "holds_sem (D_Drop i) = Some i"
| "holds_sem (D_Dec i) = Some i"
| "holds_sem (D_Print i) = Some i"
| "holds_sem (D_Rel i) = Some i"
| "holds_sem (U_Inc i) = Some i"
| "holds_sem (U_Pt i) = Some i"
| "holds_sem (U_Wake i) = Some i"
| "holds_sem (U_PtRel i) = Some i"
| "holds_sem (U_Print i) = Some i"
| "holds_sem (U_Rel i) = Some i"
| "holds_sem _ = None"

fun holds_pt :: "sempc \<Rightarrow> bool" where
  "holds_pt (D_Drop i) = True"
| "holds_pt (D_Sleep i) = True"
| "holds_pt (D_Resume i) = True"
| "holds_pt (U_Wake i) = True"
| "holds_pt (U_PtRel i) = True"
| "holds_pt _ = False"

text \<open>
  The locks are held by one process at most; a process has found the value to be what its point says; a process that
  sleeps, or is about to, while the value is not 0 is about to be woken up.
\<close>

definition sem_locks :: "nat \<Rightarrow> nat \<Rightarrow> semk \<Rightarrow> bool" where
  "sem_locks n i s \<longleftrightarrow> at_count n (sem_pc s) {p. holds_sem p = Some i} = of_bool (sem_locked s i)
     \<and> at_count n (sem_pc s) {p. holds_pt p} = of_bool (pt_locked s)"

definition seen_at :: "nat \<Rightarrow> sempc \<Rightarrow> int \<Rightarrow> bool" where
  "seen_at i p v \<longleftrightarrow> (p \<in> {D_Pt i, D_Drop i} \<longrightarrow> v = 0) \<and> (p = D_Dec i \<longrightarrow> v \<noteq> 0)"

definition sem_seen :: "nat \<Rightarrow> nat \<Rightarrow> semk \<Rightarrow> bool" where
  "sem_seen n i s \<longleftrightarrow> (\<forall>t < n. seen_at i (sem_pc s t) (sem_value s i))"

definition sem_wakes :: "nat \<Rightarrow> nat \<Rightarrow> semk \<Rightarrow> bool" where
  "sem_wakes n i s \<longleftrightarrow> (sem_value s i \<noteq> 0 \<longrightarrow> 0 < at_count n (sem_pc s) {D_Sleep i, D_Asleep i} \<longrightarrow>
     0 < at_count n (sem_pc s) {U_Pt i, U_Wake i})"

definition sem_sum :: "nat \<Rightarrow> semk \<Rightarrow> int" where
  "sem_sum i s = sem_init0 s i + int (sem_ups s i) - int (sem_downs s i)"

definition sem_counts :: "nat \<Rightarrow> semk \<Rightarrow> bool" where
  "sem_counts i s \<longleftrightarrow> sem_value s i = int32 (sem_sum i s)
     \<and> (0 \<le> sem_init0 s i \<longrightarrow> sem_init0 s i + int (sem_ups s i) < 2147483648 \<longrightarrow> 0 \<le> sem_sum i s)"

lemma sem_wake_points [simp]:
  "holds_sem (wake_all (D_Asleep i) (D_Awake i) pc t) = holds_sem (pc t)"
  "holds_pt (wake_all (D_Asleep i) (D_Awake i) pc t) = holds_pt (pc t)"
  by (simp_all add: wake_all_eq)

lemma at_count_woken_sem [simp]:
  "at_count n (wake_all (D_Asleep i) (D_Awake i) pc) {p. holds_sem p = j} = at_count n pc {p. holds_sem p = j}"
  "at_count n (wake_all (D_Asleep i) (D_Awake i) pc) (Collect holds_pt) = at_count n pc (Collect holds_pt)"
  by (simp_all add: at_count_def)

lemma sem_lockD: "sem_locks n i s \<Longrightarrow> t < n \<Longrightarrow> holds_sem (sem_pc s t) = Some i \<Longrightarrow> sem_locked s i"
  using at_count_here [of t n "sem_pc s" "{p. holds_sem p = Some i}"] by (cases "sem_locked s i") (simp_all add: sem_locks_def)

lemma pt_lockD: "sem_locks n i s \<Longrightarrow> t < n \<Longrightarrow> holds_pt (sem_pc s t) \<Longrightarrow> pt_locked s"
  using at_count_here [of t n "sem_pc s" "{p. holds_pt p}"] by (cases "pt_locked s") (simp_all add: sem_locks_def)

lemma sem_alone:
  "sem_locks n i s \<Longrightarrow> t < n \<Longrightarrow> u < n \<Longrightarrow> holds_sem (sem_pc s t) = Some i \<Longrightarrow> holds_sem (sem_pc s u) = Some i \<Longrightarrow> t = u"
  using at_count_le_1 [of n "sem_pc s" "{p. holds_sem p = Some i}" t u] by (simp add: sem_locks_def)

lemma pt_alone:
  "sem_locks n i s \<Longrightarrow> t < n \<Longrightarrow> u < n \<Longrightarrow> holds_pt (sem_pc s t) \<Longrightarrow> holds_pt (sem_pc s u) \<Longrightarrow> t = u"
  using at_count_le_1 [of n "sem_pc s" "{p. holds_pt p}" t u] by (simp add: sem_locks_def)

lemma cv_sleep_locks: "cv_sleep t s s' \<Longrightarrow> t < n \<Longrightarrow> sem_locks n i s \<Longrightarrow> sem_locks n i s'"
  using sem_lockD [of n i s t] pt_lockD [of n i s t] unfolding sem_locks_def
  by (erule_tac cv_sleep.cases) (auto simp: at_count_upd)

lemma sem_down_locks: "sem_down t s s' \<Longrightarrow> t < n \<Longrightarrow> sem_locks n i s \<Longrightarrow> sem_locks n i s'"
  using sem_lockD [of n i s t] pt_lockD [of n i s t] unfolding sem_locks_def
  by (erule_tac sem_down.cases) (auto simp: at_count_upd cv_sleep_locks [unfolded sem_locks_def])

lemma sem_up_locks: "sem_up t s s' \<Longrightarrow> t < n \<Longrightarrow> sem_locks n i s \<Longrightarrow> sem_locks n i s'"
  using sem_lockD [of n i s t] pt_lockD [of n i s t] unfolding sem_locks_def
  by (erule_tac sem_up.cases) (auto simp: at_count_upd wake_all_eq)

lemma seen_at_free: "holds_sem p \<noteq> Some i \<Longrightarrow> seen_at i p v"
  by (auto simp: seen_at_def)

lemma seen_at_wake [simp]: "seen_at i (wake_all (D_Asleep j) (D_Awake j) pc u) v = seen_at i (pc u) v"
  by (simp add: seen_at_def wake_all_eq)

text \<open>Only the process that holds the lock changes the value, and the others do not rely on it.\<close>

lemma sem_seen_step:
  assumes "sem_locks n i s" "sem_seen n i s" "t < n"
    and "seen_at i (sem_pc s' t) (sem_value s' i)"
    and "sem_value s' i = sem_value s i \<or> holds_sem (sem_pc s t) = Some i"
    and "\<And>u v. u \<noteq> t \<Longrightarrow> seen_at i (sem_pc s' u) v = seen_at i (sem_pc s u) v"
  shows "sem_seen n i s'"
  unfolding sem_seen_def
proof (intro allI impI)
  fix u assume u: "u < n"
  show "seen_at i (sem_pc s' u) (sem_value s' i)"
  proof (cases "u = t \<or> sem_value s' i = sem_value s i")
    case True
    then show ?thesis using assms(2,4,6) u by (cases "u = t") (auto simp: sem_seen_def)
  next
    case False
    then have "holds_sem (sem_pc s u) \<noteq> Some i" using assms(1,3,5) u sem_alone [of n i s t u] by blast
    then show ?thesis using assms(6) False by (simp add: seen_at_free)
  qed
qed

lemma cv_sleep_seen:
  assumes "cv_sleep t s s'" "t < n" "sem_locks n i s" "sem_seen n i s"
  shows "sem_seen n i s'"
  using assms(1) assms(2,4)
  by (cases rule: cv_sleep.cases; rule_tac sem_seen_step [OF assms(3,4,2)]) (auto simp: seen_at_def sem_seen_def)

lemma sem_down_seen:
  assumes "sem_down t s s'" "t < n" "sem_locks n i s" "sem_seen n i s"
  shows "sem_seen n i s'"
proof (cases "cv_sleep t s s'")
  case True
  then show ?thesis using cv_sleep_seen assms(2-4) by blast
next
  case False
  with assms(1) show ?thesis using assms(2,4)
    by (cases rule: sem_down.cases; rule_tac sem_seen_step [OF assms(3,4,2)]) (auto simp: seen_at_def sem_seen_def)
qed

lemma sem_up_seen:
  assumes "sem_up t s s'" "t < n" "sem_locks n i s" "sem_seen n i s"
  shows "sem_seen n i s'"
  using assms(1) assms(2,4)
  by (cases rule: sem_up.cases; rule_tac sem_seen_step [OF assms(3,4,2)]) (simp_all add: seen_at_def sem_seen_def wake_all_eq)

lemma sem_holder_0:
  assumes "sem_locks n i s" "t < n" "holds_sem (sem_pc s t) = Some i" "sem_pc s t \<notin> {U_Pt i, U_Wake i}"
  shows "at_count n (sem_pc s) {U_Pt i, U_Wake i} = 0"
  unfolding at_count_0
proof (intro allI impI)
  fix u assume u: "u < n"
  show "sem_pc s u \<notin> {U_Pt i, U_Wake i}"
  proof
    assume p: "sem_pc s u \<in> {U_Pt i, U_Wake i}"
    then have "holds_sem (sem_pc s u) = Some i" by auto
    then have "t = u" using sem_alone [OF assms(1,2) u assms(3)] by blast
    then show False using p assms(4) by simp
  qed
qed

lemma cv_sleep_wakes:
  assumes "cv_sleep t s s'" "t < n" "sem_seen n i s" "sem_wakes n i s"
  shows "sem_wakes n i s'"
proof -
  have v: "seen_at i (sem_pc s t) (sem_value s i)" using assms(2,3) by (simp add: sem_seen_def)
  show ?thesis
    using assms(1) assms(4) v unfolding sem_wakes_def seen_at_def
    by (cases rule: cv_sleep.cases) (auto simp: at_count_upd assms(2))
qed

lemma sem_down_wakes:
  assumes "sem_down t s s'" "t < n" "sem_locks n i s" "sem_seen n i s" "sem_wakes n i s"
  shows "sem_wakes n i s'"
proof -
  have v: "seen_at i (sem_pc s t) (sem_value s i)" using assms(2,4) by (simp add: sem_seen_def)
  have c: "at_count n (sem_pc s) {D_Sleep i, D_Asleep i} = 0" if "sem_pc s t = D_Dec i"
    using assms(5) v that sem_holder_0 [OF assms(3,2)] at_count_ge_0 [of n "sem_pc s" "{D_Sleep i, D_Asleep i}"]
    by (simp add: sem_wakes_def seen_at_def)
  show ?thesis
    using assms(1) assms(5) v c unfolding sem_wakes_def seen_at_def
    by (cases rule: sem_down.cases) (auto simp: at_count_upd assms(2) cv_sleep_wakes [OF _ assms(2,4,5), unfolded sem_wakes_def])
qed

lemma at_count_sleeping_woken:
  assumes "sem_locks n i s" "t < n" "sem_pc s t = U_Wake i"
  shows "at_count n (wake_all (D_Asleep i) (D_Awake i) (sem_pc s)) {D_Sleep i, D_Asleep i} = 0"
  unfolding at_count_0
proof (intro allI impI)
  fix u assume u: "u < n"
  have "sem_pc s u \<noteq> D_Sleep i" using pt_alone [OF assms(1,2) u] assms(3) by fastforce
  then show "wake_all (D_Asleep i) (D_Awake i) (sem_pc s) u \<notin> {D_Sleep i, D_Asleep i}" by (simp add: wake_all_eq)
qed

lemma sem_up_wakes:
  assumes "sem_up t s s'" "t < n" "sem_locks n i s" "sem_wakes n i s"
  shows "sem_wakes n i s'"
  using assms(1)
proof (cases rule: sem_up.cases)
  case (u_wake j)
  show ?thesis
  proof (cases "j = i")
    case True
    then show ?thesis using u_wake at_count_sleeping_woken [OF assms(3,2)] by (simp add: sem_wakes_def at_count_upd assms(2) wake_all_eq)
  next
    case False
    have "at_count n (wake_all (D_Asleep j) (D_Awake j) (sem_pc s)) X = at_count n (sem_pc s) X"
      if "X = {D_Sleep i, D_Asleep i} \<or> X = {U_Pt i, U_Wake i}" for X
      using that False by (intro at_count_wake_all) auto
    then show ?thesis using u_wake assms(4) False by (simp add: sem_wakes_def at_count_upd assms(2) wake_all_eq)
  qed
qed (use assms(4) in \<open>auto simp: sem_wakes_def at_count_upd assms(2)\<close>)

lemma sem_sum_simps [simp]: "sem_sum i (at_pc t p s) = sem_sum i s"
  by (simp add: sem_sum_def)

lemma sem_counts_dec:
  assumes "sem_counts i s" "sem_value s i \<noteq> 0"
  shows "sem_counts i (s\<lparr>sem_value := (sem_value s)(i := int32 (sem_value s i - 1)), sem_downs := (sem_downs s)(i := sem_downs s i + 1)\<rparr>)"
proof -
  have "sem_value s i = sem_sum i s" if "0 \<le> sem_init0 s i" "sem_init0 s i + int (sem_ups s i) < 2147483648"
    using assms that by (auto simp: sem_counts_def sem_sum_def int32_same)
  then show ?thesis
    using assms int32_add [of "sem_sum i s" "- 1"] by (auto simp: sem_counts_def sem_sum_def algebra_simps)
qed

lemma sem_counts_inc:
  assumes "sem_counts i s"
  shows "sem_counts i (s\<lparr>sem_value := (sem_value s)(i := int32 (sem_value s i + 1)), sem_ups := (sem_ups s)(i := sem_ups s i + 1)\<rparr>)"
  using assms int32_add [of "sem_sum i s" 1] by (auto simp: sem_counts_def sem_sum_def algebra_simps)

lemma sem_counts_frame:
  "sem_counts i s \<Longrightarrow> sem_value s' i = sem_value s i \<Longrightarrow> sem_init0 s' i = sem_init0 s i \<Longrightarrow> sem_ups s' i = sem_ups s i \<Longrightarrow>
   sem_downs s' i = sem_downs s i \<Longrightarrow> sem_counts i s'"
  by (simp add: sem_counts_def sem_sum_def)

lemma cv_sleep_counts: "cv_sleep t s s' \<Longrightarrow> sem_counts i s \<Longrightarrow> sem_counts i s'"
  by (erule cv_sleep.cases) (auto intro: sem_counts_frame)

lemma sem_down_counts:
  assumes "sem_down t s s'" "t < n" "sem_seen n i s" "sem_counts i s"
  shows "sem_counts i s'"
  using assms(1)
proof (cases rule: sem_down.cases)
  case (d_dec j)
  show ?thesis
  proof (cases "j = i")
    case True
    then have "sem_value s i \<noteq> 0" using d_dec assms(2,3) by (auto simp: sem_seen_def seen_at_def)
    then show ?thesis using sem_counts_frame [OF sem_counts_dec [OF assms(4)]] d_dec True by auto
  next
    case False
    then show ?thesis using sem_counts_frame [OF assms(4)] d_dec by auto
  qed
qed (use sem_counts_frame [OF assms(4)] cv_sleep_counts [OF _ assms(4)] in auto)

lemma sem_up_counts:
  assumes "sem_up t s s'" "sem_counts i s"
  shows "sem_counts i s'"
  using assms(1)
proof (cases rule: sem_up.cases)
  case (u_inc j)
  show ?thesis
  proof (cases "j = i")
    case True
    then show ?thesis using sem_counts_frame [OF sem_counts_inc [OF assms(2)]] u_inc by auto
  next
    case False
    then show ?thesis using sem_counts_frame [OF assms(2)] u_inc by auto
  qed
qed (use sem_counts_frame [OF assms(2)] in auto)

text \<open>The whole invariant of the system.\<close>

definition sem_ok :: "nat \<Rightarrow> nat \<Rightarrow> semk \<Rightarrow> bool" where
  "sem_ok n i s \<longleftrightarrow> sem_locks n i s \<and> sem_seen n i s \<and> sem_wakes n i s \<and> sem_counts i s"

text \<open>A process that moves between points at which it holds nothing, outside of sleep, or that is woken up.\<close>

lemma sem_ok_move:
  assumes "sem_ok n i s" "t < n" "holds_sem (sem_pc s t) = None" "holds_sem p = None" "\<not> holds_pt (sem_pc s t)" "\<not> holds_pt p"
    and "p \<noteq> D_Asleep i"
  shows "sem_ok n i (at_pc t p s)"
proof -
  have "sem_pc s t \<notin> {U_Pt i, U_Wake i}" "p \<notin> {U_Pt i, U_Wake i}" "p \<notin> {D_Sleep i, D_Asleep i}"
    "p \<notin> {D_Pt i, D_Drop i, D_Dec i}"
    using assms(3-7) by auto
  then show ?thesis
    using assms by (auto simp: sem_ok_def sem_locks_def sem_seen_def sem_wakes_def sem_counts_def at_count_upd seen_at_def)
qed

lemma holds_sem_of: "holds_sem p = Some i \<Longrightarrow> sem_of p = Some i"
  by (cases p) (simp_all add: sem_of_def)

lemma sem_ok_same:
  "sem_ok n i s \<Longrightarrow> sem_pc s' = sem_pc s \<Longrightarrow> sem_locked s' i = sem_locked s i \<Longrightarrow> pt_locked s' = pt_locked s \<Longrightarrow>
   sem_value s' i = sem_value s i \<Longrightarrow> sem_init0 s' i = sem_init0 s i \<Longrightarrow> sem_ups s' i = sem_ups s i \<Longrightarrow>
   sem_downs s' i = sem_downs s i \<Longrightarrow> sem_ok n i s'"
  unfolding sem_ok_def sem_locks_def sem_seen_def sem_wakes_def sem_counts_def sem_sum_def by (elim conjE) simp

lemma sem_ok_enter:
  assumes "sem_ok n i s" "t < n" "sem_pc s t = S_User" "first = D_Acq \<or> first = U_Acq"
  shows "sem_ok n i (sem_enter index first t s)"
proof (cases "sem_index index")
  case None
  then show ?thesis by (intro sem_ok_same [OF assms(1)]) (simp_all add: sem_enter_def)
next
  case (Some j)
  then show ?thesis using assms by (auto simp: sem_enter_def intro!: sem_ok_move)
qed

lemma sem_ok_init:
  assumes ok: "sem_ok n i s" and v: "- 2147483648 \<le> value" "value < 2147483648"
    and quiet: "\<forall>u < n. sem_of (sem_pc s u) = None \<or> sem_of (sem_pc s u) \<noteq> sem_index index"
  shows "sem_ok n i (sem_init index value t s)"
proof (cases "sem_index index = Some i")
  case True
  have q: "sem_of (sem_pc s u) \<noteq> Some i" if "u < n" for u using quiet that True by auto
  have h: "holds_sem (sem_pc s u) \<noteq> Some i" if "u < n" for u using q [OF that] holds_sem_of by blast
  have 0: "at_count n (sem_pc s) {p. holds_sem p = Some i} = 0" using h by (simp add: at_count_0)
  have w: "at_count n (sem_pc s) {D_Sleep i, D_Asleep i} = 0"
    using q by (fastforce simp: at_count_0 sem_of_def)
  show ?thesis using ok 0 w h v True
    by (simp add: sem_ok_def sem_init_def sem_locks_def sem_seen_def sem_wakes_def sem_counts_def sem_sum_def seen_at_free int32_same)
next
  case False
  then show ?thesis by (intro sem_ok_same [OF ok]) (auto simp: sem_init_def split: option.splits)
qed

lemma sem_step_ok:
  assumes "sem_step True n t s s'" "t < n" "sem_ok n i s"
  shows "sem_ok n i s'"
  using assms(1)
proof (cases rule: sem_step.cases)
  case st_down
  then show ?thesis using assms(2,3) by (auto simp: sem_ok_def intro: sem_down_locks sem_down_seen sem_down_wakes sem_down_counts)
next
  case st_up
  then show ?thesis using assms(2,3) by (auto simp: sem_ok_def intro: sem_up_locks sem_up_seen sem_up_wakes sem_up_counts)
next
  case st_kill
  then show ?thesis using assms(2,3) by (auto simp: sem_killed_def intro!: sem_ok_move)
next
  case (st_call_down index)
  then show ?thesis using sem_ok_enter [OF assms(3,2)] by blast
next
  case (st_call_up index)
  then show ?thesis using sem_ok_enter [OF assms(3,2)] by blast
next
  case (st_init v index)
  then show ?thesis using sem_ok_init [OF assms(3)] by blast
qed

lemma sem_reach_ok: "sem_reach True n s \<Longrightarrow> sem_ok n i s"
proof (induction rule: sem_reach.induct)
  case sem_start
  have "at_count n (\<lambda>_. S_User) X = 0" if "S_User \<notin> X" for X using that by (simp add: at_count_0)
  then show ?case
    by (simp add: sem_ok_def sem_locks_def sem_seen_def sem_wakes_def sem_counts_def sem_sum_def sem_boot_def seen_at_def int32_same)
next
  case (sem_next s t s')
  then show ?case using sem_step_ok by blast
qed

section \<open>What the semaphores promise\<close>

text \<open>Two processes: the first sleeps in \<open>sys_sem_down\<close> of semaphore 3, the second has just raised its value.\<close>

definition sem_pair :: semk where
  "sem_pair = sem_boot\<lparr>sem_value := (\<lambda>_. 0)(3 := 1), sem_locked := (\<lambda>_. False)(3 := True),
     sem_pc := (\<lambda>_. S_User)(0 := D_Asleep 3, 1 := U_Pt 3), sem_ups := (\<lambda>_. 0)(3 := 1)\<rparr>"

lemma sem_pair_reached: "sem_reach True 2 sem_pair"
proof -
  note step = sem_next [where q = True and n = 2]
  define s1 where "s1 = sem_enter 3 D_Acq 0 sem_boot"
  define s2 where "s2 = at_pc 0 (D_Test 3) (s1\<lparr>sem_locked := (sem_locked s1)(3 := True)\<rparr>)"
  define s3 where "s3 = at_pc 0 (D_Pt 3) s2"
  define s4 where "s4 = at_pc 0 (D_Drop 3) (s3\<lparr>pt_locked := True\<rparr>)"
  define s5 where "s5 = at_pc 0 (D_Sleep 3) (s4\<lparr>sem_locked := (sem_locked s4)(3 := False)\<rparr>)"
  define s6 where "s6 = at_pc 0 (D_Asleep 3) (s5\<lparr>pt_locked := False\<rparr>)"
  define s7 where "s7 = sem_enter 3 U_Acq 1 s6"
  define s8 where "s8 = at_pc 1 (U_Inc 3) (s7\<lparr>sem_locked := (sem_locked s7)(3 := True)\<rparr>)"
  note d = s1_def s2_def s3_def s4_def s5_def s6_def s7_def s8_def sem_boot_def sem_enter_def sem_index_def NLOCKS_def
  have "sem_reach True 2 s1" unfolding s1_def by (rule step [OF sem_start _ st_call_down, of 0]) (simp_all add: sem_boot_def)
  then have "sem_reach True 2 s2" by (rule step [where t = 0]) (auto simp: sem_step_iff sem_down_iff cv_sleep_iff d)
  then have "sem_reach True 2 s3" by (rule step [where t = 0]) (auto simp: sem_step_iff sem_down_iff cv_sleep_iff d)
  then have "sem_reach True 2 s4" by (rule step [where t = 0]) (auto simp: sem_step_iff sem_down_iff cv_sleep_iff d)
  then have "sem_reach True 2 s5" by (rule step [where t = 0]) (auto simp: sem_step_iff sem_down_iff cv_sleep_iff d)
  then have "sem_reach True 2 s6" by (rule step [where t = 0]) (auto simp: sem_step_iff sem_down_iff cv_sleep_iff d)
  then have "sem_reach True 2 s7" unfolding s7_def by (rule step [OF _ _ st_call_up, of _ 1]) (simp_all add: d)
  then have "sem_reach True 2 s8" by (rule step [where t = 1]) (auto simp: sem_step_iff sem_up_iff d)
  moreover have "sem_up 1 s8 sem_pair"
    unfolding sem_up_iff by (auto simp: d sem_pair_def at_pc_def fun_eq_iff int32_same)
  ultimately show ?thesis by (rule_tac step [where t = 1, OF _ _ st_up]) simp_all
qed

text \<open>
  C25: A semaphore is never oversold: in every interleaving of any number of processes, with processes killed at any time, as
  long as the value it was given is not negative and the operations do not overflow it, its value is that value plus the
  completed increments less the decrements, and this is not negative. A semaphore may be initialised again, but only while no
  process is in a call on it: \<open>sem_reinit_opens_lock\<close> shows that this is needed. The two stores of the initialisation, which
  nobody else can then see half done, are one step.
\<close>

theorem sem_not_oversold:
  assumes "sem_reach True n s" and "0 \<le> sem_init0 s i" and "sem_init0 s i + int (sem_ups s i) < 2147483648"
  shows "sem_value s i = sem_init0 s i + int (sem_ups s i) - int (sem_downs s i) \<and> 0 \<le> sem_value s i"
proof -
  have "sem_counts i s" using sem_reach_ok [OF assms(1), of i] by (simp add: sem_ok_def)
  then show ?thesis using assms(2,3) by (auto simp: sem_counts_def sem_sum_def int32_same)
qed

lemma sem_not_oversold_witness:
  "sem_reach True 2 sem_pair \<and> sem_value sem_pair 3 = sem_init0 sem_pair 3 + int (sem_ups sem_pair 3) - int (sem_downs sem_pair 3)
   \<and> 0 \<le> sem_value sem_pair 3"
  using sem_not_oversold [OF sem_pair_reached, of 3] sem_pair_reached by (simp add: sem_pair_def sem_boot_def)

lemma sem_holder_moves:
  assumes "holds_sem (sem_pc s t) = Some i" "\<not> pt_locked s"
  shows "\<exists>s'. sem_down t s s' \<or> sem_up t s s'"
  using assms by (cases "sem_pc s t"; cases "sem_value s i = 0") (auto intro: sem_down.intros cv_sleep.intros sem_up.intros)

lemma pt_holder_moves:
  assumes "holds_pt (sem_pc s t)"
  shows "\<exists>s'. sem_down t s s' \<or> sem_up t s s'"
  using assms by (cases "sem_pc s t") (auto intro: sem_down.intros cv_sleep.intros sem_up.intros)

text \<open>
  C26: No wakeup is lost and the processes do not deadlock: as long as a process in one of the calls is not asleep on a
  semaphore whose value is 0, some process in a call can take its next step. As before, a semaphore is initialised only while
  no process is in a call on it.
\<close>

theorem sem_no_lost_wakeup:
  assumes "sem_reach True n s" and "t < n" and "sem_pc s t \<noteq> S_User" and "\<And>i. sem_pc s t = D_Asleep i \<Longrightarrow> sem_value s i \<noteq> 0"
  shows "\<exists>u < n. \<exists>s'. sem_down u s s' \<or> sem_up u s s'"
proof -
  have ok: "sem_locks n i s" "sem_wakes n i s" for i using sem_reach_ok [OF assms(1), of i] by (simp_all add: sem_ok_def)
  show ?thesis
  proof (cases "pt_locked s")
    case True
    then have "0 < at_count n (sem_pc s) {p. holds_pt p}" using ok by (simp add: sem_locks_def)
    then show ?thesis unfolding at_count_pos using pt_holder_moves by blast
  next
    case False
    then have mv: "\<exists>s'. sem_down u s s' \<or> sem_up u s s'" if "holds_sem (sem_pc s u) = Some i" for u i
      using sem_holder_moves [OF that] by blast
    have acq: ?thesis if "sem_pc s t = D_Acq i \<or> sem_pc s t = U_Acq i" for i
    proof (cases "sem_locked s i")
      case True
      then have "0 < at_count n (sem_pc s) {p. holds_sem p = Some i}" using ok [of i] by (simp add: sem_locks_def)
      then show ?thesis unfolding at_count_pos using mv by blast
    next
      case False
      then show ?thesis using that assms(2) by (blast intro: d_acq u_acq)
    qed
    have asleep: ?thesis if p: "sem_pc s t = D_Asleep i" for i
    proof -
      have "0 < at_count n (sem_pc s) {D_Sleep i, D_Asleep i}" using p assms(2) by (auto simp: at_count_pos)
      then have "0 < at_count n (sem_pc s) {U_Pt i, U_Wake i}" using ok(2) [of i] assms(4) [OF p] by (simp add: sem_wakes_def)
      then obtain u where "u < n" "holds_sem (sem_pc s u) = Some i" by (auto simp: at_count_pos)
      then show ?thesis using mv by blast
    qed
    show ?thesis using acq asleep mv [of t] pt_holder_moves [of s t] assms(2,3) False
      by (cases "sem_pc s t") (auto intro: d_run d_cv_sleep)
  qed
qed

lemma sem_no_lost_wakeup_witness:
  "sem_pc sem_pair 0 = D_Asleep 3 \<and> (\<exists>u < 2. \<exists>s'. sem_down u sem_pair s' \<or> sem_up u sem_pair s')"
proof
  show p: "sem_pc sem_pair 0 = D_Asleep 3" by (simp add: sem_pair_def)
  show "\<exists>u < 2. \<exists>s'. sem_down u sem_pair s' \<or> sem_up u sem_pair s'"
    by (rule sem_no_lost_wakeup [OF sem_pair_reached, of 0]) (simp_all add: sem_pair_def)
qed

text \<open>
  A process that initialises a semaphore while another is in its critical section opens the lock: then two processes hold it.
\<close>

lemma sem_reinit_opens_lock: "\<exists>s. sem_reach False 3 s \<and> sem_pc s 0 = D_Test 3 \<and> sem_pc s 1 = D_Test 3"
proof -
  note step = sem_next [where q = False and n = 3]
  define s1 where "s1 = sem_enter 3 D_Acq 0 sem_boot"
  define s2 where "s2 = at_pc 0 (D_Test 3) (s1\<lparr>sem_locked := (sem_locked s1)(3 := True)\<rparr>)"
  define s3 where "s3 = sem_init 3 1 2 s2"
  define s4 where "s4 = sem_enter 3 D_Acq 1 s3"
  define s5 where "s5 = at_pc 1 (D_Test 3) (s4\<lparr>sem_locked := (sem_locked s4)(3 := True)\<rparr>)"
  note d = s1_def s2_def s3_def s4_def s5_def sem_boot_def sem_enter_def sem_init_def sem_index_def NLOCKS_def
  have "sem_reach False 3 s1" unfolding s1_def by (rule step [OF sem_start _ st_call_down, of 0]) (simp_all add: sem_boot_def)
  then have "sem_reach False 3 s2" by (rule step [where t = 0]) (auto simp: sem_step_iff sem_down_iff cv_sleep_iff d)
  then have "sem_reach False 3 s3" unfolding s3_def by (rule step [OF _ _ st_init, of _ 2]) (simp_all add: d)
  then have "sem_reach False 3 s4" unfolding s4_def by (rule step [OF _ _ st_call_down, of _ 1]) (simp_all add: d)
  then have "sem_reach False 3 s5" by (rule step [where t = 1]) (auto simp: sem_step_iff sem_down_iff cv_sleep_iff d)
  moreover have "sem_pc s5 0 = D_Test 3" "sem_pc s5 1 = D_Test 3" by (simp_all add: d)
  ultimately show ?thesis by blast
qed

end
