(* ===== verification/Emudisk.thy ===== *)
theory Emudisk
  imports KPrelude
begin

text \<open>
  \<open>disk.c\<close> of lab 11: a disk emulated in a file of the host, and the table of mounted disks. The functions of
  the host (\<open>fopen\<close>, \<open>lseek\<close>, \<open>read\<close>, \<open>write\<close>, \<open>close\<close>) act on its files and on the table of open files of the
  process; opening and writing do not fail. What \<open>malloc\<close> or the stack holds before it is written is the parameter \<open>junk\<close>.
  The result \<open>None\<close> is undefined behaviour: an access outside an object or the overflow of an \<open>int\<close>.
  Messages are not modelled.
\<close>

section \<open>The host\<close>

record image =
  im_data :: mem
  im_len :: nat

record mount_t =
  m_fd :: int
  m_name :: "byte list"
  m_fs :: int

text \<open>
  The files of the host by name; the open files by descriptor, with the name and the position; the mounted disks; the
  time in seconds.
\<close>

record emuk =
  hfiles :: "byte list \<rightharpoonup> image"
  fds :: "(byte list \<times> nat) option list"
  mounts :: "mount_t list"
  clock :: nat

definition BLOCKSIZE :: nat where "BLOCKSIZE = 512"
definition MAX_BLOCKS :: nat where "MAX_BLOCKS = 42"
definition MAGIC_NUMBER :: nat where "MAGIC_NUMBER = 6763"

text \<open>The open file of a descriptor, and the lowest descriptor that is not in use.\<close>

definition fd_get :: "int \<Rightarrow> emuk \<Rightarrow> (byte list \<times> nat) option" where
  "fd_get fd k = (if 0 \<le> fd \<and> fd < int (length (fds k)) then fds k ! nat fd else None)"

definition fd_set :: "int \<Rightarrow> (byte list \<times> nat) option \<Rightarrow> emuk \<Rightarrow> emuk" where
  "fd_set fd v k = k\<lparr>fds := (fds k)[nat fd := v]\<rparr>"

definition h_open :: "byte list \<Rightarrow> emuk \<Rightarrow> int \<times> emuk" where
  "h_open name k =
     (case first_idx (length (fds k)) (\<lambda>i. fds k ! i = None) of
        Some i \<Rightarrow> (int i, k\<lparr>fds := (fds k)[i := Some (name, 0)]\<rparr>)
      | None \<Rightarrow> (int (length (fds k)), k\<lparr>fds := fds k @ [Some (name, 0)]\<rparr>))"

definition h_lseek :: "int \<Rightarrow> int \<Rightarrow> emuk \<Rightarrow> emuk" where
  "h_lseek fd off k =
     (case fd_get fd k of
        Some (name, pos) \<Rightarrow> if 0 \<le> off then fd_set fd (Some (name, nat off)) k else k
      | None \<Rightarrow> k)"

text \<open>Reading stops at the end of the file; writing extends it, with zeros before the position if that is beyond its end.\<close>

definition h_read :: "int \<Rightarrow> nat \<Rightarrow> mem \<Rightarrow> emuk \<Rightarrow> int \<times> mem \<times> emuk" where
  "h_read fd n buf k =
     (case fd_get fd k of
        None \<Rightarrow> (- 1, buf, k)
      | Some (name, pos) \<Rightarrow>
          (case hfiles k name of
             None \<Rightarrow> (- 1, buf, k)
           | Some im \<Rightarrow> let m = min n (im_len im - pos)
                        in (int m, blit (im_data im) pos buf 0 m, fd_set fd (Some (name, pos + m)) k)))"

definition im_write :: "mem \<Rightarrow> nat \<Rightarrow> nat \<Rightarrow> image \<Rightarrow> image" where
  "im_write buf n pos im =
     \<lparr>im_data = blit buf 0 (fill 0 (im_data im) (im_len im) (pos - im_len im)) pos n, im_len = max (im_len im) (pos + n)\<rparr>"

definition h_write :: "int \<Rightarrow> nat \<Rightarrow> mem \<Rightarrow> emuk \<Rightarrow> int \<times> emuk" where
  "h_write fd n buf k =
     (case fd_get fd k of
        None \<Rightarrow> (- 1, k)
      | Some (name, pos) \<Rightarrow>
          (case hfiles k name of
             None \<Rightarrow> (- 1, k)
           | Some im \<Rightarrow> (int n, fd_set fd (Some (name, pos + n)) (k\<lparr>hfiles := (hfiles k)(name \<mapsto> im_write buf n pos im)\<rparr>))))"

section \<open>Blocks\<close>

definition blk_off :: "int \<Rightarrow> int" where
  "blk_off b = s32 (u32_of (b * int BLOCKSIZE))"

definition readblock :: "int \<Rightarrow> int \<Rightarrow> mem \<Rightarrow> emuk \<Rightarrow> int \<times> mem \<times> emuk" where
  "readblock dev_fd b buf k =
     (if dev_fd < 0 then (- 1, buf, k)
      else let k = h_lseek dev_fd (blk_off b) k;
               (ret, buf, k) = h_read dev_fd BLOCKSIZE buf k
           in (if ret \<noteq> int BLOCKSIZE then - 1 else 1, buf, k))"

definition writeblock :: "int \<Rightarrow> int \<Rightarrow> mem \<Rightarrow> emuk \<Rightarrow> int \<times> emuk" where
  "writeblock dev_fd b buf k =
     (if dev_fd < 0 then (- 1, k)
      else let k = h_lseek dev_fd (blk_off b) k;
               (ret, k) = h_write dev_fd BLOCKSIZE buf k
           in (if ret \<noteq> int BLOCKSIZE then - 1 else 1, k))"

section \<open>Mounting\<close>

definition add_new_mount_point :: "int \<Rightarrow> byte list \<Rightarrow> int \<Rightarrow> emuk \<Rightarrow> (nat option \<times> emuk) option" where
  "add_new_mount_point fd name fs k =
     (case first_idx (length (mounts k)) (\<lambda>i. m_fd (mounts k ! i) \<le> 0) of
        None \<Rightarrow> Some (None, k)
      | Some i \<Rightarrow> if 20 \<le> length name then None
                  else Some (Some i, k\<lparr>mounts := (mounts k)[i := \<lparr>m_fd = fd, m_name = name, m_fs = fs\<rparr>]\<rparr>))"

text \<open>\<open>struct superblock_t\<close>: the offsets of its fields in block 0.\<close>

definition SB_NAME :: nat where "SB_NAME = 4"
definition SB_SIZE :: nat where "SB_SIZE = 24"
definition SB_FS :: nat where "SB_FS = 28"
definition SB_BITMAP :: nat where "SB_BITMAP = 32"
definition SB_LEN :: nat where "SB_LEN = 76"

text \<open>A device whose file does not exist is created: the file gets its length, then its superblock.\<close>

definition create_device :: "mem \<Rightarrow> mem \<Rightarrow> byte list \<Rightarrow> nat \<Rightarrow> emuk \<Rightarrow> (int \<times> mem \<times> emuk) option" where
  "create_device junk1 junk2 name sz k =
     (if 20 \<le> length name then None
      else let sb = wr32 junk1 SB_FS (u32_of (- 1));
               sb = put_bytes (name @ [0]) sb SB_NAME;
               sb = wr32 sb SB_SIZE sz;
               sb = wr32 sb 0 MAGIC_NUMBER;
               k = k\<lparr>hfiles := (hfiles k)(name \<mapsto> \<lparr>im_data = (\<lambda>_. 0), im_len = sz * BLOCKSIZE + 1\<rparr>)\<rparr>;
               (fd, k) = h_open name k;
               (_, k) = writeblock fd 0 (blit sb 0 junk2 0 SB_LEN) k
           in Some (fd, sb, k))"

definition opendevice :: "mem \<Rightarrow> mem \<Rightarrow> byte list option \<Rightarrow> int \<Rightarrow> emuk \<Rightarrow> (nat option \<times> emuk) option" where
  "opendevice junk1 junk2 name sz k =
     (case name of
        None \<Rightarrow> Some (None, k)
      | Some name \<Rightarrow>
          if name = [] then Some (None, k)
          else if sz > int MAX_BLOCKS \<or> sz < 2 then Some (None, k)
          else if hfiles k name = None then
            Option.bind (create_device junk1 junk2 name (nat sz) k) (\<lambda>(fd, sb, k).
              add_new_mount_point fd name (s32 (rd32 sb SB_FS)) k)
          else let (fd, k) = h_open name k;
                   (_, buf, k) = readblock fd 0 junk2 k;
                   sb = blit buf 0 junk1 0 SB_LEN
               in if rd32 sb 0 \<noteq> MAGIC_NUMBER \<or> s32 (rd32 sb SB_SIZE) \<le> 2 \<or> 42 < s32 (rd32 sb SB_SIZE)
                  then Some (None, k)
                  else add_new_mount_point fd name (s32 (rd32 sb SB_FS)) k)"

definition closedevice :: "nat option \<Rightarrow> emuk \<Rightarrow> int \<times> emuk" where
  "closedevice mp k =
     (case mp of
        None \<Rightarrow> (- 1, k)
      | Some i \<Rightarrow>
          if m_fd (mounts k ! i) < 0 then (- 1, k)
          else let k = fd_set (m_fd (mounts k ! i)) None k
               in (1, k\<lparr>mounts := (mounts k)[i := \<lparr>m_fd = - 1, m_name = [], m_fs = - 1\<rparr>]\<rparr>))"

end
