(* ===== verification/Emufs.thy ===== *)
theory Emufs
  imports Emudisk
begin

unbundle bit_operations_syntax

text \<open>
  \<open>emufs.c\<close> of lab 11: a file system with one directory on an emulated disk, encrypted or not. Block 0 holds the
  superblock with the bitmap of the blocks (a character for each), block 1 the ten inodes, each with its name and up to four
  blocks. The structures are read and written in place in the buffers of the blocks, at the offsets they have there.
\<close>

section \<open>Superblock and metadata\<close>

definition MAX_FILES :: nat where "MAX_FILES = 10"

text \<open>\<open>struct inode_t\<close>: the offset of inode \<open>i\<close> in block 1 and the offsets of its fields.\<close>

definition ino :: "nat \<Rightarrow> nat" where "ino i = 48 * i"

definition I_STATUS :: nat where "I_STATUS = 0"
definition I_NAME :: nat where "I_NAME = 4"
definition I_SIZE :: nat where "I_SIZE = 16"
definition I_BLOCKS :: nat where "I_BLOCKS = 20"
definition I_MODTIME :: nat where "I_MODTIME = 40"

record file_t =
  e_off :: int
  e_inum :: nat
  e_mp :: nat

definition encrypt :: "mem \<Rightarrow> mem \<Rightarrow> mem" where
  "encrypt inp enc = (\<lambda>i. if i < BLOCKSIZE then NOT (inp i) else enc i)"

definition decrypt :: "mem \<Rightarrow> mem \<Rightarrow> mem" where
  "decrypt inp dec = (\<lambda>i. if i < BLOCKSIZE then NOT (inp i) else dec i)"

definition readSuperblock :: "mem \<Rightarrow> nat \<Rightarrow> emuk \<Rightarrow> mem \<times> emuk" where
  "readSuperblock junk mp k = (let (_, buf, k) = readblock (m_fd (mounts k ! mp)) 0 junk k in (buf, k))"

definition writeSuperblock :: "nat \<Rightarrow> mem \<Rightarrow> emuk \<Rightarrow> int \<times> emuk" where
  "writeSuperblock mp sb k = writeblock (m_fd (mounts k ! mp)) 0 sb k"

definition readMetadata :: "mem \<Rightarrow> nat \<Rightarrow> emuk \<Rightarrow> mem \<times> emuk" where
  "readMetadata junk mp k =
     (let (_, buf, k) = readblock (m_fd (mounts k ! mp)) 1 junk k
      in (if m_fs (mounts k ! mp) = 1 then decrypt buf junk else buf, k))"

definition writeMetadata :: "mem \<Rightarrow> nat \<Rightarrow> mem \<Rightarrow> emuk \<Rightarrow> int \<times> emuk" where
  "writeMetadata junk mp md k =
     (if m_fs (mounts k ! mp) = 1 then writeblock (m_fd (mounts k ! mp)) 1 (encrypt md junk) k
      else writeblock (m_fd (mounts k ! mp)) 1 md k)"

text \<open>\<open>bitmap\<close> of the superblock: 48, 49 and 120 are the characters 0, 1 and x.\<close>

fun clear_bitmap :: "nat \<Rightarrow> nat \<Rightarrow> mem \<Rightarrow> mem" where
  "clear_bitmap i 0 sb = sb"
| "clear_bitmap i (Suc n) sb = clear_bitmap (i + 1) n (sb(SB_BITMAP + i := 48))"

fun x_bitmap :: "nat \<Rightarrow> nat \<Rightarrow> mem \<Rightarrow> mem" where
  "x_bitmap j 0 sb = sb"
| "x_bitmap j (Suc n) sb = x_bitmap (j + 1) n (sb(SB_BITMAP + j := 120))"

fun clear_inodes :: "nat \<Rightarrow> nat \<Rightarrow> mem \<Rightarrow> mem" where
  "clear_inodes i 0 md = md"
| "clear_inodes i (Suc n) md = clear_inodes (i + 1) n (wr32 md (ino i + I_STATUS) 0)"

text \<open>The number of entries of \<open>bitmap\<close> the loops over \<open>disk_size\<close> visit; beyond the block it is undefined.\<close>

definition disk_blocks :: "mem \<Rightarrow> nat" where
  "disk_blocks sb = nat (s32 (rd32 sb SB_SIZE))"

definition disk_fits :: "mem \<Rightarrow> bool" where
  "disk_fits sb \<longleftrightarrow> SB_BITMAP + disk_blocks sb \<le> BLOCKSIZE"

definition create_file_system :: "mem \<Rightarrow> nat \<Rightarrow> int \<Rightarrow> emuk \<Rightarrow> (int \<times> emuk) option" where
  "create_file_system junk mp fs k =
     (let (sb, k) = readSuperblock junk mp k;
          sb = wr32 sb SB_FS (u32_of fs);
          k = k\<lparr>mounts := (mounts k)[mp := (mounts k ! mp)\<lparr>m_fs := fs\<rparr>]\<rparr>;
          sb = sb(SB_BITMAP := 49, SB_BITMAP + 1 := 49);
          i = max 2 (disk_blocks sb)
      in if \<not> disk_fits sb then None
         else let sb = clear_bitmap 2 (disk_blocks sb - 2) sb;
                  sb = x_bitmap i (MAX_BLOCKS - i) sb;
                  md = clear_inodes 0 MAX_FILES junk;
                  (r, k) = writeSuperblock mp sb k
              in if r = - 1 then Some (- 1, k)
                 else let (r, k) = writeMetadata junk mp md k
                      in Some (if r = - 1 then - 1 else 1, k))"

section \<open>Opening\<close>

definition i_status :: "mem \<Rightarrow> nat \<Rightarrow> nat" where
  "i_status md i = rd32 md (ino i + I_STATUS)"

text \<open>\<open>strcmp\<close> of the name of inode \<open>i\<close> and \<open>name\<close> is 0.\<close>

definition name_is :: "mem \<Rightarrow> nat \<Rightarrow> byte list \<Rightarrow> bool" where
  "name_is md i name \<longleftrightarrow> bytes_at md (ino i + I_NAME) (length name + 1) = name @ [0]"

fun clear_blocks :: "nat \<Rightarrow> nat \<Rightarrow> nat \<Rightarrow> mem \<Rightarrow> mem" where
  "clear_blocks i j 0 md = md"
| "clear_blocks i j (Suc n) md = clear_blocks i (j + 1) n (wr32 md (ino i + I_BLOCKS + 4 * j) (u32_of (- 1)))"

definition set_modtime :: "nat \<Rightarrow> nat \<Rightarrow> mem \<Rightarrow> mem" where
  "set_modtime t i md = wr32 (wr32 md (ino i + I_MODTIME) t) (ino i + I_MODTIME + 4) (t div u32_mod)"

definition new_inode :: "nat \<Rightarrow> nat \<Rightarrow> byte list \<Rightarrow> mem \<Rightarrow> mem option" where
  "new_inode t i name md =
     (let md = wr32 md (ino i + I_STATUS) 1;
          md = wr32 md (ino i + I_SIZE) 0;
          md = clear_blocks i 0 4 md;
          md = set_modtime t i md
      in if BLOCKSIZE < ino i + I_NAME + length name + 1 then None
         else Some (put_bytes (name @ [0]) md (ino i + I_NAME)))"

definition eopen :: "mem \<Rightarrow> nat \<Rightarrow> byte list \<Rightarrow> emuk \<Rightarrow> (file_t option \<times> emuk) option" where
  "eopen junk mp name k =
     (let (md, k) = readMetadata junk mp k;
          found = first_idx MAX_FILES (\<lambda>i. i_status md i = 1 \<and> name_is md i name);
          unused = first_idx MAX_FILES (\<lambda>i. i_status md i = 0)
      in Option.bind (case found of
             Some i \<Rightarrow> Some (Some i, md)
           | None \<Rightarrow> (case unused of
               Some i \<Rightarrow> map_option (\<lambda>md. (Some i, md)) (new_inode (clock k) i name md)
             | None \<Rightarrow> Some (None, md)))
         (\<lambda>(index, md). case index of
             None \<Rightarrow> Some (None, k)
           | Some i \<Rightarrow> let (r, k) = writeMetadata junk mp md k
                       in if r = - 1 then Some (None, k)
                          else Some (Some \<lparr>e_off = 0, e_inum = i, e_mp = mp\<rparr>, k)))"

definition eseek :: "file_t \<Rightarrow> int \<Rightarrow> int \<times> file_t" where
  "eseek f off = (1, f\<lparr>e_off := off\<rparr>)"

section \<open>Reading and writing\<close>

text \<open>Division of C, which truncates.\<close>

definition cdiv :: "int \<Rightarrow> int \<Rightarrow> int" where
  "cdiv a b = (if 0 \<le> a then a div b else - ((- a) div b))"

definition i_block :: "mem \<Rightarrow> nat \<Rightarrow> nat \<Rightarrow> int" where
  "i_block md i j = s32 (rd32 md (ino i + I_BLOCKS + 4 * j))"

definition free_blocks :: "mem \<Rightarrow> nat" where
  "free_blocks sb = length (filter (\<lambda>j. sb (SB_BITMAP + j) = 48) [2 ..< disk_blocks sb])"

text \<open>The allocation of block \<open>j\<close> of inode \<open>i\<close>, if it has none: the first free block of the disk.\<close>

definition alloc_block :: "nat \<Rightarrow> nat \<Rightarrow> mem \<times> mem \<Rightarrow> mem \<times> mem" where
  "alloc_block i j = (\<lambda>(sb, md).
     if i_block md i j = - 1
     then (case first_from 2 (disk_blocks sb - 2) (\<lambda>b. sb (SB_BITMAP + b) = 48) of
             None \<Rightarrow> (sb, md)
           | Some b \<Rightarrow> (sb(SB_BITMAP + b := 49), wr32 md (ino i + I_BLOCKS + 4 * j) b))
     else (sb, md))"

text \<open>The loop over the blocks to write, \<open>j\<close> being the block and \<open>d\<close> the offset in \<open>data\<close>; \<open>False\<close> when writing failed.\<close>

fun ewrite_loop :: "mem \<Rightarrow> nat \<Rightarrow> nat \<Rightarrow> mem \<Rightarrow> nat \<Rightarrow> nat \<Rightarrow> nat \<Rightarrow> mem \<times> mem \<Rightarrow> emuk \<Rightarrow> bool \<times> (mem \<times> mem) \<times> emuk" where
  "ewrite_loop junk mp i data d j 0 st k = (True, st, k)"
| "ewrite_loop junk mp i data d j (Suc n) st k =
     (let st = alloc_block i j st;
          src = (\<lambda>x. data (d + x));
          (r, k) = writeblock (m_fd (mounts k ! mp)) (i_block (snd st) i j)
                     (if m_fs (mounts k ! mp) = 1 then encrypt src junk else src) k
      in if r = - 1 then (False, st, k)
         else ewrite_loop junk mp i data (d + 512) (j + 1) n st k)"

definition ewrite :: "mem \<Rightarrow> file_t \<Rightarrow> mem \<Rightarrow> int \<Rightarrow> emuk \<Rightarrow> (int \<times> file_t \<times> emuk) option" where
  "ewrite junk f data sz k =
     (let mp = e_mp f; i = e_inum f;
          (sb, k) = readSuperblock junk mp k;
          (md, k) = readMetadata junk mp k;
          md = wr32 md (ino i + I_STATUS) 1
      in if e_off f + sz > 2147483647 \<or> e_off f + sz < - 2147483648 then None
         else if e_off f + sz > 4 * int BLOCKSIZE then Some (- 1, f, k)
         else
           let n = nat (cdiv sz (int BLOCKSIZE));
               start = cdiv (e_off f) (int BLOCKSIZE)
           in if (0 < n \<and> start < 0) \<or> \<not> disk_fits sb then None
              else let j = nat start;
                       required = length (filter (\<lambda>j. i_block md i j = - 1) [j ..< j + n])
                   in if required > free_blocks sb then Some (- 1, f, k)
                      else let (ok, (sb, md), k) = ewrite_loop junk mp i data 0 j n (sb, md) k
                           in if \<not> ok then Some (- 1, f, k)
                              else let md = wr32 md (ino i + I_SIZE) (u32_of (e_off f + sz));
                                       md = set_modtime (clock k) i md;
                                       f = snd (eseek f (e_off f + sz));
                                       (_, k) = writeMetadata junk mp md k;
                                       (_, k) = writeSuperblock mp sb k
                                   in Some (sz, f, k))"

fun eread_loop :: "nat \<Rightarrow> nat \<Rightarrow> mem \<Rightarrow> nat \<Rightarrow> nat \<Rightarrow> nat \<Rightarrow> mem \<Rightarrow> emuk \<Rightarrow> bool \<times> mem \<times> emuk" where
  "eread_loop mp i md d j 0 dec k = (True, dec, k)"
| "eread_loop mp i md d j (Suc n) dec k =
     (let (r, buf, k) = readblock (m_fd (mounts k ! mp)) (i_block md i j) (\<lambda>x. dec (d + x)) k;
          dec = blit buf 0 dec d BLOCKSIZE
      in if r = - 1 then (False, dec, k) else eread_loop mp i md (d + 512) (j + 1) n dec k)"

fun decrypt_loop :: "mem \<Rightarrow> nat \<Rightarrow> nat \<Rightarrow> mem \<Rightarrow> mem" where
  "decrypt_loop dec d 0 data = data"
| "decrypt_loop dec d (Suc n) data =
     decrypt_loop dec (d + 512) n (blit (decrypt (\<lambda>x. dec (d + x)) (\<lambda>x. data (d + x))) 0 data d BLOCKSIZE)"

text \<open>\<open>strcpy\<close> from an object of \<open>n\<close> bytes.\<close>

definition strcpy_obj :: "nat \<Rightarrow> mem \<Rightarrow> mem \<Rightarrow> mem option" where
  "strcpy_obj n src dst = map_option (\<lambda>z. blit src 0 dst 0 (z + 1)) (first_idx n (\<lambda>z. src z = 0))"

definition eread :: "mem \<Rightarrow> file_t \<Rightarrow> mem \<Rightarrow> int \<Rightarrow> emuk \<Rightarrow> (int \<times> mem \<times> file_t \<times> emuk) option" where
  "eread junk f data sz k =
     (let mp = e_mp f; i = e_inum f;
          (sb, k) = readSuperblock junk mp k;
          (md, k) = readMetadata junk mp k;
          start = cdiv (e_off f) (int BLOCKSIZE);
          cnt = cdiv sz (int BLOCKSIZE);
          n = nat cnt; j = nat start
      in if start + cnt > 4 then Some (- 1, data, f, k)
         else if 0 < n \<and> start < 0 then None
         else if \<exists>j \<in> set [j ..< j + n]. i_block md i j = - 1 then Some (- 1, data, f, k)
         else let (ok, dec, k) = eread_loop mp i md 0 j n junk k
              in if \<not> ok then Some (- 1, data, f, k)
                 else Option.bind (if m_fs (mounts k ! mp) = 1 then Some (decrypt_loop dec 0 n data)
                                   else strcpy_obj (nat sz) dec data)
                   (\<lambda>data. if e_off f + sz > 2147483647 \<or> e_off f + sz < - 2147483648 then None
                           else let f = snd (eseek f (e_off f + sz));
                                    (_, k) = writeMetadata junk mp md k;
                                    (_, k) = writeSuperblock mp sb k
                                in Some (sz, data, f, k)))"

end
