(* ===== verification/EmufsInv.thy ===== *)
theory EmufsInv
  imports Emufs
begin

text \<open>
  The blocks of an emulated device of lab 11, what a well-formed file system on it is, and the allocation of blocks.
\<close>

section \<open>The device\<close>

definition dev_image :: "emuk \<Rightarrow> nat \<Rightarrow> image option" where
  "dev_image k mp = Option.bind (fd_get (m_fd (mounts k ! mp)) k) (\<lambda>(name, pos). hfiles k name)"

text \<open>A mounted device of \<open>d\<close> blocks, and byte \<open>x\<close> of its block \<open>b\<close>.\<close>

definition emu_dev_ok :: "nat \<Rightarrow> nat \<Rightarrow> emuk \<Rightarrow> bool" where
  "emu_dev_ok d mp k \<longleftrightarrow> mp < length (mounts k) \<and> 0 < m_fd (mounts k ! mp) \<and> d \<le> MAX_BLOCKS
     \<and> (\<exists>im. dev_image k mp = Some im \<and> d * BLOCKSIZE \<le> im_len im)"

definition dev_blk :: "emuk \<Rightarrow> nat \<Rightarrow> nat \<Rightarrow> mem" where
  "dev_blk k mp b x = im_data (the (dev_image k mp)) (b * BLOCKSIZE + x)"

lemma fd_set_get: "fd_get fd k \<noteq> None \<Longrightarrow> fd_get fd' (fd_set fd v k) = (if fd' = fd then v else fd_get fd' k)"
  by (auto simp: fd_get_def fd_set_def nth_list_update nat_eq_iff2 split: if_splits)

lemma fd_set_sel [simp]:
  "hfiles (fd_set fd v k) = hfiles k" "mounts (fd_set fd v k) = mounts k" "clock (fd_set fd v k) = clock k"
  by (simp_all add: fd_set_def)

lemma fd_get_hfiles [simp]: "fd_get fd (k\<lparr>hfiles := h\<rparr>) = fd_get fd k" "fd_get fd (k\<lparr>mounts := m\<rparr>) = fd_get fd k"
  by (simp_all add: fd_get_def)

lemma blk_off_small: "b < MAX_BLOCKS \<Longrightarrow> blk_off (int b) = int (b * BLOCKSIZE)"
  unfolding blk_off_def by (subst s32_u32_of) (simp_all add: MAX_BLOCKS_def BLOCKSIZE_def)

text \<open>What one state of the host keeps of another: the mounts, the time and the files, not the positions in them.\<close>

definition same_disk :: "emuk \<Rightarrow> emuk \<Rightarrow> bool" where
  "same_disk k k' \<longleftrightarrow> mounts k' = mounts k \<and> clock k' = clock k \<and> dev_image k' = dev_image k"

lemma same_disk_dev: "same_disk k k' \<Longrightarrow> emu_dev_ok d mp k' = emu_dev_ok d mp k" "same_disk k k' \<Longrightarrow> dev_blk k' = dev_blk k"
  by (auto simp: same_disk_def emu_dev_ok_def dev_blk_def fun_eq_iff)

lemma fd_pos_same_disk:
  "fd_get fd k = Some (name, pos) \<Longrightarrow> same_disk k (fd_set fd (Some (name, pos')) k)"
  by (auto simp: same_disk_def dev_image_def fun_eq_iff fd_set_get)

lemma readblock_ok:
  assumes ok: "emu_dev_ok d mp k" and b: "b < d"
  shows "\<exists>k'. readblock (m_fd (mounts k ! mp)) (int b) buf k = (1, \<lambda>x. if x < BLOCKSIZE then dev_blk k mp b x else buf x, k')
    \<and> same_disk k k'"
proof -
  let ?fd = "m_fd (mounts k ! mp)"
  obtain name pos im where g: "fd_get ?fd k = Some (name, pos)" "hfiles k name = Some im" "d * BLOCKSIZE \<le> im_len im" "0 < ?fd" "b < MAX_BLOCKS"
    using ok b by (auto simp: emu_dev_ok_def dev_image_def split: Option.bind_splits)
  let ?k1 = "fd_set ?fd (Some (name, b * BLOCKSIZE)) k"
  have l: "h_lseek ?fd (blk_off (int b)) k = ?k1" by (simp add: h_lseek_def g(1) blk_off_small [OF g(5)] del: of_nat_mult)
  have g1: "fd_get ?fd ?k1 = Some (name, b * BLOCKSIZE)" by (simp add: fd_set_get g(1))
  have "(b + 1) * BLOCKSIZE \<le> d * BLOCKSIZE" using b by (intro mult_le_mono1) simp
  then have m: "min BLOCKSIZE (im_len im - b * BLOCKSIZE) = BLOCKSIZE" using g(3) by simp
  let ?k2 = "fd_set ?fd (Some (name, b * BLOCKSIZE + BLOCKSIZE)) ?k1"
  have "readblock ?fd (int b) buf k = (1, blit (im_data im) (b * BLOCKSIZE) buf 0 BLOCKSIZE, ?k2)"
    using g by (simp add: readblock_def l h_read_def g1 m Let_def)
  moreover have "blit (im_data im) (b * BLOCKSIZE) buf 0 BLOCKSIZE = (\<lambda>x. if x < BLOCKSIZE then dev_blk k mp b x else buf x)"
    using g(1,2) by (simp add: fun_eq_iff blit_def dev_blk_def dev_image_def)
  moreover have "same_disk k ?k2" using fd_pos_same_disk [OF g(1)] fd_pos_same_disk [OF g1] by (auto simp: same_disk_def)
  ultimately show ?thesis by (intro exI [of _ ?k2]) simp
qed

lemma writeblock_ok:
  assumes ok: "emu_dev_ok d mp k" and b: "b < d"
  shows "\<exists>k'. writeblock (m_fd (mounts k ! mp)) (int b) buf k = (1, k') \<and> emu_dev_ok d mp k' \<and> mounts k' = mounts k \<and> clock k' = clock k
    \<and> (\<forall>b' x. x < BLOCKSIZE \<longrightarrow> dev_blk k' mp b' x = (if b' = b then buf x else dev_blk k mp b' x))"
proof -
  let ?fd = "m_fd (mounts k ! mp)"
  obtain name pos im where g: "fd_get ?fd k = Some (name, pos)" "hfiles k name = Some im" "d * BLOCKSIZE \<le> im_len im" "0 < ?fd" "b < MAX_BLOCKS"
    using ok b by (auto simp: emu_dev_ok_def dev_image_def split: Option.bind_splits)
  let ?k1 = "fd_set ?fd (Some (name, b * BLOCKSIZE)) k"
  have l: "h_lseek ?fd (blk_off (int b)) k = ?k1" by (simp add: h_lseek_def g(1) blk_off_small [OF g(5)] del: of_nat_mult)
  have g1: "fd_get ?fd ?k1 = Some (name, b * BLOCKSIZE)" by (simp add: fd_set_get g(1))
  have le: "(b + 1) * BLOCKSIZE \<le> d * BLOCKSIZE" using b by (intro mult_le_mono1) simp
  let ?im = "im_write buf BLOCKSIZE (b * BLOCKSIZE) im"
  let ?k2 = "fd_set ?fd (Some (name, b * BLOCKSIZE + BLOCKSIZE)) (?k1\<lparr>hfiles := (hfiles k)(name \<mapsto> ?im)\<rparr>)"
  have run: "writeblock ?fd (int b) buf k = (1, ?k2)"
    using g by (simp add: writeblock_def l h_write_def g1 Let_def)
  have im: "dev_image ?k2 mp = Some ?im" using g1 by (simp add: dev_image_def fd_set_get g(1))
  have dt: "im_data ?im = blit buf 0 (im_data im) (b * BLOCKSIZE) BLOCKSIZE" "im_len ?im = im_len im"
    using le g(3) by (auto simp: im_write_def)
  have old: "dev_blk k mp b' x = im_data im (b' * BLOCKSIZE + x)" for b' x
    using g(1,2) by (simp add: dev_blk_def dev_image_def)
  have "dev_blk ?k2 mp b' x = (if b' = b then buf x else dev_blk k mp b' x)" if x: "x < BLOCKSIZE" for b' x
  proof (cases "b' = b")
    case True then show ?thesis using x by (simp add: dev_blk_def im dt)
  next
    case False
    then have "b' * BLOCKSIZE + x < b * BLOCKSIZE \<or> b * BLOCKSIZE + BLOCKSIZE \<le> b' * BLOCKSIZE + x"
      using x by (auto simp: BLOCKSIZE_def)
    then show ?thesis using False by (simp add: dev_blk_def [of ?k2] im dt old blit_def) linarith
  qed
  moreover have "emu_dev_ok d mp ?k2" using ok im dt(2) g(3) unfolding emu_dev_ok_def by auto
  ultimately show ?thesis using run by (intro exI [of _ ?k2]) simp
qed

section \<open>Superblock and metadata\<close>

text \<open>The contents of a data block or of the metadata, decrypted if the file system is encrypted.\<close>

definition plain :: "emuk \<Rightarrow> nat \<Rightarrow> nat \<Rightarrow> mem" where
  "plain k mp b x = (if m_fs (mounts k ! mp) = 1 then NOT (dev_blk k mp b x) else dev_blk k mp b x)"

definition agree :: "mem \<Rightarrow> mem \<Rightarrow> bool" where
  "agree m m' \<longleftrightarrow> (\<forall>x < BLOCKSIZE. m x = m' x)"

lemma agreeD: "agree m m' \<Longrightarrow> x < 512 \<Longrightarrow> m x = m' x"
  by (simp add: agree_def BLOCKSIZE_def)

lemma agree_refl [simp]: "agree m m"
  by (simp add: agree_def)

lemma agree_sym: "agree m m' \<Longrightarrow> agree m' m"
  by (simp add: agree_def)

lemma agree_trans: "agree m m' \<Longrightarrow> agree m' m'' \<Longrightarrow> agree m m''"
  by (simp add: agree_def)

lemma same_disk_plain: "same_disk k k' \<Longrightarrow> plain k' = plain k"
  by (simp add: same_disk_def plain_def dev_blk_def fun_eq_iff)

lemma same_disk_trans: "same_disk k k' \<Longrightarrow> same_disk k' k'' \<Longrightarrow> same_disk k k''"
  by (simp add: same_disk_def)

lemma readSuperblock_ok:
  assumes ok: "emu_dev_ok d mp k" and d: "2 \<le> d"
  shows "\<exists>sb k'. readSuperblock junk mp k = (sb, k') \<and> agree sb (dev_blk k mp 0) \<and> same_disk k k'"
  using readblock_ok [OF ok, of 0 junk] d by (auto simp: readSuperblock_def agree_def)

lemma readMetadata_ok:
  assumes ok: "emu_dev_ok d mp k" and d: "2 \<le> d"
  shows "\<exists>md k'. readMetadata junk mp k = (md, k') \<and> agree md (plain k mp 1) \<and> same_disk k k'"
proof -
  obtain k' where "readblock (m_fd (mounts k ! mp)) 1 junk k = (1, \<lambda>x. if x < BLOCKSIZE then dev_blk k mp 1 x else junk x, k')"
    "same_disk k k'" using readblock_ok [OF ok, of 1 junk] d by auto
  then show ?thesis by (auto simp: readMetadata_def agree_def plain_def decrypt_def same_disk_def)
qed

lemma encrypt_NOT: "agree (\<lambda>x. NOT (encrypt m junk x)) m"
  by (simp add: agree_def encrypt_def)

text \<open>Writing one block of the device: the blocks of a file and the metadata, and the superblock.\<close>

lemma write_plain_ok:
  assumes ok: "emu_dev_ok d mp k" and b: "b < d"
  shows "\<exists>k'. writeblock (m_fd (mounts k ! mp)) (int b) (if m_fs (mounts k ! mp) = 1 then encrypt src junk else src) k = (1, k')
    \<and> emu_dev_ok d mp k' \<and> mounts k' = mounts k \<and> clock k' = clock k \<and> agree (plain k' mp b) src
    \<and> (\<forall>b'. b' \<noteq> b \<longrightarrow> agree (dev_blk k' mp b') (dev_blk k mp b') \<and> agree (plain k' mp b') (plain k mp b'))"
proof -
  let ?src = "if m_fs (mounts k ! mp) = 1 then encrypt src junk else src"
  obtain k' where k': "writeblock (m_fd (mounts k ! mp)) (int b) ?src k = (1, k')" "emu_dev_ok d mp k'" "mounts k' = mounts k" "clock k' = clock k"
    "\<And>b' x. x < BLOCKSIZE \<Longrightarrow> dev_blk k' mp b' x = (if b' = b then ?src x else dev_blk k mp b' x)"
    using writeblock_ok [OF ok b] by blast
  then show ?thesis by (intro exI [of _ k']) (simp add: agree_def plain_def encrypt_def)
qed

lemma write_super_ok:
  assumes ok: "emu_dev_ok d mp k" and d: "0 < d"
  shows "\<exists>k'. writeSuperblock mp sb k = (1, k') \<and> emu_dev_ok d mp k' \<and> mounts k' = mounts k \<and> clock k' = clock k
    \<and> agree (dev_blk k' mp 0) sb \<and> (\<forall>b'. b' \<noteq> 0 \<longrightarrow> agree (plain k' mp b') (plain k mp b'))"
proof -
  obtain k' where k': "writeSuperblock mp sb k = (1, k')" "emu_dev_ok d mp k'" "mounts k' = mounts k" "clock k' = clock k"
    "\<And>b' x. x < BLOCKSIZE \<Longrightarrow> dev_blk k' mp b' x = (if b' = 0 then sb x else dev_blk k mp b' x)"
    using writeblock_ok [OF ok d, of sb] by (auto simp: writeSuperblock_def)
  then show ?thesis by (intro exI [of _ k']) (simp add: agree_def plain_def)
qed

section \<open>Files\<close>

text \<open>
  A well-formed file system: the blocks of its files are blocks of the disk behind the metadata, marked as in use, and no
  block belongs to two files or twice to one.
\<close>

definition i_used :: "mem \<Rightarrow> nat \<Rightarrow> bool" where
  "i_used md i \<longleftrightarrow> i < MAX_FILES \<and> i_status md i = 1"

definition i_has :: "mem \<Rightarrow> nat \<Rightarrow> nat \<Rightarrow> nat \<Rightarrow> bool" where
  "i_has md i j b \<longleftrightarrow> i_used md i \<and> j < 4 \<and> i_block md i j = int b"

definition fs_wf :: "nat \<Rightarrow> mem \<Rightarrow> mem \<Rightarrow> bool" where
  "fs_wf d sb md \<longleftrightarrow> 2 \<le> d \<and> d \<le> MAX_BLOCKS \<and> rd32 sb SB_SIZE = d
     \<and> (\<forall>i j. i_used md i \<and> j < 4 \<longrightarrow> i_block md i j = - 1 \<or> (\<exists>b. i_has md i j b \<and> 2 \<le> b \<and> b < d \<and> sb (SB_BITMAP + b) = 49))
     \<and> (\<forall>i j i' j' b. i_has md i j b \<and> i_has md i' j' b \<longrightarrow> i = i' \<and> j = j')"

definition emu_ok :: "emuk \<Rightarrow> nat \<Rightarrow> bool" where
  "emu_ok k mp \<longleftrightarrow> (\<exists>d. emu_dev_ok d mp k \<and> fs_wf d (dev_blk k mp 0) (plain k mp 1))"

text \<open>Block \<open>j\<close> of file \<open>i\<close>, if it has one.\<close>

definition md_block :: "mem \<Rightarrow> emuk \<Rightarrow> nat \<Rightarrow> nat \<Rightarrow> nat \<Rightarrow> byte list option" where
  "md_block md k mp i j =
     (if i_used md i \<and> j < 4 \<and> i_block md i j \<noteq> - 1 then Some (bytes_at (plain k mp (nat (i_block md i j))) 0 BLOCKSIZE) else None)"

definition fblock :: "emuk \<Rightarrow> nat \<Rightarrow> nat \<Rightarrow> nat \<Rightarrow> byte list option" where
  "fblock k mp = md_block (plain k mp 1) k mp"

text \<open>Only the bytes of the block count.\<close>

lemma ino_bound: "i < MAX_FILES \<Longrightarrow> ino i \<le> 432"
  by (simp add: ino_def MAX_FILES_def)

lemma agree_rd32: "agree m m' \<Longrightarrow> a + 4 \<le> 512 \<Longrightarrow> rd32 m a = rd32 m' a"
  by (rule rd32_cong) (auto intro: agreeD)

lemma agree_status: "agree md md' \<Longrightarrow> i < MAX_FILES \<Longrightarrow> i_status md i = i_status md' i"
  unfolding i_status_def by (rule agree_rd32) (use ino_bound [of i] in \<open>auto simp: I_STATUS_def\<close>)

lemma agree_used: "agree md md' \<Longrightarrow> i_used md i = i_used md' i"
  using agree_status by (auto simp: i_used_def)

lemma agree_block: "agree md md' \<Longrightarrow> i < MAX_FILES \<Longrightarrow> j < 4 \<Longrightarrow> i_block md i j = i_block md' i j"
  unfolding i_block_def by (subst agree_rd32 [of md md']) (use ino_bound [of i] in \<open>auto simp: I_BLOCKS_def\<close>)

lemma agree_has: "agree md md' \<Longrightarrow> i_has md i j b = i_has md' i j b"
  using agree_used agree_block by (auto simp: i_has_def i_used_def)

lemma agree_wf:
  assumes sb: "agree sb sb'" and md: "agree md md'" and wf: "fs_wf d sb md"
  shows "fs_wf d sb' md'"
proof -
  have "rd32 sb' SB_SIZE = rd32 sb SB_SIZE" by (rule agree_rd32 [OF agree_sym [OF sb]]) (simp add: SB_SIZE_def)
  moreover have "sb' (SB_BITMAP + b) = sb (SB_BITMAP + b)" if "b < d" for b
    using that wf by (intro agreeD [OF agree_sym [OF sb]]) (auto simp: fs_wf_def SB_BITMAP_def MAX_BLOCKS_def)
  moreover have "i_block md' i j = i_block md i j" if "i_used md' i" "j < 4" for i j
    using that agree_block [OF md] by (simp add: i_used_def)
  ultimately show ?thesis using wf unfolding fs_wf_def agree_used [OF md] agree_has [OF md] by metis
qed

lemma agree_md_block:
  assumes md: "agree md md'" and k: "\<And>b. 2 \<le> b \<Longrightarrow> agree (plain k' mp b) (plain k mp b)" and wf: "fs_wf d sb md"
  shows "md_block md' k' mp i j = md_block md k mp i j"
proof (cases "i_used md i \<and> j < 4 \<and> i_block md i j \<noteq> - 1")
  case True
  then obtain b where b: "i_block md i j = int b" "2 \<le> b" using wf unfolding fs_wf_def i_has_def by blast
  have "bytes_at (plain k' mp b) 0 BLOCKSIZE = bytes_at (plain k mp b) 0 BLOCKSIZE"
    using k [OF b(2)] by (intro bytes_at_cong) (simp add: agree_def)
  moreover have "i_used md' i" "i_block md' i j = i_block md i j"
    using True agree_used [OF md] agree_block [OF md, of i j] by (auto simp: i_used_def)
  ultimately show ?thesis using True b(1) by (simp add: md_block_def)
next
  case False
  then show ?thesis using agree_used [OF md] agree_block [OF md, of i j] by (auto simp: md_block_def i_used_def)
qed

text \<open>Stores into the metadata: a field of an inode changes no other.\<close>

lemma ino_apart: "i \<noteq> i' \<Longrightarrow> x < 48 \<Longrightarrow> y < 48 \<Longrightarrow> ino i + x \<noteq> ino i' + y"
  by (auto simp: ino_def)

lemma block_store:
  "j < 4 \<Longrightarrow> j' < 4 \<Longrightarrow> b < u32_mod \<Longrightarrow>
   i_block (wr32 md (ino i + I_BLOCKS + 4 * j) b) i' j' = (if i' = i \<and> j' = j then s32 b else i_block md i' j')"
  by (cases i i' rule: linorder_cases; cases j j' rule: linorder_cases)
    (simp_all add: i_block_def ino_def I_BLOCKS_def)

lemma status_store_block [simp]: "j < 4 \<Longrightarrow> i_status (wr32 md (ino i + I_BLOCKS + 4 * j) b) i' = i_status md i'"
  by (cases i i' rule: linorder_cases) (simp_all add: i_status_def ino_def I_BLOCKS_def I_STATUS_def)

lemma status_store_size [simp]: "i_status (wr32 md (ino i + I_SIZE) v) i' = i_status md i'"
  by (cases i i' rule: linorder_cases) (simp_all add: i_status_def ino_def I_SIZE_def I_STATUS_def)

lemma block_store_size [simp]: "j < 4 \<Longrightarrow> i_block (wr32 md (ino i + I_SIZE) v) i' j = i_block md i' j"
  by (cases i i' rule: linorder_cases) (simp_all add: i_block_def ino_def I_SIZE_def I_BLOCKS_def)

lemma status_store_modtime [simp]: "i_status (set_modtime t i md) i' = i_status md i'"
  by (cases i i' rule: linorder_cases) (simp_all add: i_status_def set_modtime_def ino_def I_MODTIME_def I_STATUS_def)

lemma block_store_modtime [simp]: "j < 4 \<Longrightarrow> i_block (set_modtime t i md) i' j = i_block md i' j"
  by (cases i i' rule: linorder_cases) (simp_all add: i_block_def set_modtime_def ino_def I_MODTIME_def I_BLOCKS_def)

lemma status_store [simp]: "v < u32_mod \<Longrightarrow> i_status (wr32 md (ino i + I_STATUS) v) i' = (if i' = i then v else i_status md i')"
  by (cases i i' rule: linorder_cases) (simp_all add: i_status_def ino_def I_STATUS_def)

lemma block_store_status [simp]: "j < 4 \<Longrightarrow> i_block (wr32 md (ino i + I_STATUS) v) i' j = i_block md i' j"
  by (cases i i' rule: linorder_cases) (simp_all add: i_block_def ino_def I_BLOCKS_def I_STATUS_def)

text \<open>Metadata with the same inodes, as far as blocks and use are concerned.\<close>

definition same_inodes :: "mem \<Rightarrow> mem \<Rightarrow> bool" where
  "same_inodes md md' \<longleftrightarrow> (\<forall>i. i_used md' i = i_used md i) \<and> (\<forall>i j. i_used md i \<and> j < 4 \<longrightarrow> i_block md' i j = i_block md i j)"

lemma same_inodes_has: "same_inodes md md' \<Longrightarrow> i_has md' i j b = i_has md i j b"
  by (auto simp: same_inodes_def i_has_def)

lemma same_inodes_wf:
  assumes s: "same_inodes md md'" and wf: "fs_wf d sb md" shows "fs_wf d sb md'"
proof -
  have "i_block md' i j = i_block md i j" if "i_used md i" "j < 4" for i j using s that by (simp add: same_inodes_def)
  moreover have "i_used md' i = i_used md i" for i using s by (simp add: same_inodes_def)
  ultimately show ?thesis using wf unfolding fs_wf_def same_inodes_has [OF s] by simp
qed

lemma same_inodes_block: "same_inodes md md' \<Longrightarrow> md_block md' k mp i j = md_block md k mp i j"
  by (auto simp: same_inodes_def md_block_def)

lemma same_inodes_agree: "agree md md' \<Longrightarrow> same_inodes md md'"
  using agree_used [of md md'] agree_block [of md md'] by (auto simp: same_inodes_def i_used_def)

lemma same_inodes_trans: "same_inodes a b \<Longrightarrow> same_inodes b c \<Longrightarrow> same_inodes a c"
  by (auto simp: same_inodes_def)

lemma same_inodes_status: "i_status md i = 1 \<Longrightarrow> same_inodes md (wr32 md (ino i + I_STATUS) 1)"
  by (auto simp: same_inodes_def i_used_def)

lemma same_inodes_end: "same_inodes md (set_modtime t i (wr32 md (ino i + I_SIZE) v))"
  by (auto simp: same_inodes_def i_used_def)

section \<open>Allocating\<close>

lemma free_blocks_eq: "free_blocks sb = card {b. 2 \<le> b \<and> b < disk_blocks sb \<and> sb (SB_BITMAP + b) = 48}"
proof -
  have "free_blocks sb = card (set (filter (\<lambda>j. sb (SB_BITMAP + j) = 48) [2 ..< disk_blocks sb]))"
    unfolding free_blocks_def by (intro distinct_card [symmetric]) simp
  also have "set (filter (\<lambda>j. sb (SB_BITMAP + j) = 48) [2 ..< disk_blocks sb])
      = {b. 2 \<le> b \<and> b < disk_blocks sb \<and> sb (SB_BITMAP + b) = 48}" by auto
  finally show ?thesis .
qed

lemma wf_disk_blocks: "fs_wf d sb md \<Longrightarrow> disk_blocks sb = d \<and> disk_fits sb"
  by (auto simp: fs_wf_def disk_blocks_def disk_fits_def s32_def MAX_BLOCKS_def SB_BITMAP_def BLOCKSIZE_def)

text \<open>The allocation: a free block becomes the block \<open>j\<close> of file \<open>i\<close>.\<close>

lemma alloc_block_ok:
  assumes wf: "fs_wf d sb md" and i: "i_used md i" "j < 4" and f: "i_block md i j = - 1 \<Longrightarrow> 0 < free_blocks sb"
  shows "\<exists>sb' md' b. alloc_block i j (sb, md) = (sb', md') \<and> fs_wf d sb' md' \<and> i_has md' i j b \<and> 2 \<le> b \<and> b < d
    \<and> (\<forall>i. i_used md' i = i_used md i) \<and> (\<forall>i' j'. (i', j') \<noteq> (i, j) \<and> j' < 4 \<longrightarrow> i_block md' i' j' = i_block md i' j')
    \<and> free_blocks sb' = free_blocks sb - (if i_block md i j = - 1 then 1 else 0)"
proof (cases "i_block md i j = - 1")
  case False
  then obtain b where "i_has md i j b" "2 \<le> b" "b < d" using wf i unfolding fs_wf_def by blast
  then show ?thesis using False wf by (intro exI [of _ sb] exI [of _ md] exI [of _ b]) (simp add: alloc_block_def)
next
  case True
  have d: "disk_blocks sb = d" "2 \<le> d" "d \<le> 42" using wf_disk_blocks [OF wf] wf by (auto simp: fs_wf_def MAX_BLOCKS_def)
  have "{b. 2 \<le> b \<and> b < d \<and> sb (SB_BITMAP + b) = 48} \<noteq> {}" using f [OF True] unfolding free_blocks_eq d(1) by (metis card.empty less_irrefl)
  then have "first_from 2 (d - 2) (\<lambda>b. sb (SB_BITMAP + b) = 48) \<noteq> None" unfolding first_from_None by auto
  then obtain b where b: "first_from 2 (d - 2) (\<lambda>b. sb (SB_BITMAP + b) = 48) = Some b" by blast
  then have b': "2 \<le> b" "b < d" "sb (SB_BITMAP + b) = 48" using d(2) by (auto simp: first_from_Some)
  let ?sb = "sb(SB_BITMAP + b := 49)" and ?md = "wr32 md (ino i + I_BLOCKS + 4 * j) b"
  have run: "alloc_block i j (sb, md) = (?sb, ?md)" using True b by (simp add: alloc_block_def d(1))
  have blk: "i_block ?md i' j' = (if i' = i \<and> j' = j then int b else i_block md i' j')" if "j' < 4" for i' j'
    using block_store [OF i(2) that] b'(2) d(3) by (simp add: s32_def)
  have used: "i_used ?md = i_used md" using i(2) by (simp add: fun_eq_iff i_used_def)
  have nb: "\<not> i_has md i' j' b" for i' j'
  proof
    assume h: "i_has md i' j' b"
    then have "i_used md i'" "j' < 4" "i_block md i' j' = int b" by (simp_all add: i_has_def)
    then have "\<exists>c. i_has md i' j' c \<and> sb (SB_BITMAP + c) = 49" using wf unfolding fs_wf_def by fastforce
    then have "sb (SB_BITMAP + b) = 49" using h by (auto simp: i_has_def)
    then show False using b'(3) by simp
  qed
  have has: "i_has ?md i' j' c \<longleftrightarrow> (if i' = i \<and> j' = j then c = b else i_has md i' j' c)" for i' j' c
    using i blk [of j' i'] by (auto simp: i_has_def used)
  have sz: "rd32 ?sb SB_SIZE = d" using wf by (simp add: fs_wf_def SB_SIZE_def SB_BITMAP_def rd32_def)
  have wf': "fs_wf d ?sb ?md"
    unfolding fs_wf_def
  proof (intro conjI allI impI)
    fix i' j' :: nat assume "i_used ?md i' \<and> j' < 4"
    then have u: "i_used md i'" "j' < 4" by (simp_all add: used)
    show "i_block ?md i' j' = - 1 \<or> (\<exists>c. i_has ?md i' j' c \<and> 2 \<le> c \<and> c < d \<and> ?sb (SB_BITMAP + c) = 49)"
    proof (cases "i' = i \<and> j' = j")
      case True
      then show ?thesis using has [of i' j' b] b' by (intro disjI2 exI [of _ b]) simp
    next
      case ne: False
      have "i_block md i' j' = - 1 \<or> (\<exists>c. i_has md i' j' c \<and> 2 \<le> c \<and> c < d \<and> sb (SB_BITMAP + c) = 49)"
        using wf u unfolding fs_wf_def by blast
      then show ?thesis
      proof (elim disjE exE)
        fix c assume c: "i_has md i' j' c \<and> 2 \<le> c \<and> c < d \<and> sb (SB_BITMAP + c) = 49"
        then have "c \<noteq> b" using nb by auto
        then show ?thesis using c ne has [of i' j' c] by (intro disjI2 exI [of _ c]) auto
      qed (use ne blk [OF u(2), of i'] in auto)
    qed
  next
    fix i1 j1 i2 j2 c assume h: "i_has ?md i1 j1 c \<and> i_has ?md i2 j2 c"
    have "(i1 = i \<and> j1 = j) = (i2 = i \<and> j2 = j)" using h nb unfolding has by (metis (full_types))
    moreover have "i1 = i2 \<and> j1 = j2" if "i_has md i1 j1 c" "i_has md i2 j2 c" using wf that unfolding fs_wf_def by blast
    ultimately show "i1 = i2" "j1 = j2" using h unfolding has by (auto split: if_splits)
  qed (use wf sz in \<open>auto simp: fs_wf_def\<close>)
  have "{c. 2 \<le> c \<and> c < disk_blocks ?sb \<and> ?sb (SB_BITMAP + c) = 48} = {c. 2 \<le> c \<and> c < d \<and> sb (SB_BITMAP + c) = 48} - {b}"
    using wf_disk_blocks [OF wf'] by auto
  then have "free_blocks ?sb = free_blocks sb - 1" using b' by (simp add: free_blocks_eq d(1))
  then show ?thesis using run wf' has b' used blk True
    by (intro exI [of _ ?sb] exI [of _ ?md] exI [of _ b]) auto
qed

end
