(* ===== verification/EmufsSpec.thy ===== *)
theory EmufsSpec
  imports EmufsInv
begin

text \<open>
  The emulated file system of lab 11 as files made of blocks: its operations keep it well-formed, and what they do to the
  contents of the files.
\<close>

section \<open>Writing\<close>

lemma upt_first: "[j ..< j + Suc n] = j # [j + 1 ..< j + 1 + n]"
  by (simp add: upt_conv_Cons del: upt_Suc)

lemma alloc_keeps_required:
  assumes "\<forall>i' j'. (i', j') \<noteq> (i, j) \<and> j' < 4 \<longrightarrow> i_block md' i' j' = i_block md i' j'" "j + Suc n \<le> 4"
  shows "length (filter (\<lambda>j. i_block md i j = - 1) [j ..< j + Suc n])
    = (if i_block md i j = - 1 then 1 else 0) + length (filter (\<lambda>j. i_block md' i j = - 1) [j + 1 ..< j + 1 + n])"
proof -
  have "filter (\<lambda>j. i_block md' i j = - 1) [j + 1 ..< j + 1 + n] = filter (\<lambda>j. i_block md i j = - 1) [j + 1 ..< j + 1 + n]"
    using assms by (intro filter_cong) auto
  then show ?thesis unfolding upt_first by simp
qed

text \<open>The loop of \<open>ewrite\<close>: block after block is allocated, if the file has none there, and gets its part of the data.\<close>

lemma ewrite_loop_ok:
  assumes "emu_dev_ok e mp k" "d \<le> e" "fs_wf d sb md" "i_used md i" "j + n \<le> 4"
    "length (filter (\<lambda>j. i_block md i j = - 1) [j ..< j + n]) \<le> free_blocks sb"
  shows "\<exists>sb' md' k'. ewrite_loop junk mp i data x j n (sb, md) k = (True, (sb', md'), k') \<and> emu_dev_ok e mp k' \<and> mounts k' = mounts k
    \<and> clock k' = clock k \<and> fs_wf d sb' md' \<and> (\<forall>i. i_used md' i = i_used md i)
    \<and> free_blocks sb' = free_blocks sb - length (filter (\<lambda>j. i_block md i j = - 1) [j ..< j + n])
    \<and> (\<forall>i' j'. md_block md' k' mp i' j' =
         (if i' = i \<and> j \<le> j' \<and> j' < j + n then Some (bytes_at data (x + 512 * (j' - j)) 512) else md_block md k mp i' j'))"
  using assms
proof (induction n arbitrary: x j sb md k)
  case 0
  then show ?case by auto
next
  case (Suc n)
  have "i_block md i j = - 1 \<Longrightarrow> 0 < free_blocks sb" using Suc.prems(6) unfolding upt_first by simp
  then obtain sb1 md1 b where a: "alloc_block i j (sb, md) = (sb1, md1)" "fs_wf d sb1 md1" "i_has md1 i j b" "2 \<le> b" "b < d"
    "\<And>i. i_used md1 i = i_used md i" "\<forall>i' j'. (i', j') \<noteq> (i, j) \<and> j' < 4 \<longrightarrow> i_block md1 i' j' = i_block md i' j'"
    "free_blocks sb1 = free_blocks sb - (if i_block md i j = - 1 then 1 else 0)"
    using alloc_block_ok [OF Suc.prems(3,4), of j] Suc.prems(5) by auto
  define src where "src = (\<lambda>y. data (x + y))"
  have ib: "i_block md1 i j = int b" using a(3) by (simp add: i_has_def)
  obtain k1 where w: "writeblock (m_fd (mounts k ! mp)) (int b) (if m_fs (mounts k ! mp) = 1 then encrypt src junk else src) k = (1, k1)"
    "emu_dev_ok e mp k1" "mounts k1 = mounts k" "clock k1 = clock k" "agree (plain k1 mp b) src"
    "\<And>c. c \<noteq> b \<Longrightarrow> agree (plain k1 mp c) (plain k mp c)"
    using write_plain_ok [OF Suc.prems(1), of b src junk] a(5) Suc.prems(2) by auto
  have need: "length (filter (\<lambda>j. i_block md1 i j = - 1) [j + 1 ..< j + 1 + n]) \<le> free_blocks sb1"
    using Suc.prems(6) alloc_keeps_required [OF a(7) Suc.prems(5)] a(8) by (auto split: if_splits)
  obtain sb' md' k' where r: "ewrite_loop junk mp i data (x + 512) (j + 1) n (sb1, md1) k1 = (True, (sb', md'), k')" "emu_dev_ok e mp k'"
    "mounts k' = mounts k1" "clock k' = clock k1" "fs_wf d sb' md'" "\<forall>i. i_used md' i = i_used md1 i"
    "free_blocks sb' = free_blocks sb1 - length (filter (\<lambda>j. i_block md1 i j = - 1) [j + 1 ..< j + 1 + n])"
    "\<And>i' j'. md_block md' k' mp i' j' = (if i' = i \<and> j + 1 \<le> j' \<and> j' < j + 1 + n
       then Some (bytes_at data (x + 512 + 512 * (j' - (j + 1))) 512) else md_block md1 k1 mp i' j')"
    using Suc.IH [OF w(2) Suc.prems(2) a(2), of "j + 1" "x + 512"] a(6) Suc.prems(4,5) need by auto
  have run: "ewrite_loop junk mp i data x j (Suc n) (sb, md) k = (True, (sb', md'), k')"
    unfolding ewrite_loop.simps a(1) Let_def snd_conv ib src_def [symmetric] w(1) using r(1) by simp
  have one: "md_block md1 k1 mp i' j' = (if i' = i \<and> j' = j then Some (bytes_at data x 512) else md_block md k mp i' j')" for i' j'
  proof (cases "i' = i \<and> j' = j")
    case True
    have "bytes_at (plain k1 mp b) 0 BLOCKSIZE = bytes_at data x 512"
      using w(5) by (intro nth_equalityI) (auto simp: agree_def src_def BLOCKSIZE_def)
    then show ?thesis using True a(3) ib by (auto simp: md_block_def i_has_def)
  next
    case False
    have "bytes_at (plain k1 mp c) 0 BLOCKSIZE = bytes_at (plain k mp c) 0 BLOCKSIZE" if "i_has md1 i' j' c" for c
    proof -
      have "c \<noteq> b" using that a(2,3) False unfolding fs_wf_def by blast
      then show ?thesis using w(6) by (intro bytes_at_cong) (simp add: agree_def)
    qed
    moreover have "\<exists>c. i_has md1 i' j' c" if "i_used md i'" "j' < 4" "i_block md1 i' j' \<noteq> - 1"
      using that a(2,6) unfolding fs_wf_def by blast
    moreover have "i_block md1 i' j' = i_block md i' j'" if "j' < 4" using a(7) False that by blast
    ultimately show ?thesis using False a(6) by (auto simp: md_block_def i_has_def)
  qed
  have free: "free_blocks sb' = free_blocks sb - length (filter (\<lambda>j. i_block md i j = - 1) [j ..< j + Suc n])"
    unfolding r(7) alloc_keeps_required [OF a(7) Suc.prems(5)] a(8) by (rule diff_diff_left)
  show ?case
  proof (intro exI conjI allI, rule run)
    fix i' j'
    show "md_block md' k' mp i' j' = (if i' = i \<and> j \<le> j' \<and> j' < j + Suc n
       then Some (bytes_at data (x + 512 * (j' - j)) 512) else md_block md k mp i' j')"
    proof (cases "i' = i \<and> j + 1 \<le> j' \<and> j' < j + 1 + n")
      case True
      then have e: "x + 512 + 512 * (j' - (j + 1)) = x + 512 * (j' - j)" by (simp add: Suc_diff_le algebra_simps)
      show ?thesis unfolding r(8) e using True by simp
    next
      case False
      then show ?thesis unfolding r(8) one by auto
    qed
  qed (use r w a(6) free in auto)
qed

lemma cdiv_int: "cdiv (int a) (int b) = int (a div b)"
  by (simp add: cdiv_def zdiv_int)

lemma same_disk_mounts: "same_disk k k' \<Longrightarrow> mounts k' = mounts k" "same_disk k k' \<Longrightarrow> clock k' = clock k"
  by (simp_all add: same_disk_def)

lemma metadata_written:
  assumes ok: "emu_dev_ok d mp k" and d: "1 < d"
  shows "\<exists>k'. writeMetadata junk mp md k = (1, k') \<and> emu_dev_ok d mp k' \<and> mounts k' = mounts k \<and> clock k' = clock k
    \<and> agree (plain k' mp 1) md \<and> (\<forall>b. b \<noteq> 1 \<longrightarrow> agree (dev_blk k' mp b) (dev_blk k mp b) \<and> agree (plain k' mp b) (plain k mp b))"
  using write_plain_ok [OF ok d, of md junk] by (auto simp: writeMetadata_def)

text \<open>The end of a call that has changed the metadata and the superblock.\<close>

lemma write_back_ok:
  assumes ok: "emu_dev_ok d mp k" and wf: "fs_wf d sb md"
  shows "\<exists>k1 k2. writeMetadata junk mp md k = (1, k1) \<and> writeSuperblock mp sb k1 = (1, k2) \<and> emu_ok k2 mp \<and> mounts k2 = mounts k
    \<and> clock k2 = clock k \<and> fblock k2 mp = md_block md k mp \<and> agree (plain k2 mp 1) md \<and> agree (dev_blk k2 mp 0) sb"
proof -
  have d: "2 \<le> d" using wf by (simp add: fs_wf_def)
  obtain k1 where k1: "writeMetadata junk mp md k = (1, k1)" "emu_dev_ok d mp k1" "mounts k1 = mounts k" "clock k1 = clock k"
    "agree (plain k1 mp 1) md" "\<And>b. b \<noteq> 1 \<Longrightarrow> agree (plain k1 mp b) (plain k mp b)"
    using metadata_written [OF ok, of junk md] d by auto
  obtain k2 where k2: "writeSuperblock mp sb k1 = (1, k2)" "emu_dev_ok d mp k2" "mounts k2 = mounts k1" "clock k2 = clock k1"
    "agree (dev_blk k2 mp 0) sb" "\<And>b. b \<noteq> 0 \<Longrightarrow> agree (plain k2 mp b) (plain k1 mp b)"
    using write_super_ok [OF k1(2), of sb] d by auto
  have md: "agree md (plain k2 mp 1)" using agree_sym [OF agree_trans [OF k2(6) k1(5)]] by simp
  have "fs_wf d (dev_blk k2 mp 0) (plain k2 mp 1)" by (rule agree_wf [OF agree_sym [OF k2(5)] md wf])
  then have "emu_ok k2 mp" using k2(2) by (auto simp: emu_ok_def)
  moreover have "fblock k2 mp i j = md_block md k mp i j" for i j
    unfolding fblock_def by (rule agree_md_block [OF md _ wf]) (use agree_trans [OF k2(6) k1(6)] in auto)
  ultimately show ?thesis using k1 k2 agree_sym [OF md] by (intro exI [of _ k1] exI [of _ k2]) (simp add: fun_eq_iff)
qed

text \<open>What a call finds on the disk.\<close>

lemma read_both_ok:
  assumes ok: "emu_ok k mp"
  shows "\<exists>d sb md k1 k2. readSuperblock junk mp k = (sb, k1) \<and> readMetadata junk mp k1 = (md, k2) \<and> same_disk k k2 \<and> emu_dev_ok d mp k2
    \<and> fs_wf d sb md \<and> agree sb (dev_blk k mp 0) \<and> agree md (plain k mp 1) \<and> md_block md k2 mp = fblock k mp"
proof -
  obtain d where d: "emu_dev_ok d mp k" "fs_wf d (dev_blk k mp 0) (plain k mp 1)" using ok by (auto simp: emu_ok_def)
  have d2: "2 \<le> d" using d(2) by (simp add: fs_wf_def)
  obtain sb k1 where r1: "readSuperblock junk mp k = (sb, k1)" "agree sb (dev_blk k mp 0)" "same_disk k k1"
    using readSuperblock_ok [OF d(1) d2] by blast
  have ok1: "emu_dev_ok d mp k1" using d(1) r1(3) by (simp add: same_disk_dev)
  obtain md k2 where r2: "readMetadata junk mp k1 = (md, k2)" "agree md (plain k1 mp 1)" "same_disk k1 k2"
    using readMetadata_ok [OF ok1 d2] by blast
  have md: "agree md (plain k mp 1)" using r2(2) r1(3) by (simp add: same_disk_plain)
  have s: "same_disk k k2" by (rule same_disk_trans [OF r1(3) r2(3)])
  have wf: "fs_wf d sb md" by (rule agree_wf [OF agree_sym [OF r1(2)] agree_sym [OF md] d(2)])
  have "md_block md k2 mp i j = fblock k mp i j" for i j
    unfolding fblock_def by (rule agree_md_block [OF agree_sym [OF md] _ d(2)]) (simp add: same_disk_plain [OF s] agree_def)
  then show ?thesis using r1 r2 md s wf same_disk_dev(1) [OF s] d(1) by (intro exI [of _ d] exI) (auto simp: fun_eq_iff)
qed

lemma same_disk_emu: "same_disk k k' \<Longrightarrow> emu_ok k' mp = emu_ok k mp \<and> fblock k' mp = fblock k mp"
  by (auto simp: emu_ok_def same_disk_dev same_disk_plain fblock_def md_block_def fun_eq_iff)

text \<open>The number of blocks from \<open>j\<close> on that file \<open>i\<close> lacks, and the number of free blocks.\<close>

definition lacks :: "emuk \<Rightarrow> nat \<Rightarrow> nat \<Rightarrow> nat \<Rightarrow> nat \<Rightarrow> nat" where
  "lacks k mp i j n = length (filter (\<lambda>j. fblock k mp i j = None) [j ..< j + n])"

definition free_count :: "emuk \<Rightarrow> nat \<Rightarrow> nat" where
  "free_count k mp = free_blocks (dev_blk k mp 0)"

definition used_file :: "emuk \<Rightarrow> nat \<Rightarrow> nat \<Rightarrow> bool" where
  "used_file k mp i \<longleftrightarrow> i_used (plain k mp 1) i"

lemma same_disk_free: "same_disk k k' \<Longrightarrow> free_count k' mp = free_count k mp"
  by (simp add: free_count_def same_disk_dev)

lemma agree_free_blocks:
  assumes "agree sb sb'" "fs_wf d sb md" "fs_wf d sb' md'" shows "free_blocks sb = free_blocks sb'"
proof -
  have "sb (SB_BITMAP + b) = sb' (SB_BITMAP + b)" if "b < d" for b
    using that assms(2) by (intro agreeD [OF assms(1)]) (auto simp: fs_wf_def SB_BITMAP_def MAX_BLOCKS_def)
  then show ?thesis unfolding free_blocks_eq using wf_disk_blocks [OF assms(2)] wf_disk_blocks [OF assms(3)]
    by (intro arg_cong [of _ _ card]) auto
qed

lemma agree_wf_free:
  assumes "agree sb sb'" "fs_wf d sb md" shows "free_blocks sb = free_blocks sb'"
  by (rule agree_free_blocks [OF assms agree_wf [OF assms(1) agree_refl assms(2)]])

lemma agree_required:
  assumes "i_used md i" "j + n \<le> 4" "md_block md k2 mp = fblock k mp"
  shows "length (filter (\<lambda>j. i_block md i j = - 1) [j ..< j + n]) = lacks k mp i j n"
  unfolding lacks_def assms(3) [symmetric] using assms(1,2)
  by (intro arg_cong [of _ _ length] filter_cong) (auto simp: md_block_def)

lemma ewrite_start:
  assumes ok: "emu_ok k mp" and u: "used_file k mp i" and jn: "j + n \<le> 4"
  shows "\<exists>d sb md k1 k2. readSuperblock junk mp k = (sb, k1) \<and> readMetadata junk mp k1 = (md, k2) \<and> same_disk k k2 \<and> emu_dev_ok d mp k2
    \<and> fs_wf d sb (wr32 md (ino i + I_STATUS) 1) \<and> md_block (wr32 md (ino i + I_STATUS) 1) k2 mp = fblock k mp \<and> disk_fits sb
    \<and> free_blocks sb = free_count k mp \<and> (\<forall>i'. i_used (wr32 md (ino i + I_STATUS) 1) i' = used_file k mp i')
    \<and> length (filter (\<lambda>j. i_block (wr32 md (ino i + I_STATUS) 1) i j = - 1) [j ..< j + n]) = lacks k mp i j n"
proof -
  obtain d sb md k1 k2 where r: "readSuperblock junk mp k = (sb, k1)" "readMetadata junk mp k1 = (md, k2)" "same_disk k k2" "emu_dev_ok d mp k2"
    "fs_wf d sb md" "agree sb (dev_blk k mp 0)" "agree md (plain k mp 1)" "md_block md k2 mp = fblock k mp"
    using read_both_ok [OF ok] by blast
  let ?md = "wr32 md (ino i + I_STATUS) 1"
  have us: "i_used md i' = used_file k mp i'" for i' using agree_used [OF r(7)] by (simp add: used_file_def)
  have s: "same_inodes md ?md" by (rule same_inodes_status) (use us [of i] u in \<open>simp add: i_used_def\<close>)
  have wf: "fs_wf d sb ?md" by (rule same_inodes_wf [OF s r(5)])
  have b: "md_block ?md k2 mp = fblock k mp" using same_inodes_block [OF s] r(8) by (simp add: fun_eq_iff)
  have us': "i_used ?md i' = used_file k mp i'" for i' using s us by (simp add: same_inodes_def)
  obtain d' where d': "fs_wf d' (dev_blk k mp 0) (plain k mp 1)" using ok by (auto simp: emu_ok_def)
  have "d' = d" using d' r(5) agree_rd32 [OF r(6), of SB_SIZE] by (simp add: fs_wf_def SB_SIZE_def)
  then have "free_blocks sb = free_count k mp" using agree_free_blocks [OF r(6) r(5)] d' by (simp add: free_count_def)
  then show ?thesis using r wf b us' wf_disk_blocks [OF wf] agree_required [of ?md i j n k2 mp k] jn u
    by (intro exI [of _ d] exI [of _ sb] exI [of _ md] exI [of _ k1] exI [of _ k2]) simp
qed

lemma ewrite_ok:
  assumes ok: "emu_ok k mp" and f: "e_mp f = mp" "e_inum f = i" "e_off f = int off" and u: "used_file k mp i"
    and fit: "off + sz \<le> 2048" and j: "j = off div 512" "n = sz div 512" and room: "lacks k mp i j n \<le> free_count k mp"
  shows "\<exists>k'. ewrite junk f data (int sz) k = Some (int sz, f\<lparr>e_off := int (off + sz)\<rparr>, k') \<and> emu_ok k' mp \<and> mounts k' = mounts k
    \<and> (\<forall>i' j'. fblock k' mp i' j' = (if i' = i \<and> j \<le> j' \<and> j' < j + n then Some (bytes_at data (512 * (j' - j)) 512) else fblock k mp i' j'))
    \<and> (\<forall>i. used_file k' mp i = used_file k mp i) \<and> rd32 (plain k' mp 1) (ino i + I_SIZE) = off + sz
    \<and> free_count k' mp = free_count k mp - lacks k mp i j n"
proof -
  have jn: "j + n \<le> 4" using fit unfolding j by linarith
  obtain d sb md k1 k2 where r: "readSuperblock junk mp k = (sb, k1)" "readMetadata junk mp k1 = (md, k2)" "same_disk k k2" "emu_dev_ok d mp k2"
    "fs_wf d sb (wr32 md (ino i + I_STATUS) 1)" "md_block (wr32 md (ino i + I_STATUS) 1) k2 mp = fblock k mp" "disk_fits sb"
    "free_blocks sb = free_count k mp" "\<And>i'. i_used (wr32 md (ino i + I_STATUS) 1) i' = used_file k mp i'"
    "length (filter (\<lambda>j. i_block (wr32 md (ino i + I_STATUS) 1) i j = - 1) [j ..< j + n]) = lacks k mp i j n"
    using ewrite_start [OF ok u jn] by blast
  obtain sb3 md3 k3 where l: "ewrite_loop junk mp i data 0 j n (sb, wr32 md (ino i + I_STATUS) 1) k2 = (True, (sb3, md3), k3)" "emu_dev_ok d mp k3"
    "mounts k3 = mounts k2" "fs_wf d sb3 md3" "\<forall>i'. i_used md3 i' = used_file k mp i'"
    "free_blocks sb3 = free_count k mp - lacks k mp i j n"
    "\<forall>i' j'. md_block md3 k3 mp i' j' = (if i' = i \<and> j \<le> j' \<and> j' < j + n then Some (bytes_at data (0 + 512 * (j' - j)) 512) else fblock k mp i' j')"
    using ewrite_loop_ok [OF r(4) order.refl r(5) _ jn, of i junk data 0] r(6,8-10) u room by auto
  define md4 where "md4 = set_modtime (clock k3) i (wr32 md3 (ino i + I_SIZE) (u32_of (int off + int sz)))"
  have s: "same_inodes md3 md4" unfolding md4_def by (rule same_inodes_end)
  obtain k4 k5 where w: "writeMetadata junk mp md4 k3 = (1, k4)" "writeSuperblock mp sb3 k4 = (1, k5)" "emu_ok k5 mp" "mounts k5 = mounts k3"
    "fblock k5 mp = md_block md4 k3 mp" "agree (plain k5 mp 1) md4" "agree (dev_blk k5 mp 0) sb3"
    using write_back_ok [OF l(2) same_inodes_wf [OF s l(4)]] by blast
  have free: "free_count k5 mp = free_blocks sb3"
    unfolding free_count_def by (rule agree_wf_free [OF agree_sym [OF w(7)] same_inodes_wf [OF s l(4)], symmetric])
  have big: "\<not> (int off + int sz > 2147483647 \<or> int off + int sz < - 2147483648)" "\<not> int off + int sz > 4 * int BLOCKSIZE"
    "nat (cdiv (int sz) (int BLOCKSIZE)) = n" "cdiv (int off) (int BLOCKSIZE) = int j" "\<not> int j < 0"
    using fit cdiv_int [of sz 512] cdiv_int [of off 512] by (simp_all add: j BLOCKSIZE_def)
  have run: "ewrite junk f data (int sz) k = Some (int sz, f\<lparr>e_off := int (off + sz)\<rparr>, k5)"
    unfolding ewrite_def f r(1,2) Let_def prod.case big(3,4)
    using r(7,8,10) room l(1) w(1,2) big(1,2) by (simp add: eseek_def md4_def)
  have "rd32 (plain k5 mp 1) (ino i + I_SIZE) = rd32 md4 (ino i + I_SIZE)"
    using ino_bound [of i] u by (intro agree_rd32 [OF w(6)]) (auto simp: used_file_def i_used_def I_SIZE_def)
  also have "\<dots> = off + sz" using fit by (simp add: md4_def set_modtime_def I_SIZE_def I_MODTIME_def flip: of_nat_add)
  finally have "rd32 (plain k5 mp 1) (ino i + I_SIZE) = off + sz" .
  moreover have "used_file k5 mp i' = used_file k mp i'" for i'
    using agree_used [OF w(6)] s l(5) by (simp add: used_file_def same_inodes_def)
  ultimately show ?thesis using run w(3-5) l(3,6,7) r(3) same_inodes_block [OF s] free
    by (intro exI [of _ k5]) (simp add: same_disk_mounts)
qed

text \<open>When the disk has too few free blocks, or the file would get too long, nothing changes.\<close>

lemma ewrite_full:
  assumes ok: "emu_ok k mp" and f: "e_mp f = mp" "e_inum f = i" "e_off f = int off" and u: "used_file k mp i"
    and fit: "off + sz \<le> 2048" and j: "j = off div 512" "n = sz div 512" and room: "free_count k mp < lacks k mp i j n"
  shows "\<exists>k'. ewrite junk f data (int sz) k = Some (- 1, f, k') \<and> same_disk k k'"
proof -
  have jn: "j + n \<le> 4" using fit unfolding j by linarith
  obtain d sb md k1 k2 where r: "readSuperblock junk mp k = (sb, k1)" "readMetadata junk mp k1 = (md, k2)" "same_disk k k2"
    "disk_fits sb" "free_blocks sb = free_count k mp"
    "length (filter (\<lambda>j. i_block (wr32 md (ino i + I_STATUS) 1) i j = - 1) [j ..< j + n]) = lacks k mp i j n"
    using ewrite_start [OF ok u jn] by blast
  have big: "nat (cdiv (int sz) (int BLOCKSIZE)) = n" "cdiv (int off) (int BLOCKSIZE) = int j"
      "\<not> (int off + int sz > 2147483647 \<or> int off + int sz < - 2147483648)" "\<not> int off + int sz > 4 * int BLOCKSIZE"
    using fit cdiv_int [of sz 512] cdiv_int [of off 512] by (simp_all add: j BLOCKSIZE_def)
  have "ewrite junk f data (int sz) k = Some (- 1, f, k2)"
    unfolding ewrite_def f r(1,2) Let_def prod.case big(1,2) using r(4-6) room big(3,4) by simp
  then show ?thesis using r(3) by blast
qed

lemma ewrite_big:
  assumes ok: "emu_ok k mp" and f: "e_mp f = mp" "e_inum f = i" "e_off f = int off" and big: "2048 < off + sz" "off + sz < 2147483648"
  shows "\<exists>k'. ewrite junk f data (int sz) k = Some (- 1, f, k') \<and> same_disk k k'"
proof -
  obtain sb md k1 k2 where r: "readSuperblock junk mp k = (sb, k1)" "readMetadata junk mp k1 = (md, k2)" "same_disk k k2"
    using read_both_ok [OF ok] by blast
  have "ewrite junk f data (int sz) k = Some (- 1, f, k2)"
    unfolding ewrite_def f r(1,2) Let_def prod.case using big by (simp add: BLOCKSIZE_def)
  then show ?thesis using r(3) by blast
qed

section \<open>Reading\<close>

text \<open>Bytes from block \<open>j\<close> of file \<open>i\<close> on, \<open>n\<close> blocks.\<close>

definition fbytes :: "emuk \<Rightarrow> nat \<Rightarrow> nat \<Rightarrow> nat \<Rightarrow> nat \<Rightarrow> byte list" where
  "fbytes k mp i j n = concat (map (\<lambda>j. the (fblock k mp i j)) [j ..< j + n])"

lemma put_bytes_append: "put_bytes ys (put_bytes xs m a) (a + length xs) = put_bytes (xs @ ys) m a"
  by (auto simp: put_bytes_def fun_eq_iff nth_append)

lemma put_bytes_Nil [simp]: "put_bytes [] m a = m"
  by (auto simp: put_bytes_def fun_eq_iff)

lemma blit_put_bytes: "blit buf 0 m d n = put_bytes (bytes_at buf 0 n) m d"
  by (auto simp: put_bytes_def fun_eq_iff blit_def)

lemma bytes_at_put [simp]: "n = length bs \<Longrightarrow> bytes_at (put_bytes bs m a) a n = bs"
  by simp

lemma eread_loop_ok:
  assumes "emu_dev_ok e mp k" "\<And>j'. j \<le> j' \<Longrightarrow> j' < j + n \<Longrightarrow> \<exists>b < e. i_block md i j' = int b"
  shows "\<exists>k'. eread_loop mp i md d j n dec k = (True, put_bytes (concat (map (\<lambda>j. bytes_at (dev_blk k mp (nat (i_block md i j))) 0 512)
    [j ..< j + n])) dec d, k') \<and> same_disk k k'"
  using assms
proof (induction n arbitrary: d j dec k)
  case 0
  then show ?case by (auto simp: same_disk_def)
next
  case (Suc n)
  obtain b where b: "b < e" "i_block md i j = int b" using Suc.prems(2) [of j] by auto
  define buf where "buf = (\<lambda>x. if x < BLOCKSIZE then dev_blk k mp b x else dec (d + x))"
  obtain k1 where k1: "readblock (m_fd (mounts k ! mp)) (int b) (\<lambda>x. dec (d + x)) k = (1, buf, k1)" "same_disk k k1"
    using readblock_ok [OF Suc.prems(1) b(1)] unfolding buf_def by blast
  have db: "emu_dev_ok e mp k1" "dev_blk k1 = dev_blk k" using Suc.prems(1) same_disk_dev [OF k1(2)] by auto
  let ?C = "\<lambda>j. bytes_at (dev_blk k mp (nat (i_block md i j))) 0 512"
  have bb: "bytes_at buf 0 BLOCKSIZE = ?C j" using b(2) by (auto simp: buf_def BLOCKSIZE_def intro!: bytes_at_cong)
  have "\<exists>k'. eread_loop mp i md (d + 512) (j + 1) n (put_bytes (?C j) dec d) k1
      = (True, put_bytes (concat (map ?C [j + 1 ..< j + 1 + n])) (put_bytes (?C j) dec d) (d + 512), k') \<and> same_disk k1 k'"
    using Suc.IH [OF db(1), of "j + 1"] Suc.prems(2) unfolding db(2) by auto
  moreover have "put_bytes (concat (map ?C [j + 1 ..< j + 1 + n])) (put_bytes (?C j) dec d) (d + 512)
      = put_bytes (concat (map ?C [j ..< j + Suc n])) dec d"
    unfolding upt_first by (simp del: upt_Suc flip: put_bytes_append)
  ultimately show ?case
    unfolding eread_loop.simps b(2) k1(1) Let_def prod.case blit_put_bytes bb using same_disk_trans [OF k1(2)] by auto
qed

lemma decrypt_loop_eq: "decrypt_loop dec d n data = put_bytes (map (\<lambda>x. NOT x) (bytes_at dec d (512 * n))) data d"
proof (induction n arbitrary: d data)
  case 0
  then show ?case by (simp add: bytes_at_def)
next
  case (Suc n)
  have "bytes_at (decrypt (\<lambda>x. dec (d + x)) (\<lambda>x. data (d + x))) 0 BLOCKSIZE = map (\<lambda>x. NOT x) (bytes_at dec d 512)"
    by (intro nth_equalityI) (auto simp: decrypt_def BLOCKSIZE_def)
  moreover have "bytes_at dec d (512 * Suc n) = bytes_at dec d 512 @ bytes_at dec (d + 512) (512 * n)"
    by (simp flip: bytes_at_append)
  ultimately show ?case by (simp add: Suc blit_put_bytes flip: put_bytes_append)
qed

lemma plain_bytes:
  "bytes_at (plain k mp b) 0 512 = (if m_fs (mounts k ! mp) = 1 then map (\<lambda>x. NOT x) (bytes_at (dev_blk k mp b) 0 512) else bytes_at (dev_blk k mp b) 0 512)"
  by (auto intro!: nth_equalityI simp: plain_def)

lemma length_fbytes:
  assumes "\<And>t. t < n \<Longrightarrow> fblock k mp i (j + t) \<noteq> None" shows "length (fbytes k mp i j n) = 512 * n"
proof -
  have "length (the (fblock k mp i j')) = 512" if "j \<le> j'" "j' < j + n" for j'
  proof -
    have "fblock k mp i j' \<noteq> None" using assms [of "j' - j"] that by simp
    then show ?thesis by (auto simp: fblock_def md_block_def BLOCKSIZE_def split: if_splits)
  qed
  then have "map length (map (\<lambda>j. the (fblock k mp i j)) [j ..< j + n]) = map (\<lambda>_. 512) [j ..< j + n]" by simp
  then show ?thesis unfolding fbytes_def length_concat by (simp only: sum_list_triv map_replicate_const) (simp add: sum_list_replicate)
qed

lemma strcpy_obj_list:
  "strcpy_obj (length c) (put_bytes c junk 0) dst
    = (if 0 \<in> set c then Some (put_bytes (takeWhile (\<lambda>b. b \<noteq> 0) c @ [0]) dst 0) else None)"
proof (cases "0 \<in> set c")
  case True
  let ?z = "length (takeWhile (\<lambda>b. b \<noteq> 0) c)"
  have z: "?z < length c" "c ! ?z = 0" using True by (induction c) auto
  have "c ! l \<noteq> 0" if "l < ?z" for l
    using set_takeWhileD [OF nth_mem [OF that]] takeWhile_nth [OF that] by simp
  then have "first_idx (length c) (\<lambda>z. put_bytes c junk 0 z = 0) = Some ?z" using z by (simp add: first_idx_Some put_bytes_def)
  moreover have "bytes_at (put_bytes c junk 0) 0 (?z + 1) = takeWhile (\<lambda>b. b \<noteq> 0) c @ [0]"
    using z by (intro nth_equalityI) (auto simp: put_bytes_def nth_append takeWhile_nth less_Suc_eq)
  ultimately show ?thesis using True by (simp add: strcpy_obj_def blit_put_bytes del: bytes_at_def)
next
  case False
  then have "first_idx (length c) (\<lambda>z. put_bytes c junk 0 z = 0) = None" by (auto simp: first_idx_None put_bytes_def in_set_conv_nth)
  then show ?thesis using False by (simp add: strcpy_obj_def)
qed

lemma concat_bytes_at: "concat (map (\<lambda>t. bytes_at m (512 * t) 512) [0 ..< n]) = bytes_at m 0 (512 * n)"
proof (induction n)
  case (Suc n)
  have "bytes_at m 0 (512 * Suc n) = bytes_at m 0 (512 * n) @ bytes_at m (0 + 512 * n) 512" using bytes_at_append [of m 0 "512 * n" 512] by (simp add: add.commute)
  then show ?case using Suc by simp
qed (simp add: bytes_at_def)

lemma upt_add_map: "[j ..< j + n] = map (\<lambda>t. j + t) [0 ..< n]"
  by (induction n) auto

text \<open>Reading, up to the copy into the buffer of the caller.\<close>

lemma eread_ok:
  assumes ok: "emu_ok k mp" and f: "e_mp f = mp" "e_inum f = i" "e_off f = int off"
    and fit: "j + n \<le> 4" "off + sz < 2147483648" and j: "j = off div 512" "n = sz div 512"
    and all: "\<And>t. t < n \<Longrightarrow> fblock k mp i (j + t) \<noteq> None"
  shows "\<exists>k'. eread junk f data (int sz) k =
      map_option (\<lambda>data. (int sz, data, f\<lparr>e_off := int (off + sz)\<rparr>, k'))
        (if m_fs (mounts k ! mp) = 1 then Some (put_bytes (fbytes k mp i j n) data 0)
         else strcpy_obj sz (put_bytes (fbytes k mp i j n) junk 0) data)
    \<and> emu_ok k' mp \<and> mounts k' = mounts k \<and> fblock k' mp = fblock k mp \<and> (\<forall>i. used_file k' mp i = used_file k mp i)"
proof -
  obtain d sb md k1 k2 where r: "readSuperblock junk mp k = (sb, k1)" "readMetadata junk mp k1 = (md, k2)" "same_disk k k2" "emu_dev_ok d mp k2"
    "fs_wf d sb md" "agree md (plain k mp 1)" "md_block md k2 mp = fblock k mp" using read_both_ok [OF ok] by blast
  have blk: "\<exists>b < d. i_block md i j' = int b \<and> the (fblock k mp i j') = bytes_at (plain k2 mp b) 0 512" if "j \<le> j'" "j' < j + n" for j'
  proof -
    have "md_block md k2 mp i j' \<noteq> None" using all [of "j' - j"] that r(7) by simp
    then have u: "i_used md i" "j' < 4" "i_block md i j' \<noteq> - 1" by (auto simp: md_block_def split: if_splits)
    then obtain b where "i_has md i j' b" "b < d" using r(5) unfolding fs_wf_def by blast
    then show ?thesis using u unfolding r(7) [symmetric] by (auto simp: md_block_def i_has_def BLOCKSIZE_def)
  qed
  let ?D = "\<lambda>j. bytes_at (dev_blk k2 mp (nat (i_block md i j))) 0 512"
  let ?C = "concat (map ?D [j ..< j + n])"
  obtain k3 where l: "eread_loop mp i md 0 j n junk k2 = (True, put_bytes ?C junk 0, k3)" "same_disk k2 k3"
    using eread_loop_ok [OF r(4), of j n md i] blk by blast
  have m: "m_fs (mounts k3 ! mp) = m_fs (mounts k ! mp)" "m_fs (mounts k2 ! mp) = m_fs (mounts k ! mp)"
    using r(3) l(2) by (simp_all add: same_disk_def)
  have C1: "the (fblock k mp i j') = (if m_fs (mounts k ! mp) = 1 then map (\<lambda>x. NOT x) (?D j') else ?D j')"
    if "j' \<in> set [j ..< j + n]" for j'
    using blk [of j'] that plain_bytes [of k2 mp] m(2) by auto
  have "map (\<lambda>j. the (fblock k mp i j)) [j ..< j + n]
      = map (\<lambda>j. if m_fs (mounts k ! mp) = 1 then map (\<lambda>x. NOT x) (?D j) else ?D j) [j ..< j + n]"
    by (rule map_cong [OF refl]) (rule C1)
  then have C: "fbytes k mp i j n = (if m_fs (mounts k ! mp) = 1 then map (\<lambda>x. NOT x) ?C else ?C)"
    by (simp add: fbytes_def map_concat comp_def del: map_eq_conv)
  have "length (fbytes k mp i j n) = 512 * n" by (rule length_fbytes) (rule all)
  then have len: "length ?C = 512 * n" using C by (metis length_map)
  have copy: "(if m_fs (mounts k3 ! mp) = 1 then Some (decrypt_loop (put_bytes ?C junk 0) 0 n data) else strcpy_obj sz (put_bytes ?C junk 0) data)
    = (if m_fs (mounts k ! mp) = 1 then Some (put_bytes (fbytes k mp i j n) data 0) else strcpy_obj sz (put_bytes (fbytes k mp i j n) junk 0) data)"
    using len by (simp add: decrypt_loop_eq C m)
  have ok3: "emu_dev_ok d mp k3" using r(4) same_disk_dev [OF l(2)] by simp
  obtain k4 k5 where w: "writeMetadata junk mp md k3 = (1, k4)" "writeSuperblock mp sb k4 = (1, k5)" "emu_ok k5 mp" "mounts k5 = mounts k3"
    "fblock k5 mp = md_block md k3 mp" "agree (plain k5 mp 1) md"
    using write_back_ok [OF ok3 r(5)] by blast
  have "used_file k5 mp i' = used_file k mp i'" for i'
    using agree_used [OF agree_trans [OF w(6) r(6)]] by (simp add: used_file_def)
  moreover have "fblock k5 mp = fblock k mp"
    unfolding w(5) r(7) [symmetric] by (intro ext) (simp add: md_block_def same_disk_plain [OF l(2)])
  moreover have "mounts k5 = mounts k" using w(4) l(2) r(3) by (simp add: same_disk_def)
  moreover have big: "cdiv (int sz) (int BLOCKSIZE) = int n" "cdiv (int off) (int BLOCKSIZE) = int j"
    using cdiv_int [of sz 512] cdiv_int [of off 512] by (simp_all add: j BLOCKSIZE_def)
  moreover have "\<not> (\<exists>j' \<in> set [j ..< j + n]. i_block md i j' = - 1)" using blk by fastforce
  ultimately show ?thesis using fit w(1-3) unfolding copy [symmetric]
    by (intro exI [of _ k5]) (simp add: eread_def f r(1,2) l(1) eseek_def Let_def map_conv_bind_option comp_def)
qed

lemma eread_hole:
  assumes ok: "emu_ok k mp" and f: "e_mp f = mp" "e_inum f = i" "e_off f = int off" and u: "used_file k mp i"
    and fit: "j + n \<le> 4" and j: "j = off div 512" "n = sz div 512"
    and hole: "t < n" "fblock k mp i (j + t) = None"
  shows "\<exists>k'. eread junk f data (int sz) k = Some (- 1, data, f, k') \<and> same_disk k k'"
proof -
  obtain d sb md k1 k2 where r: "readSuperblock junk mp k = (sb, k1)" "readMetadata junk mp k1 = (md, k2)" "same_disk k k2"
    "agree md (plain k mp 1)" "md_block md k2 mp = fblock k mp" using read_both_ok [OF ok] by blast
  have "i_used md i" using u agree_used [OF r(4)] by (simp add: used_file_def)
  moreover have "md_block md k2 mp i (j + t) = None" using hole(2) r(5) by simp
  ultimately have "i_block md i (j + t) = - 1" using hole(1) fit by (simp add: md_block_def split: if_splits)
  then have "\<exists>j' \<in> set [j ..< j + n]. i_block md i j' = - 1" using hole(1) by (intro bexI [of _ "j + t"]) auto
  moreover have "cdiv (int sz) (int BLOCKSIZE) = int n" "cdiv (int off) (int BLOCKSIZE) = int j"
    using cdiv_int [of sz 512] cdiv_int [of off 512] by (simp_all add: j BLOCKSIZE_def)
  ultimately have "eread junk f data (int sz) k = Some (- 1, data, f, k2)"
    using fit by (simp add: eread_def f r(1,2) Let_def)
  then show ?thesis using r(3) by blast
qed

section \<open>Creating and opening\<close>

lemma clear_bitmap_eq: "clear_bitmap i n sb = (\<lambda>x. if SB_BITMAP + i \<le> x \<and> x < SB_BITMAP + i + n then 48 else sb x)"
  by (induction n arbitrary: i sb) (auto simp: fun_eq_iff)

lemma x_bitmap_eq: "x_bitmap i n sb = (\<lambda>x. if SB_BITMAP + i \<le> x \<and> x < SB_BITMAP + i + n then 120 else sb x)"
  by (induction n arbitrary: i sb) (auto simp: fun_eq_iff)

lemma clear_inodes_status:
  "i_status (clear_inodes i n md) i' = (if i \<le> i' \<and> i' < i + n then 0 else i_status md i')"
  by (induction n arbitrary: i md) auto

lemma emu_dev_ok_mounts: "emu_dev_ok d mp k \<Longrightarrow> emu_dev_ok d mp (k\<lparr>mounts := (mounts k)[mp := (mounts k ! mp)\<lparr>m_fs := fs\<rparr>]\<rparr>)"
  by (auto simp: emu_dev_ok_def dev_image_def)

text \<open>A new file system is well-formed and has no files.\<close>

lemma create_file_system_ok:
  assumes ok: "emu_dev_ok d mp k" and d: "2 \<le> d" "rd32 (dev_blk k mp 0) SB_SIZE = d"
  shows "\<exists>k'. create_file_system junk mp fs k = Some (1, k') \<and> emu_ok k' mp \<and> m_fs (mounts k' ! mp) = fs
    \<and> (\<forall>i. \<not> used_file k' mp i) \<and> (\<forall>i. i < MAX_FILES \<longrightarrow> i_status (plain k' mp 1) i = 0)
    \<and> free_count k' mp = d - 2"
proof -
  obtain sb k1 where r: "readSuperblock junk mp k = (sb, k1)" "agree sb (dev_blk k mp 0)" "same_disk k k1"
    using readSuperblock_ok [OF ok d(1)] by blast
  have mpl: "mp < length (mounts k)" and d42: "d \<le> 42" using ok by (auto simp: emu_dev_ok_def MAX_BLOCKS_def)
  have sz: "rd32 sb SB_SIZE = d" using agree_rd32 [OF r(2), of SB_SIZE] d(2) by (simp add: SB_SIZE_def)
  define sb1 where "sb1 = (wr32 sb SB_FS (u32_of fs))(SB_BITMAP := 49, SB_BITMAP + 1 := 49)"
  define sb2 where "sb2 = x_bitmap (max 2 d) (MAX_BLOCKS - max 2 d) (clear_bitmap 2 (d - 2) sb1)"
  define md where "md = clear_inodes 0 MAX_FILES junk"
  define k2 where "k2 = k1\<lparr>mounts := (mounts k1)[mp := (mounts k1 ! mp)\<lparr>m_fs := fs\<rparr>]\<rparr>"
  have sz1: "rd32 sb1 SB_SIZE = d" unfolding sb1_def sz [symmetric]
    by (rule rd32_cong) (auto simp: SB_SIZE_def SB_BITMAP_def SB_FS_def wr32_out)
  have sz2: "rd32 sb2 SB_SIZE = d" unfolding sb2_def sz1 [symmetric]
    by (rule rd32_cong) (auto simp: SB_SIZE_def SB_BITMAP_def x_bitmap_eq clear_bitmap_eq)
  have st: "i_status md i = 0" if "i < MAX_FILES" for i using that by (simp add: md_def clear_inodes_status)
  have nu: "\<not> i_used md i" for i using st by (auto simp: i_used_def)
  have wf: "fs_wf d sb2 md" using d(1) d42 sz2 nu by (auto simp: fs_wf_def i_has_def MAX_BLOCKS_def)
  have blocks: "disk_blocks sb1 = d" using sz1 d42 by (simp add: disk_blocks_def s32_def)
  then have fits: "disk_fits sb1" using d42 by (simp add: disk_fits_def SB_BITMAP_def BLOCKSIZE_def)
  have ok1: "emu_dev_ok d mp k1" using ok r(3) by (simp add: same_disk_dev)
  have ok2: "emu_dev_ok d mp k2" unfolding k2_def by (rule emu_dev_ok_mounts [OF ok1])
  obtain k3 where k3: "writeSuperblock mp sb2 k2 = (1, k3)" "emu_dev_ok d mp k3" "mounts k3 = mounts k2" "agree (dev_blk k3 mp 0) sb2"
    using write_super_ok [OF ok2, of sb2] d(1) by auto
  obtain k4 where k4: "writeMetadata junk mp md k3 = (1, k4)" "emu_dev_ok d mp k4" "mounts k4 = mounts k3" "agree (plain k4 mp 1) md"
    "agree (dev_blk k4 mp 0) (dev_blk k3 mp 0)" using metadata_written [OF k3(2), of junk md] d(1) by auto
  have run: "create_file_system junk mp fs k = Some (1, k4)"
    using k3(1) k4(1) fits unfolding create_file_system_def r(1) Let_def prod.case sb1_def [symmetric] k2_def [symmetric] blocks
    by (simp add: sb2_def md_def)
  have "fs_wf d (dev_blk k4 mp 0) (plain k4 mp 1)"
    by (rule agree_wf [OF agree_sym [OF agree_trans [OF k4(5) k3(4)]] agree_sym [OF k4(4)] wf])
  then have "emu_ok k4 mp" using k4(2) by (auto simp: emu_ok_def)
  moreover have "m_fs (mounts k4 ! mp) = fs" using k4(3) k3(3) mpl r(3) by (simp add: k2_def same_disk_def)
  moreover have "\<not> used_file k4 mp i" for i using nu agree_used [OF k4(4)] by (simp add: used_file_def)
  moreover have "i_status (plain k4 mp 1) i = 0" if "i < MAX_FILES" for i
    using agree_status [OF k4(4) that] st [OF that] by simp
  moreover have "free_blocks sb2 = d - 2"
  proof -
    have "{b. 2 \<le> b \<and> b < disk_blocks sb2 \<and> sb2 (SB_BITMAP + b) = 48} = {2 ..< d}"
      using wf_disk_blocks [OF wf] by (auto simp: sb2_def x_bitmap_eq clear_bitmap_eq)
    then show ?thesis by (simp add: free_blocks_eq)
  qed
  then have "free_count k4 mp = d - 2"
    using agree_wf_free [OF agree_sym [OF agree_trans [OF k4(5) k3(4)]] wf] by (simp add: free_count_def)
  ultimately show ?thesis using run by (intro exI [of _ k4]) simp
qed

lemma rd32_put_bytes: "a + length bs \<le> b \<or> b + 4 \<le> a \<Longrightarrow> rd32 (put_bytes bs m a) b = rd32 m b"
  by (rule rd32_cong) (auto simp: put_bytes_def)

lemma put_bytes_out: "x < a \<or> a + length bs \<le> x \<Longrightarrow> put_bytes bs m a x = m x"
  by (auto simp: put_bytes_def)

lemma clear_blocks_out: "x < ino i + I_BLOCKS + 4 * j \<or> ino i + I_BLOCKS + 4 * (j + n) \<le> x \<Longrightarrow> clear_blocks i j n md x = md x"
  by (induction n arbitrary: j md) (auto simp: wr32_out)

lemma clear_blocks_block: "j \<le> j' \<Longrightarrow> j' < j + n \<Longrightarrow> i_block (clear_blocks i j n md) i j' = - 1"
proof (induction n arbitrary: j md)
  case (Suc n)
  show ?case
  proof (cases "j' = j")
    case True
    let ?md = "wr32 md (ino i + I_BLOCKS + 4 * j) (u32_of (- 1))"
    have "rd32 (clear_blocks i (j + 1) n ?md) (ino i + I_BLOCKS + 4 * j) = rd32 ?md (ino i + I_BLOCKS + 4 * j)"
      by (rule rd32_cong) (auto intro: clear_blocks_out)
    also have "\<dots> = u32_of (- 1)" by simp
    finally show ?thesis using True by (simp add: i_block_def s32_u32_of)
  next
    case False then show ?thesis using Suc by simp
  qed
qed simp

lemma new_inode_ok:
  assumes i: "i < MAX_FILES" and n: "length name < 10"
  shows "\<exists>md'. new_inode t i name md = Some md' \<and> (\<forall>x. x < ino i \<or> ino i + 48 \<le> x \<longrightarrow> md' x = md x) \<and> i_status md' i = 1
    \<and> (\<forall>j < 4. i_block md' i j = - 1) \<and> name_is md' i name \<and> rd32 md' (ino i + I_SIZE) = 0"
proof -
  note offs = I_STATUS_def I_NAME_def I_SIZE_def I_BLOCKS_def I_MODTIME_def
  define md1 where "md1 = wr32 (wr32 md (ino i + I_STATUS) 1) (ino i + I_SIZE) 0"
  define md2 where "md2 = clear_blocks i 0 4 md1"
  define md3 where "md3 = set_modtime t i md2"
  define md4 where "md4 = put_bytes (name @ [0]) md3 (ino i + I_NAME)"
  have run: "new_inode t i name md = Some md4"
    using ino_bound [OF i] n by (simp add: new_inode_def Let_def md4_def md3_def md2_def md1_def BLOCKSIZE_def I_NAME_def)
  have e3: "rd32 md4 (ino i + a) = rd32 md2 (ino i + a)" if "a = 0 \<or> a = 16 \<or> (20 \<le> a \<and> a \<le> 32)" for a
    using that n by (auto simp: md4_def md3_def set_modtime_def rd32_put_bytes offs)
  have e1: "rd32 md2 (ino i + a) = rd32 md1 (ino i + a)" if "a = 0 \<or> a = 16" for a
    unfolding md2_def by (rule rd32_cong) (use that in \<open>auto intro!: clear_blocks_out simp: offs\<close>)
  have "i_status md4 i = 1" using e3 [of 0] e1 [of 0] by (simp add: i_status_def md1_def offs)
  moreover have "rd32 md4 (ino i + I_SIZE) = 0" using e3 [of 16] e1 [of 16] by (simp add: md1_def offs)
  moreover have "i_block md4 i j = - 1" if "j < 4" for j
    using e3 [of "20 + 4 * j"] clear_blocks_block [of 0 j 4 i md1] that by (simp add: i_block_def md2_def offs add.assoc)
  moreover have "name_is md4 i name" unfolding name_is_def md4_def using bytes_at_put_bytes [of "name @ [0]"] by simp
  moreover have "md4 x = md x" if "x < ino i \<or> ino i + 48 \<le> x" for x
    using that n by (auto simp: md4_def md3_def md2_def md1_def set_modtime_def put_bytes_out wr32_out clear_blocks_out offs)
  ultimately show ?thesis using run by blast
qed

text \<open>The inode of a name.\<close>

definition file_named :: "emuk \<Rightarrow> nat \<Rightarrow> byte list \<Rightarrow> nat option" where
  "file_named k mp name = first_idx MAX_FILES (\<lambda>i. used_file k mp i \<and> name_is (plain k mp 1) i name)"

definition free_inode :: "emuk \<Rightarrow> nat \<Rightarrow> nat option" where
  "free_inode k mp = first_idx MAX_FILES (\<lambda>i. i_status (plain k mp 1) i = 0)"

lemma agree_name:
  assumes "agree md md'" "i < MAX_FILES" "length name < 10" shows "name_is md i name = name_is md' i name"
proof -
  have "bytes_at md (ino i + I_NAME) (length name + 1) = bytes_at md' (ino i + I_NAME) (length name + 1)"
    using ino_bound [OF assms(2)] assms(3) by (intro bytes_at_cong agreeD [OF assms(1)]) (simp add: I_NAME_def)
  then show ?thesis by (simp add: name_is_def)
qed

lemma eopen_start:
  assumes ok: "emu_ok k mp" and n: "length name < 10"
  shows "\<exists>d md k1. readMetadata junk mp k = (md, k1) \<and> same_disk k k1 \<and> emu_dev_ok d mp k1 \<and> fs_wf d (dev_blk k1 mp 0) md
    \<and> agree md (plain k mp 1) \<and> md_block md k1 mp = fblock k mp
    \<and> first_idx MAX_FILES (\<lambda>i. i_status md i = 1 \<and> name_is md i name) = file_named k mp name
    \<and> first_idx MAX_FILES (\<lambda>i. i_status md i = 0) = free_inode k mp"
proof -
  obtain d where d: "emu_dev_ok d mp k" "fs_wf d (dev_blk k mp 0) (plain k mp 1)" using ok by (auto simp: emu_ok_def)
  have d2: "2 \<le> d" using d(2) by (simp add: fs_wf_def)
  obtain md k1 where r: "readMetadata junk mp k = (md, k1)" "agree md (plain k mp 1)" "same_disk k k1"
    using readMetadata_ok [OF d(1) d2] by blast
  have "fs_wf d (dev_blk k1 mp 0) md"
    by (rule agree_wf [OF _ agree_sym [OF r(2)] d(2)]) (simp add: same_disk_dev [OF r(3)] agree_def)
  moreover have "md_block md k1 mp i j = fblock k mp i j" for i j
    unfolding fblock_def by (rule agree_md_block [OF agree_sym [OF r(2)] _ d(2)]) (simp add: same_disk_plain [OF r(3)] agree_def)
  moreover have "first_idx MAX_FILES (\<lambda>i. i_status md i = 1 \<and> name_is md i name) = file_named k mp name"
    unfolding file_named_def
    by (rule first_idx_cong) (use agree_status [OF r(2)] agree_name [OF r(2) _ n] in \<open>auto simp: used_file_def i_used_def\<close>)
  moreover have "first_idx MAX_FILES (\<lambda>i. i_status md i = 0) = free_inode k mp"
    unfolding free_inode_def by (rule first_idx_cong) (use agree_status [OF r(2)] in auto)
  ultimately show ?thesis using r same_disk_dev(1) [OF r(3)] d(1)
    by (intro exI [of _ d] exI [of _ md] exI [of _ k1]) (simp add: fun_eq_iff)
qed

lemma metadata_back_ok:
  assumes ok: "emu_dev_ok d mp k" and wf: "fs_wf d (dev_blk k mp 0) md"
  shows "\<exists>k'. writeMetadata junk mp md k = (1, k') \<and> emu_ok k' mp \<and> mounts k' = mounts k
    \<and> fblock k' mp = md_block md k mp \<and> agree (plain k' mp 1) md \<and> free_count k' mp = free_count k mp"
proof -
  obtain k' where k': "writeMetadata junk mp md k = (1, k')" "emu_dev_ok d mp k'" "mounts k' = mounts k" "agree (plain k' mp 1) md"
    "\<And>b. b \<noteq> 1 \<Longrightarrow> agree (dev_blk k' mp b) (dev_blk k mp b) \<and> agree (plain k' mp b) (plain k mp b)"
    using metadata_written [OF ok, of junk md] wf by (auto simp: fs_wf_def)
  have "fs_wf d (dev_blk k' mp 0) (plain k' mp 1)" using agree_wf [OF _ agree_sym [OF k'(4)] wf] k'(5) [of 0] agree_sym by auto
  moreover have "fblock k' mp i j = md_block md k mp i j" for i j
    unfolding fblock_def by (rule agree_md_block [OF agree_sym [OF k'(4)] _ wf]) (use k'(5) in auto)
  moreover have "free_count k' mp = free_count k mp"
    unfolding free_count_def using k'(5) by (intro agree_wf_free [OF agree_sym wf, symmetric]) auto
  ultimately show ?thesis using k' by (intro exI [of _ k']) (auto simp: fun_eq_iff emu_ok_def)
qed

lemma eopen_found:
  assumes ok: "emu_ok k mp" and n: "length name < 10" and i: "file_named k mp name = Some i"
  shows "\<exists>k'. eopen junk mp name k = Some (Some \<lparr>e_off = 0, e_inum = i, e_mp = mp\<rparr>, k') \<and> emu_ok k' mp \<and> mounts k' = mounts k
    \<and> fblock k' mp = fblock k mp \<and> agree (plain k' mp 1) (plain k mp 1) \<and> free_count k' mp = free_count k mp"
proof -
  obtain d md k1 where r: "readMetadata junk mp k = (md, k1)" "same_disk k k1" "emu_dev_ok d mp k1" "fs_wf d (dev_blk k1 mp 0) md"
    "agree md (plain k mp 1)" "md_block md k1 mp = fblock k mp"
    "first_idx MAX_FILES (\<lambda>i. i_status md i = 1 \<and> name_is md i name) = file_named k mp name" using eopen_start [OF ok n] by blast
  obtain k' where w: "writeMetadata junk mp md k1 = (1, k')" "emu_ok k' mp" "mounts k' = mounts k1" "fblock k' mp = md_block md k1 mp"
    "agree (plain k' mp 1) md" "free_count k' mp = free_count k1 mp" using metadata_back_ok [OF r(3,4)] by blast
  have "eopen junk mp name k = Some (Some \<lparr>e_off = 0, e_inum = i, e_mp = mp\<rparr>, k')"
    using r(7) w(1) i by (simp add: eopen_def r(1))
  then show ?thesis using w r agree_trans [OF w(5) r(5)] by (intro exI [of _ k']) (simp add: same_disk_mounts [OF r(2)] same_disk_free [OF r(2)])
qed

lemma eopen_full:
  assumes ok: "emu_ok k mp" and n: "length name < 10" and i: "file_named k mp name = None" "free_inode k mp = None"
  shows "\<exists>k'. eopen junk mp name k = Some (None, k') \<and> same_disk k k'"
proof -
  obtain md k1 where "readMetadata junk mp k = (md, k1)" "same_disk k k1"
    "first_idx MAX_FILES (\<lambda>i. i_status md i = 1 \<and> name_is md i name) = file_named k mp name"
    "first_idx MAX_FILES (\<lambda>i. i_status md i = 0) = free_inode k mp" using eopen_start [OF ok n] by blast
  then show ?thesis using i by (auto simp: eopen_def)
qed

lemma eopen_new:
  assumes ok: "emu_ok k mp" and n: "length name < 10" and i: "file_named k mp name = None" "free_inode k mp = Some i"
  shows "\<exists>k'. eopen junk mp name k = Some (Some \<lparr>e_off = 0, e_inum = i, e_mp = mp\<rparr>, k') \<and> emu_ok k' mp \<and> mounts k' = mounts k
    \<and> (\<forall>i'. used_file k' mp i' \<longleftrightarrow> i' = i \<or> used_file k mp i') \<and> name_is (plain k' mp 1) i name
    \<and> (\<forall>i' j. fblock k' mp i' j = (if i' = i then None else fblock k mp i' j))
    \<and> (\<forall>i' nm. i' < MAX_FILES \<longrightarrow> i' \<noteq> i \<longrightarrow> length nm < 10 \<longrightarrow> name_is (plain k' mp 1) i' nm = name_is (plain k mp 1) i' nm)
    \<and> free_count k' mp = free_count k mp"
proof -
  obtain d md k1 where r: "readMetadata junk mp k = (md, k1)" "same_disk k k1" "emu_dev_ok d mp k1" "fs_wf d (dev_blk k1 mp 0) md"
    "agree md (plain k mp 1)" "md_block md k1 mp = fblock k mp"
    "first_idx MAX_FILES (\<lambda>i. i_status md i = 1 \<and> name_is md i name) = file_named k mp name"
    "first_idx MAX_FILES (\<lambda>i. i_status md i = 0) = free_inode k mp" using eopen_start [OF ok n] by blast
  have i10: "i < MAX_FILES" using i(2) by (simp add: free_inode_def first_idx_Some)
  obtain md1 where m: "new_inode (clock k1) i name md = Some md1" "\<And>x. x < ino i \<or> ino i + 48 \<le> x \<Longrightarrow> md1 x = md x"
    "i_status md1 i = 1" "\<And>j. j < 4 \<Longrightarrow> i_block md1 i j = - 1" "name_is md1 i name" using new_inode_ok [OF i10 n] by blast
  have oth: "i_status md1 i' = i_status md i'" "j < 4 \<Longrightarrow> i_block md1 i' j = i_block md i' j" if "i' \<noteq> i" for i' j
    unfolding i_status_def i_block_def I_STATUS_def I_BLOCKS_def using that
    by (auto intro!: rd32_cong m(2) arg_cong [of _ _ s32] simp: ino_def)
  have nm: "name_is md1 i' nm = name_is md i' nm" if "i' \<noteq> i" "length nm < 10" for i' nm
  proof -
    have "bytes_at md1 (ino i' + I_NAME) (length nm + 1) = bytes_at md (ino i' + I_NAME) (length nm + 1)"
      by (rule bytes_at_cong, rule m(2)) (use that in \<open>auto simp: ino_def I_NAME_def\<close>)
    then show ?thesis by (simp add: name_is_def)
  qed
  have used: "i_used md1 i' \<longleftrightarrow> i' = i \<or> i_used md i'" for i'
    using oth(1) [of i'] m(3) i10 by (cases "i' = i") (auto simp: i_used_def)
  have has: "i_has md1 i' j b \<longleftrightarrow> i' \<noteq> i \<and> i_has md i' j b" for i' j b
    using oth(2) [of i' j] m(4) used by (cases "i' = i") (auto simp: i_has_def)
  have wf: "fs_wf d (dev_blk k1 mp 0) md1"
    unfolding fs_wf_def
  proof (intro conjI allI impI)
    fix i' j :: nat assume u: "i_used md1 i' \<and> j < 4"
    show "i_block md1 i' j = - 1 \<or> (\<exists>b. i_has md1 i' j b \<and> 2 \<le> b \<and> b < d \<and> dev_blk k1 mp 0 (SB_BITMAP + b) = 49)"
    proof (cases "i' = i")
      case False
      then show ?thesis using u used [of i'] oth(2) [of i' j] r(4) unfolding has by (simp add: fs_wf_def)
    qed (use u m(4) in simp)
  next
    fix i1 j1 i2 j2 b assume "i_has md1 i1 j1 b \<and> i_has md1 i2 j2 b"
    then have "i1 = i2 \<and> j1 = j2" using r(4) unfolding has fs_wf_def by blast
    then show "i1 = i2" "j1 = j2" by simp_all
  qed (use r(4) in \<open>auto simp: fs_wf_def\<close>)
  obtain k' where w: "writeMetadata junk mp md1 k1 = (1, k')" "emu_ok k' mp" "mounts k' = mounts k1" "fblock k' mp = md_block md1 k1 mp"
    "agree (plain k' mp 1) md1" "free_count k' mp = free_count k1 mp" using metadata_back_ok [OF r(3) wf] by blast
  have "eopen junk mp name k = Some (Some \<lparr>e_off = 0, e_inum = i, e_mp = mp\<rparr>, k')"
    using r(7,8) w(1) i m(1) by (simp add: eopen_def r(1))
  moreover have "used_file k' mp i' \<longleftrightarrow> i' = i \<or> used_file k mp i'" for i'
    using used [of i'] agree_used [OF w(5)] agree_used [OF r(5)] by (simp add: used_file_def)
  moreover have "fblock k' mp i' j = (if i' = i then None else fblock k mp i' j)" for i' j
    unfolding w(4) r(6) [symmetric] using m(4) oth(2) [of i' j] used [of i']
    by (cases "i' = i"; cases "j < 4") (auto simp: md_block_def)
  moreover have "name_is (plain k' mp 1) i name" using agree_name [OF w(5) i10 n] m(5) by simp
  moreover have "name_is (plain k' mp 1) i' nm = name_is (plain k mp 1) i' nm" if "i' < MAX_FILES" "i' \<noteq> i" "length nm < 10" for i' nm
    using agree_name [OF w(5)] agree_name [OF r(5)] nm that by simp
  moreover have "mounts k' = mounts k" using w(3) r(2) by (simp add: same_disk_def)
  moreover have "free_count k' mp = free_count k mp" using w(6) same_disk_free [OF r(2)] by simp
  ultimately show ?thesis using w(2) by (intro exI [of _ k']) blast
qed

lemma h_open_ok:
  assumes "fds k \<noteq> []" "fds k ! 0 \<noteq> None"
  shows "\<exists>fd k'. h_open name k = (fd, k') \<and> 0 < fd \<and> fd_get fd k' = Some (name, 0) \<and> hfiles k' = hfiles k \<and> mounts k' = mounts k"
proof (cases "first_idx (length (fds k)) (\<lambda>i. fds k ! i = None)")
  case None
  then show ?thesis using assms(1) by (auto simp: h_open_def fd_get_def nth_append)
next
  case (Some i)
  then have "i < length (fds k)" "fds k ! i = None" by (auto simp: first_idx_Some)
  moreover from this have "0 < i" using assms(2) by (cases i) auto
  ultimately show ?thesis using Some by (auto simp: h_open_def fd_get_def)
qed

text \<open>Writing through a descriptor whose device is not mounted yet.\<close>

lemma writeblock_fd:
  assumes g: "fd_get fd k = Some (name, pos)" "hfiles k name = Some im" "0 < fd" and l: "BLOCKSIZE \<le> im_len im"
  shows "\<exists>k' im'. writeblock fd 0 buf k = (1, k') \<and> mounts k' = mounts k \<and> (\<exists>pos'. fd_get fd k' = Some (name, pos'))
    \<and> hfiles k' name = Some im' \<and> im_len im' = im_len im \<and> agree (im_data im') buf"
proof -
  let ?k1 = "fd_set fd (Some (name, 0)) k"
  have "blk_off 0 = 0" by (simp add: blk_off_def s32_def u32_of_def)
  then have lk: "h_lseek fd (blk_off 0) k = ?k1" by (simp add: h_lseek_def g(1))
  have g1: "fd_get fd ?k1 = Some (name, 0)" by (simp add: fd_set_get g(1))
  let ?im = "im_write buf BLOCKSIZE 0 im"
  let ?k2 = "fd_set fd (Some (name, BLOCKSIZE)) (?k1\<lparr>hfiles := (hfiles k)(name \<mapsto> ?im)\<rparr>)"
  have "writeblock fd 0 buf k = (1, ?k2)" using g by (simp add: writeblock_def lk h_write_def g1 Let_def)
  moreover have "fd_get fd ?k2 = Some (name, BLOCKSIZE)" using g1 by (simp add: fd_set_get)
  ultimately show ?thesis using l by (intro exI [of _ ?k2] exI [of _ ?im]) (simp add: im_write_def agree_def)
qed

lemma opendevice_new:
  assumes name: "name \<noteq> []" "length name < 20" "hfiles k name = None" and sz: "2 \<le> sz" "sz \<le> 42"
    and fd: "fds k \<noteq> []" "fds k ! 0 \<noteq> None" and m: "first_idx (length (mounts k)) (\<lambda>i. m_fd (mounts k ! i) \<le> 0) = Some i"
  shows "\<exists>k'. opendevice junk1 junk2 (Some name) (int sz) k = Some (Some i, k') \<and> emu_dev_ok sz i k' \<and> rd32 (dev_blk k' i 0) SB_SIZE = sz"
proof -
  define sb where "sb = wr32 (wr32 (put_bytes (name @ [0]) (wr32 junk1 SB_FS (u32_of (- 1))) SB_NAME) SB_SIZE sz) 0 MAGIC_NUMBER"
  define k1 where "k1 = k\<lparr>hfiles := (hfiles k)(name \<mapsto> \<lparr>im_data = (\<lambda>_. 0), im_len = sz * BLOCKSIZE + 1\<rparr>)\<rparr>"
  obtain fd k2 where k2: "h_open name k1 = (fd, k2)" "0 < fd" "fd_get fd k2 = Some (name, 0)" "hfiles k2 = hfiles k1" "mounts k2 = mounts k1"
    using h_open_ok [of k1 name] fd by (auto simp: k1_def)
  have im: "hfiles k2 name = Some \<lparr>im_data = (\<lambda>_. 0), im_len = sz * BLOCKSIZE + 1\<rparr>" by (simp add: k2(4) k1_def)
  let ?buf = "blit sb 0 junk2 0 SB_LEN"
  obtain k3 im' pos where k3: "writeblock fd 0 ?buf k2 = (1, k3)" "mounts k3 = mounts k2" "fd_get fd k3 = Some (name, pos)"
    "hfiles k3 name = Some im'" "im_len im' = sz * BLOCKSIZE + 1" "agree (im_data im') ?buf"
    using writeblock_fd [OF k2(3) im k2(2), of ?buf] sz(1) by (auto simp: BLOCKSIZE_def)
  define k4 where "k4 = k3\<lparr>mounts := (mounts k3)[i := \<lparr>m_fd = fd, m_name = name, m_fs = s32 (rd32 sb SB_FS)\<rparr>]\<rparr>"
  have mk: "mounts k3 = mounts k" by (simp add: k3(2) k2(5) k1_def)
  have il: "i < length (mounts k)" using m by (simp add: first_idx_Some)
  have c: "create_device junk1 junk2 name sz k = Some (fd, sb, k3)"
    using name(2) k2(1) k3(1) by (simp add: create_device_def Let_def k1_def sb_def)
  have "add_new_mount_point fd name (s32 (rd32 sb SB_FS)) k3 = Some (Some i, k4)"
    using m name(2) by (simp add: add_new_mount_point_def mk k4_def)
  then have "opendevice junk1 junk2 (Some name) (int sz) k = Some (Some i, k4)"
    using name sz c by (simp add: opendevice_def MAX_BLOCKS_def)
  moreover have img: "dev_image k4 i = Some im'" using il k3(3,4) by (simp add: dev_image_def k4_def mk)
  then have "emu_dev_ok sz i k4" using il k2(2) sz k3(5) by (simp add: emu_dev_ok_def k4_def mk MAX_BLOCKS_def)
  moreover have "rd32 (dev_blk k4 i 0) SB_SIZE = rd32 ?buf SB_SIZE"
    using agreeD [OF k3(6)] img by (intro rd32_cong) (auto simp: dev_blk_def SB_SIZE_def)
  moreover have "rd32 ?buf SB_SIZE = rd32 sb SB_SIZE" by (subst rd32_blit_in) (simp_all add: SB_SIZE_def SB_LEN_def)
  moreover have "rd32 sb SB_SIZE = sz" using sz by (simp add: sb_def SB_SIZE_def)
  ultimately show ?thesis by (intro exI [of _ k4]) simp
qed

section \<open>The file system\<close>

text \<open>A handle for a file, at an offset.\<close>

definition handle :: "emuk \<Rightarrow> nat \<Rightarrow> nat \<Rightarrow> nat \<Rightarrow> file_t \<Rightarrow> bool" where
  "handle k mp i off f \<longleftrightarrow> emu_ok k mp \<and> f = \<lparr>e_off = int off, e_inum = i, e_mp = mp\<rparr> \<and> used_file k mp i"

lemma same_disk_handle: "same_disk k k' \<Longrightarrow> handle k mp i off f \<Longrightarrow> handle k' mp i off f \<and> fblock k' mp = fblock k mp"
  by (simp add: handle_def same_disk_emu used_file_def same_disk_plain)

lemma agree_used_file: "agree (plain k' mp 1) (plain k mp 1) \<Longrightarrow> used_file k' mp i = used_file k mp i"
  by (simp add: used_file_def agree_used)

lemma agree_file_named:
  assumes "agree (plain k' mp 1) (plain k mp 1)" "length name < 10" shows "file_named k' mp name = file_named k mp name"
  unfolding file_named_def
  by (rule first_idx_cong) (metis agree_used_file [OF assms(1)] agree_name [OF assms(1) _ assms(2)])

lemma file_named_used: "file_named k mp name = Some i \<Longrightarrow> used_file k mp i"
  by (simp add: file_named_def first_idx_Some)

lemma free_inode_unused: "free_inode k mp = Some i \<Longrightarrow> \<not> used_file k mp i \<and> i < MAX_FILES"
  by (simp add: free_inode_def first_idx_Some used_file_def i_used_def)

lemma first_idx_unique:
  assumes "i < n" "P i" "\<And>j. j < n \<Longrightarrow> P j \<Longrightarrow> j = i" shows "first_idx n P = Some i"
proof -
  have "\<not> P l" if "l < i" for l using assms(3) [of l] assms(1) that by auto
  then show ?thesis using assms(1,2) by (simp add: first_idx_Some)
qed

text \<open>
  A new device on which a file system is created is a well-formed file system without files, whatever the memory
  held that \<open>malloc\<close> returned.
\<close>

theorem new_device_usable:
  assumes "name \<noteq> []" "length name < 20" "hfiles k name = None" "2 \<le> d" "d \<le> 42" "fds k \<noteq> []" "fds k ! 0 \<noteq> None"
    "first_idx (length (mounts k)) (\<lambda>i. m_fd (mounts k ! i) \<le> 0) = Some mp"
  shows "\<exists>k1 k2. opendevice junk1 junk2 (Some name) (int d) k = Some (Some mp, k1) \<and> create_file_system junk mp fs k1 = Some (1, k2)
    \<and> emu_ok k2 mp \<and> m_fs (mounts k2 ! mp) = fs \<and> (\<exists>i. used_file k2 mp i) = False \<and> free_count k2 mp = d - 2"
proof -
  obtain k1 where k1: "opendevice junk1 junk2 (Some name) (int d) k = Some (Some mp, k1)" "emu_dev_ok d mp k1" "rd32 (dev_blk k1 mp 0) SB_SIZE = d"
    using opendevice_new [OF assms] by blast
  then show ?thesis using create_file_system_ok [OF k1(2) assms(4) k1(3), of junk fs] by auto
qed

text \<open>A host to try it on, and a device of ten blocks on it with one file.\<close>

definition host0 :: emuk where
  "host0 = \<lparr>hfiles = Map.empty, fds = replicate 3 (Some ([], 0)), mounts = replicate 10 \<lparr>m_fd = 0, m_name = [], m_fs = 0\<rparr>, clock = 0\<rparr>"

lemma host0_ok: "hfiles host0 [100] = None" "fds host0 \<noteq> []" "fds host0 ! 0 \<noteq> None"
  "first_idx (length (mounts host0)) (\<lambda>i. m_fd (mounts host0 ! i) \<le> 0) = Some 0"
  by (simp_all add: host0_def first_idx_Some)

lemma demo_emufs:
  obtains k where "emu_ok k 0" "m_fs (mounts k ! 0) = fs" "free_count k 0 = 8" "free_inode k 0 = Some 0" "file_named k 0 [102] = None"
proof -
  obtain k1 where k1: "emu_dev_ok 10 0 k1" "rd32 (dev_blk k1 0 0) SB_SIZE = 10"
    using opendevice_new [of "[100]" host0 10 0 "\<lambda>_. 0" "\<lambda>_. 0"] host0_ok by auto
  obtain k2 where k2: "emu_ok k2 0" "m_fs (mounts k2 ! 0) = fs" "free_count k2 0 = 10 - 2" "\<forall>i. \<not> used_file k2 0 i"
    "\<forall>i. i < MAX_FILES \<longrightarrow> i_status (plain k2 0 1) i = 0"
    using create_file_system_ok [OF k1(1) _ k1(2), of "\<lambda>_. 0" fs] by auto
  moreover have "free_inode k2 0 = Some 0" using k2(5) by (auto simp: free_inode_def first_idx_Some MAX_FILES_def)
  moreover have "file_named k2 0 [102] = None" using k2(4) by (simp add: file_named_def first_idx_None)
  ultimately show ?thesis using that by simp
qed

lemma demo_emufile:
  obtains k f where "handle k 0 0 0 f" "m_fs (mounts k ! 0) = fs" "free_count k 0 = 8"
proof -
  obtain k where k: "emu_ok k 0" "m_fs (mounts k ! 0) = fs" "free_count k 0 = 8" "free_inode k 0 = Some 0" "file_named k 0 [102] = None"
    by (rule demo_emufs)
  obtain k' where "emu_ok k' 0" "mounts k' = mounts k" "\<forall>i'. used_file k' 0 i' \<longleftrightarrow> i' = 0 \<or> used_file k 0 i'" "free_count k' 0 = free_count k 0"
    using eopen_new [OF k(1) _ k(5,4), of "\<lambda>_. 0"] by auto
  then show ?thesis using that [of k' "\<lparr>e_off = 0, e_inum = 0, e_mp = 0\<rparr>"] k(2,3) by (simp add: handle_def)
qed

lemma lacks_le: "lacks k mp i j n \<le> n"
  unfolding lacks_def by (rule order_trans [OF length_filter_le]) simp

theorem new_device_usable_witness:
  "\<exists>k1 k2. opendevice (\<lambda>_. 0) (\<lambda>_. 0) (Some [100]) (int 10) host0 = Some (Some 0, k1) \<and> create_file_system (\<lambda>_. 5) 0 1 k1 = Some (1, k2)
    \<and> emu_ok k2 0 \<and> free_count k2 0 = 8"
proof -
  from new_device_usable [of "[100]" host0 10 0 "\<lambda>_. 0" "\<lambda>_. 0" "\<lambda>_. 5" 1] host0_ok show ?thesis by auto
qed

text \<open>
  \<open>eopen\<close> of a name that fits in the inode. It returns a handle at offset 0 of the file with that name, which is a
  new empty one if there was none; no other file changes. It fails only if there is no such file and no free inode.
\<close>

theorem eopen_opens:
  assumes "emu_ok k mp" "length name < 10"
  shows "\<exists>r k'. eopen junk mp name k = Some (r, k') \<and> emu_ok k' mp \<and> free_count k' mp = free_count k mp \<and> (case r of
     None \<Rightarrow> file_named k mp name = None \<and> free_inode k mp = None \<and> fblock k' mp = fblock k mp
   | Some f \<Rightarrow> \<exists>i. handle k' mp i 0 f \<and> file_named k' mp name = Some i
       \<and> (if file_named k mp name = Some i then fblock k' mp = fblock k mp
          else fblock k' mp = (fblock k mp)(i := (\<lambda>_. None)) \<and> \<not> used_file k mp i))"
proof (cases "file_named k mp name")
  case (Some i)
  obtain k' where k': "eopen junk mp name k = Some (Some \<lparr>e_off = 0, e_inum = i, e_mp = mp\<rparr>, k')" "emu_ok k' mp"
    "fblock k' mp = fblock k mp" "agree (plain k' mp 1) (plain k mp 1)" "free_count k' mp = free_count k mp" using eopen_found [OF assms Some] by blast
  have "used_file k' mp i" "file_named k' mp name = Some i"
    using agree_used_file [OF k'(4)] agree_file_named [OF k'(4) assms(2)] Some file_named_used by auto
  then show ?thesis using Some k' by (auto simp: handle_def)
next
  case None
  show ?thesis
  proof (cases "free_inode k mp")
    case n: None
    obtain k' where "eopen junk mp name k = Some (None, k')" "same_disk k k'" using eopen_full [OF assms None n] by blast
    then show ?thesis using None n same_disk_emu same_disk_free assms(1) by auto
  next
    case (Some i)
    obtain k' where k': "eopen junk mp name k = Some (Some \<lparr>e_off = 0, e_inum = i, e_mp = mp\<rparr>, k')" "emu_ok k' mp"
      "\<forall>i'. used_file k' mp i' \<longleftrightarrow> i' = i \<or> used_file k mp i'" "name_is (plain k' mp 1) i name"
      "\<forall>i' j. fblock k' mp i' j = (if i' = i then None else fblock k mp i' j)"
      "\<forall>i' nm. i' < MAX_FILES \<longrightarrow> i' \<noteq> i \<longrightarrow> length nm < 10 \<longrightarrow> name_is (plain k' mp 1) i' nm = name_is (plain k mp 1) i' nm"
      "free_count k' mp = free_count k mp"
      using eopen_new [OF assms None Some] by blast
    have "file_named k' mp name = Some i" unfolding file_named_def
    proof (rule first_idx_unique)
      fix j assume j: "j < MAX_FILES" "used_file k' mp j \<and> name_is (plain k' mp 1) j name"
      then show "j = i" using None k'(3,6) assms(2) unfolding file_named_def first_idx_None by blast
    qed (use free_inode_unused [OF Some] k'(3,4) in auto)
    moreover have "fblock k' mp = (fblock k mp)(i := (\<lambda>_. None))" using k'(5) by (simp add: fun_eq_iff)
    ultimately show ?thesis using k'(1-3,7) None free_inode_unused [OF Some] by (auto simp: handle_def)
  qed
qed

theorem eopen_opens_witness:
  "\<exists>k k' f. eopen (\<lambda>_. 0) 0 [102] k = Some (Some f, k') \<and> handle k' 0 0 0 f \<and> file_named k' 0 [102] = Some 0"
proof -
  obtain k where k: "emu_ok k 0" "free_inode k 0 = Some 0" "file_named k 0 [102] = None" by (rule demo_emufs)
  obtain r k' where r: "eopen (\<lambda>_. 0) 0 [102] k = Some (r, k')" "case r of
     None \<Rightarrow> file_named k 0 [102] = None \<and> free_inode k 0 = None \<and> fblock k' 0 = fblock k 0
   | Some f \<Rightarrow> \<exists>i. handle k' 0 i 0 f \<and> file_named k' 0 [102] = Some i
       \<and> (if file_named k 0 [102] = Some i then fblock k' 0 = fblock k 0
          else fblock k' 0 = (fblock k 0)(i := (\<lambda>_. None)) \<and> \<not> used_file k 0 i)"
    using eopen_opens [OF k(1), of "[102]" "\<lambda>_. 0"] by auto
  obtain k2 where "eopen (\<lambda>_. 0) 0 [102] k = Some (Some \<lparr>e_off = 0, e_inum = 0, e_mp = 0\<rparr>, k2)"
    using eopen_new [OF k(1) _ k(3,2), of "\<lambda>_. 0"] by auto
  then show ?thesis using r by (auto simp: handle_def)
qed

text \<open>
  C32: \<open>ewrite\<close> of a handle at offset \<open>off\<close>. Only whole blocks are written, from the start of the block of the
  offset on; the rest of the data is dropped, though the size and the offset count it. If the disk has room for the
  blocks the file lacks, exactly these blocks of this file change; otherwise, or beyond four blocks, the call fails and nothing changes.
\<close>

theorem ewrite_writes:
  assumes "handle k mp i off f" "off + sz < 2147483648"
  shows "\<exists>r f' k'. ewrite junk f data (int sz) k = Some (r, f', k')
    \<and> (if off + sz \<le> 2048 \<and> lacks k mp i (off div 512) (sz div 512) \<le> free_count k mp
       then r = int sz \<and> handle k' mp i (off + sz) f' \<and> rd32 (plain k' mp 1) (ino i + I_SIZE) = off + sz
         \<and> free_count k' mp = free_count k mp - lacks k mp i (off div 512) (sz div 512)
         \<and> fblock k' mp = (fblock k mp)(i := (\<lambda>j. if off div 512 \<le> j \<and> j < off div 512 + sz div 512
              then Some (bytes_at data (512 * (j - off div 512)) 512) else fblock k mp i j))
       else r = - 1 \<and> handle k' mp i off f' \<and> fblock k' mp = fblock k mp)"
proof -
  have h: "emu_ok k mp" "e_mp f = mp" "e_inum f = i" "e_off f = int off" "used_file k mp i" "f = \<lparr>e_off = int off, e_inum = i, e_mp = mp\<rparr>"
    using assms(1) by (auto simp: handle_def)
  consider "2048 < off + sz" | "off + sz \<le> 2048" "free_count k mp < lacks k mp i (off div 512) (sz div 512)"
    | "off + sz \<le> 2048" "lacks k mp i (off div 512) (sz div 512) \<le> free_count k mp" by linarith
  then show ?thesis
  proof cases
    case 1
    obtain k' where "ewrite junk f data (int sz) k = Some (- 1, f, k')" "same_disk k k'"
      using ewrite_big [OF h(1-4) 1 assms(2)] by blast
    then show ?thesis using 1 same_disk_handle [OF _ assms(1)] by auto
  next
    case 2
    obtain k' where "ewrite junk f data (int sz) k = Some (- 1, f, k')" "same_disk k k'"
      using ewrite_full [OF h(1-5) 2(1) refl refl 2(2)] by blast
    then show ?thesis using 2 same_disk_handle [OF _ assms(1)] by auto
  next
    case 3
    obtain k' where k': "ewrite junk f data (int sz) k = Some (int sz, f\<lparr>e_off := int (off + sz)\<rparr>, k')" "emu_ok k' mp"
      "\<forall>i' j'. fblock k' mp i' j' = (if i' = i \<and> off div 512 \<le> j' \<and> j' < off div 512 + sz div 512
         then Some (bytes_at data (512 * (j' - off div 512)) 512) else fblock k mp i' j')"
      "\<forall>i. used_file k' mp i = used_file k mp i" "rd32 (plain k' mp 1) (ino i + I_SIZE) = off + sz"
      "free_count k' mp = free_count k mp - lacks k mp i (off div 512) (sz div 512)"
      using ewrite_ok [OF h(1-5) 3(1) refl refl 3(2)] by blast
    have "fblock k' mp = (fblock k mp)(i := (\<lambda>j. if off div 512 \<le> j \<and> j < off div 512 + sz div 512
              then Some (bytes_at data (512 * (j - off div 512)) 512) else fblock k mp i j))"
      using k'(3) by (auto simp: fun_eq_iff)
    moreover have "handle k' mp i (off + sz) (f\<lparr>e_off := int (off + sz)\<rparr>)" using k'(2,4) h(5,6) by (simp add: handle_def)
    ultimately show ?thesis using 3 k'(1,5,6) by (intro exI [of _ "int sz"] exI [of _ "f\<lparr>e_off := int (off + sz)\<rparr>"] exI [of _ k']) simp
  qed
qed

theorem ewrite_writes_witness:
  "\<exists>k f f' k'. ewrite (\<lambda>_. 0) f (\<lambda>_. 7) (int 1100) k = Some (1100, f', k') \<and> handle k' 0 0 1100 f' \<and> fblock k' 0 0 1 = Some (replicate 512 7)"
proof -
  obtain k f where k: "handle k 0 0 0 f" "free_count k 0 = 8" by (rule demo_emufile)
  have "lacks k 0 0 (0 div 512) (1100 div 512) \<le> free_count k 0" using lacks_le [of k 0 0 0 2] k(2) by simp
  then obtain f' k' where e: "ewrite (\<lambda>_. 0) f (\<lambda>_. 7) (int 1100) k = Some (1100, f', k')" "handle k' 0 0 1100 f'"
    "fblock k' 0 = (fblock k 0)(0 := (\<lambda>j. if 0 div 512 \<le> j \<and> j < 0 div 512 + 1100 div 512
              then Some (bytes_at (\<lambda>_. 7) (512 * (j - 0 div 512)) 512) else fblock k 0 0 j))"
    using ewrite_writes [OF k(1), of 1100 "\<lambda>_. 0" "\<lambda>_. 7"] by auto
  moreover have "bytes_at (\<lambda>_. 7) 512 512 = replicate 512 (7 :: byte)" by (rule nth_equalityI) simp_all
  ultimately have "fblock k' 0 0 1 = Some (replicate 512 7)" by simp
  then show ?thesis using e(1,2) by blast
qed

text \<open>
  C33: Encrypted file systems give back what was written: whole blocks written at the start of a block, the
  offset set back with \<open>eseek\<close>, are read again byte by byte, and nothing else in the buffer changes.
\<close>

theorem emu_write_read_roundtrip:
  assumes "handle k mp i (512 * j) f" "m_fs (mounts k ! mp) = 1" "j + n \<le> 4" "lacks k mp i j n \<le> free_count k mp"
  shows "\<exists>f1 f2 k1 k2. ewrite junk f data (int (512 * n)) k = Some (int (512 * n), f1, k1)
    \<and> eread junk' (snd (eseek f1 (int (512 * j)))) buf (int (512 * n)) k1 = Some (int (512 * n), put_bytes (bytes_at data 0 (512 * n)) buf 0, f2, k2)
    \<and> emu_ok k2 mp \<and> fblock k2 mp = fblock k1 mp"
proof -
  have h: "emu_ok k mp" "e_mp f = mp" "e_inum f = i" "e_off f = int (512 * j)" "used_file k mp i"
    using assms(1) by (auto simp: handle_def)
  obtain k1 where k1: "ewrite junk f data (int (512 * n)) k = Some (int (512 * n), f\<lparr>e_off := int (512 * j + 512 * n)\<rparr>, k1)" "emu_ok k1 mp"
      "mounts k1 = mounts k" "\<forall>i' j'. fblock k1 mp i' j' = (if i' = i \<and> j \<le> j' \<and> j' < j + n
         then Some (bytes_at data (512 * (j' - j)) 512) else fblock k mp i' j')"
    using ewrite_ok [OF h(1-5), of "512 * n" j n junk data] assms(3,4) by auto
  define f1 where "f1 = f\<lparr>e_off := int (512 * j + 512 * n)\<rparr>"
  have s: "e_mp (snd (eseek f1 (int (512 * j)))) = mp" "e_inum (snd (eseek f1 (int (512 * j)))) = i"
      "e_off (snd (eseek f1 (int (512 * j)))) = int (512 * j)" using h by (simp_all add: eseek_def f1_def)
  have all: "fblock k1 mp i (j + t) \<noteq> None" if "t < n" for t using k1(4) that by simp
  obtain k2 where k2: "eread junk' (snd (eseek f1 (int (512 * j)))) buf (int (512 * n)) k1 =
      Some (int (512 * n), put_bytes (fbytes k1 mp i j n) buf 0, (snd (eseek f1 (int (512 * j))))\<lparr>e_off := int (512 * j + 512 * n)\<rparr>, k2)"
    "emu_ok k2 mp" "fblock k2 mp = fblock k1 mp"
    using eread_ok [where junk = junk' and data = buf and sz = "512 * n", OF k1(2) s assms(3) _ _ _ all] assms(2,3) k1(3) by auto
  have "fbytes k1 mp i j n = concat (map (\<lambda>t. bytes_at data (512 * t) 512) [0 ..< n])"
    unfolding fbytes_def upt_add_map map_map using k1(4) by (intro arg_cong [of _ _ concat] map_cong) simp_all
  then have "fbytes k1 mp i j n = bytes_at data 0 (512 * n)" by (simp add: concat_bytes_at)
  then show ?thesis using k1(1) k2 unfolding f1_def [symmetric] by auto
qed

theorem emu_write_read_roundtrip_witness:
  "\<exists>k f f1 f2 k1 k2. ewrite (\<lambda>_. 0) f (\<lambda>x. of_nat x) (int (512 * 2)) k = Some (int (512 * 2), f1, k1)
    \<and> eread (\<lambda>_. 0) (snd (eseek f1 (int (512 * 0)))) (\<lambda>_. 0) (int (512 * 2)) k1
        = Some (int (512 * 2), put_bytes (bytes_at (\<lambda>x. of_nat x) 0 (512 * 2)) (\<lambda>_. 0) 0, f2, k2)"
proof -
  obtain k f where k: "handle k 0 0 0 f" "m_fs (mounts k ! 0) = 1" "free_count k 0 = 8" by (rule demo_emufile)
  have "lacks k 0 0 0 2 \<le> free_count k 0" using lacks_le [of k 0 0 0 2] k(3) by simp
  moreover have "handle k 0 0 (512 * 0) f" using k(1) by simp
  ultimately show ?thesis
    using emu_write_read_roundtrip [OF _ k(2), of 0 0 f 2 "\<lambda>_. 0" "\<lambda>x. of_nat x" "\<lambda>_. 0" "\<lambda>_. 0"] by fastforce
qed

text \<open>
  File systems without encryption do not: \<open>eread\<close> copies with \<open>strcpy\<close>, so it stops after the first zero byte,
  although it reports the full size; without a zero byte in the data it runs past the end of its buffer.
\<close>

theorem eread_plain_stops_at_nul:
  assumes "handle k mp i (512 * j) f" "m_fs (mounts k ! mp) \<noteq> 1" "j + n \<le> 4" "\<And>t. t < n \<Longrightarrow> fblock k mp i (j + t) \<noteq> None"
    "c = fbytes k mp i j n"
  shows "\<exists>f' k'. eread junk f buf (int (512 * n)) k =
    (if 0 \<in> set c then Some (int (512 * n), put_bytes (takeWhile (\<lambda>b. b \<noteq> 0) c @ [0]) buf 0, f', k') else None)"
proof -
  have h: "emu_ok k mp" "e_mp f = mp" "e_inum f = i" "e_off f = int (512 * j)"
    using assms(1) by (auto simp: handle_def)
  obtain k' where k': "eread junk f buf (int (512 * n)) k = map_option (\<lambda>data. (int (512 * n), data, f\<lparr>e_off := int (512 * j + 512 * n)\<rparr>, k'))
      (strcpy_obj (512 * n) (put_bytes c junk 0) buf)"
    using eread_ok [where junk = junk and data = buf and sz = "512 * n", OF h assms(3) _ _ _ assms(4)] assms(2,3,5) by auto
  have "length c = 512 * n" unfolding assms(5) by (rule length_fbytes) (rule assms(4))
  then show ?thesis using k' strcpy_obj_list [of c junk buf] by auto
qed

theorem eread_plain_stops_at_nul_witness:
  "\<exists>k f. handle k 0 0 (512 * 0) f \<and> eread (\<lambda>_. 0) f (\<lambda>_. 0) (int (512 * 1)) k = None"
proof -
  obtain k f where k: "handle k 0 0 0 f" "m_fs (mounts k ! 0) = 0" "free_count k 0 = 8" by (rule demo_emufile)
  then have h: "emu_ok k 0" "e_mp f = 0" "e_inum f = 0" "e_off f = int 0" "used_file k 0 0" by (auto simp: handle_def)
  obtain k1 where k1: "emu_ok k1 0" "mounts k1 = mounts k" "\<forall>i. used_file k1 0 i = used_file k 0 i"
    "\<forall>i' j'. fblock k1 0 i' j' = (if i' = 0 \<and> 0 \<le> j' \<and> j' < 0 + 1 then Some (bytes_at (\<lambda>_. 65) (512 * (j' - 0)) 512) else fblock k 0 i' j')"
    using ewrite_ok [OF h, of 512 0 1 "\<lambda>_. 0" "\<lambda>_. 65"] lacks_le [of k 0 0 0 1] k(3) by auto
  have f0: "fblock k1 0 0 0 = Some (bytes_at (\<lambda>_. 65) 0 512)" using k1(4) by simp
  then have "fbytes k1 0 0 0 1 = bytes_at (\<lambda>_. 65) 0 512" by (simp add: fbytes_def)
  then have nz: "0 \<notin> set (fbytes k1 0 0 0 1)" by (simp add: bytes_at_def image_iff)
  have "handle k1 0 0 (512 * 0) f" using k(1) k1(1,3) by (simp add: handle_def)
  moreover from eread_plain_stops_at_nul [OF this _ _ _ refl, of 1 "\<lambda>_. 0" "\<lambda>_. 0"] nz f0 k(2) k1(2)
  have "eread (\<lambda>_. 0) f (\<lambda>_. 0) (int (512 * 1)) k1 = None" by simp
  ultimately show ?thesis by blast
qed

end
