(* ===== verification/EmufsTypes.thy ===== *)
theory EmufsTypes
  imports EmufsSpec
begin

text \<open>
  The file system of lab 11 as its users call it: any sequence of \<open>eopen\<close>, \<open>eseek\<close>, \<open>ewrite\<close> and
  \<open>eread\<close>, on any of the handles so far, whether the calls succeed or fail.
\<close>

section \<open>Calls\<close>

text \<open>A handle is named by its place in the list of the handles that were given out.\<close>

datatype emu_call = Open "byte list" | Seek nat nat | Write nat mem nat | Read nat mem nat

type_synonym emu_state = "emuk \<times> file_t list"

text \<open>One call; \<open>None\<close> is an access outside of the objects of the program.\<close>

fun emu_do :: "mem \<Rightarrow> nat \<Rightarrow> emu_call \<Rightarrow> emu_state \<Rightarrow> emu_state option" where
  "emu_do junk mp (Open name) (k, hs) =
     map_option (\<lambda>(r, k). (k, case r of None \<Rightarrow> hs | Some f \<Rightarrow> hs @ [f])) (eopen junk mp name k)"
| "emu_do junk mp (Seek h off) (k, hs) = Some (k, hs[h := snd (eseek (hs ! h) (int off))])"
| "emu_do junk mp (Write h d sz) (k, hs) = map_option (\<lambda>(r, f, k). (k, hs[h := f])) (ewrite junk (hs ! h) d (int sz) k)"
| "emu_do junk mp (Read h d sz) (k, hs) = map_option (\<lambda>(r, d, f, k). (k, hs[h := f])) (eread junk (hs ! h) d (int sz) k)"

text \<open>The arguments are in the range of their types: a name fits the inode, a handle was given out, offsets are not negative.\<close>

fun call_ok :: "emu_call \<Rightarrow> emu_state \<Rightarrow> bool" where
  "call_ok (Open name) (k, hs) \<longleftrightarrow> length name < 10"
| "call_ok (Seek h off) (k, hs) \<longleftrightarrow> h < length hs \<and> off < 2147483648"
| "call_ok (Write h d sz) (k, hs) \<longleftrightarrow> h < length hs \<and> e_off (hs ! h) + int sz < 2147483648"
| "call_ok (Read h d sz) (k, hs) \<longleftrightarrow> h < length hs \<and> e_off (hs ! h) + int sz < 2147483648"

inductive emu_session :: "nat \<Rightarrow> emu_state \<Rightarrow> emu_state \<Rightarrow> bool" for mp where
  start: "emu_session mp s s"
| call: "emu_session mp s t \<Longrightarrow> call_ok c t \<Longrightarrow> emu_do junk mp c t = Some u \<Longrightarrow> emu_session mp s u"

text \<open>A well-typed state: the metadata of the disk is well formed and every handle is one of a file in use.\<close>

definition emu_typed :: "nat \<Rightarrow> emu_state \<Rightarrow> bool" where
  "emu_typed mp s \<longleftrightarrow> emu_ok (fst s) mp \<and> (\<forall>f \<in> set (snd s). \<exists>i off. handle (fst s) mp i off f)"

section \<open>Preservation\<close>

lemma emu_typed_handle: "emu_typed mp (k, hs) \<Longrightarrow> h < length hs \<Longrightarrow> \<exists>i off. handle k mp i off (hs ! h)"
  using nth_mem unfolding emu_typed_def by fastforce

lemma emu_typed_same_disk: "same_disk k k' \<Longrightarrow> emu_typed mp (k, hs) \<Longrightarrow> emu_typed mp (k', hs)"
  using same_disk_emu same_disk_handle unfolding emu_typed_def fst_conv snd_conv by blast

lemma emu_typed_upd:
  assumes "emu_typed mp (k, hs)" "emu_ok k' mp" "\<And>i. used_file k mp i \<Longrightarrow> used_file k' mp i" "handle k' mp i off f"
  shows "emu_typed mp (k', hs[h := f])" "emu_typed mp (k', hs @ [f])"
proof -
  have "\<exists>i off. handle k' mp i off g" if "g \<in> set hs" for g
  proof -
    from assms(1) that obtain i off where "handle k mp i off g" by (auto simp: emu_typed_def)
    then show ?thesis using assms(2,3) unfolding handle_def by blast
  qed
  then show "emu_typed mp (k', hs[h := f])" "emu_typed mp (k', hs @ [f])"
    using assms(2,4) set_update_subset_insert [of hs h f] unfolding emu_typed_def fst_conv snd_conv by auto
qed

lemma open_typed:
  assumes "emu_typed mp (k, hs)" "length name < 10"
  shows "\<exists>k' hs'. emu_do junk mp (Open name) (k, hs) = Some (k', hs') \<and> emu_typed mp (k', hs') \<and> mounts k' = mounts k"
proof -
  have ok: "emu_ok k mp" using assms(1) by (simp add: emu_typed_def)
  show ?thesis
  proof (cases "file_named k mp name")
    case (Some i)
    obtain k' where k': "eopen junk mp name k = Some (Some \<lparr>e_off = 0, e_inum = i, e_mp = mp\<rparr>, k')" "emu_ok k' mp" "mounts k' = mounts k"
      "agree (plain k' mp 1) (plain k mp 1)"
      using eopen_found [OF ok assms(2) Some] by blast
    have h: "handle k' mp i 0 \<lparr>e_off = 0, e_inum = i, e_mp = mp\<rparr>"
      using agree_used_file [OF k'(4)] file_named_used [OF Some] by (simp add: handle_def k'(2))
    show ?thesis using emu_typed_upd(2) [OF assms(1) k'(2) _ h] agree_used_file [OF k'(4)] k'(1,3) by simp
  next
    case None
    show ?thesis
    proof (cases "free_inode k mp")
      case n: None
      obtain k' where "eopen junk mp name k = Some (None, k')" "same_disk k k'" using eopen_full [OF ok assms(2) None n] by blast
      then show ?thesis using emu_typed_same_disk [OF _ assms(1)] same_disk_mounts(1) by auto
    next
      case (Some i)
      obtain k' where k': "eopen junk mp name k = Some (Some \<lparr>e_off = 0, e_inum = i, e_mp = mp\<rparr>, k')" "emu_ok k' mp" "mounts k' = mounts k"
        "\<forall>i'. used_file k' mp i' \<longleftrightarrow> i' = i \<or> used_file k mp i'"
        using eopen_new [OF ok assms(2) None Some] by blast
      have h: "handle k' mp i 0 \<lparr>e_off = 0, e_inum = i, e_mp = mp\<rparr>" using k'(4) by (simp add: handle_def k'(2))
      show ?thesis using emu_typed_upd(2) [OF assms(1) k'(2) _ h] k'(1,3,4) by simp
    qed
  qed
qed

lemma write_typed:
  assumes t: "emu_typed mp (k, hs)" and c: "call_ok (Write h d sz) (k, hs)"
  shows "\<exists>k' hs'. emu_do junk mp (Write h d sz) (k, hs) = Some (k', hs') \<and> emu_typed mp (k', hs') \<and> mounts k' = mounts k"
proof -
  obtain i off where h: "handle k mp i off (hs ! h)" using emu_typed_handle [OF t, of h] c by auto
  then have f: "e_mp (hs ! h) = mp" "e_inum (hs ! h) = i" "e_off (hs ! h) = int off" and ok: "emu_ok k mp" and u: "used_file k mp i"
    by (simp_all add: handle_def)
  have keep: ?thesis if "ewrite junk (hs ! h) d (int sz) k = Some (-1, hs ! h, k')" "same_disk k k'" for k'
    using that(1) emu_typed_same_disk [OF that(2) t] same_disk_mounts(1) [OF that(2)] by simp
  consider "2048 < off + sz" | "off + sz \<le> 2048" "free_count k mp < lacks k mp i (off div 512) (sz div 512)"
    | "off + sz \<le> 2048" "lacks k mp i (off div 512) (sz div 512) \<le> free_count k mp" by linarith
  then show ?thesis
  proof cases
    case 1
    have "off + sz < 2147483648" using c f(3) by simp
    then show ?thesis using ewrite_big [OF ok f 1] keep by blast
  next
    case 2
    then show ?thesis using ewrite_full [OF ok f u 2(1) refl refl 2(2)] keep by blast
  next
    case 3
    obtain k' where k': "ewrite junk (hs ! h) d (int sz) k = Some (int sz, (hs ! h)\<lparr>e_off := int (off + sz)\<rparr>, k')" "emu_ok k' mp"
        "mounts k' = mounts k" "\<forall>i. used_file k' mp i = used_file k mp i"
      using ewrite_ok [OF ok f u 3(1) refl refl 3(2)] by blast
    have "handle k' mp i (off + sz) ((hs ! h)\<lparr>e_off := int (off + sz)\<rparr>)" using h k'(2,4) by (simp add: handle_def)
    then show ?thesis using emu_typed_upd(1) [OF t k'(2)] k'(1,3,4) by simp
  qed
qed

lemma eread_far:
  assumes "emu_ok k mp" "e_mp f = mp" "e_inum f = i" "e_off f = int off" "4 < off div 512 + sz div 512"
  shows "\<exists>k'. eread junk f data (int sz) k = Some (- 1, data, f, k') \<and> same_disk k k'"
proof -
  obtain sb md k1 k2 where r: "readSuperblock junk mp k = (sb, k1)" "readMetadata junk mp k1 = (md, k2)" "same_disk k k2"
    using read_both_ok [OF assms(1)] by blast
  have "eread junk f data (int sz) k = Some (- 1, data, f, k2)"
    unfolding eread_def assms(2-4) r(1,2) Let_def prod.case using assms(5) cdiv_int [of off 512] cdiv_int [of sz 512]
    by (simp add: BLOCKSIZE_def)
  then show ?thesis using r(3) by blast
qed

text \<open>A read that comes back leaves a typed state; on the encrypted file system every read comes back.\<close>

lemma read_typed:
  assumes t: "emu_typed mp (k, hs)" and c: "call_ok (Read h d sz) (k, hs)"
  shows "emu_do junk mp (Read h d sz) (k, hs) = Some (k', hs') \<Longrightarrow> emu_typed mp (k', hs') \<and> mounts k' = mounts k"
    "m_fs (mounts k ! mp) = 1 \<Longrightarrow> emu_do junk mp (Read h d sz) (k, hs) \<noteq> None"
proof -
  obtain i off where h: "handle k mp i off (hs ! h)" using emu_typed_handle [OF t, of h] c by auto
  then have f: "e_mp (hs ! h) = mp" "e_inum (hs ! h) = i" "e_off (hs ! h) = int off" and ok: "emu_ok k mp" and u: "used_file k mp i"
    by (simp_all add: handle_def)
  let ?j = "off div 512" and ?n = "sz div 512"
  have fit: "off + sz < 2147483648" using c f(3) by simp
  have fails: "\<exists>u. eread junk (hs ! h) d (int sz) k = Some (- 1, d, hs ! h, u) \<and> same_disk k u"
    if far: "4 < ?j + ?n \<or> (\<exists>t < ?n. fblock k mp i (?j + t) = None)"
  proof (cases "4 < ?j + ?n")
    case True
    then show ?thesis by (rule eread_far [OF ok f])
  next
    case False
    then obtain t where "t < ?n" "fblock k mp i (?j + t) = None" using far by blast
    then show ?thesis using eread_hole [OF ok f u _ refl refl] False by simp
  qed
  have reads: "\<exists>u X. eread junk (hs ! h) d (int sz) k = map_option (\<lambda>x. (int sz, x, (hs ! h)\<lparr>e_off := int (off + sz)\<rparr>, u)) X
    \<and> (m_fs (mounts k ! mp) = 1 \<longrightarrow> X \<noteq> None) \<and> emu_typed mp (u, hs[h := (hs ! h)\<lparr>e_off := int (off + sz)\<rparr>]) \<and> mounts u = mounts k"
    if a: "\<not> 4 < ?j + ?n" "\<not> (\<exists>t < ?n. fblock k mp i (?j + t) = None)"
  proof -
    have all: "fblock k mp i (?j + t) \<noteq> None" if "t < ?n" for t using a(2) that by auto
    have le: "?j + ?n \<le> 4" using a(1) by (rule leI)
    let ?X = "if m_fs (mounts k ! mp) = 1 then Some (put_bytes (fbytes k mp i ?j ?n) d 0)
      else strcpy_obj sz (put_bytes (fbytes k mp i ?j ?n) junk 0) d"
    obtain v where v: "eread junk (hs ! h) d (int sz) k = map_option (\<lambda>x. (int sz, x, (hs ! h)\<lparr>e_off := int (off + sz)\<rparr>, v)) ?X"
        "emu_ok v mp" "mounts v = mounts k" "\<forall>i. used_file v mp i = used_file k mp i"
      using eread_ok [OF ok f le fit refl refl all, of junk d] by blast
    have hv: "handle v mp i (off + sz) ((hs ! h)\<lparr>e_off := int (off + sz)\<rparr>)" using h v(2,4) by (simp add: handle_def)
    have "emu_typed mp (v, hs[h := (hs ! h)\<lparr>e_off := int (off + sz)\<rparr>])"
      by (rule emu_typed_upd(1) [OF t v(2) _ hv]) (simp add: v(4))
    moreover have "m_fs (mounts k ! mp) = 1 \<longrightarrow> ?X \<noteq> None" by simp
    ultimately show ?thesis using v(1,3) by blast
  qed
  show "emu_typed mp (k', hs') \<and> mounts k' = mounts k" if d: "emu_do junk mp (Read h d sz) (k, hs) = Some (k', hs')"
  proof (cases "4 < ?j + ?n \<or> (\<exists>t < ?n. fblock k mp i (?j + t) = None)")
    case True
    from fails [OF this] obtain v where v: "eread junk (hs ! h) d (int sz) k = Some (- 1, d, hs ! h, v)" "same_disk k v" by blast
    then have "k' = v" "hs' = hs" using d by simp_all
    then show ?thesis using emu_typed_same_disk [OF v(2) t] same_disk_mounts(1) [OF v(2)] by simp
  next
    case False
    then obtain u X where u: "eread junk (hs ! h) d (int sz) k = map_option (\<lambda>x. (int sz, x, (hs ! h)\<lparr>e_off := int (off + sz)\<rparr>, u)) X"
        "emu_typed mp (u, hs[h := (hs ! h)\<lparr>e_off := int (off + sz)\<rparr>])" "mounts u = mounts k"
      using reads by blast
    then have "k' = u \<and> hs' = hs[h := (hs ! h)\<lparr>e_off := int (off + sz)\<rparr>]" using d by (cases X) simp_all
    then show ?thesis using u(2,3) by simp
  qed
  show "emu_do junk mp (Read h d sz) (k, hs) \<noteq> None" if e: "m_fs (mounts k ! mp) = 1"
  proof (cases "4 < ?j + ?n \<or> (\<exists>t < ?n. fblock k mp i (?j + t) = None)")
    case True
    from fails [OF this] show ?thesis by auto
  next
    case False
    then obtain u X where "eread junk (hs ! h) d (int sz) k = map_option (\<lambda>x. (int sz, x, (hs ! h)\<lparr>e_off := int (off + sz)\<rparr>, u)) X"
        "X \<noteq> None" using reads e by blast
    then show ?thesis by auto
  qed
qed

lemma emu_do_typed:
  assumes "emu_typed mp s" "call_ok c s"
  shows "emu_do junk mp c s = Some t \<Longrightarrow> emu_typed mp t \<and> mounts (fst t) = mounts (fst s)"
    "m_fs (mounts (fst s) ! mp) = 1 \<Longrightarrow> emu_do junk mp c s \<noteq> None"
proof -
  obtain k hs where s: "s = (k, hs)" by (cases s)
  have seek: "emu_typed mp (k, hs[h := snd (eseek (hs ! h) (int off))])" if h: "h < length hs" for h off
  proof -
    obtain i o' where i: "handle k mp i o' (hs ! h)" using emu_typed_handle [OF assms(1) [unfolded s] h] by blast
    then have ok: "emu_ok k mp" and "handle k mp i off (snd (eseek (hs ! h) (int off)))" by (simp_all add: handle_def eseek_def)
    then show ?thesis using emu_typed_upd(1) [OF assms(1) [unfolded s] ok] by simp
  qed
  show "emu_typed mp t \<and> mounts (fst t) = mounts (fst s)" if "emu_do junk mp c s = Some t"
  proof (cases c)
    case (Open name)
    then show ?thesis using open_typed [of mp k hs name junk] assms that by (auto simp: s)
  next
    case (Seek h off)
    then show ?thesis using seek [of h off] assms(2) that by (auto simp: s)
  next
    case (Write h d sz)
    then show ?thesis using write_typed [of mp k hs h d sz junk] assms that by (auto simp: s)
  next
    case (Read h d sz)
    then show ?thesis using read_typed(1) [of mp k hs h d sz junk "fst t" "snd t"] assms that by (simp add: s)
  qed
  show "emu_do junk mp c s \<noteq> None" if "m_fs (mounts (fst s) ! mp) = 1"
  proof (cases c)
    case (Open name)
    then show ?thesis using open_typed [of mp k hs name junk] assms by (auto simp: s)
  next
    case (Write h d sz)
    then show ?thesis using write_typed [of mp k hs h d sz junk] assms by (auto simp: s)
  next
    case (Read h d sz)
    then show ?thesis using read_typed(2) [of mp k hs h d sz junk] assms that by (simp add: s)
  qed (simp add: s)
qed

text \<open>
  C31: Well-typed calls keep the file system well typed: after any session, whatever succeeded or failed in it,
  the superblock and the inodes are well formed (every block of a file lies on the disk, is marked used and
  belongs to no other file) and every handle is one of a file in use. On the encrypted file system no
  well-typed call of such a session goes wrong.
\<close>

theorem emu_session_typed:
  assumes "emu_session mp s t" "emu_typed mp s"
  shows "emu_typed mp t \<and> (m_fs (mounts (fst s) ! mp) = 1 \<longrightarrow> (\<forall>junk c. call_ok c t \<longrightarrow> emu_do junk mp c t \<noteq> None))"
proof -
  have "emu_typed mp t \<and> mounts (fst t) = mounts (fst s)"
    using assms
  proof (induction rule: emu_session.induct)
    case (call s t c junk u)
    then show ?case using emu_do_typed(1) [of mp t c junk u] by simp
  qed simp
  then show ?thesis using emu_do_typed(2) by metis
qed

lemma emu_session_typed_witness:
  "\<exists>k t. emu_session 0 (k, []) t \<and> length (snd t) = 1 \<and> emu_typed 0 t
     \<and> emu_do (\<lambda>_. 0) 0 (Read 0 (\<lambda>_. 0) 512) t \<noteq> None"
proof -
  obtain k where k: "emu_ok k 0" "m_fs (mounts k ! 0) = 1" "file_named k 0 [102] = None" "free_inode k 0 = Some 0"
    by (rule demo_emufs [of 1])
  obtain k2 where o: "eopen (\<lambda>_. 0) 0 [102] k = Some (Some \<lparr>e_off = 0, e_inum = 0, e_mp = 0\<rparr>, k2)"
    using eopen_new [OF k(1) _ k(3,4), of "\<lambda>_. 0"] by auto
  let ?t = "(k2, [\<lparr>e_off = 0, e_inum = 0, e_mp = 0\<rparr>])"
  have s: "emu_session 0 (k, []) ?t"
    by (rule emu_session.call [OF emu_session.start, where c = "Open [102]" and junk = "\<lambda>_. 0"]) (simp_all add: o)
  have "emu_typed 0 (k, [])" using k(1) by (simp add: emu_typed_def)
  note r = emu_session_typed [OF s this]
  have "call_ok (Read 0 (\<lambda>_. 0) 512) ?t" by simp
  with r k(2) have "emu_do (\<lambda>_. 0) 0 (Read 0 (\<lambda>_. 0) 512) ?t \<noteq> None" unfolding fst_conv by blast
  with s r show ?thesis by (intro exI [of _ k] exI [of _ ?t]) (simp del: emu_do.simps)
qed

end
