(* ===== verification/Sh.thy ===== *)
theory Sh
  imports CString
begin

text \<open>
  The shell of user programs, \<open>sh.c\<close>: its parser, with positions in the buffer of the line as its pointers,
  and \<open>runcmd\<close> as far as the descriptors of the programs it starts go. \<open>Panic\<close> is the function \<open>panic\<close> of the shell, which
  prints its message and ends the process. \<open>Spin\<close> is a recursion that does not end.
\<close>

section \<open>Commands\<close>

text \<open>
  The structures \<open>execcmd\<close>, \<open>redircmd\<close>, \<open>pipecmd\<close>, \<open>listcmd\<close> and \<open>backcmd\<close>. A word is the pair of the positions where
  it starts and ends; the arguments are the entries before the null pointer.
\<close>

datatype 'w cmd =
  EXEC "'w list"
| REDIR "'w cmd" 'w nat nat
| PIPE "'w cmd" "'w cmd"
| LIST "'w cmd" "'w cmd"
| BACK "'w cmd"

type_synonym span = "nat \<times> nat"

text \<open>
  \<open>parseexec\<close> keeps a pointer to its \<open>execcmd\<close> while \<open>parseredirs\<close> wraps it, and fills in \<open>argv\<close> through it.
\<close>

fun add_arg :: "'w cmd \<Rightarrow> 'w \<Rightarrow> 'w cmd" where
  "add_arg (EXEC ws) w = EXEC (ws @ [w])"
| "add_arg (REDIR c f mode fd) w = REDIR (add_arg c w) f mode fd"
| "add_arg c w = c"

definition RDONLY :: nat where "RDONLY = 0"
definition WRONLY :: nat where "WRONLY = 1"
definition CREATE :: nat where "CREATE = 512"
definition MAXARGS :: nat where "MAXARGS = 10"

section \<open>Tokens\<close>

definition whitespace :: "byte list" where "whitespace = [32, 9, 13, 10, 11]"
definition symbols :: "byte list" where "symbols = [60, 124, 62, 38, 59, 40, 41]"

fun skip_ws :: "nat \<Rightarrow> mem \<Rightarrow> nat \<Rightarrow> nat" where
  "skip_ws 0 m s = s"
| "skip_ws (Suc n) m s = (if m s \<in> set whitespace then skip_ws n m (s + 1) else s)"

fun skip_word :: "nat \<Rightarrow> mem \<Rightarrow> nat \<Rightarrow> nat" where
  "skip_word 0 m s = s"
| "skip_word (Suc n) m s = (if m s \<notin> set whitespace \<and> m s \<notin> set symbols then skip_word n m (s + 1) else s)"

text \<open>
  The token, where it starts and ends, and where the next one starts. The loops run while \<open>s < es\<close>. 43 stands for the
  token \<open>>>\<close>, 97 for a word.
\<close>

definition gettoken :: "mem \<Rightarrow> nat \<Rightarrow> nat \<Rightarrow> byte \<times> nat \<times> nat \<times> nat" where
  "gettoken m es ps =
     (let q = skip_ws (es - ps) m ps;
          (ret, s) = (if m q = 0 then (0, q)
                      else if m q \<in> {124, 40, 41, 59, 38, 60} then (m q, q + 1)
                      else if m q = 62 then (if m (q + 1) = 62 then (43, q + 2) else (62, q + 1))
                      else (97, skip_word (es - q) m q))
      in (ret, q, s, skip_ws (es - s) m s))"

definition sh_peek :: "mem \<Rightarrow> nat \<Rightarrow> nat \<Rightarrow> byte list \<Rightarrow> bool \<times> nat" where
  "sh_peek m es ps toks = (let s = skip_ws (es - ps) m ps in (m s \<noteq> 0 \<and> m s \<in> set toks, s))"

section \<open>Parser\<close>

text \<open>The first argument of a loop bounds its rounds: each of them reads a token at least.\<close>

fun parseredirs :: "nat \<Rightarrow> mem \<Rightarrow> nat \<Rightarrow> span cmd \<Rightarrow> nat \<Rightarrow> (span cmd \<times> nat) res" where
  "parseredirs 0 m es c ps = Spin"
| "parseredirs (Suc n) m es c ps =
     (let (more, ps) = sh_peek m es ps [60, 62]
      in if \<not> more then Ok (c, ps)
         else let (tok, _, _, ps) = gettoken m es ps;
                  (tok2, q, eq, ps) = gettoken m es ps
              in if tok2 \<noteq> 97 then Panic ''missing file for redirection''
                 else parseredirs n m es
                        (if tok = 60 then REDIR c (q, eq) RDONLY 0
                         else if tok = 62 then REDIR c (q, eq) (WRONLY + CREATE) 1
                         else if tok = 43 then REDIR c (q, eq) (WRONLY + CREATE) 1 else c) ps)"

definition rounds :: "nat \<Rightarrow> nat \<Rightarrow> nat" where
  "rounds es ps = Suc (es - ps)"

fun parseargs :: "nat \<Rightarrow> mem \<Rightarrow> nat \<Rightarrow> nat \<Rightarrow> span cmd \<Rightarrow> nat \<Rightarrow> (span cmd \<times> nat) res" where
  "parseargs 0 m es argc ret ps = Spin"
| "parseargs (Suc n) m es argc ret ps =
     (let (stop, ps) = sh_peek m es ps [124, 41, 38, 59]
      in if stop then Ok (ret, ps)
         else let (tok, q, eq, ps) = gettoken m es ps
              in if tok = 0 then Ok (ret, ps)
                 else if tok \<noteq> 97 then Panic ''syntax''
                 else if argc + 1 \<ge> MAXARGS then Panic ''too many args''
                 else bindr (parseredirs (rounds es ps) m es (add_arg ret (q, eq)) ps) (\<lambda>(ret, ps).
                        parseargs n m es (argc + 1) ret ps))"

fun parseback :: "nat \<Rightarrow> mem \<Rightarrow> nat \<Rightarrow> span cmd \<Rightarrow> nat \<Rightarrow> (span cmd \<times> nat) res" where
  "parseback 0 m es c ps = Spin"
| "parseback (Suc n) m es c ps =
     (let (more, ps) = sh_peek m es ps [38]
      in if more then let (_, _, _, ps) = gettoken m es ps in parseback n m es (BACK c) ps else Ok (c, ps))"

text \<open>
  The four functions call each other in a circle. The parameter \<open>line\<close> is the call of \<open>parseline\<close> for what
  stands in parentheses; the first argument of \<open>parseline\<close> bounds the depth of these calls.
\<close>

type_synonym parser = "mem \<Rightarrow> nat \<Rightarrow> nat \<Rightarrow> (span cmd \<times> nat) res"

definition parseblock :: "parser \<Rightarrow> parser" where
  "parseblock line m es ps =
     (let (open, ps) = sh_peek m es ps [40]
      in if \<not> open then Panic ''parseblock''
         else let (_, _, _, ps) = gettoken m es ps
              in bindr (line m es ps) (\<lambda>(c, ps).
                 let (close, ps) = sh_peek m es ps [41]
                 in if \<not> close then Panic ''syntax - missing )''
                    else let (_, _, _, ps) = gettoken m es ps
                         in parseredirs (rounds es ps) m es c ps))"

definition parseexec :: "parser \<Rightarrow> parser" where
  "parseexec line m es ps =
     (let (block, ps) = sh_peek m es ps [40]
      in if block then parseblock line m es ps
         else bindr (parseredirs (rounds es ps) m es (EXEC []) ps) (\<lambda>(ret, ps).
                parseargs (rounds es ps) m es 0 ret ps))"

primrec parsepipe :: "parser \<Rightarrow> nat \<Rightarrow> parser" where
  "parsepipe line 0 = (\<lambda>m es ps. Spin)"
| "parsepipe line (Suc n) = (\<lambda>m es ps.
     bindr (parseexec line m es ps) (\<lambda>(c, ps).
       let (more, ps) = sh_peek m es ps [124]
       in if more
          then let (_, _, _, ps) = gettoken m es ps
               in bindr (parsepipe line n m es ps) (\<lambda>(d, ps). Ok (PIPE c d, ps))
          else Ok (c, ps)))"

primrec parseline :: "nat \<Rightarrow> parser" where
  "parseline 0 = (\<lambda>m es ps. Spin)"
| "parseline (Suc n) = (\<lambda>m es ps.
     bindr (parsepipe (parseline n) (rounds es ps) m es ps) (\<lambda>(c, ps).
     bindr (parseback (rounds es ps) m es c ps) (\<lambda>(c, ps).
       let (more, ps) = sh_peek m es ps [59]
       in if more
          then let (_, _, _, ps) = gettoken m es ps
               in bindr (parseline n m es ps) (\<lambda>(d, ps). Ok (LIST c d, ps))
          else Ok (c, ps))))"

fun nulterminate :: "span cmd \<Rightarrow> mem \<Rightarrow> mem" where
  "nulterminate (EXEC ws) m = foldl (\<lambda>m (q, eq). m(eq := 0)) m ws"
| "nulterminate (REDIR c f mode fd) m = (nulterminate c m)(snd f := 0)"
| "nulterminate (PIPE c d) m = nulterminate d (nulterminate c m)"
| "nulterminate (LIST c d) m = nulterminate d (nulterminate c m)"
| "nulterminate (BACK c) m = nulterminate c m"

text \<open>The line is at \<open>s\<close> and \<open>len\<close> characters long.\<close>

definition parsecmd :: "mem \<Rightarrow> nat \<Rightarrow> nat \<Rightarrow> (span cmd \<times> mem) res" where
  "parsecmd m s len =
     (let es = s + len
      in bindr (parseline (rounds es s) m es s) (\<lambda>(c, s).
           let (_, s) = sh_peek m es s []
           in if s \<noteq> es then Panic ''syntax'' else Ok (c, nulterminate c m)))"

section \<open>Running a command\<close>

text \<open>
  The open files of a process by descriptor: the terminal, files by name and mode, and the two ends of numbered pipes.
\<close>

datatype 'w ofile = TTY | OFILE 'w nat | PIPER nat | PIPEW nat

type_synonym 'w fdt = "nat \<Rightarrow> 'w ofile option"

definition fd_lowest :: "'w fdt \<Rightarrow> nat option" where
  "fd_lowest t = first_idx 16 (\<lambda>i. t i = None)"

definition fd_add :: "'w ofile \<Rightarrow> 'w fdt \<Rightarrow> (nat \<times> 'w fdt) option" where
  "fd_add x t = map_option (\<lambda>i. (i, t(i \<mapsto> x))) (fd_lowest t)"

definition t_close :: "nat \<Rightarrow> 'w fdt \<Rightarrow> 'w fdt" where
  "t_close fd t = t(fd := None)"

definition t_dup :: "nat \<Rightarrow> 'w fdt \<Rightarrow> 'w fdt" where
  "t_dup fd t = (case t fd of None \<Rightarrow> t | Some x \<Rightarrow> (case fd_add x t of None \<Rightarrow> t | Some (_, t) \<Rightarrow> t))"

text \<open>
  The programs that are started, with the open files each has: the command runs with the files \<open>t\<close>, and the next pipe gets
  the number \<open>k\<close>. \<open>ok\<close> says which files can be opened. A child of \<open>fork\<close> works on its own copy of \<open>t\<close>.
\<close>

fun runcmd :: "('w \<Rightarrow> nat \<Rightarrow> bool) \<Rightarrow> 'w cmd \<Rightarrow> 'w fdt \<Rightarrow> nat \<Rightarrow> ('w list \<times> 'w fdt) list \<times> nat" where
  "runcmd ok (EXEC ws) t k = (if ws = [] then ([], k) else ([(ws, t)], k))"
| "runcmd ok (REDIR c f mode fd) t k =
     (let t = t_close fd t
      in if \<not> ok f mode then ([], k)
         else (case fd_add (OFILE f mode) t of
                 None \<Rightarrow> ([], k)
               | Some (_, t) \<Rightarrow> runcmd ok c t k))"
| "runcmd ok (LIST c d) t k =
     (let (xs, k) = runcmd ok c t k;
          (ys, k) = runcmd ok d t k
      in (xs @ ys, k))"
| "runcmd ok (PIPE c d) t k =
     (case fd_add (PIPER k) t of
        None \<Rightarrow> ([], k)
      | Some (p0, t0) \<Rightarrow>
          (case fd_add (PIPEW k) t0 of
             None \<Rightarrow> ([], k)
           | Some (p1, t) \<Rightarrow>
               let (xs, k) = runcmd ok c (t_close p1 (t_close p0 (t_dup p1 (t_close 1 t)))) (k + 1);
                   (ys, k) = runcmd ok d (t_close p1 (t_close p0 (t_dup p0 (t_close 0 t)))) k
               in (xs @ ys, k)))"
| "runcmd ok (BACK c) t k = runcmd ok c t k"

end
