(* ===== verification/ShSpec.thy ===== *)
theory ShSpec
  imports Sh
begin

text \<open>
  The parser of the shell against a grammar: the tokens of a line, the grammar of commands over tokens, and that the
  parser ends and accepts exactly what the grammar derives. Words are terminated in place. The
  programs of a command get the files that its redirections and pipes say.
\<close>

section \<open>Tokens\<close>

text \<open>A line from \<open>s\<close> to \<open>es\<close>, with the zero byte that ends it.\<close>

definition line_of :: "mem \<Rightarrow> nat \<Rightarrow> nat \<Rightarrow> bool" where
  "line_of m s es \<longleftrightarrow> s \<le> es \<and> m es = 0 \<and> (\<forall>x. s \<le> x \<and> x < es \<longrightarrow> m x \<noteq> 0)"

lemma ws_syms [simp]: "0 \<notin> set whitespace" "0 \<notin> set symbols" "97 \<notin> set symbols" "43 \<notin> set symbols"
  "set whitespace \<inter> set symbols = {}"
  by (simp_all add: whitespace_def symbols_def)

lemma line_of_le: "line_of m s es \<Longrightarrow> s \<le> s' \<Longrightarrow> s' \<le> es \<Longrightarrow> line_of m s' es"
  by (auto simp: line_of_def)

lemma line_end: "line_of m s es \<Longrightarrow> s \<le> x \<Longrightarrow> x \<le> es \<Longrightarrow> m x = 0 \<longleftrightarrow> x = es"
  by (auto simp: line_of_def)

lemma skip_ws_range: "s \<le> skip_ws n m s \<and> skip_ws n m s \<le> s + n"
proof (induction n arbitrary: s)
  case (Suc n)
  from Suc.IH [of "s + 1"] show ?case by auto
qed simp

lemma skip_ws_stop: "line_of m s (s + n) \<Longrightarrow> m (skip_ws n m s) \<notin> set whitespace"
proof (induction n arbitrary: s)
  case 0
  then show ?case by (simp add: line_of_def)
next
  case (Suc n)
  have "line_of m (s + 1) (s + 1 + n)" using line_of_le [OF Suc.prems] by simp
  then show ?case using Suc.IH by simp
qed

lemma skip_ws_id: "m s \<notin> set whitespace \<Longrightarrow> skip_ws n m s = s"
  by (cases n) simp_all

lemma skip_word_range: "s \<le> skip_word n m s \<and> skip_word n m s \<le> s + n"
proof (induction n arbitrary: s)
  case (Suc n)
  from Suc.IH [of "s + 1"] show ?case by auto
qed simp

lemma skip_word_chars: "s \<le> x \<Longrightarrow> x < skip_word n m s \<Longrightarrow> m x \<notin> set whitespace \<and> m x \<notin> set symbols"
proof (induction n arbitrary: s)
  case (Suc n)
  then show ?case using Suc.IH [of "s + 1"] by (cases "x = s") (auto split: if_splits)
qed simp

lemma skip_word_stop:
  "line_of m s (s + n) \<Longrightarrow> m (skip_word n m s) \<in> set whitespace \<or> m (skip_word n m s) \<in> set symbols \<or> m (skip_word n m s) = 0"
proof (induction n arbitrary: s)
  case 0
  then show ?case by (simp add: line_of_def)
next
  case (Suc n)
  have "line_of m (s + 1) (s + 1 + n)" using line_of_le [OF Suc.prems] by simp
  then show ?case using Suc.IH by simp
qed

text \<open>Where the next token starts.\<close>

definition at_tok :: "mem \<Rightarrow> nat \<Rightarrow> nat \<Rightarrow> nat" where
  "at_tok m es ps = skip_ws (es - ps) m ps"

lemma at_tok: "line_of m ps es \<Longrightarrow> ps \<le> at_tok m es ps \<and> at_tok m es ps \<le> es \<and> m (at_tok m es ps) \<notin> set whitespace"
  using skip_ws_range [of ps "es - ps" m] skip_ws_stop [of m ps "es - ps"] by (auto simp: at_tok_def line_of_def)

lemma at_tok_es [simp]: "at_tok m es es = es"
  by (simp add: at_tok_def)

lemma at_tok_idem: "line_of m ps es \<Longrightarrow> at_tok m es (at_tok m es ps) = at_tok m es ps"
  using at_tok [of m ps es] skip_ws_id by (simp add: at_tok_def [of m es "at_tok m es ps"])

text \<open>The character a token starts with, 97 for all words.\<close>

definition tok_char :: "byte \<Rightarrow> byte" where
  "tok_char t = (if t = 43 then 62 else t)"

lemma gettoken_end: "line_of m ps es \<Longrightarrow> at_tok m es ps = es \<Longrightarrow> gettoken m es ps = (0, es, es, es)"
  by (simp add: gettoken_def at_tok_def [symmetric] line_of_def Let_def)

lemma gettoken_tok:
  assumes l: "line_of m ps es" and q: "at_tok m es ps = q" "q \<noteq> es"
  shows "\<exists>t eq. gettoken m es ps = (t, q, eq, at_tok m es eq) \<and> t \<noteq> 0 \<and> q < eq \<and> eq \<le> es
    \<and> (t = 97 \<longleftrightarrow> m q \<notin> set symbols) \<and> (m q \<in> set symbols \<longrightarrow> tok_char t = m q)
    \<and> (t = 97 \<longrightarrow> eq = skip_word (es - q) m q)"
proof -
  have q': "ps \<le> q" "q < es" "m q \<notin> set whitespace" "m q \<noteq> 0" using at_tok [OF l] q line_end [OF l, of q] by auto
  have lq: "line_of m q es" using line_of_le [OF l] q' by simp
  define r where "r = (if m q = 0 then (0, q) else if m q \<in> {124, 40, 41, 59, 38, 60} then (m q, q + 1)
     else if m q = 62 then (if m (q + 1) = 62 then (43, q + 2) else (62, q + 1)) else (97, skip_word (es - q) m q))"
  have run: "gettoken m es ps = (fst r, q, snd r, at_tok m es (snd r))"
    by (simp add: gettoken_def at_tok_def [symmetric] q(1) r_def [symmetric] split: prod.splits)
  have word: "q < skip_word (es - q) m q" if "m q \<notin> set symbols"
    using q' that skip_word_range [of "q + 1" "es - q - 1" m] by (cases "es - q") auto
  have two: "q + 2 \<le> es" if "m (q + 1) = 62" using q'(2) line_end [OF lq, of "q + 1"] that by auto
  have "fst r \<noteq> 0 \<and> q < snd r \<and> snd r \<le> es \<and> (fst r = 97 \<longleftrightarrow> m q \<notin> set symbols) \<and> (m q \<in> set symbols \<longrightarrow> tok_char (fst r) = m q)
    \<and> (fst r = 97 \<longrightarrow> snd r = skip_word (es - q) m q)"
    using q' word two skip_word_range [of q "es - q" m] by (auto simp: r_def symbols_def tok_char_def)
  then show ?thesis using run by (intro exI [of _ "fst r"] exI [of _ "snd r"]) auto
qed

text \<open>The tokens of a line: what each is, where it starts and ends.\<close>

type_synonym tok = "byte \<times> nat \<times> nat"

fun lex_n :: "nat \<Rightarrow> mem \<Rightarrow> nat \<Rightarrow> nat \<Rightarrow> tok list" where
  "lex_n 0 m es ps = []"
| "lex_n (Suc n) m es ps =
     (let (t, q, eq, ps) = gettoken m es ps in if t = 0 then [] else (t, q, eq) # lex_n n m es ps)"

definition lex :: "mem \<Rightarrow> nat \<Rightarrow> nat \<Rightarrow> tok list" where
  "lex m es ps = lex_n (rounds es ps) m es ps"

lemma lex_n_enough:
  "line_of m ps es \<Longrightarrow> es - ps < n \<Longrightarrow> es - ps < n' \<Longrightarrow> lex_n n m es ps = lex_n n' m es ps"
proof (induction n arbitrary: n' ps)
  case (Suc n)
  then obtain k where k: "n' = Suc k" by (cases n') auto
  show ?case
  proof (cases "at_tok m es ps = es")
    case True
    then show ?thesis using gettoken_end [OF Suc.prems(1)] by (simp add: k)
  next
    case False
    obtain t eq where g: "gettoken m es ps = (t, at_tok m es ps, eq, at_tok m es eq)" "at_tok m es ps < eq" "eq \<le> es"
      using gettoken_tok [OF Suc.prems(1) refl False] by blast
    have l: "line_of m eq es" using line_of_le [OF Suc.prems(1)] at_tok [OF Suc.prems(1)] g by auto
    have p: "ps < at_tok m es eq" "at_tok m es eq \<le> es" "eq \<le> at_tok m es eq" using at_tok [OF l] at_tok [OF Suc.prems(1)] g(2) by auto
    have "es - at_tok m es eq < n" "es - at_tok m es eq < k" using p(1,2) Suc.prems(2,3) k by linarith+
    moreover have "line_of m (at_tok m es eq) es" using line_of_le [OF l p(3,2)] .
    ultimately have "lex_n n m es (at_tok m es eq) = lex_n k m es (at_tok m es eq)" by (intro Suc.IH)
    then show ?thesis by (simp add: g(1) k)
  qed
qed simp

lemma lex_end: "line_of m ps es \<Longrightarrow> at_tok m es ps = es \<Longrightarrow> lex m es ps = []"
  by (simp add: lex_def rounds_def gettoken_end)

lemma lex_tok:
  assumes l: "line_of m ps es" and g: "gettoken m es ps = (t, q, eq, ps')" "t \<noteq> 0"
  shows "lex m es ps = (t, q, eq) # lex m es ps' \<and> ps < ps' \<and> line_of m ps' es \<and> at_tok m es ps = q \<and> q \<noteq> es"
proof -
  have ne: "at_tok m es ps \<noteq> es" using gettoken_end [OF l] g by auto
  then have e: "q = at_tok m es ps" "ps' = at_tok m es eq" "q < eq" "eq \<le> es" using gettoken_tok [OF l refl ne] g by auto
  have l': "line_of m eq es" using line_of_le [OF l] at_tok [OF l] e by auto
  have p: "ps < ps'" "line_of m ps' es" using at_tok [OF l] at_tok [OF l'] e line_of_le [OF l'] by auto
  have "lex m es ps = (t, q, eq) # lex_n (es - ps) m es ps'" using g by (simp add: lex_def rounds_def)
  also have "lex_n (es - ps) m es ps' = lex m es ps'" unfolding lex_def rounds_def
    by (rule lex_n_enough [OF p(2)]) (use p in \<open>auto simp: line_of_def\<close>)
  finally show ?thesis using p e ne by simp
qed

text \<open>What the parser sees of the tokens.\<close>

lemma gettoken_lex:
  assumes l: "line_of m ps es" and x: "lex m es ps = (t, q, eq) # ts"
  shows "\<exists>ps'. gettoken m es ps = (t, q, eq, ps') \<and> t \<noteq> 0 \<and> lex m es ps' = ts \<and> ps < ps' \<and> line_of m ps' es"
proof -
  have "at_tok m es ps \<noteq> es" using lex_end [OF l] x by auto
  then obtain t' eq' ps' where g: "gettoken m es ps = (t', at_tok m es ps, eq', ps')" "t' \<noteq> 0"
    using gettoken_tok [OF l refl] by blast
  then show ?thesis using lex_tok [OF l g] x by auto
qed

lemma gettoken_lex_end:
  assumes l: "line_of m ps es" and x: "lex m es ps = []"
  shows "gettoken m es ps = (0, es, es, es)"
proof -
  have "at_tok m es ps = es"
  proof (rule ccontr)
    assume "at_tok m es ps \<noteq> es"
    then obtain t' eq' ps' where g: "gettoken m es ps = (t', at_tok m es ps, eq', ps')" "t' \<noteq> 0" using gettoken_tok [OF l refl] by blast
    then show False using lex_tok [OF l g] x by simp
  qed
  then show ?thesis by (rule gettoken_end [OF l])
qed

definition next_in :: "byte set \<Rightarrow> tok list \<Rightarrow> bool" where
  "next_in S ts \<longleftrightarrow> (\<exists>t q eq us. ts = (t, q, eq) # us \<and> tok_char t \<in> S)"

lemma next_in_simps [simp]: "\<not> next_in S []" "next_in S ((t, q, eq) # us) \<longleftrightarrow> tok_char t \<in> S"
  by (auto simp: next_in_def)

lemma peek_lex:
  assumes l: "line_of m ps es" and S: "set S \<subseteq> set symbols"
  shows "\<exists>ps'. sh_peek m es ps S = (next_in (set S) (lex m es ps), ps') \<and> lex m es ps' = lex m es ps \<and> ps \<le> ps' \<and> line_of m ps' es"
proof -
  let ?q = "at_tok m es ps"
  have q: "ps \<le> ?q" "?q \<le> es" "line_of m ?q es" using at_tok [OF l] line_of_le [OF l] by auto
  have p: "sh_peek m es ps S = (m ?q \<noteq> 0 \<and> m ?q \<in> set S, ?q)" by (simp add: sh_peek_def at_tok_def Let_def)
  show ?thesis
  proof (cases "?q = es")
    case True
    then have "m ?q = 0" using l by (simp add: line_of_def)
    then show ?thesis using p q lex_end [OF l True] lex_end [OF q(3)] at_tok_idem [OF l] True by auto
  next
    case False
    obtain t eq where g: "gettoken m es ps = (t, ?q, eq, at_tok m es eq)" "t \<noteq> 0" "t = 97 \<longleftrightarrow> m ?q \<notin> set symbols"
      "m ?q \<in> set symbols \<Longrightarrow> tok_char t = m ?q" using gettoken_tok [OF l refl False] by blast
    have "at_tok m es ?q = ?q" by (rule at_tok_idem [OF l])
    then have g': "gettoken m es ?q = gettoken m es ps" unfolding gettoken_def at_tok_def [symmetric] by simp
    have "lex m es ?q = lex m es ps" using lex_tok [OF l g(1,2)] lex_tok [OF q(3)] g(1,2) unfolding g' by simp
    moreover have "next_in (set S) (lex m es ps) \<longleftrightarrow> m ?q \<noteq> 0 \<and> m ?q \<in> set S"
      using lex_tok [OF l g(1,2)] g(3,4) S by (cases "m ?q \<in> set symbols") (auto simp: tok_char_def)
    ultimately show ?thesis using p q by auto
  qed
qed

section \<open>Grammar\<close>

text \<open>
  \<open>g_redirs c d ts\<close>: the redirections \<open>ts\<close> around \<open>c\<close> give \<open>d\<close>. \<open>g_args k c d ts\<close>: the words and redirections \<open>ts\<close> after \<open>k\<close> words.
\<close>

inductive g_redirs :: "span cmd \<Rightarrow> span cmd \<Rightarrow> tok list \<Rightarrow> bool" where
  none: "g_redirs c c []"
| inp: "g_redirs (REDIR c (q, eq) RDONLY 0) d ts \<Longrightarrow> g_redirs c d ((60, a, b) # (97, q, eq) # ts)"
| outp: "t \<in> {62, 43} \<Longrightarrow> g_redirs (REDIR c (q, eq) (WRONLY + CREATE) 1) d ts \<Longrightarrow> g_redirs c d ((t, a, b) # (97, q, eq) # ts)"

inductive g_args :: "nat \<Rightarrow> span cmd \<Rightarrow> span cmd \<Rightarrow> tok list \<Rightarrow> bool" where
  none: "g_args k c c []"
| word: "k + 1 < MAXARGS \<Longrightarrow> g_redirs (add_arg c (q, eq)) d ts \<Longrightarrow> g_args (k + 1) d e us \<Longrightarrow> g_args k c e ((97, q, eq) # ts @ us)"

inductive g_backs :: "span cmd \<Rightarrow> span cmd \<Rightarrow> tok list \<Rightarrow> bool" where
  none: "g_backs c c []"
| amp: "g_backs (BACK c) d ts \<Longrightarrow> g_backs c d ((38, a, b) # ts)"

inductive g_line :: "span cmd \<Rightarrow> tok list \<Rightarrow> bool"
and g_pipe :: "span cmd \<Rightarrow> tok list \<Rightarrow> bool"
and g_exec :: "span cmd \<Rightarrow> tok list \<Rightarrow> bool" where
  words: "g_redirs (EXEC []) c ts \<Longrightarrow> g_args 0 c d us \<Longrightarrow> g_exec d (ts @ us)"
| block: "g_line c ts \<Longrightarrow> g_redirs c d us \<Longrightarrow> g_exec d ((40, a, b) # ts @ (41, a', b') # us)"
| single: "g_exec c ts \<Longrightarrow> g_pipe c ts"
| pipe: "g_exec c ts \<Longrightarrow> g_pipe d us \<Longrightarrow> g_pipe (PIPE c d) (ts @ (124, a, b) # us)"
| last: "g_pipe c ts \<Longrightarrow> g_backs c d us \<Longrightarrow> g_line d (ts @ us)"
| seq: "g_pipe c ts \<Longrightarrow> g_backs c d us \<Longrightarrow> g_line e vs \<Longrightarrow> g_line (LIST d e) (ts @ us @ (59, a, b) # vs)"

section \<open>The parser follows the grammar\<close>

text \<open>The parser ends, with a panic or with a result that satisfies \<open>Q\<close>.\<close>

fun endP :: "'a res \<Rightarrow> ('a \<Rightarrow> bool) \<Rightarrow> bool" where
  "endP (Ok x) Q = Q x"
| "endP (Panic e) Q = True"
| "endP (Block c) Q = False"
| "endP Spin Q = False"

lemma endP_bindr [simp]: "endP (bindr r f) Q = endP r (\<lambda>x. endP (f x) Q)"
  by (cases r) simp_all

lemma endP_mono: "endP r P \<Longrightarrow> (\<And>x. P x \<Longrightarrow> Q x) \<Longrightarrow> endP r Q"
  by (cases r) simp_all

text \<open>A parser at \<open>ps\<close> has read the tokens \<open>ts\<close>, which \<open>G\<close> derives.\<close>

definition reads :: "mem \<Rightarrow> nat \<Rightarrow> nat \<Rightarrow> (span cmd \<Rightarrow> tok list \<Rightarrow> bool) \<Rightarrow> (span cmd \<times> nat) \<Rightarrow> bool" where
  "reads m es ps G = (\<lambda>(c, ps'). ps \<le> ps' \<and> line_of m ps' es \<and> (\<exists>ts. lex m es ps = ts @ lex m es ps' \<and> G c ts))"

lemma peek_cases:
  assumes l: "line_of m ps es" and S: "set S \<subseteq> set symbols"
  obtains (yes) ps' t q eq ps2 where "sh_peek m es ps S = (True, ps')" "gettoken m es ps' = (t, q, eq, ps2)" "t \<noteq> 0" "tok_char t \<in> set S"
      "lex m es ps = (t, q, eq) # lex m es ps2" "ps < ps2" "line_of m ps2 es"
    | (no) ps' where "sh_peek m es ps S = (False, ps')" "lex m es ps' = lex m es ps" "ps \<le> ps'" "line_of m ps' es"
      "\<not> next_in (set S) (lex m es ps)"
proof -
  obtain ps' where p: "sh_peek m es ps S = (next_in (set S) (lex m es ps), ps')" "lex m es ps' = lex m es ps" "ps \<le> ps'" "line_of m ps' es"
    using peek_lex [OF l S] by blast
  show ?thesis
  proof (cases "next_in (set S) (lex m es ps)")
    case True
    then obtain t q eq us where x: "lex m es ps = (t, q, eq) # us" "tok_char t \<in> set S" by (auto simp: next_in_def)
    then obtain ps2 where "gettoken m es ps' = (t, q, eq, ps2)" "t \<noteq> 0" "lex m es ps2 = us" "ps' < ps2" "line_of m ps2 es"
      using gettoken_lex [OF p(4)] p(2) by metis
    then show ?thesis using yes p True x by auto
  next
    case False then show ?thesis using no p by auto
  qed
qed

lemma gettoken_cases:
  assumes l: "line_of m ps es"
  obtains (tok) t q eq ps' where "gettoken m es ps = (t, q, eq, ps')" "t \<noteq> 0" "lex m es ps = (t, q, eq) # lex m es ps'" "ps < ps'" "line_of m ps' es"
    | (end_) "gettoken m es ps = (0, es, es, es)" "lex m es ps = []" "lex m es es = []" "ps \<le> es" "line_of m es es"
proof (cases "lex m es ps")
  case Nil
  moreover have "line_of m es es" "ps \<le> es" using l by (auto simp: line_of_def)
  ultimately show ?thesis using end_ gettoken_lex_end [OF l Nil] lex_end [of m es es] by auto
next
  case (Cons a ts)
  then obtain t q eq where "a = (t, q, eq)" by (cases a) auto
  then show ?thesis using tok gettoken_lex [OF l, of t q eq ts] Cons by auto
qed

lemma syms [simp]: "set [60, 62] \<subseteq> set symbols" "set [124, 41, 38, 59] \<subseteq> set symbols" "set [38] \<subseteq> set symbols"
  "set [59] \<subseteq> set symbols" "set [124] \<subseteq> set symbols" "set [40] \<subseteq> set symbols" "set [41] \<subseteq> set symbols" "set [] \<subseteq> set symbols"
  by (simp_all add: symbols_def)

lemma tok_char_eq: "tok_char t = c \<Longrightarrow> c \<noteq> 62 \<Longrightarrow> t = c" "tok_char t = 62 \<Longrightarrow> t = 62 \<or> t = 43"
  by (auto simp: tok_char_def split: if_splits)

lemma parseredirs_reads:
  "line_of m ps es \<Longrightarrow> es - ps < n \<Longrightarrow> endP (parseredirs n m es c ps) (reads m es ps (g_redirs c))"
proof (induction n arbitrary: c ps)
  case (Suc n)
  from Suc.prems(1) syms(1) show ?case
  proof (cases rule: peek_cases)
    case (no ps')
    then show ?thesis by (auto simp: reads_def intro: g_redirs.none)
  next
    case (yes ps1 t q eq ps2)
    from yes(7) show ?thesis
    proof (cases rule: gettoken_cases)
      case end_ then show ?thesis using yes by simp
    next
      case (tok t2 q2 eq2 ps3)
      show ?thesis
      proof (cases "t2 = 97")
        case False then show ?thesis using yes tok by simp
      next
        case True
        define c' where "c' = (if t = 60 then REDIR c (q2, eq2) RDONLY 0 else REDIR c (q2, eq2) (WRONLY + CREATE) 1)"
        have t: "t = 60 \<or> t = 62 \<or> t = 43" using yes(4) by (auto simp: tok_char_def split: if_splits)
        have "endP (parseredirs n m es c' ps3) (reads m es ps3 (g_redirs c'))"
          using Suc.IH [OF tok(5)] Suc.prems(2) yes(6) tok(4,5) by (auto simp: line_of_def)
        then have "endP (parseredirs n m es c' ps3) (reads m es ps (g_redirs c))"
        proof (rule endP_mono)
          fix x assume "reads m es ps3 (g_redirs c') x"
          then obtain d ps4 ts where "x = (d, ps4)" "ps3 \<le> ps4" "line_of m ps4 es" "lex m es ps3 = ts @ lex m es ps4" "g_redirs c' d ts"
            by (auto simp: reads_def)
          moreover from this(5) have "g_redirs c d ((t, q, eq) # (97, q2, eq2) # ts)"
            using t by (auto simp: c'_def intro: g_redirs.intros split: if_splits)
          ultimately show "reads m es ps (g_redirs c) x" using yes(5,6) tok(3,4) True
            by (auto simp: reads_def intro!: exI [of _ "(t, q, eq) # (97, q2, eq2) # ts"])
        qed
        then show ?thesis using yes(1,2) tok(1) True t by (auto simp: c'_def)
      qed
    qed
  qed
qed simp

text \<open>Composition: a parser for \<open>G\<close> after \<open>ts\<close> has been read.\<close>

lemma reads_after:
  assumes "endP r (reads m es ps' G)" "lex m es ps = ts @ lex m es ps'" "ps \<le> ps'" "\<And>c us. G c us \<Longrightarrow> H c (ts @ us)"
  shows "endP r (reads m es ps H)"
proof (rule endP_mono [OF assms(1)])
  fix x assume "reads m es ps' G x"
  then show "reads m es ps H x" using assms(2-4) by (auto simp: reads_def)
qed

lemma parseargs_reads:
  "line_of m ps es \<Longrightarrow> es - ps < n \<Longrightarrow> endP (parseargs n m es k c ps) (reads m es ps (g_args k c))"
proof (induction n arbitrary: k c ps)
  case (Suc n)
  from Suc.prems(1) syms(2) show ?case
  proof (cases rule: peek_cases)
    case (yes ps1 t q eq ps2)
    then obtain ps' where "sh_peek m es ps [124, 41, 38, 59] = (True, ps')" "lex m es ps' = lex m es ps" "ps \<le> ps'" "line_of m ps' es"
      using peek_lex [OF Suc.prems(1) syms(2)] by auto
    then show ?thesis by (auto simp: reads_def intro: g_args.none)
  next
    case (no ps1)
    from no(4) show ?thesis
    proof (cases rule: gettoken_cases)
      case end_
      then show ?thesis using no by (auto simp: reads_def intro: g_args.none)
    next
      case (tok t q eq ps2)
      show ?thesis
      proof (cases "t = 97 \<and> k + 1 < MAXARGS")
        case False
        then show ?thesis using no(1) tok(1,2) by auto
      next
        case True
        have r: "endP (parseredirs (rounds es ps2) m es (add_arg c (q, eq)) ps2) (reads m es ps2 (g_redirs (add_arg c (q, eq))))"
          by (rule parseredirs_reads [OF tok(5)]) (simp add: rounds_def)
        have "endP (bindr (parseredirs (rounds es ps2) m es (add_arg c (q, eq)) ps2) (\<lambda>(ret, ps). parseargs n m es (k + 1) ret ps))
          (reads m es ps (g_args k c))"
          unfolding endP_bindr
        proof (rule endP_mono [OF r])
          fix x assume "reads m es ps2 (g_redirs (add_arg c (q, eq))) x"
          then obtain d ps3 ts where x: "x = (d, ps3)" "ps2 \<le> ps3" "line_of m ps3 es" "lex m es ps2 = ts @ lex m es ps3"
            "g_redirs (add_arg c (q, eq)) d ts" by (auto simp: reads_def)
          have "es - ps3 < n" using Suc.prems(2) no(3) tok(4,5) x(2,3) by (auto simp: line_of_def)
          then have "endP (parseargs n m es (k + 1) d ps3) (reads m es ps3 (g_args (k + 1) d))" by (rule Suc.IH [OF x(3)])
          then have "endP (parseargs n m es (k + 1) d ps3) (reads m es ps (g_args k c))"
            by (rule reads_after [where ts = "(97, q, eq) # ts"])
              (use no(2,3) tok(3,4) x True in \<open>auto intro: g_args.word [simplified]\<close>)
          then show "endP (case x of (ret, ps) \<Rightarrow> parseargs n m es (k + 1) ret ps) (reads m es ps (g_args k c))" by (simp add: x(1))
        qed
        then show ?thesis using no(1) tok(1) True by simp
      qed
    qed
  qed
qed simp

lemma parseback_reads:
  "line_of m ps es \<Longrightarrow> es - ps < n \<Longrightarrow> endP (parseback n m es c ps) (reads m es ps (g_backs c))"
proof (induction n arbitrary: c ps)
  case (Suc n)
  from Suc.prems(1) syms(3) show ?case
  proof (cases rule: peek_cases)
    case (no ps')
    then show ?thesis by (auto simp: reads_def intro: g_backs.none)
  next
    case (yes ps1 t q eq ps2)
    have t: "t = 38" using yes(4) by (auto simp: tok_char_def split: if_splits)
    have "endP (parseback n m es (BACK c) ps2) (reads m es ps2 (g_backs (BACK c)))"
      using Suc.IH [OF yes(7)] Suc.prems(2) yes(6,7) by (auto simp: line_of_def)
    then have "endP (parseback n m es (BACK c) ps2) (reads m es ps (g_backs c))"
      by (rule reads_after [where ts = "[(t, q, eq)]"]) (use yes t in \<open>auto intro: g_backs.amp\<close>)
    then show ?thesis using yes(1,2) by simp
  qed
qed simp

text \<open>The nested lines, of which \<open>n\<close> levels are left, are read right.\<close>

definition line_reads :: "mem \<Rightarrow> nat \<Rightarrow> nat \<Rightarrow> bool" where
  "line_reads m es n \<longleftrightarrow> (\<forall>ps. line_of m ps es \<longrightarrow> es - ps < n \<longrightarrow> endP (parseline n m es ps) (reads m es ps g_line))"

lemma parseblock_reads:
  assumes lr: "line_reads m es n" and l: "line_of m ps es" "es - ps \<le> n"
  shows "endP (parseblock (parseline n) m es ps) (reads m es ps g_exec)"
  using l(1) syms(6)
proof (cases rule: peek_cases)
  case (no ps')
  then show ?thesis by (simp add: parseblock_def)
next
  case (yes ps1 t q eq ps2)
  have t: "t = 40" using yes(4) by (auto simp: tok_char_def split: if_splits)
  have n: "es - ps2 < n" using l yes(6,7) by (auto simp: line_of_def)
  have "endP (parseline n m es ps2) (reads m es ps2 g_line)" using lr yes(7) n by (simp add: line_reads_def)
  then have "endP (bindr (parseline n m es ps2) (\<lambda>(c, ps).
       let (close, ps) = sh_peek m es ps [41]
       in if \<not> close then Panic ''syntax - missing )''
          else let (_, _, _, ps) = gettoken m es ps in parseredirs (rounds es ps) m es c ps)) (reads m es ps g_exec)"
    unfolding endP_bindr
  proof (rule endP_mono)
    fix x assume "reads m es ps2 g_line x"
    then obtain c ps3 ts where x: "x = (c, ps3)" "ps2 \<le> ps3" "line_of m ps3 es" "lex m es ps2 = ts @ lex m es ps3" "g_line c ts"
      by (auto simp: reads_def)
    from x(3) syms(7) show "endP (case x of (c, ps) \<Rightarrow> let (close, ps) = sh_peek m es ps [41]
       in if \<not> close then Panic ''syntax - missing )''
          else let (_, _, _, ps) = gettoken m es ps in parseredirs (rounds es ps) m es c ps) (reads m es ps g_exec)"
    proof (cases rule: peek_cases)
      case no' : (no ps')
      then show ?thesis by (simp add: x(1))
    next
      case yes' : (yes ps4 t' q' eq' ps5)
      have t': "t' = 41" using yes'(4) by (auto simp: tok_char_def split: if_splits)
      have "endP (parseredirs (rounds es ps5) m es c ps5) (reads m es ps5 (g_redirs c))"
        by (rule parseredirs_reads [OF yes'(7)]) (simp add: rounds_def)
      then have "endP (parseredirs (rounds es ps5) m es c ps5) (reads m es ps g_exec)"
        by (rule reads_after [where ts = "(40, q, eq) # ts @ [(41, q', eq')]"])
          (use yes(5,6) x(2,4,5) yes'(5,6) t t' in \<open>auto intro: g_line_g_pipe_g_exec.block\<close>)
      then show ?thesis using yes'(1,2) by (simp add: x(1))
    qed
  qed
  then show ?thesis using yes(1,2) by (simp add: parseblock_def)
qed

lemma parseexec_reads:
  assumes lr: "line_reads m es n" and l: "line_of m ps es" "es - ps \<le> n"
  shows "endP (parseexec (parseline n) m es ps) (reads m es ps g_exec)"
proof -
  obtain b ps1 where p: "sh_peek m es ps [40] = (b, ps1)" "lex m es ps1 = lex m es ps" "ps \<le> ps1" "line_of m ps1 es"
    using peek_lex [OF l(1) syms(6)] by blast
  show ?thesis
  proof (cases b)
    case True
    have "endP (parseblock (parseline n) m es ps1) (reads m es ps1 g_exec)" using l(2) p(3) by (intro parseblock_reads [OF lr p(4)]) auto
    then have "endP (parseblock (parseline n) m es ps1) (reads m es ps g_exec)"
      by (rule reads_after [where ts = "[]"]) (use p in auto)
    then show ?thesis using True p(1) by (simp add: parseexec_def)
  next
    case False
    have "endP (parseredirs (rounds es ps1) m es (EXEC []) ps1) (reads m es ps1 (g_redirs (EXEC [])))"
      by (rule parseredirs_reads [OF p(4)]) (simp add: rounds_def)
    then have "endP (bindr (parseredirs (rounds es ps1) m es (EXEC []) ps1) (\<lambda>(ret, ps). parseargs (rounds es ps) m es 0 ret ps))
      (reads m es ps g_exec)" unfolding endP_bindr
    proof (rule endP_mono)
      fix x assume "reads m es ps1 (g_redirs (EXEC [])) x"
      then obtain c ps3 ts where x: "x = (c, ps3)" "ps1 \<le> ps3" "line_of m ps3 es" "lex m es ps1 = ts @ lex m es ps3" "g_redirs (EXEC []) c ts"
        by (auto simp: reads_def)
      have "endP (parseargs (rounds es ps3) m es 0 c ps3) (reads m es ps3 (g_args 0 c))"
        by (rule parseargs_reads [OF x(3)]) (simp add: rounds_def)
      then have "endP (parseargs (rounds es ps3) m es 0 c ps3) (reads m es ps g_exec)"
        by (rule reads_after [where ts = ts]) (use x p in \<open>auto intro: g_line_g_pipe_g_exec.words\<close>)
      then show "endP (case x of (ret, ps) \<Rightarrow> parseargs (rounds es ps) m es 0 ret ps) (reads m es ps g_exec)" by (simp add: x(1))
    qed
    then show ?thesis using False p(1) by (simp add: parseexec_def)
  qed
qed

lemma parsepipe_reads:
  assumes lr: "line_reads m es n"
  shows "line_of m ps es \<Longrightarrow> es - ps \<le> n \<Longrightarrow> es - ps < k \<Longrightarrow> endP (parsepipe (parseline n) k m es ps) (reads m es ps g_pipe)"
proof (induction k arbitrary: ps)
  case (Suc k)
  have "endP (parsepipe (parseline n) (Suc k) m es ps) (reads m es ps g_pipe)" unfolding parsepipe.simps endP_bindr
  proof (rule endP_mono [OF parseexec_reads [OF lr Suc.prems(1,2)]])
    fix x assume "reads m es ps g_exec x"
    then obtain c ps1 ts where x: "x = (c, ps1)" "ps \<le> ps1" "line_of m ps1 es" "lex m es ps = ts @ lex m es ps1" "g_exec c ts"
      by (auto simp: reads_def)
    from x(3) syms(5) show "endP (case x of (c, ps) \<Rightarrow> let (more, ps) = sh_peek m es ps [124]
       in if more then let (_, _, _, ps) = gettoken m es ps in bindr (parsepipe (parseline n) k m es ps) (\<lambda>(d, ps). Ok (PIPE c d, ps))
          else Ok (c, ps)) (reads m es ps g_pipe)"
    proof (cases rule: peek_cases)
      case (no ps2)
      then show ?thesis using x by (auto simp: reads_def intro: g_line_g_pipe_g_exec.single)
    next
      case (yes ps2 t q eq ps3)
      have t: "t = 124" using yes(4) by (auto simp: tok_char_def split: if_splits)
      have "es - ps3 < es - ps" using x(2) yes(6,7) by (auto simp: line_of_def)
      then have "endP (parsepipe (parseline n) k m es ps3) (reads m es ps3 g_pipe)"
        using Suc.prems(2,3) by (intro Suc.IH [OF yes(7)]) auto
      then have "endP (parsepipe (parseline n) k m es ps3) (\<lambda>(d, ps'). reads m es ps g_pipe (PIPE c d, ps'))"
      proof (rule endP_mono)
        fix y assume "reads m es ps3 g_pipe y"
        then show "(\<lambda>(d, ps'). reads m es ps g_pipe (PIPE c d, ps')) y" using x yes(5,6) t
          by (auto simp: reads_def intro!: exI [of _ "ts @ (124, q, eq) # us" for us] intro: g_line_g_pipe_g_exec.pipe)
      qed
      then show ?thesis using yes(1,2) by (simp add: x(1) split_def)
    qed
  qed
  then show ?case .
qed simp

lemma parseline_reads: "line_reads m es n"
proof (induction n)
  case 0
  then show ?case by (simp add: line_reads_def)
next
  case (Suc n)
  show ?case unfolding line_reads_def
  proof (intro allI impI)
    fix ps assume l: "line_of m ps es" and n: "es - ps < Suc n"
    have pp: "endP (parsepipe (parseline n) (rounds es ps) m es ps) (reads m es ps g_pipe)"
      using n by (intro parsepipe_reads [OF Suc.IH l]) (auto simp: rounds_def)
    show "endP (parseline (Suc n) m es ps) (reads m es ps g_line)" unfolding parseline.simps endP_bindr
    proof (rule endP_mono [OF pp])
      fix x assume "reads m es ps g_pipe x"
      then obtain c0 ps0 us where x0: "x = (c0, ps0)" "ps \<le> ps0" "line_of m ps0 es" "lex m es ps = us @ lex m es ps0" "g_pipe c0 us"
        by (auto simp: reads_def)
      have pb: "endP (parseback (rounds es ps0) m es c0 ps0) (reads m es ps0 (g_backs c0))"
        by (rule parseback_reads [OF x0(3)]) (simp add: rounds_def)
      show "endP (case x of (c, ps) \<Rightarrow> bindr (parseback (rounds es ps) m es c ps) (\<lambda>(c, ps). let (more, ps) = sh_peek m es ps [59]
         in if more then let (_, _, _, ps) = gettoken m es ps in bindr (parseline n m es ps) (\<lambda>(d, ps). Ok (LIST c d, ps))
            else Ok (c, ps))) (reads m es ps g_line)"
        unfolding x0(1) prod.case endP_bindr
      proof (rule endP_mono [OF pb])
        fix y assume "reads m es ps0 (g_backs c0) y"
        then obtain c ps1 vs where y: "y = (c, ps1)" "ps0 \<le> ps1" "line_of m ps1 es" "lex m es ps0 = vs @ lex m es ps1" "g_backs c0 c vs"
          by (auto simp: reads_def)
        show "endP (case y of (c, ps) \<Rightarrow> let (more, ps) = sh_peek m es ps [59]
           in if more then let (_, _, _, ps) = gettoken m es ps in bindr (parseline n m es ps) (\<lambda>(d, ps). Ok (LIST c d, ps))
              else Ok (c, ps)) (reads m es ps g_line)"
          using y(3) syms(4)
        proof (cases rule: peek_cases)
          case (no ps2)
          have "g_line c (us @ vs)" by (rule g_line_g_pipe_g_exec.last [OF x0(5) y(5)])
          then show ?thesis using no x0 y by (auto simp: reads_def)
        next
          case (yes ps2 t q eq ps3)
          have t: "t = 59" using yes(4) by (auto simp: tok_char_def split: if_splits)
          have "es - ps3 < n" using n x0(2) y(2) yes(6,7) by (auto simp: line_of_def)
          then have "endP (parseline n m es ps3) (reads m es ps3 g_line)" using Suc.IH yes(7) by (simp add: line_reads_def)
          then have "endP (parseline n m es ps3) (\<lambda>(d, ps'). reads m es ps g_line (LIST c d, ps'))"
          proof (rule endP_mono)
            fix z assume "reads m es ps3 g_line z"
            then obtain d ps4 ws where z: "z = (d, ps4)" "ps3 \<le> ps4" "line_of m ps4 es" "lex m es ps3 = ws @ lex m es ps4" "g_line d ws"
              by (auto simp: reads_def)
            have "g_line (LIST c d) (us @ vs @ (59, q, eq) # ws)" by (rule g_line_g_pipe_g_exec.seq [OF x0(5) y(5) z(5)])
            then show "(\<lambda>(d, ps'). reads m es ps g_line (LIST c d, ps')) z"
              using z x0 y yes(5,6) t by (auto simp: reads_def intro!: exI [of _ "us @ vs @ (59, q, eq) # ws"])
          qed
          then show ?thesis using yes(1,2) by (simp add: y(1) split_def)
        qed
      qed
    qed
  qed
qed

section \<open>What the grammar derives the parser accepts\<close>

text \<open>A parser at \<open>ps\<close> returns \<open>c\<close> and leaves the tokens \<open>us\<close>.\<close>

definition yields :: "mem \<Rightarrow> nat \<Rightarrow> nat \<Rightarrow> span cmd \<Rightarrow> tok list \<Rightarrow> (span cmd \<times> nat) res \<Rightarrow> bool" where
  "yields m es ps c us r \<longleftrightarrow> (\<exists>ps'. r = Ok (c, ps') \<and> lex m es ps' = us \<and> line_of m ps' es \<and> ps \<le> ps')"

lemma peek_no:
  assumes "line_of m ps es" "set S \<subseteq> set symbols" "\<not> next_in (set S) (lex m es ps)"
  obtains ps' where "sh_peek m es ps S = (False, ps')" "lex m es ps' = lex m es ps" "ps \<le> ps'" "line_of m ps' es"
  using peek_lex [OF assms(1,2)] assms(3) by auto

lemma peek_yes:
  assumes l: "line_of m ps es" "set S \<subseteq> set symbols" and x: "lex m es ps = (t, q, eq) # us" "tok_char t \<in> set S"
  obtains ps1 ps2 where "sh_peek m es ps S = (True, ps1)" "gettoken m es ps1 = (t, q, eq, ps2)" "lex m es ps2 = us" "ps < ps2" "line_of m ps2 es"
  using l
proof (cases rule: peek_cases)
  case (yes ps' t' q' eq' ps2)
  then show ?thesis using x that by auto
qed (use x in auto)

lemma tok_char_simps [simp]: "tok_char 60 = 60" "tok_char 62 = 62" "tok_char 43 = 62" "tok_char 97 = 97" "tok_char 124 = 124"
  "tok_char 38 = 38" "tok_char 59 = 59" "tok_char 40 = 40" "tok_char 41 = 41"
  by (simp_all add: tok_char_def)

lemma redirs_accepted:
  "g_redirs c d ts \<Longrightarrow> line_of m ps es \<Longrightarrow> lex m es ps = ts @ us \<Longrightarrow> \<not> next_in {60, 62} us \<Longrightarrow> es - ps < n \<Longrightarrow>
   yields m es ps d us (parseredirs n m es c ps)"
proof (induction arbitrary: ps n rule: g_redirs.induct)
  case (none c)
  then obtain k where k: "n = Suc k" by (cases n) auto
  from none(1) syms(1) obtain ps' where "sh_peek m es ps [60, 62] = (False, ps')" "lex m es ps' = us" "ps \<le> ps'" "line_of m ps' es"
    by (rule peek_no) (use none in auto)
  then show ?case by (simp add: k yields_def)
next
  case (inp c q eq d ts a b)
  then obtain k where k: "n = Suc k" by (cases n) auto
  from inp(3) syms(1) obtain ps1 ps2 where g: "sh_peek m es ps [60, 62] = (True, ps1)" "gettoken m es ps1 = (60, a, b, ps2)"
     "lex m es ps2 = (97, q, eq) # ts @ us" "ps < ps2" "line_of m ps2 es"
    by (rule peek_yes [where t = 60 and q = a and eq = b and us = "(97, q, eq) # ts @ us"]) (use inp(4) in auto)
  obtain ps3 where g3: "gettoken m es ps2 = (97, q, eq, ps3)" "lex m es ps3 = ts @ us" "ps2 < ps3" "line_of m ps3 es"
    using gettoken_lex [OF g(5,3)] by auto
  have "yields m es ps3 d us (parseredirs k m es (REDIR c (q, eq) RDONLY 0) ps3)"
    using inp(6) g(4,5) g3 k by (intro inp.IH inp(5)) (auto simp: line_of_def)
  then show ?case using g g3 by (auto simp: k yields_def)
next
  case (outp t c q eq d ts a b)
  then obtain k where k: "n = Suc k" by (cases n) auto
  from outp(4) syms(1) obtain ps1 ps2 where g: "sh_peek m es ps [60, 62] = (True, ps1)" "gettoken m es ps1 = (t, a, b, ps2)"
     "lex m es ps2 = (97, q, eq) # ts @ us" "ps < ps2" "line_of m ps2 es"
    by (rule peek_yes [where t = t and q = a and eq = b and us = "(97, q, eq) # ts @ us"]) (use outp(1,5) in auto)
  obtain ps3 where g3: "gettoken m es ps2 = (97, q, eq, ps3)" "lex m es ps3 = ts @ us" "ps2 < ps3" "line_of m ps3 es"
    using gettoken_lex [OF g(5,3)] by auto
  have "yields m es ps3 d us (parseredirs k m es (REDIR c (q, eq) (WRONLY + CREATE) 1) ps3)"
    using outp(7) g(4,5) g3 k by (intro outp.IH outp(6)) (auto simp: line_of_def)
  then show ?case using g g3 outp(1) by (auto simp: k yields_def)
qed

definition arg_ends :: "tok list \<Rightarrow> bool" where
  "arg_ends us \<longleftrightarrow> us = [] \<or> next_in {124, 41, 38, 59} us"

lemma arg_ends_redir: "arg_ends us \<Longrightarrow> \<not> next_in {60, 62} us" "arg_ends us \<Longrightarrow> \<not> next_in {40} us"
  by (auto simp: arg_ends_def next_in_def)

lemma args_head: "g_args k c d ts \<Longrightarrow> arg_ends us \<Longrightarrow> \<not> next_in {60, 62} (ts @ us) \<and> \<not> next_in {40} (ts @ us)"
  by (induction rule: g_args.induct) (auto dest: arg_ends_redir)

lemma redirs_head: "g_redirs c d ts \<Longrightarrow> \<not> next_in {40} us \<Longrightarrow> \<not> next_in {40} (ts @ us)"
  by (induction rule: g_redirs.induct) auto

lemma args_accepted:
  "g_args j c d ts \<Longrightarrow> line_of m ps es \<Longrightarrow> lex m es ps = ts @ us \<Longrightarrow> arg_ends us \<Longrightarrow> es - ps < n \<Longrightarrow>
   yields m es ps d us (parseargs n m es j c ps)"
proof (induction arbitrary: ps n rule: g_args.induct)
  case (none j c)
  then obtain k where k: "n = Suc k" by (cases n) auto
  obtain b ps' where p: "sh_peek m es ps [124, 41, 38, 59] = (b, ps')" "b = next_in {124, 41, 38, 59} us" "lex m es ps' = us" "ps \<le> ps'"
    "line_of m ps' es" using peek_lex [OF none(1) syms(2)] none(2) by auto
  show ?case
  proof (cases b)
    case True then show ?thesis using p by (simp add: k yields_def)
  next
    case False
    then have "us = []" using none(3) p(2) by (simp add: arg_ends_def)
    then have "gettoken m es ps' = (0, es, es, es)" using gettoken_lex_end [OF p(5)] p(3) by simp
    moreover have "line_of m es es" "lex m es es = []" "ps \<le> es" using none(1) lex_end [of m es es] by (auto simp: line_of_def)
    ultimately show ?thesis using p False \<open>us = []\<close> by (simp add: k yields_def)
  qed
next
  case (word j c q eq d ts e us')
  then obtain k where k: "n = Suc k" by (cases n) auto
  from word(5) syms(2) obtain ps1 where p: "sh_peek m es ps [124, 41, 38, 59] = (False, ps1)" "lex m es ps1 = lex m es ps" "ps \<le> ps1" "line_of m ps1 es"
    by (rule peek_no) (use word(6) in auto)
  have "lex m es ps1 = (97, q, eq) # ts @ us' @ us" using p(2) word(6) by simp
  then obtain ps2 where g: "gettoken m es ps1 = (97, q, eq, ps2)" "lex m es ps2 = ts @ us' @ us" "ps1 < ps2" "line_of m ps2 es"
    using gettoken_lex [OF p(4)] by blast
  have "yields m es ps2 d (us' @ us) (parseredirs (rounds es ps2) m es (add_arg c (q, eq)) ps2)"
    using args_head [OF word(3,7)] by (intro redirs_accepted [OF word(2) g(4,2)]) (auto simp: rounds_def)
  then obtain ps3 where r: "parseredirs (rounds es ps2) m es (add_arg c (q, eq)) ps2 = Ok (d, ps3)" "lex m es ps3 = us' @ us"
    "line_of m ps3 es" "ps2 \<le> ps3" by (auto simp: yields_def)
  have "yields m es ps3 e us (parseargs k m es (j + 1) d ps3)"
    using word(8) k p(3) g(3,4) r(3,4) by (intro word.IH r word(7)) (auto simp: line_of_def)
  then show ?case using p g r word(1) by (auto simp: k yields_def)
qed

lemma backs_accepted:
  "g_backs c d ts \<Longrightarrow> line_of m ps es \<Longrightarrow> lex m es ps = ts @ us \<Longrightarrow> \<not> next_in {38} us \<Longrightarrow> es - ps < n \<Longrightarrow>
   yields m es ps d us (parseback n m es c ps)"
proof (induction arbitrary: ps n rule: g_backs.induct)
  case (none c)
  then obtain k where k: "n = Suc k" by (cases n) auto
  from none(1) syms(3) obtain ps' where "sh_peek m es ps [38] = (False, ps')" "lex m es ps' = us" "ps \<le> ps'" "line_of m ps' es"
    by (rule peek_no) (use none in auto)
  then show ?case by (simp add: k yields_def)
next
  case (amp c d ts a b)
  then obtain k where k: "n = Suc k" by (cases n) auto
  from amp(3) syms(3) obtain ps1 ps2 where g: "sh_peek m es ps [38] = (True, ps1)" "gettoken m es ps1 = (38, a, b, ps2)"
     "lex m es ps2 = ts @ us" "ps < ps2" "line_of m ps2 es"
    by (rule peek_yes [where t = 38 and q = a and eq = b and us = "ts @ us"]) (use amp(4) in auto)
  have "yields m es ps2 d us (parseback k m es (BACK c) ps2)"
    using amp(6) g k by (intro amp.IH amp(5)) (auto simp: line_of_def)
  then show ?case using g by (auto simp: k yields_def)
qed

definition exec_accepted :: "mem \<Rightarrow> nat \<Rightarrow> span cmd \<Rightarrow> tok list \<Rightarrow> bool" where
  "exec_accepted m es c ts \<longleftrightarrow> (\<forall>ps us n. line_of m ps es \<longrightarrow> lex m es ps = ts @ us \<longrightarrow> arg_ends us \<longrightarrow> es - ps \<le> n \<longrightarrow>
     yields m es ps c us (parseexec (parseline n) m es ps))"

definition pipe_ends :: "tok list \<Rightarrow> bool" where
  "pipe_ends us \<longleftrightarrow> us = [] \<or> next_in {41, 38, 59} us"

definition line_ends :: "tok list \<Rightarrow> bool" where
  "line_ends us \<longleftrightarrow> us = [] \<or> next_in {41} us"

definition pipe_accepted :: "mem \<Rightarrow> nat \<Rightarrow> span cmd \<Rightarrow> tok list \<Rightarrow> bool" where
  "pipe_accepted m es c ts \<longleftrightarrow> (\<forall>ps us n k. line_of m ps es \<longrightarrow> lex m es ps = ts @ us \<longrightarrow> pipe_ends us \<longrightarrow> es - ps \<le> n \<longrightarrow> es - ps < k \<longrightarrow>
     yields m es ps c us (parsepipe (parseline n) k m es ps))"

definition line_accepted :: "mem \<Rightarrow> nat \<Rightarrow> span cmd \<Rightarrow> tok list \<Rightarrow> bool" where
  "line_accepted m es c ts \<longleftrightarrow> (\<forall>ps us n. line_of m ps es \<longrightarrow> lex m es ps = ts @ us \<longrightarrow> line_ends us \<longrightarrow> es - ps < n \<longrightarrow>
     yields m es ps c us (parseline n m es ps))"

lemma ends_imp: "line_ends us \<Longrightarrow> pipe_ends us" "pipe_ends us \<Longrightarrow> arg_ends us" "pipe_ends us \<Longrightarrow> \<not> next_in {124} us"
  "line_ends us \<Longrightarrow> \<not> next_in {59} us" "line_ends us \<Longrightarrow> \<not> next_in {38} us"
  by (auto simp: line_ends_def pipe_ends_def arg_ends_def next_in_def)

lemma words_accepted:
  assumes r: "g_redirs (EXEC []) c ts" and a: "g_args 0 c d us"
  shows "exec_accepted m es d (ts @ us)"
  unfolding exec_accepted_def
proof (intro allI impI)
  fix ps vs n assume l: "line_of m ps es" and x: "lex m es ps = (ts @ us) @ vs" and v: "arg_ends vs" and n: "es - ps \<le> n"
  have "\<not> next_in (set [40]) (lex m es ps)" using redirs_head [OF r] args_head [OF a v] unfolding x by simp
  from l syms(6) this obtain ps1 where p: "sh_peek m es ps [40] = (False, ps1)" "lex m es ps1 = lex m es ps" "ps \<le> ps1" "line_of m ps1 es"
    by (rule peek_no)
  have "yields m es ps1 c (us @ vs) (parseredirs (rounds es ps1) m es (EXEC []) ps1)"
    using args_head [OF a v] by (intro redirs_accepted [OF r p(4)]) (auto simp: rounds_def p(2) x)
  then obtain ps2 where q: "parseredirs (rounds es ps1) m es (EXEC []) ps1 = Ok (c, ps2)" "lex m es ps2 = us @ vs" "line_of m ps2 es" "ps1 \<le> ps2"
    by (auto simp: yields_def)
  have "yields m es ps2 d vs (parseargs (rounds es ps2) m es 0 c ps2)"
    by (rule args_accepted [OF a q(3,2) v]) (simp add: rounds_def)
  then show "yields m es ps d vs (parseexec (parseline n) m es ps)" using p q by (auto simp: parseexec_def yields_def)
qed

lemma block_accepted:
  assumes c: "line_accepted m es c ts" and r: "g_redirs c d us"
  shows "exec_accepted m es d ((40, a, b) # ts @ (41, a', b') # us)"
  unfolding exec_accepted_def
proof (intro allI impI)
  fix ps vs n assume l: "line_of m ps es" and x: "lex m es ps = ((40, a, b) # ts @ (41, a', b') # us) @ vs" and v: "arg_ends vs" and n: "es - ps \<le> n"
  obtain ps0 where p0: "sh_peek m es ps [40] = (True, ps0)" "lex m es ps0 = lex m es ps" "ps \<le> ps0" "line_of m ps0 es"
    using peek_lex [OF l syms(6)] x by auto
  obtain ps1 ps2 where p: "sh_peek m es ps0 [40] = (True, ps1)" "gettoken m es ps1 = (40, a, b, ps2)" "lex m es ps2 = ts @ (41, a', b') # us @ vs"
    "ps0 < ps2" "line_of m ps2 es" by (rule peek_yes [OF p0(4) syms(6), of 40 a b "ts @ (41, a', b') # us @ vs"]) (use p0(2) x in auto)
  have "es - ps2 < n" using n p0(3) p(4,5) by (auto simp: line_of_def)
  then have "yields m es ps2 c ((41, a', b') # us @ vs) (parseline n m es ps2)"
    using c p(3,5) by (simp add: line_accepted_def line_ends_def)
  then obtain ps3 where q: "parseline n m es ps2 = Ok (c, ps3)" "lex m es ps3 = (41, a', b') # us @ vs" "line_of m ps3 es" "ps2 \<le> ps3"
    by (auto simp: yields_def)
  obtain ps4 ps5 where e: "sh_peek m es ps3 [41] = (True, ps4)" "gettoken m es ps4 = (41, a', b', ps5)" "lex m es ps5 = us @ vs" "ps3 < ps5" "line_of m ps5 es"
    by (rule peek_yes [OF q(3) syms(7) q(2)]) auto
  have "yields m es ps5 d vs (parseredirs (rounds es ps5) m es c ps5)"
    using arg_ends_redir [OF v] by (intro redirs_accepted [OF r e(5,3)]) (auto simp: rounds_def)
  then show "yields m es ps d vs (parseexec (parseline n) m es ps)"
    using p0 p q e by (auto simp: parseexec_def parseblock_def yields_def)
qed

lemma single_accepted:
  assumes c: "exec_accepted m es c ts"
  shows "pipe_accepted m es c ts"
  unfolding pipe_accepted_def
proof (intro allI impI)
  fix ps us n k assume l: "line_of m ps es" "lex m es ps = ts @ us" "pipe_ends us" "es - ps \<le> n" "es - ps < (k :: nat)"
  then obtain k' where k: "k = Suc k'" by (cases k) auto
  have "yields m es ps c us (parseexec (parseline n) m es ps)" using c l ends_imp(2) by (simp add: exec_accepted_def)
  then obtain ps1 where p: "parseexec (parseline n) m es ps = Ok (c, ps1)" "lex m es ps1 = us" "line_of m ps1 es" "ps \<le> ps1"
    by (auto simp: yields_def)
  obtain ps2 where "sh_peek m es ps1 [124] = (False, ps2)" "lex m es ps2 = lex m es ps1" "ps1 \<le> ps2" "line_of m ps2 es"
    by (rule peek_no [OF p(3) syms(5)]) (use p(2) ends_imp(3) [OF l(3)] in auto)
  then show "yields m es ps c us (parsepipe (parseline n) k m es ps)" using p by (simp add: k yields_def)
qed

lemma pipe_accepted:
  assumes c: "exec_accepted m es c ts" and d: "pipe_accepted m es d us"
  shows "pipe_accepted m es (PIPE c d) (ts @ (124, a, b) # us)"
  unfolding pipe_accepted_def [of m es "PIPE c d"]
proof (intro allI impI)
  fix ps vs n k assume l: "line_of m ps es" "lex m es ps = (ts @ (124, a, b) # us) @ vs" "pipe_ends vs" "es - ps \<le> n" "es - ps < (k :: nat)"
  then obtain k' where k: "k = Suc k'" by (cases k) auto
  have "yields m es ps c ((124, a, b) # us @ vs) (parseexec (parseline n) m es ps)" using c l by (simp add: exec_accepted_def arg_ends_def)
  then obtain ps1 where p: "parseexec (parseline n) m es ps = Ok (c, ps1)" "lex m es ps1 = (124, a, b) # us @ vs" "line_of m ps1 es" "ps \<le> ps1"
    by (auto simp: yields_def)
  obtain ps2 ps3 where g: "sh_peek m es ps1 [124] = (True, ps2)" "gettoken m es ps2 = (124, a, b, ps3)" "lex m es ps3 = us @ vs" "ps1 < ps3" "line_of m ps3 es"
    by (rule peek_yes [OF p(3) syms(5) p(2)]) auto
  have "es - ps3 \<le> n \<and> es - ps3 < k'" using l(4,5) k p(4) g(4,5) by (auto simp: line_of_def)
  then have "yields m es ps3 d vs (parsepipe (parseline n) k' m es ps3)" using d g(3,5) l(3) by (simp add: pipe_accepted_def)
  then show "yields m es ps (PIPE c d) vs (parsepipe (parseline n) k m es ps)" using p g by (auto simp: k yields_def)
qed

lemma line_start:
  assumes c: "pipe_accepted m es c ts" and b: "g_backs c d us"
    and l: "line_of m ps es" "lex m es ps = ts @ us @ vs" "pipe_ends vs" "\<not> next_in {38} vs" "es - ps < Suc n"
  obtains ps1 ps2 where "parsepipe (parseline n) (rounds es ps) m es ps = Ok (c, ps1)" "parseback (rounds es ps1) m es c ps1 = Ok (d, ps2)"
    "lex m es ps2 = vs" "line_of m ps2 es" "ps \<le> ps2"
proof -
  have "pipe_ends (us @ vs)" using b l(3) by (cases rule: g_backs.cases) (auto simp: pipe_ends_def)
  then have "yields m es ps c (us @ vs) (parsepipe (parseline n) (rounds es ps) m es ps)"
    using c l by (simp add: pipe_accepted_def rounds_def del: parsepipe.simps)
  then obtain ps1 where p: "parsepipe (parseline n) (rounds es ps) m es ps = Ok (c, ps1)" "lex m es ps1 = us @ vs" "line_of m ps1 es" "ps \<le> ps1"
    by (auto simp: yields_def)
  have "yields m es ps1 d vs (parseback (rounds es ps1) m es c ps1)"
    by (rule backs_accepted [OF b p(3,2) l(4)]) (simp add: rounds_def)
  then show ?thesis using that p by (auto simp: yields_def)
qed

lemma last_accepted:
  assumes c: "pipe_accepted m es c ts" and b: "g_backs c d us"
  shows "line_accepted m es d (ts @ us)"
  unfolding line_accepted_def
proof (intro allI impI)
  fix ps vs n assume l: "line_of m ps es" "lex m es ps = (ts @ us) @ vs" "line_ends vs" "es - ps < (n :: nat)"
  then obtain k where k: "n = Suc k" by (cases n) auto
  obtain ps1 ps2 where p: "parsepipe (parseline k) (rounds es ps) m es ps = Ok (c, ps1)" "parseback (rounds es ps1) m es c ps1 = Ok (d, ps2)"
    "lex m es ps2 = vs" "line_of m ps2 es" "ps \<le> ps2"
    by (rule line_start [OF c b, of ps vs k]) (use l k ends_imp in auto)
  obtain ps3 where "sh_peek m es ps2 [59] = (False, ps3)" "lex m es ps3 = lex m es ps2" "ps2 \<le> ps3" "line_of m ps3 es"
    by (rule peek_no [OF p(4) syms(4)]) (use p(3) ends_imp(4) [OF l(3)] in auto)
  then show "yields m es ps d vs (parseline n m es ps)" using p by (simp add: k yields_def)
qed

lemma seq_accepted:
  assumes c: "pipe_accepted m es c ts" and b: "g_backs c d us" and e: "line_accepted m es e ws"
  shows "line_accepted m es (LIST d e) (ts @ us @ (59, a, b') # ws)"
  unfolding line_accepted_def [of m es "LIST d e"]
proof (intro allI impI)
  fix ps vs n assume l: "line_of m ps es" "lex m es ps = (ts @ us @ (59, a, b') # ws) @ vs" "line_ends vs" "es - ps < (n :: nat)"
  then obtain k where k: "n = Suc k" by (cases n) auto
  obtain ps1 ps2 where p: "parsepipe (parseline k) (rounds es ps) m es ps = Ok (c, ps1)" "parseback (rounds es ps1) m es c ps1 = Ok (d, ps2)"
    "lex m es ps2 = (59, a, b') # ws @ vs" "line_of m ps2 es" "ps \<le> ps2"
    by (rule line_start [OF c b, of ps "(59, a, b') # ws @ vs" k]) (use l k in \<open>auto simp: pipe_ends_def\<close>)
  obtain ps3 ps4 where g: "sh_peek m es ps2 [59] = (True, ps3)" "gettoken m es ps3 = (59, a, b', ps4)" "lex m es ps4 = ws @ vs" "ps2 < ps4" "line_of m ps4 es"
    by (rule peek_yes [OF p(4) syms(4) p(3)]) auto
  have "es - ps4 < k" using l(4) k p(5) g(4,5) by (auto simp: line_of_def)
  then have "yields m es ps4 e vs (parseline k m es ps4)" using e g(3,5) l(3) by (simp add: line_accepted_def)
  then show "yields m es ps (LIST d e) vs (parseline n m es ps)" using p g by (auto simp: k yields_def)
qed

lemma grammar_accepted:
  "g_line c ts \<Longrightarrow> line_accepted m es c ts"
  "g_pipe d us \<Longrightarrow> pipe_accepted m es d us"
  "g_exec e vs \<Longrightarrow> exec_accepted m es e vs"
  by (induction rule: g_line_g_pipe_g_exec.inducts)
    (simp_all add: words_accepted block_accepted single_accepted pipe_accepted last_accepted seq_accepted)

section \<open>Words\<close>

definition words_of :: "tok list \<Rightarrow> span set" where
  "words_of ts = {(q, eq). (97, q, eq) \<in> set ts}"

lemma words_of_simps [simp]: "words_of [] = {}" "words_of (ts @ us) = words_of ts \<union> words_of us"
  "words_of ((t, q, eq) # ts) = (if t = 97 then {(q, eq)} else {}) \<union> words_of ts"
  by (auto simp: words_of_def)

lemma add_arg_set: "set_cmd (add_arg c w) \<subseteq> insert w (set_cmd c)"
  by (induction c w rule: add_arg.induct) auto

lemma redirs_words: "g_redirs c d ts \<Longrightarrow> set_cmd d \<subseteq> set_cmd c \<union> words_of ts"
  by (induction rule: g_redirs.induct) auto

lemma args_words: "g_args k c d ts \<Longrightarrow> set_cmd d \<subseteq> set_cmd c \<union> words_of ts"
proof (induction rule: g_args.induct)
  case (word k c q eq d ts e us)
  then show ?case using redirs_words [OF word(2)] add_arg_set [of c "(q, eq)"] by auto
qed simp

lemma backs_words: "g_backs c d ts \<Longrightarrow> set_cmd d \<subseteq> set_cmd c \<union> words_of ts"
  by (induction rule: g_backs.induct) auto

lemma line_words:
  "g_line c ts \<Longrightarrow> set_cmd c \<subseteq> words_of ts" "g_pipe d us \<Longrightarrow> set_cmd d \<subseteq> words_of us" "g_exec e vs \<Longrightarrow> set_cmd e \<subseteq> words_of vs"
proof (induction rule: g_line_g_pipe_g_exec.inducts)
  case (words c ts d us)
  then show ?case using redirs_words [OF words(1)] args_words [OF words(2)] by auto
next
  case (block c ts d us a b a' b')
  then show ?case using redirs_words [OF block(2)] by auto
next
  case (last c ts d us)
  then show ?case using backs_words [OF last(2)] by auto
next
  case (seq c ts d us e vs a b)
  then show ?case using backs_words [OF seq(2)] by auto
qed auto

lemma nulterminate_apply: "nulterminate c m x = (if x \<in> snd ` set_cmd c then 0 else m x)"
proof (induction c m rule: nulterminate.induct)
  case (1 ws m)
  show ?case by (induction ws arbitrary: m) (auto simp: split_def)
qed (auto simp: image_Un)

definition delim :: "byte \<Rightarrow> bool" where
  "delim b \<longleftrightarrow> b = 0 \<or> b \<in> set whitespace \<or> b \<in> set symbols"

lemma lex_n_words:
  "line_of m ps es \<Longrightarrow> (97, q, eq) \<in> set (lex_n n m es ps) \<Longrightarrow> q < eq \<and> delim (m eq) \<and> (\<forall>x. q \<le> x \<and> x < eq \<longrightarrow> \<not> delim (m x))"
proof (induction n arbitrary: ps)
  case (Suc n)
  show ?case
  proof (cases "at_tok m es ps = es")
    case True
    then show ?thesis using Suc.prems gettoken_end by simp
  next
    case False
    let ?q = "at_tok m es ps"
    obtain t eq' where g: "gettoken m es ps = (t, ?q, eq', at_tok m es eq')" "t \<noteq> 0" "?q < eq'" "eq' \<le> es" "t = 97 \<longrightarrow> eq' = skip_word (es - ?q) m ?q"
      using gettoken_tok [OF Suc.prems(1) refl False] by blast
    have lq: "line_of m ?q es" "line_of m eq' es" using line_of_le [OF Suc.prems(1)] at_tok [OF Suc.prems(1)] g(3,4) by auto
    have l3: "line_of m (at_tok m es eq') es" using line_of_le [OF lq(2)] at_tok [OF lq(2)] by auto
    show ?thesis
    proof (cases "(97, q, eq) = (t, ?q, eq')")
      case True
      then have e: "q = ?q" "eq = skip_word (es - ?q) m ?q" "eq = eq'" using g(5) by auto
      have "line_of m ?q (?q + (es - ?q))" using lq(1) by (simp add: line_of_def)
      then have "delim (m eq)" using skip_word_stop [of m ?q "es - ?q"] unfolding e(2) delim_def by auto
      moreover have "\<not> delim (m x)" if "q \<le> x" "x < eq" for x
        using skip_word_chars [of ?q x "es - ?q" m] line_end [OF lq(1), of x] that g(4) e unfolding delim_def by auto
      ultimately show ?thesis using g(3) e by simp
    next
      case False
      then have "(97, q, eq) \<in> set (lex_n n m es (at_tok m es eq'))" using Suc.prems(2) g(1,2) by auto
      then show ?thesis by (rule Suc.IH [OF l3])
    qed
  qed
qed simp

section \<open>The parser\<close>

lemma parseline_done:
  assumes l: "line_of m s es"
  shows "(\<exists>e. parseline (rounds es s) m es s = Panic e)
    \<or> (\<exists>c ps ts. parseline (rounds es s) m es s = Ok (c, ps) \<and> line_of m ps es \<and> lex m es s = ts @ lex m es ps \<and> g_line c ts)"
proof -
  have "endP (parseline (rounds es s) m es s) (reads m es s g_line)"
    using parseline_reads [of m es "rounds es s"] l by (simp add: line_reads_def rounds_def del: parseline.simps)
  then show ?thesis by (cases "parseline (rounds es s) m es s") (auto simp: reads_def)
qed

lemma peek_end:
  assumes l: "line_of m ps es"
  shows "\<exists>ps'. sh_peek m es ps [] = (False, ps') \<and> (ps' = es \<longleftrightarrow> lex m es ps = [])"
proof -
  have "sh_peek m es ps [] = (False, at_tok m es ps)" by (simp add: sh_peek_def at_tok_def Let_def)
  moreover have "at_tok m es ps = es \<longleftrightarrow> lex m es ps = []"
    using lex_end [OF l] gettoken_lex_end [OF l] gettoken_tok [OF l refl] by fastforce
  ultimately show ?thesis by blast
qed

lemma parsecmd_cases:
  assumes l: "line_of m s (s + len)"
  shows "(\<exists>e. parsecmd m s len = Panic e) \<or> (\<exists>c. parsecmd m s len = Ok (c, nulterminate c m) \<and> g_line c (lex m (s + len) s))"
proof -
  let ?es = "s + len"
  consider (bad) e where "parseline (rounds ?es s) m ?es s = Panic e"
    | (ok) c ps ts where "parseline (rounds ?es s) m ?es s = Ok (c, ps)" "line_of m ps ?es" "lex m ?es s = ts @ lex m ?es ps" "g_line c ts"
    using parseline_done [OF l] by blast
  then show ?thesis
  proof cases
    case bad
    then show ?thesis by (simp add: parsecmd_def del: parseline.simps)
  next
    case ok
    obtain ps' where p: "sh_peek m ?es ps [] = (False, ps')" "ps' = ?es \<longleftrightarrow> lex m ?es ps = []" using peek_end [OF ok(2)] by blast
    then show ?thesis using ok by (cases "ps' = ?es") (auto simp: parsecmd_def simp del: parseline.simps)
  qed
qed

lemma parsecmd_accepts:
  assumes l: "line_of m s (s + len)" and g: "g_line c (lex m (s + len) s)"
  shows "parsecmd m s len = Ok (c, nulterminate c m)"
proof -
  let ?es = "s + len"
  have "yields m ?es s c [] (parseline (rounds ?es s) m ?es s)"
    using grammar_accepted(1) [OF g, of m ?es] l by (simp add: line_accepted_def line_ends_def rounds_def del: parseline.simps)
  then obtain ps where p: "parseline (rounds ?es s) m ?es s = Ok (c, ps)" "lex m ?es ps = []" "line_of m ps ?es" by (auto simp: yields_def)
  obtain ps' where "sh_peek m ?es ps [] = (False, ps')" "ps' = ?es \<longleftrightarrow> lex m ?es ps = []" using peek_end [OF p(3)] by blast
  then show ?thesis using p by (simp add: parsecmd_def del: parseline.simps)
qed

text \<open>A line to try it on, "a|b".\<close>

definition line0 :: mem where
  "line0 = (\<lambda>_. 0)(0 := 97, 1 := 124, 2 := 98)"

definition cmd0 :: "span cmd" where
  "cmd0 = PIPE (EXEC [(0, 1)]) (EXEC [(2, 3)])"

lemma line0_ok: "line_of line0 0 (0 + 3)"
  by (auto simp: line_of_def line0_def)

lemma line0_lex: "lex line0 (0 + 3) 0 = [(97, 0, 1), (124, 1, 2), (97, 2, 3)]"
  by code_simp

lemma line0_line: "g_line cmd0 (lex line0 (0 + 3) 0)"
proof -
  have e: "g_exec (EXEC [(q, eq)]) [(97, q, eq)]" for q eq
    using words [OF g_redirs.none g_args.word [OF _ _ g_args.none]] g_redirs.none [of "EXEC [(q, eq)]"]
    by (fastforce simp: MAXARGS_def)
  have "g_line cmd0 (([(97, 0, 1)] @ (124, 1, 2) # [(97, 2, 3)]) @ [])"
    unfolding cmd0_def by (rule last [OF pipe [OF e single [OF e]] g_backs.none])
  then show ?thesis unfolding line0_lex by simp
qed

text \<open>
  C34: The parser decides the grammar: on every line it ends, and it returns a command exactly if the
  grammar derives it from the tokens of the line; otherwise it panics. So the grammar is unambiguous too.
\<close>

theorem parsecmd_iff_grammar:
  assumes "line_of m s (s + len)"
  shows "(parsecmd m s len = Ok (c, m') \<longleftrightarrow> g_line c (lex m (s + len) s) \<and> m' = nulterminate c m)
    \<and> ((\<exists>r. parsecmd m s len = Ok r) \<or> (\<exists>e. parsecmd m s len = Panic e))"
proof -
  consider (bad) e where "parsecmd m s len = Panic e"
    | (ok) d where "parsecmd m s len = Ok (d, nulterminate d m)" "g_line d (lex m (s + len) s)" using parsecmd_cases [OF assms] by blast
  then show ?thesis
  proof cases
    case bad
    then have "\<not> g_line c (lex m (s + len) s)" using parsecmd_accepts [OF assms, of c] by auto
    then show ?thesis using bad by simp
  next
    case ok
    then have "g_line c (lex m (s + len) s) \<longleftrightarrow> c = d" using parsecmd_accepts [OF assms, of c] by auto
    then show ?thesis using ok(1) by auto
  qed
qed

theorem parsecmd_iff_grammar_witness:
  "\<exists>m'. parsecmd line0 0 3 = Ok (cmd0, m')"
  using parsecmd_iff_grammar [OF line0_ok] line0_line by blast

text \<open>
  The strings that the command leaves in the buffer: every word of the command is a non-empty string of ordinary
  characters, as it was in the line, and is now followed by a zero byte. Terminating one word damages no other.
\<close>

theorem words_terminated:
  assumes "line_of m s (s + len)" "parsecmd m s len = Ok (c, m')" "(q, eq) \<in> set_cmd c"
  shows "q < eq \<and> m' eq = 0 \<and> bytes_at m' q (eq - q) = bytes_at m q (eq - q) \<and> list_ex delim (bytes_at m q (eq - q)) = False"
proof -
  have g: "g_line c (lex m (s + len) s)" "m' = nulterminate c m" using parsecmd_cases [OF assms(1)] assms(2) by auto
  have w: "a < b \<and> delim (m b) \<and> (\<forall>x. a \<le> x \<and> x < b \<longrightarrow> \<not> delim (m x))" if "(a, b) \<in> set_cmd c" for a b
    using lex_n_words [OF assms(1)] line_words(1) [OF g(1)] that unfolding lex_def words_of_def by blast
  have "m' x = m x" if "q \<le> x" "x < eq" for x
  proof -
    have "\<not> delim (m x)" using w [OF assms(3)] that by simp
    then have "x \<notin> snd ` set_cmd c" using w by auto
    then show ?thesis by (simp add: g(2) nulterminate_apply)
  qed
  then have "bytes_at m' q (eq - q) = bytes_at m q (eq - q)" by (intro bytes_at_cong) simp
  moreover have "m' eq = 0" using assms(3) by (force simp: g(2) nulterminate_apply)
  ultimately show ?thesis using w [OF assms(3)] by (simp add: list_ex_iff bytes_at_def)
qed

theorem words_terminated_witness:
  "\<exists>m'. parsecmd line0 0 3 = Ok (cmd0, m') \<and> m' 1 = 0 \<and> m' 3 = 0 \<and> bytes_at m' 2 1 = [98]"
proof -
  obtain m' where p: "parsecmd line0 0 3 = Ok (cmd0, m')"
    using parsecmd_accepts [OF line0_ok line0_line] by blast
  then show ?thesis using words_terminated [OF line0_ok p, of 0 1] words_terminated [OF line0_ok p, of 2 3]
    by (simp add: bytes_at_def line0_def cmd0_def)
qed

section \<open>The files of the programs\<close>

text \<open>A process with three open files.\<close>

definition std :: "'w ofile \<Rightarrow> 'w ofile \<Rightarrow> 'w ofile \<Rightarrow> 'w fdt" where
  "std i out e = (\<lambda>fd. if fd = 0 then Some i else if fd = 1 then Some out else if fd = 2 then Some e else None)"

text \<open>What a command means: the programs it starts, each with its input, output and error output; pipes are numbered from \<open>k\<close> on.\<close>

fun meaning :: "('w \<Rightarrow> nat \<Rightarrow> bool) \<Rightarrow> 'w cmd \<Rightarrow> 'w ofile \<Rightarrow> 'w ofile \<Rightarrow> 'w ofile \<Rightarrow> nat \<Rightarrow> ('w list \<times> 'w fdt) list \<times> nat" where
  "meaning ok (EXEC ws) i out e k = (if ws = [] then [] else [(ws, std i out e)], k)"
| "meaning ok (REDIR c f mode fd) i out e k =
     (if \<not> ok f mode then ([], k)
      else if fd = 0 then meaning ok c (OFILE f mode) out e k else meaning ok c i (OFILE f mode) e k)"
| "meaning ok (LIST c d) i out e k =
     (let (xs, k) = meaning ok c i out e k; (ys, k) = meaning ok d i out e k in (xs @ ys, k))"
| "meaning ok (PIPE c d) i out e k =
     (let (xs, k') = meaning ok c i (PIPEW k) e (k + 1); (ys, k') = meaning ok d (PIPER k) out e k' in (xs @ ys, k'))"
| "meaning ok (BACK c) i out e k = meaning ok c i out e k"

fun redirs_std :: "'w cmd \<Rightarrow> bool" where
  "redirs_std (EXEC ws) = True"
| "redirs_std (REDIR c f mode fd) \<longleftrightarrow> fd < 2 \<and> redirs_std c"
| "redirs_std (LIST c d) \<longleftrightarrow> redirs_std c \<and> redirs_std d"
| "redirs_std (PIPE c d) \<longleftrightarrow> redirs_std c \<and> redirs_std d"
| "redirs_std (BACK c) = redirs_std c"

lemma fd_addI: "j < 16 \<Longrightarrow> t j = None \<Longrightarrow> \<forall>l < j. t l \<noteq> None \<Longrightarrow> fd_add x t = Some (j, t(j \<mapsto> x))"
  by (simp add: fd_add_def fd_lowest_def first_idx_Some [THEN iffD2])

lemma all_less_3: "(\<forall>l < (3 :: nat). P l) \<longleftrightarrow> P 0 \<and> P 1 \<and> P 2"
  by (auto simp: numeral_3_eq_3 less_Suc_eq numeral_2_eq_2)

lemma redir_std:
  "fd_add x (t_close 0 (std i out e)) = Some (0, std x out e)" "fd_add x (t_close 1 (std i out e)) = Some (1, std i x e)"
  by (subst fd_addI; auto simp: t_close_def std_def fun_eq_iff)+

lemma pipe_std:
  "fd_add x (std i out e) = Some (3, (std i out e)(3 \<mapsto> x))"
  "fd_add y ((std i out e)(3 \<mapsto> x)) = Some (4, (std i out e)(3 \<mapsto> x, 4 \<mapsto> y))"
proof -
  show "fd_add x (std i out e) = Some (3, (std i out e)(3 \<mapsto> x))"
    by (rule fd_addI) (simp_all add: all_less_3 std_def)
  show "fd_add y ((std i out e)(3 \<mapsto> x)) = Some (4, (std i out e)(3 \<mapsto> x, 4 \<mapsto> y))"
    by (rule fd_addI) (auto simp: std_def)
qed

lemma pipe_left: "t_close 4 (t_close 3 (t_dup 4 (t_close 1 ((std i out e)(3 \<mapsto> x, 4 \<mapsto> y))))) = std i y e"
proof -
  have "fd_add y (t_close 1 ((std i out e)(3 \<mapsto> x, 4 \<mapsto> y))) = Some (1, (std i y e)(3 \<mapsto> x, 4 \<mapsto> y))"
    by (subst fd_addI [of 1]) (auto simp: t_close_def std_def fun_eq_iff)
  then have "t_dup 4 (t_close 1 ((std i out e)(3 \<mapsto> x, 4 \<mapsto> y))) = (std i y e)(3 \<mapsto> x, 4 \<mapsto> y)" by (simp add: t_dup_def t_close_def)
  then show ?thesis by (simp add: t_close_def std_def fun_eq_iff)
qed

lemma pipe_right: "t_close 4 (t_close 3 (t_dup 3 (t_close 0 ((std i out e)(3 \<mapsto> x, 4 \<mapsto> y))))) = std x out e"
proof -
  have "fd_add x (t_close 0 ((std i out e)(3 \<mapsto> x, 4 \<mapsto> y))) = Some (0, (std x out e)(3 \<mapsto> x, 4 \<mapsto> y))"
    by (subst fd_addI [of 0]) (auto simp: t_close_def std_def fun_eq_iff)
  then have "t_dup 3 (t_close 0 ((std i out e)(3 \<mapsto> x, 4 \<mapsto> y))) = (std x out e)(3 \<mapsto> x, 4 \<mapsto> y)" by (simp add: t_dup_def t_close_def)
  then show ?thesis by (simp add: t_close_def std_def fun_eq_iff)
qed

lemma runcmd_std: "redirs_std c \<Longrightarrow> runcmd ok c (std i out e) k = meaning ok c i out e k"
proof (induction c arbitrary: i out e k)
  case (REDIR c f mode fd)
  then have "fd = 0 \<or> fd = 1" by auto
  then show ?case using REDIR by (auto simp: redir_std redir_std(2) [unfolded One_nat_def])
next
  case (PIPE c d)
  then show ?case by (simp add: pipe_std pipe_left [unfolded One_nat_def] pipe_right Let_def)
qed (auto simp: Let_def)

lemma add_arg_std: "redirs_std c \<Longrightarrow> redirs_std (add_arg c w)"
  by (induction c w rule: add_arg.induct) auto

lemma g_redirs_std: "g_redirs c d ts \<Longrightarrow> redirs_std c \<Longrightarrow> redirs_std d"
  by (induction rule: g_redirs.induct) auto

lemma g_args_std: "g_args k c d ts \<Longrightarrow> redirs_std c \<Longrightarrow> redirs_std d"
  by (induction rule: g_args.induct) (auto intro: g_redirs_std add_arg_std)

lemma g_backs_std: "g_backs c d ts \<Longrightarrow> redirs_std c \<Longrightarrow> redirs_std d"
  by (induction rule: g_backs.induct) auto

lemma g_line_std: "g_line c ts \<Longrightarrow> redirs_std c" "g_pipe d us \<Longrightarrow> redirs_std d" "g_exec e vs \<Longrightarrow> redirs_std e"
proof (induction rule: g_line_g_pipe_g_exec.inducts)
  case (words c ts d us)
  then show ?case using g_args_std [OF words(2) g_redirs_std [OF words(1)]] by simp
qed (auto intro: g_redirs_std g_backs_std)

text \<open>
  C35: The programs that a line starts, in a shell with input \<open>i\<close>, output \<open>out\<close> and error output \<open>e\<close>. Each
  gets exactly three open files: those of the shell, except where a redirection or a pipe puts another one; no end of a
  pipe stays open besides. \<open>meaning\<close> says which; of two redirections of the same file the first one counts.
\<close>

theorem runcmd_wires:
  assumes "line_of m s (s + len)" "parsecmd m s len = Ok (c, m')"
  shows "runcmd ok c (std i out e) k = meaning ok c i out e k"
proof -
  have "g_line c (lex m (s + len) s)" using parsecmd_cases [OF assms(1)] assms(2) by auto
  then show ?thesis by (intro runcmd_std g_line_std(1))
qed

theorem runcmd_wires_witness:
  "\<exists>m'. parsecmd line0 0 3 = Ok (cmd0, m')
    \<and> runcmd (\<lambda>_ _. True) cmd0 (std TTY TTY TTY) 0
        = ([([(0, 1)], std TTY (PIPEW 0) TTY), ([(2, 3)], std (PIPER 0) TTY TTY)], 1)"
proof -
  obtain m' where p: "parsecmd line0 0 3 = Ok (cmd0, m')"
    using parsecmd_accepts [OF line0_ok line0_line] by blast
  then show ?thesis using runcmd_wires [OF line0_ok p, of "\<lambda>_ _. True" TTY TTY TTY 0] by (simp add: cmd0_def del: runcmd.simps)
qed

end
