(* ===== verification/Shmain.thy ===== *)
theory Shmain
  imports Sh Ulib
begin

text \<open>
  \<open>main\<close> of \<open>sh.c\<close>: the three open files the shell starts with, and the loop that reads lines, changes the
  directory itself and forks a child for every other line. What \<open>chdir\<close> and \<open>fork\<close> return is a parameter:
  \<open>ok k\<close> says whether the call after \<open>k\<close> actions succeeds.
\<close>

section \<open>sh.c\<close>

text \<open>The descriptors: \<open>open\<close> of the console fails when all are in use; \<open>n\<close> bounds the number of turns.\<close>

fun open_console :: "nat \<Rightarrow> 'w fdt \<Rightarrow> 'w fdt" where
  "open_console 0 t = t"
| "open_console (Suc n) t =
     (case fd_add TTY t of
        None \<Rightarrow> t
      | Some (fd, t) \<Rightarrow> if 3 \<le> fd then t_close fd t else open_console n t)"

definition getcmd :: "nat \<Rightarrow> mem \<Rightarrow> 'a uio_scheme \<Rightarrow> int \<times> mem \<times> 'a uio_scheme" where
  "getcmd nbuf buf s =
     (let s = uwrite 2 [36, 32] s;
          buf = u_memset 0 0 nbuf buf;
          (buf, s) = u_gets 0 (int nbuf) buf s
      in (if buf 0 = 0 then -1 else 0, buf, s))"

text \<open>
  What the shell does with a line: \<open>chdir\<close> with a path, or a child that parses the line and runs the command.
\<close>

datatype sh_act = Cd "byte list" | Child "(span cmd \<times> mem) res"

definition cannot_cd :: "byte list \<Rightarrow> byte list" where
  "cannot_cd path = map of_char ''cannot cd '' @ path @ [10]"

text \<open>
  The loop. A string in \<open>buf\<close> ends within its 100 bytes. When \<open>fork\<close> fails, \<open>fork1\<close> prints a message
  and the shell exits. Every line takes a character of the input, so their number bounds the turns.
\<close>

fun sh_loop :: "nat \<Rightarrow> (nat \<Rightarrow> bool) \<Rightarrow> sh_act list \<Rightarrow> mem \<Rightarrow> 'a uio_scheme \<Rightarrow> sh_act list \<times> 'a uio_scheme" where
  "sh_loop 0 ok acts buf s = (acts, s)"
| "sh_loop (Suc n) ok acts buf s =
     (let (r, buf, s) = getcmd 100 buf s
      in if r < 0 then (acts, s)
         else if buf 0 = 99 \<and> buf 1 = 100 \<and> buf 2 = 32
         then
           let buf = buf(length (array_str buf 0 100) - 1 := 0);
               path = array_str buf 3 97;
               s = (if ok (length acts) then s else uwrite 2 (cannot_cd path) s)
           in sh_loop n ok (acts @ [Cd path]) buf s
         else if \<not> ok (length acts) then (acts, uwrite 2 (map of_char ''fork'' @ [10]) s)
         else sh_loop n ok (acts @ [Child (parsecmd buf 0 (length (array_str buf 0 100)))]) buf s)"

definition sh_main :: "(nat \<Rightarrow> bool) \<Rightarrow> mem \<Rightarrow> 'a uio_scheme \<Rightarrow> sh_act list \<times> 'a uio_scheme" where
  "sh_main ok buf s = sh_loop (Suc (length (u_in s))) ok [] buf s"

section \<open>Descriptors\<close>

text \<open>When the loop ends, 0, 1 and 2 are open, whatever was open before.\<close>

lemma open_console_std:
  assumes "fd < 3"
  shows "open_console 4 t fd \<noteq> None"
proof -
  have step: "(\<forall>i < 3. open_console n t i \<noteq> None)" if "\<And>i. i < 3 \<Longrightarrow> t i = None \<Longrightarrow> i + n \<ge> 4" for n and t :: "'a fdt"
    using that
  proof (induction n arbitrary: t)
    case 0
    then show ?case by fastforce
  next
    case (Suc n)
    show ?case
    proof (cases "fd_lowest t")
      case None
      then have "\<forall>i < 16. t i \<noteq> None" by (simp add: fd_lowest_def first_idx_None)
      then show ?thesis by (auto simp: fd_add_def None)
    next
      case (Some i)
      then have i: "t i = None" "\<And>l. l < i \<Longrightarrow> t l \<noteq> None" by (auto simp: fd_lowest_def first_idx_Some)
      show ?thesis
      proof (cases "3 \<le> i")
        case True
        then show ?thesis using i Some by (auto simp: fd_add_def t_close_def)
      next
        case False
        have "\<forall>j < 3. open_console n (t(i \<mapsto> TTY)) j \<noteq> None"
        proof (rule Suc.IH)
          fix j assume j: "j < 3" "(t(i \<mapsto> TTY)) j = None"
          then have "i < j" using i(2) [of j] by (metis fun_upd_apply linorder_neqE_nat option.distinct(1))
          then show "4 \<le> j + n" using Suc.prems [of i] i(1) j(1) by simp
        qed
        then show ?thesis using False Some by (simp add: fd_add_def)
      qed
    qed
  qed
  show ?thesis using step [of t 4] assms by simp
qed

section \<open>Reading lines\<close>

lemma gets_loop_shrinks:
  "case gets_loop k acc s of (bs, t) \<Rightarrow> u_out t = u_out s \<and> (\<exists>l. bs = acc @ l \<and> u_in s = l @ u_in t \<and> length l \<le> k)"
proof (induction k arbitrary: acc s)
  case (Suc k)
  show ?case
  proof (cases "u_in s")
    case Nil
    then show ?thesis by (simp add: uread_def Let_def)
  next
    case (Cons b r)
    note u = uread_1 [OF Cons]
    show ?thesis
      using Suc.IH [where acc = "acc @ [b]" and s = "s\<lparr>u_in := r, u_sizes := tl (u_sizes s)\<rparr>"] Cons u by (auto simp: split_def)
  qed
qed simp

lemma getcmd_shrinks:
  assumes "getcmd nbuf buf s = (r, buf', t)" "0 \<le> r"
  shows "length (u_in t) < length (u_in s)"
proof -
  obtain bs where g: "gets_loop (nat (int nbuf - 1)) [] (uwrite 2 [36, 32] s) = (bs, t)"
      "buf' = put_bytes (bs @ [0]) (u_memset 0 0 nbuf buf) 0"
    using assms(1) by (auto simp: getcmd_def u_gets_def Let_def split: prod.splits)
  have "buf' 0 \<noteq> 0" using assms by (auto simp: getcmd_def Let_def split: prod.splits if_splits)
  then have "bs \<noteq> []" using g(2) by (auto simp: put_bytes_def)
  then show ?thesis using gets_loop_shrinks [where k = "nat (int nbuf - 1)" and acc = "[]" and s = "uwrite 2 [36, 32] s"] g(1) by (cases bs) auto
qed

text \<open>More turns than characters make no difference.\<close>

lemma sh_loop_enough:
  assumes "length (u_in s) < n" "length (u_in s) < m"
  shows "sh_loop n ok acts buf s = sh_loop m ok acts buf s"
  using assms
proof (induction n arbitrary: m acts buf s)
  case (Suc n)
  obtain k where m: "m = Suc k" using Suc.prems(2) by (cases m) auto
  obtain r b t where g: "getcmd 100 buf s = (r, b, t)" by (rule prod_cases3)
  show ?case
  proof (cases "r < 0")
    case True
    then show ?thesis by (simp add: m g)
  next
    case False
    then have "length (u_in t) < length (u_in s)" using getcmd_shrinks [OF g] by simp
    then have "length (u_in u) < n" "length (u_in u) < k" if "u_in u = u_in t" for u :: "'a uio_scheme"
      using that Suc.prems m by simp_all
    then have "sh_loop n ok a c u = sh_loop k ok a c u" if "u_in u = u_in t" for a c and u :: "'a uio_scheme"
      using that by (intro Suc.IH)
    then show ?thesis using False by (simp add: m g Let_def)
  qed
qed simp

section \<open>Running lines\<close>

text \<open>
  The buffer with a line, over a memory \<open>m\<close>, and what the shell does with a line that ends in a newline:
  the directory behind \<open>cd\<close>, or the command.
\<close>

definition line_buf :: "mem \<Rightarrow> byte list \<Rightarrow> mem" where
  "line_buf m l = put_bytes l (fill 0 m 0 100) 0"

definition line_act :: "mem \<Rightarrow> byte list \<Rightarrow> sh_act" where
  "line_act m l = (if take 3 l = [99, 100, 32] then Cd (drop 3 l) else Child (parsecmd (line_buf m (l @ [10])) 0 (length l + 1)))"

lemma array_str_eq: "cstr m a bs \<Longrightarrow> length bs < n \<Longrightarrow> array_str m a n = bs"
proof (induction bs arbitrary: a n)
  case Nil
  then show ?case by (cases n) (simp_all add: array_str_Suc)
next
  case (Cons b bs)
  then show ?case by (cases n) (simp_all add: array_str_Suc)
qed

lemma line_buf_str: "0 \<notin> set l \<Longrightarrow> length l < 100 \<Longrightarrow> cstr (line_buf m l) 0 l"
  by (auto simp: cstr_def line_buf_def put_bytes_def bytes_at_def intro!: nth_equalityI)

lemma cstr_drop: "cstr m a (bs @ cs) \<Longrightarrow> cstr m (a + length bs) cs"
  by (induction bs arbitrary: a) (simp_all add: add.assoc [symmetric], metis add.commute add_Suc_right plus_1_eq_Suc)

lemma getcmd_text:
  assumes "gets_loop 99 [] (uwrite 2 [36, 32] s) = (w, t)" "w \<noteq> []" "length w \<le> 99" "\<And>a. 100 \<le> a \<Longrightarrow> buf a = m a"
  shows "getcmd 100 buf s = (if w ! 0 = 0 then -1 else 0, line_buf m w, t)" "u_out t = u_out s @ map (Pair 2) [36, 32]"
proof -
  show "u_out t = u_out s @ map (Pair 2) [36, 32]"
    using gets_loop_shrinks [where k = 99 and acc = "[]" and s = "uwrite 2 [36, 32] s"] assms(1) by simp
  have "put_bytes (w @ [0]) (u_memset 0 0 100 buf) 0 = line_buf m w"
    using assms(3,4) by (auto simp: put_bytes_def line_buf_def u_memset_def stosb_fill fill_def nth_append less_Suc_eq fun_eq_iff)
  moreover have "line_buf m w 0 = w ! 0" using assms(2) by (simp add: line_buf_def put_bytes_def)
  ultimately show "getcmd 100 buf s = (if w ! 0 = 0 then -1 else 0, line_buf m w, t)"
    using assms(1) by (simp add: getcmd_def u_gets_def)
qed

lemma getcmd_line:
  assumes "u_in s = l @ 10 # r" "10 \<notin> set l" "13 \<notin> set l" "length l < 99" "\<And>a. 100 \<le> a \<Longrightarrow> buf a = m a"
  shows "\<exists>t. getcmd 100 buf s = (if (l @ [10]) ! 0 = 0 then -1 else 0, line_buf m (l @ [10]), t)
     \<and> u_in t = r \<and> u_out t = u_out s @ map (Pair 2) [36, 32]"
proof -
  let ?s = "uwrite 2 [36, 32] s"
  obtain t where t: "gets_loop 99 [] ?s = (l @ [10], t)" "u_in t = r"
    using gets_loop_line [of ?s l 10 r 99 "[]"] assms by auto
  then show ?thesis using getcmd_text [OF t(1), of buf m] assms(4,5) by simp
qed

lemma getcmd_eof:
  assumes "u_in s = []"
  shows "\<exists>b t. getcmd 100 buf s = (-1, b, t) \<and> u_out t = u_out s @ map (Pair 2) [36, 32]"
proof -
  have "gets_loop 99 [] (uwrite 2 [36, 32] s) = ([], (uwrite 2 [36, 32] s)\<lparr>u_sizes := tl (u_sizes s)\<rparr>)"
    using assms by (simp add: numeral_eq_Suc uread_def Let_def)
  then show ?thesis by (simp add: getcmd_def u_gets_def put_bytes_def)
qed

text \<open>The characters of a line that the buffer holds.\<close>

definition line_ok :: "byte list \<Rightarrow> bool" where
  "line_ok l \<longleftrightarrow> length l < 99 \<and> 0 \<notin> set l \<and> 10 \<notin> set l \<and> 13 \<notin> set l"

lemma line_buf_cd: "line_buf m (l @ [10]) 0 = 99 \<and> line_buf m (l @ [10]) 1 = 100 \<and> line_buf m (l @ [10]) 2 = 32
    \<longleftrightarrow> take 3 l = [99, 100, 32]"
  by (cases l; cases "tl l"; cases "tl (tl l)") (auto simp: line_buf_def put_bytes_def)

lemma line_buf_path:
  assumes "line_ok l" "take 3 l = [99, 100, 32]"
  shows "array_str ((line_buf m (l @ [c]))(length l := 0)) 3 97 = drop 3 l"
proof -
  have "(line_buf m (l @ [c]))(length l := 0) = line_buf m l"
    using assms(1) by (auto simp: line_ok_def line_buf_def put_bytes_def fill_def nth_append fun_eq_iff less_Suc_eq)
  moreover have c: "cstr (line_buf m l) 0 (take 3 l @ drop 3 l)" using assms(1) line_buf_str [of l m] by (simp add: line_ok_def)
  have "0 + length (take 3 l) = 3" unfolding assms(2) by simp
  then have "cstr (line_buf m l) 3 (drop 3 l)" using cstr_drop [OF c] by (simp only:)
  then have "array_str (line_buf m l) 3 97 = drop 3 l" using assms(1) by (intro array_str_eq) (auto simp: line_ok_def)
  ultimately show ?thesis by simp
qed

text \<open>What the shell writes: a prompt for every line and at the end of the input, and a message when \<open>chdir\<close> fails.\<close>

fun lines_out :: "(nat \<Rightarrow> bool) \<Rightarrow> nat \<Rightarrow> byte list list \<Rightarrow> byte list" where
  "lines_out ok k [] = [36, 32]"
| "lines_out ok k (l # ls) = [36, 32] @ (if take 3 l = [99, 100, 32] \<and> \<not> ok k then cannot_cd (drop 3 l) else [])
     @ lines_out ok (k + 1) ls"

lemma sh_loop_lines:
  assumes "\<forall>l \<in> set ls. line_ok l" "u_in s = concat (map (\<lambda>l. l @ [10]) ls)" "\<And>a. 100 \<le> a \<Longrightarrow> buf a = m a"
    and "\<And>i. i < length ls \<Longrightarrow> take 3 (ls ! i) \<noteq> [99, 100, 32] \<Longrightarrow> ok (length acts + i)" "length (u_in s) < n"
  shows "\<exists>t. sh_loop n ok acts buf s = (acts @ map (line_act m) ls, t)
     \<and> u_out t = u_out s @ map (Pair 2) (lines_out ok (length acts) ls)"
  using assms
proof (induction ls arbitrary: n acts buf s)
  case Nil
  then obtain k where "n = Suc k" by (cases n) auto
  then show ?case using getcmd_eof [of s buf] Nil.prems(2) by auto
next
  case (Cons l ls)
  obtain k where n: "n = Suc k" using Cons.prems(5) by (cases n) auto
  have l: "length l < 99" "0 \<notin> set l" "10 \<notin> set l" "13 \<notin> set l" "line_ok l" using Cons.prems(1) by (simp_all add: line_ok_def)
  have inp: "u_in s = l @ 10 # concat (map (\<lambda>l. l @ [10]) ls)" using Cons.prems(2) by simp
  let ?b = "line_buf m (l @ [10])"
  obtain t where t: "getcmd 100 buf s = (if (l @ [10]) ! 0 = 0 then -1 else 0, ?b, t)" "u_in t = concat (map (\<lambda>l. l @ [10]) ls)"
      "u_out t = u_out s @ map (Pair 2) [36, 32]"
    using getcmd_line [where buf = buf and m = m, OF inp l(3,4,1)] Cons.prems(3) by blast
  have "(l @ [10]) ! 0 \<noteq> 0" using l(2) by (cases l) auto
  note g = t(1) [unfolded if_not_P [OF this]]
  have str: "array_str ?b 0 100 = l @ [10]" using line_buf_str [of "l @ [10]" m] l by (intro array_str_eq) simp_all
  have len: "length (u_in t) < k" using Cons.prems(5) inp t(2) n by simp
  have high: "100 \<le> a \<Longrightarrow> ?b a = m a" "100 \<le> a \<Longrightarrow> (?b(length l := 0)) a = m a" for a
    using l(1) by (simp_all add: line_buf_def put_bytes_def)
  have oks: "ok (length (acts @ [x]) + i)" if "i < length ls" "take 3 (ls ! i) \<noteq> [99, 100, 32]" for i and x :: sh_act
    using Cons.prems(4) [of "Suc i"] that by simp
  show ?case
  proof (cases "take 3 l = [99, 100, 32]")
    case True
    obtain v where v: "v = (if ok (length acts) then t else uwrite 2 (cannot_cd (drop 3 l)) t)" by blast
    have "sh_loop n ok acts buf s = sh_loop k ok (acts @ [Cd (drop 3 l)]) (?b(length l := 0)) v"
      unfolding n sh_loop.simps g Let_def prod.case line_buf_cd str using line_buf_path [OF l(5) True, of m] True by (simp add: v)
    moreover have v': "u_in v = concat (map (\<lambda>l. l @ [10]) ls)" "length (u_in v) < k"
      "u_out v = u_out s @ map (Pair 2) ([36, 32] @ (if ok (length acts) then [] else cannot_cd (drop 3 l)))"
      using t(2,3) len by (simp_all add: v)
    moreover have "\<exists>u. sh_loop k ok (acts @ [Cd (drop 3 l)]) (?b(length l := 0)) v
        = ((acts @ [Cd (drop 3 l)]) @ map (line_act m) ls, u)
      \<and> u_out u = u_out v @ map (Pair 2) (lines_out ok (length (acts @ [Cd (drop 3 l)])) ls)"
      by (rule Cons.IH [OF _ v'(1) high(2) oks v'(2)]) (use Cons.prems(1) in simp_all)
    ultimately show ?thesis using True by (auto simp: line_act_def)
  next
    case False
    let ?c = "Child (parsecmd ?b 0 (length l + 1))"
    have "sh_loop n ok acts buf s = sh_loop k ok (acts @ [?c]) ?b t"
      unfolding n sh_loop.simps g Let_def prod.case line_buf_cd str using False Cons.prems(4) [of 0] by simp
    moreover have "\<exists>u. sh_loop k ok (acts @ [?c]) ?b t = ((acts @ [?c]) @ map (line_act m) ls, u)
      \<and> u_out u = u_out t @ map (Pair 2) (lines_out ok (length (acts @ [?c])) ls)"
      using Cons.IH [OF _ t(2) high(1) oks len, of ?c] Cons.prems(1) by simp
    ultimately show ?thesis using False t(3) by (auto simp: line_act_def)
  qed
qed

text \<open>
  The shell works through the lines of its input in their order: \<open>cd\<close> changes the directory of the shell
  itself, every other line is parsed as it was typed in a child of its own, and the shell ends with the input.
\<close>

theorem sh_main_runs_lines:
  assumes "\<forall>l \<in> set ls. line_ok l" "u_in s = concat (map (\<lambda>l. l @ [10]) ls)"
    and "\<And>i. i < length ls \<Longrightarrow> take 3 (ls ! i) \<noteq> [99, 100, 32] \<Longrightarrow> ok i"
  shows "\<exists>t. sh_main ok buf s = (map (line_act buf) ls, t) \<and> u_out t = u_out s @ map (Pair 2) (lines_out ok 0 ls)"
  using sh_loop_lines [of ls s buf buf ok "[]" "Suc (length (u_in s))"] assms by (simp add: sh_main_def)

lemma sh_main_runs_lines_witness:
  "\<exists>t. sh_main (\<lambda>k. k \<noteq> 0) (\<lambda>_. 0) \<lparr>u_in = [99, 100, 32, 47, 10, 108, 115, 10], u_sizes = [], u_out = []\<rparr>
       = ([Cd [47], Child (parsecmd (line_buf (\<lambda>_. 0) [108, 115, 10]) 0 3)], t)
     \<and> u_out t = map (Pair 2) ([36, 32] @ cannot_cd [47] @ [36, 32] @ [36, 32])"
proof -
  let ?ls = "[[99, 100, 32, 47], [108, 115]] :: byte list list"
  let ?s = "\<lparr>u_in = [99, 100, 32, 47, 10, 108, 115, 10], u_sizes = [], u_out = []\<rparr>"
  have nz: "i \<noteq> 0" if "take 3 (?ls ! i) \<noteq> [99, 100, 32]" for i using that by (cases i) simp_all
  have "\<exists>t. sh_main (\<lambda>k. k \<noteq> 0) (\<lambda>_. 0) ?s = (map (line_act (\<lambda>_. 0)) ?ls, t)
      \<and> u_out t = u_out ?s @ map (Pair 2) (lines_out (\<lambda>k. k \<noteq> 0) 0 ?ls)"
    by (rule sh_main_runs_lines) (simp add: line_ok_def, simp, erule nz)
  then show ?thesis by (simp add: line_act_def eval_nat_numeral)
qed

text \<open>
  The character that \<open>cd\<close> chops off is taken for a newline. When the input ends without one, the path loses
  its last character.
\<close>

lemma gets_loop_eof:
  "u_in s = l \<Longrightarrow> 10 \<notin> set l \<Longrightarrow> 13 \<notin> set l \<Longrightarrow> length l < k \<Longrightarrow> \<exists>t. gets_loop k acc s = (acc @ l, t) \<and> u_in t = []"
proof (induction k arbitrary: l acc s)
  case (Suc k)
  show ?case
  proof (cases l)
    case Nil
    then show ?thesis using Suc.prems by (simp add: uread_def Let_def)
  next
    case (Cons b r)
    then show ?thesis
      using Suc.IH [of "s\<lparr>u_in := r, u_sizes := tl (u_sizes s)\<rparr>" r "acc @ [b]"] Suc.prems uread_1 [of s b r] by auto
  qed
qed simp

lemma cd_without_newline:
  assumes "u_in s = [99, 100, 32] @ path @ [c]" "line_ok ([99, 100, 32] @ path)" "c \<notin> {0, 10, 13}" "length path < 95" "ok 0"
  shows "fst (sh_main ok buf s) = [Cd path]"
proof -
  let ?l = "[99, 100, 32] @ path"
  let ?s = "uwrite 2 [36, 32] s"
  have l: "length ?l < 99" "0 \<notin> set ?l" "10 \<notin> set ?l" "13 \<notin> set ?l" using assms(2) unfolding line_ok_def by blast+
  obtain t where t: "gets_loop 99 [] ?s = (?l @ [c], t)" "u_in t = []"
    using gets_loop_eof [of ?s "?l @ [c]" 99 "[]"] assms(1,3,4) l by auto
  note g = getcmd_text(1) [OF t(1), of buf buf]
  have g: "getcmd 100 buf s = (0, line_buf buf (?l @ [c]), t)" using g assms(4) by simp
  have str: "array_str (line_buf buf (?l @ [c])) 0 100 = ?l @ [c]"
    using line_buf_str [of "?l @ [c]" buf] l assms(3,4) by (intro array_str_eq) auto
  have cd: "line_buf buf (?l @ [c]) 0 = 99" "line_buf buf (?l @ [c]) 1 = 100" "line_buf buf (?l @ [c]) 2 = 32"
    by (simp_all add: line_buf_def put_bytes_def)
  have "length (?l @ [c]) - 1 = length ?l" by simp
  note path = line_buf_path [OF assms(2), of buf c, folded this]
  have "sh_main ok buf s = sh_loop (length (u_in s)) ok [Cd path] ((line_buf buf (?l @ [c]))(length (?l @ [c]) - 1 := 0)) t"
    unfolding sh_main_def sh_loop.simps g Let_def prod.case cd str using path assms(5) by simp
  moreover obtain n where "length (u_in s) = Suc n" using assms(1) by simp
  ultimately show ?thesis
    using getcmd_eof [OF t(2), of "(line_buf buf (?l @ [c]))(length (?l @ [c]) - 1 := 0)"] by auto
qed

end
