(* ===== verification/Hostsh.thy ===== *)
theory Hostsh
  imports Sh Textfields
begin

text \<open>
  Three small shells that run on the host: \<open>turtle.c\<close> of lab 3 (sequences, redirection, \<open>cd\<close>), \<open>plumb.c\<close>
  (pipes) and \<open>beegees.c\<close> (programs side by side) of lab quiz 1. They share \<open>tokenize\<close>. A vector of arguments is an
  array of 64 cells whose content is undefined until it is written; \<open>fork\<close> succeeds and \<open>execvp\<close> is the end of the
  child. \<open>None\<close> stands for an access outside of an array or to a cell without content.
\<close>

section \<open>Words of a line\<close>

datatype cell = JUNK | NIL | WORD "byte list"

definition MAX_TOKEN_SIZE :: nat where "MAX_TOKEN_SIZE = 64"
definition MAX_NUM_TOKENS :: nat where "MAX_NUM_TOKENS = 64"

definition tok_blank :: "byte \<Rightarrow> bool" where
  "tok_blank c \<longleftrightarrow> c = 32 \<or> c = 10 \<or> c = 9"

text \<open>The loop over the rest of the line: \<open>tok\<close> is the content of \<open>token\<close>, \<open>ts\<close> are the tokens stored.\<close>

fun tok_loop :: "byte list \<Rightarrow> byte list \<Rightarrow> byte list list \<Rightarrow> byte list list option" where
  "tok_loop [] tok ts = (if length ts < MAX_NUM_TOKENS then Some ts else None)"
| "tok_loop (c # cs) tok ts =
     (if \<not> length tok < MAX_TOKEN_SIZE then None
      else if tok_blank c
      then if tok \<noteq> []
           then if length ts < MAX_NUM_TOKENS then tok_loop cs [] (ts @ [tok]) else None
           else tok_loop cs [] ts
      else tok_loop cs (tok @ [c]) ts)"

definition tokenize :: "byte list \<Rightarrow> byte list list option" where
  "tokenize line = tok_loop line [] []"

text \<open>The array of tokens, and the words that a program gets that is started with an array.\<close>

definition vec :: "byte list list \<Rightarrow> nat \<Rightarrow> cell" where
  "vec ws i = (if i < length ws then WORD (ws ! i) else if i = length ws then NIL else JUNK)"

fun argv_from :: "nat \<Rightarrow> nat \<Rightarrow> (nat \<Rightarrow> cell) \<Rightarrow> byte list list option" where
  "argv_from 0 i v = None"
| "argv_from (Suc k) i v =
     (case v i of JUNK \<Rightarrow> None | NIL \<Rightarrow> Some [] | WORD w \<Rightarrow> map_option (Cons w) (argv_from k (i + 1) v))"

definition argv_of :: "(nat \<Rightarrow> cell) \<Rightarrow> byte list list option" where
  "argv_of v = argv_from MAX_NUM_TOKENS 0 v"

section \<open>plumb.c\<close>

definition h_add :: "'w ofile \<Rightarrow> 'w fdt \<Rightarrow> (nat \<times> 'w fdt) option" where
  "h_add x t = map_option (\<lambda>i. (i, t(i \<mapsto> x))) (first_idx 1024 (\<lambda>i. t i = None))"

text \<open>\<open>pipe\<close> and \<open>dup2\<close>; the pipe has the number \<open>k\<close>.\<close>

definition h_pipe :: "nat \<Rightarrow> 'w fdt \<Rightarrow> (nat \<times> nat \<times> 'w fdt) option" where
  "h_pipe k t = (case h_add (PIPER k) t of None \<Rightarrow> None
     | Some (r, t) \<Rightarrow> (case h_add (PIPEW k) t of None \<Rightarrow> None | Some (w, t) \<Rightarrow> Some (r, w, t)))"

definition t_dup2 :: "nat \<Rightarrow> nat \<Rightarrow> 'w fdt \<Rightarrow> 'w fdt" where
  "t_dup2 a b t = t(b := t a)"

definition exit_word :: "byte list" where "exit_word = [101, 120, 105, 116]"

text \<open>The words from \<open>a\<close> up to \<open>b\<close> are copied into a new array.\<close>

definition copy_words :: "byte list list \<Rightarrow> nat \<Rightarrow> nat \<Rightarrow> nat \<Rightarrow> cell" where
  "copy_words ws a b = fold (\<lambda>i v. v(i - a := WORD (ws ! i))) [a..<b] (\<lambda>_. JUNK)"

text \<open>
  The programs that a line starts, with their arguments and open files, and the open files that the shell is left
  with, none after \<open>exit\<close>. The last assignment of the case of two pipes is to \<open>cmd2\<close>.
\<close>

definition plumb_line :: "byte list list \<Rightarrow> 'w fdt \<Rightarrow> (((nat \<Rightarrow> cell) \<times> 'w fdt) list \<times> 'w fdt) option" where
  "plumb_line ws t =
     (if ws = [] then Some ([], t) else if hd ws = exit_word then Some ([], \<lambda>_. None) else
      let ps = filter (\<lambda>i. ws ! i = [124]) [0..<length ws]; n = length ws
      in if length ps = 0 then Some ([(vec ws, t)], t)
         else if length ps = 1
         then
           let a1 = hd ps;
               cmd1 = (copy_words ws 0 a1)(a1 := NIL);
               cmd2 = (copy_words ws (a1 + 1) n)(n - a1 - 1 := NIL)
           in (case h_pipe 0 t of None \<Rightarrow> None
               | Some (r, w, t) \<Rightarrow>
                   Some ([(cmd1, t_close r (t_dup2 w 1 t)), (cmd2, t_close w (t_dup2 r 0 t))], t_close w (t_close r t)))
         else if length ps = 2
         then
           let a1 = hd ps; b1 = last ps;
               cmd1 = (copy_words ws 0 a1)(a1 := NIL);
               cmd2 = (copy_words ws (a1 + 1) b1)(b1 - a1 - 1 := NIL);
               cmd3 = copy_words ws (b1 + 1) n;
               cmd2 = cmd2(n - b1 - 1 := NIL)
           in (case h_pipe 0 t of None \<Rightarrow> None
               | Some (r1, w1, t) \<Rightarrow>
                   (case h_pipe 1 t of None \<Rightarrow> None
                    | Some (r2, w2, t) \<Rightarrow>
                        Some ([(cmd1, t_close w2 (t_close r2 (t_close r1 (t_dup2 w1 1 t)))),
                               (cmd2, t_close r2 (t_dup2 w2 1 (t_dup2 r1 0 t))),
                               (cmd3, t_close w2 (t_close w1 (t_close r1 (t_dup2 r2 0 t))))],
                              t_close w2 (t_close r2 (t_close w1 (t_close r1 t))))))
         else Some ([], t))"

section \<open>beegees.c\<close>

text \<open>
  The loop over the tokens: \<open>temp\<close> is an array that all commands of the line use in turn, \<open>c\<close> is \<open>temp_counter\<close>. The result are
  the arrays with which programs are started. 38 is the ampersand.
\<close>

fun bee_loop :: "byte list list \<Rightarrow> (nat \<Rightarrow> cell) \<Rightarrow> nat \<Rightarrow> (nat \<Rightarrow> cell) list" where
  "bee_loop [] temp c = (if temp 0 \<noteq> NIL then [temp] else [])"
| "bee_loop (w # ws) temp c =
     (if w = [38, 38] then (if temp 0 \<noteq> NIL then temp # bee_loop ws temp 0 else bee_loop ws temp 0)
      else bee_loop ws (temp(c := WORD w)) (c + 1))"

text \<open>\<open>Inl\<close>: the message of a syntax error, or the end of the shell; \<open>fresh\<close> is what \<open>malloc\<close> finds in the array.\<close>

definition bee_line :: "(nat \<Rightarrow> cell) \<Rightarrow> byte list list \<Rightarrow> string + (nat \<Rightarrow> cell) list" where
  "bee_line fresh ws =
     (if ws = [] then Inr []
      else if hd ws = [38, 38] then Inl ''Syntax error: Unexpected &&''
      else if hd ws = exit_word then Inl ''exit''
      else if [38, 38] \<notin> set ws then Inr [vec ws] else Inr (bee_loop ws fresh 0))"

section \<open>turtle.c\<close>

text \<open>Starting a program, with its output in a file, changing the directory, a message.\<close>

datatype turtle_act = Run "nat \<Rightarrow> cell" "byte list option" | Chdir "byte list" | Say string | Quit

text \<open>The last position of a word, as the loops over the tokens find it.\<close>

definition last_pos :: "byte list \<Rightarrow> byte list list \<Rightarrow> nat option" where
  "last_pos w ws = (let ps = filter (\<lambda>i. ws ! i = w) [0..<length ws] in if ps = [] then None else Some (last ps))"

text \<open>
  A command of a sequence in \<open>temp\<close> with the counter \<open>c\<close>; \<open>np\<close> is \<open>n_pipe\<close>, the position of the last \<open>>\<close> in the whole line, \<open>dir\<close>
  the word that \<open>cd\<close> takes. The array of the arguments before \<open>>\<close> ends at \<open>np\<close>; reading it fails if that is too far. 62 is \<open>>\<close>.
\<close>

definition turtle_cmd :: "nat \<Rightarrow> byte list \<Rightarrow> (nat \<Rightarrow> cell) \<Rightarrow> nat \<Rightarrow> turtle_act list option" where
  "turtle_cmd np dir temp c =
     (case argv_of temp of
        None \<Rightarrow> None
      | Some as \<Rightarrow>
          if as = [] then Some []
          else case last_pos [62] as of
            Some j \<Rightarrow>
              if j + 1 < length as
              then if j < np then None else Some [Run ((\<lambda>i. if i < j then temp i else JUNK)(np := NIL)) (Some (as ! (j + 1)))]
              else Some [Say ''file name not given'']
          | None \<Rightarrow>
              if hd as = [99, 100]
              then (if c \<noteq> 2 then Some [Say ''Wrong number of arguements''] else Some [Chdir dir])
              else Some [Run temp None])"

text \<open>After a redirection the words of the command are freed.\<close>

fun frees_words :: "turtle_act \<Rightarrow> bool" where
  "frees_words (Run v (Some f)) = True"
| "frees_words _ = False"

text \<open>The loop over the tokens of a sequence; a command before \<open>;;\<close> takes its own word for \<open>cd\<close>, the last one that of the line.\<close>

fun turtle_seq :: "nat \<Rightarrow> byte list \<Rightarrow> byte list list \<Rightarrow> (nat \<Rightarrow> cell) \<Rightarrow> nat \<Rightarrow> turtle_act list option" where
  "turtle_seq np tok1 [] temp c = (if temp 0 = NIL then Some [] else turtle_cmd np tok1 temp c)"
| "turtle_seq np tok1 (w # ws) temp c =
     (if w = [59, 59]
      then
        let temp = temp(c := NIL)
        in (case turtle_cmd np (case temp 1 of WORD d \<Rightarrow> d | _ \<Rightarrow> []) temp c of
              None \<Rightarrow> None
            | Some as \<Rightarrow> map_option (append as) (turtle_seq np tok1 ws (temp(0 := NIL)) 0))
      else turtle_seq np tok1 ws (temp(c := WORD w)) (c + 1))"

definition turtle_line :: "byte list list \<Rightarrow> turtle_act list option" where
  "turtle_line ws =
     (if ws = [] then None
      else if hd ws = exit_word then Some [Quit]
      else
        let n = length ws;
            multi = ([59, 59] \<in> set ws);
            np = last_pos [62] ws;
            first = (if multi then turtle_seq (case np of None \<Rightarrow> 0 | Some j \<Rightarrow> j) (if 1 < n then ws ! 1 else []) ws (\<lambda>_. JUNK) 0
                     else Some []);
            rest = (case (np, multi) of
                (Some j, False) \<Rightarrow>
                  if j + 1 < n then [Run ((\<lambda>i. if i < j then WORD (ws ! i) else JUNK)(j := NIL)) (Some (ws ! (n - 1)))]
                  else [Say ''file name not given'']
              | _ \<Rightarrow>
                  if hd ws = [99, 100] then (if n \<noteq> 2 then [Say ''Wrong number of arguements''] else [Chdir (ws ! 1)])
                  else [Run (vec ws) None])
        in case first of
             None \<Rightarrow> None
           | Some as \<Rightarrow> if \<exists>a \<in> set as. frees_words a then None else Some (as @ rest))"

section \<open>Tokens are words\<close>

lemma fields_from_long:
  "n \<le> length tok \<Longrightarrow> 0 < n \<Longrightarrow> \<exists>w \<in> set (fields_from sep tok l). n \<le> length w"
  by (auto simp: fields_from_def)

lemma tok_loop_words:
  assumes "length tok \<le> MAX_TOKEN_SIZE"
  shows "tok_loop (l @ [10]) tok ts =
    (if (\<forall>w \<in> set (fields_from tok_blank tok l). length w < MAX_TOKEN_SIZE)
        \<and> length ts + length (fields_from tok_blank tok l) < MAX_NUM_TOKENS
     then Some (ts @ fields_from tok_blank tok l) else None)"
  using assms
proof (induction l arbitrary: tok ts)
  case Nil
  then show ?case by (auto simp: tok_blank_def MAX_TOKEN_SIZE_def MAX_NUM_TOKENS_def fields_from_def)
next
  case (Cons c l)
  show ?case
  proof (cases "length tok < MAX_TOKEN_SIZE")
    case False
    then have "\<exists>w \<in> set (fields_from tok_blank tok (c # l)). MAX_TOKEN_SIZE \<le> length w"
      by (intro fields_from_long) (simp_all add: MAX_TOKEN_SIZE_def)
    then show ?thesis using False by force
  next
    case True
    have n: "length (tok @ [c]) \<le> MAX_TOKEN_SIZE" "length ([] :: byte list) \<le> MAX_TOKEN_SIZE" using True by simp_all
    show ?thesis
      using Cons.IH [OF n(1), of ts] Cons.IH [OF n(2), of ts] Cons.IH [OF n(2), of "ts @ [tok]"] True
      by (auto simp: fields_from_simps)
  qed
qed

text \<open>
  The tokens of a line are its words, as long as there are at most 63 of at most 63 characters each; with more or
  longer ones \<open>tokenize\<close> writes outside of its arrays.
\<close>

theorem tokenize_words:
  "tokenize (l @ [10]) = (let ws = fields tok_blank l
     in if (\<forall>w \<in> set ws. length w < MAX_TOKEN_SIZE) \<and> length ws < MAX_NUM_TOKENS then Some ws else None)"
  using tok_loop_words [of "[]" l "[]"] by (simp add: tokenize_def Let_def)

lemma tokenize_words_witness: "tokenize ([32, 108, 115, 9, 97] @ [10]) = Some [[108, 115], [97]]"
  unfolding tokenize_words by (simp add: fields_word tok_blank_def MAX_TOKEN_SIZE_def MAX_NUM_TOKENS_def)

section \<open>Arrays of words\<close>

lemma argv_from_append:
  "(\<And>i. i < length ws \<Longrightarrow> v (a + i) = WORD (ws ! i)) \<Longrightarrow> argv_from (length ws + k) a v = map_option (append ws) (argv_from k (a + length ws) v)"
proof (induction ws arbitrary: a)
  case Nil
  then show ?case by (simp add: option.map_id0 [unfolded id_def])
next
  case (Cons w ws)
  have "v a = WORD w" using Cons.prems [of 0] by simp
  moreover have "argv_from (length ws + k) (a + 1) v = map_option (append ws) (argv_from k (a + 1 + length ws) v)"
    by (rule Cons.IH) (use Cons.prems [of "Suc i" for i] in simp)
  ultimately show ?case by (simp add: option.map_comp comp_def)
qed

lemma argv_of_words:
  assumes "\<And>i. i < length ws \<Longrightarrow> v i = WORD (ws ! i)" "length ws < MAX_NUM_TOKENS"
  shows "v (length ws) = NIL \<Longrightarrow> argv_of v = Some ws" "v (length ws) = JUNK \<Longrightarrow> argv_of v = None"
proof -
  obtain k where "MAX_NUM_TOKENS = length ws + Suc k" using assms(2) by (metis less_iff_Suc_add add_Suc_right)
  then have "argv_of v = map_option (append ws) (argv_from (Suc k) (length ws) v)"
    using argv_from_append [of ws v 0 "Suc k"] assms(1) by (simp add: argv_of_def del: argv_from.simps)
  then show "v (length ws) = NIL \<Longrightarrow> argv_of v = Some ws" "v (length ws) = JUNK \<Longrightarrow> argv_of v = None" by simp_all
qed

lemma copy_words_at: "copy_words ws a b i = (if i < b - a then WORD (ws ! (a + i)) else JUNK)"
proof -
  have "fold (\<lambda>i v. v(i - a := WORD (ws ! i))) [a..<a + n] (\<lambda>_. JUNK) i = (if i < n then WORD (ws ! (a + i)) else JUNK)" for n
    by (induction n) (auto simp: less_Suc_eq)
  from this [of "b - a"] show ?thesis by (cases "a \<le> b") (simp_all add: copy_words_def)
qed

lemma positions_append:
  "filter (\<lambda>i. (xs @ ys) ! i = x) [0..<length (xs @ ys)] =
     filter (\<lambda>i. xs ! i = x) [0..<length xs] @ map ((+) (length xs)) (filter (\<lambda>i. ys ! i = x) [0..<length ys])"
proof -
  have "[0..<length (xs @ ys)] = [0..<length xs] @ map ((+) (length xs)) [0..<length ys]"
  proof -
    have "map ((+) (length xs)) [0..<length ys] = [length xs..<length xs + length ys]" by (rule nth_equalityI) simp_all
    then show ?thesis using upt_add_eq_append [of 0 "length xs" "length ys"] by simp
  qed
  moreover have "filter (\<lambda>i. (xs @ ys) ! i = x) [0..<length xs] = filter (\<lambda>i. xs ! i = x) [0..<length xs]"
    by (rule filter_cong) (auto simp: nth_append)
  moreover have "filter (\<lambda>i. (xs @ ys) ! i = x) (map ((+) (length xs)) [0..<length ys])
      = map ((+) (length xs)) (filter (\<lambda>i. ys ! i = x) [0..<length ys])"
    by (simp add: filter_map comp_def)
  ultimately show ?thesis by simp
qed

lemma positions_none: "x \<notin> set xs \<Longrightarrow> filter (\<lambda>i. xs ! i = x) [0..<length xs] = []"
  by (auto simp: filter_empty_conv)

lemma positions_Cons:
  "filter (\<lambda>i. (y # ys) ! i = x) [0..<length (y # ys)] = (if y = x then [0] else []) @ map Suc (filter (\<lambda>i. ys ! i = x) [0..<length ys])"
proof -
  have "[0..<length [y]] = [0]" "(+) (length [y]) = Suc" by auto
  with positions_append [of "[y]" ys x] show ?thesis by (simp del: upt_Suc)
qed

lemma one_pos: "[0..<Suc 0] = [0]"
  by simp

section \<open>Pipes\<close>

text \<open>The open files of the shell and the two pipes it makes.\<close>

abbreviation tty :: "'w ofile \<Rightarrow> 'w ofile \<Rightarrow> 'w ofile \<Rightarrow> 'w fdt" where
  "tty i out e \<equiv> [0 \<mapsto> i, 1 \<mapsto> out, 2 \<mapsto> e]"

lemma h_add_first: "first_idx 1024 (\<lambda>i. t i = None) = Some n \<Longrightarrow> h_add x t = Some (n, t(n \<mapsto> x))"
  by (simp add: h_add_def)

lemma h_pipes:
  "h_pipe 0 (tty i out e) = Some (3, 4, (tty i out e)(3 \<mapsto> PIPER 0, 4 \<mapsto> PIPEW 0))"
  "h_pipe 1 ((tty i out e)(3 \<mapsto> PIPER 0, 4 \<mapsto> PIPEW 0))
     = Some (5, 6, (tty i out e)(3 \<mapsto> PIPER 0, 4 \<mapsto> PIPEW 0, 5 \<mapsto> PIPER 1, 6 \<mapsto> PIPEW 1))"
proof -
  have c: "l = 0 \<or> l = 1 \<or> l = 2 \<or> l = 3 \<or> l = 4 \<or> l = 5" if "l < (6 :: nat)" for l using that by linarith
  have f: "first_idx 1024 (\<lambda>k. (tty i out e) k = None) = Some 3"
    "first_idx 1024 (\<lambda>k. ((tty i out e)(3 \<mapsto> PIPER 0)) k = None) = Some 4"
    "first_idx 1024 (\<lambda>k. ((tty i out e)(3 \<mapsto> PIPER 0, 4 \<mapsto> PIPEW 0)) k = None) = Some 5"
    "first_idx 1024 (\<lambda>k. ((tty i out e)(3 \<mapsto> PIPER 0, 4 \<mapsto> PIPEW 0, 5 \<mapsto> PIPER 1)) k = None) = Some 6"
    unfolding first_idx_Some by (auto dest!: c [OF less_trans])
  note h = h_add_first [OF f(1)] h_add_first [OF f(2)] h_add_first [OF f(3)] h_add_first [OF f(4)]
  show "h_pipe 0 (tty i out e) = Some (3, 4, (tty i out e)(3 \<mapsto> PIPER 0, 4 \<mapsto> PIPEW 0))"
    "h_pipe 1 ((tty i out e)(3 \<mapsto> PIPER 0, 4 \<mapsto> PIPEW 0))
     = Some (5, 6, (tty i out e)(3 \<mapsto> PIPER 0, 4 \<mapsto> PIPEW 0, 5 \<mapsto> PIPER 1, 6 \<mapsto> PIPEW 1))"
    by (simp_all only: h_pipe_def h option.case prod.case)
qed

text \<open>
  A line with one pipe starts its two programs with their own words; the first writes to the pipe and the second
  reads from it, and no process but the first holds the writing end, so the second sees the end of its input.
\<close>

theorem plumb_pipe:
  assumes "[124] \<notin> set w1 \<union> set w2" "exit_word \<notin> set w1" "length w1 < MAX_NUM_TOKENS" "length w2 < MAX_NUM_TOKENS"
  shows "\<exists>v1 v2. plumb_line (w1 @ [[124]] @ w2) (tty i out e) =
      Some ([(v1, (tty i (PIPEW 0) e)(4 \<mapsto> PIPEW 0)), (v2, (tty (PIPER 0) out e)(3 \<mapsto> PIPER 0))], tty i out e)
    \<and> argv_of v1 = Some w1 \<and> argv_of v2 = Some w2"
proof -
  let ?ws = "w1 @ [[124]] @ w2"
  let ?v1 = "(copy_words ?ws 0 (length w1))(length w1 := NIL)"
  let ?v2 = "(copy_words ?ws (length w1 + 1) (length ?ws))(length w2 := NIL)"
  have p: "filter (\<lambda>i. ?ws ! i = [124]) [0..<length ?ws] = [length w1]"
    unfolding positions_append using assms(1) by (simp add: positions_none positions_Cons one_pos del: upt_Suc length_Cons)
  have n: "length ?ws - length w1 - 1 = length w2" by simp
  have h: "?ws \<noteq> []" "hd ?ws \<noteq> exit_word" using assms(2) by (cases w1, auto simp: exit_word_def)+
  have "plumb_line ?ws (tty i out e) = Some ([(?v1, (tty i (PIPEW 0) e)(4 \<mapsto> PIPEW 0)), (?v2, (tty (PIPER 0) out e)(3 \<mapsto> PIPER 0))], tty i out e)"
    unfolding plumb_line_def if_not_P [OF h(1)] if_not_P [OF h(2)] p Let_def n list.sel by (simp add: h_pipes t_close_def t_dup2_def del: One_nat_def) (auto simp: fun_eq_iff)
  moreover have "argv_of ?v1 = Some w1" by (rule argv_of_words(1)) (use assms in \<open>simp_all add: copy_words_at nth_append\<close>)
  moreover have "argv_of ?v2 = Some w2" by (rule argv_of_words(1)) (use assms in \<open>simp_all add: copy_words_at nth_append\<close>)
  ultimately show ?thesis by blast
qed

lemma plumb_pipe_witness:
  "\<exists>v1 v2. plumb_line [[97], [124], [98]] (tty TTY TTY TTY) =
      Some ([(v1, (tty TTY (PIPEW 0) TTY)(4 \<mapsto> PIPEW 0)), (v2, (tty (PIPER 0) TTY TTY)(3 \<mapsto> PIPER 0))], tty TTY TTY TTY :: byte list fdt)
    \<and> argv_of v1 = Some [[97]] \<and> argv_of v2 = Some [[98]]"
  using plumb_pipe [of "[[97]]" "[[98]]" TTY TTY TTY] by (simp add: MAX_NUM_TOKENS_def exit_word_def)

text \<open>
  C36: A line with two pipes goes wrong in three ways: the second program gets no more words than the third has, the
  array of the third has no end, and the second program holds the writing end of the pipe that it reads from, so it never
  sees the end of its input.
\<close>

theorem plumb_two_pipes:
  assumes "[124] \<notin> set w1 \<union> set w2 \<union> set w3" "exit_word \<notin> set w1" "length w1 < MAX_NUM_TOKENS" "length w2 < MAX_NUM_TOKENS" "length w3 < MAX_NUM_TOKENS"
  shows "\<exists>v1 v2 v3. plumb_line (w1 @ [[124]] @ w2 @ [[124]] @ w3) (tty i out e) =
      Some ([(v1, (tty i (PIPEW 0) e)(4 \<mapsto> PIPEW 0)),
             (v2, (tty (PIPER 0) (PIPEW 1) e)(3 \<mapsto> PIPER 0, 4 \<mapsto> PIPEW 0, 6 \<mapsto> PIPEW 1)),
             (v3, (tty (PIPER 1) out e)(5 \<mapsto> PIPER 1))], tty i out e)
    \<and> argv_of v1 = Some w1 \<and> argv_of v2 = Some (take (length w3) w2) \<and> argv_of v3 = None"
proof -
  let ?ws = "w1 @ [[124]] @ w2 @ [[124]] @ w3" and ?b = "length w1 + 1 + length w2"
  let ?v1 = "(copy_words ?ws 0 (length w1))(length w1 := NIL)"
  let ?v2 = "(copy_words ?ws (length w1 + 1) ?b)(length w2 := NIL, length w3 := NIL)"
  let ?v3 = "copy_words ?ws (?b + 1) (length ?ws)"
  have p: "filter (\<lambda>i. ?ws ! i = [124]) [0..<length ?ws] = [length w1, ?b]"
    unfolding positions_append using assms(1) by (simp add: positions_none positions_Cons one_pos del: upt_Suc length_Cons)
  have n: "length ?ws - ?b - 1 = length w3" "?b - length w1 - 1 = length w2" by simp_all
  have h: "?ws \<noteq> []" "hd ?ws \<noteq> exit_word" using assms(2) by (cases w1, auto simp: exit_word_def)+
  have "plumb_line ?ws (tty i out e) =
      Some ([(?v1, (tty i (PIPEW 0) e)(4 \<mapsto> PIPEW 0)),
             (?v2, (tty (PIPER 0) (PIPEW 1) e)(3 \<mapsto> PIPER 0, 4 \<mapsto> PIPEW 0, 6 \<mapsto> PIPEW 1)),
             (?v3, (tty (PIPER 1) out e)(5 \<mapsto> PIPER 1))], tty i out e)"
    unfolding plumb_line_def if_not_P [OF h(1)] if_not_P [OF h(2)] p Let_def list.sel last_ConsR [OF list.distinct(2)] last_ConsL [OF refl] n
    by (simp add: h_pipes t_close_def t_dup2_def del: One_nat_def) (auto simp: fun_eq_iff)
  moreover have "argv_of ?v1 = Some w1" by (rule argv_of_words(1)) (use assms in \<open>simp_all add: copy_words_at nth_append\<close>)
  moreover have "argv_of ?v2 = Some (take (length w3) w2)"
    by (cases "length w2 \<le> length w3"; rule argv_of_words(1))
      (use assms in \<open>auto simp: copy_words_at nth_append min_absorb2\<close>)
  moreover have "argv_of ?v3 = None" by (rule argv_of_words(2) [of w3]) (use assms in \<open>simp_all add: copy_words_at nth_append\<close>)
  ultimately show ?thesis by blast
qed

lemma plumb_two_pipes_witness:
  "\<exists>v1 v2 v3 t1 t2 t3. plumb_line [[97], [124], [98], [99], [124], [100]] (tty TTY TTY TTY :: byte list fdt)
      = Some ([(v1, t1), (v2, t2), (v3, t3)], tty TTY TTY TTY)
    \<and> argv_of v2 = Some [[98]] \<and> t2 0 = Some (PIPER 0) \<and> t2 4 = Some (PIPEW 0) \<and> argv_of v3 = None"
proof -
  obtain v1 v2 v3 where "plumb_line [[97], [124], [98], [99], [124], [100]] (tty TTY TTY TTY :: byte list fdt) =
      Some ([(v1, (tty TTY (PIPEW 0) TTY)(4 \<mapsto> PIPEW 0)),
             (v2, (tty (PIPER 0) (PIPEW 1) TTY)(3 \<mapsto> PIPER 0, 4 \<mapsto> PIPEW 0, 6 \<mapsto> PIPEW 1)),
             (v3, (tty (PIPER 1) TTY TTY)(5 \<mapsto> PIPER 1))], tty TTY TTY TTY)" "argv_of v2 = Some [[98]]" "argv_of v3 = None"
    using plumb_two_pipes [of "[[97]]" "[[98], [99]]" "[[100]]" TTY TTY TTY] by (auto simp: MAX_NUM_TOKENS_def exit_word_def)
  then show ?thesis by (intro exI conjI) (assumption | simp)+
qed

section \<open>Programs side by side\<close>

text \<open>Storing words in an array from \<open>c\<close> on.\<close>

definition put_words :: "byte list list \<Rightarrow> (nat \<Rightarrow> cell) \<Rightarrow> nat \<Rightarrow> nat \<Rightarrow> cell" where
  "put_words w v c = (\<lambda>i. if c \<le> i \<and> i < c + length w then WORD (w ! (i - c)) else v i)"

lemma put_words_Cons: "put_words w (v(c := WORD x)) (c + 1) = put_words (x # w) v c"
  by (auto simp: put_words_def fun_eq_iff nth_Cons' Suc_diff_Suc)

lemma put_words_Nil [simp]: "put_words [] v c = v"
  by (auto simp: put_words_def fun_eq_iff)

lemma bee_loop_words: "[38, 38] \<notin> set w \<Longrightarrow> bee_loop (w @ ws) v c = bee_loop ws (put_words w v c) (c + length w)"
  by (induction w arbitrary: v c) (auto simp: put_words_Cons [simplified])

text \<open>
  The second of two programs that \<open>beegees\<close> starts side by side gets the words of the first behind its own, where
  those were more, even if the array is zeroed at the start.
\<close>

theorem bee_stale_words:
  assumes "[38, 38] \<notin> set w1 \<union> set w2" "w1 \<noteq> []" "hd w1 \<noteq> exit_word" "w2 \<noteq> []" "length w1 < MAX_NUM_TOKENS" "length w2 < MAX_NUM_TOKENS"
  shows "\<exists>v1 v2. bee_line (\<lambda>_. NIL) (w1 @ [[38, 38]] @ w2) = Inr [v1, v2] \<and> argv_of v1 = Some w1
    \<and> argv_of v2 = Some (w2 @ drop (length w2) w1)"
proof -
  let ?v1 = "put_words w1 (\<lambda>_. NIL) 0"
  let ?v2 = "put_words w2 ?v1 0"
  have ne: "?v1 0 \<noteq> NIL" "?v2 0 \<noteq> NIL" using assms(2,4) by (simp_all add: put_words_def)
  have "bee_loop w2 ?v1 0 = [?v2]" using bee_loop_words [of w2 "[]" ?v1 0] assms(1) ne by simp
  moreover have "bee_loop (w1 @ [[38, 38]] @ w2) (\<lambda>_. NIL) 0 = ?v1 # bee_loop w2 ?v1 0"
    using bee_loop_words [of w1 "[[38, 38]] @ w2" "\<lambda>_. NIL" 0] assms(1) ne(1) by simp
  moreover have "hd (w1 @ [[38, 38]] @ w2) \<noteq> [38, 38]" using assms(1,2) by (cases w1) auto
  moreover have "hd (w1 @ [[38, 38]] @ w2) \<noteq> exit_word" using assms(2,3) by simp
  ultimately have "bee_line (\<lambda>_. NIL) (w1 @ [[38, 38]] @ w2) = Inr [?v1, ?v2]" by (simp add: bee_line_def)
  moreover have "argv_of ?v1 = Some w1" by (rule argv_of_words(1)) (use assms in \<open>simp_all add: put_words_def\<close>)
  moreover have "argv_of ?v2 = Some (w2 @ drop (length w2) w1)"
    by (rule argv_of_words(1)) (use assms in \<open>auto simp: put_words_def nth_append\<close>)
  ultimately show ?thesis by blast
qed

lemma bee_stale_words_witness:
  "\<exists>v1 v2. bee_line (\<lambda>_. NIL) [[108, 115], [45, 108], [38, 38], [112]] = Inr [v1, v2] \<and> argv_of v2 = Some [[112], [45, 108]]"
  using bee_stale_words [of "[[108, 115], [45, 108]]" "[[112]]"] by (auto simp: MAX_NUM_TOKENS_def exit_word_def)

section \<open>Sequences\<close>

lemma turtle_seq_words:
  "[59, 59] \<notin> set w \<Longrightarrow> turtle_seq np t1 (w @ ws) v c = turtle_seq np t1 ws (put_words w v c) (c + length w)"
  by (induction w arbitrary: v c) (auto simp: put_words_Cons [simplified])

lemma last_pos_none: "w \<notin> set ws \<Longrightarrow> last_pos w ws = None"
  by (simp add: last_pos_def positions_none)

lemma turtle_cmd_plain:
  "argv_of v = Some ws \<Longrightarrow> ws \<noteq> [] \<Longrightarrow> [62] \<notin> set ws \<Longrightarrow> hd ws \<noteq> [99, 100] \<Longrightarrow> turtle_cmd np dir v c = Some [Run v None]"
  by (simp add: turtle_cmd_def last_pos_none)

text \<open>
  \<open>turtle\<close> runs the two commands of a sequence, the second one with the words of the first behind its own where
  those were more, and then starts the first program once more, with the whole line as its words.
\<close>

theorem turtle_runs_again:
  assumes "length w2 \<le> length w1" "w1 \<noteq> []" "w2 \<noteq> []" "length w1 + length w2 + 1 < MAX_NUM_TOKENS"
    and "{[59, 59], [62]} \<inter> (set w1 \<union> set w2) = {}" "hd w1 \<notin> {[99, 100], exit_word}" "hd w2 \<noteq> [99, 100]"
  shows "\<exists>v1 v2 v3. turtle_line (w1 @ [[59, 59]] @ w2) = Some [Run v1 None, Run v2 None, Run v3 None]
    \<and> argv_of v1 = Some w1 \<and> argv_of v2 = Some (w2 @ drop (length w2) w1) \<and> argv_of v3 = Some (w1 @ [[59, 59]] @ w2)"
proof -
  let ?ws = "w1 @ [[59, 59]] @ w2" and ?as = "w2 @ drop (length w2) w1"
  let ?v1 = "(put_words w1 (\<lambda>_. JUNK) 0)(length w1 := NIL)"
  let ?v2 = "put_words w2 (?v1(0 := NIL)) 0"
  have l: "length w1 < MAX_NUM_TOKENS" "length ?ws < MAX_NUM_TOKENS" using assms(4) by simp_all
  have sep: "[59, 59] \<notin> set w1" "[59, 59] \<notin> set w2" "[62] \<notin> set w1" "[62] \<notin> set ?as" "[62] \<notin> set ?ws"
    using assms(5) by (auto dest: in_set_dropD)
  have a1: "argv_of ?v1 = Some w1" by (rule argv_of_words(1)) (use l in \<open>simp_all add: put_words_def\<close>)
  have a2: "argv_of ?v2 = Some ?as"
    by (rule argv_of_words(1)) (use assms(1,3) l in \<open>auto simp: put_words_def nth_append\<close>)
  have a3: "argv_of (vec ?ws) = Some ?ws" by (rule argv_of_words(1)) (use l in \<open>simp_all add: vec_def\<close>)
  have v2: "?v2 0 \<noteq> NIL" using assms(3) by (simp add: put_words_def)
  have c2: "turtle_cmd 0 d ?v2 c = Some [Run ?v2 None]" for d c
    by (rule turtle_cmd_plain [OF a2]) (use assms(3,7) sep in auto)
  have c1: "turtle_cmd 0 d ?v1 c = Some [Run ?v1 None]" for d c
    by (rule turtle_cmd_plain [OF a1]) (use assms(2,6) sep in auto)
  have s2: "turtle_seq 0 t1 w2 (?v1(0 := NIL)) 0 = Some [Run ?v2 None]" for t1
    using turtle_seq_words [of w2 0 t1 "[]" "?v1(0 := NIL)" 0] sep(2) v2 c2 by simp
  have "turtle_seq 0 t1 ?ws (\<lambda>_. JUNK) 0 = Some [Run ?v1 None, Run ?v2 None]" for t1
    using turtle_seq_words [of w1 0 t1 "[[59, 59]] @ w2" "\<lambda>_. JUNK" 0] sep(1) c1 s2 by (simp add: Let_def)
  moreover have "hd ?ws = hd w1" "?ws \<noteq> []" using assms(2) by simp_all
  ultimately have "turtle_line ?ws = Some [Run ?v1 None, Run ?v2 None, Run (vec ?ws) None]"
    using assms(6) sep by (simp add: turtle_line_def last_pos_none Let_def)
  then show ?thesis using a1 a2 a3 by blast
qed

lemma turtle_runs_again_witness:
  "\<exists>v1 v2 v3. turtle_line [[108], [59, 59], [112]] = Some [Run v1 None, Run v2 None, Run v3 None]
    \<and> argv_of v1 = Some [[108]] \<and> argv_of v2 = Some [[112]] \<and> argv_of v3 = Some [[108], [59, 59], [112]]"
  using turtle_runs_again [of "[[112]]" "[[108]]"] by (simp add: MAX_NUM_TOKENS_def exit_word_def)

end
