(* ===== verification/Spec2Isabelle.thy ===== *)
theory Spec2Isabelle
  imports Boot Mp Devices LogSpec Sleepwake Kalloc PipeSpec ConsoleSpec GrowSpec DirSpec MkfsRead TaskSpec ProcSpec SysSpec VmSpec LazySpec SignalSpec Siblings GrepSpec Userfiles UmallocSpec Rwlock Barrier Semaphore EmufsTypes ShSpec Shmain Hostsh
begin

text \<open>
  Verification of the kernel in \<^verbatim>\<open>src/160050097-labquiz4/xv6\<close>: a teaching kernel for the x86 (xv6) with the task
  master of lab quiz 4 added to \<^verbatim>\<open>proc.c\<close>, of user programs that run on it, and of the programs of other
  exercises that have a logic of their own. File names below are relative to that directory where no other is given.
  The repository holds several copies of the same kernel for other exercises; this one is the most complete.

  \<^bold>\<open>The program.\<close> User programs enter the kernel by traps (\<^verbatim>\<open>trap.c\<close>). A system call fetches its arguments
  from user memory (\<^verbatim>\<open>syscall.c\<close>) and runs in \<^verbatim>\<open>sysproc.c\<close> or \<^verbatim>\<open>sysfile.c\<close>. Processes (\<^verbatim>\<open>proc.c\<close>) have page tables
  (\<^verbatim>\<open>vm.c\<close>) over pages from the page allocator (\<^verbatim>\<open>kalloc.c\<close>), sleep on channels and are run by the scheduler.
  Files (\<^verbatim>\<open>file.c\<close>) are pipes (\<^verbatim>\<open>pipe.c\<close>), devices (\<^verbatim>\<open>console.c\<close>, \<^verbatim>\<open>kbd.c\<close>, \<^verbatim>\<open>uart.c\<close>) or inodes (\<^verbatim>\<open>fs.c\<close>), whose blocks
  pass through a redo log (\<^verbatim>\<open>log.c\<close>) and the buffer cache (\<^verbatim>\<open>bio.c\<close>) to the disk driver (\<^verbatim>\<open>ide.c\<close>). Spin locks
  (\<^verbatim>\<open>spinlock.c\<close>) and sleep locks (\<^verbatim>\<open>sleeplock.c\<close>) protect all of it.

  \<^bold>\<open>How the code is modelled.\<close> A function of the kernel is a HOL function on the kernel state with a
  result of type \<open>res\<close> (\<open>KPrelude\<close>): \<open>Ok\<close> a value and the new state, \<open>Panic\<close> with the message of
  \<open>panic\<close>, \<open>Block\<close> with the channel when the thread goes to sleep, \<open>Spin\<close> when a loop runs for ever.
  The state is a record that grows with the layers (\<open>ksys\<close>, \<open>bio\<close>, \<open>logk\<close>, \<open>fsk\<close>, \<open>consk\<close>, \<open>vmk\<close>, \<open>filek\<close>,
  \<open>prock\<close>, \<open>taskk\<close>, \<open>trapk\<close>), so a lower layer runs unchanged on the state of a higher one. Memory and
  disk blocks are functions from addresses to bytes; the C types \<open>uint\<close> and \<open>int\<close> are naturals and
  integers with the wrap-around modulo \<open>2 ^ 32\<close> written out (\<open>wrap32\<close>, \<open>sub32\<close>, \<open>u32_of\<close>). The model follows
  one thread through the kernel; others run where it sleeps, yields or returns. The interleaving of the steps of
  several processors is modelled where it matters: in the implementation of spin locks, and for \<open>sleep\<close> and \<open>wakeup\<close>.

  \<^bold>\<open>Theories, bottom up\<close> (model; what its lemmas show):
    \<^item> \<open>KPrelude\<close>: results, their total-correctness judgement \<open>okP\<close>, bytes and words; \<open>Ring\<close>: ring buffers, locale
      \<open>byte_queue\<close>; \<open>Demo\<close>: the concrete machine of the witnesses.
    \<^item> \<open>CString\<close> (\<^verbatim>\<open>string.c\<close>): each function computes the list function it is meant to.
    \<^item> \<open>Spinlock\<close> (\<^verbatim>\<open>spinlock.c\<close>, \<open>mycpu\<close>): sequential operations and the step relation \<open>lock_step\<close> of their atomic
      steps on any number of processors; mutual exclusion and absence of panics by rule induction;
      locale \<open>spin_lock\<close>, interpreted on this implementation and on the abstract locks of the rest.
    \<^item> \<open>Kstate\<close> (\<^verbatim>\<open>proc.h\<close>, \<open>wakeup\<close>), \<open>Kalloc\<close> (\<^verbatim>\<open>kalloc.c\<close>): the free list threaded through memory is a stack; locale
      \<open>page_pool\<close>.
    \<^item> \<open>Sleepwake\<close> (\<open>sleep\<close>, \<open>wakeup\<close>, \<open>kill\<close> of \<^verbatim>\<open>proc.c\<close>, \<^verbatim>\<open>sleeplock.c\<close>): their atomic steps in any number of processes on any number of
      sleep locks; mutual exclusion, no lost wakeup, progress.
    \<^item> \<open>Sleeplock\<close>, \<open>Bio\<close> (\<^verbatim>\<open>ide.c\<close>, \<^verbatim>\<open>bio.c\<close>), \<open>BioSpec\<close>: the cache invariant (a block is cached once, clean buffers
      agree with the disk) and the locale \<open>block_cache\<close>.
    \<^item> \<open>Log\<close> (\<^verbatim>\<open>log.c\<close>), \<open>LogSpec\<close>: a crash keeps a prefix of the sector writes; commit and recovery are atomic.
      \<open>Txn\<close>: the view of blocks inside a transaction, locale \<open>block_txn\<close>.
    \<^item> \<open>Inode\<close>, \<open>Fs\<close> (\<^verbatim>\<open>fs.c\<close>), \<open>InodeSpec\<close>, \<open>ContentSpec\<close>, \<open>GrowSpec\<close>, \<open>DirSpec\<close>: block bitmap, inode cache, file content as
      an array of bytes that writes may make longer, directories as lists of entries, splitting of paths. The invariant of a
      file, \<open>file_ok\<close>: its blocks, its indirect block and the block of its inode are distinct and in use.
    \<^item> \<open>Mkfs\<close> (\<^verbatim>\<open>mkfs.c\<close>), \<open>MkfsBlocks\<close>, \<open>MkfsSpec\<close>, \<open>MkfsRead\<close>: the program that builds the disk image. Its invariant \<open>rep\<close>
      relates the sectors handed out to the block slots of the inodes, one to one; the kernel reads back the files,
      finds them in the root directory, and its bitmap is exact.
    \<^item> \<open>Console\<close> (\<^verbatim>\<open>console.c\<close>, \<^verbatim>\<open>uart.c\<close>), \<open>Kbd\<close> (\<^verbatim>\<open>kbd.c\<close>), \<open>ConsoleSpec\<close>: output as text, input as a line editor.
    \<^item> \<open>Vm\<close> (\<^verbatim>\<open>vm.c\<close>), \<open>UserMem\<close>, \<open>VmSpec\<close>: page tables in memory, address translation, termination of shrinking.
    \<^item> \<open>Boot\<close> (\<^verbatim>\<open>bootmain.c\<close>): the boot loader over memory and sectors; the segments of the kernel are where they belong.
      \<open>Mp\<close> (\<^verbatim>\<open>mp.c\<close>): the tables of the firmware; the processors found, and the entry on which \<open>mpinit\<close> hangs.
    \<^item> \<open>Devices\<close> (\<^verbatim>\<open>memide.c\<close>, \<open>ideinit\<close>, \<open>uartinit\<close>, \<open>seginit\<close>, \<^verbatim>\<open>ioapic.c\<close>, \<^verbatim>\<open>picirq.c\<close>, \<^verbatim>\<open>lapic.c\<close>): the disk in memory serves
      requests as the disk does; interrupt lines go where they are routed; segments are flat; dates are not torn.
    \<^item> \<open>Lazy\<close>, \<open>LazySpec\<close> (\<^verbatim>\<open>src/160050097_lab6/\<close>): \<open>sbrk\<close> that only promises memory and the page fault handler that supplies it: the
      process goes on in user mode (\<open>user_access\<close> tests the flags as the processor does) and sees zeros, then what it writes;
      lookup of physical addresses.
    \<^item> \<open>File\<close> (\<^verbatim>\<open>file.c\<close>, \<^verbatim>\<open>pipe.c\<close>), \<open>PipeSpec\<close>: a pipe is a bounded queue.
    \<^item> \<open>Proc\<close> (\<^verbatim>\<open>proc.c\<close>), \<open>Exec\<close> (\<^verbatim>\<open>exec.c\<close>), \<open>Taskmaster\<close>, \<open>ProcSpec\<close>, \<open>TaskSpec\<close>: identifiers, scheduling, sleeping, the life of
      a task. A context switch cuts a function into an enter and an exit part.
    \<^item> \<open>RoundRobin\<close>: a pass over the process table, locale \<open>round_robin\<close>, interpreted on the schedulers of \<open>Proc\<close> and of
      \<open>Signals\<close>, \<open>SignalSpec\<close> (\<^verbatim>\<open>src/160050097_lab5/\<close>): signals, timed pauses, orphans that go to their grandparent.
    \<^item> \<open>Siblings\<close> (\<^verbatim>\<open>src/160050097_lab4/\<close>): the call that prints the siblings of a process.
    \<^item> \<open>Sysfile\<close>, \<open>Syscall\<close>, \<open>Trap\<close>, \<open>SysSpec\<close>: the boundary to user programs.
    \<^item> \<open>Ulib\<close> (\<^verbatim>\<open>ulib.c\<close>), \<open>Uprintf\<close> (\<^verbatim>\<open>printf.c\<close>), \<open>Grep\<close> (\<^verbatim>\<open>grep.c\<close>), \<open>GrepSpec\<close>: user programs see the kernel as an input that arrives in
      pieces and an output (\<open>uio\<close>). The pattern matcher decides a regular language; \<open>grep\<close> prints the matching lines of a file.
    \<^item> \<open>Userprogs\<close> (\<^verbatim>\<open>cat.c\<close>, \<^verbatim>\<open>wc.c\<close>, \<^verbatim>\<open>echo.c\<close>): what they write, in whatever pieces the input arrives; \<open>Textfields\<close>: the words of a text.
      \<open>Userfiles\<close>: \<open>grep\<close> over the files of its arguments, \<open>stat\<close>, the names \<^verbatim>\<open>ls.c\<close> prints.
    \<^item> \<open>Hostsh\<close> (\<^verbatim>\<open>src/160050097_labquiz1/\<close>, \<^verbatim>\<open>src/160050097_lab3/turtles/turtle.c\<close>): three shells of the host that share \<open>tokenize\<close>, with the
      undefined cells of their arrays; the programs they start, with their words and open files.
    \<^item> \<open>Umalloc\<close>, \<open>UmallocSpec\<close> (\<^verbatim>\<open>umalloc.c\<close>): the user-level allocator, a ring of free blocks threaded through memory; its
      invariant \<open>ring_ok\<close>, the disjointness of allocated blocks, the recombining of freed ones; locale \<open>allocator\<close>.
    \<^item> \<open>Sh\<close>, \<open>ShSpec\<close> (\<^verbatim>\<open>sh.c\<close>): the recursive descent parser of the shell against the grammar \<open>g_line\<close>, an inductive
      relation; \<open>nulterminate\<close>; the file descriptors the commands of a line get from \<open>runcmd\<close>. \<open>Shmain\<close>: the loop over
      the lines of the input, with \<open>cd\<close>.
    \<^item> \<open>Threads\<close>, \<open>Rwlock\<close> (\<^verbatim>\<open>src/160050097_lab9/\<close>), \<open>Barrier\<close> (\<^verbatim>\<open>src/160050097-labquiz3/part2/barrier.c\<close>): monitors of POSIX threads as step relations
      over any number of threads, whose program counters name the points between two atomic actions. The barrier is correct exactly
      when there are no spurious wakeups.
    \<^item> \<open>Semaphore\<close> (\<^verbatim>\<open>src/160050097-labquiz3/part1/xv6/\<close>: \<^verbatim>\<open>sysproc.c\<close>, \<open>cv_sleep\<close> of \<^verbatim>\<open>proc.c\<close>): semaphores in the kernel as a step
      relation of any number of processes, with sleeping, waking up and killing.
    \<^item> \<open>Emudisk\<close>, \<open>Emufs\<close>, \<open>EmufsInv\<close>, \<open>EmufsSpec\<close>, \<open>EmufsTypes\<close> (\<^verbatim>\<open>src/160050097_lab11/\<close>): the emulated disk and the file system on it, on the bytes
      of the device; the invariant \<open>fs_wf\<close>; files as lists of bytes; sessions of calls, which stay well typed.

  \<^bold>\<open>Loops.\<close> A loop is structural recursion on a bound that the code cannot exceed, taken from the data
  it walks over: entries of a table, bytes left to copy, blocks of a bitmap (\<open>sb_size div BPB + 1\<close>),
  pages of an address range, characters of a path. The loops of the user programs whose bound is an invariant of their data (\<open>free_find\<close>,
  \<open>malloc_loop\<close> of the allocator) are partial functions, with the theorem that they return; the shell's parser gets
  \<open>rounds\<close>, one more than the characters left, as each round consumes one. Where the code may really loop for ever
  (\<open>deallocuvm\<close> on a range that wraps, \<open>wait_for_task_to_complete\<close> on a vanished entry, a lock taken twice) running out
  is the result \<open>Spin\<close>, and the properties state that the result is \<open>Ok\<close>, never only what holds if it is.

  \<^bold>\<open>Hardware.\<close> The disk is its sectors and a register set; a read or write command completes at the next interrupt.
  The screen is its memory, the serial port the list of bytes sent. Stores are sequentially consistent.

  \<^bold>\<open>Not modelled.\<close> The order of the init functions in \<open>main\<close> and the start of the other processors (\<^verbatim>\<open>main.c\<close>): calls of
  functions modelled elsewhere. Assembly. Polling loops that wait for a device are taken to end. Processes of the shell as
  separate threads (the order in which \<open>fork\<close> and \<open>wait\<close> interleave). User programs that only pass their arguments to system calls.
  The test and demonstration programs and the other exercises.
\<close>

end
